(* ===== verification/Prelude.thy ===== *)
theory Prelude
  imports Main "HOL-Library.Monad_Syntax"
begin

text \<open>
  Shared ground of the development.

  A C++ routine over arrays is a partial function: a do-block over \<open>option\<close> in which every
  array read and write checks its index.  \<open>None\<close> is undefined behaviour (an access outside the
  array, or a loop that never stops); \<open>Some r\<close> is a run that stays inside its arrays, returns and
  yields \<open>r\<close>.  So a theorem \<open>f x = Some r\<close> says three things: \<open>f\<close> is memory safe on \<open>x\<close>, it
  terminates, and it returns \<open>r\<close>.  Exceptions of the source are values inside that type
  (\<open>Some (Inl e)\<close>).

  The theory holds the access functions, the loops, a small total-correctness calculus for them
  (\<open>ok m P\<close>: \<open>m\<close> returns and its result satisfies \<open>P\<close>; the rewrite rules are collected in
  \<open>ok_simps\<close>) and the list lemmas that the components share.
\<close>

named_theorems ok_simps \<open>weakest preconditions of the constructs of the model\<close>
named_theorems list_rw \<open>lemmas on lists, blocks and updates shared by the components\<close>

subsection \<open>Array access\<close>

definition rd :: "'a list \<Rightarrow> nat \<Rightarrow> 'a option" where
  "rd xs i = (if i < length xs then Some (xs ! i) else None)"

definition wr :: "'a list \<Rightarrow> nat \<Rightarrow> 'a \<Rightarrow> 'a list option" where
  "wr xs i v = (if i < length xs then Some (xs[i := v]) else None)"

text \<open>Reading a block: \<open>n\<close> consecutive cells from index \<open>i\<close>.\<close>

definition rd_block :: "'a list \<Rightarrow> nat \<Rightarrow> nat \<Rightarrow> 'a list option" where
  "rd_block xs i n = (if i + n \<le> length xs then Some (take n (drop i xs)) else None)"

subsection \<open>Loops\<close>

text \<open>A counted loop: \<open>for_each f [lo..<hi] s\<close> is \<open>for (i = lo; i < hi; i++) s = f(i, s)\<close>.\<close>

fun for_each :: "('x \<Rightarrow> 's \<Rightarrow> 's option) \<Rightarrow> 'x list \<Rightarrow> 's \<Rightarrow> 's option" where
  "for_each f [] s = Some s"
| "for_each f (x # xs) s = do { s' \<leftarrow> f x s; for_each f xs s' }"

text \<open>A loop that fills a vector: cell \<open>k\<close> becomes \<open>f\<close> of the \<open>k\<close>-th element of \<open>xs\<close>.\<close>

fun omap :: "('a \<Rightarrow> 'b option) \<Rightarrow> 'a list \<Rightarrow> 'b list option" where
  "omap f [] = Some []"
| "omap f (x # xs) = do { y \<leftarrow> f x; ys \<leftarrow> omap f xs; Some (y # ys) }"

text \<open>A \<open>while\<close> loop; \<open>None\<close> where the body fails or the loop does not stop.\<close>

partial_function (option) cwhile ::
  "('s \<Rightarrow> bool) \<Rightarrow> ('s \<Rightarrow> 's option) \<Rightarrow> 's \<Rightarrow> 's option" where
  "cwhile c b s = (if c s then do { s' \<leftarrow> b s; cwhile c b s' } else Some s)"

declare cwhile.simps [code]

subsection \<open>The calculus\<close>

definition ok :: "'a option \<Rightarrow> ('a \<Rightarrow> bool) \<Rightarrow> bool" where
  "ok m P = (case m of None \<Rightarrow> False | Some x \<Rightarrow> P x)"

lemma ok_Some [ok_simps, simp]: "ok (Some x) P = P x"
  by (simp add: ok_def)

lemma ok_None [ok_simps, simp]: "ok None P = False"
  by (simp add: ok_def)

lemma ok_bind [ok_simps]: "ok (m \<bind> f) P = ok m (\<lambda>x. ok (f x) P)"
  by (cases m) (simp_all add: ok_def)

lemma ok_if [ok_simps]:
  "ok (if b then m else m') P = ((b \<longrightarrow> ok m P) \<and> (\<not> b \<longrightarrow> ok m' P))"
  by simp

lemma ok_rd [ok_simps]: "ok (rd xs i) P = (i < length xs \<and> P (xs ! i))"
  by (simp add: rd_def)

lemma ok_wr [ok_simps]: "ok (wr xs i v) P = (i < length xs \<and> P (xs[i := v]))"
  by (simp add: wr_def)

lemma ok_rd_block [ok_simps]:
  "ok (rd_block xs i n) P = (i + n \<le> length xs \<and> P (take n (drop i xs)))"
  by (simp add: rd_block_def)

lemma ok_eq: "ok m (\<lambda>x. x = v) \<longleftrightarrow> m = Some v"
  by (cases m) (auto simp: ok_def)

lemma ok_iff_ex: "ok m P \<longleftrightarrow> (\<exists>x. m = Some x \<and> P x)"
  by (cases m) (auto simp: ok_def)

lemma okE: "ok m P \<Longrightarrow> (\<And>x. m = Some x \<Longrightarrow> P x \<Longrightarrow> thesis) \<Longrightarrow> thesis"
  by (cases m) (simp_all add: ok_def)

lemma ok_mono: "ok m P \<Longrightarrow> (\<And>x. P x \<Longrightarrow> Q x) \<Longrightarrow> ok m Q"
  by (cases m) (auto simp: ok_def)

lemma ok_SomeD: "ok m P \<Longrightarrow> m = Some x \<Longrightarrow> P x"
  by simp

lemma rd_Some [simp]: "i < length xs \<Longrightarrow> rd xs i = Some (xs ! i)"
  by (simp add: rd_def)

lemma wr_Some [simp]: "i < length xs \<Longrightarrow> wr xs i v = Some (xs[i := v])"
  by (simp add: wr_def)

lemma rd_None_iff: "rd xs i = None \<longleftrightarrow> length xs \<le> i"
  by (simp add: rd_def)

lemma rd_block_Some [simp]: "i + n \<le> length xs \<Longrightarrow> rd_block xs i n = Some (take n (drop i xs))"
  by (simp add: rd_block_def)

text \<open>The rule of the counted loop: the invariant is indexed by the part already done.\<close>

lemma ok_for_each_gen:
  assumes "I pre s"
    and "\<And>pre x post s. zs = pre @ x # post \<Longrightarrow> I pre s \<Longrightarrow> ok (f x s) (I (pre @ [x]))"
    and "zs = pre @ xs"
  shows "ok (for_each f xs s) (I zs)"
  using assms(1,3)
proof (induction xs arbitrary: pre s)
  case Nil
  then show ?case by simp
next
  case (Cons x xs)
  have "ok (f x s) (I (pre @ [x]))" using assms(2) Cons.prems by blast
  then obtain s' where s': "f x s = Some s'" "I (pre @ [x]) s'"
    by (auto simp: ok_iff_ex)
  have "ok (for_each f xs s') (I zs)"
    using Cons.IH [OF s'(2)] Cons.prems(2) by simp
  then show ?case using s'(1) by simp
qed

lemma ok_for_each:
  assumes "I [] s"
    and "\<And>pre x post s. xs = pre @ x # post \<Longrightarrow> I pre s \<Longrightarrow> ok (f x s) (I (pre @ [x]))"
  shows "ok (for_each f xs s) (I xs)"
  using ok_for_each_gen [of I "[]" s xs f xs] assms by simp

lemma ok_for_range:
  assumes start: "I lo s"
    and step: "\<And>i s. lo \<le> i \<Longrightarrow> i < hi \<Longrightarrow> I i s \<Longrightarrow> ok (f i s) (I (Suc i))"
    and le: "lo \<le> hi"
  shows "ok (for_each f [lo..<hi] s) (I hi)"
proof -
  have "ok (for_each f [lo..<hi] s) ((\<lambda>pre. I (lo + length pre)) [lo..<hi])"
  proof (rule ok_for_each)
    show "I (lo + length []) s" using start by simp
    fix pre x post s
    assume split: "[lo..<hi] = pre @ x # post" and inv: "I (lo + length pre) s"
    have len: "length pre < hi - lo" using arg_cong [OF split, of length] by simp
    have "x = [lo..<hi] ! length pre" using split by simp
    then have "x = lo + length pre" using len by (simp add: nth_upt)
    then show "ok (f x s) (I (lo + length (pre @ [x])))"
      using step [of x s] inv len by simp
  qed
  then show ?thesis using le by simp
qed

lemma for_each_cong:
  "(\<And>x s. x \<in> set xs \<Longrightarrow> f x s = g x s) \<Longrightarrow> for_each f xs s = for_each g xs s"
  by (induction xs arbitrary: s) (simp_all split: Option.bind_splits)

lemma for_each_append:
  "for_each f (xs @ ys) s = do { s' \<leftarrow> for_each f xs s; for_each f ys s' }"
  by (induction xs arbitrary: s) (simp_all add: bind_eq_Some_conv split: Option.bind_splits)

text \<open>The rule of the \<open>while\<close> loop: an invariant and a measure.\<close>

lemma ok_while:
  assumes "I s"
    and "\<And>s. I s \<Longrightarrow> c s \<Longrightarrow> ok (b s) (\<lambda>s'. I s' \<and> (m s' :: nat) < m s)"
    and "\<And>s. I s \<Longrightarrow> \<not> c s \<Longrightarrow> P s"
  shows "ok (cwhile c b s) P"
  using assms(1)
proof (induction "m s" arbitrary: s rule: less_induct)
  case less
  show ?case
  proof (cases "c s")
    case True
    then obtain s' where "b s = Some s'" "I s'" "m s' < m s"
      using assms(2) [OF less.prems True] by (auto simp: ok_iff_ex)
    then show ?thesis using less.hyps [of s'] True by (simp add: cwhile.simps)
  next
    case False
    then show ?thesis using assms(3) less.prems by (simp add: cwhile.simps)
  qed
qed

lemma omap_Some:
  "(\<And>x. x \<in> set xs \<Longrightarrow> f x = Some (g x)) \<Longrightarrow> omap f xs = Some (map g xs)"
  by (induction xs) simp_all

lemma ok_omap [ok_simps]:
  "ok (omap f xs) P \<longleftrightarrow> (\<exists>ys. list_all2 (\<lambda>x y. f x = Some y) xs ys \<and> P ys)"
proof (induction xs arbitrary: P)
  case Nil
  then show ?case by simp
next
  case (Cons x xs)
  show ?case by (cases "f x") (auto simp: ok_bind Cons.IH list_all2_Cons1)
qed

lemma omap_eq_Some_iff:
  "omap f xs = Some ys \<longleftrightarrow> list_all2 (\<lambda>x y. f x = Some y) xs ys"
  using ok_omap [of f xs "\<lambda>x. x = ys"] by (simp add: ok_eq)

lemma omap_length: "omap f xs = Some ys \<Longrightarrow> length ys = length xs"
  by (auto simp: omap_eq_Some_iff list_all2_lengthD)

lemma for_each_map: "for_each f (map g xs) s = for_each (\<lambda>x. f (g x)) xs s"
  by (induction xs arbitrary: s) (simp_all split: Option.bind_splits)

lemma zip_map_self: "zip xs (map f xs) = map (\<lambda>x. (x, f x)) xs"
  by (induction xs) simp_all

subsection \<open>Copying a run of cells\<close>

text \<open>\<open>for (j = 0; j < n; j++) dst[b + j] = src[a + j];\<close>\<close>

definition copy_cells :: "'a list \<Rightarrow> nat \<Rightarrow> 'a list \<Rightarrow> nat \<Rightarrow> nat \<Rightarrow> 'a list option" where
  "copy_cells src a dst b n =
     for_each (\<lambda>j dst. do { v \<leftarrow> rd src (a + j); wr dst (b + j) v }) [0..<n] dst"

lemma take_drop_Suc:
  "i + n < length xs \<Longrightarrow> take (Suc n) (drop i xs) = take n (drop i xs) @ [xs ! (i + n)]"
  by (simp add: take_Suc_conv_app_nth)

lemma list_update_mid [list_rw]: "length p = i \<Longrightarrow> (p @ x # q)[i := v] = p @ v # q"
  by auto

lemma copy_cells_eq:
  assumes "a + n \<le> length src" "b + n \<le> length dst"
  shows "copy_cells src a dst b n = Some (take b dst @ take n (drop a src) @ drop (b + n) dst)"
proof -
  let ?I = "\<lambda>k d. d = take b dst @ take k (drop a src) @ drop (b + k) dst"
  have "ok (copy_cells src a dst b n) (?I n)"
    unfolding copy_cells_def
  proof (rule ok_for_range)
    show "?I 0 dst" by simp
    fix k d
    assume k: "k < n" and d: "?I k d"
    have "drop (b + k) dst = dst ! (b + k) # drop (Suc (b + k)) dst"
      using assms k by (simp add: Cons_nth_drop_Suc)
    moreover have "length (take b dst @ take k (drop a src)) = b + k" using assms k by simp
    ultimately have "d[b + k := src ! (a + k)] = take b dst @ take k (drop a src) @ src ! (a + k) # drop (Suc (b + k)) dst"
      using d list_update_mid [of "take b dst @ take k (drop a src)" "b + k"] by simp
    also have "\<dots> = take b dst @ take (Suc k) (drop a src) @ drop (b + Suc k) dst"
      using assms k by (simp add: take_drop_Suc)
    finally show "ok (do { v \<leftarrow> rd src (a + k); wr d (b + k) v }) (?I (Suc k))"
      using assms k d by (simp add: ok_simps)
  qed simp
  then show ?thesis by (simp add: ok_eq)
qed

lemma copy_cells_run:
  assumes "take (length xs) (drop a src) = xs" "b + length xs \<le> length dst"
  shows "copy_cells src a dst b (length xs) = Some (take b dst @ xs @ drop (b + length xs) dst)"
proof (cases "xs = []")
  case True
  then show ?thesis by (simp add: copy_cells_def)
next
  case False
  have "length xs \<le> length src - a" using arg_cong [OF assms(1), of length] by simp
  then have "a + length xs \<le> length src" using False by (cases xs) auto
  then show ?thesis using copy_cells_eq [of a "length xs" src b dst] assms by simp
qed

subsection \<open>core/utility.hpp\<close>

definition ceil_div :: "nat \<Rightarrow> nat \<Rightarrow> nat" where
  "ceil_div a b = (if a = 0 then 0 else (a - 1) div b + 1)"

lemma ceil_div_2: "ceil_div a 2 = (a + 1) div 2"
  by (cases a) (simp_all add: ceil_div_def)

lemma ceil_div_le: "0 < b \<Longrightarrow> a \<le> ceil_div a b * b"
proof (cases "a = 0")
  case False
  assume "0 < b"
  have "a - 1 < b + (a - 1) div b * b" by (rule dividend_less_div_times [OF \<open>0 < b\<close>])
  then show ?thesis using False by (simp add: ceil_div_def)
qed simp

end
