(* ===== verification/Rake.thy ===== *)
theory Rake
  imports Prelude
begin

text \<open>
  Loop raking, the way this code vectorises a scan that compacts its hits.

  A range of \<open>size\<close> items is cut into \<open>V\<close> lanes of \<open>each\<close> consecutive items and a tail of
  \<open>rest\<close> items.  Row \<open>j\<close> handles item \<open>j\<close> of every lane, so the vector unit works on \<open>V\<close> items
  that are \<open>each\<close> apart.  Every lane \<open>l\<close> owns the part of the work buffer that starts at
  \<open>each * l\<close> and appends its hits there (\<open>out_ridx[l]\<close> is its write position); the tail is
  scanned sequentially into the part from \<open>each * V\<close> on.  At the end the hits of all lanes and
  of the tail are copied together.

  The same code shape is instantiated by find_condition.hpp, find.cc and the trimming routines of
  words.cc, so it is modelled once: \<open>probe\<close> is what a row computes for all its lanes before any of
  them is written (the flag registers), \<open>commit\<close> is the per-lane update and says whether the item
  is a hit.  Split vector registers (\<open>out_ridx_0\<close>, \<open>out_ridx_1\<close>, ...) are held as one list in the
  order in which the code spills them (\<open>out_ridx[v_q] = out_ridx_q[i]\<close>, \<open>v_q = i + q * VLEN_EACH\<close>);
  the order in which a row visits the lanes is the parameter \<open>lanes\<close>.

  The locale \<open>rake_visit\<close> is the contract of such a scan; its main lemma says that raking emits
  exactly the hits of the sequential scan, in the sequential order.
\<close>

subsection \<open>The code\<close>

definition rake_push ::
  "nat \<Rightarrow> 'v option \<Rightarrow> nat list \<Rightarrow> 'v list \<Rightarrow> (nat list \<times> 'v list) option" where
  "rake_push lane out ridx buf =
     (case out of
        None \<Rightarrow> Some (ridx, buf)
      | Some v \<Rightarrow> do {
          p \<leftarrow> rd ridx lane;
          buf' \<leftarrow> wr buf p v;
          ridx' \<leftarrow> wr ridx lane (p + 1);
          Some (ridx', buf') })"

definition rake_row ::
  "(nat \<Rightarrow> 's \<Rightarrow> 'f option) \<Rightarrow> (nat \<Rightarrow> 'f \<Rightarrow> 's \<Rightarrow> ('s \<times> 'v option) option) \<Rightarrow>
   nat list \<Rightarrow> nat \<Rightarrow> nat \<Rightarrow> 's \<times> nat list \<times> 'v list \<Rightarrow> ('s \<times> nat list \<times> 'v list) option" where
  "rake_row probe commit lanes each j st = do {
     flags \<leftarrow> omap (\<lambda>l. probe (j + each * l) (fst st)) lanes;
     for_each (\<lambda>(l, flag) (s, ridx, buf). do {
         (s', out) \<leftarrow> commit (j + each * l) flag s;
         (ridx', buf') \<leftarrow> rake_push l out ridx buf;
         Some (s', ridx', buf') }) (zip lanes flags) st }"

definition rake_rest ::
  "(nat \<Rightarrow> 's \<Rightarrow> 'f option) \<Rightarrow> (nat \<Rightarrow> 'f \<Rightarrow> 's \<Rightarrow> ('s \<times> 'v option) option) \<Rightarrow>
   nat \<Rightarrow> nat \<Rightarrow> 's \<times> 'v list \<Rightarrow> ('s \<times> nat \<times> 'v list) option" where
  "rake_rest probe commit start rest st =
     for_each (\<lambda>j (s, rest_idx, buf). do {
         flag \<leftarrow> probe (j + start) s;
         (s', out) \<leftarrow> commit (j + start) flag s;
         case out of
           None \<Rightarrow> Some (s', rest_idx, buf)
         | Some v \<Rightarrow> do { buf' \<leftarrow> wr buf rest_idx v; Some (s', rest_idx + 1, buf') } })
       [0..<rest] (fst st, start, snd st)"

definition rake_scan ::
  "nat \<Rightarrow> nat list \<Rightarrow> (nat \<Rightarrow> 's \<Rightarrow> 'f option) \<Rightarrow>
   (nat \<Rightarrow> 'f \<Rightarrow> 's \<Rightarrow> ('s \<times> 'v option) option) \<Rightarrow> nat \<Rightarrow> nat \<Rightarrow> 's \<Rightarrow> 'v list \<Rightarrow>
   ('s \<times> nat list \<times> nat \<times> 'v list) option" where
  "rake_scan V lanes probe commit each rest s buf = do {
     (s, ridx, buf) \<leftarrow> for_each (rake_row probe commit lanes each) [0..<each]
                         (s, map (\<lambda>i. each * i) [0..<V], buf);
     (s, rest_idx, buf) \<leftarrow> rake_rest probe commit (each * V) rest (s, buf);
     Some (s, ridx, rest_idx, buf) }"

text \<open>\<open>sizes[i] = out_ridx[i] - each * i\<close>, and their sum with the hits of the tail.\<close>

definition rake_sizes :: "nat \<Rightarrow> nat \<Rightarrow> nat list \<Rightarrow> nat list option" where
  "rake_sizes V each ridx = omap (\<lambda>i. do { p \<leftarrow> rd ridx i; Some (p - each * i) }) [0..<V]"

definition rake_copy ::
  "nat \<Rightarrow> nat \<Rightarrow> nat list \<Rightarrow> nat \<Rightarrow> 'v list \<Rightarrow> 'v list \<Rightarrow> 'v list option" where
  "rake_copy V each sizes rest_size buf dst = do {
     (current, dst) \<leftarrow> for_each (\<lambda>i (current, dst). do {
         n \<leftarrow> rd sizes i;
         dst' \<leftarrow> copy_cells buf (each * i) dst current n;
         Some (current + n, dst') }) [0..<V] (0, dst);
     copy_cells buf (each * V) dst current rest_size }"

text \<open>Scan, then compaction into the vector \<open>mk total\<close>.\<close>

definition rake_compact ::
  "nat \<Rightarrow> nat list \<Rightarrow> (nat \<Rightarrow> 's \<Rightarrow> 'f option) \<Rightarrow>
   (nat \<Rightarrow> 'f \<Rightarrow> 's \<Rightarrow> ('s \<times> 'v option) option) \<Rightarrow> nat \<Rightarrow> nat \<Rightarrow> 's \<Rightarrow> 'v list \<Rightarrow>
   (nat \<Rightarrow> 'v list) \<Rightarrow> ('s \<times> nat \<times> 'v list) option" where
  "rake_compact V lanes probe commit each rest s buf mk = do {
     (s, ridx, rest_idx, buf) \<leftarrow> rake_scan V lanes probe commit each rest s buf;
     sizes \<leftarrow> rake_sizes V each ridx;
     let rest_size = rest_idx - each * V;
     let total = sum_list sizes + rest_size;
     ret \<leftarrow> rake_copy V each sizes rest_size buf (mk total);
     Some (s, total, ret) }"

subsection \<open>Hits of a sequential scan\<close>

definition hits :: "(nat \<Rightarrow> 'v option) \<Rightarrow> nat list \<Rightarrow> 'v list" where
  "hits emit is = List.map_filter emit is"

lemma hits_Nil [simp]: "hits emit [] = []"
  by (simp add: hits_def map_filter_simps)

lemma hits_Cons [simp]:
  "hits emit (i # is) = (case emit i of None \<Rightarrow> hits emit is | Some v \<Rightarrow> v # hits emit is)"
  by (simp add: hits_def map_filter_simps split: option.split)

lemma hits_append [simp]: "hits emit (is @ js) = hits emit is @ hits emit js"
  by (induction "is") (auto split: option.splits)

lemma length_hits: "length (hits emit is) \<le> length is"
  by (induction "is") (auto split: option.splits)

lemma hits_cong: "(\<And>i. i \<in> set is \<Longrightarrow> f i = g i) \<Longrightarrow> hits f is = hits g is"
  by (induction "is") (auto split: option.splits)

lemma hits_filter: "hits (\<lambda>i. if P i then Some (f i) else None) is = map f (filter P is)"
  by (induction "is") auto

lemma hits_map: "hits emit (map g is) = hits (\<lambda>i. emit (g i)) is"
  by (induction "is") (auto split: option.splits)

lemma hits_concat: "hits emit (concat iss) = concat (map (hits emit) iss)"
  by (induction iss) auto

lemma upt_lanes: "concat (map (\<lambda>l. [each * l..<each * l + each]) [0..<V]) = [0..<each * V]"
proof (induction V)
  case 0
  then show ?case by simp
next
  case (Suc V)
  have "[0..<each * Suc V] = [0..<each * V] @ [each * V..<each * V + each]"
    by (subst upt_add_eq_append [symmetric]) (simp_all add: add.commute)
  then show ?case using Suc by simp
qed

subsection \<open>Lanes do not disturb each other\<close>

text \<open>
  Lane \<open>l\<close>, of which \<open>k\<close> items have been visited, holds exactly the hits of those items.
\<close>

definition lane_ok ::
  "(nat \<Rightarrow> 'v option) \<Rightarrow> nat \<Rightarrow> nat \<Rightarrow> nat \<Rightarrow> nat list \<Rightarrow> 'v list \<Rightarrow> bool" where
  "lane_ok emit each l k ridx buf \<longleftrightarrow>
     (let h = hits emit [each * l..<each * l + k] in
      ridx ! l = each * l + length h \<and> take (length h) (drop (each * l) buf) = h)"

lemma take_drop_update_other:
  "p < a \<or> a + n \<le> p \<Longrightarrow> take n (drop a (xs[p := v])) = take n (drop a xs)"
proof -
  assume "p < a \<or> a + n \<le> p"
  then show ?thesis
    by (auto simp: drop_update_cancel drop_update_swap take_update_cancel)
qed

lemma lane_bounds:
  assumes "l \<noteq> l'" "each * l \<le> p" "p < each * l + each"
  shows "p < each * l' \<or> each * l' + each \<le> (p::nat)"
proof (cases "l < l'")
  case True
  then have "each * Suc l \<le> each * l'" by (intro mult_le_mono2) simp
  then show ?thesis using assms by simp
next
  case False
  then have "each * Suc l' \<le> each * l" using assms(1) by (intro mult_le_mono2) simp
  then show ?thesis using assms by simp
qed

lemma lane_end: "l < V \<Longrightarrow> each * l + each \<le> each * (V::nat)"
  using mult_le_mono2 [of "Suc l" V each] by simp

lemma lane_ok_push:
  assumes "lane_ok emit each l k ridx buf" "k < each" "l < length ridx"
    and "each * l + each \<le> length buf"
  shows "ok (rake_push l (emit (each * l + k)) ridx buf)
           (\<lambda>(ridx', buf'). length ridx' = length ridx \<and> length buf' = length buf \<and>
              lane_ok emit each l (Suc k) ridx' buf' \<and>
              (\<forall>l' k'. l' \<noteq> l \<longrightarrow> k' \<le> each \<longrightarrow>
                 lane_ok emit each l' k' ridx buf \<longrightarrow> lane_ok emit each l' k' ridx' buf'))"
proof -
  let ?h = "hits emit [each * l..<each * l + k]"
  have len: "length ?h \<le> k" using length_hits [of emit "[each * l..<each * l + k]"] by simp
  have ridx: "ridx ! l = each * l + length ?h"
    and buf: "take (length ?h) (drop (each * l) buf) = ?h"
    using assms(1) by (simp_all add: lane_ok_def Let_def)
  show ?thesis
  proof (cases "emit (each * l + k)")
    case None
    then show ?thesis using assms ridx buf by (simp add: rake_push_def lane_ok_def)
  next
    case (Some v)
    let ?p = "each * l + length ?h"
    have p: "?p < length buf" "each * l \<le> ?p" "?p < each * l + each"
      using assms len by simp_all
    have own: "lane_ok emit each l (Suc k) (ridx[l := ?p + 1]) (buf[?p := v])"
      using Some assms(3) p buf
      by (simp add: lane_ok_def take_drop_Suc take_drop_update_other)
    have other: "lane_ok emit each l' k' (ridx[l := ?p + 1]) (buf[?p := v])"
      if "l' \<noteq> l" "k' \<le> each" "lane_ok emit each l' k' ridx buf" for l' k'
    proof -
      have "length (hits emit [each * l'..<each * l' + k']) \<le> each"
        using length_hits [of emit "[each * l'..<each * l' + k']"] that(2) by simp
      moreover have "?p < each * l' \<or> each * l' + each \<le> ?p"
        using lane_bounds [of l l'] that(1) p by blast
      ultimately show ?thesis
        using that(1,3) by (auto simp: lane_ok_def Let_def take_drop_update_other)
    qed
    show ?thesis
      using Some ridx own other assms(3) p(1) by (simp add: rake_push_def ok_simps)
  qed
qed

subsection \<open>The contract of a raked scan\<close>

text \<open>
  \<open>Inv D s\<close>: the items in \<open>D\<close> have been visited and \<open>s\<close> is the state of the code.  An item
  that has not been visited yet probes to a value that does not depend on the order of the
  visits, and its visit emits a fixed value and keeps the invariant.
\<close>

locale rake_visit =
  fixes size :: nat
    and probe :: "nat \<Rightarrow> 's \<Rightarrow> 'f option"
    and commit :: "nat \<Rightarrow> 'f \<Rightarrow> 's \<Rightarrow> ('s \<times> 'v option) option"
    and flag :: "nat \<Rightarrow> 'f"
    and emit :: "nat \<Rightarrow> 'v option"
    and Inv :: "nat set \<Rightarrow> 's \<Rightarrow> bool"
  assumes probe_ok: "Inv D s \<Longrightarrow> i < size \<Longrightarrow> i \<notin> D \<Longrightarrow> probe i s = Some (flag i)"
    and commit_ok: "Inv D s \<Longrightarrow> i < size \<Longrightarrow> i \<notin> D \<Longrightarrow>
      ok (commit i (flag i) s) (\<lambda>(s', out). out = emit i \<and> Inv (insert i D) s')"
begin

definition visited :: "nat \<Rightarrow> nat \<Rightarrow> (nat \<Rightarrow> nat) \<Rightarrow> nat set" where
  "visited V each ks = {i. \<exists>l<V. each * l \<le> i \<and> i < each * l + ks l}"

definition lanes_inv ::
  "nat \<Rightarrow> nat \<Rightarrow> (nat \<Rightarrow> nat) \<Rightarrow> 's \<times> nat list \<times> 'v list \<Rightarrow> bool" where
  "lanes_inv V each ks st = (case st of (s, ridx, buf) \<Rightarrow>
     length ridx = V \<and> size \<le> length buf \<and> Inv (visited V each ks) s \<and>
     (\<forall>l<V. ks l \<le> each \<and> lane_ok emit each l (ks l) ridx buf))"

lemma visited_next:
  assumes "l < V" "ks l < each"
  shows "visited V each (ks(l := Suc (ks l))) = insert (each * l + ks l) (visited V each ks)"
  using assms by (auto simp: visited_def less_Suc_eq split: if_splits)

lemma visited_0: "visited V each (\<lambda>_. 0) = {}"
  by (auto simp: visited_def)

lemma not_visited:
  assumes "l < V" "\<forall>l<V. ks l \<le> each" "ks l < each"
  shows "each * l + ks l \<notin> visited V each ks"
proof
  assume "each * l + ks l \<in> visited V each ks"
  then obtain l' where l': "l' < V" "each * l' \<le> each * l + ks l" "each * l + ks l < each * l' + ks l'"
    by (auto simp: visited_def)
  then have "l \<noteq> l'" by auto
  then have "each * l + ks l < each * l' \<or> each * l' + each \<le> each * l + ks l"
    using assms(3) by (intro lane_bounds) auto
  moreover have "ks l' \<le> each" using assms(2) l'(1) by blast
  ultimately show False using l' by linarith
qed

lemma lane_in_range:
  assumes "l < V" "k < each" "each * V \<le> n"
  shows "each * l + k < n" "each * l + each \<le> (n::nat)"
  using lane_end [OF assms(1), of each] assms by simp_all

text \<open>One lane of one row.\<close>

lemma lane_visit:
  assumes inv: "lanes_inv V each ks (s, ridx, buf)"
    and l: "l < V" "ks l < each" and V: "each * V \<le> size"
  shows "ok (do { (s', out) \<leftarrow> commit (each * l + ks l) (flag (each * l + ks l)) s;
                  (ridx', buf') \<leftarrow> rake_push l out ridx buf;
                  Some (s', ridx', buf') })
            (lanes_inv V each (ks(l := Suc (ks l))))"
proof -
  let ?i = "each * l + ks l"
  have i: "?i < size" "each * l + each \<le> size" using lane_in_range l V by blast+
  have fresh: "?i \<notin> visited V each ks"
    using not_visited [of l V ks each] inv l by (auto simp: lanes_inv_def)
  have "ok (commit ?i (flag ?i) s) (\<lambda>(s', out). out = emit ?i \<and> Inv (insert ?i (visited V each ks)) s')"
    using commit_ok inv i(1) fresh by (auto simp: lanes_inv_def)
  moreover have "ok (rake_push l (emit ?i) ridx buf)
           (\<lambda>(ridx', buf'). length ridx' = length ridx \<and> length buf' = length buf \<and>
              lane_ok emit each l (Suc (ks l)) ridx' buf' \<and>
              (\<forall>l' k'. l' \<noteq> l \<longrightarrow> k' \<le> each \<longrightarrow>
                 lane_ok emit each l' k' ridx buf \<longrightarrow> lane_ok emit each l' k' ridx' buf'))"
    using inv l i(2) by (intro lane_ok_push) (auto simp: lanes_inv_def)
  ultimately show ?thesis
    using inv l visited_next [of l V ks each] by (auto simp: ok_iff_ex lanes_inv_def)
qed

lemma row_ok:
  assumes inv: "lanes_inv V each (\<lambda>_. j) st" and j: "j < each"
    and lanes: "distinct lanes" "set lanes = {0..<V}" and V: "each * V \<le> size"
  shows "ok (rake_row probe commit lanes each j st) (lanes_inv V each (\<lambda>_. Suc j))"
proof -
  have probes: "omap (\<lambda>l. probe (j + each * l) (fst st)) lanes = Some (map (\<lambda>l. flag (each * l + j)) lanes)"
  proof (rule omap_Some)
    fix l assume "l \<in> set lanes"
    then have l: "l < V" using lanes(2) by simp
    have "each * l + j \<notin> visited V each (\<lambda>_. j)"
      using not_visited [of l V "\<lambda>_. j" each] l j by simp
    then show "probe (j + each * l) (fst st) = Some (flag (each * l + j))"
      using probe_ok [of "visited V each (\<lambda>_. j)" "fst st" "each * l + j"]
        lane_in_range [of l V j each size] l j V inv
      by (auto simp: lanes_inv_def add.commute split: prod.splits)
  qed
  let ?ks = "\<lambda>pre l. if l \<in> set pre then Suc j else j"
  let ?body = "\<lambda>l (s, ridx, buf). do {
         (s', out) \<leftarrow> commit (j + each * l) (flag (each * l + j)) s;
         (ridx', buf') \<leftarrow> rake_push l out ridx buf;
         Some (s', ridx', buf') }"
  have "ok (for_each ?body lanes st) (lanes_inv V each (?ks lanes))"
  proof (rule ok_for_each)
    show "lanes_inv V each (?ks []) st" using inv by simp
    fix pre l post and st :: "'s \<times> nat list \<times> 'v list"
    assume split: "lanes = pre @ l # post" and st: "lanes_inv V each (?ks pre) st"
    obtain s ridx buf where [simp]: "st = (s, ridx, buf)" by (cases st)
    have l: "l < V" "l \<notin> set pre" using split lanes by auto
    have upd: "(?ks pre)(l := Suc (?ks pre l)) = ?ks (pre @ [l])" using l(2) by auto
    have "ok (?body l (s, ridx, buf)) (lanes_inv V each ((?ks pre)(l := Suc (?ks pre l))))"
      using lane_visit [of V each "?ks pre" s ridx buf l] st l j V by (simp add: add.commute)
    then show "ok (?body l st) (lanes_inv V each (?ks (pre @ [l])))" by (simp add: upd)
  qed
  moreover have "visited V each (?ks lanes) = visited V each (\<lambda>_. Suc j)"
    using lanes(2) unfolding visited_def by (intro Collect_cong) (metis atLeastLessThan_iff le0)
  then have "lanes_inv V each (?ks lanes) = lanes_inv V each (\<lambda>_. Suc j)"
    using lanes(2) by (simp add: fun_eq_iff lanes_inv_def split: prod.splits)
  ultimately show ?thesis
    by (simp add: rake_row_def probes zip_map_self for_each_map)
qed

lemma rest_ok:
  assumes inv: "lanes_inv V each (\<lambda>_. each) (s, ridx, buf)"
    and rest: "each * V + rest = size"
  shows "ok (rake_rest probe commit (each * V) rest (s, buf))
    (\<lambda>(s', rest_idx, buf'). Inv {0..<size} s' \<and> size \<le> length buf' \<and>
       (\<forall>l<V. lane_ok emit each l each ridx buf') \<and>
       rest_idx = each * V + length (hits emit [each * V..<size]) \<and>
       take (length (hits emit [each * V..<size])) (drop (each * V) buf') = hits emit [each * V..<size])"
proof -
  let ?h = "\<lambda>k. hits emit [each * V..<each * V + k]"
  let ?I = "\<lambda>k (s', rest_idx, buf'). Inv {0..<each * V + k} s' \<and> size \<le> length buf' \<and>
       (\<forall>l<V. lane_ok emit each l each ridx buf') \<and>
       rest_idx = each * V + length (?h k) \<and> take (length (?h k)) (drop (each * V) buf') = ?h k"
  have all: "visited V each (\<lambda>_. each) = {0..<each * V}"
  proof (intro set_eqI iffI)
    fix i assume "i \<in> visited V each (\<lambda>_. each)"
    then obtain l where l: "l < V" "i < each * l + each" by (auto simp: visited_def)
    then show "i \<in> {0..<each * V}" using lane_end [of l V each] by simp
  next
    fix i assume i: "i \<in> {0..<each * V}"
    then have "0 < each" by (cases each) auto
    then have "i div each < V" "each * (i div each) \<le> i" "i < each * (i div each) + each"
      using i dividend_less_times_div [of each i] by (simp_all add: less_mult_imp_div_less mult.commute)
    then show "i \<in> visited V each (\<lambda>_. each)" by (auto simp: visited_def)
  qed
  have "ok (rake_rest probe commit (each * V) rest (s, buf)) (?I rest)"
    unfolding rake_rest_def fst_conv snd_conv
  proof (rule ok_for_range)
    show "?I 0 (s, each * V, buf)" using inv all by (simp add: lanes_inv_def)
    fix k and st :: "'s \<times> nat \<times> 'v list"
    assume k: "k < rest" and st: "?I k st"
    obtain s1 ri b1 where [simp]: "st = (s1, ri, b1)" by (cases st)
    let ?i = "each * V + k"
    have i: "?i < size" "?i \<notin> {0..<each * V + k}" using k rest by auto
    have pr: "probe ?i s1 = Some (flag ?i)" using probe_ok st i by auto
    have cm: "ok (commit ?i (flag ?i) s1) (\<lambda>(s', out). out = emit ?i \<and> Inv (insert ?i {0..<?i}) s')"
      using commit_ok st i by auto
    have ins: "insert ?i {0..<?i} = {0..<each * V + Suc k}" by auto
    have len: "length (?h k) \<le> k" using length_hits [of emit "[each * V..<each * V + k]"] by simp
    have keep: "lane_ok emit each l each ridx (b1[ri := v])" if "l < V" for l v
    proof -
      have "each * l + each \<le> each * V" using lane_end that by simp
      moreover have "length (hits emit [each * l..<each * l + each]) \<le> each"
        using length_hits [of emit "[each * l..<each * l + each]"] by simp
      ultimately show ?thesis using st that by (auto simp: lane_ok_def Let_def take_drop_update_other)
    qed
    show "ok ((\<lambda>(s, rest_idx, buf). do {
         flag \<leftarrow> probe (k + each * V) s;
         (s', out) \<leftarrow> commit (k + each * V) flag s;
         case out of
           None \<Rightarrow> Some (s', rest_idx, buf)
         | Some v \<Rightarrow> do { buf' \<leftarrow> wr buf rest_idx v; Some (s', rest_idx + 1, buf') } }) st) (?I (Suc k))"
      using st pr cm i len k rest keep ins
      by (cases "emit ?i")
         (auto simp: ok_iff_ex add.commute take_drop_Suc take_drop_update_other)
  qed simp
  then show ?thesis using rest by simp
qed

lemma scan_ok:
  assumes start: "Inv {} s" and rest: "each * V + rest = size" and buf: "size \<le> length buf"
    and lanes: "distinct lanes" "set lanes = {0..<V}"
  shows "ok (rake_scan V lanes probe commit each rest s buf)
    (\<lambda>(s', ridx, rest_idx, buf'). Inv {0..<size} s' \<and> length ridx = V \<and> size \<le> length buf' \<and>
       (\<forall>l<V. lane_ok emit each l each ridx buf') \<and>
       rest_idx = each * V + length (hits emit [each * V..<size]) \<and>
       take (length (hits emit [each * V..<size])) (drop (each * V) buf') = hits emit [each * V..<size])"
proof -
  let ?st = "(s, map (\<lambda>i. each * i) [0..<V], buf)"
  have V: "each * V \<le> size" using rest by simp
  have "lanes_inv V each (\<lambda>_. 0) ?st"
    using start buf by (simp add: lanes_inv_def visited_0 lane_ok_def)
  then have rows: "ok (for_each (rake_row probe commit lanes each) [0..<each] ?st)
      (lanes_inv V each (\<lambda>_. each))"
    using row_ok [OF _ _ lanes V] by (intro ok_for_range) auto
  then obtain s1 r1 b1 where
    st: "for_each (rake_row probe commit lanes each) [0..<each] ?st = Some (s1, r1, b1)"
      "lanes_inv V each (\<lambda>_. each) (s1, r1, b1)"
    by (auto simp: ok_iff_ex)
  show ?thesis
    using st rest_ok [OF st(2) rest] by (auto simp: rake_scan_def ok_iff_ex lanes_inv_def)
qed

end

subsection \<open>Compaction\<close>

lemma rake_copy_ok:
  assumes sizes: "sizes = map (\<lambda>l. length (H l)) [0..<V]"
    and lane: "\<And>l. l < V \<Longrightarrow> take (length (H l)) (drop (each * l) buf) = H l"
    and tail: "take (length T) (drop (each * V) buf) = T"
    and fit: "length (concat (map H [0..<V])) + length T \<le> length dst"
  shows "rake_copy V each sizes (length T) buf dst =
    Some (concat (map H [0..<V]) @ T @ drop (length (concat (map H [0..<V])) + length T) dst)"
proof -
  let ?out = "\<lambda>k. concat (map H [0..<k])"
  let ?I = "\<lambda>k (current, d). current = length (?out k) \<and> d = ?out k @ drop (length (?out k)) dst"
  have part: "length (?out k) \<le> length (?out V)" if "k \<le> V" for k
  proof -
    have "[0..<V] = [0..<k] @ [k..<V]" using that upt_add_eq_append [of 0 k "V - k"] by simp
    then show ?thesis by simp
  qed
  have "ok (for_each (\<lambda>i (current, dst). do {
         n \<leftarrow> rd sizes i;
         dst' \<leftarrow> copy_cells buf (each * i) dst current n;
         Some (current + n, dst') }) [0..<V] (0, dst)) (?I V)"
  proof (rule ok_for_range)
    show "?I 0 (0, dst)" by simp
    fix k and st :: "nat \<times> 'a list"
    assume k: "k < V" and st: "?I k st"
    have "length (?out (Suc k)) \<le> length (?out V)" using part [of "Suc k"] k by simp
    then have "length (?out k) + length (H k) \<le> length dst" using fit by simp
    then show "ok ((\<lambda>(current, dst). do {
         n \<leftarrow> rd sizes k;
         dst' \<leftarrow> copy_cells buf (each * k) dst current n;
         Some (current + n, dst') }) st) (?I (Suc k))"
      using st k sizes copy_cells_run [OF lane [OF k], of "length (?out k)" "snd st"]
      by (auto simp: ok_simps add.commute)
  qed simp
  then show ?thesis
    using fit copy_cells_run [OF tail, of "length (?out V)" "?out V @ drop (length (?out V)) dst"]
    by (auto simp: rake_copy_def ok_iff_ex add.commute)
qed

context rake_visit
begin

text \<open>
  The main lemma: a raked scan visits every item once, its hits are those of the sequential scan,
  and they end up at the front of the result in the sequential order.
\<close>

lemma compact_ok:
  assumes start: "Inv {} s" and rest: "each * V + rest = size" and buf: "size \<le> length buf"
    and lanes: "distinct lanes" "set lanes = {0..<V}"
    and room: "\<And>t. t \<le> size \<Longrightarrow> t \<le> length (mk t)"
  shows "ok (rake_compact V lanes probe commit each rest s buf mk)
    (\<lambda>(s', total, ret). Inv {0..<size} s' \<and> total = length (hits emit [0..<size]) \<and>
       ret = hits emit [0..<size] @ drop total (mk total))"
proof -
  let ?H = "\<lambda>l. hits emit [each * l..<each * l + each]"
  let ?T = "hits emit [each * V..<size]"
  have all: "concat (map ?H [0..<V]) @ ?T = hits emit [0..<size]"
  proof -
    have "concat (map ?H [0..<V]) = hits emit (concat (map (\<lambda>l. [each * l..<each * l + each]) [0..<V]))"
      by (simp add: hits_concat comp_def)
    then have "concat (map ?H [0..<V]) @ ?T = hits emit ([0..<each * V] @ [each * V..<size])"
      by (simp only: upt_lanes hits_append)
    also have "[0..<each * V] @ [each * V..<size] = [0..<size]"
      using rest by (metis upt_add_eq_append le0)
    finally show ?thesis .
  qed
  have len: "length (concat (map ?H [0..<V])) + length ?T = length (hits emit [0..<size])"
    using arg_cong [OF all, of length] by simp
  have total: "sum_list (map (\<lambda>l. length (?H l)) [0..<V]) = length (concat (map ?H [0..<V]))"
    by (simp add: length_concat comp_def)
  have gather: "ok (do {
       sizes \<leftarrow> rake_sizes V each ridx;
       let rest_size = rest_idx - each * V;
       let total = sum_list sizes + rest_size;
       ret \<leftarrow> rake_copy V each sizes rest_size b (mk total);
       Some (s', total, ret) })
    (\<lambda>(s', total, ret). Inv {0..<size} s' \<and> total = length (hits emit [0..<size]) \<and>
       ret = hits emit [0..<size] @ drop total (mk total))"
    if st: "Inv {0..<size} s'" "length ridx = V" "\<forall>l<V. lane_ok emit each l each ridx b"
      "rest_idx = each * V + length ?T" "take (length ?T) (drop (each * V) b) = ?T"
    for s' ridx rest_idx b
  proof -
    have "rake_sizes V each ridx = Some (map (\<lambda>l. length (?H l)) [0..<V])"
      unfolding rake_sizes_def using st(2,3) by (intro omap_Some) (auto simp: lane_ok_def Let_def)
    moreover have "length (hits emit [0..<size]) \<le> length (mk (length (hits emit [0..<size])))"
      using room length_hits [of emit "[0..<size]"] by simp
    ultimately show ?thesis
      using st len all total
        rake_copy_ok [of "map (\<lambda>l. length (?H l)) [0..<V]" ?H V each b ?T "mk (length (hits emit [0..<size]))"]
      by (simp add: lane_ok_def Let_def ok_bind)
  qed
  show ?thesis
    unfolding rake_compact_def ok_bind
    using scan_ok [OF start rest buf lanes] gather by (auto elim!: ok_mono)
qed

end

end
