(* ===== verification/FindCondition.thy ===== *)
theory FindCondition
  imports Rake
begin

text \<open>
  core/find_condition.hpp and core/conditions_for_find.hpp: the positions at which a condition
  holds, by a raked scan over four groups of vector lanes, with a sequential path for short
  inputs.  The four routines of the header differ only in how item \<open>i\<close> is read (directly, through
  an index vector, through a pointer, from two vectors at once), so the scan is one definition
  over a read-and-test function, and every routine supplies its own.

  The build constants (VLEN, VLEN_EACH, THR, ALIGN_SIZE) are a record with the two values that the
  header defines; the theorems hold for every well-formed configuration and every element size.
\<close>

subsection \<open>Build configuration\<close>

record find_cfg =
  vlen :: nat
  vlen_each :: nat
  thr :: nat
  align_size :: nat

definition find_condition_cfg_ve :: find_cfg where
  "find_condition_cfg_ve = \<lparr>vlen = 1024, vlen_each = 256, thr = 16, align_size = 128\<rparr>"

definition find_condition_cfg_x86 :: find_cfg where
  "find_condition_cfg_x86 = \<lparr>vlen = 4, vlen_each = 1, thr = 1, align_size = 1\<rparr>"

definition wf_cfg :: "find_cfg \<Rightarrow> bool" where
  "wf_cfg c \<longleftrightarrow> vlen c = 4 * vlen_each c"

text \<open>The row length, rounded so that every lane starts at an odd multiple of the alignment.\<close>

definition find_each :: "find_cfg \<Rightarrow> nat \<Rightarrow> nat \<Rightarrow> nat" where
  "find_each c sizeof_T n =
     (let each = n div vlen c;
          aligned_each = each * sizeof_T div align_size c;
          aligned_each = (if aligned_each mod 2 = 0 \<and> aligned_each \<noteq> 0 then aligned_each - 1
                          else aligned_each)
      in aligned_each * align_size c div sizeof_T)"

text \<open>The order in which one row visits the lanes: \<open>idx0, idx1, idx2, idx3\<close> for every \<open>i\<close>.\<close>

definition lanes4 :: "nat \<Rightarrow> nat list" where
  "lanes4 E = concat (map (\<lambda>i. [i, i + E, i + E * 2, i + E * 3]) [0..<E])"

subsection \<open>The scan\<close>

definition find_probe :: "nat \<Rightarrow> unit \<Rightarrow> unit option" where
  "find_probe i s = Some ()"

definition find_commit :: "(nat \<Rightarrow> bool option) \<Rightarrow> nat \<Rightarrow> unit \<Rightarrow> unit \<Rightarrow> (unit \<times> nat option) option" where
  "find_commit test i flag s = do {
     hit \<leftarrow> test i;
     Some ((), if hit then Some i else None) }"

definition find_seq :: "(nat \<Rightarrow> bool option) \<Rightarrow> nat \<Rightarrow> nat list option" where
  "find_seq test n = do {
     (current, rettmp) \<leftarrow> for_each (\<lambda>i (current, rettmp). do {
         hit \<leftarrow> test i;
         if hit then do { rettmp' \<leftarrow> wr rettmp current i; Some (current + 1, rettmp') }
         else Some (current, rettmp) }) [0..<n] (0, replicate n 0);
     copy_cells rettmp 0 (replicate current 0) 0 current }"

definition find_scan :: "find_cfg \<Rightarrow> nat \<Rightarrow> (nat \<Rightarrow> bool option) \<Rightarrow> nat \<Rightarrow> nat list option" where
  "find_scan c sizeof_T test n =
     (if n = 0 then Some []
      else let each = find_each c sizeof_T n; rest = n - each * vlen c in
        if each < thr c then find_seq test n
        else do {
          (s, total, ret) \<leftarrow> rake_compact (vlen c) (lanes4 (vlen_each c)) find_probe (find_commit test)
                               each rest () (replicate n 0) (\<lambda>total. replicate total 0);
          Some ret })"

definition find_condition :: "find_cfg \<Rightarrow> nat \<Rightarrow> ('a \<Rightarrow> bool) \<Rightarrow> 'a list \<Rightarrow> nat list option" where
  "find_condition c sizeof_T condition v =
     find_scan c sizeof_T (\<lambda>i. do { x \<leftarrow> rd v i; Some (condition x) }) (length v)"

definition find_condition_index ::
  "find_cfg \<Rightarrow> nat \<Rightarrow> ('a \<Rightarrow> bool) \<Rightarrow> 'a list \<Rightarrow> nat list \<Rightarrow> nat list option" where
  "find_condition_index c sizeof_T condition v idx =
     find_scan c sizeof_T (\<lambda>i. do { k \<leftarrow> rd idx i; x \<leftarrow> rd v k; Some (condition x) }) (length idx)"

text \<open>Pointers are addresses of a store; an address outside the store is undefined behaviour.\<close>

definition find_condition_pointer ::
  "find_cfg \<Rightarrow> nat \<Rightarrow> ('p \<Rightarrow> 'a option) \<Rightarrow> ('a \<Rightarrow> bool) \<Rightarrow> 'p list \<Rightarrow> nat list option" where
  "find_condition_pointer c sizeof_T store condition vpp =
     find_scan c sizeof_T (\<lambda>i. do { p \<leftarrow> rd vpp i; x \<leftarrow> store p; Some (condition x) }) (length vpp)"

definition find_condition_pair ::
  "find_cfg \<Rightarrow> nat \<Rightarrow> ('a \<Rightarrow> 'b \<Rightarrow> bool) \<Rightarrow> 'a list \<Rightarrow> 'b list \<Rightarrow> nat \<Rightarrow> nat list option" where
  "find_condition_pair c sizeof_T condition l r n =
     find_scan c sizeof_T (\<lambda>i. do { x \<leftarrow> rd l i; y \<leftarrow> rd r i; Some (condition x y) }) n"

text \<open>The overload on vectors refuses vectors of different sizes.\<close>

definition find_condition_pair_vec ::
  "find_cfg \<Rightarrow> nat \<Rightarrow> ('a \<Rightarrow> 'b \<Rightarrow> bool) \<Rightarrow> 'a list \<Rightarrow> 'b list \<Rightarrow> (string + nat list) option" where
  "find_condition_pair_vec c sizeof_T condition v1 v2 =
     (if length v1 \<noteq> length v2
      then Some (Inl ''find_condition_pair: size of vectors are not same'')
      else do { r \<leftarrow> find_condition_pair c sizeof_T condition v1 v2 (length v1); Some (Inr r) })"

subsection \<open>Lanes and rows\<close>

lemma set_lanes4: "set (lanes4 E) = {0..<4 * E}"
proof
  show "set (lanes4 E) \<subseteq> {0..<4 * E}" by (auto simp: lanes4_def)
  show "{0..<4 * E} \<subseteq> set (lanes4 E)"
  proof
    fix l assume l: "l \<in> {0..<4 * E}"
    have E: "0 < E" using l by auto
    have "l = l mod E + E * (l div E)" by simp
    moreover have "l div E < 4" using l by (simp add: less_mult_imp_div_less)
    then have "l div E = 0 \<or> l div E = 1 \<or> l div E = 2 \<or> l div E = 3" by linarith
    moreover have "l mod E < E" using E by simp
    ultimately have "l mod E < E \<and> l \<in> {l mod E, l mod E + E, l mod E + E * 2, l mod E + E * 3}"
      by (elim disjE) (simp_all add: mult.commute)
    then show "l \<in> set (lanes4 E)" by (force simp: lanes4_def)
  qed
qed

lemma length_lanes4: "length (lanes4 E) = 4 * E"
proof -
  have "sum_list (map (\<lambda>i. length [i, i + E, i + E * 2, i + E * 3]) xs) = 4 * length xs" for xs
    by (induction xs) simp_all
  then show ?thesis by (simp add: lanes4_def length_concat comp_def)
qed

lemma distinct_lanes4: "distinct (lanes4 E)"
  by (simp add: card_distinct set_lanes4 length_lanes4)

lemma find_each_le: "find_each c sz n * vlen c \<le> n"
proof -
  let ?e = "n div vlen c"
  let ?a = "?e * sz div align_size c"
  let ?a' = "if ?a mod 2 = 0 \<and> ?a \<noteq> 0 then ?a - 1 else ?a"
  have "?a' * align_size c \<le> ?a * align_size c" by simp
  also have "\<dots> \<le> ?e * sz" by simp
  finally have "?a' * align_size c div sz \<le> ?e * sz div sz" by (rule div_le_mono)
  also have "\<dots> \<le> ?e" by (cases "sz = 0") simp_all
  finally have "find_each c sz n \<le> ?e" by (simp add: find_each_def Let_def)
  then have "find_each c sz n * vlen c \<le> ?e * vlen c" by (rule mult_le_mono1)
  then show ?thesis using div_times_less_eq_dividend order_trans by blast
qed

subsection \<open>The scan is a filter\<close>

text \<open>
  \<open>find_scan\<close> under the contract of a raked scan: there is no state, and item \<open>i\<close> is a hit when
  the test says so.
\<close>

locale find_test =
  fixes size :: nat and test :: "nat \<Rightarrow> bool option" and P :: "nat \<Rightarrow> bool"
  assumes test_ok: "i < size \<Longrightarrow> test i = Some (P i)"
begin

sublocale rake_visit size find_probe "find_commit test" "\<lambda>_. ()"
    "\<lambda>i. if P i then Some i else None" "\<lambda>_ _. True"
  by unfold_locales (auto simp: find_probe_def find_commit_def test_ok)

lemma find_seq_ok: "find_seq test size = Some (filter P [0..<size])"
proof -
  let ?h = "\<lambda>k. filter P [0..<k]"
  let ?I = "\<lambda>k (current, tmp). current = length (?h k) \<and> length tmp = size \<and> take current tmp = ?h k"
  have "ok (for_each (\<lambda>i (current, rettmp). do {
         hit \<leftarrow> test i;
         if hit then do { rettmp' \<leftarrow> wr rettmp current i; Some (current + 1, rettmp') }
         else Some (current, rettmp) }) [0..<size] (0, replicate size 0)) (?I size)"
  proof (rule ok_for_range [where I = ?I])
    show "?I 0 (0, replicate size 0)" by simp
    fix k and st :: "nat \<times> nat list"
    assume k: "k < size" and st: "?I k st"
    have "length (?h k) \<le> k" using length_filter_le [of P "[0..<k]"] by simp
    then show "ok ((\<lambda>(current, rettmp). do {
         hit \<leftarrow> test k;
         if hit then do { rettmp' \<leftarrow> wr rettmp current k; Some (current + 1, rettmp') }
         else Some (current, rettmp) }) st) (?I (Suc k))"
      using st k test_ok [OF k] by (auto simp: ok_simps take_Suc_conv_app_nth)
  qed simp
  then show ?thesis
    using copy_cells_run [of "?h size" 0 _ 0 "replicate (length (?h size)) 0"]
    by (auto simp: find_seq_def ok_iff_ex)
qed

lemma find_scan_ok:
  assumes "wf_cfg c"
  shows "find_scan c sz test size = Some (filter P [0..<size])"
proof -
  let ?each = "find_each c sz size"
  have "ok (rake_compact (vlen c) (lanes4 (vlen_each c)) find_probe (find_commit test)
             ?each (size - ?each * vlen c) () (replicate size 0) (\<lambda>total. replicate total 0))
    (\<lambda>(s', total, ret). True \<and> total = length (hits (\<lambda>i. if P i then Some i else None) [0..<size]) \<and>
       ret = hits (\<lambda>i. if P i then Some i else None) [0..<size] @ drop total (replicate total 0))"
    using assms find_each_le [of c sz size]
    by (intro compact_ok) (simp_all add: distinct_lanes4 set_lanes4 wf_cfg_def)
  then show ?thesis
    using find_seq_ok by (auto simp: find_scan_def Let_def ok_iff_ex hits_filter)
qed

end

interpretation fc: find_test "length v" "\<lambda>i. do { x \<leftarrow> rd v i; Some (cond x) }" "\<lambda>i. cond (v ! i)"
  for v :: "'a list" and cond
  by unfold_locales simp

interpretation fc_pair: find_test "min (length l) (length r)"
    "\<lambda>i. do { x \<leftarrow> rd l i; y \<leftarrow> rd r i; Some (cond x y) }" "\<lambda>i. cond (l ! i) (r ! i)"
  for l :: "'a list" and r :: "'b list" and cond
  by unfold_locales simp

text \<open>A scan through indices or pointers needs those to be readable: a conditional contract.\<close>

lemma find_test_index:
  assumes "\<forall>k\<in>set idx. k < length v"
  shows "find_test (length idx) (\<lambda>i. do { k \<leftarrow> rd idx i; x \<leftarrow> rd v k; Some (cond x) }) (\<lambda>i. cond (v ! (idx ! i)))"
  using assms by unfold_locales simp

lemma find_test_pointer:
  assumes "\<forall>p\<in>set vpp. store p = Some (val p)"
  shows "find_test (length vpp) (\<lambda>i. do { p \<leftarrow> rd vpp i; x \<leftarrow> store p; Some (cond x) }) (\<lambda>i. cond (val (vpp ! i)))"
  using assms by unfold_locales simp

lemma find_condition_eq:
  "wf_cfg c \<Longrightarrow> find_condition c sz cond v = Some (filter (\<lambda>i. cond (v ! i)) [0..<length v])"
  unfolding find_condition_def by (rule fc.find_scan_ok)

lemma find_condition_index_eq:
  "wf_cfg c \<Longrightarrow> \<forall>k\<in>set idx. k < length v \<Longrightarrow>
   find_condition_index c sz cond v idx = Some (filter (\<lambda>i. cond (v ! (idx ! i))) [0..<length idx])"
  unfolding find_condition_index_def using find_test.find_scan_ok [OF find_test_index] by blast

lemma find_condition_pair_eq:
  "wf_cfg c \<Longrightarrow> length l = length r \<Longrightarrow>
   find_condition_pair c sz cond l r (length r) = Some (filter (\<lambda>i. cond (l ! i) (r ! i)) [0..<length r])"
  unfolding find_condition_pair_def using fc_pair.find_scan_ok [of c sz l r cond] by simp

text \<open>
  C4. find_condition, for every build configuration, element size, condition and vector: the raked
  and the sequential path both stay inside their arrays and return exactly the positions at which
  the condition holds, in increasing order.
\<close>

theorem find_condition_filter:
  assumes "wf_cfg c"
  shows "find_condition c sizeof_T cond v = Some (filter (\<lambda>i. cond (v ! i)) [0..<length v])"
  using assms by (rule find_condition_eq)

theorem find_condition_filter_witness:
  "find_condition find_condition_cfg_x86 4 (\<lambda>x. x < 3) [1, 5, 2, 7, 0, 9, 1, 1, 4 :: int] = Some [0, 2, 4, 6, 7]"
proof -
  have "wf_cfg find_condition_cfg_x86" by (simp add: wf_cfg_def find_condition_cfg_x86_def)
  note found = find_condition_filter [OF this, of 4 "\<lambda>x. x < 3" "[1, 5, 2, 7, 0, 9, 1, 1, 4 :: int]"]
  show ?thesis unfolding found by code_simp
qed

text \<open>
  find_condition_index returns the positions of the index vector whose target satisfies the
  condition, when every index lies inside the vector; the check is needed for memory safety only.
\<close>

theorem find_condition_index_filter:
  assumes "wf_cfg c" "\<forall>k\<in>set idx. k < length v"
  shows "find_condition_index c sizeof_T cond v idx =
    Some (filter (\<lambda>i. cond (v ! (idx ! i))) [0..<length idx])"
  using assms by (rule find_condition_index_eq)

theorem find_condition_index_filter_witness:
  "find_condition_index find_condition_cfg_ve 8 even [4, 7, 6 :: int] [2, 1, 0, 1] = Some [0, 2]"
proof -
  have "wf_cfg find_condition_cfg_ve" by (simp add: wf_cfg_def find_condition_cfg_ve_def)
  note found = find_condition_index_filter [OF this, of "[2, 1, 0, 1]" "[4, 7, 6 :: int]" 8 even]
  show ?thesis using found by simp
qed

subsection \<open>Conditions\<close>

text \<open>
  The functors of conditions_for_find.hpp, on integers; \<open>std::numeric_limits<T>::max()\<close> and
  \<open>min()\<close> are arguments.  C++'s \<open>%\<close> truncates towards zero.  The floating-point functors
  (is_nan, is_inf, is_neg_inf) are not modelled.
\<close>

definition is_zero :: "int \<Rightarrow> bool" where
  "is_zero a \<longleftrightarrow> a = 0"

definition is_nonzero :: "int \<Rightarrow> bool" where
  "is_nonzero a \<longleftrightarrow> a \<noteq> 0"

definition is_one :: "int \<Rightarrow> bool" where
  "is_one a \<longleftrightarrow> a = 1"

definition is_positive :: "int \<Rightarrow> bool" where
  "is_positive a \<longleftrightarrow> a \<ge> 0"

definition is_negative :: "int \<Rightarrow> bool" where
  "is_negative a \<longleftrightarrow> a < 0"

definition is_binary :: "int \<Rightarrow> bool" where
  "is_binary a \<longleftrightarrow> a = 0 \<or> a = 1"

definition is_tmax :: "int \<Rightarrow> int \<Rightarrow> bool" where
  "is_tmax tmax a \<longleftrightarrow> a = tmax"

definition is_not_tmax :: "int \<Rightarrow> int \<Rightarrow> bool" where
  "is_not_tmax tmax a \<longleftrightarrow> a \<noteq> tmax"

definition is_tmin :: "int \<Rightarrow> int \<Rightarrow> bool" where
  "is_tmin tmin a \<longleftrightarrow> a = tmin"

definition is_not_tmin :: "int \<Rightarrow> int \<Rightarrow> bool" where
  "is_not_tmin tmin a \<longleftrightarrow> a \<noteq> tmin"

definition is_gt :: "int \<Rightarrow> int \<Rightarrow> bool" where
  "is_gt threshold a \<longleftrightarrow> a > threshold"

definition is_gt_and_neq :: "int \<Rightarrow> int \<Rightarrow> int \<Rightarrow> bool" where
  "is_gt_and_neq threshold threshold2 a \<longleftrightarrow> a > threshold \<and> a \<noteq> threshold2"

definition is_ge :: "int \<Rightarrow> int \<Rightarrow> bool" where
  "is_ge threshold a \<longleftrightarrow> a \<ge> threshold"

definition is_ge_and_neq :: "int \<Rightarrow> int \<Rightarrow> int \<Rightarrow> bool" where
  "is_ge_and_neq threshold threshold2 a \<longleftrightarrow> a \<ge> threshold \<and> a \<noteq> threshold2"

definition is_lt :: "int \<Rightarrow> int \<Rightarrow> bool" where
  "is_lt threshold a \<longleftrightarrow> a < threshold"

definition is_lt_and_neq :: "int \<Rightarrow> int \<Rightarrow> int \<Rightarrow> bool" where
  "is_lt_and_neq threshold threshold2 a \<longleftrightarrow> a < threshold \<and> a \<noteq> threshold2"

definition is_le :: "int \<Rightarrow> int \<Rightarrow> bool" where
  "is_le threshold a \<longleftrightarrow> a \<le> threshold"

definition is_le_and_neq :: "int \<Rightarrow> int \<Rightarrow> int \<Rightarrow> bool" where
  "is_le_and_neq threshold threshold2 a \<longleftrightarrow> a \<le> threshold \<and> a \<noteq> threshold2"

definition is_eq :: "int \<Rightarrow> int \<Rightarrow> bool" where
  "is_eq threshold a \<longleftrightarrow> a = threshold"

definition is_neq :: "int \<Rightarrow> int \<Rightarrow> bool" where
  "is_neq threshold a \<longleftrightarrow> a \<noteq> threshold"

definition c_rem :: "int \<Rightarrow> int \<Rightarrow> int" where
  "c_rem a b = sgn a * (\<bar>a\<bar> mod \<bar>b\<bar>)"

definition is_even :: "int \<Rightarrow> bool" where
  "is_even a \<longleftrightarrow> c_rem a 2 = 0"

definition is_odd :: "int \<Rightarrow> bool" where
  "is_odd a \<longleftrightarrow> c_rem a 2 \<noteq> 0"

definition is_within_boundary :: "int \<Rightarrow> int \<Rightarrow> int \<Rightarrow> bool" where
  "is_within_boundary lb ub a \<longleftrightarrow> a \<ge> lb \<and> a \<le> ub"

definition is_outside_boundary :: "int \<Rightarrow> int \<Rightarrow> int \<Rightarrow> bool" where
  "is_outside_boundary lb ub a \<longleftrightarrow> a < lb \<or> a > ub"

subsection \<open>The vector_find interface\<close>

definition vector_find_condition :: "find_cfg \<Rightarrow> nat \<Rightarrow> (int \<Rightarrow> bool) \<Rightarrow> int list \<Rightarrow> nat list option" where
  "vector_find_condition c sizeof_T cond vec = find_condition c sizeof_T cond vec"

definition vector_find_nonzero :: "find_cfg \<Rightarrow> nat \<Rightarrow> int list \<Rightarrow> nat list option" where
  "vector_find_nonzero c sizeof_T vec =
     (if length vec = 0 then Some [] else vector_find_condition c sizeof_T is_nonzero vec)"

definition vector_find_zero :: "find_cfg \<Rightarrow> nat \<Rightarrow> int list \<Rightarrow> nat list option" where
  "vector_find_zero c sizeof_T vec =
     (if length vec = 0 then Some [] else vector_find_condition c sizeof_T is_zero vec)"

definition vector_find_one :: "find_cfg \<Rightarrow> nat \<Rightarrow> int list \<Rightarrow> nat list option" where
  "vector_find_one c sizeof_T vec =
     (if length vec = 0 then Some [] else vector_find_condition c sizeof_T is_one vec)"

definition vector_find_positive :: "find_cfg \<Rightarrow> nat \<Rightarrow> int list \<Rightarrow> nat list option" where
  "vector_find_positive c sizeof_T vec =
     (if length vec = 0 then Some [] else vector_find_condition c sizeof_T is_positive vec)"

definition vector_find_negative :: "find_cfg \<Rightarrow> nat \<Rightarrow> int list \<Rightarrow> nat list option" where
  "vector_find_negative c sizeof_T vec =
     (if length vec = 0 then Some [] else vector_find_condition c sizeof_T is_negative vec)"

definition vector_find_binary :: "find_cfg \<Rightarrow> nat \<Rightarrow> int list \<Rightarrow> nat list option" where
  "vector_find_binary c sizeof_T vec =
     (if length vec = 0 then Some [] else vector_find_condition c sizeof_T is_binary vec)"

definition vector_find_even :: "find_cfg \<Rightarrow> nat \<Rightarrow> int list \<Rightarrow> nat list option" where
  "vector_find_even c sizeof_T vec =
     (if length vec = 0 then Some [] else vector_find_condition c sizeof_T is_even vec)"

definition vector_find_odd :: "find_cfg \<Rightarrow> nat \<Rightarrow> int list \<Rightarrow> nat list option" where
  "vector_find_odd c sizeof_T vec =
     (if length vec = 0 then Some [] else vector_find_condition c sizeof_T is_odd vec)"

definition vector_find_tmax :: "find_cfg \<Rightarrow> nat \<Rightarrow> int \<Rightarrow> int list \<Rightarrow> nat list option" where
  "vector_find_tmax c sizeof_T tmax vec =
     (if length vec = 0 then Some [] else vector_find_condition c sizeof_T (is_tmax tmax) vec)"

definition vector_find_not_tmax :: "find_cfg \<Rightarrow> nat \<Rightarrow> int \<Rightarrow> int list \<Rightarrow> nat list option" where
  "vector_find_not_tmax c sizeof_T tmax vec =
     (if length vec = 0 then Some [] else vector_find_condition c sizeof_T (is_not_tmax tmax) vec)"

definition vector_find_tmin :: "find_cfg \<Rightarrow> nat \<Rightarrow> int \<Rightarrow> int list \<Rightarrow> nat list option" where
  "vector_find_tmin c sizeof_T tmin vec =
     (if length vec = 0 then Some [] else vector_find_condition c sizeof_T (is_tmin tmin) vec)"

definition vector_find_not_tmin :: "find_cfg \<Rightarrow> nat \<Rightarrow> int \<Rightarrow> int list \<Rightarrow> nat list option" where
  "vector_find_not_tmin c sizeof_T tmin vec =
     (if length vec = 0 then Some [] else vector_find_condition c sizeof_T (is_not_tmin tmin) vec)"

definition vector_find_ge :: "find_cfg \<Rightarrow> nat \<Rightarrow> int list \<Rightarrow> int \<Rightarrow> nat list option" where
  "vector_find_ge c sizeof_T vec threshold =
     (if length vec = 0 then Some [] else vector_find_condition c sizeof_T (is_ge threshold) vec)"

definition vector_find_ge_and_neq :: "find_cfg \<Rightarrow> nat \<Rightarrow> int list \<Rightarrow> int \<Rightarrow> int \<Rightarrow> nat list option" where
  "vector_find_ge_and_neq c sizeof_T vec threshold threshold2 =
     (if length vec = 0 then Some []
      else vector_find_condition c sizeof_T (is_ge_and_neq threshold threshold2) vec)"

definition vector_find_gt :: "find_cfg \<Rightarrow> nat \<Rightarrow> int list \<Rightarrow> int \<Rightarrow> nat list option" where
  "vector_find_gt c sizeof_T vec threshold =
     (if length vec = 0 then Some [] else vector_find_condition c sizeof_T (is_gt threshold) vec)"

definition vector_find_gt_and_neq :: "find_cfg \<Rightarrow> nat \<Rightarrow> int list \<Rightarrow> int \<Rightarrow> int \<Rightarrow> nat list option" where
  "vector_find_gt_and_neq c sizeof_T vec threshold threshold2 =
     (if length vec = 0 then Some []
      else vector_find_condition c sizeof_T (is_gt_and_neq threshold threshold2) vec)"

definition vector_find_le :: "find_cfg \<Rightarrow> nat \<Rightarrow> int list \<Rightarrow> int \<Rightarrow> nat list option" where
  "vector_find_le c sizeof_T vec threshold =
     (if length vec = 0 then Some [] else vector_find_condition c sizeof_T (is_le threshold) vec)"

definition vector_find_le_and_neq :: "find_cfg \<Rightarrow> nat \<Rightarrow> int list \<Rightarrow> int \<Rightarrow> int \<Rightarrow> nat list option" where
  "vector_find_le_and_neq c sizeof_T vec threshold threshold2 =
     (if length vec = 0 then Some []
      else vector_find_condition c sizeof_T (is_le_and_neq threshold threshold2) vec)"

definition vector_find_lt :: "find_cfg \<Rightarrow> nat \<Rightarrow> int list \<Rightarrow> int \<Rightarrow> nat list option" where
  "vector_find_lt c sizeof_T vec threshold =
     (if length vec = 0 then Some [] else vector_find_condition c sizeof_T (is_lt threshold) vec)"

definition vector_find_lt_and_neq :: "find_cfg \<Rightarrow> nat \<Rightarrow> int list \<Rightarrow> int \<Rightarrow> int \<Rightarrow> nat list option" where
  "vector_find_lt_and_neq c sizeof_T vec threshold threshold2 =
     (if length vec = 0 then Some []
      else vector_find_condition c sizeof_T (is_lt_and_neq threshold threshold2) vec)"

definition vector_find_eq :: "find_cfg \<Rightarrow> nat \<Rightarrow> int list \<Rightarrow> int \<Rightarrow> nat list option" where
  "vector_find_eq c sizeof_T vec threshold =
     (if length vec = 0 then Some [] else vector_find_condition c sizeof_T (is_eq threshold) vec)"

definition vector_find_neq :: "find_cfg \<Rightarrow> nat \<Rightarrow> int list \<Rightarrow> int \<Rightarrow> nat list option" where
  "vector_find_neq c sizeof_T vec threshold =
     (if length vec = 0 then Some [] else vector_find_condition c sizeof_T (is_neq threshold) vec)"

definition vector_find_within_boundary :: "find_cfg \<Rightarrow> nat \<Rightarrow> int list \<Rightarrow> int \<Rightarrow> int \<Rightarrow> nat list option" where
  "vector_find_within_boundary c sizeof_T vec lb ub =
     (if length vec = 0 then Some [] else vector_find_condition c sizeof_T (is_within_boundary lb ub) vec)"

definition vector_find_outside_boundary :: "find_cfg \<Rightarrow> nat \<Rightarrow> int list \<Rightarrow> int \<Rightarrow> int \<Rightarrow> nat list option" where
  "vector_find_outside_boundary c sizeof_T vec lb ub =
     (if length vec = 0 then Some [] else vector_find_condition c sizeof_T (is_outside_boundary lb ub) vec)"

lemmas vector_find_defs =
  vector_find_nonzero_def vector_find_zero_def vector_find_one_def vector_find_positive_def
  vector_find_negative_def vector_find_binary_def vector_find_even_def vector_find_odd_def
  vector_find_tmax_def vector_find_not_tmax_def vector_find_tmin_def vector_find_not_tmin_def
  vector_find_ge_def vector_find_ge_and_neq_def vector_find_gt_def vector_find_gt_and_neq_def
  vector_find_le_def vector_find_le_and_neq_def vector_find_lt_def vector_find_lt_and_neq_def
  vector_find_eq_def vector_find_neq_def vector_find_within_boundary_def vector_find_outside_boundary_def

lemma vector_find_condition_eq:
  "wf_cfg c \<Longrightarrow> vector_find_condition c sz cond vec = Some (filter (\<lambda>i. cond (vec ! i)) [0..<length vec])"
  by (simp add: vector_find_condition_def find_condition_eq)

lemma vector_find_or_empty:
  "wf_cfg c \<Longrightarrow> (if length vec = 0 then Some [] else vector_find_condition c sz cond vec) =
    Some (filter (\<lambda>i. cond (vec ! i)) [0..<length vec])"
  by (simp add: vector_find_condition_eq)

text \<open>C++'s truncating remainder still tells even from odd, on negative numbers too.\<close>

lemma c_rem_2: "c_rem a 2 = 0 \<longleftrightarrow> even a"
  by (cases "a = 0") (simp_all add: c_rem_def sgn_if abs_if even_iff_mod_2_eq_zero [symmetric])

text \<open>Two searches split the positions of a vector: together they find all, none twice.\<close>

definition split_positions :: "nat list option \<Rightarrow> nat list option \<Rightarrow> nat \<Rightarrow> bool" where
  "split_positions m m' n \<longleftrightarrow>
     (case (m, m') of
        (Some xs, Some ys) \<Rightarrow> sorted xs \<and> sorted ys \<and> distinct xs \<and> distinct ys \<and>
                              set xs \<inter> set ys = {} \<and> set xs \<union> set ys = {0..<n}
      | _ \<Rightarrow> False)"

lemma split_positions_filter:
  "(\<And>i. i < n \<Longrightarrow> Q i = (\<not> P i)) \<Longrightarrow>
   split_positions (Some (filter P [0..<n])) (Some (filter Q [0..<n])) n"
  by (auto simp: split_positions_def sorted_wrt_filter)

text \<open>
  The user-facing searches come in complementary pairs: less than / at least, greater than /
  at most, equal / not equal, zero / nonzero, even / odd (with C++'s truncating remainder, also on
  negative values), inside / outside a boundary.  On every vector the two searches of a pair return
  and split its positions between them.
\<close>

theorem vector_find_complement:
  assumes "wf_cfg c"
  shows "split_positions (vector_find_lt c sz vec t) (vector_find_ge c sz vec t) (length vec) \<and>
    split_positions (vector_find_gt c sz vec t) (vector_find_le c sz vec t) (length vec) \<and>
    split_positions (vector_find_eq c sz vec t) (vector_find_neq c sz vec t) (length vec) \<and>
    split_positions (vector_find_zero c sz vec) (vector_find_nonzero c sz vec) (length vec) \<and>
    split_positions (vector_find_even c sz vec) (vector_find_odd c sz vec) (length vec) \<and>
    split_positions (vector_find_within_boundary c sz vec lb ub)
           (vector_find_outside_boundary c sz vec lb ub) (length vec)"
  unfolding vector_find_defs vector_find_or_empty [OF assms]
  by (intro conjI split_positions_filter)
     (auto simp: is_lt_def is_ge_def is_gt_def is_le_def is_eq_def is_neq_def is_zero_def is_nonzero_def
        is_even_def is_odd_def is_within_boundary_def is_outside_boundary_def)

theorem vector_find_complement_witness:
  "split_positions (vector_find_lt find_condition_cfg_x86 4 [3, -1, 2] 2)
     (vector_find_ge find_condition_cfg_x86 4 [3, -1, 2] 2) (length [3, -1, 2 :: int])"
proof -
  have "wf_cfg find_condition_cfg_x86" by (simp add: wf_cfg_def find_condition_cfg_x86_def)
  from vector_find_complement [OF this, of 4 "[3, -1, 2]" 2 0 1] show ?thesis by (rule conjunct1)
qed

end
