(* ===== verification/PrefixSum.thy ===== *)
theory PrefixSum
  imports Prelude
begin

text \<open>
  core/prefix_sum.hpp: inclusive prefix sums.  The scalar build is one loop.  The vector build cuts a
  long array into VLEN consecutive runs of \<open>each\<close> cells and a rest, sums all runs in lockstep (round
  \<open>j\<close> handles cell \<open>j\<close> of every run), sums the rest, and then adds to every run the total that
  precedes it.  The element type only needs an associative addition with zero; it is not assumed
  commutative, so the operands are kept in the source's order.
\<close>

subsection \<open>The code\<close>

text \<open>The scalar loop over \<open>n\<close> cells from \<open>base\<close>; the accumulator starts at 0.\<close>

definition prefix_step :: "'a::plus list \<Rightarrow> nat \<Rightarrow> nat \<Rightarrow> 'a list \<times> 'a \<Rightarrow> ('a list \<times> 'a) option" where
  "prefix_step valp base j st = do {
     let (outp, current_val) = st;
     loaded_v \<leftarrow> rd valp (j + base);
     let next_val = loaded_v + current_val;
     outp \<leftarrow> wr outp (j + base) next_val;
     Some (outp, next_val) }"

definition prefix_scalar :: "'a::{plus,zero} list \<Rightarrow> nat \<Rightarrow> nat \<Rightarrow> 'a list \<Rightarrow> 'a list option" where
  "prefix_scalar valp base n outp = do {
     (outp, _) \<leftarrow> for_each (prefix_step valp base) [0..<n] (outp, 0);
     Some outp }"

text \<open>Cell \<open>j\<close> of run \<open>i\<close>, with the run's accumulator in a vector register.\<close>

definition prefix_lane ::
  "'a::plus list \<Rightarrow> nat \<Rightarrow> nat \<Rightarrow> nat \<Rightarrow> 'a list \<times> 'a list \<Rightarrow> ('a list \<times> 'a list) option" where
  "prefix_lane valp each j i st = do {
     let (outp, current_val) = st;
     loaded_v \<leftarrow> rd valp (j + each * i);
     c \<leftarrow> rd current_val i;
     let next_val = loaded_v + c;
     outp \<leftarrow> wr outp (j + each * i) next_val;
     current_val \<leftarrow> wr current_val i next_val;
     Some (outp, current_val) }"

text \<open>\<open>to_add = outp[lo - 1]; for (j = lo; j < hi; j++) outp[j] += to_add;\<close>\<close>

definition prefix_add :: "nat \<Rightarrow> nat \<Rightarrow> 'a::plus list \<Rightarrow> 'a list option" where
  "prefix_add lo hi outp = do {
     to_add \<leftarrow> (if lo = 0 then None else rd outp (lo - 1));
     for_each (\<lambda>j outp. do { v \<leftarrow> rd outp j; wr outp j (v + to_add) }) [lo..<hi] outp }"

definition prefix_each :: "nat \<Rightarrow> nat \<Rightarrow> nat" where
  "prefix_each VLEN sz = (let each = sz div VLEN in if each mod 2 = 0 \<and> 1 < each then each - 1 else each)"

definition prefix_sum_ve ::
  "nat \<Rightarrow> nat \<Rightarrow> 'a::{plus,zero} list \<Rightarrow> 'a list \<Rightarrow> nat \<Rightarrow> 'a list option" where
  "prefix_sum_ve VLEN VLEN_MIN valp outp sz =
     (if sz < VLEN * VLEN_MIN then prefix_scalar valp 0 sz outp
      else do {
        let each = prefix_each VLEN sz;
        let rest = sz - each * VLEN;
        (outp, current_val) \<leftarrow> for_each (\<lambda>j. for_each (prefix_lane valp each j) [0..<VLEN]) [0..<each]
          (outp, replicate VLEN 0);
        outp \<leftarrow> prefix_scalar valp (each * VLEN) rest outp;
        outp \<leftarrow> for_each (\<lambda>i. prefix_add (each * i) (each * (i + 1))) [1..<VLEN] outp;
        prefix_add (each * VLEN) (each * VLEN + rest) outp })"

definition prefix_sum_x86 :: "'a::{plus,zero} list \<Rightarrow> 'a list \<Rightarrow> nat \<Rightarrow> 'a list option" where
  "prefix_sum_x86 valp outp sz = prefix_scalar valp 0 sz outp"

definition prefix_vlen :: nat where "prefix_vlen = 256"
definition prefix_vlen_min :: nat where "prefix_vlen_min = 32"

definition prefix_sum_vec ::
  "('a::{plus,zero} list \<Rightarrow> 'a list \<Rightarrow> nat \<Rightarrow> 'a list option) \<Rightarrow> 'a list \<Rightarrow> 'a list option" where
  "prefix_sum_vec routine val =
     (if length val = 0 then Some []
      else routine val (replicate (length val) 0) (length val))"

subsection \<open>Sums of runs\<close>

definition run_sum :: "'a::monoid_add list \<Rightarrow> 'a" where
  "run_sum xs = fold (+) xs 0"

lemma fold_plus_acc: "fold (+) xs (a :: 'a::monoid_add) = run_sum xs + a"
  unfolding run_sum_def
proof (induction xs arbitrary: a rule: rev_induct)
  case (snoc x xs)
  from snoc [of a] show ?case by (simp add: add.assoc)
qed simp

lemma run_sum_append: "run_sum (xs @ ys) = run_sum ys + run_sum xs"
  by (simp add: run_sum_def [of "xs @ ys"] fold_plus_acc [of ys] flip: run_sum_def)

lemma run_sum_Nil [simp]: "run_sum [] = 0"
  by (simp add: run_sum_def)

lemma run_sum_snoc: "b + j < length xs \<Longrightarrow>
  run_sum (take (Suc j) (drop b xs)) = xs ! (b + j) + run_sum (take j (drop b xs))"
  by (simp add: take_drop_Suc run_sum_append run_sum_def [of "[_]"])

lemma run_sum_split:
  "run_sum (take (b + j) xs) = run_sum (take j (drop b xs)) + run_sum (take b xs)"
  by (simp add: take_add run_sum_append)

text \<open>The scalar loop: the cells of the run hold the sums of the run, the others are untouched.\<close>

lemma prefix_scalar_ok:
  assumes "base + n \<le> length valp" "length outp = length valp"
  shows "ok (prefix_scalar valp base n outp) (\<lambda>out. length out = length valp \<and>
    (\<forall>j<n. out ! (base + j) = run_sum (take (Suc j) (drop base valp))) \<and>
    (\<forall>p<base. out ! p = outp ! p))"
proof -
  let ?I = "\<lambda>k (out, c). length out = length valp \<and> c = run_sum (take k (drop base valp)) \<and>
    (\<forall>j<k. out ! (base + j) = run_sum (take (Suc j) (drop base valp))) \<and> (\<forall>p<base. out ! p = outp ! p)"
  have "ok (for_each (prefix_step valp base) [0..<n] (outp, 0)) (?I n)"
  proof (rule ok_for_range [where I = ?I])
    fix k st
    assume k: "k < n" and st: "?I k st"
    then show "ok (prefix_step valp base k st) (?I (Suc k))"
      using assms run_sum_snoc [of base k valp]
      by (auto simp: prefix_step_def ok_simps Let_def nth_list_update less_Suc_eq add.commute)
  qed (use assms in simp_all)
  then show ?thesis by (auto simp: prefix_scalar_def ok_bind elim!: ok_mono)
qed

subsection \<open>The lockstep runs\<close>

lemma run_index_inj:
  fixes j j' i i' each :: nat
  assumes "j + each * i = j' + each * i'" "j < each" "j' < each"
  shows "j = j' \<and> i = i'"
proof -
  have "(j + each * i) mod each = j" "(j' + each * i') mod each = j'" using assms(2,3) by simp_all
  then have "j = j'" using assms(1) by metis
  then show ?thesis using assms by simp
qed

lemma run_index_less:
  fixes j i each n :: nat
  assumes "j < each" "i < n"
  shows "j + each * i < each * n"
proof -
  have "each * Suc i \<le> each * n" using assms by (intro mult_le_mono2) simp
  then show ?thesis using assms by simp
qed

definition run :: "'a::monoid_add list \<Rightarrow> nat \<Rightarrow> nat \<Rightarrow> nat \<Rightarrow> 'a" where
  "run valp each i k = run_sum (take k (drop (each * i) valp))"

definition runs_done ::
  "'a::monoid_add list \<Rightarrow> nat \<Rightarrow> nat \<Rightarrow> nat \<Rightarrow> nat \<Rightarrow> 'a list \<times> 'a list \<Rightarrow> bool" where
  "runs_done valp each VLEN j i st \<longleftrightarrow> length (fst st) = length valp \<and> length (snd st) = VLEN \<and>
     (\<forall>i'<VLEN. snd st ! i' = run valp each i' (if i' < i then Suc j else j)) \<and>
     (\<forall>i'<VLEN. \<forall>j'<each. j' < j \<or> j' = j \<and> i' < i \<longrightarrow> fst st ! (j' + each * i') = run valp each i' (Suc j'))"

lemma prefix_lane_ok:
  assumes "j < each" "i < VLEN" "each * VLEN \<le> length valp" and st: "runs_done valp each VLEN j i st"
  shows "ok (prefix_lane valp each j i st) (runs_done valp each VLEN j (Suc i))"
proof -
  obtain out cur where [simp]: "st = (out, cur)" by (cases st)
  have idx: "j + each * i < length valp" using run_index_less [OF assms(1,2)] assms(3) by simp
  have next_val: "valp ! (j + each * i) + cur ! i = run valp each i (Suc j)"
    using st assms idx run_sum_snoc [of "each * i" j valp] by (simp add: runs_done_def run_def add.commute)
  have sep: "j' + each * i' \<noteq> j + each * i" if "j' < each" "i' \<noteq> i \<or> j' \<noteq> j" for i' j'
    using run_index_inj [of j' each i' j i] that assms(1) by blast
  have sep': "out[j + each * i := x] ! (j' + each * i') = (if i' = i \<and> j' = j then x else out ! (j' + each * i'))"
    if "j' < each" for i' j' x
    using sep [OF that, of i'] idx st by (auto simp: runs_done_def)
  have "runs_done valp each VLEN j (Suc i) (out[j + each * i := run valp each i (Suc j)], cur[i := run valp each i (Suc j)])"
    using st assms(1,2) by (auto simp: runs_done_def sep' nth_list_update less_Suc_eq)
  then show ?thesis
    using st idx assms(2) next_val by (simp add: prefix_lane_def ok_simps Let_def) (simp add: runs_done_def)
qed

lemma runs_next: "runs_done valp each VLEN j VLEN st \<Longrightarrow> runs_done valp each VLEN (Suc j) 0 st"
  by (auto simp: runs_done_def less_Suc_eq)

lemma prefix_runs_ok:
  assumes "each * VLEN \<le> length valp" "length outp = length valp"
  shows "ok (for_each (\<lambda>j. for_each (prefix_lane valp each j) [0..<VLEN]) [0..<each] (outp, replicate VLEN 0))
    (runs_done valp each VLEN each 0)"
proof (rule ok_for_range [where I = "\<lambda>j. runs_done valp each VLEN j 0"])
  show "runs_done valp each VLEN 0 0 (outp, replicate VLEN 0)"
    using assms by (simp add: runs_done_def run_def)
  fix j st
  assume "j < each" "runs_done valp each VLEN j 0 st"
  then have "ok (for_each (prefix_lane valp each j) [0..<VLEN] st) (runs_done valp each VLEN j VLEN)"
    using assms by (intro ok_for_range) (auto intro: prefix_lane_ok)
  then show "ok (for_each (prefix_lane valp each j) [0..<VLEN] st) (runs_done valp each VLEN (Suc j) 0)"
    by (rule ok_mono) (rule runs_next)
qed simp

subsection \<open>Adding the preceding totals\<close>

definition psum :: "'a::monoid_add list \<Rightarrow> nat \<Rightarrow> 'a" where
  "psum xs p = run_sum (take (Suc p) xs)"

lemma prefix_add_ok:
  assumes "0 < lo" "lo \<le> hi" "hi \<le> length out"
  shows "ok (prefix_add lo hi out) (\<lambda>out'. length out' = length out \<and>
    (\<forall>p<length out. out' ! p = (if lo \<le> p \<and> p < hi then out ! p + out ! (lo - 1) else out ! p)))"
proof -
  let ?I = "\<lambda>k out'. length out' = length out \<and>
    (\<forall>p<length out. out' ! p = (if lo \<le> p \<and> p < k then out ! p + out ! (lo - 1) else out ! p))"
  have "ok (for_each (\<lambda>j outp. do { v \<leftarrow> rd outp j; wr outp j (v + out ! (lo - 1)) }) [lo..<hi] out) (?I hi)"
    by (rule ok_for_range [where I = ?I]) (use assms in \<open>auto simp: ok_simps nth_list_update\<close>)
  then show ?thesis using assms by (simp add: prefix_add_def)
qed

text \<open>Before run \<open>i\<close> is corrected, the cells before it hold the result and the later ones their run's sums.\<close>

definition partly_added :: "'a::monoid_add list \<Rightarrow> nat \<Rightarrow> nat \<Rightarrow> nat \<Rightarrow> 'a list \<Rightarrow> bool" where
  "partly_added valp each VLEN i out \<longleftrightarrow> length out = length valp \<and>
     (\<forall>p<each * i. out ! p = psum valp p) \<and>
     (\<forall>i'<VLEN. i \<le> i' \<longrightarrow> (\<forall>j<each. out ! (j + each * i') = run valp each i' (Suc j))) \<and>
     (\<forall>j. each * VLEN + j < length valp \<longrightarrow>
        out ! (each * VLEN + j) = run_sum (take (Suc j) (drop (each * VLEN) valp)))"

lemma psum_split: "0 < b \<Longrightarrow> run_sum (take (Suc j) (drop b xs)) + psum xs (b - 1) = psum xs (b + j)"
  using run_sum_split [of b "Suc j" xs] by (simp add: psum_def)

lemma prefix_add_run:
  assumes "0 < i" "i < VLEN" "0 < each" "each * VLEN \<le> length valp" and pa: "partly_added valp each VLEN i out"
  shows "ok (prefix_add (each * i) (each * (i + 1)) out) (partly_added valp each VLEN (Suc i))"
proof -
  have len: "length out = length valp" using pa by (simp add: partly_added_def)
  have hi: "each * (i + 1) \<le> each * VLEN" using assms(2) by (intro mult_le_mono2) simp
  have lo: "0 < each * i" "each * i \<le> each * (i + 1)" using assms by simp_all
  have prev: "out ! (each * i - 1) = psum valp (each * i - 1)" using pa lo by (simp add: partly_added_def)
  show ?thesis
  proof (rule ok_mono [OF prefix_add_ok [OF lo]])
    show "each * (i + 1) \<le> length out" using hi assms(4) len by simp
    fix out'
    assume out': "length out' = length out \<and> (\<forall>p<length out. out' ! p =
      (if each * i \<le> p \<and> p < each * (i + 1) then out ! p + out ! (each * i - 1) else out ! p))"
    have "out' ! p = psum valp p" if p: "p < each * Suc i" for p
    proof (cases "p < each * i")
      case True
      then show ?thesis using out' pa hi assms(4) len p by (simp add: partly_added_def)
    next
      case False
      define j where "j = p - each * i"
      have pj: "p = j + each * i" "j < each" using False p by (simp_all add: j_def)
      then have "out ! p = run valp each i (Suc j)" using pa assms(2) by (simp add: partly_added_def)
      moreover have "p < length out" using p hi assms(4) len by simp
      ultimately show ?thesis
        using out' False p prev psum_split [OF lo(1), of j valp] pj by (simp add: run_def add.commute)
    qed
    moreover have "out' ! (j + each * i') = run valp each i' (Suc j)" if "i' < VLEN" "Suc i \<le> i'" "j < each" for i' j
    proof -
      have "each * (i + 1) \<le> each * i'" using that by (intro mult_le_mono2) simp
      moreover have "j + each * i' < length out"
        using run_index_less [OF that(3,1)] assms(4) len by simp
      ultimately show ?thesis using out' pa that by (simp add: partly_added_def)
    qed
    moreover have "out' ! (each * VLEN + j) = run_sum (take (Suc j) (drop (each * VLEN) valp))"
      if "each * VLEN + j < length valp" for j
      using that out' pa hi len by (simp add: partly_added_def)
    ultimately show "partly_added valp each VLEN (Suc i) out'"
      using out' len by (simp add: partly_added_def)
  qed
qed

lemma prefix_each_bounds:
  assumes "0 < VLEN" "VLEN \<le> sz"
  shows "0 < prefix_each VLEN sz" "prefix_each VLEN sz * VLEN \<le> sz"
proof -
  have "0 < sz div VLEN" using assms by (simp add: div_greater_zero_iff)
  then show "0 < prefix_each VLEN sz" by (auto simp: prefix_each_def Let_def)
  have "prefix_each VLEN sz \<le> sz div VLEN" by (simp add: prefix_each_def Let_def)
  then have "prefix_each VLEN sz * VLEN \<le> sz div VLEN * VLEN" by (rule mult_le_mono1)
  also have "\<dots> \<le> sz" by simp
  finally show "prefix_each VLEN sz * VLEN \<le> sz" .
qed

subsection \<open>Properties\<close>

lemma run_sum_nat: "run_sum xs = sum_list (xs :: nat list)"
  by (induction xs rule: rev_induct) (simp_all add: run_sum_append, simp add: run_sum_def)

definition prefix_sums :: "'a::monoid_add list \<Rightarrow> 'a list" where
  "prefix_sums xs = map (\<lambda>j. run_sum (take (Suc j) xs)) [0..<length xs]"

lemma prefix_scalar_eq:
  "length outp = length valp \<Longrightarrow> prefix_scalar valp 0 (length valp) outp = Some (prefix_sums valp)"
  using prefix_scalar_ok [of 0 "length valp" valp outp]
  by (auto simp: ok_iff_ex prefix_sums_def intro!: nth_equalityI)

lemma prefix_rest_ok:
  assumes "runs_done valp each VLEN each 0 (out, cur)" "each * VLEN \<le> length valp" "0 < VLEN"
  shows "ok (prefix_scalar valp (each * VLEN) (length valp - each * VLEN) out) (partly_added valp each VLEN 1)"
proof (rule ok_mono [OF prefix_scalar_ok])
  show "each * VLEN + (length valp - each * VLEN) \<le> length valp" "length out = length valp"
    using assms by (simp_all add: runs_done_def)
  fix out'
  assume out': "length out' = length valp \<and>
     (\<forall>j<length valp - each * VLEN. out' ! (each * VLEN + j) = run_sum (take (Suc j) (drop (each * VLEN) valp))) \<and>
     (\<forall>p<each * VLEN. out' ! p = out ! p)"
  have runs: "out' ! (j + each * i) = run valp each i (Suc j)" if "i < VLEN" "j < each" for i j
    using out' run_index_less [OF that(2,1)] assms(1) that by (simp add: runs_done_def)
  have "out' ! p = psum valp p" if "p < each * 1" for p
    using runs [of 0 p] that assms(3) by (simp add: run_def psum_def)
  then show "partly_added valp each VLEN 1 out'"
    using out' runs by (simp add: partly_added_def)
qed

lemma prefix_last_ok:
  assumes "partly_added valp each VLEN VLEN out" "each * VLEN \<le> length valp" "0 < each" "0 < VLEN"
  shows "ok (prefix_add (each * VLEN) (each * VLEN + (length valp - each * VLEN)) out) (\<lambda>out. out = prefix_sums valp)"
proof -
  have len: "length out = length valp" using assms(1) by (simp add: partly_added_def)
  have lo: "0 < each * VLEN" using assms by simp
  have prev: "out ! (each * VLEN - 1) = psum valp (each * VLEN - 1)"
    using assms(1) lo by (simp add: partly_added_def)
  show ?thesis
  proof (rule ok_mono [OF prefix_add_ok [OF lo]])
    show "each * VLEN \<le> each * VLEN + (length valp - each * VLEN)"
      "each * VLEN + (length valp - each * VLEN) \<le> length out" using assms(2) len by simp_all
    fix out'
    assume out': "length out' = length out \<and> (\<forall>p<length out. out' ! p =
      (if each * VLEN \<le> p \<and> p < each * VLEN + (length valp - each * VLEN)
       then out ! p + out ! (each * VLEN - 1) else out ! p))"
    have "out' ! p = psum valp p" if p: "p < length valp" for p
    proof (cases "p < each * VLEN")
      case True
      then show ?thesis using out' assms(1) len p by (simp add: partly_added_def)
    next
      case False
      define j where "j = p - each * VLEN"
      have pj: "p = each * VLEN + j" using False by (simp add: j_def)
      then have "out ! p = run_sum (take (Suc j) (drop (each * VLEN) valp))"
        using assms(1) p by (simp add: partly_added_def)
      then show ?thesis
        using out' False p len prev psum_split [OF lo, of j valp] pj by simp
    qed
    then show "out' = prefix_sums valp"
      using out' len by (auto simp: prefix_sums_def psum_def intro!: nth_equalityI)
  qed
qed

lemma prefix_sum_ve_eq:
  assumes "0 < VLEN" "0 < VLEN_MIN" "length outp = length valp"
  shows "prefix_sum_ve VLEN VLEN_MIN valp outp (length valp) = Some (prefix_sums valp)"
proof (cases "length valp < VLEN * VLEN_MIN")
  case True
  then show ?thesis using assms by (simp add: prefix_sum_ve_def prefix_scalar_eq)
next
  case False
  define each where "each = prefix_each VLEN (length valp)"
  have "VLEN \<le> VLEN * VLEN_MIN" using assms(2) by simp
  then have "VLEN \<le> length valp" using False by linarith
  from prefix_each_bounds [OF assms(1) this]
  have each: "0 < each" "each * VLEN \<le> length valp" by (simp_all add: each_def)
  from prefix_runs_ok [OF each(2) assms(3)] obtain out1 cur where
    1: "for_each (\<lambda>j. for_each (prefix_lane valp each j) [0..<VLEN]) [0..<each] (outp, replicate VLEN 0) = Some (out1, cur)"
      "runs_done valp each VLEN each 0 (out1, cur)"
    by (auto simp: ok_iff_ex)
  from prefix_rest_ok [OF 1(2) each(2) assms(1)] obtain out2 where
    2: "prefix_scalar valp (each * VLEN) (length valp - each * VLEN) out1 = Some out2" "partly_added valp each VLEN 1 out2"
    by (auto simp: ok_iff_ex)
  have "ok (for_each (\<lambda>i. prefix_add (each * i) (each * (i + 1))) [1..<VLEN] out2) (partly_added valp each VLEN VLEN)"
    using 2(2) assms(1) each by (intro ok_for_range prefix_add_run) auto
  then obtain out3 where
    3: "for_each (\<lambda>i. prefix_add (each * i) (each * (i + 1))) [1..<VLEN] out2 = Some out3" "partly_added valp each VLEN VLEN out3"
    by (auto simp: ok_iff_ex)
  from prefix_last_ok [OF 3(2) each(2,1) assms(1)]
  have 4: "prefix_add (each * VLEN) (each * VLEN + (length valp - each * VLEN)) out3 = Some (prefix_sums valp)"
    by (simp add: ok_eq)
  show ?thesis
    using False unfolding prefix_sum_ve_def Let_def each_def [symmetric] by (simp add: 1 2 3 4 del: One_nat_def)
qed

text \<open>C9. prefix_sum (core/prefix_sum.hpp): the vector build's routine, with its lockstep runs and the
  pass that adds the preceding totals, stays inside its arrays and computes the same array as the
  scalar build, for every array length and any addition that is associative with zero (so also the
  wrap-around addition of machine integers).\<close>
theorem prefix_sum_builds_agree:
  assumes "0 < VLEN" "0 < VLEN_MIN" "length outp = length valp"
  shows "prefix_sum_ve VLEN VLEN_MIN valp outp (length valp) = Some (prefix_sums valp) \<and>
    prefix_sum_x86 valp outp (length valp) = Some (prefix_sums (valp :: 'a::monoid_add list))"
  using assms by (simp add: prefix_sum_ve_eq prefix_sum_x86_def prefix_scalar_eq)

theorem prefix_sum_builds_agree_witness:
  "prefix_sum_ve 4 2 [1,2,3,4,5,6,7,8,9,10 :: nat] (replicate 10 0) 10 = Some [1,3,6,10,15,21,28,36,45,55]"
  using prefix_sum_builds_agree [of 4 2 "replicate 10 0" "[1,2,3,4,5,6,7,8,9,10 :: nat]"]
  by (simp add: prefix_sums_def run_sum_def upt_rec eval_nat_numeral)

lemma prefix_sum_vec_eq:
  "prefix_sum_vec (prefix_sum_ve prefix_vlen prefix_vlen_min) val = Some (prefix_sums val)"
  "prefix_sum_vec prefix_sum_x86 val = Some (prefix_sums val)"
  by (simp_all add: prefix_sum_vec_def prefix_sum_ve_eq prefix_sum_x86_def prefix_scalar_eq
      prefix_vlen_def prefix_vlen_min_def prefix_sums_def)

text \<open>The overload on vectors inverts by differences: the first cell of the result is the first
  value, and every later cell is the value there plus the cell before it, in either build.\<close>
theorem prefix_sum_vec_differences:
  assumes "prefix_sum_vec (prefix_sum_ve prefix_vlen prefix_vlen_min) val = Some (out :: 'a::monoid_add list)"
  shows "prefix_sum_vec prefix_sum_x86 val = Some out \<and> length out = length val \<and>
    (\<forall>j<length val. out ! j = (if j = 0 then val ! 0 else val ! j + out ! (j - 1)))"
proof -
  have "out = prefix_sums val" using assms prefix_sum_vec_eq(1) [of val] by simp
  moreover have "prefix_sums val ! j = (if j = 0 then val ! 0 else val ! j + prefix_sums val ! (j - 1))"
    if "j < length val" for j
    using run_sum_snoc [of 0 j val] that by (cases j) (simp_all add: prefix_sums_def)
  ultimately show ?thesis using prefix_sum_vec_eq(2) [of val] by (simp add: prefix_sums_def)
qed

theorem prefix_sum_vec_differences_witness:
  "\<exists>out. prefix_sum_vec (prefix_sum_ve prefix_vlen prefix_vlen_min) [4, 1, 5 :: nat] = Some out \<and> out ! 2 = 5 + out ! 1"
proof -
  obtain out where out: "prefix_sum_vec (prefix_sum_ve prefix_vlen prefix_vlen_min) [4, 1, 5 :: nat] = Some out"
    using prefix_sum_vec_eq(1) by blast
  from prefix_sum_vec_differences [OF out] out show ?thesis by simp
qed

end
