(* ===== verification/StableSort.thy ===== *)
theory StableSort
  imports Prelude "HOL-Library.Multiset"
begin

text \<open>
  Stable sorting, for the sorts of core/radix_sort.hpp: when a list is the stable sort of another,
  sorting digit by digit, counting sort as a scatter to ranks, and insertion from the left.
\<close>

subsection \<open>When two stable sorts agree\<close>

lemma sort_key_cong_order:
  assumes "\<And>x y. x \<in> set xs \<Longrightarrow> y \<in> set xs \<Longrightarrow> f x \<le> f y \<longleftrightarrow> g x \<le> g y"
  shows "sort_key (f :: 'a \<Rightarrow> 'b::linorder) xs = sort_key (g :: 'a \<Rightarrow> 'c::linorder) xs"
proof (rule properties_for_sort_key)
  fix k assume k: "k \<in> set (sort_key g xs)"
  have same: "f k = f x \<longleftrightarrow> g x = g k" if "x \<in> set xs" for x
    using assms [of k x] assms [of x k] k that by (metis antisym order_refl set_sort)
  have "filter (\<lambda>x. f k = f x) (sort_key g xs) = filter (\<lambda>x. g x = g k) (sort_key g xs)"
    by (rule filter_cong) (use same in auto)
  also have "\<dots> = filter (\<lambda>x. g x = g k) xs" by (rule sort_key_stable)
  also have "\<dots> = filter (\<lambda>x. f k = f x) xs" by (rule filter_cong) (use same in auto)
  finally show "filter (\<lambda>x. f k = f x) (sort_key g xs) = filter (\<lambda>x. f k = f x) xs" .
next
  have "sorted_wrt (\<lambda>x y. g x \<le> g y) (sort_key g xs)"
    using sorted_sort_key [of g xs] by (simp add: sorted_map)
  then have "sorted_wrt (\<lambda>x y. f x \<le> f y) (sort_key g xs)"
    by (rule sorted_wrt_mono_rel [rotated]) (use assms in auto)
  then show "sorted (map f (sort_key g xs))" by (simp add: sorted_map)
qed simp

lemma sort_key_map: "sort_key f (map g xs) = map g (sort_key (\<lambda>x. f (g x)) xs)"
proof (rule properties_for_sort_key)
  fix k
  show "filter (\<lambda>x. f k = f x) (map g (sort_key (\<lambda>x. f (g x)) xs)) = filter (\<lambda>x. f k = f x) (map g xs)"
    using sort_key_stable [of "\<lambda>x. f (g x)" "f k" xs] by (simp add: filter_map o_def eq_commute)
next
  show "sorted (map f (map g (sort_key (\<lambda>x. f (g x)) xs)))"
    using sorted_sort_key [of "\<lambda>x. f (g x)" xs] by (simp add: o_def)
qed simp

text \<open>A stable sort is lexicographic: by the key, and among equal keys in the order before.\<close>

lemma sorted_wrt_two_keys:
  assumes "sorted (map f ys)" "\<And>k. sorted_wrt R (filter (\<lambda>x. f x = k) ys)"
  shows "sorted_wrt (\<lambda>x y. f x < (f y :: 'b::linorder) \<or> f x = f y \<and> R x y) ys"
  using assms
proof (induction ys)
  case (Cons y ys)
  have tl: "sorted_wrt R (filter (\<lambda>x. f x = k) ys)" for k
    using Cons.prems(2) [of k] by (simp split: if_splits)
  have "R y x" if "x \<in> set ys" "f x = f y" for x
    using Cons.prems(2) [of "f y"] that by simp
  then show ?case using Cons.IH tl Cons.prems(1) by force
qed simp

lemma sorted_wrt_filter_keys:
  assumes "sorted_wrt R xs"
  shows "sorted_wrt (\<lambda>x y. f x < (f y :: 'b::linorder) \<or> f x = f y \<and> R x y) (sort_key f xs)"
proof (rule sorted_wrt_two_keys)
  show "sorted_wrt R (filter (\<lambda>x. f x = k) (sort_key f xs))" for k
    using assms by (simp add: sort_key_stable sorted_wrt_filter)
qed simp

subsection \<open>Sorting by one key after the other\<close>

text \<open>Sorting by the less significant key first and then by the more significant one.\<close>

lemma sort_key_lex:
  fixes f :: "'a \<Rightarrow> 'b::linorder" and g :: "'a \<Rightarrow> 'c::linorder" and h :: "'a \<Rightarrow> 'd::linorder"
  assumes h: "\<And>x y. x \<in> set xs \<Longrightarrow> y \<in> set xs \<Longrightarrow> h x \<le> h y \<longleftrightarrow> f x < f y \<or> f x = f y \<and> g x \<le> g y"
  shows "sort_key f (sort_key g xs) = sort_key h xs"
proof (rule properties_for_sort_key [symmetric])
  fix k assume k: "k \<in> set (sort_key f (sort_key g xs))"
  have *: "h k = h x \<longleftrightarrow> g x = g k \<and> f x = f k" if "x \<in> set xs" for x
    using h [of k x] h [of x k] that k by (simp only: set_sort) (metis antisym order_refl less_asym)
  have split: "filter (\<lambda>x. h k = h x) zs = filter (\<lambda>x. g x = g k) (filter (\<lambda>x. f x = f k) zs)"
    if "set zs = set xs" for zs
    unfolding filter_filter by (rule filter_cong) (use * that in auto)
  have swap: "filter P (filter Q zs) = filter Q (filter P zs)" for P Q and zs :: "'a list"
    by (simp add: conj_commute)
  have "filter (\<lambda>x. g x = g k) (filter (\<lambda>x. f x = f k) (sort_key f (sort_key g xs)))
      = filter (\<lambda>x. f x = f k) (filter (\<lambda>x. g x = g k) (sort_key g xs))"
    by (subst sort_key_stable, rule swap)
  also have "\<dots> = filter (\<lambda>x. g x = g k) (filter (\<lambda>x. f x = f k) xs)"
    by (subst sort_key_stable, rule swap)
  finally show "filter (\<lambda>x. h k = h x) (sort_key f (sort_key g xs)) = filter (\<lambda>x. h k = h x) xs"
    by (simp add: split)
next
  have "sorted_wrt (\<lambda>x y. g x \<le> g y) (sort_key g xs)"
    using sorted_sort_key [of g xs] by (simp only: sorted_map)
  then have "sorted_wrt (\<lambda>x y. f x < f y \<or> f x = f y \<and> g x \<le> g y) (sort_key f (sort_key g xs))"
    by (rule sorted_wrt_filter_keys)
  then have "sorted_wrt (\<lambda>x y. h x \<le> h y) (sort_key f (sort_key g xs))"
    by (rule sorted_wrt_mono_rel [rotated]) (use h in auto)
  then show "sorted (map h (sort_key f (sort_key g xs)))" by (simp only: sorted_map)
qed simp

lemma sort_key_digits:
  fixes low dig :: "'a \<Rightarrow> nat"
  assumes low: "\<And>x. x \<in> set xs \<Longrightarrow> low x < B"
  shows "sort_key dig (sort_key low xs) = sort_key (\<lambda>x. low x + B * dig x) xs"
proof (rule sort_key_lex)
  fix x y assume "x \<in> set xs" "y \<in> set xs"
  then have less: "low x < B" "low y < B" using low by simp_all
  have *: "low a + B * dig a < low b + B * dig b" if "dig a < dig b" "low a < B" for a b
  proof -
    have "B * Suc (dig a) \<le> B * dig b" using that by (intro mult_le_mono2) simp
    then show ?thesis using that by simp
  qed
  show "low x + B * dig x \<le> low y + B * dig y \<longleftrightarrow> dig x < dig y \<or> dig x = dig y \<and> low x \<le> low y"
    using * [of x y] * [of y x] less by (cases "dig x" "dig y" rule: linorder_cases) auto
qed

subsection \<open>Counting sort: a scatter to the ranks\<close>

lemma sort_key_buckets:
  fixes dig :: "'a \<Rightarrow> nat"
  assumes "\<And>x. x \<in> set xs \<Longrightarrow> dig x < N"
  shows "sort_key dig xs = concat (map (\<lambda>c. filter (\<lambda>x. dig x = c) xs) [0..<N])"
proof (rule properties_for_sort_key)
  have *: "concat (map (\<lambda>c. filter (\<lambda>x. dig x = c) (filter P xs)) [0..<M])
      = filter P (concat (map (\<lambda>c. filter (\<lambda>x. dig x = c) xs) [0..<M]))" for P M
    by (simp add: filter_concat o_def conj_commute)
  have one: "concat (map (\<lambda>c. if c = k then zs else []) [0..<M]) = (if k < M then zs else [])" for k M and zs :: "'a list"
    by (induction M) auto
  have filt: "filter (\<lambda>x. k = dig x) (filter (\<lambda>x. dig x = c) xs) = (if c = k then filter (\<lambda>x. k = dig x) xs else [])" for c k
    by (auto intro: filter_cong)
  show "filter (\<lambda>x. dig k = dig x) (concat (map (\<lambda>c. filter (\<lambda>x. dig x = c) xs) [0..<N])) = filter (\<lambda>x. dig k = dig x) xs"
    if "k \<in> set (concat (map (\<lambda>c. filter (\<lambda>x. dig x = c) xs) [0..<N]))" for k
    using that assms by (auto simp add: filter_concat o_def filt one simp del: filter_filter)
  have "mset (concat (map (\<lambda>c. filter (\<lambda>x. dig x = c) xs) [0..<M])) = filter_mset (\<lambda>x. dig x < M) (mset xs)" for M
  proof (induction M)
    case (Suc M)
    have "filter_mset (\<lambda>x. dig x < Suc M) (mset xs) = filter_mset (\<lambda>x. dig x < M) (mset xs) + filter_mset (\<lambda>x. dig x = M) (mset xs)"
      by (rule multiset_eqI) auto
    then show ?case using Suc by simp
  qed simp
  then show "mset (concat (map (\<lambda>c. filter (\<lambda>x. dig x = c) xs) [0..<N])) = mset xs"
    using assms by (simp add: filter_mset_eq_conv)
  show "sorted (map dig (concat (map (\<lambda>c. filter (\<lambda>x. dig x = c) xs) [0..<N])))"
  proof (induction N)
    case (Suc N)
    have "sorted (map dig (filter (\<lambda>x. dig x = N) xs))" by (induction xs) auto
    then show ?case using Suc by (auto simp: sorted_append)
  qed simp
qed

text \<open>The rank of position \<open>p\<close>: what comes before it, by digit and then by position.\<close>

definition before :: "('a \<Rightarrow> nat) \<Rightarrow> 'a list \<Rightarrow> nat \<Rightarrow> nat set" where
  "before dig xs p = {q. q < length xs \<and> (dig (xs ! q) < dig (xs ! p) \<or> dig (xs ! q) = dig (xs ! p) \<and> q < p)}"

definition rank :: "('a \<Rightarrow> nat) \<Rightarrow> 'a list \<Rightarrow> nat \<Rightarrow> nat" where
  "rank dig xs p = card (before dig xs p)"

lemma finite_before [simp]: "finite (before dig xs p)"
  by (simp add: before_def)

lemma rank_less: "p < length xs \<Longrightarrow> rank dig xs p < length xs"
proof -
  assume "p < length xs"
  then have "before dig xs p \<subset> {..<length xs}" by (auto simp: before_def)
  then have "card (before dig xs p) < card {..<length xs}" by (rule psubset_card_mono [rotated]) simp
  then show ?thesis by (simp add: rank_def)
qed

lemma rank_inj: "inj_on (rank dig xs) {..<length xs}"
proof (rule inj_onI)
  fix p q assume pq: "p \<in> {..<length xs}" "q \<in> {..<length xs}" "rank dig xs p = rank dig xs q"
  have *: "rank dig xs a < rank dig xs b"
    if "a < length xs" "dig (xs ! a) < dig (xs ! b) \<or> dig (xs ! a) = dig (xs ! b) \<and> a < b" for a b
  proof -
    have "before dig xs a \<subset> before dig xs b" using that by (auto simp: before_def)
    then show ?thesis unfolding rank_def by (rule psubset_card_mono [rotated]) simp
  qed
  have "\<not> rank dig xs p < rank dig xs q" "\<not> rank dig xs q < rank dig xs p" using pq(3) by simp_all
  then show "p = q" using * [of p q] * [of q p] pq(1,2) by (metis lessThan_iff linorder_neqE_nat)
qed

lemma rank_surj: "rank dig xs ` {..<length xs} = {..<length xs}"
  by (rule endo_inj_surj [OF _ _ rank_inj]) (use rank_less in auto)

lemma length_buckets:
  "length (concat (map (\<lambda>c. filter (\<lambda>x. dig x = c) xs) [0..<M])) = length (filter (\<lambda>x. dig x < (M :: nat)) xs)"
proof (induction M)
  case (Suc M)
  have "length (filter (\<lambda>x. dig x < Suc M) xs) = length (filter (\<lambda>x. dig x < M) xs) + length (filter (\<lambda>x. dig x = M) xs)"
    by (induction xs) auto
  then show ?case using Suc by simp
qed simp

text \<open>The rank as the code computes it: the size of the buckets before, and the items of its own bucket
  that come earlier.\<close>

lemma rank_buckets:
  assumes "p < length xs"
  shows "rank dig xs p = length (concat (map (\<lambda>c. filter (\<lambda>x. dig x = c) xs) [0..<dig (xs ! p)])) +
    length (filter (\<lambda>x. dig x = dig (xs ! p)) (take p xs))"
proof -
  define c where "c = dig (xs ! p)"
  have "before dig xs p = {q. q < length xs \<and> dig (xs ! q) < c} \<union> {q. q < p \<and> dig (xs ! q) = c}"
    using assms by (auto simp: before_def c_def)
  then have rank: "rank dig xs p = card {q. q < length xs \<and> dig (xs ! q) < c} + card {q. q < p \<and> dig (xs ! q) = c}"
    unfolding rank_def by (simp add: card_Un_disjoint disjoint_iff)
  have "length (concat (map (\<lambda>c. filter (\<lambda>x. dig x = c) xs) [0..<c])) = card {q. q < length xs \<and> dig (xs ! q) < c}"
    by (simp only: length_buckets length_filter_conv_card)
  moreover have "length (filter (\<lambda>x. dig x = c) (take p xs)) = card {q. q < p \<and> dig (xs ! q) = c}"
    using assms by (auto simp: length_filter_conv_card intro: arg_cong [of _ _ card])
  ultimately show ?thesis by (simp add: rank c_def)
qed

lemma sort_key_rank:
  assumes "p < length xs"
  shows "sort_key dig xs ! rank dig xs p = xs ! p"
proof -
  define c where "c = dig (xs ! p)"
  define N where "N = Suc (Max (dig ` set xs))"
  have less: "dig x < N" if "x \<in> set xs" for x using that by (simp add: N_def less_Suc_eq_le)
  define F where "F = (\<lambda>c. filter (\<lambda>x. dig x = c) xs)"
  have cN: "c < N" using less assms by (simp add: c_def)
  have "[0..<N] = [0..<c] @ c # [Suc c..<N]" using cN upt_add_eq_append [of 0 c "N - c"] by (simp add: upt_conv_Cons)
  then have sorted: "sort_key dig xs = concat (map F [0..<c]) @ F c @ concat (map F [Suc c..<N])"
    using sort_key_buckets [of xs dig N] less by (simp add: F_def)
  have rank: "rank dig xs p = length (concat (map F [0..<c])) + length (filter (\<lambda>x. dig x = c) (take p xs))"
    unfolding F_def c_def by (rule rank_buckets [OF assms])
  have "F c = filter (\<lambda>x. dig x = c) (take p xs) @ xs ! p # filter (\<lambda>x. dig x = c) (drop (Suc p) xs)"
    unfolding F_def using id_take_nth_drop [OF assms] c_def
    by (metis (mono_tags, lifting) filter.simps(2) filter_append)
  then show ?thesis unfolding sorted rank by (simp add: nth_append)
qed

text \<open>A loop that writes every element to its rank, in whatever order, sorts.\<close>

lemma scatter_ranks:
  assumes f: "\<And>z s. z \<in> set zs \<Longrightarrow> length s = length xs \<Longrightarrow> f z s = Some (s[rank dig xs (g z) := xs ! g z])"
    and zs: "g ` set zs = {..<length xs}" and len: "length dst = length xs"
  shows "for_each f zs dst = Some (sort_key dig xs)"
proof -
  define I where "I = (\<lambda>pre d. length d = length xs \<and>
    (\<forall>z\<in>set pre. d ! rank dig xs (g z) = sort_key dig xs ! rank dig xs (g z)))"
  have "ok (for_each f zs dst) (I zs)"
  proof (rule ok_for_each)
    fix pre z post d
    assume split: "zs = pre @ z # post" and d: "I pre d"
    then have z: "z \<in> set zs" by simp
    then have "g z < length xs" using zs by blast
    then have v: "xs ! g z = sort_key dig xs ! rank dig xs (g z)" "rank dig xs (g z) < length xs"
      by (simp_all add: sort_key_rank rank_less)
    show "ok (f z d) (I (pre @ [z]))"
      using f [OF z, of d] d unfolding v(1) I_def by (auto simp: nth_list_update v(2))
  qed (use len in \<open>simp add: I_def\<close>)
  then obtain d where d: "for_each f zs dst = Some d" "I zs d" by (auto simp: ok_iff_ex)
  have "d = sort_key dig xs"
  proof (rule nth_equalityI)
    fix i assume "i < length d"
    then have "i \<in> rank dig xs ` g ` set zs" using d(2) zs rank_surj [of dig xs] by (simp add: I_def)
    then show "d ! i = sort_key dig xs ! i" using d(2) by (auto simp: I_def)
  qed (use d(2) in \<open>simp add: I_def\<close>)
  then show ?thesis using d(1) by simp
qed

subsection \<open>Insertion from the left\<close>

lemma sort_key_snoc:
  "sort_key f (xs @ [x]) = takeWhile (\<lambda>y. f y \<le> f x) (sort_key f xs) @ x # dropWhile (\<lambda>y. f y \<le> f x) (sort_key f xs)"
proof (rule properties_for_sort_key)
  let ?s = "sort_key f xs" and ?P = "\<lambda>y. f y \<le> f x"
  have "mset ?s = mset (takeWhile ?P ?s) + mset (dropWhile ?P ?s)"
    by (metis mset_append takeWhile_dropWhile_id)
  then show "mset (takeWhile ?P ?s @ x # dropWhile ?P ?s) = mset (xs @ [x])" by simp
  have gt: "f x < f y" if "y \<in> set (dropWhile ?P ?s)" for y
  proof -
    obtain z zs where z: "dropWhile ?P ?s = z # zs" using \<open>y \<in> _\<close> by (cases "dropWhile ?P ?s") auto
    have "sorted (map f (dropWhile ?P ?s))"
      using sorted_sort_key [of f xs] by (metis sorted_append map_append takeWhile_dropWhile_id)
    then have "f z \<le> f y" using that z by auto
    moreover have "f x < f z" using z by (metis hd_dropWhile list.distinct(1) list.sel(1) not_le)
    ultimately show ?thesis by simp
  qed
  have le: "f y \<le> f x" if "y \<in> set (takeWhile ?P ?s)" for y using that by (auto dest: set_takeWhileD)
  have sorted: "sorted (map f (takeWhile ?P ?s))" "sorted (map f (dropWhile ?P ?s))"
    using sorted_sort_key [of f xs] by (metis sorted_append map_append takeWhile_dropWhile_id)+
  show "sorted (map f (takeWhile ?P ?s @ x # dropWhile ?P ?s))"
    using sorted gt le by (force simp: sorted_append)
  have "filter (\<lambda>y. f y = k) (takeWhile ?P ?s @ dropWhile ?P ?s) = filter (\<lambda>y. f y = k) xs" for k
    by (simp add: sort_key_stable)
  then have stable: "filter (\<lambda>y. f y = k) (takeWhile ?P ?s) @ filter (\<lambda>y. f y = k) (dropWhile ?P ?s)
      = filter (\<lambda>y. f y = k) xs" for k
    by (simp only: filter_append)
  fix k
  have none: "filter (\<lambda>y. f y = f x) (dropWhile ?P ?s) = []" using gt by (fastforce simp: filter_empty_conv)
  show "filter (\<lambda>y. f k = f y) (takeWhile ?P ?s @ x # dropWhile ?P ?s) = filter (\<lambda>y. f k = f y) (xs @ [x])"
  proof (cases "f k = f x")
    case True
    then show ?thesis using none stable [of "f x"] by (simp add: eq_commute)
  next
    case False
    then show ?thesis using stable [of "f k"] by (simp add: eq_commute)
  qed
qed

end
