(* ===== verification/RadixSort.thy ===== *)
theory RadixSort
  imports FindCondition PrefixSum StableSort "HOL-Library.Word"
begin

unbundle bit_operations_syntax

text \<open>
  core/radix_sort.hpp and core/radix_sort.incl: the sort of integer keys, with or without values, in
  both directions.  Short arrays are sorted by insertion; longer ones by a radix sort on bytes, each
  pass of which is a counting sort in lanes: lane \<open>v\<close> counts its own block in its own column of the
  bucket table, a prefix sum over the table turns the counts into positions, and the lanes scatter
  their blocks.  Keys with a negative one among them have their top bit flipped around the sort.

  Arrays of keys and values are accessed at the same indices, and are one array of pairs here; the
  routines are written over elements with a key (\<open>keyf\<close>) and a change of the key (\<open>upd\<close>), once for
  the two inclusions of radix_sort.incl.  Keys are words of any width, \<open>sg\<close> says whether the key
  type is signed.
\<close>

subsection \<open>Build configuration\<close>

record radix_cfg =
  rx_vlen :: nat
  rx_vlen_each :: nat
  rx_thr :: nat
  rx_prefix_sum :: "nat list \<Rightarrow> nat list \<Rightarrow> nat \<Rightarrow> nat list option"

definition radix_cfg_ve :: radix_cfg where
  "radix_cfg_ve = \<lparr>rx_vlen = 1024, rx_vlen_each = 256, rx_thr = 512,
     rx_prefix_sum = prefix_sum_ve prefix_vlen prefix_vlen_min\<rparr>"

definition radix_cfg_x86 :: radix_cfg where
  "radix_cfg_x86 = \<lparr>rx_vlen = 4, rx_vlen_each = 1, rx_thr = 64, rx_prefix_sum = prefix_sum_x86\<rparr>"

definition radix_align_size :: nat where "radix_align_size = 128"
definition contain_negative_size :: nat where "contain_negative_size = 65536"
definition num_bucket :: nat where "num_bucket = 256"

subsection \<open>Keys\<close>

text \<open>The value that the comparisons of the key type see.\<close>

definition key_val :: "bool \<Rightarrow> 'w::len word \<Rightarrow> int" where
  "key_val sg k = (if sg then sint k else uint k)"

text \<open>\<open>k >> n\<close>, which keeps the sign of a signed key, and the byte \<open>(k >> to_shift) & 0xFF\<close>.\<close>

definition key_shift :: "bool \<Rightarrow> nat \<Rightarrow> 'w::len word \<Rightarrow> 'w word" where
  "key_shift sg n k = (if sg then signed_drop_bit n k else drop_bit n k)"

definition radix_bucket :: "bool \<Rightarrow> nat \<Rightarrow> 'w::len word \<Rightarrow> nat" where
  "radix_bucket sg to_shift k = unat (key_shift sg to_shift k AND 0xFF)"

definition radix_bucket_desc :: "bool \<Rightarrow> nat \<Rightarrow> 'w::len word \<Rightarrow> nat" where
  "radix_bucket_desc sg to_shift k = 0xFF - unat (key_shift sg to_shift k AND 0xFF)"

subsection \<open>One pass\<close>

definition radix_block_size :: "radix_cfg \<Rightarrow> nat \<Rightarrow> nat \<Rightarrow> nat" where
  "radix_block_size c sizeof_K n =
     (let block_size = n div rx_vlen c;
          aligned_block_size = block_size * sizeof_K div radix_align_size;
          aligned_block_size = (if aligned_block_size mod 2 = 0 \<and> aligned_block_size \<noteq> 0
                                then aligned_block_size - 1 else aligned_block_size)
      in aligned_block_size * radix_align_size div sizeof_K)"

text \<open>
  The positions (with their lanes) in the order in which the counting loops visit them, and the order
  of the copying loops, which are unrolled by 8 and go over the four groups of lanes one by one.
\<close>

definition count_order :: "radix_cfg \<Rightarrow> nat \<Rightarrow> nat \<Rightarrow> (nat \<times> nat) list" where
  "count_order c block_size rest =
     concat (map (\<lambda>b. map (\<lambda>v. (block_size * v + b, v)) (lanes4 (rx_vlen_each c))) [0..<block_size])
     @ map (\<lambda>b. (block_size * rx_vlen c + b, rx_vlen c)) [0..<rest]"

definition scatter_order :: "radix_cfg \<Rightarrow> nat \<Rightarrow> nat \<Rightarrow> (nat \<times> nat) list" where
  "scatter_order c block_size rest =
     (if block_size > 7 then
        concat (map (\<lambda>unroll. concat (map (\<lambda>b. concat (map (\<lambda>v.
            let vv = v + rx_vlen_each c * unroll in map (\<lambda>t. (block_size * vv + (b + t), vv)) [0..<8])
          [0..<rx_vlen_each c])) (filter (\<lambda>b. b mod 8 = 0) [0..<block_size - 7]))) [0..<4])
      else [])
     @ concat (map (\<lambda>unroll. concat (map (\<lambda>b. map (\<lambda>v.
            let vv = v + rx_vlen_each c * unroll in (block_size * vv + b, vv))
          [0..<rx_vlen_each c]) [block_size - block_size mod 8..<block_size])) [0..<4])
     @ map (\<lambda>b. (block_size * rx_vlen c + b, rx_vlen c)) [0..<rest]"

definition count_one ::
  "nat \<Rightarrow> ('x \<Rightarrow> nat) \<Rightarrow> 'x list \<Rightarrow> nat \<times> nat \<Rightarrow> nat list \<times> nat list \<Rightarrow> (nat list \<times> nat list) option" where
  "count_one bucket_ldim bucket key_src pv st = do {
     let (p, v) = pv;
     let (bucket_table, pos) = st;
     key \<leftarrow> rd key_src p;
     let cell = bucket_ldim * bucket key + v;
     bucket_table_tmp \<leftarrow> rd bucket_table cell;
     bucket_table \<leftarrow> wr bucket_table cell (bucket_table_tmp + 1);
     pos \<leftarrow> wr pos p bucket_table_tmp;
     Some (bucket_table, pos) }"

definition scatter_one ::
  "nat \<Rightarrow> ('x \<Rightarrow> nat) \<Rightarrow> nat list \<Rightarrow> nat list \<Rightarrow> 'x list \<Rightarrow> nat \<times> nat \<Rightarrow> 'x list \<Rightarrow> 'x list option" where
  "scatter_one bucket_ldim bucket px_bucket_table pos key_src pv key_dst = do {
     let (p, v) = pv;
     key \<leftarrow> rd key_src p;
     px_bucket \<leftarrow> rd px_bucket_table (bucket_ldim * bucket key + v);
     posp \<leftarrow> rd pos p;
     wr key_dst (px_bucket + posp) key }"

text \<open>
  Cell 0 of \<open>px_bucket_table\<close> keeps the 0 it is created with: the prefix sum writes from cell 1 on.
  The table \<open>pos\<close> is reused from pass to pass.
\<close>

definition radix_pass ::
  "radix_cfg \<Rightarrow> nat \<Rightarrow> nat \<Rightarrow> nat \<Rightarrow> ('x \<Rightarrow> nat) \<Rightarrow> 'x list \<Rightarrow> 'x list \<Rightarrow> nat list \<Rightarrow> nat list \<Rightarrow>
   ('x list \<times> nat list \<times> nat list) option" where
  "radix_pass c bucket_ldim block_size rest bucket key_src key_dst pos px_bucket_table = do {
     (bucket_table, pos) \<leftarrow> for_each (count_one bucket_ldim bucket key_src) (count_order c block_size rest)
       (replicate (num_bucket * bucket_ldim) 0, pos);
     valp \<leftarrow> rd_block bucket_table 0 (num_bucket * bucket_ldim - 1);
     px0 \<leftarrow> rd px_bucket_table 0;
     outp \<leftarrow> rx_prefix_sum c valp (drop 1 px_bucket_table) (num_bucket * bucket_ldim - 1);
     let px_bucket_table = px0 # outp;
     key_dst \<leftarrow> for_each (scatter_one bucket_ldim bucket px_bucket_table pos key_src)
       (scatter_order c block_size rest) key_dst;
     Some (key_dst, pos, px_bucket_table) }"

text \<open>The passes over the bytes, with the two arrays swapped after each of them.\<close>

definition radix_passes ::
  "radix_cfg \<Rightarrow> nat \<Rightarrow> nat \<Rightarrow> (nat \<Rightarrow> 'x \<Rightarrow> nat) \<Rightarrow> 'x \<Rightarrow> 'x list \<Rightarrow> nat \<Rightarrow> 'x list option" where
  "radix_passes c bucket_ldim sizeof_K bucket z key_array max_key_size = do {
     let n = length key_array;
     let block_size = radix_block_size c sizeof_K n;
     let rest = n - rx_vlen c * block_size;
     (next_is_tmp, key_array, tmp, pos, px) \<leftarrow> for_each (\<lambda>d (next_is_tmp, key_array, tmp, pos, px). do {
         let to_shift = (d - 1) * 8;
         let (key_src, key_dst) = (if next_is_tmp then (key_array, tmp) else (tmp, key_array));
         (key_dst, pos, px) \<leftarrow> radix_pass c bucket_ldim block_size rest (bucket to_shift) key_src key_dst pos px;
         Some (\<not> next_is_tmp, if next_is_tmp then key_array else key_dst,
               if next_is_tmp then key_dst else tmp, pos, px) })
       [1..<max_key_size + 1]
       (True, key_array, replicate n z, replicate n 0, replicate (num_bucket * bucket_ldim) 0);
     if \<not> next_is_tmp then copy_cells tmp 0 key_array 0 n else Some key_array }"

definition radix_sort_impl ::
  "radix_cfg \<Rightarrow> bool \<Rightarrow> ('x \<Rightarrow> 'w::len word) \<Rightarrow> 'x \<Rightarrow> 'x list \<Rightarrow> nat \<Rightarrow> 'x list option" where
  "radix_sort_impl c sg keyf z key_array max_key_size =
     radix_passes c (rx_vlen c + radix_align_size div 8) (LENGTH('w) div 8)
       (\<lambda>to_shift x. radix_bucket sg to_shift (keyf x)) z key_array max_key_size"

definition radix_sort_desc_impl ::
  "radix_cfg \<Rightarrow> bool \<Rightarrow> ('x \<Rightarrow> 'w::len word) \<Rightarrow> 'x \<Rightarrow> 'x list \<Rightarrow> nat \<Rightarrow> 'x list option" where
  "radix_sort_desc_impl c sg keyf z key_array max_key_size =
     radix_passes c (rx_vlen c * 4 + radix_align_size div 8) (LENGTH('w) div 8)
       (\<lambda>to_shift x. radix_bucket_desc sg to_shift (keyf x)) z key_array max_key_size"

subsection \<open>Insertion sort, negative keys, size of the largest key\<close>

text \<open>\<open>gt x tmp\<close> is the comparison \<open>data[..] > tmp\<close> (\<open>data[..] < tmp\<close> in the descending sort).\<close>

definition insertion_shift :: "('x \<Rightarrow> 'x \<Rightarrow> bool) \<Rightarrow> 'x \<Rightarrow> nat \<Rightarrow> 'x list \<Rightarrow> (nat \<times> 'x list) option" where
  "insertion_shift gt tmp i data = do {
     let body = (\<lambda>(j, data). do { x \<leftarrow> rd data (j - 1); data \<leftarrow> wr data j x; Some (j - 1, data) });
     st \<leftarrow> body (i, data);
     cwhile (\<lambda>(j, data). j > 0 \<and> gt (data ! (j - 1)) tmp) body st }"

definition insertion_sort :: "('x \<Rightarrow> 'x \<Rightarrow> bool) \<Rightarrow> 'x list \<Rightarrow> 'x list option" where
  "insertion_sort gt data = for_each (\<lambda>i data. do {
       tmp \<leftarrow> rd data i;
       p \<leftarrow> rd data (i - 1);
       if gt p tmp then do { (j, data) \<leftarrow> insertion_shift gt tmp i data; wr data j tmp }
       else Some data }) [1..<length data] data"

text \<open>The scan of contain_negative over blocks, for the comparison \<open>lt\<close> of the key type.\<close>

definition negative_scan :: "('w::len word \<Rightarrow> 'w word \<Rightarrow> bool) \<Rightarrow> 'w word list \<Rightarrow> bool option" where
  "negative_scan lt key_array = do {
     let n = length key_array;
     (i, found, _) \<leftarrow> (if n > contain_negative_size
       then cwhile (\<lambda>(i, found, mn). \<not> found \<and> i < n - contain_negative_size)
         (\<lambda>(i, found, mn). do {
            mn \<leftarrow> for_each (\<lambda>j mn. do { k \<leftarrow> rd key_array (i + j); Some (if lt k mn then k else mn) })
                    [0..<contain_negative_size] mn;
            Some (i + contain_negative_size, lt mn 0, mn) }) (0, False, 0)
       else Some (0, False, 0));
     if found then Some True
     else for_each (\<lambda>i neg. if neg then Some True
            else do { k \<leftarrow> rd key_array i; Some (lt k 0) }) [i..<n] False }"

text \<open>The overloads for unsigned keys return false.\<close>

definition contain_negative :: "bool \<Rightarrow> 'w::len word list \<Rightarrow> bool option" where
  "contain_negative sg key_array =
     (if \<not> sg then Some False else negative_scan (\<lambda>a b. sint a < sint b) key_array)"

fun key_size_scan :: "nat \<Rightarrow> 'w::len word \<Rightarrow> 64 word \<Rightarrow> nat list \<Rightarrow> nat" where
  "key_size_scan key_size mx tmp [] = key_size"
| "key_size_scan key_size mx tmp (i # is) =
     (if unat mx \<le> unat tmp then i else key_size_scan key_size mx (push_bit 8 tmp OR 0xFF) is)"

definition get_max_key_size :: "bool \<Rightarrow> 'w::len word list \<Rightarrow> nat" where
  "get_max_key_size sg key_array =
     (let key_size = LENGTH('w) div 8;
          mx = fold (\<lambda>k mx. if key_val sg k > key_val sg mx then k else mx) key_array 0
      in key_size_scan key_size mx 0xFF [1..<key_size + 1])"

definition flip_top :: "(('w::len word \<Rightarrow> 'w word) \<Rightarrow> 'x \<Rightarrow> 'x) \<Rightarrow> 'x list \<Rightarrow> 'x list" where
  "flip_top upd key_array =
     (if LENGTH('w) div 8 = 4 then map (upd (\<lambda>k. k XOR 0x80000000)) key_array
      else map (upd (\<lambda>k. k XOR 0x8000000000000000)) key_array)"

subsection \<open>The sorts\<close>

text \<open>
  The two bodies: \<open>less\<close> is the insertion sort's comparison, \<open>impl\<close> the radix sort of the direction.
\<close>

definition radix_sort_body ::
  "('x list \<Rightarrow> 'x list option) \<Rightarrow> ('x list \<Rightarrow> nat \<Rightarrow> 'x list option) \<Rightarrow> radix_cfg \<Rightarrow> bool \<Rightarrow>
   ('x \<Rightarrow> 'w::len word) \<Rightarrow> (('w word \<Rightarrow> 'w word) \<Rightarrow> 'x \<Rightarrow> 'x) \<Rightarrow> 'x list \<Rightarrow> bool \<Rightarrow> 'x list option" where
  "radix_sort_body insertion impl c sg keyf upd key_array positive_only =
     (if length key_array < rx_thr c then insertion key_array
      else if positive_only then impl key_array (get_max_key_size sg (map keyf key_array))
      else do {
        neg \<leftarrow> contain_negative sg (map keyf key_array);
        let key_array = (if neg then flip_top upd key_array else key_array);
        let max_key_size = (if neg then LENGTH('w) div 8 else get_max_key_size sg (map keyf key_array));
        key_array \<leftarrow> impl key_array max_key_size;
        Some (if neg then flip_top upd key_array else key_array) })"

definition radix_sort :: "radix_cfg \<Rightarrow> bool \<Rightarrow> ('w::len word \<times> 'v::zero) list \<Rightarrow> bool \<Rightarrow> ('w word \<times> 'v) list option" where
  "radix_sort c sg = radix_sort_body
     (insertion_sort (\<lambda>x tmp. key_val sg (fst x) > key_val sg (fst tmp)))
     (radix_sort_impl c sg fst (0, 0)) c sg fst (\<lambda>f (k, v). (f k, v))"

definition radix_sort_desc :: "radix_cfg \<Rightarrow> bool \<Rightarrow> ('w::len word \<times> 'v::zero) list \<Rightarrow> bool \<Rightarrow> ('w word \<times> 'v) list option" where
  "radix_sort_desc c sg = radix_sort_body
     (insertion_sort (\<lambda>x tmp. key_val sg (fst x) < key_val sg (fst tmp)))
     (radix_sort_desc_impl c sg fst (0, 0)) c sg fst (\<lambda>f (k, v). (f k, v))"

definition radix_sort_keys :: "radix_cfg \<Rightarrow> bool \<Rightarrow> 'w::len word list \<Rightarrow> bool \<Rightarrow> 'w word list option" where
  "radix_sort_keys c sg = radix_sort_body
     (insertion_sort (\<lambda>x tmp. key_val sg x > key_val sg tmp)) (radix_sort_impl c sg id 0) c sg id id"

definition radix_sort_keys_desc :: "radix_cfg \<Rightarrow> bool \<Rightarrow> 'w::len word list \<Rightarrow> bool \<Rightarrow> 'w word list option" where
  "radix_sort_keys_desc c sg = radix_sort_body
     (insertion_sort (\<lambda>x tmp. key_val sg x < key_val sg tmp)) (radix_sort_desc_impl c sg id 0) c sg id id"

text \<open>The overloads on vectors; \<open>Inl\<close> is the exception.\<close>

definition radix_sort_vec ::
  "radix_cfg \<Rightarrow> bool \<Rightarrow> 'w::len word list \<Rightarrow> 'v::zero list \<Rightarrow> bool \<Rightarrow> (string + 'w word list \<times> 'v list) option" where
  "radix_sort_vec c sg key_array val_array positive_only =
     (if length val_array \<noteq> length key_array then Some (Inl ''radix_sort: different size of arrays'')
      else do { r \<leftarrow> radix_sort c sg (zip key_array val_array) positive_only; Some (Inr (map fst r, map snd r)) })"

definition radix_sort_desc_vec ::
  "radix_cfg \<Rightarrow> bool \<Rightarrow> 'w::len word list \<Rightarrow> 'v::zero list \<Rightarrow> bool \<Rightarrow> (string + 'w word list \<times> 'v list) option" where
  "radix_sort_desc_vec c sg key_array val_array positive_only =
     (if length val_array \<noteq> length key_array then Some (Inl ''radix_sort: different size of arrays'')
      else do { r \<leftarrow> radix_sort_desc c sg (zip key_array val_array) positive_only; Some (Inr (map fst r, map snd r)) })"

end
