(* ===== verification/RadixPass.thy ===== *)
theory RadixPass
  imports RadixSort
begin

text \<open>
  A pass of the radix sort is a counting sort: the lanes' counters, summed up, are the ranks of the
  elements, so the copying loops, in whatever order, write the stable sort by the pass's byte.
\<close>

subsection \<open>The visiting orders\<close>

definition lane_of :: "radix_cfg \<Rightarrow> nat \<Rightarrow> nat \<Rightarrow> nat" where
  "lane_of c block_size p = (if p < block_size * rx_vlen c then p div block_size else rx_vlen c)"

locale radix_build =
  fixes c :: radix_cfg
  assumes vlen: "rx_vlen c = 4 * rx_vlen_each c" "0 < rx_vlen_each c"
    and prefix_sum: "\<And>xs out. length out = length xs \<Longrightarrow> rx_prefix_sum c xs out (length xs) = Some (prefix_sums xs)"
begin

lemma lane_row: "b < bs \<Longrightarrow> v < rx_vlen c \<Longrightarrow> bs * v + b < bs * rx_vlen c \<and> lane_of c bs (bs * v + b) = v"
proof -
  assume bv: "b < bs" "v < rx_vlen c"
  have "bs * v + b < bs * Suc v" using bv by simp
  also have "\<dots> \<le> bs * rx_vlen c" using bv by (intro mult_le_mono2) simp
  finally show ?thesis using bv by (simp add: lane_of_def)
qed

lemma lane_rest: "lane_of c bs (bs * rx_vlen c + b) = rx_vlen c"
  by (simp add: lane_of_def)

lemma lane_le: "lane_of c bs p \<le> rx_vlen c"
  by (auto simp: lane_of_def less_mult_imp_div_less mult.commute intro: less_imp_le)

lemma lane_mono: "p \<le> q \<Longrightarrow> lane_of c bs p \<le> lane_of c bs q"
  using lane_le [of bs p] by (auto simp: lane_of_def div_le_mono)

lemma in_row: "p < bs * rx_vlen c \<Longrightarrow> p = bs * (p div bs) + p mod bs \<and> p div bs < rx_vlen c \<and> p mod bs < bs"
  by (cases "bs = 0") (simp_all add: less_mult_imp_div_less mult.commute)

lemma set_count_order:
  "set (count_order c bs rest) = (\<lambda>p. (p, lane_of c bs p)) ` {..<bs * rx_vlen c + rest}"
proof
  show "set (count_order c bs rest) \<subseteq> (\<lambda>p. (p, lane_of c bs p)) ` {..<bs * rx_vlen c + rest}"
    using lane_row lane_rest by (fastforce simp: count_order_def set_lanes4 vlen)
  show "(\<lambda>p. (p, lane_of c bs p)) ` {..<bs * rx_vlen c + rest} \<subseteq> set (count_order c bs rest)"
  proof clarsimp
    fix p assume p: "p < bs * rx_vlen c + rest"
    show "(p, lane_of c bs p) \<in> set (count_order c bs rest)"
    proof (cases "p < bs * rx_vlen c")
      case True
      then show ?thesis using in_row [OF True]
        by (auto simp: count_order_def set_lanes4 vlen(1) [symmetric] lane_of_def intro!: bexI [of _ "p mod bs"] image_eqI [of _ _ "p div bs"])
    next
      case False
      then show ?thesis using p lane_rest [of bs "p - bs * rx_vlen c"]
        by (auto simp: count_order_def lane_of_def intro!: image_eqI [of _ _ "p - bs * rx_vlen c"])
    qed
  qed
qed

lemma count_order_sorted: "sorted_wrt (\<lambda>(p, v) (q, w). v = w \<longrightarrow> p < q) (count_order c bs rest)"
proof -
  have row: "sorted_wrt (\<lambda>(p, v) (q, w). v = w \<longrightarrow> p < q) (map (\<lambda>v. (bs * v + b, v)) vs)" if "distinct vs" for b vs
    using that by (induction vs) auto
  have rows: "sorted_wrt (\<lambda>(p, v) (q, w). v = w \<longrightarrow> p < q)
      (concat (map (\<lambda>b. map (\<lambda>v. (bs * v + b, v)) (lanes4 (rx_vlen_each c))) [0..<m]))" for m
    by (induction m) (auto simp: sorted_wrt_append row distinct_lanes4)
  have rest: "sorted_wrt (\<lambda>(p, v) (q, w). v = w \<longrightarrow> p < q) (map (\<lambda>b. (x + b, y :: nat)) [0..<m])" for x y m
    by (induction m) (auto simp: sorted_wrt_append)
  show ?thesis
    unfolding count_order_def sorted_wrt_append using rows rest by (auto simp: set_lanes4 vlen)
qed

lemma group_lane: "u < 4 \<Longrightarrow> v < rx_vlen_each c \<Longrightarrow> v + rx_vlen_each c * u < rx_vlen c"
proof -
  assume uv: "u < 4" "v < rx_vlen_each c"
  have "v + rx_vlen_each c * u < rx_vlen_each c * Suc u" using uv by simp
  also have "\<dots> \<le> rx_vlen_each c * 4" using uv by (intro mult_le_mono2) simp
  finally show ?thesis by (simp add: vlen)
qed

lemma lane_group: "v < rx_vlen c \<Longrightarrow> \<exists>u w. u < 4 \<and> w < rx_vlen_each c \<and> v = w + rx_vlen_each c * u"
  using vlen by (intro exI [of _ "v div rx_vlen_each c"] exI [of _ "v mod rx_vlen_each c"]) (simp add: less_mult_imp_div_less)

lemma mem_unrolled:
  "z \<in> set (concat (map (\<lambda>unroll. concat (map (\<lambda>b. concat (map (\<lambda>v.
        let vv = v + E * unroll in map (\<lambda>t. (bs * vv + (b + t), vv)) [0..<8]) [0..<E])) bl)) [0..<4]))
    \<longleftrightarrow> (\<exists>u b v t. u < (4::nat) \<and> b \<in> set bl \<and> v < E \<and> t < (8::nat) \<and> z = (bs * (v + E * u) + (b + t), v + E * u))"
  apply (simp only: set_concat set_map set_upt Let_def UN_iff image_iff bex_simps)
  apply (simp only: Bex_def atLeastLessThan_iff zero_le simp_thms)
  apply blast
  done

lemma mem_single:
  "z \<in> set (concat (map (\<lambda>unroll. concat (map (\<lambda>b. map (\<lambda>v.
        let vv = v + E * unroll in (bs * vv + b, vv)) [0..<E]) bl)) [0..<4]))
    \<longleftrightarrow> (\<exists>u b v. u < (4::nat) \<and> b \<in> set bl \<and> v < E \<and> z = (bs * (v + E * u) + b, v + E * u))"
  apply (simp only: set_concat set_map set_upt Let_def UN_iff image_iff bex_simps)
  apply (simp only: Bex_def atLeastLessThan_iff zero_le simp_thms)
  apply blast
  done

lemma mem_scatter_order:
  "z \<in> set (scatter_order c bs rest) \<longleftrightarrow>
     (7 < bs \<and> (\<exists>u b v t. u < 4 \<and> b \<in> set (filter (\<lambda>b. b mod 8 = 0) [0..<bs - 7]) \<and> v < rx_vlen_each c \<and> t < 8 \<and>
        z = (bs * (v + rx_vlen_each c * u) + (b + t), v + rx_vlen_each c * u))) \<or>
     (\<exists>u b v. u < 4 \<and> b \<in> set [bs - bs mod 8..<bs] \<and> v < rx_vlen_each c \<and>
        z = (bs * (v + rx_vlen_each c * u) + b, v + rx_vlen_each c * u)) \<or>
     (\<exists>b<rest. z = (bs * rx_vlen c + b, rx_vlen c))"
proof -
  have tail: "z \<in> set (map (\<lambda>b. (x + b, y)) [0..<rest]) \<longleftrightarrow> (\<exists>b<rest. z = (x + b, y))" for x y by auto
  have guard: "z \<in> set (if 7 < bs then l else []) \<longleftrightarrow> 7 < bs \<and> z \<in> set l" for l by simp
  show ?thesis
    unfolding scatter_order_def set_append Un_iff guard mem_unrolled mem_single tail by (rule refl)
qed

lemma scatter_order_lane:
  assumes "z \<in> set (scatter_order c bs rest)"
  shows "fst z < bs * rx_vlen c + rest \<and> snd z = lane_of c bs (fst z)"
  using assms [unfolded mem_scatter_order]
proof (elim disjE conjE exE)
  fix u b v t
  assume uv: "u < 4" "v < rx_vlen_each c" and b: "b \<in> set (filter (\<lambda>b. b mod 8 = 0) [0..<bs - 7])" "t < 8"
    and z: "z = (bs * (v + rx_vlen_each c * u) + (b + t), v + rx_vlen_each c * u)"
  from b have "b < bs - 7" "t < 8" by simp_all
  then have "b + t < bs" by linarith
  then show ?thesis using lane_row [of "b + t" bs, OF _ group_lane [OF uv]] z by simp
next
  fix u b v
  assume uv: "u < 4" "v < rx_vlen_each c" and b: "b \<in> set [bs - bs mod 8..<bs]"
    and z: "z = (bs * (v + rx_vlen_each c * u) + b, v + rx_vlen_each c * u)"
  from b have "b < bs" by simp
  then show ?thesis using lane_row [of b bs, OF _ group_lane [OF uv]] z by simp
next
  fix b assume "b < rest" "z = (bs * rx_vlen c + b, rx_vlen c)"
  then show ?thesis using lane_rest [of bs b] by simp
qed

lemma scatter_order_all:
  assumes p: "p < bs * rx_vlen c + rest"
  shows "(p, lane_of c bs p) \<in> set (scatter_order c bs rest)"
proof (cases "p < bs * rx_vlen c")
  case True
  define v b where "v = p div bs" and "b = p mod bs"
  have pv: "p = bs * v + b" "lane_of c bs p = v" "b < bs" "v < rx_vlen c"
    using in_row [OF True] True by (simp_all add: v_def b_def lane_of_def)
  obtain u w where u: "u < 4" "w < rx_vlen_each c" "v = w + rx_vlen_each c * u"
    using lane_group [OF pv(4)] by blast
  show ?thesis
  proof (cases "b < bs - bs mod 8")
    case lt: True
    have b8: "b - b mod 8 < bs - 7" "7 < bs" "(b - b mod 8) mod 8 = 0" "b = (b - b mod 8) + b mod 8" "b mod 8 < 8"
    proof -
      have "b < 8 * (bs div 8)" using lt by (simp add: minus_mod_eq_mult_div)
      then have "b div 8 < bs div 8" by (simp add: less_mult_imp_div_less mult.commute)
      then have *: "8 * (b div 8) + 8 \<le> 8 * (bs div 8)" by simp
      also have "\<dots> \<le> bs" by simp
      finally show "b - b mod 8 < bs - 7" "7 < bs" by (simp_all add: minus_mod_eq_mult_div)
    qed simp_all
    then have mem: "b - b mod 8 \<in> set (filter (\<lambda>b. b mod 8 = 0) [0..<bs - 7])" by simp
    have "(p, lane_of c bs p) = (bs * (w + rx_vlen_each c * u) + ((b - b mod 8) + b mod 8), w + rx_vlen_each c * u)"
      by (simp only: b8(4) [symmetric] u(3) [symmetric] pv(1) [symmetric] pv(2))
    then show ?thesis unfolding mem_scatter_order using u(1,2) b8(2,5) mem by blast
  next
    case False
    then have "b \<in> set [bs - bs mod 8..<bs]" using pv(3) by simp
    moreover have "(p, lane_of c bs p) = (bs * (w + rx_vlen_each c * u) + b, w + rx_vlen_each c * u)"
      by (simp only: u(3) [symmetric] pv(1) [symmetric] pv(2))
    ultimately show ?thesis unfolding mem_scatter_order using u(1,2) by blast
  qed
next
  case False
  then have "(p, lane_of c bs p) = (bs * rx_vlen c + (p - bs * rx_vlen c), rx_vlen c)" by (simp add: lane_of_def)
  moreover have "p - bs * rx_vlen c < rest" using p False by simp
  ultimately show ?thesis unfolding mem_scatter_order by blast
qed

lemma set_scatter_order:
  "set (scatter_order c bs rest) = (\<lambda>p. (p, lane_of c bs p)) ` {..<bs * rx_vlen c + rest}"
proof (intro set_eqI iffI)
  fix z assume "z \<in> set (scatter_order c bs rest)"
  then show "z \<in> (\<lambda>p. (p, lane_of c bs p)) ` {..<bs * rx_vlen c + rest}"
    using scatter_order_lane [of z bs rest] by (intro image_eqI [of _ _ "fst z"]) (simp_all add: prod_eq_iff)
qed (use scatter_order_all in auto)

end

subsection \<open>The counters\<close>

definition cell_of :: "nat \<Rightarrow> ('x \<Rightarrow> nat) \<Rightarrow> (nat \<Rightarrow> nat) \<Rightarrow> 'x list \<Rightarrow> nat \<Rightarrow> nat" where
  "cell_of ldim bucket lane src p = ldim * bucket (src ! p) + lane p"

lemma cell_less_iff: "v < ldim \<Longrightarrow> w < ldim \<Longrightarrow> ldim * a + v < ldim * b + w \<longleftrightarrow> a < b \<or> a = b \<and> v < (w :: nat)"
proof -
  assume vw: "v < ldim" "w < ldim"
  have *: "ldim * x + y < ldim * x' + y'" if "x < x'" "y < ldim" for x x' y y' :: nat
  proof -
    have "ldim * x + y < ldim * Suc x" using that by simp
    also have "\<dots> \<le> ldim * x'" using that by (intro mult_le_mono2) simp
    finally show ?thesis by simp
  qed
  show ?thesis using *[of a b v w] *[of b a w v] vw by (cases a b rule: linorder_cases) auto
qed

lemma cell_eq_iff: "v < ldim \<Longrightarrow> w < ldim \<Longrightarrow> ldim * a + v = ldim * b + w \<longleftrightarrow> a = b \<and> v = (w :: nat)"
  using cell_less_iff [of v ldim w a b] cell_less_iff [of w ldim v b a]
  by (metis linorder_neq_iff)

definition counted ::
  "nat \<Rightarrow> ('x \<Rightarrow> nat) \<Rightarrow> (nat \<Rightarrow> nat) \<Rightarrow> 'x list \<Rightarrow> (nat \<times> nat) list \<Rightarrow> nat list \<times> nat list \<Rightarrow> bool" where
  "counted ldim bucket lane src pre st \<longleftrightarrow>
     length (fst st) = num_bucket * ldim \<and> length (snd st) = length src \<and>
     (\<forall>i<num_bucket * ldim. fst st ! i = card {q. (q, lane q) \<in> set pre \<and> cell_of ldim bucket lane src q = i}) \<and>
     (\<forall>q. (q, lane q) \<in> set pre \<longrightarrow> snd st ! q
        = card {q'. q' < q \<and> cell_of ldim bucket lane src q' = cell_of ldim bucket lane src q})"

lemma counting:
  assumes zs: "set zs = (\<lambda>p. (p, lane p)) ` {..<length src}"
    and sorted: "sorted_wrt (\<lambda>(p, v) (q, w). v = w \<longrightarrow> p < q) zs"
    and lane: "\<And>p. lane p < ldim" and bucket: "\<And>x. bucket x < num_bucket"
    and pos: "length pos = length src"
  shows "ok (for_each (count_one ldim bucket src) zs (replicate (num_bucket * ldim) 0, pos)) (counted ldim bucket lane src zs)"
proof (rule ok_for_each)
  show "counted ldim bucket lane src [] (replicate (num_bucket * ldim) 0, pos)"
    using pos by (simp add: counted_def)
next
  fix pre pv post st
  assume split: "zs = pre @ pv # post" and inv: "counted ldim bucket lane src pre st"
  obtain tab ps where st: "st = (tab, ps)" by (cases st)
  have "pv \<in> set zs" using split by simp
  then obtain p where pv: "pv = (p, lane p)" and p: "p < length src" using zs by auto
  define cell where "cell = cell_of ldim bucket lane src"
  have "cell p < ldim * num_bucket + 0" unfolding cell_def cell_of_def
    using lane [of p] bucket [of "src ! p"] by (subst cell_less_iff) simp_all
  then have cell: "cell p < num_bucket * ldim" by (simp add: mult.commute)
  have same: "lane q = lane p" if "cell q = cell p" for q
    using that lane by (simp add: cell_def cell_of_def cell_eq_iff)
  have before: "(q, lane q) \<in> set pre \<and> cell q = cell p \<longleftrightarrow> q < p \<and> cell q = cell p" for q
  proof (cases "cell q = cell p")
    case True
    then have "lane q = lane p" by (rule same)
    moreover have "(q, lane q) \<in> set pre \<Longrightarrow> lane q = lane p \<Longrightarrow> q < p"
      using sorted unfolding split pv sorted_wrt_append by auto
    moreover have "(q, lane q) \<in> set post \<Longrightarrow> lane q = lane p \<Longrightarrow> p < q"
      using sorted unfolding split pv sorted_wrt_append by auto
    moreover have "(q, lane q) \<in> set zs" if "q < p" using zs that p by auto
    ultimately show ?thesis unfolding split pv using True by (auto dest: less_asym)
  qed simp
  have fresh: "(p, lane p) \<notin> set pre" using before [of p] by simp
  have tab: "length tab = num_bucket * ldim" "length ps = length src"
    "\<And>i. i < num_bucket * ldim \<Longrightarrow> tab ! i = card {q. (q, lane q) \<in> set pre \<and> cell q = i}"
    "\<And>q. (q, lane q) \<in> set pre \<Longrightarrow> ps ! q = card {q'. q' < q \<and> cell q' = cell q}"
    using inv by (auto simp: counted_def st cell_def)
  have fin: "finite {q. (q, lane q) \<in> set pre \<and> cell q = i}" for i
    by (rule finite_subset [of _ "fst ` set pre"]) (auto intro: rev_image_eqI)
  have step: "card {q. (q, lane q) \<in> set (pre @ [pv]) \<and> cell q = i}
      = card {q. (q, lane q) \<in> set pre \<and> cell q = i} + (if cell p = i then 1 else 0)" for i
  proof -
    have "{q. (q, lane q) \<in> set (pre @ [pv]) \<and> cell q = i}
        = (if cell p = i then insert p else id) {q. (q, lane q) \<in> set pre \<and> cell q = i}"
      by (auto simp: pv)
    then show ?thesis using fresh fin by simp
  qed
  have "count_one ldim bucket src pv st = Some (tab[cell p := tab ! cell p + 1], ps[p := tab ! cell p])"
    using p cell tab(1,2) by (simp add: count_one_def pv st cell_def cell_of_def Let_def)
  moreover have "counted ldim bucket lane src (pre @ [pv]) (tab[cell p := tab ! cell p + 1], ps[p := tab ! cell p])"
    unfolding counted_def fst_conv snd_conv cell_def [symmetric]
  proof (intro conjI allI impI)
    fix i assume "i < num_bucket * ldim"
    then show "tab[cell p := tab ! cell p + 1] ! i = card {q. (q, lane q) \<in> set (pre @ [pv]) \<and> cell q = i}"
      unfolding step using tab(1,3) by (auto simp: nth_list_update)
  next
    fix q assume q: "(q, lane q) \<in> set (pre @ [pv])"
    then have ql: "q < length src" using zs split by auto
    show "ps[p := tab ! cell p] ! q = card {q'. q' < q \<and> cell q' = cell q}"
    proof (cases "q = p")
      case True
      then show ?thesis using tab(2) tab(3) [OF cell] p before by simp
    next
      case False
      then show ?thesis using tab(4) q pv by simp
    qed
  qed (use tab in simp_all)
  ultimately show "ok (count_one ldim bucket src pv st) (counted ldim bucket lane src (pre @ [pv]))" by simp
qed

lemma sum_counters:
  assumes "\<And>i. i < length tab \<Longrightarrow> tab ! i = card {q. q < n \<and> cell q = i}" "m \<le> length tab"
  shows "sum_list (take m tab) = card {q :: nat. q < n \<and> cell q < m}"
  using assms(2)
proof (induction m)
  case (Suc m)
  have "{q. q < n \<and> cell q < Suc m} = {q. q < n \<and> cell q < m} \<union> {q. q < n \<and> cell q = m}" by auto
  then have "card {q. q < n \<and> cell q < Suc m} = card {q. q < n \<and> cell q < m} + card {q. q < n \<and> cell q = m}"
    by (simp add: card_Un_disjoint disjoint_iff)
  then show ?case using Suc assms(1) [of m] by (simp add: take_Suc_conv_app_nth)
qed simp

context radix_build
begin

theorem pass_sorts:
  fixes src dst :: "'x list"
  assumes ldim: "rx_vlen c < ldim" and bucket: "\<And>x. bucket x < num_bucket"
    and n: "length src = bs * rx_vlen c + rest" "length dst = length src"
    and pos: "length pos = length src" and px: "length px = num_bucket * ldim" "px ! 0 = 0"
  shows "ok (radix_pass c ldim bs rest bucket src dst pos px)
    (\<lambda>(dst', pos', px'). dst' = sort_key bucket src \<and> length pos' = length src \<and>
       length px' = num_bucket * ldim \<and> px' ! 0 = 0)"
proof -
  define lane where "lane = lane_of c bs"
  define cell where "cell = cell_of ldim bucket lane src"
  have lane: "lane p < ldim" for p using ldim lane_le [of bs p] by (simp add: lane_def)
  have nl: "0 < num_bucket * ldim" using ldim by (simp add: num_bucket_def)
  have order: "set (count_order c bs rest) = (\<lambda>p. (p, lane p)) ` {..<length src}"
    "set (scatter_order c bs rest) = (\<lambda>p. (p, lane p)) ` {..<length src}"
    using n(1) by (simp_all add: set_count_order set_scatter_order lane_def)
  obtain tab ps where count: "for_each (count_one ldim bucket src) (count_order c bs rest)
      (replicate (num_bucket * ldim) 0, pos) = Some (tab, ps)"
    and counted: "counted ldim bucket lane src (count_order c bs rest) (tab, ps)"
    using counting [where bucket = bucket, OF order(1) count_order_sorted lane bucket pos] by (auto simp: ok_iff_ex)
  have mem: "(q, lane q) \<in> set (count_order c bs rest) \<longleftrightarrow> q < length src" for q using order(1) by auto
  have tab: "length tab = num_bucket * ldim" "length ps = length src"
    "\<And>i. i < length tab \<Longrightarrow> tab ! i = card {q. q < length src \<and> cell q = i}"
    "\<And>p. p < length src \<Longrightarrow> ps ! p = card {q. q < p \<and> cell q = cell p}"
    using counted by (auto simp: counted_def mem cell_def)
  define valp where "valp = take (num_bucket * ldim - 1) tab"
  have valp: "length valp = num_bucket * ldim - 1" using tab(1) by (simp add: valp_def)
  have sums: "rx_prefix_sum c valp (drop 1 px) (num_bucket * ldim - 1) = Some (prefix_sums valp)"
    using prefix_sum [of "drop 1 px" valp] valp px(1) by simp
  define px' where "px' = 0 # prefix_sums valp"
  have px': "length px' = num_bucket * ldim" "px' ! 0 = 0"
    using valp nl by (simp_all add: px'_def prefix_sums_def)
  have px'_nth: "px' ! i = card {q. q < length src \<and> cell q < i}" if i: "i < num_bucket * ldim" for i
  proof -
    have "px' ! i = sum_list (take i tab)"
      using i valp tab(1) by (cases i) (auto simp: px'_def prefix_sums_def run_sum_nat valp_def min_def)
    then show ?thesis using sum_counters [OF tab(3)] i tab(1) by simp
  qed
  have cell: "cell p < num_bucket * ldim" for p
  proof -
    have "cell p < ldim * num_bucket + 0" unfolding cell_def cell_of_def
      using lane [of p] bucket [of "src ! p"] by (subst cell_less_iff) simp_all
    then show ?thesis by (simp add: mult.commute)
  qed
  have rank: "px' ! cell p + ps ! p = rank bucket src p" if p: "p < length src" for p
  proof -
    have "before bucket src p = {q. q < length src \<and> cell q < cell p} \<union> {q. q < p \<and> cell q = cell p}"
      (is "_ = ?A \<union> ?B")
    proof (rule set_eqI)
      fix q
      have "q < p \<Longrightarrow> lane q \<le> lane p" "p \<le> q \<Longrightarrow> lane p \<le> lane q"
        using lane_mono by (simp_all add: lane_def)
      then have "bucket (src ! q) = bucket (src ! p) \<Longrightarrow> lane q < lane p \<Longrightarrow> q < p" by linarith
      then show "q \<in> before bucket src p \<longleftrightarrow> q \<in> ?A \<union> ?B"
        using p \<open>q < p \<Longrightarrow> lane q \<le> lane p\<close>
        by (auto simp: before_def cell_def cell_of_def cell_less_iff cell_eq_iff lane)
    qed
    then have "rank bucket src p = card ?A + card ?B"
      unfolding rank_def by (simp add: card_Un_disjoint disjoint_iff)
    then show ?thesis using px'_nth [OF cell] tab(4) [OF p] by simp
  qed
  have scatter: "for_each (scatter_one ldim bucket px' ps src) (scatter_order c bs rest) dst = Some (sort_key bucket src)"
  proof (rule scatter_ranks [where g = fst])
    fix z and s :: "'x list"
    assume "z \<in> set (scatter_order c bs rest)" and s: "length s = length src"
    then obtain p where z: "z = (p, lane p)" and p: "p < length src" using order(2) by auto
    have "rank bucket src p < length s" using rank_less [OF p] s by simp
    then have "wr s (px' ! cell p + ps ! p) (src ! p) = Some (s[rank bucket src p := src ! p])"
      using rank [OF p] by simp
    then show "scatter_one ldim bucket px' ps src z s = Some (s[rank bucket src (fst z) := src ! fst z])"
      using p cell [of p] px'(1) tab(2) by (simp add: scatter_one_def z cell_def cell_of_def)
  next
    show "fst ` set (scatter_order c bs rest) = {..<length src}" unfolding order(2) image_image by simp
  qed (rule n(2))
  have "rd_block tab 0 (num_bucket * ldim - 1) = Some valp" "rd px 0 = Some 0"
    using tab(1) px nl by (simp_all add: valp_def)
  then show ?thesis
    unfolding radix_pass_def by (simp add: count sums scatter px'_def [symmetric] px' tab(2) Let_def del: One_nat_def)
qed

end

end
