(* ===== verification/RadixStable.thy ===== *)
theory RadixStable
  imports RadixPass
begin

text \<open>
  The sorts of core/radix_sort.hpp are stable sorts by the value of the key: the passes sort by the
  low bytes, the bytes of the largest key are enough, flipping the top bit makes the unsigned order
  the signed one, and insertion is a stable sort as well.
\<close>

subsection \<open>The passes\<close>

text \<open>The number made of the first \<open>m\<close> digits that the passes look at.\<close>

definition digits :: "(nat \<Rightarrow> 'x \<Rightarrow> nat) \<Rightarrow> nat \<Rightarrow> 'x \<Rightarrow> nat" where
  "digits bucket m x = (\<Sum>d<m. 256 ^ d * bucket (d * 8) x)"

lemma digits_Suc: "digits bucket (Suc m) x = digits bucket m x + 256 ^ m * bucket (m * 8) x"
  by (simp add: digits_def)

lemma digits_0: "digits bucket 0 = (\<lambda>x. 0)"
  by (simp add: digits_def fun_eq_iff)

lemma digits_less: "(\<And>s x. bucket s x < num_bucket) \<Longrightarrow> digits bucket m x < 256 ^ m"
proof (induction m)
  case (Suc m)
  have "bucket (m * 8) x \<le> 255" using Suc.prems [of "m * 8" x] by (simp add: num_bucket_def)
  then have "256 ^ m * bucket (m * 8) x \<le> 256 ^ m * 255" by (rule mult_le_mono2)
  moreover have "digits bucket m x < 256 ^ m" using Suc by blast
  ultimately have "digits bucket m x + 256 ^ m * bucket (m * 8) x < 256 ^ m + 256 ^ m * 255" by linarith
  then show ?case by (simp add: digits_Suc)
qed (simp add: digits_def)

context radix_build
begin

lemma block_size_le: "rx_vlen c * radix_block_size c sz n \<le> n"
proof -
  let ?e = "n div rx_vlen c"
  let ?a = "?e * sz div radix_align_size"
  let ?a' = "if ?a mod 2 = 0 \<and> ?a \<noteq> 0 then ?a - 1 else ?a"
  have "?a' * radix_align_size \<le> ?a * radix_align_size" by simp
  also have "\<dots> \<le> ?e * sz" by simp
  finally have "?a' * radix_align_size div sz \<le> ?e * sz div sz" by (rule div_le_mono)
  also have "\<dots> \<le> ?e" by (cases "sz = 0") simp_all
  finally have "radix_block_size c sz n \<le> ?e" by (simp add: radix_block_size_def Let_def)
  then have "rx_vlen c * radix_block_size c sz n \<le> rx_vlen c * ?e" by (rule mult_le_mono2)
  then show ?thesis using times_div_less_eq_dividend order_trans by blast
qed

theorem passes_sort:
  assumes ldim: "rx_vlen c < ldim" and bucket: "\<And>s x. bucket s x < num_bucket"
  shows "radix_passes c ldim sz bucket z xs m = Some (sort_key (digits bucket m) xs)"
proof -
  define n bs rest where "n = length xs" and "bs = radix_block_size c sz n" and "rest = n - rx_vlen c * bs"
  have n: "n = bs * rx_vlen c + rest"
    using block_size_le [of sz n] by (simp add: rest_def bs_def mult.commute)
  define I where "I = (\<lambda>d (nt, ka, tmp, pos, px). length ka = n \<and> length tmp = n \<and> length (pos :: nat list) = n \<and>
    length px = num_bucket * ldim \<and> px ! 0 = (0 :: nat) \<and>
    (if nt then ka else tmp) = sort_key (digits bucket (d - 1)) xs)"
  define body where "body = (\<lambda>d (next_is_tmp, key_array, tmp, pos, px). do {
         let to_shift = (d - 1) * 8;
         let (key_src, key_dst) = (if next_is_tmp then (key_array, tmp) else (tmp, key_array));
         (key_dst, pos, px) \<leftarrow> radix_pass c ldim bs rest (bucket to_shift) key_src key_dst pos px;
         Some (\<not> next_is_tmp, if next_is_tmp then key_array else key_dst,
               if next_is_tmp then key_dst else tmp, pos, px) })"
  have step: "ok (body d st) (I (Suc d))" if d: "1 \<le> d" and I: "I d st" for d st
  proof -
    obtain nt ka tmp pos px where st: "st = (nt, ka, tmp, pos, px)" by (cases st) auto
    define src dst where "src = (if nt then ka else tmp)" and "dst = (if nt then tmp else ka)"
    have src: "src = sort_key (digits bucket (d - 1)) xs" "length src = n" "length dst = n" "length pos = n"
      "length px = num_bucket * ldim" "px ! 0 = 0"
      using I by (auto simp: I_def st src_def dst_def n_def)
    have "ok (radix_pass c ldim bs rest (bucket ((d - 1) * 8)) src dst pos px)
      (\<lambda>(dst', pos', px'). dst' = sort_key (bucket ((d - 1) * 8)) src \<and> length pos' = length src \<and>
         length px' = num_bucket * ldim \<and> px' ! 0 = 0)"
      by (rule pass_sorts) (use ldim bucket n src in simp_all)
    then obtain pos' px' where pass: "radix_pass c ldim bs rest (bucket ((d - 1) * 8)) src dst pos px
        = Some (sort_key (bucket ((d - 1) * 8)) src, pos', px')"
      and pos': "length pos' = n" "length px' = num_bucket * ldim" "px' ! 0 = 0"
      using src by (auto simp: ok_iff_ex)
    have "sort_key (bucket ((d - 1) * 8)) src = sort_key (digits bucket (Suc (d - 1))) xs"
      unfolding src(1) digits_Suc using digits_less [where bucket = bucket, OF bucket]
      by (subst sort_key_digits [where B = "256 ^ (d - 1)"]) simp_all
    also have "Suc (d - 1) = d" using d by simp
    finally have "sort_key (bucket ((d - 1) * 8)) src = sort_key (digits bucket d) xs" .
    then show ?thesis
      using pass pos' src I unfolding st
      by (cases nt) (simp_all add: body_def I_def src_def dst_def)
  qed
  have "ok (for_each body [1..<m + 1] (True, xs, replicate n z, replicate n 0, replicate (num_bucket * ldim) 0)) (I (m + 1))"
  proof (rule ok_for_range)
    show "I 1 (True, xs, replicate n z, replicate n 0, replicate (num_bucket * ldim) 0)"
      using ldim by (simp add: I_def n_def num_bucket_def digits_0 sort_key_const)
  qed (use step in auto)
  then obtain nt ka tmp pos px where
    run: "for_each body [1..<m + 1] (True, xs, replicate n z, replicate n 0, replicate (num_bucket * ldim) 0)
      = Some (nt, ka, tmp, pos, px)" and I: "I (m + 1) (nt, ka, tmp, pos, px)"
    by (auto simp: ok_iff_ex)
  have "copy_cells tmp 0 ka 0 n = Some tmp" using I by (simp add: copy_cells_eq I_def)
  then show ?thesis
    using I run unfolding radix_passes_def body_def n_def [symmetric] bs_def [symmetric] rest_def [symmetric] Let_def
    by (simp add: I_def split: if_splits)
qed

end

interpretation rx_ve: radix_build radix_cfg_ve
  by unfold_locales
     (simp_all add: radix_cfg_ve_def prefix_sum_ve_eq prefix_vlen_def prefix_vlen_min_def)

interpretation rx_x86: radix_build radix_cfg_x86
  by unfold_locales (simp_all add: radix_cfg_x86_def prefix_sum_x86_def prefix_scalar_eq)

subsection \<open>The bytes of a key\<close>

lemma and_0xFF: "k AND 0xFF = take_bit 8 (k :: 'w::len word)"
proof -
  have "(0xFF :: 'w word) = mask 8" by (simp add: mask_eq_exp_minus_1)
  then show ?thesis by (simp add: take_bit_eq_mask)
qed

lemma radix_bucket_byte:
  assumes "s + 8 \<le> LENGTH('w)"
  shows "radix_bucket sg s (k :: 'w::len word) = unat k div 2 ^ s mod 256"
proof -
  have "take_bit 8 (signed_drop_bit s k) = take_bit 8 (drop_bit s k)"
    using assms by (intro bit_eqI) (auto simp: bit_take_bit_iff bit_signed_drop_bit_iff bit_drop_bit_eq)
  then have "radix_bucket sg s k = unat (take_bit 8 (drop_bit s k))"
    by (simp add: radix_bucket_def key_shift_def and_0xFF)
  also have "\<dots> = take_bit 8 (drop_bit s (take_bit LENGTH('w) (unat k)))"
    by (simp only: unsigned_take_bit_eq unsigned_drop_bit_eq)
  also have "take_bit LENGTH('w) (unat k) = unat k"
    by (rule take_bit_nat_eq_self) (rule unsigned_less)
  also have "take_bit 8 (drop_bit s (unat k)) = unat k div 2 ^ s mod 2 ^ 8"
    by (simp only: take_bit_eq_mod drop_bit_eq_div)
  finally show ?thesis by simp
qed

lemma radix_bucket_less: "radix_bucket sg s k < num_bucket" "radix_bucket_desc sg s k < num_bucket"
proof -
  have "unat (take_bit 8 k) < 2 ^ 8" for k :: "'a::len word"
    by (simp only: unsigned_take_bit_eq) (rule take_bit_nat_less_exp)
  then show "radix_bucket sg s k < num_bucket" "radix_bucket_desc sg s k < num_bucket"
    by (simp_all add: radix_bucket_def radix_bucket_desc_def and_0xFF num_bucket_def)
qed

lemma radix_bucket_desc_eq: "radix_bucket_desc sg s k = 255 - radix_bucket sg s k"
  by (simp add: radix_bucket_desc_def radix_bucket_def)

lemma digits_key:
  assumes "8 * m \<le> LENGTH('w)"
  shows "digits (\<lambda>s x. radix_bucket sg s (keyf x :: 'w::len word)) m x = unat (keyf x) mod 256 ^ m"
  using assms
proof (induction m)
  case (Suc m)
  have "(2 :: nat) ^ (m * 8) = (2 ^ 8) ^ m" by (simp only: power_mult [symmetric] mult.commute)
  then have "(2 :: nat) ^ (m * 8) = 256 ^ m" by simp
  then have "radix_bucket sg (m * 8) (keyf x) = unat (keyf x) div 256 ^ m mod 256"
    using Suc.prems by (simp add: radix_bucket_byte)
  then have "digits (\<lambda>s x. radix_bucket sg s (keyf x)) (Suc m) x
      = 256 ^ m * (unat (keyf x) div 256 ^ m mod 256) + unat (keyf x) mod 256 ^ m"
    using Suc by (simp add: digits_Suc)
  also have "\<dots> = unat (keyf x) mod (256 ^ m * 256)" by (rule mod_mult2_eq [symmetric])
  finally show ?case by (simp add: mult.commute)
qed (simp add: digits_def)

lemma digits_key_desc:
  assumes "8 * m \<le> LENGTH('w)"
  shows "digits (\<lambda>s x. radix_bucket_desc sg s (keyf x :: 'w::len word)) m x + unat (keyf x) mod 256 ^ m = 256 ^ m - 1"
proof -
  have "digits (\<lambda>s x. radix_bucket_desc sg s (keyf x)) m x + digits (\<lambda>s x. radix_bucket sg s (keyf x)) m x = 256 ^ m - 1"
  proof (induction m)
    case (Suc m)
    let ?b = "radix_bucket sg (m * 8) (keyf x)"
    have "?b \<le> 255" using radix_bucket_less(1) [of sg "m * 8" "keyf x"] by (simp add: num_bucket_def)
    then have "256 ^ m * (255 - ?b) + 256 ^ m * ?b = 256 ^ m * 255"
      by (simp add: diff_mult_distrib2 mult_le_mono2)
    moreover have "(0 :: nat) < 256 ^ m" by simp
    ultimately show ?case using Suc by (simp add: digits_Suc radix_bucket_desc_eq)
  qed (simp add: digits_def)
  then show ?thesis by (simp only: digits_key [OF assms, where sg = sg and keyf = keyf])
qed


subsection \<open>Insertion\<close>

lemma insertion_shift_ok:
  fixes f :: "'x \<Rightarrow> 'b::linorder"
  assumes s: "s = sort_key f xs" and i: "i = length s" "0 < i" and gt: "f tmp < f (s ! (i - 1))"
    and data: "length d = 1" and cmp: "\<And>x. x \<in> set xs \<Longrightarrow> gt x tmp \<longleftrightarrow> f x > f tmp"
  shows "ok (insertion_shift gt tmp i (s @ d @ rest))
    (\<lambda>(j, data). wr data j tmp = Some (sort_key f (xs @ [tmp]) @ rest))"
proof -
  define body where "body = (\<lambda>(j, data). do { x \<leftarrow> rd data (j - 1); data \<leftarrow> wr data j (x :: 'x); Some (j - 1, data) })"
  have gt_s: "gt (s ! k) tmp \<longleftrightarrow> f (s ! k) > f tmp" if "k < i" for k
    using cmp [of "s ! k"] nth_mem [of k s] that i(1) by (simp add: s)
  define I where "I = (\<lambda>(j, data). j < i \<and> (\<exists>y. data = take j s @ y # drop j s @ rest) \<and> (\<forall>x\<in>set (drop j s). f tmp < f x))"
  have body: "ok (body (j, take j s @ y # drop j s @ rest)) (\<lambda>st. I st \<and> fst st < j)"
    if j: "0 < j" "j \<le> i" and gt: "f tmp < f (s ! (j - 1))" and all: "\<forall>x\<in>set (drop j s). f tmp < f x" for j y
  proof -
    have "j - 1 < length s" "Suc (j - 1) = j" using j i by linarith+
    then have tj: "take j s = take (j - 1) s @ [s ! (j - 1)]" "drop (j - 1) s = s ! (j - 1) # drop j s"
      by (metis take_Suc_conv_app_nth) (metis Cons_nth_drop_Suc \<open>j - 1 < length s\<close> \<open>Suc (j - 1) = j\<close>)
    have "length (take j s) = j" using j i by simp
    then have "(take j s @ y # drop j s @ rest)[j := s ! (j - 1)] = take j s @ s ! (j - 1) # drop j s @ rest"
      by (rule list_update_mid)
    also have "\<dots> = take (j - 1) s @ s ! (j - 1) # drop (j - 1) s @ rest" by (simp add: tj del: One_nat_def)
    finally have upd: "(take j s @ y # drop j s @ rest)[j := s ! (j - 1)] = take (j - 1) s @ s ! (j - 1) # drop (j - 1) s @ rest" .
    have "(take j s @ y # drop j s @ rest) ! (j - 1) = s ! (j - 1)" using j i by (simp add: nth_append)
    then have "body (j, take j s @ y # drop j s @ rest) = Some (j - 1, take (j - 1) s @ s ! (j - 1) # drop (j - 1) s @ rest)"
      using j i upd by (simp add: body_def)
    moreover have "I (j - 1, take (j - 1) s @ s ! (j - 1) # drop (j - 1) s @ rest)"
      using j i gt all by (auto simp: I_def tj(2) simp del: One_nat_def)
    ultimately show ?thesis using j by simp
  qed
  obtain y where y: "d = [y]" using data by (cases d) auto
  have start: "ok (body (i, s @ d @ rest)) I"
    using body [of i y] i gt by (auto simp: y elim: ok_mono)
  have final: "wr data j tmp = Some (sort_key f (xs @ [tmp]) @ rest)"
    if I: "I (j, data)" and stop: "\<not> (j > 0 \<and> gt (data ! (j - 1)) tmp)" for j data
  proof -
    obtain y where data: "j < i" "data = take j s @ y # drop j s @ rest" and all: "\<forall>x\<in>set (drop j s). f tmp < f x"
      using I by (auto simp: I_def)
    have le: "f x \<le> f tmp" if x: "x \<in> set (take j s)" for x
    proof -
      have j: "0 < j" using x by (cases j) auto
      obtain k where k: "k < j" "x = s ! k" using x data i by (auto simp: in_set_conv_nth)
      have "sorted (map f s)" unfolding s by (rule sorted_sort_key)
      then have "f x \<le> f (s ! (j - 1))" using k data i by (simp add: sorted_iff_nth_mono)
      moreover have "data ! (j - 1) = s ! (j - 1)" using j data i by (simp add: nth_append)
      moreover have "j - 1 < i" using data(1) by simp
      ultimately show ?thesis using stop j gt_s [of "j - 1"] by simp
    qed
    have "takeWhile (\<lambda>x. f x \<le> f tmp) (take j s @ drop j s) = take j s"
      "dropWhile (\<lambda>x. f x \<le> f tmp) (take j s @ drop j s) = drop j s"
      using le all by (cases "drop j s"; simp add: takeWhile_append2 dropWhile_append2 not_le del: append_take_drop_id)+
    then have "sort_key f (xs @ [tmp]) = take j s @ tmp # drop j s"
      by (simp add: sort_key_snoc s [symmetric])
    moreover have "data[j := tmp] = take j s @ tmp # drop j s @ rest"
      unfolding data by (rule list_update_mid) (use data i in simp)
    ultimately show ?thesis using data i by simp
  qed
  have loop: "ok (cwhile (\<lambda>(j, data). j > 0 \<and> gt (data ! (j - 1)) tmp) body st)
      (\<lambda>(j, data). wr data j tmp = Some (sort_key f (xs @ [tmp]) @ rest))" if "I st" for st
  proof (rule ok_while [where I = I and m = fst])
    fix st assume "I st" "case st of (j, data) \<Rightarrow> j > 0 \<and> gt (data ! (j - 1)) tmp"
    moreover obtain j data where "st = (j, data)" by (cases st)
    ultimately obtain y where st: "st = (j, take j s @ y # drop j s @ rest)" "0 < j" "j < i"
      "gt ((take j s @ y # drop j s @ rest) ! (j - 1)) tmp" "\<forall>x\<in>set (drop j s). f tmp < f x"
      by (auto simp: I_def)
    have "(take j s @ y # drop j s @ rest) ! (j - 1) = s ! (j - 1)" using st i by (simp add: nth_append)
    then show "ok (body st) (\<lambda>s'. I s' \<and> fst s' < fst st)"
      using body [of j y] st(2-5) gt_s [of "j - 1"] by (simp add: st(1))
  next
    fix st assume "I st" "\<not> (case st of (j, data) \<Rightarrow> j > 0 \<and> gt (data ! (j - 1)) tmp)"
    then show "case st of (j, data) \<Rightarrow> wr data j tmp = Some (sort_key f (xs @ [tmp]) @ rest)"
      by (cases st) (simp only: prod.case, rule final)
  qed (rule that)
  show ?thesis
    unfolding insertion_shift_def body_def [symmetric] Let_def ok_bind
    by (rule ok_mono [OF start]) (rule loop)
qed

lemma insertion_sort_eq:
  fixes f :: "'x \<Rightarrow> 'b::linorder"
  assumes cmp: "\<And>x y. x \<in> set xs \<Longrightarrow> y \<in> set xs \<Longrightarrow> gt x y \<longleftrightarrow> f x > f y"
  shows "insertion_sort gt xs = Some (sort_key f xs)"
proof (cases "xs = []")
  case True
  then show ?thesis by (simp add: insertion_sort_def)
next
  case False
  define I where "I = (\<lambda>i d. d = sort_key f (take i xs) @ drop i xs)"
  have "ok (insertion_sort gt xs) (I (length xs))"
    unfolding insertion_sort_def
  proof (rule ok_for_range [where I = I])
    show "I 1 xs" using False by (cases xs) (simp_all add: I_def)
    fix i d assume i: "1 \<le> i" "i < length xs" and "I i d"
    then have d: "d = sort_key f (take i xs) @ [xs ! i] @ drop (Suc i) xs"
      by (simp add: I_def Cons_nth_drop_Suc)
    define s where "s = sort_key f (take i xs)"
    have len: "length s = i" using i by (simp add: s_def)
    have nth: "d ! i = xs ! i" "d ! (i - 1) = s ! (i - 1)" "i < length d"
      using i len by (simp_all add: d s_def [symmetric] nth_append)
    have "i - 1 < length s" using len i by linarith
    then have "s ! (i - 1) \<in> set s" by (rule nth_mem)
    then have "s ! (i - 1) \<in> set xs" unfolding s_def set_sort by (rule in_set_takeD)
    then have gt_i: "gt (s ! (i - 1)) (xs ! i) \<longleftrightarrow> f (s ! (i - 1)) > f (xs ! i)" using i by (intro cmp) simp_all
    have next_sorted: "I (Suc i) (sort_key f (take i xs @ [xs ! i]) @ drop (Suc i) xs)"
      using i by (simp add: I_def take_Suc_conv_app_nth)
    have keep: "I (Suc i) d" if "\<not> f (s ! (i - 1)) > f (xs ! i)"
    proof -
      have sorted: "sorted (map f s)" unfolding s_def by (rule sorted_sort_key)
      have "\<forall>x\<in>set s. f x \<le> f (xs ! i)"
      proof
        fix x assume "x \<in> set s"
        then obtain k where "k < i" "x = s ! k" using len by (auto simp: in_set_conv_nth)
        then have "f x \<le> f (s ! (i - 1))" using sorted len i by (simp add: sorted_iff_nth_mono)
        then show "f x \<le> f (xs ! i)" using that by simp
      qed
      then have "sort_key f (take i xs @ [xs ! i]) = s @ [xs ! i]"
        by (simp add: sort_key_snoc s_def [symmetric] takeWhile_eq_all_conv [THEN iffD2] dropWhile_eq_Nil_conv [THEN iffD2])
      then show ?thesis using next_sorted by (simp add: d s_def)
    qed
    have shift: "ok (insertion_shift gt (xs ! i) i d)
      (\<lambda>(j, data). wr data j (xs ! i) = Some (sort_key f (take i xs @ [xs ! i]) @ drop (Suc i) xs))"
      if "f (s ! (i - 1)) > f (xs ! i)"
      unfolding d
    proof (rule insertion_shift_ok [OF refl])
      show "gt x (xs ! i) \<longleftrightarrow> f x > f (xs ! i)" if "x \<in> set (take i xs)" for x
        using in_set_takeD [OF that] i(2) by (intro cmp) simp_all
    qed (use that len i in \<open>simp_all add: s_def\<close>)
    show "ok (do { tmp \<leftarrow> rd d i; p \<leftarrow> rd d (i - 1);
        if gt p tmp then do { (j, data) \<leftarrow> insertion_shift gt tmp i d; wr data j tmp }
        else Some d }) (I (Suc i))"
    proof (cases "f (s ! (i - 1)) > f (xs ! i)")
      case True
      have "ok (insertion_shift gt (xs ! i) i d) (\<lambda>(j, data). ok (wr data j (xs ! i)) (I (Suc i)))"
        by (rule ok_mono [OF shift [OF True]]) (use next_sorted in auto)
      then show ?thesis
        using nth i gt_i True by (simp add: ok_bind prod.case_distrib [of "\<lambda>m. ok m _"] del: One_nat_def cong: prod.case_cong)
    next
      case False
      then show ?thesis using nth keep i gt_i by (simp add: del: One_nat_def)
    qed
  qed (use False in \<open>simp add: Suc_le_eq\<close>)
  then show ?thesis by (simp add: ok_iff_ex I_def)
qed

end
