(* ===== verification/RadixKeys.thy ===== *)
theory RadixKeys
  imports RadixStable
begin

text \<open>
  The front ends of core/radix_sort.hpp: negative keys, the number of bytes that the keys need, the
  flip of the top bit, and the sorts of keys with and without values in both directions.
\<close>

subsection \<open>Values of keys\<close>

lemma key_val_nonneg: "0 \<le> key_val sg k \<Longrightarrow> key_val sg k = int (unat (k :: 'w::len word))"
proof (cases sg)
  case True
  assume "0 \<le> key_val sg k"
  then have nn: "0 \<le> sint k" using True by (simp add: key_val_def)
  have "sint k < 2 ^ (LENGTH('w) - 1)" by (rule sint_lt)
  also have "(2 :: int) ^ (LENGTH('w) - 1) \<le> 2 ^ LENGTH('w)" by simp
  finally have "take_bit LENGTH('w) (sint k) = sint k" using nn by (simp add: take_bit_int_eq_self)
  then show ?thesis using True by (simp add: key_val_def uint_sint)
qed (simp add: key_val_def)

definition top_bit :: "'w::len word" where "top_bit = 2 ^ (LENGTH('w) - 1)"

lemma top_twice: "top_bit + top_bit = (0 :: 'w::len word)"
proof -
  have "Suc (LENGTH('w) - 1) = LENGTH('w)" by simp
  moreover have "top_bit + top_bit = (2 :: 'w word) ^ Suc (LENGTH('w) - 1)"
    by (simp only: top_bit_def power_Suc mult_2)
  ultimately show ?thesis by (simp only: word_pow_0)
qed

lemma xor_top: "k XOR top_bit = k + (top_bit :: 'w::len word)"
proof -
  have top: "bit (top_bit :: 'w word) n \<longleftrightarrow> n = LENGTH('w) - 1" for n
    by (auto simp: top_bit_def bit_exp_iff)
  have clear: "x XOR top_bit = x + top_bit" if "\<not> bit x (LENGTH('w) - 1)" for x :: "'w word"
  proof -
    have "x AND top_bit = 0" using that by (intro bit_eqI) (auto simp: bit_and_iff top)
    then show ?thesis by (simp add: disjunctive_add_eq_xor)
  qed
  show ?thesis
  proof (cases "bit k (LENGTH('w) - 1)")
    case True
    then have "\<not> bit (k XOR top_bit) (LENGTH('w) - 1)" by (simp add: bit_xor_iff top)
    then have "(k XOR top_bit) XOR top_bit = (k XOR top_bit) + top_bit" by (rule clear)
    then have "((k XOR top_bit) XOR top_bit) + top_bit = ((k XOR top_bit) + top_bit) + top_bit" by (rule arg_cong)
    moreover have "(k XOR top_bit) XOR top_bit = k" by (simp add: xor.assoc)
    ultimately have "k + top_bit = (k XOR top_bit) + (top_bit + top_bit)" by (simp only: add.assoc)
    then have "k + top_bit = k XOR top_bit" by (simp only: top_twice add_0_right)
    then show ?thesis by (rule sym)
  qed (rule clear)
qed

lemma uint_flip: "uint (k XOR top_bit) = sint k + 2 ^ (LENGTH('w) - 1)" for k :: "'w::len word"
proof -
  have range: "0 \<le> sint k + 2 ^ (LENGTH('w) - 1)" "sint k + 2 ^ (LENGTH('w) - 1) < 2 ^ LENGTH('w)"
  proof -
    have "- (2 ^ (LENGTH('w) - 1)) \<le> sint k" by (rule sint_ge)
    then show "0 \<le> sint k + 2 ^ (LENGTH('w) - 1)" by simp
    have "sint k < 2 ^ (LENGTH('w) - 1)" by (rule sint_lt)
    moreover have "(2 :: int) ^ LENGTH('w) = 2 ^ (LENGTH('w) - 1) + 2 ^ (LENGTH('w) - 1)"
      using power_Suc [of "2 :: int" "LENGTH('w) - 1"] by simp
    ultimately show "sint k + 2 ^ (LENGTH('w) - 1) < 2 ^ LENGTH('w)" by simp
  qed
  have "k XOR top_bit = word_of_int (sint k + 2 ^ (LENGTH('w) - 1))"
    unfolding xor_top by (simp add: top_bit_def)
  then have "uint (k XOR top_bit) = take_bit LENGTH('w) (sint k + 2 ^ (LENGTH('w) - 1))"
    by (simp only: uint_word_of_int_eq)
  then show ?thesis using range by (simp add: take_bit_int_eq_self)
qed

lemma flip_top_eq:
  assumes "LENGTH('w) = 32 \<or> LENGTH('w) = 64"
  shows "flip_top upd xs = map (upd (\<lambda>k. k XOR (top_bit :: 'w::len word))) xs"
  using assms by (auto simp: flip_top_def top_bit_def)

subsection \<open>contain_negative\<close>

lemma negative_scan_eq:
  assumes trans: "\<And>a b. lt a b \<Longrightarrow> lt b 0 \<Longrightarrow> lt a 0" and irrefl: "\<not> lt 0 0"
  shows "negative_scan lt ks = Some (\<exists>k\<in>set ks. lt k 0)"
proof -
  define n B where "n = length ks" and "B = contain_negative_size"
  define neg where "neg = (\<lambda>i. \<exists>k\<in>set (take i ks). lt k 0)"
  define M where "M = (\<lambda>i mn. (lt mn 0 \<or> mn = 0) \<and> (lt mn 0 \<longleftrightarrow> neg i))"
  define I where "I = (\<lambda>(i, found, mn). i \<le> n \<and> M i mn \<and> (found \<longleftrightarrow> neg i))"
  define block where "block = (\<lambda>i mn. for_each (\<lambda>j mn. do { k \<leftarrow> rd ks (i + j); Some (if lt k mn then k else mn) }) [0..<B] mn)"
  define loop where "loop = (if n > B
      then cwhile (\<lambda>(i, found, mn). \<not> found \<and> i < n - B)
        (\<lambda>(i, found, mn). do { mn \<leftarrow> block i mn; Some (i + B, lt mn 0, mn) }) (0, False, 0)
      else Some (0, False, 0))"
  have neg_Suc: "neg (Suc i) \<longleftrightarrow> neg i \<or> lt (ks ! i) 0" if "i < n" for i
    using that by (auto simp: neg_def take_Suc_conv_app_nth n_def)
  have block: "ok (block i mn) (M (i + B))" if "M i mn" "i + B \<le> n" for i mn
    unfolding block_def
  proof (rule ok_for_range [where I = "\<lambda>j. M (i + j)"])
    fix j mn assume "j < B" "M (i + j) mn"
    then show "ok (do { k \<leftarrow> rd ks (i + j); Some (if lt k mn then k else mn) }) (M (i + Suc j))"
      using that neg_Suc [of "i + j"] trans by (auto simp: ok_simps n_def M_def)
  qed (use that in simp_all)
  have B: "0 < B" by (simp add: B_def contain_negative_size_def)
  have start: "I (0, False, 0)" by (simp add: I_def M_def neg_def irrefl)
  have "ok loop I"
  proof (cases "n > B")
    case True
    have "ok (cwhile (\<lambda>(i, found, mn). \<not> found \<and> i < n - B)
        (\<lambda>(i, found, mn). do { mn \<leftarrow> block i mn; Some (i + B, lt mn 0, mn) }) (0, False, 0)) I"
    proof (rule ok_while [where I = I and m = "\<lambda>(i, _). n - i"])
      fix st assume I: "I st" and c: "case st of (i, found, mn) \<Rightarrow> \<not> found \<and> i < n - B"
      obtain i found mn where st: "st = (i, found, mn)" by (cases st)
      have "M i mn" "i + B \<le> n" using I c by (auto simp: I_def st)
      from block [OF this] show "ok (case st of (i, found, mn) \<Rightarrow> do { mn \<leftarrow> block i mn; Some (i + B, lt mn 0, mn) })
         (\<lambda>s'. I s' \<and> (case s' of (i, _) \<Rightarrow> n - i) < (case st of (i, _) \<Rightarrow> n - i))"
        using c B by (auto simp: st ok_bind I_def M_def elim!: ok_mono)
    qed (use start in simp_all)
    then show ?thesis using True by (simp add: loop_def)
  qed (use start in \<open>simp add: loop_def\<close>)
  then obtain i found mn where loop: "loop = Some (i, found, mn)" and I: "I (i, found, mn)"
    by (auto simp: ok_iff_ex)
  have tail: "for_each (\<lambda>i ng. if ng then Some True else do { k \<leftarrow> rd ks i; Some (lt k 0) }) [i..<n] False = Some (neg n)"
    if "\<not> neg i"
  proof -
    have "ok (for_each (\<lambda>i ng. if ng then Some True else do { k \<leftarrow> rd ks i; Some (lt k 0) }) [i..<n] False) (\<lambda>ng. ng = neg n)"
    proof (rule ok_for_range [where I = "\<lambda>j ng. ng = neg j"])
      fix j ng assume "j < n" "ng = neg j"
      then show "ok (if ng then Some True else do { k \<leftarrow> rd ks j; Some (lt k 0) }) (\<lambda>ng. ng = neg (Suc j))"
        using neg_Suc [of j] by (auto simp: ok_simps n_def)
    qed (use that I in \<open>simp_all add: I_def\<close>)
    then show ?thesis by (simp only: ok_eq)
  qed
  have "neg i \<Longrightarrow> neg n" using set_take_subset [of i ks] by (auto simp: neg_def n_def)
  then have "negative_scan lt ks = Some (neg n)"
    unfolding negative_scan_def Let_def n_def [symmetric] B_def [symmetric] loop [unfolded loop_def block_def]
    using I tail by (cases "neg i") (auto simp: I_def)
  then show ?thesis by (simp add: neg_def n_def)
qed

lemma contain_negative_eq: "contain_negative sg ks = Some (sg \<and> (\<exists>k\<in>set ks. sint k < 0))"
proof -
  have "negative_scan (\<lambda>a b. sint a < sint b) ks = Some (\<exists>k\<in>set ks. sint k < sint (0 :: 'a word))"
    by (rule negative_scan_eq) simp_all
  then show ?thesis by (simp add: contain_negative_def)
qed

subsection \<open>get_max_key_size\<close>

lemma fold_key_max:
  "(\<forall>k\<in>set ks. key_val sg k \<le> key_val sg (fold (\<lambda>k mx. if key_val sg k > key_val sg mx then k else mx) ks mx0))
   \<and> key_val sg mx0 \<le> key_val sg (fold (\<lambda>k mx. if key_val sg k > key_val sg mx then k else mx) ks mx0)"
  by (induction ks arbitrary: mx0) (auto, (meson less_le_not_le linorder_le_less_linear order_trans)+)

lemma shift_mask: "push_bit 8 (mask n) OR 0xFF = (mask (n + 8) :: 64 word)"
proof -
  have "(0xFF :: 64 word) = mask 8" by (simp add: mask_eq_exp_minus_1)
  moreover have "push_bit 8 (mask n) OR mask 8 = (mask (n + 8) :: 64 word)"
    by (intro bit_eqI) (auto simp: bit_or_iff bit_push_bit_iff bit_mask_iff)
  ultimately show ?thesis by simp
qed

lemma unat_mask64: "n \<le> 64 \<Longrightarrow> unat (mask n :: 64 word) = 2 ^ n - 1"
proof -
  assume n: "n \<le> 64"
  have "unat (mask n :: 64 word) = unat (take_bit n (- 1 :: 64 word))" by (simp only: take_bit_minus_one_eq_mask)
  also have "\<dots> = take_bit n (mask 64)" using unsigned_minus_1_eq_mask [where 'a = nat and 'b = 64]
    by (simp only: unsigned_take_bit_eq) simp
  also have "\<dots> = mask n" using n by (simp add: take_bit_of_mask min_def)
  finally show ?thesis by (simp add: mask_eq_exp_minus_1)
qed

lemma key_size_scan_ok:
  assumes "1 \<le> a" "a \<le> n" "n \<le> 8" "unat mx < 256 ^ n"
  shows "key_size_scan n mx (mask (8 * a)) [a..<n + 1] \<le> n \<and>
    unat mx < 256 ^ key_size_scan n mx (mask (8 * a)) [a..<n + 1]"
  using assms
proof (induction "n - a" arbitrary: a)
  case 0
  then show ?case by (simp add: upt_rec)
next
  case (Suc d)
  have p: "(2 :: nat) ^ (8 * a) = 256 ^ a" by (simp add: power_mult)
  have tmp: "unat (mask (8 * a) :: 64 word) = 256 ^ a - 1" using Suc.prems by (simp add: unat_mask64 p)
  have "[a..<n + 1] = a # [Suc a..<n + 1]" using Suc by (simp add: upt_conv_Cons)
  moreover have "push_bit 8 (mask (8 * a)) OR 0xFF = (mask (8 * Suc a) :: 64 word)"
    by (simp only: shift_mask) (simp add: add.commute)
  moreover have "unat mx \<le> 256 ^ a - 1 \<Longrightarrow> unat mx < 256 ^ a"
    using zero_less_power [of "256 :: nat" a] by linarith
  ultimately show ?case using Suc.hyps(1) [of "Suc a"] Suc.hyps(2) Suc.prems tmp by (auto simp del: upt_Suc)
qed

lemma get_max_key_size_ok:
  fixes ks :: "'w::len word list"
  assumes len: "LENGTH('w) = 32 \<or> LENGTH('w) = 64" and nn: "\<forall>k\<in>set ks. 0 \<le> key_val sg k" and k: "k \<in> set ks"
  shows "8 * get_max_key_size sg ks \<le> LENGTH('w) \<and> unat k < 256 ^ get_max_key_size sg ks"
proof -
  define mx where "mx = fold (\<lambda>k mx. if key_val sg k > key_val sg mx then k else mx) ks 0"
  have "key_val sg k \<le> key_val sg mx" "key_val sg (0 :: 'w word) \<le> key_val sg mx"
    using fold_key_max [of ks sg 0] k by (auto simp: mx_def)
  then have "0 \<le> key_val sg mx" "key_val sg k \<le> key_val sg mx"
    by (cases sg; simp add: key_val_def)+
  then have le: "unat k \<le> unat mx" using key_val_nonneg [of sg mx] key_val_nonneg [of sg k] nn k
    by (simp only: of_nat_le_iff)
  have "LENGTH('w) = 8 * (LENGTH('w) div 8)" using len by auto
  then have "unat mx < (2 ^ 8) ^ (LENGTH('w) div 8)" using unsigned_less [where w = mx and 'a = nat]
    by (simp only: power_mult [symmetric])
  then have "unat mx < 256 ^ (LENGTH('w) div 8)" by simp
  moreover have "(0xFF :: 64 word) = mask (8 * 1)" by (simp add: mask_eq_exp_minus_1)
  ultimately have "get_max_key_size sg ks \<le> LENGTH('w) div 8 \<and> unat mx < 256 ^ get_max_key_size sg ks"
    using key_size_scan_ok [of 1 "LENGTH('w) div 8" mx] len unfolding get_max_key_size_def mx_def [symmetric] Let_def by auto
  then show ?thesis using le len by auto
qed


subsection \<open>The two directions\<close>

context radix_build
begin

lemma impl_eq:
  fixes keyf :: "'x \<Rightarrow> 'w::len word"
  assumes "8 * m \<le> LENGTH('w)" "\<forall>x\<in>set xs. unat (keyf x) < 256 ^ m"
  shows "radix_sort_impl c sg keyf z xs m = Some (sort_key (\<lambda>x. int (unat (keyf x))) xs)"
    "radix_sort_desc_impl c sg keyf z xs m = Some (sort_key (\<lambda>x. - int (unat (keyf x))) xs)"
proof -
  have asc: "digits (\<lambda>s x. radix_bucket sg s (keyf x)) m x = unat (keyf x)" if "x \<in> set xs" for x
    using assms that by (simp add: digits_key)
  have desc: "digits (\<lambda>s x. radix_bucket_desc sg s (keyf x)) m x + unat (keyf x) = 256 ^ m - 1" if "x \<in> set xs" for x
    using digits_key_desc [OF assms(1), of sg keyf x] assms(2) that by simp
  have "sort_key (digits (\<lambda>s x. radix_bucket sg s (keyf x)) m) xs = sort_key (\<lambda>x. int (unat (keyf x))) xs"
    by (rule sort_key_cong_order) (simp only: asc of_nat_le_iff)
  then show "radix_sort_impl c sg keyf z xs m = Some (sort_key (\<lambda>x. int (unat (keyf x))) xs)"
    unfolding radix_sort_impl_def by (subst passes_sort) (simp_all add: radix_align_size_def radix_bucket_less)
  have "sort_key (digits (\<lambda>s x. radix_bucket_desc sg s (keyf x)) m) xs = sort_key (\<lambda>x. - int (unat (keyf x))) xs"
  proof (rule sort_key_cong_order)
    fix x y assume "x \<in> set xs" "y \<in> set xs"
    then show "digits (\<lambda>s x. radix_bucket_desc sg s (keyf x)) m x \<le> digits (\<lambda>s x. radix_bucket_desc sg s (keyf x)) m y \<longleftrightarrow>
        - int (unat (keyf x)) \<le> - int (unat (keyf y))"
      using desc [of x] desc [of y] by linarith
  qed
  then show "radix_sort_desc_impl c sg keyf z xs m = Some (sort_key (\<lambda>x. - int (unat (keyf x))) xs)"
    unfolding radix_sort_desc_impl_def by (subst passes_sort) (simp_all add: radix_align_size_def radix_bucket_less)
qed

end

text \<open>Elements with a key that can be changed: pairs, and keys alone.\<close>

locale radix_elem =
  fixes keyf :: "'x \<Rightarrow> 'w::len word" and upd :: "('w word \<Rightarrow> 'w word) \<Rightarrow> 'x \<Rightarrow> 'x"
  assumes keyf_upd: "keyf (upd g x) = g (keyf x)"
    and upd_upd: "(\<And>k. g (g' k) = k) \<Longrightarrow> upd g (upd g' x) = x"
begin

text \<open>\<open>h\<close> is the direction: the identity or the change of sign.\<close>

lemma body_eq:
  fixes h :: "int \<Rightarrow> int"
  assumes len: "LENGTH('w) = 32 \<or> LENGTH('w) = 64"
    and shift: "\<And>a b d. h (a + d) \<le> h (b + d) \<longleftrightarrow> h a \<le> h b"
    and insertion: "\<And>xs. insertion xs = Some (sort_key (\<lambda>x. h (key_val sg (keyf x))) xs)"
    and impl: "\<And>xs m. 8 * m \<le> LENGTH('w) \<Longrightarrow> \<forall>x\<in>set xs. unat (keyf x) < 256 ^ m \<Longrightarrow>
      impl xs m = Some (sort_key (\<lambda>x. h (int (unat (keyf x)))) xs)"
    and pos: "positive_only \<longrightarrow> (\<forall>x\<in>set xs. 0 \<le> key_val sg (keyf x))"
  shows "radix_sort_body insertion impl c sg keyf upd xs positive_only = Some (sort_key (\<lambda>x. h (key_val sg (keyf x))) xs)"
proof (cases "length xs < rx_thr c \<or> xs = []")
  case True
  have "xs = [] \<Longrightarrow> impl [] m = Some []" if "8 * m \<le> LENGTH('w)" for m using impl [of m "[]"] that by simp
  moreover have "8 * get_max_key_size sg ([] :: 'w word list) \<le> LENGTH('w)"
    using len by (auto simp: get_max_key_size_def upt_rec)
  ultimately show ?thesis
    using True by (auto simp: radix_sort_body_def insertion contain_negative_eq)
next
  case False
  let ?flip = "\<lambda>k :: 'w word. k XOR top_bit"
  have nn_sort: "impl xs (get_max_key_size sg (map keyf xs)) = Some (sort_key (\<lambda>x. h (key_val sg (keyf x))) xs)"
    if nn: "\<forall>x\<in>set xs. 0 \<le> key_val sg (keyf x)"
  proof -
    obtain x0 where x0: "x0 \<in> set xs" using False by (cases xs) auto
    have ks: "\<forall>k\<in>set (map keyf xs). 0 \<le> key_val sg k" using nn by simp
    have "8 * get_max_key_size sg (map keyf xs) \<le> LENGTH('w)"
      using get_max_key_size_ok [OF len ks, of "keyf x0"] x0 by simp
    moreover have "\<forall>x\<in>set xs. unat (keyf x) < 256 ^ get_max_key_size sg (map keyf xs)"
      using get_max_key_size_ok [OF len ks] by simp
    ultimately have "impl xs (get_max_key_size sg (map keyf xs)) = Some (sort_key (\<lambda>x. h (int (unat (keyf x)))) xs)"
      by (rule impl)
    also have "sort_key (\<lambda>x. h (int (unat (keyf x)))) xs = sort_key (\<lambda>x. h (key_val sg (keyf x))) xs"
      by (rule sort_key_cong_order) (use nn key_val_nonneg in metis)
    finally show ?thesis .
  qed
  have flipped: "impl (map (upd ?flip) xs) (LENGTH('w) div 8) = Some (map (upd ?flip) (sort_key (\<lambda>x. h (sint (keyf x))) xs))"
  proof -
    have l8: "LENGTH('w) = 8 * (LENGTH('w) div 8)" using len by auto
    have "unat k < (2 ^ 8) ^ (LENGTH('w) div 8)" for k :: "'w word"
      using unsigned_less [where w = k and 'a = nat] l8 by (simp only: power_mult [symmetric])
    then have "unat k < 256 ^ (LENGTH('w) div 8)" for k :: "'w word" by simp
    then have "impl (map (upd ?flip) xs) (LENGTH('w) div 8) = Some (sort_key (\<lambda>x. h (int (unat (keyf x)))) (map (upd ?flip) xs))"
      by (intro impl) simp_all
    also have "sort_key (\<lambda>x. h (int (unat (keyf x)))) (map (upd ?flip) xs)
        = map (upd ?flip) (sort_key (\<lambda>x. h (int (unat (?flip (keyf x))))) xs)"
      by (simp only: sort_key_map keyf_upd)
    also have "sort_key (\<lambda>x. h (int (unat (?flip (keyf x))))) xs = sort_key (\<lambda>x. h (sint (keyf x))) xs"
      by (rule sort_key_cong_order) (simp only: uint_nat [symmetric] uint_flip shift)
    finally show ?thesis .
  qed
  have unflip: "map (upd ?flip) (map (upd ?flip) ys) = ys" for ys
    by (simp add: upd_upd xor.assoc o_def)
  show ?thesis
  proof (cases "positive_only \<or> \<not> (sg \<and> (\<exists>k\<in>set (map keyf xs). sint k < 0))")
    case True
    then have "\<forall>x\<in>set xs. 0 \<le> key_val sg (keyf x)" using pos by (auto simp: key_val_def not_less)
    then show ?thesis using nn_sort True False by (auto simp: radix_sort_body_def contain_negative_eq Let_def)
  next
    case neg: False
    then have "radix_sort_body insertion impl c sg keyf upd xs positive_only
        = do { ka \<leftarrow> impl (flip_top upd xs) (LENGTH('w) div 8); Some (flip_top upd ka) }"
      using False by (simp add: radix_sort_body_def contain_negative_eq Let_def)
    also have "\<dots> = Some (sort_key (\<lambda>x. h (sint (keyf x))) xs)"
      by (simp add: flip_top_eq [OF len] flipped unflip del: map_map)
    finally show ?thesis using neg by (simp add: key_val_def)
  qed
qed

end

interpretation rx_pair: radix_elem "fst :: 'w::len word \<times> 'v::zero \<Rightarrow> 'w word" "\<lambda>f (k, v). (f k, v)"
  by unfold_locales auto

interpretation rx_key: radix_elem "id :: 'w::len word \<Rightarrow> 'w word" id
  by unfold_locales auto

context radix_build
begin

lemma sorts_eq:
  assumes "LENGTH('w::len) = 32 \<or> LENGTH('w) = 64"
    and "positive_only \<longrightarrow> (\<forall>x\<in>set xs. 0 \<le> key_val sg (fst x :: 'w word))"
  shows "radix_sort c sg xs positive_only = Some (sort_key (\<lambda>x. key_val sg (fst x)) xs)"
    "radix_sort_desc c sg xs positive_only = Some (sort_key (\<lambda>x. - key_val sg (fst x)) xs)"
proof -
  show "radix_sort c sg xs positive_only = Some (sort_key (\<lambda>x. key_val sg (fst x)) xs)"
    unfolding radix_sort_def
    by (rule rx_pair.body_eq [where h = "\<lambda>x. x"]) (use assms in \<open>simp_all add: insertion_sort_eq impl_eq\<close>)
  have ins: "insertion_sort (\<lambda>x tmp. key_val sg (fst x) < key_val sg (fst tmp)) xs
      = Some (sort_key (\<lambda>x. - key_val sg (fst x)) xs)" for xs :: "('w word \<times> 'a) list"
    by (rule insertion_sort_eq) simp
  show "radix_sort_desc c sg xs positive_only = Some (sort_key (\<lambda>x. - key_val sg (fst x)) xs)"
    unfolding radix_sort_desc_def
    by (rule rx_pair.body_eq [where h = "\<lambda>x. - x"]) (use assms in \<open>simp_all add: ins impl_eq\<close>)
qed

lemma sort_keys_eq:
  assumes "LENGTH('w::len) = 32 \<or> LENGTH('w) = 64"
    and "positive_only \<longrightarrow> (\<forall>x\<in>set xs. 0 \<le> key_val sg (x :: 'w word))"
  shows "radix_sort_keys c sg xs positive_only = Some (sort_key (key_val sg) xs)"
    "radix_sort_keys_desc c sg xs positive_only = Some (sort_key (\<lambda>x. - key_val sg x) xs)"
proof -
  show "radix_sort_keys c sg xs positive_only = Some (sort_key (key_val sg) xs)"
    unfolding radix_sort_keys_def
    using rx_key.body_eq [where h = "\<lambda>x. x" and sg = sg and xs = xs and positive_only = positive_only and c = c
        and insertion = "insertion_sort (\<lambda>x tmp. key_val sg x > key_val sg tmp)" and impl = "radix_sort_impl c sg id 0"]
      assms by (simp add: insertion_sort_eq impl_eq)
  have ins: "insertion_sort (\<lambda>x tmp. key_val sg x < key_val sg tmp) xs
      = Some (sort_key (\<lambda>x. - key_val sg x) xs)" for xs :: "'w word list"
    by (rule insertion_sort_eq) simp
  show "radix_sort_keys_desc c sg xs positive_only = Some (sort_key (\<lambda>x. - key_val sg x) xs)"
    unfolding radix_sort_keys_desc_def
    using rx_key.body_eq [where h = "\<lambda>x. - x" and sg = sg and xs = xs and positive_only = positive_only and c = c
        and insertion = "insertion_sort (\<lambda>x tmp. key_val sg x < key_val sg tmp)" and impl = "radix_sort_desc_impl c sg id 0"]
      assms by (simp add: ins impl_eq)
qed

end


subsection \<open>Properties\<close>

text \<open>
  C3. radix_sort (core/radix_sort.hpp) of keys with values, in either build: whatever path is taken
  (insertion, or passes over the bytes of the largest key, with the top bit flipped when a key is
  negative), it stays inside its arrays and returns the stable sort by the value of the key; with
  \<open>positive_only\<close> this needs keys that are not negative.
\<close>
theorem radix_sort_stable:
  fixes keys :: "'w::len word list" and vals :: "'v::zero list"
  assumes "LENGTH('w) = 32 \<or> LENGTH('w) = 64" "length vals = length keys"
    and "positive_only \<longrightarrow> (\<forall>k\<in>set keys. 0 \<le> key_val sg k)"
  shows "(let s = sort_key (\<lambda>x. key_val sg (fst x)) (zip keys vals) in
      radix_sort_vec radix_cfg_ve sg keys vals positive_only = Some (Inr (map fst s, map snd s)) \<and>
      radix_sort_vec radix_cfg_x86 sg keys vals positive_only = Some (Inr (map fst s, map snd s)))"
proof -
  have "positive_only \<longrightarrow> (\<forall>x\<in>set (zip keys vals). 0 \<le> key_val sg (fst x))"
    using assms(3) by (auto dest: set_zip_leftD)
  then show ?thesis
    using assms by (simp add: radix_sort_vec_def rx_ve.sorts_eq rx_x86.sorts_eq Let_def)
qed

theorem radix_sort_stable_witness:
  "radix_sort_vec radix_cfg_x86 True [5, -2, 5, 0 :: 32 word] [1, 2, 3, 4 :: nat] False = Some (Inr ([-2, 0, 5, 5], [2, 4, 1, 3]))"
  using radix_sort_stable [of "[1, 2, 3, 4 :: nat]" "[5, -2, 5, 0 :: 32 word]" False True]
  by (simp add: key_val_def)

text \<open>
  radix_sort_desc of keys with values: the stable sort by the descending value of the key, in
  either build; and a different number of keys and values is reported.
\<close>
theorem radix_sort_desc_stable:
  fixes keys :: "'w::len word list" and vals :: "'v::zero list"
  assumes "LENGTH('w) = 32 \<or> LENGTH('w) = 64"
    and "positive_only \<longrightarrow> (\<forall>k\<in>set keys. 0 \<le> key_val sg k)"
    and "c = radix_cfg_ve \<or> c = radix_cfg_x86"
  shows "radix_sort_desc_vec c sg keys vals positive_only = Some
    (if length vals \<noteq> length keys then Inl ''radix_sort: different size of arrays''
     else let s = sort_key (\<lambda>x. - key_val sg (fst x)) (zip keys vals) in Inr (map fst s, map snd s))"
proof -
  have "positive_only \<longrightarrow> (\<forall>x\<in>set (zip keys vals). 0 \<le> key_val sg (fst x))"
    using assms(2) by (auto dest: set_zip_leftD)
  then show ?thesis
    using assms by (auto simp add: radix_sort_desc_vec_def rx_ve.sorts_eq rx_x86.sorts_eq Let_def)
qed

theorem radix_sort_desc_stable_witness:
  "radix_sort_desc_vec radix_cfg_ve True [5, -2, 5, 0 :: 64 word] [1, 2, 3, 4 :: nat] False = Some (Inr ([5, 5, 0, -2], [1, 3, 4, 2]))"
  using radix_sort_desc_stable [of False "[5, -2, 5, 0 :: 64 word]" True radix_cfg_ve "[1, 2, 3, 4 :: nat]"]
  by (simp add: key_val_def)

text \<open>
  The sorts of keys alone, in both directions and builds: a sorted permutation of the keys.
\<close>
theorem radix_sort_keys_sorted:
  fixes keys :: "'w::len word list"
  assumes "LENGTH('w) = 32 \<or> LENGTH('w) = 64"
    and "positive_only \<longrightarrow> (\<forall>k\<in>set keys. 0 \<le> key_val sg k)"
    and "c = radix_cfg_ve \<or> c = radix_cfg_x86"
  shows "\<exists>up down. radix_sort_keys c sg keys positive_only = Some up \<and> radix_sort_keys_desc c sg keys positive_only = Some down \<and>
    mset up = mset keys \<and> mset down = mset keys \<and>
    sorted_wrt (\<lambda>a b. key_val sg a \<le> key_val sg b) up \<and> sorted_wrt (\<lambda>a b. key_val sg a \<ge> key_val sg b) down"
proof -
  have "radix_sort_keys c sg keys positive_only = Some (sort_key (key_val sg) keys)"
    "radix_sort_keys_desc c sg keys positive_only = Some (sort_key (\<lambda>k. - key_val sg k) keys)"
    using assms by (auto simp: rx_ve.sort_keys_eq rx_x86.sort_keys_eq)
  moreover have "sorted_wrt (\<lambda>a b. key_val sg a \<le> key_val sg b) (sort_key (key_val sg) keys)"
    using sorted_sort_key [of "key_val sg" keys] by (simp only: sorted_map)
  moreover have "sorted_wrt (\<lambda>a b. key_val sg a \<ge> key_val sg b) (sort_key (\<lambda>k. - key_val sg k) keys)"
    using sorted_sort_key [of "\<lambda>k. - key_val sg k" keys] by (simp only: sorted_map neg_le_iff_le)
  ultimately show ?thesis by simp
qed

theorem radix_sort_keys_sorted_witness:
  "\<exists>up down. radix_sort_keys radix_cfg_ve False [3, 1, 2 :: 32 word] True = Some up \<and>
     radix_sort_keys_desc radix_cfg_ve False [3, 1, 2 :: 32 word] True = Some down \<and> mset up = {#1, 2, 3#}"
  using radix_sort_keys_sorted [of True "[3, 1, 2 :: 32 word]" False radix_cfg_ve]
  by (auto simp: key_val_def add_mset_commute)

end
