(* ===== verification/SetSeq.thy ===== *)
theory SetSeq
  imports Prelude "HOL-Library.Multiset"
begin

text \<open>
  core/set_operations.hpp, the scalar build: set operations on sorted arrays, through the standard
  library's algorithms, and the compaction of runs of equal keys (set_separate, set_unique,
  set_is_unique); then the multi-way merges, which both builds share and which take the build's
  two-way merge as an argument.
\<close>

subsection \<open>The standard library's algorithms\<close>

fun std_merge :: "('a \<Rightarrow> 'a \<Rightarrow> bool) \<Rightarrow> 'a list \<Rightarrow> 'a list \<Rightarrow> 'a list" where
  "std_merge lt [] ys = ys"
| "std_merge lt (x # xs) [] = x # xs"
| "std_merge lt (x # xs) (y # ys) =
     (if lt y x then y # std_merge lt (x # xs) ys else x # std_merge lt xs (y # ys))"

fun std_set_union :: "'a::linorder list \<Rightarrow> 'a list \<Rightarrow> 'a list" where
  "std_set_union [] ys = ys"
| "std_set_union (x # xs) [] = x # xs"
| "std_set_union (x # xs) (y # ys) =
     (if y < x then y # std_set_union (x # xs) ys
      else if \<not> x < y then x # std_set_union xs ys
      else x # std_set_union xs (y # ys))"

fun std_set_intersection :: "'a::linorder list \<Rightarrow> 'a list \<Rightarrow> 'a list" where
  "std_set_intersection [] ys = []"
| "std_set_intersection (x # xs) [] = []"
| "std_set_intersection (x # xs) (y # ys) =
     (if x < y then std_set_intersection xs (y # ys)
      else if \<not> y < x then x # std_set_intersection xs ys
      else std_set_intersection (x # xs) ys)"

fun std_set_difference :: "'a::linorder list \<Rightarrow> 'a list \<Rightarrow> 'a list" where
  "std_set_difference [] ys = []"
| "std_set_difference (x # xs) [] = x # xs"
| "std_set_difference (x # xs) (y # ys) =
     (if x < y then x # std_set_difference xs (y # ys)
      else if \<not> y < x then std_set_difference xs ys
      else std_set_difference (x # xs) ys)"

lemma std_empty [simp]:
  "std_merge lt xs [] = xs" "std_set_union xs' [] = xs'"
  "std_set_intersection xs' [] = []" "std_set_difference xs' [] = xs'"
  by (cases xs, simp_all) (cases xs', simp_all)+

subsection \<open>The scalar build\<close>

definition set_intersection_x86 :: "'a::linorder list \<Rightarrow> 'a list \<Rightarrow> 'a list" where
  "set_intersection_x86 leftp rightp = std_set_intersection leftp rightp"

definition set_union_x86 :: "'a::linorder list \<Rightarrow> 'a list \<Rightarrow> 'a list" where
  "set_union_x86 leftp rightp = std_set_union leftp rightp"

definition set_difference_x86 :: "'a::linorder list \<Rightarrow> 'a list \<Rightarrow> 'a list" where
  "set_difference_x86 leftp rightp = std_set_difference leftp rightp"

definition set_merge_x86 :: "'a::linorder list \<Rightarrow> 'a list \<Rightarrow> 'a list" where
  "set_merge_x86 leftp rightp = std_merge (<) leftp rightp"

definition set_merge_desc_x86 :: "'a::linorder list \<Rightarrow> 'a list \<Rightarrow> 'a list" where
  "set_merge_desc_x86 leftp rightp = std_merge (>) leftp rightp"

text \<open>The pair merges build arrays of pairs, merge by key and split the result again.\<close>

definition pair_up :: "'a list \<Rightarrow> 'b list \<Rightarrow> nat \<Rightarrow> ('a \<times> 'b) list option" where
  "pair_up keyp valp n = omap (\<lambda>i. do { k \<leftarrow> rd keyp i; v \<leftarrow> rd valp i; Some (k, v) }) [0..<n]"

definition set_merge_pair_x86 ::
  "'a::linorder list \<Rightarrow> 'b list \<Rightarrow> nat \<Rightarrow> 'a list \<Rightarrow> 'b list \<Rightarrow> nat \<Rightarrow> ('a list \<times> 'b list) option" where
  "set_merge_pair_x86 leftp left_valp left_size rightp right_valp right_size = do {
     left_pair \<leftarrow> pair_up leftp left_valp left_size;
     right_pair \<leftarrow> pair_up rightp right_valp right_size;
     let out_pair = std_merge (\<lambda>left right. fst left < fst right) left_pair right_pair;
     out \<leftarrow> omap (\<lambda>i. do { p \<leftarrow> rd out_pair i; Some (fst p) }) [0..<left_size + right_size];
     out_val \<leftarrow> omap (\<lambda>i. do { p \<leftarrow> rd out_pair i; Some (snd p) }) [0..<left_size + right_size];
     Some (out, out_val) }"

definition set_merge_pair_desc_x86 ::
  "'a::linorder list \<Rightarrow> 'b list \<Rightarrow> nat \<Rightarrow> 'a list \<Rightarrow> 'b list \<Rightarrow> nat \<Rightarrow> ('a list \<times> 'b list) option" where
  "set_merge_pair_desc_x86 leftp left_valp left_size rightp right_valp right_size = do {
     left_pair \<leftarrow> pair_up leftp left_valp left_size;
     right_pair \<leftarrow> pair_up rightp right_valp right_size;
     let out_pair = std_merge (\<lambda>left right. fst left > fst right) left_pair right_pair;
     out \<leftarrow> omap (\<lambda>i. do { p \<leftarrow> rd out_pair i; Some (fst p) }) [0..<left_size + right_size];
     out_val \<leftarrow> omap (\<lambda>i. do { p \<leftarrow> rd out_pair i; Some (snd p) }) [0..<left_size + right_size];
     Some (out, out_val) }"

text \<open>Runs of equal keys; \<open>ret\<close> grows by push_back, so a cell appended is a list appended to.\<close>

definition set_separate_x86 :: "'a list \<Rightarrow> nat \<Rightarrow> nat list option" where
  "set_separate_x86 keyp sz =
     (if sz = 0 then Some [0]
      else do {
        current \<leftarrow> rd keyp 0;
        (current, ret) \<leftarrow> for_each (\<lambda>i (current, ret). do {
            k \<leftarrow> rd keyp i;
            if k \<noteq> current then Some (k, ret @ [i]) else Some (current, ret) }) [1..<sz] (current, [0]);
        Some (ret @ [sz]) })"

definition set_unique_x86 :: "'a list \<Rightarrow> nat \<Rightarrow> 'a list option" where
  "set_unique_x86 keyp sz =
     (if sz = 0 then Some []
      else do {
        current \<leftarrow> rd keyp 0;
        (current, ret) \<leftarrow> for_each (\<lambda>i (current, ret). do {
            k \<leftarrow> rd keyp i;
            if k \<noteq> current then Some (k, ret @ [k]) else Some (current, ret) }) [1..<sz] (current, [current]);
        Some ret })"

text \<open>The early \<open>return false\<close> leaves the loop: the flag \<open>ok\<close> stays false and no key is read any more.\<close>

definition set_is_unique_x86 :: "'a list \<Rightarrow> nat \<Rightarrow> bool option" where
  "set_is_unique_x86 keyp sz =
     (if sz = 0 then Some True
      else do {
        current \<leftarrow> rd keyp 0;
        (current, unique) \<leftarrow> for_each (\<lambda>i (current, unique).
            if unique then do {
              k \<leftarrow> rd keyp i;
              if k \<noteq> current then Some (k, True) else Some (current, False) }
            else Some (current, False)) [1..<sz] (current, True);
        Some unique })"

subsection \<open>Multi-way merges\<close>

text \<open>set_multimerge: \<open>merge2\<close> is the build's set_merge (or set_merge_desc) on two vectors.\<close>

definition multimerge_pass ::
  "('a list \<Rightarrow> 'a list \<Rightarrow> 'a list option) \<Rightarrow> nat \<Rightarrow> 'a list list \<Rightarrow> 'a list list option" where
  "multimerge_pass merge2 step key = do {
     (_, key) \<leftarrow> cwhile (\<lambda>(i, key). i < length key)
       (\<lambda>(i, key). do {
          key \<leftarrow> (if i + step < length key then do {
              a \<leftarrow> rd key i;
              b \<leftarrow> rd key (i + step);
              m \<leftarrow> merge2 a b;
              wr key i m }
            else Some key);
          Some (i + step * 2, key) })
       (0, key);
     Some key }"

definition set_multimerge ::
  "('a list \<Rightarrow> 'a list \<Rightarrow> 'a list option) \<Rightarrow> 'a list list \<Rightarrow> 'a list option" where
  "set_multimerge merge2 key = do {
     (_, key) \<leftarrow> cwhile (\<lambda>(step, key). step < length key)
       (\<lambda>(step, key). do { key \<leftarrow> multimerge_pass merge2 step key; Some (step * 2, key) })
       (1, key);
     rd key 0 }"

text \<open>set_multimerge_pair: recursion on the halves; \<open>ceil_div part_size 2\<close> parts go to the left.\<close>

function set_multimerge_pair ::
  "('a list \<Rightarrow> 'b list \<Rightarrow> 'a list \<Rightarrow> 'b list \<Rightarrow> ('a list \<times> 'b list) option) \<Rightarrow>
   ('a list \<times> 'b list) list \<Rightarrow> ('a list \<times> 'b list) option" where
  "set_multimerge_pair merge2 parts =
     (let part_size = length parts in
      if part_size = 0 then Some ([], [])
      else if part_size = 1 then Some (parts ! 0)
      else if part_size = 2 then
        merge2 (fst (parts ! 0)) (snd (parts ! 0)) (fst (parts ! 1)) (snd (parts ! 1))
      else do {
        let next_part_size = ceil_div part_size 2;
        left \<leftarrow> set_multimerge_pair merge2 (take next_part_size parts);
        right \<leftarrow> set_multimerge_pair merge2 (drop next_part_size parts);
        merge2 (fst left) (snd left) (fst right) (snd right) })"
  by pat_completeness auto
termination
proof (relation "measure (\<lambda>(_, parts). length parts)", goal_cases)
  case (2 merge2 parts part_size next_part_size)
  then have "(length parts + 1) div 2 < length parts" by linarith
  then show ?case using 2 by (simp add: ceil_div_2)
next
  case (3 merge2 parts part_size next_part_size left)
  then have "0 < (length parts + 1) div 2 \<and> 0 < length parts" by linarith
  then show ?case using 3 by (simp add: ceil_div_2)
qed simp

declare set_multimerge_pair.simps [simp del]

subsection \<open>What the algorithms compute\<close>

lemma mset_std_merge [simp]: "mset (std_merge lt xs ys) = mset xs + mset ys"
  by (induction lt xs ys rule: std_merge.induct) auto

lemma set_std_merge [simp]: "set (std_merge lt xs ys) = set xs \<union> set ys"
  using mset_std_merge [of lt xs ys] by (metis set_mset_mset set_mset_union)

lemma length_std_merge [simp]: "length (std_merge lt xs ys) = length xs + length ys"
  using mset_std_merge [of lt xs ys] by (metis size_mset size_union)

lemma sorted_std_merge:
  "sorted_wrt (\<lambda>x y. key x \<le> (key y :: 'k::linorder)) xs \<Longrightarrow> sorted_wrt (\<lambda>x y. key x \<le> key y) ys \<Longrightarrow>
   sorted_wrt (\<lambda>x y. key x \<le> key y) (std_merge (\<lambda>x y. key x < key y) xs ys)"
  by (induction "\<lambda>x y. key x < key y" xs ys rule: std_merge.induct) force+

lemma sorted_std_merge_desc:
  "sorted_wrt (\<lambda>x y. key x \<ge> (key y :: 'k::linorder)) xs \<Longrightarrow> sorted_wrt (\<lambda>x y. key x \<ge> key y) ys \<Longrightarrow>
   sorted_wrt (\<lambda>x y. key x \<ge> key y) (std_merge (\<lambda>x y. key x > key y) xs ys)"
  by (induction "\<lambda>x y. key x > key y" xs ys rule: std_merge.induct) force+

text \<open>Stability: among elements with one key the left ones come first, each side in its order.\<close>

lemma std_merge_stable:
  "sorted_wrt (\<lambda>x y. key x \<le> (key y :: 'k::linorder)) xs \<Longrightarrow>
   filter (\<lambda>x. key x = k) (std_merge (\<lambda>x y. key x < key y) xs ys)
     = filter (\<lambda>x. key x = k) xs @ filter (\<lambda>x. key x = k) ys"
proof (induction "\<lambda>x y. key x < key y" xs ys rule: std_merge.induct)
  case (3 x xs y ys)
  have "filter (\<lambda>z. key z = k) (x # xs) = []" if "key y < key x" "key y = k"
    using that 3(3) by (auto simp: filter_empty_conv)
  with 3 show ?case by auto
qed auto

lemma std_merge_desc_stable:
  "sorted_wrt (\<lambda>x y. key x \<ge> (key y :: 'k::linorder)) xs \<Longrightarrow>
   filter (\<lambda>x. key x = k) (std_merge (\<lambda>x y. key x > key y) xs ys)
     = filter (\<lambda>x. key x = k) xs @ filter (\<lambda>x. key x = k) ys"
proof (induction "\<lambda>x y. key x > key y" xs ys rule: std_merge.induct)
  case (3 x xs y ys)
  have "filter (\<lambda>z. key z = k) (x # xs) = []" if "key y > key x" "key y = k"
    using that 3(3) by (auto simp: filter_empty_conv)
  with 3 show ?case by auto
qed auto

lemma set_std_union: "set (std_set_union xs ys) \<subseteq> set xs \<union> set ys"
  by (induction xs ys rule: std_set_union.induct) auto

lemma set_std_intersection: "set (std_set_intersection xs ys) \<subseteq> set xs"
  by (induction xs ys rule: std_set_intersection.induct) auto

lemma set_std_difference: "set (std_set_difference xs ys) \<subseteq> set xs"
  by (induction xs ys rule: std_set_difference.induct) auto

lemma sorted_std_union: "sorted xs \<Longrightarrow> sorted ys \<Longrightarrow> sorted (std_set_union xs ys)"
proof (induction xs ys rule: std_set_union.induct)
  case (3 x xs y ys)
  note IH = "3.IH" and prems = "3.prems"
  consider (less) "y < x" | (equal) "\<not> y < x" "\<not> x < y" | (greater) "x < y" by blast
  then show ?case
  proof cases
    case less
    have "y \<le> z" if "z \<in> set (std_set_union (x # xs) ys)" for z
    proof -
      have "z = x \<or> z \<in> set xs \<or> z \<in> set ys" using that set_std_union [of "x # xs" ys] by auto
      then have "x \<le> z \<or> y \<le> z" using prems by auto
      then show ?thesis using less by auto
    qed
    then show ?thesis using less IH(1) prems by simp
  next
    case equal
    then have "x = y" by simp
    then have "x \<le> z" if "z \<in> set (std_set_union xs ys)" for z using that set_std_union [of xs ys] prems by auto
    then show ?thesis using equal IH(2) prems by simp
  next
    case greater
    have "x \<le> z" if "z \<in> set (std_set_union xs (y # ys))" for z
    proof -
      have "z = y \<or> z \<in> set xs \<or> z \<in> set ys" using that set_std_union [of xs "y # ys"] by auto
      then have "x \<le> z \<or> y \<le> z" using prems by auto
      then show ?thesis using greater by auto
    qed
    moreover have "\<not> y < x" using greater by simp
    ultimately show ?thesis using greater IH(3) prems by simp
  qed
qed auto

lemma sorted_std_intersection: "sorted xs \<Longrightarrow> sorted (std_set_intersection xs ys)"
proof (induction xs ys rule: std_set_intersection.induct)
  case (3 x xs y ys)
  then show ?case using set_std_intersection [of xs ys] by auto
qed auto

lemma sorted_std_difference: "sorted xs \<Longrightarrow> sorted (std_set_difference xs ys)"
proof (induction xs ys rule: std_set_difference.induct)
  case (3 x xs y ys)
  then show ?case using set_std_difference [of xs "y # ys"] by auto
qed auto

lemma count_less_head: "sorted (x # xs) \<Longrightarrow> y < x \<Longrightarrow> count (mset xs) y = 0"
  by (auto simp: count_eq_zero_iff)

lemma count_std_union:
  "sorted xs \<Longrightarrow> sorted ys \<Longrightarrow> count (mset (std_set_union xs ys)) z = max (count (mset xs) z) (count (mset ys) z)"
proof (induction xs ys rule: std_set_union.induct)
  case (3 x xs y ys)
  then show ?case
    using count_less_head [of x xs y] count_less_head [of y ys x] by (cases "y < x"; cases "x < y") (auto simp del: count_mset_0_iff count_eq_zero_iff)
qed auto

lemma count_std_intersection:
  "sorted xs \<Longrightarrow> sorted ys \<Longrightarrow> count (mset (std_set_intersection xs ys)) z = min (count (mset xs) z) (count (mset ys) z)"
proof (induction xs ys rule: std_set_intersection.induct)
  case (3 x xs y ys)
  then show ?case
    using count_less_head [of x xs y] count_less_head [of y ys x] by (cases "y < x"; cases "x < y") (auto simp del: count_mset_0_iff count_eq_zero_iff)
qed auto

lemma count_std_difference:
  "sorted xs \<Longrightarrow> sorted ys \<Longrightarrow> count (mset (std_set_difference xs ys)) z = count (mset xs) z - count (mset ys) z"
proof (induction xs ys rule: std_set_difference.induct)
  case (3 x xs y ys)
  then show ?case
    using count_less_head [of x xs y] count_less_head [of y ys x] by (cases "y < x"; cases "x < y") (auto simp del: count_mset_0_iff count_eq_zero_iff)
qed auto

subsection \<open>Pairs and runs\<close>

lemma pair_up_eq:
  assumes "n \<le> length keyp" "n \<le> length valp"
  shows "pair_up keyp valp n = Some (zip (take n keyp) (take n valp))"
proof -
  have "omap (\<lambda>i. do { k \<leftarrow> rd keyp i; v \<leftarrow> rd valp i; Some (k, v) }) [0..<n]
    = Some (map (\<lambda>i. (keyp ! i, valp ! i)) [0..<n])"
    by (rule omap_Some) (use assms in simp)
  moreover have "map (\<lambda>i. (keyp ! i, valp ! i)) [0..<n] = zip (take n keyp) (take n valp)"
    using assms by (intro nth_equalityI) simp_all
  ultimately show ?thesis by (simp add: pair_up_def)
qed

lemma omap_project: "n = length ps \<Longrightarrow> omap (\<lambda>i. do { p \<leftarrow> rd ps i; Some (f p) }) [0..<n] = Some (map f ps)"
  by (subst omap_Some [where g = "\<lambda>i. f (ps ! i)"]) (auto intro: nth_equalityI)

lemma set_merge_pair_x86_eq:
  assumes "m \<le> length lk" "m \<le> length lv" "n \<le> length rk" "n \<le> length rv"
  shows "set_merge_pair_x86 lk lv m rk rv n =
    (let ps = std_merge (\<lambda>p q. fst p < fst q) (zip (take m lk) (take m lv)) (zip (take n rk) (take n rv))
     in Some (map fst ps, map snd ps))"
  using assms unfolding set_merge_pair_x86_def pair_up_eq [OF assms(1,2)] pair_up_eq [OF assms(3,4)]
  by (simp add: omap_project Let_def)

lemma set_merge_pair_desc_x86_eq:
  assumes "m \<le> length lk" "m \<le> length lv" "n \<le> length rk" "n \<le> length rv"
  shows "set_merge_pair_desc_x86 lk lv m rk rv n =
    (let ps = std_merge (\<lambda>p q. fst p > fst q) (zip (take m lk) (take m lv)) (zip (take n rk) (take n rv))
     in Some (map fst ps, map snd ps))"
  using assms unfolding set_merge_pair_desc_x86_def pair_up_eq [OF assms(1,2)] pair_up_eq [OF assms(3,4)]
  by (simp add: omap_project Let_def)

text \<open>The positions where a new key starts.\<close>

definition key_starts :: "'a list \<Rightarrow> nat \<Rightarrow> nat \<Rightarrow> nat list" where
  "key_starts ks lo hi = filter (\<lambda>i. ks ! i \<noteq> ks ! (i - 1)) [lo..<hi]"

lemma key_starts_Suc: "lo \<le> i \<Longrightarrow>
  key_starts ks lo (Suc i) = key_starts ks lo i @ (if ks ! i \<noteq> ks ! (i - 1) then [i] else [])"
  by (simp add: key_starts_def)

lemma key_starts_Nil [simp]: "key_starts ks lo lo = []"
  by (simp add: key_starts_def)

lemma key_starts_append: "lo \<le> m \<Longrightarrow> m \<le> hi \<Longrightarrow> key_starts ks lo m @ key_starts ks m hi = key_starts ks lo hi"
  unfolding key_starts_def filter_append [symmetric] by (metis le_add_diff_inverse upt_add_eq_append)

lemma set_separate_x86_eq:
  "set_separate_x86 ks (length ks) =
   Some (if ks = [] then [0] else 0 # key_starts ks 1 (length ks) @ [length ks])"
proof (cases "ks = []")
  case True
  then show ?thesis by (simp add: set_separate_x86_def)
next
  case False
  let ?I = "\<lambda>i (c, r). c = ks ! (i - 1) \<and> r = 0 # key_starts ks 1 i"
  have "ok (for_each (\<lambda>i (current, ret). do {
            k \<leftarrow> rd ks i;
            if k \<noteq> current then Some (k, ret @ [i]) else Some (current, ret) }) [1..<length ks] (ks ! 0, [0]))
       (?I (length ks))"
    by (rule ok_for_range [where I = ?I]) (use False in \<open>auto simp: ok_simps key_starts_Suc Suc_le_eq\<close>)
  then show ?thesis using False by (auto simp: set_separate_x86_def ok_iff_ex)
qed

lemma remdups_adj_snoc:
  "xs \<noteq> [] \<Longrightarrow> remdups_adj (xs @ [y]) = remdups_adj xs @ (if y = last xs then [] else [y])"
  by (induction xs rule: remdups_adj.induct) auto

lemma last_take_nth: "0 < i \<Longrightarrow> i \<le> length ks \<Longrightarrow> last (take i ks) = ks ! (i - 1)"
  by (subst last_conv_nth) auto

lemma key_starts_map_nth:
  "0 < i \<Longrightarrow> i \<le> length ks \<Longrightarrow> ks ! 0 # map ((!) ks) (key_starts ks 1 i) = remdups_adj (take i ks)"
proof (induction i)
  case (Suc i)
  show ?case
  proof (cases "i = 0")
    case True
    then show ?thesis using Suc.prems by (cases ks) simp_all
  next
    case False
    then have "remdups_adj (take (Suc i) ks) = remdups_adj (take i ks) @ (if ks ! i = ks ! (i - 1) then [] else [ks ! i])"
      using Suc.prems by (subst take_Suc_conv_app_nth, simp, subst remdups_adj_snoc) (auto simp: last_take_nth)
    then show ?thesis using Suc False by (simp add: key_starts_Suc Suc_le_eq)
  qed
qed simp

lemma set_unique_x86_eq: "set_unique_x86 ks (length ks) = Some (remdups_adj ks)"
proof (cases "ks = []")
  case True
  then show ?thesis by (simp add: set_unique_x86_def)
next
  case False
  let ?I = "\<lambda>i (c, r). c = ks ! (i - 1) \<and> r = ks ! 0 # map ((!) ks) (key_starts ks 1 i)"
  have "ok (for_each (\<lambda>i (current, ret). do {
            k \<leftarrow> rd ks i;
            if k \<noteq> current then Some (k, ret @ [k]) else Some (current, ret) }) [1..<length ks] (ks ! 0, [ks ! 0]))
       (?I (length ks))"
    by (rule ok_for_range [where I = ?I]) (use False in \<open>auto simp: ok_simps key_starts_Suc Suc_le_eq\<close>)
  then show ?thesis
    using False key_starts_map_nth [of "length ks" ks] by (auto simp: set_unique_x86_def ok_iff_ex)
qed

lemma set_is_unique_x86_eq:
  "set_is_unique_x86 ks (length ks) = Some (key_starts ks 1 (length ks) = [1..<length ks])"
proof (cases "ks = []")
  case True
  then show ?thesis by (simp add: set_is_unique_x86_def key_starts_def)
next
  case False
  let ?I = "\<lambda>i (c, u). u = (\<forall>j. 1 \<le> j \<and> j < i \<longrightarrow> ks ! j \<noteq> ks ! (j - 1)) \<and> (u \<longrightarrow> c = ks ! (i - 1))"
  have "ok (for_each (\<lambda>i (current, unique).
            if unique then do {
              k \<leftarrow> rd ks i;
              if k \<noteq> current then Some (k, True) else Some (current, False) }
            else Some (current, False)) [1..<length ks] (ks ! 0, True)) (?I (length ks))"
    by (rule ok_for_range [where I = ?I])
      (use False in \<open>auto simp: ok_simps less_Suc_eq Suc_le_eq split: prod.splits\<close>)
  then show ?thesis
    using False by (auto simp: set_is_unique_x86_def ok_iff_ex key_starts_def filter_id_conv)
qed

subsection \<open>The multi-way merges\<close>

text \<open>What set_multimerge needs of the two-way merge it is built on.\<close>

locale two_way_merge =
  fixes merge2 :: "'a list \<Rightarrow> 'a list \<Rightarrow> 'a list option" and inv :: "'a list \<Rightarrow> bool"
  assumes merge2: "inv a \<Longrightarrow> inv b \<Longrightarrow> ok (merge2 a b) (\<lambda>m. inv m \<and> mset m = mset a + mset b)"
begin

text \<open>The vectors that still count: below \<open>i\<close> the multiples of \<open>2 * step\<close>, from \<open>i\<close> on those of \<open>step\<close>.\<close>

definition live :: "nat \<Rightarrow> nat \<Rightarrow> nat \<Rightarrow> nat set" where
  "live step n i = {j. j < n \<and> (if j < i then 2 * step dvd j else step dvd j)}"

lemma finite_live [simp]: "finite (live step n i)"
  by (rule finite_subset [of _ "{..<n}"]) (auto simp: live_def)

lemma live_next:
  assumes "0 < step" "2 * step dvd i" "i < n"
  shows "live step n i = (if i + step < n then insert (i + step) (live step n (i + step * 2)) else live step n (i + step * 2))"
    and "i + step \<notin> live step n (i + step * 2)" "i \<in> live step n (i + step * 2)"
proof -
  have near: "j = i \<or> j = i + step" if "step dvd j" "i \<le> j" "j < i + step * 2" for j
  proof -
    obtain a where "i = 2 * step * a" using assms(2) by (rule dvdE)
    obtain b where "j = step * b" using \<open>step dvd j\<close> by (rule dvdE)
    then have "step * (2 * a) \<le> step * b" "step * b < step * (2 * a + 2)"
      using that \<open>i = 2 * step * a\<close> by (simp_all add: algebra_simps)
    then have "2 * a \<le> b" "b < 2 * a + 2" using assms by (auto simp only: mult_le_cancel1 mult_less_cancel1)
    then have "b = 2 * a \<or> b = 2 * a + 1" by linarith
    then show ?thesis using \<open>i = _\<close> \<open>j = _\<close> by auto
  qed
  have not: "\<not> 2 * step dvd i + step" using assms by (auto simp: dvd_add_right_iff)
  have si: "step dvd i" using assms by (meson dvd_mult_right dvd_trans dvd_triv_right)
  then have si': "step dvd i + step" by simp
  have double: "2 * step dvd j \<Longrightarrow> step dvd j" for j by (meson dvd_trans dvd_triv_right)
  show "i + step \<notin> live step n (i + step * 2)" using not assms by (simp add: live_def)
  show "i \<in> live step n (i + step * 2)" using assms by (simp add: live_def)
  show "live step n i = (if i + step < n then insert (i + step) (live step n (i + step * 2)) else live step n (i + step * 2))"
  proof (rule set_eqI)
    fix j
    consider "j < i" | "j = i" | "j = i + step" | "i \<le> j" "j < i + step * 2" "\<not> step dvd j" | "i + step * 2 \<le> j"
      using near [of j] by linarith
    then show "j \<in> live step n i \<longleftrightarrow>
      j \<in> (if i + step < n then insert (i + step) (live step n (i + step * 2)) else live step n (i + step * 2))"
      using not si si' assms double [of j] by cases (auto simp: live_def)
  qed
qed

definition pass_inv :: "nat \<Rightarrow> nat \<Rightarrow> 'a multiset \<Rightarrow> nat \<times> 'a list list \<Rightarrow> bool" where
  "pass_inv step n tot st \<longleftrightarrow> length (snd st) = n \<and> 2 * step dvd fst st \<and> (\<forall>k\<in>set (snd st). inv k) \<and>
     (\<Sum>j\<in>live step n (fst st). mset (snd st ! j)) = tot"

lemma pass_step:
  assumes inv: "pass_inv step n tot (i, key)" and "0 < step" "i < n"
  shows "ok (do { key \<leftarrow> (if i + step < length key then do {
              a \<leftarrow> rd key i; b \<leftarrow> rd key (i + step); m \<leftarrow> merge2 a b; wr key i m } else Some key);
          Some (i + step * 2, key) }) (pass_inv step n tot)"
proof (cases "i + step < n")
  case True
  have i: "2 * step dvd i" and len: "length key = n" and sum: "(\<Sum>j\<in>live step n i. mset (key ! j)) = tot"
    using inv by (simp_all add: pass_inv_def)
  note nx = live_next [OF \<open>0 < step\<close> i \<open>i < n\<close>]
  have "inv (key ! i)" "inv (key ! (i + step))" using inv True by (auto simp: pass_inv_def)
  from merge2 [OF this] obtain m where m: "merge2 (key ! i) (key ! (i + step)) = Some m" "inv m"
    "mset m = mset (key ! i) + mset (key ! (i + step))" by (auto simp: ok_iff_ex)
  let ?L = "live step n (i + step * 2)"
  have "(\<Sum>j\<in>?L. mset (key[i := m] ! j)) = mset m + (\<Sum>j\<in>?L - {i}. mset (key ! j))"
    using nx(3) len \<open>i < n\<close> by (subst sum.remove [of _ i]) (auto intro!: sum.cong)
  also have "\<dots> = mset (key ! (i + step)) + (\<Sum>j\<in>?L. mset (key ! j))"
    using nx(3) m(3) by (subst (2) sum.remove [of _ i]) (simp_all add: ac_simps)
  also have "\<dots> = tot" using sum nx True by simp
  finally show ?thesis
    using True m len inv \<open>i < n\<close> by (auto simp: ok_simps pass_inv_def dest!: set_update_subset_insert [THEN subsetD])
next
  case False
  then show ?thesis using inv live_next [of step i n] assms by (simp add: pass_inv_def)
qed

lemma multimerge_pass_ok:
  assumes "pass_inv step n tot (0, key)" "0 < step"
  shows "ok (multimerge_pass merge2 step key) (\<lambda>key'. pass_inv (step * 2) n tot (0, key'))"
proof -
  have "ok (cwhile (\<lambda>(i, key). i < length key)
       (\<lambda>(i, key). do {
          key \<leftarrow> (if i + step < length key then do {
              a \<leftarrow> rd key i; b \<leftarrow> rd key (i + step); m \<leftarrow> merge2 a b; wr key i m } else Some key);
          Some (i + step * 2, key) }) (0, key))
     (\<lambda>st. pass_inv step n tot st \<and> n \<le> fst st)"
  proof (rule ok_while [where I = "pass_inv step n tot" and m = "\<lambda>st. n - fst st"])
    fix st
    assume st: "pass_inv step n tot st" and c: "(case st of (i, key) \<Rightarrow> i < length key)"
    obtain i k where [simp]: "st = (i, k)" by (cases st)
    have "i < n" using st c by (simp add: pass_inv_def)
    from pass_step [OF _ \<open>0 < step\<close> this, of tot k] st
    show "ok (case st of (i, key) \<Rightarrow> do {
          key \<leftarrow> (if i + step < length key then do {
              a \<leftarrow> rd key i; b \<leftarrow> rd key (i + step); m \<leftarrow> merge2 a b; wr key i m } else Some key);
          Some (i + step * 2, key) }) (\<lambda>st'. pass_inv step n tot st' \<and> n - fst st' < n - fst st)"
      using \<open>i < n\<close> \<open>0 < step\<close> by (auto simp: ok_iff_ex bind_eq_Some_conv)
  qed (use assms in \<open>auto simp: pass_inv_def\<close>)
  moreover have "pass_inv (step * 2) n tot (0, key')" if "pass_inv step n tot (i, key')" "n \<le> i" for i key'
  proof -
    have "live step n i = live (step * 2) n 0" using that(2) by (auto simp: live_def mult.commute)
    then show ?thesis using that by (simp add: pass_inv_def)
  qed
  ultimately show ?thesis by (auto simp: multimerge_pass_def ok_bind elim!: ok_mono)
qed

lemma multimerge_ok:
  assumes "key \<noteq> []" "\<forall>k\<in>set key. inv k"
  shows "ok (set_multimerge merge2 key) (\<lambda>m. inv m \<and> mset m = (\<Sum>k\<leftarrow>key. mset k))"
proof -
  let ?n = "length key" and ?t = "\<Sum>k\<leftarrow>key. mset k"
  let ?I = "\<lambda>st. 0 < fst st \<and> pass_inv (fst st) ?n ?t (0, snd st)"
  have "ok (cwhile (\<lambda>(step, key). step < length key)
       (\<lambda>(step, key). do { key \<leftarrow> multimerge_pass merge2 step key; Some (step * 2, key) }) (1, key))
     (\<lambda>st. ?I st \<and> ?n \<le> fst st)"
  proof (rule ok_while [where I = ?I and m = "\<lambda>st. ?n - fst st"])
    have "live 1 ?n 0 = {..<?n}" by (auto simp: live_def)
    then show "?I (1, key)"
      using assms by (simp add: pass_inv_def sum_list_sum_nth atLeast0LessThan)
    fix st
    assume "?I st" "case st of (step, key) \<Rightarrow> step < length key"
    then show "ok (case st of (step, key) \<Rightarrow> do { key \<leftarrow> multimerge_pass merge2 step key; Some (step * 2, key) })
        (\<lambda>st'. ?I st' \<and> ?n - fst st' < ?n - fst st)"
      using multimerge_pass_ok [of "fst st" ?n ?t "snd st"]
      by (auto simp: ok_bind pass_inv_def split: prod.splits elim!: ok_mono)
  qed (auto simp: pass_inv_def)
  then obtain step k where sk: "cwhile (\<lambda>(step, key). step < length key)
       (\<lambda>(step, key). do { key \<leftarrow> multimerge_pass merge2 step key; Some (step * 2, key) }) (1, key) = Some (step, k)"
    "0 < step" "pass_inv step ?n ?t (0, k)" "?n \<le> step"
    by (auto simp: ok_iff_ex)
  have "live step ?n 0 = {0}" using sk(2,4) assms(1) by (auto simp: live_def dest: dvd_imp_le)
  then have "mset (k ! 0) = ?t" "0 < length k" "inv (k ! 0)"
    using sk(3) assms(1) by (auto simp: pass_inv_def)
  then show ?thesis unfolding set_multimerge_def sk(1) by simp
qed

end

interpretation x86_merge: two_way_merge "\<lambda>a b. Some (set_merge_x86 a b)" sorted
  by unfold_locales (use sorted_std_merge [of "\<lambda>x. x"] in \<open>simp add: set_merge_x86_def\<close>)

interpretation x86_merge_desc: two_way_merge "\<lambda>a b. Some (set_merge_desc_x86 a b)" "sorted_wrt (\<ge>)"
  by unfold_locales (use sorted_std_merge_desc [of "\<lambda>x. x"] in \<open>simp add: set_merge_desc_x86_def\<close>)

text \<open>The recursive merge of pairs: the parts are vectors of keys and of values of one length.\<close>

definition part_ok :: "('a \<Rightarrow> 'a \<Rightarrow> bool) \<Rightarrow> 'a list \<times> 'b list \<Rightarrow> bool" where
  "part_ok ord p \<longleftrightarrow> length (fst p) = length (snd p) \<and> sorted_wrt ord (fst p)"

abbreviation pairs :: "'a list \<times> 'b list \<Rightarrow> ('a \<times> 'b) list" where
  "pairs p \<equiv> zip (fst p) (snd p)"

locale pair_merge =
  fixes merge2 :: "'a list \<Rightarrow> 'b list \<Rightarrow> 'a list \<Rightarrow> 'b list \<Rightarrow> ('a list \<times> 'b list) option"
    and ord :: "'a \<Rightarrow> 'a \<Rightarrow> bool"
  assumes merge2: "part_ok ord p \<Longrightarrow> part_ok ord q \<Longrightarrow> ok (merge2 (fst p) (snd p) (fst q) (snd q))
    (\<lambda>m. part_ok ord m \<and> mset (pairs m) = mset (pairs p) + mset (pairs q) \<and>
      (\<forall>k. filter (\<lambda>x. fst x = k) (pairs m) = filter (\<lambda>x. fst x = k) (pairs p) @ filter (\<lambda>x. fst x = k) (pairs q)))"
begin

definition merged :: "('a list \<times> 'b list) list \<Rightarrow> 'a list \<times> 'b list \<Rightarrow> bool" where
  "merged parts m \<longleftrightarrow> part_ok ord m \<and> mset (pairs m) = (\<Sum>p\<leftarrow>parts. mset (pairs p)) \<and>
     (\<forall>k. filter (\<lambda>x. fst x = k) (pairs m) = concat (map (\<lambda>p. filter (\<lambda>x. fst x = k) (pairs p)) parts))"

lemma merge2_merged:
  assumes "merged ps p" "merged qs q"
  shows "ok (merge2 (fst p) (snd p) (fst q) (snd q)) (merged (ps @ qs))"
  using merge2 [of p q] assms by (auto simp: merged_def elim!: ok_mono)

lemma merged_one: "part_ok ord p \<Longrightarrow> merged [p] p"
  by (simp add: merged_def)

lemma multimerge_pair_ok:
  "\<forall>p\<in>set parts. part_ok ord p \<Longrightarrow> ok (set_multimerge_pair merge2 parts) (merged parts)"
proof (induction parts rule: length_induct)
  case (1 parts)
  let ?n = "length parts"
  consider "?n = 0" | "?n = 1" | "?n = 2" | "2 < ?n" by linarith
  then show ?case
  proof cases
    case 1
    then show ?thesis by (simp add: set_multimerge_pair.simps merged_def part_ok_def)
  next
    case 2
    then obtain p where "parts = [p]" by (metis One_nat_def length_0_conv length_Suc_conv)
    then show ?thesis using "1.prems" by (simp add: set_multimerge_pair.simps merged_one)
  next
    case 3
    then obtain p q where "parts = [p, q]"
      by (metis (no_types, opaque_lifting) Suc_1 length_0_conv length_Suc_conv One_nat_def)
    then show ?thesis using "1.prems" merge2_merged [of "[p]" p "[q]" q]
      by (simp add: set_multimerge_pair.simps merged_one)
  next
    case 4
    define h where "h = (?n + 1) div 2"
    have h: "length (take h parts) < ?n" "length (drop h parts) < ?n" using 4 by (simp_all add: h_def)
    have "\<forall>p\<in>set (take h parts). part_ok ord p" "\<forall>p\<in>set (drop h parts). part_ok ord p"
      using "1.prems" by (auto dest: in_set_takeD in_set_dropD)
    then have "ok (set_multimerge_pair merge2 (take h parts)) (merged (take h parts))"
      "ok (set_multimerge_pair merge2 (drop h parts)) (merged (drop h parts))"
      using "1.IH" h by blast+
    then obtain l r where "set_multimerge_pair merge2 (take h parts) = Some l" "merged (take h parts) l"
      "set_multimerge_pair merge2 (drop h parts) = Some r" "merged (drop h parts) r"
      by (auto simp: ok_iff_ex)
    moreover have "set_multimerge_pair merge2 parts = do {
        left \<leftarrow> set_multimerge_pair merge2 (take h parts);
        right \<leftarrow> set_multimerge_pair merge2 (drop h parts);
        merge2 (fst left) (snd left) (fst right) (snd right) }"
    proof -
      have "?n \<noteq> 0" "?n \<noteq> 1" "?n \<noteq> 2" using 4 by auto
      then show ?thesis by (subst set_multimerge_pair.simps) (simp only: Let_def if_False h_def ceil_div_2)
    qed
    ultimately show ?thesis using merge2_merged [of "take h parts" l "drop h parts" r] by simp
  qed
qed

end

lemma sorted_wrt_fst: "length ks = length vs \<Longrightarrow>
  sorted_wrt (\<lambda>p q. ord (fst p) (fst q)) (zip ks vs) = sorted_wrt ord ks"
  using sorted_wrt_map [of ord fst "zip ks vs"] by simp

lemma zip_unzip [simp]: "zip (map fst m) (map snd m) = m"
  by (induction m) auto

interpretation x86_pair: pair_merge "\<lambda>lk lv rk rv. set_merge_pair_x86 lk lv (length lk) rk rv (length rk)"
  "(\<le>) :: 'a::linorder \<Rightarrow> 'a \<Rightarrow> bool"
proof unfold_locales
  fix p q :: "'a list \<times> 'b list"
  let ?m = "std_merge (\<lambda>p q. fst p < fst q) (pairs p) (pairs q)"
  assume p: "part_ok (\<le>) p" and q: "part_ok (\<le>) q"
  then have len: "length (fst p) \<le> length (snd p)" "length (fst q) \<le> length (snd q)"
    and all: "take (length (fst p)) (snd p) = snd p" "take (length (fst q)) (snd q) = snd q" by (simp_all add: part_ok_def)
  from p q have srt: "sorted_wrt (\<lambda>p q. fst p \<le> fst q) (pairs p)" "sorted_wrt (\<lambda>p q. fst p \<le> fst q) (pairs q)"
    by (simp_all add: part_ok_def sorted_wrt_fst)
  have "sorted_wrt (\<le>) (map fst ?m)"
    using sorted_std_merge [of fst, OF srt] by (simp add: sorted_wrt_map)
  then show "ok (set_merge_pair_x86 (fst p) (snd p) (length (fst p)) (fst q) (snd q) (length (fst q)))
    (\<lambda>m. part_ok (\<le>) m \<and> mset (pairs m) = mset (pairs p) + mset (pairs q) \<and>
      (\<forall>k. filter (\<lambda>x. fst x = k) (pairs m) = filter (\<lambda>x. fst x = k) (pairs p) @ filter (\<lambda>x. fst x = k) (pairs q)))"
    unfolding set_merge_pair_x86_eq [OF order_refl len(1) order_refl len(2)] Let_def
    using all std_merge_stable [of fst, OF srt(1)] by (simp add: part_ok_def)
qed

interpretation x86_pair_desc: pair_merge "\<lambda>lk lv rk rv. set_merge_pair_desc_x86 lk lv (length lk) rk rv (length rk)"
  "(\<ge>) :: 'a::linorder \<Rightarrow> 'a \<Rightarrow> bool"
proof unfold_locales
  fix p q :: "'a list \<times> 'b list"
  let ?m = "std_merge (\<lambda>p q. fst p > fst q) (pairs p) (pairs q)"
  assume p: "part_ok (\<ge>) p" and q: "part_ok (\<ge>) q"
  then have len: "length (fst p) \<le> length (snd p)" "length (fst q) \<le> length (snd q)"
    and all: "take (length (fst p)) (snd p) = snd p" "take (length (fst q)) (snd q) = snd q" by (simp_all add: part_ok_def)
  from p q have srt: "sorted_wrt (\<lambda>p q. fst p \<ge> fst q) (pairs p)" "sorted_wrt (\<lambda>p q. fst p \<ge> fst q) (pairs q)"
    by (simp_all add: part_ok_def sorted_wrt_fst [where ord = "(\<ge>)"])
  have "sorted_wrt (\<ge>) (map fst ?m)"
    using sorted_std_merge_desc [of fst, OF srt] by (simp add: sorted_wrt_map)
  then show "ok (set_merge_pair_desc_x86 (fst p) (snd p) (length (fst p)) (fst q) (snd q) (length (fst q)))
    (\<lambda>m. part_ok (\<ge>) m \<and> mset (pairs m) = mset (pairs p) + mset (pairs q) \<and>
      (\<forall>k. filter (\<lambda>x. fst x = k) (pairs m) = filter (\<lambda>x. fst x = k) (pairs p) @ filter (\<lambda>x. fst x = k) (pairs q)))"
    unfolding set_merge_pair_desc_x86_eq [OF order_refl len(1) order_refl len(2)] Let_def
    using all std_merge_desc_stable [of fst, OF srt(1)] by (simp add: part_ok_def)
qed

subsection \<open>Properties\<close>

text \<open>The scalar set operations (core/set_operations.hpp) on sorted arrays are the operations on
  multisets, and their results are sorted: the union takes the larger multiplicity, the
  intersection the smaller, the difference subtracts, the merge adds.\<close>
theorem set_operations_x86_multiset:
  assumes "sorted l" "sorted r"
  shows "(sorted (set_union_x86 l r) \<and> mset (set_union_x86 l r) = mset l \<union># mset r) \<and>
    (sorted (set_intersection_x86 l r) \<and> mset (set_intersection_x86 l r) = mset l \<inter># mset r) \<and>
    (sorted (set_difference_x86 l r) \<and> mset (set_difference_x86 l r) = mset l - mset r) \<and>
    (sorted (set_merge_x86 l r) \<and> mset (set_merge_x86 l r) = mset l + mset r)"
  using assms sorted_std_merge [of "\<lambda>x. x" l r]
  by (auto intro!: multiset_eqI simp: set_union_x86_def set_intersection_x86_def set_difference_x86_def
      set_merge_x86_def sorted_std_union sorted_std_intersection sorted_std_difference
      count_std_union count_std_intersection count_std_difference)

theorem set_operations_x86_multiset_witness:
  "mset (set_union_x86 [1, 2, 2, 5] [2, 3 :: nat]) = {#1, 2, 2, 5#} \<union># {#2, 3#}"
  using set_operations_x86_multiset [of "[1, 2, 2, 5]" "[2, 3 :: nat]"] by simp

text \<open>The scalar compactions: set_separate returns 0, the positions where a key differs from the one
  before it, and the size; set_unique keeps the first key of every run; set_is_unique says that no
  two neighbours are equal (on sorted keys: that there is no duplicate).\<close>
theorem set_compactions_x86:
  "set_separate_x86 ks (length ks) =
     Some (if ks = [] then [0] else 0 # filter (\<lambda>i. ks ! i \<noteq> ks ! (i - 1)) [1..<length ks] @ [length ks]) \<and>
   set_unique_x86 ks (length ks) = Some (remdups_adj ks) \<and>
   set_is_unique_x86 ks (length ks) = Some (filter (\<lambda>i. ks ! i \<noteq> ks ! (i - 1)) [1..<length ks] = [1..<length ks])"
  using set_separate_x86_eq [of ks] set_unique_x86_eq [of ks] set_is_unique_x86_eq [of ks]
  by (simp add: key_starts_def)



text \<open>C38. set_multimerge_pair with the scalar set_merge_pair: for any number of parts sorted by key the
  recursion on halves returns keys in order with their values, and it is stable: the values of a key
  come part after part, in each part's order.\<close>
theorem set_multimerge_pair_stable:
  assumes "\<forall>p\<in>set parts. length (fst p) = length (snd p) \<and> sorted (fst p)"
  shows "\<exists>m. set_multimerge_pair (\<lambda>lk lv rk rv. set_merge_pair_x86 lk lv (length lk) rk rv (length rk)) parts = Some m \<and>
    length (fst m) = length (snd m) \<and> sorted (fst m) \<and>
    mset (zip (fst m) (snd m)) = (\<Sum>p\<leftarrow>parts. mset (zip (fst p) (snd p))) \<and>
    (\<forall>k. filter (\<lambda>x. fst x = k) (zip (fst m) (snd m))
       = concat (map (\<lambda>p. filter (\<lambda>x. fst x = k) (zip (fst p) (snd p))) parts))"
  using x86_pair.multimerge_pair_ok [of parts] assms
  by (auto simp: ok_iff_ex part_ok_def x86_pair.merged_def)

theorem set_multimerge_pair_stable_witness:
  "\<exists>m. set_multimerge_pair (\<lambda>lk lv rk rv. set_merge_pair_x86 lk lv (length lk) rk rv (length rk))
     [([1, 3 :: nat], ''ab''), ([3], ''c''), ([0, 3], ''de'')] = Some m \<and>
   filter (\<lambda>x. fst x = 3) (zip (fst m) (snd m)) = [(3, CHR ''b''), (3, CHR ''c''), (3, CHR ''e'')]"
proof -
  let ?p = "[([1, 3 :: nat], ''ab''), ([3], ''c''), ([0, 3], ''de'')]"
  have "\<forall>p\<in>set ?p. length (fst p) = length (snd p) \<and> sorted (fst p)" by simp
  from set_multimerge_pair_stable [OF this] obtain m where
    "set_multimerge_pair (\<lambda>lk lv rk rv. set_merge_pair_x86 lk lv (length lk) rk rv (length rk)) ?p = Some m"
    "filter (\<lambda>x. fst x = 3) (zip (fst m) (snd m)) = concat (map (\<lambda>p. filter (\<lambda>x. fst x = 3) (zip (fst p) (snd p))) ?p)"
    by blast
  then show ?thesis by auto
qed

end
