(* ===== verification/Bounds.thy ===== *)
theory Bounds
  imports Prelude
begin

text \<open>
  core/lower_bound.hpp and core/upper_bound.hpp: binary search of many values at once.  The values
  are handled in blocks of VLEN (plus a shorter last block); the searches of a block advance in
  lockstep, one halving per round, for a fixed number of rounds computed from the size of the
  sorted vector.  The four routines (lower/upper, ascending/descending) differ in the comparison
  that sends a search to the left half; it is the argument \<open>left\<close> of the search.
\<close>

subsection \<open>The code\<close>

text \<open>\<open>max_iter = 0; tmp = n; while(tmp >>= 1) ++max_iter; max_iter++;\<close>\<close>

fun log_iter :: "nat \<Rightarrow> nat" where
  "log_iter tmp = (if tmp div 2 \<noteq> 0 then Suc (log_iter (tmp div 2)) else 0)"

declare log_iter.simps [simp del]

definition max_iter :: "nat \<Rightarrow> nat" where
  "max_iter n = log_iter n + 1"

text \<open>One search of one round: lane \<open>k\<close> of the block.\<close>

definition bound_lane ::
  "('v \<Rightarrow> 'a \<Rightarrow> bool) \<Rightarrow> 'a list \<Rightarrow> 'v list \<Rightarrow> nat \<Rightarrow> nat list \<times> nat list \<Rightarrow> (nat list \<times> nat list) option" where
  "bound_lane left srt values k st = do {
     let (low, high) = st;
     l \<leftarrow> rd low k;
     h \<leftarrow> rd high k;
     if l < h then do {
       let mid = (l + h) div 2;
       v \<leftarrow> rd values k;
       x \<leftarrow> rd srt mid;
       if left v x then do { high' \<leftarrow> wr high k mid; Some (low, high') }
       else do { low' \<leftarrow> wr low k (mid + 1); Some (low', high) }
     } else Some (low, high) }"

definition bound_block :: "('v \<Rightarrow> 'a \<Rightarrow> bool) \<Rightarrow> 'a list \<Rightarrow> 'v list \<Rightarrow> nat list option" where
  "bound_block left srt values = do {
     (low, high) \<leftarrow> for_each (\<lambda>j. for_each (bound_lane left srt values) [0..<length values])
       [0..<max_iter (length srt)]
       (replicate (length values) 0, replicate (length values) (length srt));
     Some low }"

text \<open>The whole routine; \<open>ret\<close> is the caller's output array.\<close>

definition bound_search ::
  "nat \<Rightarrow> ('v \<Rightarrow> 'a \<Rightarrow> bool) \<Rightarrow> 'a list \<Rightarrow> 'v list \<Rightarrow> nat list \<Rightarrow> nat list option" where
  "bound_search VLEN left srt to_find ret = do {
     let block_size = length to_find div VLEN;
     let rest = length to_find mod VLEN;
     ret \<leftarrow> for_each (\<lambda>i ret. do {
         let offset = i * VLEN;
         values \<leftarrow> rd_block to_find offset VLEN;
         low \<leftarrow> bound_block left srt values;
         copy_cells low 0 ret offset VLEN }) [0..<block_size] ret;
     let offset = block_size * VLEN;
     values \<leftarrow> rd_block to_find offset rest;
     low \<leftarrow> bound_block left srt values;
     copy_cells low 0 ret offset rest }"

definition bound_vlen_ve :: nat where "bound_vlen_ve = 2048"
definition bound_vlen_x86 :: nat where "bound_vlen_x86 = 4"

definition lower_bound :: "nat \<Rightarrow> 'a::linorder list \<Rightarrow> 'a list \<Rightarrow> nat list \<Rightarrow> nat list option" where
  "lower_bound VLEN = bound_search VLEN (\<lambda>v x. v \<le> x)"

definition lower_bound_desc :: "nat \<Rightarrow> 'a::linorder list \<Rightarrow> 'a list \<Rightarrow> nat list \<Rightarrow> nat list option" where
  "lower_bound_desc VLEN = bound_search VLEN (\<lambda>v x. v \<ge> x)"

definition upper_bound :: "nat \<Rightarrow> 'a::linorder list \<Rightarrow> 'a list \<Rightarrow> nat list \<Rightarrow> nat list option" where
  "upper_bound VLEN = bound_search VLEN (\<lambda>v x. \<not> v \<ge> x)"

definition upper_bound_desc :: "nat \<Rightarrow> 'a::linorder list \<Rightarrow> 'a list \<Rightarrow> nat list \<Rightarrow> nat list option" where
  "upper_bound_desc VLEN = bound_search VLEN (\<lambda>v x. \<not> v \<le> x)"

text \<open>The overloads on vectors.\<close>

definition lower_bound_vec :: "nat \<Rightarrow> 'a::linorder list \<Rightarrow> 'a list \<Rightarrow> nat list option" where
  "lower_bound_vec VLEN srt to_find =
     (let ret = replicate (length to_find) 0 in
      if length to_find = 0 \<or> length srt = 0 then Some ret else lower_bound VLEN srt to_find ret)"

definition lower_bound_desc_vec :: "nat \<Rightarrow> 'a::linorder list \<Rightarrow> 'a list \<Rightarrow> nat list option" where
  "lower_bound_desc_vec VLEN srt to_find =
     (let ret = replicate (length to_find) 0 in
      if length to_find = 0 \<or> length srt = 0 then Some ret else lower_bound_desc VLEN srt to_find ret)"

definition upper_bound_vec :: "nat \<Rightarrow> 'a::linorder list \<Rightarrow> 'a list \<Rightarrow> nat list option" where
  "upper_bound_vec VLEN srt to_find =
     (let ret = replicate (length to_find) 0 in
      if length to_find = 0 \<or> length srt = 0 then Some ret else upper_bound VLEN srt to_find ret)"

definition upper_bound_desc_vec :: "nat \<Rightarrow> 'a::linorder list \<Rightarrow> 'a list \<Rightarrow> nat list option" where
  "upper_bound_desc_vec VLEN srt to_find =
     (let ret = replicate (length to_find) 0 in
      if length to_find = 0 \<or> length srt = 0 then Some ret else upper_bound_desc VLEN srt to_find ret)"

subsection \<open>The fixed number of rounds is enough\<close>

lemma log_iter_bound: "n < 2 ^ (log_iter n + 1)"
proof (induction n rule: log_iter.induct)
  case (1 n)
  show ?case
  proof (cases "n div 2 = 0")
    case True
    then show ?thesis by (subst log_iter.simps) auto
  next
    case False
    then have "n div 2 < 2 ^ (log_iter (n div 2) + 1)" using 1 by blast
    then show ?thesis using False by (subst log_iter.simps) simp
  qed
qed

lemma max_iter_bound: "n < 2 ^ max_iter n"
  using log_iter_bound [of n] by (simp add: max_iter_def)

subsection \<open>One search\<close>

definition bstep :: "('v \<Rightarrow> 'a \<Rightarrow> bool) \<Rightarrow> 'a list \<Rightarrow> 'v \<Rightarrow> nat \<times> nat \<Rightarrow> nat \<times> nat" where
  "bstep left srt v lh =
     (let (l, h) = lh; mid = (l + h) div 2 in
      if l < h then (if left v (srt ! mid) then (l, mid) else (mid + 1, h)) else (l, h))"

lemma bstep_range:
  "fst lh \<le> snd lh \<Longrightarrow> snd lh \<le> n \<Longrightarrow>
   fst (bstep left srt v lh) \<le> snd (bstep left srt v lh) \<and> snd (bstep left srt v lh) \<le> n"
  by (auto simp: bstep_def Let_def split: prod.splits if_splits)

lemma bsteps_range:
  "fst ((bstep left srt v ^^ j) (0, n)) \<le> snd ((bstep left srt v ^^ j) (0, n)) \<and>
   snd ((bstep left srt v ^^ j) (0, n)) \<le> n"
proof (induction j)
  case (Suc j)
  then show ?case using bstep_range [of "(bstep left srt v ^^ j) (0, n)" n left srt v] by simp
qed simp

lemma bstep_halves:
  "snd (bstep left srt v lh) - fst (bstep left srt v lh) \<le> (snd lh - fst lh) div 2"
  by (auto simp: bstep_def Let_def split: prod.splits)

lemma bsteps_halve:
  "snd ((bstep left srt v ^^ j) (0, n)) - fst ((bstep left srt v ^^ j) (0, n)) \<le> n div 2 ^ j"
proof (induction j)
  case 0
  then show ?case by simp
next
  case (Suc j)
  have "snd ((bstep left srt v ^^ Suc j) (0, n)) - fst ((bstep left srt v ^^ Suc j) (0, n)) \<le> n div 2 ^ j div 2"
    using bstep_halves [of left srt v "(bstep left srt v ^^ j) (0, n)"] div_le_mono [OF Suc, of 2]
    by (metis (no_types, lifting) comp_apply funpow.simps(2) order_trans)
  moreover have "n div 2 ^ j div 2 = n div 2 ^ Suc j" by (metis div_mult2_eq power_Suc2)
  ultimately show ?case by simp
qed

lemma bsteps_done:
  "fst ((bstep left srt v ^^ max_iter n) (0, n)) = snd ((bstep left srt v ^^ max_iter n) (0, n))"
proof -
  have "n div 2 ^ max_iter n = 0" using max_iter_bound by simp
  then show ?thesis
    using bsteps_halve [where j = "max_iter n" and n = n and left = left and srt = srt and v = v]
      bsteps_range [where j = "max_iter n" and n = n and left = left and srt = srt and v = v] by linarith
qed

definition search1 :: "('v \<Rightarrow> 'a \<Rightarrow> bool) \<Rightarrow> 'a list \<Rightarrow> 'v \<Rightarrow> nat" where
  "search1 left srt v = fst ((bstep left srt v ^^ max_iter (length srt)) (0, length srt))"

subsection \<open>A block of searches\<close>

lemma bound_lane_eq:
  assumes "k < length vs" "length P = length vs"
    and "fst (P ! k) \<le> snd (P ! k)" "snd (P ! k) \<le> length srt"
  shows "bound_lane left srt vs k (map fst P, map snd P) =
    Some (map fst (P[k := bstep left srt (vs ! k) (P ! k)]),
          map snd (P[k := bstep left srt (vs ! k) (P ! k)]))"
proof -
  have "(fst (P ! k) + snd (P ! k)) div 2 < length srt" if "fst (P ! k) < snd (P ! k)"
    using that assms by linarith
  then show ?thesis using assms
    by (auto simp: bound_lane_def bstep_def Let_def map_update list_update_id split: prod.splits)
      (metis fst_conv length_map list_update_id nth_map snd_conv)+
qed

lemma bound_round:
  assumes "length P = length vs"
    and range: "\<And>k. k < length vs \<Longrightarrow> fst (P ! k) \<le> snd (P ! k) \<and> snd (P ! k) \<le> length srt"
  shows "for_each (bound_lane left srt vs) [0..<length vs] (map fst P, map snd P) =
    Some (map fst (map2 (bstep left srt) vs P), map snd (map2 (bstep left srt) vs P))"
proof -
  let ?Q = "\<lambda>k. take k (map2 (bstep left srt) vs P) @ drop k P"
  let ?I = "\<lambda>k st. st = (map fst (?Q k), map snd (?Q k))"
  have "ok (for_each (bound_lane left srt vs) [0..<length vs] (map fst P, map snd P)) (?I (length vs))"
  proof (rule ok_for_range [where I = ?I])
    fix k st
    assume k: "k < length vs" and st: "?I k st"
    have Qk: "?Q k ! k = P ! k" "length (?Q k) = length vs"
      using k assms(1) by (simp_all add: nth_append)
    have "(?Q k)[k := bstep left srt (vs ! k) (P ! k)] = ?Q (Suc k)"
      using k assms(1) by (simp add: list_update_append take_Suc_conv_app_nth flip: Cons_nth_drop_Suc)
    then show "ok (bound_lane left srt vs k st) (?I (Suc k))"
      using bound_lane_eq [of k vs "?Q k" srt left] st Qk k range [OF k] by simp
  qed (use assms in simp_all)
  then show ?thesis using assms(1) by (simp add: ok_eq)
qed

lemma bound_block_eq: "bound_block left srt vs = Some (map (search1 left srt) vs)"
proof -
  let ?n = "length srt"
  let ?P = "\<lambda>j. map (\<lambda>v. (bstep left srt v ^^ j) (0, ?n)) vs"
  let ?I = "\<lambda>j st. st = (map fst (?P j), map snd (?P j))"
  have "ok (for_each (\<lambda>j. for_each (bound_lane left srt vs) [0..<length vs]) [0..<max_iter ?n]
       (replicate (length vs) 0, replicate (length vs) ?n)) (?I (max_iter ?n))"
  proof (rule ok_for_range [where I = ?I])
    show "?I 0 (replicate (length vs) 0, replicate (length vs) ?n)"
      by (simp add: comp_def map_replicate_const)
    fix j st
    assume st: "?I j st"
    have "map2 (bstep left srt) vs (?P j) = ?P (Suc j)"
      by (simp add: zip_map_self comp_def)
    then show "ok (for_each (bound_lane left srt vs) [0..<length vs] st) (?I (Suc j))"
      using bound_round [of "?P j" vs srt left] st bsteps_range [where j = j and n = ?n and left = left and srt = srt] by simp
  qed simp
  then show ?thesis
    by (simp add: bound_block_def ok_eq search1_def comp_def)
qed

lemma bound_search_eq:
  assumes "0 < VLEN" "length ret = length to_find"
  shows "bound_search VLEN left srt to_find ret = Some (map (search1 left srt) to_find)"
proof -
  let ?n = "length to_find"
  let ?res = "map (search1 left srt) to_find"
  let ?I = "\<lambda>i r. r = take (i * VLEN) ?res @ drop (i * VLEN) ret"
  have step: "copy_cells (map (search1 left srt) (take m (drop a to_find))) 0 (take a ?res @ drop a ret) a m
      = Some (take (a + m) ?res @ drop (a + m) ret)" if "a + m \<le> ?n" for a m
  proof -
    have "take (a + m) ?res = take a ?res @ map (search1 left srt) (take m (drop a to_find))"
      by (simp add: take_add take_map drop_map)
    then show ?thesis using that assms(2)
      by (subst copy_cells_eq) (auto simp: min_def add.commute)
  qed
  have blk: "i * VLEN + VLEN \<le> ?n" if "i < ?n div VLEN" for i
  proof -
    have "Suc i * VLEN \<le> ?n div VLEN * VLEN" using that by (intro mult_le_mono1) simp
    also have "\<dots> \<le> ?n" by simp
    finally show ?thesis by simp
  qed
  have rest: "?n div VLEN * VLEN + ?n mod VLEN = ?n" by simp
  have last: "copy_cells (map (search1 left srt) (take (?n mod VLEN) (drop (?n div VLEN * VLEN) to_find))) 0
      (take (?n div VLEN * VLEN) ?res @ drop (?n div VLEN * VLEN) ret) (?n div VLEN * VLEN) (?n mod VLEN)
      = Some ?res"
    using step [of "?n div VLEN * VLEN" "?n mod VLEN", unfolded rest] assms(2) by fastforce
  have "ok (for_each (\<lambda>i ret. do {
         let offset = i * VLEN;
         values \<leftarrow> rd_block to_find offset VLEN;
         low \<leftarrow> bound_block left srt values;
         copy_cells low 0 ret offset VLEN }) [0..<?n div VLEN] ret) (?I (?n div VLEN))"
  proof (rule ok_for_range [where I = ?I])
    fix i r
    assume i: "i < ?n div VLEN" and r: "?I i r"
    show "ok (do { let offset = i * VLEN;
         values \<leftarrow> rd_block to_find offset VLEN;
         low \<leftarrow> bound_block left srt values;
         copy_cells low 0 r offset VLEN }) (?I (Suc i))"
      using step [OF blk [OF i]] blk [OF i] r by (simp add: Let_def bound_block_eq add.commute)
  qed simp_all
  then obtain r where "for_each (\<lambda>i ret. do {
         let offset = i * VLEN;
         values \<leftarrow> rd_block to_find offset VLEN;
         low \<leftarrow> bound_block left srt values;
         copy_cells low 0 ret offset VLEN }) [0..<?n div VLEN] ret = Some r" "?I (?n div VLEN) r"
    unfolding ok_iff_ex by blast
  then show ?thesis
    using last rest assms
    by (simp add: bound_search_def bound_block_eq Let_def del: take_all_iff take_all)
qed

subsection \<open>Bisection\<close>

text \<open>
  What a comparison must promise for the search to find the split point of a sorted vector: along
  the order, once it sends a search to the left it keeps doing so.
\<close>

locale bisect =
  fixes left :: "'v \<Rightarrow> 'a \<Rightarrow> bool" and ord :: "'a \<Rightarrow> 'a \<Rightarrow> bool"
  assumes left_mono: "ord x y \<Longrightarrow> left v x \<Longrightarrow> left v y"
begin

definition splits :: "'a list \<Rightarrow> 'v \<Rightarrow> nat \<times> nat \<Rightarrow> bool" where
  "splits srt v lh \<longleftrightarrow> fst lh \<le> snd lh \<and> snd lh \<le> length srt \<and>
     (\<forall>i<fst lh. \<not> left v (srt ! i)) \<and> (\<forall>i<length srt. snd lh \<le> i \<longrightarrow> left v (srt ! i))"

lemma splits_start: "splits srt v (0, length srt)"
  by (simp add: splits_def)

lemma splits_step:
  assumes srt: "sorted_wrt ord srt" and inv: "splits srt v lh"
  shows "splits srt v (bstep left srt v lh)"
proof (cases "fst lh < snd lh")
  case False
  then have "bstep left srt v lh = lh" by (cases lh) (simp add: bstep_def)
  then show ?thesis using inv by simp
next
  case True
  let ?mid = "(fst lh + snd lh) div 2"
  have mid: "fst lh \<le> ?mid" "?mid < snd lh" "?mid < length srt"
    using True inv by (auto simp: splits_def)
  have mono: "left v (srt ! i) \<Longrightarrow> i \<le> j \<Longrightarrow> j < length srt \<Longrightarrow> left v (srt ! j)" for i j
    using srt left_mono [of "srt ! i" "srt ! j" v] by (cases "i = j") (auto simp: sorted_wrt_iff_nth_less)
  show ?thesis
  proof (cases "left v (srt ! ?mid)")
    case True
    then have "bstep left srt v lh = (fst lh, ?mid)"
      using \<open>fst lh < snd lh\<close> by (cases lh) (simp add: bstep_def)
    then show ?thesis using inv mid mono [OF True] by (simp add: splits_def)
  next
    case False
    then have "bstep left srt v lh = (?mid + 1, snd lh)"
      using \<open>fst lh < snd lh\<close> by (cases lh) (simp add: bstep_def)
    moreover have "\<forall>i<?mid + 1. \<not> left v (srt ! i)"
      using mono [of _ ?mid] False mid by (metis Suc_eq_plus1 less_Suc_eq_le)
    ultimately show ?thesis using inv mid by (simp add: splits_def)
  qed
qed

lemma search1_split:
  assumes "sorted_wrt ord srt"
  shows "search1 left srt v = length (takeWhile (\<lambda>x. \<not> left v x) srt)"
proof -
  let ?lh = "(bstep left srt v ^^ max_iter (length srt)) (0, length srt)"
  have "splits srt v ((bstep left srt v ^^ j) (0, length srt))" for j
    by (induction j) (simp_all add: splits_start splits_step assms)
  then have sp: "splits srt v ?lh" by blast
  have eq: "fst ?lh = snd ?lh" by (rule bsteps_done)
  have "takeWhile (\<lambda>x. \<not> left v x) srt = take (fst ?lh) srt"
  proof (cases "fst ?lh < length srt")
    case True
    then show ?thesis using sp eq by (intro takeWhile_eq_take_P_nth) (auto simp: splits_def)
  next
    case False
    then show ?thesis using sp by (auto simp: splits_def takeWhile_eq_all_conv in_set_conv_nth)
  qed
  then show ?thesis using sp by (simp add: search1_def splits_def)
qed

lemma search_takeWhile:
  assumes "0 < VLEN" "length ret = length to_find" "sorted_wrt ord srt"
  shows "bound_search VLEN left srt to_find ret
    = Some (map (\<lambda>v. length (takeWhile (\<lambda>x. \<not> left v x) srt)) to_find)"
  using assms by (simp add: bound_search_eq search1_split)

end

interpretation lb: bisect "\<lambda>v x :: 'a::linorder. v \<le> x" "(\<le>)"
  by unfold_locales (rule order_trans)

interpretation lb_desc: bisect "\<lambda>v x :: 'a::linorder. v \<ge> x" "(\<ge>)"
  by unfold_locales (rule order_trans)

interpretation ub: bisect "\<lambda>v x :: 'a::linorder. \<not> v \<ge> x" "(\<le>)"
  by unfold_locales auto

interpretation ub_desc: bisect "\<lambda>v x :: 'a::linorder. \<not> v \<le> x" "(\<ge>)"
  by unfold_locales auto

subsection \<open>Properties\<close>

lemma sorted_takeWhile_filter:
  assumes "sorted_wrt ord srt" "\<And>x y. ord x y \<Longrightarrow> P y \<Longrightarrow> P x"
  shows "takeWhile P srt = filter P srt"
  using assms(1)
proof (induction srt)
  case (Cons a srt)
  show ?case
  proof (cases "P a")
    case False
    then have "filter P srt = []" using Cons.prems assms(2) by (auto simp: filter_empty_conv)
    then show ?thesis using False by simp
  qed (use Cons in simp)
qed simp

lemma count_less_eq:
  "sorted srt \<Longrightarrow> length (takeWhile (\<lambda>x. \<not> v \<le> x) srt) = length (filter (\<lambda>x. x < v) (srt :: 'a::linorder list))"
  by (subst sorted_takeWhile_filter [where ord = "(\<le>)"]) (auto simp: not_le)

text \<open>C10. lower_bound (core/lower_bound.hpp) is memory safe, its fixed number of rounds is enough, and
  on a sorted vector it returns for every searched value the number of elements that are smaller,
  for every number of values (whole blocks and the shorter last one) and either build's VLEN.\<close>
theorem lower_bound_count:
  assumes "0 < VLEN" "length ret = length to_find" "sorted srt"
  shows "lower_bound VLEN srt to_find ret
    = Some (map (\<lambda>v. length (filter (\<lambda>x. x < v) srt)) to_find)"
  using assms by (simp add: lower_bound_def lb.search_takeWhile count_less_eq)

theorem lower_bound_count_witness:
  "lower_bound bound_vlen_x86 [1, 3, 3, 5 :: nat] [3, 0, 9, 4, 1] [7, 7, 7, 7, 7] = Some [1, 0, 4, 3, 0]"
  by (subst lower_bound_count) (simp_all add: bound_vlen_x86_def)

text \<open>upper_bound (core/upper_bound.hpp) on a sorted vector returns for every searched value the
  number of elements that are not larger; together with lower_bound it delimits the run of equal
  elements.\<close>
theorem upper_bound_count:
  assumes "0 < VLEN" "length ret = length to_find" "sorted srt"
  shows "upper_bound VLEN srt to_find ret
    = Some (map (\<lambda>v. length (filter (\<lambda>x. x \<le> v) srt)) to_find)"
proof -
  have "takeWhile (\<lambda>x. x \<le> v) srt = filter (\<lambda>x. x \<le> v) srt" for v
    using assms(3) by (rule sorted_takeWhile_filter) auto
  then show ?thesis using assms by (simp add: upper_bound_def ub.search_takeWhile)
qed

theorem upper_bound_count_witness:
  "upper_bound bound_vlen_x86 [1, 3, 3, 5 :: nat] [3, 0, 9, 4, 1] [7, 7, 7, 7, 7] = Some [3, 0, 4, 3, 1]"
  by (subst upper_bound_count) (simp_all add: bound_vlen_x86_def)

text \<open>The descending searches on a vector sorted the other way: lower_bound_desc counts the
  elements that are larger than the value, upper_bound_desc those that are not smaller; the
  overloads on vectors return the same, and zeros where there is nothing to search in.\<close>
theorem bound_desc_vec_count:
  assumes "0 < VLEN" "sorted (rev srt)"
  shows "lower_bound_desc_vec VLEN srt to_find
      = Some (map (\<lambda>v. length (filter (\<lambda>x. v < x) srt)) to_find) \<and>
    upper_bound_desc_vec VLEN srt to_find
      = Some (map (\<lambda>v. length (filter (\<lambda>x. v \<le> x) srt)) to_find)"
proof -
  have srt: "sorted_wrt (\<ge>) srt" using assms(2) by (simp add: sorted_wrt_rev)
  have tw: "takeWhile (\<lambda>x. \<not> x \<le> v) srt = filter (\<lambda>x. v < x) srt"
    "takeWhile (\<lambda>x. v \<le> x) srt = filter (\<lambda>x. v \<le> x) srt" for v
    by (subst sorted_takeWhile_filter [OF srt]; force simp: not_le)+
  show ?thesis using assms srt
    by (cases "to_find = [] \<or> srt = []")
      (auto simp: lower_bound_desc_vec_def upper_bound_desc_vec_def lower_bound_desc_def Let_def
        upper_bound_desc_def lb_desc.search_takeWhile ub_desc.search_takeWhile tw map_replicate_const)
qed

theorem bound_desc_vec_count_witness:
  "lower_bound_desc_vec bound_vlen_x86 [5, 3, 3, 1 :: nat] [3, 0, 9, 4, 1] = Some [1, 4, 0, 1, 3] \<and>
   upper_bound_desc_vec bound_vlen_x86 [5, 3, 3, 1 :: nat] [3, 0, 9, 4, 1] = Some [3, 4, 0, 1, 4]"
  using bound_desc_vec_count [of bound_vlen_x86 "[5, 3, 3, 1 :: nat]" "[3, 0, 9, 4, 1]"]
  by (simp add: bound_vlen_x86_def)

end
