(* ===== verification/SetLanes.thy ===== *)
theory SetLanes
  imports SetSeq Bounds
begin

text \<open>
  core/set_operations.hpp, the vector build: a set operation cuts the left array into VLEN slices at
  positions where a new key starts, finds the matching slices of the right array with binary
  searches, runs the two-way loops of all slices in lockstep (one step of every slice per round, the
  lane's indices in vector registers), and puts the slices' results together.

  A vector register split in three (\<open>left_idx_0\<close>, \<open>left_idx_1\<close>, \<open>left_idx_2\<close>) is one list here, in the
  order in which the three loops of a round visit the lanes; the registers of a lane are a record.
  The arrays may be longer than the size the routine is told: \<open>advance_to_split_vreg\<close> reads the cell
  at \<open>left_size\<close>.
\<close>

subsection \<open>advance_to_split_vreg\<close>

record 'a adv_lane =
  al_idx :: nat
  al_done :: bool
  al_last :: "'a option"
  al_loaded :: "'a option"

definition adv_init :: "'a list \<Rightarrow> nat \<Rightarrow> nat \<times> nat \<Rightarrow> 'a adv_lane option" where
  "adv_init left left_size ip = do {
     let (i, p) = ip;
     let finished = (i = 0 \<or> p = left_size);
     last \<leftarrow> (if \<not> finished then do { x \<leftarrow> rd left (p - 1); Some (Some x) } else Some None);
     Some \<lparr>al_idx = p, al_done = finished, al_last = last, al_loaded = None\<rparr> }"

definition adv_load :: "'a list \<Rightarrow> 'a adv_lane \<Rightarrow> 'a adv_lane option" where
  "adv_load left a =
     (if \<not> al_done a then do { x \<leftarrow> rd left (al_idx a); Some (a\<lparr>al_loaded := Some x\<rparr>) } else Some a)"

definition adv_step :: "nat \<Rightarrow> 'a adv_lane \<Rightarrow> bool \<times> 'a adv_lane" where
  "adv_step left_size a =
     (if \<not> al_done a then
        if al_loaded a = al_last a \<and> al_idx a < left_size then (True, a\<lparr>al_idx := al_idx a + 1\<rparr>)
        else (False, a\<lparr>al_done := True\<rparr>)
      else (False, a))"

definition advance_to_split_vreg :: "nat list \<Rightarrow> nat \<Rightarrow> 'a list \<Rightarrow> nat list option" where
  "advance_to_split_vreg left_idx left_size left = do {
     lanes \<leftarrow> omap (adv_init left left_size) (enumerate 0 left_idx);
     (_, lanes) \<leftarrow> cwhile fst (\<lambda>(_, lanes). do {
         lanes \<leftarrow> omap (adv_load left) lanes;
         let res = map (adv_step left_size) lanes;
         Some (\<exists>r\<in>set res. fst r, map snd res) }) (True, lanes);
     Some (map al_idx lanes) }"

subsection \<open>The two-way loops\<close>

text \<open>What a lane does with its two elements: the element written, and which indices move.\<close>

type_synonym 'a ker = "'a \<Rightarrow> 'a \<Rightarrow> 'a option \<times> bool \<times> bool"

definition intersection_kernel :: "'a::linorder ker" where
  "intersection_kernel l r =
     (if l < r then (None, True, False)
      else if \<not> r < l then (Some l, True, True)
      else (None, False, True))"

definition union_kernel :: "'a::linorder ker" where
  "union_kernel l r =
     (if r < l then (Some r, False, True)
      else if \<not> l < r then (Some l, True, True)
      else (Some l, True, False))"

definition difference_kernel :: "'a::linorder ker" where
  "difference_kernel l r =
     (if l < r then (Some l, True, False)
      else if \<not> r < l then (None, True, True)
      else (None, False, True))"

definition merge_kernel :: "('a \<Rightarrow> 'a \<Rightarrow> bool) \<Rightarrow> 'a ker" where
  "merge_kernel lt l r = (if lt r l then (Some r, False, True) else (Some l, True, False))"

record 'a set_lane =
  sl_left :: nat
  sl_right :: nat
  sl_left_stop :: nat
  sl_right_stop :: nat
  sl_out :: nat
  sl_elm :: "('a \<times> 'a) option"

definition sl_active :: "'a set_lane \<Rightarrow> bool" where
  "sl_active a \<longleftrightarrow> sl_left a \<noteq> sl_left_stop a \<and> sl_right a \<noteq> sl_right_stop a"

text \<open>set_operations.incl2\<close>

definition set_load :: "'a list \<Rightarrow> 'a list \<Rightarrow> 'a set_lane \<Rightarrow> 'a set_lane option" where
  "set_load lp rp a =
     (if sl_active a then do {
        l \<leftarrow> rd lp (sl_left a);
        r \<leftarrow> rd rp (sl_right a);
        Some (a\<lparr>sl_elm := Some (l, r)\<rparr>) }
      else Some a)"

definition set_step ::
  "'a ker \<Rightarrow> nat \<Rightarrow> bool \<times> 'a list \<times> 'a set_lane list \<Rightarrow> (bool \<times> 'a list \<times> 'a set_lane list) option" where
  "set_step ker j st = do {
     let (anyvalid, op, lanes) = st;
     a \<leftarrow> rd lanes j;
     if sl_active a then do {
       (l, r) \<leftarrow> sl_elm a;
       let (out, adv_l, adv_r) = ker l r;
       op \<leftarrow> (case out of None \<Rightarrow> Some op | Some x \<Rightarrow> wr op (sl_out a) x);
       lanes \<leftarrow> wr lanes j (a\<lparr>sl_left := sl_left a + of_bool adv_l, sl_right := sl_right a + of_bool adv_r,
                               sl_out := sl_out a + of_bool (out \<noteq> None)\<rparr>);
       Some (True, op, lanes) }
     else Some (anyvalid, op, lanes) }"

definition set_vreg ::
  "'a ker \<Rightarrow> 'a list \<Rightarrow> 'a list \<Rightarrow> 'a list \<Rightarrow> 'a set_lane list \<Rightarrow> ('a list \<times> 'a set_lane list) option" where
  "set_vreg ker lp rp op lanes = do {
     (_, op, lanes) \<leftarrow> cwhile fst (\<lambda>(_, op, lanes). do {
         lanes \<leftarrow> omap (set_load lp rp) lanes;
         for_each (set_step ker) [0..<length lanes] (False, op, lanes) }) (True, op, lanes);
     Some (op, lanes) }"

text \<open>set_operations.incl1 (without the declarations): the registers are loaded from the arrays of indices.\<close>

definition set_lanes_init :: "nat list \<Rightarrow> nat list \<Rightarrow> nat list \<Rightarrow> nat list \<Rightarrow> nat list \<Rightarrow> 'a set_lane list option" where
  "set_lanes_init left_idx right_idx left_idx_stop right_idx_stop out_idx =
     omap (\<lambda>i. do {
       l \<leftarrow> rd left_idx i; r \<leftarrow> rd right_idx i; ls \<leftarrow> rd left_idx_stop i; rs \<leftarrow> rd right_idx_stop i; out \<leftarrow> rd out_idx i;
       Some \<lparr>sl_left = l, sl_right = r, sl_left_stop = ls, sl_right_stop = rs, sl_out = out, sl_elm = None\<rparr> })
     [0..<length left_idx]"

definition set_intersection_vreg :: "'a::linorder list \<Rightarrow> 'a list \<Rightarrow> 'a list \<Rightarrow> 'a set_lane list \<Rightarrow> ('a list \<times> 'a set_lane list) option" where
  "set_intersection_vreg = set_vreg intersection_kernel"

definition set_union_vreg :: "'a::linorder list \<Rightarrow> 'a list \<Rightarrow> 'a list \<Rightarrow> 'a set_lane list \<Rightarrow> ('a list \<times> 'a set_lane list) option" where
  "set_union_vreg = set_vreg union_kernel"

definition set_difference_vreg :: "'a::linorder list \<Rightarrow> 'a list \<Rightarrow> 'a list \<Rightarrow> 'a set_lane list \<Rightarrow> ('a list \<times> 'a set_lane list) option" where
  "set_difference_vreg = set_vreg difference_kernel"

definition set_merge_vreg :: "'a::linorder list \<Rightarrow> 'a list \<Rightarrow> 'a list \<Rightarrow> 'a set_lane list \<Rightarrow> ('a list \<times> 'a set_lane list) option" where
  "set_merge_vreg = set_vreg (merge_kernel (<))"

definition set_merge_desc_vreg :: "'a::linorder list \<Rightarrow> 'a list \<Rightarrow> 'a list \<Rightarrow> 'a set_lane list \<Rightarrow> ('a list \<times> 'a set_lane list) option" where
  "set_merge_desc_vreg = set_vreg (merge_kernel (>))"

text \<open>The pair merges: the key and value arrays are accessed at the same indices and held as arrays of pairs.\<close>

definition set_merge_pair_vreg ::
  "('a::linorder \<times> 'b) list \<Rightarrow> ('a \<times> 'b) list \<Rightarrow> ('a \<times> 'b) list \<Rightarrow> ('a \<times> 'b) set_lane list \<Rightarrow>
   (('a \<times> 'b) list \<times> ('a \<times> 'b) set_lane list) option" where
  "set_merge_pair_vreg = set_vreg (merge_kernel (\<lambda>p q. fst p < fst q))"

definition set_merge_pair_desc_vreg ::
  "('a::linorder \<times> 'b) list \<Rightarrow> ('a \<times> 'b) list \<Rightarrow> ('a \<times> 'b) list \<Rightarrow> ('a \<times> 'b) set_lane list \<Rightarrow>
   (('a \<times> 'b) list \<times> ('a \<times> 'b) set_lane list) option" where
  "set_merge_pair_desc_vreg = set_vreg (merge_kernel (\<lambda>p q. fst p > fst q))"

subsection \<open>Cutting\<close>

definition set_vlen :: nat where "set_vlen = 768"

definition set_each :: "nat \<Rightarrow> nat \<Rightarrow> nat" where
  "set_each VLEN left_size =
     (let each = ceil_div left_size VLEN in if each mod 2 = 0 then each + 1 else each)"

definition set_positions :: "nat \<Rightarrow> nat \<Rightarrow> nat list" where
  "set_positions VLEN left_size =
     map (\<lambda>i. let pos = set_each VLEN left_size * i in if pos < left_size then pos else left_size) [0..<VLEN]"

text \<open>
  The cuts of both arrays (all operations but the intersection); \<open>search\<close> is the binary search of
  the operation's order.
\<close>

definition set_cuts ::
  "('a::zero list \<Rightarrow> 'a list \<Rightarrow> nat list \<Rightarrow> nat list option) \<Rightarrow> nat \<Rightarrow> 'a list \<Rightarrow> nat \<Rightarrow> 'a list \<Rightarrow> (nat list \<times> nat list) option" where
  "set_cuts search VLEN leftp left_size rightp = do {
     left_idx \<leftarrow> advance_to_split_vreg (set_positions VLEN left_size) left_size leftp;
     left_start \<leftarrow> omap (\<lambda>p. if p < left_size then rd leftp p else Some 0) left_idx;
     right_idx \<leftarrow> search rightp left_start (replicate VLEN 0);
     right_idx \<leftarrow> wr right_idx 0 0;
     let right_idx = map2 (\<lambda>l r. if l = left_size then length rightp else r) left_idx right_idx;
     Some (left_idx, right_idx) }"

text \<open>\<open>stop[i] = idx[i + 1]\<close>, and the size for the last lane.\<close>

definition set_stops :: "nat list \<Rightarrow> nat \<Rightarrow> nat list" where
  "set_stops idx sz = tl idx @ [sz]"

primrec set_out_idx :: "nat list \<Rightarrow> nat list \<Rightarrow> nat \<Rightarrow> nat" where
  "set_out_idx left_idx right_idx 0 = 0"
| "set_out_idx left_idx right_idx (Suc i) =
     (left_idx ! Suc i - left_idx ! i) + (right_idx ! Suc i - right_idx ! i) + set_out_idx left_idx right_idx i"

subsection \<open>Putting the slices together\<close>

text \<open>Append \<open>n\<close> cells of \<open>src\<close> from \<open>a\<close> to the result: \<open>retp[current + j] = src[a + j]; current += n\<close>.\<close>

definition append_run :: "'a list \<Rightarrow> nat \<Rightarrow> nat \<Rightarrow> 'a list \<times> nat \<Rightarrow> ('a list \<times> nat) option" where
  "append_run src a n st = do {
     let (ret, current) = st;
     ret \<leftarrow> copy_cells src a ret current n;
     Some (ret, current + n) }"

text \<open>The lanes' results, each followed by what is left of its slices (\<open>tl\<close>: of the left one, \<open>tr\<close>: of the right one).\<close>

definition set_collect ::
  "bool \<Rightarrow> bool \<Rightarrow> 'a::zero list \<Rightarrow> 'a list \<Rightarrow> 'a list \<Rightarrow> nat list \<Rightarrow> 'a set_lane list \<Rightarrow> 'a list option" where
  "set_collect keep_l keep_r leftp rightp outp out_idx_save lanes = do {
     let sizes = map2 (\<lambda>save a. (sl_out a - save) +
        (if keep_l then sl_left_stop a - sl_left a else 0) +
        (if keep_r then sl_right_stop a - sl_right a else 0)) out_idx_save lanes;
     (ret, _) \<leftarrow> for_each (\<lambda>(save, a) st. do {
         st \<leftarrow> append_run outp save (sl_out a - save) st;
         st \<leftarrow> (if keep_l then append_run leftp (sl_left a) (sl_left_stop a - sl_left a) st else Some st);
         (if keep_r then append_run rightp (sl_right a) (sl_right_stop a - sl_right a) st else Some st) })
       (zip out_idx_save lanes) (replicate (sum_list sizes) 0, 0);
     Some ret }"

text \<open>The merges write in place: the lane's tails go behind its results.\<close>

definition set_tails :: "'a list \<Rightarrow> 'a list \<Rightarrow> 'a list \<Rightarrow> 'a set_lane list \<Rightarrow> 'a list option" where
  "set_tails leftp rightp outp lanes =
     for_each (\<lambda>a outp. do {
       outp \<leftarrow> copy_cells leftp (sl_left a) outp (sl_out a) (sl_left_stop a - sl_left a);
       copy_cells rightp (sl_right a) outp (sl_out a) (sl_right_stop a - sl_right a) }) lanes outp"

subsection \<open>The operations\<close>

definition set_union_sx :: "nat \<Rightarrow> 'a::{linorder,zero} list \<Rightarrow> nat \<Rightarrow> 'a list \<Rightarrow> 'a list option" where
  "set_union_sx VLEN leftp left_size rightp =
     (if left_size = 0 then Some rightp
      else if rightp = [] then rd_block leftp 0 left_size
      else do {
        (left_idx, right_idx) \<leftarrow> set_cuts (lower_bound bound_vlen_ve) VLEN leftp left_size rightp;
        let out_idx = map (set_out_idx left_idx right_idx) [0..<VLEN];
        lanes \<leftarrow> set_lanes_init left_idx right_idx (set_stops left_idx left_size)
          (set_stops right_idx (length rightp)) out_idx;
        (outp, lanes) \<leftarrow> set_union_vreg leftp rightp (replicate (left_size + length rightp) 0) lanes;
        set_collect True True leftp rightp outp out_idx lanes })"

definition set_difference_sx :: "nat \<Rightarrow> 'a::{linorder,zero} list \<Rightarrow> nat \<Rightarrow> 'a list \<Rightarrow> 'a list option" where
  "set_difference_sx VLEN leftp left_size rightp =
     (if left_size = 0 then Some []
      else if rightp = [] then rd_block leftp 0 left_size
      else do {
        (left_idx, right_idx) \<leftarrow> set_cuts (lower_bound bound_vlen_ve) VLEN leftp left_size rightp;
        let out_idx = left_idx;
        lanes \<leftarrow> set_lanes_init left_idx right_idx (set_stops left_idx left_size)
          (set_stops right_idx (length rightp)) out_idx;
        (outp, lanes) \<leftarrow> set_difference_vreg leftp rightp (replicate left_size 0) lanes;
        set_collect True False leftp rightp outp out_idx lanes })"

text \<open>The intersection has its own cuts of the right array, and its lanes write from the first cuts of the left one.\<close>

definition set_intersection_sx :: "nat \<Rightarrow> 'a::{linorder,zero} list \<Rightarrow> nat \<Rightarrow> 'a list \<Rightarrow> 'a list option" where
  "set_intersection_sx VLEN leftp left_size rightp =
     (if left_size = 0 \<or> rightp = [] then Some []
      else do {
        let right_size = length rightp;
        let out_idx = set_positions VLEN left_size;
        left_idx \<leftarrow> advance_to_split_vreg (set_positions VLEN left_size) left_size leftp;
        left_start \<leftarrow> omap (\<lambda>p. if p < left_size then rd leftp p else Some 0) left_idx;
        right_idx \<leftarrow> lower_bound bound_vlen_ve rightp left_start (replicate VLEN 0);
        let right_idx = map2 (\<lambda>l r. if l = left_size then right_size else r) left_idx right_idx;
        left_start \<leftarrow> omap (\<lambda>i. do {
            p \<leftarrow> rd left_idx i;
            if p < left_size then do { next_idx \<leftarrow> rd left_idx (i + 1); rd leftp (next_idx - 1) } else Some 0 }) [0..<VLEN - 1];
        last_left \<leftarrow> rd leftp (left_size - 1);
        right_idx_stop \<leftarrow> upper_bound bound_vlen_ve rightp (left_start @ [last_left]) (replicate VLEN 0);
        let right_idx_stop = map2 (\<lambda>(l, r) s. if l = left_size \<or> r = right_size then right_size else s)
          (zip left_idx right_idx) right_idx_stop;
        lanes \<leftarrow> set_lanes_init left_idx right_idx (set_stops left_idx left_size) right_idx_stop out_idx;
        (outp, lanes) \<leftarrow> set_intersection_vreg leftp rightp (replicate left_size 0) lanes;
        set_collect False False leftp rightp outp out_idx lanes })"

definition set_merge_sx :: "nat \<Rightarrow> 'a::{linorder,zero} list \<Rightarrow> nat \<Rightarrow> 'a list \<Rightarrow> 'a list option" where
  "set_merge_sx VLEN leftp left_size rightp =
     (if left_size = 0 then Some rightp
      else if rightp = [] then rd_block leftp 0 left_size
      else do {
        (left_idx, right_idx) \<leftarrow> set_cuts (lower_bound bound_vlen_ve) VLEN leftp left_size rightp;
        lanes \<leftarrow> set_lanes_init left_idx right_idx (set_stops left_idx left_size)
          (set_stops right_idx (length rightp)) (map (set_out_idx left_idx right_idx) [0..<VLEN]);
        (outp, lanes) \<leftarrow> set_merge_vreg leftp rightp (replicate (left_size + length rightp) 0) lanes;
        set_tails leftp rightp outp lanes })"

definition set_merge_desc_sx :: "nat \<Rightarrow> 'a::{linorder,zero} list \<Rightarrow> nat \<Rightarrow> 'a list \<Rightarrow> 'a list option" where
  "set_merge_desc_sx VLEN leftp left_size rightp =
     (if left_size = 0 then Some rightp
      else if rightp = [] then rd_block leftp 0 left_size
      else do {
        (left_idx, right_idx) \<leftarrow> set_cuts (lower_bound_desc bound_vlen_ve) VLEN leftp left_size rightp;
        lanes \<leftarrow> set_lanes_init left_idx right_idx (set_stops left_idx left_size)
          (set_stops right_idx (length rightp)) (map (set_out_idx left_idx right_idx) [0..<VLEN]);
        (outp, lanes) \<leftarrow> set_merge_desc_vreg leftp rightp (replicate (left_size + length rightp) 0) lanes;
        set_tails leftp rightp outp lanes })"

text \<open>\<open>out0\<close>: the two output vectors after resize (their old contents do not matter).\<close>

definition set_merge_pair_sx ::
  "nat \<Rightarrow> 'a::{linorder,zero} list \<Rightarrow> 'b list \<Rightarrow> nat \<Rightarrow> 'a list \<Rightarrow> 'b list \<Rightarrow> ('a \<times> 'b) list \<Rightarrow> ('a list \<times> 'b list) option" where
  "set_merge_pair_sx VLEN leftp left_valp left_size rightp right_valp out0 =
     (if left_size = 0 then Some (rightp, right_valp)
      else if rightp = [] then do { k \<leftarrow> rd_block leftp 0 left_size; v \<leftarrow> rd_block left_valp 0 left_size; Some (k, v) }
      else do {
        (left_idx, right_idx) \<leftarrow> set_cuts (lower_bound bound_vlen_ve) VLEN leftp left_size rightp;
        lanes \<leftarrow> set_lanes_init left_idx right_idx (set_stops left_idx left_size)
          (set_stops right_idx (length rightp)) (map (set_out_idx left_idx right_idx) [0..<VLEN]);
        (outp, lanes) \<leftarrow> set_merge_pair_vreg (zip leftp left_valp) (zip rightp right_valp) out0 lanes;
        outp \<leftarrow> set_tails (zip leftp left_valp) (zip rightp right_valp) outp lanes;
        Some (map fst outp, map snd outp) })"

definition set_merge_pair_desc_sx ::
  "nat \<Rightarrow> 'a::{linorder,zero} list \<Rightarrow> 'b list \<Rightarrow> nat \<Rightarrow> 'a list \<Rightarrow> 'b list \<Rightarrow> ('a \<times> 'b) list \<Rightarrow> ('a list \<times> 'b list) option" where
  "set_merge_pair_desc_sx VLEN leftp left_valp left_size rightp right_valp out0 =
     (if left_size = 0 then Some (rightp, right_valp)
      else if rightp = [] then do { k \<leftarrow> rd_block leftp 0 left_size; v \<leftarrow> rd_block left_valp 0 left_size; Some (k, v) }
      else do {
        (left_idx, right_idx) \<leftarrow> set_cuts (lower_bound_desc bound_vlen_ve) VLEN leftp left_size rightp;
        lanes \<leftarrow> set_lanes_init left_idx right_idx (set_stops left_idx left_size)
          (set_stops right_idx (length rightp)) (map (set_out_idx left_idx right_idx) [0..<VLEN]);
        (outp, lanes) \<leftarrow> set_merge_pair_desc_vreg (zip leftp left_valp) (zip rightp right_valp) out0 lanes;
        outp \<leftarrow> set_tails (zip leftp left_valp) (zip rightp right_valp) outp lanes;
        Some (map fst outp, map snd outp) })"


subsection \<open>advance_to_split_vreg stops at the next key\<close>

text \<open>Where the cut at \<open>p\<close> moves to (lane 0 keeps its cut).\<close>

definition split_from :: "'a list \<Rightarrow> nat \<Rightarrow> nat \<Rightarrow> nat" where
  "split_from left n p = p + length (takeWhile (\<lambda>x. x = left ! (p - 1)) (drop p (take n left)))"

definition split_target :: "'a list \<Rightarrow> nat \<Rightarrow> nat \<times> nat \<Rightarrow> nat" where
  "split_target left n ip = (if fst ip = 0 \<or> snd ip = n then snd ip else split_from left n (snd ip))"

lemma split_from_bounds: "p \<le> n \<Longrightarrow> n \<le> length left \<Longrightarrow> p \<le> split_from left n p \<and> split_from left n p \<le> n"
  using length_takeWhile_le [of "\<lambda>x. x = left ! (p - 1)" "drop p (take n left)"] by (simp add: split_from_def)

lemma split_from_iff:
  assumes "p \<le> k" "k \<le> split_from left n p" "n < length left" "p \<le> n"
  shows "left ! k = left ! (p - 1) \<and> k < n \<longleftrightarrow> k < split_from left n p"
proof -
  let ?xs = "drop p (take n left)"
  let ?P = "\<lambda>x. x = left ! (p - 1)"
  have xs: "k < n \<Longrightarrow> ?xs ! (k - p) = left ! k" "k < n \<Longrightarrow> k - p < length ?xs"
    using assms(1,3) by (simp_all add: less_diff_conv2)
  have iff: "k < split_from left n p \<longleftrightarrow> k - p < length (takeWhile ?P ?xs)"
    using assms(1) by (auto simp: split_from_def)
  show ?thesis
  proof (cases "k < split_from left n p")
    case True
    then have "k - p < length (takeWhile ?P ?xs)" using iff by simp
    then have "?P (takeWhile ?P ?xs ! (k - p))" using nth_mem set_takeWhileD by fast
    then have "?P (?xs ! (k - p))" using takeWhile_nth [OF \<open>k - p < length (takeWhile ?P ?xs)\<close>] by simp
    moreover have "k < n" using True split_from_bounds [of p n left] assms by simp
    ultimately show ?thesis using True xs by simp
  next
    case False
    then have eq: "k - p = length (takeWhile ?P ?xs)" using assms by (simp add: split_from_def)
    show ?thesis
    proof (cases "k < n")
      case True
      then have "\<not> ?P (?xs ! length (takeWhile ?P ?xs))" using xs(2) eq by (intro nth_length_takeWhile) simp
      then show ?thesis using True False xs(1) eq by simp
    qed (use False in simp)
  qed
qed

definition adv_ok :: "'a list \<Rightarrow> nat \<Rightarrow> nat \<times> nat \<Rightarrow> 'a adv_lane \<Rightarrow> bool" where
  "adv_ok left n ip a \<longleftrightarrow>
     (if al_done a then al_idx a = split_target left n ip
      else 0 < fst ip \<and> snd ip < n \<and> al_last a = Some (left ! (snd ip - 1)) \<and>
        snd ip \<le> al_idx a \<and> al_idx a \<le> split_from left n (snd ip))"

lemma adv_round:
  assumes "adv_ok left n ip a" "n < length left" "snd ip \<le> n"
  shows "\<exists>a'. adv_load left a = Some a' \<and> adv_ok left n ip (snd (adv_step n a')) \<and>
    split_target left n ip - al_idx (snd (adv_step n a')) + of_bool (fst (adv_step n a')) = split_target left n ip - al_idx a \<and>
    (\<not> fst (adv_step n a') \<longrightarrow> al_done (snd (adv_step n a')))"
proof (cases "al_done a")
  case True
  then show ?thesis using assms by (auto simp: adv_load_def adv_step_def adv_ok_def)
next
  case False
  let ?p = "snd ip"
  have a: "0 < fst ip" "?p < n" "al_last a = Some (left ! (?p - 1))" "?p \<le> al_idx a" "al_idx a \<le> split_from left n ?p"
    using assms False by (auto simp: adv_ok_def)
  then have g: "split_target left n ip = split_from left n ?p" by (simp add: split_target_def)
  have "al_idx a < length left" using split_from_bounds [of ?p n left] a assms by simp
  then have load: "adv_load left a = Some (a\<lparr>al_loaded := Some (left ! al_idx a)\<rparr>)"
    using False by (simp add: adv_load_def)
  show ?thesis
    using split_from_iff [OF a(4,5) assms(2,3)] a False load g
    by (cases "al_idx a < split_from left n ?p") (auto simp: adv_step_def adv_ok_def)
qed

lemma advance_to_split_eq:
  assumes "n < length left" "\<And>i. i < length idx \<Longrightarrow> idx ! i \<le> n"
    "\<And>i. 0 < i \<Longrightarrow> i < length idx \<Longrightarrow> 0 < idx ! i"
  shows "advance_to_split_vreg idx n left = Some (map (split_target left n) (enumerate 0 idx))"
proof -
  let ?ips = "enumerate 0 idx"
  define body where "body = (\<lambda>(_ :: bool, lanes). do {
         lanes \<leftarrow> omap (adv_load left) lanes;
         let res = map (adv_step n) lanes;
         Some (\<exists>r\<in>set res. fst r, map snd res) })"
  let ?I = "\<lambda>(f, lanes). list_all2 (adv_ok left n) ?ips lanes \<and> (\<not> f \<longrightarrow> (\<forall>a\<in>set lanes. al_done a))"
  let ?w = "\<lambda>lanes. \<Sum>(ip, a)\<leftarrow>zip ?ips lanes. split_target left n ip - al_idx a"
  have ips: "snd ip \<le> n" if "ip \<in> set ?ips" for ip
    using that assms(2) by (auto simp: in_set_conv_nth nth_enumerate_eq)
  have "ok (omap (adv_init left n) ?ips) (\<lambda>lanes. ?I (True, lanes))"
  proof -
    have "\<exists>a. adv_init left n ip = Some a \<and> adv_ok left n ip a" if ip: "ip \<in> set ?ips" for ip
    proof -
      obtain i where "i < length idx" "ip = (i, idx ! i)" using ip by (auto simp: in_set_conv_nth nth_enumerate_eq)
      then have "snd ip - 1 < length left" using assms(1,2) by fastforce
      then show ?thesis using ips [OF ip] assms(1) split_from_bounds [of "snd ip" n left]
        by (auto simp: adv_init_def adv_ok_def split_target_def Let_def split: prod.splits)
    qed
    then obtain g where g: "\<And>ip. ip \<in> set ?ips \<Longrightarrow> adv_init left n ip = Some (g ip) \<and> adv_ok left n ip (g ip)" by metis
    then have "omap (adv_init left n) ?ips = Some (map g ?ips)" by (intro omap_Some) blast
    then show ?thesis using g by (auto simp: list.rel_map intro!: list.rel_refl_strong)
  qed
  then obtain lanes0 where l0: "omap (adv_init left n) ?ips = Some lanes0" "?I (True, lanes0)" by (auto simp: ok_iff_ex)
  have "ok (cwhile fst body (True, lanes0)) (\<lambda>(_, lanes). map al_idx lanes = map (split_target left n) ?ips)"
  proof (rule ok_while [where I = ?I and m = "\<lambda>(f, lanes). ?w lanes + of_bool f"])
    show "?I (True, lanes0)" by (rule l0)
  next
    fix st
    assume st: "?I st" "fst st"
    obtain lanes where [simp]: "st = (True, lanes)" using st(2) by (cases st) auto
    have len: "length lanes = length idx" using st by (auto dest: list_all2_lengthD)
    have "\<exists>a'. adv_load left (lanes ! k) = Some a' \<and> adv_ok left n (?ips ! k) (snd (adv_step n a')) \<and>
      split_target left n (?ips ! k) - al_idx (snd (adv_step n a')) + of_bool (fst (adv_step n a')) =
        split_target left n (?ips ! k) - al_idx (lanes ! k) \<and> (\<not> fst (adv_step n a') \<longrightarrow> al_done (snd (adv_step n a')))"
      if "k < length idx" for k
    proof (rule adv_round)
      show "adv_ok left n (?ips ! k) (lanes ! k)" using st that by (auto simp: list_all2_conv_all_nth)
      show "snd (?ips ! k) \<le> n" using ips [of "?ips ! k"] that by simp
    qed (rule assms(1))
    then obtain g where g: "\<And>k. k < length idx \<Longrightarrow> adv_load left (lanes ! k) = Some (g k) \<and>
      adv_ok left n (?ips ! k) (snd (adv_step n (g k))) \<and>
      split_target left n (?ips ! k) - al_idx (snd (adv_step n (g k))) + of_bool (fst (adv_step n (g k))) =
        split_target left n (?ips ! k) - al_idx (lanes ! k) \<and> (\<not> fst (adv_step n (g k)) \<longrightarrow> al_done (snd (adv_step n (g k))))"
      by metis
    let ?res = "map (\<lambda>k. adv_step n (g k)) [0..<length idx]"
    have load: "omap (adv_load left) lanes = Some (map g [0..<length idx])"
      using g len by (auto simp: omap_eq_Some_iff list_all2_conv_all_nth)
    define F L' where "F \<longleftrightarrow> (\<exists>r\<in>set ?res. fst r)" and "L' = map snd ?res"
    have body: "body st = Some (F, L')"
      by (simp add: body_def load Let_def comp_def F_def L'_def)
    have inv: "?I (F, L')"
      using g by (auto simp: list_all2_conv_all_nth F_def L'_def)
    have w: "?w L' = (\<Sum>k<length idx. split_target left n (?ips ! k) - al_idx (snd (adv_step n (g k))))"
      by (simp add: sum_list_sum_nth atLeast0LessThan L'_def)
    have w0: "?w lanes = (\<Sum>k<length idx. split_target left n (?ips ! k) - al_idx (lanes ! k))"
      using len by (simp add: sum_list_sum_nth atLeast0LessThan)
    define N :: nat where "N = (\<Sum>k<length idx. of_bool (fst (adv_step n (g k))))"
    have "?w L' + N = ?w lanes" unfolding N_def
      unfolding w w0 sum.distrib [symmetric] by (rule sum.cong) (use g in auto)
    moreover have "1 \<le> N" if any: F
    proof -
      obtain k where k: "k < length idx" "fst (adv_step n (g k))" using any by (auto simp: F_def)
      show ?thesis using member_le_sum [of k "{..<length idx}" "\<lambda>k. of_bool (fst (adv_step n (g k))) :: nat"] k by (simp add: N_def)
    qed
    ultimately show "ok (body st) (\<lambda>st'. ?I st' \<and> (case st' of (f, lanes) \<Rightarrow> ?w lanes + of_bool f)
        < (case st of (f, lanes) \<Rightarrow> ?w lanes + of_bool f))"
      using inv unfolding body by (cases F) simp_all
  next
    fix st
    assume "?I st" "\<not> fst st"
    then show "case st of (_, lanes) \<Rightarrow> map al_idx lanes = map (split_target left n) ?ips"
      by (auto simp: adv_ok_def list_all2_conv_all_nth intro!: nth_equalityI split: prod.splits)
  qed
  moreover have "advance_to_split_vreg idx n left = do {
      (_, lanes) \<leftarrow> cwhile fst body (True, lanes0); Some (map al_idx lanes) }"
    unfolding advance_to_split_vreg_def body_def l0(1) by simp
  ultimately show ?thesis by (auto simp: ok_iff_ex)
qed


subsection \<open>The two-way loops compute the sequential operation on every slice\<close>

text \<open>
  The contract between a kernel and the sequential algorithm \<open>f\<close>: one step of the loop is one step
  of \<open>f\<close>, some index moves, and \<open>cap\<close> bounds what a lane can still write from the numbers of
  elements left.
\<close>

locale lane_kernel =
  fixes ker :: "'a ker" and f :: "'a list \<Rightarrow> 'a list \<Rightarrow> 'a list" and cap :: "nat \<Rightarrow> nat \<Rightarrow> nat"
  assumes step: "f (l # ls) (r # rs) = (case fst (ker l r) of None \<Rightarrow> [] | Some x \<Rightarrow> [x]) @
      f (if fst (snd (ker l r)) then ls else l # ls) (if snd (snd (ker l r)) then rs else r # rs)"
    and moves: "fst (snd (ker l r)) \<or> snd (snd (ker l r))"
    and capacity: "cap (Suc m - of_bool (fst (snd (ker l r)))) (Suc n - of_bool (snd (snd (ker l r))))
      + of_bool (fst (ker l r) \<noteq> None) \<le> cap (Suc m) (Suc n)"
begin

definition left_of :: "'a list \<Rightarrow> 'a set_lane \<Rightarrow> 'a list" where
  "left_of lp a = drop (sl_left a) (take (sl_left_stop a) lp)"

definition right_of :: "'a list \<Rightarrow> 'a set_lane \<Rightarrow> 'a list" where
  "right_of rp a = drop (sl_right a) (take (sl_right_stop a) rp)"

text \<open>Lane \<open>a\<close>, whose results start at \<open>s\<close> and must stay below \<open>e\<close>; \<open>F\<close> is the result of its slices.\<close>

definition lane_ok :: "'a list \<Rightarrow> 'a list \<Rightarrow> 'a list \<Rightarrow> nat \<times> nat \<times> 'a list \<Rightarrow> 'a set_lane \<Rightarrow> bool" where
  "lane_ok lp rp op seF a \<longleftrightarrow> (let (s, e, F) = seF in
     sl_left a \<le> sl_left_stop a \<and> sl_left_stop a \<le> length lp \<and> sl_right_stop a \<le> length rp \<and>
     (sl_left a < sl_left_stop a \<longrightarrow> sl_right a \<le> sl_right_stop a) \<and>
     s \<le> sl_out a \<and> sl_out a + cap (sl_left_stop a - sl_left a) (sl_right_stop a - sl_right a) \<le> e \<and> e \<le> length op \<and>
     drop s (take (sl_out a) op) @ f (left_of lp a) (right_of rp a) = F)"

definition todo :: "'a set_lane \<Rightarrow> nat" where
  "todo a = (sl_left_stop a - sl_left a) + (sl_right_stop a - sl_right a)"

definition loaded :: "'a list \<Rightarrow> 'a list \<Rightarrow> 'a set_lane \<Rightarrow> bool" where
  "loaded lp rp a \<longleftrightarrow> (sl_active a \<longrightarrow> sl_elm a = Some (lp ! sl_left a, rp ! sl_right a))"

lemma lane_active:
  assumes "lane_ok lp rp op seF a" "sl_active a"
  shows "sl_left a < sl_left_stop a" "sl_right a < sl_right_stop a" "sl_left a < length lp" "sl_right a < length rp"
    "left_of lp a = lp ! sl_left a # drop (Suc (sl_left a)) (take (sl_left_stop a) lp)"
    "right_of rp a = rp ! sl_right a # drop (Suc (sl_right a)) (take (sl_right_stop a) rp)"
proof -
  show 1: "sl_left a < sl_left_stop a" "sl_right a < sl_right_stop a" "sl_left a < length lp" "sl_right a < length rp"
    using assms by (auto simp: lane_ok_def sl_active_def Let_def split: prod.splits)
  have 2: "sl_left_stop a \<le> length lp" "sl_right_stop a \<le> length rp"
    using assms(1) by (auto simp: lane_ok_def Let_def split: prod.splits)
  show "left_of lp a = lp ! sl_left a # drop (Suc (sl_left a)) (take (sl_left_stop a) lp)"
    using 1 2 Cons_nth_drop_Suc [of "sl_left a" "take (sl_left_stop a) lp"] by (simp add: left_of_def)
  show "right_of rp a = rp ! sl_right a # drop (Suc (sl_right a)) (take (sl_right_stop a) rp)"
    using 1 2 Cons_nth_drop_Suc [of "sl_right a" "take (sl_right_stop a) rp"] by (simp add: right_of_def)
qed

definition lane_next :: "'a list \<Rightarrow> 'a list \<Rightarrow> 'a set_lane \<Rightarrow> 'a set_lane" where
  "lane_next lp rp a = (let (out, dl, dr) = ker (lp ! sl_left a) (rp ! sl_right a) in
     a\<lparr>sl_left := sl_left a + of_bool dl, sl_right := sl_right a + of_bool dr, sl_out := sl_out a + of_bool (out \<noteq> None)\<rparr>)"

definition op_next :: "'a list \<Rightarrow> 'a list \<Rightarrow> 'a list \<Rightarrow> 'a set_lane \<Rightarrow> 'a list" where
  "op_next lp rp op a = (case fst (ker (lp ! sl_left a) (rp ! sl_right a)) of None \<Rightarrow> op | Some x \<Rightarrow> op[sl_out a := x])"

lemma lane_next_ok:
  assumes a: "lane_ok lp rp op (s, e, F) a" "sl_active a"
  shows "lane_ok lp rp (op_next lp rp op a) (s, e, F) (lane_next lp rp a)"
    and "todo (lane_next lp rp a) < todo a"
    and "fst (ker (lp ! sl_left a) (rp ! sl_right a)) \<noteq> None \<Longrightarrow> sl_out a < e"
proof -
  let ?k = "ker (lp ! sl_left a) (rp ! sl_right a)"
  obtain out dl dr where k: "?k = (out, dl, dr)" by (cases ?k) auto
  note act = lane_active [OF a]
  have ok: "sl_left_stop a \<le> length lp" "sl_right_stop a \<le> length rp" "s \<le> sl_out a" "e \<le> length op"
    "sl_out a + cap (sl_left_stop a - sl_left a) (sl_right_stop a - sl_right a) \<le> e"
    "drop s (take (sl_out a) op) @ f (left_of lp a) (right_of rp a) = F"
    using a(1) by (simp_all add: lane_ok_def)
  have cap: "cap (sl_left_stop a - (sl_left a + of_bool dl)) (sl_right_stop a - (sl_right a + of_bool dr)) + of_bool (out \<noteq> None)
      \<le> cap (sl_left_stop a - sl_left a) (sl_right_stop a - sl_right a)"
    using capacity [of "sl_left_stop a - sl_left a - 1" "lp ! sl_left a" "rp ! sl_right a" "sl_right_stop a - sl_right a - 1"] act(1,2)
    by (simp add: k Suc_diff_Suc)
  show room: "sl_out a < e" if "fst ?k \<noteq> None" using that cap ok(5) by (simp add: k)
  show "todo (lane_next lp rp a) < todo a"
    using moves [of "lp ! sl_left a" "rp ! sl_right a"] act(1,2) by (auto simp: lane_next_def k todo_def)
  have slices: "f (left_of lp a) (right_of rp a) = (case out of None \<Rightarrow> [] | Some x \<Rightarrow> [x]) @
      f (left_of lp (lane_next lp rp a)) (right_of rp (lane_next lp rp a))"
    unfolding act(5,6) step by (auto simp: k lane_next_def left_of_def right_of_def act(5,6) [unfolded left_of_def right_of_def])
  have written: "drop s (take (sl_out (lane_next lp rp a)) (op_next lp rp op a)) =
      drop s (take (sl_out a) op) @ (case out of None \<Rightarrow> [] | Some x \<Rightarrow> [x])"
    using room ok(3,4) by (auto simp: lane_next_def op_next_def k take_Suc_conv_app_nth split: option.splits)
  show "lane_ok lp rp (op_next lp rp op a) (s, e, F) (lane_next lp rp a)"
    unfolding lane_ok_def Let_def prod.case written
    using ok cap slices act(1-4) by (auto simp: lane_next_def op_next_def k split: option.splits)
qed

text \<open>The lanes' regions do not overlap.\<close>

definition apart :: "(nat \<times> nat \<times> 'a list) list \<Rightarrow> bool" where
  "apart sp \<longleftrightarrow> (\<forall>i<length sp. \<forall>j<length sp. i \<noteq> j \<longrightarrow>
     fst (snd (sp ! i)) \<le> fst (sp ! j) \<or> fst (snd (sp ! j)) \<le> fst (sp ! i))"

definition lanes_ok :: "'a list \<Rightarrow> 'a list \<Rightarrow> (nat \<times> nat \<times> 'a list) list \<Rightarrow> 'a list \<Rightarrow> 'a set_lane list \<Rightarrow> bool" where
  "lanes_ok lp rp sp op lanes \<longleftrightarrow> length lanes = length sp \<and> (\<forall>i<length sp. lane_ok lp rp op (sp ! i) (lanes ! i))"

lemma lane_ok_write:
  assumes "lane_ok lp rp op seF a" "p < fst seF \<or> fst (snd seF) \<le> p"
  shows "lane_ok lp rp (op[p := x]) seF a"
proof -
  obtain s e F where [simp]: "seF = (s, e, F)" by (cases seF)
  have "sl_out a \<le> e" using assms(1) by (simp add: lane_ok_def)
  then have "drop s (take (sl_out a) (op[p := x])) = drop s (take (sl_out a) op)"
    using assms(2) by (cases "sl_out a \<le> p") (auto simp: take_update_swap drop_update_cancel list_update_beyond)
  then show ?thesis using assms(1) by (simp add: lane_ok_def)
qed

lemma set_step_ok:
  assumes ok: "lanes_ok lp rp sp op lanes" and "apart sp" and j: "j < length sp" and "loaded lp rp (lanes ! j)"
  shows "ok (set_step ker j (v, op, lanes)) (\<lambda>(v', op', lanes'). lanes_ok lp rp sp op' lanes' \<and> length op' = length op \<and>
    (\<forall>k<length sp. k \<noteq> j \<longrightarrow> lanes' ! k = lanes ! k) \<and>
    (if sl_active (lanes ! j) then v' \<and> todo (lanes' ! j) < todo (lanes ! j) else v' = v \<and> lanes' = lanes))"
proof (cases "sl_active (lanes ! j)")
  case False
  then show ?thesis using assms by (simp add: set_step_def ok_simps lanes_ok_def)
next
  case act: True
  let ?a = "lanes ! j"
  obtain s e F where sp: "sp ! j = (s, e, F)" by (cases "sp ! j")
  have len: "length lanes = length sp" using ok by (simp add: lanes_ok_def)
  have a: "lane_ok lp rp op (s, e, F) ?a" using ok j sp by (metis lanes_ok_def)
  note nxt = lane_next_ok [OF a act]
  obtain out dl dr where k: "ker (lp ! sl_left ?a) (rp ! sl_right ?a) = (out, dl, dr)"
    by (cases "ker (lp ! sl_left ?a) (rp ! sl_right ?a)") auto
  have e: "e \<le> length op" "s \<le> sl_out ?a" using a by (simp_all add: lane_ok_def)
  have step: "set_step ker j (v, op, lanes) = Some (True, op_next lp rp op ?a, lanes[j := lane_next lp rp ?a])"
  proof -
    have "(case out of None \<Rightarrow> Some op | Some x \<Rightarrow> wr op (sl_out ?a) x) = Some (op_next lp rp op ?a)"
      using nxt(3) e by (auto simp: op_next_def k split: option.splits)
    then show ?thesis
      using assms(4) act j len by (simp add: set_step_def loaded_def lane_next_def k)
  qed
  have "lane_ok lp rp (op_next lp rp op ?a) (sp ! i) (lanes ! i)" if i: "i < length sp" "i \<noteq> j" for i
  proof (cases out)
    case None
    then show ?thesis using ok i by (simp add: op_next_def k lanes_ok_def)
  next
    case (Some x)
    then have "sl_out ?a < fst (sp ! i) \<or> fst (snd (sp ! i)) \<le> sl_out ?a"
      using \<open>apart sp\<close> i j nxt(3) e sp k unfolding apart_def by fastforce
    then show ?thesis using ok i lane_ok_write by (simp add: op_next_def k Some lanes_ok_def)
  qed
  then have "lanes_ok lp rp sp (op_next lp rp op ?a) (lanes[j := lane_next lp rp ?a])"
    using nxt(1) sp len unfolding lanes_ok_def by (metis length_list_update nth_list_update_eq nth_list_update_neq)
  moreover have "length (op_next lp rp op ?a) = length op" by (simp add: op_next_def k split: option.splits)
  ultimately show ?thesis using act nxt(2) j len by (simp add: step)
qed

definition todos :: "'a set_lane list \<Rightarrow> nat" where
  "todos lanes = (\<Sum>k<length lanes. todo (lanes ! k))"

lemma set_load_ok:
  assumes "lanes_ok lp rp sp op lanes"
  shows "ok (omap (set_load lp rp) lanes) (\<lambda>lanes'. lanes_ok lp rp sp op lanes' \<and> todos lanes' = todos lanes \<and>
    (\<forall>k<length sp. loaded lp rp (lanes' ! k)))"
proof -
  have "set_load lp rp a = Some (if sl_active a then a\<lparr>sl_elm := Some (lp ! sl_left a, rp ! sl_right a)\<rparr> else a)"
    if a: "a \<in> set lanes" for a
  proof -
    obtain i where "i < length sp" "a = lanes ! i" using a assms by (metis in_set_conv_nth lanes_ok_def)
    then have "lane_ok lp rp op (sp ! i) a" using assms by (simp add: lanes_ok_def)
    then show ?thesis using lane_active(3,4) by (auto simp: set_load_def)
  qed
  then have "omap (set_load lp rp) lanes
      = Some (map (\<lambda>a. if sl_active a then a\<lparr>sl_elm := Some (lp ! sl_left a, rp ! sl_right a)\<rparr> else a) lanes)"
    by (rule omap_Some)
  then show ?thesis using assms
    by (auto simp: lanes_ok_def lane_ok_def left_of_def right_of_def loaded_def sl_active_def todos_def todo_def
        intro!: sum.cong)
qed

lemma set_round_ok:
  assumes ok: "lanes_ok lp rp sp op lanes" and ap: "apart sp" and ld: "\<forall>k<length sp. loaded lp rp (lanes ! k)"
  shows "ok (for_each (set_step ker) [0..<length lanes] (False, op, lanes)) (\<lambda>(v, op', lanes').
    lanes_ok lp rp sp op' lanes' \<and> length op' = length op \<and> (if v then todos lanes' < todos lanes else todos lanes' = todos lanes \<and> (\<forall>a\<in>set lanes'. \<not> sl_active a)))"
proof -
  have len: "length lanes = length sp" using ok by (simp add: lanes_ok_def)
  define I where "I j st = (case st of (v, op', lanes') \<Rightarrow> lanes_ok lp rp sp op' lanes' \<and> length op' = length op \<and>
      (\<forall>k<length sp. j \<le> k \<longrightarrow> lanes' ! k = lanes ! k) \<and> (\<forall>k<length sp. todo (lanes' ! k) \<le> todo (lanes ! k)) \<and>
      (if v then \<exists>k<length sp. todo (lanes' ! k) < todo (lanes ! k)
       else lanes' = lanes \<and> (\<forall>k<j. \<not> sl_active (lanes ! k))))" for j st
  have "ok (for_each (set_step ker) [0..<length sp] (False, op, lanes)) (I (length sp))"
  proof (rule ok_for_range [where I = I])
    show "I 0 (False, op, lanes)" using ok by (simp add: I_def)
    fix j st
    assume j: "j < length sp" and st: "I j st"
    obtain v op' lanes' where [simp]: "st = (v, op', lanes')" by (cases st)
    have eq: "lanes' ! j = lanes ! j" and ok': "lanes_ok lp rp sp op' lanes'" using st j by (simp_all add: I_def)
    have "loaded lp rp (lanes' ! j)" using eq ld j by simp
    from set_step_ok [OF ok' ap j this, of v] show "ok (set_step ker j st) (I (Suc j))"
      unfolding \<open>st = (v, op', lanes')\<close>
    proof (rule ok_mono)
      fix r
      assume r: "case r of (v', op'', lanes'') \<Rightarrow> lanes_ok lp rp sp op'' lanes'' \<and> length op'' = length op' \<and>
        (\<forall>k<length sp. k \<noteq> j \<longrightarrow> lanes'' ! k = lanes' ! k) \<and>
        (if sl_active (lanes' ! j) then v' \<and> todo (lanes'' ! j) < todo (lanes' ! j) else v' = v \<and> lanes'' = lanes')"
      obtain v' op'' lanes'' where [simp]: "r = (v', op'', lanes'')" by (cases r)
      show "I (Suc j) r"
      proof (cases "sl_active (lanes ! j)")
        case True
        then have r': "lanes_ok lp rp sp op'' lanes''" "length op'' = length op'" "\<forall>k<length sp. k \<noteq> j \<longrightarrow> lanes'' ! k = lanes' ! k"
          "v'" "todo (lanes'' ! j) < todo (lanes ! j)" using r eq by simp_all
        have "todo (lanes'' ! k) \<le> todo (lanes ! k)" if "k < length sp" for k
          using r' st that by (cases "k = j") (auto simp: I_def)
        then show ?thesis using r' st j by (auto simp: I_def)
      next
        case False
        then show ?thesis using r eq st by (auto simp: I_def less_Suc_eq split: if_splits)
      qed
    qed
  qed simp
  then show ?thesis unfolding len
  proof (rule ok_mono)
    fix st
    assume st: "I (length sp) st"
    obtain v op' lanes' where [simp]: "st = (v, op', lanes')" by (cases st)
    have len': "length lanes' = length sp" using st by (simp add: I_def lanes_ok_def)
    have "todos lanes' < todos lanes" if v
      unfolding todos_def len len' by (rule sum_strict_mono_ex1) (use st that in \<open>auto simp: I_def\<close>)
    then show "case st of (v, op', lanes') \<Rightarrow> lanes_ok lp rp sp op' lanes' \<and> length op' = length op \<and>
      (if v then todos lanes' < todos lanes else todos lanes' = todos lanes \<and> (\<forall>a\<in>set lanes'. \<not> sl_active a))"
      using st len by (auto simp: I_def in_set_conv_nth)
  qed
qed

lemma set_vreg_ok:
  assumes ok: "lanes_ok lp rp sp op lanes" and ap: "apart sp"
  shows "ok (set_vreg ker lp rp op lanes) (\<lambda>(op', lanes'). lanes_ok lp rp sp op' lanes' \<and>
    length op' = length op \<and> (\<forall>a\<in>set lanes'. \<not> sl_active a))"
proof -
  define body where "body = (\<lambda>(_ :: bool, op, lanes). do {
         lanes \<leftarrow> omap (set_load lp rp) lanes;
         for_each (set_step ker) [0..<length lanes] (False, op, lanes) })"
  let ?I = "\<lambda>(v, op', lanes'). lanes_ok lp rp sp op' lanes' \<and> length op' = length op \<and> (\<not> v \<longrightarrow> (\<forall>a\<in>set lanes'. \<not> sl_active a))"
  have "ok (cwhile fst body (True, op, lanes)) (\<lambda>(_, op', lanes'). lanes_ok lp rp sp op' lanes' \<and> length op' = length op \<and> (\<forall>a\<in>set lanes'. \<not> sl_active a))"
  proof (rule ok_while [where I = ?I and m = "\<lambda>(v, _, lanes). todos lanes + of_bool v"])
    fix st
    assume st: "?I st" "fst st"
    obtain op' lanes' where [simp]: "st = (True, op', lanes')" using st(2) by (cases st) auto
    from set_load_ok [of lp rp sp op' lanes'] st obtain l2 where l2: "omap (set_load lp rp) lanes' = Some l2"
      "lanes_ok lp rp sp op' l2" "todos l2 = todos lanes'" "\<forall>k<length sp. loaded lp rp (l2 ! k)"
      by (auto simp: ok_iff_ex)
    have lo: "length op' = length op" using st by simp
    from set_round_ok [OF l2(2) ap l2(4)] show "ok (body st) (\<lambda>st'. ?I st' \<and>
      (case st' of (v, _, lanes) \<Rightarrow> todos lanes + of_bool v) < (case st of (v, _, lanes) \<Rightarrow> todos lanes + of_bool v))"
      by (simp add: body_def l2(1)) (auto simp: l2(3) lo elim!: ok_mono split: if_splits)
  qed (use ok in auto)
  then obtain v op' lanes' where "cwhile fst body (True, op, lanes) = Some (v, op', lanes')"
    "lanes_ok lp rp sp op' lanes'" "length op' = length op" "\<forall>a\<in>set lanes'. \<not> sl_active a"
    by (auto simp: ok_iff_ex)
  moreover have "set_vreg ker lp rp op lanes = do { (_, op, lanes) \<leftarrow> cwhile fst body (True, op, lanes); Some (op, lanes) }"
    unfolding set_vreg_def body_def ..
  ultimately show ?thesis by simp
qed

end

end
