(* ===== verification/SetBuild.thy ===== *)
theory SetBuild
  imports SetLanes
begin

text \<open>
  core/set_operations.hpp, the vector build: the cuts separate the keys, and the slices' results put
  together are the sequential result.
\<close>

subsection \<open>The cuts separate the keys\<close>

text \<open>Every element before the cuts is smaller than every element behind them.\<close>

definition separates :: "('k \<Rightarrow> 'k \<Rightarrow> bool) \<Rightarrow> 'k list \<Rightarrow> 'k list \<Rightarrow> nat \<Rightarrow> nat \<Rightarrow> bool" where
  "separates lt L R b r \<longleftrightarrow>
     (\<forall>x\<in>set (take b L) \<union> set (take r R). \<forall>y\<in>set (drop b L) \<union> set (drop r R). lt x y)"

definition good_cuts :: "('k \<Rightarrow> 'k \<Rightarrow> bool) \<Rightarrow> 'k list \<Rightarrow> 'k list \<Rightarrow> nat list \<Rightarrow> nat list \<Rightarrow> bool" where
  "good_cuts lt L R bs rs \<longleftrightarrow> length bs = length rs \<and> 0 < length bs \<and> bs ! 0 = 0 \<and> rs ! 0 = 0 \<and>
     sorted bs \<and> sorted rs \<and> (\<forall>b\<in>set bs. b \<le> length L) \<and> (\<forall>r\<in>set rs. r \<le> length R) \<and>
     (\<forall>i<length bs. separates lt L R (bs ! i) (rs ! i))"

lemma length_takeWhile_mono: "(\<And>x. P x \<Longrightarrow> Q x) \<Longrightarrow> length (takeWhile P xs) \<le> length (takeWhile Q xs)"
  by (induction xs) auto

lemma set_each_pos: "0 < set_each VLEN n"
  by (auto simp: set_each_def Let_def)

lemma set_positions_nth: "i < VLEN \<Longrightarrow> set_positions VLEN n ! i = min (set_each VLEN n * i) n"
  by (simp add: set_positions_def Let_def)

lemma length_set_positions [simp]: "length (set_positions VLEN n) = VLEN"
  by (simp add: set_positions_def)

lemma split_from_mono:
  assumes "0 < p" "p \<le> q" "q \<le> n" "n < length left"
  shows "split_from left n p \<le> split_from left n q"
proof (rule ccontr)
  assume "\<not> split_from left n p \<le> split_from left n q"
  then have lt: "split_from left n q < split_from left n p" by simp
  have q: "q \<le> split_from left n q" "split_from left n q \<le> n"
    using split_from_bounds [of q n left] assms by simp_all
  have same: "left ! k = left ! (p - 1) \<and> k < n" if "p \<le> k" "k < split_from left n p" for k
    using split_from_iff [of p k left n] that assms by simp
  have "left ! (q - 1) = left ! (p - 1)"
    using same [of "q - 1"] lt q assms by (cases "q = p") auto
  moreover have "left ! split_from left n q = left ! (p - 1) \<and> split_from left n q < n"
    using same [of "split_from left n q"] lt q assms by simp
  ultimately show False
    using split_from_iff [of q "split_from left n q" left n] q assms by simp
qed

text \<open>The order of an operation and the binary search that goes with it.\<close>

locale cut_order =
  fixes lt :: "'k::zero \<Rightarrow> 'k \<Rightarrow> bool" and search :: "'k list \<Rightarrow> 'k list \<Rightarrow> nat list \<Rightarrow> nat list option"
  assumes irrefl: "\<not> lt x x" and trans: "lt x y \<Longrightarrow> lt y z \<Longrightarrow> lt x z"
    and total: "x \<noteq> y \<Longrightarrow> lt x y \<or> lt y x"
    and search: "length ret = length vs \<Longrightarrow> sorted_wrt (\<lambda>x y. \<not> lt y x) srt \<Longrightarrow>
      search srt vs ret = Some (map (\<lambda>v. length (takeWhile (\<lambda>x. lt x v) srt)) vs)"
begin

abbreviation srt :: "'k list \<Rightarrow> bool" where
  "srt \<equiv> sorted_wrt (\<lambda>x y. \<not> lt y x)"

lemma le_lt: "\<not> lt y x \<Longrightarrow> lt y z \<Longrightarrow> lt x z"
  using total [of x y] trans by blast

lemma lt_le: "lt x y \<Longrightarrow> \<not> lt z y \<Longrightarrow> lt x z"
  using total [of y z] trans by blast

text \<open>The moved cuts of the left array.\<close>

definition left_cuts :: "'k list \<Rightarrow> nat \<Rightarrow> nat \<Rightarrow> nat list" where
  "left_cuts left n VLEN = map (split_target left n) (enumerate 0 (set_positions VLEN n))"

lemma length_left_cuts [simp]: "length (left_cuts left n VLEN) = VLEN"
  by (simp add: left_cuts_def)

lemma left_cuts_nth:
  "i < VLEN \<Longrightarrow> left_cuts left n VLEN ! i = split_target left n (i, min (set_each VLEN n * i) n)"
  by (simp add: left_cuts_def nth_enumerate_eq set_positions_nth)

lemma advance_left_cuts:
  assumes "0 < n" "n < length left"
  shows "advance_to_split_vreg (set_positions VLEN n) n left = Some (left_cuts left n VLEN)"
  unfolding left_cuts_def using assms set_each_pos [of VLEN n]
  by (intro advance_to_split_eq) (simp_all add: set_positions_nth)

lemma left_cuts_0: "0 < VLEN \<Longrightarrow> left_cuts left n VLEN ! 0 = 0"
  by (simp add: left_cuts_nth split_target_def)

lemma left_cuts_le:
  assumes "i < VLEN" "n < length left"
  shows "left_cuts left n VLEN ! i \<le> n"
  using assms split_from_bounds [of "min (set_each VLEN n * i) n" n left]
  by (auto simp: left_cuts_nth split_target_def)

lemma left_cuts_mono:
  assumes "i \<le> j" "j < VLEN" "0 < n" "n < length left"
  shows "left_cuts left n VLEN ! i \<le> left_cuts left n VLEN ! j"
proof (cases "i = 0 \<or> min (set_each VLEN n * j) n = n")
  case True
  then show ?thesis
    using left_cuts_le [of i VLEN n left] assms left_cuts_0 [of VLEN left n]
    by (auto simp: left_cuts_nth [of j] split_target_def)
next
  case False
  let ?p = "min (set_each VLEN n * i) n" and ?q = "min (set_each VLEN n * j) n"
  have pq: "?p \<le> ?q" using assms(1) by (metis min.mono mult_le_mono2 order_refl)
  have p: "0 < ?p" using False set_each_pos [of VLEN n] assms by simp
  have "?p < n" using False pq by (metis le_neq_trans min.cobounded2 order_trans_rules(24))
  then show ?thesis
    using split_from_mono [OF p pq _ assms(4)] False assms p
    by (auto simp: left_cuts_nth split_target_def)
qed

lemma left_cut_key:
  assumes "i < VLEN" "0 < i" "0 < n" "n < length left" "left_cuts left n VLEN ! i < n"
  shows "0 < left_cuts left n VLEN ! i \<and> left ! (left_cuts left n VLEN ! i) \<noteq> left ! (left_cuts left n VLEN ! i - 1)"
proof -
  define p where "p = min (set_each VLEN n * i) n"
  define b where "b = split_from left n p"
  have p: "p \<noteq> n" using assms by (auto simp: left_cuts_nth split_target_def p_def)
  have p0: "0 < p" "p \<le> n" using set_each_pos [of VLEN n] assms by (simp_all add: p_def)
  have b: "left_cuts left n VLEN ! i = b"
    using p assms(1,2) unfolding left_cuts_nth [OF assms(1)] split_target_def p_def b_def by auto
  have bn: "p \<le> b" "b < n" using split_from_bounds [of p n left] p0 assms b by (simp_all add: b_def)
  have 1: "left ! b \<noteq> left ! (p - 1)" using split_from_iff [of p b left n] bn assms p0 by (simp add: b_def)
  have "left ! (b - 1) = left ! (p - 1)"
    using split_from_iff [of p "b - 1" left n] bn assms p0 by (cases "b = p") (auto simp: b_def)
  then show ?thesis using 1 b bn p0 by simp
qed

lemma srt_nth: "srt xs \<Longrightarrow> i \<le> j \<Longrightarrow> j < length xs \<Longrightarrow> \<not> lt (xs ! j) (xs ! i)"
  using irrefl by (cases "i = j") (auto simp: sorted_wrt_iff_nth_less)

text \<open>Before a moved cut all keys are smaller than the key at the cut.\<close>

lemma left_cut_less:
  assumes "srt (take n left)" "i < VLEN" "0 < n" "n < length left" "left_cuts left n VLEN ! i < n"
    and "x \<in> set (take (left_cuts left n VLEN ! i) (take n left))"
  shows "lt x (left ! (left_cuts left n VLEN ! i))"
proof -
  let ?b = "left_cuts left n VLEN ! i"
  obtain k where k: "k < ?b" "x = left ! k" using assms(5,6) by (auto simp: in_set_conv_nth)
  then have "0 < i" using left_cuts_0 [of VLEN left n] assms(2) by (cases i) auto
  from left_cut_key [OF assms(2) this assms(3,4,5)] have ne: "left ! ?b \<noteq> left ! (?b - 1)" by simp
  have nth: "take n left ! j = left ! j" if "j \<le> ?b" for j using that assms(5) by simp
  have "\<not> lt (left ! ?b) (left ! (?b - 1))"
    using srt_nth [OF assms(1), of "?b - 1" ?b] nth assms(4,5) by simp
  then have "lt (left ! (?b - 1)) (left ! ?b)" using total [OF ne] by blast
  moreover have "\<not> lt (left ! (?b - 1)) x"
    using srt_nth [OF assms(1), of k "?b - 1"] nth k assms(4,5) by simp
  ultimately show ?thesis using le_lt by blast
qed

text \<open>The cuts of the right array.\<close>

definition cut_key :: "'k list \<Rightarrow> nat \<Rightarrow> nat \<Rightarrow> 'k" where
  "cut_key left n b = (if b < n then left ! b else 0)"

definition right_cuts :: "'k list \<Rightarrow> nat \<Rightarrow> 'k list \<Rightarrow> nat \<Rightarrow> nat list" where
  "right_cuts left n R VLEN = map (\<lambda>i. let b = left_cuts left n VLEN ! i in
     if b = n then length R else if i = 0 then 0 else length (takeWhile (\<lambda>x. lt x (left ! b)) R)) [0..<VLEN]"

lemma length_right_cuts [simp]: "length (right_cuts left n R VLEN) = VLEN"
  by (simp add: right_cuts_def)

lemma set_cuts_eq:
  assumes "0 < n" "n < length left" "srt R" "0 < VLEN"
  shows "set_cuts search VLEN left n R = Some (left_cuts left n VLEN, right_cuts left n R VLEN)"
proof -
  let ?bs = "left_cuts left n VLEN"
  let ?st = "map (cut_key left n) ?bs"
  let ?rs = "map (\<lambda>v. length (takeWhile (\<lambda>x. lt x v) R)) ?st"
  have "omap (\<lambda>p. if p < n then rd left p else Some 0) ?bs = Some ?st"
    using assms(2) by (intro omap_Some) (auto simp: cut_key_def)
  moreover have "search R ?st (replicate VLEN 0) = Some ?rs"
    using assms(3) by (intro search) simp_all
  moreover have "map2 (\<lambda>l r. if l = n then length R else r) ?bs (?rs[0 := 0]) = right_cuts left n R VLEN"
  proof (rule nth_equalityI)
    fix i assume "i < length (map2 (\<lambda>l r. if l = n then length R else r) ?bs (?rs[0 := 0]))"
    then have i: "i < VLEN" by simp
    then have "?bs ! i \<le> n" using left_cuts_le assms(2) by blast
    then show "map2 (\<lambda>l r. if l = n then length R else r) ?bs (?rs[0 := 0]) ! i = right_cuts left n R VLEN ! i"
      using i by (cases i) (auto simp: right_cuts_def Let_def cut_key_def)
  qed simp
  ultimately show ?thesis using assms by (simp add: set_cuts_def advance_left_cuts Let_def)
qed

lemma takeWhile_separates:
  assumes "srt R"
  shows "x \<in> set (take (length (takeWhile (\<lambda>x. lt x v) R)) R) \<Longrightarrow> lt x v"
    and "y \<in> set (drop (length (takeWhile (\<lambda>x. lt x v) R)) R) \<Longrightarrow> \<not> lt y v"
proof -
  let ?m = "length (takeWhile (\<lambda>x. lt x v) R)"
  show "lt x v" if "x \<in> set (take ?m R)"
    using that set_takeWhileD by (fastforce simp: takeWhile_eq_take [symmetric])
  show "\<not> lt y v" if y: "y \<in> set (drop ?m R)"
  proof
    assume "lt y v"
    obtain k where k: "k < length R - ?m" "y = R ! (?m + k)" using y by (auto simp: in_set_conv_nth)
    have "\<not> lt (R ! ?m) v" using nth_length_takeWhile [of "\<lambda>x. lt x v" R] k by simp
    moreover have "\<not> lt (R ! (?m + k)) (R ! ?m)" using srt_nth [OF assms, of ?m "?m + k"] k by simp
    ultimately show False using \<open>lt y v\<close> k le_lt by blast
  qed
qed

lemma cuts_separate:
  assumes "srt (take n left)" "srt R" "0 < n" "n < length left" "i < VLEN"
  shows "separates lt (take n left) R (left_cuts left n VLEN ! i) (right_cuts left n R VLEN ! i)"
proof -
  let ?b = "left_cuts left n VLEN ! i" and ?r = "right_cuts left n R VLEN ! i"
  have bn: "?b \<le> n" using left_cuts_le assms by blast
  consider "?b = n" | "i = 0" "?b < n" | "0 < i" "?b < n" using bn by linarith
  then show ?thesis
  proof cases
    case 1
    then show ?thesis using assms(5) by (simp add: separates_def right_cuts_def Let_def)
  next
    case 2
    then show ?thesis using assms(5) left_cuts_0 [of VLEN left n] by (simp add: separates_def right_cuts_def Let_def)
  next
    case 3
    let ?v = "left ! ?b"
    have r: "?r = length (takeWhile (\<lambda>x. lt x ?v) R)" using 3 assms(5) by (simp add: right_cuts_def Let_def)
    have "lt x ?v" if "x \<in> set (take ?b (take n left)) \<union> set (take ?r R)" for x
      using that left_cut_less [OF assms(1,5,3,4) 3(2), of x] takeWhile_separates(1) [OF assms(2), of x ?v] r by auto
    moreover have "\<not> lt y ?v" if y: "y \<in> set (drop ?b (take n left)) \<union> set (drop ?r R)" for y
    proof -
      have "\<not> lt y ?v" if l: "y \<in> set (drop ?b (take n left))"
      proof -
        obtain k where "k < n - ?b" "y = left ! (?b + k)" using l assms(4) by (auto simp: in_set_conv_nth)
        then show ?thesis using srt_nth [OF assms(1), of ?b "?b + k"] assms(4) by simp
      qed
      then show ?thesis using y takeWhile_separates(2) [OF assms(2), of y ?v] r by auto
    qed
    ultimately show ?thesis unfolding separates_def using lt_le by blast
  qed
qed

lemma right_cuts_mono:
  assumes "srt (take n left)" "srt R" "0 < n" "n < length left" "i \<le> j" "j < VLEN"
  shows "right_cuts left n R VLEN ! i \<le> right_cuts left n R VLEN ! j"
proof -
  let ?b = "\<lambda>i. left_cuts left n VLEN ! i" and ?r = "\<lambda>i. right_cuts left n R VLEN ! i"
  have b: "?b i \<le> ?b j" "?b j \<le> n" using left_cuts_mono left_cuts_le assms by auto
  consider "?b j = n" | "?b j < n" "i = 0" | "?b j < n" "0 < i" using b by linarith
  then show ?thesis
  proof cases
    case 1
    then have "?r j = length R" using assms by (simp add: right_cuts_def Let_def)
    moreover have "?r i \<le> length R" using assms(5,6) by (auto simp: right_cuts_def Let_def length_takeWhile_le)
    ultimately show ?thesis by simp
  next
    case 2
    then show ?thesis using assms left_cuts_0 [of VLEN left n] by (auto simp: right_cuts_def Let_def)
  next
    case 3
    have "\<not> lt (left ! ?b j) (left ! ?b i)" using srt_nth [OF assms(1) b(1)] 3 b assms(4) by simp
    then have "lt x (left ! ?b i) \<Longrightarrow> lt x (left ! ?b j)" for x using lt_le by blast
    then show ?thesis using 3 b assms by (auto simp: right_cuts_def Let_def intro!: length_takeWhile_mono)
  qed
qed

lemma good_cuts_cuts:
  assumes "srt (take n left)" "srt R" "0 < n" "n < length left" "0 < VLEN"
  shows "good_cuts lt (take n left) R (left_cuts left n VLEN) (right_cuts left n R VLEN)"
  unfolding good_cuts_def
proof (intro conjI)
  show "sorted (left_cuts left n VLEN)" using left_cuts_mono assms by (simp add: sorted_iff_nth_mono)
  show "sorted (right_cuts left n R VLEN)" using right_cuts_mono assms by (simp add: sorted_iff_nth_mono)
  show "\<forall>b\<in>set (left_cuts left n VLEN). b \<le> length (take n left)"
    using left_cuts_le assms by (auto simp: in_set_conv_nth)
  show "\<forall>r\<in>set (right_cuts left n R VLEN). r \<le> length R"
    by (auto simp: right_cuts_def Let_def length_takeWhile_le)
  show "\<forall>i<length (left_cuts left n VLEN). separates lt (take n left) R (left_cuts left n VLEN ! i) (right_cuts left n R VLEN ! i)"
    using cuts_separate assms by simp
qed (use assms left_cuts_0 in \<open>auto simp: right_cuts_def Let_def\<close>)

end

interpretation asc: cut_order "(<) :: 'k::{linorder,zero} \<Rightarrow> 'k \<Rightarrow> bool" "lower_bound bound_vlen_ve"
proof unfold_locales
  fix ret :: "nat list" and vs srt :: "'k list"
  assume "length ret = length vs" "sorted_wrt (\<lambda>x y. \<not> y < x) srt"
  moreover have "(\<lambda>x y :: 'k. \<not> y < x) = (\<le>)" by (auto simp: not_less)
  ultimately show "lower_bound bound_vlen_ve srt vs ret = Some (map (\<lambda>v. length (takeWhile (\<lambda>x. x < v) srt)) vs)"
    using lb.search_takeWhile [of bound_vlen_ve ret vs srt] by (simp add: lower_bound_def bound_vlen_ve_def not_le)
qed auto

interpretation desc: cut_order "(>) :: 'k::{linorder,zero} \<Rightarrow> 'k \<Rightarrow> bool" "lower_bound_desc bound_vlen_ve"
proof unfold_locales
  fix ret :: "nat list" and vs srt :: "'k list"
  assume "length ret = length vs" "sorted_wrt (\<lambda>x y. \<not> x < y) srt"
  moreover have "(\<lambda>x y :: 'k. \<not> x < y) = (\<ge>)" by (auto simp: not_less)
  ultimately show "lower_bound_desc bound_vlen_ve srt vs ret = Some (map (\<lambda>v. length (takeWhile (\<lambda>x. v < x) srt)) vs)"
    using lb_desc.search_takeWhile [of bound_vlen_ve ret vs srt] by (simp add: lower_bound_desc_def bound_vlen_ve_def not_le)
qed auto

subsection \<open>The slices between the cuts\<close>

definition slice :: "'a list \<Rightarrow> nat list \<Rightarrow> nat \<Rightarrow> 'a list" where
  "slice xs cuts i = drop (cuts ! i) (take (set_stops cuts (length xs) ! i) xs)"

lemma length_set_stops [simp]: "0 < length idx \<Longrightarrow> length (set_stops idx n) = length idx"
  by (simp add: set_stops_def)

lemma set_stops_nth: "i < length idx \<Longrightarrow> set_stops idx n ! i = (if Suc i < length idx then idx ! Suc i else n)"
  by (auto simp: set_stops_def nth_append nth_tl)

lemma take_stops: "i < length cuts \<Longrightarrow> sorted cuts \<Longrightarrow> \<forall>c\<in>set cuts. c \<le> length xs \<Longrightarrow>
  cuts ! i \<le> set_stops cuts (length xs) ! i \<and> set_stops cuts (length xs) ! i \<le> length xs"
  by (auto simp: set_stops_nth sorted_iff_nth_mono)

lemma take_slice:
  assumes "i < length cuts" "sorted cuts" "\<forall>c\<in>set cuts. c \<le> length xs"
  shows "take (set_stops cuts (length xs) ! i) xs = take (cuts ! i) xs @ slice xs cuts i"
  using take_stops [OF assms] append_take_drop_id [of "cuts ! i" "take (set_stops cuts (length xs) ! i) xs"]
  by (simp add: slice_def min_def)

lemma set_out_idx_sum:
  assumes "sorted bs" "sorted rs" "length bs = length rs" "i < length bs" "bs ! 0 = 0" "rs ! 0 = 0"
  shows "set_out_idx bs rs i = bs ! i + rs ! i"
  using assms(4)
proof (induction i)
  case (Suc i)
  then show ?case using assms sorted_nth_mono [of bs i "Suc i"] sorted_nth_mono [of rs i "Suc i"] by simp
qed (use assms in simp)

lemma separates_fst: "separates lt (map fst L) (map fst R) b r = separates (\<lambda>p q. lt (fst p) (fst q)) L R b r"
  by (simp add: separates_def take_map drop_map ball_Un)

lemma good_cuts_zip:
  "good_cuts lt (map fst L) (map fst R) bs rs \<Longrightarrow> good_cuts (\<lambda>p q. lt (fst p) (fst q)) L R bs rs"
  by (auto simp: good_cuts_def separates_fst)

text \<open>A kernel whose operation splits at separating cuts, with what becomes of the tails.\<close>

locale split_kernel = lane_kernel ker f cap
  for ker :: "'a ker" and f :: "'a list \<Rightarrow> 'a list \<Rightarrow> 'a list" and cap :: "nat \<Rightarrow> nat \<Rightarrow> nat" +
  fixes lt :: "'a \<Rightarrow> 'a \<Rightarrow> bool" and keep_l keep_r :: bool
  assumes split: "\<forall>x\<in>set l \<union> set r. \<forall>y\<in>set l' \<union> set r'. lt x y \<Longrightarrow> f (l @ l') (r @ r') = f l r @ f l' r'"
    and tails: "f [] r = (if keep_r then r else [])" "f l [] = (if keep_l then l else [])"
begin

lemma chain:
  assumes good: "good_cuts lt L R bs rs" and k: "k < length bs"
  shows "f (take (set_stops bs (length L) ! k) L) (take (set_stops rs (length R) ! k) R)
    = concat (map (\<lambda>i. f (slice L bs i) (slice R rs i)) [0..<Suc k])"
  using k
proof (induction k)
  have bs: "sorted bs" "\<forall>c\<in>set bs. c \<le> length L" and rs: "sorted rs" "\<forall>c\<in>set rs. c \<le> length R"
    and len: "length rs = length bs" using good by (simp_all add: good_cuts_def)
  note ts = take_slice [OF _ bs] take_slice [OF _ rs, unfolded len]
  {
    case 0
    then show ?case using ts [of 0] good len tails by (simp add: good_cuts_def)
  next
    case (Suc k)
    have stop: "set_stops bs (length L) ! k = bs ! Suc k" "set_stops rs (length R) ! k = rs ! Suc k"
      using Suc.prems len by (simp_all add: set_stops_nth)
    have sep: "separates lt L R (bs ! Suc k) (rs ! Suc k)" using good Suc.prems by (simp add: good_cuts_def)
    have sub: "set (slice L bs (Suc k)) \<subseteq> set (drop (bs ! Suc k) L)" "set (slice R rs (Suc k)) \<subseteq> set (drop (rs ! Suc k) R)"
      by (simp_all add: slice_def drop_take set_take_subset)
    have "f (take (set_stops bs (length L) ! Suc k) L) (take (set_stops rs (length R) ! Suc k) R)
        = f (take (bs ! Suc k) L) (take (rs ! Suc k) R) @ f (slice L bs (Suc k)) (slice R rs (Suc k))"
      unfolding ts [OF Suc.prems] using sep sub by (intro split) (auto simp: separates_def)
    then show ?case using Suc by (simp add: stop)
  }
qed

lemma chain_all:
  assumes "good_cuts lt L R bs rs"
  shows "concat (map (\<lambda>i. f (slice L bs i) (slice R rs i)) [0..<length bs]) = f L R"
proof -
  have 1: "0 < length bs" "length rs = length bs" using assms by (auto simp: good_cuts_def)
  then have "set_stops bs (length L) ! (length bs - 1) = length L" "set_stops rs (length R) ! (length bs - 1) = length R"
    by (simp_all add: set_stops_nth)
  moreover obtain k where "length bs = Suc k" using 1 by (cases "length bs") auto
  ultimately show ?thesis using chain [OF assms, of k] by simp
qed

text \<open>A finished lane: what it wrote, followed by the kept tails, is the result of its slices.\<close>

lemma lane_finished:
  assumes "lane_ok lp rp op (s, e, F) a" "\<not> sl_active a"
  shows "F = drop s (take (sl_out a) op) @ (if keep_l then left_of lp a else []) @ (if keep_r then right_of rp a else [])"
    and "s \<le> sl_out a" "sl_out a \<le> length op" "sl_left a \<le> sl_left_stop a" "sl_left_stop a \<le> length lp"
    and "sl_right_stop a \<le> length rp"
  using assms tails by (auto simp: lane_ok_def sl_active_def left_of_def right_of_def)

end

subsection \<open>Collecting the results\<close>

lemma append_run_eq:
  assumes "a + n \<le> length src"
  shows "append_run src a n (done @ replicate (n + rest) z, length done)
    = Some ((done @ take n (drop a src)) @ replicate rest z, length (done @ take n (drop a src)))"
  using assms by (simp add: append_run_def copy_cells_eq)

context split_kernel
begin

definition kept :: "'a list \<Rightarrow> 'a list \<Rightarrow> nat \<Rightarrow> 'a set_lane \<Rightarrow> nat" where
  "kept lp rp s a = (sl_out a - s) + (if keep_l then sl_left_stop a - sl_left a else 0) +
     (if keep_r then sl_right_stop a - sl_right a else 0)"

lemma collect_lane:
  assumes ok: "lane_ok lp rp op (s, e, F) a" "\<not> sl_active a"
  shows "do {
         st \<leftarrow> append_run op s (sl_out a - s) (done @ replicate (kept lp rp s a + rest) z, length done);
         st \<leftarrow> (if keep_l then append_run lp (sl_left a) (sl_left_stop a - sl_left a) st else Some st);
         (if keep_r then append_run rp (sl_right a) (sl_right_stop a - sl_right a) st else Some st) }
    = Some ((done @ F) @ replicate rest z, length (done @ F))"
proof -
  note fin = lane_finished [OF ok]
  define d1 where "d1 = done @ drop s (take (sl_out a) op)"
  define d2 where "d2 = d1 @ (if keep_l then left_of lp a else [])"
  define tl tr where "tl = (if keep_l then sl_left_stop a - sl_left a else 0)" and
    "tr = (if keep_r then sl_right_stop a - sl_right a else 0)"
  have F: "done @ F = d2 @ (if keep_r then right_of rp a else [])" using fin(1) by (simp add: d1_def d2_def)
  have kept: "kept lp rp s a + rest = (sl_out a - s) + (tl + (tr + rest))" by (simp add: kept_def tl_def tr_def)
  have 1: "append_run op s (sl_out a - s) (done @ replicate (kept lp rp s a + rest) z, length done)
      = Some (d1 @ replicate (tl + (tr + rest)) z, length d1)"
    unfolding kept d1_def using fin by (subst append_run_eq) (simp_all add: drop_take)
  have 2: "(if keep_l then append_run lp (sl_left a) (sl_left_stop a - sl_left a) (d1 @ replicate (tl + (tr + rest)) z, length d1)
      else Some (d1 @ replicate (tl + (tr + rest)) z, length d1)) = Some (d2 @ replicate (tr + rest) z, length d2)"
  proof (cases keep_l)
    case True
    then have tl: "sl_left_stop a - sl_left a = tl" by (simp add: tl_def)
    have "sl_left a + tl \<le> length lp" using fin(4,5) tl by simp
    from append_run_eq [OF this, of d1 "tr + rest" z] show ?thesis
      using True by (simp add: tl d2_def left_of_def drop_take)
  qed (simp add: d2_def tl_def)
  have 3: "(if keep_r then append_run rp (sl_right a) (sl_right_stop a - sl_right a) (d2 @ replicate (tr + rest) z, length d2)
      else Some (d2 @ replicate (tr + rest) z, length d2)) = Some ((done @ F) @ replicate rest z, length (done @ F))"
  proof (cases keep_r)
    case True
    show ?thesis
    proof (cases "sl_right a \<le> sl_right_stop a")
      case le: True
      then have tr: "sl_right_stop a - sl_right a = tr" using True by (simp add: tr_def)
      have "sl_right a + tr \<le> length rp" using fin(6) tr le by simp
      from append_run_eq [OF this, of d2 rest z] show ?thesis
        using True by (simp add: F tr right_of_def drop_take)
    next
      case False
      then show ?thesis unfolding F tr_def using True by (simp add: append_run_def copy_cells_def right_of_def)
    qed
  next
    case False
    then show ?thesis unfolding F tr_def by simp
  qed
  show ?thesis unfolding 1 by (simp add: 2 3)
qed

lemma collect_lanes:
  assumes "list_all2 (\<lambda>(s, F) a. \<exists>e. lane_ok lp rp op (s, e, F) a \<and> \<not> sl_active a) sF lanes"
  shows "for_each (\<lambda>(save, a) st. do {
         st \<leftarrow> append_run op save (sl_out a - save) st;
         st \<leftarrow> (if keep_l then append_run lp (sl_left a) (sl_left_stop a - sl_left a) st else Some st);
         (if keep_r then append_run rp (sl_right a) (sl_right_stop a - sl_right a) st else Some st) })
       (zip (map fst sF) lanes)
       (done @ replicate (sum_list (map2 (kept lp rp) (map fst sF) lanes)) z, length done)
    = Some (done @ concat (map snd sF), length (done @ concat (map snd sF)))"
  using assms
proof (induction sF lanes arbitrary: "done" rule: list_all2_induct)
  case Nil
  then show ?case by simp
next
  case (Cons sF sFs a lanes)
  obtain s F where [simp]: "sF = (s, F)" by (cases sF)
  from Cons.hyps obtain e where e: "lane_ok lp rp op (s, e, F) a" "\<not> sl_active a" by auto
  show ?case
    using collect_lane [OF e, of "done" "sum_list (map2 (kept lp rp) (map fst sFs) lanes)" z] Cons.IH [of "done @ F"]
    by simp
qed

end

lemma set_collect_ok:
  assumes "split_kernel ker f cap lt keep_l keep_r"
    and "list_all2 (\<lambda>(s, F) a. \<exists>e. lane_kernel.lane_ok f cap lp rp op (s, e, F) a \<and> \<not> sl_active a) sF lanes"
  shows "set_collect keep_l keep_r lp rp op (map fst sF) lanes = Some (concat (map snd (sF :: (nat \<times> 'a::zero list) list)))"
  using split_kernel.collect_lanes [OF assms, of "[]" 0]
  by (simp add: set_collect_def split_kernel.kept_def [OF assms(1), abs_def] Let_def)

subsection \<open>The lanes of a set of cuts\<close>

lemma set_lanes_init_eq:
  assumes "length rs = length bs" "length ls = length bs" "length rstop = length bs" "length outs = length bs"
  shows "set_lanes_init bs rs ls rstop outs = Some (map (\<lambda>i.
    \<lparr>sl_left = bs ! i, sl_right = rs ! i, sl_left_stop = ls ! i, sl_right_stop = rstop ! i, sl_out = outs ! i, sl_elm = None\<rparr>)
    [0..<length bs])"
  unfolding set_lanes_init_def by (rule omap_Some) (use assms in simp)

context lane_kernel
begin

text \<open>
  All the lanes of cuts of the left array and slices of the right one; \<open>starts\<close> are the lanes' first
  cells of the output.
\<close>

lemma lanes_general:
  assumes bs: "0 < length bs" "sorted bs" "\<forall>b\<in>set bs. b \<le> n" and lp: "L = take n lp" "n \<le> length lp"
    and len: "length rs = length bs" "length rstops = length bs"
    and rs: "\<And>i. i < length bs \<Longrightarrow> rstops ! i \<le> length R \<and> (bs ! i < set_stops bs n ! i \<longrightarrow> rs ! i \<le> rstops ! i)"
    and starts: "length starts = length bs" "sorted starts" "\<forall>s\<in>set starts. s \<le> length op"
    and room: "\<And>i. i < length bs \<Longrightarrow> starts ! i +
      cap (set_stops bs n ! i - bs ! i) (rstops ! i - rs ! i) \<le> set_stops starts (length op) ! i"
    and sp: "sp = map (\<lambda>i. (starts ! i, set_stops starts (length op) ! i,
      f (slice L bs i) (drop (rs ! i) (take (rstops ! i) R)))) [0..<length bs]"
  shows "\<exists>lanes. set_lanes_init bs rs (set_stops bs n) rstops starts = Some lanes \<and>
    lanes_ok lp R sp op lanes \<and> apart sp"
proof -
  let ?V = "length bs"
  have lenL: "length L = n" using lp by simp
  have stops: "bs ! i \<le> set_stops bs n ! i" "set_stops bs n ! i \<le> n"
    "set_stops starts (length op) ! i \<le> length op"
    if "i < ?V" for i
    using that bs starts by (auto simp: set_stops_nth sorted_iff_nth_mono)
  let ?lanes = "map (\<lambda>i. \<lparr>sl_left = bs ! i, sl_right = rs ! i, sl_left_stop = set_stops bs n ! i,
    sl_right_stop = rstops ! i, sl_out = starts ! i, sl_elm = None\<rparr>) [0..<?V]"
  have init: "set_lanes_init bs rs (set_stops bs n) rstops starts = Some ?lanes"
    by (rule set_lanes_init_eq) (use len starts bs in \<open>auto simp: set_stops_def\<close>)
  have sliceL: "slice L bs i = drop (bs ! i) (take (set_stops bs n ! i) lp)" if "i < ?V" for i
    using stops(2) [OF that] unfolding slice_def lenL unfolding lp(1) by (simp add: min_def)
  have "lane_ok lp R op (sp ! i) (?lanes ! i)" if i: "i < ?V" for i
    using stops [OF i] room [OF i] lp(2) rs [OF i] i
    by (simp add: sp lane_ok_def left_of_def right_of_def sliceL)
  then have "lanes_ok lp R sp op ?lanes" by (simp add: lanes_ok_def sp)
  moreover have "apart sp"
    unfolding apart_def
  proof (intro allI impI)
    fix i j
    assume ij: "i < length sp" "j < length sp" "i \<noteq> j"
    have "set_stops starts (length op) ! i \<le> starts ! j" if "i < j" "j < ?V" for i j
      using that starts by (auto simp: set_stops_nth sorted_iff_nth_mono)
    then show "fst (snd (sp ! i)) \<le> fst (sp ! j) \<or> fst (snd (sp ! j)) \<le> fst (sp ! i)"
      using ij by (cases "i < j") (auto simp: sp)
  qed
  ultimately show ?thesis using init by blast
qed

lemma lanes_of_cuts:
  assumes good: "good_cuts lt L R bs rs" and lp: "L = take n lp" "n \<le> length lp"
    and starts: "length starts = length bs" "sorted starts" "\<forall>s\<in>set starts. s \<le> length op"
    and room: "\<And>i. i < length bs \<Longrightarrow> starts ! i +
      cap (set_stops bs n ! i - bs ! i) (set_stops rs (length R) ! i - rs ! i) \<le> set_stops starts (length op) ! i"
  shows "\<exists>lanes. set_lanes_init bs rs (set_stops bs n) (set_stops rs (length R)) starts = Some lanes \<and>
    lanes_ok lp R (map (\<lambda>i. (starts ! i, set_stops starts (length op) ! i, f (slice L bs i) (slice R rs i))) [0..<length bs]) op lanes \<and>
    apart (map (\<lambda>i. (starts ! i, set_stops starts (length op) ! i, f (slice L bs i) (slice R rs i))) [0..<length bs])"
proof -
  have len: "length rs = length bs" "0 < length bs" "sorted bs" "sorted rs" "\<forall>b\<in>set bs. b \<le> n" "\<forall>r\<in>set rs. r \<le> length R"
    using good lp by (auto simp: good_cuts_def)
  show ?thesis
    by (rule lanes_general [OF len(2,3,5) lp len(1) _ _ starts room])
      (use len in \<open>auto simp: set_stops_def slice_def\<close>,
       use take_stops [OF _ len(4) len(6)] len(1) in \<open>auto simp: set_stops_def\<close>)
qed

end

lemma split_kernel_collect_gen:
  assumes sk: "split_kernel ker f cap lt keep_l keep_r"
    and bs: "0 < length bs" "sorted bs" "\<forall>b\<in>set bs. b \<le> n" and lp: "L = take n lp" "n \<le> length lp"
    and len: "length rs = length bs" "length rstops = length bs"
    and rs: "\<And>i. i < length bs \<Longrightarrow> rstops ! i \<le> length R \<and> (bs ! i < set_stops bs n ! i \<longrightarrow> rs ! i \<le> rstops ! i)"
    and starts: "length starts = length bs" "sorted starts" "\<forall>s\<in>set starts. s \<le> length op"
    and room: "\<And>i. i < length bs \<Longrightarrow> starts ! i +
      cap (set_stops bs n ! i - bs ! i) (rstops ! i - rs ! i) \<le> set_stops starts (length op) ! i"
    and result: "concat (map (\<lambda>i. f (slice L bs i) (drop (rs ! i) (take (rstops ! i) R))) [0..<length bs]) = F"
  shows "do {
      lanes \<leftarrow> set_lanes_init bs rs (set_stops bs n) rstops starts;
      (outp, lanes) \<leftarrow> set_vreg ker lp R op lanes;
      set_collect keep_l keep_r lp R outp starts lanes } = Some (F :: 'a::zero list)"
proof -
  note lk = split_kernel.axioms(1) [OF sk]
  let ?F = "\<lambda>i. f (slice L bs i) (drop (rs ! i) (take (rstops ! i) R))"
  define sp where "sp = map (\<lambda>i. (starts ! i, set_stops starts (length op) ! i, ?F i)) [0..<length bs]"
  define sF where "sF = map (\<lambda>i. (starts ! i, ?F i)) [0..<length bs]"
  obtain lanes where 1: "set_lanes_init bs rs (set_stops bs n) rstops starts = Some lanes"
    "lane_kernel.lanes_ok f cap lp R sp op lanes" "lane_kernel.apart sp"
    using lane_kernel.lanes_general [OF lk bs lp len rs starts room sp_def] by blast
  from lane_kernel.set_vreg_ok [OF lk 1(2,3)] obtain op' lanes' where
    2: "set_vreg ker lp R op lanes = Some (op', lanes')" "lane_kernel.lanes_ok f cap lp R sp op' lanes'"
      "\<forall>a\<in>set lanes'. \<not> sl_active a"
    by (auto simp: ok_iff_ex)
  have "list_all2 (\<lambda>(s, F) a. \<exists>e. lane_kernel.lane_ok f cap lp R op' (s, e, F) a \<and> \<not> sl_active a) sF lanes'"
    using 2(2,3) by (auto simp: list_all2_conv_all_nth lane_kernel.lanes_ok_def [OF lk] sp_def sF_def)
  from set_collect_ok [OF sk this] have "set_collect keep_l keep_r lp R op' (map fst sF) lanes' = Some (concat (map snd sF))" .
  moreover have "map fst sF = starts"
    using starts(1) by (auto simp: sF_def comp_def intro!: nth_equalityI)
  moreover have "concat (map snd sF) = F" using result by (simp add: sF_def comp_def)
  ultimately show ?thesis by (simp add: 1(1) 2(1))
qed

lemma split_kernel_collect:
  assumes sk: "split_kernel ker f cap lt keep_l keep_r"
    and good: "good_cuts lt L R bs rs" and lp: "L = take n lp" "n \<le> length lp"
    and starts: "length starts = length bs" "sorted starts" "\<forall>s\<in>set starts. s \<le> length op"
    and room: "\<And>i. i < length bs \<Longrightarrow> starts ! i +
      cap (set_stops bs n ! i - bs ! i) (set_stops rs (length R) ! i - rs ! i) \<le> set_stops starts (length op) ! i"
  shows "do {
      lanes \<leftarrow> set_lanes_init bs rs (set_stops bs n) (set_stops rs (length R)) starts;
      (outp, lanes) \<leftarrow> set_vreg ker lp R op lanes;
      set_collect keep_l keep_r lp R outp starts lanes } = Some (f L (R :: 'a::zero list))"
proof (rule split_kernel_collect_gen [OF sk _ _ _ lp _ _ _ starts room])
  have len: "length rs = length bs" "0 < length bs" "sorted bs" "sorted rs" "\<forall>b\<in>set bs. b \<le> n" "\<forall>r\<in>set rs. r \<le> length R"
    using good lp by (auto simp: good_cuts_def)
  then show "0 < length bs" "sorted bs" "\<forall>b\<in>set bs. b \<le> n" "length rs = length bs"
    "length (set_stops rs (length R)) = length bs" by (auto simp: set_stops_def)
  show "set_stops rs (length R) ! i \<le> length R \<and> (bs ! i < set_stops bs n ! i \<longrightarrow> rs ! i \<le> set_stops rs (length R) ! i)"
    if "i < length bs" for i
    using take_stops [OF _ len(4) len(6), of i] len(1) that by auto
  show "concat (map (\<lambda>i. f (slice L bs i) (drop (rs ! i) (take (set_stops rs (length R) ! i) R))) [0..<length bs]) = f L R"
    using split_kernel.chain_all [OF sk good] by (simp add: slice_def [of R])
qed

subsection \<open>The merges in place\<close>

locale merge_like = split_kernel ker f cap lt True True
  for ker :: "'a ker" and f :: "'a list \<Rightarrow> 'a list \<Rightarrow> 'a list" and cap :: "nat \<Rightarrow> nat \<Rightarrow> nat" and lt :: "'a \<Rightarrow> 'a \<Rightarrow> bool" +
  assumes length_f: "length (f l r) = length l + length r"
    and cap_sum: "cap m n = m + n"
begin

lemma tails_lane:
  assumes ok: "lane_ok lp rp op (s, e, F) a" "\<not> sl_active a" and "length F = e - s" "s \<le> e" "length pre = s"
  shows "do { outp \<leftarrow> copy_cells lp (sl_left a) (pre @ drop s op) (sl_out a) (sl_left_stop a - sl_left a);
       copy_cells rp (sl_right a) outp (sl_out a) (sl_right_stop a - sl_right a) } = Some (pre @ F @ drop e op)"
proof -
  note fin = lane_finished [OF ok, simplified]
  define w where "w = drop s (take (sl_out a) op)"
  have w: "length w = sl_out a - s" using fin by (simp add: w_def)
  have op: "pre @ drop s op = (pre @ w) @ drop (sl_out a) op"
    using fin(2,3) append_take_drop_id [of "sl_out a - s" "drop s op"] by (simp add: w_def drop_take)
  have out: "length (pre @ w) = sl_out a" using w fin(2) assms(5) by simp
  have F: "F = w @ left_of lp a @ right_of rp a" using fin(1) by (simp add: w_def)
  have e: "e \<le> length op" using ok(1) by (simp add: lane_ok_def)
  have lenF: "e = sl_out a + length (left_of lp a) + length (right_of rp a)"
    using assms(3,4) w fin(2) unfolding F by simp
  have nl: "length (left_of lp a) = sl_left_stop a - sl_left a"
    using fin(4,5) by (simp add: left_of_def)
  have nr: "length (right_of rp a) = sl_right_stop a - sl_right a"
    using fin(6) by (simp add: right_of_def)
  have runs: "take (length (left_of lp a)) (drop (sl_left a) lp) = left_of lp a"
    "take (length (right_of rp a)) (drop (sl_right a) rp) = right_of rp a"
    unfolding nl nr by (simp_all add: left_of_def right_of_def drop_take)
  have one: "left_of lp a = [] \<or> right_of rp a = []"
    using ok(2) nl nr by (auto simp: sl_active_def left_of_def right_of_def)
  have 1: "copy_cells lp (sl_left a) ((pre @ w) @ drop (sl_out a) op) (sl_out a) (length (left_of lp a))
      = Some ((pre @ w) @ left_of lp a @ drop (sl_out a + length (left_of lp a)) op)"
    using copy_cells_run [OF runs(1), of "sl_out a" "(pre @ w) @ drop (sl_out a) op"] out lenF e by (simp add: add.commute)
  have 2: "copy_cells rp (sl_right a) ((pre @ w) @ left_of lp a @ drop (sl_out a + length (left_of lp a)) op) (sl_out a) (length (right_of rp a))
      = Some (pre @ F @ drop e op)"
  proof (cases "right_of rp a = []")
    case True
    then show ?thesis using lenF by (simp add: copy_cells_def F)
  next
    case False
    then have "left_of lp a = []" using one by blast
    then show ?thesis
      using copy_cells_run [OF runs(2), of "sl_out a" "(pre @ w) @ drop (sl_out a) op"] out lenF e F by (simp add: add.commute)
  qed
  show ?thesis unfolding op nl [symmetric] nr [symmetric] 1 using 2 by simp
qed

lemma set_tails_ok:
  assumes "lanes_ok lp rp sp op lanes" "\<forall>a\<in>set lanes. \<not> sl_active a"
    and sp: "sp = map (\<lambda>i. (starts ! i, set_stops starts (length op) ! i, F i)) [0..<length starts]"
    and starts: "sorted starts" "\<forall>s\<in>set starts. s \<le> length op" "starts \<noteq> []" "starts ! 0 = 0"
    and F: "\<And>i. i < length starts \<Longrightarrow> length (F i) = set_stops starts (length op) ! i - starts ! i"
  shows "set_tails lp rp op lanes = Some (concat (map F [0..<length starts]))"
proof -
  let ?V = "length starts"
  define cut where "cut k = (if k < ?V then starts ! k else length op)" for k
  have cut: "set_stops starts (length op) ! k = cut (Suc k)" "starts ! k = cut k" "cut k \<le> cut (Suc k)" "cut k \<le> length op"
    if "k < ?V" for k
    using that starts by (auto simp: cut_def set_stops_nth sorted_iff_nth_mono)
  have len: "length lanes = ?V" using assms(1) by (simp add: lanes_ok_def sp)
  define body where "body = (\<lambda>(a :: 'a set_lane) outp. do {
       outp \<leftarrow> copy_cells lp (sl_left a) outp (sl_out a) (sl_left_stop a - sl_left a);
       copy_cells rp (sl_right a) outp (sl_out a) (sl_right_stop a - sl_right a) })"
  let ?I = "\<lambda>k o'. o' = concat (map F [0..<k]) @ drop (cut k) op"
  have pre: "length (concat (map F [0..<k])) = cut k" if "k \<le> ?V" for k
    using that
  proof (induction k)
    case (Suc k)
    then show ?case using cut(1,3) [of k] F [of k] cut(2) [of k] by simp
  qed (use starts in \<open>simp add: cut_def\<close>)
  have "ok (for_each (\<lambda>k. body (lanes ! k)) [0..<?V] op) (?I ?V)"
  proof (rule ok_for_range [where I = ?I])
    show "?I 0 op" using starts by (simp add: cut_def)
    fix k o'
    assume k: "k < ?V" and o': "?I k o'"
    have a: "lane_ok lp rp op (cut k, cut (Suc k), F k) (lanes ! k)"
      using assms(1) k cut by (simp add: lanes_ok_def sp)
    have na: "\<not> sl_active (lanes ! k)" using assms(2) k len by simp
    have "body (lanes ! k) o' = Some (concat (map F [0..<k]) @ F k @ drop (cut (Suc k)) op)"
      unfolding o' body_def
      by (rule tails_lane [OF a na _ cut(3) [OF k] pre]) (use k F cut in auto)
    then show "ok (body (lanes ! k) o') (?I (Suc k))" by simp
  qed simp
  then have "for_each body (map (\<lambda>k. lanes ! k) [0..<length lanes]) op = Some (concat (map F [0..<?V]))"
    by (simp add: ok_eq for_each_map len cut_def)
  then show ?thesis by (simp add: set_tails_def body_def map_nth)
qed

lemma merge_cuts_ok:
  assumes good: "good_cuts lt L R bs rs" and lp: "L = take n lp" "n \<le> length lp" and op: "length op = n + length R"
  shows "do {
      lanes \<leftarrow> set_lanes_init bs rs (set_stops bs n) (set_stops rs (length R)) (map (set_out_idx bs rs) [0..<length bs]);
      (outp, lanes) \<leftarrow> set_vreg ker lp R op lanes;
      set_tails lp R outp lanes } = Some (f L R)"
proof -
  let ?V = "length bs"
  define starts where "starts = map (set_out_idx bs rs) [0..<?V]"
  have len: "length rs = ?V" "0 < ?V" "sorted bs" "sorted rs" "\<forall>b\<in>set bs. b \<le> n" "\<forall>r\<in>set rs. r \<le> length R"
    "bs ! 0 = 0" "rs ! 0 = 0"
    using good lp by (auto simp: good_cuts_def)
  have starts_nth: "starts ! i = bs ! i + rs ! i" if "i < ?V" for i
    using that len by (simp add: starts_def set_out_idx_sum)
  have mono: "starts ! i \<le> starts ! j" if "i \<le> j" "j < ?V" for i j
    using that len starts_nth by (simp add: add_mono sorted_iff_nth_mono)
  have starts: "length starts = ?V" "sorted starts" "starts ! 0 = 0" "starts \<noteq> []"
    using mono starts_nth [of 0] len by (auto simp: starts_def sorted_iff_nth_mono)
  have le: "\<forall>s\<in>set starts. s \<le> length op"
  proof
    fix x assume "x \<in> set starts"
    then obtain i where "i < ?V" "x = bs ! i + rs ! i" using starts_nth starts(1) by (metis in_set_conv_nth)
    then show "x \<le> length op" using len op by (simp add: add_mono)
  qed
  have region: "starts ! i + ((set_stops bs n ! i - bs ! i) + (set_stops rs (length R) ! i - rs ! i)) = set_stops starts (length op) ! i"
    if i: "i < ?V" for i
  proof -
    have "set_stops starts (length op) ! i = set_stops bs n ! i + set_stops rs (length R) ! i"
      using i len op starts(1) by (simp add: set_stops_nth starts_nth)
    moreover have "bs ! i \<le> set_stops bs n ! i" "rs ! i \<le> set_stops rs (length R) ! i"
      using i len by (auto simp: set_stops_nth sorted_iff_nth_mono)
    ultimately show ?thesis using starts_nth [OF i] by simp
  qed
  define F where "F i = f (slice L bs i) (slice R rs i)" for i
  define sp where "sp = map (\<lambda>i. (starts ! i, set_stops starts (length op) ! i, F i)) [0..<?V]"
  obtain lanes where 1: "set_lanes_init bs rs (set_stops bs n) (set_stops rs (length R)) starts = Some lanes"
    "lanes_ok lp R sp op lanes" "apart sp"
    using lanes_of_cuts [OF good lp starts(1,2) le] region unfolding sp_def F_def by (auto simp: cap_sum)
  from set_vreg_ok [OF 1(2,3)] obtain op' lanes' where
    2: "set_vreg ker lp R op lanes = Some (op', lanes')" "lanes_ok lp R sp op' lanes'" "length op' = length op"
      "\<forall>a\<in>set lanes'. \<not> sl_active a"
    by (auto simp: ok_iff_ex)
  have "length (F i) = set_stops starts (length op') ! i - starts ! i" if "i < length starts" for i
  proof -
    have "length L = n" using lp by simp
    then have "length (F i) = (set_stops bs n ! i - bs ! i) + (set_stops rs (length R) ! i - rs ! i)"
      using that starts(1) take_stops [of i bs L] take_stops [of i rs R] len by (simp add: F_def length_f slice_def)
    then show ?thesis using region [of i] that starts(1) 2(3) by simp
  qed
  then have "set_tails lp R op' lanes' = Some (concat (map F [0..<length starts]))"
    using 2 starts le by (intro set_tails_ok) (auto simp: sp_def)
  also have "concat (map F [0..<length starts]) = f L R" using chain_all [OF good] starts(1) by (simp add: F_def [abs_def])
  finally show ?thesis using 1(1) 2(1) by (simp add: starts_def)
qed

end

end
