(* ===== verification/SetOps.thy ===== *)
theory SetOps
  imports SetBuild
begin

text \<open>
  core/set_operations.hpp, the vector build: the kernels keep their contracts with the sequential
  algorithms, so the vector build's operations compute what the scalar build computes.
\<close>

subsection \<open>Splitting the sequential algorithms\<close>

lemma std_merge_left: "(\<And>x y. lt x y \<Longrightarrow> \<not> lt y x) \<Longrightarrow> \<forall>x\<in>set l. \<forall>y\<in>set r. lt x y \<Longrightarrow>
  std_merge lt (l @ l') r = l @ std_merge lt l' r"
  by (induction l) (cases r; auto)+

lemma std_merge_right: "\<forall>x\<in>set r. \<forall>y\<in>set l. lt x y \<Longrightarrow> std_merge lt l (r @ r') = r @ std_merge lt l r'"
  by (induction r) (cases l; auto)+

lemma std_merge_split:
  assumes asym: "\<And>x y. lt x y \<Longrightarrow> \<not> lt y x"
  shows "\<forall>x\<in>set l \<union> set r. \<forall>y\<in>set l' \<union> set r'. lt x y \<Longrightarrow>
    std_merge lt (l @ l') (r @ r') = std_merge lt l r @ std_merge lt l' r'"
  using asym
proof (induction lt l r rule: std_merge.induct)
  case (1 lt r)
  then show ?case using std_merge_right [of r l' lt r'] by simp
next
  case (2 lt x xs)
  then have "\<forall>u\<in>set (x # xs). \<forall>v\<in>set r'. lt u v" by auto
  from std_merge_left [OF 2(2) this] show ?case by simp
next
  case (3 lt x xs y ys)
  show ?case
  proof (cases "lt y x")
    case True
    have "std_merge lt ((x # xs) @ l') (ys @ r') = std_merge lt (x # xs) ys @ std_merge lt l' r'"
      using 3(1) [OF True _ 3(4)] 3(3) by auto
    then show ?thesis using True by simp
  next
    case False
    have "std_merge lt (xs @ l') ((y # ys) @ r') = std_merge lt xs (y # ys) @ std_merge lt l' r'"
      using 3(2) [OF False _ 3(4)] 3(3) by auto
    then show ?thesis using False by simp
  qed
qed

lemma std_union_left: "\<forall>x\<in>set l. \<forall>y\<in>set r. x < y \<Longrightarrow> std_set_union (l @ l') r = l @ std_set_union l' r"
  by (induction l) (cases r; force)+

lemma std_union_right: "\<forall>x\<in>set r. \<forall>y\<in>set l. x < y \<Longrightarrow> std_set_union l (r @ r') = r @ std_set_union l r'"
  by (induction r) (cases l; force)+

lemma std_union_split:
  "\<forall>x\<in>set l \<union> set r. \<forall>y\<in>set l' \<union> set r'. x < y \<Longrightarrow>
    std_set_union (l @ l') (r @ r') = std_set_union l r @ std_set_union l' r'"
proof (induction l r rule: std_set_union.induct)
  case (1 r)
  then show ?case using std_union_right [of r l' r'] by simp
next
  case (2 x xs)
  then have "\<forall>u\<in>set (x # xs). \<forall>v\<in>set r'. u < v" by auto
  from std_union_left [OF this] show ?case by simp
next
  case (3 x xs y ys)
  consider (less) "y < x" | (equal) "\<not> y < x" "\<not> x < y" | (greater) "\<not> y < x" "x < y" by blast
  then show ?case
  proof cases
    case less
    have "std_set_union ((x # xs) @ l') (ys @ r') = std_set_union (x # xs) ys @ std_set_union l' r'"
      using 3(1) [OF less] 3(4) by auto
    then show ?thesis using less by simp
  next
    case equal
    have "std_set_union (xs @ l') (ys @ r') = std_set_union xs ys @ std_set_union l' r'"
      using 3(2) [OF equal] 3(4) by auto
    then show ?thesis using equal by simp
  next
    case greater
    have "std_set_union (xs @ l') ((y # ys) @ r') = std_set_union xs (y # ys) @ std_set_union l' r'"
      using 3(3) [OF greater(1)] greater 3(4) by auto
    then show ?thesis using greater by simp
  qed
qed

lemma std_difference_left:
  "\<forall>x\<in>set l. \<forall>y\<in>set r. x < y \<Longrightarrow> std_set_difference (l @ l') r = l @ std_set_difference l' r"
  by (induction l) (cases r; force)+

lemma std_difference_right:
  "\<forall>x\<in>set r. \<forall>y\<in>set l. x < y \<Longrightarrow> std_set_difference l (r @ r') = std_set_difference l r'"
  by (induction r) (cases l; force)+

lemma std_difference_split:
  "\<forall>x\<in>set l \<union> set r. \<forall>y\<in>set l' \<union> set r'. x < y \<Longrightarrow>
    std_set_difference (l @ l') (r @ r') = std_set_difference l r @ std_set_difference l' r'"
proof (induction l r rule: std_set_difference.induct)
  case (1 r)
  then show ?case using std_difference_right [of r l' r'] by simp
next
  case (2 x xs)
  then have "\<forall>u\<in>set (x # xs). \<forall>v\<in>set r'. u < v" by auto
  from std_difference_left [OF this] show ?case by simp
next
  case (3 x xs y ys)
  consider (less) "x < y" | (equal) "\<not> x < y" "\<not> y < x" | (greater) "\<not> x < y" "y < x" by blast
  then show ?case
  proof cases
    case less
    have "std_set_difference (xs @ l') ((y # ys) @ r') = std_set_difference xs (y # ys) @ std_set_difference l' r'"
      using 3(1) [OF less] 3(4) by auto
    then show ?thesis using less by simp
  next
    case equal
    have "std_set_difference (xs @ l') (ys @ r') = std_set_difference xs ys @ std_set_difference l' r'"
      using 3(2) [OF equal] 3(4) by auto
    then show ?thesis using equal by simp
  next
    case greater
    have "std_set_difference ((x # xs) @ l') (ys @ r') = std_set_difference (x # xs) ys @ std_set_difference l' r'"
      using 3(3) [OF greater(1)] greater 3(4) by auto
    then show ?thesis using greater by simp
  qed
qed

lemma std_intersection_left:
  "\<forall>x\<in>set l. \<forall>y\<in>set r. x < y \<Longrightarrow> std_set_intersection (l @ l') r = std_set_intersection l' r"
  by (induction l) (cases r; force)+

lemma std_intersection_right:
  "\<forall>x\<in>set r. \<forall>y\<in>set l. x < y \<Longrightarrow> std_set_intersection l (r @ r') = std_set_intersection l r'"
  by (induction r) (cases l; force)+

lemma std_intersection_split:
  "\<forall>x\<in>set l \<union> set r. \<forall>y\<in>set l' \<union> set r'. x < y \<Longrightarrow>
    std_set_intersection (l @ l') (r @ r') = std_set_intersection l r @ std_set_intersection l' r'"
proof (induction l r rule: std_set_intersection.induct)
  case (1 r)
  then show ?case using std_intersection_right [of r l' r'] by simp
next
  case (2 x xs)
  then have "\<forall>u\<in>set (x # xs). \<forall>v\<in>set r'. u < v" by auto
  from std_intersection_left [OF this] show ?case by simp
next
  case (3 x xs y ys)
  consider (less) "x < y" | (equal) "\<not> x < y" "\<not> y < x" | (greater) "\<not> x < y" "y < x" by blast
  then show ?case
  proof cases
    case less
    have "std_set_intersection (xs @ l') ((y # ys) @ r') = std_set_intersection xs (y # ys) @ std_set_intersection l' r'"
      using 3(1) [OF less] 3(4) by auto
    then show ?thesis using less by simp
  next
    case equal
    have "std_set_intersection (xs @ l') (ys @ r') = std_set_intersection xs ys @ std_set_intersection l' r'"
      using 3(2) [OF equal] 3(4) by auto
    then show ?thesis using equal by simp
  next
    case greater
    have "std_set_intersection ((x # xs) @ l') (ys @ r') = std_set_intersection (x # xs) ys @ std_set_intersection l' r'"
      using 3(3) [OF greater(1)] greater 3(4) by auto
    then show ?thesis using greater by simp
  qed
qed

subsection \<open>The kernels keep their contracts\<close>

interpretation union: split_kernel "union_kernel :: 'a::linorder ker" std_set_union "(+)" "(<)" True True
proof
  fix l r l' r' :: "'a list"
  show "\<forall>x\<in>set l \<union> set r. \<forall>y\<in>set l' \<union> set r'. x < y \<Longrightarrow>
    std_set_union (l @ l') (r @ r') = std_set_union l r @ std_set_union l' r'" by (rule std_union_split)
qed (auto simp: union_kernel_def)

interpretation difference: split_kernel "difference_kernel :: 'a::linorder ker" std_set_difference "\<lambda>m n. m" "(<)" True False
proof
  fix l r l' r' :: "'a list"
  show "\<forall>x\<in>set l \<union> set r. \<forall>y\<in>set l' \<union> set r'. x < y \<Longrightarrow>
    std_set_difference (l @ l') (r @ r') = std_set_difference l r @ std_set_difference l' r'" by (rule std_difference_split)
qed (auto simp: difference_kernel_def)

interpretation intersection: split_kernel "intersection_kernel :: 'a::linorder ker" std_set_intersection "\<lambda>m n. m" "(<)" False False
proof
  fix l r l' r' :: "'a list"
  show "\<forall>x\<in>set l \<union> set r. \<forall>y\<in>set l' \<union> set r'. x < y \<Longrightarrow>
    std_set_intersection (l @ l') (r @ r') = std_set_intersection l r @ std_set_intersection l' r'" by (rule std_intersection_split)
qed (auto simp: intersection_kernel_def)

lemma merge_like_std:
  assumes "\<And>x y. lt x y \<Longrightarrow> \<not> lt y x"
  shows "merge_like (merge_kernel lt) (std_merge lt) (+) lt"
proof
  fix l r l' r'
  show "\<forall>x\<in>set l \<union> set r. \<forall>y\<in>set l' \<union> set r'. lt x y \<Longrightarrow>
    std_merge lt (l @ l') (r @ r') = std_merge lt l r @ std_merge lt l' r'"
    using assms by (rule std_merge_split)
qed (auto simp: merge_kernel_def)

interpretation merge: merge_like "merge_kernel (<) :: 'a::linorder ker" "std_merge (<)" "(+)" "(<)"
  by (rule merge_like_std) auto

interpretation merge_desc: merge_like "merge_kernel (>) :: 'a::linorder ker" "std_merge (>)" "(+)" "(>)"
  by (rule merge_like_std) auto

interpretation merge_pair: merge_like "merge_kernel (\<lambda>p q. fst p < fst q) :: ('a::linorder \<times> 'b) ker"
  "std_merge (\<lambda>p q. fst p < fst q)" "(+)" "\<lambda>p q. fst p < fst q"
  by (rule merge_like_std) auto

interpretation merge_pair_desc: merge_like "merge_kernel (\<lambda>p q. fst p > fst q) :: ('a::linorder \<times> 'b) ker"
  "std_merge (\<lambda>p q. fst p > fst q)" "(+)" "\<lambda>p q. fst p > fst q"
  by (rule merge_like_std) auto

subsection \<open>The operations\<close>

lemma sorted_srt: "sorted_wrt (\<lambda>x y :: 'k::linorder. \<not> y < x) xs = sorted xs"
  "sorted_wrt (\<lambda>x y :: 'k::linorder. \<not> x < y) xs = sorted_wrt (\<ge>) xs"
  by (simp_all add: not_less)

lemma asc_cuts:
  fixes left :: "'k::{linorder,zero} list"
  assumes "sorted (take n left)" "sorted R" "0 < n" "n < length left" "0 < VLEN"
  shows "\<exists>bs rs. set_cuts (lower_bound bound_vlen_ve) VLEN left n R = Some (bs, rs) \<and>
    good_cuts (<) (take n left) R bs rs \<and> length bs = VLEN"
  using asc.set_cuts_eq [of n left R VLEN] asc.good_cuts_cuts [of n left R VLEN] assms
  by (simp add: sorted_srt)

lemma desc_cuts:
  fixes left :: "'k::{linorder,zero} list"
  assumes "sorted_wrt (\<ge>) (take n left)" "sorted_wrt (\<ge>) R" "0 < n" "n < length left" "0 < VLEN"
  shows "\<exists>bs rs. set_cuts (lower_bound_desc bound_vlen_ve) VLEN left n R = Some (bs, rs) \<and>
    good_cuts (>) (take n left) R bs rs \<and> length bs = VLEN"
  using desc.set_cuts_eq [of n left R VLEN] desc.good_cuts_cuts [of n left R VLEN] assms
  by (simp add: sorted_srt)

lemma cuts_facts:
  assumes "good_cuts lt L R bs rs"
  shows "length rs = length bs" "0 < length bs" "sorted bs" "sorted rs" "\<forall>b\<in>set bs. b \<le> length L"
    "\<forall>r\<in>set rs. r \<le> length R" "bs ! 0 = 0" "rs ! 0 = 0"
  using assms by (auto simp: good_cuts_def)

lemma out_idx_facts:
  assumes good: "good_cuts lt L R bs rs" and N: "N = length L + length R"
  shows "length (map (set_out_idx bs rs) [0..<length bs]) = length bs"
    and "sorted (map (set_out_idx bs rs) [0..<length bs])"
    and "\<forall>s\<in>set (map (set_out_idx bs rs) [0..<length bs]). s \<le> N"
    and "\<And>i. i < length bs \<Longrightarrow> map (set_out_idx bs rs) [0..<length bs] ! i +
      ((set_stops bs (length L) ! i - bs ! i) + (set_stops rs (length R) ! i - rs ! i))
      \<le> set_stops (map (set_out_idx bs rs) [0..<length bs]) N ! i"
proof -
  note c = cuts_facts [OF good]
  have nth: "set_out_idx bs rs i = bs ! i + rs ! i" if "i < length bs" for i
    using that c by (simp add: set_out_idx_sum)
  show "length (map (set_out_idx bs rs) [0..<length bs]) = length bs" by simp
  show "sorted (map (set_out_idx bs rs) [0..<length bs])"
    using c by (auto simp: sorted_iff_nth_mono nth intro!: add_mono)
  show "\<forall>s\<in>set (map (set_out_idx bs rs) [0..<length bs]). s \<le> N"
    using c by (auto simp: N nth intro!: add_mono)
  fix i
  assume i: "i < length bs"
  have "set_stops (map (set_out_idx bs rs) [0..<length bs]) N ! i = set_stops bs (length L) ! i + set_stops rs (length R) ! i"
    using i c by (simp add: set_stops_nth nth N del: set_out_idx.simps)
  moreover have "bs ! i \<le> set_stops bs (length L) ! i" "rs ! i \<le> set_stops rs (length R) ! i"
    using take_stops [OF i c(3,5)] take_stops [OF _ c(4,6), of i] i c(1) by simp_all
  ultimately show "map (set_out_idx bs rs) [0..<length bs] ! i +
      ((set_stops bs (length L) ! i - bs ! i) + (set_stops rs (length R) ! i - rs ! i))
      \<le> set_stops (map (set_out_idx bs rs) [0..<length bs]) N ! i"
    using nth [OF i] i by (simp del: set_out_idx.simps)
qed

lemma set_union_sx_eq:
  fixes leftp :: "'k::{linorder,zero} list"
  assumes "0 < VLEN" "n < length leftp" "sorted (take n leftp)" "sorted rightp"
  shows "set_union_sx VLEN leftp n rightp = Some (std_set_union (take n leftp) rightp)"
proof (cases "n = 0 \<or> rightp = []")
  case True
  then show ?thesis using assms(2) by (auto simp: set_union_sx_def)
next
  case False
  then obtain bs rs where cuts: "set_cuts (lower_bound bound_vlen_ve) VLEN leftp n rightp = Some (bs, rs)"
    "good_cuts (<) (take n leftp) rightp bs rs" "length bs = VLEN"
    using asc_cuts [of n leftp rightp VLEN] assms by auto
  have n: "length (take n leftp) = n" using assms(2) by simp
  note o = out_idx_facts [OF cuts(2), of "n + length rightp", unfolded n]
  let ?starts = "map (set_out_idx bs rs) [0..<length bs]"
  have "do {
      lanes \<leftarrow> set_lanes_init bs rs (set_stops bs n) (set_stops rs (length rightp)) ?starts;
      (outp, lanes) \<leftarrow> set_vreg union_kernel leftp rightp (replicate (n + length rightp) 0) lanes;
      set_collect True True leftp rightp outp ?starts lanes } = Some (std_set_union (take n leftp) rightp)"
    by (rule split_kernel_collect [OF union.split_kernel_axioms cuts(2) refl])
      (use assms(2) o in auto)
  then show ?thesis using False unfolding cuts(3)
    by (simp add: set_union_sx_def cuts(1) set_union_vreg_def Let_def)
qed

lemma set_difference_sx_eq:
  fixes leftp :: "'k::{linorder,zero} list"
  assumes "0 < VLEN" "n < length leftp" "sorted (take n leftp)" "sorted rightp"
  shows "set_difference_sx VLEN leftp n rightp = Some (std_set_difference (take n leftp) rightp)"
proof (cases "n = 0 \<or> rightp = []")
  case True
  then show ?thesis using assms(2) by (auto simp: set_difference_sx_def)
next
  case False
  then obtain bs rs where cuts: "set_cuts (lower_bound bound_vlen_ve) VLEN leftp n rightp = Some (bs, rs)"
    "good_cuts (<) (take n leftp) rightp bs rs" "length bs = VLEN"
    using asc_cuts [of n leftp rightp VLEN] assms by auto
  have n: "length (take n leftp) = n" using assms(2) by simp
  note c = cuts_facts [OF cuts(2), unfolded n]
  have "bs ! i + (set_stops bs n ! i - bs ! i) \<le> set_stops bs n ! i" if "i < length bs" for i
    using take_stops [OF that c(3), of "take n leftp", unfolded n] c(5) by auto
  then show ?thesis
    using False split_kernel_collect [OF difference.split_kernel_axioms cuts(2) refl _ refl c(3), of "replicate n 0"]
      c assms(2)
    by (simp add: set_difference_sx_def cuts(1) set_difference_vreg_def Let_def)
qed

lemma set_merge_sx_eq:
  fixes leftp :: "'k::{linorder,zero} list"
  assumes "0 < VLEN" "n < length leftp" "sorted (take n leftp)" "sorted rightp"
  shows "set_merge_sx VLEN leftp n rightp = Some (std_merge (<) (take n leftp) rightp)"
proof (cases "n = 0 \<or> rightp = []")
  case True
  then show ?thesis using assms(2) by (auto simp: set_merge_sx_def)
next
  case False
  then obtain bs rs where cuts: "set_cuts (lower_bound bound_vlen_ve) VLEN leftp n rightp = Some (bs, rs)"
    "good_cuts (<) (take n leftp) rightp bs rs" "length bs = VLEN"
    using asc_cuts [of n leftp rightp VLEN] assms by auto
  show ?thesis
    using False merge.merge_cuts_ok [OF cuts(2) refl, of "replicate (n + length rightp) 0"] assms(2)
    by (simp add: set_merge_sx_def cuts(1,3) set_merge_vreg_def)
qed

lemma set_merge_desc_sx_eq:
  fixes leftp :: "'k::{linorder,zero} list"
  assumes "0 < VLEN" "n < length leftp" "sorted_wrt (\<ge>) (take n leftp)" "sorted_wrt (\<ge>) rightp"
  shows "set_merge_desc_sx VLEN leftp n rightp = Some (std_merge (>) (take n leftp) rightp)"
proof (cases "n = 0 \<or> rightp = []")
  case True
  then show ?thesis using assms(2) by (auto simp: set_merge_desc_sx_def)
next
  case False
  then obtain bs rs where cuts: "set_cuts (lower_bound_desc bound_vlen_ve) VLEN leftp n rightp = Some (bs, rs)"
    "good_cuts (>) (take n leftp) rightp bs rs" "length bs = VLEN"
    using desc_cuts [of n leftp rightp VLEN] assms by auto
  show ?thesis
    using False merge_desc.merge_cuts_ok [OF cuts(2) refl, of "replicate (n + length rightp) 0"] assms(2)
    by (simp add: set_merge_desc_sx_def cuts(1,3) set_merge_desc_vreg_def)
qed

lemma set_merge_pair_sx_eq:
  fixes leftp :: "'k::{linorder,zero} list"
  assumes "0 < VLEN" "n < length leftp" "n \<le> length left_valp" "sorted (take n leftp)" "sorted rightp"
    and "length right_valp = length rightp" "length out0 = n + length rightp"
  shows "set_merge_pair_sx VLEN leftp left_valp n rightp right_valp out0 =
    (let m = std_merge (\<lambda>p q. fst p < fst q) (zip (take n leftp) (take n left_valp)) (zip rightp right_valp)
     in Some (map fst m, map snd m))"
proof (cases "n = 0 \<or> rightp = []")
  case True
  then show ?thesis using assms by (auto simp: set_merge_pair_sx_def)
next
  case False
  then obtain bs rs where cuts: "set_cuts (lower_bound bound_vlen_ve) VLEN leftp n rightp = Some (bs, rs)"
    "good_cuts (<) (take n leftp) rightp bs rs" "length bs = VLEN"
    using asc_cuts [of n leftp rightp VLEN] assms by auto
  have L: "zip (take n leftp) (take n left_valp) = take n (zip leftp left_valp)" by (simp add: take_zip)
  have "good_cuts (\<lambda>p q. fst p < fst q) (take n (zip leftp left_valp)) (zip rightp right_valp) bs rs"
    using cuts(2) assms by (intro good_cuts_zip) (simp flip: L)
  from merge_pair.merge_cuts_ok [OF this refl, of out0] show ?thesis
    using False assms
    by (simp add: set_merge_pair_sx_def cuts(1,3) set_merge_pair_vreg_def L Let_def bind_eq_Some_conv split: prod.splits) blast
qed

lemma set_merge_pair_desc_sx_eq:
  fixes leftp :: "'k::{linorder,zero} list"
  assumes "0 < VLEN" "n < length leftp" "n \<le> length left_valp" "sorted_wrt (\<ge>) (take n leftp)" "sorted_wrt (\<ge>) rightp"
    and "length right_valp = length rightp" "length out0 = n + length rightp"
  shows "set_merge_pair_desc_sx VLEN leftp left_valp n rightp right_valp out0 =
    (let m = std_merge (\<lambda>p q. fst p > fst q) (zip (take n leftp) (take n left_valp)) (zip rightp right_valp)
     in Some (map fst m, map snd m))"
proof (cases "n = 0 \<or> rightp = []")
  case True
  then show ?thesis using assms by (auto simp: set_merge_pair_desc_sx_def)
next
  case False
  then obtain bs rs where cuts: "set_cuts (lower_bound_desc bound_vlen_ve) VLEN leftp n rightp = Some (bs, rs)"
    "good_cuts (>) (take n leftp) rightp bs rs" "length bs = VLEN"
    using desc_cuts [of n leftp rightp VLEN] assms by auto
  have L: "zip (take n leftp) (take n left_valp) = take n (zip leftp left_valp)" by (simp add: take_zip)
  have "good_cuts (\<lambda>p q. fst p > fst q) (take n (zip leftp left_valp)) (zip rightp right_valp) bs rs"
    using cuts(2) assms by (intro good_cuts_zip [where lt = "(>)"]) (simp flip: L)
  from merge_pair_desc.merge_cuts_ok [OF this refl, of out0] show ?thesis
    using False assms
    by (simp add: set_merge_pair_desc_sx_def cuts(1,3) set_merge_pair_desc_vreg_def L Let_def bind_eq_Some_conv split: prod.splits) blast
qed

subsection \<open>The intersection\<close>

lemma intersection_core:
  assumes "\<forall>x\<in>set p. \<forall>y\<in>set l. x < y" "\<forall>x\<in>set l \<union> set core. \<forall>y\<in>set q. x < y"
  shows "std_set_intersection l (p @ core @ q) = std_set_intersection l core"
  using std_intersection_right [OF assms(1), of "core @ q"] std_intersection_split [of l core "[]" q] assms(2) by simp

text \<open>Without duplicates the left cuts stay where they are, and every lane is empty or has a first and a last key.\<close>

lemma strict_cuts:
  fixes leftp :: "'k::{linorder,zero} list"
  assumes "sorted_wrt (<) (take n leftp)" "0 < n" "n < length leftp"
  shows "asc.left_cuts leftp n VLEN = set_positions VLEN n"
proof (rule nth_equalityI)
  fix i
  assume "i < length (asc.left_cuts leftp n VLEN)"
  then have i: "i < VLEN" by simp
  define p where "p = min (set_each VLEN n * i) n"
  have "split_from leftp n p = p" if "0 < i" "p \<noteq> n"
  proof -
    have p: "0 < p" "p < n" using that set_each_pos [of VLEN n] assms(2) by (auto simp: p_def)
    have "leftp ! (p - 1) < leftp ! p"
      using assms(1) p assms(3) by (auto simp: sorted_wrt_iff_nth_less dest!: spec [of _ "p - 1"] spec [of _ p])
    then show ?thesis using split_from_iff [of p p leftp n] split_from_bounds [of p n leftp] p assms by auto
  qed
  then show "asc.left_cuts leftp n VLEN ! i = set_positions VLEN n ! i"
    using i by (auto simp: asc.left_cuts_nth set_positions_nth split_target_def p_def)
qed simp

definition ix_ok :: "'k::{linorder,zero} list \<Rightarrow> 'k list \<Rightarrow> nat \<Rightarrow> nat \<Rightarrow> bool" where
  "ix_ok leftp R n VLEN \<longleftrightarrow> sorted_wrt (<) (take n leftp) \<and> sorted R \<and> 0 < n \<and> n < length leftp \<and> 0 < VLEN"

text \<open>The cuts of the right array in the intersection, the key a lane ends with, and where its right slice stops.\<close>

definition ix_rs :: "'k::{linorder,zero} list \<Rightarrow> 'k list \<Rightarrow> nat \<Rightarrow> nat \<Rightarrow> nat list" where
  "ix_rs leftp R n VLEN = map (\<lambda>b. if b = n then length R else length (takeWhile (\<lambda>x. x < leftp ! b) R))
     (set_positions VLEN n)"

definition ix_last :: "'k::{linorder,zero} list \<Rightarrow> nat \<Rightarrow> nat \<Rightarrow> nat \<Rightarrow> 'k" where
  "ix_last leftp n VLEN i = (if Suc i < VLEN
     then (if set_positions VLEN n ! i < n then leftp ! (set_positions VLEN n ! Suc i - 1) else 0)
     else leftp ! (n - 1))"

definition ix_stops :: "'k::{linorder,zero} list \<Rightarrow> 'k list \<Rightarrow> nat \<Rightarrow> nat \<Rightarrow> nat list" where
  "ix_stops leftp R n VLEN = map (\<lambda>i. if set_positions VLEN n ! i = n \<or> ix_rs leftp R n VLEN ! i = length R then length R
     else length (takeWhile (\<lambda>x. x \<le> ix_last leftp n VLEN i) R)) [0..<VLEN]"

lemma ix_lens [simp]: "length (ix_rs leftp R n VLEN) = VLEN" "length (ix_stops leftp R n VLEN) = VLEN"
  by (simp_all add: ix_rs_def ix_stops_def)

lemma ix_good:
  assumes "ix_ok leftp R n VLEN"
  shows "good_cuts (<) (take n leftp) R (set_positions VLEN n) (asc.right_cuts leftp n R VLEN)"
  using asc.good_cuts_cuts [of n leftp R VLEN] strict_cuts [of n leftp VLEN] assms
  by (simp add: sorted_srt strict_sorted_iff ix_ok_def)

lemma ix_positions:
  assumes "ix_ok leftp R n VLEN"
  shows "sorted (set_positions VLEN n)" "\<forall>b\<in>set (set_positions VLEN n). b \<le> n" "set_positions VLEN n ! 0 = 0"
  using cuts_facts [OF ix_good [OF assms]] assms by (auto simp: ix_ok_def)

lemma ix_lane_bounds:
  assumes "ix_ok leftp R n VLEN" "i < VLEN" "set_positions VLEN n ! i < n"
  shows "set_positions VLEN n ! i < set_stops (set_positions VLEN n) n ! i"
    and "ix_last leftp n VLEN i = leftp ! (set_stops (set_positions VLEN n) n ! i - 1)"
proof -
  have "set_positions VLEN n ! i < set_positions VLEN n ! Suc i" if "Suc i < VLEN"
    using that assms(2,3) set_each_pos [of VLEN n] by (auto simp: set_positions_nth min_def split: if_splits)
  then show "set_positions VLEN n ! i < set_stops (set_positions VLEN n) n ! i" using assms by (simp add: set_stops_nth)
  show "ix_last leftp n VLEN i = leftp ! (set_stops (set_positions VLEN n) n ! i - 1)"
    using assms by (simp add: ix_last_def set_stops_nth)
qed

lemma ix_left_mono: "ix_ok leftp R n VLEN \<Longrightarrow> i \<le> j \<Longrightarrow> j < n \<Longrightarrow> leftp ! i \<le> leftp ! j"
  by (cases "i = j") (auto simp: ix_ok_def sorted_wrt_iff_nth_less less_imp_le)

lemma ix_slice_keys:
  assumes ok: "ix_ok leftp R n VLEN" and "i < VLEN" and x: "x \<in> set (slice (take n leftp) (set_positions VLEN n) i)"
  shows "set_positions VLEN n ! i < n \<and> leftp ! (set_positions VLEN n ! i) \<le> x \<and> x \<le> ix_last leftp n VLEN i"
proof -
  define b e where "b = set_positions VLEN n ! i" and "e = set_stops (set_positions VLEN n) n ! i"
  have stop: "e \<le> n" using ix_positions(2) [OF ok] \<open>i < VLEN\<close> by (simp add: set_stops_nth e_def)
  have "length (take n leftp) = n" using ok by (simp add: ix_ok_def)
  then have "slice (take n leftp) (set_positions VLEN n) i = drop b (take e leftp)"
    using stop by (simp add: slice_def b_def e_def min_def)
  then obtain m where m: "m < e - b" "x = leftp ! (b + m)"
    using x stop ok by (auto simp: in_set_conv_nth ix_ok_def)
  define k where "k = b + m"
  then have k: "b \<le> k" "k < e" "x = leftp ! k" using m by auto
  then have "b < n" using stop by simp
  then show ?thesis
    using k stop ix_left_mono [OF ok, of b k] ix_left_mono [OF ok, of k "e - 1"] ix_lane_bounds [OF ok \<open>i < VLEN\<close>]
    by (simp add: b_def e_def)
qed

lemma takeWhile_le_keys:
  assumes "sorted (R :: 'k::linorder list)"
  shows "x \<in> set (take (length (takeWhile (\<lambda>x. x \<le> v) R)) R) \<Longrightarrow> x \<le> v"
    and "y \<in> set (drop (length (takeWhile (\<lambda>x. x \<le> v) R)) R) \<Longrightarrow> v < y"
proof -
  let ?m = "length (takeWhile (\<lambda>x. x \<le> v) R)"
  show "x \<le> v" if "x \<in> set (take ?m R)"
    using that set_takeWhileD by (fastforce simp: takeWhile_eq_take [symmetric])
  show "v < y" if y: "y \<in> set (drop ?m R)"
  proof -
    obtain k where k: "k < length R - ?m" "y = R ! (?m + k)" using y by (auto simp: in_set_conv_nth)
    have "\<not> R ! ?m \<le> v" using nth_length_takeWhile [of "\<lambda>x. x \<le> v" R] k by simp
    moreover have "R ! ?m \<le> y" using sorted_nth_mono [OF assms, of ?m "?m + k"] k by simp
    ultimately show ?thesis by auto
  qed
qed

text \<open>The lane's right slice and the slice between separating cuts give the same intersection.\<close>

lemma cut_in_three: "a \<le> b \<Longrightarrow> R = take a R @ drop a (take b R) @ drop b R"
  by (metis append.assoc append_take_drop_id min.absorb1 take_take)

lemma ix_stops_le: "i < VLEN \<Longrightarrow> ix_stops leftp R n VLEN ! i \<le> length R"
  by (auto simp: ix_stops_def length_takeWhile_le)

lemma ix_rs_nth: "i < VLEN \<Longrightarrow> set_positions VLEN n ! i < n \<Longrightarrow>
  ix_rs leftp R n VLEN ! i = length (takeWhile (\<lambda>x. x < leftp ! (set_positions VLEN n ! i)) R)"
  by (simp add: ix_rs_def)

lemma ix_key_last:
  assumes ok: "ix_ok leftp R n VLEN" and i: "i < VLEN" "set_positions VLEN n ! i < n"
  shows "leftp ! (set_positions VLEN n ! i) \<le> ix_last leftp n VLEN i"
proof -
  define e where "e = set_stops (set_positions VLEN n) n ! i"
  have "e \<le> n" using ix_positions(2) [OF ok] i(1) by (simp add: e_def set_stops_nth)
  then show ?thesis
    using ix_lane_bounds [OF ok i] ix_left_mono [OF ok, of "set_positions VLEN n ! i" "e - 1"] by (simp add: e_def)
qed

lemma ix_rs_le_stops:
  assumes ok: "ix_ok leftp R n VLEN" and i: "i < VLEN" "set_positions VLEN n ! i < n"
  shows "ix_rs leftp R n VLEN ! i \<le> ix_stops leftp R n VLEN ! i"
proof -
  have "length (takeWhile (\<lambda>x. x < leftp ! (set_positions VLEN n ! i)) R)
      \<le> length (takeWhile (\<lambda>x. x \<le> ix_last leftp n VLEN i) R)"
    using ix_key_last [OF assms] by (intro length_takeWhile_mono) auto
  then show ?thesis using ix_rs_nth [OF i, of leftp R] i by (auto simp: ix_stops_def)
qed

lemma ix_lane_own:
  assumes ok: "ix_ok leftp R n VLEN" and i: "i < VLEN" "set_positions VLEN n ! i < n"
  defines "S \<equiv> slice (take n leftp) (set_positions VLEN n) i"
    and "r \<equiv> ix_rs leftp R n VLEN ! i" and "u \<equiv> ix_stops leftp R n VLEN ! i"
  shows "std_set_intersection S R = std_set_intersection S (drop r (take u R))"
proof -
  let ?key = "leftp ! (set_positions VLEN n ! i)" and ?last = "ix_last leftp n VLEN i"
  have srt: "sorted R" using ok by (simp add: ix_ok_def)
  have S: "?key \<le> x \<and> x \<le> ?last" if "x \<in> set S" for x
    using ix_slice_keys [OF ok i(1)] that by (simp add: S_def)
  have ru: "r \<le> u" using ix_rs_le_stops [OF ok i] by (simp add: r_def u_def)
  have p: "\<forall>x\<in>set (take r R). \<forall>y\<in>set S. x < y"
  proof (intro ballI)
    fix x y assume "x \<in> set (take r R)" "y \<in> set S"
    then have "x < ?key" "?key \<le> y"
      using asc.takeWhile_separates(1) [of R x ?key] srt S ix_rs_nth [OF i, of leftp R] by (simp_all add: sorted_srt r_def)
    then show "x < y" by simp
  qed
  have q: "\<forall>x\<in>set S \<union> set (drop r (take u R)). \<forall>y\<in>set (drop u R). x < y"
  proof (cases "u = length R")
    case False
    then have u: "u = length (takeWhile (\<lambda>x. x \<le> ?last) R)"
      using i by (auto simp: ix_stops_def u_def split: if_splits)
    show ?thesis
    proof (intro ballI)
      fix x y assume x: "x \<in> set S \<union> set (drop r (take u R))" and y: "y \<in> set (drop u R)"
      have "x \<le> ?last" using x S takeWhile_le_keys(1) [OF srt, of x ?last] u by (auto dest: in_set_dropD)
      moreover have "?last < y" using y takeWhile_le_keys(2) [OF srt, of y ?last] u by simp
      ultimately show "x < y" by simp
    qed
  qed simp
  show ?thesis using intersection_core [OF p q] cut_in_three [OF ru, of R] by simp
qed

lemma ix_lane_cuts:
  assumes good: "good_cuts (<) L R bs rs" and i: "i < length bs"
  shows "std_set_intersection (slice L bs i) R = std_set_intersection (slice L bs i) (slice R rs i)"
proof -
  note c = cuts_facts [OF good]
  define r u where "r = rs ! i" and "u = set_stops rs (length R) ! i"
  have i': "i < length rs" using i c(1) by simp
  have ru: "r \<le> u" using take_stops [OF i' c(4,6)] by (simp add: r_def u_def)
  have sepi: "separates (<) L R (bs ! i) (rs ! i)" using good i by (simp add: good_cuts_def)
  have p: "\<forall>x\<in>set (take r R). \<forall>y\<in>set (slice L bs i). x < y"
    using sepi by (auto simp: separates_def r_def slice_def drop_take dest: in_set_takeD)
  have q: "\<forall>x\<in>set (slice L bs i) \<union> set (drop r (take u R)). \<forall>y\<in>set (drop u R). x < y"
  proof (cases "Suc i < length bs")
    case True
    then have "separates (<) L R (bs ! Suc i) (rs ! Suc i)" using good by (simp add: good_cuts_def)
    moreover have "u = rs ! Suc i" "set_stops bs (length L) ! i = bs ! Suc i"
      using True i' c(1) by (simp_all add: u_def set_stops_nth)
    ultimately show ?thesis by (auto simp: separates_def slice_def dest: in_set_dropD)
  next
    case False
    then show ?thesis using i' c(1) by (simp add: u_def set_stops_nth)
  qed
  show ?thesis using intersection_core [OF p q] cut_in_three [OF ru, of R] by (simp add: slice_def r_def u_def)
qed

lemma ix_lane:
  assumes ok: "ix_ok leftp R n VLEN" and i: "i < VLEN"
  shows "std_set_intersection (slice (take n leftp) (set_positions VLEN n) i)
      (drop (ix_rs leftp R n VLEN ! i) (take (ix_stops leftp R n VLEN ! i) R))
    = std_set_intersection (slice (take n leftp) (set_positions VLEN n) i) (slice R (asc.right_cuts leftp n R VLEN) i)"
proof (cases "set_positions VLEN n ! i < n")
  case True
  then show ?thesis using ix_lane_own [OF ok i True] ix_lane_cuts [OF ix_good [OF ok], of i] i by simp
next
  case False
  then have "slice (take n leftp) (set_positions VLEN n) i = []"
    using ix_slice_keys [OF ok i] by (metis list.set_intros(1) neq_Nil_conv)
  then show ?thesis by simp
qed

subsection \<open>The intersection's result\<close>

lemma set_intersection_sx_eq:
  fixes leftp :: "'k::{linorder,zero} list"
  assumes "0 < VLEN" "n < length leftp" "sorted_wrt (<) (take n leftp)" "sorted R"
  shows "set_intersection_sx VLEN leftp n R = Some (std_set_intersection (take n leftp) R)"
proof (cases "n = 0 \<or> R = []")
  case True
  then show ?thesis by (auto simp: set_intersection_sx_def)
next
  case False
  then have ok: "ix_ok leftp R n VLEN" using assms by (simp add: ix_ok_def)
  define bs rs stops where "bs = set_positions VLEN n" and "rs = ix_rs leftp R n VLEN" and "stops = ix_stops leftp R n VLEN"
  have len: "length bs = VLEN" "length rs = VLEN" "length stops = VLEN" by (simp_all add: bs_def rs_def stops_def)
  note pos = ix_positions [OF ok, folded bs_def]
  have adv: "advance_to_split_vreg bs n leftp = Some bs"
    using asc.advance_left_cuts [of n leftp VLEN] strict_cuts [of n leftp VLEN] assms False by (simp add: bs_def)
  have nth_le: "bs ! i \<le> n" if "i < VLEN" for i using pos(2) that len by simp
  have st1: "omap (\<lambda>p. if p < n then rd leftp p else Some 0) bs = Some (map (asc.cut_key leftp n) bs)"
    using assms(2) by (intro omap_Some) (auto simp: asc.cut_key_def)
  have low: "lower_bound bound_vlen_ve R (map (asc.cut_key leftp n) bs) (replicate VLEN 0)
      = Some (map (\<lambda>v. length (takeWhile (\<lambda>x. x < v) R)) (map (asc.cut_key leftp n) bs))"
    using assms(4) len by (intro asc.search) (simp_all add: sorted_srt)
  have right: "map2 (\<lambda>l r. if l = n then length R else r) bs
      (map (\<lambda>v. length (takeWhile (\<lambda>x. x < v) R)) (map (asc.cut_key leftp n) bs)) = rs"
    using nth_le len by (intro nth_equalityI) (auto simp: rs_def ix_rs_def asc.cut_key_def bs_def [symmetric] le_less)
  have st2: "omap (\<lambda>i. do { p \<leftarrow> rd bs i; if p < n then do { next_idx \<leftarrow> rd bs (i + 1); rd leftp (next_idx - 1) } else Some 0 })
      [0..<VLEN - 1] = Some (map (ix_last leftp n VLEN) [0..<VLEN - 1])"
  proof (rule omap_Some)
    fix i assume "i \<in> set [0..<VLEN - 1]"
    then have i: "Suc i < VLEN" by auto
    then have "bs ! Suc i - 1 < length leftp" using nth_le [of "Suc i"] assms(2) by simp
    then show "do { p \<leftarrow> rd bs i; if p < n then do { next_idx \<leftarrow> rd bs (i + 1); rd leftp (next_idx - 1) } else Some 0 }
      = Some (ix_last leftp n VLEN i)"
      using i len by (simp add: ix_last_def bs_def [symmetric])
  qed
  have keys: "map (ix_last leftp n VLEN) [0..<VLEN - 1] @ [leftp ! (n - 1)] = map (ix_last leftp n VLEN) [0..<VLEN]"
    using assms(1) by (cases VLEN) (simp_all add: ix_last_def)
  have up: "upper_bound bound_vlen_ve R (map (ix_last leftp n VLEN) [0..<VLEN]) (replicate VLEN 0)
      = Some (map (\<lambda>v. length (takeWhile (\<lambda>x. x \<le> v) R)) (map (ix_last leftp n VLEN) [0..<VLEN]))"
    using ub.search_takeWhile [of bound_vlen_ve "replicate VLEN 0" "map (ix_last leftp n VLEN) [0..<VLEN]" R] assms(4)
    by (simp add: upper_bound_def bound_vlen_ve_def)
  have stop: "map2 (\<lambda>(l, r) s. if l = n \<or> r = length R then length R else s) (zip bs rs)
      (map (\<lambda>v. length (takeWhile (\<lambda>x. x \<le> v) R)) (map (ix_last leftp n VLEN) [0..<VLEN])) = stops"
    using len by (intro nth_equalityI) (auto simp: stops_def ix_stops_def bs_def [symmetric] rs_def [symmetric])
  have "do {
      lanes \<leftarrow> set_lanes_init bs rs (set_stops bs n) stops bs;
      (outp, lanes) \<leftarrow> set_vreg intersection_kernel leftp R (replicate n 0) lanes;
      set_collect False False leftp R outp bs lanes } = Some (std_set_intersection (take n leftp) R)"
  proof (rule split_kernel_collect_gen [OF intersection.split_kernel_axioms _ pos(1,2) refl])
    show "stops ! i \<le> length R \<and> (bs ! i < set_stops bs n ! i \<longrightarrow> rs ! i \<le> stops ! i)" if "i < length bs" for i
    proof -
      have i: "i < VLEN" using that len by simp
      have "bs ! i < n" if "bs ! i < set_stops bs n ! i"
        using that nth_le [OF i] i nth_le [of "Suc i"] len by (auto simp: set_stops_nth split: if_splits)
      then show ?thesis using ix_rs_le_stops [OF ok i] ix_stops_le [OF i] by (auto simp: bs_def rs_def stops_def)
    qed
    show "bs ! i + (set_stops bs n ! i - bs ! i) \<le> set_stops bs (length (replicate n (0 :: 'k))) ! i" if "i < length bs" for i
      using take_stops [OF that pos(1), of "replicate n ()"] pos(2) by auto
    have "concat (map (\<lambda>i. std_set_intersection (slice (take n leftp) bs i) (drop (rs ! i) (take (stops ! i) R))) [0..<length bs])
      = concat (map (\<lambda>i. std_set_intersection (slice (take n leftp) bs i) (slice R (asc.right_cuts leftp n R VLEN) i)) [0..<length bs])"
      using ix_lane [OF ok] len unfolding bs_def rs_def stops_def
      by (intro arg_cong [where f = concat] map_cong) simp_all
    also have "\<dots> = std_set_intersection (take n leftp) R"
      using intersection.chain_all [OF ix_good [OF ok]] by (simp add: bs_def)
    finally show "concat (map (\<lambda>i. std_set_intersection (slice (take n leftp) bs i) (drop (rs ! i) (take (stops ! i) R))) [0..<length bs])
      = std_set_intersection (take n leftp) R" .
  qed (use len pos assms in auto)
  then show ?thesis using False assms(2)
    by (simp add: set_intersection_sx_def bs_def [symmetric] adv st1 low right st2 keys up stop set_intersection_vreg_def Let_def
        del: map_map One_nat_def)
qed

subsection \<open>Properties\<close>

text \<open>
  C2. The vector build's set operations (core/set_operations.hpp) agree with the scalar build on sorted
  arrays with any duplicates, for every number of lanes: the union, the difference and the merge
  terminate, stay inside their arrays and return what the standard library's algorithms return, as
  long as the cell behind the left array can be read.
\<close>
theorem set_operations_builds_agree:
  fixes leftp :: "'k::{linorder,zero} list"
  assumes "0 < VLEN" "n < length leftp" "sorted (take n leftp)" "sorted rightp"
  shows "set_union_sx VLEN leftp n rightp = Some (set_union_x86 (take n leftp) rightp) \<and>
    set_difference_sx VLEN leftp n rightp = Some (set_difference_x86 (take n leftp) rightp) \<and>
    set_merge_sx VLEN leftp n rightp = Some (set_merge_x86 (take n leftp) rightp)"
  using assms by (simp add: set_union_sx_eq set_difference_sx_eq set_merge_sx_eq
      set_union_x86_def set_difference_x86_def set_merge_x86_def)

theorem set_operations_builds_agree_witness:
  "set_union_sx 3 [1,2,3,3,3,4,5,6,7,0 :: nat] 9 [0,3,3,4,9] = Some [0,1,2,3,3,3,4,5,6,7,9] \<and>
   set_merge_sx set_vlen [1,2,2,0 :: nat] 3 [0,2] = Some [0,1,2,2,2]"
  using set_operations_builds_agree [of 3 9 "[1,2,3,3,3,4,5,6,7,0 :: nat]" "[0,3,3,4,9]"]
    set_operations_builds_agree [of set_vlen 3 "[1,2,2,0 :: nat]" "[0,2]"]
  by (simp add: set_union_x86_def set_merge_x86_def set_vlen_def)

text \<open>
  The vector build's intersection agrees with the scalar build when the left array has no
  duplicates (a set), although its lanes write from cuts that were not moved to a key boundary.
\<close>
theorem set_intersection_builds_agree:
  fixes leftp :: "'k::{linorder,zero} list"
  assumes "0 < VLEN" "n < length leftp" "sorted_wrt (<) (take n leftp)" "sorted rightp"
  shows "set_intersection_sx VLEN leftp n rightp = Some (set_intersection_x86 (take n leftp) rightp)"
  using assms by (simp add: set_intersection_sx_eq set_intersection_x86_def)

theorem set_intersection_builds_agree_witness:
  "set_intersection_sx set_vlen [1,2,3,4,5,6,7,0 :: nat] 7 [0,2,3,4,6,9] = Some [2,3,4,6]"
  using set_intersection_builds_agree [of set_vlen 7 "[1,2,3,4,5,6,7,0 :: nat]" "[0,2,3,4,6,9]"]
  by (simp add: set_intersection_x86_def set_vlen_def)

text \<open>
  With duplicates the lanes of the vector build's intersection overwrite each other: the cuts of
  the input move forward to a key boundary, the cuts of the output do not, so a lane with more
  results than its share writes into the next lane's cells.  Intersecting an array with itself does
  not give it back.
\<close>
theorem set_intersection_overlap:
  "set_intersection_sx 3 [1,2,3,3,3,4,5,6,7,0 :: nat] 9 [1,2,3,3,3,4,5,6,7] = Some [1,2,3,3,3,3,5,6,7] \<and>
   set_intersection_x86 [1,2,3,3,3,4,5,6,7 :: nat] [1,2,3,3,3,4,5,6,7] = [1,2,3,3,3,4,5,6,7]"
  by code_simp

text \<open>
  advance_to_split_vreg moves every cut to the end of the run of equal keys it falls into, reading
  the cell at \<open>left_size\<close> when the run reaches the end: an array that ends there is read out of
  bounds.
\<close>
theorem advance_to_split_reads_past_end:
  "advance_to_split_vreg [0, 3, 6] 9 [1,2,3,3,3,4,4,4,4,0 :: nat] = Some [0, 5, 9] \<and>
   advance_to_split_vreg [0, 3, 6] 9 [1,2,3,3,3,4,4,4,4 :: nat] = None"
  by code_simp

text \<open>
  The merges of keys with values and the descending merges of the vector build agree with the scalar
  build, whatever the output vectors held before.
\<close>
theorem set_merge_pair_builds_agree:
  fixes leftp rightp :: "'k::{linorder,zero} list"
  assumes "0 < VLEN" "n < length leftp" "n \<le> length left_valp" "length right_valp = length rightp"
    and "length out0 = n + length rightp"
  shows "(sorted (take n leftp) \<longrightarrow> sorted rightp \<longrightarrow>
      set_merge_pair_sx VLEN leftp left_valp n rightp right_valp out0
        = set_merge_pair_x86 leftp left_valp n rightp right_valp (length rightp)) \<and>
    (sorted_wrt (\<ge>) (take n leftp) \<longrightarrow> sorted_wrt (\<ge>) rightp \<longrightarrow>
      set_merge_desc_sx VLEN leftp n rightp = Some (set_merge_desc_x86 (take n leftp) rightp) \<and>
      set_merge_pair_desc_sx VLEN leftp left_valp n rightp right_valp out0
        = set_merge_pair_desc_x86 leftp left_valp n rightp right_valp (length rightp))"
proof -
  show ?thesis using assms
    by (simp add: set_merge_pair_sx_eq set_merge_pair_desc_sx_eq set_merge_desc_sx_eq set_merge_desc_x86_def
        set_merge_pair_x86_eq set_merge_pair_desc_x86_eq)
qed

theorem set_merge_pair_builds_agree_witness:
  "set_merge_pair_sx set_vlen [1, 3, 3, 0 :: nat] ''abc'' 3 [2, 3] ''xy'' (replicate 5 (0, CHR ''?''))
    = Some ([1, 2, 3, 3, 3], ''axbcy'')"
  using set_merge_pair_builds_agree [of set_vlen 3 "[1, 3, 3, 0 :: nat]" "''abc''" "''xy''" "[2, 3]" "replicate 5 (0, CHR ''?'')"]
  by (simp add: set_merge_pair_x86_eq set_vlen_def Let_def)

end
