(* ===== verification/SetRuns.thy ===== *)
theory SetRuns
  imports SetSeq
begin

text \<open>
  core/set_operations.hpp, the vector build's set_separate, set_unique and set_is_unique.  The keys are
  cut into VLEN runs of \<open>each\<close> keys and a rest; round \<open>j\<close> looks at key \<open>j\<close> of every run.  Every run
  keeps the key it saw last (\<open>current_key\<close>) and appends what it finds to its own part of the work
  buffer (\<open>out_idx\<close>); at the end the parts are copied together.  set_separate and set_unique differ
  in what they append: the position or the key (the argument \<open>val\<close>).  The rest is the run with number
  VLEN.
\<close>

subsection \<open>The code\<close>

definition runs_step ::
  "(nat \<Rightarrow> 'k \<Rightarrow> 'v) \<Rightarrow> 'k list \<Rightarrow> nat \<Rightarrow> nat \<Rightarrow> nat \<Rightarrow> 'v list \<times> nat list \<times> 'k list \<Rightarrow>
   ('v list \<times> nat list \<times> 'k list) option" where
  "runs_step val keyp each j i st = do {
     let (outp, out_idx, current_key) = st;
     loaded_key \<leftarrow> rd keyp (i * each + j);
     c \<leftarrow> rd current_key i;
     if loaded_key \<noteq> c then do {
       p \<leftarrow> rd out_idx i;
       outp \<leftarrow> wr outp p (val (i * each + j) loaded_key);
       out_idx \<leftarrow> wr out_idx i (p + 1);
       current_key \<leftarrow> wr current_key i loaded_key;
       Some (outp, out_idx, current_key) }
     else Some (outp, out_idx, current_key) }"

definition runs_vreg ::
  "(nat \<Rightarrow> 'k \<Rightarrow> 'v) \<Rightarrow> nat \<Rightarrow> 'k list \<Rightarrow> 'v list \<Rightarrow> nat list \<Rightarrow> nat \<Rightarrow> nat \<Rightarrow> 'k list \<Rightarrow> ('v list \<times> nat list) option" where
  "runs_vreg val VLEN keyp outp out_idx each rest current_key = do {
     st \<leftarrow> for_each (\<lambda>j. for_each (runs_step val keyp each j) [0..<VLEN]) [0..<each] (outp, out_idx, current_key);
     (outp, out_idx, _) \<leftarrow> for_each (\<lambda>j. runs_step val keyp each j VLEN) [0..<rest] st;
     Some (outp, out_idx) }"

definition runs_each :: "nat \<Rightarrow> nat \<Rightarrow> nat" where
  "runs_each VLEN sz = (let each = sz div VLEN in if each mod 2 = 0 \<and> 0 < each then each - 1 else each)"

text \<open>\<open>current_key[0] = keyp[0]; current_key[i] = keyp[each * i - 1]\<close>\<close>

definition runs_keys :: "nat \<Rightarrow> 'k list \<Rightarrow> nat \<Rightarrow> 'k list option" where
  "runs_keys VLEN keyp each = omap (\<lambda>i. if i = 0 then rd keyp 0 else rd keyp (each * i - 1)) [0..<VLEN + 1]"

text \<open>The parts copied together behind the first cell of the result.\<close>

definition runs_collect :: "nat \<Rightarrow> nat \<Rightarrow> 'v list \<Rightarrow> nat list \<Rightarrow> 'v list \<Rightarrow> ('v list \<times> nat) option" where
  "runs_collect VLEN each out out_idx retp =
     for_each (\<lambda>i (retp, current). do {
       p \<leftarrow> rd out_idx i;
       let crnt_size = p - each * i;
       retp \<leftarrow> copy_cells out (each * i) retp (current + 1) crnt_size;
       Some (retp, current + crnt_size) }) [0..<VLEN + 1] (retp, 0)"

definition set_vlen_each :: nat where "set_vlen_each = 256"

definition set_separate_sx :: "nat \<Rightarrow> 'k list \<Rightarrow> nat \<Rightarrow> nat list option" where
  "set_separate_sx VLEN keyp sz =
     (if sz = 0 then Some [0]
      else do {
        let each = runs_each VLEN sz;
        let rest = sz - each * VLEN;
        let out = replicate sz 0;
        if each = 0 then do {
          current \<leftarrow> rd keyp 0;
          out \<leftarrow> wr out 0 0;
          (out, out_idx, current) \<leftarrow> for_each (\<lambda>i (out, out_idx, current). do {
              loaded \<leftarrow> rd keyp i;
              if loaded \<noteq> current then do { out \<leftarrow> wr out out_idx i; Some (out, out_idx + 1, loaded) }
              else Some (out, out_idx, current) }) [1..<sz] (out, 1, current);
          ret \<leftarrow> copy_cells out 0 (replicate (out_idx + 1) 0) 0 out_idx;
          wr ret out_idx sz }
        else do {
          current_key \<leftarrow> runs_keys VLEN keyp each;
          let out_idx = map (\<lambda>i. each * i) [0..<VLEN + 1];
          (out, out_idx) \<leftarrow> runs_vreg (\<lambda>i k. i) VLEN keyp out out_idx each rest current_key;
          sizes \<leftarrow> omap (\<lambda>i. do { p \<leftarrow> rd out_idx i; Some (p - each * i) }) [0..<VLEN + 1];
          (ret, current) \<leftarrow> runs_collect VLEN each out out_idx (replicate (sum_list sizes + 2) 0);
          wr ret (current + 1) sz } })"

definition set_unique_sx :: "nat \<Rightarrow> 'k::zero list \<Rightarrow> nat \<Rightarrow> 'k list option" where
  "set_unique_sx VLEN keyp sz =
     (if sz = 0 then Some []
      else do {
        let each = runs_each VLEN sz;
        let rest = sz - each * VLEN;
        let out = replicate sz 0;
        if each = 0 then do {
          current \<leftarrow> rd keyp 0;
          out \<leftarrow> wr out 0 current;
          (out, out_idx, current) \<leftarrow> for_each (\<lambda>i (out, out_idx, current). do {
              loaded \<leftarrow> rd keyp i;
              if loaded \<noteq> current then do { out \<leftarrow> wr out out_idx loaded; Some (out, out_idx + 1, loaded) }
              else Some (out, out_idx, current) }) [1..<sz] (out, 1, current);
          copy_cells out 0 (replicate out_idx 0) 0 out_idx }
        else do {
          current_key \<leftarrow> runs_keys VLEN keyp each;
          let out_idx = map (\<lambda>i. each * i) [0..<VLEN + 1];
          (out, out_idx) \<leftarrow> runs_vreg (\<lambda>i k. k) VLEN keyp out out_idx each rest current_key;
          sizes \<leftarrow> omap (\<lambda>i. do { p \<leftarrow> rd out_idx i; Some (p - each * i) }) [0..<VLEN + 1];
          k0 \<leftarrow> rd keyp 0;
          ret \<leftarrow> wr (replicate (sum_list sizes + 1) 0) 0 k0;
          (ret, current) \<leftarrow> runs_collect VLEN each out out_idx ret;
          Some ret } })"

text \<open>set_is_unique: the lanes scan the keys from the second one on; the early return keeps the flag false.\<close>

definition is_unique_step ::
  "'k list \<Rightarrow> nat \<Rightarrow> nat \<Rightarrow> nat \<Rightarrow> bool \<times> 'k list \<Rightarrow> (bool \<times> 'k list) option" where
  "is_unique_step keyp each j i st = do {
     let (unique, current_key) = st;
     if unique then do {
       loaded_key \<leftarrow> rd keyp (i * each + j);
       c \<leftarrow> rd current_key i;
       if loaded_key = c then Some (False, current_key)
       else do { current_key \<leftarrow> wr current_key i loaded_key; Some (True, current_key) } }
     else Some (False, current_key) }"

definition set_is_unique_vreg :: "nat \<Rightarrow> 'k list \<Rightarrow> nat \<Rightarrow> nat \<Rightarrow> 'k list \<Rightarrow> bool option" where
  "set_is_unique_vreg VLEN keyp each rest current_key = do {
     st \<leftarrow> for_each (\<lambda>j. for_each (is_unique_step keyp each j) [0..<VLEN]) [0..<each] (True, current_key);
     (unique, _) \<leftarrow> for_each (\<lambda>j. is_unique_step keyp each j VLEN) [0..<rest] st;
     Some unique }"

definition set_is_unique_sx :: "nat \<Rightarrow> 'k list \<Rightarrow> nat \<Rightarrow> bool option" where
  "set_is_unique_sx VLEN keyp sz =
     (if sz = 0 then Some True
      else do {
        let size2 = sz - 1;
        let each = runs_each VLEN size2;
        let rest = size2 - each * VLEN;
        if each = 0 then do {
          current \<leftarrow> rd keyp 0;
          (unique, _) \<leftarrow> for_each (\<lambda>i (unique, current).
              if unique then do {
                loaded \<leftarrow> rd keyp i;
                if loaded = current then Some (False, current) else Some (True, loaded) }
              else Some (False, current)) [1..<sz] (True, current);
          Some unique }
        else do {
          current_key \<leftarrow> runs_keys VLEN keyp each;
          set_is_unique_vreg VLEN (tl keyp) each rest current_key } })"

subsection \<open>The runs find the starts of new keys\<close>

text \<open>The starts among the first \<open>m\<close> keys of run \<open>i\<close> (position 0 is not one).\<close>

definition run_starts :: "'k list \<Rightarrow> nat \<Rightarrow> nat \<Rightarrow> nat \<Rightarrow> nat list" where
  "run_starts ks each i m = key_starts ks (max 1 (each * i)) (each * i + m)"

lemma key_starts_none: "hi \<le> lo \<Longrightarrow> key_starts ks lo hi = []"
  by (simp add: key_starts_def)

lemma run_starts_0: "0 < each \<Longrightarrow> run_starts ks each i 0 = []"
  by (simp add: run_starts_def key_starts_none)

lemma run_starts_Suc:
  "run_starts ks each i (Suc m) = run_starts ks each i m @
     (if each * i + m \<noteq> 0 \<and> ks ! (each * i + m) \<noteq> ks ! (each * i + m - 1) then [each * i + m] else [])"
  by (cases "each * i + m = 0") (auto simp: run_starts_def key_starts_Suc key_starts_none)

lemma length_run_starts: "length (run_starts ks each i m) \<le> m"
  using length_filter_le [of "\<lambda>j. ks ! j \<noteq> ks ! (j - 1)" "[max 1 (each * i)..<each * i + m]"]
  by (simp add: run_starts_def key_starts_def)

text \<open>The key a run compares the next key with.\<close>

definition run_key :: "'k list \<Rightarrow> nat \<Rightarrow> nat \<Rightarrow> nat \<Rightarrow> 'k" where
  "run_key ks each i m = ks ! (each * i + m - 1)"

definition run_ok ::
  "(nat \<Rightarrow> 'k \<Rightarrow> 'v) \<Rightarrow> 'k list \<Rightarrow> nat \<Rightarrow> nat \<Rightarrow> nat \<Rightarrow> 'v list \<times> nat list \<times> 'k list \<Rightarrow> bool" where
  "run_ok val ks each i m st \<longleftrightarrow>
     fst (snd st) ! i = each * i + length (run_starts ks each i m) \<and>
     snd (snd st) ! i = run_key ks each i m \<and>
     drop (each * i) (take (each * i + length (run_starts ks each i m)) (fst st)) = map (\<lambda>p. val p (ks ! p)) (run_starts ks each i m)"

text \<open>Progress \<open>k i\<close> of every run \<open>i \<le> VLEN\<close>.\<close>

definition runs_ok ::
  "(nat \<Rightarrow> 'k \<Rightarrow> 'v) \<Rightarrow> 'k list \<Rightarrow> nat \<Rightarrow> nat \<Rightarrow> (nat \<Rightarrow> nat) \<Rightarrow> 'v list \<times> nat list \<times> 'k list \<Rightarrow> bool" where
  "runs_ok val ks each VLEN k st \<longleftrightarrow> length (fst st) = length ks \<and> length (fst (snd st)) = VLEN + 1 \<and>
     length (snd (snd st)) = VLEN + 1 \<and> (\<forall>i\<le>VLEN. run_ok val ks each i (k i) st)"

lemma runs_step_ok:
  assumes st: "runs_ok val ks each VLEN k st" and i: "i \<le> VLEN"
    and below: "\<And>i. i < VLEN \<Longrightarrow> k i \<le> each" and own: "i < VLEN \<Longrightarrow> k i < each"
    and fits: "each * i + k i < length ks"
  shows "ok (runs_step val ks each (k i) i st) (runs_ok val ks each VLEN (k(i := Suc (k i))))"
proof -
  obtain outp idx cur where [simp]: "st = (outp, idx, cur)" by (cases st)
  define p where "p = each * i + k i"
  have len: "length outp = length ks" "length idx = VLEN + 1" "length cur = VLEN + 1"
    and runs: "\<And>j. j \<le> VLEN \<Longrightarrow> run_ok val ks each j (k j) (outp, idx, cur)"
    using st by (simp_all add: runs_ok_def)
  have mine: "idx ! i = each * i + length (run_starts ks each i (k i))" "cur ! i = ks ! (p - 1)"
    "drop (each * i) (take (each * i + length (run_starts ks each i (k i))) outp) = map (\<lambda>p. val p (ks ! p)) (run_starts ks each i (k i))"
    using runs [OF i] by (simp_all add: run_ok_def run_key_def p_def)
  have idx: "each * i \<le> idx ! i" "idx ! i \<le> p" using mine length_run_starts [of ks each i "k i"] by (simp_all add: p_def)
  have p: "p < length ks" using fits by (simp add: p_def)
  have suc: "run_starts ks each i (Suc (k i)) = run_starts ks each i (k i) @ (if ks ! p \<noteq> ks ! (p - 1) then [p] else [])"
    by (auto simp: run_starts_Suc p_def)
  show ?thesis
  proof (cases "ks ! p = ks ! (p - 1)")
    case True
    have "run_ok val ks each i (Suc (k i)) (outp, idx, cur)"
      using mine True suc by (simp add: run_ok_def run_key_def p_def)
    then have "runs_ok val ks each VLEN (k(i := Suc (k i))) (outp, idx, cur)"
      using len runs by (simp add: runs_ok_def)
    then show ?thesis using True p mine(2) i len
      by (simp add: runs_step_def p_def mult.commute)
  next
    case False
    let ?o = "outp[idx ! i := val p (ks ! p)]" and ?x = "idx[i := idx ! i + 1]" and ?c = "cur[i := ks ! p]"
    have "drop (each * i) (take (Suc (idx ! i)) ?o) = drop (each * i) (take (idx ! i) outp) @ [val p (ks ! p)]"
      using idx p len by (simp add: take_Suc_conv_app_nth)
    then have own': "run_ok val ks each i (Suc (k i)) (?o, ?x, ?c)"
      using mine False suc i len by (simp add: run_ok_def run_key_def p_def)
    have other: "run_ok val ks each j (k j) (?o, ?x, ?c)" if j: "j \<le> VLEN" "j \<noteq> i" for j
    proof -
      have rj: "idx ! j = each * j + length (run_starts ks each j (k j))" "run_ok val ks each j (k j) (outp, idx, cur)"
        using runs [OF j(1)] by (simp_all add: run_ok_def)
      have "idx ! i < each * j \<or> idx ! j \<le> idx ! i"
      proof (cases "i < j")
        case True
        then have "each * Suc i \<le> each * j" by (intro mult_le_mono2) simp
        then show ?thesis using idx own True j by (simp add: p_def)
      next
        case False
        then have "each * Suc j \<le> each * i" using j by (intro mult_le_mono2) simp
        moreover have "idx ! j \<le> each * j + each"
          using rj(1) length_run_starts [of ks each j "k j"] below [of j] False j i by linarith
        ultimately show ?thesis using idx by simp
      qed
      then have "drop (each * j) (take (idx ! j) ?o) = drop (each * j) (take (idx ! j) outp)"
        by (cases "idx ! j \<le> idx ! i") (simp_all add: take_update_swap drop_update_cancel list_update_beyond)
      then show ?thesis using rj j by (simp add: run_ok_def)
    qed
    have "runs_ok val ks each VLEN (k(i := Suc (k i))) (?o, ?x, ?c)"
      using own' other len by (auto simp: runs_ok_def)
    then show ?thesis using False p mine(2) i len idx
      by (simp add: runs_step_def p_def mult.commute [of i])
  qed
qed

lemma runs_rounds_ok:
  assumes "runs_ok val ks each VLEN (\<lambda>i. 0) st" "each * VLEN \<le> length ks"
  shows "ok (for_each (\<lambda>j. for_each (runs_step val ks each j) [0..<VLEN]) [0..<each] st)
    (runs_ok val ks each VLEN (\<lambda>i. if i < VLEN then each else 0))"
proof -
  let ?k = "\<lambda>j i' i. if i < VLEN then (if i < i' then Suc j else j) else (0::nat)"
  have "ok (for_each (\<lambda>j. for_each (runs_step val ks each j) [0..<VLEN]) [0..<each] st)
    (runs_ok val ks each VLEN (?k each 0))"
  proof (rule ok_for_range [where I = "\<lambda>j. runs_ok val ks each VLEN (?k j 0)"])
    show "runs_ok val ks each VLEN (?k 0 0) st" using assms(1) by (simp add: if_distrib cong: if_cong)
    fix j st
    assume j: "j < each" and st: "runs_ok val ks each VLEN (?k j 0) st"
    have "ok (for_each (runs_step val ks each j) [0..<VLEN] st) (runs_ok val ks each VLEN (?k j VLEN))"
    proof (rule ok_for_range [where I = "\<lambda>i. runs_ok val ks each VLEN (?k j i)"])
      fix i st
      assume i: "i < VLEN" and st: "runs_ok val ks each VLEN (?k j i) st"
      have "each * Suc i \<le> each * VLEN" using i by (intro mult_le_mono2) simp
      then have "each * i + j < length ks" using j assms(2) by simp
      moreover have "(?k j i)(i := Suc (?k j i i)) = ?k j (Suc i)" using i by (auto simp: less_Suc_eq)
      ultimately show "ok (runs_step val ks each j i st) (runs_ok val ks each VLEN (?k j (Suc i)))"
        using runs_step_ok [OF st, of i] i j by simp
    qed (use st in simp_all)
    moreover have "?k j VLEN = ?k (Suc j) 0" by auto
    ultimately show "ok (for_each (runs_step val ks each j) [0..<VLEN] st) (runs_ok val ks each VLEN (?k (Suc j) 0))" by simp
  qed simp
  moreover have "?k each 0 = (\<lambda>i. if i < VLEN then each else 0)" by auto
  ultimately show ?thesis by simp
qed

lemma runs_vreg_ok:
  assumes start: "runs_ok val ks each VLEN (\<lambda>i. 0) (outp, out_idx, cur)" and rest: "each * VLEN + rest = length ks"
  shows "ok (runs_vreg val VLEN ks outp out_idx each rest cur) (\<lambda>(out, idx). length out = length ks \<and> length idx = VLEN + 1 \<and>
    (\<forall>i\<le>VLEN. let S = run_starts ks each i (if i < VLEN then each else rest) in
      idx ! i = each * i + length S \<and> drop (each * i) (take (each * i + length S) out) = map (\<lambda>p. val p (ks ! p)) S))"
proof -
  have "each * VLEN \<le> length ks" using rest by simp
  from runs_rounds_ok [OF start this] obtain st where
    1: "for_each (\<lambda>j. for_each (runs_step val ks each j) [0..<VLEN]) [0..<each] (outp, out_idx, cur) = Some st"
      "runs_ok val ks each VLEN (\<lambda>i. if i < VLEN then each else 0) st"
    by (auto simp: ok_iff_ex)
  let ?k = "\<lambda>j i. if i < VLEN then each else if i = VLEN then j else (0::nat)"
  have "ok (for_each (\<lambda>j. runs_step val ks each j VLEN) [0..<rest] st) (runs_ok val ks each VLEN (?k rest))"
  proof (rule ok_for_range [where I = "\<lambda>j. runs_ok val ks each VLEN (?k j)"])
    have "?k 0 = (\<lambda>i. if i < VLEN then each else 0)" by auto
    then show "runs_ok val ks each VLEN (?k 0) st" using 1(2) by simp
    fix j st
    assume j: "j < rest" and st: "runs_ok val ks each VLEN (?k j) st"
    have "(?k j)(VLEN := Suc (?k j VLEN)) = ?k (Suc j)" by auto
    then show "ok (runs_step val ks each j VLEN st) (runs_ok val ks each VLEN (?k (Suc j)))"
      using runs_step_ok [OF st, of VLEN] j rest by simp
  qed simp
  then obtain out idx cur' where 2: "for_each (\<lambda>j. runs_step val ks each j VLEN) [0..<rest] st = Some (out, idx, cur')"
    "runs_ok val ks each VLEN (?k rest) (out, idx, cur')" by (auto simp: ok_iff_ex)
  have "?k rest i = (if i < VLEN then each else rest)" if "i \<le> VLEN" for i using that by auto
  then show ?thesis using 2(2)
    by (simp add: runs_vreg_def 1(1) 2(1) runs_ok_def run_ok_def Let_def)
qed

subsection \<open>Putting the runs together\<close>

lemma runs_concat:
  assumes "0 < each"
  shows "concat (map (\<lambda>i. run_starts ks each i each) [0..<m]) = key_starts ks 1 (each * m)"
proof (induction m)
  case 0
  then show ?case by (simp add: key_starts_none)
next
  case (Suc m)
  show ?case
  proof (cases "m = 0")
    case True
    then show ?thesis by (simp add: run_starts_def)
  next
    case False
    then have "1 \<le> each * m" using assms by (simp add: Suc_le_eq)
    then show ?thesis using Suc key_starts_append [of 1 "each * m" "each * m + each" ks]
      by (simp add: run_starts_def max_def add.commute)
  qed
qed

definition runs_seg :: "'k list \<Rightarrow> nat \<Rightarrow> nat \<Rightarrow> nat \<Rightarrow> nat \<Rightarrow> nat list" where
  "runs_seg ks each VLEN rest i = run_starts ks each i (if i < VLEN then each else rest)"

lemma runs_seg_concat:
  assumes "0 < each" "0 < VLEN" "each * VLEN + rest = length ks"
  shows "concat (map (runs_seg ks each VLEN rest) [0..<VLEN + 1]) = key_starts ks 1 (length ks)"
proof -
  have "concat (map (runs_seg ks each VLEN rest) [0..<VLEN]) = key_starts ks 1 (each * VLEN)"
    unfolding runs_concat [OF assms(1), symmetric] by (rule arg_cong [where f = concat]) (simp add: runs_seg_def)
  moreover have "1 \<le> each * VLEN" using assms by (simp add: Suc_le_eq)
  ultimately show ?thesis
    using assms key_starts_append [of 1 "each * VLEN" "length ks" ks]
    by (simp add: runs_seg_def [of _ _ _ _ VLEN] run_starts_def max_def)
qed

lemma runs_collect_eq:
  assumes idx: "\<And>i. i < VLEN + 1 \<Longrightarrow> i < length idx \<and> idx ! i = each * i + length (seg i)"
    and out: "\<And>i. i < VLEN + 1 \<Longrightarrow> each * i + length (seg i) \<le> length out \<and> drop (each * i) (take (each * i + length (seg i)) out) = seg i"
    and ret: "length (concat (map seg [0..<VLEN + 1])) + 1 \<le> length ret"
  shows "runs_collect VLEN each out idx ret = Some (take 1 ret @ concat (map seg [0..<VLEN + 1]) @
     drop (1 + length (concat (map seg [0..<VLEN + 1]))) ret, length (concat (map seg [0..<VLEN + 1])))"
proof -
  define T where "T k = length (concat (map seg [0..<k]))" for k
  have T_le: "T (Suc k) + 1 \<le> length ret" if "k < VLEN + 1" for k
  proof -
    have "concat (map seg [0..<VLEN + 1]) = concat (map seg [0..<Suc k]) @ concat (map seg [Suc k..<VLEN + 1])"
      using that upt_add_eq_append [of 0 "Suc k" "VLEN - k"] by (simp flip: concat_append map_append)
    then show ?thesis using ret by (simp add: T_def)
  qed
  let ?I = "\<lambda>k st. st = (take 1 ret @ concat (map seg [0..<k]) @ drop (1 + T k) ret, T k)"
  have "ok (runs_collect VLEN each out idx ret) (?I (VLEN + 1))"
    unfolding runs_collect_def
  proof (rule ok_for_range [where I = ?I])
    show "?I 0 (ret, 0)" by (simp add: T_def)
    fix k st
    assume k: "k < VLEN + 1" and st: "?I k st"
    let ?r = "take 1 ret @ concat (map seg [0..<k]) @ drop (1 + T k) ret"
    have run: "take (length (seg k)) (drop (each * k) out) = seg k" using out [OF k] by (simp add: drop_take)
    have TS: "T (Suc k) = T k + length (seg k)" by (simp add: T_def)
    have ne: "length (take 1 ret) = 1" using T_le [OF k] by simp
    have len: "length ?r = length ret" using T_le [OF k] TS ne by (simp add: T_def)
    have "copy_cells out (each * k) ?r (T k + 1) (length (seg k)) = Some (take (T k + 1) ?r @ seg k @ drop (T k + 1 + length (seg k)) ?r)"
      by (rule copy_cells_run [OF run]) (use T_le [OF k] TS len in simp)
    also have "take (T k + 1) ?r = take 1 ret @ concat (map seg [0..<k])" using ne by (simp add: T_def)
    also have "drop (T k + 1 + length (seg k)) ?r = drop (1 + T (Suc k)) ret" using ne by (simp add: T_def add.commute)
    finally show "ok (case st of (retp, current) \<Rightarrow> do {
       p \<leftarrow> rd idx k;
       let crnt_size = p - each * k;
       retp \<leftarrow> copy_cells out (each * k) retp (current + 1) crnt_size;
       Some (retp, current + crnt_size) }) (?I (Suc k))"
      using st idx [OF k] TS by (simp add: Let_def)
  qed simp
  then show ?thesis by (simp add: ok_eq T_def)
qed

lemma runs_keys_eq:
  assumes "0 < each" "each * VLEN \<le> length ks" "0 < VLEN"
  shows "runs_keys VLEN ks each = Some (map (\<lambda>i. ks ! (each * i - 1)) [0..<VLEN + 1])"
  unfolding runs_keys_def
proof (rule omap_Some)
  fix i assume "i \<in> set [0..<VLEN + 1]"
  then have "each * i \<le> each * VLEN" by (intro mult_le_mono2) auto
  moreover have "0 < length ks" using assms by (metis gr0I le_zero_eq mult_is_0 not_less0)
  ultimately have "each * i - 1 < length ks" using assms(2) by linarith
  then show "(if i = 0 then rd ks 0 else rd ks (each * i - 1)) = Some (ks ! (each * i - 1))"
    by (auto simp: rd_def)
qed

text \<open>What the vector branch of set_separate and set_unique finds, for either \<open>val\<close>.\<close>

lemma runs_found:
  assumes "0 < each" "0 < VLEN" and rest: "each * VLEN + rest = length ks" and "length outp = length ks"
  shows "\<exists>out idx. runs_vreg val VLEN ks outp (map (\<lambda>i. each * i) [0..<VLEN + 1]) each rest
      (map (\<lambda>i. ks ! (each * i - 1)) [0..<VLEN + 1]) = Some (out, idx) \<and>
    omap (\<lambda>i. do { p \<leftarrow> rd idx i; Some (p - each * i) }) [0..<VLEN + 1]
      = Some (map (\<lambda>i. length (runs_seg ks each VLEN rest i)) [0..<VLEN + 1]) \<and>
    (\<forall>ret. length (key_starts ks 1 (length ks)) + 1 \<le> length ret \<longrightarrow>
      runs_collect VLEN each out idx ret = Some (take 1 ret @ map (\<lambda>p. val p (ks ! p)) (key_starts ks 1 (length ks)) @
        drop (1 + length (key_starts ks 1 (length ks))) ret, length (key_starts ks 1 (length ks))))"
proof -
  let ?S = "runs_seg ks each VLEN rest"
  let ?seg = "\<lambda>i. map (\<lambda>p. val p (ks ! p)) (?S i)"
  have "runs_ok val ks each VLEN (\<lambda>i. 0) (outp, map (\<lambda>i. each * i) [0..<VLEN + 1], map (\<lambda>i. ks ! (each * i - 1)) [0..<VLEN + 1])"
    using assms by (auto simp: runs_ok_def run_ok_def run_starts_0 run_key_def simp del: upt_Suc)
  from runs_vreg_ok [OF this rest] obtain out idx where
    1: "runs_vreg val VLEN ks outp (map (\<lambda>i. each * i) [0..<VLEN + 1]) each rest
      (map (\<lambda>i. ks ! (each * i - 1)) [0..<VLEN + 1]) = Some (out, idx)" and len: "length out = length ks" "length idx = VLEN + 1" and
    2: "\<And>i. i < VLEN + 1 \<Longrightarrow> idx ! i = each * i + length (?S i) \<and>
      drop (each * i) (take (each * i + length (?S i)) out) = ?seg i"
    unfolding ok_iff_ex by (force simp: Let_def runs_seg_def less_Suc_eq_le)
  have fit: "each * i + length (?S i) \<le> length ks" if "i < VLEN + 1" for i
  proof (cases "i < VLEN")
    case True
    then have "each * Suc i \<le> each * VLEN" by (intro mult_le_mono2) simp
    then show ?thesis using True length_run_starts [of ks each i each] rest by (simp add: runs_seg_def)
  next
    case False
    then have "i = VLEN" using that by simp
    then show ?thesis using length_run_starts [of ks each i rest] rest by (simp add: runs_seg_def)
  qed
  have cat: "concat (map ?seg [0..<VLEN + 1]) = map (\<lambda>p. val p (ks ! p)) (key_starts ks 1 (length ks))"
    unfolding runs_seg_concat [OF assms(1-3), symmetric] by (simp add: map_concat comp_def)
  have "omap (\<lambda>i. do { p \<leftarrow> rd idx i; Some (p - each * i) }) [0..<VLEN + 1] = Some (map (\<lambda>i. length (?S i)) [0..<VLEN + 1])"
  proof (rule omap_Some)
    fix i assume "i \<in> set [0..<VLEN + 1]"
    then have "i < VLEN + 1" by (simp only: set_upt atLeastLessThan_iff)
    from 2 [OF this] len this show "do { p \<leftarrow> rd idx i; Some (p - each * i) } = Some (length (?S i))" by simp
  qed
  moreover have "runs_collect VLEN each out idx ret = Some (take 1 ret @ map (\<lambda>p. val p (ks ! p)) (key_starts ks 1 (length ks)) @
        drop (1 + length (key_starts ks 1 (length ks))) ret, length (key_starts ks 1 (length ks)))"
    if "length (key_starts ks 1 (length ks)) + 1 \<le> length ret" for ret
    using runs_collect_eq [of VLEN idx each ?seg out ret, unfolded cat] 2 len fit that by simp
  ultimately show ?thesis using 1 by blast
qed

text \<open>The branch without lanes.\<close>

lemma few_keys_ok:
  assumes "ks \<noteq> []" "length out = length ks"
  shows "ok (for_each (\<lambda>i (out, out_idx, current). do {
              loaded \<leftarrow> rd ks i;
              if loaded \<noteq> current then do { out \<leftarrow> wr out out_idx (val i loaded); Some (out, out_idx + 1, loaded) }
              else Some (out, out_idx, current) }) [1..<length ks] (out[0 := v], 1, ks ! 0))
    (\<lambda>(out', out_idx, _). length out' = length ks \<and> out_idx = length (key_starts ks 1 (length ks)) + 1 \<and>
       take out_idx out' = v # map (\<lambda>p. val p (ks ! p)) (key_starts ks 1 (length ks)) \<and> out_idx \<le> length ks)"
proof -
  let ?I = "\<lambda>i (out', out_idx, current). length out' = length ks \<and> current = ks ! (i - 1) \<and>
     out_idx = length (key_starts ks 1 i) + 1 \<and> out_idx \<le> i \<and>
     take out_idx out' = v # map (\<lambda>p. val p (ks ! p)) (key_starts ks 1 i)"
  have "ok (for_each (\<lambda>i (out, out_idx, current). do {
              loaded \<leftarrow> rd ks i;
              if loaded \<noteq> current then do { out \<leftarrow> wr out out_idx (val i loaded); Some (out, out_idx + 1, loaded) }
              else Some (out, out_idx, current) }) [1..<length ks] (out[0 := v], 1, ks ! 0)) (?I (length ks))"
  proof (rule ok_for_range [where I = ?I])
    show "?I 1 (out[0 := v], 1, ks ! 0)" using assms by (cases out) auto
    fix i st
    assume i: "1 \<le> i" "i < length ks" and st: "?I i st"
    obtain out' n c where [simp]: "st = (out', n, c)" by (cases st)
    have n: "n < length ks" using st i by simp
    show "ok (case st of (out, out_idx, current) \<Rightarrow> do {
              loaded \<leftarrow> rd ks i;
              if loaded \<noteq> current then do { out \<leftarrow> wr out out_idx (val i loaded); Some (out, out_idx + 1, loaded) }
              else Some (out, out_idx, current) }) (?I (Suc i))"
      using st i n by (auto simp: ok_simps key_starts_Suc take_Suc_conv_app_nth)
  qed (use assms in \<open>cases ks; simp\<close>)
  then show ?thesis by (rule ok_mono) auto
qed

lemma sum_sizes:
  assumes "0 < each" "0 < VLEN" "each * VLEN + rest = length ks"
  shows "sum_list (map (\<lambda>i. length (runs_seg ks each VLEN rest i)) [0..<VLEN + 1]) = length (key_starts ks 1 (length ks))"
  unfolding runs_seg_concat [OF assms, symmetric] by (simp add: length_concat comp_def del: upt_Suc)

lemma runs_each_le: "0 < VLEN \<Longrightarrow> runs_each VLEN n * VLEN \<le> n"
proof -
  have "runs_each VLEN n * VLEN \<le> n div VLEN * VLEN" by (intro mult_le_mono1) (simp add: runs_each_def Let_def)
  also have "\<dots> \<le> n" by simp
  finally show ?thesis .
qed

lemma replicate_ends: "take 1 (replicate (n + 2) z) = [z]" "drop (1 + n) (replicate (n + 2) z) = [z]"
  by (simp, induction n) auto

lemma set_separate_sx_eq:
  assumes "0 < VLEN"
  shows "set_separate_sx VLEN ks (length ks) =
    Some (if ks = [] then [0] else 0 # key_starts ks 1 (length ks) @ [length ks])"
proof (cases "ks = [] \<or> runs_each VLEN (length ks) = 0")
  case True
  show ?thesis
  proof (cases "ks = []")
    case False
    let ?S = "key_starts ks 1 (length ks)"
    obtain out' c where 1: "for_each (\<lambda>i (out, out_idx, current). do {
              loaded \<leftarrow> rd ks i;
              if loaded \<noteq> current then do { out \<leftarrow> wr out out_idx i; Some (out, out_idx + 1, loaded) }
              else Some (out, out_idx, current) }) [1..<length ks] ((replicate (length ks) 0)[0 := 0], 1, ks ! 0)
        = Some (out', length ?S + 1, c)" "length out' = length ks" "take (length ?S + 1) out' = 0 # ?S" "length ?S + 1 \<le> length ks"
      using few_keys_ok [OF False, of "replicate (length ks) 0" "\<lambda>i k. i" 0] by (auto simp: ok_iff_ex)
    have "copy_cells out' 0 (replicate (length ?S + 1 + 1) 0) 0 (length ?S + 1) = Some ((0 # ?S) @ [0])"
    proof -
      have "copy_cells out' 0 (replicate (length ?S + 2) 0) 0 (length (0 # ?S))
        = Some (take 0 (replicate (length ?S + 2) 0) @ (0 # ?S) @ drop (0 + length (0 # ?S)) (replicate (length ?S + 2) 0))"
        by (rule copy_cells_run) (use 1 in simp_all)
      then show ?thesis by (simp add: drop_replicate del: replicate.simps) simp
    qed
    then show ?thesis
      using True False 1(1) by (simp add: set_separate_sx_def Let_def wr_def)
  qed (simp add: set_separate_sx_def)
next
  case False
  define each rest where "each = runs_each VLEN (length ks)" and "rest = length ks - each * VLEN"
  have each: "0 < each" "each * VLEN \<le> length ks" using False runs_each_le [OF assms] by (simp_all add: each_def)
  then have rest: "each * VLEN + rest = length ks" by (simp add: rest_def)
  have ne: "(length ks = 0) = False" "(each = 0) = False" using False each by simp_all
  let ?S = "key_starts ks 1 (length ks)"
  from runs_found [OF each(1) assms rest, of "replicate (length ks) 0" "\<lambda>i k. i"] obtain out idx where
    1: "runs_vreg (\<lambda>i k. i) VLEN ks (replicate (length ks) 0) (map (\<lambda>i. each * i) [0..<VLEN + 1]) each rest
      (map (\<lambda>i. ks ! (each * i - 1)) [0..<VLEN + 1]) = Some (out, idx)"
    "omap (\<lambda>i. do { p \<leftarrow> rd idx i; Some (p - each * i) }) [0..<VLEN + 1]
      = Some (map (\<lambda>i. length (runs_seg ks each VLEN rest i)) [0..<VLEN + 1])"
    "\<And>ret. length ?S + 1 \<le> length ret \<Longrightarrow> runs_collect VLEN each out idx ret
      = Some (take 1 ret @ ?S @ drop (1 + length ?S) ret, length ?S)"
    by auto
  have "runs_collect VLEN each out idx (replicate (length ?S + 2) 0) = Some ((0 # ?S) @ [0], length ?S)"
    using 1(3) [of "replicate (length ?S + 2) 0", unfolded replicate_ends] by simp
  then show ?thesis
    using 1(1,2) ne
    by (simp only: set_separate_sx_def Let_def each_def [symmetric] rest_def [symmetric] runs_keys_eq [OF each assms]
        sum_sizes [OF each(1) assms rest] Option.bind.simps prod.case if_False) (simp add: wr_def)
qed

lemma set_unique_sx_eq:
  fixes ks :: "'k::zero list"
  assumes "0 < VLEN"
  shows "set_unique_sx VLEN ks (length ks) = Some (remdups_adj ks)"
proof (cases "ks = [] \<or> runs_each VLEN (length ks) = 0")
  case True
  show ?thesis
  proof (cases "ks = []")
    case False
    let ?S = "map ((!) ks) (key_starts ks 1 (length ks))"
    obtain out' c where 1: "for_each (\<lambda>i (out, out_idx, current). do {
              loaded \<leftarrow> rd ks i;
              if loaded \<noteq> current then do { out \<leftarrow> wr out out_idx loaded; Some (out, out_idx + 1, loaded) }
              else Some (out, out_idx, current) }) [1..<length ks] ((replicate (length ks) 0)[0 := ks ! 0], 1, ks ! 0)
        = Some (out', length ?S + 1, c)" "length out' = length ks" "take (length ?S + 1) out' = ks ! 0 # ?S" "length ?S + 1 \<le> length ks"
      using few_keys_ok [OF False, of "replicate (length ks) 0" "\<lambda>i k. k" "ks ! 0"] by (auto simp: ok_iff_ex)
    have "copy_cells out' 0 (replicate (length ?S + 1) 0) 0 (length (ks ! 0 # ?S)) = Some (ks ! 0 # ?S)"
      using copy_cells_run [of "ks ! 0 # ?S" 0 out' 0 "replicate (length ?S + 1) 0"] 1 by simp
    moreover have "ks ! 0 # ?S = remdups_adj ks"
      using key_starts_map_nth [of "length ks" ks] False by simp
    ultimately show ?thesis
      using True False 1(1) by (simp add: set_unique_sx_def Let_def wr_def)
  qed (simp add: set_unique_sx_def)
next
  case False
  define each rest where "each = runs_each VLEN (length ks)" and "rest = length ks - each * VLEN"
  have each: "0 < each" "each * VLEN \<le> length ks" using False runs_each_le [OF assms] by (simp_all add: each_def)
  then have rest: "each * VLEN + rest = length ks" by (simp add: rest_def)
  have ne: "(length ks = 0) = False" "(each = 0) = False" using False each by simp_all
  let ?S = "key_starts ks 1 (length ks)"
  from runs_found [OF each(1) assms rest, of "replicate (length ks) 0" "\<lambda>i k. k"] obtain out idx where
    1: "runs_vreg (\<lambda>i k. k) VLEN ks (replicate (length ks) 0) (map (\<lambda>i. each * i) [0..<VLEN + 1]) each rest
      (map (\<lambda>i. ks ! (each * i - 1)) [0..<VLEN + 1]) = Some (out, idx)"
    "omap (\<lambda>i. do { p \<leftarrow> rd idx i; Some (p - each * i) }) [0..<VLEN + 1]
      = Some (map (\<lambda>i. length (runs_seg ks each VLEN rest i)) [0..<VLEN + 1])"
    "\<And>ret. length ?S + 1 \<le> length ret \<Longrightarrow> runs_collect VLEN each out idx ret
      = Some (take 1 ret @ map ((!) ks) ?S @ drop (1 + length ?S) ret, length ?S)"
    by auto
  have k0: "rd ks 0 = Some (ks ! 0)" "wr (replicate (length ?S + 1) 0) 0 (ks ! 0) = Some ((replicate (length ?S + 1) 0)[0 := ks ! 0])"
    using ne by (simp_all add: wr_def)
  have "runs_collect VLEN each out idx ((replicate (length ?S + 1) 0)[0 := ks ! 0]) = Some (ks ! 0 # map ((!) ks) ?S, length ?S)"
    using 1(3) [of "(replicate (length ?S + 1) 0)[0 := ks ! 0]"] by simp
  moreover have "ks ! 0 # map ((!) ks) ?S = remdups_adj ks"
    using key_starts_map_nth [of "length ks" ks] False by simp
  ultimately show ?thesis
    using 1(1,2) ne k0
    by (simp only: set_unique_sx_def Let_def each_def [symmetric] rest_def [symmetric] runs_keys_eq [OF each assms]
        sum_sizes [OF each(1) assms rest] Option.bind.simps prod.case if_False)
qed

subsection \<open>Properties\<close>

text \<open>C24. The vector build's set_separate and set_unique (core/set_operations.hpp), with their runs, the
  rest and the parts of the work buffer, return what the scalar build returns, for every number of
  keys and lanes, sorted or not, and stay inside their arrays.\<close>
theorem set_compactions_builds_agree:
  assumes "0 < VLEN"
  shows "set_separate_sx VLEN ks (length ks) = set_separate_x86 ks (length ks) \<and>
    set_unique_sx VLEN ks (length ks) = set_unique_x86 (ks :: 'k::zero list) (length ks)"
  using assms by (simp add: set_separate_sx_eq set_separate_x86_eq set_unique_sx_eq set_unique_x86_eq)

theorem set_compactions_builds_agree_witness:
  "set_separate_sx 2 [1,1,2,2,2,3,3 :: nat] 7 = Some [0, 2, 5, 7] \<and> set_unique_sx 2 [1,1,2,2,2,3,3 :: nat] 7 = Some [1, 2, 3]"
proof -
  let ?k = "[1,1,2,2,2,3,3 :: nat]"
  have "set_separate_sx 2 ?k (length ?k) = set_separate_x86 ?k (length ?k) \<and>
    set_unique_sx 2 ?k (length ?k) = set_unique_x86 ?k (length ?k)"
    by (rule set_compactions_builds_agree) simp
  moreover have "set_separate_x86 ?k (length ?k) = Some [0, 2, 5, 7] \<and> set_unique_x86 ?k (length ?k) = Some [1, 2, 3]"
    by code_simp
  moreover have "length ?k = 7" by simp
  ultimately show ?thesis by metis
qed

text \<open>The vector build's set_is_unique compares the first key of a run with the key two places before
  it (the lanes scan the keys from the second one on, but \<open>current_key\<close> is taken as if they scanned
  from the first), so a duplicate across two runs is missed, where the scalar build finds it.\<close>
theorem set_is_unique_misses_duplicate:
  "set_is_unique_sx 4 [0, 1, 1, 2, 3 :: nat] 5 = Some True \<and> set_is_unique_x86 [0, 1, 1, 2, 3 :: nat] 5 = Some False"
  by code_simp

end
