(* ===== verification/Hashtable.thy ===== *)
theory Hashtable
  imports FindCondition RadixKeys SetOps SetRuns
begin

text \<open>
  dataframe/hashtable.hpp: the hash table that the joins, the null checks and the dictionaries use.  A
  table is built once from a column of keys (and values): every key is written to the cell of its hash
  value, the last one wins, and the keys that lost, the conflicts, are kept in a sorted array beside
  the table.  A lookup reads the cell of every key and searches the rest in the sorted array.

  Both phases compact the positions of the keys that miss with raked scans (\<open>find_miss...\<close>), here one
  scan over the visit of one item.  Keys are words of 32 or 64 bits with the order of their type;
  \<open>is_filled\<close> holds 0 and 1 as in the C++.
\<close>

subsection \<open>Build configuration and state\<close>

record hash_cfg =
  hc_find :: find_cfg
  hc_radix :: radix_cfg
  hc_bound_vlen :: nat
  hc_set_union :: "nat list \<Rightarrow> nat list \<Rightarrow> nat list option"
  hc_set_is_unique :: "int list \<Rightarrow> nat \<Rightarrow> bool option"

definition find_miss_cfg_ve :: find_cfg where
  "find_miss_cfg_ve = \<lparr>vlen = 1024, vlen_each = 256, thr = 16, align_size = 128\<rparr>"

definition find_miss_cfg_x86 :: find_cfg where
  "find_miss_cfg_x86 = \<lparr>vlen = 4, vlen_each = 1, thr = 1, align_size = 1\<rparr>"

text \<open>\<open>spare\<close> is the content of the cell behind the left array, which the vector build's set_union reads.\<close>

definition hash_cfg_ve :: "nat \<Rightarrow> hash_cfg" where
  "hash_cfg_ve spare = \<lparr>hc_find = find_miss_cfg_ve, hc_radix = radix_cfg_ve, hc_bound_vlen = bound_vlen_ve,
     hc_set_union = (\<lambda>l r. set_union_sx set_vlen (l @ [spare]) (length l) r),
     hc_set_is_unique = set_is_unique_sx set_vlen_each\<rparr>"

definition hash_cfg_x86 :: hash_cfg where
  "hash_cfg_x86 = \<lparr>hc_find = find_miss_cfg_x86, hc_radix = radix_cfg_x86, hc_bound_vlen = bound_vlen_x86,
     hc_set_union = (\<lambda>l r. Some (set_union_x86 l r)), hc_set_is_unique = set_is_unique_x86\<rparr>"

record ('k, 'v) unique_hashtable =
  ht_key :: "'k list"
  ht_val :: "'v list"
  ht_is_filled :: "int list"
  ht_conflict_key :: "'k list"
  ht_conflict_val :: "'v list"

definition hash_table_size_mult :: nat where "hash_table_size_mult = 3"

definition prime_numbers :: "nat list" where
  "prime_numbers = [8 + 3, 16 + 3, 32 + 5, 64 + 3, 128 + 3, 256 + 27, 512 + 9, 1024 + 9, 2048 + 5, 4096 + 3,
     8192 + 27, 16384 + 43, 32768 + 3, 65536 + 45, 131072 + 29, 262144 + 3, 524288 + 21, 1048576 + 7,
     2097152 + 17, 4194304 + 15, 8388608 + 9, 16777216 + 43, 33554432 + 35, 67108864 + 15, 134217728 + 29,
     268435456 + 3, 536870912 + 11, 1073741824 + 85, 2147483648 + 11, 4294967296 + 15, 8589934592 + 17,
     17179869184 + 25, 34359738368 + 53]"

text \<open>The first prime that is not smaller than three times the number of keys, if there is one.\<close>

definition table_size_for :: "nat \<Rightarrow> nat option" where
  "table_size_for n =
     (case dropWhile (\<lambda>p. p < n * hash_table_size_mult) prime_numbers of [] \<Rightarrow> None | p # _ \<Rightarrow> Some p)"

definition myhash :: "'w::len word \<Rightarrow> nat \<Rightarrow> nat option" where
  "myhash k m = (if m = 0 then None else Some (unat k mod m))"

subsection \<open>Scans for missed keys\<close>

text \<open>
  \<open>visit i s\<close> handles item \<open>i\<close>: it changes the state \<open>s\<close> (the values written) and says whether the
  item is missed.
\<close>

definition miss_probe :: "nat \<Rightarrow> 's \<Rightarrow> unit option" where
  "miss_probe i s = Some ()"

definition miss_commit :: "(nat \<Rightarrow> 's \<Rightarrow> ('s \<times> bool) option) \<Rightarrow> nat \<Rightarrow> unit \<Rightarrow> 's \<Rightarrow> ('s \<times> nat option) option" where
  "miss_commit visit i flag s = do { (s, missed) \<leftarrow> visit i s; Some (s, if missed then Some i else None) }"

definition miss_seq :: "(nat \<Rightarrow> 's \<Rightarrow> ('s \<times> bool) option) \<Rightarrow> nat \<Rightarrow> 's \<Rightarrow> ('s \<times> nat list) option" where
  "miss_seq visit n s = do {
     (s, current, rettmp) \<leftarrow> for_each (\<lambda>i (s, current, rettmp). do {
         (s, missed) \<leftarrow> visit i s;
         if missed then do { rettmp \<leftarrow> wr rettmp current i; Some (s, current + 1, rettmp) }
         else Some (s, current, rettmp) }) [0..<n] (s, 0, replicate n 0);
     ret \<leftarrow> copy_cells rettmp 0 (replicate current 0) 0 current;
     Some (s, ret) }"

definition miss_scan ::
  "find_cfg \<Rightarrow> nat \<Rightarrow> (nat \<Rightarrow> 's \<Rightarrow> ('s \<times> bool) option) \<Rightarrow> nat \<Rightarrow> 's \<Rightarrow> ('s \<times> nat list) option" where
  "miss_scan c sizeof_K visit n s =
     (if n = 0 then Some (s, [])
      else let each = find_each c sizeof_K n; rest = n - each * vlen c in
        if each < thr c then miss_seq visit n s
        else do {
          (s, _, ret) \<leftarrow> rake_compact (vlen c) (lanes4 (vlen_each c)) miss_probe (miss_commit visit)
                           each rest s (replicate n 0) (\<lambda>total. replicate total 0);
          Some (s, ret) })"

definition write_visit :: "'k list \<Rightarrow> 'v list \<Rightarrow> 'k list \<Rightarrow> nat list \<Rightarrow> nat \<Rightarrow> 'v list \<Rightarrow> ('v list \<times> bool) option" where
  "write_visit kp vp table_keyp hashp i table_valp = do {
     k \<leftarrow> rd kp i;
     h \<leftarrow> rd hashp i;
     t \<leftarrow> rd table_keyp h;
     if k \<noteq> t then Some (table_valp, True)
     else do { v \<leftarrow> rd vp i; table_valp \<leftarrow> wr table_valp h v; Some (table_valp, False) } }"

definition find_miss_write_table ::
  "find_cfg \<Rightarrow> nat \<Rightarrow> 'k list \<Rightarrow> 'v list \<Rightarrow> nat \<Rightarrow> 'k list \<Rightarrow> 'v list \<Rightarrow> nat list \<Rightarrow> ('v list \<times> nat list) option" where
  "find_miss_write_table c sizeof_K kp vp n table_keyp table_valp hashp =
     miss_scan c sizeof_K (write_visit kp vp table_keyp hashp) n table_valp"

definition unique_visit ::
  "'k list \<Rightarrow> 'v list \<Rightarrow> 'k list \<Rightarrow> nat list \<Rightarrow> nat list \<Rightarrow> nat \<Rightarrow> 'v list \<times> bool \<Rightarrow> (('v list \<times> bool) \<times> bool) option" where
  "unique_visit kp vp table_keyp hashp unique_checkerp i = (\<lambda>(table_valp, is_unique_ok). do {
     k \<leftarrow> rd kp i;
     h \<leftarrow> rd hashp i;
     t \<leftarrow> rd table_keyp h;
     u \<leftarrow> rd unique_checkerp h;
     if k \<noteq> t then Some ((table_valp, is_unique_ok), True)
     else if u = i then do { v \<leftarrow> rd vp i; table_valp \<leftarrow> wr table_valp h v; Some ((table_valp, is_unique_ok), False) }
     else Some ((table_valp, False), False) })"

definition find_miss_unique_check ::
  "find_cfg \<Rightarrow> nat \<Rightarrow> 'k list \<Rightarrow> 'v list \<Rightarrow> nat \<Rightarrow> 'k list \<Rightarrow> 'v list \<Rightarrow> nat list \<Rightarrow> nat list \<Rightarrow>
   (('v list \<times> bool) \<times> nat list) option" where
  "find_miss_unique_check c sizeof_K kp vp n table_keyp table_valp hashp unique_checkerp =
     miss_scan c sizeof_K (unique_visit kp vp table_keyp hashp unique_checkerp) n (table_valp, True)"

definition find_visit :: "'k list \<Rightarrow> 'k list \<Rightarrow> nat list \<Rightarrow> nat \<Rightarrow> unit \<Rightarrow> (unit \<times> bool) option" where
  "find_visit kp table_keyp hashp i s = do {
     k \<leftarrow> rd kp i;
     h \<leftarrow> rd hashp i;
     t \<leftarrow> rd table_keyp h;
     Some ((), k \<noteq> t) }"

definition find_miss :: "find_cfg \<Rightarrow> nat \<Rightarrow> 'k list \<Rightarrow> nat \<Rightarrow> 'k list \<Rightarrow> nat list \<Rightarrow> nat list option" where
  "find_miss c sizeof_K kp n table_keyp hashp = do {
     (_, ret) \<leftarrow> miss_scan c sizeof_K (find_visit kp table_keyp hashp) n ();
     Some ret }"

definition read_visit :: "'k list \<Rightarrow> 'k list \<Rightarrow> 'v list \<Rightarrow> nat list \<Rightarrow> nat \<Rightarrow> 'v list \<Rightarrow> ('v list \<times> bool) option" where
  "read_visit kp table_keyp table_valp hashp i vp = do {
     k \<leftarrow> rd kp i;
     h \<leftarrow> rd hashp i;
     t \<leftarrow> rd table_keyp h;
     if k \<noteq> t then Some (vp, True)
     else do { v \<leftarrow> rd table_valp h; vp \<leftarrow> wr vp i v; Some (vp, False) } }"

definition find_miss_read_table ::
  "find_cfg \<Rightarrow> nat \<Rightarrow> 'k list \<Rightarrow> 'v list \<Rightarrow> nat \<Rightarrow> 'k list \<Rightarrow> 'v list \<Rightarrow> nat list \<Rightarrow> ('v list \<times> nat list) option" where
  "find_miss_read_table c sizeof_K kp vp n table_keyp table_valp hashp =
     miss_scan c sizeof_K (read_visit kp table_keyp table_valp hashp) n vp"

text \<open>
  The scans with two kinds of misses: the cell is empty (\<open>Clear_Miss\<close>), or holds another key.  They have
  two work buffers, each with its own write positions.
\<close>

datatype visit_result = Hit | Missed | Clear_Miss

definition out_if :: "visit_result \<Rightarrow> visit_result \<Rightarrow> nat \<Rightarrow> nat option" where
  "out_if r out i = (if out = r then Some i else None)"

text \<open>\<open>buf[pos++] = v\<close>, when there is an output.\<close>

definition push_out :: "'v option \<Rightarrow> nat \<times> 'v list \<Rightarrow> (nat \<times> 'v list) option" where
  "push_out out = (\<lambda>(pos, buf). case out of None \<Rightarrow> Some (pos, buf)
     | Some v \<Rightarrow> do { buf \<leftarrow> wr buf pos v; Some (pos + 1, buf) })"

definition miss2_step ::
  "(nat \<Rightarrow> 's \<Rightarrow> ('s \<times> visit_result) option) \<Rightarrow> nat \<Rightarrow> nat \<Rightarrow> 's \<times> (nat \<times> nat list) \<times> (nat \<times> nat list) \<Rightarrow>
   ('s \<times> (nat \<times> nat list) \<times> (nat \<times> nat list)) option" where
  "miss2_step visit start j = (\<lambda>(s, m, cm). do {
     (s, out) \<leftarrow> visit (j + start) s;
     m \<leftarrow> push_out (out_if Missed out (j + start)) m;
     cm \<leftarrow> push_out (out_if Clear_Miss out (j + start)) cm;
     Some (s, m, cm) })"

definition miss2_lane ::
  "(nat \<Rightarrow> 's \<Rightarrow> ('s \<times> visit_result) option) \<Rightarrow> nat \<Rightarrow> nat \<Rightarrow> nat \<Rightarrow>
   's \<times> (nat list \<times> nat list) \<times> (nat list \<times> nat list) \<Rightarrow> ('s \<times> (nat list \<times> nat list) \<times> (nat list \<times> nat list)) option" where
  "miss2_lane visit each j l = (\<lambda>(s, m, cm). do {
     (s, out) \<leftarrow> visit (j + each * l) s;
     m \<leftarrow> rake_push l (out_if Missed out (j + each * l)) (fst m) (snd m);
     cm \<leftarrow> rake_push l (out_if Clear_Miss out (j + each * l)) (fst cm) (snd cm);
     Some (s, m, cm) })"

text \<open>The sizes of the parts and their compaction, for one of the buffers.\<close>

definition miss2_gather :: "nat \<Rightarrow> nat \<Rightarrow> nat list \<Rightarrow> nat \<Rightarrow> nat list \<Rightarrow> nat list option" where
  "miss2_gather V each ridx rest_idx buf = do {
     sizes \<leftarrow> rake_sizes V each ridx;
     let rest_size = rest_idx - each * V;
     rake_copy V each sizes rest_size buf (replicate (sum_list sizes + rest_size) 0) }"

definition miss2_scan ::
  "find_cfg \<Rightarrow> nat \<Rightarrow> (nat \<Rightarrow> 's \<Rightarrow> ('s \<times> visit_result) option) \<Rightarrow> nat \<Rightarrow> 's \<Rightarrow> ('s \<times> nat list \<times> nat list) option" where
  "miss2_scan c sizeof_K visit n s =
     (if n = 0 then Some (s, [], [])
      else let each = find_each c sizeof_K n; rest = n - each * vlen c; tmp = replicate n 0 in
        if each < thr c then do {
          (s, (current, rettmp), (current_clear_miss, clear_miss_tmp)) \<leftarrow>
             for_each (miss2_step visit 0) [0..<n] (s, (0, tmp), (0, tmp));
          clear_miss \<leftarrow> copy_cells clear_miss_tmp 0 (replicate current_clear_miss 0) 0 current_clear_miss;
          ret \<leftarrow> copy_cells rettmp 0 (replicate current 0) 0 current;
          Some (s, ret, clear_miss) }
        else do {
          let V = vlen c;
          let ridx = map (\<lambda>i. each * i) [0..<V];
          (s, (ridx, buf), (ridx2, buf2)) \<leftarrow>
             for_each (\<lambda>j. for_each (miss2_lane visit each j) (lanes4 (vlen_each c))) [0..<each]
               (s, (ridx, tmp), (ridx, tmp));
          (s, (rest_idx, buf), (rest_idx2, buf2)) \<leftarrow>
             for_each (miss2_step visit (each * V)) [0..<rest] (s, (each * V, buf), (each * V, buf2));
          ret \<leftarrow> miss2_gather V each ridx rest_idx buf;
          clear_miss \<leftarrow> miss2_gather V each ridx2 rest_idx2 buf2;
          Some (s, ret, clear_miss) })"

definition read_fill_visit ::
  "'k list \<Rightarrow> 'k list \<Rightarrow> 'v list \<Rightarrow> int list \<Rightarrow> nat list \<Rightarrow> nat \<Rightarrow> 'v list \<Rightarrow> ('v list \<times> visit_result) option" where
  "read_fill_visit kp table_keyp table_valp is_filledp hashp i vp = do {
     k \<leftarrow> rd kp i;
     h \<leftarrow> rd hashp i;
     t \<leftarrow> rd table_keyp h;
     isfill \<leftarrow> rd is_filledp h;
     if isfill = 0 then Some (vp, Clear_Miss)
     else if k \<noteq> t then Some (vp, Missed)
     else do { v \<leftarrow> rd table_valp h; vp \<leftarrow> wr vp i v; Some (vp, Hit) } }"

definition find_miss_read_table_checkfill ::
  "find_cfg \<Rightarrow> nat \<Rightarrow> 'k list \<Rightarrow> 'v list \<Rightarrow> nat \<Rightarrow> 'k list \<Rightarrow> 'v list \<Rightarrow> int list \<Rightarrow> nat list \<Rightarrow>
   ('v list \<times> nat list \<times> nat list) option" where
  "find_miss_read_table_checkfill c sizeof_K kp vp n table_keyp table_valp is_filledp hashp =
     miss2_scan c sizeof_K (read_fill_visit kp table_keyp table_valp is_filledp hashp) n vp"

definition fill_visit :: "'k list \<Rightarrow> 'k list \<Rightarrow> int list \<Rightarrow> nat list \<Rightarrow> nat \<Rightarrow> unit \<Rightarrow> (unit \<times> visit_result) option" where
  "fill_visit kp table_keyp is_filledp hashp i s = do {
     k \<leftarrow> rd kp i;
     h \<leftarrow> rd hashp i;
     t \<leftarrow> rd table_keyp h;
     isfill \<leftarrow> rd is_filledp h;
     Some ((), if isfill = 0 then Clear_Miss else if k \<noteq> t then Missed else Hit) }"

definition find_miss_checkfill ::
  "find_cfg \<Rightarrow> nat \<Rightarrow> 'k list \<Rightarrow> nat \<Rightarrow> 'k list \<Rightarrow> int list \<Rightarrow> nat list \<Rightarrow> (nat list \<times> nat list) option" where
  "find_miss_checkfill c sizeof_K kp n table_keyp is_filledp hashp = do {
     (_, ret) \<leftarrow> miss2_scan c sizeof_K (fill_visit kp table_keyp is_filledp hashp) n ();
     Some ret }"

subsection \<open>Construction\<close>

text \<open>The loop that writes the keys to the table; \<open>checker\<close> is written in the checked construction only.\<close>

definition fill_table ::
  "nat \<Rightarrow> 'w::len word list \<Rightarrow> ('w word list \<times> int list \<times> nat list \<times> nat list) option" where
  "fill_table table_size k = for_each (\<lambda>i (table_key, is_filled, checker, hash). do {
       key \<leftarrow> rd k i;
       h \<leftarrow> myhash key table_size;
       table_key \<leftarrow> wr table_key h key;
       is_filled \<leftarrow> wr is_filled h 1;
       checker \<leftarrow> wr checker h i;
       hash \<leftarrow> wr hash i h;
       Some (table_key, is_filled, checker, hash) }) [0..<length k]
     (replicate table_size 0, replicate table_size 0, replicate table_size (2 ^ 64 - 1), replicate (length k) 0)"

definition key_size_ok :: "'w::len word list \<Rightarrow> bool" where
  "key_size_ok k = (LENGTH('w) div 8 = 4 \<or> LENGTH('w) div 8 = 8)"

text \<open>The missed keys and values, sorted.\<close>

definition conflicts_of ::
  "hash_cfg \<Rightarrow> bool \<Rightarrow> 'w::len word list \<Rightarrow> 'v::zero list \<Rightarrow> nat list \<Rightarrow> ('w word \<times> 'v) list option" where
  "conflicts_of c sg k v missed =
     (if length missed > 0 then do {
        conflict \<leftarrow> omap (\<lambda>p. do { x \<leftarrow> rd k p; y \<leftarrow> rd v p; Some (x, y) }) missed;
        radix_sort (hc_radix c) sg conflict False }
      else Some [])"

definition hashtable_new ::
  "hash_cfg \<Rightarrow> bool \<Rightarrow> 'w::len word list \<Rightarrow> 'v::zero list \<Rightarrow> (string + ('w word, 'v) unique_hashtable) option" where
  "hashtable_new c sg k v =
     (if length v \<noteq> length k then Some (Inl ''sizes of key and value are different'')
      else case table_size_for (length k) of
        None \<Rightarrow> Some (Inl ''unique_hash_table: requested size too large'')
      | Some table_size \<Rightarrow>
         if \<not> key_size_ok k then Some (Inl ''unique_hashtable only supports key whose size is 4 or 8'')
         else do {
           (table_key, is_filled, _, hash) \<leftarrow> fill_table table_size k;
           (table_val, missed) \<leftarrow> find_miss_write_table (hc_find c) (LENGTH('w) div 8) k v (length k) table_key
             (replicate table_size 0) hash;
           conflict \<leftarrow> conflicts_of c sg k v missed;
           Some (Inr \<lparr>ht_key = table_key, ht_val = table_val, ht_is_filled = is_filled,
             ht_conflict_key = map fst conflict, ht_conflict_val = map snd conflict\<rparr>) })"

text \<open>The checked construction also returns \<open>is_unique_ok\<close>.\<close>

definition hashtable_new_unique ::
  "hash_cfg \<Rightarrow> bool \<Rightarrow> 'w::len word list \<Rightarrow> 'v::zero list \<Rightarrow> (string + ('w word, 'v) unique_hashtable \<times> bool) option" where
  "hashtable_new_unique c sg k v =
     (if length v \<noteq> length k then Some (Inl ''sizes of key and value are different'')
      else case table_size_for (length k) of
        None \<Rightarrow> Some (Inl ''unique_hash_table: requested size too large'')
      | Some table_size \<Rightarrow>
         if \<not> key_size_ok k then Some (Inl ''unique_hashtable only supports key whose size is 4 or 8'')
         else do {
           (table_key, is_filled, checker, hash) \<leftarrow> fill_table table_size k;
           ((table_val, is_unique_ok), missed) \<leftarrow> find_miss_unique_check (hc_find c) (LENGTH('w) div 8) k v (length k)
             table_key (replicate table_size 0) hash checker;
           conflict \<leftarrow> conflicts_of c sg k v missed;
           unique \<leftarrow> (if length missed > 0
             then hc_set_is_unique c (map (\<lambda>x. key_val sg (fst x)) conflict) (length conflict) else Some True);
           Some (Inr (\<lparr>ht_key = table_key, ht_val = table_val, ht_is_filled = is_filled,
             ht_conflict_key = map fst conflict, ht_conflict_val = map snd conflict\<rparr>,
             is_unique_ok \<and> unique)) })"

text \<open>For sets: keys only.\<close>

definition hashtable_new_set ::
  "hash_cfg \<Rightarrow> bool \<Rightarrow> 'w::len word list \<Rightarrow> (string + ('w word, 'v) unique_hashtable) option" where
  "hashtable_new_set c sg k =
     (case table_size_for (length k) of
        None \<Rightarrow> Some (Inl ''unique_hash_table: requested size too large'')
      | Some table_size \<Rightarrow>
         if \<not> key_size_ok k then Some (Inl ''unique_hashtable only supports key whose size is 4 or 8'')
         else do {
           (table_key, is_filled, _, hash) \<leftarrow> fill_table table_size k;
           missed \<leftarrow> find_miss (hc_find c) (LENGTH('w) div 8) k (length k) table_key hash;
           conflict \<leftarrow> (if length missed > 0 then do {
               conflict \<leftarrow> omap (rd k) missed;
               radix_sort_keys (hc_radix c) sg conflict False }
             else Some []);
           Some (Inr \<lparr>ht_key = table_key, ht_val = [], ht_is_filled = is_filled,
             ht_conflict_key = conflict, ht_conflict_val = []\<rparr>) })"

subsection \<open>Lookup\<close>

definition search_conflicts ::
  "hash_cfg \<Rightarrow> bool \<Rightarrow> ('w::len word, 'v) unique_hashtable \<Rightarrow> 'w word list \<Rightarrow> nat list option" where
  "search_conflicts c sg ht missed_key =
     lower_bound_vec (hc_bound_vlen c) (map (key_val sg) (ht_conflict_key ht)) (map (key_val sg) missed_key)"

definition hashtable_lookup ::
  "hash_cfg \<Rightarrow> bool \<Rightarrow> ('w::len word, 'v::zero) unique_hashtable \<Rightarrow> 'w word list \<Rightarrow> 'v list option" where
  "hashtable_lookup c sg ht k = do {
     hash \<leftarrow> omap (\<lambda>key. myhash key (length (ht_key ht))) k;
     (v, missed) \<leftarrow> find_miss_read_table (hc_find c) (LENGTH('w) div 8) k (replicate (length k) 0) (length k)
       (ht_key ht) (ht_val ht) hash;
     if length missed > 0 then do {
       missed_key \<leftarrow> omap (rd k) missed;
       idx \<leftarrow> search_conflicts c sg ht missed_key;
       for_each (\<lambda>i v. do {
           p \<leftarrow> rd missed i;
           q \<leftarrow> rd idx i;
           x \<leftarrow> rd (ht_conflict_val ht) q;
           wr v p x }) [0..<length missed] v }
     else Some v }"

text \<open>
  A position stored in an array of keys and read back as a \<open>size_t\<close>: \<open>retmisstmp\<close> is declared with the
  key type.
\<close>

definition key_of_pos :: "nat \<Rightarrow> 'w::len word" where
  "key_of_pos p = of_nat p"

definition pos_of_key :: "bool \<Rightarrow> 'w::len word \<Rightarrow> nat" where
  "pos_of_key sg k = nat (key_val sg k mod 2 ^ 64)"

definition hashtable_lookup_miss ::
  "hash_cfg \<Rightarrow> bool \<Rightarrow> ('w::len word, 'v::zero) unique_hashtable \<Rightarrow> 'w word list \<Rightarrow> ('v list \<times> nat list) option" where
  "hashtable_lookup_miss c sg ht k = do {
     hash \<leftarrow> omap (\<lambda>key. myhash key (length (ht_key ht))) k;
     (v, missed, clear_miss) \<leftarrow> find_miss_read_table_checkfill (hc_find c) (LENGTH('w) div 8) k
       (replicate (length k) 0) (length k) (ht_key ht) (ht_val ht) (ht_is_filled ht) hash;
     if length missed > 0 then do {
       missed_key \<leftarrow> omap (rd k) missed;
       idx \<leftarrow> search_conflicts c sg ht missed_key;
       (v, crntpos, retmisstmp) \<leftarrow> for_each (\<lambda>i (v, crntpos, retmisstmp). do {
           p \<leftarrow> rd missed i;
           q \<leftarrow> rd idx i;
           found \<leftarrow> (if q < length (ht_conflict_val ht) then do {
               x \<leftarrow> rd (ht_conflict_key ht) q;
               y \<leftarrow> rd missed_key i;
               Some (x = y) } else Some False);
           if found then do { x \<leftarrow> rd (ht_conflict_val ht) q; v \<leftarrow> wr v p x; Some (v, crntpos, retmisstmp) }
           else do { retmisstmp \<leftarrow> wr retmisstmp crntpos (key_of_pos p :: 'w word); Some (v, crntpos + 1, retmisstmp) } })
         [0..<length missed] (v, 0, replicate (length missed) 0);
       retmisstmp2 \<leftarrow> rd_block retmisstmp 0 crntpos;
       retmiss \<leftarrow> hc_set_union c clear_miss (map (pos_of_key sg) retmisstmp2);
       Some (v, retmiss) }
     else Some (v, clear_miss) }"

definition hashtable_check_existence ::
  "hash_cfg \<Rightarrow> bool \<Rightarrow> ('w::len word, 'v) unique_hashtable \<Rightarrow> 'w word list \<Rightarrow> int list option" where
  "hashtable_check_existence c sg ht k = do {
     hash \<leftarrow> omap (\<lambda>key. myhash key (length (ht_key ht))) k;
     (missed, clear_miss) \<leftarrow> find_miss_checkfill (hc_find c) (LENGTH('w) div 8) k (length k)
       (ht_key ht) (ht_is_filled ht) hash;
     ret \<leftarrow> for_each (\<lambda>i ret. do { p \<leftarrow> rd clear_miss i; wr ret p 0 }) [0..<length clear_miss] (replicate (length k) 1);
     if length missed > 0 then do {
       missed_key \<leftarrow> omap (rd k) missed;
       idx \<leftarrow> search_conflicts c sg ht missed_key;
       for_each (\<lambda>i ret. do {
           p \<leftarrow> rd missed i;
           q \<leftarrow> rd idx i;
           absent \<leftarrow> (if q = length (ht_conflict_val ht) then Some True else do {
               x \<leftarrow> rd (ht_conflict_key ht) q;
               y \<leftarrow> rd missed_key i;
               Some (x \<noteq> y) });
           if absent then wr ret p 0 else Some ret }) [0..<length missed] ret }
     else Some ret }"

definition hashtable_all_keys ::
  "find_cfg \<Rightarrow> ('w::len word, 'v) unique_hashtable \<Rightarrow> 'w word list option" where
  "hashtable_all_keys fc ht = do {
     hit \<leftarrow> vector_find_one fc 4 (ht_is_filled ht);
     filled \<leftarrow> omap (rd (ht_key ht)) hit;
     Some (filled @ ht_conflict_key ht) }"

end
