(* ===== verification/HashScan.thy ===== *)
theory HashScan
  imports Hashtable
begin

text \<open>
  The scans for missed keys: every path visits the items once and returns the positions of the missed
  ones in order.  Locales \<open>miss_visit\<close> and \<open>miss2_visit\<close> are the contracts of a visit.
\<close>

subsection \<open>Two runs in step\<close>

lemma for_each_in_step:
  assumes "for_each f xs s = Some s'" "for_each g xs t = Some t'"
    and "\<And>x s t s1 t1. x \<in> set xs \<Longrightarrow> f x s = Some s1 \<Longrightarrow> g x t = Some t1 \<Longrightarrow> h x (J s t) = Some (J s1 t1)"
  shows "for_each h xs (J s t) = Some (J s' t')"
  using assms
proof (induction xs arbitrary: s t)
  case (Cons x xs)
  then obtain s1 t1 where "f x s = Some s1" "for_each f xs s1 = Some s'" "g x t = Some t1" "for_each g xs t1 = Some t'"
    by (auto simp: bind_eq_Some_conv)
  then show ?case using Cons.IH [of s1 t1] Cons.prems(3) by simp
qed simp

lemma rake_row_no_probe:
  "rake_row miss_probe commit lanes each j st = for_each (\<lambda>l (s, ridx, buf). do {
     (s, out) \<leftarrow> commit (j + each * l) () s;
     (ridx, buf) \<leftarrow> rake_push l out ridx buf;
     Some (s, ridx, buf) }) lanes st"
proof -
  have "omap (\<lambda>l. miss_probe (j + each * l) (fst st)) lanes = Some (map (\<lambda>_. ()) lanes)"
    by (rule omap_Some) (simp add: miss_probe_def)
  then show ?thesis by (simp add: rake_row_def zip_map_self for_each_map)
qed

lemma rake_rest_no_probe:
  "rake_rest miss_probe commit start rest st = for_each (\<lambda>j (s, rest_idx, buf). do {
     (s, out) \<leftarrow> commit (j + start) () s;
     (rest_idx, buf) \<leftarrow> push_out out (rest_idx, buf);
     Some (s, rest_idx, buf) }) [0..<rest] (fst st, start, snd st)"
proof -
  have "(\<lambda>j (s, rest_idx, buf). do {
         flag \<leftarrow> miss_probe (j + start) s;
         (s', out) \<leftarrow> commit (j + start) flag s;
         case out of
           None \<Rightarrow> Some (s', rest_idx, buf)
         | Some v \<Rightarrow> do { buf' \<leftarrow> wr buf rest_idx v; Some (s', rest_idx + 1, buf') } })
    = (\<lambda>j (s, rest_idx, buf). do {
     (s, out) \<leftarrow> commit (j + start) () s;
     (rest_idx, buf) \<leftarrow> push_out out (rest_idx, buf);
     Some (s, rest_idx, buf) })"
    by (auto simp: fun_eq_iff miss_probe_def push_out_def bind_assoc intro!: arg_cong [where f = "Option.bind _"] split: option.splits)
  then show ?thesis by (simp only: rake_rest_def)
qed

subsection \<open>One kind of misses\<close>

locale miss_visit =
  fixes size :: nat and visit :: "nat \<Rightarrow> 's \<Rightarrow> ('s \<times> bool) option" and miss :: "nat \<Rightarrow> bool" and Inv :: "nat set \<Rightarrow> 's \<Rightarrow> bool"
  assumes visit_ok: "Inv D s \<Longrightarrow> i < size \<Longrightarrow> i \<notin> D \<Longrightarrow> ok (visit i s) (\<lambda>(s', m). m = miss i \<and> Inv (insert i D) s')"
begin

sublocale rake_visit size miss_probe "miss_commit visit" "\<lambda>_. ()" "\<lambda>i. if miss i then Some i else None" Inv
proof
  fix D s i assume "Inv D s" "i < size" "i \<notin> D"
  then have "ok (visit i s) (\<lambda>(s', m). m = miss i \<and> Inv (insert i D) s')" by (rule visit_ok)
  then show "ok (miss_commit visit i () s) (\<lambda>(s', out). out = (if miss i then Some i else None) \<and> Inv (insert i D) s')"
    by (auto simp: miss_commit_def ok_iff_ex)
qed (simp add: miss_probe_def)

lemma miss_seq_compact:
  "miss_seq visit n s = do {
     (s, _, ret) \<leftarrow> rake_compact 0 [] miss_probe (miss_commit visit) 0 n s (replicate n 0) (\<lambda>total. replicate total 0);
     Some (s, ret) }"
proof -
  have "(\<lambda>i (s, current, rettmp). do {
      (s, missed) \<leftarrow> visit i s;
      if missed then do { rettmp \<leftarrow> wr rettmp current i; Some (s, current + 1, rettmp) } else Some (s, current, rettmp) })
    = (\<lambda>j (s, rest_idx, buf). do {
      (s, out) \<leftarrow> miss_commit visit (j + 0) () s;
      (rest_idx, buf) \<leftarrow> push_out out (rest_idx, buf);
      Some (s, rest_idx, buf) })"
    by (auto simp: fun_eq_iff miss_commit_def push_out_def intro!: arg_cong [where f = "Option.bind _"])
  then show ?thesis
    by (simp add: miss_seq_def rake_compact_def rake_scan_def rake_sizes_def rake_copy_def rake_rest_no_probe bind_assoc
        case_prod_unfold)
qed

lemma miss_scan_ok:
  assumes "wf_cfg c" "Inv {} s"
  shows "ok (miss_scan c sz visit size s) (\<lambda>(s', ret). Inv {0..<size} s' \<and> ret = filter miss [0..<size])"
proof -
  have pack: "ok (do { (s, _, ret) \<leftarrow> rake_compact V lanes miss_probe (miss_commit visit) each rest s (replicate size 0)
        (\<lambda>total. replicate total 0); Some (s, ret) })
      (\<lambda>(s', ret). Inv {0..<size} s' \<and> ret = filter miss [0..<size])"
    if "each * V + rest = size" "distinct lanes" "set lanes = {0..<V}" for V lanes each rest
    using compact_ok [OF assms(2) that(1) _ that(2,3), of "replicate size 0" "\<lambda>total. replicate total 0"]
    by (auto simp: ok_iff_ex hits_filter)
  have seq: "ok (miss_seq visit size s) (\<lambda>(s', ret). Inv {0..<size} s' \<and> ret = filter miss [0..<size])"
    unfolding miss_seq_compact by (rule pack) simp_all
  have raked: "ok (do { (s, _, ret) \<leftarrow> rake_compact (vlen c) (lanes4 (vlen_each c)) miss_probe (miss_commit visit)
        (find_each c sz size) (size - find_each c sz size * vlen c) s (replicate size 0) (\<lambda>total. replicate total 0); Some (s, ret) })
      (\<lambda>(s', ret). Inv {0..<size} s' \<and> ret = filter miss [0..<size])"
    by (rule pack) (use assms(1) find_each_le [of c sz size] in \<open>simp_all add: distinct_lanes4 set_lanes4 wf_cfg_def\<close>)
  show ?thesis
  proof (cases "size = 0")
    case True
    then show ?thesis using assms(2) by (simp add: miss_scan_def)
  next
    case False
    then show ?thesis using seq raked by (cases "find_each c sz size < thr c") (simp_all only: miss_scan_def Let_def if_True if_False)
  qed
qed

end

subsection \<open>Two kinds of misses\<close>

locale miss2_visit =
  fixes size :: nat and visit :: "nat \<Rightarrow> 's \<Rightarrow> ('s \<times> visit_result) option" and cls :: "nat \<Rightarrow> visit_result"
    and Inv :: "nat set \<Rightarrow> 's \<Rightarrow> bool"
  assumes visit_cls: "visit i s = Some (s', r) \<Longrightarrow> r = cls i"
    and visit_ok: "Inv D s \<Longrightarrow> i < size \<Longrightarrow> i \<notin> D \<Longrightarrow> ok (visit i s) (\<lambda>(s', r). Inv (insert i D) s')"
begin

definition commit1 :: "nat \<Rightarrow> unit \<Rightarrow> 's \<Rightarrow> ('s \<times> nat option) option" where
  "commit1 i flag s = do { (s, out) \<leftarrow> visit i s; Some (s, out_if Missed out i) }"

definition commit2 :: "nat \<Rightarrow> unit \<Rightarrow> unit \<Rightarrow> (unit \<times> nat option) option" where
  "commit2 i flag s = Some ((), out_if Clear_Miss (cls i) i)"

sublocale one: rake_visit size miss_probe commit1 "\<lambda>_. ()" "\<lambda>i. if cls i = Missed then Some i else None" Inv
proof
  fix D s i assume "Inv D s" "i < size" "i \<notin> D"
  then have "ok (visit i s) (\<lambda>(s', r). Inv (insert i D) s')" by (rule visit_ok)
  then obtain s' r where "visit i s = Some (s', r)" "Inv (insert i D) s'" by (auto simp: ok_iff_ex)
  then show "ok (commit1 i () s) (\<lambda>(s', out). out = (if cls i = Missed then Some i else None) \<and> Inv (insert i D) s')"
    using visit_cls by (auto simp: commit1_def out_if_def)
qed (simp add: miss_probe_def)

sublocale two: rake_visit size miss_probe commit2 "\<lambda>_. ()" "\<lambda>i. if cls i = Clear_Miss then Some i else None" "\<lambda>_ _. True"
  by unfold_locales (simp_all add: miss_probe_def commit2_def out_if_def)

lemma commit1D: "commit1 i flag s = Some (s', out) \<Longrightarrow> visit i s = Some (s', cls i) \<and> out = out_if Missed (cls i) i"
  by (auto simp: commit1_def bind_eq_Some_conv dest: visit_cls)

text \<open>Both buffers of a scan with two kinds of misses.\<close>

definition both :: "'s \<times> 'p \<times> nat list \<Rightarrow> unit \<times> 'p \<times> nat list \<Rightarrow> 's \<times> ('p \<times> nat list) \<times> ('p \<times> nat list)" where
  "both x y = (fst x, snd x, snd y)"

lemma scan_in_step:
  assumes one: "rake_scan V lanes miss_probe commit1 each rest s tmp = Some (s', ridx, rest_idx, buf)"
    and two: "rake_scan V lanes miss_probe commit2 each rest () tmp = Some ((), ridx2, rest_idx2, buf2)"
  shows "do {
     (s, (ridx, buf), (ridx2, buf2)) \<leftarrow> for_each (\<lambda>j. for_each (miss2_lane visit each j) lanes) [0..<each]
       (s, (map (\<lambda>i. each * i) [0..<V], tmp), (map (\<lambda>i. each * i) [0..<V], tmp));
     (s, m, cm) \<leftarrow> for_each (miss2_step visit (each * V)) [0..<rest] (s, (each * V, buf), (each * V, buf2));
     Some (s, ridx, m, ridx2, cm) } = Some (s', ridx, (rest_idx, buf), ridx2, (rest_idx2, buf2))"
proof -
  let ?i = "map (\<lambda>i. each * i) [0..<V]"
  obtain s1 b1 where 1: "for_each (rake_row miss_probe commit1 lanes each) [0..<each] (s, ?i, tmp) = Some (s1, ridx, b1)"
      "rake_rest miss_probe commit1 (each * V) rest (s1, b1) = Some (s', rest_idx, buf)"
    using one by (auto simp: rake_scan_def bind_eq_Some_conv)
  obtain b2 where 2: "for_each (rake_row miss_probe commit2 lanes each) [0..<each] ((), ?i, tmp) = Some ((), ridx2, b2)"
      "rake_rest miss_probe commit2 (each * V) rest ((), b2) = Some ((), rest_idx2, buf2)"
    using two by (auto simp: rake_scan_def bind_eq_Some_conv)
  have "for_each (\<lambda>j. for_each (miss2_lane visit each j) lanes) [0..<each] (both (s, ?i, tmp) ((), ?i, tmp))
      = Some (both (s1, ridx, b1) ((), ridx2, b2))"
  proof (rule for_each_in_step [OF 1(1) 2(1)])
    fix j x y x1 y1
    assume "rake_row miss_probe commit1 lanes each j x = Some x1" "rake_row miss_probe commit2 lanes each j y = Some y1"
    then show "for_each (miss2_lane visit each j) lanes (both x y) = Some (both x1 y1)"
      unfolding rake_row_no_probe
      by (rule for_each_in_step)
        (auto simp: miss2_lane_def commit2_def both_def bind_eq_Some_conv dest!: commit1D)
  qed
  moreover have "for_each (miss2_step visit (each * V)) [0..<rest] (both (s1, each * V, b1) ((), each * V, b2))
      = Some (both (s', rest_idx, buf) ((), rest_idx2, buf2))"
    using 1(2) 2(2) unfolding rake_rest_no_probe fst_conv snd_conv
    by (rule for_each_in_step)
      (auto simp: miss2_step_def commit2_def both_def bind_eq_Some_conv dest!: commit1D)
  ultimately show ?thesis by (simp add: both_def)
qed

lemma compact_gather:
  assumes "rake_compact V lanes miss_probe commit each rest s buf (\<lambda>total. replicate total 0) = Some (s', n, ret)"
  shows "\<exists>ridx rest_idx buf'. rake_scan V lanes miss_probe commit each rest s buf = Some (s', ridx, rest_idx, buf') \<and>
    miss2_gather V each ridx rest_idx buf' = Some ret"
  using assms by (auto simp: rake_compact_def miss2_gather_def bind_eq_Some_conv Let_def)

lemma miss2_scan_ok:
  assumes "wf_cfg c" "Inv {} s"
  shows "ok (miss2_scan c sz visit size s) (\<lambda>(s', ret, clear_miss). Inv {0..<size} s' \<and>
    ret = filter (\<lambda>i. cls i = Missed) [0..<size] \<and> clear_miss = filter (\<lambda>i. cls i = Clear_Miss) [0..<size])"
proof -
  let ?i = "\<lambda>each V. map (\<lambda>i. each * i) [0..<V]" and ?tmp = "replicate size 0"
  have pack: "ok (do {
     (s, (ridx, buf), (ridx2, buf2)) \<leftarrow> for_each (\<lambda>j. for_each (miss2_lane visit each j) lanes) [0..<each]
       (s, (?i each V, ?tmp), (?i each V, ?tmp));
     (s, (rest_idx, buf), (rest_idx2, buf2)) \<leftarrow> for_each (miss2_step visit (each * V)) [0..<rest] (s, (each * V, buf), (each * V, buf2));
     ret \<leftarrow> miss2_gather V each ridx rest_idx buf;
     clear_miss \<leftarrow> miss2_gather V each ridx2 rest_idx2 buf2;
     Some (s, ret, clear_miss) })
    (\<lambda>(s', ret, clear_miss). Inv {0..<size} s' \<and>
      ret = filter (\<lambda>i. cls i = Missed) [0..<size] \<and> clear_miss = filter (\<lambda>i. cls i = Clear_Miss) [0..<size])"
    if f: "each * V + rest = size" "distinct lanes" "set lanes = {0..<V}" for V lanes each rest
  proof -
    obtain s' n where c1: "rake_compact V lanes miss_probe commit1 each rest s ?tmp (\<lambda>total. replicate total 0)
        = Some (s', n, filter (\<lambda>i. cls i = Missed) [0..<size])" and s': "Inv {0..<size} s'"
      using one.compact_ok [OF assms(2) f(1) _ f(2,3), of ?tmp "\<lambda>total. replicate total 0"] by (auto simp: ok_iff_ex hits_filter)
    from compact_gather [OF c1] obtain ridx rest_idx buf where 1: "rake_scan V lanes miss_probe commit1 each rest s ?tmp = Some (s', ridx, rest_idx, buf)"
      "miss2_gather V each ridx rest_idx buf = Some (filter (\<lambda>i. cls i = Missed) [0..<size])"
      by (elim exE conjE)
    obtain n where c2: "rake_compact V lanes miss_probe commit2 each rest () ?tmp (\<lambda>total. replicate total 0)
        = Some ((), n, filter (\<lambda>i. cls i = Clear_Miss) [0..<size])"
      using two.compact_ok [OF TrueI f(1) _ f(2,3), of ?tmp "\<lambda>total. replicate total 0" "()"] by (auto simp: ok_iff_ex hits_filter)
    from compact_gather [OF c2] obtain ridx2 rest_idx2 buf2 where 2: "rake_scan V lanes miss_probe commit2 each rest () ?tmp = Some ((), ridx2, rest_idx2, buf2)"
      "miss2_gather V each ridx2 rest_idx2 buf2 = Some (filter (\<lambda>i. cls i = Clear_Miss) [0..<size])"
      by (elim exE conjE)
    from scan_in_step [OF 1(1) 2(1)] show ?thesis using 1(2) 2(2) s' by (auto simp: bind_eq_Some_conv)
  qed
  have seq: "do {
       (s, (current, rettmp), (current_clear_miss, clear_miss_tmp)) \<leftarrow> for_each (miss2_step visit 0) [0..<size] (s, (0, ?tmp), (0, ?tmp));
       clear_miss \<leftarrow> copy_cells clear_miss_tmp 0 (replicate current_clear_miss 0) 0 current_clear_miss;
       ret \<leftarrow> copy_cells rettmp 0 (replicate current 0) 0 current;
       Some (s, ret, clear_miss) }
    = do {
     (s, (rest_idx, buf), (rest_idx2, buf2)) \<leftarrow> for_each (miss2_step visit 0) [0..<size] (s, (0, ?tmp), (0, ?tmp));
     ret \<leftarrow> miss2_gather 0 0 [] rest_idx buf;
     clear_miss \<leftarrow> miss2_gather 0 0 [] rest_idx2 buf2;
     Some (s, ret, clear_miss) }"
    by (auto simp: miss2_gather_def rake_sizes_def rake_copy_def intro!: arg_cong [where f = "Option.bind _"] split: Option.bind_splits)
  have seq_ok: "ok (do {
     (s, (rest_idx, buf), (rest_idx2, buf2)) \<leftarrow> for_each (miss2_step visit 0) [0..<size] (s, (0, ?tmp), (0, ?tmp));
     ret \<leftarrow> miss2_gather 0 0 [] rest_idx buf;
     clear_miss \<leftarrow> miss2_gather 0 0 [] rest_idx2 buf2;
     Some (s, ret, clear_miss) })
    (\<lambda>(s', ret, clear_miss). Inv {0..<size} s' \<and>
      ret = filter (\<lambda>i. cls i = Missed) [0..<size] \<and> clear_miss = filter (\<lambda>i. cls i = Clear_Miss) [0..<size])"
    using pack [of 0 0 "size" "[]"] by simp
  note raked = pack [of "find_each c sz size" "vlen c" "size - find_each c sz size * vlen c" "lanes4 (vlen_each c)"]
  have lanes: "find_each c sz size * vlen c + (size - find_each c sz size * vlen c) = size"
    "distinct (lanes4 (vlen_each c))" "set (lanes4 (vlen_each c)) = {0..<vlen c}"
    using assms(1) find_each_le [of c sz size] by (simp_all add: distinct_lanes4 set_lanes4 wf_cfg_def)
  show ?thesis
  proof (cases "size = 0")
    case True
    then show ?thesis using assms(2) by (simp add: miss2_scan_def)
  next
    case False
    then show ?thesis using seq_ok raked [OF lanes]
      by (cases "find_each c sz size < thr c") (simp_all only: miss2_scan_def Let_def seq if_True if_False)
  qed
qed

end

subsection \<open>The visits that only compare\<close>

definition scan_wf :: "'k list \<Rightarrow> 'k list \<Rightarrow> nat list \<Rightarrow> nat \<Rightarrow> bool" where
  "scan_wf kp table_keyp hashp n = (length kp = n \<and> length hashp = n \<and> (\<forall>i<n. hashp ! i < length table_keyp))"

definition item_missed :: "'k list \<Rightarrow> 'k list \<Rightarrow> nat list \<Rightarrow> nat \<Rightarrow> bool" where
  "item_missed kp table_keyp hashp i = (kp ! i \<noteq> table_keyp ! (hashp ! i))"

definition item_class :: "'k list \<Rightarrow> 'k list \<Rightarrow> int list \<Rightarrow> nat list \<Rightarrow> nat \<Rightarrow> visit_result" where
  "item_class kp table_keyp is_filledp hashp i = (if is_filledp ! (hashp ! i) = 0 then Clear_Miss
     else if item_missed kp table_keyp hashp i then Missed else Hit)"

interpretation find_scan: miss_visit n "find_visit kp table_keyp hashp" "item_missed kp table_keyp hashp"
    "\<lambda>_ _. scan_wf kp table_keyp hashp n" for kp table_keyp hashp n
  by unfold_locales (simp add: find_visit_def item_missed_def scan_wf_def)

interpretation fill_scan: miss2_visit n "fill_visit kp table_keyp is_filledp hashp" "item_class kp table_keyp is_filledp hashp"
    "\<lambda>_ _. scan_wf kp table_keyp hashp n \<and> length is_filledp = length table_keyp" for kp table_keyp is_filledp hashp n
  by unfold_locales
    (auto simp: fill_visit_def item_class_def item_missed_def scan_wf_def bind_eq_Some_conv rd_def split: if_splits)

end
