(* ===== verification/HashBuild.thy ===== *)
theory HashBuild
  imports HashScan
begin

text \<open>
  The hash table: what the two builds promise to it (locale \<open>hash_build\<close>), the loop that fills the
  table, the search in the conflicts, and the abstract map of a table with its invariant.
\<close>

subsection \<open>Builds\<close>

text \<open>\<open>exact ks\<close>: on these sorted keys the build's set_is_unique is right in both directions.\<close>

locale hash_build =
  fixes c :: hash_cfg and exact :: "int list \<Rightarrow> bool"
  assumes find: "wf_cfg (hc_find c)" and bound: "0 < hc_bound_vlen c"
    and radix: "hc_radix c = radix_cfg_ve \<or> hc_radix c = radix_cfg_x86"
    and union: "sorted l \<Longrightarrow> sorted r \<Longrightarrow> hc_set_union c l r = Some (std_set_union l r)"
    and unique_total: "\<exists>b. hc_set_is_unique c ks (length ks) = Some b"
    and unique_distinct: "distinct ks \<Longrightarrow> hc_set_is_unique c ks (length ks) = Some True"
    and unique_exact: "sorted ks \<Longrightarrow> exact ks \<Longrightarrow> hc_set_is_unique c ks (length ks) = Some (distinct ks)"
begin

lemma radix_sort_eq:
  assumes "LENGTH('w::len) = 32 \<or> LENGTH('w) = 64"
  shows "radix_sort (hc_radix c) sg (xs :: ('w word \<times> 'v::zero) list) False = Some (sort_key (\<lambda>x. key_val sg (fst x)) xs)"
    "radix_sort_keys (hc_radix c) sg (ks :: 'w word list) False = Some (sort_key (key_val sg) ks)"
  using radix rx_ve.sorts_eq(1) [OF assms, of False xs sg] rx_x86.sorts_eq(1) [OF assms, of False xs sg]
    rx_ve.sort_keys_eq(1) [OF assms, of False ks sg] rx_x86.sort_keys_eq(1) [OF assms, of False ks sg] by auto

end

lemma distinct_adjacent: "sorted (ks :: int list) \<Longrightarrow> (\<forall>j. 1 \<le> j \<and> j < length ks \<longrightarrow> ks ! j \<noteq> ks ! (j - 1)) \<longleftrightarrow> distinct ks"
proof
  assume s: "sorted ks" and a: "\<forall>j. 1 \<le> j \<and> j < length ks \<longrightarrow> ks ! j \<noteq> ks ! (j - 1)"
  have "ks ! i < ks ! Suc i" if "Suc i < length ks" for i
  proof -
    have "ks ! i \<le> ks ! Suc i" using s that by (simp add: sorted_iff_nth_mono)
    moreover have "ks ! Suc i \<noteq> ks ! i" using a [rule_format, of "Suc i"] that by simp
    ultimately show ?thesis by simp
  qed
  then have "sorted_wrt (<) ks" by (simp add: sorted_wrt_iff_nth_Suc_transp)
  then show "distinct ks" by (simp add: strict_sorted_iff)
qed (auto simp: nth_eq_iff_index_eq)

lemma key_starts_distinct: "sorted (ks :: int list) \<Longrightarrow> key_starts ks 1 (length ks) = [1..<length ks] \<longleftrightarrow> distinct ks"
  using distinct_adjacent [of ks] by (auto simp: key_starts_def filter_id_conv simp del: One_nat_def)

lemma distinct_key_starts: "distinct ks \<Longrightarrow> key_starts ks 1 (length ks) = [1..<length ks]"
  by (auto simp: key_starts_def filter_id_conv distinct_conv_nth)

text \<open>The vector build: total, right on distinct keys, and right on the short inputs of its sequential path.\<close>

lemma is_unique_sx_short:
  assumes "runs_each VLEN (length ks - 1) = 0"
  shows "set_is_unique_sx VLEN ks (length ks) = Some (key_starts ks 1 (length ks) = [1..<length ks])"
proof (cases "ks = []")
  case True
  then show ?thesis by (simp add: set_is_unique_sx_def key_starts_def)
next
  case False
  let ?I = "\<lambda>i (u, c). u = (\<forall>j. 1 \<le> j \<and> j < i \<longrightarrow> ks ! j \<noteq> ks ! (j - 1)) \<and> (u \<longrightarrow> c = ks ! (i - 1))"
  have "ok (for_each (\<lambda>i (unique, current).
              if unique then do {
                loaded \<leftarrow> rd ks i;
                if loaded = current then Some (False, current) else Some (True, loaded) }
              else Some (False, current)) [1..<length ks] (True, ks ! 0)) (?I (length ks))"
    by (rule ok_for_range [where I = ?I])
      (use False in \<open>auto simp: ok_simps less_Suc_eq Suc_le_eq split: prod.splits\<close>)
  then show ?thesis
    using False assms by (auto simp: set_is_unique_sx_def Let_def ok_iff_ex key_starts_def filter_id_conv)
qed

text \<open>Lane \<open>i\<close> has seen a key in front of the one it loads next.\<close>

definition seen_before :: "'k list \<Rightarrow> nat \<Rightarrow> (nat \<Rightarrow> nat) \<Rightarrow> nat \<Rightarrow> bool \<times> 'k list \<Rightarrow> bool" where
  "seen_before ks each m V = (\<lambda>(u, cur). length cur = V \<and>
     (distinct ks \<longrightarrow> u) \<and> (\<forall>i<V. \<exists>p\<le>i * each + m i. p < length ks \<and> cur ! i = ks ! p))"

lemma is_unique_step_ok:
  assumes "seen_before ks each m V st" "i < V" "i * each + m i + 1 < length ks"
  shows "ok (is_unique_step (tl ks) each (m i) i st) (seen_before ks each (m(i := Suc (m i))) V)"
proof -
  obtain u cur where st: "st = (u, cur)" by (cases st)
  have len: "length cur = V" "i < length cur" using assms by (simp_all add: seen_before_def st)
  have load: "rd (tl ks) (i * each + m i) = Some (ks ! (i * each + m i + 1))" using assms(3) by (simp add: nth_tl)
  obtain p where p: "p \<le> i * each + m i" "p < length ks" "cur ! i = ks ! p"
    using assms(1,2) by (auto simp: seen_before_def st)
  have ne: "distinct ks \<longrightarrow> ks ! (i * each + m i + 1) \<noteq> cur ! i" using p assms(3) by (auto simp: nth_eq_iff_index_eq)
  have keep: "\<forall>j<V. \<exists>p\<le>j * each + (m(i := Suc (m i))) j. p < length ks \<and> cur ! j = ks ! p"
    using assms(1) by (fastforce simp: seen_before_def st le_Suc_eq)
  have upd: "\<forall>j<V. \<exists>p\<le>j * each + (m(i := Suc (m i))) j. p < length ks \<and> cur[i := ks ! (i * each + m i + 1)] ! j = ks ! p"
  proof (intro allI impI)
    fix j assume j: "j < V"
    show "\<exists>p\<le>j * each + (m(i := Suc (m i))) j. p < length ks \<and> cur[i := ks ! (i * each + m i + 1)] ! j = ks ! p"
    proof (cases "j = i")
      case True
      then show ?thesis using assms(3) len by (intro exI [of _ "i * each + m i + 1"]) simp
    next
      case False
      then show ?thesis using keep [rule_format, OF j] by simp
    qed
  qed
  show ?thesis
    using ne keep upd len load assms(1) by (auto simp: is_unique_step_def st seen_before_def)
qed

lemma is_unique_sx_distinct:
  assumes "0 < VLEN"
  shows "ok (set_is_unique_sx VLEN ks (length ks)) (\<lambda>b. distinct ks \<longrightarrow> b)"
proof (cases "runs_each VLEN (length ks - 1) = 0")
  case True
  then show ?thesis by (simp add: is_unique_sx_short distinct_key_starts del: One_nat_def)
next
  case False
  define each rest where "each = runs_each VLEN (length ks - 1)" and "rest = length ks - 1 - each * VLEN"
  have each: "0 < each" "each * VLEN \<le> length ks - 1" using False runs_each_le [OF assms] by (simp_all add: each_def)
  have ne: "ks \<noteq> []" using each assms by (cases ks) auto
  then have len: "each * VLEN + rest + 1 = length ks" using each by (cases ks) (auto simp: rest_def)
  have in_run: "i * each + each \<le> each * VLEN" if "i < VLEN" for i
    using mult_le_mono1 [of "Suc i" VLEN each] that by (simp add: mult.commute)
  have le_run: "i * each \<le> each * VLEN" if "i \<le> VLEN" for i using that by (simp add: mult.commute)
  define cur0 where "cur0 = map (\<lambda>i. if i = 0 then ks ! 0 else ks ! (each * i - 1)) [0..<VLEN + 1]"
  have keys: "runs_keys VLEN ks each = Some cur0"
    unfolding runs_keys_def cur0_def
  proof (rule omap_Some)
    fix i assume "i \<in> set [0..<VLEN + 1]"
    then have "i \<le> VLEN" by auto
    then have "each * i \<le> each * VLEN" by (intro mult_le_mono2) (simp add: less_Suc_eq_le)
    then have "each * i - 1 < length ks" "0 < length ks" using len by linarith+
    then show "(if i = 0 then rd ks 0 else rd ks (each * i - 1)) = Some (if i = 0 then ks ! 0 else ks ! (each * i - 1))"
      by (cases "i = 0") simp_all
  qed
  have start: "seen_before ks each (\<lambda>_. 0) (VLEN + 1) (True, cur0)"
    unfolding seen_before_def prod.case
  proof (intro conjI allI impI)
    fix i assume i: "i < VLEN + 1"
    then have "each * i \<le> each * VLEN" by (intro mult_le_mono2) (simp add: less_Suc_eq_le)
    then have "each * i - 1 < length ks" "0 < length ks" using len by linarith+
    then show "\<exists>p\<le>i * each + 0. p < length ks \<and> cur0 ! i = ks ! p"
      using i by (cases "i = 0") (auto simp: cur0_def mult.commute simp del: upt_Suc intro: exI [of _ "each * i - 1"])
  qed (simp_all add: cur0_def)
  define mr where "mr j i = (if i < VLEN then j else 0)" for j i :: nat
  define mi where "mi j i l = (if l < i then Suc j else if l < VLEN then j else 0)" for j i l :: nat
  have row: "ok (for_each (is_unique_step (tl ks) each j) [0..<VLEN] st) (seen_before ks each (mr (Suc j)) (VLEN + 1))"
    if j: "j < each" and st: "seen_before ks each (mr j) (VLEN + 1) st" for j st
  proof -
    have "ok (for_each (is_unique_step (tl ks) each j) [0..<VLEN] st) (seen_before ks each (mi j VLEN) (VLEN + 1))"
    proof (rule ok_for_range [where I = "\<lambda>i. seen_before ks each (mi j i) (VLEN + 1)"])
      have "mi j 0 = mr j" by (auto simp: mi_def mr_def fun_eq_iff)
      then show "seen_before ks each (mi j 0) (VLEN + 1) st" using st by simp
    next
      fix i st assume i: "i < VLEN" and st: "seen_before ks each (mi j i) (VLEN + 1) st"
      have "mi j i i = j" "(mi j i)(i := Suc j) = mi j (Suc i)" using i by (auto simp: mi_def fun_eq_iff)
      moreover have "i * each + j + 1 < length ks" using in_run [OF i] j len by linarith
      ultimately show "ok (is_unique_step (tl ks) each j i st) (seen_before ks each (mi j (Suc i)) (VLEN + 1))"
        using is_unique_step_ok [OF st, of i] i by simp
    qed simp
    moreover have "mi j VLEN = mr (Suc j)" by (auto simp: mi_def mr_def fun_eq_iff)
    ultimately show ?thesis by simp
  qed
  have "ok (for_each (\<lambda>j. for_each (is_unique_step (tl ks) each j) [0..<VLEN]) [0..<each] (True, cur0))
      (seen_before ks each (mr each) (VLEN + 1))"
  proof (rule ok_for_range [where I = "\<lambda>j. seen_before ks each (mr j) (VLEN + 1)"])
    have "mr 0 = (\<lambda>_. 0)" by (simp add: mr_def fun_eq_iff)
    then show "seen_before ks each (mr 0) (VLEN + 1) (True, cur0)" using start by simp
  qed (use row in simp_all)
  then obtain st where rows: "for_each (\<lambda>j. for_each (is_unique_step (tl ks) each j) [0..<VLEN]) [0..<each] (True, cur0) = Some st"
    and st: "seen_before ks each (mr each) (VLEN + 1) st" by (rule okE)
  have "ok (for_each (\<lambda>j. is_unique_step (tl ks) each j VLEN) [0..<rest] st)
      (seen_before ks each ((mr each)(VLEN := rest)) (VLEN + 1))"
  proof (rule ok_for_range [where I = "\<lambda>j. seen_before ks each ((mr each)(VLEN := j)) (VLEN + 1)"])
    have "(mr each)(VLEN := 0) = mr each" by (simp add: mr_def fun_eq_iff)
    then show "seen_before ks each ((mr each)(VLEN := 0)) (VLEN + 1) st" using st by simp
  next
    fix j st assume j: "j < rest" and st: "seen_before ks each ((mr each)(VLEN := j)) (VLEN + 1) st"
    have "VLEN * each + j + 1 < length ks" using j len by (simp add: mult.commute)
    then show "ok (is_unique_step (tl ks) each j VLEN st) (seen_before ks each ((mr each)(VLEN := Suc j)) (VLEN + 1))"
      using is_unique_step_ok [OF st, of VLEN] by simp
  qed simp
  then obtain u cur where last: "for_each (\<lambda>j. is_unique_step (tl ks) each j VLEN) [0..<rest] st = Some (u, cur)"
    and u: "distinct ks \<longrightarrow> u" by (auto simp: ok_iff_ex seen_before_def)
  have "set_is_unique_sx VLEN ks (length ks) = Some u"
  proof -
    have "(length ks = 0) = False" "(each = 0) = False" using ne each by simp_all
    then show ?thesis
      by (simp only: set_is_unique_sx_def Let_def each_def [symmetric] rest_def [symmetric] keys set_is_unique_vreg_def
          rows last if_False Option.bind.bind_lunit prod.case)
  qed
  then show ?thesis using u by simp
qed

interpretation h_x86: hash_build hash_cfg_x86 "\<lambda>_. True"
  by unfold_locales
    (simp_all add: hash_cfg_x86_def wf_cfg_def find_miss_cfg_x86_def bound_vlen_x86_def set_union_x86_def
      set_is_unique_x86_eq key_starts_distinct distinct_key_starts del: One_nat_def)

interpretation h_ve: hash_build "hash_cfg_ve spare" "\<lambda>ks. length ks \<le> 256" for spare
proof
  show "wf_cfg (hc_find (hash_cfg_ve spare))" "0 < hc_bound_vlen (hash_cfg_ve spare)"
    "hc_radix (hash_cfg_ve spare) = radix_cfg_ve \<or> hc_radix (hash_cfg_ve spare) = radix_cfg_x86"
    by (simp_all add: hash_cfg_ve_def wf_cfg_def find_miss_cfg_ve_def bound_vlen_ve_def)
  show "hc_set_union (hash_cfg_ve spare) l r = Some (std_set_union l r)" if "sorted l" "sorted r" for l r
    using set_union_sx_eq [of set_vlen "length l" "l @ [spare]" r] that by (simp add: hash_cfg_ve_def set_vlen_def)
  have u: "ok (hc_set_is_unique (hash_cfg_ve spare) ks (length ks)) (\<lambda>b. distinct ks \<longrightarrow> b)" for ks
    using is_unique_sx_distinct [of set_vlen_each ks] by (simp add: hash_cfg_ve_def set_vlen_each_def)
  show "\<exists>b. hc_set_is_unique (hash_cfg_ve spare) ks (length ks) = Some b" for ks using u [of ks] by (auto simp: ok_iff_ex)
  show "hc_set_is_unique (hash_cfg_ve spare) ks (length ks) = Some True" if "distinct ks" for ks
    using u [of ks] that by (auto simp: ok_iff_ex)
  show "hc_set_is_unique (hash_cfg_ve spare) ks (length ks) = Some (distinct ks)" if "sorted ks" "length ks \<le> 256" for ks
  proof -
    have "(length ks - 1) div 256 = 0" using that(2) by simp
    then have "runs_each set_vlen_each (length ks - 1) = 0" by (simp add: runs_each_def set_vlen_each_def)
    then show ?thesis using that(1) by (simp add: hash_cfg_ve_def is_unique_sx_short key_starts_distinct del: One_nat_def)
  qed
qed

end
