(* ===== verification/HashMap.thy ===== *)
theory HashMap
  imports HashBuild
begin

text \<open>
  The hash table as a map: the state after a construction, its invariant, and the map it stands for.
\<close>

subsection \<open>The abstract map and the invariant\<close>

definition hash_map :: "('w::len word, 'v) unique_hashtable \<Rightarrow> 'w word \<Rightarrow> 'v option" where
  "hash_map ht x = (let s = unat x mod length (ht_key ht) in
     if ht_is_filled ht ! s = 0 then None
     else if ht_key ht ! s = x then Some (ht_val ht ! s)
     else map_of (zip (ht_conflict_key ht) (ht_conflict_val ht)) x)"

text \<open>The keys of a table, which has values or not.\<close>

definition table_inv :: "bool \<Rightarrow> ('w::len word, 'v) unique_hashtable \<Rightarrow> bool" where
  "table_inv sg ht \<longleftrightarrow> (let T = length (ht_key ht) in
     0 < T \<and> length (ht_is_filled ht) = T \<and>
     (\<forall>s<T. ht_is_filled ht ! s = 0 \<or> ht_is_filled ht ! s = 1 \<and> unat (ht_key ht ! s) mod T = s) \<and>
     sorted (map (key_val sg) (ht_conflict_key ht)) \<and>
     (\<forall>x\<in>set (ht_conflict_key ht). ht_is_filled ht ! (unat x mod T) = 1 \<and> ht_key ht ! (unat x mod T) \<noteq> x))"

definition hash_inv :: "bool \<Rightarrow> ('w::len word, 'v) unique_hashtable \<Rightarrow> bool" where
  "hash_inv sg ht \<longleftrightarrow> table_inv sg ht \<and> length (ht_val ht) = length (ht_key ht) \<and>
     length (ht_conflict_val ht) = length (ht_conflict_key ht)"

lemma key_val_inject [simp]: "key_val sg x = key_val sg y \<longleftrightarrow> x = y"
  by (auto simp: key_val_def intro: signed_word_eqI unsigned_word_eqI)

lemma key_val_inj: "inj (key_val sg)"
  by (simp add: inj_def)

subsection \<open>Filling the table\<close>

definition items_at :: "nat \<Rightarrow> 'w::len word list \<Rightarrow> nat \<Rightarrow> nat \<Rightarrow> nat list" where
  "items_at T k m s = filter (\<lambda>i. unat (k ! i) mod T = s) [0..<m]"

definition filled :: "nat \<Rightarrow> 'w::len word list \<Rightarrow> nat \<Rightarrow> 'w word list \<Rightarrow> int list \<Rightarrow> nat list \<Rightarrow> bool" where
  "filled T k m tk fl ck \<longleftrightarrow> length tk = T \<and> length fl = T \<and> length ck = T \<and>
     (\<forall>s<T. if items_at T k m s = [] then fl ! s = 0
       else fl ! s = 1 \<and> tk ! s = k ! last (items_at T k m s) \<and> ck ! s = last (items_at T k m s))"

lemma items_at_Suc: "items_at T k (Suc m) s = items_at T k m s @ (if unat (k ! m) mod T = s then [m] else [])"
  by (simp add: items_at_def)

lemma filled_Suc:
  "filled T k m tk fl ck \<Longrightarrow> filled T k (Suc m) (tk[unat (k ! m) mod T := k ! m]) (fl[unat (k ! m) mod T := 1]) (ck[unat (k ! m) mod T := m])"
  unfolding filled_def by (auto simp: items_at_Suc nth_list_update)

lemma fill_table_ok:
  fixes k :: "'w::len word list"
  assumes "0 < T"
  shows "ok (fill_table T k) (\<lambda>(tk, fl, ck, hs). filled T k (length k) tk fl ck \<and> hs = map (\<lambda>x. unat x mod T) k)"
proof -
  let ?I = "\<lambda>m (tk, fl, ck, hs). filled T k m tk fl ck \<and> length hs = length k \<and> (\<forall>i<m. hs ! i = unat (k ! i) mod T)"
  have "ok (fill_table T k) (?I (length k))"
    unfolding fill_table_def
  proof (rule ok_for_range [where I = ?I])
    show "?I 0 (replicate T 0, replicate T 0, replicate T (2 ^ 64 - 1), replicate (length k) 0)"
      by (simp add: filled_def items_at_def)
  next
    fix m and st :: "'w word list \<times> int list \<times> nat list \<times> nat list"
    assume m: "m < length k" and st: "?I m st"
    obtain tk fl ck hs where [simp]: "st = (tk, fl, ck, hs)" by (cases st)
    have len: "length tk = T" "length fl = T" "length ck = T" using st by (simp_all add: filled_def)
    have h: "myhash (k ! m) T = Some (unat (k ! m) mod T)" "unat (k ! m) mod T < T" using assms by (simp_all add: myhash_def)
    show "ok ((\<lambda>(table_key, is_filled, checker, hash). do {
       key \<leftarrow> rd k m;
       h \<leftarrow> myhash key T;
       table_key \<leftarrow> wr table_key h key;
       is_filled \<leftarrow> wr is_filled h 1;
       checker \<leftarrow> wr checker h m;
       hash \<leftarrow> wr hash m h;
       Some (table_key, is_filled, checker, hash) }) st) (?I (Suc m))"
      using m st h len filled_Suc [of T k m tk fl ck] by (auto simp: nth_list_update less_Suc_eq)
  qed simp
  then show ?thesis by (rule ok_mono) (auto intro!: nth_equalityI)
qed

lemma le_last: "sorted xs \<Longrightarrow> x \<in> set xs \<Longrightarrow> x \<le> last (xs :: nat list)"
  by (induction xs) auto

text \<open>The winner of a cell: the last item with this hash value.\<close>

lemma filled_item:
  assumes f: "filled T k (length k) tk fl ck" and i: "i < length k" "0 < T"
  shows "fl ! (unat (k ! i) mod T) = 1 \<and> (\<exists>p<length k. i \<le> p \<and> unat (k ! p) mod T = unat (k ! i) mod T \<and>
    tk ! (unat (k ! i) mod T) = k ! p \<and> ck ! (unat (k ! i) mod T) = p)"
proof -
  let ?s = "unat (k ! i) mod T" and ?is = "items_at T k (length k) (unat (k ! i) mod T)"
  have s: "?s < T" using i by simp
  have mem: "i \<in> set ?is" using i by (simp add: items_at_def)
  then have ne: "?is \<noteq> []" by auto
  then have p: "last ?is \<in> set ?is" by simp
  have "sorted ?is" unfolding items_at_def by (rule sorted_wrt_filter) simp
  then have "i \<le> last ?is" using mem by (rule le_last)
  moreover have "last ?is < length k \<and> unat (k ! last ?is) mod T = ?s" using p by (simp add: items_at_def)
  moreover have "fl ! ?s = 1 \<and> tk ! ?s = k ! last ?is \<and> ck ! ?s = last ?is"
    using f s ne by (simp add: filled_def)
  ultimately show ?thesis by blast
qed

lemma filled_cell:
  assumes f: "filled T k (length k) tk fl ck" and s: "s < T"
  shows "fl ! s = 0 \<and> (\<forall>i<length k. unat (k ! i) mod T \<noteq> s) \<or> fl ! s = 1 \<and> unat (tk ! s) mod T = s \<and> tk ! s \<in> set k"
proof (cases "items_at T k (length k) s = []")
  case True
  then show ?thesis using f s by (auto simp: filled_def items_at_def filter_empty_conv)
next
  case False
  then have "last (items_at T k (length k) s) \<in> set (items_at T k (length k) s)" by simp
  then show ?thesis using f s False by (auto simp: filled_def items_at_def)
qed

subsection \<open>Hits and conflicts\<close>

definition cell_lost :: "nat \<Rightarrow> 'w::len word list \<Rightarrow> 'w word list \<Rightarrow> nat \<Rightarrow> bool" where
  "cell_lost T k tk i \<longleftrightarrow> k ! i \<noteq> tk ! (unat (k ! i) mod T)"

lemma cell_of: "0 < T \<Longrightarrow> length tk = T \<Longrightarrow> i < length k \<Longrightarrow>
    rd (map (\<lambda>x. unat x mod T) k) i = Some (unat (k ! i) mod T) \<and> rd tk (unat (k ! i) mod T) = Some (tk ! (unat (k ! i) mod T))"
  by simp

lemma write_visit:
  assumes f: "filled T k (length k) tk fl ck" and T: "0 < T" and v: "length v = length k"
  shows "miss_visit (length k) (write_visit k v tk (map (\<lambda>x. unat x mod T) k)) (cell_lost T k tk)
    (\<lambda>D tv. length tv = T \<and> (\<forall>i\<in>D. i < length k \<and> \<not> cell_lost T k tk i \<longrightarrow>
       (\<exists>j<length k. k ! j = k ! i \<and> tv ! (unat (k ! i) mod T) = v ! j)))"
proof
  fix D tv i
  assume I: "length tv = T \<and> (\<forall>i\<in>D. i < length k \<and> \<not> cell_lost T k tk i \<longrightarrow>
       (\<exists>j<length k. k ! j = k ! i \<and> tv ! (unat (k ! i) mod T) = v ! j))" and i: "i < length k" "i \<notin> D"
  have len: "length tk = T" using f by (simp add: filled_def)
  have cell: "unat (k ! i) mod T < T" using T by simp
  have upd: "\<exists>j<length k. k ! j = k ! l \<and> tv[unat (k ! i) mod T := v ! i] ! (unat (k ! l) mod T) = v ! j"
    if hit: "\<not> cell_lost T k tk i" and l: "l < length k" "\<not> cell_lost T k tk l" "l \<in> insert i D" for l
  proof (cases "unat (k ! l) mod T = unat (k ! i) mod T")
    case True
    then have "k ! i = k ! l" using hit l(2) by (simp add: cell_lost_def)
    then show ?thesis using True I cell i by auto
  next
    case False
    then show ?thesis using I l i by (auto simp: nth_list_update)
  qed
  show "ok (write_visit k v tk (map (\<lambda>x. unat x mod T) k) i tv) (\<lambda>(s', m). m = cell_lost T k tk i \<and> length s' = T \<and>
      (\<forall>l\<in>insert i D. l < length k \<and> \<not> cell_lost T k tk l \<longrightarrow> (\<exists>j<length k. k ! j = k ! l \<and> s' ! (unat (k ! l) mod T) = v ! j)))"
  proof (cases "cell_lost T k tk i")
    case True
    then show ?thesis using I i len cell by (auto simp: write_visit_def cell_lost_def)
  next
    case False
    then have "k ! i = tk ! (unat (k ! i) mod T)" by (simp add: cell_lost_def)
    then have "write_visit k v tk (map (\<lambda>x. unat x mod T) k) i tv = Some (tv[unat (k ! i) mod T := v ! i], False)"
      using I i len cell v by (simp add: write_visit_def)
    then show ?thesis using upd [OF False] I False by simp
  qed
qed

text \<open>What a construction leaves: the winners with their values, and the missed items sorted.\<close>

lemma conflict_pairs:
  assumes "length v = length k" "\<forall>p\<in>set ps. p < length k"
  shows "omap (\<lambda>p. do { x \<leftarrow> rd k p; y \<leftarrow> rd v p; Some (x, y) }) ps = Some (map (\<lambda>p. (k ! p, v ! p)) ps)"
  using assms by (intro omap_Some) simp

context hash_build
begin

lemma conflicts_eq:
  fixes k :: "'w::len word list" and v :: "'v::zero list"
  assumes w: "LENGTH('w) = 32 \<or> LENGTH('w) = 64" and v: "length v = length k"
  shows "conflicts_of c sg k v (filter P [0..<length k])
    = Some (sort_key (\<lambda>x. key_val sg (fst x)) (map (\<lambda>p. (k ! p, v ! p)) (filter P [0..<length k])))"
  using conflict_pairs [OF v, of "filter P [0..<length k]"] by (simp add: conflicts_of_def radix_sort_eq(1) [OF w])

end

subsection \<open>A built table is the map of its pairs\<close>

definition represents :: "'w::len word list \<Rightarrow> 'v list \<Rightarrow> ('w word, 'v) unique_hashtable \<Rightarrow> bool" where
  "represents k v ht \<longleftrightarrow> (\<forall>x. (hash_map ht x = None \<longleftrightarrow> x \<notin> set k) \<and> (\<forall>y. hash_map ht x = Some y \<longrightarrow> (x, y) \<in> set (zip k v)))"

lemma represents_distinct:
  assumes "represents k v ht" "distinct k" "length v = length k"
  shows "hash_map ht = map_of (zip k v)"
proof
  fix x
  show "hash_map ht x = map_of (zip k v) x"
  proof (cases "hash_map ht x")
    case None
    then have "x \<notin> set k" using assms(1) by (simp add: represents_def)
    then have "map_of (zip k v) x = None" using assms(3) by simp
    then show ?thesis using None by simp
  next
    case (Some y)
    then have "(x, y) \<in> set (zip k v)" using assms(1) by (simp add: represents_def)
    then have "map_of (zip k v) x = Some y" using assms(2,3) by (simp add: map_of_eq_Some_iff)
    then show ?thesis using Some by simp
  qed
qed

definition conflict_list :: "bool \<Rightarrow> nat \<Rightarrow> 'w::len word list \<Rightarrow> 'v list \<Rightarrow> 'w word list \<Rightarrow> ('w word \<times> 'v) list" where
  "conflict_list sg T k v tk = sort_key (\<lambda>x. key_val sg (fst x)) (map (\<lambda>p. (k ! p, v ! p)) (filter (cell_lost T k tk) [0..<length k]))"

lemma set_conflict_list:
  "set (conflict_list sg T k v tk) = (\<lambda>p. (k ! p, v ! p)) ` {p. p < length k \<and> cell_lost T k tk p}"
  by (auto simp: conflict_list_def)

lemma built_table_inv:
  assumes f: "filled T k (length k) tk fl ck" and T: "0 < T"
  shows "table_inv sg \<lparr>ht_key = tk, ht_val = tv, ht_is_filled = fl,
    ht_conflict_key = map fst (conflict_list sg T k v tk), ht_conflict_val = cv\<rparr>"
proof -
  have len: "length tk = T" "length fl = T" using f by (simp_all add: filled_def)
  have "sorted (map (key_val sg) (map fst (conflict_list sg T k v tk)))"
    by (simp add: conflict_list_def o_def)
  moreover have "fl ! (unat x mod T) = 1 \<and> tk ! (unat x mod T) \<noteq> x" if x: "x \<in> set (map fst (conflict_list sg T k v tk))" for x
  proof -
    obtain p where "p < length k" "cell_lost T k tk p" "x = k ! p" using x by (auto simp: set_conflict_list)
    then show ?thesis using filled_item [OF f _ T, of p] by (auto simp: cell_lost_def)
  qed
  moreover have "fl ! s = 0 \<or> fl ! s = 1 \<and> unat (tk ! s) mod T = s" if "s < T" for s
    using filled_cell [OF f that] by blast
  ultimately show ?thesis using len T by (simp add: table_inv_def)
qed

definition built_table :: "bool \<Rightarrow> nat \<Rightarrow> 'w::len word list \<Rightarrow> 'v list \<Rightarrow> 'w word list \<Rightarrow> 'v list \<Rightarrow> int list \<Rightarrow> ('w word, 'v) unique_hashtable" where
  "built_table sg T k v tk tv fl = \<lparr>ht_key = tk, ht_val = tv, ht_is_filled = fl,
    ht_conflict_key = map fst (conflict_list sg T k v tk), ht_conflict_val = map snd (conflict_list sg T k v tk)\<rparr>"

lemma built:
  fixes k :: "'w::len word list"
  assumes f: "filled T k (length k) tk fl ck" and T: "0 < T" and v: "length v = length k"
    and tv: "length tv = T" "\<And>i. i < length k \<Longrightarrow> \<not> cell_lost T k tk i \<Longrightarrow> \<exists>j<length k. k ! j = k ! i \<and> tv ! (unat (k ! i) mod T) = v ! j"
  shows "hash_inv sg (built_table sg T k v tk tv fl) \<and> represents k v (built_table sg T k v tk tv fl)"
proof
  let ?ht = "built_table sg T k v tk tv fl"
  have len: "length tk = T" "length fl = T" using f by (simp_all add: filled_def)
  show "hash_inv sg ?ht" using built_table_inv [OF f T] tv(1) len by (simp add: hash_inv_def built_table_def)
  have pair: "(k ! j, v ! j) \<in> set (zip k v)" if "j < length k" for j using that v by (auto simp: in_set_zip)
  have map: "hash_map ?ht x = (if fl ! (unat x mod T) = 0 then None else if tk ! (unat x mod T) = x then Some (tv ! (unat x mod T))
      else map_of (conflict_list sg T k v tk) x)" for x
    by (simp add: hash_map_def built_table_def len)
  show "represents k v ?ht"
    unfolding represents_def
  proof (intro allI conjI impI)
    fix x :: "'w word"
    have s: "unat x mod T < T" using T by simp
    show "hash_map ?ht x = None \<longleftrightarrow> x \<notin> set k"
    proof
      assume n: "hash_map ?ht x = None"
      show "x \<notin> set k"
      proof
        assume "x \<in> set k"
        then obtain i where i: "i < length k" "x = k ! i" by (auto simp: in_set_conv_nth)
        have fl: "fl ! (unat x mod T) = 1" using filled_item [OF f i(1) T] i(2) by simp
        then have ne: "tk ! (unat x mod T) \<noteq> x" using n by (auto simp: map)
        then have "cell_lost T k tk i" using i by (auto simp: cell_lost_def)
        then have "x \<in> fst ` set (conflict_list sg T k v tk)" using i by (force simp: set_conflict_list)
        then show False using n fl ne by (simp add: map map_of_eq_None_iff)
      qed
    next
      assume x: "x \<notin> set k"
      have "map_of (conflict_list sg T k v tk) x = None" using x by (auto simp: map_of_eq_None_iff set_conflict_list)
      moreover have "tk ! (unat x mod T) \<noteq> x" if "fl ! (unat x mod T) \<noteq> 0" using filled_cell [OF f s] that x by auto
      ultimately show "hash_map ?ht x = None" by (simp add: map)
    qed
    fix y assume y: "hash_map ?ht x = Some y"
    show "(x, y) \<in> set (zip k v)"
    proof (cases "tk ! (unat x mod T) = x")
      case True
      then have "fl ! (unat x mod T) \<noteq> 0" "y = tv ! (unat x mod T)" using y by (auto simp: map split: if_splits)
      then obtain i where i: "i < length k" "x = k ! i" using filled_cell [OF f s] True by (auto simp: in_set_conv_nth)
      then have "\<not> cell_lost T k tk i" using True by (simp add: cell_lost_def)
      then obtain j where "j < length k" "k ! j = x" "y = v ! j" using tv(2) [OF i(1)] i(2) \<open>y = _\<close> by auto
      then show ?thesis using pair by auto
    next
      case False
      then have "map_of (conflict_list sg T k v tk) x = Some y" using y by (auto simp: map split: if_splits)
      then have "(x, y) \<in> set (conflict_list sg T k v tk)" by (rule map_of_SomeD)
      then show ?thesis using pair by (auto simp: set_conflict_list)
    qed
  qed
qed

lemma table_size_for_ok: "table_size_for n = Some T \<Longrightarrow> 0 < T \<and> n * 3 \<le> T"
proof -
  assume t: "table_size_for n = Some T"
  then have d: "T \<in> set (dropWhile (\<lambda>p. p < n * hash_table_size_mult) prime_numbers)"
    "\<not> T < n * hash_table_size_mult"
    by (auto simp: table_size_for_def split: list.splits dest: hd_dropWhile) (metis hd_dropWhile list.distinct(1) list.sel(1))
  then have "T \<in> set prime_numbers" by (blast dest: set_dropWhileD)
  then show ?thesis using d(2) by (auto simp: prime_numbers_def hash_table_size_mult_def)
qed

context hash_build
begin

lemma hashtable_new_ok:
  fixes k :: "'w::len word list" and v :: "'v::zero list"
  assumes w: "LENGTH('w) = 32 \<or> LENGTH('w) = 64" and v: "length v = length k" and T: "table_size_for (length k) = Some T"
  shows "ok (hashtable_new c sg k v) (\<lambda>r. \<exists>ht. r = Inr ht \<and> hash_inv sg ht \<and> represents k v ht)"
proof -
  have T0: "0 < T" using table_size_for_ok [OF T] by simp
  obtain tk fl ck where fill: "fill_table T k = Some (tk, fl, ck, map (\<lambda>x. unat x mod T) k)" and f: "filled T k (length k) tk fl ck"
    using fill_table_ok [OF T0, of k] by (auto simp: ok_iff_ex)
  have "ok (find_miss_write_table (hc_find c) (LENGTH('w) div 8) k v (length k) tk (replicate T 0) (map (\<lambda>x. unat x mod T) k))
    (\<lambda>(tv, ret). (length tv = T \<and> (\<forall>i\<in>{0..<length k}. i < length k \<and> \<not> cell_lost T k tk i \<longrightarrow>
       (\<exists>j<length k. k ! j = k ! i \<and> tv ! (unat (k ! i) mod T) = v ! j))) \<and> ret = filter (cell_lost T k tk) [0..<length k])"
    unfolding find_miss_write_table_def by (rule miss_visit.miss_scan_ok [OF write_visit [OF f T0 v] find]) simp
  then obtain tv where scan: "find_miss_write_table (hc_find c) (LENGTH('w) div 8) k v (length k) tk (replicate T 0) (map (\<lambda>x. unat x mod T) k)
      = Some (tv, filter (cell_lost T k tk) [0..<length k])" and tv: "length tv = T"
      "\<And>i. i < length k \<Longrightarrow> \<not> cell_lost T k tk i \<Longrightarrow> \<exists>j<length k. k ! j = k ! i \<and> tv ! (unat (k ! i) mod T) = v ! j"
    by (auto simp: ok_iff_ex)
  have ks: "key_size_ok k" using w by (auto simp: key_size_ok_def)
  show ?thesis
    using v T ks built [OF f T0 v tv, of sg]
    by (simp add: hashtable_new_def fill scan conflicts_eq [OF w v] conflict_list_def built_table_def)
qed

end

end
