(* ===== verification/HashLookup.thy ===== *)
theory HashLookup
  imports HashMap
begin

text \<open>
  The hash table: lookups read the abstract map.
\<close>

subsection \<open>Search in the conflicts\<close>

definition conflict_pos :: "bool \<Rightarrow> 'w::len word list \<Rightarrow> 'w word \<Rightarrow> nat" where
  "conflict_pos sg ck x = length (takeWhile (\<lambda>y. \<not> key_val sg x \<le> y) (map (key_val sg) ck))"

lemma conflict_pos_le: "conflict_pos sg ck x \<le> length ck"
  using length_takeWhile_le [of "\<lambda>y. \<not> key_val sg x \<le> y" "map (key_val sg) ck"] by (simp add: conflict_pos_def)

lemma conflict_pos_in:
  assumes "sorted (map (key_val sg) ck)" "x \<in> set ck"
  shows "conflict_pos sg ck x < length ck \<and> ck ! conflict_pos sg ck x = x"
  using assms
proof (induction ck)
  case (Cons a ck)
  show ?case
  proof (cases "key_val sg x \<le> key_val sg a")
    case True
    then have "key_val sg x = key_val sg a" using Cons.prems by force
    then show ?thesis using True by (simp add: conflict_pos_def)
  next
    case False
    then have "conflict_pos sg (a # ck) x = Suc (conflict_pos sg ck x)" by (simp add: conflict_pos_def)
    moreover have "x \<in> set ck" using False Cons.prems by auto
    ultimately show ?thesis using Cons by simp
  qed
qed simp

lemma conflict_pos_map_of:
  assumes "sorted (map (key_val sg) ck)" "x \<in> set ck" "length cv = length ck"
  shows "map_of (zip ck cv) x = Some (cv ! conflict_pos sg ck x)"
  using assms
proof (induction ck arbitrary: cv)
  case (Cons a ck)
  obtain b bs where cv: "cv = b # bs" using Cons.prems by (cases cv) auto
  show ?case
  proof (cases "key_val sg x \<le> key_val sg a")
    case True
    then have "key_val sg x = key_val sg a" using Cons.prems by force
    then show ?thesis using True cv by (simp add: conflict_pos_def)
  next
    case False
    then have "conflict_pos sg (a # ck) x = Suc (conflict_pos sg ck x)" by (simp add: conflict_pos_def)
    moreover have "x \<in> set ck" "a \<noteq> x" using False Cons.prems by auto
    ultimately show ?thesis using Cons cv by simp
  qed
qed simp

context hash_build
begin

lemma search_conflicts_eq:
  assumes "sorted (map (key_val sg) (ht_conflict_key ht))"
  shows "search_conflicts c sg ht ms = Some (map (conflict_pos sg (ht_conflict_key ht)) ms)"
proof (cases "ms = [] \<or> ht_conflict_key ht = []")
  case True
  then show ?thesis by (auto simp: search_conflicts_def lower_bound_vec_def conflict_pos_def map_replicate_const [symmetric])
next
  case False
  then show ?thesis
    using lb.search_takeWhile [OF bound, of "replicate (length ms) 0" "map (key_val sg) ms" "map (key_val sg) (ht_conflict_key ht)"] assms
    by (simp add: search_conflicts_def lower_bound_vec_def lower_bound_def conflict_pos_def comp_def)
qed

end

lemma hashes:
  assumes "0 < T"
  shows "omap (\<lambda>key. myhash key T) k = Some (map (\<lambda>x. unat x mod T) k)"
  using assms by (intro omap_Some) (simp add: myhash_def)

subsection \<open>The abstract map, by the cell of the key\<close>

lemma hash_map_cell:
  assumes "hash_inv sg ht" "s = unat x mod length (ht_key ht)"
  shows "ht_is_filled ht ! s = 0 \<Longrightarrow> hash_map ht x = None"
    "ht_is_filled ht ! s \<noteq> 0 \<Longrightarrow> ht_key ht ! s = x \<Longrightarrow> hash_map ht x = Some (ht_val ht ! s)"
    "ht_is_filled ht ! s \<noteq> 0 \<Longrightarrow> ht_key ht ! s \<noteq> x \<Longrightarrow> x \<in> set (ht_conflict_key ht) \<Longrightarrow>
       hash_map ht x = Some (ht_conflict_val ht ! conflict_pos sg (ht_conflict_key ht) x)"
    "ht_is_filled ht ! s \<noteq> 0 \<Longrightarrow> ht_key ht ! s \<noteq> x \<Longrightarrow> x \<notin> set (ht_conflict_key ht) \<Longrightarrow> hash_map ht x = None"
  using assms conflict_pos_map_of [of sg "ht_conflict_key ht" x "ht_conflict_val ht"]
  by (simp_all add: hash_map_def hash_inv_def table_inv_def Let_def)

lemma hash_invD:
  assumes "hash_inv sg ht"
  shows "0 < length (ht_key ht)" "length (ht_val ht) = length (ht_key ht)" "length (ht_is_filled ht) = length (ht_key ht)"
    "sorted (map (key_val sg) (ht_conflict_key ht))" "length (ht_conflict_val ht) = length (ht_conflict_key ht)"
  using assms by (simp_all add: hash_inv_def table_inv_def Let_def)

subsection \<open>Lookup of present keys\<close>

lemma read_visit:
  assumes inv: "hash_inv sg ht"
  shows "miss_visit (length k) (read_visit k (ht_key ht) (ht_val ht) (map (\<lambda>x. unat x mod length (ht_key ht)) k))
    (cell_lost (length (ht_key ht)) k (ht_key ht))
    (\<lambda>D vp. length vp = length k \<and> (\<forall>i\<in>D. i < length k \<and> \<not> cell_lost (length (ht_key ht)) k (ht_key ht) i \<longrightarrow>
       vp ! i = ht_val ht ! (unat (k ! i) mod length (ht_key ht))))"
proof -
  note h = hash_invD [OF inv]
  have "unat x mod length (ht_key ht) < length (ht_key ht)" for x :: "'a word" using h(1) by simp
  then show ?thesis
    using h by unfold_locales (auto simp: read_visit_def cell_lost_def nth_list_update)
qed

context hash_build
begin

lemma lookup_eq:
  fixes k :: "'w::len word list" and ht :: "('w word, 'v::zero) unique_hashtable"
  assumes inv: "hash_inv sg ht" and dom: "\<forall>x\<in>set k. hash_map ht x \<noteq> None"
  shows "hashtable_lookup c sg ht k = Some (map (\<lambda>x. the (hash_map ht x)) k)"
proof -
  note h = hash_invD [OF inv]
  let ?T = "length (ht_key ht)" and ?n = "length k" and ?ck = "ht_conflict_key ht"
  let ?hash = "map (\<lambda>x. unat x mod ?T) k" and ?miss = "cell_lost ?T k (ht_key ht)"
  have "ok (find_miss_read_table (hc_find c) (LENGTH('w) div 8) k (replicate ?n 0) ?n (ht_key ht) (ht_val ht) ?hash)
    (\<lambda>(vp, ret). (length vp = ?n \<and> (\<forall>i\<in>{0..<?n}. i < ?n \<and> \<not> ?miss i \<longrightarrow> vp ! i = ht_val ht ! (unat (k ! i) mod ?T))) \<and>
       ret = filter ?miss [0..<?n])"
    unfolding find_miss_read_table_def by (rule miss_visit.miss_scan_ok [OF read_visit [OF inv] find]) simp
  then obtain vp where scan: "find_miss_read_table (hc_find c) (LENGTH('w) div 8) k (replicate ?n 0) ?n (ht_key ht) (ht_val ht) ?hash
      = Some (vp, filter ?miss [0..<?n])" and vp: "length vp = ?n"
      "\<And>i. i < ?n \<Longrightarrow> \<not> ?miss i \<Longrightarrow> vp ! i = ht_val ht ! (unat (k ! i) mod ?T)"
    by (auto simp: ok_iff_ex)
  define ms where "ms = filter ?miss [0..<?n]"
  have ms: "p < ?n" "?miss p" if "p \<in> set ms" for p using that by (auto simp: ms_def)
  have filled: "ht_is_filled ht ! (unat (k ! i) mod ?T) \<noteq> 0" if "i < ?n" for i
    using hash_map_cell(1) [OF inv refl, of "k ! i"] dom that by auto
  have hit: "vp ! i = the (hash_map ht (k ! i))" if "i < ?n" "\<not> ?miss i" for i
    using vp(2) [OF that] hash_map_cell(2) [OF inv refl filled [OF that(1)]] that(2) by (simp add: cell_lost_def)
  have in_ck: "k ! p \<in> set ?ck" "the (hash_map ht (k ! p)) = ht_conflict_val ht ! conflict_pos sg ?ck (k ! p)" if "p \<in> set ms" for p
  proof -
    have p: "ht_key ht ! (unat (k ! p) mod ?T) \<noteq> k ! p" using ms [OF that] by (auto simp: cell_lost_def)
    have "hash_map ht (k ! p) \<noteq> None" using dom ms [OF that] by simp
    with hash_map_cell(4) [OF inv refl filled [OF ms(1) [OF that]] p] show *: "k ! p \<in> set ?ck" by argo
    show "the (hash_map ht (k ! p)) = ht_conflict_val ht ! conflict_pos sg ?ck (k ! p)"
      using hash_map_cell(3) [OF inv refl filled [OF ms(1) [OF that]] p *] by simp
  qed
  have keys: "omap (rd k) ms = Some (map ((!) k) ms)" by (rule omap_Some) (simp add: ms(1))
  have "ok (for_each (\<lambda>i v. do {
           p \<leftarrow> rd ms i;
           q \<leftarrow> rd (map (conflict_pos sg ?ck) (map ((!) k) ms)) i;
           x \<leftarrow> rd (ht_conflict_val ht) q;
           wr v p x }) [0..<length ms] vp)
    (\<lambda>v. length v = ?n \<and> (\<forall>i<?n. \<not> ?miss i \<or> i \<in> set (take (length ms) ms) \<longrightarrow> v ! i = the (hash_map ht (k ! i))))"
  proof (rule ok_for_range [where I = "\<lambda>m v. length v = ?n \<and> (\<forall>i<?n. \<not> ?miss i \<or> i \<in> set (take m ms) \<longrightarrow> v ! i = the (hash_map ht (k ! i)))"])
    show "length vp = ?n \<and> (\<forall>i<?n. \<not> ?miss i \<or> i \<in> set (take 0 ms) \<longrightarrow> vp ! i = the (hash_map ht (k ! i)))"
      using vp(1) hit by simp
  next
    fix m v assume m: "m < length ms" and v: "length v = ?n \<and> (\<forall>i<?n. \<not> ?miss i \<or> i \<in> set (take m ms) \<longrightarrow> v ! i = the (hash_map ht (k ! i)))"
    have p: "ms ! m \<in> set ms" using m by simp
    have q: "conflict_pos sg ?ck (k ! (ms ! m)) < length (ht_conflict_val ht)"
      using conflict_pos_in [OF h(4) in_ck(1) [OF p]] h(5) by simp
    show "ok (do {
           p \<leftarrow> rd ms m;
           q \<leftarrow> rd (map (conflict_pos sg ?ck) (map ((!) k) ms)) m;
           x \<leftarrow> rd (ht_conflict_val ht) q;
           wr v p x }) (\<lambda>v. length v = ?n \<and> (\<forall>i<?n. \<not> ?miss i \<or> i \<in> set (take (Suc m) ms) \<longrightarrow> v ! i = the (hash_map ht (k ! i))))"
      using m v ms(1) [OF p] q in_ck(2) [OF p] by (auto simp: take_Suc_conv_app_nth nth_list_update)
  qed simp
  then obtain v where loop: "for_each (\<lambda>i v. do {
           p \<leftarrow> rd ms i;
           q \<leftarrow> rd (map (conflict_pos sg ?ck) (map ((!) k) ms)) i;
           x \<leftarrow> rd (ht_conflict_val ht) q;
           wr v p x }) [0..<length ms] vp = Some v"
    and v: "length v = ?n \<and> (\<forall>i<?n. \<not> ?miss i \<or> i \<in> set (take (length ms) ms) \<longrightarrow> v ! i = the (hash_map ht (k ! i)))"
    by (rule okE)
  have "v = map (\<lambda>x. the (hash_map ht x)) k"
    using v by (intro nth_equalityI) (auto simp: ms_def)
  moreover have "vp = v" if "ms = []" using loop that by simp
  ultimately show ?thesis
    using h(1) loop
    by (simp add: hashtable_lookup_def hashes scan ms_def [symmetric] keys search_conflicts_eq [OF h(4)] del: map_map)
qed

end

subsection \<open>Lookup that reports the missing keys\<close>

definition cell_class :: "('w::len word, 'v) unique_hashtable \<Rightarrow> 'w word \<Rightarrow> visit_result" where
  "cell_class ht x = (let s = unat x mod length (ht_key ht) in
     if ht_is_filled ht ! s = 0 then Clear_Miss else if x \<noteq> ht_key ht ! s then Missed else Hit)"

lemma hash_map_class:
  assumes "hash_inv sg ht"
  shows "cell_class ht x = Clear_Miss \<Longrightarrow> hash_map ht x = None"
    "cell_class ht x = Hit \<Longrightarrow> hash_map ht x = Some (ht_val ht ! (unat x mod length (ht_key ht)))"
    "cell_class ht x = Missed \<Longrightarrow> x \<in> set (ht_conflict_key ht) \<Longrightarrow>
       hash_map ht x = Some (ht_conflict_val ht ! conflict_pos sg (ht_conflict_key ht) x)"
    "cell_class ht x = Missed \<Longrightarrow> x \<notin> set (ht_conflict_key ht) \<Longrightarrow> hash_map ht x = None"
  using hash_map_cell [OF assms refl, of x] by (auto simp: cell_class_def Let_def split: if_splits)

lemma read_fill_visit:
  assumes inv: "hash_inv sg ht"
  shows "miss2_visit (length k) (read_fill_visit k (ht_key ht) (ht_val ht) (ht_is_filled ht) (map (\<lambda>x. unat x mod length (ht_key ht)) k))
    (\<lambda>i. cell_class ht (k ! i))
    (\<lambda>D vp. length vp = length k \<and> (\<forall>i<length k. vp ! i =
       (if i \<in> D \<and> cell_class ht (k ! i) = Hit then ht_val ht ! (unat (k ! i) mod length (ht_key ht)) else 0)))"
proof -
  note h = hash_invD [OF inv]
  have "unat x mod length (ht_key ht) < length (ht_key ht)" for x :: "'a word" using h(1) by simp
  then show ?thesis
    using h by unfold_locales
      (auto simp: read_fill_visit_def cell_class_def Let_def rd_def nth_list_update bind_eq_Some_conv split: if_splits)
qed

lemma fill_scan_ok:
  assumes inv: "table_inv sg ht" and c: "wf_cfg c"
  shows "find_miss_checkfill c sz k (length k) (ht_key ht) (ht_is_filled ht) (map (\<lambda>x. unat x mod length (ht_key ht)) k)
    = Some (filter (\<lambda>i. cell_class ht (k ! i) = Missed) [0..<length k], filter (\<lambda>i. cell_class ht (k ! i) = Clear_Miss) [0..<length k])"
proof -
  let ?hash = "map (\<lambda>x. unat x mod length (ht_key ht)) k"
  have h: "0 < length (ht_key ht)" "length (ht_is_filled ht) = length (ht_key ht)" using inv by (simp_all add: table_inv_def Let_def)
  then have wf: "scan_wf k (ht_key ht) ?hash (length k) \<and> length (ht_is_filled ht) = length (ht_key ht)" by (simp add: scan_wf_def)
  have cls: "item_class k (ht_key ht) (ht_is_filled ht) ?hash i = cell_class ht (k ! i)" if "i < length k" for i
    using that by (simp add: item_class_def item_missed_def cell_class_def Let_def)
  from fill_scan.miss2_scan_ok [OF c wf, of sz "()"] show ?thesis
    by (auto simp: find_miss_checkfill_def ok_iff_ex cls intro!: filter_cong)
qed

lemma union_filters:
  assumes "sorted_wrt (<) xs" "\<And>x. x \<in> set xs \<Longrightarrow> \<not> (P x \<and> Q x)"
  shows "std_set_union (filter P xs) (filter Q xs) = filter (\<lambda>x. P x \<or> Q x) (xs :: nat list)"
proof -
  have s: "sorted xs" "distinct xs" using assms(1) by (simp_all add: strict_sorted_iff)
  have "sorted (std_set_union (filter P xs) (filter Q xs))" using s by (intro sorted_std_union sorted_wrt_filter)
  moreover have "sorted (filter (\<lambda>x. P x \<or> Q x) xs)" using s by (intro sorted_wrt_filter)
  moreover have "mset (std_set_union (filter P xs) (filter Q xs)) = mset (filter (\<lambda>x. P x \<or> Q x) xs)"
  proof (rule multiset_eqI)
    fix z
    have one: "count (mset xs) z = (if z \<in> set xs then 1 else 0)"
      using distinct_count_atmost_1 [of xs] s(2) by simp
    have "sorted (filter R xs)" for R using s(1) by (rule sorted_wrt_filter)
    then show "count (mset (std_set_union (filter P xs) (filter Q xs))) z = count (mset (filter (\<lambda>x. P x \<or> Q x) xs)) z"
      using assms(2) [of z] one by (subst count_std_union) auto
  qed
  ultimately show ?thesis by (metis properties_for_sort)
qed

lemma pos_key:
  assumes "LENGTH('w::len) = 32 \<or> LENGTH('w) = 64" "p < 2 ^ (LENGTH('w) - 1)"
  shows "pos_of_key sg (key_of_pos p :: 'w word) = p"
proof -
  have "int p < 2 ^ (LENGTH('w) - 1)" using assms(2) by simp
  moreover have "(2 :: int) ^ (LENGTH('w) - 1) \<le> 2 ^ LENGTH('w)" "(2 :: int) ^ LENGTH('w) \<le> 2 ^ 64" using assms(1) by auto
  ultimately have p: "int p < 2 ^ LENGTH('w)" "int p < 2 ^ 64" "int p < 2 ^ (LENGTH('w) - 1)" by linarith+
  have "uint (of_nat p :: 'w word) = int p" using p(1) by (simp add: take_bit_nat_eq_self unsigned_of_nat)
  moreover have "sint (of_nat p :: 'w word) = int p"
  proof -
    have "- (2 ^ (LENGTH('w) - 1)) \<le> int p" by (rule order_trans [of _ 0]) simp_all
    then show ?thesis using signed_take_bit_int_eq_self [of "LENGTH('w) - 1" "int p"] p(3) by (simp add: signed_of_nat)
  qed
  ultimately have "key_val sg (of_nat p :: 'w word) = int p" by (simp add: key_val_def)
  then show ?thesis using p(2) by (simp add: pos_of_key_def key_of_pos_def)
qed

context hash_build
begin

lemma lookup_miss_eq:
  fixes k :: "'w::len word list" and ht :: "('w word, 'v::zero) unique_hashtable"
  assumes w: "LENGTH('w) = 32 \<or> LENGTH('w) = 64" and inv: "hash_inv sg ht" and small: "length k \<le> 2 ^ (LENGTH('w) - 1)"
  shows "hashtable_lookup_miss c sg ht k = Some (map (\<lambda>x. case hash_map ht x of None \<Rightarrow> 0 | Some y \<Rightarrow> y) k,
    filter (\<lambda>i. hash_map ht (k ! i) = None) [0..<length k])"
proof -
  note h = hash_invD [OF inv]
  let ?T = "length (ht_key ht)" and ?n = "length k" and ?ck = "ht_conflict_key ht"
  let ?hash = "map (\<lambda>x. unat x mod ?T) k" and ?cls = "\<lambda>i. cell_class ht (k ! i)"
  let ?val = "\<lambda>x. case hash_map ht x of None \<Rightarrow> 0 | Some y \<Rightarrow> y"
  define ms where "ms = filter (\<lambda>i. ?cls i = Missed) [0..<?n]"
  define cm where "cm = filter (\<lambda>i. ?cls i = Clear_Miss) [0..<?n]"
  have "ok (find_miss_read_table_checkfill (hc_find c) (LENGTH('w) div 8) k (replicate ?n 0) ?n (ht_key ht) (ht_val ht) (ht_is_filled ht) ?hash)
    (\<lambda>(vp, ret, clear_miss). (length vp = ?n \<and> (\<forall>i<?n. vp ! i =
       (if i \<in> {0..<?n} \<and> ?cls i = Hit then ht_val ht ! (unat (k ! i) mod ?T) else 0))) \<and> ret = ms \<and> clear_miss = cm)"
    unfolding find_miss_read_table_checkfill_def ms_def cm_def
    by (rule miss2_visit.miss2_scan_ok [OF read_fill_visit [OF inv] find]) simp
  then obtain vp where scan: "find_miss_read_table_checkfill (hc_find c) (LENGTH('w) div 8) k (replicate ?n 0) ?n (ht_key ht) (ht_val ht)
      (ht_is_filled ht) ?hash = Some (vp, ms, cm)"
    and vp: "length vp = ?n" "\<And>i. i < ?n \<Longrightarrow> vp ! i = (if ?cls i = Hit then ht_val ht ! (unat (k ! i) mod ?T) else 0)"
    by (auto simp: ok_iff_ex)
  have ms: "p < ?n" "?cls p = Missed" if "p \<in> set ms" for p using that by (auto simp: ms_def)
  have keys: "omap (rd k) ms = Some (map ((!) k) ms)" by (rule omap_Some) (simp add: ms(1))
  let ?pos = "map (conflict_pos sg ?ck) (map ((!) k) ms)" and ?F = "\<lambda>m. filter (\<lambda>p. k ! p \<notin> set ?ck) (take m ms)"
  let ?I = "\<lambda>m (v, crntpos, tmp). length v = ?n \<and> length tmp = length ms \<and> crntpos = length (?F m) \<and>
    take crntpos tmp = map (key_of_pos :: nat \<Rightarrow> 'w word) (?F m) \<and>
    (\<forall>i<?n. v ! i = (if ?cls i = Hit \<or> i \<in> set (take m ms) then ?val (k ! i) else 0))"
  let ?body = "\<lambda>i (v, crntpos, retmisstmp). do {
           p \<leftarrow> rd ms i;
           q \<leftarrow> rd ?pos i;
           found \<leftarrow> (if q < length (ht_conflict_val ht) then do {
               x \<leftarrow> rd ?ck q;
               y \<leftarrow> rd (map ((!) k) ms) i;
               Some (x = y) } else Some False);
           if found then do { x \<leftarrow> rd (ht_conflict_val ht) q; v \<leftarrow> wr v p x; Some (v, crntpos, retmisstmp) }
           else do { retmisstmp \<leftarrow> wr retmisstmp crntpos (key_of_pos p :: 'w word); Some (v, crntpos + 1, retmisstmp) } }"
  have "ok (for_each ?body [0..<length ms] (vp, 0, replicate (length ms) 0)) (?I (length ms))"
  proof (rule ok_for_range [where I = ?I])
    show "?I 0 (vp, 0, replicate (length ms) 0)" using vp hash_map_class(2) [OF inv] by auto
  next
    fix m and st :: "'v list \<times> nat \<times> 'w word list"
    assume m: "m < length ms" and st: "?I m st"
    obtain v cr tmp where [simp]: "st = (v, cr, tmp)" by (cases st)
    have p: "ms ! m \<in> set ms" using m by simp
    let ?x = "k ! (ms ! m)" and ?q = "conflict_pos sg ?ck (k ! (ms ! m))"
    have Fm: "length (?F m) \<le> m" "length (?F m) < length ms" using m length_filter_le [of "\<lambda>p. k ! p \<notin> set ?ck" "take m ms"] by simp_all
    have step: "take (Suc m) ms = take m ms @ [ms ! m]" using m by (rule take_Suc_conv_app_nth)
    show "ok (?body m st) (?I (Suc m))"
    proof (cases "?x \<in> set ?ck")
      case True
      have q: "?q < length ?ck" "?ck ! ?q = ?x" using conflict_pos_in [OF h(4) True] by auto
      have "?val ?x = ht_conflict_val ht ! ?q" using hash_map_class(3) [OF inv ms(2) [OF p] True] by simp
      then show ?thesis using True q m st ms(1) [OF p] h(5) by (auto simp: step nth_list_update)
    next
      case False
      have nq: "?q = length ?ck \<or> ?ck ! ?q \<noteq> ?x" using False conflict_pos_le [of sg ?ck ?x] nth_mem [of ?q ?ck] by fastforce
      have "?val ?x = 0" using hash_map_class(4) [OF inv ms(2) [OF p] False] by simp
      moreover have "?q \<le> length ?ck" by (rule conflict_pos_le)
      ultimately show ?thesis using False nq m st ms [OF p] h(5) Fm
        by (auto simp: step nth_list_update take_Suc_conv_app_nth)
    qed
  qed simp
  then obtain v cr tmp where loop: "for_each ?body [0..<length ms] (vp, 0, replicate (length ms) 0) = Some (v, cr, tmp)"
    and res: "?I (length ms) (v, cr, tmp)" by (auto simp: ok_iff_ex)
  let ?G = "filter (\<lambda>p. k ! p \<notin> set ?ck) ms"
  have cr: "cr \<le> length tmp" "take cr tmp = map key_of_pos ?G" using res length_filter_le [of "\<lambda>p. k ! p \<notin> set ?ck" ms] by auto
  have G: "?G = filter (\<lambda>i. ?cls i = Missed \<and> k ! i \<notin> set ?ck) [0..<?n]" by (simp add: ms_def)
  have undo: "map (pos_of_key sg) (map (key_of_pos :: nat \<Rightarrow> 'w word) ?G) = ?G"
  proof -
    have "pos_of_key sg (key_of_pos p :: 'w word) = p" if "p \<in> set ?G" for p
      using that ms(1) [of p] small by (intro pos_key [OF w]) auto
    then show ?thesis unfolding map_map by (intro map_idI) simp
  qed
  have None_iff: "hash_map ht (k ! i) = None \<longleftrightarrow> ?cls i = Clear_Miss \<or> ?cls i = Missed \<and> k ! i \<notin> set ?ck" for i
    using hash_map_class [OF inv, of "k ! i"] by (cases "?cls i"; cases "k ! i \<in> set ?ck") auto
  have sorted: "sorted_wrt (<) [0..<?n]" by simp
  have "std_set_union cm ?G = filter (\<lambda>i. hash_map ht (k ! i) = None) [0..<?n]"
    unfolding cm_def G None_iff by (rule union_filters [OF sorted]) auto
  moreover have "sorted cm" "sorted ?G" unfolding cm_def G by (rule sorted_wrt_filter; simp)+
  ultimately have union: "hc_set_union c cm ?G = Some (filter (\<lambda>i. hash_map ht (k ! i) = None) [0..<?n])"
    by (simp add: union)
  have none_or: "?val (k ! i) = 0" if "i < ?n" "?cls i \<noteq> Hit" "i \<notin> set ms" for i
  proof -
    have "?cls i = Clear_Miss" using that by (cases "?cls i") (auto simp: ms_def)
    then show ?thesis using hash_map_class(1) [OF inv] by simp
  qed
  have v: "v = map ?val k" using res none_or by (intro nth_equalityI) auto
  show ?thesis
  proof (cases "ms = []")
    case True
    then have "cm = filter (\<lambda>i. hash_map ht (k ! i) = None) [0..<?n]"
      unfolding cm_def by (intro filter_cong refl) (auto simp: None_iff ms_def filter_empty_conv)
    then show ?thesis using True h(1) loop v by (simp add: hashtable_lookup_miss_def hashes scan)
  next
    case False
    then show ?thesis
      using h(1) loop cr undo union v
      by (simp add: hashtable_lookup_miss_def hashes scan keys search_conflicts_eq [OF h(4)] del: map_map)
  qed
qed

end

subsection \<open>Existence and the set of keys\<close>

lemma has_key_class:
  assumes "hash_inv sg ht"
  shows "hash_map ht x = None \<longleftrightarrow> cell_class ht x = Clear_Miss \<or> cell_class ht x = Missed \<and> x \<notin> set (ht_conflict_key ht)"
  using hash_map_class [OF assms, of x] by (cases "cell_class ht x"; cases "x \<in> set (ht_conflict_key ht)") auto

lemma clear_cells:
  assumes "length ret = n" "\<forall>p\<in>set cm. p < n"
  shows "for_each (\<lambda>i ret. do { p \<leftarrow> rd cm i; wr ret p (0 :: int) }) [0..<length cm] ret
    = Some (map (\<lambda>i. if i \<in> set cm then 0 else ret ! i) [0..<n])"
proof -
  have "ok (for_each (\<lambda>i ret. do { p \<leftarrow> rd cm i; wr ret p (0 :: int) }) [0..<length cm] ret)
    (\<lambda>r. length r = n \<and> (\<forall>i<n. r ! i = (if i \<in> set (take (length cm) cm) then 0 else ret ! i)))"
    by (rule ok_for_range [where I = "\<lambda>m r. length r = n \<and> (\<forall>i<n. r ! i = (if i \<in> set (take m cm) then 0 else ret ! i))"])
      (use assms in \<open>auto simp: take_Suc_conv_app_nth nth_list_update\<close>)
  then show ?thesis unfolding ok_iff_ex by (auto intro!: nth_equalityI)
qed

context hash_build
begin

lemma check_existence_eq:
  fixes k :: "'w::len word list" and ht :: "('w word, 'v) unique_hashtable"
  assumes inv: "hash_inv sg ht"
  shows "hashtable_check_existence c sg ht k = Some (map (\<lambda>x. if hash_map ht x = None then 0 else 1) k)"
proof -
  note h = hash_invD [OF inv]
  let ?T = "length (ht_key ht)" and ?n = "length k" and ?ck = "ht_conflict_key ht"
  let ?hash = "map (\<lambda>x. unat x mod ?T) k" and ?cls = "\<lambda>i. cell_class ht (k ! i)"
  define ms where "ms = filter (\<lambda>i. ?cls i = Missed) [0..<?n]"
  define cm where "cm = filter (\<lambda>i. ?cls i = Clear_Miss) [0..<?n]"
  have "table_inv sg ht" using inv by (simp add: hash_inv_def)
  then have scan: "find_miss_checkfill (hc_find c) (LENGTH('w) div 8) k ?n (ht_key ht) (ht_is_filled ht) ?hash = Some (ms, cm)"
    unfolding ms_def cm_def using find by (rule fill_scan_ok)
  have ms: "p < ?n" if "p \<in> set ms" for p using that by (simp add: ms_def)
  have keys: "omap (rd k) ms = Some (map ((!) k) ms)" by (rule omap_Some) (simp add: ms)
  define r0 where "r0 = map (\<lambda>i. if i \<in> set cm then 0 else replicate ?n (1 :: int) ! i) [0..<?n]"
  have clear: "for_each (\<lambda>i ret. do { p \<leftarrow> rd cm i; wr ret p (0 :: int) }) [0..<length cm] (replicate ?n 1) = Some r0"
    unfolding r0_def by (rule clear_cells) (auto simp: cm_def)
  let ?pos = "map (conflict_pos sg ?ck) (map ((!) k) ms)"
  let ?I = "\<lambda>m r. length r = ?n \<and> (\<forall>i<?n. r ! i = (if i \<in> set cm \<or> i \<in> set (take m ms) \<and> k ! i \<notin> set ?ck then 0 else 1 :: int))"
  let ?body = "\<lambda>i ret. do {
           p \<leftarrow> rd ms i;
           q \<leftarrow> rd ?pos i;
           absent \<leftarrow> (if q = length (ht_conflict_val ht) then Some True else do {
               x \<leftarrow> rd ?ck q;
               y \<leftarrow> rd (map ((!) k) ms) i;
               Some (x \<noteq> y) });
           if absent then wr ret p 0 else Some ret }"
  have "ok (for_each ?body [0..<length ms] r0) (?I (length ms))"
  proof (rule ok_for_range [where I = ?I])
    show "?I 0 r0" by (auto simp: r0_def)
  next
    fix m r assume m: "m < length ms" and r: "?I m r"
    have p: "ms ! m < ?n" using ms m by simp
    let ?x = "k ! (ms ! m)" and ?q = "conflict_pos sg ?ck (k ! (ms ! m))"
    have step: "take (Suc m) ms = take m ms @ [ms ! m]" using m by (rule take_Suc_conv_app_nth)
    have q: "?q \<le> length ?ck" by (rule conflict_pos_le)
    show "ok (?body m r) (?I (Suc m))"
    proof (cases "?x \<in> set ?ck")
      case True
      have "?q < length ?ck" "?ck ! ?q = ?x" using conflict_pos_in [OF h(4) True] by auto
      then show ?thesis using True m r p h(5) by (auto simp: step)
    next
      case False
      have "?q = length ?ck \<or> ?ck ! ?q \<noteq> ?x" using False q nth_mem [of ?q ?ck] by fastforce
      then show ?thesis using False m r p q h(5) by (auto simp: step nth_list_update)
    qed
  qed simp
  then obtain r where loop: "for_each ?body [0..<length ms] r0 = Some r" and r: "?I (length ms) r" by (rule okE)
  have "r ! i = (if hash_map ht (k ! i) = None then 0 else 1)" if "i < ?n" for i
    using r that by (auto simp: has_key_class [OF inv] ms_def cm_def)
  then have r_eq: "r = map (\<lambda>x. if hash_map ht x = None then 0 else 1) k" using r by (intro nth_equalityI) auto
  show ?thesis
    using h(1) loop r_eq
    by (cases "ms = []")
      (simp_all add: hashtable_check_existence_def hashes scan clear keys search_conflicts_eq [OF h(4)] del: map_map)
qed

end

text \<open>The keys of the filled cells, and the conflicts.\<close>

lemma all_keys_eq:
  assumes "table_inv sg ht" "wf_cfg fc"
  shows "hashtable_all_keys fc ht = Some (map ((!) (ht_key ht)) (filter (\<lambda>s. ht_is_filled ht ! s = 1) [0..<length (ht_key ht)]) @ ht_conflict_key ht)"
proof -
  have len: "length (ht_is_filled ht) = length (ht_key ht)" using assms by (simp add: table_inv_def Let_def)
  have "vector_find_one fc 4 (ht_is_filled ht) = Some (filter (\<lambda>s. ht_is_filled ht ! s = 1) [0..<length (ht_key ht)])"
    using len by (simp add: vector_find_one_def vector_find_condition_def is_one_def [abs_def] find_condition_eq [OF assms(2)])
  moreover have "omap (rd (ht_key ht)) (filter (\<lambda>s. ht_is_filled ht ! s = 1) [0..<length (ht_key ht)])
      = Some (map ((!) (ht_key ht)) (filter (\<lambda>s. ht_is_filled ht ! s = 1) [0..<length (ht_key ht)]))"
    by (rule omap_Some) simp
  ultimately show ?thesis by (simp add: hashtable_all_keys_def)
qed

end
