(* ===== verification/HashFacts.thy ===== *)
theory HashFacts
  imports HashLookup
begin

text \<open>
  The hash table: the checked construction, the construction of sets, and the properties.
\<close>

subsection \<open>The checked construction\<close>

text \<open>Item \<open>i\<close> hits the cell of its key but is not the item that was written last.\<close>

definition beaten :: "nat \<Rightarrow> 'w::len word list \<Rightarrow> 'w word list \<Rightarrow> nat list \<Rightarrow> nat \<Rightarrow> bool" where
  "beaten T k tk ck i \<longleftrightarrow> \<not> cell_lost T k tk i \<and> ck ! (unat (k ! i) mod T) \<noteq> i"

lemma unique_visit:
  assumes f: "filled T k (length k) tk fl ck" and T: "0 < T" and v: "length v = length k"
  shows "miss_visit (length k) (unique_visit k v tk (map (\<lambda>x. unat x mod T) k) ck) (cell_lost T k tk)
    (\<lambda>D (tv, b). length tv = T \<and> (b \<longleftrightarrow> (\<forall>i\<in>D. \<not> beaten T k tk ck i)) \<and>
      (\<forall>i\<in>D. \<not> cell_lost T k tk i \<and> ck ! (unat (k ! i) mod T) = i \<longrightarrow> tv ! (unat (k ! i) mod T) = v ! i))"
proof
  fix D s i
  assume I: "case s of (tv, b) \<Rightarrow> length tv = T \<and> (b \<longleftrightarrow> (\<forall>i\<in>D. \<not> beaten T k tk ck i)) \<and>
      (\<forall>i\<in>D. \<not> cell_lost T k tk i \<and> ck ! (unat (k ! i) mod T) = i \<longrightarrow> tv ! (unat (k ! i) mod T) = v ! i)"
    and i: "i < length k" "i \<notin> D"
  obtain tv b where s: "s = (tv, b)" by (cases s)
  have len: "length tk = T" "length ck = T" "length tv = T" using f I by (simp_all add: filled_def s)
  have cell: "unat (k ! i) mod T < T" using T by simp
  show "ok (unique_visit k v tk (map (\<lambda>x. unat x mod T) k) ck i s) (\<lambda>(s', m). m = cell_lost T k tk i \<and>
     (case s' of (tv, b) \<Rightarrow> length tv = T \<and> (b \<longleftrightarrow> (\<forall>i\<in>insert i D. \<not> beaten T k tk ck i)) \<and>
      (\<forall>i\<in>insert i D. \<not> cell_lost T k tk i \<and> ck ! (unat (k ! i) mod T) = i \<longrightarrow> tv ! (unat (k ! i) mod T) = v ! i)))"
  proof (cases "cell_lost T k tk i")
    case True
    then have "unique_visit k v tk (map (\<lambda>x. unat x mod T) k) ck i s = Some ((tv, b), True)"
      using i len cell by (simp add: unique_visit_def cell_lost_def s)
    then show ?thesis using True I by (simp add: s beaten_def)
  next
    case False
    then have hit: "k ! i = tk ! (unat (k ! i) mod T)" by (simp add: cell_lost_def)
    show ?thesis
    proof (cases "ck ! (unat (k ! i) mod T) = i")
      case True
      then have "unique_visit k v tk (map (\<lambda>x. unat x mod T) k) ck i s = Some ((tv[unat (k ! i) mod T := v ! i], b), False)"
        using i len cell hit v by (simp add: unique_visit_def s)
      moreover have "tv[unat (k ! i) mod T := v ! i] ! (unat (k ! j) mod T) = v ! j"
        if "j \<in> insert i D" "\<not> cell_lost T k tk j" "ck ! (unat (k ! j) mod T) = j" for j
      proof (cases "j = i")
        case True
        then show ?thesis using cell len by simp
      next
        case False
        then have "unat (k ! j) mod T \<noteq> unat (k ! i) mod T" using that(3) True by auto
        then show ?thesis using that False I by (simp add: s nth_list_update)
      qed
      ultimately show ?thesis using False True I by (simp add: s beaten_def)
    next
      case not_last: False
      then have "unique_visit k v tk (map (\<lambda>x. unat x mod T) k) ck i s = Some ((tv, False), False)"
        using i len cell hit by (simp add: unique_visit_def s)
      then show ?thesis using False not_last I by (auto simp: s beaten_def)
    qed
  qed
qed

lemma map_sort_key_self: "map f (sort_key f xs) = sort (map f xs)"
  by (rule properties_for_sort [symmetric]) simp_all

lemma map_fst_insort: "map fst (insort_key (\<lambda>x. f (fst x)) y xs) = insort_key f (fst y) (map fst xs)"
  by (induction xs) simp_all

lemma map_fst_sort: "map fst (sort_key (\<lambda>x. f (fst x)) xs) = sort_key f (map fst xs)"
  by (induction xs) (simp_all add: map_fst_insort)

lemma conflict_keys: "map (\<lambda>x. key_val sg (fst x)) (conflict_list sg T k v tk) = sort (map (\<lambda>p. key_val sg (k ! p)) (filter (cell_lost T k tk) [0..<length k]))"
  by (simp add: conflict_list_def map_sort_key_self comp_def)

text \<open>No item is beaten and the conflicts are distinct exactly when the keys are distinct.\<close>

lemma distinct_check:
  assumes f: "filled T k (length k) tk fl ck" and T: "0 < T"
  shows "(\<forall>i<length k. \<not> beaten T k tk ck i) \<and> distinct (map (\<lambda>x. key_val sg (fst x)) (conflict_list sg T k v tk)) \<longleftrightarrow> distinct k"
proof -
  have conf: "distinct (map (\<lambda>x. key_val sg (fst x)) (conflict_list sg T k v tk)) \<longleftrightarrow>
      (\<forall>i<length k. \<forall>j<length k. cell_lost T k tk i \<and> cell_lost T k tk j \<and> k ! i = k ! j \<longrightarrow> i = j)"
    by (auto simp: conflict_keys distinct_map inj_on_def)
  show ?thesis
  proof
    assume l: "(\<forall>i<length k. \<not> beaten T k tk ck i) \<and> distinct (map (\<lambda>x. key_val sg (fst x)) (conflict_list sg T k v tk))"
    have "i = j" if ij: "i < length k" "j < length k" "k ! i = k ! j" for i j
    proof (cases "cell_lost T k tk i")
      case True
      then have "cell_lost T k tk j" using ij(3) by (simp add: cell_lost_def)
      then show ?thesis using True conf l ij by blast
    next
      case False
      then have "\<not> cell_lost T k tk j" using ij(3) by (simp add: cell_lost_def)
      then show ?thesis using l False ij by (metis beaten_def)
    qed
    then show "distinct k" by (auto simp: distinct_conv_nth)
  next
    assume d: "distinct k"
    have "\<not> beaten T k tk ck i" if i: "i < length k" for i
    proof
      assume b: "beaten T k tk ck i"
      obtain p where "p < length k" "tk ! (unat (k ! i) mod T) = k ! p" "ck ! (unat (k ! i) mod T) = p"
        using filled_item [OF f i T] by blast
      then show False using b d i by (auto simp: beaten_def cell_lost_def nth_eq_iff_index_eq)
    qed
    then show "(\<forall>i<length k. \<not> beaten T k tk ck i) \<and> distinct (map (\<lambda>x. key_val sg (fst x)) (conflict_list sg T k v tk))"
      using d by (auto simp: conf nth_eq_iff_index_eq)
  qed
qed

context hash_build
begin

text \<open>
  The flag is never false on distinct keys; when it is right, the table is the map of the pairs.
\<close>

lemma hashtable_new_unique_ok:
  fixes k :: "'w::len word list" and v :: "'v::zero list"
  assumes w: "LENGTH('w) = 32 \<or> LENGTH('w) = 64" and v: "length v = length k" and T: "table_size_for (length k) = Some T"
  shows "ok (hashtable_new_unique c sg k v) (\<lambda>r. \<exists>ht b. r = Inr (ht, b) \<and> (distinct k \<longrightarrow> b) \<and>
    (distinct k \<longrightarrow> hash_inv sg ht \<and> represents k v ht) \<and>
    ((\<forall>ks. set ks \<subseteq> key_val sg ` set k \<and> length ks \<le> length k \<longrightarrow> exact ks) \<longrightarrow> b = distinct k))"
proof -
  have T0: "0 < T" using table_size_for_ok [OF T] by simp
  obtain tk fl ck where fill: "fill_table T k = Some (tk, fl, ck, map (\<lambda>x. unat x mod T) k)" and f: "filled T k (length k) tk fl ck"
    using fill_table_ok [OF T0, of k] by (auto simp: ok_iff_ex)
  define ms where "ms = filter (cell_lost T k tk) [0..<length k]"
  have "ok (find_miss_unique_check (hc_find c) (LENGTH('w) div 8) k v (length k) tk (replicate T 0) (map (\<lambda>x. unat x mod T) k) ck)
    (\<lambda>(s, ret). (case s of (tv, b) \<Rightarrow> length tv = T \<and> (b \<longleftrightarrow> (\<forall>i\<in>{0..<length k}. \<not> beaten T k tk ck i)) \<and>
      (\<forall>i\<in>{0..<length k}. \<not> cell_lost T k tk i \<and> ck ! (unat (k ! i) mod T) = i \<longrightarrow> tv ! (unat (k ! i) mod T) = v ! i)) \<and> ret = ms)"
    unfolding find_miss_unique_check_def ms_def by (rule miss_visit.miss_scan_ok [OF unique_visit [OF f T0 v] find]) simp
  then obtain tv b where scan: "find_miss_unique_check (hc_find c) (LENGTH('w) div 8) k v (length k) tk (replicate T 0)
        (map (\<lambda>x. unat x mod T) k) ck = Some ((tv, b), ms)"
    and tv: "length tv = T" "b \<longleftrightarrow> (\<forall>i<length k. \<not> beaten T k tk ck i)"
      "\<And>i. i < length k \<Longrightarrow> \<not> cell_lost T k tk i \<Longrightarrow> ck ! (unat (k ! i) mod T) = i \<Longrightarrow> tv ! (unat (k ! i) mod T) = v ! i"
    by (auto simp: ok_iff_ex Ball_def)
  let ?cl = "conflict_list sg T k v tk" and ?ks = "map (\<lambda>x. key_val sg (fst x)) (conflict_list sg T k v tk)"
  have confl: "conflicts_of c sg k v ms = Some ?cl" unfolding ms_def conflict_list_def by (rule conflicts_eq [OF w v])
  have lcl: "length ?cl = length ms" by (simp add: conflict_list_def ms_def)
  have ks: "sorted ?ks" "length ?ks = length ?cl" "set ?ks \<subseteq> key_val sg ` set k" "length ?ks \<le> length k"
    using lcl length_filter_le [of "cell_lost T k tk" "[0..<length k]"] by (auto simp: conflict_keys ms_def)
  obtain u where u: "hc_set_is_unique c ?ks (length ?cl) = Some u" using unique_total [of ?ks] ks(2) by auto
  have u_distinct: "distinct ?ks \<Longrightarrow> u" using unique_distinct [of ?ks] u ks(2) by simp
  have u_exact: "exact ?ks \<Longrightarrow> u = distinct ?ks" using unique_exact [OF ks(1)] u ks(2) by simp
  let ?u = "if length ms > 0 then u else True"
  have "(if length ms > 0 then hc_set_is_unique c ?ks (length ?cl) else Some True) = Some ?u" using u by simp
  moreover have "key_size_ok k" using w by (auto simp: key_size_ok_def)
  ultimately have new: "hashtable_new_unique c sg k v = Some (Inr (built_table sg T k v tk tv fl, b \<and> ?u))"
    using v T by (simp add: hashtable_new_unique_def fill scan confl built_table_def)
  note dc = distinct_check [OF f T0, of sg v]
  have no_ms: "ms = [] \<Longrightarrow> distinct ?ks" using lcl by simp
  have d: "distinct k \<Longrightarrow> b \<and> ?u" using dc tv(2) u_distinct by auto
  moreover have "hash_inv sg (built_table sg T k v tk tv fl) \<and> represents k v (built_table sg T k v tk tv fl)" if "distinct k"
  proof (rule built [OF f T0 v tv(1)])
    fix i assume i: "i < length k" "\<not> cell_lost T k tk i"
    have "\<not> beaten T k tk ck i" using dc that i by blast
    then have "ck ! (unat (k ! i) mod T) = i" using i by (simp add: beaten_def)
    then show "\<exists>j<length k. k ! j = k ! i \<and> tv ! (unat (k ! i) mod T) = v ! j" using tv(3) i by blast
  qed
  moreover have "(b \<and> ?u) = distinct k" if "\<forall>ks. set ks \<subseteq> key_val sg ` set k \<and> length ks \<le> length k \<longrightarrow> exact ks"
  proof -
    have "?u = distinct ?ks" using u_exact that ks no_ms by (cases "ms = []") auto
    then show ?thesis using dc tv(2) by blast
  qed
  ultimately show ?thesis using new by simp
qed

text \<open>A set of keys, duplicates allowed.\<close>

lemma hashtable_new_set_ok:
  fixes k :: "'w::len word list"
  assumes w: "LENGTH('w) = 32 \<or> LENGTH('w) = 64" and T: "table_size_for (length k) = Some T" and fc: "wf_cfg fc"
  shows "ok (hashtable_new_set c sg k :: (string + ('w word, 'v) unique_hashtable) option) (\<lambda>r. \<exists>ht keys. r = Inr ht \<and>
    table_inv sg ht \<and> hashtable_all_keys fc ht = Some keys \<and> set keys = set k \<and> (distinct k \<longrightarrow> distinct keys))"
proof -
  have T0: "0 < T" using table_size_for_ok [OF T] by simp
  obtain tk fl ck where fill: "fill_table T k = Some (tk, fl, ck, map (\<lambda>x. unat x mod T) k)" and f: "filled T k (length k) tk fl ck"
    using fill_table_ok [OF T0, of k] by (auto simp: ok_iff_ex)
  have len: "length tk = T" "length fl = T" using f by (simp_all add: filled_def)
  define ms where "ms = filter (cell_lost T k tk) [0..<length k]"
  let ?hash = "map (\<lambda>x. unat x mod T) k"
  have wf: "scan_wf k tk ?hash (length k)" using len T0 by (simp add: scan_wf_def)
  have cls: "item_missed k tk ?hash i = cell_lost T k tk i" if "i < length k" for i
    using that by (simp add: item_missed_def cell_lost_def)
  from find_scan.miss_scan_ok [OF find wf, of "LENGTH('w) div 8" "()"]
  have scan: "find_miss (hc_find c) (LENGTH('w) div 8) k (length k) tk ?hash = Some ms"
    by (auto simp: find_miss_def ms_def ok_iff_ex cls intro!: filter_cong)
  have keys: "omap (rd k) ms = Some (map ((!) k) ms)" by (rule omap_Some) (simp add: ms_def)
  let ?cl = "sort_key (key_val sg) (map ((!) k) ms)"
  have confl: "(if length ms > 0 then do { conflict \<leftarrow> omap (rd k) ms; radix_sort_keys (hc_radix c) sg conflict False } else Some []) = Some ?cl"
    by (simp add: keys radix_sort_eq(2) [OF w])
  define ht :: "('w word, 'v) unique_hashtable" where "ht = \<lparr>ht_key = tk, ht_val = [], ht_is_filled = fl, ht_conflict_key = ?cl, ht_conflict_val = []\<rparr>"
  have "?cl = map fst (conflict_list sg T k k tk)"
    by (simp add: conflict_list_def ms_def map_fst_sort comp_def)
  then have inv: "table_inv sg ht" using built_table_inv [OF f T0, of sg "[] :: 'v list" k "[] :: 'v list"] by (simp add: ht_def)
  let ?fk = "map ((!) tk) (filter (\<lambda>s. fl ! s = 1) [0..<T])"
  have all: "hashtable_all_keys fc ht = Some (?fk @ ?cl)" using all_keys_eq [OF inv fc] len by (simp add: ht_def)
  have ks: "key_size_ok k" using w by (auto simp: key_size_ok_def)
  have new: "hashtable_new_set c sg k = Some (Inr ht)"
    using T ks by (simp add: hashtable_new_set_def fill scan confl [simplified] ht_def)
  have "set (?fk @ ?cl) = set k"
  proof
    have "tk ! s \<in> set k" if "s < T" "fl ! s = 1" for s using filled_cell [OF f that(1)] that(2) by auto
    then show "set (?fk @ ?cl) \<subseteq> set k" by (auto simp: ms_def)
    show "set k \<subseteq> set (?fk @ ?cl)"
    proof
      fix x assume "x \<in> set k"
      then obtain i where i: "i < length k" "x = k ! i" by (auto simp: in_set_conv_nth)
      have fl1: "fl ! (unat x mod T) = 1" "unat x mod T < T" using filled_item [OF f i(1) T0] i(2) T0 by auto
      show "x \<in> set (?fk @ ?cl)"
      proof (cases "cell_lost T k tk i")
        case True
        then show ?thesis using i by (auto simp: ms_def)
      next
        case False
        then have "x = tk ! (unat x mod T)" using i by (simp add: cell_lost_def)
        then have "x \<in> set ?fk" using fl1 by (auto intro!: image_eqI [of _ _ "unat x mod T"])
        then show ?thesis by simp
      qed
    qed
  qed
  moreover have "distinct (?fk @ ?cl)" if d: "distinct k"
  proof -
    have "s = t" if "s < T" "t < T" "fl ! s = 1" "fl ! t = 1" "tk ! s = tk ! t" for s t
      using filled_cell [OF f that(1)] filled_cell [OF f that(2)] that by auto
    then have "distinct ?fk" by (auto simp: distinct_map inj_on_def)
    moreover have "distinct ?cl" using d by (auto simp: distinct_map inj_on_def ms_def nth_eq_iff_index_eq)
    moreover have "tk ! s \<noteq> k ! p" if "s < T" "fl ! s = 1" "p \<in> set ms" for s p
      using filled_cell [OF f that(1)] that by (auto simp: ms_def cell_lost_def)
    ultimately show ?thesis by (auto simp: distinct_append)
  qed
  ultimately show ?thesis using new inv all by auto
qed

end

subsection \<open>Properties\<close>

text \<open>The limits of the construction, and its errors.\<close>

definition hash_error :: "nat \<Rightarrow> nat \<Rightarrow> string option" where
  "hash_error nk nv = (if nv \<noteq> nk then Some ''sizes of key and value are different''
     else if 34359738368 + 53 < 3 * nk then Some ''unique_hash_table: requested size too large'' else None)"

lemma sorted_primes: "sorted prime_numbers"
  by (simp add: prime_numbers_def)

lemma table_size_None: "table_size_for n = None \<longleftrightarrow> 34359738368 + 53 < 3 * n"
proof -
  have "table_size_for n = None \<longleftrightarrow> (\<forall>p\<in>set prime_numbers. p < n * 3)"
    unfolding table_size_for_def hash_table_size_mult_def by (simp only: dropWhile_eq_Nil_conv [symmetric] split: list.split) auto
  also have "\<dots> \<longleftrightarrow> 34359738368 + 53 < n * 3" by (auto simp: prime_numbers_def)
  finally show ?thesis by (simp add: mult.commute)
qed

lemma table_size_Some: "3 * n \<le> 34359738368 + 53 \<Longrightarrow> \<exists>T. table_size_for n = Some T"
  using table_size_None [of n] by (cases "table_size_for n") simp_all

text \<open>
  C5. The hash table is a finite map.  Built from a column of distinct keys of 32 or 64 bits with their
  values, in either build, it satisfies its invariant (every filled cell holds a key with that hash
  value, the conflicts are sorted and differ from the keys in their cells) and stands for the map of the
  pairs; a lookup of present keys returns their values.  Different numbers of keys and values, and
  tables beyond the largest prime, are reported.
\<close>
theorem hashtable_is_map:
  fixes k :: "'w::len word list" and v :: "'v::zero list"
  assumes "LENGTH('w) = 32 \<or> LENGTH('w) = 64" "distinct k" "c = hash_cfg_x86 \<or> c = hash_cfg_ve spare"
  shows "case hash_error (length k) (length v) of
      Some e \<Rightarrow> hashtable_new c sg k v = Some (Inl e)
    | None \<Rightarrow> \<exists>ht. hashtable_new c sg k v = Some (Inr ht) \<and> hash_inv sg ht \<and> hash_map ht = map_of (zip k v) \<and>
        (\<forall>q. set q \<subseteq> set k \<longrightarrow> hashtable_lookup c sg ht q = Some (map (\<lambda>x. the (map_of (zip k v) x)) q))"
proof (cases "length v = length k \<and> 3 * length k \<le> 34359738368 + 53")
  case False
  then show ?thesis using table_size_None [of "length k"] by (auto simp: hash_error_def hashtable_new_def)
next
  case True
  then obtain T where T: "table_size_for (length k) = Some T" using table_size_Some by blast
  have new: "ok (hashtable_new c sg k v) (\<lambda>r. \<exists>ht. r = Inr ht \<and> hash_inv sg ht \<and> represents k v ht)"
    using assms(3) h_x86.hashtable_new_ok [OF assms(1) _ T] h_ve.hashtable_new_ok [OF assms(1) _ T] True by auto
  then obtain ht where ht: "hashtable_new c sg k v = Some (Inr ht)" "hash_inv sg ht" "represents k v ht"
    by (auto simp: ok_iff_ex)
  have map: "hash_map ht = map_of (zip k v)" using represents_distinct [OF ht(3) assms(2)] True by simp
  have "hashtable_lookup c sg ht q = Some (map (\<lambda>x. the (map_of (zip k v) x)) q)" if "set q \<subseteq> set k" for q
  proof -
    have "\<forall>x\<in>set q. hash_map ht x \<noteq> None" using that ht(3) by (auto simp: represents_def)
    then show ?thesis
      using assms(3) h_x86.lookup_eq [OF ht(2)] h_ve.lookup_eq [OF ht(2)] map by auto
  qed
  moreover have "hash_error (length k) (length v) = None" using True by (simp add: hash_error_def)
  ultimately show ?thesis using ht map by auto
qed

theorem hashtable_is_map_witness:
  "\<exists>ht. hashtable_new hash_cfg_x86 True [5, 16, 3, 24 :: 32 word] [1, 2, 3, 4 :: nat] = Some (Inr ht) \<and>
    hash_map ht = [5 \<mapsto> 1, 16 \<mapsto> 2, 3 \<mapsto> 3, 24 \<mapsto> 4] \<and> hashtable_lookup hash_cfg_x86 True ht [24, 5, 24, 3] = Some [4, 1, 4, 3]"
proof -
  have "distinct [5, 16, 3, 24 :: 32 word]" by simp
  from hashtable_is_map [OF _ this, where c = hash_cfg_x86 and v = "[1, 2, 3, 4 :: nat]" and sg = True]
  obtain ht where "hashtable_new hash_cfg_x86 True [5, 16, 3, 24 :: 32 word] [1, 2, 3, 4 :: nat] = Some (Inr ht)"
    "hash_map ht = map_of (zip [5, 16, 3, 24] [1, 2, 3, 4])"
    "hashtable_lookup hash_cfg_x86 True ht [24, 5, 24, 3] = Some (map (\<lambda>x. the (map_of (zip [5, 16, 3, 24 :: 32 word] [1, 2, 3, 4]) x)) [24, 5, 24, 3])"
    by (auto simp add: hash_error_def simp del: zip_Cons_Cons)
  then show ?thesis by (auto simp: fun_upd_twist)
qed

text \<open>
  C25. Lookup of arbitrary keys and the existence test, on every table that satisfies the invariant and in
  either build: the values of the keys that are there and 0 for the others, with the positions of the
  missing keys in increasing order; the test answers 1 and 0.  (The positions of the missing keys pass
  through an array of the key type, so the number of looked up keys must fit in it.)
\<close>
theorem hashtable_lookup_reports_missing:
  fixes q :: "'w::len word list" and ht :: "('w word, 'v::zero) unique_hashtable"
  assumes "LENGTH('w) = 32 \<or> LENGTH('w) = 64" "hash_inv sg ht" "length q \<le> 2 ^ (LENGTH('w) - 1)"
    and "c = hash_cfg_x86 \<or> c = hash_cfg_ve spare"
  shows "hashtable_lookup_miss c sg ht q = Some (map (\<lambda>x. case hash_map ht x of None \<Rightarrow> 0 | Some y \<Rightarrow> y) q,
      filter (\<lambda>i. hash_map ht (q ! i) = None) [0..<length q]) \<and>
    hashtable_check_existence c sg ht q = Some (map (\<lambda>x. if hash_map ht x = None then 0 else 1) q)"
  using assms(4) h_x86.lookup_miss_eq [OF assms(1-3)] h_ve.lookup_miss_eq [OF assms(1-3)]
    h_x86.check_existence_eq [OF assms(2)] h_ve.check_existence_eq [OF assms(2)] by blast

theorem hashtable_lookup_reports_missing_witness:
  "\<exists>ht. hashtable_new hash_cfg_x86 True [5, 16 :: 32 word] [1, 2 :: nat] = Some (Inr ht) \<and>
    hashtable_lookup_miss hash_cfg_x86 True ht [16, 4, 5, 27] = Some ([2, 0, 1, 0], [1, 3])"
proof -
  obtain T where T: "table_size_for (length [5, 16 :: 32 word]) = Some T" using table_size_Some [of "length [5, 16 :: 32 word]"] by auto
  have "ok (hashtable_new hash_cfg_x86 True [5, 16 :: 32 word] [1, 2 :: nat])
      (\<lambda>r. \<exists>ht. r = Inr ht \<and> hash_inv True ht \<and> represents [5, 16] [1, 2] ht)"
    by (rule h_x86.hashtable_new_ok [OF _ _ T]) simp_all
  then obtain ht where ht: "hashtable_new hash_cfg_x86 True [5, 16 :: 32 word] [1, 2 :: nat] = Some (Inr ht)"
    "hash_inv True ht" "represents [5, 16] [1, 2] ht" by (auto simp: ok_iff_ex)
  have "hash_map ht = map_of (zip [5, 16] [1, 2])" by (rule represents_distinct [OF ht(3)]) simp_all
  then show ?thesis
    using ht(1) hashtable_lookup_reports_missing [OF _ ht(2), of "[16, 4, 5, 27]" hash_cfg_x86 0] by (simp add: upt_rec)
qed

text \<open>
  The checked construction decides uniqueness: on the scalar build its flag says that the keys are
  distinct; on the vector build it does so for up to 256 keys, and beyond that it is never false on
  distinct keys.  With distinct keys the table is the map of the pairs.
\<close>
theorem hashtable_unique_flag:
  fixes k :: "'w::len word list" and v :: "'v::zero list"
  assumes "LENGTH('w) = 32 \<or> LENGTH('w) = 64" "hash_error (length k) (length v) = None"
    and "c = hash_cfg_x86 \<or> c = hash_cfg_ve spare"
  shows "\<exists>ht b. hashtable_new_unique c sg k v = Some (Inr (ht, b)) \<and> (distinct k \<longrightarrow> b) \<and>
    (c = hash_cfg_x86 \<or> length k \<le> 256 \<longrightarrow> b = distinct k) \<and>
    (distinct k \<longrightarrow> hash_inv sg ht \<and> hash_map ht = map_of (zip k v))"
proof -
  have vk: "length v = length k" "3 * length k \<le> 34359738368 + 53" using assms(2) by (auto simp: hash_error_def split: if_splits)
  then obtain T where T: "table_size_for (length k) = Some T" using table_size_Some by blast
  note x86 = h_x86.hashtable_new_unique_ok [OF assms(1) vk(1) T, of sg, simplified]
  note ve = h_ve.hashtable_new_unique_ok [OF assms(1) vk(1) T, of spare sg]
  have "ok (hashtable_new_unique c sg k v) (\<lambda>r. \<exists>ht b. r = Inr (ht, b) \<and> (distinct k \<longrightarrow> b) \<and>
    (distinct k \<longrightarrow> hash_inv sg ht \<and> represents k v ht) \<and> (c = hash_cfg_x86 \<or> length k \<le> 256 \<longrightarrow> b = distinct k))"
    using assms(3)
  proof
    assume "c = hash_cfg_x86"
    then show ?thesis using x86 by (auto simp: ok_iff_ex)
  next
    assume c: "c = hash_cfg_ve spare"
    have "hash_cfg_ve spare \<noteq> hash_cfg_x86" by (simp add: hash_cfg_ve_def hash_cfg_x86_def find_miss_cfg_ve_def find_miss_cfg_x86_def)
    then show ?thesis using ve c by (auto simp: ok_iff_ex)
  qed
  then show ?thesis using represents_distinct [OF _ _ vk(1)] by (auto simp: ok_iff_ex)
qed

theorem hashtable_unique_flag_witness:
  "\<exists>ht. hashtable_new_unique (hash_cfg_ve 0) True [5, -16, 5 :: 32 word] [1, 2, 3 :: nat] = Some (Inr (ht, False))"
  using hashtable_unique_flag [of "[5, -16, 5 :: 32 word]" "[1, 2, 3 :: nat]" "hash_cfg_ve 0" 0 True]
  by (auto simp: hash_error_def)

text \<open>
  A table built as a set returns every key it was given, whatever duplicates there are, and each key
  once when there were none.
\<close>
theorem hashtable_set_keys:
  fixes k :: "'w::len word list"
  assumes "LENGTH('w) = 32 \<or> LENGTH('w) = 64" "3 * length k \<le> 34359738368 + 53" "wf_cfg fc"
    and "c = hash_cfg_x86 \<or> c = hash_cfg_ve spare"
  shows "\<exists>ht keys. hashtable_new_set c sg k = Some (Inr (ht :: ('w word, 'v) unique_hashtable)) \<and>
    hashtable_all_keys fc ht = Some keys \<and> set keys = set k \<and> (distinct k \<longrightarrow> distinct keys)"
proof -
  obtain T where T: "table_size_for (length k) = Some T" using assms(2) table_size_Some by blast
  have "ok (hashtable_new_set c sg k :: (string + ('w word, 'v) unique_hashtable) option) (\<lambda>r. \<exists>ht keys. r = Inr ht \<and>
    table_inv sg ht \<and> hashtable_all_keys fc ht = Some keys \<and> set keys = set k \<and> (distinct k \<longrightarrow> distinct keys))"
    using assms(4) h_x86.hashtable_new_set_ok [OF assms(1) T assms(3)] h_ve.hashtable_new_set_ok [OF assms(1) T assms(3)]
    by (elim disjE) simp_all
  then show ?thesis by (auto simp: ok_iff_ex)
qed

theorem hashtable_set_keys_witness:
  "\<exists>ht keys. hashtable_new_set hash_cfg_x86 True [5, 16, 5 :: 32 word] = Some (Inr (ht :: (32 word, nat) unique_hashtable)) \<and>
    hashtable_all_keys find_condition_cfg_x86 ht = Some keys \<and> set keys = {5, 16}"
  using hashtable_set_keys [of "[5, 16, 5 :: 32 word]" find_condition_cfg_x86 hash_cfg_x86 0 True]
  by (auto simp: wf_cfg_def find_condition_cfg_x86_def)

text \<open>
  A table built as a set has no conflict values, whose number the existence test compares with: it denies
  the first of the conflicts, which is a key of the table.
\<close>
lemma check_existence_of_set:
  assumes "table_inv sg ht" "ht_conflict_key ht = x # xs" "ht_conflict_val ht = []" "c = hash_cfg_x86 \<or> c = hash_cfg_ve spare"
  shows "hashtable_check_existence c sg ht [x] = Some [0]"
proof -
  let ?T = "length (ht_key ht)"
  have T: "0 < ?T" and cell: "ht_is_filled ht ! (unat x mod ?T) = 1" "ht_key ht ! (unat x mod ?T) \<noteq> x"
    and srt: "sorted (map (key_val sg) (ht_conflict_key ht))"
    using assms(1,2) by (simp_all add: table_inv_def Let_def)
  have cls: "cell_class ht x = Missed" using cell by (simp add: cell_class_def)
  have wf: "wf_cfg (hc_find c)" using assms(4) h_x86.find h_ve.find by blast
  have scan: "find_miss_checkfill (hc_find c) (LENGTH('a) div 8) [x] 1 (ht_key ht) (ht_is_filled ht) [unat x mod ?T] = Some ([0], [])"
    using fill_scan_ok [OF assms(1) wf, where k = "[x]"] cls by simp
  have "search_conflicts c sg ht [x] = Some [conflict_pos sg (ht_conflict_key ht) x]"
    using assms(4) h_x86.search_conflicts_eq [OF srt, of "[x]"] h_ve.search_conflicts_eq [OF srt, of _ "[x]"] by auto
  moreover have "conflict_pos sg (ht_conflict_key ht) x = 0" by (simp add: assms(2) conflict_pos_def)
  ultimately show ?thesis
    using T scan assms(3) by (simp add: hashtable_check_existence_def myhash_def)
qed

end
