(* ===== verification/Join.thy ===== *)
theory Join
  imports HashFacts
begin

text \<open>
  dataframe/join.hpp and dataframe/join.cc: the joins of two columns of keys.  Every column comes with
  the row numbers of its table; a join returns the two columns of row numbers of the pairs.

  The scalar build uses a hash multimap, the vector build the hash table of \<open>Hashtable\<close> when the right
  keys are unique, and otherwise sorts both sides and merges them in JOIN_VLEN lanes, each with a part of
  the left column, its own region of the output arrays and its own position in the right column.  The
  joins by inequality are the same in both builds.
\<close>

subsection \<open>shrink_missed\<close>

definition shrink_missed_vlen :: nat where "shrink_missed_vlen = 256"

text \<open>\<open>diff\<close> is the build's set_difference; the guards are the unsigned differences that would wrap.\<close>

definition shrink_missed :: "(nat list \<Rightarrow> nat list \<Rightarrow> nat list option) \<Rightarrow> nat list \<Rightarrow> nat list \<Rightarrow> nat list option" where
  "shrink_missed diff to_shrink missed =
     (if length missed = 0 then Some to_shrink
      else if length to_shrink > length missed * shrink_missed_vlen then do {
        (ret, ret_idx, src_idx, start) \<leftarrow> for_each (\<lambda>i (ret, ret_idx, src_idx, start). do {
            stop \<leftarrow> rd missed i;
            if stop < start then None
            else do {
              ret \<leftarrow> copy_cells to_shrink src_idx ret ret_idx (stop - start);
              Some (ret, ret_idx + (stop - start), src_idx + (stop - start) + 1, stop + 1) } })
          [0..<length missed] (replicate (length to_shrink - length missed) 0, 0, 0, 0);
        if length to_shrink < start then None
        else copy_cells to_shrink src_idx ret ret_idx (length to_shrink - start) }
      else do {
        to_shrink_idx \<leftarrow> diff [0..<length to_shrink] missed;
        omap (rd to_shrink) to_shrink_idx })"

subsection \<open>Scalar build\<close>

text \<open>
  \<open>std::unordered_multimap\<close> as the list of its insertions: \<open>er m k\<close> are the values that \<open>equal_range\<close>
  visits for key \<open>k\<close>, in the order of the library.
\<close>

definition right_map :: "'k list \<Rightarrow> nat list \<Rightarrow> ('k \<times> nat) list option" where
  "right_map right right_idx = omap (\<lambda>i. do { k \<leftarrow> rd right i; v \<leftarrow> rd right_idx i; Some (k, v) }) [0..<length right]"

definition equi_join_x86 ::
  "(('k \<times> nat) list \<Rightarrow> 'k \<Rightarrow> nat list) \<Rightarrow> 'k list \<Rightarrow> nat list \<Rightarrow> 'k list \<Rightarrow> nat list \<Rightarrow> (nat list \<times> nat list) option" where
  "equi_join_x86 er left left_idx right right_idx = do {
     m \<leftarrow> right_map right right_idx;
     for_each (\<lambda>i (left_out, right_out). do {
         k \<leftarrow> rd left i;
         for_each (\<lambda>v (left_out, right_out). do {
             l \<leftarrow> rd left_idx i;
             Some (left_out @ [l], right_out @ [v]) }) (er m k) (left_out, right_out) })
       [0..<length left] ([], []) }"

definition outer_equi_join_x86 ::
  "(('k \<times> nat) list \<Rightarrow> 'k \<Rightarrow> nat list) \<Rightarrow> 'k list \<Rightarrow> nat list \<Rightarrow> 'k list \<Rightarrow> nat list \<Rightarrow> ((nat list \<times> nat list) \<times> nat list) option" where
  "outer_equi_join_x86 er left left_idx right right_idx = do {
     m \<leftarrow> right_map right right_idx;
     for_each (\<lambda>i ((left_out, right_out), only_left). do {
         k \<leftarrow> rd left i;
         if er m k = [] then do { l \<leftarrow> rd left_idx i; Some ((left_out, right_out), only_left @ [l]) }
         else do {
           out \<leftarrow> for_each (\<lambda>v (left_out, right_out). do {
               l \<leftarrow> rd left_idx i;
               Some (left_out @ [l], right_out @ [v]) }) (er m k) (left_out, right_out);
           Some (out, only_left) } })
       [0..<length left] (([], []), []) }"

text \<open>For star joins: \<open>right_idx_out\<close> keeps its old cells where a key is missed.\<close>

definition resize :: "nat \<Rightarrow> nat list \<Rightarrow> nat list" where
  "resize n xs = take n xs @ replicate (n - length xs) 0"

definition unique_equi_join2_x86 ::
  "'k list \<Rightarrow> 'k list \<Rightarrow> nat list \<Rightarrow> nat list \<Rightarrow> (string + nat list \<times> nat list) option" where
  "unique_equi_join2_x86 left right right_idx right_idx_out = do {
     m \<leftarrow> for_each (\<lambda>i m. case m of Inl e \<Rightarrow> Some (Inl e) | Inr m \<Rightarrow> do {
         k \<leftarrow> rd right i;
         if m k = None then do { v \<leftarrow> rd right_idx i; Some (Inr (m(k \<mapsto> v))) }
         else Some (Inl ''star_join: right column is not unique'') })
       [0..<length right] (Inr Map.empty);
     case m of Inl e \<Rightarrow> Some (Inl e) | Inr m \<Rightarrow> do {
       (out, missed) \<leftarrow> for_each (\<lambda>i (out, missed). do {
           k \<leftarrow> rd left i;
           case m k of None \<Rightarrow> Some (out, missed @ [i]) | Some v \<Rightarrow> do { out \<leftarrow> wr out i v; Some (out, missed) } })
         [0..<length left] (resize (length left) right_idx_out, []);
       Some (Inr (out, missed)) } }"

subsection \<open>Vector build: the merge join in lanes\<close>

definition join_vlen :: nat where "join_vlen = 256"

text \<open>The registers of a lane; \<open>jl_next\<close> is \<open>leftelm_next\<close>, which a lane that was never valid has not loaded.\<close>

record 'k join_lane =
  jl_valid :: bool
  jl_left :: nat
  jl_right :: nat
  jl_stop :: nat
  jl_out :: nat
  jl_sep :: nat
  jl_next :: "'k option"

text \<open>The arrays that the lanes read: both columns of keys and row numbers, and the runs of the right keys.\<close>

record 'k join_in =
  ji_lp :: "'k list"
  ji_lvp :: "nat list"
  ji_rp :: "'k list"
  ji_rvp :: "nat list"
  ji_sepp :: "nat list"
  ji_right_size :: nat

definition join_step ::
  "'k::linorder \<Rightarrow> 'k join_in \<Rightarrow> 'k join_lane \<Rightarrow> nat list \<times> nat list \<Rightarrow> ((nat list \<times> nat list) \<times> 'k join_lane) option" where
  "join_step rightmax inp a = (\<lambda>(lvop, rvop).
     if jl_valid a then do {
       leftelm \<leftarrow> jl_next a;
       rightelm \<leftarrow> (if jl_right a = ji_right_size inp then Some rightmax else rd (ji_rp inp) (jl_right a));
       if leftelm = rightelm then do {
         lv \<leftarrow> rd (ji_lvp inp) (jl_left a);
         lvop \<leftarrow> wr lvop (jl_out a) lv;
         rv \<leftarrow> rd (ji_rvp inp) (jl_right a);
         rvop \<leftarrow> wr rvop (jl_out a) rv;
         Some ((lvop, rvop), a\<lparr>jl_out := jl_out a + 1, jl_right := jl_right a + 1\<rparr>) }
       else if leftelm > rightelm then do {
         r \<leftarrow> rd (ji_sepp inp) (jl_sep a + 1);
         Some ((lvop, rvop), a\<lparr>jl_sep := jl_sep a + 1, jl_right := r\<rparr>) }
       else if jl_left a + 1 = jl_stop a then Some ((lvop, rvop), a\<lparr>jl_left := jl_left a + 1, jl_valid := False\<rparr>)
       else do {
         nxt \<leftarrow> rd (ji_lp inp) (jl_left a + 1);
         if leftelm = nxt then do {
           r \<leftarrow> rd (ji_sepp inp) (jl_sep a);
           Some ((lvop, rvop), a\<lparr>jl_left := jl_left a + 1, jl_next := Some nxt, jl_right := r\<rparr>) }
         else Some ((lvop, rvop), a\<lparr>jl_left := jl_left a + 1, jl_next := Some nxt\<rparr>) } }
     else Some ((lvop, rvop), a))"

text \<open>One round steps every lane once; the first round is done in any case.\<close>

definition lanes_round ::
  "('l \<Rightarrow> 'o \<Rightarrow> ('o \<times> 'l) option) \<Rightarrow> 'o \<times> 'l list \<Rightarrow> ('o \<times> 'l list) option" where
  "lanes_round step st = for_each (\<lambda>j (out, lanes). do {
     a \<leftarrow> rd lanes j;
     (out, a) \<leftarrow> step a out;
     lanes \<leftarrow> wr lanes j a;
     Some (out, lanes) }) [0..<length (snd st)] st"

definition load_next :: "'k join_in \<Rightarrow> 'k join_lane \<Rightarrow> 'k join_lane option" where
  "load_next inp a = (if jl_valid a then do { k \<leftarrow> rd (ji_lp inp) (jl_left a); Some (a\<lparr>jl_next := Some k\<rparr>) } else Some a)"

definition multi_equi_join_vreg ::
  "'k::linorder \<Rightarrow> 'k join_in \<Rightarrow> 'k join_lane list \<Rightarrow> nat list \<times> nat list \<Rightarrow> ((nat list \<times> nat list) \<times> nat list) option" where
  "multi_equi_join_vreg rightmax inp lanes out = do {
     lanes \<leftarrow> omap (load_next inp) lanes;
     st \<leftarrow> lanes_round (join_step rightmax inp) (out, lanes);
     (out, lanes) \<leftarrow> cwhile (\<lambda>(_, lanes). list_ex jl_valid lanes) (lanes_round (join_step rightmax inp)) st;
     Some (out, map jl_out lanes) }"

text \<open>\<open>std::lower_bound\<close> on an ascending vector.\<close>

definition std_lower_bound :: "'k::linorder list \<Rightarrow> 'k \<Rightarrow> nat" where
  "std_lower_bound xs x = length (takeWhile (\<lambda>y. y < x) xs)"

definition join_each :: "nat \<Rightarrow> nat \<Rightarrow> nat" where
  "join_each V left_size = (let each = ceil_div left_size V in if each mod 2 = 0 then each + 1 else each)"

text \<open>The length of the longest run of equal right keys.\<close>

definition longest_run :: "nat list \<Rightarrow> nat option" where
  "longest_run sep = (if sep = [] then None else do {
     sepdiff \<leftarrow> omap (\<lambda>i. do { b \<leftarrow> rd sep (i + 1); a \<leftarrow> rd sep i; Some (b - a) }) [0..<length sep - 1];
     for_each (\<lambda>d m. Some (if m < d then d else m)) sepdiff 0 })"

text \<open>Lane \<open>i\<close> starts at \<open>pos = each * i\<close>, at the first right key that is not smaller, and at its run.\<close>

definition join_lane_start ::
  "nat list \<Rightarrow> 'k::linorder list \<Rightarrow> 'k list \<Rightarrow> nat \<Rightarrow> nat \<Rightarrow> (bool \<times> nat \<times> nat \<times> nat) option" where
  "join_lane_start sep left right each i = (let pos = each * i; right_size = length right in
     if pos < length left then do {
       x \<leftarrow> rd left pos;
       let r = std_lower_bound right x;
       Some (if r < right_size then (True, pos, r, std_lower_bound sep r)
             else (False, pos, right_size, length sep)) }
     else Some (False, length left, right_size, length sep))"

definition join_out_starts :: "nat list \<Rightarrow> nat \<Rightarrow> nat list option" where
  "join_out_starts left_idx mx = for_each (\<lambda>i out_idx. do {
     a \<leftarrow> rd left_idx i;
     b \<leftarrow> rd left_idx (i - 1);
     p \<leftarrow> rd out_idx (i - 1);
     wr out_idx i ((a - b) * mx + p) }) [1..<length left_idx] (replicate (length left_idx) 0)"

definition join_stops :: "nat list \<Rightarrow> nat \<Rightarrow> nat list option" where
  "join_stops left_idx left_size = omap (\<lambda>i. if i + 1 < length left_idx then rd left_idx (i + 1) else Some left_size)
     [0..<length left_idx]"

definition join_collect ::
  "nat list \<times> nat list \<Rightarrow> nat list \<Rightarrow> nat list \<Rightarrow> (nat list \<times> nat list) option" where
  "join_collect out out_idx_save out_idx = do {
     sizes \<leftarrow> omap (\<lambda>i. do { p \<leftarrow> rd out_idx i; s \<leftarrow> rd out_idx_save i; Some (p - s) }) [0..<length out_idx];
     let total = sum_list sizes;
     (_, leftret, rightret) \<leftarrow> for_each (\<lambda>i (current, leftret, rightret). do {
         n \<leftarrow> rd sizes i;
         pos \<leftarrow> rd out_idx_save i;
         leftret \<leftarrow> copy_cells (fst out) pos leftret current n;
         rightret \<leftarrow> copy_cells (snd out) pos rightret current n;
         Some (current + n, leftret, rightret) }) [0..<length out_idx] (0, replicate total 0, replicate total 0);
     Some (leftret, rightret) }"

definition multi_equi_join ::
  "nat \<Rightarrow> 'k::linorder \<Rightarrow> nat list \<Rightarrow> 'k list \<Rightarrow> nat list \<Rightarrow> 'k list \<Rightarrow> nat list \<Rightarrow> (string + nat list \<times> nat list) option" where
  "multi_equi_join V rightmax sep left left_val right right_val =
     (if length left \<noteq> length left_val \<or> length right \<noteq> length right_val
      then Some (Inl ''sizes of key and value are not the same'')
      else do {
        let each = join_each V (length left);
        mx \<leftarrow> longest_run sep;
        starts \<leftarrow> omap (join_lane_start sep left right each) [0..<V];
        let left_idx = map (\<lambda>(_, l, _). l) starts;
        out_idx \<leftarrow> join_out_starts left_idx mx;
        stops \<leftarrow> join_stops left_idx (length left);
        let lanes = map (\<lambda>((v, l, r, s), stop, p). \<lparr>jl_valid = v, jl_left = l, jl_right = r, jl_stop = stop,
          jl_out = p, jl_sep = s, jl_next = None\<rparr>) (zip starts (zip stops out_idx));
        let inp = \<lparr>ji_lp = left, ji_lvp = left_val, ji_rp = right, ji_rvp = right_val, ji_sepp = sep,
          ji_right_size = length right\<rparr>;
        let tmp = replicate (length left * mx) 0;
        (out, ends) \<leftarrow> multi_equi_join_vreg rightmax inp lanes (tmp, tmp);
        ret \<leftarrow> join_collect out out_idx ends;
        Some (Inr ret) })"

subsection \<open>Vector build: the joins\<close>

definition key_max :: "bool \<Rightarrow> 'w::len itself \<Rightarrow> int" where
  "key_max sg w = (if sg then 2 ^ (LENGTH('w) - 1) - 1 else 2 ^ LENGTH('w) - 1)"

text \<open>The build's set_difference; \<open>spare\<close> as in \<open>hash_cfg_ve\<close>.\<close>

definition set_difference_ve :: "nat \<Rightarrow> nat list \<Rightarrow> nat list \<Rightarrow> nat list option" where
  "set_difference_ve spare l r = set_difference_sx set_vlen (l @ [spare]) (length l) r"

definition unique_equi_join2_ve ::
  "nat \<Rightarrow> bool \<Rightarrow> 'w::len word list \<Rightarrow> 'w word list \<Rightarrow> nat list \<Rightarrow> (string + nat list \<times> nat list) option" where
  "unique_equi_join2_ve spare sg left right right_idx = do {
     r \<leftarrow> hashtable_new_unique (hash_cfg_ve spare) sg right right_idx;
     case r of Inl e \<Rightarrow> Some (Inl e)
     | Inr (ht, is_unique_ok) \<Rightarrow>
        if \<not> is_unique_ok then Some (Inl ''star_join: right column is not unique'')
        else do { res \<leftarrow> hashtable_lookup_miss (hash_cfg_ve spare) sg ht left; Some (Inr res) } }"

text \<open>Both sides sorted and merged; the sorted columns are returned too.\<close>

definition merge_join_ve ::
  "bool \<Rightarrow> 'w::len word list \<Rightarrow> nat list \<Rightarrow> 'w word list \<Rightarrow> nat list \<Rightarrow>
   (string + (nat list \<times> nat list) \<times> nat list) option" where
  "merge_join_ve sg left left_idx right right_idx = do {
     r \<leftarrow> radix_sort_vec radix_cfg_ve sg right right_idx False;
     case r of Inl e \<Rightarrow> Some (Inl e) | Inr (right, right_idx) \<Rightarrow> do {
       sep \<leftarrow> set_separate_sx set_vlen_each right (length right);
       l \<leftarrow> radix_sort_vec radix_cfg_ve sg left left_idx False;
       case l of Inl e \<Rightarrow> Some (Inl e) | Inr (left, left_idx) \<Rightarrow> do {
         res \<leftarrow> multi_equi_join join_vlen (key_max sg TYPE('w)) sep (map (key_val sg) left) left_idx
                  (map (key_val sg) right) right_idx;
         case res of Inl e \<Rightarrow> Some (Inl e) | Inr out \<Rightarrow> Some (Inr (out, left_idx)) } } }"

definition equi_join_ve ::
  "nat \<Rightarrow> bool \<Rightarrow> 'w::len word list \<Rightarrow> nat list \<Rightarrow> 'w word list \<Rightarrow> nat list \<Rightarrow> (string + nat list \<times> nat list) option" where
  "equi_join_ve spare sg left left_idx right right_idx = do {
     r \<leftarrow> hashtable_new_unique (hash_cfg_ve spare) sg right right_idx;
     case r of Inl e \<Rightarrow> Some (Inl e)
     | Inr (ht, is_unique_ok) \<Rightarrow>
        if is_unique_ok then do {
          (looked_up, missed) \<leftarrow> hashtable_lookup_miss (hash_cfg_ve spare) sg ht left;
          left_idx_out \<leftarrow> shrink_missed (set_difference_ve spare) left_idx missed;
          right_idx_out \<leftarrow> shrink_missed (set_difference_ve spare) looked_up missed;
          Some (Inr (left_idx_out, right_idx_out)) }
        else do {
          res \<leftarrow> merge_join_ve sg left left_idx right right_idx;
          case res of Inl e \<Rightarrow> Some (Inl e) | Inr (out, _) \<Rightarrow> Some (Inr out) } }"

text \<open>
  The outer join also returns the row numbers of the left rows without partner; after a merge join they
  are found by testing the (sorted) left row numbers against those of the result.
\<close>

definition outer_equi_join_ve ::
  "nat \<Rightarrow> bool \<Rightarrow> 'w::len word list \<Rightarrow> nat list \<Rightarrow> 'w word list \<Rightarrow> nat list \<Rightarrow>
   (string + (nat list \<times> nat list) \<times> nat list) option" where
  "outer_equi_join_ve spare sg left left_idx right right_idx = do {
     r \<leftarrow> hashtable_new_unique (hash_cfg_ve spare) sg right right_idx;
     case r of Inl e \<Rightarrow> Some (Inl e)
     | Inr (ht, is_unique_ok) \<Rightarrow>
        if is_unique_ok then do {
          (looked_up, missed) \<leftarrow> hashtable_lookup_miss (hash_cfg_ve spare) sg ht left;
          left_idx_out \<leftarrow> shrink_missed (set_difference_ve spare) left_idx missed;
          right_idx_out \<leftarrow> shrink_missed (set_difference_ve spare) looked_up missed;
          ret \<leftarrow> omap (rd left_idx) missed;
          Some (Inr ((left_idx_out, right_idx_out), ret)) }
        else do {
          res \<leftarrow> merge_join_ve sg left left_idx right right_idx;
          case res of Inl e \<Rightarrow> Some (Inl e) | Inr (out, left_idx) \<Rightarrow> do {
            idxhash \<leftarrow> hashtable_new (hash_cfg_ve spare) False (map of_nat (fst out) :: 64 word list)
              (replicate (length (fst out)) (0 :: int));
            case idxhash of Inl e \<Rightarrow> Some (Inl e) | Inr idxhash \<Rightarrow> do {
              idx_exist \<leftarrow> hashtable_check_existence (hash_cfg_ve spare) False idxhash (map of_nat left_idx);
              only_left_idx \<leftarrow> vector_find_eq find_condition_cfg_ve 4 idx_exist 0;
              onlyleft \<leftarrow> omap (rd left_idx) only_left_idx;
              Some (Inr (out, onlyleft)) } } } }"

subsection \<open>The joins by inequality\<close>

text \<open>
  Row \<open>i\<close> of the left column is paired with a part of the sorted right column that its bound delimits:
  \<open>part right_size sep\<close> is the start and the length of that part.
\<close>

definition range_join ::
  "(nat \<Rightarrow> nat \<Rightarrow> nat \<times> nat) \<Rightarrow> (int list \<Rightarrow> int list \<Rightarrow> nat list option) \<Rightarrow> radix_cfg \<Rightarrow> bool \<Rightarrow>
   'w::len word list \<Rightarrow> nat list \<Rightarrow> 'w word list \<Rightarrow> nat list \<Rightarrow> (string + nat list \<times> nat list) option" where
  "range_join part bound c sg left left_idx right right_idx = do {
     r \<leftarrow> radix_sort_vec c sg right right_idx False;
     case r of Inl e \<Rightarrow> Some (Inl e) | Inr (right, right_idx) \<Rightarrow> do {
       sep \<leftarrow> bound (map (key_val sg) right) (map (key_val sg) left);
       let sizes = map (\<lambda>s. snd (part (length right) s)) sep;
       let total = sum_list sizes;
       (_, left_out, right_out) \<leftarrow> for_each (\<lambda>i (crnt, left_out, right_out). do {
           s \<leftarrow> rd sep i;
           let (start, n) = part (length right) s;
           left_out \<leftarrow> for_each (\<lambda>j left_out. do { l \<leftarrow> rd left_idx i; wr left_out (crnt + j) l }) [0..<n] left_out;
           right_out \<leftarrow> copy_cells right_idx start right_out crnt n;
           Some (crnt + n, left_out, right_out) })
         [0..<length left] (0, replicate total 0, replicate total 0);
       Some (Inr (left_out, right_out)) } }"

definition lt_join where
  "lt_join V = range_join (\<lambda>right_size s. (s, right_size - s)) (upper_bound_vec V)"

definition le_join where
  "le_join V = range_join (\<lambda>right_size s. (s, right_size - s)) (lower_bound_vec V)"

definition gt_join where
  "gt_join V = range_join (\<lambda>right_size s. (0, s)) (lower_bound_vec V)"

definition ge_join where
  "ge_join V = range_join (\<lambda>right_size s. (0, s)) (upper_bound_vec V)"

end
