(* ===== verification/JoinLanes.thy ===== *)
theory JoinLanes
  imports Join
begin

text \<open>
  The merge join in lanes.  Locale \<open>lane_rounds\<close> is the contract of a lane: a step of a live lane keeps
  what is known of it, disturbs no other lane and comes nearer to its end; then the rounds end and every
  lane has kept its invariant.  The invariant of a lane of \<open>multi_equi_join_vreg\<close> says which pairs it has
  written, so that at the end the regions of the output hold the join of the parts of the left column.
\<close>

subsection \<open>Lanes in rounds\<close>

locale lane_rounds =
  fixes step :: "'l \<Rightarrow> 'o \<Rightarrow> ('o \<times> 'l) option" and live :: "'l \<Rightarrow> bool" and todo :: "'l \<Rightarrow> nat"
    and J :: "nat \<Rightarrow> 'o \<Rightarrow> 'l \<Rightarrow> bool" and n :: nat
  assumes idle: "\<not> live a \<Longrightarrow> step a out = Some (out, a)"
    and work: "j < n \<Longrightarrow> J j out a \<Longrightarrow> live a \<Longrightarrow> ok (step a out) (\<lambda>(out', a'). J j out' a' \<and> todo a' < todo a \<and>
      (\<forall>k<n. k \<noteq> j \<longrightarrow> (\<forall>b. J k out b \<longrightarrow> J k out' b)))"
begin

definition lanes_inv :: "'o \<times> 'l list \<Rightarrow> bool" where
  "lanes_inv st \<longleftrightarrow> length (snd st) = n \<and> (\<forall>j<n. J j (fst st) (snd st ! j))"

definition todos :: "'l list \<Rightarrow> nat" where "todos lanes = sum_list (map todo lanes)"

lemma round_ok:
  assumes "lanes_inv st"
  shows "ok (lanes_round step st) (\<lambda>st'. lanes_inv st' \<and> todos (snd st') \<le> todos (snd st) \<and>
    (list_ex live (snd st) \<longrightarrow> todos (snd st') < todos (snd st)))"
proof -
  let ?ls = "snd st"
  let ?I = "\<lambda>i (out, lanes). lanes_inv (out, lanes) \<and> (\<forall>j. i \<le> j \<and> j < n \<longrightarrow> lanes ! j = ?ls ! j) \<and>
    todos lanes \<le> todos ?ls \<and> ((\<exists>j<i. live (?ls ! j)) \<longrightarrow> todos lanes < todos ?ls)"
  have len: "length ?ls = n" using assms by (simp add: lanes_inv_def)
  have "ok (lanes_round step st) (?I n)"
    unfolding lanes_round_def len
  proof (rule ok_for_range [where I = ?I])
    show "?I 0 st" using assms by (cases st) simp
  next
    fix i s assume i: "0 \<le> i" "i < n" and I: "?I i s"
    obtain out lanes where s: "s = (out, lanes)" by (cases s)
    have l: "length lanes = n" using I by (simp add: s lanes_inv_def)
    have J: "J k out (lanes ! k)" if "k < n" for k using I that by (auto simp: s lanes_inv_def)
    have a: "lanes ! i = ?ls ! i" using I i by (simp add: s)
    have less: "(\<exists>j<Suc i. live (?ls ! j)) \<longleftrightarrow> (\<exists>j<i. live (?ls ! j)) \<or> live (?ls ! i)" by (auto simp: less_Suc_eq)
    show "ok (case s of (out, lanes) \<Rightarrow> do { a \<leftarrow> rd lanes i; (out, a) \<leftarrow> step a out; lanes \<leftarrow> wr lanes i a; Some (out, lanes) }) (?I (Suc i))"
    proof (cases "live (lanes ! i)")
      case False
      moreover have "lanes[i := ?ls ! i] = lanes" using a by (metis list_update_id)
      ultimately show ?thesis using I i l a less idle [OF False, of out] by (simp add: s)
    next
      case True
      obtain out' a' where st: "step (lanes ! i) out = Some (out', a')" and J': "J i out' a'" "todo a' < todo (lanes ! i)"
        "\<And>k b. k < n \<Longrightarrow> k \<noteq> i \<Longrightarrow> J k out b \<Longrightarrow> J k out' b"
        using work [OF i(2) J [OF i(2)] True] by (auto simp: ok_iff_ex)
      have "lanes_inv (out', lanes[i := a'])" using l i J J' by (auto simp: lanes_inv_def nth_list_update)
      moreover have "todos (lanes[i := a']) < todos lanes"
        using l i J'(2) elem_le_sum_list [of i "map todo lanes"]
        by (simp add: todos_def map_update sum_list_update)
      ultimately show ?thesis using I i l st by (auto simp: s)
    qed
  qed simp
  moreover have "list_ex live ?ls \<longleftrightarrow> (\<exists>j<n. live (?ls ! j))" using len by (simp add: list_ex_length)
  ultimately show ?thesis by (elim ok_mono) auto
qed

lemma rounds_ok:
  assumes "lanes_inv st"
  shows "ok (do { st \<leftarrow> lanes_round step st; cwhile (\<lambda>(_, lanes). list_ex live lanes) (lanes_round step) st })
    (\<lambda>st'. lanes_inv st' \<and> (\<forall>a\<in>set (snd st'). \<not> live a))"
  unfolding ok_bind
proof (rule ok_mono [OF round_ok [OF assms]], elim conjE)
  fix st assume "lanes_inv st"
  then show "ok (cwhile (\<lambda>(_, lanes). list_ex live lanes) (lanes_round step) st)
      (\<lambda>st'. lanes_inv st' \<and> (\<forall>a\<in>set (snd st'). \<not> live a))"
  proof (rule ok_while [where m = "\<lambda>st. todos (snd st)"])
    fix s assume "lanes_inv s" "case s of (_, lanes) \<Rightarrow> list_ex live lanes"
    then show "ok (lanes_round step s) (\<lambda>s'. lanes_inv s' \<and> todos (snd s') < todos (snd s))"
      using round_ok [of s] by (auto simp: ok_iff_ex case_prod_beta)
  qed (auto simp: list_ex_iff)
qed

end

subsection \<open>Runs of a sorted column\<close>

definition lo :: "'k::linorder list \<Rightarrow> 'k \<Rightarrow> nat" where "lo R x = length (filter (\<lambda>y. y < x) R)"
definition hi :: "'k::linorder list \<Rightarrow> 'k \<Rightarrow> nat" where "hi R x = length (filter (\<lambda>y. y \<le> x) R)"

lemma std_lower_bound_eq: "sorted R \<Longrightarrow> std_lower_bound R x = lo R x"
  unfolding std_lower_bound_def lo_def by (subst sorted_takeWhile_filter [where ord = "(\<le>)"]) auto

lemma nth_filter_prefix:
  assumes "sorted R" "\<And>y z. y \<le> z \<Longrightarrow> P z \<Longrightarrow> P y" "i < length R"
  shows "P (R ! i) \<longleftrightarrow> i < length (filter P R)"
proof -
  have f: "filter P R = takeWhile P R"
    by (rule sorted_takeWhile_filter [symmetric, OF assms(1)]) (use assms(2) in blast)
  show ?thesis
  proof
    assume "P (R ! i)"
    then have "P (R ! j)" if "j \<le> i" for j using assms sorted_nth_mono [OF assms(1) that assms(3)] by blast
    then show "i < length (filter P R)" using assms(3) unfolding f
      by (metis length_takeWhile_le nth_length_takeWhile le_less_trans linorder_not_le order_le_imp_less_or_eq)
  next
    assume "i < length (filter P R)"
    then show "P (R ! i)" unfolding f by (metis nth_mem set_takeWhileD takeWhile_nth)
  qed
qed

lemma nth_lo: "sorted R \<Longrightarrow> i < length R \<Longrightarrow> R ! i < x \<longleftrightarrow> i < lo R x"
  unfolding lo_def by (rule nth_filter_prefix) auto

lemma nth_hi: "sorted R \<Longrightarrow> i < length R \<Longrightarrow> R ! i \<le> x \<longleftrightarrow> i < hi R x"
  unfolding hi_def by (rule nth_filter_prefix) auto

lemma lo_hi: "lo R x \<le> hi R x" "hi R x \<le> length R" "x < x' \<Longrightarrow> hi R x \<le> lo R x'"
proof -
  have sub: "length (filter P R) \<le> length (filter Q R)" if "\<And>y. P y \<Longrightarrow> Q y" for P Q
    using that by (induction R) auto
  show "lo R x \<le> hi R x" "hi R x \<le> length R" "x < x' \<Longrightarrow> hi R x \<le> lo R x'"
    unfolding lo_def hi_def by (auto intro!: sub)
qed

subsection \<open>The pairs of a part of the left column\<close>

definition matches :: "'k::linorder join_in \<Rightarrow> nat \<Rightarrow> nat \<Rightarrow> (nat \<times> nat) list" where
  "matches inp i stop = map (\<lambda>r. (ji_lvp inp ! i, ji_rvp inp ! r)) [lo (ji_rp inp) (ji_lp inp ! i)..<stop]"

definition joined :: "'k::linorder join_in \<Rightarrow> nat \<Rightarrow> nat \<Rightarrow> (nat \<times> nat) list" where
  "joined inp a b = concat (map (\<lambda>i. matches inp i (hi (ji_rp inp) (ji_lp inp ! i))) [a..<b])"

text \<open>What the merge join relies on; \<open>mx\<close> bounds the runs of the right keys.\<close>

definition join_in_ok :: "'k::linorder \<Rightarrow> 'k join_in \<Rightarrow> nat \<Rightarrow> bool" where
  "join_in_ok rightmax inp mx \<longleftrightarrow> sorted (ji_lp inp) \<and> sorted (ji_rp inp) \<and> length (ji_lvp inp) = length (ji_lp inp) \<and>
     length (ji_rvp inp) = length (ji_rp inp) \<and> ji_right_size inp = length (ji_rp inp) \<and>
     (\<forall>x\<in>set (ji_lp inp). x < rightmax) \<and> sorted_wrt (<) (ji_sepp inp) \<and>
     (\<forall>x. lo (ji_rp inp) x \<in> set (ji_sepp inp) \<and> hi (ji_rp inp) x - lo (ji_rp inp) x \<le> mx)"

lemma length_joined:
  assumes "join_in_ok rightmax inp mx" "a \<le> b"
  shows "length (joined inp a b) \<le> (b - a) * mx"
proof -
  have "length (joined inp a b) = (\<Sum>i\<leftarrow>[a..<b]. hi (ji_rp inp) (ji_lp inp ! i) - lo (ji_rp inp) (ji_lp inp ! i))"
    by (simp add: joined_def length_concat matches_def comp_def)
  also have "\<dots> \<le> (\<Sum>i\<leftarrow>[a..<b]. mx)" using assms(1) by (intro sum_list_mono) (simp add: join_in_ok_def)
  finally show ?thesis by (simp add: sum_list_triv)
qed

lemma joined_Suc: "a \<le> b \<Longrightarrow> joined inp a (Suc b) = joined inp a b @ matches inp b (hi (ji_rp inp) (ji_lp inp ! b))"
  by (simp add: joined_def)

lemma matches_Suc: "lo (ji_rp inp) (ji_lp inp ! i) \<le> r \<Longrightarrow> matches inp i (Suc r) = matches inp i r @ [(ji_lvp inp ! i, ji_rvp inp ! r)]"
  by (simp add: matches_def)

text \<open>\<open>at arr s xs\<close>: the cells from \<open>s\<close> hold \<open>xs\<close>.\<close>

definition at :: "nat list \<Rightarrow> nat \<Rightarrow> nat list \<Rightarrow> bool" where
  "at arr s xs \<longleftrightarrow> s + length xs \<le> length arr \<and> take (length xs) (drop s arr) = xs"

lemma at_write: "at arr s xs \<Longrightarrow> s + length xs < length arr \<Longrightarrow> at (arr[s + length xs := x]) s (xs @ [x])"
  by (auto simp: at_def drop_update_swap take_Suc_conv_app_nth)

lemma at_elsewhere: "at arr s xs \<Longrightarrow> p < s \<or> s + length xs \<le> p \<Longrightarrow> at (arr[p := x]) s xs"
  by (auto simp: at_def take_update_swap drop_update_swap list_update_beyond drop_update_cancel)

subsection \<open>The invariant of a lane\<close>

text \<open>Lane \<open>j\<close> has the left rows from \<open>fst (spans ! j)\<close> to \<open>snd (spans ! j)\<close>; the parts are disjoint.\<close>

definition spans_ok :: "(nat \<times> nat) list \<Rightarrow> bool" where
  "spans_ok spans \<longleftrightarrow> (\<forall>j<length spans. \<forall>k<length spans. j \<noteq> k \<longrightarrow>
     snd (spans ! j) \<le> fst (spans ! k) \<or> snd (spans ! k) \<le> fst (spans ! j))"

definition done_so_far :: "'k::linorder join_in \<Rightarrow> nat \<Rightarrow> 'k join_lane \<Rightarrow> (nat \<times> nat) list" where
  "done_so_far inp b a = joined inp b (jl_left a) @ (if jl_valid a then matches inp (jl_left a) (jl_right a) else [])"

definition lane_pos_ok :: "'k::linorder join_in \<Rightarrow> nat \<Rightarrow> 'k join_lane \<Rightarrow> bool" where
  "lane_pos_ok inp e a \<longleftrightarrow> (if jl_valid a
     then jl_left a < e \<and> jl_next a = Some (ji_lp inp ! jl_left a) \<and> jl_sep a < length (ji_sepp inp) \<and>
       ji_sepp inp ! jl_sep a \<le> lo (ji_rp inp) (ji_lp inp ! jl_left a) \<and> ji_sepp inp ! jl_sep a \<le> jl_right a \<and>
       jl_right a \<le> hi (ji_rp inp) (ji_lp inp ! jl_left a)
     else jl_left a \<le> e \<and> joined inp (jl_left a) e = [])"

definition lane_out_ok :: "'k::linorder join_in \<Rightarrow> nat \<Rightarrow> nat \<Rightarrow> nat \<Rightarrow> nat list \<times> nat list \<Rightarrow> 'k join_lane \<Rightarrow> bool" where
  "lane_out_ok inp mx b e out a \<longleftrightarrow> (let D = done_so_far inp b a in
     e * mx \<le> length (fst out) \<and> e * mx \<le> length (snd out) \<and> jl_out a = b * mx + length D \<and>
     at (fst out) (b * mx) (map fst D) \<and> at (snd out) (b * mx) (map snd D))"

definition join_lane_ok ::
  "'k::linorder \<Rightarrow> 'k join_in \<Rightarrow> nat \<Rightarrow> (nat \<times> nat) list \<Rightarrow> nat \<Rightarrow> nat list \<times> nat list \<Rightarrow> 'k join_lane \<Rightarrow> bool" where
  "join_lane_ok rightmax inp mx spans j out a \<longleftrightarrow> (let (b, e) = spans ! j in
     join_in_ok rightmax inp mx \<and> spans_ok spans \<and> jl_stop a = e \<and> b \<le> jl_left a \<and> e \<le> length (ji_lp inp) \<and>
     lane_pos_ok inp e a \<and> lane_out_ok inp mx b e out a)"

definition join_todo :: "'k join_in \<Rightarrow> 'k join_lane \<Rightarrow> nat" where
  "join_todo inp a = ((jl_stop a - jl_left a) + (length (ji_sepp inp) - jl_sep a)) * (length (ji_rp inp) + 1) +
     (length (ji_rp inp) - jl_right a)"

text \<open>A lane never fills more than its region.\<close>

lemma done_bound:
  assumes "join_in_ok rightmax inp mx" "lane_pos_ok inp e a" "b \<le> jl_left a"
  shows "length (done_so_far inp b a) \<le> (e - b) * mx"
    and "jl_valid a \<Longrightarrow> jl_right a < hi (ji_rp inp) (ji_lp inp ! jl_left a) \<Longrightarrow>
      lo (ji_rp inp) (ji_lp inp ! jl_left a) \<le> jl_right a \<Longrightarrow> b * mx + length (done_so_far inp b a) < e * mx"
proof -
  let ?x = "ji_lp inp ! jl_left a"
  have le: "jl_left a \<le> e" using assms(2) by (auto simp: lane_pos_ok_def split: if_splits)
  have 1: "length (joined inp b (jl_left a)) \<le> (jl_left a - b) * mx" by (rule length_joined [OF assms(1,3)])
  have run: "hi (ji_rp inp) ?x - lo (ji_rp inp) ?x \<le> mx" using assms(1) by (simp add: join_in_ok_def)
  have e: "(jl_left a - b) * mx + mx \<le> (e - b) * mx" if "jl_left a < e"
  proof -
    have "Suc (jl_left a - b) * mx \<le> (e - b) * mx" using that assms(3) by (intro mult_le_mono1) simp
    then show ?thesis by simp
  qed
  have e0: "(jl_left a - b) * mx \<le> (e - b) * mx" using le by (intro mult_le_mono1) simp
  have len: "length (matches inp (jl_left a) (jl_right a)) = jl_right a - lo (ji_rp inp) ?x" by (simp add: matches_def)
  have v: "jl_left a < e \<and> jl_right a \<le> hi (ji_rp inp) ?x" if "jl_valid a" using that assms(2) by (simp add: lane_pos_ok_def)
  show "length (done_so_far inp b a) \<le> (e - b) * mx"
  proof (cases "jl_valid a")
    case True
    have "jl_right a - lo (ji_rp inp) ?x \<le> hi (ji_rp inp) ?x - lo (ji_rp inp) ?x" using v [OF True] by (simp add: diff_le_mono)
    then have "length (joined inp b (jl_left a)) + (jl_right a - lo (ji_rp inp) ?x) \<le> (e - b) * mx"
      using v [OF True] e 1 run by linarith
    then show ?thesis using True len by (simp add: done_so_far_def)
  next
    case False
    then show ?thesis using le_trans [OF 1 e0] by (simp add: done_so_far_def)
  qed
  show "b * mx + length (done_so_far inp b a) < e * mx"
    if "jl_valid a" "jl_right a < hi (ji_rp inp) ?x" "lo (ji_rp inp) ?x \<le> jl_right a"
  proof -
    have "jl_right a - lo (ji_rp inp) ?x < hi (ji_rp inp) ?x - lo (ji_rp inp) ?x" using that(2,3) by (simp add: diff_less_mono)
    then have "length (joined inp b (jl_left a)) + (jl_right a - lo (ji_rp inp) ?x) < (e - b) * mx"
      using v [OF that(1)] e 1 run by linarith
    then have "length (done_so_far inp b a) < (e - b) * mx" using that(1) len by (simp add: done_so_far_def)
    moreover have "b * mx + (e - b) * mx = e * mx" using le assms(3) by (simp add: algebra_simps flip: distrib_left)
    ultimately show ?thesis by linarith
  qed
qed

text \<open>A write inside one region leaves the other lanes as they are.\<close>

lemma join_lane_elsewhere:
  assumes b: "join_lane_ok rightmax inp mx spans k (lvop, rvop) b" and jk: "j < length spans" "k < length spans" "k \<noteq> j"
    and p: "fst (spans ! j) * mx \<le> p" "p < snd (spans ! j) * mx"
  shows "join_lane_ok rightmax inp mx spans k (lvop[p := x], rvop[p := y]) b"
proof -
  obtain s e where se: "spans ! k = (s, e)" by (cases "spans ! k")
  have ok: "join_in_ok rightmax inp mx" "lane_pos_ok inp e b" "s \<le> jl_left b" "lane_out_ok inp mx s e (lvop, rvop) b"
    "spans_ok spans" using b by (auto simp: join_lane_ok_def se)
  have apart: "snd (spans ! j) \<le> s \<or> e \<le> fst (spans ! j)"
    using ok(5) [unfolded spans_ok_def, rule_format, OF jk(1,2)] jk(3) se by simp
  let ?D = "done_so_far inp s b"
  have "s \<le> e" using ok(2,3) by (auto simp: lane_pos_ok_def split: if_splits)
  then have "s * mx + (e - s) * mx = e * mx" by (simp flip: distrib_right)
  then have D: "s * mx + length ?D \<le> e * mx" using done_bound(1) [OF ok(1-3)] by linarith
  have "snd (spans ! j) * mx \<le> s * mx \<or> e * mx \<le> fst (spans ! j) * mx" using apart by (auto intro: mult_le_mono1)
  then have "p < s * mx \<or> s * mx + length ?D \<le> p" using p D by linarith
  then show ?thesis using b by (auto simp: join_lane_ok_def se lane_out_ok_def Let_def intro!: at_elsewhere)
qed

lemma sep_next:
  assumes inp: "join_in_ok rightmax inp mx" and s: "s < length (ji_sepp inp)" "ji_sepp inp ! s < lo (ji_rp inp) x"
  shows "s + 1 < length (ji_sepp inp)" "ji_sepp inp ! (s + 1) \<le> lo (ji_rp inp) x" "ji_sepp inp ! s < ji_sepp inp ! (s + 1)"
proof -
  have sorted: "sorted_wrt (<) (ji_sepp inp)" using inp by (simp add: join_in_ok_def)
  have "lo (ji_rp inp) x \<in> set (ji_sepp inp)" using inp by (simp add: join_in_ok_def)
  then obtain t where t: "t < length (ji_sepp inp)" "ji_sepp inp ! t = lo (ji_rp inp) x" by (auto simp: in_set_conv_nth)
  have st: "s < t"
  proof (rule ccontr)
    assume "\<not> s < t"
    then have "ji_sepp inp ! t \<le> ji_sepp inp ! s"
      using sorted s(1) by (metis linorder_neqE_nat order.refl order_less_imp_le sorted_wrt_nth_less)
    then show False using s(2) t(2) by simp
  qed
  show "s + 1 < length (ji_sepp inp)" using st t(1) by simp
  then show "ji_sepp inp ! s < ji_sepp inp ! (s + 1)" using sorted by (simp add: sorted_wrt_nth_less)
  show "ji_sepp inp ! (s + 1) \<le> lo (ji_rp inp) x"
  proof (cases "s + 1 = t")
    case False
    then show ?thesis using st t sorted sorted_wrt_nth_less [of "(<)" "ji_sepp inp" "s + 1" t] by simp
  qed (use t in simp)
qed

lemma matches_empty: "stop \<le> lo (ji_rp inp) (ji_lp inp ! i) \<Longrightarrow> matches inp i stop = []"
  by (simp add: matches_def)

text \<open>The three branches of a step: a pair is written, the run is skipped, or the next left row is taken.\<close>

lemma emit_ok:
  assumes a: "join_lane_ok rightmax inp mx spans j (lvop, rvop) a" and j: "j < length spans" and v: "jl_valid a"
    and r: "jl_right a < length (ji_rp inp)" and eq: "ji_rp inp ! jl_right a = ji_lp inp ! jl_left a"
  defines "lvop' \<equiv> lvop[jl_out a := ji_lvp inp ! jl_left a]" and "rvop' \<equiv> rvop[jl_out a := ji_rvp inp ! jl_right a]"
  shows "jl_out a < length lvop" "jl_out a < length rvop"
    and "join_lane_ok rightmax inp mx spans j (lvop', rvop') (a\<lparr>jl_out := jl_out a + 1, jl_right := jl_right a + 1\<rparr>)"
    and "k < length spans \<Longrightarrow> k \<noteq> j \<Longrightarrow> join_lane_ok rightmax inp mx spans k (lvop, rvop) b \<Longrightarrow>
      join_lane_ok rightmax inp mx spans k (lvop', rvop') b"
proof -
  obtain s e where se: "spans ! j = (s, e)" by (cases "spans ! j")
  have ok: "join_in_ok rightmax inp mx" "lane_pos_ok inp e a" "s \<le> jl_left a" "lane_out_ok inp mx s e (lvop, rvop) a"
    using a by (auto simp: join_lane_ok_def se)
  let ?x = "ji_lp inp ! jl_left a" and ?D = "done_so_far inp s a"
  have R: "sorted (ji_rp inp)" using ok(1) by (simp add: join_in_ok_def)
  have run: "lo (ji_rp inp) ?x \<le> jl_right a" "jl_right a < hi (ji_rp inp) ?x"
    using nth_lo [OF R r, of ?x] nth_hi [OF R r, of ?x] eq by auto
  have out: "jl_out a = s * mx + length ?D" "at lvop (s * mx) (map fst ?D)" "at rvop (s * mx) (map snd ?D)"
    "e * mx \<le> length lvop" "e * mx \<le> length rvop"
    using ok(4) by (auto simp: lane_out_ok_def Let_def)
  have lt: "s * mx + length ?D < e * mx" by (rule done_bound(2) [OF ok(1-3) v run(2,1)])
  then show "jl_out a < length lvop" "jl_out a < length rvop" using out by simp_all
  define a' where "a' = a\<lparr>jl_out := jl_out a + 1, jl_right := jl_right a + 1\<rparr>"
  have D': "done_so_far inp s a' = ?D @ [(ji_lvp inp ! jl_left a, ji_rvp inp ! jl_right a)]"
    using v run by (simp add: done_so_far_def matches_Suc a'_def)
  have a': "jl_out a' = jl_out a + 1" by (simp add: a'_def)
  have "lane_out_ok inp mx s e (lvop', rvop') a'"
    using out lt at_write [OF out(2)] at_write [OF out(3)] a' by (simp add: lane_out_ok_def Let_def D' lvop'_def rvop'_def)
  moreover have "lane_pos_ok inp e a'" using ok(2) v run by (simp add: lane_pos_ok_def a'_def)
  ultimately show "join_lane_ok rightmax inp mx spans j (lvop', rvop') (a\<lparr>jl_out := jl_out a + 1, jl_right := jl_right a + 1\<rparr>)"
    using a by (simp add: join_lane_ok_def se a'_def)
  show "join_lane_ok rightmax inp mx spans k (lvop', rvop') b"
    if "k < length spans" "k \<noteq> j" "join_lane_ok rightmax inp mx spans k (lvop, rvop) b"
    unfolding lvop'_def rvop'_def
    by (rule join_lane_elsewhere [OF that(3) j that(1,2)]) (use lt out(1) in \<open>simp_all add: se\<close>)
qed

lemma skip_ok:
  assumes a: "join_lane_ok rightmax inp mx spans j out a" and v: "jl_valid a"
    and r: "jl_right a < length (ji_rp inp)" and gr: "ji_lp inp ! jl_left a > ji_rp inp ! jl_right a"
  defines "a' \<equiv> a\<lparr>jl_sep := jl_sep a + 1, jl_right := ji_sepp inp ! (jl_sep a + 1)\<rparr>"
  shows "jl_sep a + 1 < length (ji_sepp inp)" "join_lane_ok rightmax inp mx spans j out a'"
proof -
  obtain s e where se: "spans ! j = (s, e)" by (cases "spans ! j")
  have ok: "join_in_ok rightmax inp mx" "lane_pos_ok inp e a" "lane_out_ok inp mx s e out a"
    using a by (auto simp: join_lane_ok_def se)
  let ?x = "ji_lp inp ! jl_left a"
  have "sorted (ji_rp inp)" using ok(1) by (simp add: join_in_ok_def)
  then have lt: "jl_right a < lo (ji_rp inp) ?x" using nth_lo r gr by blast
  have pos: "jl_sep a < length (ji_sepp inp)" "ji_sepp inp ! jl_sep a < lo (ji_rp inp) ?x"
    using ok(2) v lt by (auto simp: lane_pos_ok_def)
  note nxt = sep_next [OF ok(1) pos]
  show "jl_sep a + 1 < length (ji_sepp inp)" by (rule nxt(1))
  have "done_so_far inp s a' = done_so_far inp s a" using lt nxt(2) by (simp add: done_so_far_def a'_def matches_empty)
  then have "lane_out_ok inp mx s e out a'" using ok(3) by (simp add: lane_out_ok_def a'_def)
  moreover have "lane_pos_ok inp e a'"
    using ok(2) v nxt lo_hi(1) [of "ji_rp inp" ?x] by (auto simp: lane_pos_ok_def a'_def)
  ultimately show "join_lane_ok rightmax inp mx spans j out a'" using a by (simp add: join_lane_ok_def se a'_def)
qed

lemma advance_ok:
  assumes a: "join_lane_ok rightmax inp mx spans j out a" and v: "jl_valid a"
    and r: "jl_right a = length (ji_rp inp) \<or> ji_lp inp ! jl_left a < ji_rp inp ! jl_right a"
  shows "jl_left a < jl_stop a" "jl_stop a \<le> length (ji_lp inp)" "jl_sep a < length (ji_sepp inp)" "jl_right a \<le> length (ji_rp inp)"
    and "jl_left a + 1 = jl_stop a \<Longrightarrow> join_lane_ok rightmax inp mx spans j out (a\<lparr>jl_left := jl_left a + 1, jl_valid := False\<rparr>)"
    and "jl_left a + 1 < jl_stop a \<Longrightarrow> ji_lp inp ! jl_left a = ji_lp inp ! (jl_left a + 1) \<Longrightarrow>
      join_lane_ok rightmax inp mx spans j out
        (a\<lparr>jl_left := jl_left a + 1, jl_next := Some (ji_lp inp ! (jl_left a + 1)), jl_right := ji_sepp inp ! jl_sep a\<rparr>)"
    and "jl_left a + 1 < jl_stop a \<Longrightarrow> ji_lp inp ! jl_left a \<noteq> ji_lp inp ! (jl_left a + 1) \<Longrightarrow>
      join_lane_ok rightmax inp mx spans j out (a\<lparr>jl_left := jl_left a + 1, jl_next := Some (ji_lp inp ! (jl_left a + 1))\<rparr>)"
proof -
  obtain s e where se: "spans ! j = (s, e)" by (cases "spans ! j")
  have ok: "join_in_ok rightmax inp mx" "lane_pos_ok inp e a" "s \<le> jl_left a" "lane_out_ok inp mx s e out a" "jl_stop a = e"
    "e \<le> length (ji_lp inp)" using a by (auto simp: join_lane_ok_def se)
  let ?x = "ji_lp inp ! jl_left a" and ?y = "ji_lp inp ! (jl_left a + 1)" and ?R = "ji_rp inp"
  have sorted: "sorted ?R" "sorted (ji_lp inp)" using ok(1) by (simp_all add: join_in_ok_def)
  have pos: "jl_left a < e" "jl_sep a < length (ji_sepp inp)" "ji_sepp inp ! jl_sep a \<le> lo ?R ?x" "jl_right a \<le> hi ?R ?x"
    using ok(2) v by (auto simp: lane_pos_ok_def)
  show "jl_left a < jl_stop a" "jl_stop a \<le> length (ji_lp inp)" "jl_sep a < length (ji_sepp inp)" "jl_right a \<le> length ?R"
    using pos ok(5,6) lo_hi(2) [of ?R ?x] by simp_all
  have hi: "jl_right a = hi ?R ?x"
  proof (cases "jl_right a < length ?R")
    case True
    then show ?thesis using nth_hi [OF sorted(1) True, of ?x] r pos(4) by auto
  qed (use pos(4) lo_hi(2) [of ?R ?x] in simp)
  have D: "done_so_far inp s a = joined inp s (jl_left a + 1)"
    using v ok(3) by (simp add: done_so_far_def hi joined_Suc)
  have step: "join_lane_ok rightmax inp mx spans j out a'"
    if "jl_left a' = jl_left a + 1" "jl_stop a' = e" "jl_out a' = jl_out a" "lane_pos_ok inp e a'"
      "jl_valid a' \<Longrightarrow> jl_right a' \<le> lo ?R ?y" for a'
  proof -
    have "done_so_far inp s a' = done_so_far inp s a"
      unfolding D using that by (simp add: done_so_far_def matches_empty)
    then have "lane_out_ok inp mx s e out a'" using ok(4) that(3) by (simp add: lane_out_ok_def)
    then show ?thesis using a that by (simp add: join_lane_ok_def se)
  qed
  show "join_lane_ok rightmax inp mx spans j out (a\<lparr>jl_left := jl_left a + 1, jl_valid := False\<rparr>)" if "jl_left a + 1 = jl_stop a"
    by (rule step) (use that ok(5) in \<open>simp_all add: lane_pos_ok_def joined_def\<close>)
  show "join_lane_ok rightmax inp mx spans j out
        (a\<lparr>jl_left := jl_left a + 1, jl_next := Some ?y, jl_right := ji_sepp inp ! jl_sep a\<rparr>)"
    if "jl_left a + 1 < jl_stop a" "?x = ?y"
    by (rule step) (use that ok(5) v pos lo_hi(1) [of ?R ?x] in \<open>simp_all add: lane_pos_ok_def\<close>)
  show "join_lane_ok rightmax inp mx spans j out (a\<lparr>jl_left := jl_left a + 1, jl_next := Some ?y\<rparr>)"
    if n: "jl_left a + 1 < jl_stop a" "?x \<noteq> ?y"
  proof -
    have "?x \<le> ?y" using sorted(2) n ok(5,6) by (intro sorted_nth_mono) simp_all
    then have le: "hi ?R ?x \<le> lo ?R ?y" using n(2) by (intro lo_hi(3)) simp
    show ?thesis
      by (rule step) (use n ok(5) v pos le hi lo_hi(1) [of ?R ?x] lo_hi(1) [of ?R ?y] in \<open>simp_all add: lane_pos_ok_def\<close>)
  qed
qed

lemma lex_less:
  assumes "p' < p" "q' \<le> m"
  shows "p' * (m + 1) + q' < p * (m + 1) + (q :: nat)"
proof -
  have "Suc p' * (m + 1) \<le> p * (m + 1)" using assms(1) by (intro mult_le_mono1) simp
  then show ?thesis using assms(2) by simp
qed

lemma lex_same: "p' = p \<Longrightarrow> q' < q \<Longrightarrow> p' * (m + 1) + q' < p * (m + 1) + (q :: nat)"
  by simp

lemma join_step_ok:
  assumes j: "j < length spans" and a: "join_lane_ok rightmax inp mx spans j out a" and v: "jl_valid a"
  shows "ok (join_step rightmax inp a out) (\<lambda>(out', a'). join_lane_ok rightmax inp mx spans j out' a' \<and>
    join_todo inp a' < join_todo inp a \<and>
    (\<forall>k<length spans. k \<noteq> j \<longrightarrow> (\<forall>b. join_lane_ok rightmax inp mx spans k out b \<longrightarrow> join_lane_ok rightmax inp mx spans k out' b)))"
proof -
  obtain lvop rvop where out: "out = (lvop, rvop)" by (cases out)
  obtain s e where se: "spans ! j = (s, e)" by (cases "spans ! j")
  let ?R = "ji_rp inp" and ?x = "ji_lp inp ! jl_left a"
  have ok: "join_in_ok rightmax inp mx" "lane_pos_ok inp e a" "jl_stop a = e" "e \<le> length (ji_lp inp)"
    using a by (auto simp: join_lane_ok_def se)
  have pos: "jl_left a < e" "jl_next a = Some ?x" "jl_right a \<le> length ?R"
    using ok(2) v lo_hi(2) [of ?R ?x] by (auto simp: lane_pos_ok_def)
  have inp: "ji_right_size inp = length ?R" "length (ji_lvp inp) = length (ji_lp inp)" "length (ji_rvp inp) = length ?R"
    "?x < rightmax" using ok(1,4) pos(1) by (simp_all add: join_in_ok_def)
  show ?thesis
  proof (cases "jl_right a = length ?R \<or> ?x < ?R ! jl_right a")
    case True
    note adv = advance_ok [OF a v True]
    have todo: "join_todo inp a' < join_todo inp a" if "jl_left a' = jl_left a + 1" "jl_stop a' = jl_stop a" "jl_sep a' = jl_sep a" for a'
      unfolding join_todo_def by (rule lex_less) (use that adv(1) in simp_all)
    have less: "?x \<noteq> (if jl_right a = length ?R then rightmax else ?R ! jl_right a)" "\<not> (if jl_right a = length ?R then rightmax else ?R ! jl_right a) < ?x"
      using True inp(4) by (auto split: if_splits)
    have re: "(if jl_right a = ji_right_size inp then Some rightmax else rd ?R (jl_right a))
        = Some (if jl_right a = length ?R then rightmax else ?R ! jl_right a)"
      using inp(1) pos(3) by auto
    have step: "join_step rightmax inp a out = (if jl_left a + 1 = jl_stop a then Some (out, a\<lparr>jl_left := jl_left a + 1, jl_valid := False\<rparr>)
       else do {
         nxt \<leftarrow> rd (ji_lp inp) (jl_left a + 1);
         if ?x = nxt then do {
           r \<leftarrow> rd (ji_sepp inp) (jl_sep a);
           Some (out, a\<lparr>jl_left := jl_left a + 1, jl_next := Some nxt, jl_right := r\<rparr>) }
         else Some (out, a\<lparr>jl_left := jl_left a + 1, jl_next := Some nxt\<rparr>) })"
      unfolding join_step_def out prod.case using v pos(2) re less by simp
    show ?thesis
    proof (cases "jl_left a + 1 = jl_stop a")
      case True
      then show ?thesis using step adv(5) todo [of "a\<lparr>jl_left := jl_left a + 1, jl_valid := False\<rparr>"] by simp
    next
      case False
      then have lt: "jl_left a + 1 < jl_stop a" using adv(1) by simp
      then have rd: "rd (ji_lp inp) (jl_left a + 1) = Some (ji_lp inp ! (jl_left a + 1))" using adv(2) by simp
      show ?thesis
      proof (cases "?x = ji_lp inp ! (jl_left a + 1)")
        case True
        then show ?thesis using False lt rd step adv(3,6)
            todo [of "a\<lparr>jl_left := jl_left a + 1, jl_next := Some (ji_lp inp ! (jl_left a + 1)), jl_right := ji_sepp inp ! jl_sep a\<rparr>"]
          by simp
      next
        case neq: False
        then show ?thesis using False lt rd step adv(7) todo [of "a\<lparr>jl_left := jl_left a + 1, jl_next := Some (ji_lp inp ! (jl_left a + 1))\<rparr>"]
          by simp
      qed
    qed
  next
    case False
    then have r: "jl_right a < length ?R" "\<not> ?x < ?R ! jl_right a" using pos(3) by simp_all
    then have ne: "jl_right a \<noteq> ji_right_size inp" using inp(1) by simp
    show ?thesis
    proof (cases "?R ! jl_right a = ?x")
      case True
      note emit = emit_ok [OF a [unfolded out] j v r(1) True]
      have step: "join_step rightmax inp a out = Some ((lvop[jl_out a := ji_lvp inp ! jl_left a], rvop[jl_out a := ji_rvp inp ! jl_right a]),
          a\<lparr>jl_out := jl_out a + 1, jl_right := jl_right a + 1\<rparr>)"
        unfolding join_step_def out prod.case using v pos r ne True emit(1,2) inp ok(4) by simp
      have "join_todo inp (a\<lparr>jl_out := jl_out a + 1, jl_right := jl_right a + 1\<rparr>) < join_todo inp a"
        unfolding join_todo_def by (rule lex_same) (use r(1) in simp_all)
      then show ?thesis unfolding step using emit(3,4) out by simp
    next
      case neq: False
      then have gr: "?x > ?R ! jl_right a" using r(2) by auto
      note skip = skip_ok [OF a v r(1) gr]
      have step: "join_step rightmax inp a out = Some (out, a\<lparr>jl_sep := jl_sep a + 1, jl_right := ji_sepp inp ! (jl_sep a + 1)\<rparr>)"
        unfolding join_step_def out prod.case using v pos r ne neq gr skip(1) by auto
      have "join_todo inp (a\<lparr>jl_sep := jl_sep a + 1, jl_right := ji_sepp inp ! (jl_sep a + 1)\<rparr>) < join_todo inp a"
        unfolding join_todo_def by (rule lex_less) (use skip(1) in simp_all)
      then show ?thesis unfolding step using skip(2) by simp
    qed
  qed
qed

interpretation jl: lane_rounds "join_step rightmax inp" jl_valid "join_todo inp" "join_lane_ok rightmax inp mx spans" "length spans"
  for rightmax :: "'k::linorder" and inp mx spans
proof
  fix a :: "'k join_lane" and out :: "nat list \<times> nat list"
  assume "\<not> jl_valid a"
  then show "join_step rightmax inp a out = Some (out, a)" by (cases out) (simp add: join_step_def)
qed (rule join_step_ok)

end
