(* ===== verification/JoinMerge.thy ===== *)
theory JoinMerge
  imports JoinLanes
begin

text \<open>
  \<open>multi_equi_join\<close>: the lanes' starts, their regions and the compaction of the output; the result is the
  join of the two sorted columns, left row after left row.
\<close>

subsection \<open>Runs of the right column\<close>

lemma longest_run_ok:
  assumes "sep \<noteq> []"
  shows "ok (longest_run sep) (\<lambda>mx. \<forall>i. i + 1 < length sep \<longrightarrow> sep ! (i + 1) - sep ! i \<le> mx)"
proof -
  let ?d = "map (\<lambda>i. sep ! (i + 1) - sep ! i) [0..<length sep - 1]"
  have d: "omap (\<lambda>i. do { b \<leftarrow> rd sep (i + 1); a \<leftarrow> rd sep i; Some (b - a) }) [0..<length sep - 1] = Some ?d"
    by (rule omap_Some) simp
  have "ok (for_each (\<lambda>d m. Some (if m < d then d else m)) ?d 0) ((\<lambda>done m. \<forall>x\<in>set done. x \<le> m) ?d)"
    by (rule ok_for_each) auto
  then show ?thesis using assms d by (auto simp: longest_run_def ok_iff_ex Ball_def in_set_conv_nth)
qed

definition sep_of :: "'k list \<Rightarrow> nat list" where
  "sep_of ks = 0 # key_starts ks 1 (length ks) @ [length ks]"

lemma set_sep_of: "set (sep_of ks) = {0, length ks} \<union> {j. 1 \<le> j \<and> j < length ks \<and> ks ! j \<noteq> ks ! (j - 1)}"
  by (auto simp: sep_of_def key_starts_def)

lemma sorted_sep_of: "ks \<noteq> [] \<Longrightarrow> sorted_wrt (<) (sep_of ks)"
  by (auto simp: sep_of_def key_starts_def sorted_wrt_append intro!: sorted_wrt_filter)

lemma bounds_in_sep:
  assumes "sorted R"
  shows "lo R x \<in> set (sep_of R)" "hi R x \<in> set (sep_of R)"
proof -
  have gap: "p \<in> set (sep_of R)" if "p \<le> length R" "\<And>i. i < length R \<Longrightarrow> P (R ! i) \<longleftrightarrow> i < p" for p P
  proof (cases "p = 0 \<or> p = length R")
    case False
    then have "P (R ! (p - 1))" "\<not> P (R ! p)" using that by auto
    then show ?thesis using False that(1) by (auto simp: set_sep_of)
  qed (auto simp: set_sep_of)
  show "lo R x \<in> set (sep_of R)"
    by (rule gap [where P = "\<lambda>y. y < x"]) (use nth_lo [OF assms] lo_hi(1,2) [of R x] in auto)
  show "hi R x \<in> set (sep_of R)"
    by (rule gap [where P = "\<lambda>y. y \<le> x"]) (use nth_hi [OF assms] lo_hi(1,2) [of R x] in auto)
qed

lemma run_le_longest:
  assumes R: "sorted R" "R \<noteq> []" and mx: "\<forall>i. i + 1 < length (sep_of R) \<longrightarrow> sep_of R ! (i + 1) - sep_of R ! i \<le> mx"
  shows "hi R x - lo R x \<le> mx"
proof (cases "lo R x < hi R x")
  case True
  obtain t where t: "t < length (sep_of R)" "sep_of R ! t = lo R x"
    using bounds_in_sep(1) [OF R(1), of x] by (auto simp: in_set_conv_nth)
  obtain u where u: "u < length (sep_of R)" "sep_of R ! u = hi R x"
    using bounds_in_sep(2) [OF R(1), of x] by (auto simp: in_set_conv_nth)
  note srt = sorted_sep_of [OF R(2)]
  have "t < u" using srt t u True by (metis linorder_neqE_nat order_less_asym sorted_wrt_nth_less)
  then have t1: "t + 1 < length (sep_of R)" using u by simp
  have lt: "sep_of R ! t < sep_of R ! (t + 1)" using srt t1 by (simp add: sorted_wrt_nth_less)
  have "hi R x \<le> sep_of R ! (t + 1)"
  proof (rule ccontr)
    let ?p = "sep_of R ! (t + 1)"
    assume "\<not> hi R x \<le> ?p"
    then have p: "?p < hi R x" "lo R x < ?p" "?p < length R" using lt t lo_hi(2) [of R x] by auto
    have "R ! i = x" if "lo R x \<le> i" "i < hi R x" for i
    proof -
      have "i < length R" using that lo_hi(2) [of R x] by simp
      then show ?thesis using nth_lo [OF R(1), of i x] nth_hi [OF R(1), of i x] that by auto
    qed
    then have "R ! ?p = R ! (?p - 1)" using p by simp
    moreover have "?p \<in> set (sep_of R)" using t1 by simp
    ultimately show False using p by (auto simp: set_sep_of)
  qed
  then have "hi R x - lo R x \<le> sep_of R ! (t + 1) - sep_of R ! t" using t by simp
  then show ?thesis using mx t1 by (meson le_trans)
qed simp

subsection \<open>Collecting the regions\<close>

lemma join_collect_ok:
  assumes len: "length saves = n" "length ends = n"
    and D: "\<And>i. i < n \<Longrightarrow> ends ! i = saves ! i + length (D i) \<and> at (fst out) (saves ! i) (map fst (D i)) \<and> at (snd out) (saves ! i) (map snd (D i))"
  shows "join_collect out saves ends = Some (map fst (concat (map D [0..<n])), map snd (concat (map D [0..<n])))"
proof -
  let ?C = "\<lambda>i. concat (map D [0..<i])"
  let ?sizes = "map (\<lambda>i. length (D i)) [0..<n]"
  have sizes: "omap (\<lambda>i. do { p \<leftarrow> rd ends i; s \<leftarrow> rd saves i; Some (p - s) }) [0..<n] = Some ?sizes"
    by (rule omap_Some) (use len D in simp)
  have total: "sum_list ?sizes = length (?C n)" by (simp add: length_concat comp_def)
  have mono: "length (?C i) + length (D i) \<le> length (?C n)" if "i < n" for i
  proof -
    have "[0..<n] = [0..<Suc i] @ [Suc i..<n]" using upt_add_eq_append [of 0 "Suc i" "n - Suc i"] that by simp
    then have "?C n = ?C (Suc i) @ concat (map D [Suc i..<n])" by (metis concat_append map_append)
    then show ?thesis by simp
  qed
  let ?I = "\<lambda>i st. st = (length (?C i), map fst (?C i) @ replicate (length (?C n) - length (?C i)) 0,
    map snd (?C i) @ replicate (length (?C n) - length (?C i)) (0::nat))"
  let ?f = "\<lambda>i (current, leftret, rightret). do {
         k \<leftarrow> rd ?sizes i;
         pos \<leftarrow> rd saves i;
         leftret \<leftarrow> copy_cells (fst out) pos leftret current k;
         rightret \<leftarrow> copy_cells (snd out) pos rightret current k;
         Some (current + k, leftret, rightret) }"
  have "ok (for_each ?f [0..<n] (0, replicate (length (?C n)) 0, replicate (length (?C n)) 0)) (?I n)"
  proof (rule ok_for_range [where I = ?I])
    fix i st assume i: "0 \<le> i" "i < n" and I: "?I i st"
    have cp: "copy_cells src (saves ! i) (map g (?C i) @ replicate (length (?C n) - length (?C i)) 0) (length (?C i)) (length (D i))
        = Some (map g (?C (Suc i)) @ replicate (length (?C n) - length (?C (Suc i))) 0)"
      if "at src (saves ! i) (map g (D i))" for src :: "nat list" and g
      using copy_cells_run [of "map g (D i)" "saves ! i" src "length (?C i)" "map g (?C i) @ replicate (length (?C n) - length (?C i)) 0"]
        that mono [OF i(2)] by (simp add: at_def)
    show "ok (?f i st) (?I (Suc i))"
      using i len D [OF i(2)] cp [of "fst out" fst] cp [of "snd out" snd] I by simp
  qed simp_all
  then show ?thesis using sizes len by (auto simp: join_collect_def total ok_iff_ex)
qed

subsection \<open>The lanes at the start\<close>

lemma lo_in_sorted:
  assumes "sorted_wrt (<) xs" "r \<in> set xs"
  shows "lo xs r < length xs" "xs ! lo xs r = r"
proof -
  obtain t where t: "t < length xs" "xs ! t = r" using assms(2) by (auto simp: in_set_conv_nth)
  have s: "sorted xs" using assms(1) by (simp add: strict_sorted_iff)
  have "\<not> t < lo xs r" using nth_lo [OF s t(1), of r] t by simp
  moreover have "\<not> lo xs r < t"
  proof
    assume lt: "lo xs r < t"
    then have "xs ! lo xs r < r" using assms(1) t by (auto simp: sorted_wrt_nth_less)
    then show False using nth_lo [OF s, of "lo xs r" r] lt t by simp
  qed
  ultimately have "lo xs r = t" by simp
  then show "lo xs r < length xs" "xs ! lo xs r = r" using t by simp_all
qed

lemma lo_mono: "x \<le> x' \<Longrightarrow> lo R x \<le> lo R x'"
  unfolding lo_def by (induction R) auto

text \<open>The part of lane \<open>i\<close> of \<open>V\<close>.\<close>

definition part_start :: "nat \<Rightarrow> nat \<Rightarrow> nat \<Rightarrow> nat" where "part_start each n i = min (each * i) n"
definition part_stop :: "nat \<Rightarrow> nat \<Rightarrow> nat \<Rightarrow> nat \<Rightarrow> nat" where
  "part_stop V each n i = (if i + 1 < V then part_start each n (i + 1) else n)"

definition lane_at :: "nat list \<Rightarrow> 'k::linorder list \<Rightarrow> 'k list \<Rightarrow> nat \<Rightarrow> nat \<Rightarrow> bool \<times> nat \<times> nat \<times> nat" where
  "lane_at sep left right each i = (let p = part_start each (length left) i; r = lo right (left ! p) in
     if each * i < length left \<and> r < length right then (True, p, r, lo sep r) else (False, p, length right, length sep))"

lemma join_lane_start_eq:
  assumes "sorted right" "sorted sep"
  shows "join_lane_start sep left right each i = Some (lane_at sep left right each i)"
  using assms by (auto simp: join_lane_start_def lane_at_def part_start_def Let_def std_lower_bound_eq min_def)

lemma part_mono: "i \<le> j \<Longrightarrow> part_start each n i \<le> part_start each n j"
  unfolding part_start_def by (intro min.mono mult_le_mono2) simp_all

lemma part_le: "part_start each n i \<le> part_stop V each n i" "part_stop V each n i \<le> n"
  "i < j \<Longrightarrow> j < V \<Longrightarrow> part_stop V each n i \<le> part_start each n j"
  using part_mono [of i "i + 1" each n] part_mono [of "i + 1" j each n] by (auto simp: part_stop_def part_start_def)

lemma spans_parts: "spans_ok (map (\<lambda>i. (part_start each n i, part_stop V each n i)) [0..<V])"
  using part_le(3) by (auto simp: spans_ok_def nat_neq_iff)

lemma join_each_pos: "0 < join_each V n"
  by (auto simp: join_each_def Let_def)

lemma join_out_starts_eq:
  assumes "0 < V"
  shows "join_out_starts (map (part_start each n) [0..<V]) mx = Some (map (\<lambda>i. part_start each n i * mx) [0..<V])"
proof -
  let ?l = "part_start each n"
  let ?I = "\<lambda>i out. out = map (\<lambda>j. if j < i then ?l j * mx else 0) [0..<V]"
  have "ok (join_out_starts (map ?l [0..<V]) mx) (?I V)"
    unfolding join_out_starts_def length_map length_upt minus_nat.diff_0
  proof (rule ok_for_range [where I = ?I])
    show "?I 1 (replicate V 0)" by (auto simp: list_eq_iff_nth_eq part_start_def)
  next
    fix i out assume i: "1 \<le> i" "i < V" and out: "?I i out"
    have "(?l i - ?l (i - 1)) * mx + ?l (i - 1) * mx = ?l i * mx"
      using part_mono [of "i - 1" i each n] by (simp flip: distrib_right)
    then show "ok (do { a \<leftarrow> rd (map ?l [0..<V]) i; b \<leftarrow> rd (map ?l [0..<V]) (i - 1); p \<leftarrow> rd out (i - 1);
        wr out i ((a - b) * mx + p) }) (?I (Suc i))"
      using i by (auto simp: out list_eq_iff_nth_eq nth_list_update)
  qed (use assms in simp)
  then show ?thesis by (simp add: ok_eq)
qed

lemma join_stops_eq: "join_stops (map (part_start each n) [0..<V]) n = Some (map (part_stop V each n) [0..<V])"
proof -
  have "omap (\<lambda>i. if i + 1 < V then rd (map (part_start each n) [0..<V]) (i + 1) else Some n) [0..<V]
      = Some (map (part_stop V each n) [0..<V])"
    by (rule omap_Some) (simp add: part_stop_def)
  then show ?thesis by (simp add: join_stops_def)
qed

lemma joined_append: "a \<le> b \<Longrightarrow> b \<le> c \<Longrightarrow> joined inp a b @ joined inp b c = joined inp a c"
  using upt_add_eq_append [of a b "c - b"] by (simp add: joined_def)

lemma joined_parts:
  assumes "0 < V"
  shows "concat (map (\<lambda>i. joined inp (part_start each n i) (part_stop V each n i)) [0..<V]) = joined inp 0 n"
proof -
  have pre: "concat (map (\<lambda>i. joined inp (part_start each n i) (part_stop V each n i)) [0..<k]) = joined inp 0 (part_start each n k)"
    if "k < V" for k
    using that
  proof (induction k)
    case 0
    then show ?case by (simp add: part_start_def joined_def)
  next
    case (Suc k)
    then show ?case using part_mono [of k "Suc k" each n] by (simp add: part_stop_def joined_append)
  qed
  have "V = Suc (V - 1)" using assms by simp
  then have "[0..<V] = [0..<V - 1] @ [V - 1]" by (metis upt_Suc_append zero_le)
  then show ?thesis using pre [of "V - 1"] assms by (simp add: part_stop_def joined_append part_start_def)
qed

subsection \<open>The merge join\<close>

definition lane_of :: "nat \<Rightarrow> nat \<Rightarrow> nat \<Rightarrow> 'k::linorder join_in \<Rightarrow> nat \<Rightarrow> 'k join_lane" where
  "lane_of V each mx inp i = (let (v, l, r, s) = lane_at (ji_sepp inp) (ji_lp inp) (ji_rp inp) each i in
     \<lparr>jl_valid = v, jl_left = l, jl_right = r, jl_stop = part_stop V each (length (ji_lp inp)) i, jl_out = l * mx,
      jl_sep = s, jl_next = (if v then Some (ji_lp inp ! l) else None)\<rparr>)"

lemma lane_of_ok:
  fixes inp :: "'k::linorder join_in"
  assumes inp: "join_in_ok rightmax inp mx" and i: "i < V" and each: "0 < each"
    and out: "length (fst out) = length (ji_lp inp) * mx" "length (snd out) = length (ji_lp inp) * mx"
  shows "join_lane_ok rightmax inp mx (map (\<lambda>i. (part_start each (length (ji_lp inp)) i, part_stop V each (length (ji_lp inp)) i)) [0..<V])
    i out (lane_of V each mx inp i)"
proof -
  let ?n = "length (ji_lp inp)" and ?R = "ji_rp inp" and ?L = "ji_lp inp"
  let ?s = "part_start each ?n i" and ?e = "part_stop V each ?n i" and ?a = "lane_of V each mx inp i"
  have in1: "sorted ?L" "sorted ?R" "sorted_wrt (<) (ji_sepp inp)" "\<And>x. lo ?R x \<in> set (ji_sepp inp)"
    using inp by (auto simp: join_in_ok_def)
  have a: "jl_left ?a = ?s" "jl_stop ?a = ?e" "jl_out ?a = ?s * mx"
    by (simp_all add: lane_of_def lane_at_def Let_def)
  note le = part_le(1) [of each ?n i V] part_le(2) [of V each ?n i]
  have "?e * mx \<le> ?n * mx" "?s * mx \<le> ?e * mx" using le by (simp_all add: mult_le_mono1)
  then have room: "?e * mx \<le> length (fst out)" "?e * mx \<le> length (snd out)" "?s * mx \<le> length (fst out)" "?s * mx \<le> length (snd out)"
    using out by linarith+
  have pos: "lane_pos_ok inp ?e ?a \<and> (jl_valid ?a \<longrightarrow> jl_right ?a \<le> lo ?R (?L ! ?s))"
  proof (cases "each * i < ?n \<and> lo ?R (?L ! ?s) < length ?R")
    case True
    then have "?s < ?e" using each by (auto simp: part_stop_def part_start_def)
    then show ?thesis
      using True lo_in_sorted [OF in1(3) in1(4) [of "?L ! ?s"]] lo_hi(1) [of ?R "?L ! ?s"]
      by (simp add: lane_pos_ok_def lane_of_def lane_at_def Let_def)
  next
    case False
    have none: "matches inp j (hi ?R (?L ! j)) = []" if "?s \<le> j" "j < ?e" for j
    proof -
      have j: "j < ?n" using that le by simp
      then have "\<not> ?n \<le> each * i" using that by (auto simp: part_start_def)
      then have "length ?R \<le> lo ?R (?L ! ?s)" using False by simp
      also have "\<dots> \<le> lo ?R (?L ! j)" using that(1) j in1(1) by (intro lo_mono sorted_nth_mono) simp_all
      finally show ?thesis using lo_hi(2) [of ?R "?L ! j"] by (simp add: matches_def)
    qed
    have "joined inp ?s ?e = []" using none by (simp add: joined_def)
    then show ?thesis using False le by (auto simp: lane_pos_ok_def lane_of_def lane_at_def Let_def)
  qed
  then have D: "done_so_far inp ?s ?a = []" by (auto simp: done_so_far_def a joined_def matches_empty)
  have "lane_out_ok inp mx ?s ?e out ?a" using room by (simp add: lane_out_ok_def D a at_def)
  then show ?thesis using inp i le pos spans_parts [of each ?n V] by (simp add: join_lane_ok_def a)
qed

lemma multi_equi_join_vreg_ok:
  fixes inp :: "'k::linorder join_in"
  assumes inp: "join_in_ok rightmax inp mx" and each: "0 < each"
    and out: "length (fst out) = length (ji_lp inp) * mx" "length (snd out) = length (ji_lp inp) * mx"
    and lanes: "omap (load_next inp) lanes = Some (map (lane_of V each mx inp) [0..<V])"
  shows "ok (multi_equi_join_vreg rightmax inp lanes out) (\<lambda>(out', ends). length ends = V \<and> (\<forall>i<V.
    let p = part_start each (length (ji_lp inp)) i; D = joined inp p (part_stop V each (length (ji_lp inp)) i) in
      ends ! i = p * mx + length D \<and> at (fst out') (p * mx) (map fst D) \<and> at (snd out') (p * mx) (map snd D)))"
proof -
  let ?n = "length (ji_lp inp)"
  let ?spans = "map (\<lambda>i. (part_start each ?n i, part_stop V each ?n i)) [0..<V]"
  let ?lanes = "map (lane_of V each mx inp) [0..<V]"
  have "jl.lanes_inv rightmax inp mx ?spans (out, ?lanes)"
    unfolding jl.lanes_inv_def using lane_of_ok [OF inp _ each out] by simp
  note rounds = jl.rounds_ok [OF this]
  show ?thesis
    unfolding multi_equi_join_vreg_def lanes Option.bind.bind_lunit bind_assoc [symmetric]
    unfolding ok_bind [of "do { st \<leftarrow> m; f st }" for m f]
  proof (rule ok_mono [OF rounds], goal_cases)
    case (1 st)
    obtain out' lanes' where st: "st = (out', lanes')" by (cases st)
    have len: "length lanes' = V" and all: "\<And>i. i < V \<Longrightarrow> join_lane_ok rightmax inp mx ?spans i out' (lanes' ! i)"
      and stop: "\<And>i. i < V \<Longrightarrow> \<not> jl_valid (lanes' ! i)"
      using 1 [unfolded jl.lanes_inv_def] by (auto simp: st)
    have "let p = part_start each ?n i; D = joined inp p (part_stop V each ?n i) in
      jl_out (lanes' ! i) = p * mx + length D \<and> at (fst out') (p * mx) (map fst D) \<and> at (snd out') (p * mx) (map snd D)"
      if i: "i < V" for i
    proof -
      let ?p = "part_start each ?n i" and ?e = "part_stop V each ?n i" and ?a = "lanes' ! i"
      have a: "lane_pos_ok inp ?e ?a" "lane_out_ok inp mx ?p ?e out' ?a" "?p \<le> jl_left ?a"
        using all [OF i] i by (auto simp: join_lane_ok_def)
      have "done_so_far inp ?p ?a = joined inp ?p ?e"
        using a(1,3) stop [OF i] joined_append [OF a(3), of ?e inp] by (simp add: done_so_far_def lane_pos_ok_def)
      then show ?thesis using a(2) by (simp add: lane_out_ok_def Let_def)
    qed
    then show ?case using len by (simp add: st)
  qed
qed

lemma multi_equi_join_eq:
  fixes left right :: "'k::linorder list"
  assumes V: "0 < V" and srt: "sorted left" "sorted right" and len: "length left_val = length left" "length right_val = length right"
    and ne: "right \<noteq> []" and max: "\<forall>x\<in>set left. x < rightmax"
  defines "inp \<equiv> \<lparr>ji_lp = left, ji_lvp = left_val, ji_rp = right, ji_rvp = right_val, ji_sepp = sep_of right, ji_right_size = length right\<rparr>"
  shows "multi_equi_join V rightmax (sep_of right) left left_val right right_val
    = Some (Inr (map fst (joined inp 0 (length left)), map snd (joined inp 0 (length left))))"
proof -
  let ?n = "length left" and ?sep = "sep_of right"
  define each where "each = join_each V ?n"
  have each: "0 < each" unfolding each_def by (rule join_each_pos)
  have "?sep \<noteq> []" by (simp add: sep_of_def)
  then obtain mx where mx: "longest_run ?sep = Some mx" "\<forall>i. i + 1 < length ?sep \<longrightarrow> ?sep ! (i + 1) - ?sep ! i \<le> mx"
    using longest_run_ok [of ?sep] by (auto simp: ok_iff_ex)
  note sep = sorted_sep_of [OF ne]
  have inp: "join_in_ok rightmax inp mx"
    using srt len max sep bounds_in_sep(1) [OF srt(2)] run_le_longest [OF srt(2) ne mx(2)] by (simp add: join_in_ok_def inp_def)
  have starts: "omap (join_lane_start ?sep left right each) [0..<V] = Some (map (lane_at ?sep left right each) [0..<V])"
    by (rule omap_Some) (use srt(2) sep in \<open>simp add: join_lane_start_eq strict_sorted_iff\<close>)
  have idx: "map (\<lambda>(_, l, _). l) (map (lane_at ?sep left right each) [0..<V]) = map (part_start each ?n) [0..<V]"
    by (simp add: lane_at_def Let_def)
  let ?lanes = "map (\<lambda>((v, l, r, s), stop, p). \<lparr>jl_valid = v, jl_left = l, jl_right = r, jl_stop = stop,
          jl_out = p, jl_sep = s, jl_next = None :: 'k option\<rparr>) (zip (map (lane_at ?sep left right each) [0..<V])
          (zip (map (part_stop V each ?n) [0..<V]) (map (\<lambda>i. part_start each ?n i * mx) [0..<V])))"
  have lanes: "omap (load_next inp) ?lanes = Some (map (lane_of V each mx inp) [0..<V])"
  proof -
    have "list_all2 (\<lambda>a b. load_next inp a = Some b) ?lanes (map (lane_of V each mx inp) [0..<V])"
      by (auto simp: list_all2_conv_all_nth load_next_def lane_of_def lane_at_def Let_def inp_def part_start_def)
    then show ?thesis by (simp add: omap_eq_Some_iff)
  qed
  have each': "join_each V ?n = each" by (simp add: each_def)
  let ?tmp = "replicate (?n * mx) (0::nat)" and ?D = "\<lambda>i. joined inp (part_start each ?n i) (part_stop V each ?n i)"
  have inp_n: "length (ji_lp inp) = ?n" by (simp add: inp_def)
  obtain out ends where run: "multi_equi_join_vreg rightmax inp ?lanes (?tmp, ?tmp) = Some (out, ends)" and ends: "length ends = V"
    "\<And>i. i < V \<Longrightarrow> ends ! i = part_start each ?n i * mx + length (?D i) \<and> at (fst out) (part_start each ?n i * mx) (map fst (?D i)) \<and>
      at (snd out) (part_start each ?n i * mx) (map snd (?D i))"
    using multi_equi_join_vreg_ok [OF inp each _ _ lanes, of "(?tmp, ?tmp)"] by (auto simp: ok_iff_ex inp_n Let_def)
  have "join_collect out (map (\<lambda>i. part_start each ?n i * mx) [0..<V]) ends
      = Some (map fst (concat (map ?D [0..<V])), map snd (concat (map ?D [0..<V])))"
    by (rule join_collect_ok) (use ends in simp_all)
  then have collect: "join_collect out (map (\<lambda>i. part_start each ?n i * mx) [0..<V]) ends
      = Some (map fst (joined inp 0 ?n), map snd (joined inp 0 ?n))"
    by (simp only: joined_parts [OF V])
  show ?thesis
    unfolding multi_equi_join_def Let_def each' mx(1) starts Option.bind.bind_lunit idx join_out_starts_eq [OF V] join_stops_eq
      inp_def [symmetric] run prod.case collect
    using len by simp
qed

end
