(* ===== verification/JoinPairs.thy ===== *)
theory JoinPairs
  imports JoinMerge
begin

text \<open>
  What a join means: the pairs of row numbers whose keys are related (\<open>join_pairs\<close>), as a list in the
  order of the left rows and, within one left row, of the right rows.  The join is a bag: it does not
  depend on the order of its inputs.  The merge join of sorted columns is that list, and so is what
  shrink_missed leaves of a lookup.
\<close>

definition join_pairs :: "('k \<Rightarrow> 'k \<Rightarrow> bool) \<Rightarrow> ('k \<times> nat) list \<Rightarrow> ('k \<times> nat) list \<Rightarrow> (nat \<times> nat) list" where
  "join_pairs P ls rs = concat (map (\<lambda>(x, i). map (\<lambda>(y, j). (i, j)) (filter (\<lambda>(y, j). P x y) rs)) ls)"

lemma join_pairs_Nil [simp]: "join_pairs P [] rs = []"
  by (simp add: join_pairs_def)

lemma join_pairs_Cons [simp]:
  "join_pairs P (l # ls) rs = map (\<lambda>r. (snd l, snd r)) (filter (\<lambda>r. P (fst l) (fst r)) rs) @ join_pairs P ls rs"
  by (simp add: join_pairs_def case_prod_unfold)

lemma join_pairs_append: "join_pairs P (ls @ ls') rs = join_pairs P ls rs @ join_pairs P ls' rs"
  by (simp add: join_pairs_def)

lemma set_join_pairs: "(i, j) \<in> set (join_pairs P ls rs) \<longleftrightarrow> (\<exists>x y. (x, i) \<in> set ls \<and> (y, j) \<in> set rs \<and> P x y)"
  by (induction ls) (force simp: image_iff)+

text \<open>The order of the inputs does not matter.\<close>

lemma mset_join_pairs:
  "mset (join_pairs P ls rs) = (\<Sum>l\<in>#mset ls. image_mset (\<lambda>r. (snd l, snd r)) (filter_mset (\<lambda>r. P (fst l) (fst r)) (mset rs)))"
  by (induction ls) (simp_all add: mset_map mset_filter)

lemma mset_join_pairs_cong:
  "mset ls = mset ls' \<Longrightarrow> mset rs = mset rs' \<Longrightarrow> mset (join_pairs P ls rs) = mset (join_pairs P ls' rs')"
  by (simp add: mset_join_pairs)

text \<open>Keys may be replaced by their values.\<close>

lemma join_pairs_image:
  assumes "\<And>x y. x \<in> fst ` set ls \<Longrightarrow> y \<in> fst ` set rs \<Longrightarrow> Q (f x) (f y) = P x y"
  shows "join_pairs Q (map (map_prod f id) ls) (map (map_prod f id) rs) = join_pairs P ls rs"
  using assms
proof (induction ls)
  case (Cons l ls)
  have "filter (\<lambda>r. Q (f (fst l)) (fst r)) (map (map_prod f id) rs) = map (map_prod f id) (filter (\<lambda>r. P (fst l) (fst r)) rs)"
  proof -
    have "filter (\<lambda>r. Q (f (fst l)) (f (fst r))) rs = filter (\<lambda>r. P (fst l) (fst r)) rs"
      by (rule filter_cong) (use Cons.prems in auto)
    then show ?thesis by (simp add: filter_map comp_def)
  qed
  moreover have "join_pairs Q (map (map_prod f id) ls) (map (map_prod f id) rs) = join_pairs P ls rs"
    by (rule Cons.IH) (rule Cons.prems, simp_all)
  ultimately show ?case by (simp add: comp_def id_def)
qed simp

subsection \<open>Sorted columns\<close>

lemma zip_nth_map: "length v = length R \<Longrightarrow> zip R v = map (\<lambda>r. (R ! r, v ! r)) [0..<length R]"
  by (rule nth_equalityI) simp_all

lemma filter_range: "a \<le> b \<Longrightarrow> b \<le> m \<Longrightarrow> filter (\<lambda>r. a \<le> r \<and> r < b) [0..<m] = [a..<b :: nat]"
proof -
  assume "a \<le> b" "b \<le> m"
  then have "[0..<m] = [0..<a] @ [a..<b] @ [b..<m]"
    using upt_add_eq_append [of 0 a "m - a"] upt_add_eq_append [of a b "m - b"] by simp
  then show ?thesis by (simp only: filter_append) (auto simp: filter_empty_conv filter_id_conv)
qed

lemma filter_zip_range:
  assumes v: "length v = length R" and ab: "a \<le> b" "b \<le> length R" and P: "\<And>r. r < length R \<Longrightarrow> P (R ! r) \<longleftrightarrow> a \<le> r \<and> r < b"
  shows "filter (\<lambda>r. P (fst r)) (zip R v) = map (\<lambda>r. (R ! r, v ! r)) [a..<b]"
proof -
  have "filter (\<lambda>r. P (fst r)) (zip R v) = map (\<lambda>r. (R ! r, v ! r)) (filter (\<lambda>r. P (R ! r)) [0..<length R])"
    by (simp add: zip_nth_map [OF v] filter_map comp_def)
  also have "filter (\<lambda>r. P (R ! r)) [0..<length R] = filter (\<lambda>r. a \<le> r \<and> r < b) [0..<length R]"
    using P by (auto intro: filter_cong)
  finally show ?thesis using ab by (simp add: filter_range)
qed

lemma equal_range:
  assumes "sorted R" "length v = length R"
  shows "filter (\<lambda>r. x = fst r) (zip R v) = map (\<lambda>r. (R ! r, v ! r)) [lo R x..<hi R x]"
proof (rule filter_zip_range [where P = "\<lambda>y. x = y", OF assms(2) lo_hi(1,2)])
  fix r assume "r < length R"
  then show "x = R ! r \<longleftrightarrow> lo R x \<le> r \<and> r < hi R x"
    using nth_lo [OF assms(1), of r x] nth_hi [OF assms(1), of r x] by auto
qed

lemma joined_pairs:
  assumes "sorted right" "length left_val = length left" "length right_val = length right"
  shows "joined \<lparr>ji_lp = left, ji_lvp = left_val, ji_rp = right, ji_rvp = right_val, ji_sepp = s, ji_right_size = n\<rparr> 0 (length left)
    = join_pairs (=) (zip left left_val) (zip right right_val)"
proof -
  let ?inp = "\<lparr>ji_lp = left, ji_lvp = left_val, ji_rp = right, ji_rvp = right_val, ji_sepp = s, ji_right_size = n\<rparr>"
  have pre: "joined ?inp 0 k = join_pairs (=) (take k (zip left left_val)) (zip right right_val)" if "k \<le> length left" for k
    using that
  proof (induction k)
    case 0
    then show ?case by (simp add: joined_def)
  next
    case (Suc k)
    then have t: "take (Suc k) (zip left left_val) = take k (zip left left_val) @ [(left ! k, left_val ! k)]"
      using assms(2) by (simp add: take_Suc_conv_app_nth)
    show ?case using Suc by (simp add: joined_Suc t join_pairs_append equal_range [OF assms(1,3)] matches_def comp_def)
  qed
  then show ?thesis using assms(2) pre [of "length left"] by simp
qed

text \<open>The merge join of two sorted columns.\<close>

lemma multi_equi_join_pairs:
  assumes "0 < V" "sorted left" "sorted right" "length left_val = length left" "length right_val = length right"
    "right \<noteq> []" "\<forall>x\<in>set left. x < rightmax"
  shows "multi_equi_join V rightmax (sep_of right) left left_val right right_val
    = (let P = join_pairs (=) (zip left left_val) (zip right right_val) in Some (Inr (map fst P, map snd P)))"
  using multi_equi_join_eq [OF assms] joined_pairs [OF assms(3-5)] by (simp add: Let_def)

subsection \<open>Unique right keys\<close>

lemma filter_key_distinct:
  "distinct (map fst rs) \<Longrightarrow> filter (\<lambda>r. x = fst r) rs = (case map_of rs x of None \<Rightarrow> [] | Some j \<Rightarrow> [(x, j)])"
proof (induction rs)
  case (Cons r rs)
  show ?case
  proof (cases "x = fst r")
    case True
    then have "map_of rs x = None" using Cons.prems by (simp add: map_of_eq_None_iff image_iff)
    then show ?thesis using Cons True by (cases r) simp
  qed (use Cons in simp)
qed simp

lemma join_pairs_map:
  assumes "distinct right" "length right_idx = length right" "length left_idx = length left"
  defines "m \<equiv> map_of (zip right right_idx)"
  shows "join_pairs (=) (zip left left_idx) (zip right right_idx)
    = map (\<lambda>i. (left_idx ! i, the (m (left ! i)))) (filter (\<lambda>i. m (left ! i) \<noteq> None) [0..<length left])"
proof -
  have "join_pairs (=) ls (zip right right_idx) = map (\<lambda>l. (snd l, the (m (fst l)))) (filter (\<lambda>l. m (fst l) \<noteq> None) ls)" for ls
  proof (induction ls)
    case (Cons l ls)
    have "filter (\<lambda>r. fst l = fst r) (zip right right_idx) = (case m (fst l) of None \<Rightarrow> [] | Some j \<Rightarrow> [(fst l, j)])"
      unfolding m_def by (rule filter_key_distinct) (use assms in simp)
    then show ?case using Cons by (cases "m (fst l)") simp_all
  qed simp
  then show ?thesis by (simp add: zip_nth_map [OF assms(3)] filter_map comp_def)
qed

subsection \<open>shrink_missed\<close>

lemma difference_filter:
  "sorted_wrt (<) xs \<Longrightarrow> std_set_difference xs (filter P xs) = filter (\<lambda>x. \<not> P x) (xs :: 'a::linorder list)"
proof (induction xs)
  case (Cons x xs)
  show ?case
  proof (cases "P x")
    case False
    show ?thesis
    proof (cases "filter P xs")
      case Nil
      then show ?thesis using False Cons by (simp add: filter_empty_conv filter_id_conv)
    next
      case ys: (Cons y ys)
      then have "y \<in> set (filter P xs)" by simp
      then have "x < y" using Cons.prems by simp
      then show ?thesis using False Cons ys by simp
    qed
  qed (use Cons in simp)
qed simp

definition kept :: "nat list \<Rightarrow> nat \<Rightarrow> nat list" where
  "kept missed k = filter (\<lambda>i. i \<notin> set missed) [0..<k]"

lemma kept_extend:
  assumes "a \<le> b" "\<And>i. a \<le> i \<Longrightarrow> i < b \<Longrightarrow> i \<notin> set missed"
  shows "kept missed b = kept missed a @ [a..<b]"
proof -
  have "[0..<b] = [0..<a] @ [a..<b]" using upt_add_eq_append [of 0 a "b - a"] assms(1) by simp
  then show ?thesis using assms(2) by (simp add: kept_def filter_id_conv)
qed

lemma length_kept:
  assumes "distinct missed" "set missed \<subseteq> {0..<n}"
  shows "length (kept missed n) = n - length missed"
proof -
  have "length (kept missed n) = card ({0..<n} - set missed)"
    unfolding kept_def by (subst distinct_card [symmetric]) (auto intro!: arg_cong [where f = card])
  also have "\<dots> = n - card (set missed)" using assms(2) by (subst card_Diff_subset) auto
  finally show ?thesis using assms(1) by (simp add: distinct_card)
qed

lemma shrink_missed_eq:
  assumes missed: "sorted_wrt (<) missed" "set missed \<subseteq> {0..<length xs}"
    and diff: "\<And>l r. sorted l \<Longrightarrow> sorted r \<Longrightarrow> diff l r = Some (std_set_difference l r)"
  shows "shrink_missed diff xs missed = Some (map ((!) xs) (kept missed (length xs)))"
proof -
  let ?n = "length xs" and ?k = "length missed"
  have dist: "distinct missed" "sorted missed" using missed(1) by (simp_all add: strict_sorted_iff)
  have idx: "missed ! i < missed ! j \<longleftrightarrow> i < j" if "i < ?k" "j < ?k" for i j
    using sorted_wrt_nth_less [OF missed(1), of i j] sorted_wrt_nth_less [OF missed(1), of j i] that by (cases i j rule: linorder_cases) auto
  let ?K = "kept missed" and ?N = "?n - ?k"
  have N: "?N = length (?K ?n)" using length_kept [OF dist(1) missed(2)] by simp
  have copied: "copy_cells xs a (map ((!) xs) (?K a) @ replicate (?N - length (?K a)) 0) (length (?K a)) (b - a)
      = Some (map ((!) xs) (?K b) @ replicate (?N - length (?K b)) 0)"
    if ab: "a \<le> b" "b \<le> ?n" "\<And>i. a \<le> i \<Longrightarrow> i < b \<Longrightarrow> i \<notin> set missed" for a b
  proof -
    have len: "length (?K b) \<le> ?N"
    proof -
      have "[0..<?n] = [0..<b] @ [b..<?n]" using upt_add_eq_append [of 0 b "?n - b"] ab(2) by simp
      then show ?thesis unfolding N kept_def by simp
    qed
    have "take (b - a) (drop a xs) = map ((!) xs) [a..<b]" using ab by (simp add: list_eq_iff_nth_eq)
    then show ?thesis
      using copy_cells_run [of "map ((!) xs) [a..<b]" a xs "length (?K a)" "map ((!) xs) (?K a) @ replicate (?N - length (?K a)) 0"]
        len kept_extend [OF ab(1,3)] by simp
  qed
  let ?I = "\<lambda>i (ret, ret_idx, src_idx, start). src_idx = start \<and> start \<le> ?n \<and> ret_idx = length (?K start) \<and>
    ret = map ((!) xs) (?K start) @ replicate (?N - ret_idx) 0 \<and> (\<forall>j<?k. missed ! j < start \<longleftrightarrow> j < i)"
  have loop: "ok (for_each (\<lambda>i (ret, ret_idx, src_idx, start). do {
            stop \<leftarrow> rd missed i;
            if stop < start then None
            else do {
              ret \<leftarrow> copy_cells xs src_idx ret ret_idx (stop - start);
              Some (ret, ret_idx + (stop - start), src_idx + (stop - start) + 1, stop + 1) } })
          [0..<?k] (replicate ?N 0, 0, 0, 0)) (?I ?k)"
  proof (rule ok_for_range [where I = ?I])
    fix i st assume i: "0 \<le> i" "i < ?k" and I: "?I i st"
    obtain ret ret_idx src_idx start where st: "st = (ret, ret_idx, src_idx, start)" by (cases st)
    have "missed ! i \<in> set missed" using i by simp
    then have stop: "missed ! i < ?n" using missed(2) by auto
    have ge: "start \<le> missed ! i" using I i by (auto simp: st not_less)
    have free: "p \<notin> set missed" if "start \<le> p" "p < missed ! i" for p
    proof
      assume "p \<in> set missed"
      then obtain j where j: "j < ?k" "p = missed ! j" by (auto simp: in_set_conv_nth)
      then have "missed ! j < start" using that idx [of j i] i I by (simp add: st)
      then show False using that j by simp
    qed
    have k1: "?K (Suc (missed ! i)) = ?K (missed ! i)" using i by (simp add: kept_def)
    have cp: "copy_cells xs start ret ret_idx (missed ! i - start)
      = Some (map ((!) xs) (?K (missed ! i)) @ replicate (?N - length (?K (missed ! i))) 0)"
      using copied [OF ge _ free] stop I by (simp add: st)
    have "length (?K (missed ! i)) = length (?K start) + (missed ! i - start)" using kept_extend [OF ge free] by simp
    moreover have "missed ! j < Suc (missed ! i) \<longleftrightarrow> j < Suc i" if "j < ?k" for j
      using idx [of i j] that i by (auto simp: not_less less_Suc_eq_le simp flip: not_less)
    ultimately show "ok (case st of (ret, ret_idx, src_idx, start) \<Rightarrow> do {
            stop \<leftarrow> rd missed i;
            if stop < start then None
            else do {
              ret \<leftarrow> copy_cells xs src_idx ret ret_idx (stop - start);
              Some (ret, ret_idx + (stop - start), src_idx + (stop - start) + 1, stop + 1) } }) (?I (Suc i))"
      using i I ge cp stop by (simp add: st k1)
  qed (simp_all add: kept_def)
  show ?thesis
  proof (cases "?k = 0")
    case True
    then show ?thesis by (simp add: shrink_missed_def kept_def map_nth)
  next
    case False
    show ?thesis
    proof (cases "?n > ?k * shrink_missed_vlen")
      case True
      from loop obtain ret ret_idx start where l: "for_each (\<lambda>i (ret, ret_idx, src_idx, start). do {
            stop \<leftarrow> rd missed i;
            if stop < start then None
            else do {
              ret \<leftarrow> copy_cells xs src_idx ret ret_idx (stop - start);
              Some (ret, ret_idx + (stop - start), src_idx + (stop - start) + 1, stop + 1) } })
          [0..<?k] (replicate ?N 0, 0, 0, 0) = Some (ret, ret_idx, start, start)"
        and I: "start \<le> ?n" "ret_idx = length (?K start)" "ret = map ((!) xs) (?K start) @ replicate (?N - ret_idx) 0"
          "\<forall>j<?k. missed ! j < start"
        by (auto simp: ok_iff_ex)
      have "i \<notin> set missed" if "start \<le> i" for i using I(4) that by (auto simp: in_set_conv_nth)
      then have "copy_cells xs start ret ret_idx (?n - start) = Some (map ((!) xs) (?K ?n) @ replicate (?N - length (?K ?n)) 0)"
        using copied [OF I(1)] I by simp
      then show ?thesis using False True l I(1) N by (simp add: shrink_missed_def)
    next
      case short: False
      have "std_set_difference [0..<?n] missed = ?K ?n"
      proof -
        have "missed = filter (\<lambda>i. i \<in> set missed) [0..<?n]"
          by (rule sorted_distinct_set_unique) (use dist missed(2) in \<open>auto simp: sorted_wrt_filter\<close>)
        then show ?thesis using difference_filter [of "[0..<?n]" "\<lambda>i. i \<in> set missed"] by (simp add: kept_def)
      qed
      moreover have "omap (rd xs) (?K ?n) = Some (map ((!) xs) (?K ?n))" by (rule omap_Some) (simp add: kept_def)
      ultimately show ?thesis using False short dist(2) by (simp add: shrink_missed_def diff)
    qed
  qed
qed

lemma set_difference_ve_eq: "sorted l \<Longrightarrow> sorted r \<Longrightarrow> set_difference_ve spare l r = Some (std_set_difference l r)"
  using set_difference_sx_eq [of set_vlen "length l" "l @ [spare]" r] by (simp add: set_difference_ve_def set_vlen_def)

end
