(* ===== verification/JoinTheorems.thy ===== *)
theory JoinTheorems
  imports JoinFacts
begin

text \<open>
  The star join, the joins by inequality, and the properties of the joins.
\<close>

subsection \<open>Star join\<close>

definition not_unique :: string where "not_unique = ''star_join: right column is not unique''"

lemma map_of_zip_None: "length v = length k \<Longrightarrow> map_of (zip k v) x = None \<longleftrightarrow> x \<notin> set k"
  by (simp add: map_of_eq_None_iff) (metis list.set_map map_fst_zip)

lemma star_map:
  assumes "length right_idx = length right"
  shows "for_each (\<lambda>i m. case m of Inl e \<Rightarrow> Some (Inl e) | Inr m \<Rightarrow> do {
         k \<leftarrow> rd right i;
         if m k = None then do { v \<leftarrow> rd right_idx i; Some (Inr (m(k \<mapsto> v))) }
         else Some (Inl ''star_join: right column is not unique'') }) [0..<length right] (Inr Map.empty)
    = Some (if distinct right then Inr (map_of (zip right right_idx)) else Inl not_unique)"
proof -
  let ?m = "\<lambda>i. map_of (zip (take i right) (take i right_idx))"
  let ?I = "\<lambda>i m. m = (if distinct (take i right) then Inr (?m i) else Inl not_unique)"
  have "ok (for_each (\<lambda>i m. case m of Inl e \<Rightarrow> Some (Inl e) | Inr m \<Rightarrow> do {
         k \<leftarrow> rd right i;
         if m k = None then do { v \<leftarrow> rd right_idx i; Some (Inr (m(k \<mapsto> v))) }
         else Some (Inl ''star_join: right column is not unique'') }) [0..<length right] (Inr Map.empty)) (?I (length right))"
  proof (rule ok_for_range [where I = ?I])
    fix i m assume i: "0 \<le> i" "i < length right" and m: "?I i m"
    have t: "take (Suc i) right = take i right @ [right ! i]" "take (Suc i) right_idx = take i right_idx @ [right_idx ! i]"
      using i assms by (simp_all add: take_Suc_conv_app_nth)
    have none: "?m i (right ! i) = None \<longleftrightarrow> right ! i \<notin> set (take i right)"
      by (rule map_of_zip_None) (use assms in simp)
    have "zip (take (Suc i) right) (take (Suc i) right_idx) = zip (take i right) (take i right_idx) @ [(right ! i, right_idx ! i)]"
      unfolding t using assms by (subst zip_append) simp_all
    then have upd: "?m (Suc i) = (?m i)(right ! i \<mapsto> right_idx ! i)" if "right ! i \<notin> set (take i right)"
      using none that by (auto simp: map_add_def fun_eq_iff split: option.splits)
    show "ok (case m of Inl e \<Rightarrow> Some (Inl e) | Inr m \<Rightarrow> do {
         k \<leftarrow> rd right i;
         if m k = None then do { v \<leftarrow> rd right_idx i; Some (Inr (m(k \<mapsto> v))) }
         else Some (Inl ''star_join: right column is not unique'') }) (?I (Suc i))"
      using i assms m none upd t(1) by (auto simp: not_unique_def)
  qed simp_all
  then show ?thesis using assms by (simp add: ok_eq)
qed

lemma star_lookup:
  assumes "length out = length left"
  shows "ok (for_each (\<lambda>i (out, missed). do {
           k \<leftarrow> rd left i;
           case m k of None \<Rightarrow> Some (out, missed @ [i]) | Some v \<Rightarrow> do { out \<leftarrow> wr out i v; Some (out, missed) } })
         [0..<length left] (out, []))
    (\<lambda>(out', missed). missed = filter (\<lambda>i. m (left ! i) = None) [0..<length left] \<and> length out' = length left \<and>
      (\<forall>i<length left. out' ! i = (case m (left ! i) of None \<Rightarrow> out ! i | Some v \<Rightarrow> v)))"
proof -
  let ?I = "\<lambda>k (out', missed). missed = filter (\<lambda>i. m (left ! i) = None) [0..<k] \<and> length out' = length left \<and>
      (\<forall>i<length left. (m (left ! i) = None \<or> k \<le> i \<longrightarrow> out' ! i = out ! i) \<and> (i < k \<longrightarrow> (\<forall>v. m (left ! i) = Some v \<longrightarrow> out' ! i = v)))"
  have "ok (for_each (\<lambda>i (out, missed). do {
           k \<leftarrow> rd left i;
           case m k of None \<Rightarrow> Some (out, missed @ [i]) | Some v \<Rightarrow> do { out \<leftarrow> wr out i v; Some (out, missed) } })
         [0..<length left] (out, [])) (?I (length left))"
  proof (rule ok_for_range [where I = ?I])
    fix i st assume i: "0 \<le> i" "i < length left" and I: "?I i st"
    show "ok (case st of (out, missed) \<Rightarrow> do {
           k \<leftarrow> rd left i;
           case m k of None \<Rightarrow> Some (out, missed @ [i]) | Some v \<Rightarrow> do { out \<leftarrow> wr out i v; Some (out, missed) } }) (?I (Suc i))"
      using i I by (cases st; cases "m (left ! i)") (auto simp: less_Suc_eq nth_list_update)
  qed (use assms in simp_all)
  then show ?thesis by (elim ok_mono) (auto split: option.splits)
qed

lemma length_resize [simp]: "length (resize n xs) = n"
  by (simp add: resize_def)

lemma unique_equi_join2_x86_eq:
  assumes "length right_idx = length right"
  shows "if distinct right then ok (unique_equi_join2_x86 left right right_idx old) (\<lambda>r. \<exists>out. r = Inr (out, filter (\<lambda>i. left ! i \<notin> set right) [0..<length left]) \<and>
      length out = length left \<and> (\<forall>i<length left. case map_of (zip right right_idx) (left ! i) of None \<Rightarrow> True | Some v \<Rightarrow> out ! i = v))
    else unique_equi_join2_x86 left right right_idx old = Some (Inl not_unique)"
proof (cases "distinct right")
  case True
  from star_lookup [of "resize (length left) old" left "map_of (zip right right_idx)"] show ?thesis
    using True assms by (auto simp: unique_equi_join2_x86_def star_map ok_iff_ex map_of_zip_None split: option.splits)
qed (use assms in \<open>simp add: unique_equi_join2_x86_def star_map\<close>)

subsection \<open>Joins by inequality\<close>

lemma fill_cells:
  assumes "i < length left_idx" "b + n \<le> length dst"
  shows "for_each (\<lambda>j dst. do { l \<leftarrow> rd left_idx i; wr dst (b + j) l }) [0..<n] dst
    = Some (take b dst @ replicate n (left_idx ! i) @ drop (b + n) dst)"
proof -
  have "for_each (\<lambda>j dst. do { l \<leftarrow> rd left_idx i; wr dst (b + j) l }) [0..<n] dst = copy_cells (replicate n (left_idx ! i)) 0 dst b n"
    unfolding copy_cells_def by (rule for_each_cong) (use assms in simp)
  then show ?thesis using copy_cells_eq [of 0 n "replicate n (left_idx ! i)" b dst] assms by simp
qed

lemma range_join_eq:
  fixes left right :: "'w::len word list"
  assumes w: "LENGTH('w) = 32 \<or> LENGTH('w) = 64" and c: "c = radix_cfg_ve \<or> c = radix_cfg_x86"
    and len: "length left_idx = length left" "length right_idx = length right"
    and bound: "\<And>R L. sorted R \<Longrightarrow> bound R L = Some (map (b R) L)"
    and part: "\<And>R x. sorted R \<Longrightarrow> case part (length R) (b R x) of (s, n) \<Rightarrow> s + n \<le> length R \<and> (\<forall>r<length R. Q x (R ! r) \<longleftrightarrow> s \<le> r \<and> r < s + n)"
  shows "range_join part bound c sg left left_idx right right_idx
    = (let P = join_pairs (\<lambda>x y. Q (key_val sg x) (key_val sg y)) (zip left left_idx) (by_key sg right right_idx) in
        Some (Inr (map fst P, map snd P)))"
proof -
  let ?r = "by_key sg right right_idx"
  define R where "R = map (key_val sg) (map fst ?r)"
  define ri where "ri = map snd ?r"
  define K where "K = map fst ?r"
  have z: "?r = zip K ri" by (simp add: K_def ri_def zip_map_fst_snd)
  have R: "sorted R" unfolding R_def by (rule sorted_by_key)
  have lenR: "length R = length right" "length ri = length R" "length (map fst ?r) = length R" using len(2) by (simp_all add: R_def ri_def)
  let ?Q = "\<lambda>x y. Q (key_val sg x) (key_val sg y)"
  let ?sep = "map (b R) (map (key_val sg) left)"
  let ?p = "\<lambda>i. part (length R) (b R (key_val sg (left ! i)))"
  let ?P = "\<lambda>i. join_pairs ?Q (take i (zip left left_idx)) ?r" and ?n = "length left"
  have pairs: "map (\<lambda>r. (l, snd r)) (filter (\<lambda>r. ?Q x (fst r)) ?r) = map (Pair l) (take n (drop s ri))"
    and room: "s + n \<le> length R"
    if p: "part (length R) (b R (key_val sg x)) = (s, n)" for x s n l
  proof -
    from part [OF R, of "key_val sg x"] have pt: "s + n \<le> length R" "\<And>r. r < length R \<Longrightarrow> Q (key_val sg x) (R ! r) \<longleftrightarrow> s \<le> r \<and> r < s + n"
      by (simp_all add: p)
    then show "s + n \<le> length R" by simp
    have f: "filter (\<lambda>r. ?Q x (fst r)) (zip K ri) = map (\<lambda>r. (K ! r, ri ! r)) [s..<s + n]"
    proof (rule filter_zip_range [where P = "?Q x"])
      fix r assume "r < length K"
      then show "?Q x (K ! r) \<longleftrightarrow> s \<le> r \<and> r < s + n" using pt(2) [of r] lenR by (simp add: R_def K_def)
    qed (use pt lenR in \<open>simp_all add: K_def\<close>)
    have "map (\<lambda>r. (l, snd r)) (filter (\<lambda>r. ?Q x (fst r)) ?r) = map (\<lambda>r. (l, ri ! r)) [s..<s + n]"
      unfolding z f by (simp add: comp_def)
    also have "\<dots> = map (Pair l) (take n (drop s ri))" using pt(1) lenR by (intro nth_equalityI) simp_all
    finally show "map (\<lambda>r. (l, snd r)) (filter (\<lambda>r. ?Q x (fst r)) ?r) = map (Pair l) (take n (drop s ri))" .
  qed
  have step: "?P (Suc i) = ?P i @ map (Pair (left_idx ! i)) (take (snd (?p i)) (drop (fst (?p i)) ri))"
    and size: "length (?P (Suc i)) = length (?P i) + snd (?p i)" if i: "i < ?n" for i
  proof -
    have t: "take (Suc i) (zip left left_idx) = take i (zip left left_idx) @ [(left ! i, left_idx ! i)]"
      using i len(1) by (simp add: take_Suc_conv_app_nth)
    show 1: "?P (Suc i) = ?P i @ map (Pair (left_idx ! i)) (take (snd (?p i)) (drop (fst (?p i)) ri))"
      unfolding t join_pairs_append using pairs [of "left ! i" "fst (?p i)" "snd (?p i)" "left_idx ! i"] by simp
    show "length (?P (Suc i)) = length (?P i) + snd (?p i)"
      unfolding 1 using room [of "left ! i" "fst (?p i)" "snd (?p i)"] lenR by simp
  qed
  have total: "sum_list (map (\<lambda>s. snd (part (length R) s)) ?sep) = length (?P ?n)"
  proof -
    have "(\<Sum>i\<leftarrow>[0..<k]. snd (?p i)) = length (?P k)" if "k \<le> ?n" for k
      using that by (induction k) (simp_all add: size)
    moreover have "map (\<lambda>s. snd (part (length R) s)) ?sep = map (\<lambda>i. snd (?p i)) [0..<?n]" by (intro nth_equalityI) simp_all
    ultimately show ?thesis by simp
  qed
  have mono: "length (?P i) \<le> length (?P j)" if "i \<le> j" "j \<le> ?n" for i j
    using that by (induction j rule: dec_induct) (simp_all add: size)
  let ?N = "length (?P ?n)"
  let ?I = "\<lambda>i st. st = (length (?P i), map fst (?P i) @ replicate (?N - length (?P i)) 0, map snd (?P i) @ replicate (?N - length (?P i)) 0)"
  have "ok (for_each (\<lambda>i (crnt, left_out, right_out). do {
           s \<leftarrow> rd ?sep i;
           let (start, n) = part (length R) s;
           left_out \<leftarrow> for_each (\<lambda>j left_out. do { l \<leftarrow> rd left_idx i; wr left_out (crnt + j) l }) [0..<n] left_out;
           right_out \<leftarrow> copy_cells ri start right_out crnt n;
           Some (crnt + n, left_out, right_out) }) [0..<?n] (0, replicate ?N 0, replicate ?N 0)) (?I ?n)"
  proof (rule ok_for_range [where I = ?I])
    fix i st assume i: "0 \<le> i" "i < ?n" and I: "?I i st"
    obtain s n where p: "?p i = (s, n)" by (cases "?p i")
    have sn: "s + n \<le> length R" "length (?P i) + n \<le> ?N" "?P (Suc i) = ?P i @ map (Pair (left_idx ! i)) (take n (drop s ri))"
      "length (?P (Suc i)) = length (?P i) + n"
      using room [OF p] step [OF i(2)] size [OF i(2)] mono [of "Suc i" ?n] i(2) by (simp_all add: p)
    have fill: "for_each (\<lambda>j left_out. do { l \<leftarrow> rd left_idx i; wr left_out (length (?P i) + j) l }) [0..<n] (map fst (?P i) @ replicate (?N - length (?P i)) 0)
        = Some (map fst (?P (Suc i)) @ replicate (?N - length (?P (Suc i))) 0)"
      using fill_cells [of i left_idx "length (?P i)" n "map fst (?P i) @ replicate (?N - length (?P i)) 0"] i len(1) sn lenR
      by (simp add: comp_def map_replicate_const)
    have cp: "copy_cells ri s (map snd (?P i) @ replicate (?N - length (?P i)) 0) (length (?P i)) n
        = Some (map snd (?P (Suc i)) @ replicate (?N - length (?P (Suc i))) 0)"
      using copy_cells_eq [of s n ri "length (?P i)" "map snd (?P i) @ replicate (?N - length (?P i)) 0"] sn lenR by (simp add: comp_def)
    show "ok (case st of (crnt, left_out, right_out) \<Rightarrow> do {
           s \<leftarrow> rd ?sep i;
           let (start, n) = part (length R) s;
           left_out \<leftarrow> for_each (\<lambda>j left_out. do { l \<leftarrow> rd left_idx i; wr left_out (crnt + j) l }) [0..<n] left_out;
           right_out \<leftarrow> copy_cells ri start right_out crnt n;
           Some (crnt + n, left_out, right_out) }) (?I (Suc i))"
      using i I p fill cp sn(4) by simp
  qed simp_all
  then have loop: "for_each (\<lambda>i (crnt, left_out, right_out). do {
           s \<leftarrow> rd ?sep i;
           let (start, n) = part (length R) s;
           left_out \<leftarrow> for_each (\<lambda>j left_out. do { l \<leftarrow> rd left_idx i; wr left_out (crnt + j) l }) [0..<n] left_out;
           right_out \<leftarrow> copy_cells ri start right_out crnt n;
           Some (crnt + n, left_out, right_out) }) [0..<?n] (0, replicate ?N 0, replicate ?N 0) = Some (?N, map fst (?P ?n), map snd (?P ?n))"
    by (simp add: ok_eq)
  have "take ?n (zip left left_idx) = zip left left_idx" using len(1) by simp
  note P = this
  show ?thesis
    unfolding range_join_def radix_sort_vec_eq [OF w c len(2)] Option.bind.bind_lunit sum.case prod.case
      R_def [symmetric] ri_def [symmetric] bound [OF R] lenR(3) Let_def total
    using loop unfolding Let_def P by (simp only: Option.bind.bind_lunit prod.case)
qed

lemma bounds_eq:
  assumes "0 < V" "sorted R"
  shows "lower_bound_vec V R L = Some (map (lo R) L)" "upper_bound_vec V R L = Some (map (hi R) L)"
proof -
  have tw: "takeWhile (\<lambda>x. x \<le> v) R = filter (\<lambda>x. x \<le> v) R" for v
    using assms(2) by (rule sorted_takeWhile_filter) auto
  show "lower_bound_vec V R L = Some (map (lo R) L)"
    using assms by (auto simp: lower_bound_vec_def lower_bound_def Let_def lb.search_takeWhile count_less_eq lo_def map_replicate_const [symmetric])
  show "upper_bound_vec V R L = Some (map (hi R) L)"
    using assms by (auto simp: upper_bound_vec_def upper_bound_def Let_def ub.search_takeWhile tw hi_def map_replicate_const [symmetric])
qed

subsection \<open>Properties\<close>

text \<open>
  C1. The equi join of two columns of integer keys, in either build, returns exactly the pairs of row
  numbers with equal keys, each as often as it occurs: the scalar build over its multimap, the vector
  build over its hash table or, with repeated right keys, by sorting both sides and merging them in
  lanes.  So the builds agree up to the order of the rows.  The vector build needs left keys below the
  largest value of the type and a right side on which its test for unique keys is right.
\<close>
theorem equi_join_is_join:
  fixes left right :: "'w::len word list"
  assumes "LENGTH('w) = 32 \<or> LENGTH('w) = 64" "length left_idx = length left" "length right_idx = length right"
    and "3 * length right \<le> 34359738368 + 53" "length left \<le> 2 ^ (LENGTH('w) - 1)"
    and "\<forall>x\<in>set left. key_val sg x < key_max sg TYPE('w)" "unique_test_right spare sg right right_idx"
    and "multimap_order er"
  shows "\<exists>ve x86. equi_join_ve spare sg left left_idx right right_idx = Some (Inr (map fst ve, map snd ve)) \<and>
    equi_join_x86 er left left_idx right right_idx = Some (map fst x86, map snd x86) \<and>
    mset ve = mset (join_pairs (=) (zip left left_idx) (zip right right_idx)) \<and> mset x86 = mset ve"
  using equi_join_ve_ok [OF assms(1-7)] equi_join_x86_eq [OF assms(3,2), of er]
    mset_map_pairs [OF assms(8), of "zip left left_idx" "zip right right_idx"] by (fastforce simp: Let_def)

definition insertion_order :: "('k \<times> nat) list \<Rightarrow> 'k \<Rightarrow> nat list" where
  "insertion_order m k = map snd (filter (\<lambda>p. k = fst p) m)"

lemma insertion_order: "multimap_order insertion_order"
  by (simp add: multimap_order_def insertion_order_def)

theorem equi_join_is_join_witness:
  "\<exists>P. equi_join_ve 0 True [5, 3, 5, -1 :: 32 word] [0, 1, 2, 3] [3, 5, 9, 5] [7, 8, 9, 10] = Some (Inr (map fst P, map snd P)) \<and>
    mset P = {#(0, 8), (0, 10), (1, 7), (2, 8), (2, 10)#}"
proof -
  have mx: "\<forall>x\<in>set [5, 3, 5, -1 :: 32 word]. key_val True x < key_max True TYPE(32)"
    by (simp add: key_val_def key_max_def)
  from equi_join_is_join [OF _ _ _ _ _ mx _ insertion_order, of "[0, 1, 2, 3]" "[7, 8, 9, 10]" "[3, 5, 9, 5]" 0]
  show ?thesis by (auto simp: unique_test_right_def)
qed

text \<open>
  C8. The outer join, in either build: the pairs of the equi join, and the row numbers of exactly the left
  rows without partner.  In the vector build this needs distinct row numbers (it finds the rows without
  partner by their numbers) and a result that the hash table can hold.
\<close>
theorem outer_join_is_join:
  fixes left right :: "'w::len word list"
  assumes "LENGTH('w) = 32 \<or> LENGTH('w) = 64" "length left_idx = length left" "length right_idx = length right"
    and "3 * length right \<le> 34359738368 + 53" "length left \<le> 2 ^ (LENGTH('w) - 1)"
    and "3 * length (join_pairs (=) (zip left left_idx) (zip right right_idx)) \<le> 34359738368 + 53"
    and "\<forall>x\<in>set left. key_val sg x < key_max sg TYPE('w)" "unique_test_right spare sg right right_idx"
    and "distinct left_idx" "\<forall>i\<in>set left_idx. i < 2 ^ 64" and "multimap_order er"
  shows "\<exists>ve ve_only x86 x86_only.
    outer_equi_join_ve spare sg left left_idx right right_idx = Some (Inr ((map fst ve, map snd ve), ve_only)) \<and>
    outer_equi_join_x86 er left left_idx right right_idx = Some ((map fst x86, map snd x86), x86_only) \<and>
    mset ve = mset (join_pairs (=) (zip left left_idx) (zip right right_idx)) \<and> mset x86 = mset ve \<and>
    x86_only = map snd (filter (\<lambda>l. fst l \<notin> set right) (zip left left_idx)) \<and> mset ve_only = mset x86_only"
  using outer_equi_join_ve_ok [OF assms(1-10)] outer_equi_join_x86_eq [OF assms(3,2,11)]
    mset_map_pairs [OF assms(11), of "zip left left_idx" "zip right right_idx"] by (fastforce simp: Let_def unmatched_def)

theorem outer_join_is_join_witness:
  "\<exists>P only. outer_equi_join_ve 0 True [5, 3, 4, 5, -1 :: 32 word] [0, 1, 2, 3, 4] [3, 5, 9, 5] [7, 8, 9, 10]
      = Some (Inr ((map fst P, map snd P), only)) \<and>
    mset P = {#(0, 8), (0, 10), (1, 7), (3, 8), (3, 10)#} \<and> mset only = {#2, 4#}"
proof -
  have mx: "\<forall>x\<in>set [5, 3, 4, 5, -1 :: 32 word]. key_val True x < key_max True TYPE(32)"
    by (simp add: key_val_def key_max_def)
  from outer_join_is_join [OF _ _ _ _ _ _ mx _ _ _ insertion_order, of "[0, 1, 2, 3, 4]" "[7, 8, 9, 10]" "[3, 5, 9, 5]" 0]
  show ?thesis by (auto simp: unique_test_right_def)
qed

text \<open>
  The star join, in either build: a right column with a repeated key is refused, and otherwise the
  missed left rows are reported and every other row gets the row number of its key.
\<close>
theorem star_join_builds_agree:
  fixes left right :: "'w::len word list"
  assumes "LENGTH('w) = 32 \<or> LENGTH('w) = 64" "length right_idx = length right"
    and "3 * length right \<le> 34359738368 + 53" "length left \<le> 2 ^ (LENGTH('w) - 1)" "unique_test_right spare sg right right_idx"
  shows "if distinct right
    then \<exists>ve x86. let missed = filter (\<lambda>i. left ! i \<notin> set right) [0..<length left] in
      unique_equi_join2_ve spare sg left right right_idx = Some (Inr (ve, missed)) \<and>
      unique_equi_join2_x86 left right right_idx old = Some (Inr (x86, missed)) \<and>
      (\<forall>i<length left. i \<notin> set missed \<longrightarrow> ve ! i = x86 ! i \<and> (left ! i, ve ! i) \<in> set (zip right right_idx))
    else unique_equi_join2_ve spare sg left right right_idx = Some (Inl ''star_join: right column is not unique'') \<and>
      unique_equi_join2_x86 left right right_idx old = Some (Inl ''star_join: right column is not unique'')"
proof (cases rule: unique_cases [OF assms(1,2,3,5)])
  case (1 ht)
  let ?m = "map_of (zip right right_idx)"
  obtain x86 where x86: "unique_equi_join2_x86 left right right_idx old = Some (Inr (x86, filter (\<lambda>i. left ! i \<notin> set right) [0..<length left]))"
    "\<forall>i<length left. case ?m (left ! i) of None \<Rightarrow> True | Some v \<Rightarrow> x86 ! i = v"
    using unique_equi_join2_x86_eq [OF assms(2), of left old] 1(2) by (auto simp: ok_iff_ex)
  have ve: "unique_equi_join2_ve spare sg left right right_idx = Some (Inr (map (\<lambda>x. case ?m x of None \<Rightarrow> 0 | Some y \<Rightarrow> y) left,
      filter (\<lambda>i. left ! i \<notin> set right) [0..<length left]))"
    using 1 h_ve.lookup_miss_eq [OF assms(1) 1(3) assms(4), of spare] by (simp add: unique_equi_join2_ve_def map_of_zip_None assms(2))
  have row: "\<exists>v. ?m (left ! i) = Some v \<and> (left ! i, v) \<in> set (zip right right_idx)" if "left ! i \<in> set right" for i
    using that map_of_zip_None [OF assms(2), of "left ! i"] by (auto dest: map_of_SomeD)
  show ?thesis
    unfolding if_P [OF 1(2)] Let_def ve x86(1)
    using x86(2) row by (fastforce split: option.splits)
next
  case (2 ht)
  have nd: "\<not> distinct right" using 2(1) unique_table [OF assms(1-3), of spare sg] by auto
  then show ?thesis using 2(1) unique_equi_join2_x86_eq [OF assms(2), of left old]
    by (simp add: unique_equi_join2_ve_def not_unique_def)
qed

theorem star_join_builds_agree_witness:
  "unique_equi_join2_ve 0 True [5, 3 :: 32 word] [5, 6, 5] [7, 8, 9] = Some (Inl ''star_join: right column is not unique'') \<and>
   (\<exists>ve. unique_equi_join2_ve 0 True [5, 3 :: 32 word] [5, 6] [7, 8] = Some (Inr (ve, [1])))"
proof
  show "unique_equi_join2_ve 0 True [5, 3 :: 32 word] [5, 6, 5] [7, 8, 9] = Some (Inl ''star_join: right column is not unique'')"
    using star_join_builds_agree [of "[7, 8, 9]" "[5, 6, 5 :: 32 word]" "[5, 3]" 0 True "[]"] by (simp add: unique_test_right_def)
  show "\<exists>ve. unique_equi_join2_ve 0 True [5, 3 :: 32 word] [5, 6] [7, 8] = Some (Inr (ve, [1]))"
    using star_join_builds_agree [of "[7, 8]" "[5, 6 :: 32 word]" "[5, 3]" 0 True "[]"] by (auto simp: unique_test_right_def upt_rec Let_def)
qed

text \<open>The pairs in the order of the left rows and of the sorted right keys.\<close>

definition sorted_join ::
  "(int \<Rightarrow> int \<Rightarrow> bool) \<Rightarrow> bool \<Rightarrow> 'w::len word list \<Rightarrow> nat list \<Rightarrow> 'w word list \<Rightarrow> nat list \<Rightarrow> (string + nat list \<times> nat list) option" where
  "sorted_join Q sg left left_idx right right_idx =
     (if length right_idx \<noteq> length right then Some (Inl ''radix_sort: different size of arrays'')
      else let P = join_pairs (\<lambda>x y. Q (key_val sg x) (key_val sg y)) (zip left left_idx)
                     (sort_key (\<lambda>r. key_val sg (fst r)) (zip right right_idx)) in Some (Inr (map fst P, map snd P)))"

text \<open>
  C13. The joins by inequality, in either build: for every left row, in order, the right rows whose key is
  larger, not smaller, smaller or not larger, in the stable order of their keys, and nothing else;
  columns of different lengths are reported.
\<close>
theorem inequality_joins:
  fixes left right :: "'w::len word list"
  assumes "LENGTH('w) = 32 \<or> LENGTH('w) = 64" "c = radix_cfg_ve \<or> c = radix_cfg_x86" "0 < V" "length left_idx = length left"
  shows "lt_join V c sg left left_idx right right_idx = sorted_join (<) sg left left_idx right right_idx \<and>
    le_join V c sg left left_idx right right_idx = sorted_join (\<le>) sg left left_idx right right_idx \<and>
    gt_join V c sg left left_idx right right_idx = sorted_join (>) sg left left_idx right right_idx \<and>
    ge_join V c sg left left_idx right right_idx = sorted_join (\<ge>) sg left left_idx right right_idx"
proof (cases "length right_idx = length right")
  case False
  then show ?thesis by (simp add: sorted_join_def lt_join_def le_join_def gt_join_def ge_join_def range_join_def radix_sort_vec_def)
next
  case True
  note eq = range_join_eq [OF assms(1,2,4) True]
  have part: "r < length R \<Longrightarrow> x < R ! r \<longleftrightarrow> hi R x \<le> r" "r < length R \<Longrightarrow> x \<le> R ! r \<longleftrightarrow> lo R x \<le> r"
    "r < length R \<Longrightarrow> x > R ! r \<longleftrightarrow> r < lo R x" "r < length R \<Longrightarrow> x \<ge> R ! r \<longleftrightarrow> r < hi R x"
    if "sorted R" for R :: "int list" and x r
    using nth_lo [OF that, of r x] nth_hi [OF that, of r x] by auto
  have le: "lo R x \<le> length R" "hi R x \<le> length R" for R and x :: int using lo_hi(1,2) [of R x] by simp_all
  have "lt_join V c sg left left_idx right right_idx = sorted_join (<) sg left left_idx right right_idx"
    unfolding sorted_join_def lt_join_def using True part(1) le(2)
    by (simp add: eq [where b = hi and Q = "(<)"] bounds_eq [OF assms(3)])
  moreover have "le_join V c sg left left_idx right right_idx = sorted_join (\<le>) sg left left_idx right right_idx"
    unfolding sorted_join_def le_join_def using True part(2) le(1)
    by (simp add: eq [where b = lo and Q = "(\<le>)"] bounds_eq [OF assms(3)])
  moreover have "gt_join V c sg left left_idx right right_idx = sorted_join (>) sg left left_idx right right_idx"
    unfolding sorted_join_def gt_join_def using True part(3) le(1)
    by (simp add: eq [where b = lo and Q = "(>)"] bounds_eq [OF assms(3)])
  moreover have "ge_join V c sg left left_idx right right_idx = sorted_join (\<ge>) sg left left_idx right right_idx"
    unfolding sorted_join_def ge_join_def using True part(4) le(2)
    by (simp add: eq [where b = hi and Q = "(\<ge>)"] bounds_eq [OF assms(3)])
  ultimately show ?thesis by simp
qed

theorem inequality_joins_witness:
  "lt_join 4 radix_cfg_x86 True [5, -1 :: 32 word] [0, 1] [9, 5, 2] [7, 8, 9] = Some (Inr ([0, 1, 1, 1], [7, 9, 8, 7]))"
  using inequality_joins [of radix_cfg_x86 4 "[0, 1]" "[5, -1 :: 32 word]" True "[9, 5, 2]" "[7, 8, 9]"] by (simp add: sorted_join_def key_val_def)

text \<open>
  A left key that is the largest value of its type meets the sentinel behind the right column: the lane
  reads the right row number past the end.
\<close>
lemma merge_join_past_end: "multi_equi_join 1 (7 :: nat) [0, 2] [7, 7] [10, 11] [7, 7] [0, 1] = None"
  by code_simp

end
