(* ===== verification/Crs.thy ===== *)
theory Crs
  imports PrefixSum
begin

text \<open>
  matrix/crs_matrix.hpp: local sparse matrices in compressed row storage.

  A matrix keeps the values of all rows one after the other (\<open>val\<close>), the column of every value
  (\<open>idx\<close>), and where each row starts (\<open>off\<close>, one cell more than there are rows).  This theory holds
  the data types and the constructing, converting and moving operations; the arithmetic is in
  \<open>CrsArith\<close>.  Indices and offsets are natural numbers: the widths of \<open>I\<close> and \<open>O\<close> are template
  parameters of the source, and the model is about matrices whose counts fit in them.
  \<open>&v[0]\<close> of an empty vector is a pointer that the loops never follow.
\<close>

subsection \<open>Data\<close>

record 'a sparse_vector =
  sv_val :: "'a list"
  sv_idx :: "nat list"
  sv_size :: nat

record 'a crs_matrix_local =
  crs_val :: "'a list"
  crs_idx :: "nat list"
  crs_off :: "nat list"
  crs_nrow :: nat
  crs_ncol :: nat

record 'a rowmajor_matrix_local =
  rm_val :: "'a list"
  rm_nrow :: nat
  rm_ncol :: nat

text \<open>The constructors: a new matrix has one offset, 0; a new dense matrix is all zero.\<close>

definition new_crs :: "nat \<Rightarrow> nat \<Rightarrow> 'a crs_matrix_local" where
  "new_crs nrows ncols = \<lparr> crs_val = [], crs_idx = [], crs_off = [0], crs_nrow = nrows, crs_ncol = ncols \<rparr>"

definition new_rowmajor :: "nat \<Rightarrow> nat \<Rightarrow> 'a::zero rowmajor_matrix_local" where
  "new_rowmajor r c = \<lparr> rm_val = replicate (r * c) 0, rm_nrow = r, rm_ncol = c \<rparr>"

definition crs_clear :: "'a crs_matrix_local \<Rightarrow> 'a crs_matrix_local" where
  "crs_clear m = m\<lparr> crs_val := [], crs_idx := [], crs_off := [0], crs_nrow := 0, crs_ncol := 0 \<rparr>"

definition crs_set_local_num :: "'a crs_matrix_local \<Rightarrow> nat \<Rightarrow> 'a crs_matrix_local" where
  "crs_set_local_num m c = m\<lparr> crs_ncol := c, crs_nrow := length (crs_off m) - 1 \<rparr>"

text \<open>The arrays of the caller are given as lists; the offsets are appended to those present.\<close>

definition copy_from_jarray ::
  "'a::zero crs_matrix_local \<Rightarrow> nat list \<Rightarrow> nat list \<Rightarrow> 'a list \<Rightarrow> nat \<Rightarrow> 'a crs_matrix_local option" where
  "copy_from_jarray m joff jidx jval n = do {
     val \<leftarrow> copy_cells jval 0 (replicate n 0) 0 n;
     idx \<leftarrow> copy_cells jidx 0 (replicate n 0) 0 n;
     off \<leftarrow> for_each (\<lambda>i off. do { o' \<leftarrow> rd joff (i + 1); Some (off @ [o']) }) [0..<crs_nrow m] (crs_off m);
     Some (m\<lparr> crs_val := val, crs_idx := idx, crs_off := off \<rparr>) }"

subsection \<open>Loops over the stored values\<close>

text \<open>\<open>for (O pos = offp[row]; pos < offp[row+1]; pos++)\<close> and the loop over all rows around it.\<close>

definition row_loop :: "nat list \<Rightarrow> nat \<Rightarrow> (nat \<Rightarrow> 's \<Rightarrow> 's option) \<Rightarrow> 's \<Rightarrow> 's option" where
  "row_loop off row f s = do {
     first \<leftarrow> rd off row;
     stop \<leftarrow> rd off (row + 1);
     for_each f [first..<stop] s }"

definition rows_loop :: "nat list \<Rightarrow> nat \<Rightarrow> (nat \<Rightarrow> nat \<Rightarrow> 's \<Rightarrow> 's option) \<Rightarrow> 's \<Rightarrow> 's option" where
  "rows_loop off nrow f s = for_each (\<lambda>row. row_loop off row (f row)) [0..<nrow] s"

text \<open>
  The width of a row, \<open>offp[k+1] - offp[k]\<close> on unsigned words.  Where the offsets decrease the
  difference wraps to a size no allocation can satisfy; that is \<open>None\<close>.
\<close>

definition row_width :: "nat list \<Rightarrow> nat \<Rightarrow> nat option" where
  "row_width off row = do {
     first \<leftarrow> rd off row;
     stop \<leftarrow> rd off (row + 1);
     if first \<le> stop then Some (stop - first) else None }"

text \<open>The offsets of \<open>nrows\<close> rows from row \<open>start\<close>, counted from 0 again.\<close>

definition shift_offsets :: "nat list \<Rightarrow> nat \<Rightarrow> nat \<Rightarrow> nat list option" where
  "shift_offsets off start nrows = for_each (\<lambda>j roff. do {
       o' \<leftarrow> rd roff j;
       w \<leftarrow> row_width off (start + j);
       wr roff (j + 1) (o' + w) }) [0..<nrows] (replicate (nrows + 1) 0)"

subsection \<open>Sparse vectors\<close>

definition sparse_to_dense :: "'a sparse_vector \<Rightarrow> 'a list \<Rightarrow> 'a list option" where
  "sparse_to_dense sv ret = for_each (\<lambda>i ret. do {
       p \<leftarrow> rd (sv_idx sv) i;
       v \<leftarrow> rd (sv_val sv) i;
       wr ret p v }) [0..<length (sv_val sv)] ret"

definition sv_to_vector :: "'a::zero sparse_vector \<Rightarrow> 'a list option" where
  "sv_to_vector sv = sparse_to_dense sv (replicate (sv_size sv) 0)"

definition get_row :: "'a::zero crs_matrix_local \<Rightarrow> nat \<Rightarrow> (string + 'a sparse_vector) option" where
  "get_row m k =
     (if crs_nrow m < k then Some (Inl ''get_row: invalid position'')
      else do {
        n \<leftarrow> row_width (crs_off m) k;
        first \<leftarrow> rd (crs_off m) k;
        val \<leftarrow> copy_cells (crs_val m) first (replicate n 0) 0 n;
        idx \<leftarrow> copy_cells (crs_idx m) first (replicate n 0) 0 n;
        Some (Inr \<lparr> sv_val = val, sv_idx = idx, sv_size = crs_ncol m \<rparr>) })"

subsection \<open>Transposition\<close>

text \<open>
  Count the values of every column, turn the counts into offsets with \<open>prefix_sum\<close> (the argument:
  the routine of either build, called on \<open>ret_off + 1\<close>), and place every value behind those already
  placed in its column.
\<close>

definition transpose_count :: "nat list \<Rightarrow> nat list \<Rightarrow> nat \<Rightarrow> nat list \<Rightarrow> nat list option" where
  "transpose_count idx off nrow num_item = rows_loop off nrow (\<lambda>_ src_pos num_item. do {
       c \<leftarrow> rd idx src_pos;
       n \<leftarrow> rd num_item c;
       wr num_item c (n + 1) }) num_item"

definition transpose_place ::
  "'a list \<Rightarrow> nat list \<Rightarrow> nat list \<Rightarrow> nat \<Rightarrow> nat \<Rightarrow> 'a list \<times> nat list \<times> nat list \<Rightarrow>
   ('a list \<times> nat list \<times> nat list) option" where
  "transpose_place val idx ret_off src_row src_pos st = do {
     let (ret_val, ret_idx, current_item) = st;
     src_col \<leftarrow> rd idx src_pos;
     src_val \<leftarrow> rd val src_pos;
     start \<leftarrow> rd ret_off src_col;
     current \<leftarrow> rd current_item src_col;
     let dst_pos = start + current;
     ret_val \<leftarrow> wr ret_val dst_pos src_val;
     ret_idx \<leftarrow> wr ret_idx dst_pos src_row;
     current_item \<leftarrow> wr current_item src_col (current + 1);
     Some (ret_val, ret_idx, current_item) }"

definition transpose_compressed_matrix ::
  "(nat list \<Rightarrow> nat list \<Rightarrow> nat \<Rightarrow> nat list option) \<Rightarrow> 'a::zero list \<Rightarrow> nat list \<Rightarrow> nat list \<Rightarrow> nat \<Rightarrow> nat \<Rightarrow>
   ('a list \<times> nat list \<times> nat list) option" where
  "transpose_compressed_matrix prefix_sum val idx off nrow ncol = do {
     num_item \<leftarrow> transpose_count idx off nrow (replicate ncol 0);
     sums \<leftarrow> prefix_sum num_item (replicate ncol 0) ncol;
     let ret_off = 0 # sums;
     (ret_val, ret_idx, _) \<leftarrow> rows_loop off nrow (transpose_place val idx ret_off)
       (replicate (length val) 0, replicate (length idx) 0, replicate ncol 0);
     Some (ret_val, ret_idx, ret_off) }"

definition crs_transpose ::
  "(nat list \<Rightarrow> nat list \<Rightarrow> nat \<Rightarrow> nat list option) \<Rightarrow> 'a::zero crs_matrix_local \<Rightarrow> 'a crs_matrix_local option" where
  "crs_transpose prefix_sum m = do {
     (val, idx, off) \<leftarrow> transpose_compressed_matrix prefix_sum (crs_val m) (crs_idx m) (crs_off m)
       (crs_nrow m) (crs_ncol m);
     Some \<lparr> crs_val = val, crs_idx = idx, crs_off = off, crs_nrow = crs_ncol m, crs_ncol = crs_nrow m \<rparr> }"

subsection \<open>Dense matrices and back\<close>

definition to_rowmajor :: "'a::zero crs_matrix_local \<Rightarrow> 'a rowmajor_matrix_local option" where
  "to_rowmajor m = do {
     let ret = new_rowmajor (crs_nrow m) (crs_ncol m);
     val \<leftarrow> rows_loop (crs_off m) (crs_nrow m) (\<lambda>row pos retval. do {
         c \<leftarrow> rd (crs_idx m) pos;
         v \<leftarrow> rd (crs_val m) pos;
         wr retval (crs_ncol m * row + c) v }) (rm_val ret);
     Some (ret\<lparr> rm_val := val \<rparr>) }"

definition to_crs_cell ::
  "'a::zero list \<Rightarrow> nat \<Rightarrow> nat \<Rightarrow> nat \<Rightarrow> 'a list \<times> nat list \<times> nat \<Rightarrow> ('a list \<times> nat list \<times> nat) option" where
  "to_crs_cell val ncol i j st = do {
     let (retval, retidx, current) = st;
     v \<leftarrow> rd val (i * ncol + j);
     if v \<noteq> 0 then do {
       retval \<leftarrow> wr retval current v;
       retidx \<leftarrow> wr retidx current j;
       Some (retval, retidx, current + 1) }
     else Some st }"

definition to_crs :: "'a::zero rowmajor_matrix_local \<Rightarrow> 'a crs_matrix_local option" where
  "to_crs m = do {
     let nrow = rm_nrow m;
     let ncol = rm_ncol m;
     nnz \<leftarrow> for_each (\<lambda>i nnz. do { v \<leftarrow> rd (rm_val m) i; Some (if v \<noteq> 0 then nnz + 1 else nnz) })
       [0..<length (rm_val m)] 0;
     (retval, retidx, retoff, _) \<leftarrow> for_each (\<lambda>i (retval, retidx, retoff, current). do {
         (retval, retidx, current) \<leftarrow> for_each (to_crs_cell (rm_val m) ncol i) [0..<ncol] (retval, retidx, current);
         retoff \<leftarrow> wr retoff (i + 1) current;
         Some (retval, retidx, retoff, current) }) [0..<nrow]
       (replicate nnz 0, replicate nnz 0, replicate (nrow + 1) 0, 0);
     Some \<lparr> crs_val = retval, crs_idx = retidx, crs_off = retoff, crs_nrow = nrow, crs_ncol = ncol \<rparr> }"

end
