(* ===== verification/CrsArith.thy ===== *)
theory CrsArith
  imports Crs "HOL-Library.Word"
begin

text \<open>
  matrix/crs_matrix.hpp: products, sums and selections on local CRS matrices.  Values come from a
  semiring (machine integers wrap and are one; rounding of floating point values is not modelled), and
  every sum is taken in the order of the source.  A call that throws returns \<open>Inl\<close>.
\<close>

text \<open>\<open>ret[p] += x\<close>, the update of all the products.\<close>

definition add_at :: "'a::plus list \<Rightarrow> nat \<Rightarrow> 'a \<Rightarrow> 'a list option" where
  "add_at ret p x = do { v \<leftarrow> rd ret p; wr ret p (v + x) }"

definition mul_at :: "'a::times list \<Rightarrow> nat \<Rightarrow> 'a list \<Rightarrow> nat \<Rightarrow> 'a option" where
  "mul_at xs i ys j = do { x \<leftarrow> rd xs i; y \<leftarrow> rd ys j; Some (x * y) }"

subsection \<open>Matrix times vector\<close>

definition crs_matrix_spmv_impl :: "'a::{plus,times} crs_matrix_local \<Rightarrow> 'a list \<Rightarrow> 'a list \<Rightarrow> 'a list option" where
  "crs_matrix_spmv_impl m ret v = rows_loop (crs_off m) (crs_nrow m) (\<lambda>r c ret. do {
       i \<leftarrow> rd (crs_idx m) c;
       x \<leftarrow> mul_at (crs_val m) c v i;
       add_at ret r x }) ret"

definition crs_times_vector :: "'a::{zero,plus,times} crs_matrix_local \<Rightarrow> 'a list \<Rightarrow> (string + 'a list) option" where
  "crs_times_vector m v =
     (if crs_ncol m \<noteq> length v then Some (Inl ''operator*: size of vector does not match'')
      else map_option Inr (crs_matrix_spmv_impl m (replicate (crs_nrow m) 0) v))"

subsection \<open>Sparse times dense, vector build\<close>

text \<open>
  A dense operand of fewer than \<open>THR\<close> columns is handled in unrolled blocks of 16, 8, 4 and 1
  columns: \<open>spmm_block w\<close> is one \<open>for(; mc + (w-1) < num_col; mc += w)\<close> loop, its \<open>w\<close> statements per
  value written as a loop over \<open>[0..<w]\<close>.
\<close>

definition spmm_block ::
  "'a::{plus,times} crs_matrix_local \<Rightarrow> 'a list \<Rightarrow> nat \<Rightarrow> nat \<Rightarrow> nat \<Rightarrow> nat \<times> 'a list \<Rightarrow> (nat \<times> 'a list) option" where
  "spmm_block m vv num_col r w = cwhile (\<lambda>(mc, ret). mc + (w - 1) < num_col) (\<lambda>(mc, ret). do {
       ret \<leftarrow> row_loop (crs_off m) r (\<lambda>c ret. do {
           i \<leftarrow> rd (crs_idx m) c;
           for_each (\<lambda>k ret. do {
               x \<leftarrow> mul_at (crs_val m) c vv (i * num_col + mc + k);
               add_at ret (r * num_col + mc + k) x }) [0..<w] ret }) ret;
       Some (mc + w, ret) })"

text \<open>Wide operands: \<open>V\<close> columns at a time in the register \<open>current_sum\<close>.\<close>

definition spmm_gather ::
  "'a::{plus,times} crs_matrix_local \<Rightarrow> 'a list \<Rightarrow> nat \<Rightarrow> nat \<Rightarrow> nat \<Rightarrow> nat \<Rightarrow> 'a list \<Rightarrow> 'a list option" where
  "spmm_gather m vv num_col base w r cur = row_loop (crs_off m) r (\<lambda>c cur. do {
       i \<leftarrow> rd (crs_idx m) c;
       for_each (\<lambda>mc cur. do {
           x \<leftarrow> mul_at (crs_val m) c vv (i * num_col + base + mc);
           add_at cur mc x }) [0..<w] cur }) cur"

definition spmm_chunk ::
  "'a::{plus,times,zero} crs_matrix_local \<Rightarrow> 'a list \<Rightarrow> nat \<Rightarrow> nat \<Rightarrow> nat \<Rightarrow> nat \<Rightarrow> 'a list \<times> 'a list \<Rightarrow>
   ('a list \<times> 'a list) option" where
  "spmm_chunk m vv num_col base w r st = do {
     let (cur, ret) = st;
     cur \<leftarrow> spmm_gather m vv num_col base w r cur;
     ret \<leftarrow> for_each (\<lambda>mc ret. do { s \<leftarrow> rd cur mc; add_at ret (r * num_col + base + mc) s }) [0..<w] ret;
     cur \<leftarrow> for_each (\<lambda>i cur. wr cur i 0) [0..<w] cur;
     Some (cur, ret) }"

definition crs_matrix_spmm_impl2 ::
  "nat \<Rightarrow> 'a::{plus,times,zero} crs_matrix_local \<Rightarrow> 'a list \<Rightarrow> 'a list \<Rightarrow> nat \<Rightarrow> 'a list option" where
  "crs_matrix_spmm_impl2 V m ret vv num_col = do {
     let each = num_col div V;
     let rest = num_col mod V;
     (cur, ret) \<leftarrow> for_each (\<lambda>r st. do {
         st \<leftarrow> for_each (\<lambda>e. spmm_chunk m vv num_col (V * e) V r) [0..<each] st;
         spmm_chunk m vv num_col (V * each) rest r st }) [0..<crs_nrow m] (replicate V 0, ret);
     Some ret }"

definition crs_matrix_spmm_impl_ve ::
  "nat \<Rightarrow> nat \<Rightarrow> 'a::{plus,times,zero} crs_matrix_local \<Rightarrow> 'a list \<Rightarrow> 'a list \<Rightarrow> nat \<Rightarrow> 'a list option" where
  "crs_matrix_spmm_impl_ve THR V m ret vv num_col =
     (if num_col < THR then
        for_each (\<lambda>r ret. do {
            st \<leftarrow> spmm_block m vv num_col r 16 (0, ret);
            st \<leftarrow> spmm_block m vv num_col r 8 st;
            st \<leftarrow> spmm_block m vv num_col r 4 st;
            (_, ret) \<leftarrow> spmm_block m vv num_col r 1 st;
            Some ret }) [0..<crs_nrow m] ret
      else crs_matrix_spmm_impl2 V m ret vv num_col)"

subsection \<open>Sparse times dense, scalar build\<close>

definition crs_matrix_spmm_impl_x86 ::
  "'a::{plus,times} crs_matrix_local \<Rightarrow> 'a list \<Rightarrow> 'a list \<Rightarrow> nat \<Rightarrow> 'a list option" where
  "crs_matrix_spmm_impl_x86 m ret vv num_col = rows_loop (crs_off m) (crs_nrow m) (\<lambda>r c ret. do {
       i \<leftarrow> rd (crs_idx m) c;
       for_each (\<lambda>mc ret. do {
           x \<leftarrow> mul_at (crs_val m) c vv (i * num_col + mc);
           add_at ret (r * num_col + mc) x }) [0..<num_col] ret }) ret"

text \<open>\<open>operator*\<close> on a CRS matrix and a dense one; the kernel of the build is the argument.\<close>

definition crs_times_rowmajor ::
  "('a crs_matrix_local \<Rightarrow> 'a list \<Rightarrow> 'a list \<Rightarrow> nat \<Rightarrow> 'a list option) \<Rightarrow>
   'a::zero crs_matrix_local \<Rightarrow> 'a rowmajor_matrix_local \<Rightarrow> (string + 'a rowmajor_matrix_local) option" where
  "crs_times_rowmajor spmm m v =
     (if crs_ncol m \<noteq> rm_nrow v then Some (Inl ''invalid size for matrix multiplication'')
      else do {
        let ret = new_rowmajor (crs_nrow m) (rm_ncol v);
        val \<leftarrow> spmm m (rm_val ret) (rm_val v) (rm_ncol v);
        Some (Inr (ret\<lparr> rm_val := val \<rparr>)) })"

subsection \<open>Dense times sparse\<close>

text \<open>One update: row \<open>r1\<close> of the dense operand, value \<open>c\<close> of row \<open>r2\<close> of the sparse one.\<close>

definition dense_sparse_at ::
  "'a::{plus,times} rowmajor_matrix_local \<Rightarrow> 'a crs_matrix_local \<Rightarrow> nat \<Rightarrow> nat \<Rightarrow> nat \<Rightarrow> 'a list \<Rightarrow> 'a list option" where
  "dense_sparse_at a b r2 r1 c ret = do {
     i \<leftarrow> rd (crs_idx b) c;
     x \<leftarrow> mul_at (rm_val a) (r1 * rm_ncol a + r2) (crs_val b) c;
     add_at ret (r1 * crs_ncol b + i) x }"

text \<open>The vector build puts the longer of the two loops inside.\<close>

definition dense_sparse_row_ve ::
  "'a::{plus,times} rowmajor_matrix_local \<Rightarrow> 'a crs_matrix_local \<Rightarrow> nat \<Rightarrow> 'a list \<Rightarrow> 'a list option" where
  "dense_sparse_row_ve a b r2 ret = do {
     n \<leftarrow> row_width (crs_off b) r2;
     if n < rm_nrow a then
       row_loop (crs_off b) r2 (\<lambda>c. for_each (\<lambda>r1. dense_sparse_at a b r2 r1 c) [0..<rm_nrow a]) ret
     else
       for_each (\<lambda>r1. row_loop (crs_off b) r2 (dense_sparse_at a b r2 r1)) [0..<rm_nrow a] ret }"

definition dense_sparse_row_x86 ::
  "'a::{plus,times} rowmajor_matrix_local \<Rightarrow> 'a crs_matrix_local \<Rightarrow> nat \<Rightarrow> 'a list \<Rightarrow> 'a list option" where
  "dense_sparse_row_x86 a b r2 ret =
     row_loop (crs_off b) r2 (\<lambda>c. for_each (\<lambda>r1. dense_sparse_at a b r2 r1 c) [0..<rm_nrow a]) ret"

definition rowmajor_times_crs ::
  "('a rowmajor_matrix_local \<Rightarrow> 'a crs_matrix_local \<Rightarrow> nat \<Rightarrow> 'a list \<Rightarrow> 'a list option) \<Rightarrow>
   'a::zero rowmajor_matrix_local \<Rightarrow> 'a crs_matrix_local \<Rightarrow> (string + 'a rowmajor_matrix_local) option" where
  "rowmajor_times_crs row_kernel a b =
     (if rm_ncol a \<noteq> crs_nrow b then Some (Inl ''invalid size for matrix multiplication'')
      else do {
        let ret = new_rowmajor (rm_nrow a) (crs_ncol b);
        val \<leftarrow> for_each (row_kernel a b) [0..<crs_nrow b] (rm_val ret);
        Some (Inr (ret\<lparr> rm_val := val \<rparr>)) })"

subsection \<open>Sparse times sparse\<close>

definition crs_mm ::
  "'a::{zero,plus,times} crs_matrix_local \<Rightarrow> 'a crs_matrix_local \<Rightarrow> (string + 'a rowmajor_matrix_local) option" where
  "crs_mm a b =
     (if crs_ncol a \<noteq> crs_nrow b then Some (Inl ''invalid size for matrix multiplication'')
      else do {
        let ret = new_rowmajor (crs_nrow a) (crs_ncol b);
        val \<leftarrow> rows_loop (crs_off a) (crs_nrow a) (\<lambda>r1 c1 ret. do {
            i \<leftarrow> rd (crs_idx a) c1;
            row_loop (crs_off b) i (\<lambda>c2 ret. do {
                j \<leftarrow> rd (crs_idx b) c2;
                x \<leftarrow> mul_at (crs_val a) c1 (crs_val b) c2;
                add_at ret (r1 * crs_ncol b + j) x }) ret }) (rm_val ret);
        Some (Inr (ret\<lparr> rm_val := val \<rparr>)) })"

subsection \<open>Sums of rows and columns\<close>

text \<open>\<open>count.resize(n)\<close> keeps what the caller's vector already holds.\<close>

definition vec_resize :: "'a::zero list \<Rightarrow> nat \<Rightarrow> 'a list" where
  "vec_resize xs n = take n xs @ replicate (n - length xs) 0"

definition sum_of_rows :: "'a::{zero,plus} crs_matrix_local \<Rightarrow> nat list \<Rightarrow> ('a list \<times> nat list) option" where
  "sum_of_rows m count = rows_loop (crs_off m) (crs_nrow m) (\<lambda>_ j (ret, count). do {
       c \<leftarrow> rd (crs_idx m) j;
       v \<leftarrow> rd (crs_val m) j;
       ret \<leftarrow> add_at ret c v;
       count \<leftarrow> add_at count c 1;
       Some (ret, count) }) (replicate (crs_ncol m) 0, vec_resize count (crs_ncol m))"

text \<open>
  \<open>int rem = moffp[j+1] - moffp[j] - i\<close> is a 64-bit difference cut to 32 bits and read as signed.
\<close>

definition rem32 :: "nat \<Rightarrow> nat \<Rightarrow> int" where
  "rem32 len i = sint (word_of_int (int len - int i) :: 32 word)"

definition sum_of_cols :: "'a::{zero,plus} crs_matrix_local \<Rightarrow> nat list \<Rightarrow> ('a list \<times> nat list) option" where
  "sum_of_cols m count = do {
     let nrow = crs_nrow m;
     (maxlen, count) \<leftarrow> for_each (\<lambda>i (maxlen, count). do {
         rowlen \<leftarrow> row_width (crs_off m) i;
         count \<leftarrow> wr count i rowlen;
         Some (if maxlen < rowlen then rowlen else maxlen, count) }) [0..<nrow] (0, vec_resize count nrow);
     sum_vec \<leftarrow> for_each (\<lambda>i. for_each (\<lambda>j sum_vec. do {
         len \<leftarrow> row_width (crs_off m) j;
         if 0 < rem32 len i then do {
           first \<leftarrow> rd (crs_off m) j;
           v \<leftarrow> rd (crs_val m) (first + i);
           add_at sum_vec j v }
         else Some sum_vec }) [0..<nrow]) [0..<maxlen] (replicate nrow 0);
     Some (sum_vec, count) }"

subsection \<open>Row vectors applied to the stored values, scaling\<close>

definition crs_vector_row :: "('a \<Rightarrow> 'a \<Rightarrow> 'a) \<Rightarrow> 'a crs_matrix_local \<Rightarrow> 'a list \<Rightarrow> 'a crs_matrix_local option" where
  "crs_vector_row oper m vec = do {
     val \<leftarrow> for_each (\<lambda>i val. do {
         c \<leftarrow> rd (crs_idx m) i;
         x \<leftarrow> rd vec c;
         v \<leftarrow> rd val i;
         wr val i (oper v x) }) [0..<length (crs_val m)] (crs_val m);
     Some (m\<lparr> crs_val := val \<rparr>) }"

definition crs_sub_vector_row :: "'a::minus crs_matrix_local \<Rightarrow> 'a list \<Rightarrow> 'a crs_matrix_local option" where
  "crs_sub_vector_row = crs_vector_row (-)"

definition crs_add_vector_row :: "'a::plus crs_matrix_local \<Rightarrow> 'a list \<Rightarrow> 'a crs_matrix_local option" where
  "crs_add_vector_row = crs_vector_row (+)"

definition crs_mul_vector_row :: "'a::times crs_matrix_local \<Rightarrow> 'a list \<Rightarrow> 'a crs_matrix_local option" where
  "crs_mul_vector_row = crs_vector_row (*)"

definition scale_crs_matrix_impl ::
  "'a::{zero,times} crs_matrix_local \<Rightarrow> int \<Rightarrow> 'a list \<Rightarrow> (string + 'a crs_matrix_local) option" where
  "scale_crs_matrix_impl m axis vec = do {
     let nnz = length (crs_val m);
     let rval = replicate nnz 0;
     if axis = 0 then
       (if length vec \<noteq> crs_nrow m then Some (Inl ''vector size does not match with number of rows in matrix'')
        else do {
          rval \<leftarrow> rows_loop (crs_off m) (crs_nrow m) (\<lambda>i j rval. do {
              x \<leftarrow> mul_at (crs_val m) j vec i;
              wr rval j x }) rval;
          Some (Inr (m\<lparr> crs_val := rval \<rparr>)) })
     else if axis = 1 then
       (if length vec \<noteq> crs_ncol m then Some (Inl ''vector size does not match with number of cols in matrix'')
        else do {
          rval \<leftarrow> for_each (\<lambda>i rval. do {
              c \<leftarrow> rd (crs_idx m) i;
              x \<leftarrow> mul_at (crs_val m) i vec c;
              wr rval i x }) [0..<nnz] rval;
          Some (Inr (m\<lparr> crs_val := rval \<rparr>)) })
     else Some (Inl (''expected axis is either 0 or 1'' @ [CHR 0x0A])) }"

subsection \<open>Selecting rows\<close>

definition extract_entry ::
  "'a crs_matrix_local \<Rightarrow> nat \<Rightarrow> 'a list \<times> nat list \<times> nat \<Rightarrow> ('a list \<times> nat list \<times> nat) option" where
  "extract_entry m o' st = do {
     let (rval, ridx, counter) = st;
     c \<leftarrow> rd (crs_idx m) o';
     ridx \<leftarrow> wr ridx counter c;
     v \<leftarrow> rd (crs_val m) o';
     rval \<leftarrow> wr rval counter v;
     Some (rval, ridx, counter + 1) }"

definition extract_rows :: "'a::zero crs_matrix_local \<Rightarrow> nat list \<Rightarrow> (string + 'a crs_matrix_local) option" where
  "extract_rows m rowids = do {
     let n = length rowids;
     let count_invalid = length (filter (\<lambda>r. crs_nrow m \<le> r) rowids);
     if count_invalid \<noteq> 0 then Some (Inl ''extract_rows: invalid position'')
     else do {
       num_elements \<leftarrow> for_each (\<lambda>r k. do { w \<leftarrow> row_width (crs_off m) r; Some (k + w) }) rowids 0;
       (rval, ridx, counter, roff) \<leftarrow> for_each (\<lambda>i (rval, ridx, counter, roff). do {
           r \<leftarrow> rd rowids i;
           (rval, ridx, counter) \<leftarrow> row_loop (crs_off m) r (extract_entry m) (rval, ridx, counter);
           roff \<leftarrow> wr roff (i + 1) counter;
           Some (rval, ridx, counter, roff) }) [0..<n]
         (replicate num_elements 0, replicate num_elements 0, 0, replicate (n + 1) 0);
       Some (Inr \<lparr> crs_val = rval, crs_idx = ridx, crs_off = roff, crs_nrow = n, crs_ncol = crs_ncol m \<rparr>) } }"

text \<open>Rows \<open>start..end\<close>, both included, the values multiplied by \<open>alpha\<close>.\<close>

definition slice_crs_matrix :: "'a::{zero,times} crs_matrix_local \<Rightarrow> nat \<Rightarrow> nat \<Rightarrow> 'a \<Rightarrow> 'a crs_matrix_local option" where
  "slice_crs_matrix m start stop alpha = do {
     nrows \<leftarrow> (if start \<le> stop + 1 then Some (stop + 1 - start) else None);
     first \<leftarrow> rd (crs_off m) start;
     last' \<leftarrow> rd (crs_off m) (stop + 1);
     num_elements \<leftarrow> (if first \<le> last' then Some (last' - first) else None);
     (rval, ridx) \<leftarrow> for_each (\<lambda>i (rval, ridx). do {
         v \<leftarrow> rd (crs_val m) (first + i);
         rval \<leftarrow> wr rval i (v * alpha);
         c \<leftarrow> rd (crs_idx m) (first + i);
         ridx \<leftarrow> wr ridx i c;
         Some (rval, ridx) }) [0..<num_elements] (replicate num_elements 0, replicate num_elements 0);
     roff \<leftarrow> shift_offsets (crs_off m) start nrows;
     Some \<lparr> crs_val = rval, crs_idx = ridx, crs_off = roff, crs_nrow = nrows, crs_ncol = crs_ncol m \<rparr> }"

end
