(* ===== verification/CrsParts.thy ===== *)
theory CrsParts
  imports Crs
begin

text \<open>
  matrix/crs_matrix.hpp: a local matrix cut into one part per node and the parts put together again,
  and the construction of a matrix from coordinate triplets.

  \<open>u\<close> stands for the two dimensions where the default constructor leaves them uninitialised.
\<close>

subsection \<open>Cutting a matrix\<close>

text \<open>\<open>std::lower_bound\<close> on an ascending range.\<close>

definition std_lower_bound :: "nat list \<Rightarrow> nat \<Rightarrow> nat" where
  "std_lower_bound xs x = length (takeWhile (\<lambda>y. y < x) xs)"

definition crs_divide_row :: "'a crs_matrix_local \<Rightarrow> nat \<Rightarrow> nat list option" where
  "crs_divide_row m node_size = do {
     total \<leftarrow> (if crs_off m = [] then None else rd (crs_off m) (length (crs_off m) - 1));
     each_size \<leftarrow> (if node_size = 0 \<and> total \<noteq> 0 then None else Some (ceil_div total node_size));
     Some (map (\<lambda>i. let it = std_lower_bound (crs_off m) (each_size * i)
                     in if it \<noteq> length (crs_off m) then it else crs_nrow m) [0..<node_size] @ [crs_nrow m]) }"

definition crs_part :: "'a::zero crs_matrix_local \<Rightarrow> nat \<Rightarrow> nat \<Rightarrow> 'a crs_matrix_local option" where
  "crs_part m start_row end_row = do {
     nrow \<leftarrow> (if start_row \<le> end_row then Some (end_row - start_row) else None);
     start_off \<leftarrow> rd (crs_off m) start_row;
     end_off \<leftarrow> rd (crs_off m) end_row;
     off_size \<leftarrow> (if start_off \<le> end_off then Some (end_off - start_off) else None);
     val \<leftarrow> copy_cells (crs_val m) start_off (replicate off_size 0) 0 off_size;
     idx \<leftarrow> copy_cells (crs_idx m) start_off (replicate off_size 0) 0 off_size;
     off \<leftarrow> shift_offsets (crs_off m) start_row nrow;
     Some \<lparr> crs_val = val, crs_idx = idx, crs_off = off, crs_nrow = nrow, crs_ncol = crs_ncol m \<rparr> }"

definition get_scattered_crs_matrices :: "'a::zero crs_matrix_local \<Rightarrow> nat \<Rightarrow> 'a crs_matrix_local list option" where
  "get_scattered_crs_matrices m node_size = do {
     divide_row \<leftarrow> crs_divide_row m node_size;
     omap (\<lambda>i. do {
         start_row \<leftarrow> rd divide_row i;
         end_row \<leftarrow> rd divide_row (i + 1);
         crs_part m start_row end_row }) [0..<node_size] }"

subsection \<open>Joining the parts\<close>

text \<open>The three output pointers are positions; \<open>to_add\<close> is what the offsets of the next part start from.\<close>

definition merge_part ::
  "'a crs_matrix_local \<Rightarrow> ('a list \<times> nat list \<times> nat list) \<times> nat \<times> nat \<times> nat \<Rightarrow>
   (('a list \<times> nat list \<times> nat list) \<times> nat \<times> nat \<times> nat) option" where
  "merge_part m st = do {
     let ((retval, retidx, retoff), vpos, opos, to_add) = st;
     let nnz = length (crs_val m);
     retval \<leftarrow> copy_cells (crs_val m) 0 retval vpos nnz;
     retidx \<leftarrow> copy_cells (crs_idx m) 0 retidx vpos nnz;
     let src_num_row = crs_nrow m;
     retoff \<leftarrow> for_each (\<lambda>j retoff. do { o' \<leftarrow> rd (crs_off m) j; wr retoff (opos + j) (o' + to_add) }) [0..<src_num_row] retoff;
     stop \<leftarrow> rd (crs_off m) src_num_row;
     Some ((retval, retidx, retoff), vpos + nnz, opos + src_num_row, to_add + stop) }"

definition merge_scattered_crs_matrices_impl ::
  "'a crs_matrix_local list \<Rightarrow> 'a list \<times> nat list \<times> nat list \<Rightarrow> nat \<Rightarrow> nat \<Rightarrow>
   (string + 'a list \<times> nat list \<times> nat list) option" where
  "merge_scattered_crs_matrices_impl vcrs ret vsize osize = do {
     first \<leftarrow> rd vcrs 0;
     if \<exists>m\<in>set (tl vcrs). crs_ncol m \<noteq> crs_ncol first then
       Some (Inl ''merge_scattered_crs_matrices_impl: local_num_col is different'')
     else do {
       let g_vsize = sum_list (map (\<lambda>m. length (crs_val m)) vcrs);
       let g_osize = int (sum_list (map (\<lambda>m. length (crs_off m)) vcrs)) - (int (length vcrs) - 1);
       if \<not> (g_vsize = vsize \<and> g_osize = int osize) then
         Some (Inl (''merge_scattered_crs_matrices_impl: calculated and expected sizes differ!'' @ [CHR 0x0A]))
       else do {
         ((retval, retidx, retoff), _, opos, to_add) \<leftarrow> for_each merge_part vcrs (ret, 0, 0, 0);
         retoff \<leftarrow> wr retoff opos to_add;
         Some (Inr (retval, retidx, retoff)) } } }"

definition merge_scattered_crs_matrices ::
  "nat \<times> nat \<Rightarrow> 'a::zero crs_matrix_local list \<Rightarrow> (string + 'a crs_matrix_local) option" where
  "merge_scattered_crs_matrices u vcrs =
     (if length vcrs = 0 then Some (Inr (new_crs (fst u) (snd u)))
      else do {
        let num_row = sum_list (map crs_nrow vcrs);
        let total_nnz = sum_list (map (\<lambda>m. length (crs_val m)) vcrs);
        first \<leftarrow> rd vcrs 0;
        r \<leftarrow> merge_scattered_crs_matrices_impl vcrs
          (replicate total_nnz 0, replicate total_nnz 0, replicate (num_row + 1) 0) total_nnz (num_row + 1);
        Some (map_sum id (\<lambda>(val, idx, off). \<lparr> crs_val = val, crs_idx = idx, crs_off = off,
          crs_nrow = num_row, crs_ncol = crs_ncol first \<rparr>) r) })"

subsection \<open>Coordinate triplets\<close>

record 'a coo_triplet =
  coo_i :: nat
  coo_j :: nat
  coo_v :: 'a

definition coo_less :: "'a coo_triplet \<Rightarrow> 'a coo_triplet \<Rightarrow> bool" where
  "coo_less l r = (if coo_i l \<noteq> coo_i r then coo_i l < coo_i r
     else if coo_j l \<noteq> coo_j r then coo_j l < coo_j r else False)"

text \<open>\<open>for(; current_line < coo[i].i; current_line++) off.push_back(val.size())\<close> appends one offset per line.\<close>

definition coo_step ::
  "'a coo_triplet \<Rightarrow> ('a list \<times> nat list \<times> nat list) \<times> nat \<Rightarrow> (('a list \<times> nat list \<times> nat list) \<times> nat) option" where
  "coo_step t st = do {
     let ((val, idx, off), current_line) = st;
     if current_line = coo_i t then
       Some ((val @ [coo_v t], idx @ [coo_j t], off), current_line)
     else
       Some ((val @ [coo_v t], idx @ [coo_j t], off @ replicate (coo_i t - current_line) (length val)),
         max current_line (coo_i t)) }"

definition coo_to_crs :: "nat \<times> nat \<Rightarrow> 'a coo_triplet list \<Rightarrow> nat \<Rightarrow> 'a crs_matrix_local option" where
  "coo_to_crs u coo current_line = do {
     ((val, idx, off), _) \<leftarrow> for_each coo_step coo (([], [], [0]), current_line);
     let off = (if length coo \<noteq> 0 then off @ [length val] else off);
     Some \<lparr> crs_val = val, crs_idx = idx, crs_off = off, crs_nrow = fst u, crs_ncol = snd u \<rparr> }"

text \<open>The largest and smallest column index; the smallest starts from the largest value of the index type.\<close>

definition crs_matrix_get_maxidx :: "'a crs_matrix_local \<Rightarrow> nat" where
  "crs_matrix_get_maxidx m = fold (\<lambda>i mx. if i > mx then i else mx) (crs_idx m) 0"

definition crs_matrix_get_minidx :: "nat \<Rightarrow> 'a crs_matrix_local \<Rightarrow> nat" where
  "crs_matrix_get_minidx wrap m = fold (\<lambda>i mn. if i < mn then i else mn) (crs_idx m) wrap"

text \<open>An index 0 wraps in the source; \<open>wrap\<close> is the value it wraps to.\<close>

definition to_zero_origin :: "nat \<Rightarrow> 'a crs_matrix_local \<Rightarrow> 'a crs_matrix_local" where
  "to_zero_origin wrap m = m\<lparr> crs_idx := map (\<lambda>i. if i = 0 then wrap else i - 1) (crs_idx m) \<rparr>"

end
