(* ===== verification/CrsRows.thy ===== *)
theory CrsRows
  imports Crs
begin

text \<open>
  The invariant of a local CRS matrix, and the matrix as a list of rows.

  \<open>crs_ok\<close> is what the source promises of a matrix at rest: one offset more than rows, the first
  offset 0 and the last the number of stored values, offsets that never decrease, every column in
  range.  Such a matrix is exactly \<open>of_rows ncol rows\<close> for its list of rows, each a list of columns
  and values; the operations are specified on these rows.  A loop over all rows and their values is
  a loop over the list \<open>entries rows\<close> of (row, column, value).
\<close>

subsection \<open>The invariant\<close>

definition crs_ok :: "'a crs_matrix_local \<Rightarrow> bool" where
  "crs_ok m \<longleftrightarrow> length (crs_off m) = crs_nrow m + 1 \<and> crs_off m ! 0 = 0 \<and> sorted (crs_off m) \<and>
     last (crs_off m) = length (crs_val m) \<and> length (crs_idx m) = length (crs_val m) \<and>
     (\<forall>c\<in>set (crs_idx m). c < crs_ncol m)"

definition crs_rows :: "'a crs_matrix_local \<Rightarrow> (nat \<times> 'a) list list" where
  "crs_rows m = map (\<lambda>r. take (crs_off m ! (r + 1) - crs_off m ! r)
     (drop (crs_off m ! r) (zip (crs_idx m) (crs_val m)))) [0..<crs_nrow m]"

fun row_offs :: "nat \<Rightarrow> 'r list list \<Rightarrow> nat list" where
  "row_offs a [] = [a]"
| "row_offs a (row # rows) = a # row_offs (a + length row) rows"

definition of_rows :: "nat \<Rightarrow> (nat \<times> 'a) list list \<Rightarrow> 'a crs_matrix_local" where
  "of_rows ncol rows = \<lparr> crs_val = map snd (concat rows), crs_idx = map fst (concat rows),
     crs_off = row_offs 0 rows, crs_nrow = length rows, crs_ncol = ncol \<rparr>"

definition cols_ok :: "nat \<Rightarrow> (nat \<times> 'a) list list \<Rightarrow> bool" where
  "cols_ok ncol rows \<longleftrightarrow> (\<forall>(c, v)\<in>set (concat rows). c < ncol)"

lemma of_rows_sel [simp]:
  "crs_val (of_rows ncol rows) = map snd (concat rows)"
  "crs_idx (of_rows ncol rows) = map fst (concat rows)"
  "crs_off (of_rows ncol rows) = row_offs 0 rows"
  "crs_nrow (of_rows ncol rows) = length rows"
  "crs_ncol (of_rows ncol rows) = ncol"
  by (simp_all add: of_rows_def)

subsection \<open>Offsets\<close>

lemma row_offs_not_Nil [simp]: "row_offs a rows \<noteq> []"
  by (cases rows) simp_all

lemma length_row_offs [simp]: "length (row_offs a rows) = length rows + 1"
  by (induction rows arbitrary: a) simp_all

lemma row_offs_nth: "r \<le> length rows \<Longrightarrow> row_offs a rows ! r = a + length (concat (take r rows))"
proof (induction rows arbitrary: a r)
  case (Cons row rows)
  then show ?case by (cases r) simp_all
qed simp

lemma last_row_offs: "last (row_offs a rows) = a + length (concat rows)"
  by (induction rows arbitrary: a) simp_all

lemma row_offs_mono: "set (row_offs a rows) \<subseteq> {a..}"
  by (induction a rows rule: row_offs.induct) auto

lemma sorted_row_offs: "sorted (row_offs a rows)"
proof (induction rows arbitrary: a)
  case (Cons row rows)
  then show ?case using row_offs_mono [of "a + length row" rows] by auto
qed simp

lemma row_offs_snoc: "row_offs a (rows @ [row]) = row_offs a rows @ [a + length (concat (rows @ [row]))]"
  by (induction rows arbitrary: a) simp_all

lemma row_offs_map: "(\<And>row. row \<in> set rows \<Longrightarrow> length (f row) = length row) \<Longrightarrow> row_offs a (map f rows) = row_offs a rows"
  by (induction rows arbitrary: a) simp_all

lemma concat_take_Suc: "r < length rows \<Longrightarrow> concat (take (Suc r) rows) = concat (take r rows) @ rows ! r"
  by (simp add: take_Suc_conv_app_nth)

lemma row_offs_Suc: "r < length rows \<Longrightarrow> row_offs a rows ! Suc r = row_offs a rows ! r + length (rows ! r)"
  by (simp add: row_offs_nth concat_take_Suc)

lemma row_slice: "r < length rows \<Longrightarrow>
  take (length (rows ! r)) (drop (length (concat (take r rows))) (concat rows)) = rows ! r"
  by (subst (3) id_take_nth_drop [of r rows]) (simp_all del: append_assoc)

subsection \<open>A matrix at rest is its rows\<close>

lemma crs_ok_of_rows: "cols_ok ncol rows \<Longrightarrow> crs_ok (of_rows ncol rows)"
  by (fastforce simp: crs_ok_def cols_ok_def row_offs_nth sorted_row_offs last_row_offs)

lemma crs_rows_of_rows: "crs_rows (of_rows ncol rows) = rows"
proof (rule nth_equalityI)
  fix r assume "r < length (crs_rows (of_rows ncol rows))"
  then have r: "r < length rows" by (simp add: crs_rows_def)
  then show "crs_rows (of_rows ncol rows) ! r = rows ! r"
    by (simp add: crs_rows_def row_offs_nth concat_take_Suc zip_map_fst_snd row_slice)
qed (simp add: crs_rows_def)

lemma concat_slices:
  assumes "sorted (off :: nat list)" "n < length off" "off ! 0 = 0"
  shows "concat (map (\<lambda>r. take (off ! Suc r - off ! r) (drop (off ! r) xs)) [0..<n]) = take (off ! n) xs"
  using assms(2)
proof (induction n)
  case (Suc k)
  have "off ! k \<le> off ! Suc k" using assms(1) Suc.prems by (intro sorted_nth_mono) simp_all
  then have "take (off ! Suc k) xs = take (off ! k) xs @ take (off ! Suc k - off ! k) (drop (off ! k) xs)"
    by (metis le_add_diff_inverse take_add)
  then show ?case using Suc by simp
qed (simp add: assms(3))

lemma row_offs_slices:
  assumes "sorted (off :: nat list)" "length off = Suc n" "off ! 0 = 0" "off ! n \<le> length xs"
  shows "row_offs 0 (map (\<lambda>r. take (off ! Suc r - off ! r) (drop (off ! r) xs)) [0..<n]) = off"
proof (rule nth_equalityI)
  fix k assume "k < length (row_offs 0 (map (\<lambda>r. take (off ! Suc r - off ! r) (drop (off ! r) xs)) [0..<n]))"
  then have k: "k \<le> n" by simp
  have "off ! k \<le> off ! n" using assms(1,2) k by (intro sorted_nth_mono) simp_all
  then have le: "off ! k \<le> length xs" using assms(4) by simp
  have "row_offs 0 (map (\<lambda>r. take (off ! Suc r - off ! r) (drop (off ! r) xs)) [0..<n]) ! k =
    length (concat (map (\<lambda>r. take (off ! Suc r - off ! r) (drop (off ! r) xs)) [0..<k]))"
    using k by (simp add: row_offs_nth take_map)
  also have "\<dots> = off ! k" using concat_slices [of off k xs] assms k le by simp
  finally show "row_offs 0 (map (\<lambda>r. take (off ! Suc r - off ! r) (drop (off ! r) xs)) [0..<n]) ! k = off ! k" .
qed (simp add: assms)

lemma crs_ok_rows:
  assumes "crs_ok m"
  shows "m = of_rows (crs_ncol m) (crs_rows m)" "cols_ok (crs_ncol m) (crs_rows m)"
proof -
  let ?off = "crs_off m" and ?n = "crs_nrow m" and ?xs = "zip (crs_idx m) (crs_val m)"
  have off: "sorted ?off" "length ?off = Suc ?n" "?off ! 0 = 0" and len: "length (crs_idx m) = length (crs_val m)"
    and cols: "\<forall>c\<in>set (crs_idx m). c < crs_ncol m" using assms by (simp_all add: crs_ok_def)
  have "?off \<noteq> []" using off(2) by auto
  then have "last ?off = ?off ! ?n" using off(2) by (simp add: last_conv_nth)
  then have stop: "?off ! ?n = length ?xs" using assms by (simp add: crs_ok_def)
  have rows: "crs_rows m = map (\<lambda>r. take (?off ! Suc r - ?off ! r) (drop (?off ! r) ?xs)) [0..<?n]"
    by (simp add: crs_rows_def)
  have all: "concat (crs_rows m) = ?xs"
    using concat_slices [of ?off ?n ?xs] off stop by (simp add: rows)
  have offs: "row_offs 0 (crs_rows m) = ?off"
    unfolding rows using stop by (intro row_offs_slices [OF off]) simp
  have "length (crs_rows m) = ?n" by (simp add: rows)
  then have "of_rows (crs_ncol m) (crs_rows m) =
    \<lparr> crs_val = crs_val m, crs_idx = crs_idx m, crs_off = ?off, crs_nrow = ?n, crs_ncol = crs_ncol m \<rparr>"
    using all offs len by (simp add: of_rows_def)
  then show "m = of_rows (crs_ncol m) (crs_rows m)" by simp
  have "\<And>c v. (c, v) \<in> set ?xs \<Longrightarrow> c \<in> set (crs_idx m)" by (erule set_zip_leftD)
  then show "cols_ok (crs_ncol m) (crs_rows m)"
    unfolding cols_ok_def all using cols by blast
qed

lemma crs_okE:
  assumes "crs_ok m"
  obtains rows where "m = of_rows (crs_ncol m) rows" "cols_ok (crs_ncol m) rows" "crs_rows m = rows"
  using crs_ok_rows [OF assms] by blast

subsection \<open>The stored values in the order of the loops\<close>

definition entries :: "(nat \<times> 'a) list list \<Rightarrow> (nat \<times> nat \<times> 'a) list" where
  "entries rows = concat (map (\<lambda>(r, row). map (Pair r) row) (enumerate 0 rows))"

lemma entries_Nil [simp]: "entries [] = []"
  by (simp add: entries_def)

lemma entries_snoc: "entries (rows @ [row]) = entries rows @ map (Pair (length rows)) row"
  by (simp add: entries_def enumerate_append_eq)

lemma entries_snd: "map snd (entries rows) = concat rows"
  by (induction rows rule: rev_induct) (simp_all add: entries_snoc comp_def)

lemma length_entries [simp]: "length (entries rows) = length (concat rows)"
  using arg_cong [OF entries_snd, of length rows] by simp

lemma entries_nth: "pos < length (concat rows) \<Longrightarrow> entries rows ! pos = (fst (entries rows ! pos), concat rows ! pos)"
  by (metis entries_snd length_entries nth_map prod.collapse)

lemma entries_concat: "entries rows = concat (map (\<lambda>r. map (Pair r) (rows ! r)) [0..<length rows])"
proof (induction rows rule: rev_induct)
  case (snoc row rows)
  have "map (\<lambda>r. map (Pair r) ((rows @ [row]) ! r)) [0..<length rows] =
    map (\<lambda>r. map (Pair r) (rows ! r)) [0..<length rows]"
    by (rule map_cong) (simp_all add: nth_append)
  then have "concat (map (\<lambda>r. map (Pair r) ((rows @ [row]) ! r)) [0..<length rows]) = entries rows"
    by (simp only: snoc)
  then show ?case by (simp add: entries_snoc)
qed simp

lemma entries_set: "set (entries rows) = {(r, e). r < length rows \<and> e \<in> set (rows ! r)}"
  by (auto simp: entries_concat)

text \<open>Picking out what one index, or the entries of one row, contribute.\<close>

lemma concat_pick: "concat (map (\<lambda>i. if i = r then F i else []) [0..<k]) = (if r < k then F r else [])"
  by (induction k) auto

lemma concat_map_concat: "concat (map f (concat xss)) = concat (map (\<lambda>xs. concat (map f xs)) xss)"
  by (induction xss) simp_all

lemma entries_pick:
  assumes "r < length rows"
  shows "concat (map (\<lambda>e. if fst e = r then F (snd e) else []) (entries rows)) = concat (map F (rows ! r))"
proof -
  have "concat (map (\<lambda>e. if fst e = r then F (snd e) else []) (entries rows)) =
    concat (map (\<lambda>i. concat (map (\<lambda>e. if i = r then F e else []) (rows ! i))) [0..<length rows])"
    by (simp add: entries_concat concat_map_concat comp_def cong: if_cong)
  also have "\<dots> = concat (map (\<lambda>i. if i = r then concat (map F (rows ! i)) else []) [0..<length rows])"
    by (rule arg_cong [where f = concat], rule map_cong) simp_all
  finally show ?thesis using assms by (simp add: concat_pick)
qed

lemma for_each_concat:
  "for_each (\<lambda>x. for_each (g x) (h x)) xs = for_each (\<lambda>(x, y). g x y) (concat (map (\<lambda>x. map (Pair x) (h x)) xs))"
proof (induction xs)
  case (Cons x xs)
  have "for_each (g x) (h x) s = for_each (\<lambda>(x, y). g x y) (map (Pair x) (h x)) s" for s
    by (simp add: for_each_map)
  then show ?case by (intro ext) (simp add: for_each_append Cons.IH)
qed (simp add: fun_eq_iff)

lemma loop_positions:
  "concat (map (\<lambda>r. map (Pair r) [length (concat (take r rows))..<length (concat (take (Suc r) rows))]) [0..<length rows]) =
   zip (map fst (entries rows)) [0..<length (concat rows)]"
proof (induction rows rule: rev_induct)
  case (snoc row rows)
  let ?o = "\<lambda>r. length (concat (take r rows))" and ?n = "length (concat rows)"
  let ?F = "\<lambda>r. map (Pair r) [length (concat (take r (rows @ [row])))..<length (concat (take (Suc r) (rows @ [row])))]"
  have "map ?F [0..<length rows] = map (\<lambda>r. map (Pair r) [?o r..<?o (Suc r)]) [0..<length rows]"
    by (rule map_cong) simp_all
  then have old: "concat (map ?F [0..<length rows]) = zip (map fst (entries rows)) [0..<?n]"
    by (simp only: snoc)
  have "?F (length rows) = map (Pair (length rows)) [?n..<?n + length row]" by simp
  also have "\<dots> = zip (map (\<lambda>_. length rows) row) [?n..<?n + length row]" by (rule nth_equalityI) simp_all
  finally have new: "?F (length rows) = zip (map (\<lambda>_. length rows) row) [?n..<?n + length row]" .
  have "[0..<length (concat (rows @ [row]))] = [0..<?n] @ [?n..<?n + length row]" using upt_add_eq_append [of 0 ?n "length row"] by simp
  moreover have "map fst (entries (rows @ [row])) = map fst (entries rows) @ map (\<lambda>_. length rows) row"
    by (simp add: entries_snoc comp_def)
  moreover have "concat (map ?F [0..<length (rows @ [row])]) = concat (map ?F [0..<length rows]) @ ?F (length rows)"
    by simp
  ultimately show ?case using old new zip_append [of "map fst (entries rows)" "[0..<?n]"] by simp
qed simp

text \<open>The loop over the rows: position \<open>pos\<close> of the arrays is entry \<open>pos\<close>.\<close>

lemma rows_loop_positions:
  "rows_loop (row_offs 0 rows) (length rows) f s =
   for_each (\<lambda>(r, pos). f r pos) (map (\<lambda>pos. (fst (entries rows ! pos), pos)) [0..<length (concat rows)]) s"
proof -
  let ?o = "\<lambda>r. length (concat (take r rows))"
  have row: "row_loop (row_offs 0 rows) r h s = for_each h [?o r..<?o (Suc r)] s" if "r < length rows" for r s h
    using that by (simp add: row_loop_def row_offs_nth)
  have "rows_loop (row_offs 0 rows) (length rows) f s =
    for_each (\<lambda>r. for_each (f r) [?o r..<?o (Suc r)]) [0..<length rows] s"
    unfolding rows_loop_def by (rule for_each_cong) (simp_all add: row)
  also have "\<dots> = for_each (\<lambda>(r, pos). f r pos) (zip (map fst (entries rows)) [0..<length (concat rows)]) s"
    by (simp only: for_each_concat loop_positions)
  also have "zip (map fst (entries rows)) [0..<length (concat rows)] =
    map (\<lambda>pos. (fst (entries rows ! pos), pos)) [0..<length (concat rows)]"
    by (rule nth_equalityI) simp_all
  finally show ?thesis .
qed

lemma rows_loop_entries:
  assumes "\<And>pos s. pos < length (concat rows) \<Longrightarrow> f (fst (entries rows ! pos)) pos s = g (entries rows ! pos) s"
  shows "rows_loop (row_offs 0 rows) (length rows) f s = for_each g (entries rows) s"
proof -
  have "rows_loop (row_offs 0 rows) (length rows) f s = for_each (\<lambda>pos. g (entries rows ! pos)) [0..<length (concat rows)] s"
    unfolding rows_loop_positions for_each_map by (rule for_each_cong) (simp_all add: assms)
  also have "\<dots> = for_each g (map (nth (entries rows)) [0..<length (entries rows)]) s"
    by (simp add: for_each_map)
  finally show ?thesis by (simp only: map_nth)
qed

end
