(* ===== verification/Scatter.thy ===== *)
theory Scatter
  imports Prelude "HOL-Library.Multiset"
begin

text \<open>
  Loops that update an array at computed positions, \<open>ret[p] = upd(ret[p], x)\<close> for a list of pairs
  (p, x): what one cell holds afterwards depends only on the items sent to it, in their order.  Where
  \<open>upd\<close> does not care about the order of its updates (a sum), neither does the whole loop, however
  the kernel of a build interleaves them; that is the locale \<open>order_free\<close>.
\<close>

definition scatter_upd :: "('a \<Rightarrow> 'b \<Rightarrow> 'a) \<Rightarrow> (nat \<times> 'b) list \<Rightarrow> 'a list \<Rightarrow> 'a list option" where
  "scatter_upd upd ps ret = for_each (\<lambda>(p, x) ret. do { v \<leftarrow> rd ret p; wr ret p (upd v x) }) ps ret"

definition cell_items :: "(nat \<times> 'b) list \<Rightarrow> nat \<Rightarrow> 'b list" where
  "cell_items ps p = map snd (filter (\<lambda>q. fst q = p) ps)"

lemma cell_items_Nil [simp]: "cell_items [] p = []"
  by (simp add: cell_items_def)

lemma cell_items_Cons [simp]: "cell_items ((q, x) # ps) p = (if q = p then x # cell_items ps p else cell_items ps p)"
  by (simp add: cell_items_def)

lemma cell_items_append [simp]: "cell_items (ps @ qs) p = cell_items ps p @ cell_items qs p"
  by (simp add: cell_items_def)

lemma cell_items_concat: "cell_items (concat pss) p = concat (map (\<lambda>ps. cell_items ps p) pss)"
  by (induction pss) simp_all

lemma cell_items_each:
  "cell_items (map h xs) p = concat (map (\<lambda>x. if fst (h x) = p then [snd (h x)] else []) xs)"
  by (induction xs) (auto simp: cell_items_def)

lemma cell_items_map: "cell_items (map (\<lambda>x. (f x, g x)) xs) p = map g (filter (\<lambda>x. f x = p) xs)"
  by (induction xs) simp_all

lemma scatter_upd_Nil [simp]: "scatter_upd upd [] ret = Some ret"
  by (simp add: scatter_upd_def)

lemma scatter_upd_Cons [simp]:
  "scatter_upd upd ((p, x) # ps) ret = do { v \<leftarrow> rd ret p; ret' \<leftarrow> wr ret p (upd v x); scatter_upd upd ps ret' }"
  by (simp add: scatter_upd_def)

lemma scatter_upd_append: "scatter_upd upd (ps @ qs) ret = do { ret' \<leftarrow> scatter_upd upd ps ret; scatter_upd upd qs ret' }"
  by (simp add: scatter_upd_def for_each_append)

lemma scatter_upd_eq:
  assumes "\<And>p x. (p, x) \<in> set ps \<Longrightarrow> p < length ret"
  shows "scatter_upd upd ps ret = Some (map (\<lambda>p. foldl upd (ret ! p) (cell_items ps p)) [0..<length ret])"
  using assms
proof (induction ps arbitrary: ret)
  case Nil
  then show ?case by (simp add: map_nth)
next
  case (Cons a ps)
  obtain q x where a: "a = (q, x)" by (cases a)
  have q: "q < length ret" using Cons.prems a by auto
  have "scatter_upd upd ps (ret[q := upd (ret ! q) x]) =
    Some (map (\<lambda>p. foldl upd (ret[q := upd (ret ! q) x] ! p) (cell_items ps p)) [0..<length ret])"
    using Cons.IH [of "ret[q := upd (ret ! q) x]"] Cons.prems by auto
  also have "\<dots> = Some (map (\<lambda>p. foldl upd (ret ! p) (cell_items (a # ps) p)) [0..<length ret])"
    using q by (auto simp: a nth_list_update)
  finally show ?case using q a by simp
qed

lemma length_scatter_upd: "scatter_upd upd ps ret = Some r \<Longrightarrow> length r = length ret"
  by (induction ps arbitrary: ret) (auto simp: bind_eq_Some_conv rd_def wr_def split: if_splits)

lemma foldl_plus: "foldl (+) a xs = (a :: 'a::monoid_add) + sum_list xs"
  by (induction xs arbitrary: a) (simp_all add: add.assoc)

lemma scatter_add_eq:
  assumes "\<And>p x. (p, x) \<in> set ps \<Longrightarrow> p < length ret"
  shows "scatter_upd (+) ps ret = Some (map (\<lambda>p. ret ! p + sum_list (cell_items ps p :: 'a::monoid_add list)) [0..<length ret])"
  by (simp add: scatter_upd_eq [OF assms] foldl_plus)

text \<open>Writing without reading is the update that forgets the old value.\<close>

lemma scatter_store: "for_each (\<lambda>(p, x) ret. wr ret p x) ps ret = scatter_upd (\<lambda>_ x. x) ps ret"
proof -
  have "wr ret p x = do { _ \<leftarrow> rd ret p; wr ret p x }" for ret :: "'a list" and p x
    by (simp add: rd_def wr_def)
  then show ?thesis unfolding scatter_upd_def by (metis (no_types))
qed

lemma foldl_store: "foldl (\<lambda>_ x. x) a xs = (if xs = [] then a else last xs)"
  by (induction xs arbitrary: a) simp_all

locale order_free =
  fixes upd :: "'a \<Rightarrow> 'b \<Rightarrow> 'a"
  assumes swap: "upd (upd v x) y = upd (upd v y) x"
begin

lemma foldl_first: "foldl upd (upd v x) ys = upd (foldl upd v ys) x"
  by (induction ys arbitrary: v) (simp_all add: swap)

lemma foldl_mset: "mset xs = mset ys \<Longrightarrow> foldl upd v xs = foldl upd v ys"
proof (induction xs arbitrary: ys)
  case (Cons x xs)
  have "x \<in> set ys" using Cons.prems by (metis list.set_intros(1) set_mset_mset)
  then obtain us vs where ys: "ys = us @ x # vs" by (auto simp: in_set_conv_decomp)
  then have "mset xs = mset (us @ vs)" using Cons.prems by simp
  then have "foldl upd v xs = foldl upd v (us @ vs)" by (rule Cons.IH)
  then show ?case by (simp add: ys foldl_first)
qed simp

text \<open>Two loops that send the same items to the same cells leave the same array.\<close>

lemma scatter_mset:
  assumes "mset ps = mset qs" "\<And>p x. (p, x) \<in> set ps \<Longrightarrow> p < length ret"
  shows "scatter_upd upd ps ret = scatter_upd upd qs ret"
proof -
  have "mset (cell_items ps p) = mset (cell_items qs p)" for p
    using assms(1) by (simp add: cell_items_def)
  then have "foldl upd v (cell_items ps p) = foldl upd v (cell_items qs p)" for v p
    by (rule foldl_mset)
  moreover have "set ps = set qs" using assms(1) by (metis set_mset_mset)
  ultimately show ?thesis using assms(2) scatter_upd_eq [of ps ret upd] scatter_upd_eq [of qs ret upd] by simp
qed

end

interpretation adding: order_free "(+) :: 'a::ab_semigroup_add \<Rightarrow> 'a \<Rightarrow> 'a"
  by unfold_locales (simp add: ac_simps)

end
