(* ===== verification/CrsConv.thy ===== *)
theory CrsConv
  imports CrsRows Scatter StableSort
begin

text \<open>
  Rows, sparse vectors, transposition and the dense form of a CRS matrix, each operation as a function
  on the list of rows (see \<open>CrsRows\<close>).
\<close>

lemma rows_read:
  assumes "pos < length (concat rows)"
  shows "rd (map snd (concat rows)) pos = Some (snd (snd (entries rows ! pos)))"
    "rd (map fst (concat rows)) pos = Some (fst (snd (entries rows ! pos)))"
  using assms arg_cong [OF entries_nth [OF assms], of snd] by simp_all

lemma entries_bounds:
  assumes "cols_ok ncol rows" "(r, c, v) \<in> set (entries rows)"
  shows "r < length rows" "c < ncol"
  using assms by (auto simp: cols_ok_def entries_set)

lemma cols_ok_row: "cols_ok ncol rows \<Longrightarrow> r < length rows \<Longrightarrow> (c, v) \<in> set (rows ! r) \<Longrightarrow> c < ncol"
  by (auto simp: cols_ok_def)

lemma concat_take_le: "length (concat (take k rows)) \<le> length (concat rows)"
  by (metis append_take_drop_id concat_append le_add1 length_append)

lemma row_nth: "r < length rows \<Longrightarrow> k < length (rows ! r) \<Longrightarrow> concat rows ! (length (concat (take r rows)) + k) = rows ! r ! k"
  using arg_cong [OF row_slice, of r rows "\<lambda>xs. xs ! k"] concat_take_le [of "Suc r" rows] concat_take_Suc [of r rows]
  by simp

lemma row_loop_items:
  assumes "r < length rows"
    and "\<And>c s. c < length (concat rows) \<Longrightarrow> F c s = g (concat rows ! c) s"
  shows "row_loop (row_offs 0 rows) r F s = for_each g (rows ! r) s"
proof -
  let ?o = "length (concat (take r rows))"
  have le: "?o + length (rows ! r) \<le> length (concat rows)"
    using concat_take_Suc [OF assms(1)] concat_take_le [of "Suc r" rows] by simp
  have "row_loop (row_offs 0 rows) r F s = for_each F [?o..<?o + length (rows ! r)] s"
    using assms(1) by (simp add: row_loop_def row_offs_nth concat_take_Suc)
  also have "\<dots> = for_each (\<lambda>c. g (concat rows ! c)) [?o..<?o + length (rows ! r)] s"
    by (rule for_each_cong) (use assms(2) le in auto)
  also have "\<dots> = for_each g (map (nth (concat rows)) [?o..<?o + length (rows ! r)]) s"
    by (simp add: for_each_map)
  also have "map (nth (concat rows)) [?o..<?o + length (rows ! r)] = rows ! r"
    by (intro nth_equalityI) (simp_all add: row_nth [OF assms(1)])
  finally show ?thesis .
qed

text \<open>A cell of the matrix: the sum of the values stored for it.\<close>

definition crs_at :: "(nat \<times> 'a::monoid_add) list list \<Rightarrow> nat \<Rightarrow> nat \<Rightarrow> 'a" where
  "crs_at rows r c = sum_list (cell_items (rows ! r) c)"

subsection \<open>Sparse vectors and single rows\<close>

definition dense_row :: "nat \<Rightarrow> (nat \<times> 'a::zero) list \<Rightarrow> 'a list" where
  "dense_row ncol row = map (\<lambda>c. foldl (\<lambda>_ x. x) 0 (cell_items row c)) [0..<ncol]"

lemma store_pairs:
  assumes "length ps = length vs"
  shows "for_each (\<lambda>i ret. do { p \<leftarrow> rd ps i; v \<leftarrow> rd vs i; wr ret p v }) [0..<length vs] ret =
    scatter_upd (\<lambda>_ x. x) (zip ps vs) ret"
proof -
  have "zip ps vs = map (\<lambda>i. (ps ! i, vs ! i)) [0..<length vs]"
    using assms by (intro nth_equalityI) simp_all
  then have "scatter_upd (\<lambda>_ x. x) (zip ps vs) ret = for_each (\<lambda>i ret. wr ret (ps ! i) (vs ! i)) [0..<length vs] ret"
    by (simp add: for_each_map flip: scatter_store)
  also have "\<dots> = for_each (\<lambda>i ret. do { p \<leftarrow> rd ps i; v \<leftarrow> rd vs i; wr ret p v }) [0..<length vs] ret"
    using assms by (intro for_each_cong) simp
  finally show ?thesis by simp
qed

lemma sv_to_vector_eq:
  assumes "\<And>c v. (c, v) \<in> set row \<Longrightarrow> c < n"
  shows "sv_to_vector \<lparr> sv_val = map snd row, sv_idx = map fst row, sv_size = n \<rparr> = Some (dense_row n row)"
  using assms store_pairs [of "map fst row" "map snd row" "replicate n 0"]
  by (simp add: sv_to_vector_def sparse_to_dense_def zip_map_fst_snd scatter_upd_eq dense_row_def)

lemma get_row_eq:
  assumes "r < length rows"
  shows "get_row (of_rows ncol rows) r =
    Some (Inr \<lparr> sv_val = map snd (rows ! r), sv_idx = map fst (rows ! r), sv_size = ncol \<rparr>)"
proof -
  let ?o = "length (concat (take r rows))"
  have slice: "take (length (rows ! r)) (drop ?o (concat rows)) = rows ! r" using assms by (rule row_slice)
  have part: "take (length (rows ! r)) (drop ?o (map f (concat rows))) = map f (rows ! r)" for f :: "_ \<Rightarrow> 'x"
    unfolding drop_map take_map slice ..
  have *: "copy_cells (map f (concat rows)) ?o (replicate (length (rows ! r)) z) 0 (length (rows ! r)) =
    Some (map f (rows ! r))" for f :: "_ \<Rightarrow> 'x" and z
    using copy_cells_run [of "map f (rows ! r)" ?o "map f (concat rows)" 0 "replicate (length (rows ! r)) z"]
    by (simp add: part del: map_concat)
  show ?thesis using assms by (simp add: get_row_def row_width_def row_offs_nth concat_take_Suc *)
qed

subsection \<open>The dense form\<close>

definition dense_of :: "nat \<Rightarrow> (nat \<times> 'a::zero) list list \<Rightarrow> 'a list" where
  "dense_of ncol rows = concat (map (dense_row ncol) rows)"

lemma concat_blocks_nth:
  assumes "\<And>xs. xs \<in> set xss \<Longrightarrow> length xs = n" "r < length xss" "c < n"
  shows "concat xss ! (n * r + c) = xss ! r ! c"
  using assms
proof (induction xss arbitrary: r)
  case (Cons xs xss)
  then show ?case by (cases r) (simp_all add: nth_append add.assoc)
qed simp

lemma length_concat_blocks: "(\<And>xs. xs \<in> set xss \<Longrightarrow> length xs = n) \<Longrightarrow> length (concat xss) = n * length xss"
  by (induction xss) simp_all

lemma block_index_eq: "c < n \<Longrightarrow> c' < n \<Longrightarrow> n * r + c = n * r' + c' \<longleftrightarrow> r = r' \<and> c = (c' :: nat)"
  using run_index_inj [of c n r c' r'] by (auto simp: add.commute)

lemma block_index_less:
  assumes "r < m" "c < (n :: nat)"
  shows "n * r + c < n * m"
  using run_index_less [of c n r m] assms by (simp add: add.commute)

definition table :: "nat \<Rightarrow> nat \<Rightarrow> (nat \<Rightarrow> nat \<Rightarrow> 'a) \<Rightarrow> 'a list" where
  "table nrow ncol f = concat (map (\<lambda>r. map (f r) [0..<ncol]) [0..<nrow])"

lemma length_table [simp]: "length (table nrow ncol f) = ncol * nrow"
  unfolding table_def by (subst length_concat_blocks [of _ ncol]) auto

lemma table_nth: "r < nrow \<Longrightarrow> c < ncol \<Longrightarrow> table nrow ncol f ! (ncol * r + c) = f r c"
  unfolding table_def by (subst concat_blocks_nth [of _ ncol]) auto

lemma block_index_cases:
  assumes "p < ncol * (nrow :: nat)"
  obtains r c where "p = ncol * r + c" "r < nrow" "c < ncol"
proof
  have "0 < ncol" using assms by (cases ncol) simp_all
  then show "p mod ncol < ncol" by simp
  show "p div ncol < nrow" using assms by (simp add: less_mult_imp_div_less mult.commute)
qed simp

lemma tableI:
  assumes "length xs = ncol * nrow" "\<And>r c. r < nrow \<Longrightarrow> c < ncol \<Longrightarrow> xs ! (ncol * r + c) = f r c"
  shows "xs = table nrow ncol f"
proof (rule nth_equalityI)
  fix p assume "p < length xs"
  then obtain r c where "p = ncol * r + c" "r < nrow" "c < ncol" using assms(1) block_index_cases by metis
  then show "xs ! p = table nrow ncol f ! p" using assms(2) by (simp add: table_nth)
qed (simp add: assms(1))

text \<open>The items that a loop over all entries sends to the cell of row \<open>r\<close> and column \<open>c\<close>.\<close>

lemma cell_items_entries:
  assumes "cols_ok ncol rows" "r < length rows" "c < ncol"
  shows "cell_items (map (\<lambda>(r, c, v). (ncol * r + c, f r c v)) (entries rows)) (ncol * r + c) =
    map (f r c) (cell_items (rows ! r) c)"
proof -
  have hit: "ncol * fst e + fst (snd e) = ncol * r + c \<longleftrightarrow> fst e = r \<and> fst (snd e) = c" if "e \<in> set (entries rows)" for e
    using entries_bounds [OF assms(1), of "fst e" "fst (snd e)" "snd (snd e)"] that assms block_index_eq [of "fst (snd e)" ncol c "fst e" r]
    by simp
  have "cell_items (map (\<lambda>(r, c, v). (ncol * r + c, f r c v)) (entries rows)) (ncol * r + c) =
    concat (map (\<lambda>e. if fst e = r then (\<lambda>(c', v). if c' = c then [f r c v] else []) (snd e) else []) (entries rows))"
    unfolding cell_items_each
    by (rule arg_cong [where f = concat], rule map_cong) (auto simp: hit case_prod_beta)
  also have "\<dots> = concat (map (\<lambda>(c', v). if c' = c then [f r c v] else []) (rows ! r))"
    by (rule entries_pick [OF assms(2)])
  also have "\<dots> = map (f r c) (cell_items (rows ! r) c)"
    unfolding cell_items_each [where h = "\<lambda>x. x", simplified] map_concat map_map
    by (rule arg_cong [where f = concat]) (auto simp: comp_def)
  finally show ?thesis .
qed

lemma to_rowmajor_eq:
  assumes "cols_ok ncol rows"
  shows "to_rowmajor (of_rows ncol rows) =
    Some \<lparr> rm_val = dense_of ncol rows, rm_nrow = length rows, rm_ncol = ncol \<rparr>"
proof -
  let ?ps = "map (\<lambda>(r, c, v). (ncol * r + c, v)) (entries rows)"
  have "rows_loop (row_offs 0 rows) (length rows) (\<lambda>row pos retval. do {
         c \<leftarrow> rd (map fst (concat rows)) pos; v \<leftarrow> rd (map snd (concat rows)) pos; wr retval (ncol * row + c) v }) ret =
    scatter_upd (\<lambda>_ x. x) ?ps ret" for ret
  proof -
    have "rows_loop (row_offs 0 rows) (length rows) (\<lambda>row pos retval. do {
         c \<leftarrow> rd (map fst (concat rows)) pos; v \<leftarrow> rd (map snd (concat rows)) pos; wr retval (ncol * row + c) v }) ret =
      for_each (\<lambda>(r, c, v) ret. wr ret (ncol * r + c) v) (entries rows) ret"
      by (rule rows_loop_entries) (simp add: rows_read case_prod_beta del: rd_Some)
    also have "\<dots> = for_each (\<lambda>(p, v) ret. wr ret p v) ?ps ret"
      by (simp add: for_each_map case_prod_beta')
    finally show ?thesis by (simp only: scatter_store)
  qed
  moreover have "scatter_upd (\<lambda>_ x. x) ?ps (replicate (length rows * ncol) 0) = Some (dense_of ncol rows)"
  proof -
    have "p < length rows * ncol" if "(p, v) \<in> set ?ps" for p v
      using that entries_bounds [OF assms] by (auto simp: mult.commute [of _ ncol] intro!: block_index_less)
    moreover have "map (\<lambda>p. foldl (\<lambda>_ x. x) (replicate (length rows * ncol) 0 ! p) (cell_items ?ps p)) [0..<length rows * ncol] =
      table (length rows) ncol (\<lambda>r c. dense_row ncol (rows ! r) ! c)"
    proof (rule tableI)
      fix r c assume rc: "r < length rows" "c < ncol"
      then have "ncol * r + c < length rows * ncol" using block_index_less [of r "length rows" c ncol] by (simp add: mult.commute)
      then show "map (\<lambda>p. foldl (\<lambda>_ x. x) (replicate (length rows * ncol) 0 ! p) (cell_items ?ps p)) [0..<length rows * ncol] ! (ncol * r + c) =
        dense_row ncol (rows ! r) ! c"
        using cell_items_entries [OF assms rc, of "\<lambda>_ _ v. v"] rc by (simp add: dense_row_def)
    qed simp
    moreover have "table (length rows) ncol (\<lambda>r c. dense_row ncol (rows ! r) ! c) = dense_of ncol rows"
      unfolding table_def dense_of_def
      by (intro arg_cong [where f = concat] nth_equalityI) (simp_all add: dense_row_def)
    ultimately show ?thesis by (subst scatter_upd_eq) simp_all
  qed
  ultimately show ?thesis by (simp add: to_rowmajor_def new_rowmajor_def Let_def)
qed

subsection \<open>Filling two arrays from the front\<close>

definition push_entry :: "nat \<times> 'a \<Rightarrow> 'a list \<times> nat list \<times> nat \<Rightarrow> ('a list \<times> nat list \<times> nat) option" where
  "push_entry e st = do {
     let (vals, idxs, current) = st;
     vals \<leftarrow> wr vals current (snd e);
     idxs \<leftarrow> wr idxs current (fst e);
     Some (vals, idxs, current + 1) }"

lemma push_entry_at:
  assumes "pv \<noteq> []" "pi \<noteq> []"
  shows "push_entry e (map snd acc @ pv, map fst acc @ pi, length acc) =
    Some (map snd (acc @ [e]) @ tl pv, map fst (acc @ [e]) @ tl pi, length acc + 1)"
  using assms by (cases pv; cases pi) (simp_all add: push_entry_def list_update_append)

lemma push_entries:
  assumes "length ps \<le> length pv" "length ps \<le> length pi"
  shows "for_each push_entry ps (map snd acc @ pv, map fst acc @ pi, length acc) =
    Some (map snd (acc @ ps) @ drop (length ps) pv, map fst (acc @ ps) @ drop (length ps) pi, length acc + length ps)"
  using assms
proof (induction ps arbitrary: acc pv pi)
  case (Cons e ps)
  have ne: "pv \<noteq> []" "pi \<noteq> []" using Cons.prems by auto
  show ?case using Cons.IH [of "tl pv" "tl pi" "acc @ [e]"] Cons.prems
    by (simp add: push_entry_at [OF ne] drop_Suc)
qed simp

lemma for_each_filter:
  assumes "\<And>x s. x \<in> set xs \<Longrightarrow> f x s = (if P x then g (h x) s else Some s)"
  shows "for_each f xs s = for_each g (map h (filter P xs)) s"
  using assms by (induction xs arbitrary: s) (simp_all split: Option.bind_splits)

subsection \<open>From the dense form to rows\<close>

definition sparse_row :: "'a::zero list \<Rightarrow> (nat \<times> 'a) list" where
  "sparse_row xs = filter (\<lambda>(_, v). v \<noteq> 0) (enumerate 0 xs)"

definition dense_rows :: "nat \<Rightarrow> nat \<Rightarrow> 'a list \<Rightarrow> 'a list list" where
  "dense_rows nrow ncol val = map (\<lambda>i. take ncol (drop (i * ncol) val)) [0..<nrow]"

lemma enumerate_nths: "enumerate 0 xs = map (\<lambda>j. (j, xs ! j)) [0..<length xs]"
  by (rule nth_equalityI) (simp_all add: nth_enumerate_eq)

lemma sparse_row_alt: "sparse_row xs = map (\<lambda>j. (j, xs ! j)) (filter (\<lambda>j. xs ! j \<noteq> 0) [0..<length xs])"
  by (simp add: sparse_row_def enumerate_nths filter_map comp_def)

lemma length_sparse_row: "length (sparse_row xs) = length (filter (\<lambda>v. v \<noteq> 0) xs)"
proof -
  have "length (sparse_row xs) = length (filter (\<lambda>v. v \<noteq> 0) (map snd (enumerate 0 xs)))"
    by (simp add: sparse_row_def filter_map comp_def case_prod_beta' del: map_snd_enumerate)
  then show ?thesis by simp
qed

lemma sparse_row_cols: "(c, v) \<in> set (sparse_row xs) \<Longrightarrow> c < length xs \<and> v = xs ! c \<and> v \<noteq> 0"
  by (auto simp: sparse_row_alt)

lemma to_crs_row:
  assumes "i * ncol + ncol \<le> length val"
  shows "for_each (to_crs_cell val ncol i) [0..<ncol] st = for_each push_entry (sparse_row (take ncol (drop (i * ncol) val))) st"
proof -
  let ?xs = "take ncol (drop (i * ncol) val)"
  have "for_each (to_crs_cell val ncol i) [0..<ncol] st =
    for_each push_entry (map (\<lambda>j. (j, ?xs ! j)) (filter (\<lambda>j. ?xs ! j \<noteq> 0) [0..<ncol])) st"
  proof (rule for_each_filter)
    fix j st assume "j \<in> set [0..<ncol]"
    then show "to_crs_cell val ncol i j st = (if ?xs ! j \<noteq> 0 then push_entry (j, ?xs ! j) st else Some st)"
      using assms by (cases st) (simp add: to_crs_cell_def push_entry_def)
  qed
  moreover have "length ?xs = ncol" using assms by simp
  ultimately show ?thesis by (simp only: sparse_row_alt)
qed

lemma dense_rows_concat:
  assumes "length val = nrow * ncol"
  shows "concat (dense_rows nrow ncol val) = val"
proof -
  have "concat (dense_rows k ncol val) = take (k * ncol) val" if "k \<le> nrow" for k
    using that by (induction k) (simp_all add: dense_rows_def take_add add.commute [of ncol])
  then show ?thesis using assms by simp
qed

lemma dense_rows_length:
  assumes "length val = nrow * ncol" "xs \<in> set (dense_rows nrow ncol val)"
  shows "length xs = ncol"
proof -
  obtain i where i: "i < nrow" "xs = take ncol (drop (i * ncol) val)" using assms(2) by (auto simp: dense_rows_def)
  have "Suc i * ncol \<le> nrow * ncol" using i(1) by (intro mult_le_mono1) simp
  then show ?thesis using assms(1) i(2) by simp
qed

lemma to_crs_eq:
  assumes "length val = nrow * ncol"
  shows "to_crs \<lparr> rm_val = val, rm_nrow = nrow, rm_ncol = ncol \<rparr> =
    Some (of_rows ncol (map sparse_row (dense_rows nrow ncol val)))"
proof -
  define xss where "xss = dense_rows nrow ncol val"
  define rows where "rows = map sparse_row xss"
  define nnz where "nnz = length (concat rows)"
  have len: "length rows = nrow" "length xss = nrow" by (simp_all add: rows_def xss_def dense_rows_def)
  have "for_each (\<lambda>i nnz. do { v \<leftarrow> rd val i; Some (if v \<noteq> 0 then nnz + 1 else nnz) }) [0..<length val] 0 =
    Some (length (filter (\<lambda>v. v \<noteq> 0) val))"
  proof -
    have "ok (for_each (\<lambda>i nnz. do { v \<leftarrow> rd val i; Some (if v \<noteq> 0 then nnz + 1 else nnz) }) [0..<length val] 0)
      (\<lambda>n. n = length (filter (\<lambda>v. v \<noteq> 0) (take (length val) val)))"
      by (rule ok_for_range) (simp_all add: ok_simps take_Suc_conv_app_nth)
    then show ?thesis by (simp add: ok_eq)
  qed
  also have "length (filter (\<lambda>v. v \<noteq> 0) val) = nnz"
  proof -
    have "length (filter (\<lambda>v. v \<noteq> 0) (concat xss)) = nnz"
      unfolding nnz_def rows_def by (induction xss) (simp_all add: length_sparse_row)
    then show ?thesis using dense_rows_concat [OF assms] by (simp add: xss_def)
  qed
  finally have count: "for_each (\<lambda>i nnz. do { v \<leftarrow> rd val i; Some (if v \<noteq> 0 then nnz + 1 else nnz) }) [0..<length val] 0 = Some nnz" .
  let ?I = "\<lambda>k st. st = (map snd (concat (take k rows)) @ replicate (nnz - length (concat (take k rows))) 0,
    map fst (concat (take k rows)) @ replicate (nnz - length (concat (take k rows))) 0,
    row_offs 0 (take k rows) @ replicate (nrow - k) 0, length (concat (take k rows)))"
  have "ok (for_each (\<lambda>i (retval, retidx, retoff, current). do {
         (retval, retidx, current) \<leftarrow> for_each (to_crs_cell val ncol i) [0..<ncol] (retval, retidx, current);
         retoff \<leftarrow> wr retoff (i + 1) current;
         Some (retval, retidx, retoff, current) }) [0..<nrow]
       (replicate nnz 0, replicate nnz 0, replicate (nrow + 1) 0, 0)) (?I nrow)"
  proof (rule ok_for_range [where I = ?I])
    fix k st
    assume k: "0 \<le> k" "k < nrow" and st: "?I k st"
    have row: "rows ! k = sparse_row (take ncol (drop (k * ncol) val))"
      using k by (simp add: rows_def xss_def dense_rows_def)
    have fit: "length (concat (take k rows)) + length (rows ! k) \<le> nnz"
      using concat_take_Suc [of k rows] concat_take_le [of "Suc k" rows] k len by (simp add: nnz_def)
    have "Suc k * ncol \<le> nrow * ncol" using k(2) by (intro mult_le_mono1) simp
    then have "for_each (to_crs_cell val ncol k) [0..<ncol] st' = for_each push_entry (rows ! k) st'" for st'
      using to_crs_row [of k ncol val st'] assms by (simp add: row add.commute)
    moreover have "row_offs 0 (take k rows) @ replicate (nrow - k) 0 = row_offs 0 (take k rows) @ 0 # replicate (nrow - Suc k) 0"
      using k by (simp add: Suc_diff_Suc flip: replicate_Suc)
    moreover have "row_offs 0 (take (Suc k) rows) = row_offs 0 (take k rows) @ [length (concat (take (Suc k) rows))]"
      using k len row_offs_snoc [of 0 "take k rows" "rows ! k"] by (simp add: take_Suc_conv_app_nth)
    ultimately show "ok ((\<lambda>(retval, retidx, retoff, current). do {
         (retval, retidx, current) \<leftarrow> for_each (to_crs_cell val ncol k) [0..<ncol] (retval, retidx, current);
         retoff \<leftarrow> wr retoff (k + 1) current;
         Some (retval, retidx, retoff, current) }) st) (?I (Suc k))"
      using st k len fit push_entries [of "rows ! k" "replicate (nnz - length (concat (take k rows))) 0" "replicate (nnz - length (concat (take k rows))) 0" "concat (take k rows)"]
      by (simp add: ok_simps concat_take_Suc list_update_append min_def diff_diff_add)
  qed simp_all
  then show ?thesis
    by (simp add: to_crs_def Let_def count ok_eq len of_rows_def nnz_def flip: rows_def xss_def)
qed

subsection \<open>The two conversions are inverse\<close>

definition canonical_row :: "nat \<Rightarrow> (nat \<times> 'a::zero) list \<Rightarrow> bool" where
  "canonical_row ncol row \<longleftrightarrow> sorted_wrt (<) (map fst row) \<and> (\<forall>(c, v)\<in>set row. c < ncol \<and> v \<noteq> 0)"

lemma cell_items_sparse_row:
  assumes "c < length xs"
  shows "cell_items (sparse_row xs) c = (if xs ! c \<noteq> 0 then [xs ! c] else [])"
proof -
  have "filter (\<lambda>j. j = c) (filter (\<lambda>j. xs ! j \<noteq> 0) [0..<k]) = (if c < k \<and> xs ! c \<noteq> 0 then [c] else [])" for k
    by (induction k) auto
  then show ?thesis using assms by (simp add: sparse_row_alt cell_items_map del: filter_filter)
qed

lemma dense_sparse_row: "length xs = ncol \<Longrightarrow> dense_row ncol (sparse_row xs) = xs"
  by (rule nth_equalityI) (simp_all add: dense_row_def cell_items_sparse_row)

lemma cell_items_absent: "c \<notin> fst ` set row \<Longrightarrow> cell_items row c = []"
  by (induction row) auto

lemma cell_items_present:
  assumes "distinct (map fst row)" "(c, v) \<in> set row"
  shows "cell_items row c = [v]"
  using assms
proof (induction row)
  case (Cons e row)
  show ?case
  proof (cases "e = (c, v)")
    case True
    then show ?thesis using Cons.prems by (simp add: cell_items_absent)
  next
    case False
    then have "(c, v) \<in> set row" using Cons.prems by auto
    moreover from this have "c \<in> fst ` set row" by force
    then have "fst e \<noteq> c" using Cons.prems(1) by auto
    ultimately show ?thesis using Cons by (cases e) simp
  qed
qed simp

lemma sorted_pairs_unique:
  assumes "sorted_wrt (<) (map fst xs)" "sorted_wrt (<) (map fst ys)" "set xs = set (ys :: (nat \<times> 'a) list)"
  shows "xs = ys"
proof -
  have d: "distinct (map fst xs)" "distinct (map fst ys)" "sorted (map fst xs)" "sorted (map fst ys)"
    using assms(1,2) by (simp_all add: strict_sorted_iff)
  then have "map fst xs = map fst ys" using assms(3) by (intro sorted_distinct_set_unique) simp_all
  moreover have "map (\<lambda>c. (c, the (map_of zs c))) (map fst zs) = zs" if "distinct (map fst zs)" for zs :: "(nat \<times> 'a) list"
  proof (rule nth_equalityI)
    fix i assume "i < length (map (\<lambda>c. (c, the (map_of zs c))) (map fst zs))"
    then have i: "i < length zs" by simp
    then have "map_of zs (fst (zs ! i)) = Some (snd (zs ! i))" using that by (simp add: map_of_eq_Some_iff)
    then show "map (\<lambda>c. (c, the (map_of zs c))) (map fst zs) ! i = zs ! i" using i by simp
  qed simp
  moreover have "map_of xs = map_of ys" using d assms(3) map_of_inject_set by blast
  ultimately show ?thesis using d(1,2) by metis
qed

lemma sorted_sparse_row: "sorted_wrt (<) (map fst (sparse_row xs))"
  by (simp add: sparse_row_alt comp_def sorted_wrt_filter)

lemma sparse_dense_row:
  assumes "canonical_row ncol row"
  shows "sparse_row (dense_row ncol row) = row"
proof (rule sorted_pairs_unique)
  have sorted: "sorted_wrt (<) (map fst row)" and row: "\<And>c v. (c, v) \<in> set row \<Longrightarrow> c < ncol \<and> v \<noteq> 0"
    using assms by (auto simp: canonical_row_def)
  have d: "distinct (map fst row)" using sorted by (simp add: strict_sorted_iff)
  have cell: "dense_row ncol row ! c = (if cell_items row c = [] then 0 else last (cell_items row c))" if "c < ncol" for c
    using that by (simp add: dense_row_def foldl_store)
  show "set (sparse_row (dense_row ncol row)) = set row"
  proof (rule set_eqI)
    fix e :: "nat \<times> 'a"
    obtain c v where e: "e = (c, v)" by (cases e)
    have "(c, v) \<in> set row \<longleftrightarrow> c < ncol \<and> dense_row ncol row ! c = v \<and> v \<noteq> 0"
    proof (cases "c \<in> fst ` set row")
      case True
      then obtain w where w: "(c, w) \<in> set row" by auto
      then have "(c, v) \<in> set row \<longleftrightarrow> v = w" using d by (metis eq_key_imp_eq_value)
      then show ?thesis using row [OF w] cell [of c] cell_items_present [OF d w] by auto
    next
      case False
      then have "(c, v) \<notin> set row" by (force simp: image_iff)
      then show ?thesis using cell [of c] cell_items_absent [OF False] by auto
    qed
    then show "e \<in> set (sparse_row (dense_row ncol row)) \<longleftrightarrow> e \<in> set row"
      by (auto simp: e sparse_row_alt dense_row_def)
  qed
  show "sorted_wrt (<) (map fst row)" by (rule sorted)
qed (rule sorted_sparse_row)

lemma cols_ok_sparse: "(\<And>xs. xs \<in> set xss \<Longrightarrow> length xs = ncol) \<Longrightarrow> cols_ok ncol (map sparse_row xss)"
  by (fastforce simp: cols_ok_def dest: sparse_row_cols)

lemma dense_rows_dense_of: "dense_rows (length rows) ncol (dense_of ncol rows) = map (dense_row ncol) rows"
proof -
  have "take ncol (drop (i * ncol) (concat xss)) = xss ! i"
    if "i < length xss" "\<And>xs. xs \<in> set xss \<Longrightarrow> length xs = ncol" for xss :: "'b list list" and i
    using that
  proof (induction xss arbitrary: i)
    case (Cons xs xss)
    then show ?case by (cases i) simp_all
  qed simp
  note block = this
  have "take ncol (drop (i * ncol) (concat (map (dense_row ncol) rows))) = dense_row ncol (rows ! i)"
    if "i < length rows" for i
    using that by (subst block) (auto simp: dense_row_def)
  then show ?thesis by (intro nth_equalityI) (simp_all add: dense_rows_def dense_of_def)
qed

end
