(* ===== verification/CrsOps.thy ===== *)
theory CrsOps
  imports CrsArith CrsParts CrsConv
begin

text \<open>
  Selecting, cutting, joining, summing and scaling local CRS matrices, as functions on the list of
  rows.  With \<open>CrsConv\<close>, \<open>CrsTranspose\<close> and \<open>CrsProducts\<close> this covers the operations on matrices
  that satisfy the invariant \<open>crs_ok\<close>.
\<close>

subsection \<open>Ranges of rows\<close>

lemma row_width_eq: "r < length rows \<Longrightarrow> row_width (row_offs 0 rows) r = Some (length (rows ! r))"
  by (simp add: row_width_def row_offs_Suc)

lemma shift_offsets_eq:
  assumes "s + n \<le> length rows"
  shows "shift_offsets (row_offs 0 rows) s n = Some (row_offs 0 (take n (drop s rows)))"
proof -
  let ?rs = "take n (drop s rows)"
  have "ok (shift_offsets (row_offs 0 rows) s n)
    (\<lambda>off. length off = n + 1 \<and> (\<forall>k\<le>n. off ! k = row_offs 0 ?rs ! k))"
    unfolding shift_offsets_def
  proof (rule ok_for_range [where I = "\<lambda>k off. length off = n + 1 \<and> (\<forall>j\<le>k. off ! j = row_offs 0 ?rs ! j)"])
    fix k off
    assume k: "0 \<le> k" "k < n" and off: "length off = n + 1 \<and> (\<forall>j\<le>k. off ! j = row_offs 0 ?rs ! j)"
    have "row_width (row_offs 0 rows) (s + k) = Some (length (?rs ! k))" using k assms by (simp add: row_width_eq)
    moreover have "row_offs 0 ?rs ! Suc k = row_offs 0 ?rs ! k + length (?rs ! k)" using k assms by (intro row_offs_Suc) simp
    ultimately show "ok (do { o' \<leftarrow> rd off k; w \<leftarrow> row_width (row_offs 0 rows) (s + k); wr off (k + 1) (o' + w) })
      (\<lambda>off. length off = n + 1 \<and> (\<forall>j\<le>Suc k. off ! j = row_offs 0 ?rs ! j))"
      using off k by (auto simp: ok_simps nth_list_update le_Suc_eq)
  qed (simp_all add: row_offs_nth)
  then show ?thesis using assms by (auto simp: ok_iff_ex intro!: nth_equalityI)
qed

lemma concat_range:
  assumes "s + n \<le> length rows"
  shows "take (length (concat (take n (drop s rows)))) (drop (length (concat (take s rows))) (concat rows)) = concat (take n (drop s rows))"
proof -
  have "concat rows = concat (take s rows) @ concat (take n (drop s rows)) @ concat (drop n (drop s rows))"
    by (metis append_take_drop_id concat_append)
  then show ?thesis by simp
qed

lemma range_offs:
  assumes "s + n \<le> length rows"
  shows "row_offs 0 rows ! (s + n) = row_offs 0 rows ! s + length (concat (take n (drop s rows)))"
  using assms by (simp add: row_offs_nth take_add)

lemma crs_part_eq:
  assumes "s \<le> e" "e \<le> length rows"
  shows "crs_part (of_rows ncol rows) s e = Some (of_rows ncol (take (e - s) (drop s rows)))"
proof -
  let ?rs = "take (e - s) (drop s rows)"
  let ?n = "length (concat ?rs)" and ?o = "length (concat (take s rows))"
  have fit: "s + (e - s) \<le> length rows" "s + (e - s) = e" using assms by simp_all
  have offs: "row_offs 0 rows ! s = ?o" "row_offs 0 rows ! e = ?o + ?n"
    using range_offs [OF fit(1)] assms by (simp_all add: row_offs_nth)
  have part: "take ?n (drop ?o (map f (concat rows))) = map f (concat ?rs)" for f :: "nat \<times> 'a \<Rightarrow> 'x"
    unfolding drop_map take_map concat_range [OF fit(1)] ..
  have copy: "copy_cells (map f (concat rows)) ?o (replicate ?n z) 0 ?n = Some (map f (concat ?rs))" for f :: "nat \<times> 'a \<Rightarrow> 'x" and z
    using copy_cells_run [of "map f (concat ?rs)" ?o "map f (concat rows)" 0 "replicate ?n z"] by (simp add: part del: map_concat)
  show ?thesis
    using assms shift_offsets_eq [OF fit(1)] by (simp add: crs_part_def offs copy of_rows_def)
qed

subsection \<open>Cutting and joining\<close>

lemma std_lower_bound_mono: "x \<le> y \<Longrightarrow> std_lower_bound xs x \<le> std_lower_bound xs y"
  unfolding std_lower_bound_def by (induction xs) auto

lemma std_lower_bound_le: "std_lower_bound xs x \<le> length xs"
  by (simp add: std_lower_bound_def length_takeWhile_le)

lemma crs_divide_row_ok:
  fixes rows :: "(nat \<times> 'a::zero) list list"
  assumes "0 < n"
  obtains d where "crs_divide_row (of_rows ncol rows) n = Some d" "length d = Suc n" "d ! 0 = 0"
    "d ! n = length rows" "sorted d"
proof -
  define each where "each = ceil_div (length (concat rows)) n"
  define f where "f = (\<lambda>i. min (std_lower_bound (row_offs 0 rows) (each * i)) (length rows))"
  have f: "std_lower_bound (row_offs 0 rows) (each * i) \<noteq> Suc (length rows) \<Longrightarrow> f i = std_lower_bound (row_offs 0 rows) (each * i)"
    "std_lower_bound (row_offs 0 rows) (each * i) = Suc (length rows) \<Longrightarrow> f i = length rows" for i
    using std_lower_bound_le [of "row_offs 0 rows" "each * i"] by (simp_all add: f_def)
  have mono: "f i \<le> f j" if "i \<le> j" for i j
    using std_lower_bound_mono [of "each * i" "each * j" "row_offs 0 rows"] that by (auto simp: f_def min_def)
  have "row_offs 0 rows ! length rows = length (concat rows)" by (simp add: row_offs_nth)
  then have "crs_divide_row (of_rows ncol rows) n = Some (map f [0..<n] @ [length rows])"
    using assms by (simp add: crs_divide_row_def Let_def f flip: each_def)
  moreover have "sorted (map f [0..<n] @ [length rows])"
  proof -
    have "sorted (map f [0..<n])" by (simp add: sorted_iff_nth_mono mono)
    moreover have "f i \<le> length rows" for i by (simp add: f_def)
    ultimately show ?thesis by (auto simp: sorted_append)
  qed
  moreover have "f 0 = 0" by (simp add: f_def std_lower_bound_def) (cases "row_offs 0 rows", simp_all)
  ultimately show thesis using assms by (intro that) (simp_all add: nth_append)
qed

definition split_rows :: "nat list \<Rightarrow> nat \<Rightarrow> 'r list \<Rightarrow> 'r list list" where
  "split_rows d n rows = map (\<lambda>i. take (d ! Suc i - d ! i) (drop (d ! i) rows)) [0..<n]"

lemma scatter_eq:
  fixes rows :: "(nat \<times> 'a::zero) list list"
  assumes "0 < n"
  obtains rss where "get_scattered_crs_matrices (of_rows ncol rows) n = Some (map (of_rows ncol) rss)"
    "length rss = n" "concat rss = rows"
proof -
  obtain d where d: "crs_divide_row (of_rows ncol rows) n = Some d" "length d = Suc n" "d ! 0 = 0"
    "d ! n = length rows" "sorted d" by (rule crs_divide_row_ok [OF assms])
  let ?rss = "split_rows d n rows"
  have "crs_part (of_rows ncol rows) (d ! i) (d ! Suc i) = Some (of_rows ncol (?rss ! i))" if "i < n" for i
  proof -
    have "d ! i \<le> d ! Suc i" "d ! Suc i \<le> d ! n" using d(2,5) that by (intro sorted_nth_mono; simp)+
    then show ?thesis using crs_part_eq [of "d ! i" "d ! Suc i" rows ncol] that by (simp add: d(4) split_rows_def)
  qed
  then have "omap (\<lambda>i. do { s \<leftarrow> rd d i; e \<leftarrow> rd d (i + 1); crs_part (of_rows ncol rows) s e }) [0..<n] =
    Some (map (\<lambda>i. of_rows ncol (?rss ! i)) [0..<n])"
    by (intro omap_Some) (simp add: d(2))
  also have "map (\<lambda>i. of_rows ncol (?rss ! i)) [0..<n] = map (of_rows ncol) ?rss"
    by (rule nth_equalityI) (simp_all add: split_rows_def)
  finally have "get_scattered_crs_matrices (of_rows ncol rows) n = Some (map (of_rows ncol) ?rss)"
    by (simp add: get_scattered_crs_matrices_def d(1))
  moreover have "concat ?rss = rows"
    unfolding split_rows_def using concat_slices [of d n rows] d by simp
  ultimately show thesis by (intro that) (simp_all add: split_rows_def)
qed

lemma row_offs_append: "row_offs a (xs @ ys) = butlast (row_offs a xs) @ row_offs (a + length (concat xs)) ys"
  by (induction xs arbitrary: a) (simp_all add: add.assoc)

lemma row_offs_butlast: "butlast (row_offs a rows) = map (\<lambda>k. a + row_offs 0 rows ! k) [0..<length rows]"
  by (rule nth_equalityI) (simp_all add: nth_butlast row_offs_nth)

lemma copy_in:
  assumes "length new = length old"
  shows "copy_cells new 0 (pre @ old @ post) (length pre) (length new) = Some (pre @ new @ post)"
  using copy_cells_run [of new 0 new "length pre" "pre @ old @ post"] assms by simp

lemma offs_loop:
  assumes "length old = n" "n < length off"
  shows "for_each (\<lambda>j ret. do { o' \<leftarrow> rd off j; wr ret (length pre + j) (o' + t) }) [0..<n] (pre @ old @ post) =
    Some (pre @ map (\<lambda>k. off ! k + (t :: nat)) [0..<n] @ post)"
proof -
  have "ok (for_each (\<lambda>j ret. do { o' \<leftarrow> rd off j; wr ret (length pre + j) (o' + t) }) [0..<n] (pre @ old @ post))
    (\<lambda>r. r = pre @ map (\<lambda>k. off ! k + t) [0..<n] @ drop n old @ post)"
  proof (rule ok_for_range [where I = "\<lambda>k r. r = pre @ map (\<lambda>k. off ! k + t) [0..<k] @ drop k old @ post"])
    fix k r assume k: "k < n" and r: "r = pre @ map (\<lambda>k. off ! k + t) [0..<k] @ drop k old @ post"
    have "drop k old = old ! k # drop (Suc k) old" using k assms(1) by (simp add: Cons_nth_drop_Suc)
    then show "ok (do { o' \<leftarrow> rd off k; wr r (length pre + k) (o' + t) })
      (\<lambda>r. r = pre @ map (\<lambda>k. off ! k + t) [0..<Suc k] @ drop (Suc k) old @ post)"
      using k assms by (simp add: ok_simps r list_update_append)
  qed simp_all
  then show ?thesis using assms(1) by (simp add: ok_eq)
qed

lemma replicate_split: "k \<le> n \<Longrightarrow> replicate n x = replicate k x @ replicate (n - k) x"
  by (simp flip: replicate_add)

text \<open>One part behind those already joined, \<open>acc\<close>; \<open>k\<close> values and \<open>l\<close> rows are still to come.\<close>

lemma merge_part_eq:
  fixes rows acc :: "(nat \<times> 'a::zero) list list"
  assumes "k = length (concat rows) + k'" "l = length rows + l'"
  shows "merge_part (of_rows ncol rows)
     ((map snd (concat acc) @ replicate k 0, map fst (concat acc) @ replicate k 0, butlast (row_offs 0 acc) @ replicate (l + 1) 0),
      length (concat acc), length acc, length (concat acc)) =
    Some ((map snd (concat (acc @ rows)) @ replicate k' 0, map fst (concat (acc @ rows)) @ replicate k' 0,
      butlast (row_offs 0 (acc @ rows)) @ replicate (l' + 1) 0),
      length (concat (acc @ rows)), length (acc @ rows), length (concat (acc @ rows)))"
proof -
  have k: "replicate k z = replicate (length (concat rows)) z @ replicate k' z" for z :: 'x
    by (simp add: assms(1) replicate_add)
  have copy: "copy_cells (map f (concat rows)) 0 (map f (concat acc) @ replicate k z) (length (concat acc)) (length (concat rows)) =
    Some (map f (concat (acc @ rows)) @ replicate k' z)" for f :: "nat \<times> 'a \<Rightarrow> 'x" and z
    using copy_in [of "map f (concat rows)" "replicate (length (concat rows)) z" "map f (concat acc)" "replicate k' z"]
    by (simp add: k del: map_concat)
  have l: "replicate (l + 1) z = replicate (length rows) z @ replicate (l' + 1) z" for z :: 'x
    by (simp add: assms(2) add.assoc flip: replicate_add replicate_Suc)
  have "for_each (\<lambda>j ret. do { o' \<leftarrow> rd (row_offs 0 rows) j; wr ret (length acc + j) (o' + length (concat acc)) }) [0..<length rows]
      (butlast (row_offs 0 acc) @ replicate (l + 1) 0) =
    Some (butlast (row_offs 0 acc) @ map (\<lambda>k. row_offs 0 rows ! k + length (concat acc)) [0..<length rows] @ replicate (l' + 1) 0)"
    using offs_loop [of "replicate (length rows) 0" "length rows" "row_offs 0 rows" "butlast (row_offs 0 acc)"]
    by (simp only: l) (simp del: replicate.simps)
  moreover have "butlast (row_offs 0 (acc @ rows)) =
    butlast (row_offs 0 acc) @ map (\<lambda>k. row_offs 0 rows ! k + length (concat acc)) [0..<length rows]"
    by (simp add: row_offs_append butlast_append row_offs_butlast [of "length (concat acc)" rows] add.commute)
  ultimately show ?thesis
    by (simp add: merge_part_def Let_def copy row_offs_nth del: replicate.simps map_concat)
qed

lemma merge_parts:
  fixes rss :: "(nat \<times> 'a::zero) list list list"
  assumes "k = length (concat (concat rss))" "l = length (concat rss)"
  shows "for_each merge_part (map (of_rows ncol) rss)
     ((map snd (concat acc) @ replicate k 0, map fst (concat acc) @ replicate k 0, butlast (row_offs 0 acc) @ replicate (l + 1) 0),
      length (concat acc), length acc, length (concat acc)) =
    Some ((map snd (concat (acc @ concat rss)), map fst (concat (acc @ concat rss)), butlast (row_offs 0 (acc @ concat rss)) @ [0]),
      length (concat (acc @ concat rss)), length (acc @ concat rss), length (concat (acc @ concat rss)))"
  using assms
proof (induction rss arbitrary: acc k l)
  case (Cons rows rss)
  let ?k' = "length (concat (concat rss))" and ?l' = "length (concat rss)"
  have "k = length (concat rows) + ?k'" "l = length rows + ?l'" using Cons.prems by simp_all
  then have "merge_part (of_rows ncol rows)
     ((map snd (concat acc) @ replicate k 0, map fst (concat acc) @ replicate k 0, butlast (row_offs 0 acc) @ replicate (l + 1) 0),
      length (concat acc), length acc, length (concat acc)) =
    Some ((map snd (concat (acc @ rows)) @ replicate ?k' 0, map fst (concat (acc @ rows)) @ replicate ?k' 0,
      butlast (row_offs 0 (acc @ rows)) @ replicate (?l' + 1) 0),
      length (concat (acc @ rows)), length (acc @ rows), length (concat (acc @ rows)))"
    by (rule merge_part_eq)
  then show ?case
    using Cons.IH [OF refl refl, of "acc @ rows"]
    by (simp only: list.map for_each.simps bind.bind_lunit concat.simps append_assoc)
qed simp

lemma merge_eq:
  fixes rss :: "(nat \<times> 'a::zero) list list list"
  assumes "rss \<noteq> []"
  shows "merge_scattered_crs_matrices u (map (of_rows ncol) rss) = Some (Inr (of_rows ncol (concat rss)))"
proof -
  let ?ms = "map (of_rows ncol) rss" and ?rows = "concat rss"
  have sizes: "sum_list (map (\<lambda>m. length (crs_val m)) ?ms) = length (concat ?rows)" "sum_list (map crs_nrow ?ms) = length ?rows"
    by (induction rss) simp_all
  have offs: "sum_list (map (\<lambda>m. length (crs_off m)) ?ms) = length ?rows + length rss"
    by (induction rss) simp_all
  have same: "\<not> (\<exists>m\<in>set (tl ?ms). crs_ncol m \<noteq> ncol)" by (cases rss) auto
  have first: "rd ?ms 0 = Some (of_rows ncol (hd rss))" using assms by (cases rss) simp_all
  let ?z = "replicate (length (concat ?rows)) 0"
  have "for_each merge_part ?ms ((?z, replicate (length (concat ?rows)) 0, replicate (length ?rows + 1) 0), 0, 0, 0) =
    Some ((map snd (concat ?rows), map fst (concat ?rows), butlast (row_offs 0 ?rows) @ [0]),
      length (concat ?rows), length ?rows, length (concat ?rows))"
    using merge_parts [of "length (concat ?rows)" rss "length ?rows" ncol "[]"] by simp
  moreover have "wr (butlast (row_offs 0 ?rows) @ [0]) (length ?rows) (length (concat ?rows)) = Some (row_offs 0 ?rows)"
    using last_row_offs [of 0 ?rows] append_butlast_last_id [of "row_offs 0 ?rows"] by (simp add: list_update_append)
  ultimately show ?thesis
    using assms same
    by (simp add: merge_scattered_crs_matrices_def merge_scattered_crs_matrices_impl_def Let_def first sizes offs of_rows_def
        del: replicate.simps map_map)
qed

text \<open>Parts whose numbers of columns differ are refused.\<close>

lemma merge_refused:
  assumes "\<exists>m\<in>set ms. crs_ncol m \<noteq> crs_ncol m0"
  shows "merge_scattered_crs_matrices u (m0 # ms) =
    Some (Inl ''merge_scattered_crs_matrices_impl: local_num_col is different'')"
  using assms by (simp add: merge_scattered_crs_matrices_def merge_scattered_crs_matrices_impl_def Let_def)

subsection \<open>Selecting rows\<close>

lemma extract_rows_eq:
  fixes rows :: "(nat \<times> 'a::zero) list list"
  assumes ids: "\<forall>r\<in>set rowids. r < length rows"
  shows "extract_rows (of_rows ncol rows) rowids = Some (Inr (of_rows ncol (map (\<lambda>r. rows ! r) rowids)))"
proof -
  define n where "n = length rowids"
  define sel where "sel = map (\<lambda>r. rows ! r) rowids"
  define nnz where "nnz = length (concat sel)"
  have len: "length sel = n" by (simp add: sel_def n_def)
  have "for_each (\<lambda>r k. do { w \<leftarrow> row_width (row_offs 0 rows) r; Some (k + w) }) rowids k = Some (k + nnz)" for k
    using ids unfolding nnz_def sel_def by (induction rowids arbitrary: k) (simp_all add: row_width_eq)
  then have size: "for_each (\<lambda>r k. do { w \<leftarrow> row_width (row_offs 0 rows) r; Some (k + w) }) rowids 0 = Some nnz" by simp
  have row: "row_loop (row_offs 0 rows) r (extract_entry (of_rows ncol rows)) st = for_each push_entry (rows ! r) st"
    if "r < length rows" for r st
  proof (rule row_loop_items [OF that])
    fix o' and s :: "'a list \<times> nat list \<times> nat" assume "o' < length (concat rows)"
    then show "extract_entry (of_rows ncol rows) o' s = push_entry (concat rows ! o') s"
      by (cases s) (auto simp: extract_entry_def push_entry_def wr_def split: Option.bind_splits)
  qed
  let ?I = "\<lambda>k st. st = (map snd (concat (take k sel)) @ replicate (nnz - length (concat (take k sel))) 0,
    map fst (concat (take k sel)) @ replicate (nnz - length (concat (take k sel))) 0,
    length (concat (take k sel)), row_offs 0 (take k sel) @ replicate (n - k) 0)"
  let ?body = "\<lambda>i (rval, ridx, counter, roff). do {
           r \<leftarrow> rd rowids i;
           (rval, ridx, counter) \<leftarrow> row_loop (row_offs 0 rows) r (extract_entry (of_rows ncol rows)) (rval, ridx, counter);
           roff \<leftarrow> wr roff (i + 1) counter;
           Some (rval, ridx, counter, roff) }"
  have "ok (for_each ?body [0..<n] (replicate nnz 0, replicate nnz 0, 0, replicate (n + 1) 0)) (?I n)"
  proof (rule ok_for_range [where I = ?I])
    fix k and st :: "'a list \<times> nat list \<times> nat \<times> nat list"
    assume k: "0 \<le> k" "k < n" and st: "?I k st"
    have r: "rowids ! k < length rows" "rows ! (rowids ! k) = sel ! k"
      using ids k by (simp_all add: n_def sel_def)
    have fit: "length (concat (take k sel)) + length (sel ! k) \<le> nnz"
      using concat_take_Suc [of k sel] concat_take_le [of "Suc k" sel] k len by (simp add: nnz_def)
    have "row_offs 0 (take k sel) @ replicate (n - k) 0 = row_offs 0 (take k sel) @ 0 # replicate (n - Suc k) 0"
      using k by (simp add: Suc_diff_Suc flip: replicate_Suc)
    moreover have "row_offs 0 (take (Suc k) sel) = row_offs 0 (take k sel) @ [length (concat (take (Suc k) sel))]"
      using k len row_offs_snoc [of 0 "take k sel" "sel ! k"] by (simp add: take_Suc_conv_app_nth)
    ultimately show "ok (?body k st) (?I (Suc k))"
      using st k len fit push_entries [of "sel ! k" "replicate (nnz - length (concat (take k sel))) 0" "replicate (nnz - length (concat (take k sel))) 0" "concat (take k sel)"]
      by (simp add: ok_simps row [OF r(1)] r(2) n_def concat_take_Suc list_update_append min_def diff_diff_add)
  qed (simp_all add: n_def)
  then have loop: "for_each ?body [0..<n] (replicate nnz 0, replicate nnz 0, 0, replicate (n + 1) 0) =
    Some (map snd (concat sel), map fst (concat sel), nnz, row_offs 0 sel)"
    by (simp add: ok_eq len nnz_def)
  have "filter (\<lambda>r. length rows \<le> r) rowids = []" using ids by (auto simp: filter_empty_conv not_le)
  then have "extract_rows (of_rows ncol rows) rowids = Some (Inr (of_rows ncol sel))"
    using loop size by (simp add: extract_rows_def Let_def n_def of_rows_def sel_def)
  then show ?thesis by (simp only: sel_def)
qed

lemma extract_rows_invalid:
  assumes "\<exists>r\<in>set rowids. crs_nrow m \<le> r"
  shows "extract_rows m rowids = Some (Inl ''extract_rows: invalid position'')"
  using assms by (auto simp: extract_rows_def Let_def filter_empty_conv)

lemma slice_eq:
  fixes rows :: "(nat \<times> 'a::{zero,times}) list list"
  assumes "s \<le> e" "e < length rows"
  shows "slice_crs_matrix (of_rows ncol rows) s e alpha =
    Some (of_rows ncol (map (map (\<lambda>(c, v). (c, v * alpha))) (take (e + 1 - s) (drop s rows))))"
proof -
  let ?rs = "take (e + 1 - s) (drop s rows)"
  define xs where "xs = concat ?rs"
  let ?o = "length (concat (take s rows))"
  have fit: "s + (e + 1 - s) \<le> length rows" "s + (e + 1 - s) = e + 1" using assms by simp_all
  have offs: "row_offs 0 rows ! s = ?o" "row_offs 0 rows ! Suc e = ?o + length xs"
    using range_offs [OF fit(1)] assms by (simp_all add: row_offs_nth xs_def)
  have cut: "take (length xs) (drop ?o (concat rows)) = xs" using concat_range [OF fit(1)] by (simp add: xs_def)
  have le: "?o + length xs \<le> length (concat rows)"
    using arg_cong [OF cut, of length] concat_take_le [of s rows] by simp
  have at: "concat rows ! (?o + i) = xs ! i" if "i < length xs" for i
    using arg_cong [OF cut, of "\<lambda>ys. ys ! i"] that le by simp
  let ?body = "\<lambda>i (rval, ridx). do {
         v \<leftarrow> rd (map snd (concat rows)) (?o + i);
         rval \<leftarrow> wr rval i (v * alpha);
         c \<leftarrow> rd (map fst (concat rows)) (?o + i);
         ridx \<leftarrow> wr ridx i c;
         Some (rval, ridx) }"
  have "ok (for_each ?body [0..<length xs] (replicate (length xs) 0, replicate (length xs) 0))
    (\<lambda>(rval, ridx). length rval = length xs \<and> length ridx = length xs \<and>
      (\<forall>j<length xs. rval ! j = snd (xs ! j) * alpha \<and> ridx ! j = fst (xs ! j)))"
    by (rule ok_for_range [where I = "\<lambda>k (rval, ridx). length rval = length xs \<and> length ridx = length xs \<and>
      (\<forall>j<k. rval ! j = snd (xs ! j) * alpha \<and> ridx ! j = fst (xs ! j))"])
      (use le at in \<open>auto simp: ok_simps nth_list_update less_Suc_eq\<close>)
  then have loop: "for_each ?body [0..<length xs] (replicate (length xs) 0, replicate (length xs) 0) =
    Some (map (\<lambda>(c, v). v * alpha) xs, map fst xs)"
    by (auto simp: ok_iff_ex case_prod_beta intro!: nth_equalityI)
  have "concat (map (map (\<lambda>(c, v). (c, v * alpha))) ?rs) = map (\<lambda>(c, v). (c, v * alpha)) xs"
    by (simp add: xs_def map_concat)
  moreover have "row_offs 0 (map (map (\<lambda>(c, v). (c, v * alpha))) ?rs) = row_offs 0 ?rs"
    by (rule row_offs_map) simp
  ultimately show ?thesis
    using assms loop shift_offsets_eq [OF fit(1)]
    by (simp add: slice_crs_matrix_def offs of_rows_def comp_def case_prod_beta' Suc_diff_le)
qed

subsection \<open>Sums\<close>

lemma scatter_two:
  assumes "scatter_upd (+) (map (\<lambda>(p, x, y). (p, x)) ps) a = Some A" "scatter_upd (+) (map (\<lambda>(p, x, y). (p, y)) ps) b = Some B"
  shows "for_each (\<lambda>(p, x, y) (a, b). do { a \<leftarrow> add_at a p x; b \<leftarrow> add_at b p y; Some (a, b) }) ps (a, b) = Some (A, B)"
  using assms by (induction ps arbitrary: a b) (auto simp: add_at_def bind_eq_Some_conv)

lemma sum_column:
  "sum_list (cell_items (concat rows) c) = (\<Sum>r<length rows. crs_at rows r c :: 'a::comm_monoid_add)"
proof -
  have "sum_list (cell_items (concat rows) c) = (\<Sum>r\<leftarrow>[0..<length rows]. crs_at rows r c)"
  proof (induction rows rule: rev_induct)
    case (snoc row rows)
    have "map (\<lambda>r. crs_at (rows @ [row]) r c) [0..<length rows] = map (\<lambda>r. crs_at rows r c) [0..<length rows]"
      by (rule map_cong) (simp_all add: crs_at_def nth_append)
    then have "(\<Sum>r\<leftarrow>[0..<length rows]. crs_at (rows @ [row]) r c) = sum_list (cell_items (concat rows) c)"
      by (simp only: snoc)
    then show ?case by (simp add: crs_at_def [of "rows @ [row]" "length rows"])
  qed simp
  then show ?thesis by (simp add: interv_sum_list_conv_sum_set_nat atLeast0LessThan)
qed

lemma sum_of_rows_eq:
  fixes rows :: "(nat \<times> 'a::monoid_add) list list"
  assumes cols: "cols_ok ncol rows"
  shows "sum_of_rows (of_rows ncol rows) [] =
    Some (map (\<lambda>c. sum_list (cell_items (concat rows) c)) [0..<ncol], map (\<lambda>c. length (cell_items (concat rows) c)) [0..<ncol])"
proof -
  define xs where "xs = concat rows"
  let ?ps = "map (\<lambda>(c, v). (c, v, 1 :: nat)) xs"
  have bound: "c < ncol" if "(c, v) \<in> set xs" for c v using cols that by (auto simp: cols_ok_def xs_def)
  have "scatter_upd (+) (map (\<lambda>(p, x, y). (p, x)) ?ps) (replicate ncol 0) =
    Some (map (\<lambda>c. sum_list (cell_items xs c)) [0..<ncol])"
    using bound by (subst scatter_add_eq) (auto simp: comp_def case_prod_beta)
  moreover have "scatter_upd (+) (map (\<lambda>(p, x, y). (p, y)) ?ps) (replicate ncol 0) =
    Some (map (\<lambda>c. length (cell_items xs c)) [0..<ncol])"
  proof -
    have "sum_list (cell_items (map (\<lambda>(c, v). (c, 1 :: nat)) xs) c) = length (cell_items xs c)" for xs :: "(nat \<times> 'a) list" and c
      by (induction xs) auto
    then show ?thesis using bound by (subst scatter_add_eq) (auto simp: comp_def case_prod_beta')
  qed
  ultimately have run: "for_each (\<lambda>(p, x, y) (a, b). do { a \<leftarrow> add_at a p x; b \<leftarrow> add_at b p y; Some (a, b) }) ?ps
    (replicate ncol 0, replicate ncol 0) = Some (map (\<lambda>c. sum_list (cell_items xs c)) [0..<ncol],
      map (\<lambda>c. length (cell_items xs c)) [0..<ncol])"
    by (rule scatter_two)
  have "sum_of_rows (of_rows ncol rows) [] = for_each (\<lambda>(r, c, v) (a, b). do {
      a \<leftarrow> add_at a c v; b \<leftarrow> add_at b c 1; Some (a, b) }) (entries rows) (replicate ncol 0, replicate ncol 0)"
    unfolding sum_of_rows_def of_rows_sel
    by (simp add: vec_resize_def) (rule rows_loop_entries, simp add: rows_read case_prod_beta del: rd_Some)
  also have "\<dots> = for_each (\<lambda>(p, x, y) (a, b). do { a \<leftarrow> add_at a p x; b \<leftarrow> add_at b p y; Some (a, b) }) ?ps
      (replicate ncol 0, replicate ncol 0)"
    by (simp add: for_each_map case_prod_beta' xs_def del: map_concat flip: entries_snd)
  finally show ?thesis by (simp only: run flip: xs_def)
qed

lemma rem32_eq:
  assumes "len < 2 ^ 31" "i < 2 ^ 31"
  shows "rem32 len i = int len - int i"
  unfolding rem32_def sint_sbintrunc' using assms by (simp add: signed_take_bit_int_eq_self)

lemma rem32_wraps: "rem32 (2 ^ 31) 0 < 0"
  by (simp add: rem32_def)

lemma sum_of_cols_eq:
  fixes rows :: "(nat \<times> 'a::monoid_add) list list"
  assumes short: "\<forall>row\<in>set rows. length row < 2 ^ 31"
  shows "sum_of_cols (of_rows ncol rows) [] = Some (map (\<lambda>row. sum_list (map snd row)) rows, map length rows)"
proof -
  let ?n = "length rows"
  define widest where "widest = (\<lambda>k. fold max (map length (take k rows)) 0)"
  have zero: "widest 0 = 0" by (simp add: widest_def)
  have snoc: "widest (Suc k) = max (length (rows ! k)) (widest k)" if "k < ?n" for k
    using that by (simp add: widest_def take_Suc_conv_app_nth)
  have bound: "length (rows ! j) \<le> widest k" if "j < k" "k \<le> ?n" for j k
    using that by (induction k) (auto simp: snoc less_Suc_eq max_def)
  have small: "widest k < 2 ^ 31" if "k \<le> ?n" for k
    using that short by (induction k) (auto simp: snoc zero)
  have "ok (for_each (\<lambda>i (maxlen, count). do {
         rowlen \<leftarrow> row_width (row_offs 0 rows) i;
         count \<leftarrow> wr count i rowlen;
         Some (if maxlen < rowlen then rowlen else maxlen, count) }) [0..<?n] (0, replicate ?n 0))
    (\<lambda>(mx, count). mx = widest ?n \<and> length count = ?n \<and> (\<forall>j<?n. count ! j = length (rows ! j)))"
    by (rule ok_for_range [where I = "\<lambda>k (mx, count). mx = widest k \<and> length count = ?n \<and> (\<forall>j<k. count ! j = length (rows ! j))"])
      (auto simp: ok_simps row_width_eq snoc nth_list_update less_Suc_eq zero)
  then have lens: "for_each (\<lambda>i (maxlen, count). do {
         rowlen \<leftarrow> row_width (row_offs 0 rows) i;
         count \<leftarrow> wr count i rowlen;
         Some (if maxlen < rowlen then rowlen else maxlen, count) }) [0..<?n] (0, replicate ?n 0) = Some (widest ?n, map length rows)"
    by (auto simp: ok_iff_ex intro!: nth_equalityI)
  let ?cell = "\<lambda>i j sum_vec. do {
         len \<leftarrow> row_width (row_offs 0 rows) j;
         if 0 < rem32 len i then do {
           first \<leftarrow> rd (row_offs 0 rows) j;
           v \<leftarrow> rd (map snd (concat rows)) (first + i);
           add_at sum_vec j v }
         else Some sum_vec }"
  let ?S = "\<lambda>i j. sum_list (map snd (take i (rows ! j)))"
  have "ok (for_each (\<lambda>i. for_each (?cell i) [0..<?n]) [0..<widest ?n] (replicate ?n 0))
    (\<lambda>s. length s = ?n \<and> (\<forall>j<?n. s ! j = ?S (widest ?n) j))"
  proof (rule ok_for_range [where I = "\<lambda>i s. length s = ?n \<and> (\<forall>j<?n. s ! j = ?S i j)"])
    fix i and s :: "'a list"
    assume i: "i < widest ?n" and s: "length s = ?n \<and> (\<forall>j<?n. s ! j = ?S i j)"
    show "ok (for_each (?cell i) [0..<?n] s) (\<lambda>s. length s = ?n \<and> (\<forall>j<?n. s ! j = ?S (Suc i) j))"
    proof (rule ok_mono, rule ok_for_range [where I = "\<lambda>k s. length s = ?n \<and> (\<forall>j<?n. s ! j = ?S (if j < k then Suc i else i) j)"])
      fix j and s :: "'a list"
      assume j: "j < ?n" and s: "length s = ?n \<and> (\<forall>j'<?n. s ! j' = ?S (if j' < j then Suc i else i) j')"
      have len: "length (rows ! j) < 2 ^ 31" using short j by simp
      have "i < 2 ^ 31" using i small [of ?n] by simp
      then have more: "0 < rem32 (length (rows ! j)) i \<longleftrightarrow> i < length (rows ! j)" using len by (simp add: rem32_eq)
      have at: "concat rows ! (length (concat (take j rows)) + i) = rows ! j ! i"
        "length (concat (take j rows)) + i < length (concat rows)" if "i < length (rows ! j)"
        using row_nth [OF j that] that concat_take_Suc [OF j] concat_take_le [of "Suc j" rows] by simp_all
      show "ok (?cell i j s) (\<lambda>s. length s = ?n \<and> (\<forall>j'<?n. s ! j' = ?S (if j' < Suc j then Suc i else i) j'))"
        using s j at more
        by (auto simp: ok_simps add_at_def row_width_eq row_offs_nth nth_list_update less_Suc_eq take_Suc_conv_app_nth)
    qed (use s in auto)
  qed simp_all
  then have "for_each (\<lambda>i. for_each (?cell i) [0..<?n]) [0..<widest ?n] (replicate ?n 0) = Some (map (\<lambda>row. sum_list (map snd row)) rows)"
    using bound [of _ ?n] by (auto simp: ok_iff_ex intro!: nth_equalityI)
  then show ?thesis by (simp add: sum_of_cols_def Let_def vec_resize_def lens cong: if_cong)
qed

subsection \<open>Row vectors and scaling\<close>

definition map_vals :: "(nat \<Rightarrow> nat \<Rightarrow> 'a \<Rightarrow> 'b) \<Rightarrow> (nat \<times> 'a) list list \<Rightarrow> (nat \<times> 'b) list list" where
  "map_vals f rows = map (\<lambda>(r, row). map (\<lambda>(c, v). (c, f r c v)) row) (enumerate 0 rows)"

lemma map_vals_nth: "r < length rows \<Longrightarrow> map_vals f rows ! r = map (\<lambda>(c, v). (c, f r c v)) (rows ! r)"
  by (simp add: map_vals_def nth_enumerate_eq)

lemma length_map_vals [simp]: "length (map_vals f rows) = length rows"
  by (simp add: map_vals_def)

lemma map_vals_snoc: "map_vals f (rows @ [row]) = map_vals f rows @ [map (\<lambda>(c, v). (c, f (length rows) c v)) row]"
  by (simp add: map_vals_def enumerate_append_eq)

lemma concat_map_vals: "concat (map_vals f rows) = map (\<lambda>(r, c, v). (c, f r c v)) (entries rows)"
  by (induction rows rule: rev_induct) (simp_all add: map_vals_def enumerate_append_eq entries_snoc comp_def case_prod_beta')

lemma row_offs_map_vals: "row_offs 0 (map_vals f rows) = row_offs 0 rows"
  by (induction rows rule: rev_induct)
    (simp_all add: map_vals_snoc row_offs_snoc concat_map_vals del: map_concat, simp add: map_vals_def)

lemma entries_cols: "map fst (concat rows) = map (\<lambda>e. fst (snd e)) (entries rows)"
  by (simp add: comp_def flip: entries_snd)

lemma of_rows_map_vals:
  "of_rows ncol (map_vals f rows) = (of_rows ncol rows)\<lparr> crs_val := map (\<lambda>(r, c, v). f r c v) (entries rows) \<rparr>"
  by (simp add: of_rows_def concat_map_vals row_offs_map_vals comp_def case_prod_beta' entries_cols del: map_concat)

lemma cols_ok_map_vals: "cols_ok ncol (map_vals f rows) = cols_ok ncol rows"
  unfolding cols_ok_def concat_map_vals by (subst entries_snd [symmetric, of rows]) (auto simp del: entries_snd)

text \<open>A loop that writes cell \<open>pos\<close> from entry \<open>pos\<close>.\<close>

lemma write_entries:
  assumes "\<And>pos s. pos < n \<Longrightarrow> length s = n \<Longrightarrow> s ! pos = old ! pos \<Longrightarrow> F pos s = Some (s[pos := x pos])" "length old = n"
  shows "for_each F [0..<n] old = Some (map x [0..<n])"
proof -
  have "ok (for_each F [0..<n] old) (\<lambda>s. length s = n \<and> (\<forall>j<n. s ! j = (if j < n then x j else old ! j)))"
    by (rule ok_for_range [where I = "\<lambda>k s. length s = n \<and> (\<forall>j<n. s ! j = (if j < k then x j else old ! j))"])
      (auto simp: assms nth_list_update less_Suc_eq)
  then show ?thesis by (auto simp: ok_iff_ex intro!: nth_equalityI)
qed

lemma cols_ok_nth: "cols_ok ncol rows \<Longrightarrow> pos < length (concat rows) \<Longrightarrow> fst (concat rows ! pos) < ncol"
  using bspec [OF iffD1 [OF cols_ok_def], of ncol rows "concat rows ! pos"] by (simp add: case_prod_beta del: set_concat)

lemma concat_nth: "pos < length (concat rows) \<Longrightarrow> concat rows ! pos = snd (entries rows ! pos)"
  by (metis entries_nth snd_conv)

lemma vector_row_eq:
  assumes "cols_ok ncol rows" "ncol \<le> length vec"
  shows "crs_vector_row oper (of_rows ncol rows) vec = Some (of_rows ncol (map_vals (\<lambda>_ c v. oper v (vec ! c)) rows))"
proof -
  let ?x = "\<lambda>pos. oper (snd (concat rows ! pos)) (vec ! fst (concat rows ! pos))"
  have col: "fst (concat rows ! pos) < length vec" if "pos < length (concat rows)" for pos
    using cols_ok_nth [OF assms(1) that] assms(2) by simp
  have "for_each (\<lambda>i val. do {
         c \<leftarrow> rd (map fst (concat rows)) i; x \<leftarrow> rd vec c; v \<leftarrow> rd val i; wr val i (oper v x) })
      [0..<length (concat rows)] (map snd (concat rows)) = Some (map ?x [0..<length (concat rows)])"
    by (rule write_entries) (use col in simp_all)
  also have "map ?x [0..<length (concat rows)] = map (\<lambda>(r, c, v). oper v (vec ! c)) (entries rows)"
    by (rule nth_equalityI) (simp_all add: case_prod_beta concat_nth)
  finally show ?thesis by (simp add: crs_vector_row_def of_rows_map_vals)
qed

lemma scale_axis0_eq:
  fixes rows :: "(nat \<times> 'a::{zero,times}) list list"
  assumes "length vec = length rows"
  shows "scale_crs_matrix_impl (of_rows ncol rows) 0 vec = Some (Inr (of_rows ncol (map_vals (\<lambda>r _ v. v * vec ! r) rows)))"
proof -
  let ?n = "length (concat rows)"
  let ?x = "\<lambda>pos. snd (snd (entries rows ! pos)) * vec ! fst (entries rows ! pos)"
  have row: "fst (entries rows ! pos) < length rows" if "pos < ?n" for pos
    using nth_mem [of pos "entries rows"] that by (auto simp: entries_set)
  have "rows_loop (row_offs 0 rows) (length rows) (\<lambda>i j rval. do {
      x \<leftarrow> mul_at (map snd (concat rows)) j vec i; wr rval j x }) (replicate ?n 0) =
    for_each (\<lambda>pos rval. do { x \<leftarrow> mul_at (map snd (concat rows)) pos vec (fst (entries rows ! pos)); wr rval pos x })
      [0..<?n] (replicate ?n 0)"
    by (simp only: rows_loop_positions for_each_map prod.case)
  also have "\<dots> = Some (map ?x [0..<?n])"
    by (rule write_entries) (use row assms concat_nth [of _ rows] in \<open>simp_all add: mul_at_def\<close>)
  finally have "rows_loop (row_offs 0 rows) (length rows) (\<lambda>i j rval. do {
      x \<leftarrow> mul_at (map snd (concat rows)) j vec i; wr rval j x }) (replicate ?n 0) = Some (map ?x [0..<?n])" .
  moreover have "map ?x [0..<?n] = map (\<lambda>(r, c, v). v * vec ! r) (entries rows)"
    by (rule nth_equalityI) (simp_all add: case_prod_beta)
  ultimately show ?thesis using assms by (simp add: scale_crs_matrix_impl_def Let_def of_rows_map_vals)
qed

lemma scale_axis1_eq:
  fixes rows :: "(nat \<times> 'a::{zero,times}) list list"
  assumes "cols_ok ncol rows" "length vec = ncol"
  shows "scale_crs_matrix_impl (of_rows ncol rows) 1 vec = Some (Inr (of_rows ncol (map_vals (\<lambda>_ c v. v * vec ! c) rows)))"
proof -
  let ?n = "length (concat rows)"
  let ?x = "\<lambda>pos. snd (concat rows ! pos) * vec ! fst (concat rows ! pos)"
  have col: "fst (concat rows ! pos) < length vec" if "pos < ?n" for pos
    using cols_ok_nth [OF assms(1) that] assms(2) by simp
  have "for_each (\<lambda>i rval. do {
         c \<leftarrow> rd (map fst (concat rows)) i; x \<leftarrow> mul_at (map snd (concat rows)) i vec c; wr rval i x })
      [0..<?n] (replicate ?n 0) = Some (map ?x [0..<?n])"
    by (rule write_entries) (use col in \<open>simp_all add: mul_at_def\<close>)
  also have "map ?x [0..<?n] = map (\<lambda>(r, c, v). v * vec ! c) (entries rows)"
    by (rule nth_equalityI) (simp_all add: case_prod_beta concat_nth)
  finally show ?thesis using assms by (simp add: scale_crs_matrix_impl_def Let_def of_rows_map_vals)
qed

subsection \<open>Coordinate triplets\<close>

definition coo_row :: "'a coo_triplet list \<Rightarrow> nat \<Rightarrow> (nat \<times> 'a) list" where
  "coo_row coo r = map (\<lambda>t. (coo_j t, coo_v t)) (filter (\<lambda>t. coo_i t = r) coo)"

lemma coo_rows_concat:
  assumes "sorted (map coo_i coo)" "\<forall>t\<in>set coo. coo_i t < n"
  shows "concat (map (coo_row coo) [0..<n]) = map (\<lambda>t. (coo_j t, coo_v t)) coo"
proof -
  have "concat (map (\<lambda>r. filter (\<lambda>t. coo_i t = r) coo) [0..<n]) = coo"
    using sort_key_buckets [of coo coo_i n] assms by (simp add: sort_key_id_if_sorted)
  then have "map (\<lambda>t. (coo_j t, coo_v t)) coo = map (\<lambda>t. (coo_j t, coo_v t)) (concat (map (\<lambda>r. filter (\<lambda>t. coo_i t = r) coo) [0..<n]))"
    by (rule arg_cong [OF sym])
  then show ?thesis by (simp add: map_concat comp_def coo_row_def [abs_def])
qed

lemma coo_rows_length:
  "length (concat (map (coo_row coo) [0..<n])) = length (filter (\<lambda>t. coo_i t < n) coo)"
  using length_buckets [of coo_i coo n] by (simp add: length_concat comp_def coo_row_def)

text \<open>Closing the lines from \<open>c\<close> up to a later line \<open>i\<close>: all triplets so far are in lines up to \<open>c\<close>.\<close>

lemma coo_offs_close:
  assumes "\<forall>t\<in>set coo. coo_i t \<le> c" "c \<le> i"
  shows "row_offs 0 (map (coo_row coo) [0..<i]) = row_offs 0 (map (coo_row coo) [0..<c]) @ replicate (i - c) (length coo)"
  using assms(2)
proof (induction i rule: dec_induct)
  case (step i)
  have "filter (\<lambda>t. coo_i t < Suc i) coo = coo" using assms(1) step(1) by (intro filter_True) auto
  then have "length (concat (map (coo_row coo) [0..<Suc i])) = length coo" by (simp only: coo_rows_length)
  then show ?case
    using step row_offs_snoc [of 0 "map (coo_row coo) [0..<i]" "coo_row coo i"]
    by (simp add: Suc_diff_le replicate_append_same)
qed simp

definition coo_state :: "'a coo_triplet list \<Rightarrow> ('a list \<times> nat list \<times> nat list) \<times> nat" where
  "coo_state pre = ((map coo_v pre, map coo_j pre,
     row_offs 0 (map (coo_row pre) [0..<(if pre = [] then 0 else coo_i (last pre))])),
     (if pre = [] then 0 else coo_i (last pre)))"

lemma coo_step_eq:
  assumes "sorted (map coo_i (pre @ [t]))"
  shows "coo_step t (coo_state pre) = Some (coo_state (pre @ [t]))"
proof -
  define c where "c = (if pre = [] then 0 else coo_i (last pre))"
  have "\<forall>s\<in>set pre. coo_i s \<le> c \<and> coo_i s \<le> coo_i t"
  proof (cases "pre = []")
    case False
    then have "pre = butlast pre @ [last pre]" by simp
    then have "sorted (map coo_i (butlast pre @ [last pre]) @ [coo_i t])" using assms by simp
    then have "\<forall>s\<in>set (butlast pre @ [last pre]). coo_i s \<le> coo_i (last pre) \<and> coo_i s \<le> coo_i t"
      by (auto simp: sorted_append)
    then show ?thesis using False by (simp add: c_def)
  qed simp
  then have le: "\<forall>s\<in>set pre. coo_i s \<le> c" and ct: "c \<le> coo_i t" by (auto simp: c_def)
  have "map (coo_row (pre @ [t])) [0..<coo_i t] = map (coo_row pre) [0..<coo_i t]"
    by (auto simp: coo_row_def)
  then have offs: "row_offs 0 (map (coo_row (pre @ [t])) [0..<coo_i t]) =
    row_offs 0 (map (coo_row pre) [0..<c]) @ replicate (coo_i t - c) (length pre)"
    by (simp only: coo_offs_close [OF le ct])
  have "coo_step t (coo_state pre) = Some ((map coo_v pre @ [coo_v t], map coo_j pre @ [coo_j t],
      row_offs 0 (map (coo_row pre) [0..<c]) @ replicate (coo_i t - c) (length pre)), coo_i t)"
    using ct by (auto simp: coo_step_def coo_state_def Let_def max_def simp flip: c_def)
  then show ?thesis by (simp add: coo_state_def [of "pre @ [t]"] offs)
qed

lemma coo_to_crs_eq:
  assumes "sorted (map coo_i coo)"
  shows "coo_to_crs u coo 0 = Some ((of_rows (snd u) (map (coo_row coo) [0..<(if coo = [] then 0 else coo_i (last coo) + 1)]))
    \<lparr> crs_nrow := fst u \<rparr>)"
proof -
  define n where "n = (if coo = [] then 0 else coo_i (last coo) + 1)"
  have "ok (for_each coo_step coo (([], [], [0]), 0)) (\<lambda>st. st = coo_state coo)"
  proof (rule ok_for_each [where I = "\<lambda>pre st. st = coo_state pre"])
    fix pre t post st
    assume "coo = pre @ t # post" "st = coo_state pre"
    moreover from this have "sorted (map coo_i (pre @ [t]))" using assms by (simp add: sorted_append)
    ultimately show "ok (coo_step t st) (\<lambda>st. st = coo_state (pre @ [t]))" by (simp add: coo_step_eq)
  qed (simp add: coo_state_def)
  then have run: "for_each coo_step coo (([], [], [0]), 0) = Some (coo_state coo)" by (simp add: ok_eq)
  have less: "\<forall>t\<in>set coo. coo_i t < n"
  proof (cases "coo = []")
    case False
    then have "coo = butlast coo @ [last coo]" by simp
    then have "sorted (map coo_i (butlast coo) @ [coo_i (last coo)])" using assms by (metis list.simps(8) list.simps(9) map_append)
    then have "\<forall>t\<in>set (butlast coo @ [last coo]). coo_i t \<le> coo_i (last coo)" by (auto simp: sorted_append)
    then show ?thesis using False by (simp add: n_def less_Suc_eq_le)
  qed simp
  have all: "concat (map (coo_row coo) [0..<n]) = map (\<lambda>t. (coo_j t, coo_v t)) coo"
    by (rule coo_rows_concat [OF assms less])
  have offs: "row_offs 0 (map (coo_row coo) [0..<n]) =
    (if coo = [] then [0] else row_offs 0 (map (coo_row coo) [0..<coo_i (last coo)]) @ [length coo])"
    using arg_cong [OF all, of length] row_offs_snoc [of 0 "map (coo_row coo) [0..<coo_i (last coo)]" "coo_row coo (coo_i (last coo))"]
    by (simp add: n_def split: if_splits)
  have "coo_to_crs u coo 0 = Some ((of_rows (snd u) (map (coo_row coo) [0..<n])) \<lparr> crs_nrow := fst u \<rparr>)"
    by (simp add: coo_to_crs_def run coo_state_def of_rows_def all offs comp_def Let_def del: upt_Suc)
  then show ?thesis by (simp only: n_def)
qed

end
