(* ===== verification/CrsProducts.thy ===== *)
theory CrsProducts
  imports CrsArith CrsConv
begin

text \<open>
  The products of \<open>CrsArith\<close> are matrix products: every cell of the result is the sum, over the inner
  dimension, of products of cells.  All kernels add blocks of cells to the result (\<open>add_block\<close>); the
  unrolled, the register-blocked and the plain kernel of the product with a dense matrix differ only
  in how they cut the columns into blocks.
\<close>

subsection \<open>Adding a block of cells\<close>

definition add_block :: "nat \<Rightarrow> 'a::plus list \<Rightarrow> 'a list \<Rightarrow> 'a list" where
  "add_block b xs ret = map (\<lambda>p. if b \<le> p \<and> p < b + length xs then ret ! p + xs ! (p - b) else ret ! p) [0..<length ret]"

lemma length_add_block [simp]: "length (add_block b xs ret) = length ret"
  by (simp add: add_block_def)

lemma add_block_Nil [simp]: "add_block b [] ret = ret"
  by (auto simp: add_block_def intro!: nth_equalityI)

lemma add_block_append: "add_block (b + length xs) ys (add_block b xs ret) = add_block b (xs @ ys) ret"
  by (auto simp: add_block_def nth_append intro!: nth_equalityI)

lemma add_block_same:
  "length xs = length ys \<Longrightarrow> add_block b ys (add_block b xs ret) = add_block b (map2 (+) xs ys) (ret :: 'a::semigroup_add list)"
  by (auto simp: add_block_def add.assoc intro!: nth_equalityI)

lemma add_block_full: "length xs = n \<Longrightarrow> add_block 0 xs (replicate n 0) = (xs :: 'a::monoid_add list)"
  by (auto simp: add_block_def intro!: nth_equalityI)

lemma add_block_snoc:
  assumes "b + length xs < length ret"
  shows "(add_block b xs ret)[b + length xs := ret ! (b + length xs) + x] = add_block b (xs @ [x]) ret"
  using assms by (auto simp: add_block_def nth_list_update nth_append intro!: nth_equalityI)

lemma add_loop:
  assumes "\<And>k. k < w \<Longrightarrow> X k = Some (x k)" "b + w \<le> length ret"
  shows "for_each (\<lambda>k ret. do { x \<leftarrow> X k; add_at ret (b + k) x }) [0..<w] ret = Some (add_block b (map x [0..<w]) ret)"
proof -
  have "ok (for_each (\<lambda>k ret. do { x \<leftarrow> X k; add_at ret (b + k) x }) [0..<w] ret)
    (\<lambda>r. r = add_block b (map x [0..<w]) ret)"
  proof (rule ok_for_range [where I = "\<lambda>k r. r = add_block b (map x [0..<k]) ret"])
    fix k r assume k: "k < w" and r: "r = add_block b (map x [0..<k]) ret"
    have "r ! (b + k) = ret ! (b + k)" using assms(2) k by (simp add: r add_block_def)
    then show "ok (do { x \<leftarrow> X k; add_at r (b + k) x }) (\<lambda>r. r = add_block b (map x [0..<Suc k]) ret)"
      using assms k r add_block_snoc [of b "map x [0..<k]" ret "x k"] by (simp add: add_at_def ok_simps)
  qed simp_all
  then show ?thesis by (simp add: ok_eq)
qed

text \<open>Adding one block per item, all to the same cells.\<close>

lemma add_blocks:
  assumes "\<And>e ret. e \<in> set es \<Longrightarrow> length ret = n \<Longrightarrow> F e ret = Some (add_block b (map (x e) [0..<w]) ret)" "length ret = n"
  shows "for_each F es ret = Some (add_block b (map (\<lambda>k. \<Sum>e\<leftarrow>es. x e k :: 'a::monoid_add) [0..<w]) ret)"
  using assms
proof (induction es arbitrary: ret)
  case Nil
  then show ?case by (auto simp: add_block_def intro!: nth_equalityI)
next
  case (Cons e es)
  have "map2 (+) (map (x e) [0..<w]) (map (\<lambda>k. \<Sum>e\<leftarrow>es. x e k) [0..<w]) = map (\<lambda>k. x e k + (\<Sum>e\<leftarrow>es. x e k)) [0..<w]"
    by (rule nth_equalityI) simp_all
  then show ?case
    using Cons add_block_same [of "map (x e) [0..<w]" "map (\<lambda>k. \<Sum>e\<leftarrow>es. x e k) [0..<w]" b ret] by simp
qed

text \<open>A routine per row that adds the row's cells produces the table of all cells.\<close>

lemma add_rows:
  assumes "\<And>r ret. r < nrow \<Longrightarrow> length ret = n * nrow \<Longrightarrow> K r ret = Some (add_block (r * n) (map (f r) [0..<n]) ret)"
    and "length ret = n * nrow"
  shows "for_each K [0..<nrow] ret = Some (add_block 0 (table nrow n (f :: nat \<Rightarrow> nat \<Rightarrow> 'a::plus)) ret)"
proof -
  have "ok (for_each K [0..<nrow] ret) (\<lambda>r. r = add_block 0 (table nrow n f) ret)"
  proof (rule ok_for_range [where I = "\<lambda>k r. r = add_block 0 (table k n f) ret"])
    fix k r assume k: "k < nrow" and r: "r = add_block 0 (table k n f) ret"
    show "ok (K k r) (\<lambda>r. r = add_block 0 (table (Suc k) n f) ret)"
      using assms k add_block_append [of 0 "table k n f" "map (f k) [0..<n]" ret]
      by (simp add: r table_def [of "Suc k"] mult.commute flip: table_def)
  qed (simp_all add: table_def)
  then show ?thesis by (simp add: ok_eq)
qed

subsection \<open>Cells of a matrix\<close>

lemma row_dot:
  fixes x :: "nat \<Rightarrow> 'a::semiring_0"
  assumes "\<And>c v. (c, v) \<in> set row \<Longrightarrow> c < n"
  shows "(\<Sum>(c, v)\<leftarrow>row. v * x c) = (\<Sum>c<n. sum_list (cell_items row c) * x c)"
  using assms
proof (induction row)
  case (Cons e row)
  obtain c v where e: "e = (c, v)" by (cases e)
  have c: "c < n" using Cons.prems e by auto
  have "(\<Sum>d<n. sum_list (cell_items (e # row) d) * x d) =
    (\<Sum>d<n. (if d = c then v * x c else 0) + sum_list (cell_items row d) * x d)"
    by (rule sum.cong) (auto simp: e distrib_right)
  also have "\<dots> = v * x c + (\<Sum>d<n. sum_list (cell_items row d) * x d)"
    using c by (simp add: sum.distrib)
  finally have "(\<Sum>d<n. sum_list (cell_items (e # row) d) * x d) = v * x c + (\<Sum>d<n. sum_list (cell_items row d) * x d)" .
  moreover have "(\<Sum>(c, v)\<leftarrow>row. v * x c) = (\<Sum>d<n. sum_list (cell_items row d) * x d)"
    by (rule Cons.IH) (use Cons.prems in auto)
  ultimately show ?case by (simp add: e)
qed simp

subsection \<open>Matrix times vector\<close>

lemma spmv_eq:
  fixes rows :: "(nat \<times> 'a::semiring_0) list list"
  assumes cols: "cols_ok ncol rows" and len: "length v = ncol"
  shows "crs_times_vector (of_rows ncol rows) v =
    Some (Inr (map (\<lambda>r. \<Sum>c<ncol. crs_at rows r c * v ! c) [0..<length rows]))"
proof -
  let ?ps = "map (\<lambda>(r, c, w). (r, w * v ! c)) (entries rows)"
  have "crs_matrix_spmv_impl (of_rows ncol rows) ret v = scatter_upd (+) ?ps ret" for ret
  proof -
    have "crs_matrix_spmv_impl (of_rows ncol rows) ret v =
      for_each (\<lambda>(r, c, w) ret. do { y \<leftarrow> rd v c; add_at ret r (w * y) }) (entries rows) ret"
      unfolding crs_matrix_spmv_impl_def of_rows_sel
      by (rule rows_loop_entries) (simp add: rows_read mul_at_def case_prod_beta del: rd_Some)
    also have "\<dots> = for_each (\<lambda>(r, c, w) ret. add_at ret r (w * v ! c)) (entries rows) ret"
      by (rule for_each_cong) (use entries_bounds [OF cols] len in auto)
    finally show ?thesis by (simp add: scatter_upd_def for_each_map case_prod_beta' add_at_def)
  qed
  moreover have "scatter_upd (+) ?ps (replicate (length rows) 0) =
    Some (map (\<lambda>r. sum_list (cell_items ?ps r)) [0..<length rows])"
    using entries_bounds [OF cols] by (subst scatter_add_eq) auto
  moreover have "sum_list (cell_items ?ps r) = (\<Sum>c<ncol. crs_at rows r c * v ! c)" if r: "r < length rows" for r
  proof -
    have "cell_items ?ps r = concat (map (\<lambda>e. if fst e = r then (\<lambda>(c, w). [w * v ! c]) (snd e) else []) (entries rows))"
      unfolding cell_items_each by (rule arg_cong [where f = concat], rule map_cong) auto
    also have "\<dots> = concat (map (\<lambda>(c, w). [w * v ! c]) (rows ! r))" by (rule entries_pick [OF r])
    also have "\<dots> = map (\<lambda>(c, w). w * v ! c) (rows ! r)"
      by (induction "rows ! r" rule: list.induct) (auto simp: case_prod_beta')
    finally show ?thesis using row_dot [of "rows ! r" ncol "\<lambda>c. v ! c"] cols_ok_row [OF cols r] by (simp add: crs_at_def)
  qed
  ultimately show ?thesis using len by (simp add: crs_times_vector_def)
qed

subsection \<open>Sparse times dense\<close>

text \<open>Cell \<open>k\<close> of the row \<open>row * vv\<close>, in the order of the stored values.\<close>

definition spmm_cell :: "'a::semiring_0 list \<Rightarrow> nat \<Rightarrow> (nat \<times> 'a) list \<Rightarrow> nat \<Rightarrow> 'a" where
  "spmm_cell vv n row k = (\<Sum>(i, v)\<leftarrow>row. v * vv ! (i * n + k))"

lemma inner_index_less: "i < m \<Longrightarrow> k < (n :: nat) \<Longrightarrow> i * n + k < m * n"
  using block_index_less [of i m k n] by (simp add: mult.commute)

lemma spmm_columns:
  fixes rows :: "(nat \<times> 'a::semiring_0) list list"
  assumes cols: "cols_ok ncol rows" and vv: "length vv = ncol * n" and r: "r < length rows"
    and w: "lo + w \<le> n" and ret: "b + w \<le> length ret"
  shows "row_loop (row_offs 0 rows) r (\<lambda>c ret. do {
       i \<leftarrow> rd (map fst (concat rows)) c;
       for_each (\<lambda>k ret. do {
           x \<leftarrow> mul_at (map snd (concat rows)) c vv (i * n + lo + k);
           add_at ret (b + k) x }) [0..<w] ret }) ret =
     Some (add_block b (map (\<lambda>k. spmm_cell vv n (rows ! r) (lo + k)) [0..<w]) ret)"
proof -
  let ?F = "\<lambda>(i, v) ret. for_each (\<lambda>k ret. do {
      y \<leftarrow> rd vv (i * n + lo + k); add_at ret (b + k) (v * y) }) [0..<w] ret"
  have "row_loop (row_offs 0 rows) r (\<lambda>c ret. do {
       i \<leftarrow> rd (map fst (concat rows)) c;
       for_each (\<lambda>k ret. do {
           x \<leftarrow> mul_at (map snd (concat rows)) c vv (i * n + lo + k);
           add_at ret (b + k) x }) [0..<w] ret }) ret = for_each ?F (rows ! r) ret"
    by (rule row_loop_items [OF r]) (simp add: mul_at_def case_prod_beta)
  also have "\<dots> = Some (add_block b (map (\<lambda>k. \<Sum>e\<leftarrow>rows ! r. snd e * vv ! (fst e * n + (lo + k))) [0..<w]) ret)"
  proof (rule add_blocks [where n = "length ret"])
    fix e and ret' :: "'a list"
    assume e: "e \<in> set (rows ! r)" and ret': "length ret' = length ret"
    obtain i v where iv: "e = (i, v)" by (cases e)
    have i: "i < ncol" using cols_ok_row [OF cols r] e iv by blast
    have "rd vv (i * n + lo + k) = Some (vv ! (i * n + (lo + k)))" if "k < w" for k
      using inner_index_less [OF i, of "lo + k" n] that w by (simp add: vv add.assoc)
    then show "?F e ret' = Some (add_block b (map (\<lambda>k. snd e * vv ! (fst e * n + (lo + k))) [0..<w]) ret')"
      using add_loop [of w "\<lambda>k. do { y \<leftarrow> rd vv (i * n + lo + k); Some (v * y) }" "\<lambda>k. v * vv ! (i * n + (lo + k))" b ret'] ret ret'
      by (simp add: iv)
  qed simp
  finally show ?thesis by (simp add: spmm_cell_def case_prod_beta')
qed

definition spmm_table :: "'a::semiring_0 list \<Rightarrow> nat \<Rightarrow> (nat \<times> 'a) list list \<Rightarrow> 'a list" where
  "spmm_table vv n rows = table (length rows) n (\<lambda>r. spmm_cell vv n (rows ! r))"

definition spmm_kernel ::
  "('a crs_matrix_local \<Rightarrow> 'a list \<Rightarrow> 'a list \<Rightarrow> nat \<Rightarrow> 'a::semiring_0 list option) \<Rightarrow> bool" where
  "spmm_kernel f \<longleftrightarrow> (\<forall>ncol rows vv n ret. cols_ok ncol rows \<longrightarrow> length vv = ncol * n \<longrightarrow> length ret = n * length rows \<longrightarrow>
     f (of_rows ncol rows) ret vv n = Some (add_block 0 (spmm_table vv n rows) ret))"

lemma row_base: "r < m \<Longrightarrow> r * n + n \<le> n * (m :: nat)"
  using mult_le_mono1 [of "Suc r" m n] by (simp add: mult.commute)

lemma spmm_x86_ok: "spmm_kernel (crs_matrix_spmm_impl_x86 :: _ \<Rightarrow> 'a list \<Rightarrow> 'a list \<Rightarrow> nat \<Rightarrow> 'a::semiring_0 list option)"
  unfolding spmm_kernel_def
proof (intro allI impI)
  fix ncol n and rows :: "(nat \<times> 'a) list list" and vv ret :: "'a list"
  assume a: "cols_ok ncol rows" "length vv = ncol * n" "length ret = n * length rows"
  show "crs_matrix_spmm_impl_x86 (of_rows ncol rows) ret vv n = Some (add_block 0 (spmm_table vv n rows) ret)"
    unfolding crs_matrix_spmm_impl_x86_def rows_loop_def spmm_table_def of_rows_sel
  proof (rule add_rows [OF _ a(3)])
    fix r and ret :: "'a list"
    assume "r < length rows" "length ret = n * length rows"
    then show "row_loop (row_offs 0 rows) r (\<lambda>c ret. do {
        i \<leftarrow> rd (map fst (concat rows)) c;
        for_each (\<lambda>mc ret. do {
            x \<leftarrow> mul_at (map snd (concat rows)) c vv (i * n + mc);
            add_at ret (r * n + mc) x }) [0..<n] ret }) ret =
      Some (add_block (r * n) (map (spmm_cell vv n (rows ! r)) [0..<n]) ret)"
      using spmm_columns [OF a(1,2), of r 0 n "r * n" ret] row_base [of r "length rows" n] by simp
  qed
qed

subsection \<open>The vector build's kernels\<close>

text \<open>A loop over blocks of \<open>w\<close> columns stops with fewer than \<open>w\<close> columns left.\<close>

lemma spmm_block_ok:
  fixes rows :: "(nat \<times> 'a::semiring_0) list list"
  assumes cols: "cols_ok ncol rows" and vv: "length vv = ncol * n" and r: "r < length rows"
    and ret: "length ret = n * length rows" and w: "0 < w" and mc: "mc \<le> n"
    and cells: "ret = add_block (r * n) (map (spmm_cell vv n (rows ! r)) [0..<mc]) ret0"
  shows "ok (spmm_block (of_rows ncol rows) vv n r w (mc, ret))
    (\<lambda>(mc', ret'). mc' \<le> n \<and> n - mc' < w \<and> ret' = add_block (r * n) (map (spmm_cell vv n (rows ! r)) [0..<mc']) ret0)"
  unfolding spmm_block_def
proof (rule ok_while [where m = "\<lambda>(mc, ret). n - mc"
      and I = "\<lambda>(mc', ret'). mc' \<le> n \<and> ret' = add_block (r * n) (map (spmm_cell vv n (rows ! r)) [0..<mc']) ret0"])
  fix st assume st: "(\<lambda>(mc', ret'). mc' \<le> n \<and> ret' = add_block (r * n) (map (spmm_cell vv n (rows ! r)) [0..<mc']) ret0) st"
    and go: "(\<lambda>(mc, ret). mc + (w - 1) < n) st"
  obtain m' ret' where s: "st = (m', ret')" by (cases st)
  have len: "length ret' = n * length rows" using st s ret cells by simp
  have fit: "m' + w \<le> n" using go s w by simp
  have "row_loop (row_offs 0 rows) r (\<lambda>c ret. do {
       i \<leftarrow> rd (map fst (concat rows)) c;
       for_each (\<lambda>k ret. do {
           x \<leftarrow> mul_at (map snd (concat rows)) c vv (i * n + m' + k);
           add_at ret (r * n + m' + k) x }) [0..<w] ret }) ret' =
    Some (add_block (r * n + m') (map (\<lambda>k. spmm_cell vv n (rows ! r) (m' + k)) [0..<w]) ret')"
    using spmm_columns [OF cols vv r fit, of "r * n + m'" ret'] row_base [OF r, of n] fit len by (simp add: add.assoc)
  also have "map (\<lambda>k. spmm_cell vv n (rows ! r) (m' + k)) [0..<w] = map (spmm_cell vv n (rows ! r)) [m'..<m' + w]"
    by (rule nth_equalityI) simp_all
  also have "add_block (r * n + m') (map (spmm_cell vv n (rows ! r)) [m'..<m' + w]) ret' =
    add_block (r * n) (map (spmm_cell vv n (rows ! r)) [0..<m' + w]) ret0"
    using st s add_block_append [of "r * n" "map (spmm_cell vv n (rows ! r)) [0..<m']" "map (spmm_cell vv n (rows ! r)) [m'..<m' + w]" ret0]
      upt_add_eq_append [of 0 m' w] by simp
  finally show "ok ((\<lambda>(mc, ret). do {
       ret \<leftarrow> row_loop (crs_off (of_rows ncol rows)) r (\<lambda>c ret. do {
           i \<leftarrow> rd (crs_idx (of_rows ncol rows)) c;
           for_each (\<lambda>k ret. do {
               x \<leftarrow> mul_at (crs_val (of_rows ncol rows)) c vv (i * n + mc + k);
               add_at ret (r * n + mc + k) x }) [0..<w] ret }) ret;
       Some (mc + w, ret) }) st)
    (\<lambda>s'. (\<lambda>(mc', ret'). mc' \<le> n \<and> ret' = add_block (r * n) (map (spmm_cell vv n (rows ! r)) [0..<mc']) ret0) s' \<and>
       (case s' of (mc, ret) \<Rightarrow> n - mc) < (case st of (mc, ret) \<Rightarrow> n - mc))"
    using w fit by (simp add: s)
qed (use mc cells w in auto)

text \<open>A chunk of columns through the register: it comes back cleared.\<close>

lemma spmm_chunk_ok:
  fixes rows :: "(nat \<times> 'a::semiring_0) list list"
  assumes cols: "cols_ok ncol rows" and vv: "length vv = ncol * n" and r: "r < length rows"
    and ret: "length ret = n * length rows" and w: "w \<le> V" and fit: "base + w \<le> n"
  shows "spmm_chunk (of_rows ncol rows) vv n base w r (replicate V 0, ret) =
    Some (replicate V 0, add_block (r * n + base) (map (spmm_cell vv n (rows ! r)) [base..<base + w]) ret)"
proof -
  let ?xs = "map (\<lambda>k. spmm_cell vv n (rows ! r) (base + k)) [0..<w]"
  let ?cur = "add_block 0 ?xs (replicate V 0)"
  have gather: "spmm_gather (of_rows ncol rows) vv n base w r (replicate V 0) = Some ?cur"
    using spmm_columns [OF cols vv r fit, of 0 "replicate V 0"] w by (simp add: spmm_gather_def)
  have cur: "rd ?cur k = Some (spmm_cell vv n (rows ! r) (base + k))" if "k < w" for k
    using that w by (simp add: add_block_def)
  have out: "for_each (\<lambda>mc ret. do { s \<leftarrow> rd ?cur mc; add_at ret (r * n + base + mc) s }) [0..<w] ret =
    Some (add_block (r * n + base) ?xs ret)"
    by (rule add_loop) (use cur row_base [OF r, of n] fit ret in simp_all)
  have "ok (for_each (\<lambda>i cur. wr cur i 0) [0..<w] ?cur) (\<lambda>c. c = replicate V 0)"
  proof -
    have "ok (for_each (\<lambda>i cur. wr cur i 0) [0..<w] ?cur) (\<lambda>c. length c = V \<and> (\<forall>j<V. j < w \<or> w \<le> j \<longrightarrow> c ! j = 0))"
      by (rule ok_mono, rule ok_for_range [where I = "\<lambda>k c. length c = V \<and> (\<forall>j<V. j < k \<or> w \<le> j \<longrightarrow> c ! j = 0)"])
        (use w in \<open>auto simp: ok_simps nth_list_update less_Suc_eq add_block_def\<close>)
    then show ?thesis by (rule ok_mono) (auto intro!: nth_equalityI)
  qed
  then have clear: "for_each (\<lambda>i cur. wr cur i 0) [0..<w] ?cur = Some (replicate V 0)" by (simp add: ok_eq)
  have "?xs = map (spmm_cell vv n (rows ! r)) [base..<base + w]" by (rule nth_equalityI) simp_all
  moreover have "spmm_chunk (of_rows ncol rows) vv n base w r (replicate V 0, ret) =
    Some (replicate V 0, add_block (r * n + base) ?xs ret)"
    by (simp only: spmm_chunk_def Let_def prod.case gather bind.bind_lunit out clear)
  ultimately show ?thesis by (simp only:)
qed

lemma spmm_impl2_ok:
  fixes rows :: "(nat \<times> 'a::semiring_0) list list"
  assumes cols: "cols_ok ncol rows" and vv: "length vv = ncol * n" and ret: "length ret = n * length rows" and V: "0 < V"
  shows "crs_matrix_spmm_impl2 V (of_rows ncol rows) ret vv n = Some (add_block 0 (spmm_table vv n rows) ret)"
proof -
  let ?m = "of_rows ncol rows"
  let ?cells = "\<lambda>r lo hi. map (spmm_cell vv n (rows ! r)) [lo..<hi]"
  have row: "do { st \<leftarrow> for_each (\<lambda>e. spmm_chunk ?m vv n (V * e) V r) [0..<n div V] (replicate V 0, ret);
      spmm_chunk ?m vv n (V * (n div V)) (n mod V) r st } =
    Some (replicate V 0, add_block (r * n) (?cells r 0 n) ret)"
    if r: "r < length rows" and ret: "length ret = n * length rows" for r and ret :: "'a list"
  proof -
    have join: "add_block (r * n + lo) (?cells r lo (lo + w)) (add_block (r * n) (?cells r 0 lo) ret) =
      add_block (r * n) (?cells r 0 (lo + w)) ret" for lo w
      using add_block_append [of "r * n" "?cells r 0 lo" "?cells r lo (lo + w)" ret] upt_add_eq_append [of 0 lo w] by simp
    have "ok (for_each (\<lambda>e. spmm_chunk ?m vv n (V * e) V r) [0..<n div V] (replicate V 0, ret))
      (\<lambda>st. st = (replicate V 0, add_block (r * n) (?cells r 0 (V * (n div V))) ret))"
    proof (rule ok_for_range [where I = "\<lambda>e st. st = (replicate V 0, add_block (r * n) (?cells r 0 (V * e)) ret)"])
      fix e and st :: "'a list \<times> 'a list"
      assume e: "e < n div V" and st: "st = (replicate V 0, add_block (r * n) (?cells r 0 (V * e)) ret)"
      have "V * Suc e \<le> V * (n div V)" using e by (intro mult_le_mono2) simp
      also have "\<dots> \<le> n" by simp
      finally have fit: "V * e + V \<le> n" by simp
      show "ok (spmm_chunk ?m vv n (V * e) V r st) (\<lambda>st. st = (replicate V 0, add_block (r * n) (?cells r 0 (V * Suc e)) ret))"
        using spmm_chunk_ok [OF cols vv r _ order.refl fit, of "add_block (r * n) (?cells r 0 (V * e)) ret"] ret join [of "V * e" V] fit
        by (simp add: st add.commute [of V])
    qed simp_all
    then have "for_each (\<lambda>e. spmm_chunk ?m vv n (V * e) V r) [0..<n div V] (replicate V 0, ret) =
      Some (replicate V 0, add_block (r * n) (?cells r 0 (V * (n div V))) ret)" by (simp add: ok_eq)
    moreover have "n mod V \<le> V" using V by (simp add: less_imp_le)
    ultimately show ?thesis
      using spmm_chunk_ok [OF cols vv r, of "add_block (r * n) (?cells r 0 (V * (n div V))) ret" "n mod V" V "V * (n div V)"]
        join [of "V * (n div V)" "n mod V"] ret by simp
  qed
  have step: "for_each (\<lambda>r st. do { st \<leftarrow> for_each (\<lambda>e. spmm_chunk ?m vv n (V * e) V r) [0..<n div V] st;
      spmm_chunk ?m vv n (V * (n div V)) (n mod V) r st }) [0..<length rows] (replicate V 0, ret) =
    map_option (Pair (replicate V 0)) (for_each (\<lambda>r ret. Some (add_block (r * n) (?cells r 0 n) ret)) [0..<length rows] ret)"
    if "length ret = n * length rows" for ret :: "'a list"
  proof -
    have "for_each (\<lambda>r st. do { st \<leftarrow> for_each (\<lambda>e. spmm_chunk ?m vv n (V * e) V r) [0..<n div V] st;
        spmm_chunk ?m vv n (V * (n div V)) (n mod V) r st }) rs (replicate V 0, ret) =
      map_option (Pair (replicate V 0)) (for_each (\<lambda>r ret. Some (add_block (r * n) (?cells r 0 n) ret)) rs ret)"
      if "set rs \<subseteq> {..<length rows}" "length ret = n * length rows" for rs and ret :: "'a list"
      using that by (induction rs arbitrary: ret) (simp_all add: row)
    from this [of "[0..<length rows]"] that show ?thesis by (simp add: atLeast0LessThan)
  qed
  have "for_each (\<lambda>r ret. Some (add_block (r * n) (?cells r 0 n) ret)) [0..<length rows] ret =
    Some (add_block 0 (spmm_table vv n rows) ret)"
    unfolding spmm_table_def by (rule add_rows [OF _ ret]) simp
  then show ?thesis by (simp add: crs_matrix_spmm_impl2_def Let_def step [OF ret])
qed

lemma spmm_ve_ok:
  assumes "0 < V"
  shows "spmm_kernel (crs_matrix_spmm_impl_ve THR V :: _ \<Rightarrow> 'a list \<Rightarrow> 'a list \<Rightarrow> nat \<Rightarrow> 'a::semiring_0 list option)"
  unfolding spmm_kernel_def
proof (intro allI impI)
  fix ncol n and rows :: "(nat \<times> 'a) list list" and vv ret :: "'a list"
  assume a: "cols_ok ncol rows" "length vv = ncol * n" "length ret = n * length rows"
  let ?m = "of_rows ncol rows"
  show "crs_matrix_spmm_impl_ve THR V ?m ret vv n = Some (add_block 0 (spmm_table vv n rows) ret)"
  proof (cases "n < THR")
    case True
    have "for_each (\<lambda>r ret. do {
            st \<leftarrow> spmm_block ?m vv n r 16 (0, ret);
            st \<leftarrow> spmm_block ?m vv n r 8 st;
            st \<leftarrow> spmm_block ?m vv n r 4 st;
            (_, ret) \<leftarrow> spmm_block ?m vv n r 1 st;
            Some ret }) [0..<length rows] ret = Some (add_block 0 (spmm_table vv n rows) ret)"
      unfolding spmm_table_def
    proof (rule add_rows [OF _ a(3)])
      fix r and ret :: "'a list"
      assume r: "r < length rows" and ret: "length ret = n * length rows"
      let ?c = "\<lambda>k. add_block (r * n) (map (spmm_cell vv n (rows ! r)) [0..<k]) ret"
      have step: "\<exists>mc'. spmm_block ?m vv n r w (mc, ?c mc) = Some (mc', ?c mc') \<and> mc' \<le> n \<and> n - mc' < w"
        if "0 < w" "mc \<le> n" for w mc
        using spmm_block_ok [OF a(1,2) r _ that(1,2), of "?c mc" ret] ret by (auto simp: ok_iff_ex)
      obtain m1 where m1: "spmm_block ?m vv n r 16 (0, ?c 0) = Some (m1, ?c m1)" "m1 \<le> n" using step [of 16 0] by auto
      obtain m2 where m2: "spmm_block ?m vv n r 8 (m1, ?c m1) = Some (m2, ?c m2)" "m2 \<le> n" using step [of 8 m1] m1(2) by auto
      obtain m3 where m3: "spmm_block ?m vv n r 4 (m2, ?c m2) = Some (m3, ?c m3)" "m3 \<le> n" using step [of 4 m2] m2(2) by auto
      obtain m4 where m4: "spmm_block ?m vv n r 1 (m3, ?c m3) = Some (m4, ?c m4)" "m4 \<le> n" "n - m4 < 1" using step [of 1 m3] m3(2) by auto
      have "?c 0 = ret" by simp
      moreover have "m4 = n" using m4(2,3) by simp
      ultimately show "do {
            st \<leftarrow> spmm_block ?m vv n r 16 (0, ret);
            st \<leftarrow> spmm_block ?m vv n r 8 st;
            st \<leftarrow> spmm_block ?m vv n r 4 st;
            (_, ret) \<leftarrow> spmm_block ?m vv n r 1 st;
            Some ret } = Some (add_block (r * n) (map (spmm_cell vv n (rows ! r)) [0..<n]) ret)"
        using m1(1) m2(1) m3(1) m4(1) by (simp del: One_nat_def)
    qed
    then show ?thesis using True by (simp add: crs_matrix_spmm_impl_ve_def del: One_nat_def)
  next
    case False
    then show ?thesis using spmm_impl2_ok [OF a assms] by (simp add: crs_matrix_spmm_impl_ve_def)
  qed
qed

subsection \<open>The products as matrix products\<close>

definition dense_at :: "'a rowmajor_matrix_local \<Rightarrow> nat \<Rightarrow> nat \<Rightarrow> 'a" where
  "dense_at m r c = rm_val m ! (rm_ncol m * r + c)"

definition rm_ok :: "'a rowmajor_matrix_local \<Rightarrow> bool" where
  "rm_ok m \<longleftrightarrow> length (rm_val m) = rm_ncol m * rm_nrow m"

definition dense_matrix :: "nat \<Rightarrow> nat \<Rightarrow> (nat \<Rightarrow> nat \<Rightarrow> 'a) \<Rightarrow> 'a rowmajor_matrix_local" where
  "dense_matrix nrow ncol f = \<lparr> rm_val = table nrow ncol f, rm_nrow = nrow, rm_ncol = ncol \<rparr>"

lemma table_cong: "(\<And>r c. r < nrow \<Longrightarrow> c < ncol \<Longrightarrow> f r c = g r c) \<Longrightarrow> table nrow ncol f = table nrow ncol g"
  by (rule tableI) (simp_all add: table_nth)

lemma spmm_eq:
  fixes rows :: "(nat \<times> 'a::semiring_0) list list"
  assumes kernel: "spmm_kernel spmm" and cols: "cols_ok (rm_nrow b) rows" and b: "rm_ok b"
  shows "crs_times_rowmajor spmm (of_rows (rm_nrow b) rows) b =
    Some (Inr (dense_matrix (length rows) (rm_ncol b) (\<lambda>r k. \<Sum>i<rm_nrow b. crs_at rows r i * dense_at b i k)))"
proof -
  let ?n = "rm_ncol b"
  have "spmm (of_rows (rm_nrow b) rows) (replicate (length rows * ?n) 0) (rm_val b) ?n =
    Some (add_block 0 (spmm_table (rm_val b) ?n rows) (replicate (length rows * ?n) 0))"
    using kernel cols b by (simp add: spmm_kernel_def rm_ok_def mult.commute)
  also have "\<dots> = Some (spmm_table (rm_val b) ?n rows)"
    by (simp add: add_block_full spmm_table_def mult.commute)
  also have "spmm_table (rm_val b) ?n rows =
    table (length rows) ?n (\<lambda>r k. \<Sum>i<rm_nrow b. crs_at rows r i * dense_at b i k)"
    unfolding spmm_table_def
  proof (rule table_cong)
    fix r k assume "r < length rows"
    then show "spmm_cell (rm_val b) ?n (rows ! r) k = (\<Sum>i<rm_nrow b. crs_at rows r i * dense_at b i k)"
      using row_dot [of "rows ! r" "rm_nrow b" "\<lambda>i. rm_val b ! (i * ?n + k)"] cols_ok_row [OF cols]
      by (simp add: spmm_cell_def crs_at_def dense_at_def mult.commute)
  qed
  finally show ?thesis by (simp add: crs_times_rowmajor_def new_rowmajor_def dense_matrix_def Let_def)
qed

lemma for_each_scatter:
  "for_each (\<lambda>e. scatter_upd upd (h e)) es ret = scatter_upd upd (concat (map h es)) ret"
  by (induction es arbitrary: ret) (simp_all add: scatter_upd_append split: Option.bind_splits)

lemma scatter_table:
  assumes "\<And>p x. (p, x) \<in> set ps \<Longrightarrow> p < ncol * nrow"
  shows "scatter_upd (+) ps (replicate (nrow * ncol) 0) =
    Some (table nrow ncol (\<lambda>r c. sum_list (cell_items ps (ncol * r + c) :: 'a::monoid_add list)))"
proof -
  have "scatter_upd (+) ps (replicate (nrow * ncol) 0) = Some (map (\<lambda>p. sum_list (cell_items ps p)) [0..<nrow * ncol])"
    using assms by (subst scatter_add_eq) (auto simp: mult.commute)
  also have "map (\<lambda>p. sum_list (cell_items ps p)) [0..<nrow * ncol] = table nrow ncol (\<lambda>r c. sum_list (cell_items ps (ncol * r + c)))"
    by (rule tableI) (simp_all add: block_index_less mult.commute [of nrow])
  finally show ?thesis .
qed

lemma sum_list_concat_map: "sum_list (concat (map f xs)) = (\<Sum>x\<leftarrow>xs. sum_list (f x) :: 'a::monoid_add)"
  by (induction xs) simp_all

text \<open>Sparse times sparse: entry (r, i, v) of the left operand adds \<open>v\<close> times row \<open>i\<close> of the right one.\<close>

lemma crs_mm_eq:
  fixes a b :: "(nat \<times> 'a::semiring_0) list list"
  assumes a: "cols_ok (length b) a" and b: "cols_ok m b"
  shows "crs_mm (of_rows (length b) a) (of_rows m b) =
    Some (Inr (dense_matrix (length a) m (\<lambda>r c. \<Sum>i<length b. crs_at a r i * crs_at b i c)))"
proof -
  define ps where "ps = (\<lambda>e :: nat \<times> nat \<times> 'a. map (\<lambda>(j, w). (m * fst e + j, snd (snd e) * w)) (b ! fst (snd e)))"
  let ?items = "concat (map ps (entries a))"
  have loop: "rows_loop (row_offs 0 a) (length a) (\<lambda>r1 c1 ret. do {
            i \<leftarrow> rd (map fst (concat a)) c1;
            row_loop (row_offs 0 b) i (\<lambda>c2 ret. do {
                j \<leftarrow> rd (map fst (concat b)) c2;
                x \<leftarrow> mul_at (map snd (concat a)) c1 (map snd (concat b)) c2;
                add_at ret (r1 * m + j) x }) ret }) ret = scatter_upd (+) ?items ret" for ret
  proof -
    have "rows_loop (row_offs 0 a) (length a) (\<lambda>r1 c1 ret. do {
            i \<leftarrow> rd (map fst (concat a)) c1;
            row_loop (row_offs 0 b) i (\<lambda>c2 ret. do {
                j \<leftarrow> rd (map fst (concat b)) c2;
                x \<leftarrow> mul_at (map snd (concat a)) c1 (map snd (concat b)) c2;
                add_at ret (r1 * m + j) x }) ret }) ret = for_each (\<lambda>e. scatter_upd (+) (ps e)) (entries a) ret"
    proof (rule rows_loop_entries)
      fix pos and s :: "'a list"
      assume pos: "pos < length (concat a)"
      define r i v where riv: "r = fst (entries a ! pos)" "i = fst (snd (entries a ! pos))" "v = snd (snd (entries a ! pos))"
      have i: "i < length b"
        using entries_bounds(2) [OF a, of r i v] nth_mem [of pos "entries a"] pos by (simp add: riv)
      have "row_loop (row_offs 0 b) i (\<lambda>c2 ret. do {
                j \<leftarrow> rd (map fst (concat b)) c2;
                x \<leftarrow> mul_at (map snd (concat a)) pos (map snd (concat b)) c2;
                add_at ret (r * m + j) x }) s = for_each (\<lambda>(j, w) ret. add_at ret (m * r + j) (v * w)) (b ! i) s"
        by (rule row_loop_items [OF i]) (use rows_read(1) [OF pos] in \<open>simp add: mul_at_def case_prod_beta mult.commute [of m] riv(3)\<close>)
      then show "do { i \<leftarrow> rd (map fst (concat a)) pos;
            row_loop (row_offs 0 b) i (\<lambda>c2 ret. do {
                j \<leftarrow> rd (map fst (concat b)) c2;
                x \<leftarrow> mul_at (map snd (concat a)) pos (map snd (concat b)) c2;
                add_at ret (fst (entries a ! pos) * m + j) x }) s } = scatter_upd (+) (ps (entries a ! pos)) s"
        using rows_read(2) [OF pos]
        by (simp add: ps_def scatter_upd_def for_each_map add_at_def case_prod_beta' del: rd_Some flip: riv)
    qed
    then show ?thesis by (simp only: for_each_scatter)
  qed
  have bound: "p < m * length a" if px: "(p, x) \<in> set ?items" for p x
  proof -
    obtain e where e: "e \<in> set (entries a)" "(p, x) \<in> set (ps e)"
      using px unfolding set_concat set_map by blast
    then obtain j w where j: "(j, w) \<in> set (b ! fst (snd e))" "p = m * fst e + j" by (auto simp: ps_def)
    then show ?thesis
      using entries_bounds [OF a, of "fst e" "fst (snd e)" "snd (snd e)"] e(1) cols_ok_row [OF b _ j(1)]
      by (simp add: block_index_less)
  qed
  have cells: "sum_list (cell_items ?items (m * r + c)) = (\<Sum>i<length b. crs_at a r i * crs_at b i c)"
    if r: "r < length a" and c: "c < m" for r c
  proof -
    have cell: "cell_items (ps e) (m * r + c) = (if fst e = r then (\<lambda>(i, v). map ((*) v) (cell_items (b ! i) c)) (snd e) else [])"
      if e: "e \<in> set (entries a)" for e
    proof -
      have i: "fst (snd e) < length b" using entries_bounds(2) [OF a, of "fst e" "fst (snd e)" "snd (snd e)"] e by simp
      have "cell_items (ps e) (m * r + c) = concat (map (\<lambda>x. if fst e = r \<and> fst x = c then [snd (snd e) * snd x] else []) (b ! fst (snd e)))"
        unfolding ps_def cell_items_each
        by (rule arg_cong [where f = concat], rule map_cong)
          (use cols_ok_row [OF b i] c block_index_eq [of _ m c "fst e" r] in \<open>auto simp: case_prod_beta\<close>)
      also have "\<dots> = (if fst e = r then map ((*) (snd (snd e))) (cell_items (b ! fst (snd e)) c) else [])"
        by (induction "b ! fst (snd e)" rule: list.induct)
          (auto simp: cell_items_each [where h = "\<lambda>x. x", simplified] map_concat comp_def if_distrib [of "map _"] cong: if_cong)
      finally show ?thesis by (simp add: case_prod_beta)
    qed
    have "cell_items ?items (m * r + c) =
      concat (map (\<lambda>e. if fst e = r then (\<lambda>(i, v). map ((*) v) (cell_items (b ! i) c)) (snd e) else []) (entries a))"
      unfolding cell_items_concat map_map comp_def by (rule arg_cong [where f = concat], rule map_cong) (simp_all add: cell)
    also have "\<dots> = concat (map (\<lambda>(i, v). map ((*) v) (cell_items (b ! i) c)) (a ! r))" by (rule entries_pick [OF r])
    finally have "sum_list (cell_items ?items (m * r + c)) = (\<Sum>(i, v)\<leftarrow>a ! r. v * crs_at b i c)"
      by (simp add: sum_list_concat_map case_prod_beta' crs_at_def sum_list_const_mult)
    also have "\<dots> = (\<Sum>i<length b. crs_at a r i * crs_at b i c)"
      using row_dot [of "a ! r" "length b" "\<lambda>i. crs_at b i c"] cols_ok_row [OF a r] by (simp add: crs_at_def)
    finally show ?thesis .
  qed
  have "scatter_upd (+) ?items (replicate (length a * m) 0) =
    Some (table (length a) m (\<lambda>r c. \<Sum>i<length b. crs_at a r i * crs_at b i c))"
    using scatter_table [of ?items m "length a", OF bound] table_cong [OF cells] by simp
  then show ?thesis
    by (simp add: crs_mm_def loop new_rowmajor_def dense_matrix_def Let_def)
qed

subsection \<open>Dense times sparse\<close>

definition dense_sparse_items ::
  "'a::times rowmajor_matrix_local \<Rightarrow> nat \<Rightarrow> nat \<Rightarrow> (nat \<times> 'a) list \<Rightarrow> (nat \<times> 'a) list" where
  "dense_sparse_items a m r2 row =
     concat (map (\<lambda>(i, v). map (\<lambda>r1. (m * r1 + i, dense_at a r1 r2 * v)) [0..<rm_nrow a]) row)"

lemma dense_read:
  "rm_ok a \<Longrightarrow> r < rm_nrow a \<Longrightarrow> c < rm_ncol a \<Longrightarrow> rd (rm_val a) (r * rm_ncol a + c) = Some (dense_at a r c)"
  using block_index_less [of r "rm_nrow a" c "rm_ncol a"] by (simp add: rm_ok_def dense_at_def mult.commute)

lemma dense_sparse_x86:
  fixes a :: "'a::semiring_0 rowmajor_matrix_local"
  assumes a: "rm_ok a" "rm_ncol a = length rows" and r2: "r2 < length rows"
  shows "dense_sparse_row_x86 a (of_rows m rows) r2 ret = scatter_upd (+) (dense_sparse_items a m r2 (rows ! r2)) ret"
proof -
  have cell: "rd (rm_val a) (r1 * length rows + r2) = Some (dense_at a r1 r2)" if "r1 < rm_nrow a" for r1
    using dense_read [OF a(1) that, of r2] a(2) r2 by simp
  have "dense_sparse_row_x86 a (of_rows m rows) r2 ret =
    for_each (\<lambda>(i, v). for_each (\<lambda>r1 ret. do { x \<leftarrow> rd (rm_val a) (r1 * rm_ncol a + r2); add_at ret (r1 * m + i) (x * v) })
      [0..<rm_nrow a]) (rows ! r2) ret"
    unfolding dense_sparse_row_x86_def of_rows_sel
    by (rule row_loop_items [OF r2])
      (auto simp: dense_sparse_at_def mul_at_def case_prod_beta' intro!: for_each_cong)
  also have "\<dots> = for_each (\<lambda>(i, v). scatter_upd (+) (map (\<lambda>r1. (m * r1 + i, dense_at a r1 r2 * v)) [0..<rm_nrow a])) (rows ! r2) ret"
    by (rule for_each_cong)
      (auto simp: scatter_upd_def for_each_map add_at_def mult.commute [of m] cell a(2) simp del: rd_Some intro!: for_each_cong)
  finally show ?thesis by (simp add: dense_sparse_items_def case_prod_beta' flip: for_each_scatter)
qed

lemma mset_swap_loops:
  "mset (concat (map (\<lambda>x. map (f x) ys) xs)) = mset (concat (map (\<lambda>y. map (\<lambda>x. f x y) xs) ys))"
proof (induction xs)
  case Nil
  show ?case by (induction ys) simp_all
next
  case (Cons x xs)
  have "mset (concat (map (\<lambda>y. f x y # map (\<lambda>x. f x y) xs) ys)) =
    mset (map (f x) ys) + mset (concat (map (\<lambda>y. map (\<lambda>x. f x y) xs) ys))"
    by (induction ys) (simp_all add: ac_simps)
  then show ?case using Cons by simp
qed

lemma dense_sparse_bound:
  assumes "cols_ok m rows" "r2 < length rows" "(p, x) \<in> set (dense_sparse_items a m r2 (rows ! r2))"
  shows "p < m * rm_nrow a"
proof -
  obtain i v r1 where "(i, v) \<in> set (rows ! r2)" "r1 < rm_nrow a" "p = m * r1 + i"
    using assms(3) by (auto simp: dense_sparse_items_def)
  then show ?thesis using cols_ok_row [OF assms(1,2)] by (simp add: block_index_less)
qed

text \<open>Either loop order sends the same items to the same cells.\<close>

lemma dense_sparse_ve:
  fixes a :: "'a::semiring_0 rowmajor_matrix_local"
  assumes a: "rm_ok a" "rm_ncol a = length rows" and r2: "r2 < length rows" and cols: "cols_ok m rows"
    and ret: "length ret = m * rm_nrow a"
  shows "dense_sparse_row_ve a (of_rows m rows) r2 ret = scatter_upd (+) (dense_sparse_items a m r2 (rows ! r2)) ret"
proof (cases "length (rows ! r2) < rm_nrow a")
  case True
  then show ?thesis
    using dense_sparse_x86 [OF a r2, of m ret] r2 by (simp add: dense_sparse_row_ve_def dense_sparse_row_x86_def row_width_def row_offs_Suc)
next
  case False
  have cell: "rd (rm_val a) (r1 * length rows + r2) = Some (dense_at a r1 r2)" if "r1 < rm_nrow a" for r1
    using dense_read [OF a(1) that, of r2] a(2) r2 by simp
  let ?qs = "concat (map (\<lambda>r1. map (\<lambda>(i, v). (m * r1 + i, dense_at a r1 r2 * v)) (rows ! r2)) [0..<rm_nrow a])"
  have row: "row_loop (row_offs 0 rows) r2 (dense_sparse_at a (of_rows m rows) r2 r1) s =
    scatter_upd (+) (map (\<lambda>(i, v). (m * r1 + i, dense_at a r1 r2 * v)) (rows ! r2)) s" if "r1 < rm_nrow a" for r1 s
  proof -
    have "row_loop (row_offs 0 rows) r2 (dense_sparse_at a (of_rows m rows) r2 r1) s =
      for_each (\<lambda>(i, v) ret. add_at ret (m * r1 + i) (dense_at a r1 r2 * v)) (rows ! r2) s"
      by (rule row_loop_items [OF r2])
        (simp add: dense_sparse_at_def mul_at_def case_prod_beta' mult.commute [of m] cell [OF that] a(2))
    then show ?thesis by (simp add: scatter_upd_def for_each_map add_at_def case_prod_beta')
  qed
  have "dense_sparse_row_ve a (of_rows m rows) r2 ret =
    for_each (\<lambda>r1. row_loop (row_offs 0 rows) r2 (dense_sparse_at a (of_rows m rows) r2 r1)) [0..<rm_nrow a] ret"
    using False r2 by (simp add: dense_sparse_row_ve_def row_width_def row_offs_Suc)
  also have "\<dots> = for_each (\<lambda>r1. scatter_upd (+) (map (\<lambda>(i, v). (m * r1 + i, dense_at a r1 r2 * v)) (rows ! r2))) [0..<rm_nrow a] ret"
    by (rule for_each_cong) (simp add: row)
  also have "\<dots> = scatter_upd (+) ?qs ret" by (rule for_each_scatter)
  also have "\<dots> = scatter_upd (+) (dense_sparse_items a m r2 (rows ! r2)) ret"
  proof (rule adding.scatter_mset [symmetric])
    show "mset (dense_sparse_items a m r2 (rows ! r2)) = mset ?qs"
      using mset_swap_loops [of "\<lambda>e r1. (m * r1 + fst e, dense_at a r1 r2 * snd e)" "[0..<rm_nrow a]" "rows ! r2"]
      by (simp only: dense_sparse_items_def case_prod_beta')
  qed (use dense_sparse_bound [OF cols r2] ret in auto)
  finally show ?thesis .
qed

definition dense_sparse_kernel ::
  "('a::semiring_0 rowmajor_matrix_local \<Rightarrow> 'a crs_matrix_local \<Rightarrow> nat \<Rightarrow> 'a list \<Rightarrow> 'a list option) \<Rightarrow> bool" where
  "dense_sparse_kernel f \<longleftrightarrow> (\<forall>a rows r2 m ret. rm_ok a \<longrightarrow> rm_ncol a = length rows \<longrightarrow> r2 < length rows \<longrightarrow>
     cols_ok m rows \<longrightarrow> length ret = m * rm_nrow a \<longrightarrow>
     f a (of_rows m rows) r2 ret = scatter_upd (+) (dense_sparse_items a m r2 (rows ! r2)) ret)"

lemma dense_sparse_kernels:
  "dense_sparse_kernel (dense_sparse_row_ve :: 'a::semiring_0 rowmajor_matrix_local \<Rightarrow> _)"
  "dense_sparse_kernel (dense_sparse_row_x86 :: 'a::semiring_0 rowmajor_matrix_local \<Rightarrow> _)"
  by (simp_all add: dense_sparse_kernel_def dense_sparse_x86 dense_sparse_ve)

lemma dense_sparse_eq:
  fixes a :: "'a::semiring_0 rowmajor_matrix_local"
  assumes kernel: "dense_sparse_kernel f" and a: "rm_ok a" "rm_ncol a = length rows" and cols: "cols_ok m rows"
  shows "rowmajor_times_crs f a (of_rows m rows) =
    Some (Inr (dense_matrix (rm_nrow a) m (\<lambda>r c. \<Sum>i<length rows. dense_at a r i * crs_at rows i c)))"
proof -
  let ?h = "\<lambda>r2. dense_sparse_items a m r2 (rows ! r2)"
  let ?items = "concat (map ?h [0..<length rows])"
  have bound: "p < m * rm_nrow a" if "(p, x) \<in> set ?items" for p x
    using that dense_sparse_bound [OF cols, of _ p x a] by auto
  have "for_each (f a (of_rows m rows)) [0..<length rows] ret = scatter_upd (+) ?items ret"
    if ret: "length ret = m * rm_nrow a" for ret
  proof -
    have "for_each (f a (of_rows m rows)) rs ret = scatter_upd (+) (concat (map ?h rs)) ret"
      if "set rs \<subseteq> {..<length rows}" "length ret = m * rm_nrow a" for rs ret
      using that
    proof (induction rs arbitrary: ret)
      case (Cons r rs)
      have "f a (of_rows m rows) r ret = scatter_upd (+) (?h r) ret"
        using kernel a cols Cons.prems by (simp add: dense_sparse_kernel_def)
      then show ?case using Cons length_scatter_upd [of "(+)" "?h r" ret]
        by (auto simp: scatter_upd_append split: Option.bind_splits)
    qed simp
    from this [of "[0..<length rows]"] ret show ?thesis by (simp add: atLeast0LessThan)
  qed
  note loop = this
  have cells: "sum_list (cell_items ?items (m * r + c)) = (\<Sum>i<length rows. dense_at a r i * crs_at rows i c)"
    if r: "r < rm_nrow a" and c: "c < m" for r c
  proof -
    have "cell_items (?h r2) (m * r + c) = map ((*) (dense_at a r r2)) (cell_items (rows ! r2) c)" if r2: "r2 < length rows" for r2
    proof -
      have "cell_items (map (\<lambda>r1. (m * r1 + i, dense_at a r1 r2 * v)) [0..<rm_nrow a]) (m * r + c) =
        (if i = c then [dense_at a r r2 * v] else [])" if "(i, v) \<in> set (rows ! r2)" for i v
      proof -
        have "cell_items (map (\<lambda>r1. (m * r1 + i, dense_at a r1 r2 * v)) [0..<rm_nrow a]) (m * r + c) =
          concat (map (\<lambda>r1. if r1 = r then (if i = c then [dense_at a r1 r2 * v] else []) else []) [0..<rm_nrow a])"
          unfolding cell_items_each
          by (rule arg_cong [where f = concat], rule map_cong)
            (use cols_ok_row [OF cols r2 that] c block_index_eq [of i m c _ r] in auto)
        then show ?thesis using r by (simp add: concat_pick)
      qed
      then have "cell_items (?h r2) (m * r + c) = concat (map (\<lambda>(i, v). if i = c then [dense_at a r r2 * v] else []) (rows ! r2))"
        unfolding dense_sparse_items_def cell_items_concat map_map
        by (intro arg_cong [where f = concat] map_cong) (auto simp: comp_def)
      then show ?thesis
        unfolding cell_items_each [where h = "\<lambda>x. x", simplified] map_concat
        by (simp add: comp_def case_prod_beta' if_distrib [of "map _"] cong: if_cong)
    qed
    then have "sum_list (cell_items ?items (m * r + c)) = (\<Sum>i\<leftarrow>[0..<length rows]. dense_at a r i * crs_at rows i c)"
      unfolding cell_items_concat map_map sum_list_concat_map comp_def
      by (intro arg_cong [where f = sum_list] map_cong) (simp_all add: crs_at_def sum_list_const_mult)
    then show ?thesis by (simp add: interv_sum_list_conv_sum_set_nat atLeast0LessThan)
  qed
  have "scatter_upd (+) ?items (replicate (rm_nrow a * m) 0) =
    Some (table (rm_nrow a) m (\<lambda>r c. \<Sum>i<length rows. dense_at a r i * crs_at rows i c))"
    using scatter_table [of ?items m "rm_nrow a", OF bound] table_cong [OF cells] by simp
  then show ?thesis
    using a(2) loop [of "replicate (rm_nrow a * m) 0"]
    by (simp add: rowmajor_times_crs_def new_rowmajor_def dense_matrix_def Let_def mult.commute)
qed

end
