(* ===== verification/CrsTranspose.thy ===== *)
theory CrsTranspose
  imports CrsConv
begin

text \<open>
  Transposition of a local CRS matrix: the counting scatter of \<open>transpose_compressed_matrix\<close> yields,
  for every column, the values of that column in the order of the rows.
\<close>

subsection \<open>Specification\<close>

definition in_col :: "nat \<Rightarrow> (nat \<times> 'a) list \<Rightarrow> (nat \<times> 'a) list" where
  "in_col c row = filter (\<lambda>e. fst e = c) row"

definition col_entries :: "(nat \<times> 'a) list list \<Rightarrow> nat \<Rightarrow> (nat \<times> 'a) list" where
  "col_entries rows c = concat (map (\<lambda>r. map (\<lambda>e. (r, snd e)) (in_col c (rows ! r))) [0..<length rows])"

definition transposed :: "nat \<Rightarrow> (nat \<times> 'a) list list \<Rightarrow> (nat \<times> 'a) list list" where
  "transposed ncol rows = map (col_entries rows) [0..<ncol]"

lemma col_entries_filter:
  "col_entries rows c = map (\<lambda>(r, c, v). (r, v)) (filter (\<lambda>e. fst (snd e) = c) (entries rows))"
  by (simp add: col_entries_def in_col_def entries_concat filter_concat map_concat filter_map comp_def case_prod_beta)

lemma concat_transposed:
  assumes "cols_ok ncol rows"
  shows "concat (transposed ncol rows) = map (\<lambda>(r, c, v). (r, v)) (sort_key (\<lambda>e. fst (snd e)) (entries rows))"
proof -
  have "sort_key (\<lambda>e. fst (snd e)) (entries rows) =
    concat (map (\<lambda>c. filter (\<lambda>e. fst (snd e) = c) (entries rows)) [0..<ncol])"
    by (rule sort_key_buckets) (use entries_bounds [OF assms] in auto)
  then show ?thesis by (simp add: transposed_def col_entries_filter [abs_def] map_concat comp_def)
qed

lemma cols_ok_transposed: "cols_ok (length rows) (transposed ncol rows)"
  by (auto simp: cols_ok_def transposed_def col_entries_def)

lemma in_col_col_entries: "r < length rows \<Longrightarrow> in_col r (col_entries rows c) = map (\<lambda>e. (r, snd e)) (in_col c (rows ! r))"
proof -
  assume r: "r < length rows"
  have "filter (\<lambda>e. fst e = r) (map (\<lambda>e. (r', snd e)) xs) = (if r' = r then map (\<lambda>e. (r, snd e)) xs else [])"
    for r' and xs :: "(nat \<times> 'a) list"
    by (auto simp: filter_map comp_def)
  then have "in_col r (col_entries rows c) =
    concat (map (\<lambda>r'. if r' = r then map (\<lambda>e. (r, snd e)) (in_col c (rows ! r')) else []) [0..<length rows])"
    by (simp add: in_col_def [of r] col_entries_def filter_concat comp_def)
  then show ?thesis using r by (simp add: concat_pick)
qed

text \<open>Transposing twice sorts every row by column, stably.\<close>

lemma transposed_twice:
  assumes "cols_ok ncol rows"
  shows "transposed (length rows) (transposed ncol rows) = map (sort_key fst) rows"
proof (rule nth_equalityI)
  fix r assume "r < length (transposed (length rows) (transposed ncol rows))"
  then have r: "r < length rows" by (simp add: transposed_def)
  have "col_entries (transposed ncol rows) r =
    concat (map (\<lambda>c. map (\<lambda>e. (c, snd e)) (in_col r (col_entries rows c))) [0..<ncol])"
    unfolding col_entries_def [of "transposed ncol rows"]
    by (intro arg_cong [where f = concat]) (simp add: transposed_def)
  also have "\<dots> = concat (map (\<lambda>c. in_col c (rows ! r)) [0..<ncol])"
  proof -
    have "map (\<lambda>e. (c, snd e)) (in_col r (col_entries rows c)) = in_col c (rows ! r)" for c
      unfolding in_col_col_entries [OF r] map_map comp_def by (rule map_idI) (auto simp: in_col_def)
    then show ?thesis by (simp only:)
  qed
  also have "\<dots> = sort_key fst (rows ! r)"
    unfolding in_col_def by (rule sort_key_buckets [symmetric]) (use assms r in \<open>force simp: cols_ok_def\<close>)
  finally show "transposed (length rows) (transposed ncol rows) ! r = map (sort_key fst) rows ! r"
    using r by (simp add: transposed_def [of "length rows"])
qed (simp add: transposed_def)

subsection \<open>Counting and offsets\<close>

lemma foldl_count: "foldl (\<lambda>n _. Suc n) a xs = a + length xs"
  by (induction xs arbitrary: a) simp_all

lemma transpose_count_eq:
  assumes "cols_ok ncol rows"
  shows "transpose_count (map fst (concat rows)) (row_offs 0 rows) (length rows) (replicate ncol 0) =
    Some (map length (transposed ncol rows))"
proof -
  have "transpose_count (map fst (concat rows)) (row_offs 0 rows) (length rows) num_item =
    for_each (\<lambda>(r, c, v) num_item. do { n \<leftarrow> rd num_item c; wr num_item c (n + 1) }) (entries rows) num_item" for num_item
    unfolding transpose_count_def
    by (rule rows_loop_entries) (simp add: rows_read case_prod_beta del: rd_Some)
  also have "\<dots> num_item = scatter_upd (\<lambda>n _. n + 1) (map (\<lambda>(r, c, v). (c, v)) (entries rows)) num_item" for num_item
    by (simp add: scatter_upd_def for_each_map case_prod_beta')
  finally have "transpose_count (map fst (concat rows)) (row_offs 0 rows) (length rows) (replicate ncol 0) =
    scatter_upd (\<lambda>n _. n + 1) (map (\<lambda>(r, c, v). (c, v)) (entries rows)) (replicate ncol 0)" .
  also have "\<dots> = Some (map (\<lambda>c. foldl (\<lambda>n _. n + 1) (replicate ncol 0 ! c)
      (cell_items (map (\<lambda>(r, c, v). (c, v)) (entries rows)) c)) [0..<length (replicate ncol (0 :: nat))])"
    by (rule scatter_upd_eq) (use entries_bounds [OF assms] in auto)
  also have "\<dots> = Some (map length (transposed ncol rows))"
    by (simp add: foldl_count transposed_def col_entries_filter cell_items_def filter_map comp_def case_prod_beta')
  finally show ?thesis .
qed

lemma prefix_sums_offs: "0 # prefix_sums (map length rows) = row_offs 0 rows"
proof (rule nth_equalityI)
  fix i assume "i < length (0 # prefix_sums (map length rows))"
  then have i: "i \<le> length rows" by (simp add: prefix_sums_def)
  then show "(0 # prefix_sums (map length rows)) ! i = row_offs 0 rows ! i"
    by (cases i) (simp_all add: prefix_sums_def row_offs_nth run_sum_nat length_concat take_map)
qed (simp add: prefix_sums_def)

subsection \<open>The placing loop\<close>

lemma transpose_place_ok:
  fixes rows :: "(nat \<times> 'a::zero) list list"
  assumes cols: "cols_ok ncol rows"
  defines "es \<equiv> entries rows" and "L \<equiv> sort_key (\<lambda>e. fst (snd e)) (entries rows)"
  shows "ok (rows_loop (row_offs 0 rows) (length rows)
      (transpose_place (map snd (concat rows)) (map fst (concat rows)) (row_offs 0 (transposed ncol rows)))
      (replicate (length es) 0, replicate (length es) 0, replicate ncol 0))
    (\<lambda>(ret_val, ret_idx, _). ret_val = map (\<lambda>e. snd (snd e)) L \<and> ret_idx = map fst L)"
proof -
  let ?col = "\<lambda>e :: nat \<times> nat \<times> 'a. fst (snd e)"
  let ?start = "row_offs 0 (transposed ncol rows)"
  define step where "step = (\<lambda>e st. do {
     let (ret_val, ret_idx, current_item) = st;
     start \<leftarrow> rd ?start (?col e);
     current \<leftarrow> rd current_item (?col e);
     let dst_pos = start + current;
     ret_val \<leftarrow> wr ret_val dst_pos (snd (snd e));
     ret_idx \<leftarrow> wr ret_idx dst_pos (fst e);
     current_item \<leftarrow> wr current_item (?col e) (current + 1);
     Some (ret_val, ret_idx, current_item) })"
  let ?I = "\<lambda>p (rv, ri, cur). length rv = length es \<and> length ri = length es \<and> length cur = ncol \<and>
    (\<forall>c<ncol. cur ! c = length (filter (\<lambda>e. ?col e = c) (take p es))) \<and>
    (\<forall>q<p. rv ! rank ?col es q = snd (snd (es ! q)) \<and> ri ! rank ?col es q = fst (es ! q))"
  have "ok (for_each (\<lambda>p. step (es ! p)) [0..<length es] (replicate (length es) 0, replicate (length es) 0, replicate ncol 0))
    (?I (length es))"
  proof (rule ok_for_range [where I = ?I])
    fix p st
    assume p: "p < length es" and st: "?I p st"
    let ?c = "?col (es ! p)"
    have c: "?c < ncol" using entries_bounds(2) [OF cols] p nth_mem [of p es] by (metis es_def prod.collapse)
    have buckets: "length (concat (map (col_entries rows) [0..<k])) =
      length (concat (map (\<lambda>c. filter (\<lambda>e. ?col e = c) es) [0..<k]))" for k
      by (simp add: length_concat comp_def col_entries_filter es_def)
    have start: "?start ! ?c = length (concat (map (\<lambda>c. filter (\<lambda>e. ?col e = c) es) [0..<?c]))"
      using c buckets by (simp add: row_offs_nth transposed_def take_map)
    have dst: "?start ! ?c + length (filter (\<lambda>e. ?col e = ?c) (take p es)) = rank ?col es p"
      using rank_buckets [OF p, of ?col] by (simp only: start)
    have other: "rank ?col es p \<noteq> rank ?col es q" if "q < p" for q
      using inj_onD [OF rank_inj [of ?col es], of q p] that p by auto
    have len: "length ?start = Suc ncol" by (simp add: transposed_def)
    show "ok (step (es ! p) st) (?I (Suc p))"
      using st p c dst rank_less [OF p, of ?col] len
      by (auto simp: step_def Let_def other ok_simps less_Suc_eq nth_list_update take_Suc_conv_app_nth)
  qed simp_all
  also have "for_each (\<lambda>p. step (es ! p)) [0..<length es] = for_each step es"
    by (intro ext) (simp add: map_nth flip: for_each_map)
  finally have all: "ok (for_each step es (replicate (length es) 0, replicate (length es) 0, replicate ncol 0)) (?I (length es))" .
  have sorted: "xs = map f L" if "length xs = length es" "\<forall>q<length es. xs ! rank ?col es q = f (es ! q)" for xs :: "'y list" and f
  proof (rule nth_equalityI)
    fix i assume "i < length xs"
    then have "i \<in> rank ?col es ` {..<length es}" using that(1) rank_surj [of ?col es] by simp
    then obtain q where q: "q < length es" "i = rank ?col es q" by auto
    then have "L ! i = es ! q" by (simp add: L_def es_def sort_key_rank)
    then show "xs ! i = map f L ! i" using that q \<open>i < length xs\<close> by (simp add: L_def es_def)
  qed (use that in \<open>simp add: L_def es_def\<close>)
  have "rows_loop (row_offs 0 rows) (length rows)
      (transpose_place (map snd (concat rows)) (map fst (concat rows)) ?start) st = for_each step es st" for st
    unfolding es_def step_def
    by (rule rows_loop_entries)
      (simp add: transpose_place_def rows_read case_prod_beta Let_def del: rd_Some)
  then show ?thesis using all by (auto elim!: ok_mono intro!: sorted)
qed

subsection \<open>The operation, in either build\<close>

locale crs_build =
  fixes psum :: "nat list \<Rightarrow> nat list \<Rightarrow> nat \<Rightarrow> nat list option"
  assumes psum: "length out = length xs \<Longrightarrow> psum xs out (length xs) = Some (prefix_sums xs)"
begin

lemma transpose_eq:
  assumes "cols_ok ncol rows"
  shows "crs_transpose psum (of_rows ncol rows) = Some (of_rows (length rows) (transposed ncol rows))"
proof -
  let ?L = "sort_key (\<lambda>e. fst (snd e)) (entries rows)"
  have sums: "psum (map length (transposed ncol rows)) (replicate ncol 0) ncol = Some (prefix_sums (map length (transposed ncol rows)))"
    using psum [of "replicate ncol 0" "map length (transposed ncol rows)"] by (simp add: transposed_def)
  obtain cur where "rows_loop (row_offs 0 rows) (length rows)
      (transpose_place (map snd (concat rows)) (map fst (concat rows)) (row_offs 0 (transposed ncol rows)))
      (replicate (length (concat rows)) 0, replicate (length (concat rows)) 0, replicate ncol 0) =
    Some (map (\<lambda>e. snd (snd e)) ?L, map fst ?L, cur)"
    using transpose_place_ok [OF assms] by (auto simp: ok_iff_ex)
  then have "crs_transpose psum (of_rows ncol rows) = Some \<lparr> crs_val = map (\<lambda>e. snd (snd e)) ?L,
    crs_idx = map fst ?L, crs_off = row_offs 0 (transposed ncol rows), crs_nrow = ncol, crs_ncol = length rows \<rparr>"
    by (simp add: crs_transpose_def transpose_compressed_matrix_def transpose_count_eq [OF assms] sums
        Let_def prefix_sums_offs)
  also have "\<dots> = Some (of_rows (length rows) (transposed ncol rows))"
    using concat_transposed [OF assms]
    by (simp add: of_rows_def comp_def case_prod_beta) (simp add: transposed_def)
  finally show ?thesis .
qed

lemma transpose_twice:
  assumes "cols_ok ncol rows"
  shows "do { t \<leftarrow> crs_transpose psum (of_rows ncol rows); crs_transpose psum t } =
    Some (of_rows ncol (map (sort_key fst) rows))"
  using transpose_eq [OF assms] transpose_eq [OF cols_ok_transposed, of rows ncol] transposed_twice [OF assms]
  by (simp add: transposed_def [of ncol])

end

interpretation crs_ve: crs_build "prefix_sum_ve prefix_vlen prefix_vlen_min"
  by unfold_locales (simp add: prefix_sum_ve_eq prefix_vlen_def prefix_vlen_min_def)

interpretation crs_x86: crs_build prefix_sum_x86
  by unfold_locales (simp add: prefix_sum_x86_def prefix_scalar_eq)

end
