(* ===== verification/CrsFacts.thy ===== *)
theory CrsFacts
  imports CrsOps CrsProducts CrsTranspose
begin

text \<open>
  The properties of local CRS matrices: every operation keeps the invariant, transposition and the
  products are those of linear algebra in every build, and cutting, joining, densifying and
  extracting lose nothing.
\<close>

lemma crs_ok_iff: "crs_ok m \<longleftrightarrow> (\<exists>ncol rows. m = of_rows ncol rows \<and> cols_ok ncol rows)"
  using crs_ok_rows crs_ok_of_rows by blast

lemma cols_ok_rows: "(\<And>row. row \<in> set rows' \<Longrightarrow> row \<in> set rows) \<Longrightarrow> cols_ok ncol rows \<Longrightarrow> cols_ok ncol rows'"
  by (fastforce simp: cols_ok_def)

lemma cols_ok_scaled: "cols_ok ncol rows \<Longrightarrow> cols_ok ncol (map (map (\<lambda>(c, v). (c, f v))) rows)"
  by (fastforce simp: cols_ok_def)

lemma crs_ok_scatter:
  fixes m :: "'a::zero crs_matrix_local"
  assumes "crs_ok m" "0 < n"
  obtains parts where "get_scattered_crs_matrices m n = Some parts" "length parts = n"
    "\<forall>p\<in>set parts. crs_ok p \<and> crs_ncol p = crs_ncol m" "concat (map crs_rows parts) = crs_rows m"
    "merge_scattered_crs_matrices u parts = Some (Inr m)"
proof -
  obtain rows where m: "m = of_rows (crs_ncol m) rows" "cols_ok (crs_ncol m) rows" "crs_rows m = rows"
    by (rule crs_okE [OF assms(1)])
  obtain rss where rss: "get_scattered_crs_matrices (of_rows (crs_ncol m) rows) n = Some (map (of_rows (crs_ncol m)) rss)"
    "length rss = n" "concat rss = rows" by (rule scatter_eq [OF assms(2)])
  have ne: "rss \<noteq> []" using rss(2) assms(2) by auto
  have sub: "cols_ok (crs_ncol m) rs" if "rs \<in> set rss" for rs
    using that m(2) rss(3) by (intro cols_ok_rows [of rs rows]) auto
  show thesis
  proof (rule that)
    show "get_scattered_crs_matrices m n = Some (map (of_rows (crs_ncol m)) rss)" using m(1) rss(1) by simp
    show "\<forall>p\<in>set (map (of_rows (crs_ncol m)) rss). crs_ok p \<and> crs_ncol p = crs_ncol m"
      using sub crs_ok_of_rows by auto
    show "merge_scattered_crs_matrices u (map (of_rows (crs_ncol m)) rss) = Some (Inr m)"
      using merge_eq [OF ne, of u "crs_ncol m"] rss(3) m(1) by simp
    show "concat (map crs_rows (map (of_rows (crs_ncol m)) rss)) = crs_rows m"
      using rss(3) m(3) by (simp add: comp_def crs_rows_of_rows)
  qed (simp add: rss(2))
qed

lemma scale_ok:
  fixes m :: "'a::{zero,times} crs_matrix_local"
  assumes "crs_ok m" "axis = 0 \<and> length vec = crs_nrow m \<or> axis = 1 \<and> length vec = crs_ncol m"
  shows "\<exists>m'. scale_crs_matrix_impl m axis vec = Some (Inr m') \<and> crs_ok m'"
proof -
  obtain rows where m: "m = of_rows (crs_ncol m) rows" "cols_ok (crs_ncol m) rows" by (rule crs_okE [OF assms(1)])
  from assms(2) show ?thesis
  proof
    assume a: "axis = 0 \<and> length vec = crs_nrow m"
    then have "length vec = length rows" using arg_cong [OF m(1), of crs_nrow] by simp
    then show ?thesis using scale_axis0_eq [of vec rows "crs_ncol m"] a m
      by (metis cols_ok_map_vals crs_ok_of_rows)
  next
    assume a: "axis = 1 \<and> length vec = crs_ncol m"
    then show ?thesis using scale_axis1_eq [OF m(2), of vec] m by (metis cols_ok_map_vals crs_ok_of_rows)
  qed
qed

text \<open>C16. crs_matrix_local (matrix/crs_matrix.hpp): every operation that makes a matrix out of a matrix at
  rest returns, without leaving its arrays, a matrix that satisfies the invariant again (one offset
  more than rows, offsets from 0 to the number of values that never decrease, columns in range):
  transposition in both builds, the part for each node, row extraction, slicing, scaling by rows or
  columns.\<close>
theorem crs_operations_keep_invariant:
  fixes m :: "'a::semiring_0 crs_matrix_local"
  assumes "crs_ok m"
  shows "(\<exists>t. crs_transpose (prefix_sum_ve prefix_vlen prefix_vlen_min) m = Some t \<and> crs_ok t) \<and>
    (\<exists>t. crs_transpose prefix_sum_x86 m = Some t \<and> crs_ok t) \<and>
    (0 < n \<longrightarrow> (\<exists>ps. get_scattered_crs_matrices m n = Some ps \<and> (\<forall>p\<in>set ps. crs_ok p))) \<and>
    ((\<forall>r\<in>set ids. r < crs_nrow m) \<longrightarrow> (\<exists>t. extract_rows m ids = Some (Inr t) \<and> crs_ok t)) \<and>
    (s \<le> e \<longrightarrow> e < crs_nrow m \<longrightarrow> (\<exists>t. slice_crs_matrix m s e alpha = Some t \<and> crs_ok t)) \<and>
    (axis = 0 \<and> length vec = crs_nrow m \<or> axis = 1 \<and> length vec = crs_ncol m \<longrightarrow>
      (\<exists>t. scale_crs_matrix_impl m axis vec = Some (Inr t) \<and> crs_ok t))"
proof -
  obtain rows where m: "m = of_rows (crs_ncol m) rows" "cols_ok (crs_ncol m) rows" by (rule crs_okE [OF assms])
  have nrow: "crs_nrow m = length rows" using arg_cong [OF m(1), of crs_nrow] by simp
  have t: "crs_ok (of_rows (length rows) (transposed (crs_ncol m) rows))"
    by (rule crs_ok_of_rows) (rule cols_ok_transposed)
  have "\<exists>t. extract_rows m ids = Some (Inr t) \<and> crs_ok t" if "\<forall>r\<in>set ids. r < crs_nrow m"
  proof -
    have "cols_ok (crs_ncol m) (map ((!) rows) ids)" by (rule cols_ok_rows [OF _ m(2)]) (use that nrow in auto)
    then show ?thesis using extract_rows_eq [of ids rows "crs_ncol m"] that m(1) nrow crs_ok_of_rows by auto
  qed
  moreover have "\<exists>t. slice_crs_matrix m s e alpha = Some t \<and> crs_ok t" if "s \<le> e" "e < crs_nrow m"
  proof -
    have "cols_ok (crs_ncol m) (take (e + 1 - s) (drop s rows))"
      by (rule cols_ok_rows [OF _ m(2)]) (auto dest!: in_set_takeD in_set_dropD)
    then show ?thesis
      using slice_eq [of s e rows "crs_ncol m" alpha] that m(1) nrow crs_ok_of_rows [OF cols_ok_scaled] by auto
  qed
  moreover have "\<exists>ps. get_scattered_crs_matrices m n = Some ps \<and> (\<forall>p\<in>set ps. crs_ok p)" if "0 < n"
    by (rule crs_ok_scatter [OF assms that]) blast
  moreover have "\<exists>t. crs_transpose (prefix_sum_ve prefix_vlen prefix_vlen_min) m = Some t \<and> crs_ok t"
    using crs_ve.transpose_eq [OF m(2)] t m(1) by simp
  moreover have "\<exists>t. crs_transpose prefix_sum_x86 m = Some t \<and> crs_ok t"
    using crs_x86.transpose_eq [OF m(2)] t m(1) by simp
  ultimately show ?thesis using scale_ok [OF assms] by blast
qed

definition sample_crs :: "int crs_matrix_local" where
  "sample_crs = \<lparr> crs_val = [5, 7, 9], crs_idx = [0, 2, 1], crs_off = [0, 2, 2, 3], crs_nrow = 3, crs_ncol = 3 \<rparr>"

lemma sample_crs_ok: "crs_ok sample_crs"
  by (simp add: crs_ok_def sample_crs_def)

lemma sample_rows: "crs_rows sample_crs = [[(0, 5), (2, 7)], [], [(1, 9)]]"
  by (simp add: sample_crs_def crs_rows_def eval_nat_numeral)

theorem crs_operations_keep_invariant_witness:
  "\<exists>t. extract_rows sample_crs [2, 0] = Some (Inr t) \<and> crs_ok t"
  using crs_operations_keep_invariant [OF sample_crs_ok, where ids = "[2, 0]"] by (simp add: sample_crs_def)

subsection \<open>Transposition\<close>

lemma cell_items_col: "r < length rows \<Longrightarrow> cell_items (col_entries rows c) r = cell_items (rows ! r) c"
proof -
  assume r: "r < length rows"
  have "cell_items (col_entries rows c) r = map snd (in_col r (col_entries rows c))"
    by (simp add: cell_items_def in_col_def)
  then show ?thesis by (simp add: in_col_col_entries [OF r] comp_def) (simp add: in_col_def cell_items_def)
qed

text \<open>C14. crs_matrix_local::transpose (transpose_compressed_matrix): with the prefix sum of either build
  the result is a matrix of the exchanged dimensions whose cell (c, r) is cell (r, c) of the source;
  the two builds return the same matrix; and transposing twice gives the source with every row
  stably sorted by column.\<close>
theorem crs_transpose_correct:
  fixes m :: "'a::monoid_add crs_matrix_local"
  assumes "crs_ok m"
  shows "\<exists>t. crs_transpose (prefix_sum_ve prefix_vlen prefix_vlen_min) m = Some t \<and> crs_transpose prefix_sum_x86 m = Some t \<and>
    crs_nrow t = crs_ncol m \<and> crs_ncol t = crs_nrow m \<and>
    (\<forall>r<crs_nrow m. \<forall>c<crs_ncol m. crs_at (crs_rows t) c r = crs_at (crs_rows m) r c) \<and>
    crs_transpose prefix_sum_x86 t = Some (of_rows (crs_ncol m) (map (sort_key fst) (crs_rows m)))"
proof -
  obtain rows where m: "m = of_rows (crs_ncol m) rows" "cols_ok (crs_ncol m) rows" "crs_rows m = rows"
    by (rule crs_okE [OF assms])
  let ?t = "of_rows (length rows) (transposed (crs_ncol m) rows)"
  have nrow: "crs_nrow m = length rows" using arg_cong [OF m(1), of crs_nrow] by simp
  have t: "crs_transpose (prefix_sum_ve prefix_vlen prefix_vlen_min) m = Some ?t" "crs_transpose prefix_sum_x86 m = Some ?t"
    using crs_ve.transpose_eq [OF m(2)] crs_x86.transpose_eq [OF m(2)] m(1) by simp_all
  have "crs_transpose prefix_sum_x86 ?t = Some (of_rows (crs_ncol m) (map (sort_key fst) rows))"
    using crs_x86.transpose_twice [OF m(2)] crs_x86.transpose_eq [OF m(2)] by simp
  moreover have "crs_at (transposed (crs_ncol m) rows) c r = crs_at rows r c" if "r < length rows" "c < crs_ncol m" for r c
    using that by (simp add: crs_at_def transposed_def cell_items_col)
  ultimately show ?thesis using t nrow m(3) by (simp add: crs_rows_of_rows) (simp add: transposed_def)
qed

theorem crs_transpose_correct_witness:
  "\<exists>t. crs_transpose prefix_sum_x86 sample_crs = Some t \<and> crs_at (crs_rows t) 2 0 = 7"
proof -
  obtain t where t: "crs_transpose prefix_sum_x86 sample_crs = Some t"
    "\<forall>r<crs_nrow sample_crs. \<forall>c<crs_ncol sample_crs. crs_at (crs_rows t) c r = crs_at (crs_rows sample_crs) r c"
    using crs_transpose_correct [OF sample_crs_ok] by blast
  have "crs_at (crs_rows sample_crs) 0 2 = 7"
    by (simp add: crs_at_def sample_rows)
  then show ?thesis using t(1) t(2) [rule_format, of 0 2] by (simp add: sample_crs_def)
qed

subsection \<open>Cutting and joining\<close>

text \<open>C6. get_scattered_crs_matrices and merge_scattered_crs_matrices: cutting a matrix for any positive
  number of nodes yields that many matrices at rest with the same columns, whose rows in order are the
  rows of the matrix, and joining them returns the matrix, field by field.\<close>
theorem crs_scatter_merge:
  fixes m :: "'a::zero crs_matrix_local"
  assumes "crs_ok m" "0 < n"
  shows "\<exists>parts. get_scattered_crs_matrices m n = Some parts \<and> length parts = n \<and>
    (\<forall>p\<in>set parts. crs_ok p \<and> crs_ncol p = crs_ncol m) \<and> concat (map crs_rows parts) = crs_rows m \<and>
    merge_scattered_crs_matrices u parts = Some (Inr m)"
  by (rule crs_ok_scatter [OF assms, of u]) blast

theorem crs_scatter_merge_witness:
  "\<exists>parts. get_scattered_crs_matrices sample_crs 2 = Some parts \<and> length parts = 2 \<and>
    merge_scattered_crs_matrices (0, 0) parts = Some (Inr sample_crs)"
  using crs_scatter_merge [OF sample_crs_ok, of 2 "(0, 0)"] by auto

subsection \<open>Dense and sparse\<close>

text \<open>C23. rowmajor_matrix_local::to_crs and crs_matrix_local::to_rowmajor: a dense matrix turned sparse is
  a matrix at rest and turns back into the same dense matrix; and a sparse matrix whose rows hold
  non-zero values in ascending columns survives the way through the dense form unchanged.\<close>
theorem crs_dense_roundtrip:
  fixes m :: "'a::zero crs_matrix_local"
  assumes "rm_ok a" "crs_ok m" "\<forall>row\<in>set (crs_rows m). canonical_row (crs_ncol m) row"
  shows "(\<exists>s. to_crs a = Some s \<and> crs_ok s \<and> to_rowmajor s = Some (a :: 'a rowmajor_matrix_local)) \<and>
    (\<exists>d. to_rowmajor m = Some d \<and> rm_ok d \<and> to_crs d = Some m)"
proof
  have len: "length (rm_val a) = rm_nrow a * rm_ncol a" using assms(1) by (simp add: rm_ok_def mult.commute)
  let ?xss = "dense_rows (rm_nrow a) (rm_ncol a) (rm_val a)"
  have row: "length xs = rm_ncol a" if "xs \<in> set ?xss" for xs by (rule dense_rows_length [OF len that])
  have a: "a = \<lparr> rm_val = rm_val a, rm_nrow = rm_nrow a, rm_ncol = rm_ncol a \<rparr>" by simp
  have cols: "cols_ok (rm_ncol a) (map sparse_row ?xss)" by (rule cols_ok_sparse) (rule row)
  have "to_crs a = Some (of_rows (rm_ncol a) (map sparse_row ?xss))" using to_crs_eq [OF len] a by simp
  moreover have "dense_of (rm_ncol a) (map sparse_row ?xss) = rm_val a"
  proof -
    have "map (dense_row (rm_ncol a)) (map sparse_row ?xss) = ?xss"
      unfolding map_map comp_def by (rule map_idI) (simp add: dense_sparse_row row)
    then show ?thesis unfolding dense_of_def by (simp only: dense_rows_concat [OF len])
  qed
  moreover have "length ?xss = rm_nrow a" by (simp add: dense_rows_def)
  ultimately show "\<exists>s. to_crs a = Some s \<and> crs_ok s \<and> to_rowmajor s = Some a"
    using to_rowmajor_eq [OF cols] crs_ok_of_rows [OF cols] by simp
next
  obtain rows where m: "m = of_rows (crs_ncol m) rows" "cols_ok (crs_ncol m) rows" "crs_rows m = rows"
    by (rule crs_okE [OF assms(2)])
  let ?n = "crs_ncol m"
  let ?d = "\<lparr> rm_val = dense_of ?n rows, rm_nrow = length rows, rm_ncol = ?n \<rparr>"
  have len: "length (dense_of ?n rows) = length rows * ?n"
    unfolding dense_of_def by (subst length_concat_blocks [of _ ?n]) (auto simp: dense_row_def mult.commute)
  have "map sparse_row (map (dense_row ?n) rows) = rows"
    unfolding map_map comp_def using assms(3) m(3) by (intro map_idI sparse_dense_row) simp
  then have "to_crs ?d = Some m"
    using to_crs_eq [OF len] dense_rows_dense_of [of rows ?n] m(1) by simp
  moreover have "to_rowmajor m = Some ?d" using to_rowmajor_eq [OF m(2)] m(1) by simp
  ultimately show "\<exists>d. to_rowmajor m = Some d \<and> rm_ok d \<and> to_crs d = Some m"
    using len by (auto simp: rm_ok_def mult.commute)
qed

theorem crs_dense_roundtrip_witness:
  "\<exists>s. to_crs \<lparr> rm_val = [0, 3, 4, 0 :: int], rm_nrow = 2, rm_ncol = 2 \<rparr> = Some s \<and> crs_ok s \<and>
    to_rowmajor s = Some \<lparr> rm_val = [0, 3, 4, 0], rm_nrow = 2, rm_ncol = 2 \<rparr>"
  using crs_dense_roundtrip [of "\<lparr> rm_val = [0, 3, 4, 0 :: int], rm_nrow = 2, rm_ncol = 2 \<rparr>" sample_crs, OF _ sample_crs_ok]
  by (simp add: rm_ok_def canonical_row_def crs_rows_def sample_crs_def eval_nat_numeral)

subsection \<open>Products\<close>

text \<open>C7. operator* on a CRS matrix and a dense matrix (crs_matrix_spmm_impl): with the kernel of the vector
  build, for any threshold and any register length (unrolled blocks of 16, 8, 4 and 1 columns below the
  threshold, register blocks above it), and with the plain kernel, the result is the matrix product;
  and a left operand whose columns do not match the rows of the right one is refused.\<close>
theorem crs_spmm_builds_agree:
  fixes b :: "'a::semiring_0 rowmajor_matrix_local"
  assumes "crs_ok m" "rm_ok b" "0 < V"
  shows "crs_times_rowmajor (crs_matrix_spmm_impl_ve THR V) m b = crs_times_rowmajor crs_matrix_spmm_impl_x86 m b \<and>
    crs_times_rowmajor crs_matrix_spmm_impl_x86 m b =
      Some (if crs_ncol m = rm_nrow b then Inr (dense_matrix (crs_nrow m) (rm_ncol b)
          (\<lambda>r k. \<Sum>i<crs_ncol m. crs_at (crs_rows m) r i * dense_at b i k))
        else Inl ''invalid size for matrix multiplication'')"
proof (cases "crs_ncol m = rm_nrow b")
  case True
  obtain rows where m: "m = of_rows (rm_nrow b) rows" "cols_ok (rm_nrow b) rows" "crs_rows m = rows"
    using crs_okE [OF assms(1)] True by metis
  have "crs_nrow m = length rows" using arg_cong [OF m(1), of crs_nrow] by simp
  then show ?thesis
    using spmm_eq [OF spmm_ve_ok [OF assms(3), of THR] m(2) assms(2)] spmm_eq [OF spmm_x86_ok m(2) assms(2)] m(1,3) True by simp
qed (simp add: crs_times_rowmajor_def)

theorem crs_spmm_builds_agree_witness:
  "crs_times_rowmajor (crs_matrix_spmm_impl_ve 32 256) sample_crs \<lparr> rm_val = [1, 2, 3], rm_nrow = 3, rm_ncol = 1 \<rparr> =
   crs_times_rowmajor crs_matrix_spmm_impl_x86 sample_crs \<lparr> rm_val = [1, 2, 3], rm_nrow = 3, rm_ncol = 1 \<rparr>"
  using crs_spmm_builds_agree [OF sample_crs_ok, of "\<lparr> rm_val = [1, 2, 3], rm_nrow = 3, rm_ncol = 1 \<rparr>" 256 32]
  by (simp add: rm_ok_def)

text \<open>C15. The other products of matrix/crs_matrix.hpp are matrix products too: CRS times vector
  (crs_matrix_spmv_impl), dense times CRS in both builds (the vector build interchanges the loops of
  short and long rows) and CRS times CRS (crs_mm); mismatching sizes are refused.\<close>
theorem crs_products:
  fixes m m2 :: "'a::semiring_0 crs_matrix_local"
  assumes "crs_ok m" "crs_ok m2" "rm_ok a"
  shows "crs_times_vector m v =
      Some (if crs_ncol m = length v then Inr (map (\<lambda>r. \<Sum>c<crs_ncol m. crs_at (crs_rows m) r c * v ! c) [0..<crs_nrow m])
        else Inl ''operator*: size of vector does not match'') \<and>
    rowmajor_times_crs dense_sparse_row_ve a m = rowmajor_times_crs dense_sparse_row_x86 a m \<and>
    rowmajor_times_crs dense_sparse_row_x86 a m =
      Some (if rm_ncol a = crs_nrow m then Inr (dense_matrix (rm_nrow a) (crs_ncol m)
          (\<lambda>r c. \<Sum>i<crs_nrow m. dense_at a r i * crs_at (crs_rows m) i c))
        else Inl ''invalid size for matrix multiplication'') \<and>
    crs_mm m m2 =
      Some (if crs_ncol m = crs_nrow m2 then Inr (dense_matrix (crs_nrow m) (crs_ncol m2)
          (\<lambda>r c. \<Sum>i<crs_nrow m2. crs_at (crs_rows m) r i * crs_at (crs_rows m2) i c))
        else Inl ''invalid size for matrix multiplication'')"
proof -
  obtain rows where m: "m = of_rows (crs_ncol m) rows" "cols_ok (crs_ncol m) rows" "crs_rows m = rows"
    by (rule crs_okE [OF assms(1)])
  obtain rows2 where m2: "m2 = of_rows (crs_ncol m2) rows2" "cols_ok (crs_ncol m2) rows2" "crs_rows m2 = rows2"
    by (rule crs_okE [OF assms(2)])
  have nrow: "crs_nrow m = length rows" "crs_nrow m2 = length rows2"
    using arg_cong [OF m(1), of crs_nrow] arg_cong [OF m2(1), of crs_nrow] by simp_all
  have "crs_times_vector m v =
      Some (if crs_ncol m = length v then Inr (map (\<lambda>r. \<Sum>c<crs_ncol m. crs_at (crs_rows m) r c * v ! c) [0..<crs_nrow m])
        else Inl ''operator*: size of vector does not match'')"
    using spmv_eq [OF m(2), of v] m(1,3) nrow by (auto simp: crs_times_vector_def)
  moreover have ds: "rowmajor_times_crs f a m =
      Some (if rm_ncol a = crs_nrow m then Inr (dense_matrix (rm_nrow a) (crs_ncol m)
          (\<lambda>r c. \<Sum>i<crs_nrow m. dense_at a r i * crs_at (crs_rows m) i c))
        else Inl ''invalid size for matrix multiplication'')" if "dense_sparse_kernel f" for f
    using dense_sparse_eq [OF that assms(3) _ m(2)] m(1,3) nrow by (auto simp: rowmajor_times_crs_def)
  moreover have "crs_mm m m2 =
      Some (if crs_ncol m = crs_nrow m2 then Inr (dense_matrix (crs_nrow m) (crs_ncol m2)
          (\<lambda>r c. \<Sum>i<crs_nrow m2. crs_at (crs_rows m) r i * crs_at (crs_rows m2) i c))
        else Inl ''invalid size for matrix multiplication'')"
  proof (cases "crs_ncol m = crs_nrow m2")
    case True
    then show ?thesis using crs_mm_eq [of rows2 rows "crs_ncol m2"] m m2 nrow by simp
  qed (simp add: crs_mm_def)
  ultimately show ?thesis
    using ds [OF dense_sparse_kernels(1)] ds [OF dense_sparse_kernels(2)] by (simp only: conj_assoc)
qed

theorem crs_products_witness:
  "crs_times_vector sample_crs [1, 2, 3] = Some (Inr [26, 0, 18])"
  using crs_products [OF sample_crs_ok sample_crs_ok, of "\<lparr> rm_val = [], rm_nrow = 0, rm_ncol = 3 \<rparr>" "[1, 2, 3]"]
  by (simp add: rm_ok_def crs_rows_def crs_at_def sample_crs_def eval_nat_numeral lessThan_Suc)

subsection \<open>Rows\<close>

text \<open>get_row, extract_rows and slice_crs_matrix: a row comes back as the sparse vector of its columns
  and values; extraction returns the chosen rows in the chosen order, any row any number of times, and
  throws when a position is not a row; a slice returns the rows of the range with every value
  multiplied by the factor.\<close>
theorem crs_row_selection:
  fixes m :: "'a::semiring_0 crs_matrix_local"
  assumes "crs_ok m"
  shows "(r < crs_nrow m \<longrightarrow> get_row m r = Some (Inr \<lparr> sv_val = map snd (crs_rows m ! r),
      sv_idx = map fst (crs_rows m ! r), sv_size = crs_ncol m \<rparr>)) \<and>
    extract_rows m ids = Some (if \<forall>i\<in>set ids. i < crs_nrow m then Inr (of_rows (crs_ncol m) (map ((!) (crs_rows m)) ids))
      else Inl ''extract_rows: invalid position'') \<and>
    (s \<le> e \<longrightarrow> e < crs_nrow m \<longrightarrow> slice_crs_matrix m s e alpha = Some (of_rows (crs_ncol m)
      (map (map (\<lambda>(c, v). (c, v * alpha))) (take (e + 1 - s) (drop s (crs_rows m))))))"
proof -
  obtain rows where m: "m = of_rows (crs_ncol m) rows" "crs_rows m = rows"
    by (rule crs_okE [OF assms])
  have nrow: "crs_nrow m = length rows" using arg_cong [OF m(1), of crs_nrow] by simp
  have "extract_rows m ids = Some (if \<forall>i\<in>set ids. i < crs_nrow m then Inr (of_rows (crs_ncol m) (map ((!) rows) ids))
      else Inl ''extract_rows: invalid position'')"
    using extract_rows_eq [of ids rows "crs_ncol m"] extract_rows_invalid [of ids m] m(1) nrow
    by (auto simp: not_less)
  then show ?thesis
    using get_row_eq [of r rows "crs_ncol m"] slice_eq [of s e rows "crs_ncol m" alpha] m nrow by simp
qed

theorem crs_row_selection_witness:
  "get_row sample_crs 0 = Some (Inr \<lparr> sv_val = [5, 7], sv_idx = [0, 2], sv_size = 3 \<rparr>) \<and>
   extract_rows sample_crs [3] = Some (Inl ''extract_rows: invalid position'')"
  using crs_row_selection [OF sample_crs_ok, of 0 "[3]"] by (simp add: sample_crs_def crs_rows_def eval_nat_numeral)

text \<open>The guard of get_row is \<open>k > local_num_row\<close>: the position one behind the last row passes it, and the
  width of the row is then taken from an offset that does not exist.\<close>

lemma get_row_past_end:
  assumes "crs_ok m"
  shows "get_row m (crs_nrow m) = None"
proof -
  obtain rows where "m = of_rows (crs_ncol m) rows" by (rule crs_okE [OF assms])
  moreover from this have "crs_nrow m = length rows" by (metis of_rows_sel(4))
  moreover have "get_row (of_rows (crs_ncol m) rows) (length rows) = None"
    by (simp add: get_row_def row_width_def rd_def)
  ultimately show ?thesis by metis
qed

text \<open>sum_of_rows and sum_of_cols: with no counts given, the first returns for every column the sum and
  the number of its values, the second for every row its sum and its number of values, provided
  that no row holds \<open>2 ^ 31\<close> values or more (the loop compares in 32 bits).\<close>
theorem crs_sums:
  fixes m :: "'a::comm_monoid_add crs_matrix_local"
  assumes "crs_ok m" "\<forall>row\<in>set (crs_rows m). length row < 2 ^ 31"
  shows "sum_of_rows m [] = Some (map (\<lambda>c. \<Sum>r<crs_nrow m. crs_at (crs_rows m) r c) [0..<crs_ncol m],
      map (\<lambda>c. length (cell_items (concat (crs_rows m)) c)) [0..<crs_ncol m]) \<and>
    sum_of_cols m [] = Some (map (\<lambda>row. sum_list (map snd row)) (crs_rows m), map length (crs_rows m))"
proof -
  obtain rows where m: "m = of_rows (crs_ncol m) rows" "cols_ok (crs_ncol m) rows" "crs_rows m = rows"
    by (rule crs_okE [OF assms(1)])
  have nrow: "crs_nrow m = length rows" using arg_cong [OF m(1), of crs_nrow] by simp
  show ?thesis
    using sum_of_rows_eq [OF m(2)] sum_of_cols_eq [of rows "crs_ncol m"] assms(2) m(1,3) nrow by (simp add: sum_column)
qed

theorem crs_sums_witness:
  "sum_of_cols sample_crs [] = Some ([12, 0, 9], [2, 0, 1])"
  using crs_sums [OF sample_crs_ok] by (simp add: sample_rows)

subsection \<open>Scaling, and construction from triplets\<close>

text \<open>scale_crs_matrix_impl and crs_mul_vector_row: axis 0 multiplies row r by the r-th number, axis 1
  column c by the c-th, and leaves the structure as it is; a vector of another size and any other
  axis are refused.\<close>
theorem crs_scaling:
  fixes m :: "'a::semiring_0 crs_matrix_local"
  assumes "crs_ok m"
  shows "scale_crs_matrix_impl m axis vec = Some (
     if axis = 0 then if length vec = crs_nrow m then Inr (of_rows (crs_ncol m) (map_vals (\<lambda>r c v. v * vec ! r) (crs_rows m)))
       else Inl ''vector size does not match with number of rows in matrix''
     else if axis = 1 then if length vec = crs_ncol m then Inr (of_rows (crs_ncol m) (map_vals (\<lambda>r c v. v * vec ! c) (crs_rows m)))
       else Inl ''vector size does not match with number of cols in matrix''
     else Inl (''expected axis is either 0 or 1'' @ [CHR 0x0A])) \<and>
    (crs_ncol m \<le> length vec \<longrightarrow>
      crs_mul_vector_row m vec = Some (of_rows (crs_ncol m) (map_vals (\<lambda>r c v. v * vec ! c) (crs_rows m))))"
proof -
  obtain rows where m: "m = of_rows (crs_ncol m) rows" "cols_ok (crs_ncol m) rows" "crs_rows m = rows"
    by (rule crs_okE [OF assms])
  have nrow: "crs_nrow m = length rows" using arg_cong [OF m(1), of crs_nrow] by simp
  have "crs_ncol m \<le> length vec \<longrightarrow>
      crs_mul_vector_row m vec = Some (of_rows (crs_ncol m) (map_vals (\<lambda>r c v. v * vec ! c) rows))"
    using vector_row_eq [OF m(2), of vec "(*)"] m(1) by (simp add: crs_mul_vector_row_def)
  moreover have ax0: "scale_crs_matrix_impl m 0 vec = Some (if length vec = crs_nrow m
      then Inr (of_rows (crs_ncol m) (map_vals (\<lambda>r c v. v * vec ! r) rows))
      else Inl ''vector size does not match with number of rows in matrix'')"
  proof (cases "length vec = crs_nrow m")
    case True
    then show ?thesis using scale_axis0_eq [of vec rows "crs_ncol m"] m(1) nrow by simp
  qed (simp add: scale_crs_matrix_impl_def Let_def)
  moreover have ax1: "scale_crs_matrix_impl m 1 vec = Some (if length vec = crs_ncol m
      then Inr (of_rows (crs_ncol m) (map_vals (\<lambda>r c v. v * vec ! c) rows))
      else Inl ''vector size does not match with number of cols in matrix'')"
  proof (cases "length vec = crs_ncol m")
    case True
    then show ?thesis using scale_axis1_eq [OF m(2) True] m(1) by simp
  qed (simp add: scale_crs_matrix_impl_def Let_def)
  moreover have ax2: "scale_crs_matrix_impl m axis vec = Some (Inl (''expected axis is either 0 or 1'' @ [CHR 0x0A]))"
    if "axis \<noteq> 0" "axis \<noteq> 1" using that by (simp add: scale_crs_matrix_impl_def Let_def)
  ultimately show ?thesis unfolding m(3)
    by (cases "axis = 0"; cases "axis = 1") (simp_all only: ax0 ax1 ax2 if_True if_False simp_thms if_distrib [of Some] zero_neq_one)
qed

theorem crs_scaling_witness:
  "scale_crs_matrix_impl sample_crs 2 [] = Some (Inl (''expected axis is either 0 or 1'' @ [CHR 0x0A])) \<and>
   scale_crs_matrix_impl sample_crs 0 [1] = Some (Inl ''vector size does not match with number of rows in matrix'')"
  using crs_scaling [OF sample_crs_ok, of 2 "[]"] crs_scaling [OF sample_crs_ok, of 0 "[1]"] by (simp add: sample_crs_def)

text \<open>coo_to_crs: from triplets in ascending order of their lines, counted from line 0, the result holds
  one row per line up to the last one named, lines without a triplet included, and each row holds its
  triplets in their order; the number of columns is set by the caller afterwards, as set_local_num
  does.\<close>
theorem coo_to_crs_rows:
  assumes "sorted (map coo_i coo)"
  shows "\<exists>m. coo_to_crs u coo 0 = Some m \<and>
    crs_set_local_num m ncol = of_rows ncol (map (\<lambda>r. map (\<lambda>t. (coo_j t, coo_v t)) (filter (\<lambda>t. coo_i t = r) coo))
      [0..<(if coo = [] then 0 else coo_i (last coo) + 1)])"
proof -
  have "(\<lambda>r. map (\<lambda>t. (coo_j t, coo_v t)) (filter (\<lambda>t. coo_i t = r) coo)) = coo_row coo"
    by (simp add: coo_row_def fun_eq_iff)
  moreover have "crs_set_local_num ((of_rows c rows)\<lparr> crs_nrow := k \<rparr>) ncol = of_rows ncol rows" for c k and rows :: "(nat \<times> 'a) list list"
    by (simp add: crs_set_local_num_def of_rows_def)
  ultimately show ?thesis by (simp add: coo_to_crs_eq [OF assms])
qed

theorem coo_to_crs_rows_witness:
  "\<exists>m. coo_to_crs (7, 7) [\<lparr> coo_i = 1, coo_j = 0, coo_v = (5 :: int) \<rparr>] 0 = Some m \<and>
    crs_set_local_num m 1 = of_rows 1 [[], [(0, 5)]]"
  using coo_to_crs_rows [of "[\<lparr> coo_i = 1, coo_j = 0, coo_v = (5 :: int) \<rparr>]" "(7, 7)" 1] by (simp add: upt_rec)

end
