(* ===== verification/MultiBounds.thy ===== *)
theory MultiBounds
  imports Bounds
begin

text \<open>
  core/multivalue_lower_bound.hpp and core/multivalue_upper_bound.hpp: binary search of rows of
  \<open>num_values\<close> columns (stored row after row) in a vector of rows sorted lexicographically.  A round
  has three loops over the lanes of a block: set up the middle, compare the rows column by column
  (the flags \<open>is_eq\<close> and \<open>is_lt\<close>/\<open>is_gt\<close> of each lane), and halve.  The local arrays low, high, mid,
  is_eq and is_lt (is_gt) are held as one list of lane records.
\<close>

subsection \<open>The code\<close>

record mv_lane =
  mv_low :: nat
  mv_high :: nat
  mv_mid :: nat
  mv_is_eq :: bool
  mv_is_rel :: bool

definition mv_lane0 :: mv_lane where
  "mv_lane0 = \<lparr>mv_low = 0, mv_high = 0, mv_mid = 0, mv_is_eq = False, mv_is_rel = False\<rparr>"

text \<open>First loop of a round: reset the flags and take the middle.\<close>

definition mv_start :: "mv_lane \<Rightarrow> mv_lane" where
  "mv_start a = a\<lparr>mv_is_eq := True, mv_is_rel := False,
     mv_mid := if mv_low a < mv_high a then (mv_low a + mv_high a) div 2 else mv_mid a\<rparr>"

text \<open>Second loop: column \<open>len\<close> of lane \<open>k\<close>; \<open>rel\<close> is the comparison of the routine.\<close>

definition mv_compare ::
  "('a \<Rightarrow> 'a \<Rightarrow> bool) \<Rightarrow> 'a list \<Rightarrow> 'a list \<Rightarrow> nat \<Rightarrow> nat \<Rightarrow> nat \<times> mv_lane \<Rightarrow> mv_lane option" where
  "mv_compare rel srt crnt_to_find num_values len ka = do {
     let (k, a) = ka;
     if mv_low a < mv_high a then do {
       v \<leftarrow> rd crnt_to_find (k * num_values + len);
       x \<leftarrow> rd srt (mv_mid a * num_values + len);
       let crnt_is_eq = (v = x);
       let crnt_is_rel = rel v x;
       let a = (if mv_is_eq a then a\<lparr>mv_is_rel := crnt_is_rel\<rparr> else a);
       Some (if \<not> crnt_is_eq then a\<lparr>mv_is_eq := False\<rparr> else a)
     } else Some a }"

text \<open>Third loop; \<open>upper\<close> selects which half the flags select.\<close>

definition mv_halve :: "bool \<Rightarrow> mv_lane \<Rightarrow> mv_lane" where
  "mv_halve upper a =
     (if mv_low a < mv_high a then
        if mv_is_rel a \<or> mv_is_eq a
        then (if upper then a\<lparr>mv_low := mv_mid a + 1\<rparr> else a\<lparr>mv_high := mv_mid a\<rparr>)
        else (if upper then a\<lparr>mv_high := mv_mid a\<rparr> else a\<lparr>mv_low := mv_mid a + 1\<rparr>)
      else a)"

definition mv_round ::
  "bool \<Rightarrow> ('a \<Rightarrow> 'a \<Rightarrow> bool) \<Rightarrow> 'a list \<Rightarrow> 'a list \<Rightarrow> nat \<Rightarrow> mv_lane list \<Rightarrow> mv_lane list option" where
  "mv_round upper rel srt crnt_to_find num_values lanes = do {
     let lanes = map mv_start lanes;
     lanes \<leftarrow> for_each (\<lambda>len lanes. omap (mv_compare rel srt crnt_to_find num_values len) (enumerate 0 lanes))
       [0..<num_values] lanes;
     Some (map (mv_halve upper) lanes) }"

definition mv_block ::
  "bool \<Rightarrow> ('a \<Rightarrow> 'a \<Rightarrow> bool) \<Rightarrow> 'a list \<Rightarrow> nat \<Rightarrow> 'a list \<Rightarrow> nat \<Rightarrow> mv_lane list \<Rightarrow> mv_lane list option" where
  "mv_block upper rel srt sorted_size crnt_to_find num_values lanes =
     for_each (\<lambda>j. mv_round upper rel srt crnt_to_find num_values) [0..<max_iter sorted_size]
       (map (\<lambda>a. a\<lparr>mv_low := 0, mv_high := sorted_size\<rparr>) lanes)"

definition mv_body ::
  "nat \<Rightarrow> bool \<Rightarrow> ('a \<Rightarrow> 'a \<Rightarrow> bool) \<Rightarrow> 'a list \<Rightarrow> nat \<Rightarrow> 'a list \<Rightarrow> nat \<Rightarrow> nat \<Rightarrow>
   mv_lane list \<times> nat list \<Rightarrow> (mv_lane list \<times> nat list) option" where
  "mv_body VLEN upper rel srt sorted_size to_find num_values i st = do {
     let (lanes, ret) = st;
     let offset = i * VLEN;
     crnt_to_find \<leftarrow> rd_block to_find (offset * num_values) (VLEN * num_values);
     lanes \<leftarrow> mv_block upper rel srt sorted_size crnt_to_find num_values lanes;
     ret \<leftarrow> copy_cells (map mv_low lanes) 0 ret offset VLEN;
     Some (lanes, ret) }"

definition mv_bound ::
  "nat \<Rightarrow> bool \<Rightarrow> ('a \<Rightarrow> 'a \<Rightarrow> bool) \<Rightarrow> 'a list \<Rightarrow> nat \<Rightarrow> 'a list \<Rightarrow> nat \<Rightarrow> nat \<Rightarrow> nat list \<Rightarrow> nat list option" where
  "mv_bound VLEN upper rel srt sorted_size to_find to_find_size num_values ret = do {
     let block_size = to_find_size div VLEN;
     let rest = to_find_size mod VLEN;
     (lanes, ret) \<leftarrow> for_each (mv_body VLEN upper rel srt sorted_size to_find num_values)
       [0..<block_size] (replicate VLEN mv_lane0, ret);
     let offset = block_size * VLEN;
     crnt_to_find \<leftarrow> rd_block to_find (offset * num_values) (rest * num_values);
     lanes2 \<leftarrow> mv_block upper rel srt sorted_size crnt_to_find num_values (replicate rest mv_lane0);
     copy_cells (map mv_low lanes2) 0 ret offset rest }"

definition mv_bound_vlen_ve :: nat where "mv_bound_vlen_ve = 16384"
definition mv_bound_vlen_x86 :: nat where "mv_bound_vlen_x86 = 4"

definition multivalue_lower_bound ::
  "nat \<Rightarrow> 'a::linorder list \<Rightarrow> nat \<Rightarrow> 'a list \<Rightarrow> nat \<Rightarrow> nat \<Rightarrow> nat list \<Rightarrow> nat list option" where
  "multivalue_lower_bound VLEN = mv_bound VLEN False (\<lambda>v x. v < x)"

definition multivalue_lower_bound_desc ::
  "nat \<Rightarrow> 'a::linorder list \<Rightarrow> nat \<Rightarrow> 'a list \<Rightarrow> nat \<Rightarrow> nat \<Rightarrow> nat list \<Rightarrow> nat list option" where
  "multivalue_lower_bound_desc VLEN = mv_bound VLEN False (\<lambda>v x. v > x)"

definition multivalue_upper_bound ::
  "nat \<Rightarrow> 'a::linorder list \<Rightarrow> nat \<Rightarrow> 'a list \<Rightarrow> nat \<Rightarrow> nat \<Rightarrow> nat list \<Rightarrow> nat list option" where
  "multivalue_upper_bound VLEN = mv_bound VLEN True (\<lambda>v x. v > x)"

definition multivalue_upper_bound_desc ::
  "nat \<Rightarrow> 'a::linorder list \<Rightarrow> nat \<Rightarrow> 'a list \<Rightarrow> nat \<Rightarrow> nat \<Rightarrow> nat list \<Rightarrow> nat list option" where
  "multivalue_upper_bound_desc VLEN = mv_bound VLEN True (\<lambda>v x. v < x)"

text \<open>
  The overloads on vectors: \<open>Inl\<close> is the exception on a size that is no multiple of \<open>num_values\<close>; a
  \<open>num_values\<close> of 0 divides by zero.
\<close>

definition mv_bound_vec ::
  "('a list \<Rightarrow> nat \<Rightarrow> 'a list \<Rightarrow> nat \<Rightarrow> nat \<Rightarrow> nat list \<Rightarrow> nat list option) \<Rightarrow> string \<Rightarrow>
   'a list \<Rightarrow> 'a list \<Rightarrow> nat \<Rightarrow> (string + nat list) option" where
  "mv_bound_vec routine wrong srt to_find num_values =
     (if num_values = 0 then None
      else if length srt mod num_values \<noteq> 0 \<or> length to_find mod num_values \<noteq> 0 then Some (Inl wrong)
      else do {
        let to_find_size = length to_find div num_values;
        let ret = replicate to_find_size 0;
        if length to_find = 0 \<or> length srt = 0 then Some (Inr ret)
        else do {
          ret \<leftarrow> routine srt (length srt div num_values) to_find to_find_size num_values ret;
          Some (Inr ret) } })"

definition multivalue_lower_bound_vec where
  "multivalue_lower_bound_vec VLEN = mv_bound_vec (multivalue_lower_bound VLEN)
     ''multivalue_lower_bound: wrong num_values''"

definition multivalue_lower_bound_desc_vec where
  "multivalue_lower_bound_desc_vec VLEN = mv_bound_vec (multivalue_lower_bound_desc VLEN)
     ''multivalue_lower_bound_desc: wrong num_values''"

definition multivalue_upper_bound_vec where
  "multivalue_upper_bound_vec VLEN = mv_bound_vec (multivalue_upper_bound VLEN)
     ''multivalue_upper_bound: wrong num_values''"

definition multivalue_upper_bound_desc_vec where
  "multivalue_upper_bound_desc_vec VLEN = mv_bound_vec (multivalue_upper_bound_desc VLEN)
     ''multivalue_upper_bound_desc: wrong num_values''"

subsection \<open>Rows and their order\<close>

definition row :: "nat \<Rightarrow> 'a list \<Rightarrow> nat \<Rightarrow> 'a list" where
  "row nv xs i = take nv (drop (i * nv) xs)"

definition rows :: "nat \<Rightarrow> 'a list \<Rightarrow> 'a list list" where
  "rows nv xs = map (row nv xs) [0..<length xs div nv]"

fun lex_le :: "('a \<Rightarrow> 'a \<Rightarrow> bool) \<Rightarrow> 'a list \<Rightarrow> 'a list \<Rightarrow> bool" where
  "lex_le rel [] ys = True"
| "lex_le rel (x # xs) [] = False"
| "lex_le rel (x # xs) (y # ys) = (rel x y \<or> x = y \<and> lex_le rel xs ys)"

lemma lex_le_trans:
  "transp rel \<Longrightarrow> lex_le rel xs ys \<Longrightarrow> lex_le rel ys zs \<Longrightarrow> lex_le rel xs zs"
proof (induction rel xs ys arbitrary: zs rule: lex_le.induct)
  case (3 rel x xs y ys)
  then show ?case by (cases zs) (auto dest: transpD)
qed simp_all

lemma lex_le_converse:
  "length xs = length ys \<Longrightarrow> lex_le rel xs ys = lex_le (\<lambda>x y. rel y x) ys xs"
  by (induction xs ys rule: list_induct2) auto

text \<open>The two flags after comparing the first columns.\<close>

fun col_flags :: "('a \<Rightarrow> 'a \<Rightarrow> bool) \<Rightarrow> bool \<times> bool \<Rightarrow> 'a list \<Rightarrow> 'a list \<Rightarrow> bool \<times> bool" where
  "col_flags rel f (v # vs) (x # xs) =
     col_flags rel (fst f \<and> v = x, if fst f then rel v x else snd f) vs xs"
| "col_flags rel f _ _ = f"

lemma col_flags_False: "col_flags rel (False, b) vs xs = (False, b)"
  by (induction vs arbitrary: xs) (case_tac [2] xs, simp_all)

lemma col_flags_lex:
  "length vs = length xs \<Longrightarrow> irreflp rel \<Longrightarrow>
   fst (col_flags rel (True, False) vs xs) \<or> snd (col_flags rel (True, False) vs xs) \<longleftrightarrow> lex_le rel vs xs"
proof (induction vs xs rule: list_induct2)
  case (Cons v vs x xs)
  then show ?case by (cases "v = x") (auto simp: col_flags_False irreflp_def)
qed simp

lemma col_flags_snoc:
  "length vs = length xs \<Longrightarrow> col_flags rel f (vs @ [v]) (xs @ [x]) =
   (fst (col_flags rel f vs xs) \<and> v = x,
    if fst (col_flags rel f vs xs) then rel v x else snd (col_flags rel f vs xs))"
  by (induction vs xs arbitrary: f rule: list_induct2) auto

lemma length_row [simp]: "i * nv + nv \<le> length xs \<Longrightarrow> length (row nv xs i) = nv"
  by (simp add: row_def)

lemma nth_row: "i * nv + nv \<le> length xs \<Longrightarrow> len < nv \<Longrightarrow> row nv xs i ! len = xs ! (i * nv + len)"
  by (simp add: row_def)

lemma length_rows [simp]: "length (rows nv xs) = length xs div nv"
  by (simp add: rows_def)

lemma row_fits: "i < length xs div nv \<Longrightarrow> i * nv + nv \<le> length xs"
  by (metis add.commute div_times_less_eq_dividend less_eq_Suc_le mult_Suc mult_le_mono1 order_trans)

lemma length_in_rows: "r \<in> set (rows nv xs) \<Longrightarrow> length r = nv"
  by (auto simp: rows_def row_fits)

lemma nth_rows: "i < length xs div nv \<Longrightarrow> rows nv xs ! i = row nv xs i"
  by (simp add: rows_def)

subsection \<open>A round of a block\<close>

definition mv_left :: "bool \<Rightarrow> ('a \<Rightarrow> 'a \<Rightarrow> bool) \<Rightarrow> 'a list \<Rightarrow> 'a list \<Rightarrow> bool" where
  "mv_left upper rel v x = (if upper then \<not> lex_le rel v x else lex_le rel v x)"

definition mv_flagged ::
  "('a \<Rightarrow> 'a \<Rightarrow> bool) \<Rightarrow> nat \<Rightarrow> 'a list \<Rightarrow> 'a list \<Rightarrow> nat \<Rightarrow> nat \<Rightarrow> mv_lane \<Rightarrow> mv_lane" where
  "mv_flagged rel nv srt xs len k a =
     (if mv_low a < mv_high a then
        let F = col_flags rel (mv_is_eq a, mv_is_rel a) (take len (row nv xs k)) (take len (row nv srt (mv_mid a)))
        in a\<lparr>mv_is_eq := fst F, mv_is_rel := snd F\<rparr>
      else a)"

lemma mv_compare_flagged:
  assumes "len < nv" "k * nv + nv \<le> length xs"
    and "mv_low a < mv_high a \<Longrightarrow> mv_mid a * nv + nv \<le> length srt"
  shows "mv_compare rel srt xs nv len (k, mv_flagged rel nv srt xs len k a)
    = Some (mv_flagged rel nv srt xs (Suc len) k a)"
proof (cases "mv_low a < mv_high a")
  case True
  then have "mv_mid a * nv + nv \<le> length srt" using assms(3) by blast
  then show ?thesis using True assms
    by (simp add: mv_compare_def mv_flagged_def Let_def take_Suc_conv_app_nth nth_row col_flags_snoc)
next
  case False
  then show ?thesis by (simp add: mv_compare_def mv_flagged_def)
qed

lemma mv_columns:
  assumes xs: "length lanes * nv \<le> length xs"
    and mid: "\<And>a. a \<in> set lanes \<Longrightarrow> mv_low a < mv_high a \<Longrightarrow> mv_mid a * nv + nv \<le> length srt"
  shows "for_each (\<lambda>len lanes. omap (mv_compare rel srt xs nv len) (enumerate 0 lanes)) [0..<nv] lanes
    = Some (map (\<lambda>(k, a). mv_flagged rel nv srt xs nv k a) (enumerate 0 lanes))"
proof -
  let ?L = "\<lambda>len. map (\<lambda>(k, a). mv_flagged rel nv srt xs len k a) (enumerate 0 lanes)"
  have "ok (for_each (\<lambda>len lanes. omap (mv_compare rel srt xs nv len) (enumerate 0 lanes)) [0..<nv] lanes)
    (\<lambda>st. st = ?L nv)"
  proof (rule ok_for_range [where I = "\<lambda>len st. st = ?L len"])
    show "lanes = ?L 0" by (rule nth_equalityI) (simp_all add: nth_enumerate_eq mv_flagged_def)
    fix len st
    assume len: "len < nv" and st: "st = ?L len"
    have "k * nv + nv \<le> length xs" if "k < length lanes" for k
    proof -
      have "Suc k * nv \<le> length lanes * nv" using that by (intro mult_le_mono1) simp
      then show ?thesis using xs by simp
    qed
    then have "omap (mv_compare rel srt xs nv len) (enumerate 0 st) = Some (?L (Suc len))"
      using len st mid
      by (auto simp: omap_eq_Some_iff list_all2_conv_all_nth nth_enumerate_eq mv_compare_flagged)
    then show "ok (omap (mv_compare rel srt xs nv len) (enumerate 0 st)) (\<lambda>st. st = ?L (Suc len))"
      by simp
  qed simp
  then show ?thesis by (simp add: ok_eq)
qed

abbreviation (input) lohi :: "mv_lane \<Rightarrow> nat \<times> nat" where
  "lohi a \<equiv> (mv_low a, mv_high a)"

lemma mv_lane_round:
  assumes "irreflp rel" "k * nv + nv \<le> length xs" "nv * n \<le> length srt" "mv_high a \<le> n" "0 < nv"
    and srt: "length srt div nv = n"
  shows "lohi (mv_halve upper (mv_flagged rel nv srt xs nv k (mv_start a)))
    = bstep (mv_left upper rel) (rows nv srt) (row nv xs k) (lohi a)"
proof (cases "mv_low a < mv_high a")
  case True
  let ?mid = "(mv_low a + mv_high a) div 2"
  have mid: "?mid < length srt div nv" using True assms by linarith
  then have fits: "?mid * nv + nv \<le> length srt" by (rule row_fits)
  have "length (row nv xs k) = length (row nv srt ?mid)" using assms fits by simp
  from col_flags_lex [OF this assms(1)] show ?thesis
    using True mid fits assms(2)
    by (auto simp: mv_halve_def mv_flagged_def mv_start_def bstep_def Let_def mv_left_def nth_rows)
qed (simp add: mv_halve_def mv_flagged_def mv_start_def bstep_def)

lemma mv_round_ok:
  assumes "irreflp rel" "length lanes * nv \<le> length xs" "0 < nv" "n = length srt div nv"
    and high: "\<And>a. a \<in> set lanes \<Longrightarrow> mv_high a \<le> n"
  shows "ok (mv_round upper rel srt xs nv lanes) (\<lambda>lanes'. length lanes' = length lanes \<and>
    (\<forall>k<length lanes. lohi (lanes' ! k) = bstep (mv_left upper rel) (rows nv srt) (row nv xs k) (lohi (lanes ! k))))"
proof -
  have xs: "k * nv + nv \<le> length xs" if "k < length lanes" for k
  proof -
    have "Suc k * nv \<le> length lanes * nv" using that by (intro mult_le_mono1) simp
    then show ?thesis using assms(2) by simp
  qed
  have "mv_mid a * nv + nv \<le> length srt" if a: "a \<in> set (map mv_start lanes)" "mv_low a < mv_high a" for a
  proof -
    obtain b where b: "b \<in> set lanes" "a = mv_start b" using a by auto
    have "mv_mid a < n" using high [OF b(1)] b(2) a(2) by (simp add: mv_start_def split: if_splits)
    then show ?thesis using assms(4) by (intro row_fits) simp
  qed
  then have "mv_round upper rel srt xs nv lanes
    = Some (map (mv_halve upper) (map (\<lambda>(k, a). mv_flagged rel nv srt xs nv k a) (enumerate 0 (map mv_start lanes))))"
    unfolding mv_round_def Let_def by (subst mv_columns) (use assms in simp_all)
  moreover have "nv * n \<le> length srt" using assms(4) by simp
  ultimately show ?thesis
    using mv_lane_round [OF assms(1) xs _ _ assms(3) assms(4) [symmetric]] high
    by (simp add: nth_enumerate_eq)
qed

lemma mv_block_ok:
  assumes "irreflp rel" "length lanes * nv \<le> length xs" "0 < nv" "n = length srt div nv"
  shows "ok (mv_block upper rel srt n xs nv lanes) (\<lambda>lanes'. length lanes' = length lanes \<and>
    map mv_low lanes' = map (\<lambda>k. search1 (mv_left upper rel) (rows nv srt) (row nv xs k)) [0..<length lanes])"
proof -
  define step where "step j k = (bstep (mv_left upper rel) (rows nv srt) (row nv xs k) ^^ j) (0, n)" for j k
  have step0: "step 0 k = (0, n)" and stepS: "step (Suc j) k = bstep (mv_left upper rel) (rows nv srt) (row nv xs k) (step j k)"
    and step_le: "snd (step j k) \<le> n" and step_fst: "fst (step (max_iter n) k) = search1 (mv_left upper rel) (rows nv srt) (row nv xs k)"
    for j k
    using bsteps_range [where j = j and n = n and left = "mv_left upper rel" and srt = "rows nv srt" and v = "row nv xs k"]
    by (simp_all add: step_def search1_def assms(4))
  define I where "I j st \<longleftrightarrow> length st = length lanes \<and> (\<forall>k<length lanes. lohi (st ! k) = step j k)" for j st
  have "ok (mv_block upper rel srt n xs nv lanes) (I (max_iter n))"
    unfolding mv_block_def
  proof (rule ok_for_range [where I = I])
    show "I 0 (map (\<lambda>a. a\<lparr>mv_low := 0, mv_high := n\<rparr>) lanes)" by (simp add: I_def step0)
    fix j st
    assume st: "I j st"
    have "mv_high a \<le> n" if "a \<in> set st" for a
    proof -
      obtain k where k: "k < length lanes" "a = st ! k" using \<open>a \<in> set st\<close> st by (metis I_def in_set_conv_nth)
      then have "lohi a = step j k" using st by (simp add: I_def)
      then show ?thesis using step_le [of j k] by (metis snd_conv)
    qed
    moreover have "length st * nv \<le> length xs" using st assms(2) by (simp add: I_def)
    ultimately have "ok (mv_round upper rel srt xs nv st) (\<lambda>st'. length st' = length st \<and>
       (\<forall>k<length st. lohi (st' ! k) = bstep (mv_left upper rel) (rows nv srt) (row nv xs k) (lohi (st ! k))))"
      using assms by (intro mv_round_ok)
    then show "ok (mv_round upper rel srt xs nv st) (I (Suc j))"
      by (rule ok_mono) (use st in \<open>auto simp: I_def stepS\<close>)
  qed simp
  then show ?thesis
  proof (rule ok_mono)
    fix st
    assume st: "I (max_iter n) st"
    have "mv_low (st ! k) = fst (step (max_iter n) k)" if "k < length lanes" for k
      using st that by (metis I_def fst_conv)
    then show "length st = length lanes \<and>
      map mv_low st = map (\<lambda>k. search1 (mv_left upper rel) (rows nv srt) (row nv xs k)) [0..<length lanes]"
      using st by (auto intro!: nth_equalityI simp: I_def step_fst)
  qed
qed

lemma row_of_block:
  assumes "k < l"
  shows "row nv (take (l * nv) (drop (a * nv) xs)) k = row nv xs (a + k)"
proof -
  have "Suc k * nv \<le> l * nv" using assms by (intro mult_le_mono1) simp
  then have "min nv (l * nv - k * nv) = nv" by simp
  then show ?thesis by (simp add: row_def drop_take add.commute distrib_right)
qed

lemma mv_block_rows:
  assumes "irreflp rel" "0 < nv" "length srt = n * nv" "length to_find = m * nv"
    and al: "a + l \<le> m" and l: "length lanes = l"
  shows "ok (mv_block upper rel srt n (take (l * nv) (drop (a * nv) to_find)) nv lanes) (\<lambda>lanes'. length lanes' = l \<and>
      map mv_low lanes' = take l (drop a (map (search1 (mv_left upper rel) (rows nv srt)) (rows nv to_find))))"
proof -
  have "a * nv + l * nv \<le> length to_find"
    using mult_le_mono1 [OF al, of nv] assms(4) by (simp add: distrib_right)
  then have len: "length lanes * nv \<le> length (take (l * nv) (drop (a * nv) to_find))" using l by simp
  have part: "map (\<lambda>k. search1 (mv_left upper rel) (rows nv srt) (row nv (take (l * nv) (drop (a * nv) to_find)) k)) [0..<l]
      = take l (drop a (map (search1 (mv_left upper rel) (rows nv srt)) (rows nv to_find)))"
    using al assms(2,4) by (intro nth_equalityI) (simp_all add: row_of_block nth_rows)
  have "n = length srt div nv" using assms(2,3) by simp
  from mv_block_ok [OF assms(1) len assms(2) this, of upper] show ?thesis unfolding l part .
qed

lemma copy_result:
  assumes "a + l \<le> length res" "length ret = length res"
  shows "copy_cells (take l (drop a res)) 0 (take a res @ drop a ret) a l
      = Some (take (a + l) res @ drop (a + l) ret)"
  using assms by (subst copy_cells_eq) (auto simp: take_add min_def add.commute)

lemma mv_body_ok:
  assumes "irreflp rel" "0 < nv" "length srt = n * nv" "length to_find = m * nv" "length ret = m"
    and i: "i < m div VLEN" and lanes: "length lanes = VLEN"
    and res: "res = map (search1 (mv_left upper rel) (rows nv srt)) (rows nv to_find)"
  shows "ok (mv_body VLEN upper rel srt n to_find nv i (lanes, take (i * VLEN) res @ drop (i * VLEN) ret))
    (\<lambda>(lanes', ret'). length lanes' = VLEN \<and> ret' = take (Suc i * VLEN) res @ drop (Suc i * VLEN) ret)"
proof -
  define a where "a = i * VLEN"
  have vl: "a + VLEN \<le> m" using row_fits [of i "replicate m ()" VLEN] i by (simp add: a_def)
  have len: "length res = m" using assms(2,4) by (simp add: res)
  obtain lanes' where
    1: "mv_block upper rel srt n (take (VLEN * nv) (drop (a * nv) to_find)) nv lanes = Some lanes'"
    "length lanes' = VLEN" "map mv_low lanes' = take VLEN (drop a res)"
    using mv_block_rows [OF assms(1-4) vl lanes, of upper] unfolding res ok_iff_ex by blast
  have 2: "a * nv + VLEN * nv \<le> length to_find"
    using mult_le_mono1 [OF vl, of nv] assms(4) by (simp add: distrib_right)
  have 3: "copy_cells (take VLEN (drop a res)) 0 (take a res @ drop a ret) a VLEN
      = Some (take (a + VLEN) res @ drop (a + VLEN) ret)"
    using vl len assms(5) by (intro copy_result) simp_all
  have 4: "Suc i * VLEN = a + VLEN" by (simp add: a_def)
  show ?thesis
    unfolding mv_body_def Let_def split 4 a_def [symmetric] using 1 2 3 by simp
qed

lemma mv_search_ok:
  assumes "irreflp rel" "0 < VLEN" "0 < nv" "length srt = n * nv" "length to_find = m * nv" "length ret = m"
  shows "mv_bound VLEN upper rel srt n to_find m nv ret
    = Some (map (search1 (mv_left upper rel) (rows nv srt)) (rows nv to_find))"
proof -
  define res where "res = map (search1 (mv_left upper rel) (rows nv srt)) (rows nv to_find)"
  have len: "length res = m" using assms by (simp add: res_def)
  let ?I = "\<lambda>i (lanes, r). length lanes = VLEN \<and> r = take (i * VLEN) res @ drop (i * VLEN) ret"
  have "ok (for_each (mv_body VLEN upper rel srt n to_find nv) [0..<m div VLEN] (replicate VLEN mv_lane0, ret))
    (?I (m div VLEN))"
    by (rule ok_for_range [where I = ?I])
      (auto simp del: mult_Suc intro!: mv_body_ok [OF assms(1,3,4,5,6) _ _ res_def])
  then obtain lanes where 1: "for_each (mv_body VLEN upper rel srt n to_find nv) [0..<m div VLEN]
      (replicate VLEN mv_lane0, ret) = Some (lanes, take (m div VLEN * VLEN) res @ drop (m div VLEN * VLEN) ret)"
    by (auto simp: ok_iff_ex)
  have rest: "m div VLEN * VLEN + m mod VLEN = m" by simp
  define a l where "a = m div VLEN * VLEN" and "l = m mod VLEN"
  have al: "a + l = m" using rest by (simp add: a_def l_def)
  from mv_block_rows [OF assms(1,3,4,5), of a l "replicate l mv_lane0" upper] al obtain lanes2 where
    2: "mv_block upper rel srt n (take (l * nv) (drop (a * nv) to_find)) nv (replicate l mv_lane0) = Some lanes2"
      "map mv_low lanes2 = take l (drop a res)"
    by (auto simp: ok_iff_ex res_def)
  have 3: "copy_cells (take l (drop a res)) 0 (take a res @ drop a ret) a l = Some res"
    using copy_result [of a l res ret] al len assms(6) by simp
  have "a * nv + l * nv \<le> length to_find"
    using al assms(5) by (metis distrib_right order_refl)
  then show ?thesis
    unfolding mv_bound_def Let_def 1 a_def [symmetric] l_def [symmetric]
    by (simp add: 2 3 flip: res_def)
qed

subsection \<open>Properties\<close>

lemma transp_less [simp]: "transp ((<) :: 'a::linorder \<Rightarrow> 'a \<Rightarrow> bool)"
  "transp ((>) :: 'a::linorder \<Rightarrow> 'a \<Rightarrow> bool)"
  by (auto simp: transp_def)

lemma irreflp_less: "irreflp ((<) :: 'a::linorder \<Rightarrow> 'a \<Rightarrow> bool)" "irreflp ((>) :: 'a::linorder \<Rightarrow> 'a \<Rightarrow> bool)"
  by (auto simp: irreflp_def)

interpretation mvl: bisect "mv_left False ((<) :: 'a::linorder \<Rightarrow> 'a \<Rightarrow> bool)" "lex_le (<)"
  by unfold_locales (auto simp: mv_left_def intro: lex_le_trans)

interpretation mvl_desc: bisect "mv_left False ((>) :: 'a::linorder \<Rightarrow> 'a \<Rightarrow> bool)" "lex_le (>)"
  by unfold_locales (auto simp: mv_left_def intro: lex_le_trans)

text \<open>The upper searches compare the other way round, which on rows of one length is the converse.\<close>

interpretation mvu: bisect "\<lambda>v x. \<not> lex_le ((<) :: 'a::linorder \<Rightarrow> 'a \<Rightarrow> bool) x v" "lex_le (<)"
  by unfold_locales (auto intro: lex_le_trans)

interpretation mvu_desc: bisect "\<lambda>v x. \<not> lex_le ((>) :: 'a::linorder \<Rightarrow> 'a \<Rightarrow> bool) x v" "lex_le (>)"
  by unfold_locales (auto intro: lex_le_trans)

lemma bsteps_cong:
  assumes "\<And>x. x \<in> set srt \<Longrightarrow> left v x = left' v x"
  shows "(bstep left srt v ^^ j) (0, length srt) = (bstep left' srt v ^^ j) (0, length srt)"
proof (induction j)
  case (Suc j)
  let ?lh = "(bstep left' srt v ^^ j) (0, length srt)"
  have r: "snd ?lh \<le> length srt"
    using bsteps_range [where j = j and n = "length srt" and left = left' and srt = srt and v = v] by simp
  have "bstep left srt v ?lh = bstep left' srt v ?lh"
  proof (cases "fst ?lh < snd ?lh")
    case True
    then have "srt ! ((fst ?lh + snd ?lh) div 2) \<in> set srt" using r by (intro nth_mem) linarith
    from assms [OF this] show ?thesis by (simp add: bstep_def Let_def case_prod_beta)
  qed (simp add: bstep_def Let_def case_prod_beta)
  then show ?case using Suc by simp
qed simp

lemma search1_cong:
  "(\<And>x. x \<in> set srt \<Longrightarrow> left v x = left' v x) \<Longrightarrow> search1 left srt v = search1 left' srt v"
  using bsteps_cong [of srt left v left'] by (simp add: search1_def)

lemma mvu_search1:
  assumes "v \<in> set (rows nv tf)"
  shows "search1 (mv_left True (\<lambda>v x. rel x v)) (rows nv srt) v = search1 (\<lambda>v x. \<not> lex_le rel x v) (rows nv srt) v"
proof (rule search1_cong)
  fix x assume "x \<in> set (rows nv srt)"
  then have "length x = length v" using assms by (simp add: length_in_rows)
  then show "mv_left True (\<lambda>v x. rel x v) v x = (\<not> lex_le rel x v)"
    using lex_le_converse [of x v rel] by (simp add: mv_left_def)
qed

lemma mv_bound_vec_eq:
  assumes "irreflp rel" "0 < VLEN" "0 < nv" "length srt mod nv = 0" "length to_find mod nv = 0"
  shows "mv_bound_vec (mv_bound VLEN upper rel) e srt to_find nv
    = Some (Inr (map (search1 (mv_left upper rel) (rows nv srt)) (rows nv to_find)))"
proof (cases "to_find = [] \<or> srt = []")
  case True
  have "(bstep (mv_left upper rel) [] v ^^ j) (0, 0) = (0, 0)" for v j
    by (induction j) (simp_all add: bstep_def)
  then have "search1 (mv_left upper rel) [] v = 0" for v by (simp add: search1_def)
  then show ?thesis using True assms by (auto simp: mv_bound_vec_def Let_def rows_def comp_def map_replicate_const)
next
  case False
  have "length srt = length srt div nv * nv" "length to_find = length to_find div nv * nv"
    using assms(4,5) by (simp_all add: minus_mod_eq_div_mult [symmetric])
  from mv_search_ok [OF assms(1-3) this, of "replicate (length to_find div nv) 0" upper] False show ?thesis
    using assms by (simp add: mv_bound_vec_def)
qed

lemma takeWhile_lex:
  assumes "sorted_wrt (lex_le rel) rs" "transp rel"
  shows "takeWhile (\<lambda>r. \<not> lex_le rel v r) rs = filter (\<lambda>r. \<not> lex_le rel v r) rs"
    and "takeWhile (\<lambda>r. lex_le rel r v) rs = filter (\<lambda>r. lex_le rel r v) rs"
  using sorted_takeWhile_filter [OF assms(1), of "\<lambda>r. \<not> lex_le rel v r"]
    sorted_takeWhile_filter [OF assms(1), of "\<lambda>r. lex_le rel r v"] lex_le_trans [OF assms(2)] by blast+

text \<open>C11. The searches of rows (core/multivalue_lower_bound.hpp, core/multivalue_upper_bound.hpp): where
  the sizes are multiples of num_values and the rows of the first vector are sorted
  lexicographically, the column-by-column flags and the fixed number of rounds give, for every row
  searched, the number of rows that come before it (lower), and the number of rows that do not come
  after it (upper).\<close>
theorem multivalue_bound_count:
  assumes "0 < VLEN" "0 < nv" "length srt mod nv = 0" "length to_find mod nv = 0"
    and srt: "sorted_wrt (lex_le (<)) (rows nv srt)"
  shows "multivalue_lower_bound_vec VLEN srt to_find nv
      = Some (Inr (map (\<lambda>v. length (filter (\<lambda>r. \<not> lex_le (<) v r) (rows nv srt))) (rows nv to_find))) \<and>
    multivalue_upper_bound_vec VLEN srt to_find nv
      = Some (Inr (map (\<lambda>v. length (filter (\<lambda>r. lex_le (<) r v) (rows nv srt))) (rows nv to_find)))"
  using assms irreflp_less
  by (simp add: multivalue_lower_bound_vec_def multivalue_upper_bound_vec_def multivalue_lower_bound_def
      multivalue_upper_bound_def mv_bound_vec_eq mvl.search1_split mvu_search1 mvu.search1_split
      takeWhile_lex [OF srt, simplified] mv_left_def [where upper = False] cong: map_cong)

theorem multivalue_bound_count_witness:
  "multivalue_lower_bound_vec mv_bound_vlen_x86 [1,5, 2,0, 2,0, 2,7 :: nat] [2,0, 2,3, 0,9, 9,9, 1,5] 2
     = Some (Inr [1, 3, 0, 4, 0]) \<and>
   multivalue_upper_bound_vec mv_bound_vlen_x86 [1,5, 2,0, 2,0, 2,7 :: nat] [2,0, 2,3, 0,9, 9,9, 1,5] 2
     = Some (Inr [3, 3, 0, 4, 1])"
  using multivalue_bound_count [of mv_bound_vlen_x86 2 "[1,5, 2,0, 2,0, 2,7 :: nat]" "[2,0, 2,3, 0,9, 9,9, 1,5]"]
  by (simp add: mv_bound_vlen_x86_def rows_def row_def upt_rec)

text \<open>The descending searches of rows, on rows sorted the other way, and the exception: a size that
  is no multiple of num_values is reported and nothing is searched.\<close>
theorem multivalue_bound_desc_count:
  assumes "0 < VLEN" "0 < nv" and srt: "sorted_wrt (lex_le (>)) (rows nv srt)"
  shows "multivalue_lower_bound_desc_vec VLEN srt to_find nv = Some
      (if length srt mod nv = 0 \<and> length to_find mod nv = 0
       then Inr (map (\<lambda>v. length (filter (\<lambda>r. \<not> lex_le (>) v r) (rows nv srt))) (rows nv to_find))
       else Inl ''multivalue_lower_bound_desc: wrong num_values'') \<and>
    multivalue_upper_bound_desc_vec VLEN srt to_find nv = Some
      (if length srt mod nv = 0 \<and> length to_find mod nv = 0
       then Inr (map (\<lambda>v. length (filter (\<lambda>r. lex_le (>) r v) (rows nv srt))) (rows nv to_find))
       else Inl ''multivalue_upper_bound_desc: wrong num_values'')"
proof (cases "length srt mod nv = 0 \<and> length to_find mod nv = 0")
  case True
  then show ?thesis using assms irreflp_less
    by (simp add: multivalue_lower_bound_desc_vec_def multivalue_upper_bound_desc_vec_def
        multivalue_lower_bound_desc_def multivalue_upper_bound_desc_def mv_bound_vec_eq
        mvl_desc.search1_split mvu_search1 [where rel = "(>)"] mvu_desc.search1_split
        takeWhile_lex [OF srt, simplified] mv_left_def [where upper = False] cong: map_cong)
next
  case False
  then show ?thesis using assms(2)
    by (auto simp: multivalue_lower_bound_desc_vec_def multivalue_upper_bound_desc_vec_def mv_bound_vec_def)
qed

theorem multivalue_bound_desc_count_witness:
  "multivalue_lower_bound_desc_vec mv_bound_vlen_x86 [2,7, 2,0, 2,0, 1,5 :: nat] [2,0, 2,3, 0,9] 2
     = Some (Inr [1, 1, 4]) \<and>
   multivalue_upper_bound_desc_vec mv_bound_vlen_x86 [2,7, 2,0, 2,0, 1,5 :: nat] [2,0, 2,3, 0,9] 2
     = Some (Inr [3, 1, 4])"
  using multivalue_bound_desc_count [of mv_bound_vlen_x86 2 "[2,7, 2,0, 2,0, 1,5 :: nat]" "[2,0, 2,3, 0,9]"]
  by (simp add: mv_bound_vlen_x86_def rows_def row_def upt_rec)

end
