(* ===== verification/MultiRadix.thy ===== *)
theory MultiRadix
  imports RadixKeys MultiBounds "HOL-Library.List_Lexorder"
begin

text \<open>
  core/multivalue_radix_sort.hpp and core/multivalue_utility.hpp: the sort of rows of
  \<open>num_values\<close> keys.  The indices of the rows are sorted by one column after the other, from the last
  to the first, with the stable sort of radix_sort.hpp; rows and values are moved at the end.
\<close>

subsection \<open>The code\<close>

definition multivalue_extract :: "'a list \<Rightarrow> nat list \<Rightarrow> nat \<Rightarrow> nat \<Rightarrow> 'a list \<Rightarrow> 'a list option" where
  "multivalue_extract valp idxp idx_size num_values retp =
     for_each (\<lambda>i. for_each (\<lambda>j retp. do {
         p \<leftarrow> rd idxp j;
         x \<leftarrow> rd valp (p * num_values + i);
         wr retp (j * num_values + i) x }) [0..<idx_size]) [0..<num_values] retp"

definition multivalue_extract_vec :: "'a::zero list \<Rightarrow> nat list \<Rightarrow> nat \<Rightarrow> (string + 'a list) option" where
  "multivalue_extract_vec val idx num_values =
     (if num_values = 0 then None
      else if length val mod num_values \<noteq> 0 then Some (Inl ''multivalue_extract: wrong num_values'')
      else do {
        ret \<leftarrow> multivalue_extract val idx (length idx) num_values (replicate (length idx * num_values) 0);
        Some (Inr ret) })"

text \<open>One column: gather the keys of the column in the current order, sort the indices by them.\<close>

definition mv_sort_column ::
  "(('w::len word \<times> nat) list \<Rightarrow> bool \<Rightarrow> ('w word \<times> nat) list option) \<Rightarrow> 'w word list \<Rightarrow> nat \<Rightarrow> nat \<Rightarrow> bool \<Rightarrow>
   nat \<Rightarrow> nat list \<Rightarrow> nat list option" where
  "mv_sort_column sorter key_array n num_values positive_only i idx = do {
     tmp_key \<leftarrow> omap (\<lambda>j. do { p \<leftarrow> rd idx j; rd key_array (p * num_values + (num_values - i - 1)) }) [0..<n];
     r \<leftarrow> sorter (zip tmp_key idx) positive_only;
     Some (map snd r) }"

definition mv_sort_order ::
  "(('w::len word \<times> nat) list \<Rightarrow> bool \<Rightarrow> ('w word \<times> nat) list option) \<Rightarrow> 'w word list \<Rightarrow> nat \<Rightarrow> nat \<Rightarrow> bool \<Rightarrow> nat list option" where
  "mv_sort_order sorter key_array n num_values positive_only =
     for_each (mv_sort_column sorter key_array n num_values positive_only) [0..<num_values] [0..<n]"

definition mv_move_rows :: "'w::len word list \<Rightarrow> nat list \<Rightarrow> nat \<Rightarrow> nat \<Rightarrow> 'w word list option" where
  "mv_move_rows key_array idx n num_values = do {
     tmp_ret \<leftarrow> multivalue_extract key_array idx n num_values (replicate (n * num_values) 0);
     copy_cells tmp_ret 0 key_array 0 (n * num_values) }"

definition multivalue_radix_sort_on ::
  "(('w::len word \<times> nat) list \<Rightarrow> bool \<Rightarrow> ('w word \<times> nat) list option) \<Rightarrow>
   'w word list \<Rightarrow> 'v list \<Rightarrow> nat \<Rightarrow> nat \<Rightarrow> bool \<Rightarrow> ('w word list \<times> 'v list) option" where
  "multivalue_radix_sort_on sorter key_array val_array n num_values positive_only = do {
     idx \<leftarrow> mv_sort_order sorter key_array n num_values positive_only;
     tmp_val \<leftarrow> omap (\<lambda>i. do { p \<leftarrow> rd idx i; rd val_array p }) [0..<n];
     val_array \<leftarrow> copy_cells tmp_val 0 val_array 0 n;
     key_array \<leftarrow> mv_move_rows key_array idx n num_values;
     Some (key_array, val_array) }"

definition multivalue_radix_sort ::
  "radix_cfg \<Rightarrow> bool \<Rightarrow> 'w::len word list \<Rightarrow> 'v list \<Rightarrow> nat \<Rightarrow> nat \<Rightarrow> bool \<Rightarrow> ('w word list \<times> 'v list) option" where
  "multivalue_radix_sort c sg = multivalue_radix_sort_on (radix_sort c sg)"

definition multivalue_radix_sort_desc ::
  "radix_cfg \<Rightarrow> bool \<Rightarrow> 'w::len word list \<Rightarrow> 'v list \<Rightarrow> nat \<Rightarrow> nat \<Rightarrow> bool \<Rightarrow> ('w word list \<times> 'v list) option" where
  "multivalue_radix_sort_desc c sg = multivalue_radix_sort_on (radix_sort_desc c sg)"

definition multivalue_radix_sort_keys ::
  "radix_cfg \<Rightarrow> bool \<Rightarrow> 'w::len word list \<Rightarrow> nat \<Rightarrow> nat \<Rightarrow> bool \<Rightarrow> 'w word list option" where
  "multivalue_radix_sort_keys c sg key_array n num_values positive_only = do {
     idx \<leftarrow> mv_sort_order (radix_sort c sg) key_array n num_values positive_only;
     mv_move_rows key_array idx n num_values }"

definition multivalue_radix_sort_keys_desc ::
  "radix_cfg \<Rightarrow> bool \<Rightarrow> 'w::len word list \<Rightarrow> nat \<Rightarrow> nat \<Rightarrow> bool \<Rightarrow> 'w word list option" where
  "multivalue_radix_sort_keys_desc c sg key_array n num_values positive_only = do {
     idx \<leftarrow> mv_sort_order (radix_sort_desc c sg) key_array n num_values positive_only;
     mv_move_rows key_array idx n num_values }"

text \<open>The overloads on vectors: both exceptions, and \<open>None\<close> for the division by a \<open>num_values\<close> of 0.\<close>

definition mv_radix_check :: "'w::len word list \<Rightarrow> 'v list \<Rightarrow> nat \<Rightarrow> string option" where
  "mv_radix_check key_array val_array num_values =
     (if length key_array div num_values \<noteq> length val_array then Some ''multivalue_radix_sort: different size of arrays''
      else if length key_array mod num_values \<noteq> 0 then Some ''multivalue_radix_sort: wrong num_values''
      else None)"

definition multivalue_radix_sort_vec ::
  "radix_cfg \<Rightarrow> bool \<Rightarrow> 'w::len word list \<Rightarrow> 'v list \<Rightarrow> nat \<Rightarrow> bool \<Rightarrow> (string + 'w word list \<times> 'v list) option" where
  "multivalue_radix_sort_vec c sg key_array val_array num_values positive_only =
     (if num_values = 0 then None
      else case mv_radix_check key_array val_array num_values of
        Some e \<Rightarrow> Some (Inl e)
      | None \<Rightarrow> do {
          r \<leftarrow> multivalue_radix_sort c sg key_array val_array (length key_array div num_values) num_values positive_only;
          Some (Inr r) })"

definition multivalue_radix_sort_desc_vec ::
  "radix_cfg \<Rightarrow> bool \<Rightarrow> 'w::len word list \<Rightarrow> 'v list \<Rightarrow> nat \<Rightarrow> bool \<Rightarrow> (string + 'w word list \<times> 'v list) option" where
  "multivalue_radix_sort_desc_vec c sg key_array val_array num_values positive_only =
     (if num_values = 0 then None
      else case mv_radix_check key_array val_array num_values of
        Some e \<Rightarrow> Some (Inl e)
      | None \<Rightarrow> do {
          r \<leftarrow> multivalue_radix_sort_desc c sg key_array val_array (length key_array div num_values) num_values positive_only;
          Some (Inr r) })"

definition multivalue_radix_sort_keys_vec ::
  "radix_cfg \<Rightarrow> bool \<Rightarrow> 'w::len word list \<Rightarrow> nat \<Rightarrow> bool \<Rightarrow> (string + 'w word list) option" where
  "multivalue_radix_sort_keys_vec c sg key_array num_values positive_only =
     (if num_values = 0 then None
      else if length key_array mod num_values \<noteq> 0 then Some (Inl ''multivalue_radix_sort: wrong num_values'')
      else do {
        r \<leftarrow> multivalue_radix_sort_keys c sg key_array (length key_array div num_values) num_values positive_only;
        Some (Inr r) })"

definition multivalue_radix_sort_keys_desc_vec ::
  "radix_cfg \<Rightarrow> bool \<Rightarrow> 'w::len word list \<Rightarrow> nat \<Rightarrow> bool \<Rightarrow> (string + 'w word list) option" where
  "multivalue_radix_sort_keys_desc_vec c sg key_array num_values positive_only =
     (if num_values = 0 then None
      else if length key_array mod num_values \<noteq> 0 then Some (Inl ''multivalue_radix_sort: wrong num_values'')
      else do {
        r \<leftarrow> multivalue_radix_sort_keys_desc c sg key_array (length key_array div num_values) num_values positive_only;
        Some (Inr r) })"

subsection \<open>Moving rows\<close>

text \<open>Cell \<open>j * nv + i\<close> of the extracted rows; the loops fill column after column.\<close>

lemma row_cell: "j < n \<Longrightarrow> i < nv \<Longrightarrow> j * nv + i < n * (nv :: nat)"
proof -
  assume ji: "j < n" "i < nv"
  have "j * nv + i < Suc j * nv" using ji by simp
  also have "\<dots> \<le> n * nv" using ji by (intro mult_le_mono1) simp
  finally show ?thesis .
qed

lemma row_cell_inj: "i < nv \<Longrightarrow> i' < nv \<Longrightarrow> j * nv + i = j' * nv + i' \<longleftrightarrow> j = j' \<and> i = (i' :: nat)"
proof
  assume ii: "i < nv" "i' < nv" and eq: "j * nv + i = j' * nv + i'"
  have "(j * nv + i) div nv = (j' * nv + i') div nv" "(j * nv + i) mod nv = (j' * nv + i') mod nv" using eq by simp_all
  then show "j = j' \<and> i = i'" using ii by simp
qed simp

lemma multivalue_extract_eq:
  assumes "\<forall>p\<in>set idx. p * nv + nv \<le> length vals" "length ret = length idx * nv"
  shows "multivalue_extract vals idx (length idx) nv ret
    = Some (concat (map (\<lambda>p. take nv (drop (p * nv) vals)) idx))"
proof -
  define n where "n = length idx"
  define I where "I = (\<lambda>i j r. length r = n * nv \<and> (\<forall>j'<n. \<forall>i'<nv. i' < i \<or> i' = i \<and> j' < j \<longrightarrow>
    r ! (j' * nv + i') = vals ! (idx ! j' * nv + i')))"
  have step: "ok (do { p \<leftarrow> rd idx j; x \<leftarrow> rd vals (p * nv + i); wr r (j * nv + i) x }) (I i (Suc j))"
    if ij: "i < nv" "j < n" and I: "I i j r" for i j r
  proof -
    have "idx ! j \<in> set idx" using ij by (simp add: n_def)
    then have "idx ! j * nv + i < length vals" using assms(1) ij by fastforce
    then show ?thesis
      using I ij row_cell [of j n i nv]
      by (auto simp: ok_simps I_def n_def [symmetric] nth_list_update row_cell_inj less_Suc_eq)
  qed
  have "ok (multivalue_extract vals idx n nv ret) (I nv 0)"
    unfolding multivalue_extract_def
  proof (rule ok_for_range [where I = "\<lambda>i. I i 0"])
    show "I 0 0 ret" using assms(2) by (simp add: I_def n_def)
    fix i r assume i: "i < nv" "I i 0 r"
    have "ok (for_each (\<lambda>j r. do { p \<leftarrow> rd idx j; x \<leftarrow> rd vals (p * nv + i); wr r (j * nv + i) x }) [0..<n] r) (I i n)"
      by (rule ok_for_range) (use i step in auto)
    then show "ok (for_each (\<lambda>j r. do { p \<leftarrow> rd idx j; x \<leftarrow> rd vals (p * nv + i); wr r (j * nv + i) x }) [0..<n] r) (I (Suc i) 0)"
      by (rule ok_mono) (auto simp: I_def less_Suc_eq)
  qed simp
  then obtain r where r: "multivalue_extract vals idx n nv ret = Some r" "length r = n * nv"
    "\<And>j i. j < n \<Longrightarrow> i < nv \<Longrightarrow> r ! (j * nv + i) = vals ! (idx ! j * nv + i)"
    by (auto simp: ok_iff_ex I_def)
  have "concat (map (\<lambda>p. take nv (drop (p * nv) vals)) idx) = r"
  proof -
    have "take (j * nv) r = concat (map (\<lambda>p. take nv (drop (p * nv) vals)) (take j idx))" if "j \<le> n" for j
      using that
    proof (induction j)
      case (Suc j)
      have p: "idx ! j * nv + nv \<le> length vals" using assms(1) Suc.prems by (simp add: n_def)
      have le: "j * nv + nv \<le> length r" using mult_le_mono1 [OF Suc.prems, of nv] r(2) by simp
      have "take nv (drop (j * nv) r) = take nv (drop (idx ! j * nv) vals)"
        by (rule nth_equalityI) (use le p r(3) [of j] Suc.prems in auto)
      moreover have "take (Suc j * nv) r = take (j * nv) r @ take nv (drop (j * nv) r)"
        by (simp only: mult_Suc add.commute [of nv] take_add)
      ultimately show ?case using Suc by (simp add: take_Suc_conv_app_nth n_def)
    qed simp
    from this [of n] show ?thesis using r(2) by (simp add: n_def)
  qed
  then show ?thesis using r(1) by (simp add: n_def)
qed


subsection \<open>Sorting rows\<close>

text \<open>What the sort of a column has to be: stable, and by a value of the key.\<close>

locale column_sorter =
  fixes sorter :: "('w::len word \<times> nat) list \<Rightarrow> bool \<Rightarrow> ('w word \<times> nat) list option"
    and sg :: bool and val :: "'w word \<Rightarrow> int"
  assumes sorts: "LENGTH('w) = 32 \<or> LENGTH('w) = 64 \<Longrightarrow>
    (positive_only \<longrightarrow> (\<forall>x\<in>set xs. 0 \<le> key_val sg (fst x))) \<Longrightarrow>
    sorter xs positive_only = Some (sort_key (\<lambda>x. val (fst x)) xs)"
begin

lemma order_eq:
  assumes len: "LENGTH('w) = 32 \<or> LENGTH('w) = 64" and keys: "length keys = n * nv"
    and pos: "positive_only \<longrightarrow> (\<forall>k\<in>set keys. 0 \<le> key_val sg k)"
  shows "mv_sort_order sorter keys n nv positive_only = Some (sort_key (\<lambda>p. map val (row nv keys p)) [0..<n])"
proof -
  define I where "I = (\<lambda>i idx. idx = sort_key (\<lambda>p. map val (drop (nv - i) (row nv keys p))) [0..<n])"
  have "ok (mv_sort_order sorter keys n nv positive_only) (I nv)"
    unfolding mv_sort_order_def
  proof (rule ok_for_range [where I = I])
    show "I 0 [0..<n]" by (simp add: I_def row_def sort_key_const)
    fix i idx assume i: "i < nv" and I: "I i idx"
    have set: "set idx = {..<n}" "length idx = n" using I by (auto simp: I_def)
    define F where "F = (\<lambda>p. keys ! (p * nv + (nv - i - 1)))"
    have cell: "p * nv + (nv - i - 1) < length keys" if "p < n" for p
      unfolding keys by (rule row_cell) (use that i in simp_all)
    have gather: "omap (\<lambda>j. do { p \<leftarrow> rd idx j; rd keys (p * nv + (nv - i - 1)) }) [0..<n] = Some (map F idx)"
    proof -
      have "idx ! j < n" if "j < n" for j using that set nth_mem [of j idx] by auto
      then have "omap (\<lambda>j. do { p \<leftarrow> rd idx j; rd keys (p * nv + (nv - i - 1)) }) [0..<n] = Some (map (\<lambda>j. F (idx ! j)) [0..<n])"
        using cell set(2) by (intro omap_Some) (simp add: F_def)
      also have "map (\<lambda>j. F (idx ! j)) [0..<n] = map F idx" using set(2) by (auto intro: nth_equalityI)
      finally show ?thesis .
    qed
    have zip: "zip (map F idx) idx = map (\<lambda>p. (F p, p)) idx" by (induction idx) simp_all
    have "F p \<in> set keys" if "p < n" for p using cell [OF that] by (simp add: F_def)
    then have "sorter (zip (map F idx) idx) positive_only = Some (sort_key (\<lambda>x. val (fst x)) (zip (map F idx) idx))"
      using pos set(1) by (intro sorts [OF len]) (auto simp: zip)
    also have "\<dots> = Some (map (\<lambda>p. (F p, p)) (sort_key (\<lambda>p. val (F p)) idx))"
      by (simp add: zip sort_key_map)
    finally have col: "mv_sort_column sorter keys n nv positive_only i idx = Some (sort_key (\<lambda>p. val (F p)) idx)"
      using gather by (simp add: mv_sort_column_def o_def)
    have "sort_key (\<lambda>p. val (F p)) idx = sort_key (\<lambda>p. map val (drop (nv - Suc i) (row nv keys p))) [0..<n]"
      unfolding I [unfolded I_def]
    proof (rule sort_key_lex)
      have split: "drop (nv - Suc i) (row nv keys p) = F p # drop (nv - i) (row nv keys p)" if "p < n" for p
      proof -
        have le: "p * nv + nv \<le> length keys" using mult_le_mono1 [of "Suc p" n nv] that by (simp add: keys)
        then have "length (row nv keys p) = nv" "row nv keys p ! (nv - Suc i) = F p"
          using i by (simp_all add: row_def F_def)
        moreover have "Suc (nv - Suc i) = nv - i" using i by simp
        ultimately show ?thesis using i by (metis Cons_nth_drop_Suc diff_less_Suc not_less_eq Suc_le_eq diff_less zero_less_Suc less_nat_zero_code gr0I)
      qed
      fix p q assume "p \<in> set [0..<n]" "q \<in> set [0..<n]"
      then show "map val (drop (nv - Suc i) (row nv keys p)) \<le> map val (drop (nv - Suc i) (row nv keys q)) \<longleftrightarrow>
          val (F p) < val (F q) \<or> val (F p) = val (F q) \<and>
          map val (drop (nv - i) (row nv keys p)) \<le> map val (drop (nv - i) (row nv keys q))"
        by (simp add: split)
    qed
    then show "ok (mv_sort_column sorter keys n nv positive_only i idx) (I (Suc i))"
      by (simp add: col I_def)
  qed simp
  then show ?thesis by (simp add: ok_iff_ex I_def)
qed

lemma move_rows_eq:
  assumes keys: "length keys = n * nv"
  shows "mv_move_rows keys (sort_key f [0..<n]) n nv = Some (concat (map (row nv keys) (sort_key f [0..<n])))"
proof -
  have le: "p * nv + nv \<le> length keys" if "p < n" for p
    using mult_le_mono1 [of "Suc p" n nv] that by (simp add: keys)
  have "multivalue_extract keys (sort_key f [0..<n]) (length (sort_key f [0..<n])) nv (replicate (n * nv) 0)
      = Some (concat (map (row nv keys) (sort_key f [0..<n])))"
    unfolding row_def by (rule multivalue_extract_eq) (auto simp: le)
  moreover have "length (concat (map (row nv keys) (sort_key f [0..<n]))) = n * nv"
  proof -
    have "\<forall>p\<in>set (sort_key f [0..<n]). length (row nv keys p) = nv" using le by auto
    then have "map (length \<circ> row nv keys) (sort_key f [0..<n]) = map (\<lambda>_. nv) (sort_key f [0..<n])" by simp
    then show ?thesis by (simp only: length_concat map_map) (simp add: sum_list_triv)
  qed
  ultimately show ?thesis by (simp add: mv_move_rows_def copy_cells_eq keys)
qed

lemma rows_sorted:
  assumes len: "LENGTH('w) = 32 \<or> LENGTH('w) = 64" and keys: "length keys = n * nv" and vals: "length vals = n" and nv: "0 < nv"
    and pos: "positive_only \<longrightarrow> (\<forall>k\<in>set keys. 0 \<le> key_val sg k)"
  shows "multivalue_radix_sort_on sorter keys vals n nv positive_only =
    (let s = sort_key (\<lambda>x. map val (fst x)) (zip (rows nv keys) vals) in Some (concat (map fst s), map snd s))"
    "do { idx \<leftarrow> mv_sort_order sorter keys n nv positive_only; mv_move_rows keys idx n nv }
      = Some (concat (sort_key (map val) (rows nv keys)))"
proof -
  define idx where "idx = sort_key (\<lambda>p. map val (row nv keys p)) [0..<n]"
  have order: "mv_sort_order sorter keys n nv positive_only = Some idx"
    unfolding idx_def by (rule order_eq [OF len keys pos])
  have move: "mv_move_rows keys idx n nv = Some (concat (map (row nv keys) idx))"
    unfolding idx_def by (rule move_rows_eq [OF keys])
  have rows: "rows nv keys = map (row nv keys) [0..<n]" using nv by (simp add: rows_def keys)
  have zip: "zip (rows nv keys) vals = map (\<lambda>p. (row nv keys p, vals ! p)) [0..<n]"
    by (rule nth_equalityI) (simp_all add: rows vals)
  have "map (\<lambda>p. vals ! p) idx = map snd (map (\<lambda>p. (row nv keys p, vals ! p)) idx)" by simp
  have gather: "omap (\<lambda>i. do { p \<leftarrow> rd idx i; rd vals p }) [0..<n] = Some (map (\<lambda>p. vals ! p) idx)"
  proof -
    have idx: "length idx = n" "set idx = {..<n}" by (auto simp: idx_def)
    then have "idx ! j < n" if "j < n" for j using that nth_mem [of j idx] by auto
    then have "omap (\<lambda>i. do { p \<leftarrow> rd idx i; rd vals p }) [0..<n] = Some (map (\<lambda>j. vals ! (idx ! j)) [0..<n])"
      using idx vals by (intro omap_Some) simp
    also have "map (\<lambda>j. vals ! (idx ! j)) [0..<n] = map (\<lambda>p. vals ! p) idx" using idx(1) by (auto intro: nth_equalityI)
    finally show ?thesis .
  qed
  have copy: "copy_cells (map (\<lambda>p. vals ! p) idx) 0 vals 0 n = Some (map (\<lambda>p. vals ! p) idx)"
    using vals by (simp add: copy_cells_eq idx_def)
  have s: "sort_key (\<lambda>x. map val (fst x)) (zip (rows nv keys) vals) = map (\<lambda>p. (row nv keys p, vals ! p)) idx"
    unfolding zip by (simp add: sort_key_map idx_def)
  show "multivalue_radix_sort_on sorter keys vals n nv positive_only =
    (let s = sort_key (\<lambda>x. map val (fst x)) (zip (rows nv keys) vals) in Some (concat (map fst s), map snd s))"
    unfolding s multivalue_radix_sort_on_def order using gather copy move by (simp add: o_def)
  show "do { idx \<leftarrow> mv_sort_order sorter keys n nv positive_only; mv_move_rows keys idx n nv }
      = Some (concat (sort_key (map val) (rows nv keys)))"
    unfolding order using move by (simp add: rows sort_key_map idx_def)
qed

end

interpretation col_ve: column_sorter "radix_sort radix_cfg_ve sg" sg "key_val sg" for sg
  by unfold_locales (rule rx_ve.sorts_eq)

interpretation col_ve_desc: column_sorter "radix_sort_desc radix_cfg_ve sg" sg "\<lambda>k. - key_val sg k" for sg
  by unfold_locales (rule rx_ve.sorts_eq)

interpretation col_x86: column_sorter "radix_sort radix_cfg_x86 sg" sg "key_val sg" for sg
  by unfold_locales (rule rx_x86.sorts_eq)

interpretation col_x86_desc: column_sorter "radix_sort_desc radix_cfg_x86 sg" sg "\<lambda>k. - key_val sg k" for sg
  by unfold_locales (rule rx_x86.sorts_eq)


text \<open>
  C12. multivalue_radix_sort (core/multivalue_radix_sort.hpp), in either build: a size that is no
  multiple of \<open>num_values\<close> or does not match the values is reported; otherwise the rows are sorted
  lexicographically, with their values, and rows that are equal keep their order.
\<close>
theorem multivalue_radix_sort_stable:
  fixes keys :: "'w::len word list"
  assumes "LENGTH('w) = 32 \<or> LENGTH('w) = 64" "0 < nv"
    and "positive_only \<longrightarrow> (\<forall>k\<in>set keys. 0 \<le> key_val sg k)"
    and "c = radix_cfg_ve \<or> c = radix_cfg_x86"
  shows "multivalue_radix_sort_vec c sg keys vals nv positive_only = Some
    (if length keys div nv \<noteq> length vals then Inl ''multivalue_radix_sort: different size of arrays''
     else if length keys mod nv \<noteq> 0 then Inl ''multivalue_radix_sort: wrong num_values''
     else let s = sort_key (\<lambda>x. map (key_val sg) (fst x)) (zip (rows nv keys) vals)
          in Inr (concat (map fst s), map snd s))"
proof (cases "length keys div nv = length vals \<and> length keys mod nv = 0")
  case True
  then have keys: "length keys = length vals * nv" using div_mult_mod_eq [of "length keys" nv] by simp
  note rows = col_ve.rows_sorted(1) [where vals = vals, OF assms(1) keys refl assms(2,3)]
    col_x86.rows_sorted(1) [where vals = vals, OF assms(1) keys refl assms(2,3)]
  show ?thesis
    using assms(2,4) True rows
    by (auto simp: multivalue_radix_sort_vec_def mv_radix_check_def multivalue_radix_sort_def Let_def)
next
  case False
  then show ?thesis using assms(2) by (auto simp: multivalue_radix_sort_vec_def mv_radix_check_def)
qed

theorem multivalue_radix_sort_stable_witness:
  "multivalue_radix_sort_vec radix_cfg_x86 True [2, -1, 2, -3, -5, 9 :: 32 word] [''a'', ''b'', ''c''] 2 False
     = Some (Inr ([-5, 9, 2, -3, 2, -1], [''c'', ''b'', ''a'']))"
  by (subst multivalue_radix_sort_stable) (simp_all add: rows_def row_def key_val_def upt_rec)

text \<open>
  The descending sort of rows and the sorts of rows without values: each row is compared with the
  opposite sign of its keys, and without values the result is the stable sort of the rows alone.
\<close>
theorem multivalue_radix_sort_desc_stable:
  fixes keys :: "'w::len word list"
  assumes "LENGTH('w) = 32 \<or> LENGTH('w) = 64" "0 < nv" "length keys = length vals * nv"
    and "positive_only \<longrightarrow> (\<forall>k\<in>set keys. 0 \<le> key_val sg k)"
    and "c = radix_cfg_ve \<or> c = radix_cfg_x86"
  shows "multivalue_radix_sort_desc_vec c sg keys vals nv positive_only =
      (let s = sort_key (\<lambda>x. map (\<lambda>k. - key_val sg k) (fst x)) (zip (rows nv keys) vals)
       in Some (Inr (concat (map fst s), map snd s))) \<and>
    multivalue_radix_sort_keys_vec c sg keys nv positive_only = Some (Inr (concat (sort_key (map (key_val sg)) (rows nv keys)))) \<and>
    multivalue_radix_sort_keys_desc_vec c sg keys nv positive_only
      = Some (Inr (concat (sort_key (map (\<lambda>k. - key_val sg k)) (rows nv keys))))"
proof -
  note rows = col_ve_desc.rows_sorted [where vals = vals, OF assms(1,3) refl assms(2,4)]
    col_x86_desc.rows_sorted [where vals = vals, OF assms(1,3) refl assms(2,4)]
    col_ve.rows_sorted(2) [where vals = vals, OF assms(1,3) refl assms(2,4)]
    col_x86.rows_sorted(2) [where vals = vals, OF assms(1,3) refl assms(2,4)]
  have "length keys div nv = length vals" "length keys mod nv = 0" using assms(2,3) by simp_all
  then show ?thesis
    using assms(2,5) rows [folded multivalue_radix_sort_keys_def multivalue_radix_sort_keys_desc_def]
    by (auto simp: multivalue_radix_sort_desc_vec_def multivalue_radix_sort_keys_vec_def multivalue_radix_sort_keys_desc_vec_def
        mv_radix_check_def multivalue_radix_sort_desc_def Let_def)
qed

theorem multivalue_radix_sort_desc_stable_witness:
  "multivalue_radix_sort_keys_vec radix_cfg_ve False [2, 1, 2, 0, 1, 9 :: 64 word] 2 True = Some (Inr [1, 9, 2, 0, 2, 1])"
  using multivalue_radix_sort_desc_stable [of 2 "[2, 1, 2, 0, 1, 9 :: 64 word]" "[0, 0, 0 :: nat]" True False radix_cfg_ve]
  by (simp add: rows_def row_def key_val_def upt_rec)

end
