(* ===== verification/RadixFloat.thy ===== *)
theory RadixFloat
  imports RadixKeys
begin

text \<open>
  The overloads of core/radix_sort.hpp for \<open>float\<close> and \<open>double\<close> keys.  A key is its bit pattern (the
  code itself reinterprets the arrays as unsigned integers); the comparisons of the source are those
  of IEEE 754: false on NaN, by sign and magnitude otherwise, so that -0 and +0 are equal.  The
  passes order the bit patterns, after a flip when a key is below zero.
\<close>

subsection \<open>The code\<close>

definition fp_inf :: "'w::len word" where
  "fp_inf = (if LENGTH('w) = 32 then 0x7F800000 else 0x7FF0000000000000)"

definition fp_sign_mask :: "'w::len word" where
  "fp_sign_mask = (if LENGTH('w) = 32 then 0x80000000 else 0x8000000000000000)"

definition fp_nan :: "'w::len word \<Rightarrow> bool" where
  "fp_nan k \<longleftrightarrow> fp_inf < take_bit (LENGTH('w) - 1) k"

definition fp_mag :: "'w::len word \<Rightarrow> int" where
  "fp_mag k = (let m = uint (take_bit (LENGTH('w) - 1) k) in if bit k (LENGTH('w) - 1) then - m else m)"

definition fp_less :: "'w::len word \<Rightarrow> 'w word \<Rightarrow> bool" where
  "fp_less a b \<longleftrightarrow> \<not> fp_nan a \<and> \<not> fp_nan b \<and> fp_mag a < fp_mag b"

text \<open>float_flip, double_flip: \<open>key ^= -int(key >> 31) | 0x80000000\<close>, and the way back.\<close>

definition fp_flip_key :: "'w::len word \<Rightarrow> 'w word" where
  "fp_flip_key k = k XOR ((- drop_bit (LENGTH('w) - 1) k) OR fp_sign_mask)"

definition fp_unflip_key :: "'w::len word \<Rightarrow> 'w word" where
  "fp_unflip_key k = k XOR ((drop_bit (LENGTH('w) - 1) k - 1) OR fp_sign_mask)"

definition float_flip :: "(('w::len word \<Rightarrow> 'w word) \<Rightarrow> 'x \<Rightarrow> 'x) \<Rightarrow> 'x list \<Rightarrow> 'x list" where
  "float_flip upd = map (upd fp_flip_key)"

definition float_flip_reverse :: "(('w::len word \<Rightarrow> 'w word) \<Rightarrow> 'x \<Rightarrow> 'x) \<Rightarrow> 'x list \<Rightarrow> 'x list" where
  "float_flip_reverse upd = map (upd fp_unflip_key)"

definition radix_sort_fp_body ::
  "('x list \<Rightarrow> 'x list option) \<Rightarrow> ('x list \<Rightarrow> nat \<Rightarrow> 'x list option) \<Rightarrow> radix_cfg \<Rightarrow>
   ('x \<Rightarrow> 'w::len word) \<Rightarrow> (('w word \<Rightarrow> 'w word) \<Rightarrow> 'x \<Rightarrow> 'x) \<Rightarrow> 'x list \<Rightarrow> bool \<Rightarrow> 'x list option" where
  "radix_sort_fp_body insertion impl c keyf upd key_array positive_only =
     (if length key_array < rx_thr c then insertion key_array
      else if positive_only then impl key_array (get_max_key_size False (map keyf key_array))
      else do {
        neg \<leftarrow> negative_scan fp_less (map keyf key_array);
        let key_array = (if neg then float_flip upd key_array else key_array);
        let max_key_size = (if neg then LENGTH('w) div 8 else get_max_key_size False (map keyf key_array));
        key_array \<leftarrow> impl key_array max_key_size;
        Some (if neg then float_flip_reverse upd key_array else key_array) })"

definition radix_sort_fp :: "radix_cfg \<Rightarrow> ('w::len word \<times> 'v::zero) list \<Rightarrow> bool \<Rightarrow> ('w word \<times> 'v) list option" where
  "radix_sort_fp c = radix_sort_fp_body (insertion_sort (\<lambda>x tmp. fp_less (fst tmp) (fst x)))
     (radix_sort_impl c False fst (0, 0)) c fst (\<lambda>f (k, v). (f k, v))"

definition radix_sort_fp_desc :: "radix_cfg \<Rightarrow> ('w::len word \<times> 'v::zero) list \<Rightarrow> bool \<Rightarrow> ('w word \<times> 'v) list option" where
  "radix_sort_fp_desc c = radix_sort_fp_body (insertion_sort (\<lambda>x tmp. fp_less (fst x) (fst tmp)))
     (radix_sort_desc_impl c False fst (0, 0)) c fst (\<lambda>f (k, v). (f k, v))"

definition radix_sort_fp_keys :: "radix_cfg \<Rightarrow> 'w::len word list \<Rightarrow> bool \<Rightarrow> 'w word list option" where
  "radix_sort_fp_keys c = radix_sort_fp_body (insertion_sort (\<lambda>x tmp. fp_less tmp x))
     (radix_sort_impl c False id 0) c id id"

definition radix_sort_fp_keys_desc :: "radix_cfg \<Rightarrow> 'w::len word list \<Rightarrow> bool \<Rightarrow> 'w word list option" where
  "radix_sort_fp_keys_desc c = radix_sort_fp_body (insertion_sort (\<lambda>x tmp. fp_less x tmp))
     (radix_sort_desc_impl c False id 0) c id id"

subsection \<open>Bit patterns and values\<close>

lemma fp_sign_mask_eq: "LENGTH('w) = 32 \<or> LENGTH('w) = 64 \<Longrightarrow> fp_sign_mask = (top_bit :: 'w::len word)"
  by (auto simp: fp_sign_mask_def top_bit_def)

lemma bit_top: "bit (top_bit :: 'w::len word) n \<longleftrightarrow> n = LENGTH('w) - 1"
  by (auto simp: top_bit_def bit_exp_iff)

lemma drop_sign: "drop_bit (LENGTH('w) - 1) k = (if bit k (LENGTH('w) - 1) then 1 else (0 :: 'w::len word))"
proof (rule bit_word_eqI)
  fix n assume "n < LENGTH('w)"
  then show "bit (drop_bit (LENGTH('w) - 1) k) n \<longleftrightarrow> bit (if bit k (LENGTH('w) - 1) then 1 else (0 :: 'w word)) n"
    by (cases n) (auto simp: bit_drop_bit_eq bit_1_iff dest: bit_imp_le_length)
qed

lemma fp_flip_key_eq:
  assumes "LENGTH('w) = 32 \<or> LENGTH('w) = 64"
  shows "fp_flip_key k = (if bit k (LENGTH('w) - 1) then NOT k else k XOR (top_bit :: 'w::len word))"
    "fp_unflip_key k = (if bit k (LENGTH('w) - 1) then k XOR top_bit else NOT k)"
  using drop_sign [of k]
  by (simp_all add: fp_flip_key_def fp_unflip_key_def fp_sign_mask_eq [OF assms])

lemma fp_unflip_flip:
  assumes "LENGTH('w) = 32 \<or> LENGTH('w) = 64"
  shows "fp_unflip_key (fp_flip_key k) = (k :: 'w::len word)"
  by (simp add: fp_flip_key_eq [OF assms] bit_not_iff bit_xor_iff bit_top xor.assoc)

lemma uint_split_top: "uint k = uint (take_bit (LENGTH('w) - 1) k) + (if bit k (LENGTH('w) - 1) then 2 ^ (LENGTH('w) - 1) else 0)"
  for k :: "'w::len word"
proof -
  have "Suc (LENGTH('w) - 1) = LENGTH('w)" by simp
  moreover have "take_bit LENGTH('w) (uint k) = uint k"
    by (rule take_bit_int_eq_self) (rule unsigned_greater_eq, rule unsigned_less)
  ultimately have "uint k = take_bit (Suc (LENGTH('w) - 1)) (uint k)" by simp
  also have "\<dots> = take_bit (LENGTH('w) - 1) (uint k) + of_bool (bit (uint k) (LENGTH('w) - 1)) * 2 ^ (LENGTH('w) - 1)"
    by (rule take_bit_Suc_from_most [THEN trans]) simp
  finally have e: "uint k = take_bit (LENGTH('w) - 1) (uint k) + of_bool (bit (uint k) (LENGTH('w) - 1)) * 2 ^ (LENGTH('w) - 1)" .
  have "of_bool (bit (uint k) (LENGTH('w) - 1)) * 2 ^ (LENGTH('w) - 1) = (if bit k (LENGTH('w) - 1) then 2 ^ (LENGTH('w) - 1) else (0 :: int))"
    by (simp add: bit_unsigned_iff)
  with e show ?thesis by (simp only: unsigned_take_bit_eq)
qed

lemma uint_fp_flip:
  assumes len: "LENGTH('w) = 32 \<or> LENGTH('w) = 64"
  shows "uint (fp_flip_key (k :: 'w::len word)) = 2 ^ (LENGTH('w) - 1) + fp_mag k - (if bit k (LENGTH('w) - 1) then 1 else 0)"
proof -
  have pow: "(2 :: int) ^ LENGTH('w) = 2 ^ (LENGTH('w) - 1) + 2 ^ (LENGTH('w) - 1)"
    using power_Suc [of "2 :: int" "LENGTH('w) - 1"] by simp
  show ?thesis
  proof (cases "bit k (LENGTH('w) - 1)")
    case True
    have "NOT k = word_of_int (2 ^ LENGTH('w) - 1 - uint k)"
      by (simp add: not_eq_complement word_pow_0)
    moreover have "0 \<le> uint k" "uint k < 2 ^ LENGTH('w)" by (rule unsigned_greater_eq, rule unsigned_less)
    then have "take_bit LENGTH('w) (2 ^ LENGTH('w) - 1 - uint k) = 2 ^ LENGTH('w) - 1 - uint k"
      by (intro take_bit_int_eq_self) linarith+
    ultimately have "uint (NOT k) = 2 ^ LENGTH('w) - 1 - uint k" by (simp only: uint_word_of_int_eq)
    then show ?thesis using True uint_split_top [of k] pow by (simp add: fp_flip_key_eq [OF len] fp_mag_def)
  next
    case False
    then have "sint k = take_bit (LENGTH('w) - 1) (uint k)"
      by (simp add: sint_uint signed_take_bit_eq_if_positive bit_unsigned_iff)
    then have "sint k = uint (take_bit (LENGTH('w) - 1) k)" by (simp add: unsigned_take_bit_eq)
    then show ?thesis using False uint_split_top [of k] by (simp add: fp_flip_key_eq [OF len] fp_mag_def uint_flip)
  qed
qed


text \<open>A key that orders the same as a bit pattern and as a value: not NaN, and not -0.\<close>

definition fp_plain :: "'w::len word \<Rightarrow> bool" where
  "fp_plain k \<longleftrightarrow> \<not> fp_nan k \<and> k \<noteq> fp_sign_mask"

lemma fp_mag_zero: "fp_mag (0 :: 'w::len word) = 0"
  by (simp add: fp_mag_def)

lemma fp_mag_negative:
  assumes "LENGTH('w) = 32 \<or> LENGTH('w) = 64" "fp_plain (k :: 'w::len word)"
  shows "fp_mag k < 0 \<longleftrightarrow> bit k (LENGTH('w) - 1)"
proof (cases "bit k (LENGTH('w) - 1)")
  case True
  have "take_bit (LENGTH('w) - 1) (top_bit :: 'w word) = 0"
    by (rule bit_word_eqI) (auto simp: bit_take_bit_iff bit_top)
  then have "uint (top_bit :: 'w word) = 2 ^ (LENGTH('w) - 1)"
    using uint_split_top [of "top_bit :: 'w word"] by (simp add: bit_top)
  moreover have "k \<noteq> top_bit" using assms by (simp add: fp_plain_def fp_sign_mask_eq)
  ultimately have "uint (take_bit (LENGTH('w) - 1) k) \<noteq> 0"
    using uint_split_top [of k] True by (auto simp: word_uint_eq_iff)
  moreover have "0 \<le> uint (take_bit (LENGTH('w) - 1) k)" by (rule unsigned_greater_eq)
  ultimately have "0 < uint (take_bit (LENGTH('w) - 1) k)" by linarith
  then show ?thesis using True by (simp add: fp_mag_def)
next
  case False
  then show ?thesis by (simp add: fp_mag_def not_less)
qed

lemma fp_mag_nonneg: "\<not> bit k (LENGTH('w) - 1) \<Longrightarrow> fp_mag k = uint (k :: 'w::len word)"
  using uint_split_top [of k] by (simp add: fp_mag_def)

lemma fp_flip_order:
  assumes len: "LENGTH('w) = 32 \<or> LENGTH('w) = 64" and plain: "fp_plain (a :: 'w::len word)" "fp_plain (b :: 'w word)"
  shows "uint (fp_flip_key a) \<le> uint (fp_flip_key b) \<longleftrightarrow> fp_mag a \<le> fp_mag b"
  using fp_mag_negative [OF len plain(1)] fp_mag_negative [OF len plain(2)]
  by (simp add: uint_fp_flip [OF len]) linarith

lemma fp_less_zero:
  assumes "LENGTH('w) = 32 \<or> LENGTH('w) = 64" "fp_plain (k :: 'w::len word)"
  shows "fp_less k 0 \<longleftrightarrow> bit k (LENGTH('w) - 1)"
proof -
  have "\<not> fp_nan (0 :: 'w word)" by (simp add: fp_nan_def)
  then show ?thesis using assms(2) fp_mag_negative [OF assms] by (simp add: fp_less_def fp_plain_def fp_mag_zero)
qed

lemma negative_scan_fp: "negative_scan fp_less ks = Some (\<exists>k\<in>set ks. fp_less k 0)"
  by (rule negative_scan_eq) (auto simp: fp_less_def)

subsection \<open>The sorts\<close>

definition direction :: "(int \<Rightarrow> int) \<Rightarrow> bool" where
  "direction h \<longleftrightarrow> h = (\<lambda>x. x) \<or> h = (\<lambda>x. - x)"

lemma direction_cong:
  assumes h: "direction h" and fg: "\<And>x y. x \<in> set xs \<Longrightarrow> y \<in> set xs \<Longrightarrow> f x \<le> f y \<longleftrightarrow> g x \<le> g y"
  shows "sort_key (\<lambda>x. h (f x)) xs = sort_key (\<lambda>x. h (g x)) xs"
proof (rule sort_key_cong_order)
  fix x y assume "x \<in> set xs" "y \<in> set xs"
  then have e: "f x \<le> f y \<longleftrightarrow> g x \<le> g y" "f y \<le> f x \<longleftrightarrow> g y \<le> g x" by (simp_all only: fg)
  from h consider "h = (\<lambda>x. x)" | "h = (\<lambda>x. - x)" by (auto simp only: direction_def)
  then show "h (f x) \<le> h (f y) \<longleftrightarrow> h (g x) \<le> h (g y)" by cases (simp_all only: e neg_le_iff_le)
qed

context radix_elem
begin

lemma fp_nonneg:
  assumes len: "LENGTH('w) = 32 \<or> LENGTH('w) = 64" and h: "direction h"
    and impl: "\<And>xs m. 8 * m \<le> LENGTH('w) \<Longrightarrow> \<forall>x\<in>set xs. unat (keyf x) < 256 ^ m \<Longrightarrow>
      impl xs m = Some (sort_key (\<lambda>x. h (int (unat (keyf x)))) xs)"
    and nn: "\<forall>x\<in>set xs. \<not> bit (keyf x) (LENGTH('w) - 1)"
  shows "impl xs (get_max_key_size False (map keyf xs)) = Some (sort_key (\<lambda>x. h (fp_mag (keyf x))) xs)"
proof -
  have ks: "\<forall>k\<in>set (map keyf xs). 0 \<le> key_val False k" by (simp add: key_val_def)
  have size: "8 * get_max_key_size False (map keyf xs) \<le> LENGTH('w)"
  proof (cases xs)
    case Nil
    then show ?thesis using len by (auto simp: get_max_key_size_def upt_rec)
  next
    case (Cons x ys)
    then show ?thesis using get_max_key_size_ok [OF len ks, of "keyf x"] by simp
  qed
  have "\<forall>x\<in>set xs. unat (keyf x) < 256 ^ get_max_key_size False (map keyf xs)"
    using get_max_key_size_ok [OF len ks] by simp
  with size have "impl xs (get_max_key_size False (map keyf xs)) = Some (sort_key (\<lambda>x. h (int (unat (keyf x)))) xs)"
    by (rule impl)
  also have "sort_key (\<lambda>x. h (int (unat (keyf x)))) xs = sort_key (\<lambda>x. h (fp_mag (keyf x))) xs"
    by (rule direction_cong [OF h]) (metis nn fp_mag_nonneg uint_nat)
  finally show ?thesis .
qed

lemma fp_flipped:
  assumes len: "LENGTH('w) = 32 \<or> LENGTH('w) = 64" and h: "direction h"
    and impl: "\<And>xs m. 8 * m \<le> LENGTH('w) \<Longrightarrow> \<forall>x\<in>set xs. unat (keyf x) < 256 ^ m \<Longrightarrow>
      impl xs m = Some (sort_key (\<lambda>x. h (int (unat (keyf x)))) xs)"
    and plain: "\<forall>x\<in>set xs. fp_plain (keyf x)"
  shows "impl (float_flip upd xs) (LENGTH('w) div 8) = Some (float_flip upd (sort_key (\<lambda>x. h (fp_mag (keyf x))) xs))"
proof -
  have l8: "8 * (LENGTH('w) div 8) = LENGTH('w)" using len by auto
  have "unat k < (2 ^ 8) ^ (LENGTH('w) div 8)" for k :: "'w word"
    using unsigned_less [where w = k and 'a = nat] by (simp only: power_mult [symmetric] l8)
  then have "\<forall>x\<in>set (float_flip upd xs). unat (keyf x) < 256 ^ (LENGTH('w) div 8)" by simp
  then have "impl (float_flip upd xs) (LENGTH('w) div 8) = Some (sort_key (\<lambda>x. h (int (unat (keyf x)))) (float_flip upd xs))"
    by (intro impl) (simp_all only: l8 order_refl)
  also have "sort_key (\<lambda>x. h (int (unat (keyf x)))) (float_flip upd xs)
      = float_flip upd (sort_key (\<lambda>x. h (int (unat (fp_flip_key (keyf x))))) xs)"
    by (simp only: float_flip_def sort_key_map keyf_upd)
  also have "sort_key (\<lambda>x. h (int (unat (fp_flip_key (keyf x))))) xs = sort_key (\<lambda>x. h (fp_mag (keyf x))) xs"
    by (rule direction_cong [OF h]) (simp only: uint_nat [symmetric] fp_flip_order [OF len] plain)
  finally show ?thesis .
qed

lemma fp_unflip: "LENGTH('w) = 32 \<or> LENGTH('w) = 64 \<Longrightarrow> float_flip_reverse upd (float_flip upd ys) = ys"
proof -
  assume len: "LENGTH('w) = 32 \<or> LENGTH('w) = 64"
  have "fp_unflip_key (fp_flip_key k) = (k :: 'w word)" for k by (rule fp_unflip_flip [OF len])
  then have "upd fp_unflip_key (upd fp_flip_key x) = x" for x by (rule upd_upd)
  then show ?thesis by (simp add: float_flip_def float_flip_reverse_def o_def)
qed

lemma fp_body_eq:
  assumes len: "LENGTH('w) = 32 \<or> LENGTH('w) = 64" and h: "direction h"
    and insertion: "insertion xs = Some (sort_key (\<lambda>x. h (fp_mag (keyf x))) xs)"
    and impl: "\<And>xs m. 8 * m \<le> LENGTH('w) \<Longrightarrow> \<forall>x\<in>set xs. unat (keyf x) < 256 ^ m \<Longrightarrow>
      impl xs m = Some (sort_key (\<lambda>x. h (int (unat (keyf x)))) xs)"
    and plain: "\<forall>x\<in>set xs. fp_plain (keyf x)"
    and pos: "positive_only \<longrightarrow> (\<forall>x\<in>set xs. \<not> bit (keyf x) (LENGTH('w) - 1))"
  shows "radix_sort_fp_body insertion impl c keyf upd xs positive_only = Some (sort_key (\<lambda>x. h (fp_mag (keyf x))) xs)"
proof (cases "length xs < rx_thr c")
  case True
  then show ?thesis by (simp add: radix_sort_fp_body_def insertion)
next
  case long: False
  have less: "fp_less (keyf x) 0 \<longleftrightarrow> bit (keyf x) (LENGTH('w) - 1)" if "x \<in> set xs" for x
    using fp_less_zero [OF len] plain that by blast
  have ex: "(\<exists>k\<in>set (map keyf xs). fp_less k 0) \<longleftrightarrow> (\<exists>x\<in>set xs. bit (keyf x) (LENGTH('w) - 1))"
    unfolding set_map bex_simps(7) by (rule bex_cong [OF refl less])
  show ?thesis
  proof (cases "\<exists>x\<in>set xs. bit (keyf x) (LENGTH('w) - 1)")
    case True
    with pos have np: "\<not> positive_only" by blast
    have scan: "negative_scan fp_less (map keyf xs) = Some True"
      unfolding negative_scan_fp ex using True by simp
    show ?thesis
      by (simp only: radix_sort_fp_body_def if_False if_True long np Let_def scan Option.bind.bind_lunit
          fp_flipped [where impl = impl, OF len h impl plain] fp_unflip [OF len])
  next
    case False
    then have scan: "negative_scan fp_less (map keyf xs) = Some False"
      unfolding negative_scan_fp ex by blast
    have nn: "\<forall>x\<in>set xs. \<not> bit (keyf x) (LENGTH('w) - 1)" using False by blast
    show ?thesis
      by (simp add: radix_sort_fp_body_def long Let_def scan fp_nonneg [where impl = impl, OF len h impl nn] cong: if_cong)
  qed
qed

end


text \<open>The sorts of plain keys, whatever the build.\<close>

context radix_build
begin

lemma fp_sorts_eq:
  fixes xs :: "('w::len word \<times> 'v::zero) list"
  assumes len: "LENGTH('w) = 32 \<or> LENGTH('w) = 64"
    and plain: "\<forall>x\<in>set xs. fp_plain (fst x)"
    and pos: "positive_only \<longrightarrow> (\<forall>x\<in>set xs. \<not> bit (fst x) (LENGTH('w) - 1))"
  shows "radix_sort_fp c xs positive_only = Some (sort_key (\<lambda>x. fp_mag (fst x)) xs)"
    "radix_sort_fp_desc c xs positive_only = Some (sort_key (\<lambda>x. - fp_mag (fst x)) xs)"
proof -
  have less: "fp_less (fst x) (fst y) \<longleftrightarrow> fp_mag (fst x) < fp_mag (fst y)" if "x \<in> set xs" "y \<in> set xs" for x y
    using plain that by (simp add: fp_less_def fp_plain_def)
  have up: "insertion_sort (\<lambda>x tmp. fp_less (fst tmp) (fst x)) xs = Some (sort_key (\<lambda>x. fp_mag (fst x)) xs)"
    by (rule insertion_sort_eq) (simp add: less)
  have down: "insertion_sort (\<lambda>x tmp. fp_less (fst x) (fst tmp)) xs = Some (sort_key (\<lambda>x. - fp_mag (fst x)) xs)"
    by (rule insertion_sort_eq) (simp add: less)
  show "radix_sort_fp c xs positive_only = Some (sort_key (\<lambda>x. fp_mag (fst x)) xs)"
    unfolding radix_sort_fp_def
    by (rule rx_pair.fp_body_eq [where h = "\<lambda>x. x"]) (use assms in \<open>simp_all add: direction_def up impl_eq\<close>)
  show "radix_sort_fp_desc c xs positive_only = Some (sort_key (\<lambda>x. - fp_mag (fst x)) xs)"
    unfolding radix_sort_fp_desc_def
    by (rule rx_pair.fp_body_eq [where h = "\<lambda>x. - x"]) (use assms in \<open>simp_all add: direction_def down impl_eq\<close>)
qed

lemma fp_sort_keys_eq:
  fixes xs :: "'w::len word list"
  assumes len: "LENGTH('w) = 32 \<or> LENGTH('w) = 64"
    and plain: "\<forall>x\<in>set xs. fp_plain x"
    and pos: "positive_only \<longrightarrow> (\<forall>x\<in>set xs. \<not> bit x (LENGTH('w) - 1))"
  shows "radix_sort_fp_keys c xs positive_only = Some (sort_key fp_mag xs)"
    "radix_sort_fp_keys_desc c xs positive_only = Some (sort_key (\<lambda>x. - fp_mag x) xs)"
proof -
  have less: "fp_less x y \<longleftrightarrow> fp_mag x < fp_mag y" if "x \<in> set xs" "y \<in> set xs" for x y
    using plain that by (simp add: fp_less_def fp_plain_def)
  have up: "insertion_sort (\<lambda>x tmp. fp_less tmp x) xs = Some (sort_key fp_mag xs)"
    by (rule insertion_sort_eq) (simp add: less)
  have down: "insertion_sort (\<lambda>x tmp. fp_less x tmp) xs = Some (sort_key (\<lambda>x. - fp_mag x) xs)"
    by (rule insertion_sort_eq) (simp add: less)
  show "radix_sort_fp_keys c xs positive_only = Some (sort_key fp_mag xs)"
    unfolding radix_sort_fp_keys_def
    using rx_key.fp_body_eq [where h = "\<lambda>x. x" and c = c and xs = xs and positive_only = positive_only
        and insertion = "insertion_sort (\<lambda>x tmp. fp_less tmp x)" and impl = "radix_sort_impl c False id 0"] assms
    by (simp add: direction_def up impl_eq)
  show "radix_sort_fp_keys_desc c xs positive_only = Some (sort_key (\<lambda>x. - fp_mag x) xs)"
    unfolding radix_sort_fp_keys_desc_def
    using rx_key.fp_body_eq [where h = "\<lambda>x. - x" and c = c and xs = xs and positive_only = positive_only
        and insertion = "insertion_sort (\<lambda>x tmp. fp_less x tmp)" and impl = "radix_sort_desc_impl c False id 0"] assms
    by (simp add: direction_def down impl_eq)
qed

text \<open>When no key is below zero the passes order the bit patterns, so that -0 comes last.\<close>

lemma fp_bits_sorted:
  fixes xs :: "'w::len word list"
  assumes len: "LENGTH('w) = 32 \<or> LENGTH('w) = 64"
    and long: "rx_thr c \<le> length xs" "xs \<noteq> []" and none: "\<forall>x\<in>set xs. \<not> fp_less x 0"
  shows "radix_sort_fp_keys c xs False = Some (sort_key (\<lambda>x. int (unat x)) xs)"
proof -
  have ks: "\<forall>k\<in>set xs. 0 \<le> key_val False k" by (simp add: key_val_def)
  have scan: "negative_scan fp_less xs = Some False" using none by (simp add: negative_scan_fp)
  obtain k where k: "k \<in> set xs" using long by (cases xs) auto
  have "8 * get_max_key_size False xs \<le> LENGTH('w)" using get_max_key_size_ok [OF len ks k] by simp
  moreover have "\<forall>x\<in>set xs. unat (id x) < 256 ^ get_max_key_size False xs"
    using get_max_key_size_ok [OF len ks] by simp
  ultimately have "radix_sort_impl c False id 0 xs (get_max_key_size False xs) = Some (sort_key (\<lambda>x. int (unat (id x))) xs)"
    by (rule impl_eq)
  then show ?thesis using long
    by (simp add: radix_sort_fp_keys_def radix_sort_fp_body_def scan Let_def cong: if_cong)
qed

end

subsection \<open>Properties\<close>

text \<open>
  C40. radix_sort and radix_sort_desc of \<open>float\<close> and \<open>double\<close> keys, with and without values, in both
  builds: on keys that are neither NaN nor -0 the result is the stable sort by the value of the key,
  whether it comes from the insertion sort, from the passes over the bare bit patterns or from the
  passes over the flipped ones.
\<close>
theorem radix_sort_fp_stable:
  fixes xs :: "('w::len word \<times> 'v::zero) list" and ks :: "'w word list"
  assumes "LENGTH('w) = 32 \<or> LENGTH('w) = 64" "c = radix_cfg_ve \<or> c = radix_cfg_x86"
    and "\<forall>x\<in>set xs. fp_plain (fst x)" "\<forall>k\<in>set ks. fp_plain k"
  shows "radix_sort_fp c xs False = Some (sort_key (\<lambda>x. fp_mag (fst x)) xs) \<and>
    radix_sort_fp_desc c xs False = Some (sort_key (\<lambda>x. - fp_mag (fst x)) xs) \<and>
    radix_sort_fp_keys c ks False = Some (sort_key fp_mag ks) \<and>
    radix_sort_fp_keys_desc c ks False = Some (sort_key (\<lambda>k. - fp_mag k) ks)"
  using assms(2)
proof
  assume c: "c = radix_cfg_ve"
  show ?thesis unfolding c using assms by (simp add: rx_ve.fp_sorts_eq rx_ve.fp_sort_keys_eq)
next
  assume c: "c = radix_cfg_x86"
  show ?thesis unfolding c using assms by (simp add: rx_x86.fp_sorts_eq rx_x86.fp_sort_keys_eq)
qed

text \<open>At 1.0, -2.0 and 0.5: 0x3F800000, 0xC0000000 and 0x3F000000.\<close>

theorem radix_sort_fp_stable_witness:
  "radix_sort_fp_keys radix_cfg_x86 [0x3F800000, 0xC0000000, 0x3F000000 :: 32 word] False
    = Some [0xC0000000, 0x3F000000, 0x3F800000] \<and>
   radix_sort_fp_desc radix_cfg_x86 [(0x3F800000 :: 32 word, 7 :: nat), (0xC0000000, 8), (0x3F000000, 9)] False
    = Some [(0x3F800000, 7), (0x3F000000, 9), (0xC0000000, 8)]"
proof -
  have plain: "fp_plain (0x3F800000 :: 32 word)" "fp_plain (0xC0000000 :: 32 word)" "fp_plain (0x3F000000 :: 32 word)"
    by (code_simp, code_simp, code_simp)
  have mag: "fp_mag (0x3F800000 :: 32 word) = 0x3F800000" "fp_mag (0xC0000000 :: 32 word) = - 0x40000000"
    "fp_mag (0x3F000000 :: 32 word) = 0x3F000000" by (code_simp, code_simp, code_simp)
  show ?thesis
    using radix_sort_fp_stable [of radix_cfg_x86 "[(0x3F800000 :: 32 word, 7 :: nat), (0xC0000000, 8), (0x3F000000, 9)]"
        "[0x3F800000, 0xC0000000, 0x3F000000 :: 32 word]"]
    by (simp add: plain mag)
qed

text \<open>
  The limit of the float overloads: a key -0.0 is not below zero, so contain_negative does not
  ask for the flip, and its bit pattern 0x80000000 is the largest of all: among keys that are not
  negative, with at least one above zero and as many as the threshold of the passes, -0.0 is moved
  behind every one of them, and the result is not sorted.
\<close>
theorem radix_sort_float_misplaces_minus_zero:
  fixes ks :: "32 word list"
  assumes "c = radix_cfg_ve \<or> c = radix_cfg_x86" "rx_thr c \<le> length ks + 1"
    and "\<forall>k\<in>set ks. fp_plain k \<and> 0 < fp_mag k" "ks \<noteq> []"
  shows "\<exists>up. radix_sort_fp_keys c (fp_sign_mask # ks) False = Some (up @ [fp_sign_mask]) \<and>
    mset up = mset ks \<and> fp_less fp_sign_mask (last up)"
proof -
  define up where "up = sort_key (\<lambda>x. int (unat x)) ks"
  have sm: "fp_sign_mask = (0x80000000 :: 32 word)" by (simp add: fp_sign_mask_def)
  have z: "fp_mag (0x80000000 :: 32 word) = 0" "\<not> fp_nan (0x80000000 :: 32 word)" by (code_simp, code_simp)
  have small: "int (unat k) < 0x80000000" if "k \<in> set ks" for k
  proof -
    have "\<not> bit k 31" using fp_mag_negative [of k] assms(3) that by force
    then show ?thesis using uint_split_top [of k] unsigned_less [where w = "take_bit 31 k" and 'a = int]
        take_bit_int_less_exp [of 31 "uint k"] by (simp add: unsigned_take_bit_eq)
  qed
  have "radix_sort_fp_keys c (fp_sign_mask # ks) False = Some (sort_key (\<lambda>x. int (unat x)) (fp_sign_mask # ks))"
  proof -
    have "\<forall>x\<in>set (fp_sign_mask # ks). \<not> fp_less x 0"
      using assms(3) z by (auto simp: fp_less_def fp_mag_zero sm not_less)
    then have none: "\<forall>x\<in>set (0x80000000 # ks). \<not> fp_less x 0" by (simp add: sm)
    have long: "rx_thr c \<le> length ((0x80000000 :: 32 word) # ks)" using assms(2) by simp
    from assms(1) show ?thesis
    proof
      assume c: "c = radix_cfg_ve"
      show ?thesis unfolding c sm
        by (rule rx_ve.fp_bits_sorted) (use none long c in simp_all)
    next
      assume c: "c = radix_cfg_x86"
      show ?thesis unfolding c sm
        by (rule rx_x86.fp_bits_sorted) (use none long c in simp_all)
    qed
  qed
  also have "sort_key (\<lambda>x. int (unat x)) (fp_sign_mask # ks) = up @ [fp_sign_mask]"
  proof -
    have "insort_key (\<lambda>x. int (unat x)) (0x80000000 :: 32 word) zs = zs @ [0x80000000]"
      if "\<forall>x\<in>set zs. int (unat x) < 0x80000000" for zs
      using that by (induction zs) auto
    then show ?thesis using small by (simp add: up_def sm)
  qed
  finally have "radix_sort_fp_keys c (fp_sign_mask # ks) False = Some (up @ [fp_sign_mask])" .
  moreover have "mset up = mset ks" by (simp add: up_def)
  moreover have "fp_less fp_sign_mask (last up)"
  proof -
    have "last up \<in> set ks" using last_in_set [of up] assms(4) \<open>mset up = mset ks\<close>
      by (metis mset_zero_iff set_mset_mset)
    then show ?thesis using assms(3) z by (simp add: fp_less_def sm fp_plain_def)
  qed
  ultimately show ?thesis by blast
qed

theorem radix_sort_float_misplaces_minus_zero_witness:
  "\<exists>up. radix_sort_fp_keys radix_cfg_x86 (0x80000000 # replicate 63 (0x3F800000 :: 32 word)) False = Some (up @ [0x80000000]) \<and>
     mset up = replicate_mset 63 0x3F800000"
proof -
  have "fp_plain (0x3F800000 :: 32 word)" by code_simp
  moreover have "0 < fp_mag (0x3F800000 :: 32 word)" by code_simp
  ultimately show ?thesis
    using radix_sort_float_misplaces_minus_zero [of radix_cfg_x86 "replicate 63 (0x3F800000 :: 32 word)"]
    by (auto simp: radix_cfg_x86_def fp_sign_mask_def)
qed

end
