(* ===== verification/Calendar.thy ===== *)
theory Calendar
  imports Prelude "HOL-Library.Signed_Division"
begin

text \<open>
  text/datetime_utility.hpp, the calendar: dates as a number of days since 1 March of the year 0 and
  back.  A C++ \<open>int\<close> is an integer; a signed overflow, which is undefined, is \<open>None\<close>: \<open>in32\<close> lists
  the intermediate values of an expression.  Division rounds towards zero (\<open>sdiv\<close>, \<open>smod\<close>).
\<close>

subsection \<open>Machine integers\<close>

definition fits32 :: "int \<Rightarrow> bool" where
  "fits32 x \<longleftrightarrow> - 2147483648 \<le> x \<and> x < 2147483648"

definition fits64 :: "int \<Rightarrow> bool" where
  "fits64 x \<longleftrightarrow> - 9223372036854775808 \<le> x \<and> x < 9223372036854775808"

definition in32 :: "int list \<Rightarrow> unit option" where
  "in32 xs = (if list_all fits32 xs then Some () else None)"

definition in64 :: "int list \<Rightarrow> unit option" where
  "in64 xs = (if list_all fits64 xs then Some () else None)"

text \<open>The conversion of a 64-bit value to \<open>int\<close> keeps the low 32 bits.\<close>

definition to_int :: "int \<Rightarrow> int" where
  "to_int x = (x + 2147483648) mod 4294967296 - 2147483648"

lemma to_int_id: "fits32 x \<Longrightarrow> to_int x = x"
  by (simp add: to_int_def fits32_def)

lemma in32_ok: "list_all fits32 xs \<Longrightarrow> in32 xs = Some ()"
  by (simp add: in32_def)

lemma in64_ok: "list_all fits64 xs \<Longrightarrow> in64 xs = Some ()"
  by (simp add: in64_def)

lemma in32_Some: "in32 xs = Some u \<longleftrightarrow> list_all fits32 xs"
  by (simp add: in32_def)

lemma in64_Some: "in64 xs = Some u \<longleftrightarrow> list_all fits64 xs"
  by (simp add: in64_def)

lemma sdiv_nonneg: "0 \<le> a \<Longrightarrow> 0 < b \<Longrightarrow> a sdiv b = a div (b :: int)"
  by (cases "a = 0") (simp_all add: signed_divide_int_def)

lemma smod_nonneg: "0 \<le> a \<Longrightarrow> 0 < b \<Longrightarrow> a smod b = a mod (b :: int)"
  by (cases "a = 0") (simp_all add: signed_modulo_int_def)

subsection \<open>The code\<close>

definition numdays_to_ymd :: "int \<Rightarrow> (int \<times> int \<times> int) option" where
  "numdays_to_ymd numdays =
     (let yc = (4 * numdays + 3) sdiv 146097;
          rc = numdays - 36524 * yc - yc sdiv 4;
          yi = (4 * rc + 3) sdiv 1461;
          ri = rc - 365 * yi - yi sdiv 4;
          y = 100 * yc + yi;
          m = (5 * ri + 2) sdiv 153 + 3;
          d = ri - (153 * (m - 3) + 2) sdiv 5 + 1
      in do {
        in32 [4 * numdays, 4 * numdays + 3, 36524 * yc, numdays - 36524 * yc, rc,
              4 * rc, 4 * rc + 3, 365 * yi, rc - 365 * yi, ri, 100 * yc, y,
              5 * ri, 5 * ri + 2, m, m - 3, 153 * (m - 3), 153 * (m - 3) + 2,
              ri - (153 * (m - 3) + 2) sdiv 5, d];
        if m > 12 then do { in32 [y + 1]; Some (y + 1, m - 12, d) } else Some (y, m, d) })"

definition ymd_to_numdays :: "int \<Rightarrow> int \<Rightarrow> int \<Rightarrow> int option" where
  "ymd_to_numdays y m d = do {
     in32 (if m < 3 then [m + 12, y - 1] else []);
     let (y, m) = (if m < 3 then (y - 1, m + 12) else (y, m));
     let a = 365 * y + y sdiv 4;
     let b = a - y sdiv 100;
     let c = b + y sdiv 400;
     let e = c + (153 * (m - 3) + 2) sdiv 5;
     in32 [365 * y, a, b, c, m - 3, 153 * (m - 3), 153 * (m - 3) + 2, e, e + d, e + d - 1];
     Some (e + d - 1) }"

text \<open>1 is Sunday, 7 is Saturday.\<close>

definition ymd_to_dayofweek :: "int \<Rightarrow> int \<Rightarrow> int \<Rightarrow> int option" where
  "ymd_to_dayofweek y m d = do {
     n \<leftarrow> ymd_to_numdays y m d;
     in32 [n + 3];
     Some ((n + 3) smod 7 + 1) }"

subsection \<open>The Gregorian calendar\<close>

definition leap :: "int \<Rightarrow> bool" where
  "leap y \<longleftrightarrow> (if y mod 100 = 0 then y mod 400 = 0 else y mod 4 = 0)"

definition days_in_month :: "int \<Rightarrow> int \<Rightarrow> int" where
  "days_in_month y m = (if m = 2 then if leap y then 29 else 28 else if m \<in> {4, 6, 9, 11} then 30 else 31)"

definition valid_date :: "int \<times> int \<times> int \<Rightarrow> bool" where
  "valid_date = (\<lambda>(y, m, d). 1 \<le> m \<and> m \<le> 12 \<and> 1 \<le> d \<and> d \<le> days_in_month y m)"

definition next_day :: "int \<times> int \<times> int \<Rightarrow> int \<times> int \<times> int" where
  "next_day = (\<lambda>(y, m, d). if d < days_in_month y m then (y, m, d + 1)
     else if m < 12 then (y, m + 1, 1) else (y + 1, 1, 1))"

text \<open>The dates at which the count starts, up to a year that keeps it in an \<open>int\<close>.\<close>

definition count_range :: "int \<times> int \<times> int \<Rightarrow> bool" where
  "count_range = (\<lambda>(y, m, d). (0 < y \<or> y = 0 \<and> 3 \<le> m) \<and> y < 1000000)"

text \<open>The count over the integers: years and months start in March.\<close>

definition march_year :: "int \<Rightarrow> int" where
  "march_year y = 365 * y + y div 4 - y div 100 + y div 400"

definition march_month :: "int \<Rightarrow> int" where
  "march_month m = (153 * (m - 3) + 2) div 5"

definition to_march :: "int \<times> int \<Rightarrow> int \<times> int" where
  "to_march = (\<lambda>(y, m). if m < 3 then (y - 1, m + 12) else (y, m))"

definition days :: "int \<times> int \<times> int \<Rightarrow> int" where
  "days = (\<lambda>(y, m, d). march_year (fst (to_march (y, m))) + march_month (snd (to_march (y, m))) + d - 1)"

lemma month_cases:
  assumes "1 \<le> m" "m \<le> (12 :: int)"
  obtains "m = 1" | "m = 2" | "m = 3" | "m = 4" | "m = 5" | "m = 6" | "m = 7" | "m = 8" | "m = 9" | "m = 10" | "m = 11" | "m = 12"
proof -
  have "m = 1 \<or> m = 2 \<or> m = 3 \<or> m = 4 \<or> m = 5 \<or> m = 6 \<or> m = 7 \<or> m = 8 \<or> m = 9 \<or> m = 10 \<or> m = 11 \<or> m = 12"
    using assms by arith
  then show ?thesis using that by blast
qed

lemma div_step: "0 < k \<Longrightarrow> (y + 1) div k = y div k + (if (y + 1) mod k = 0 then 1 else (0 :: int))"
proof -
  assume k: "0 < k"
  define q r where "q = y div k" and "r = y mod k"
  have y: "y + 1 = k * q + (r + 1)" by (simp add: q_def r_def)
  have r: "0 \<le> r" "r < k" using k by (simp_all add: r_def)
  show ?thesis
  proof (cases "r + 1 = k")
    case True
    then have "y + 1 = k * (q + 1)" using y by (simp add: algebra_simps)
    then show ?thesis using k by (simp add: q_def [symmetric])
  next
    case False
    then have "(r + 1) div k = 0" "(r + 1) mod k = r + 1" using r by simp_all
    then show ?thesis using k r by (simp add: y q_def [symmetric])
  qed
qed

lemma march_year_step: "march_year (y + 1) = march_year y + (if leap (y + 1) then 366 else 365)"
proof -
  have "(y + 1) mod 400 = 0 \<Longrightarrow> (y + 1) mod 100 = 0" "(y + 1) mod 100 = 0 \<Longrightarrow> (y + 1) mod 4 = 0" by presburger+
  then show ?thesis by (auto simp: march_year_def div_step leap_def)
qed


text \<open>One day further is one more.\<close>

lemma days_next: "valid_date x \<Longrightarrow> days (next_day x) = days x + 1"
proof -
  obtain y m d where x: "x = (y, m, d)" by (cases x)
  assume v: "valid_date x"
  then have m: "1 \<le> m" "m \<le> 12" and d: "d \<le> days_in_month y m" by (simp_all add: valid_date_def x)
  have "march_year y = march_year (y - 1) + (if leap y then 366 else 365)"
    using march_year_step [of "y - 1"] by simp
  then show ?thesis
    using m d by (cases rule: month_cases [OF m])
      (auto simp: x next_day_def days_def to_march_def march_month_def days_in_month_def)
qed

lemma days_start: "days (0, 3, 1) = 0"
  by (simp add: days_def to_march_def march_month_def march_year_def)

text \<open>The days of a March year, and that the years follow each other.\<close>

definition day_of_march_year :: "int \<times> int \<times> int \<Rightarrow> int" where
  "day_of_march_year = (\<lambda>(y, m, d). march_month (snd (to_march (y, m))) + d - 1)"

lemma day_of_march_year_bounds:
  assumes "valid_date (y, m, d)"
  shows "0 \<le> day_of_march_year (y, m, d) \<and>
    day_of_march_year (y, m, d) < march_year (fst (to_march (y, m)) + 1) - march_year (fst (to_march (y, m)))"
proof -
  have m: "1 \<le> m" "m \<le> 12" and d: "1 \<le> d" "d \<le> days_in_month y m" using assms by (simp_all add: valid_date_def)
  have "march_year y = march_year (y - 1) + (if leap y then 366 else 365)"
    using march_year_step [of "y - 1"] by simp
  then show ?thesis
    using d march_year_step [of y] by (cases rule: month_cases [OF m])
      (auto simp: day_of_march_year_def to_march_def march_month_def days_in_month_def split: if_splits)
qed

lemma march_year_mono: "a \<le> b \<Longrightarrow> march_year a \<le> march_year b"
proof (induction "nat (b - a)" arbitrary: b)
  case (Suc n)
  then have "march_year a \<le> march_year (b - 1)" by simp
  then show ?case using march_year_step [of "b - 1"] by (simp split: if_splits)
qed simp

lemma days_year: "days (y, m, d) = march_year (fst (to_march (y, m))) + day_of_march_year (y, m, d)"
  by (simp add: days_def day_of_march_year_def)

lemma march_month_mono: "a \<le> b \<Longrightarrow> march_month a \<le> march_month b"
  by (simp add: march_month_def zdiv_mono1)

lemma march_month_gap:
  assumes "valid_date (y, m, d)"
  shows "snd (to_march (y, m)) < 14 \<longrightarrow> march_month (snd (to_march (y, m))) + d \<le> march_month (snd (to_march (y, m)) + 1)"
    "snd (to_march (y, m)) \<le> 14"
proof -
  have m: "1 \<le> m" "m \<le> 12" and d: "d \<le> days_in_month y m" using assms by (simp_all add: valid_date_def)
  show "snd (to_march (y, m)) < 14 \<longrightarrow> march_month (snd (to_march (y, m))) + d \<le> march_month (snd (to_march (y, m)) + 1)"
    using d by (cases rule: month_cases [OF m]) (simp_all add: to_march_def march_month_def days_in_month_def)
  show "snd (to_march (y, m)) \<le> 14" using m by (simp add: to_march_def)
qed

lemma days_inj:
  assumes v: "valid_date (y, m, d)" "valid_date (y', m', d')" and eq: "days (y, m, d) = days (y', m', d')"
  shows "(y, m, d) = (y', m', d')"
proof -
  define a a' where "a = fst (to_march (y, m))" and "a' = fst (to_march (y', m'))"
  note bounds = day_of_march_year_bounds [OF v(1), folded a_def] day_of_march_year_bounds [OF v(2), folded a'_def]
  have sums: "march_year a + day_of_march_year (y, m, d) = march_year a' + day_of_march_year (y', m', d')"
    using eq by (simp add: days_year a_def a'_def)
  have "\<not> a < a'" using march_year_mono [of "a + 1" a'] bounds sums by linarith
  moreover have "\<not> a' < a" using march_year_mono [of "a' + 1" a] bounds sums by linarith
  ultimately have a: "a = a'" by simp
  then have doy: "day_of_march_year (y, m, d) = day_of_march_year (y', m', d')" using sums by simp
  have m: "1 \<le> m" "m \<le> 12" and m': "1 \<le> m'" "m' \<le> 12"
    and d: "1 \<le> d" "d \<le> days_in_month y m" and d': "1 \<le> d'" "d' \<le> days_in_month y' m'"
    using v by (simp_all add: valid_date_def)
  define k k' where "k = snd (to_march (y, m))" and "k' = snd (to_march (y', m'))"
  note gaps = march_month_gap [OF v(1), folded k_def] march_month_gap [OF v(2), folded k'_def]
  have md: "march_month k + d = march_month k' + d'"
    using doy by (simp add: day_of_march_year_def k_def k'_def)
  have "\<not> k < k'" using march_month_mono [of "k + 1" k'] gaps md d d' by auto
  moreover have "\<not> k' < k" using march_month_mono [of "k' + 1" k] gaps md d d' by auto
  ultimately have k: "k = k'" by simp
  then have "m = m' \<and> d = d'"
    using md m m' by (auto simp: k_def k'_def to_march_def split: if_splits)
  then show ?thesis using a by (auto simp: a_def a'_def to_march_def split: if_splits)
qed


subsection \<open>The code counts days\<close>

lemma ymd_to_numdays_eq:
  assumes v: "valid_date (y, m, d)" and r: "count_range (y, m, d)"
  shows "ymd_to_numdays y m d = Some (days (y, m, d))"
    "0 \<le> days (y, m, d)" "days (y, m, d) < 400000000"
proof -
  define a k where "a = fst (to_march (y, m))" and "k = snd (to_march (y, m))"
  have a: "0 \<le> a" "a < 1000000" and k: "3 \<le> k" "k \<le> 14"
    using v r by (auto simp: a_def k_def to_march_def count_range_def valid_date_def)
  have d: "1 \<le> d" "d \<le> 31" using v by (auto simp: valid_date_def days_in_month_def split: if_splits)
  have ym: "(if m < 3 then (y - 1, m + 12) else (y, m)) = (a, k)" by (simp add: a_def k_def to_march_def)
  have q: "0 \<le> a div 4" "a div 4 \<le> a" "0 \<le> a div 100" "a div 100 \<le> a" "0 \<le> a div 400" "a div 400 \<le> a"
    "a div 100 \<le> a div 4"
    using a by (simp_all add: zdiv_mono2)
  have e: "0 \<le> (153 * (k - 3) + 2) div 5" "(153 * (k - 3) + 2) div 5 \<le> 337"
    using k by simp_all
  have pre: "in32 (if m < 3 then [m + 12, y - 1] else []) = Some ()"
    using v r by (auto simp: in32_def fits32_def valid_date_def count_range_def)
  show "ymd_to_numdays y m d = Some (days (y, m, d))"
    unfolding ymd_to_numdays_def pre ym Let_def Option.bind.bind_lunit prod.case
    using a k d q e
    by (simp add: sdiv_nonneg in32_def fits32_def days_def a_def [symmetric]
        k_def [symmetric] march_year_def march_month_def)
  have "days (y, m, d) = 365 * a + a div 4 - a div 100 + a div 400 + (153 * (k - 3) + 2) div 5 + d - 1"
    by (simp add: days_def a_def k_def march_year_def march_month_def)
  then show "0 \<le> days (y, m, d)" "days (y, m, d) < 400000000"
    using a q e d by linarith+
qed

text \<open>The inverse: centuries of 36524 or 36525 days, years of 365 or 366, months by the table.\<close>

definition of_day_of_march_year :: "int \<Rightarrow> int \<Rightarrow> int \<times> int \<times> int" where
  "of_day_of_march_year y ri =
     (let m = (5 * ri + 2) div 153 + 3; d = ri - (153 * (m - 3) + 2) div 5 + 1
      in if m > 12 then (y + 1, m - 12, d) else (y, m, d))"

lemma of_day_bounds:
  assumes "0 \<le> ri" "ri \<le> (365 :: int)"
  defines "m \<equiv> (5 * ri + 2) div 153 + 3"
  shows "3 \<le> m \<and> m \<le> 14 \<and> 1 \<le> ri - (153 * (m - 3) + 2) div 5 + 1 \<and> ri - (153 * (m - 3) + 2) div 5 + 1 \<le> 31"
proof -
  define e where "e = (153 * (m - 3) + 2) div 5"
  define k where "k = 153 * (m - 3)"
  have k: "5 * ri + 2 < k + 153" "k \<le> 5 * ri + 2" unfolding m_def k_def by simp_all
  have e: "5 * e \<le> k + 2" "k + 2 < 5 * e + 5" unfolding e_def k_def by simp_all
  have "e \<le> ri" using e(1) k(2) by linarith
  moreover have "ri \<le> e + 30" using e(2) k(1) by linarith
  moreover have "3 \<le> m" "m \<le> 14" using assms by simp_all
  ultimately show ?thesis unfolding e_def [symmetric] by simp
qed

lemma of_day_correct:
  assumes ri: "0 \<le> ri" "ri \<le> 365" "ri = 365 \<longrightarrow> leap (y + 1)"
  shows "valid_date (of_day_of_march_year y ri) \<and> days (of_day_of_march_year y ri) = march_year y + ri"
proof -
  define m where "m = (5 * ri + 2) div 153 + 3"
  have lo: "153 * (m - 3) \<le> 5 * ri + 2" "5 * ri + 2 < 153 * (m - 2)" unfolding m_def by simp_all
  have m: "1 \<le> m - 2" "m - 2 \<le> 12" using of_day_bounds [OF ri(1,2)] by (simp_all add: m_def)
  show ?thesis
    using lo ri by (cases rule: month_cases [OF m]) (auto simp: of_day_of_march_year_def m_def [symmetric] Let_def valid_date_def days_def
        to_march_def march_month_def days_in_month_def)
qed


text \<open>The split of a number of days into centuries, years and a day.\<close>

lemma century_split:
  assumes "0 \<le> n"
  defines "yc \<equiv> (4 * n + 3) div 146097"
  defines "rc \<equiv> n - 36524 * yc - yc div 4"
  shows "0 \<le> yc" "0 \<le> rc" "rc \<le> 36524" "rc = 36524 \<longrightarrow> yc mod 4 = (3 :: int)"
proof -
  define q r where "q = yc div 4" and "r = yc mod 4"
  have qr: "yc = 4 * q + r" "0 \<le> r" "r \<le> 3" by (simp_all add: q_def r_def)
  define k where "k = 146097 * yc"
  have lo: "k \<le> 4 * n + 3" and hi: "4 * n + 3 < k + 146097" unfolding k_def yc_def by simp_all
  show "0 \<le> yc" using assms(1) by (simp add: yc_def)
  have rc: "rc = n - 36524 * yc - q" by (simp add: rc_def q_def)
  have four: "4 * rc = 4 * n - k + r" using rc qr(1) by (simp add: k_def)
  show "0 \<le> rc" using four lo qr(2,3) by linarith
  have up: "4 * rc \<le> 146093 + r" using four hi by linarith
  show "rc \<le> 36524" using up qr(2,3) by linarith
  show "rc = 36524 \<longrightarrow> yc mod 4 = 3" using up qr(2,3) by (auto simp: r_def)
qed

lemma year_split:
  assumes "0 \<le> rc" "rc \<le> 36524"
  defines "yi \<equiv> (4 * rc + 3) div 1461"
  defines "ri \<equiv> rc - 365 * yi - yi div 4"
  shows "0 \<le> yi" "yi \<le> 99" "0 \<le> ri" "ri \<le> 365" "ri = 365 \<longrightarrow> yi mod 4 = 3" "yi = 99 \<and> ri = 365 \<longrightarrow> rc = (36524 :: int)"
proof -
  define q r where "q = yi div 4" and "r = yi mod 4"
  have qr: "yi = 4 * q + r" "0 \<le> r" "r \<le> 3" by (simp_all add: q_def r_def)
  define k where "k = 1461 * yi"
  have lo: "k \<le> 4 * rc + 3" and hi: "4 * rc + 3 < k + 1461" unfolding k_def yi_def by simp_all
  show "0 \<le> yi" using assms(1) by (simp add: yi_def)
  show "yi \<le> 99" using assms(2) unfolding yi_def by simp
  have ri: "ri = rc - 365 * yi - q" by (simp add: ri_def q_def)
  have four: "4 * ri = 4 * rc - k + r" using ri qr(1) by (simp add: k_def)
  show "0 \<le> ri" using four lo qr(2,3) by linarith
  have up: "4 * ri \<le> 1457 + r" using four hi by linarith
  show "ri \<le> 365" using up qr(2,3) by linarith
  show "ri = 365 \<longrightarrow> yi mod 4 = 3" using up qr(2,3) by (auto simp: r_def)
  show "yi = 99 \<and> ri = 365 \<longrightarrow> rc = 36524" using ri by (auto simp: q_def)
qed

lemma march_year_century:
  assumes "0 \<le> yi" "yi \<le> 99"
  shows "march_year (100 * yc + yi) = 36524 * yc + yc div 4 + 365 * yi + yi div 4"
proof -
  define q r where "q = yc div 4" and "r = yc mod 4"
  have qr: "yc = r + 4 * q" "0 \<le> r" "r \<le> 3" by (simp_all add: q_def r_def)
  have "100 * yc + yi = yi + 4 * (25 * yc)" by simp
  then have four: "(100 * yc + yi) div 4 = 25 * yc + yi div 4" by (simp only: div_mult_self2)
  have "100 * yc + yi = yi + 100 * yc" by simp
  moreover have "yi div 100 = 0" using assms by (intro div_pos_pos_trivial) linarith+
  ultimately have hundred: "(100 * yc + yi) div 100 = yc" by (simp only: div_mult_self2)
  have "100 * yc + yi = (100 * r + yi) + 400 * q" by (subst qr(1)) simp
  moreover have "(100 * r + yi) div 400 = 0" using assms qr(2,3) by (intro div_pos_pos_trivial) linarith+
  ultimately have "(100 * yc + yi) div 400 = q" by (simp only: div_mult_self2)
  then show ?thesis unfolding march_year_def four hundred q_def by simp
qed

lemma leap_century:
  assumes "0 \<le> yi" "yi \<le> 99" "yi mod 4 = 3" "yi = 99 \<longrightarrow> yc mod 4 = 3"
  shows "leap (100 * yc + yi + 1)"
proof (cases "yi = 99")
  case True
  then have "yc mod 4 = 3" using assms by simp
  then have "yc = 4 * (yc div 4) + 3" using div_mult_mod_eq [of yc 4] by simp
  then have "100 * yc + yi + 1 = 400 * (yc div 4 + 1)" using True by simp
  then show ?thesis by (simp add: leap_def)
next
  case False
  have "(100 * yc + yi + 1) mod 100 = (yi + 1) mod 100" using mod_mult_self4 [of 100 yc "yi + 1"] by (simp add: add.assoc)
  then have "(100 * yc + yi + 1) mod 100 \<noteq> 0" using False assms by simp
  moreover have "yi = 4 * (yi div 4) + 3" using assms(3) div_mult_mod_eq [of yi 4] by simp
  then have "100 * yc + yi + 1 = 4 * (25 * yc + yi div 4 + 1)" by simp
  then have "(100 * yc + yi + 1) mod 4 = 0" by (simp only: mod_mult_self1_is_0)
  ultimately show ?thesis by (simp add: leap_def)
qed

lemma numdays_to_ymd_eq:
  assumes n: "0 \<le> n" "n < 400000000"
  shows "\<exists>x. numdays_to_ymd n = Some x \<and> valid_date x \<and> days x = n \<and> (fst x, fst (snd x)) \<noteq> (0, 1) \<and> (fst x, fst (snd x)) \<noteq> (0, 2) \<and> 0 \<le> fst x"
proof -
  define yc where "yc = (4 * n + 3) div 146097"
  define rc where "rc = n - 36524 * yc - yc div 4"
  define yi where "yi = (4 * rc + 3) div 1461"
  define ri where "ri = rc - 365 * yi - yi div 4"
  note c = century_split [OF n(1), folded yc_def, folded rc_def]
  note y = year_split [OF c(2,3), folded yi_def, folded ri_def]
  define m where "m = (5 * ri + 2) div 153 + 3"
  define e where "e = (153 * (m - 3) + 2) div 5"
  note mb = of_day_bounds [OF y(3,4), folded m_def, folded e_def]
  have m: "3 \<le> m" "m \<le> 14" "e \<le> ri" "ri \<le> e + 30" using mb by simp_all
  have yc: "yc \<le> 10952" using n unfolding yc_def by simp
  have q: "0 \<le> yc div 4" "yc div 4 \<le> yc" "0 \<le> yi div 4" "yi div 4 \<le> yi" using c(1) y(1) by (simp_all add: zdiv_mono2)
  have diffs: "n - 36524 * yc = rc + yc div 4" "rc - 365 * yi = ri + yi div 4" by (simp_all add: rc_def ri_def)
  have nn: "0 \<le> 4 * n + 3" "0 \<le> 4 * rc + 3" "0 \<le> 5 * ri + 2" "0 \<le> 153 * (m - 3) + 2"
    using n c(2) y(3) m(1) by simp_all
  have "list_all fits32 [4 * n, 4 * n + 3, 36524 * yc, rc + yc div 4, rc,
      4 * rc, 4 * rc + 3, 365 * yi, ri + yi div 4, ri, 100 * yc, 100 * yc + yi,
      5 * ri, 5 * ri + 2, m, m - 3, 153 * (m - 3), 153 * (m - 3) + 2, ri - e, ri - e + 1]"
    unfolding list.pred_inject fits32_def using n c(1,2,3) y(1,2,3,4) m yc q by (intro conjI) simp_all
  then have checks: "in32 [4 * n, 4 * n + 3, 36524 * yc, n - 36524 * yc, rc,
      4 * rc, 4 * rc + 3, 365 * yi, rc - 365 * yi, ri, 100 * yc, 100 * yc + yi,
      5 * ri, 5 * ri + 2, m, m - 3, 153 * (m - 3), 153 * (m - 3) + 2, ri - e, ri - e + 1] = Some ()"
    unfolding diffs by (rule in32_ok)
  have y1: "in32 [100 * yc + yi + 1] = Some ()" using c(1) y(1,2) yc by (simp add: in32_def fits32_def)
  have pos: "0 < (146097 :: int)" "0 < (4 :: int)" "0 < (1461 :: int)" "0 < (153 :: int)" "0 < (5 :: int)" by simp_all
  note quot = sdiv_nonneg [OF nn(1) pos(1), folded yc_def] sdiv_nonneg [OF c(1) pos(2)]
    sdiv_nonneg [OF nn(2) pos(3), folded yi_def] sdiv_nonneg [OF y(1) pos(2)]
    sdiv_nonneg [OF nn(3) pos(4)] sdiv_nonneg [OF nn(4) pos(5), folded e_def]
  have "numdays_to_ymd n = Some (of_day_of_march_year (100 * yc + yi) ri)"
    by (simp only: numdays_to_ymd_def Let_def quot rc_def [symmetric] ri_def [symmetric] checks y1
      Option.bind.bind_lunit of_day_of_march_year_def m_def [symmetric] e_def [symmetric]) simp
  moreover have "ri = 365 \<longrightarrow> leap (100 * yc + yi + 1)"
    using y(5,6) c(4) leap_century [OF y(1,2)] by blast
  then have "valid_date (of_day_of_march_year (100 * yc + yi) ri)" "days (of_day_of_march_year (100 * yc + yi) ri) = n"
    using of_day_correct [OF y(3,4)] march_year_century [OF y(1,2)] by (simp_all add: rc_def ri_def)
  moreover have "0 \<le> 100 * yc + yi" using c(1) y(1) by simp
  ultimately show ?thesis using m by (auto simp: of_day_of_march_year_def m_def [symmetric] Let_def)
qed


lemma next_day_valid: "valid_date x \<Longrightarrow> valid_date (next_day x)"
  by (auto simp: valid_date_def next_day_def days_in_month_def split: prod.splits if_splits)

lemma next_day_range: "valid_date x \<Longrightarrow> count_range x \<Longrightarrow> fst x < 999999 \<Longrightarrow> count_range (next_day x)"
  by (auto simp: valid_date_def count_range_def next_day_def split: prod.splits if_splits)

lemma numdays_of: "valid_date x \<Longrightarrow> count_range x \<Longrightarrow> (case x of (y, m, d) \<Rightarrow> ymd_to_numdays y m d) = Some (days x)"
  by (cases x) (simp add: ymd_to_numdays_eq)

lemma dayofweek_of:
  assumes "valid_date x" "count_range x"
  shows "(case x of (y, m, d) \<Rightarrow> ymd_to_dayofweek y m d) = Some ((days x + 3) mod 7 + 1)"
proof -
  obtain y m d where x: "x = (y, m, d)" by (cases x)
  have "0 \<le> days x" "days x < 400000000" "ymd_to_numdays y m d = Some (days x)"
    using ymd_to_numdays_eq [of y m d] assms by (simp_all add: x)
  then show ?thesis by (simp add: x ymd_to_dayofweek_def in32_def fits32_def smod_nonneg)
qed

subsection \<open>Properties\<close>

text \<open>
  ymd_to_numdays counts the days of the Gregorian calendar: 1 March of the year 0 is day 0, and the
  day after a valid date has the next number; nothing overflows for years below a million.
\<close>
theorem ymd_to_numdays_counts:
  assumes "valid_date x" "count_range x" "fst x < 999999"
  shows "ymd_to_numdays 0 3 1 = Some 0 \<and>
    (\<exists>n. (case x of (y, m, d) \<Rightarrow> ymd_to_numdays y m d) = Some n \<and>
         (case next_day x of (y, m, d) \<Rightarrow> ymd_to_numdays y m d) = Some (n + 1))"
proof -
  have "(case (0, 3, 1) of (y, m, d) \<Rightarrow> ymd_to_numdays y m d) = Some (days (0, 3, 1))"
    by (rule numdays_of) (simp_all add: valid_date_def count_range_def days_in_month_def)
  then show ?thesis
    using numdays_of [OF assms(1,2)] numdays_of [OF next_day_valid next_day_range] assms
    by (simp add: days_start days_next)
qed

theorem ymd_to_numdays_counts_witness:
  "\<exists>n. ymd_to_numdays 2024 2 29 = Some n \<and> ymd_to_numdays 2024 3 1 = Some (n + 1)"
  using ymd_to_numdays_counts [of "(2024, 2, 29)"]
  by (simp add: valid_date_def count_range_def days_in_month_def leap_def next_day_def)

text \<open>
  C26. numdays_to_ymd and ymd_to_numdays are inverse: every date comes back from its number, and every
  number of a day is the number of the valid date that numdays_to_ymd returns.
\<close>
theorem numdays_to_ymd_inverse:
  assumes "valid_date x" "count_range x" "0 \<le> n" "n < 300000000"
  shows "(case x of (y, m, d) \<Rightarrow> ymd_to_numdays y m d) \<bind> numdays_to_ymd = Some x \<and>
    (\<exists>y m d. numdays_to_ymd n = Some (y, m, d) \<and> valid_date (y, m, d) \<and> ymd_to_numdays y m d = Some n)"
proof
  obtain y m d where x: "x = (y, m, d)" by (cases x)
  have dx: "0 \<le> days x" "days x < 400000000" using ymd_to_numdays_eq [of y m d] assms by (simp_all add: x)
  obtain x' where x': "numdays_to_ymd (days x) = Some x'" "valid_date x'" "days x' = days x"
    using numdays_to_ymd_eq [OF dx] by blast
  have "x' = x" using days_inj x'(2,3) assms(1) by (cases x; cases x') blast
  then show "(case x of (y, m, d) \<Rightarrow> ymd_to_numdays y m d) \<bind> numdays_to_ymd = Some x"
    using numdays_of [OF assms(1,2)] x'(1) by simp
next
  have "n < 400000000" using assms by simp
  then obtain x' where x': "numdays_to_ymd n = Some x'" "valid_date x'" "days x' = n"
    "(fst x', fst (snd x')) \<noteq> (0, 1)" "(fst x', fst (snd x')) \<noteq> (0, 2)" "0 \<le> fst x'"
    using numdays_to_ymd_eq [OF assms(3)] by blast
  obtain y m d where x: "x' = (y, m, d)" by (cases x')
  have "\<not> 1000000 \<le> y"
  proof
    assume y: "1000000 \<le> y"
    then have "march_year 999999 \<le> march_year (fst (to_march (y, m)))"
      by (intro march_year_mono) (simp add: to_march_def)
    then have "march_year 999999 \<le> n"
      using day_of_march_year_bounds [of y m d] x'(2,3) by (simp add: x days_year)
    then show False using assms(4) by (simp add: march_year_def)
  qed
  then have "count_range (y, m, d)" using x'(2,4,5,6) by (auto simp: x count_range_def valid_date_def)
  then show "\<exists>y m d. numdays_to_ymd n = Some (y, m, d) \<and> valid_date (y, m, d) \<and> ymd_to_numdays y m d = Some n"
    using x' ymd_to_numdays_eq [of y m d] by (auto simp: x)
qed

theorem numdays_to_ymd_inverse_witness:
  "ymd_to_numdays 2000 2 29 \<bind> numdays_to_ymd = Some (2000, 2, 29)"
  using numdays_to_ymd_inverse [of "(2000, 2, 29)" 0]
  by (simp add: valid_date_def count_range_def days_in_month_def leap_def)

text \<open>
  ymd_to_dayofweek: 1 January 1970 is a Thursday (5 with 1 for Sunday), and the day of the week
  advances from each day to the next.
\<close>
theorem ymd_to_dayofweek_advances:
  assumes "valid_date x" "count_range x" "fst x < 999999"
  shows "ymd_to_dayofweek 1970 1 1 = Some 5 \<and>
    (\<exists>w. (case x of (y, m, d) \<Rightarrow> ymd_to_dayofweek y m d) = Some w \<and> 1 \<le> w \<and> w \<le> 7 \<and>
         (case next_day x of (y, m, d) \<Rightarrow> ymd_to_dayofweek y m d) = Some (if w = 7 then 1 else w + 1))"
proof -
  have "(case (1970, 1, 1) of (y, m, d) \<Rightarrow> ymd_to_dayofweek y m d) = Some ((days (1970, 1, 1) + 3) mod 7 + 1)"
    by (rule dayofweek_of) (simp_all add: valid_date_def count_range_def days_in_month_def)
  then have epoch: "ymd_to_dayofweek 1970 1 1 = Some 5"
    by (simp add: days_def to_march_def march_year_def march_month_def)
  define r where "r = (days x + 3) mod 7"
  have r: "0 \<le> r" "r < 7" by (simp_all add: r_def)
  have "(days (next_day x) + 3) mod 7 = (r + 1) mod 7"
    using mod_add_left_eq [of "days x + 3" 7 1] days_next [OF assms(1)] by (simp add: r_def)
  also have "(r + 1) mod 7 = (if r = 6 then 0 else r + 1)" using r by simp
  finally have "(case next_day x of (y, m, d) \<Rightarrow> ymd_to_dayofweek y m d) = Some ((if r = 6 then 0 else r + 1) + 1)"
    using dayofweek_of [OF next_day_valid next_day_range] assms by simp
  then show ?thesis
    using dayofweek_of [OF assms(1,2)] epoch r by (simp add: r_def [symmetric])
qed

theorem ymd_to_dayofweek_advances_witness:
  "\<exists>w. ymd_to_dayofweek 2024 12 31 = Some w \<and> ymd_to_dayofweek 2025 1 1 = Some (if w = 7 then 1 else w + 1)"
  using ymd_to_dayofweek_advances [of "(2024, 12, 31)"]
  by (auto simp: valid_date_def count_range_def days_in_month_def next_day_def)

end
