(* ===== verification/Datetime.thy ===== *)
theory Datetime
  imports Calendar
begin

text \<open>
  text/datetime_utility.hpp and text/datetime_utility.cc: a datetime is a 64-bit count of nanoseconds
  since 1 January 1970.  A datetime argument is an integer that fits 64 bits; every \<open>int\<close> or 64-bit
  operation that can overflow is checked (\<open>in32\<close>, \<open>in64\<close>), and \<open>None\<close> is that overflow.
\<close>

subsection \<open>Fields\<close>

record ymdHMSns =
  f_year :: int
  f_month :: int
  f_day :: int
  f_hour :: int
  f_minute :: int
  f_second :: int
  f_nanosecond :: int

definition makedatetime :: "int \<Rightarrow> int \<Rightarrow> int \<Rightarrow> int \<Rightarrow> int \<Rightarrow> int \<Rightarrow> int \<Rightarrow> int option" where
  "makedatetime year month day hour minute second nanosecond = do {
     numdays \<leftarrow> ymd_to_numdays year month day;
     in32 [numdays - 719468, hour * 3600, minute * 60];
     let a = (numdays - 719468) * 86400;
     let totalsecond = a + hour * 3600 + minute * 60 + second;
     in64 [a, a + hour * 3600, a + hour * 3600 + minute * 60, totalsecond,
           totalsecond * 1000000000, totalsecond * 1000000000 + nanosecond];
     Some (totalsecond * 1000000000 + nanosecond) }"

definition datetime_to_ymdHMSns :: "int \<Rightarrow> ymdHMSns option" where
  "datetime_to_ymdHMSns t =
     (let ts = t sdiv 1000000000;
          nanosecond = to_int (t - ts * 1000000000);
          tm = ts sdiv 60;
          second = to_int (ts - tm * 60);
          th = tm sdiv 60;
          minute = to_int (tm - th * 60);
          td = th sdiv 24;
          hour = to_int (th - td * 24);
          numdays = to_int (td + 719468)
      in do {
        (year, month, day) \<leftarrow> numdays_to_ymd numdays;
        Some \<lparr>f_year = year, f_month = month, f_day = day, f_hour = hour, f_minute = minute,
               f_second = second, f_nanosecond = nanosecond\<rparr> })"

definition ymdHMSns_to_datetime :: "int \<Rightarrow> int \<Rightarrow> int \<Rightarrow> int \<Rightarrow> int \<Rightarrow> int \<Rightarrow> int \<Rightarrow> int option" where
  "ymdHMSns_to_datetime y m d H M S ns = makedatetime y m d H M S ns"

definition year_from_datetime :: "int \<Rightarrow> int option" where
  "year_from_datetime t = do { f \<leftarrow> datetime_to_ymdHMSns t; Some (f_year f) }"

definition month_from_datetime :: "int \<Rightarrow> int option" where
  "month_from_datetime t = do { f \<leftarrow> datetime_to_ymdHMSns t; Some (f_month f) }"

definition day_from_datetime :: "int \<Rightarrow> int option" where
  "day_from_datetime t = do { f \<leftarrow> datetime_to_ymdHMSns t; Some (f_day f) }"

definition hour_from_datetime :: "int \<Rightarrow> int" where
  "hour_from_datetime t =
     (let ts = t sdiv 1000000000; tm = ts sdiv 60; th = tm sdiv 60; td = th sdiv 24 in to_int (th - td * 24))"

definition minute_from_datetime :: "int \<Rightarrow> int" where
  "minute_from_datetime t =
     (let ts = t sdiv 1000000000; tm = ts sdiv 60; th = tm sdiv 60 in to_int (tm - th * 60))"

definition second_from_datetime :: "int \<Rightarrow> int" where
  "second_from_datetime t = (let ts = t sdiv 1000000000; tm = ts sdiv 60 in to_int (ts - tm * 60))"

definition nanosecond_from_datetime :: "int \<Rightarrow> int" where
  "nanosecond_from_datetime t = (let ts = t sdiv 1000000000 in to_int (t - ts * 1000000000))"

subsection \<open>Differences\<close>

definition datetime_diff_nanosecond :: "int \<Rightarrow> int \<Rightarrow> int option" where
  "datetime_diff_nanosecond a b = do { in64 [a - b]; Some (a - b) }"

text \<open>The common form of the differences in a unit of \<open>u\<close> nanoseconds.\<close>

definition datetime_diff_unit :: "int \<Rightarrow> int \<Rightarrow> int \<Rightarrow> int option" where
  "datetime_diff_unit u a b = (let ad = a sdiv u; bd = b sdiv u in do { in64 [ad - bd]; Some (ad - bd) })"

definition datetime_diff_second :: "int \<Rightarrow> int \<Rightarrow> int option" where
  "datetime_diff_second = datetime_diff_unit 1000000000"

definition datetime_diff_minute :: "int \<Rightarrow> int \<Rightarrow> int option" where
  "datetime_diff_minute = datetime_diff_unit (60 * 1000000000)"

definition datetime_diff_hour :: "int \<Rightarrow> int \<Rightarrow> int option" where
  "datetime_diff_hour = datetime_diff_unit (60 * 60 * 1000000000)"

definition datetime_diff_day :: "int \<Rightarrow> int \<Rightarrow> int option" where
  "datetime_diff_day = datetime_diff_unit (24 * 60 * 60 * 1000000000)"

definition datetime_diff_month :: "int \<Rightarrow> int \<Rightarrow> int option" where
  "datetime_diff_month a b = do {
     af \<leftarrow> datetime_to_ymdHMSns a;
     bf \<leftarrow> datetime_to_ymdHMSns b;
     let dy = f_year af - f_year bf;
     in32 [dy, dy * 12, f_month af - f_month bf, dy * 12 + (f_month af - f_month bf)];
     Some (dy * 12 + (f_month af - f_month bf)) }"

definition datetime_diff_year :: "int \<Rightarrow> int \<Rightarrow> int option" where
  "datetime_diff_year a b = do {
     af \<leftarrow> datetime_to_ymdHMSns a;
     bf \<leftarrow> datetime_to_ymdHMSns b;
     in32 [f_year af - f_year bf];
     Some (f_year af - f_year bf) }"

subsection \<open>Sums\<close>

definition datetime_add_nanosecond :: "int \<Rightarrow> int \<Rightarrow> int option" where
  "datetime_add_nanosecond t val = do { in64 [t + val]; Some (t + val) }"

definition datetime_sub_nanosecond :: "int \<Rightarrow> int \<Rightarrow> int option" where
  "datetime_sub_nanosecond t val = do { in64 [t - val]; Some (t - val) }"

definition datetime_add_second :: "int \<Rightarrow> int \<Rightarrow> int option" where
  "datetime_add_second t val = do {
     in64 [val * 1000000000, t + val * 1000000000]; Some (t + val * 1000000000) }"

definition datetime_sub_second :: "int \<Rightarrow> int \<Rightarrow> int option" where
  "datetime_sub_second t val = do {
     in64 [val * 1000000000, t - val * 1000000000]; Some (t - val * 1000000000) }"

definition datetime_add_minute :: "int \<Rightarrow> int \<Rightarrow> int option" where
  "datetime_add_minute t val = do {
     in64 [val * 60, val * 60 * 1000000000, t + val * 60 * 1000000000]; Some (t + val * 60 * 1000000000) }"

definition datetime_sub_minute :: "int \<Rightarrow> int \<Rightarrow> int option" where
  "datetime_sub_minute t val = do {
     in64 [val * 60, val * 60 * 1000000000, t - val * 60 * 1000000000]; Some (t - val * 60 * 1000000000) }"

definition datetime_add_hour :: "int \<Rightarrow> int \<Rightarrow> int option" where
  "datetime_add_hour t val = do {
     in64 [val * 60, val * 60 * 60, val * 60 * 60 * 1000000000, t + val * 60 * 60 * 1000000000];
     Some (t + val * 60 * 60 * 1000000000) }"

definition datetime_sub_hour :: "int \<Rightarrow> int \<Rightarrow> int option" where
  "datetime_sub_hour t val = do {
     in64 [val * 60, val * 60 * 60, val * 60 * 60 * 1000000000, t - val * 60 * 60 * 1000000000];
     Some (t - val * 60 * 60 * 1000000000) }"

definition datetime_add_day :: "int \<Rightarrow> int \<Rightarrow> int option" where
  "datetime_add_day t val = do {
     in64 [val * 24, val * 24 * 60, val * 24 * 60 * 60, val * 24 * 60 * 60 * 1000000000,
           t + val * 24 * 60 * 60 * 1000000000];
     Some (t + val * 24 * 60 * 60 * 1000000000) }"

definition datetime_sub_day :: "int \<Rightarrow> int \<Rightarrow> int option" where
  "datetime_sub_day t val = do {
     in64 [val * 24, val * 24 * 60, val * 24 * 60 * 60, val * 24 * 60 * 60 * 1000000000,
           t - val * 24 * 60 * 60 * 1000000000];
     Some (t - val * 24 * 60 * 60 * 1000000000) }"

definition lastday_of_month :: "int list" where
  "lastday_of_month = [31, 28, 31, 30, 31, 30, 31, 31, 30, 31, 30, 31]"

definition rd_int :: "'a list \<Rightarrow> int \<Rightarrow> 'a option" where
  "rd_int xs i = (if i < 0 then None else rd xs (nat i))"

text \<open>\<open>(y % 4 == 0) - (y % 100 == 0) + (y % 400 == 0)\<close>\<close>

definition isleap :: "int \<Rightarrow> int" where
  "isleap y = of_bool (y smod 4 = 0) - of_bool (y smod 100 = 0) + of_bool (y smod 400 = 0)"

definition last_day :: "int \<Rightarrow> int \<Rightarrow> int option" where
  "last_day y m = do {
     thislastday \<leftarrow> rd_int lastday_of_month (m - 1);
     Some (if m = 2 then thislastday + isleap y else thislastday) }"

definition ceil_div_int :: "int \<Rightarrow> int \<Rightarrow> int" where
  "ceil_div_int a b = (if a = 0 then 0 else (a - 1) sdiv b + 1)"

definition datetime_add_month :: "int \<Rightarrow> int \<Rightarrow> int option" where
  "datetime_add_month t val = do {
     f \<leftarrow> datetime_to_ymdHMSns t;
     in64 [f_month f + val, f_month f + val - 1];
     let mtmp = to_int (f_month f + val - 1);
     (y, m) \<leftarrow> (if mtmp \<ge> 0 then
         let divided = mtmp sdiv 12 in do {
           in32 [f_year f + divided];
           Some (f_year f + divided, mtmp - divided * 12 + 1) }
       else do {
         in32 [- mtmp];
         let divided = ceil_div_int (- mtmp) 12;
         in32 [f_year f - divided, divided * 12, mtmp + divided * 12, mtmp + divided * 12 + 1];
         Some (f_year f - divided, mtmp + divided * 12 + 1) });
     thislastday \<leftarrow> last_day y m;
     let d = (if f_day f > thislastday then thislastday else f_day f);
     makedatetime y m d (f_hour f) (f_minute f) (f_second f) (f_nanosecond f) }"

definition datetime_sub_month :: "int \<Rightarrow> int \<Rightarrow> int option" where
  "datetime_sub_month t val = do { in64 [- val]; datetime_add_month t (- val) }"

text \<open>\<open>y += val\<close> adds in 64 bits and keeps the low 32.\<close>

definition datetime_add_year :: "int \<Rightarrow> int \<Rightarrow> int option" where
  "datetime_add_year t val = do {
     f \<leftarrow> datetime_to_ymdHMSns t;
     in64 [f_year f + val];
     let y = to_int (f_year f + val);
     let d = (if f_month f = 2 \<and> isleap y = 0 \<and> f_day f = 29 then 28 else f_day f);
     makedatetime y (f_month f) d (f_hour f) (f_minute f) (f_second f) (f_nanosecond f) }"

definition datetime_sub_year :: "int \<Rightarrow> int \<Rightarrow> int option" where
  "datetime_sub_year t val = do { in64 [- val]; datetime_add_year t (- val) }"

subsection \<open>Days of weeks and years\<close>

definition dayofweek_from_datetime :: "int \<Rightarrow> int option" where
  "dayofweek_from_datetime t = do {
     f \<leftarrow> datetime_to_ymdHMSns t; ymd_to_dayofweek (f_year f) (f_month f) (f_day f) }"

definition dayofyear_from_datetime :: "int \<Rightarrow> int option" where
  "dayofyear_from_datetime t = do {
     f \<leftarrow> datetime_to_ymdHMSns t;
     numdays \<leftarrow> ymd_to_numdays (f_year f) (f_month f) (f_day f);
     firstday \<leftarrow> ymd_to_numdays (f_year f) 1 1;
     in32 [numdays - firstday, numdays - firstday + 1];
     Some (numdays - firstday + 1) }"

definition quarter_from_datetime :: "int \<Rightarrow> int option" where
  "quarter_from_datetime t = do {
     f \<leftarrow> datetime_to_ymdHMSns t; Some ((f_month f - 1) sdiv 3 + 1) }"

definition weekofyear_from_datetime :: "int \<Rightarrow> int option" where
  "weekofyear_from_datetime t = do {
     f \<leftarrow> datetime_to_ymdHMSns t;
     numdays \<leftarrow> ymd_to_numdays (f_year f) (f_month f) (f_day f);
     firstday \<leftarrow> ymd_to_numdays (f_year f) 1 1;
     let jan1 = (firstday + 2) smod 7;
     let num1stweek = 7 - jan1;
     in32 [firstday + 2, numdays - firstday, numdays - firstday - num1stweek];
     let weeks = (numdays - firstday - num1stweek) sdiv 7;
     Some (weeks + 1 + of_bool (num1stweek > 3)) }"

definition datetime_truncate_year :: "int \<Rightarrow> int option" where
  "datetime_truncate_year t = do {
     f \<leftarrow> datetime_to_ymdHMSns t; makedatetime (f_year f) 1 1 0 0 0 0 }"

definition datetime_truncate_month :: "int \<Rightarrow> int option" where
  "datetime_truncate_month t = do {
     f \<leftarrow> datetime_to_ymdHMSns t; makedatetime (f_year f) (f_month f) 1 0 0 0 0 }"

definition datetime_truncate_day :: "int \<Rightarrow> int option" where
  "datetime_truncate_day t = do {
     f \<leftarrow> datetime_to_ymdHMSns t; makedatetime (f_year f) (f_month f) (f_day f) 0 0 0 0 }"

definition datetime_truncate_hour :: "int \<Rightarrow> int option" where
  "datetime_truncate_hour t = do {
     f \<leftarrow> datetime_to_ymdHMSns t; makedatetime (f_year f) (f_month f) (f_day f) (f_hour f) 0 0 0 }"

definition datetime_truncate_minute :: "int \<Rightarrow> int option" where
  "datetime_truncate_minute t = do {
     f \<leftarrow> datetime_to_ymdHMSns t;
     makedatetime (f_year f) (f_month f) (f_day f) (f_hour f) (f_minute f) 0 0 }"

definition datetime_truncate_second :: "int \<Rightarrow> int option" where
  "datetime_truncate_second t = do {
     f \<leftarrow> datetime_to_ymdHMSns t;
     makedatetime (f_year f) (f_month f) (f_day f) (f_hour f) (f_minute f) (f_second f) 0 }"

definition datetime_truncate_quarter :: "int \<Rightarrow> int option" where
  "datetime_truncate_quarter t = do {
     f \<leftarrow> datetime_to_ymdHMSns t; makedatetime (f_year f) ((f_month f - 1) sdiv 3 * 3 + 1) 1 0 0 0 0 }"

definition datetime_truncate_weekofyear :: "int \<Rightarrow> int option" where
  "datetime_truncate_weekofyear t = do {
     f \<leftarrow> datetime_to_ymdHMSns t;
     thisdayofweek \<leftarrow> ymd_to_dayofweek (f_year f) (f_month f) (f_day f);
     day \<leftarrow> makedatetime (f_year f) (f_month f) (f_day f) 0 0 0 0;
     if thisdayofweek > 1 then datetime_sub_day day (thisdayofweek - 2) else datetime_sub_day day 6 }"

definition datetime_next_day :: "int \<Rightarrow> int \<Rightarrow> int option" where
  "datetime_next_day t dayofweek = do {
     f \<leftarrow> datetime_to_ymdHMSns t;
     thisdayofweek \<leftarrow> ymd_to_dayofweek (f_year f) (f_month f) (f_day f);
     day \<leftarrow> makedatetime (f_year f) (f_month f) (f_day f) 0 0 0 0;
     in32 [7 + dayofweek, dayofweek - thisdayofweek, 7 + dayofweek - thisdayofweek];
     if dayofweek > thisdayofweek then datetime_add_day day (dayofweek - thisdayofweek)
     else datetime_add_day day (7 + dayofweek - thisdayofweek) }"


subsection \<open>Truncating division\<close>

lemma smod_bounds:
  assumes "0 < (b :: int)"
  shows "\<bar>a smod b\<bar> < b" "0 \<le> a \<Longrightarrow> 0 \<le> a smod b" "a \<le> 0 \<Longrightarrow> a smod b \<le> 0"
proof -
  have m: "0 \<le> \<bar>a\<bar> mod b" "\<bar>a\<bar> mod b < b" using assms by simp_all
  then show "\<bar>a smod b\<bar> < b" using assms by (simp add: signed_modulo_int_def abs_mult sgn_if)
  show "0 \<le> a \<Longrightarrow> 0 \<le> a smod b" "a \<le> 0 \<Longrightarrow> a smod b \<le> 0"
    using m assms by (auto simp: signed_modulo_int_def sgn_if)
qed

lemma sdiv_le: "0 < (b :: int) \<Longrightarrow> \<bar>a sdiv b\<bar> \<le> \<bar>a\<bar> div b"
  by (simp add: signed_divide_int_def abs_mult sgn_if pos_imp_zdiv_nonneg_iff)

lemma sdiv_nonpos: "a \<le> 0 \<Longrightarrow> 0 < (b :: int) \<Longrightarrow> a sdiv b \<le> 0"
  by (simp add: signed_divide_int_def sgn_if pos_imp_zdiv_nonneg_iff)

lemma sdiv_split: "a = a sdiv b * b + a smod (b :: int)"
  by (simp add: sdiv_mult_smod_eq)

text \<open>The date and the time of day of a datetime; the time has the sign of the datetime.\<close>

definition epoch_day :: int where "epoch_day = 719468"

definition total_seconds :: "int \<Rightarrow> ymdHMSns \<Rightarrow> int" where
  "total_seconds n f = (n - epoch_day) * 86400 + f_hour f * 3600 + f_minute f * 60 + f_second f"

definition f_date :: "ymdHMSns \<Rightarrow> int \<times> int \<times> int" where
  "f_date f = (f_year f, f_month f, f_day f)"

definition small_time :: "ymdHMSns \<Rightarrow> bool" where
  "small_time f \<longleftrightarrow> \<bar>f_hour f\<bar> < 24 \<and> \<bar>f_minute f\<bar> < 60 \<and> \<bar>f_second f\<bar> < 60 \<and> \<bar>f_nanosecond f\<bar> < 1000000000"

definition nonneg_time :: "ymdHMSns \<Rightarrow> bool" where
  "nonneg_time f \<longleftrightarrow> 0 \<le> f_hour f \<and> 0 \<le> f_minute f \<and> 0 \<le> f_second f \<and> 0 \<le> f_nanosecond f"

lemma days_to_ymd:
  assumes "600000 \<le> n" "n < 900000"
  obtains x where "numdays_to_ymd n = Some x" "valid_date x" "days x = n" "count_range x" "1600 < fst x" "fst x < 2500"
proof -
  have "0 \<le> n" "n < 400000000" using assms by simp_all
  then obtain x where x: "numdays_to_ymd n = Some x" "valid_date x" "days x = n"
    using numdays_to_ymd_eq by blast
  obtain y m d where xy: "x = (y, m, d)" by (cases x)
  note b = day_of_march_year_bounds [of y m d]
  have "\<not> y \<le> 1600"
  proof
    assume "y \<le> 1600"
    then have "march_year (fst (to_march (y, m)) + 1) \<le> march_year 1601" by (intro march_year_mono) (simp add: to_march_def)
    then have "n < march_year 1601" using b x(2,3) by (simp add: xy days_year)
    then show False using assms(1) by (simp add: march_year_def)
  qed
  moreover have "\<not> 2500 \<le> y"
  proof
    assume "2500 \<le> y"
    then have "march_year 2499 \<le> march_year (fst (to_march (y, m)))" by (intro march_year_mono) (simp add: to_march_def)
    then have "march_year 2499 \<le> n" using b x(2,3) by (simp add: xy days_year)
    then show False using assms(2) by (simp add: march_year_def)
  qed
  moreover have "count_range x" using calculation by (auto simp: xy count_range_def)
  ultimately show ?thesis using that x by (auto simp: xy)
qed

lemma decode_eq:
  assumes "fits64 t"
  obtains f where "datetime_to_ymdHMSns t = Some f" "valid_date (f_date f)" "count_range (f_date f)"
    "1600 < f_year f" "f_year f < 2500" "small_time f" "0 \<le> t \<longrightarrow> nonneg_time f"
    "t \<le> 0 \<longrightarrow> f_hour f \<le> 0 \<and> f_minute f \<le> 0 \<and> f_second f \<le> 0 \<and> f_nanosecond f \<le> 0"
    "t = total_seconds (days (f_date f)) f * 1000000000 + f_nanosecond f"
    "days (f_date f) = t sdiv 1000000000 sdiv 60 sdiv 60 sdiv 24 + epoch_day"
proof -
  define ts tm th td where "ts = t sdiv 1000000000" and "tm = ts sdiv 60" and "th = tm sdiv 60" and "td = th sdiv 24"
  note defs = ts_def tm_def th_def td_def
  have "\<bar>t\<bar> \<le> 9223372036854775808" using assms by (auto simp: fits64_def)
  then have "\<bar>t\<bar> div 1000000000 \<le> 9223372036854775808 div 1000000000" by (rule zdiv_mono1) simp
  then have "\<bar>t\<bar> div 1000000000 \<le> 9223372036" by simp
  then have ts: "\<bar>ts\<bar> \<le> 9223372036" using sdiv_le [of 1000000000 t] by (simp add: ts_def)
  have "\<bar>tm\<bar> \<le> \<bar>ts\<bar> div 60" using sdiv_le [of 60 ts] by (simp add: tm_def)
  then have tm: "\<bar>tm\<bar> \<le> 153722867" using ts by linarith
  have "\<bar>th\<bar> \<le> \<bar>tm\<bar> div 60" using sdiv_le [of 60 tm] by (simp add: th_def)
  then have th: "\<bar>th\<bar> \<le> 2562047" using tm by linarith
  have "\<bar>td\<bar> \<le> \<bar>th\<bar> div 24" using sdiv_le [of 24 th] by (simp add: td_def)
  then have td: "\<bar>td\<bar> \<le> 106751" using th by linarith
  define f where "f x = \<lparr>f_year = fst x, f_month = fst (snd x), f_day = snd (snd x), f_hour = th smod 24,
    f_minute = tm smod 60, f_second = ts smod 60, f_nanosecond = t smod 1000000000\<rparr>" for x :: "int \<times> int \<times> int"
  have "600000 \<le> td + epoch_day" "td + epoch_day < 900000" using td by (auto simp: epoch_day_def)
  then obtain x where x: "numdays_to_ymd (td + epoch_day) = Some x" "valid_date x" "days x = td + epoch_day"
    "count_range x" "1600 < fst x" "fst x < 2500" by (rule days_to_ymd)
  have mods: "\<bar>t smod 1000000000\<bar> < 1000000000" "\<bar>ts smod 60\<bar> < 60" "\<bar>tm smod 60\<bar> < 60" "\<bar>th smod 24\<bar> < 24"
    by (rule smod_bounds(1), simp)+
  then have ints: "to_int (t smod 1000000000) = t smod 1000000000" "to_int (ts smod 60) = ts smod 60"
    "to_int (tm smod 60) = tm smod 60" "to_int (th smod 24) = th smod 24" "to_int (td + 719468) = td + 719468"
    using td by (auto intro!: to_int_id simp: fits32_def)
  have rems: "t - ts * 1000000000 = t smod 1000000000" "ts - tm * 60 = ts smod 60" "tm - th * 60 = tm smod 60"
    "th - td * 24 = th smod 24"
    by (simp_all only: defs minus_sdiv_mult_eq_smod)
  show ?thesis
  proof (rule that [of "f x"])
    show "datetime_to_ymdHMSns t = Some (f x)"
      unfolding datetime_to_ymdHMSns_def Let_def defs [symmetric] rems ints
      using x(1) by (cases x) (simp add: epoch_day_def f_def)
    show "valid_date (f_date (f x))" "count_range (f_date (f x))" "1600 < f_year (f x)" "f_year (f x) < 2500"
      using x by (simp_all add: f_date_def f_def)
    show "small_time (f x)" using mods by (simp add: small_time_def f_def)
    have dx: "days (f_date (f x)) = td + epoch_day" using x(3) by (simp add: f_date_def f_def)
    then show "days (f_date (f x)) = t sdiv 1000000000 sdiv 60 sdiv 60 sdiv 24 + epoch_day" by (simp add: defs)
    have "0 \<le> ts" "0 \<le> tm" "0 \<le> th" if "0 \<le> t"
      using that by (simp_all add: ts_def tm_def th_def sdiv_nonneg)
    then show "0 \<le> t \<longrightarrow> nonneg_time (f x)"
      by (simp add: nonneg_time_def f_def smod_bounds)
    have "ts \<le> 0" "tm \<le> 0" "th \<le> 0" if "t \<le> 0"
      using that by (simp_all add: ts_def tm_def th_def sdiv_nonpos)
    then show "t \<le> 0 \<longrightarrow> f_hour (f x) \<le> 0 \<and> f_minute (f x) \<le> 0 \<and> f_second (f x) \<le> 0 \<and> f_nanosecond (f x) \<le> 0"
      by (simp add: f_def smod_bounds)
    show "t = total_seconds (days (f_date (f x))) (f x) * 1000000000 + f_nanosecond (f x)"
      using sdiv_split [of t 1000000000, folded ts_def] sdiv_split [of ts 60, folded tm_def]
        sdiv_split [of tm 60, folded th_def] sdiv_split [of th 24, folded td_def]
      unfolding total_seconds_def dx by (simp add: f_def)
  qed
qed


text \<open>Making a datetime: the same sum of fields.\<close>

definition nanos :: "ymdHMSns \<Rightarrow> int" where
  "nanos f = total_seconds (days (f_date f)) f * 1000000000 + f_nanosecond f"

definition make_fields :: "ymdHMSns \<Rightarrow> int option" where
  "make_fields f = makedatetime (f_year f) (f_month f) (f_day f) (f_hour f) (f_minute f) (f_second f) (f_nanosecond f)"

lemma make_eq:
  assumes v: "valid_date (f_date f)" "count_range (f_date f)" and st: "small_time f"
    and fits: "fits64 (nanos f - f_nanosecond f)" "fits64 (nanos f)"
  shows "make_fields f = Some (nanos f)"
proof -
  define n where "n = days (f_date f)"
  have n: "ymd_to_numdays (f_year f) (f_month f) (f_day f) = Some n" "0 \<le> n" "n < 400000000"
    using ymd_to_numdays_eq [of "f_year f" "f_month f" "f_day f"] v by (simp_all add: n_def f_date_def)
  have H: "\<bar>f_hour f\<bar> < 24" "\<bar>f_minute f\<bar> < 60" "\<bar>f_second f\<bar> < 60" using st by (simp_all add: small_time_def)
  have total: "total_seconds n f = (n - 719468) * 86400 + f_hour f * 3600 + f_minute f * 60 + f_second f"
    by (simp add: total_seconds_def epoch_day_def)
  define a where "a = (n - 719468) * 86400"
  have a: "- 100000000000 < a" "a < 100000000000000" using n by (simp_all add: a_def)
  have total_a: "total_seconds n f = a + f_hour f * 3600 + f_minute f * 60 + f_second f" by (simp add: total a_def)
  have c32: "in32 [n - 719468, f_hour f * 3600, f_minute f * 60] = Some ()"
    using n H by (intro in32_ok) (auto simp: fits32_def)
  have "list_all fits64 [a, a + f_hour f * 3600, a + f_hour f * 3600 + f_minute f * 60, total_seconds n f]"
    using a H by (auto simp: fits64_def total_a)
  moreover have "fits64 (total_seconds n f * 1000000000)" "fits64 (total_seconds n f * 1000000000 + f_nanosecond f)"
    using fits by (simp_all add: nanos_def n_def)
  ultimately have c64: "in64 [a, a + f_hour f * 3600, a + f_hour f * 3600 + f_minute f * 60, total_seconds n f,
      total_seconds n f * 1000000000, total_seconds n f * 1000000000 + f_nanosecond f] = Some ()"
    by (intro in64_ok) simp
  show ?thesis
    unfolding make_fields_def makedatetime_def n(1) Option.bind.bind_lunit Let_def c32 a_def [symmetric] total_a [symmetric] c64
    by (simp add: nanos_def n_def)
qed

lemma nanos_sdiv:
  assumes "nonneg_time f" "small_time f" "0 \<le> total_seconds (days (f_date f)) f"
    shows "nanos f div 1000000000 = total_seconds (days (f_date f)) f" "nanos f mod 1000000000 = f_nanosecond f"
  using assms by (simp_all add: nanos_def nonneg_time_def small_time_def)


text \<open>Reading back a time after the epoch.\<close>

lemma nanos_nonneg: "nonneg_time f \<Longrightarrow> epoch_day \<le> days (f_date f) \<Longrightarrow> 0 \<le> total_seconds (days (f_date f)) f"
  by (simp add: nonneg_time_def total_seconds_def)

lemma radix60_inj:
  assumes "a * 60 + s = b * 60 + (s' :: int)" "0 \<le> s" "s < 60" "0 \<le> s'" "s' < 60"
  shows "a = b" "s = s'"
proof -
  have "(s + a * 60) div 60 = a" "(s' + b * 60) div 60 = b" using assms(2-5) by simp_all
  then show "a = b" using assms(1) by (simp only: add.commute [of s] add.commute [of s'])
  then show "s = s'" using assms(1) by simp
qed

lemma decode_make:
  assumes v: "valid_date (f_date f)" and st: "small_time f" "nonneg_time f"
    and epoch: "epoch_day \<le> days (f_date f)" and fits: "fits64 (nanos f)"
  shows "datetime_to_ymdHMSns (nanos f) = Some f"
proof -
  define T where "T = total_seconds (days (f_date f)) f"
  have T0: "0 \<le> T" unfolding T_def by (rule nanos_nonneg [OF st(2) epoch])
  have ns: "nanos f div 1000000000 = T" "nanos f mod 1000000000 = f_nanosecond f"
    using nanos_sdiv [OF st(2,1)] T0 by (simp_all add: T_def)
  have t0: "0 \<le> nanos f" using T0 st(2) by (simp add: nanos_def T_def nonneg_time_def)
  have b: "0 \<le> f_hour f" "f_hour f < 24" "0 \<le> f_minute f" "f_minute f < 60" "0 \<le> f_second f" "f_second f < 60"
    using st by (auto simp: small_time_def nonneg_time_def)
  define D where "D = days (f_date f) - epoch_day"
  have T: "T = (((D * 24 + f_hour f) * 60) + f_minute f) * 60 + f_second f"
    by (simp add: T_def D_def total_seconds_def)
  have D0: "0 \<le> D" using epoch by (simp add: D_def)
  obtain g where g: "datetime_to_ymdHMSns (nanos f) = Some g" "valid_date (f_date g)" "small_time g" "nonneg_time g"
    "nanos f = nanos g" "days (f_date g) = nanos f sdiv 1000000000 sdiv 60 sdiv 60 sdiv 24 + epoch_day"
    by (rule decode_eq [OF fits]) (use t0 in \<open>auto simp: nanos_def\<close>)
  have th: "0 \<le> (D * 24 + f_hour f) * 60 + f_minute f" "0 \<le> D * 24 + f_hour f" using D0 b by simp_all
  have "nanos f sdiv 1000000000 = T" using t0 ns by (simp add: sdiv_nonneg)
  moreover have "T sdiv 60 = (D * 24 + f_hour f) * 60 + f_minute f" using T0 b th by (simp add: sdiv_nonneg T)
  moreover have "((D * 24 + f_hour f) * 60 + f_minute f) sdiv 60 = D * 24 + f_hour f" using b th by (simp add: sdiv_nonneg)
  moreover have "(D * 24 + f_hour f) sdiv 24 = D" using b th by (simp add: sdiv_nonneg)
  ultimately have dd: "days (f_date g) = days (f_date f)" using g(6) by (simp add: D_def)
  then have date: "f_date g = f_date f"
    using days_inj [of "f_year g" "f_month g" "f_day g" "f_year f" "f_month f" "f_day f"] g(2) v by (simp add: f_date_def)
  have g0: "0 \<le> total_seconds (days (f_date g)) g" by (rule nanos_nonneg [OF g(4)]) (simp add: dd epoch)
  have "f_nanosecond g = f_nanosecond f" "total_seconds (days (f_date g)) g = T"
    using nanos_sdiv [OF g(4,3) g0] ns g(5) by simp_all
  moreover have "total_seconds (days (f_date g)) g = (((D * 24 + f_hour g) * 60) + f_minute g) * 60 + f_second g"
    by (simp add: total_seconds_def dd D_def)
  moreover have bg: "0 \<le> f_hour g" "0 \<le> f_minute g" "f_minute g < 60" "0 \<le> f_second g" "f_second g < 60"
    using g(3,4) by (auto simp: small_time_def nonneg_time_def)
  ultimately have eq: "(((D * 24 + f_hour g) * 60) + f_minute g) * 60 + f_second g
      = (((D * 24 + f_hour f) * 60) + f_minute f) * 60 + f_second f" by (simp add: T)
  note s = radix60_inj [OF eq bg(4,5) b(5,6)]
  note m = radix60_inj [OF s(1) bg(2,3) b(3,4)]
  have h: "f_hour g = f_hour f" using m(1) by simp
  have "g = f" using date s(2) m(2) h \<open>f_nanosecond g = f_nanosecond f\<close> by (cases g; cases f) (simp add: f_date_def)
  then show ?thesis using g(1) by simp
qed


text \<open>The years in which every instant fits 64 bits.\<close>

lemma year_range:
  assumes v: "valid_date (y, m, d)" and y: "1970 \<le> y" "y \<le> 2261"
  shows "epoch_day \<le> days (y, m, d)" "days (y, m, d) < epoch_day + 106711" "count_range (y, m, d)"
proof -
  have m: "1 \<le> m" "1 \<le> d" using v by (simp_all add: valid_date_def)
  note b = day_of_march_year_bounds [OF v]
  show "epoch_day \<le> days (y, m, d)"
  proof (cases "m < 3")
    case True
    have "march_year 1969 \<le> march_year (y - 1)" using y by (intro march_year_mono) simp
    moreover have "march_month 13 \<le> march_month (m + 12)" using m by (intro march_month_mono) simp
    ultimately show ?thesis using True m by (simp add: days_def to_march_def epoch_day_def march_year_def march_month_def)
  next
    case False
    have "march_year 1970 \<le> march_year y" using y by (intro march_year_mono) simp
    then show ?thesis using False b by (simp add: days_year to_march_def epoch_day_def march_year_def)
  qed
  have "march_year (fst (to_march (y, m)) + 1) \<le> march_year 2262" using y by (intro march_year_mono) (simp add: to_march_def)
  then show "days (y, m, d) < epoch_day + 106711" using b by (simp add: days_year epoch_day_def march_year_def)
  show "count_range (y, m, d)" using y by (simp add: count_range_def)
qed

definition valid_fields :: "ymdHMSns \<Rightarrow> bool" where
  "valid_fields f \<longleftrightarrow> valid_date (f_date f) \<and> small_time f \<and> nonneg_time f"

lemma nanos_fits:
  assumes v: "valid_fields f" and y: "1970 \<le> f_year f" "f_year f \<le> 2261"
  shows "0 \<le> nanos f - f_nanosecond f" "fits64 (nanos f - f_nanosecond f)" "fits64 (nanos f)" "0 \<le> nanos f"
proof -
  have vd: "valid_date (f_year f, f_month f, f_day f)" using v by (simp add: valid_fields_def f_date_def)
  define D where "D = days (f_date f) - epoch_day"
  have D: "0 \<le> D" "D < 106711" using year_range [OF vd y] by (simp_all add: D_def f_date_def)
  have b: "0 \<le> f_hour f" "f_hour f < 24" "0 \<le> f_minute f" "f_minute f < 60" "0 \<le> f_second f" "f_second f < 60"
    "0 \<le> f_nanosecond f" "f_nanosecond f < 1000000000"
    using v by (auto simp: valid_fields_def small_time_def nonneg_time_def)
  define T where "T = D * 86400 + f_hour f * 3600 + f_minute f * 60 + f_second f"
  have T: "0 \<le> T" "T < 9219916800" using D b by (simp_all add: T_def)
  have n: "nanos f = T * 1000000000 + f_nanosecond f" by (simp add: nanos_def total_seconds_def T_def D_def)
  show "0 \<le> nanos f - f_nanosecond f" "fits64 (nanos f - f_nanosecond f)" "fits64 (nanos f)" "0 \<le> nanos f"
    using T b(7,8) by (simp_all add: n fits64_def)
qed

lemma make_valid:
  assumes v: "valid_fields f" and y: "1970 \<le> f_year f" "f_year f \<le> 2261"
  shows "make_fields f = Some (nanos f)" "datetime_to_ymdHMSns (nanos f) = Some f"
proof -
  have vd: "valid_date (f_year f, f_month f, f_day f)" using v by (simp add: valid_fields_def f_date_def)
  note r = year_range [OF vd y, folded f_date_def] and n = nanos_fits [OF v y]
  show "make_fields f = Some (nanos f)" by (rule make_eq) (use v r n in \<open>simp_all add: valid_fields_def\<close>)
  show "datetime_to_ymdHMSns (nanos f) = Some f" by (rule decode_make) (use v r n in \<open>simp_all add: valid_fields_def\<close>)
qed

text \<open>What is known of the fields of a datetime from 1970 on.\<close>

lemma decode_valid:
  assumes t: "fits64 t" "0 \<le> t"
  obtains f where "datetime_to_ymdHMSns t = Some f" "valid_fields f" "count_range (f_date f)" "t = nanos f"
    "epoch_day \<le> days (f_date f)" "1600 < f_year f" "f_year f < 2500"
proof -
  obtain f where f: "datetime_to_ymdHMSns t = Some f" "valid_date (f_date f)" "count_range (f_date f)"
    "1600 < f_year f" "f_year f < 2500" "small_time f" "0 \<le> t \<longrightarrow> nonneg_time f"
    "t \<le> 0 \<longrightarrow> f_hour f \<le> 0 \<and> f_minute f \<le> 0 \<and> f_second f \<le> 0 \<and> f_nanosecond f \<le> 0"
    "t = total_seconds (days (f_date f)) f * 1000000000 + f_nanosecond f"
    "days (f_date f) = t sdiv 1000000000 sdiv 60 sdiv 60 sdiv 24 + epoch_day"
    by (rule decode_eq [OF t(1)])
  have "0 \<le> t sdiv 1000000000" using t(2) by (simp add: sdiv_nonneg)
  then have "0 \<le> t sdiv 1000000000 sdiv 60" by (simp only: sdiv_nonneg)
  then have "0 \<le> t sdiv 1000000000 sdiv 60 sdiv 60" by (simp only: sdiv_nonneg)
  then have "0 \<le> t sdiv 1000000000 sdiv 60 sdiv 60 sdiv 24" by (simp only: sdiv_nonneg)
  then have "epoch_day \<le> days (f_date f)" using f(10) by linarith
  moreover have "t = nanos f" using f(9) by (simp only: nanos_def)
  moreover have "valid_fields f" using f(2,6) f(7) [rule_format, OF t(2)] by (simp only: valid_fields_def)
  ultimately show ?thesis using that f(1,3,4,5) by blast
qed

lemma accessors:
  "datetime_to_ymdHMSns t = Some f \<Longrightarrow> year_from_datetime t = Some (f_year f) \<and> month_from_datetime t = Some (f_month f) \<and>
    day_from_datetime t = Some (f_day f) \<and> hour_from_datetime t = f_hour f \<and> minute_from_datetime t = f_minute f \<and>
    second_from_datetime t = f_second f \<and> nanosecond_from_datetime t = f_nanosecond f"
  by (auto simp: year_from_datetime_def month_from_datetime_def day_from_datetime_def hour_from_datetime_def
      minute_from_datetime_def second_from_datetime_def nanosecond_from_datetime_def datetime_to_ymdHMSns_def Let_def
      bind_eq_Some_conv split: prod.splits)

subsection \<open>Months and years\<close>

lemma leap_bools: "(q \<longrightarrow> p) \<Longrightarrow> (r \<longrightarrow> q) \<Longrightarrow> of_bool p - of_bool q + of_bool r = (of_bool (if q then r else p) :: int)"
  by auto

lemma isleap_eq: "0 \<le> y \<Longrightarrow> isleap y = of_bool (leap y)"
proof -
  assume y: "0 \<le> y"
  have mods: "y smod 4 = y mod 4" "y smod 100 = y mod 100" "y smod 400 = y mod 400"
    by (rule smod_nonneg [OF y], simp)+
  have "y mod 100 = 0 \<longrightarrow> y mod 4 = 0" using dvd_trans [of "4 :: int" 100 y] by (simp only: mod_eq_0_iff_dvd) simp
  moreover have "y mod 400 = 0 \<longrightarrow> y mod 100 = 0" using dvd_trans [of "100 :: int" 400 y] by (simp only: mod_eq_0_iff_dvd) simp
  ultimately show ?thesis unfolding isleap_def leap_def mods by (rule leap_bools)
qed

lemma last_day_eq: "0 \<le> y \<Longrightarrow> 1 \<le> m \<Longrightarrow> m \<le> 12 \<Longrightarrow> last_day y m = Some (days_in_month y m)"
proof -
  assume y: "0 \<le> y" and m: "1 \<le> m" "m \<le> 12"
  show ?thesis
    by (cases rule: month_cases [OF m])
      (simp_all add: last_day_def rd_int_def rd_def lastday_of_month_def days_in_month_def isleap_eq y)
qed


text \<open>The month \<open>val\<close> months after a date: the day is clipped to the last of the month.\<close>

definition shift_month :: "int \<Rightarrow> ymdHMSns \<Rightarrow> ymdHMSns" where
  "shift_month val f = (let k = f_year f * 12 + (f_month f - 1) + val; y = k div 12; m = k mod 12 + 1
     in f\<lparr>f_year := y, f_month := m, f_day := min (f_day f) (days_in_month y m)\<rparr>)"

lemma shift_month_valid: "valid_fields f \<Longrightarrow> valid_fields (shift_month val f)"
proof -
  assume v: "valid_fields f"
  define k where "k = f_year f * 12 + (f_month f - 1) + val"
  have "0 \<le> k mod 12" "k mod 12 < 12" by simp_all
  moreover have "1 \<le> days_in_month (k div 12) (k mod 12 + 1)" by (simp add: days_in_month_def)
  ultimately show ?thesis using v
    by (auto simp: shift_month_def k_def [symmetric] Let_def valid_fields_def f_date_def valid_date_def
        small_time_def nonneg_time_def)
qed

lemma year_month_split:
  assumes "0 \<le> mt"
  shows "(y * 12 + mt) div 12 = y + mt div 12" "(y * 12 + mt) mod 12 + 1 = mt - mt div 12 * 12 + (1 :: int)"
  using minus_div_mult_eq_mod [of mt 12] by simp_all

lemma year_month_split_neg:
  assumes "mt < 0"
  defines "c \<equiv> (- mt - 1) div 12 + 1"
  shows "(y * 12 + mt) div 12 = y - c" "(y * 12 + mt) mod 12 + 1 = mt + c * 12 + (1 :: int)" "0 < c" "c \<le> - mt"
proof -
  define r where "r = (- mt - 1) mod 12"
  have r: "0 \<le> r" "r < 12" by (simp_all add: r_def)
  have "- mt - 1 = 12 * ((- mt - 1) div 12) + r" by (simp add: r_def)
  then have mt: "y * 12 + mt = (11 - r) + (y - c) * 12" unfolding c_def by simp
  show "(y * 12 + mt) div 12 = y - c" using r by (simp add: mt)
  have "(11 - r) mod 12 = 11 - r" using r by (intro mod_pos_pos_trivial) linarith+
  then have "(y * 12 + mt) mod 12 = 11 - r" by (simp only: mt mod_mult_self1)
  then show "(y * 12 + mt) mod 12 + 1 = mt + c * 12 + 1" using mt by (simp only: left_diff_distrib)
  have "0 \<le> (- mt - 1) div 12" using assms(1) by (simp add: pos_imp_zdiv_nonneg_iff)
  then show "0 < c" by (simp add: c_def)
  have "mt = 11 - r - c * 12" using mt by (simp only: left_diff_distrib)
  then show "c \<le> - mt" using r \<open>0 < c\<close> by linarith
qed

lemma datetime_add_month_eq:
  assumes t: "fits64 t" "0 \<le> t" and f: "datetime_to_ymdHMSns t = Some f"
    and y: "1970 \<le> f_year (shift_month val f)" "f_year (shift_month val f) \<le> 2261"
  shows "datetime_add_month t val = Some (nanos (shift_month val f))"
proof -
  obtain f' where f': "datetime_to_ymdHMSns t = Some f'" "valid_fields f'" "count_range (f_date f')" "t = nanos f'"
    "epoch_day \<le> days (f_date f')" "1600 < f_year f'" "f_year f' < 2500"
    by (rule decode_valid [OF t])
  then have v: "valid_fields f" and fy: "1600 < f_year f" "f_year f < 2500" using f by simp_all
  define mt where "mt = f_month f + val - 1"
  define k where "k = f_year f * 12 + mt"
  have sh: "shift_month val f = f\<lparr>f_year := k div 12, f_month := k mod 12 + 1,
      f_day := min (f_day f) (days_in_month (k div 12) (k mod 12 + 1))\<rparr>"
    by (simp add: shift_month_def k_def mt_def algebra_simps Let_def)
  have ky: "1970 \<le> k div 12" "k div 12 \<le> 2261" using y by (simp_all add: sh)
  then have "23640 \<le> k" "k < 27144" by linarith+
  then have mt: "- 10000 < mt" "mt < 10000" using fy by (simp_all add: k_def)
  have mb: "1 \<le> f_month f" "f_month f \<le> 12" using v by (simp_all add: valid_fields_def valid_date_def f_date_def)
  have c1: "in64 [f_month f + val, mt] = Some ()" "to_int mt = mt"
    using mt by (auto simp: in64_def fits64_def mt_def fits32_def intro!: to_int_id)
  have ym: "(if mt \<ge> 0 then
         let divided = mt sdiv 12 in do { in32 [f_year f + divided]; Some (f_year f + divided, mt - divided * 12 + 1) }
       else do {
         in32 [- mt];
         let divided = ceil_div_int (- mt) 12;
         in32 [f_year f - divided, divided * 12, mt + divided * 12, mt + divided * 12 + 1];
         Some (f_year f - divided, mt + divided * 12 + 1) }) = Some (k div 12, k mod 12 + 1)"
  proof (cases "0 \<le> mt")
    case True
    have "0 \<le> mt div 12" "mt div 12 \<le> mt" using True by (simp_all add: zdiv_mono2 pos_imp_zdiv_nonneg_iff)
    then show ?thesis using True mt fy
      by (simp add: sdiv_nonneg in32_def fits32_def k_def Let_def minus_div_mult_eq_mod)
  next
    case False
    then have neg: "mt < 0" by simp
    define c where "c = (- mt - 1) div 12 + 1"
    note sp = year_month_split_neg [OF neg, folded c_def]
    have c: "ceil_div_int (- mt) 12 = c" using neg by (simp add: ceil_div_int_def c_def sdiv_nonneg)
    have "in32 [- mt] = Some ()" "in32 [f_year f - c, c * 12, mt + c * 12, mt + c * 12 + 1] = Some ()"
      using mt fy sp(3,4) by (simp_all add: in32_def fits32_def)
    then show ?thesis using False by (simp only: if_False c Let_def Option.bind.bind_lunit k_def sp)
  qed
  have kb: "1 \<le> k mod 12 + 1" "k mod 12 + 1 \<le> 12"
  proof -
    have "0 \<le> k mod 12" "k mod 12 < 12" by simp_all
    then show "1 \<le> k mod 12 + 1" "k mod 12 + 1 \<le> 12" by linarith+
  qed
  have ld: "last_day (k div 12) (k mod 12 + 1) = Some (days_in_month (k div 12) (k mod 12 + 1))"
    using ky kb by (intro last_day_eq) linarith+
  have "datetime_add_month t val = make_fields (shift_month val f)"
    unfolding datetime_add_month_def f Option.bind.bind_lunit Let_def mt_def [symmetric] c1
      ym [unfolded Let_def] prod.case ld
    by (simp add: make_fields_def sh min_def)
  also have "\<dots> = Some (nanos (shift_month val f))"
    by (rule make_valid(1) [OF shift_month_valid [OF v] y])
  finally show ?thesis .
qed


lemma shift_year:
  assumes v: "valid_fields f"
  shows "shift_month (12 * val) f = f\<lparr>f_year := f_year f + val,
    f_day := (if f_month f = 2 \<and> \<not> leap (f_year f + val) \<and> f_day f = 29 then 28 else f_day f)\<rparr>"
proof -
  have m: "1 \<le> f_month f" "f_month f \<le> 12" and d: "1 \<le> f_day f" "f_day f \<le> days_in_month (f_year f) (f_month f)"
    using v by (simp_all add: valid_fields_def valid_date_def f_date_def)
  define Y where "Y = f_year f + val"
  have k: "f_year f * 12 + (f_month f - 1) + 12 * val = (f_month f - 1) + Y * 12"
    by (simp add: Y_def algebra_simps)
  have "(f_month f - 1) div 12 = 0" "(f_month f - 1) mod 12 = f_month f - 1" using m by simp_all
  then have "((f_month f - 1) + Y * 12) div 12 = Y" "((f_month f - 1) + Y * 12) mod 12 + 1 = f_month f"
    by (simp_all only: div_mult_self1 mod_mult_self1)
  then show ?thesis unfolding shift_month_def k Let_def Y_def [symmetric]
    using d by (auto simp: days_in_month_def min_def split: if_splits)
qed

lemma datetime_add_year_eq:
  assumes t: "fits64 t" "0 \<le> t" and f: "datetime_to_ymdHMSns t = Some f"
    and y: "1970 \<le> f_year f + val" "f_year f + val \<le> 2261"
  shows "datetime_add_year t val = Some (nanos (shift_month (12 * val) f))"
proof -
  obtain f' where f': "datetime_to_ymdHMSns t = Some f'" "valid_fields f'" "count_range (f_date f')" "t = nanos f'"
    "epoch_day \<le> days (f_date f')" "1600 < f_year f'" "f_year f' < 2500"
    by (rule decode_valid [OF t])
  then have v: "valid_fields f" and fy: "1600 < f_year f" "f_year f < 2500" using f by simp_all
  have c: "in64 [f_year f + val] = Some ()" "to_int (f_year f + val) = f_year f + val"
    using y by (auto simp: in64_def fits64_def fits32_def intro!: to_int_id)
  have "datetime_add_year t val = make_fields (shift_month (12 * val) f)"
    using y by (simp add: datetime_add_year_def f c Let_def shift_year [OF v] make_fields_def isleap_eq)
  also have "\<dots> = Some (nanos (shift_month (12 * val) f))"
    by (rule make_valid(1) [OF shift_month_valid [OF v]]) (use y in \<open>simp_all add: shift_year [OF v]\<close>)
  finally show ?thesis .
qed

subsection \<open>Truncation and days of the week\<close>

lemma nanos_truncate:
  assumes v: "valid_fields f"
  shows "nanos (f\<lparr>f_nanosecond := 0\<rparr>) = nanos f - nanos f mod 1000000000"
    "nanos (f\<lparr>f_second := 0, f_nanosecond := 0\<rparr>) = nanos f - nanos f mod 60000000000"
    "nanos (f\<lparr>f_minute := 0, f_second := 0, f_nanosecond := 0\<rparr>) = nanos f - nanos f mod 3600000000000"
    "nanos (f\<lparr>f_hour := 0, f_minute := 0, f_second := 0, f_nanosecond := 0\<rparr>) = nanos f - nanos f mod 86400000000000"
proof -
  define D where "D = days (f_date f) - epoch_day"
  have b: "0 \<le> f_hour f" "f_hour f < 24" "0 \<le> f_minute f" "f_minute f < 60" "0 \<le> f_second f" "f_second f < 60"
    "0 \<le> f_nanosecond f" "f_nanosecond f < 1000000000"
    using v by (auto simp: valid_fields_def small_time_def nonneg_time_def)
  have n: "nanos (f\<lparr>f_hour := H, f_minute := M, f_second := S, f_nanosecond := ns\<rparr>)
      = D * 86400000000000 + H * 3600000000000 + M * 60000000000 + S * 1000000000 + ns" for H M S ns
    by (simp add: nanos_def total_seconds_def f_date_def D_def)
  have mod: "nanos f = r + q * u \<Longrightarrow> 0 \<le> r \<Longrightarrow> r < u \<Longrightarrow> nanos f - nanos f mod u = q * u" for r q u
    by simp
  have all: "nanos f = D * 86400000000000 + f_hour f * 3600000000000 + f_minute f * 60000000000 + f_second f * 1000000000 + f_nanosecond f"
    using n [where H = "f_hour f" and M = "f_minute f" and S = "f_second f" and ns = "f_nanosecond f"] by simp
  have "nanos f - nanos f mod 1000000000 = (D * 86400 + f_hour f * 3600 + f_minute f * 60 + f_second f) * 1000000000"
    by (rule mod [of "f_nanosecond f"]) (use b all in simp_all)
  then show "nanos (f\<lparr>f_nanosecond := 0\<rparr>) = nanos f - nanos f mod 1000000000"
    using n [where H = "f_hour f" and M = "f_minute f" and S = "f_second f" and ns = 0] by simp
  have "nanos f - nanos f mod 60000000000 = (D * 1440 + f_hour f * 60 + f_minute f) * 60000000000"
    by (rule mod [of "f_second f * 1000000000 + f_nanosecond f"]) (use b all in simp_all)
  then show "nanos (f\<lparr>f_second := 0, f_nanosecond := 0\<rparr>) = nanos f - nanos f mod 60000000000"
    using n [where H = "f_hour f" and M = "f_minute f" and S = 0 and ns = 0] by simp
  have "nanos f - nanos f mod 3600000000000 = (D * 24 + f_hour f) * 3600000000000"
    by (rule mod [of "f_minute f * 60000000000 + f_second f * 1000000000 + f_nanosecond f"]) (use b all in simp_all)
  then show "nanos (f\<lparr>f_minute := 0, f_second := 0, f_nanosecond := 0\<rparr>) = nanos f - nanos f mod 3600000000000"
    using n [where H = "f_hour f" and M = 0 and S = 0 and ns = 0] by simp
  have "nanos f - nanos f mod 86400000000000 = D * 86400000000000"
    by (rule mod [of "f_hour f * 3600000000000 + f_minute f * 60000000000 + f_second f * 1000000000 + f_nanosecond f"]) (use b all in simp_all)
  then show "nanos (f\<lparr>f_hour := 0, f_minute := 0, f_second := 0, f_nanosecond := 0\<rparr>) = nanos f - nanos f mod 86400000000000"
    using n [where H = 0 and M = 0 and S = 0 and ns = 0] by simp
qed


lemma make_below:
  assumes v: "valid_fields f" "count_range (f_date f)" and le: "0 \<le> nanos f - f_nanosecond f" "nanos f \<le> t" "fits64 t"
  shows "make_fields f = Some (nanos f)"
proof (rule make_eq)
  have "0 \<le> f_nanosecond f" using v(1) by (simp add: valid_fields_def nonneg_time_def)
  then show "fits64 (nanos f - f_nanosecond f)" "fits64 (nanos f)" using le by (auto simp: fits64_def)
qed (use v in \<open>simp_all add: valid_fields_def\<close>)

lemma truncated_ok:
  assumes v: "valid_fields f" "count_range (f_date f)" and e: "epoch_day \<le> days (f_date f)" and fits: "fits64 (nanos f)"
    and g: "g = f\<lparr>f_hour := H, f_minute := M, f_second := S, f_nanosecond := 0\<rparr>" "valid_fields g" "nanos g \<le> nanos f"
  shows "make_fields g = Some (nanos g)"
proof (rule make_below [OF g(2) _ _ g(3) fits])
  show "count_range (f_date g)" using v(2) by (simp add: g(1) f_date_def)
  have "f_date g = f_date f" by (simp add: g(1) f_date_def)
  then have "0 \<le> total_seconds (days (f_date g)) g"
    using e g(2) by (intro nanos_nonneg) (simp_all add: valid_fields_def)
  then show "0 \<le> nanos g - f_nanosecond g" by (simp add: nanos_def)
qed

lemma truncate_eqs:
  assumes t: "fits64 t" "0 \<le> t"
  shows "datetime_truncate_second t = Some (t - t mod 1000000000)"
    "datetime_truncate_minute t = Some (t - t mod 60000000000)"
    "datetime_truncate_hour t = Some (t - t mod 3600000000000)"
    "datetime_truncate_day t = Some (t - t mod 86400000000000)"
proof -
  obtain f where f: "datetime_to_ymdHMSns t = Some f" "valid_fields f" "count_range (f_date f)" "t = nanos f"
    "epoch_day \<le> days (f_date f)" "1600 < f_year f" "f_year f < 2500"
    by (rule decode_valid [OF t])
  note tr = nanos_truncate [OF f(2), folded f(4)]
  note ok = truncated_ok [OF f(2,3,5) t(1) [unfolded f(4)], folded f(4)]
  have vt: "valid_fields (f\<lparr>f_nanosecond := 0\<rparr>)" "valid_fields (f\<lparr>f_second := 0, f_nanosecond := 0\<rparr>)"
    "valid_fields (f\<lparr>f_minute := 0, f_second := 0, f_nanosecond := 0\<rparr>)"
    "valid_fields (f\<lparr>f_hour := 0, f_minute := 0, f_second := 0, f_nanosecond := 0\<rparr>)"
    using f(2) by (auto simp: valid_fields_def small_time_def nonneg_time_def f_date_def)
  have le: "t - t mod u \<le> t" if "0 < u" for u using that by simp
  have "make_fields (f\<lparr>f_nanosecond := 0\<rparr>) = Some (t - t mod 1000000000)"
    using ok [where g = "f\<lparr>f_nanosecond := 0\<rparr>" and H = "f_hour f" and M = "f_minute f" and S = "f_second f"] vt(1) le tr(1) by simp
  then show "datetime_truncate_second t = Some (t - t mod 1000000000)"
    by (simp add: datetime_truncate_second_def f(1) make_fields_def)
  have "make_fields (f\<lparr>f_second := 0, f_nanosecond := 0\<rparr>) = Some (t - t mod 60000000000)"
    using ok [where g = "f\<lparr>f_second := 0, f_nanosecond := 0\<rparr>" and H = "f_hour f" and M = "f_minute f" and S = 0] vt(2) le tr(2) by simp
  then show "datetime_truncate_minute t = Some (t - t mod 60000000000)"
    by (simp add: datetime_truncate_minute_def f(1) make_fields_def)
  have "make_fields (f\<lparr>f_minute := 0, f_second := 0, f_nanosecond := 0\<rparr>) = Some (t - t mod 3600000000000)"
    using ok [where g = "f\<lparr>f_minute := 0, f_second := 0, f_nanosecond := 0\<rparr>" and H = "f_hour f" and M = 0 and S = 0] vt(3) le tr(3) by simp
  then show "datetime_truncate_hour t = Some (t - t mod 3600000000000)"
    by (simp add: datetime_truncate_hour_def f(1) make_fields_def)
  have "make_fields (f\<lparr>f_hour := 0, f_minute := 0, f_second := 0, f_nanosecond := 0\<rparr>) = Some (t - t mod 86400000000000)"
    using ok [where g = "f\<lparr>f_hour := 0, f_minute := 0, f_second := 0, f_nanosecond := 0\<rparr>" and H = 0 and M = 0 and S = 0] vt(4) le tr(4) by simp
  then show "datetime_truncate_day t = Some (t - t mod 86400000000000)"
    by (simp add: datetime_truncate_day_def f(1) make_fields_def)
qed

lemma nanos_div_day: "valid_fields f \<Longrightarrow> nanos f div 86400000000000 = days (f_date f) - epoch_day"
proof -
  assume v: "valid_fields f"
  have "nanos f - nanos f mod 86400000000000 = (days (f_date f) - epoch_day) * 86400000000000"
    using nanos_truncate(4) [OF v] by (simp add: nanos_def total_seconds_def f_date_def)
  then show ?thesis by (simp add: minus_mod_eq_div_mult)
qed

lemma dayofweek_eq:
  assumes t: "fits64 t" "0 \<le> t"
  shows "dayofweek_from_datetime t = Some ((t div 86400000000000 + 4) mod 7 + 1)"
proof -
  obtain f where f: "datetime_to_ymdHMSns t = Some f" "valid_fields f" "count_range (f_date f)" "t = nanos f"
    "epoch_day \<le> days (f_date f)" "1600 < f_year f" "f_year f < 2500"
    by (rule decode_valid [OF t])
  have "days (f_date f) + 3 = (t div 86400000000000 + 4) + 102781 * 7"
    using nanos_div_day [OF f(2)] by (simp add: f(4) epoch_day_def)
  then have "(days (f_date f) + 3) mod 7 = (t div 86400000000000 + 4) mod 7" by (simp only: mod_mult_self1)
  then show ?thesis
    using dayofweek_of [of "f_date f"] f(2,3) by (simp add: dayofweek_from_datetime_def f(1) f_date_def valid_fields_def)
qed

end
