(* ===== verification/DatetimeFacts.thy ===== *)
theory DatetimeFacts
  imports Datetime
begin

text \<open>
  What the operations of text/datetime_utility.hpp compute: round trips between datetimes and fields,
  truncation, months and years, days and weeks; and the two places where the results are not those of
  the calendar (times before 1970, weeks at the start of a year).
\<close>

subsection \<open>Round trips\<close>

text \<open>
  C37. Every 64-bit datetime, also before 1970, has fields with a valid date from which makedatetime
  returns it, without overflow.
\<close>
theorem datetime_fields_roundtrip:
  assumes "fits64 t"
  shows "\<exists>f. datetime_to_ymdHMSns t = Some f \<and> valid_date (f_year f, f_month f, f_day f) \<and>
    ymdHMSns_to_datetime (f_year f) (f_month f) (f_day f) (f_hour f) (f_minute f) (f_second f) (f_nanosecond f) = Some t"
proof -
  obtain f where f: "datetime_to_ymdHMSns t = Some f" "valid_date (f_date f)" "count_range (f_date f)"
    "1600 < f_year f" "f_year f < 2500" "small_time f" "0 \<le> t \<longrightarrow> nonneg_time f"
    "t \<le> 0 \<longrightarrow> f_hour f \<le> 0 \<and> f_minute f \<le> 0 \<and> f_second f \<le> 0 \<and> f_nanosecond f \<le> 0"
    "t = total_seconds (days (f_date f)) f * 1000000000 + f_nanosecond f"
    "days (f_date f) = t sdiv 1000000000 sdiv 60 sdiv 60 sdiv 24 + epoch_day"
    by (rule decode_eq [OF assms])
  have t: "nanos f = t" using f(9) by (simp add: nanos_def)
  have ns: "\<bar>f_nanosecond f\<bar> < 1000000000" using f(6) by (simp add: small_time_def)
  have "fits64 (t - f_nanosecond f)"
  proof (cases "0 \<le> t")
    case True
    then have "0 \<le> f_nanosecond f" using f(7) by (simp add: nonneg_time_def)
    then show ?thesis using True ns assms by (simp add: fits64_def)
  next
    case False
    then have "f_nanosecond f \<le> 0" using f(8) by simp
    then show ?thesis using False ns assms by (simp add: fits64_def)
  qed
  then have "make_fields f = Some t" using make_eq [OF f(2,3,6)] assms by (simp add: t)
  then show ?thesis using f(1,2) by (auto simp: make_fields_def ymdHMSns_to_datetime_def f_date_def)
qed

theorem datetime_fields_roundtrip_witness:
  "datetime_to_ymdHMSns (- 9223372036854775808) \<bind> (\<lambda>f. ymdHMSns_to_datetime (f_year f) (f_month f) (f_day f)
     (f_hour f) (f_minute f) (f_second f) (f_nanosecond f)) = Some (- 9223372036854775808)"
  using datetime_fields_roundtrip [of "- 9223372036854775808"] by (auto simp: fits64_def)

text \<open>
  C36. The way back: fields with a valid date of the years 1970 to 2261 and a time of day make a datetime
  from which datetime_to_ymdHMSns and each of the accessors return them.
\<close>
theorem makedatetime_fields:
  assumes "valid_date (y, m, d)" "1970 \<le> y" "y \<le> 2261" "0 \<le> H" "H < 24" "0 \<le> M" "M < 60" "0 \<le> S" "S < 60"
    "0 \<le> ns" "ns < 1000000000"
  shows "\<exists>t. makedatetime y m d H M S ns = Some t \<and> 0 \<le> t \<and> fits64 t \<and>
    datetime_to_ymdHMSns t = Some \<lparr>f_year = y, f_month = m, f_day = d, f_hour = H, f_minute = M, f_second = S, f_nanosecond = ns\<rparr> \<and>
    year_from_datetime t = Some y \<and> month_from_datetime t = Some m \<and> day_from_datetime t = Some d \<and>
    hour_from_datetime t = H \<and> minute_from_datetime t = M \<and> second_from_datetime t = S \<and> nanosecond_from_datetime t = ns"
proof -
  define f where "f = \<lparr>f_year = y, f_month = m, f_day = d, f_hour = H, f_minute = M, f_second = S, f_nanosecond = ns\<rparr>"
  have v: "valid_fields f" using assms by (simp add: f_def valid_fields_def f_date_def small_time_def nonneg_time_def)
  have y: "1970 \<le> f_year f" "f_year f \<le> 2261" using assms by (simp_all add: f_def)
  note m = make_valid [OF v y] and n = nanos_fits [OF v y]
  show ?thesis
    using m n(3,4) accessors [OF m(2)] by (intro exI [of _ "nanos f"]) (simp add: f_def make_fields_def)
qed

theorem makedatetime_fields_witness:
  "\<exists>t. makedatetime 2024 2 29 23 59 58 7 = Some t \<and> 0 \<le> t \<and> day_from_datetime t = Some 29 \<and> minute_from_datetime t = 59"
proof -
  have "valid_date (2024, 2, 29)" by code_simp
  then show ?thesis using makedatetime_fields [of 2024 2 29 23 59 58 7] by auto
qed

text \<open>
  Before 1970 the divisions round towards zero: unless a datetime is a whole number of days, its
  date is one day late (the date of the next midnight), and the time of day is not positive: one hour
  before the epoch reads as 1 January 1970, hour -1.
\<close>
theorem datetime_before_epoch:
  assumes "fits64 t" "t < 0" "t mod 86400000000000 \<noteq> 0"
  shows "\<exists>f. datetime_to_ymdHMSns t = Some f \<and>
    ymd_to_numdays (f_year f) (f_month f) (f_day f) = Some (t div 86400000000000 + 719468 + 1) \<and>
    f_hour f \<le> 0 \<and> f_minute f \<le> 0 \<and> f_second f \<le> 0 \<and> f_nanosecond f \<le> 0"
proof -
  obtain f where f: "datetime_to_ymdHMSns t = Some f" "valid_date (f_date f)" "count_range (f_date f)"
    "1600 < f_year f" "f_year f < 2500" "small_time f" "0 \<le> t \<longrightarrow> nonneg_time f"
    "t \<le> 0 \<longrightarrow> f_hour f \<le> 0 \<and> f_minute f \<le> 0 \<and> f_second f \<le> 0 \<and> f_nanosecond f \<le> 0"
    "t = total_seconds (days (f_date f)) f * 1000000000 + f_nanosecond f"
    "days (f_date f) = t sdiv 1000000000 sdiv 60 sdiv 60 sdiv 24 + epoch_day"
    by (rule decode_eq [OF assms(1)])
  define D r where "D = days (f_date f) - epoch_day" and
    "r = f_hour f * 3600000000000 + f_minute f * 60000000000 + f_second f * 1000000000 + f_nanosecond f"
  have neg: "f_hour f \<le> 0" "f_minute f \<le> 0" "f_second f \<le> 0" "f_nanosecond f \<le> 0" using f(8) assms(2) by simp_all
  have t: "t = r + D * 86400000000000" using f(9) by (simp add: total_seconds_def D_def r_def)
  have r: "- 86400000000000 < r" "r \<le> 0" using f(6) neg by (simp_all add: r_def small_time_def)
  have "r \<noteq> 0" using assms(3) t by auto
  then have "t = (r + 86400000000000) + (D - 1) * 86400000000000" "0 \<le> r + 86400000000000" "r + 86400000000000 < 86400000000000"
    using t r by simp_all
  then have "t div 86400000000000 = (r + 86400000000000) div 86400000000000 + (D - 1)"
    "(r + 86400000000000) div 86400000000000 = 0"
    by (simp_all only: div_mult_self1 div_pos_pos_trivial)
  then have "days (f_date f) = t div 86400000000000 + 719468 + 1" by (simp add: D_def epoch_day_def)
  then show ?thesis using f(1) neg ymd_to_numdays_eq(1) [of "f_year f" "f_month f" "f_day f"] f(2,3)
    by (auto simp: f_date_def)
qed

theorem datetime_before_epoch_witness:
  "datetime_to_ymdHMSns (- 3600000000000) = Some \<lparr>f_year = 1970, f_month = 1, f_day = 1, f_hour = - 1,
     f_minute = 0, f_second = 0, f_nanosecond = 0\<rparr> \<and>
   (\<exists>f. datetime_to_ymdHMSns (- 3600000000000) = Some f \<and> ymd_to_numdays (f_year f) (f_month f) (f_day f) = Some 719468)"
proof
  show "datetime_to_ymdHMSns (- 3600000000000) = Some \<lparr>f_year = 1970, f_month = 1, f_day = 1, f_hour = - 1,
     f_minute = 0, f_second = 0, f_nanosecond = 0\<rparr>" by code_simp
  show "\<exists>f. datetime_to_ymdHMSns (- 3600000000000) = Some f \<and> ymd_to_numdays (f_year f) (f_month f) (f_day f) = Some 719468"
    using datetime_before_epoch [of "- 3600000000000"] by (auto simp: fits64_def)
qed


subsection \<open>Months and years\<close>

text \<open>
  C35. Adding months to a datetime from 1970 on, forwards or backwards: the month moves by \<open>val\<close> in the
  count of months, the day is clipped to the last day of the new month, the time of day stays; a year
  is twelve months, and subtracting is adding the opposite.
\<close>
theorem datetime_add_month_shifts:
  assumes "fits64 t" "0 \<le> t" "datetime_to_ymdHMSns t = Some f"
    and "k = f_year f * 12 + (f_month f - 1) + val" "1970 \<le> k div 12" "k div 12 \<le> 2261"
  shows "\<exists>t'. datetime_add_month t val = Some t' \<and> datetime_sub_month t (- val) = Some t' \<and>
    datetime_to_ymdHMSns t' = Some (f\<lparr>f_year := k div 12, f_month := k mod 12 + 1,
      f_day := min (f_day f) (days_in_month (k div 12) (k mod 12 + 1))\<rparr>) \<and>
    (\<forall>n. val = 12 * n \<longrightarrow> datetime_add_year t n = Some t' \<and> datetime_sub_year t (- n) = Some t')"
proof -
  obtain f' where f': "datetime_to_ymdHMSns t = Some f'" "valid_fields f'" "count_range (f_date f')" "t = nanos f'"
    "epoch_day \<le> days (f_date f')" "1600 < f_year f'" "f_year f' < 2500"
    by (rule decode_valid [OF assms(1,2)])
  then have v: "valid_fields f" and fy: "1600 < f_year f" "f_year f < 2500" using assms(3) by simp_all
  have mb: "1 \<le> f_month f" "f_month f \<le> 12" using v by (simp_all add: valid_fields_def valid_date_def f_date_def)
  have sh: "shift_month val f = f\<lparr>f_year := k div 12, f_month := k mod 12 + 1,
      f_day := min (f_day f) (days_in_month (k div 12) (k mod 12 + 1))\<rparr>"
    by (simp add: shift_month_def assms(4) Let_def)
  have y: "1970 \<le> f_year (shift_month val f)" "f_year (shift_month val f) \<le> 2261" using assms(5,6) by (simp_all add: sh)
  define t' where "t' = nanos (shift_month val f)"
  have add: "datetime_add_month t val = Some t'"
    unfolding t'_def by (rule datetime_add_month_eq [OF assms(1,2,3) y])
  have "23640 \<le> k" "k < 27144" using assms(5,6) by linarith+
  then have vb: "- 10000 < val" "val < 10000" using fy mb assms(4) by linarith+
  then have sub: "datetime_sub_month t (- val) = Some t'" using add by (simp add: datetime_sub_month_def in64_def fits64_def)
  have dec: "datetime_to_ymdHMSns t' = Some (shift_month val f)"
    unfolding t'_def by (rule make_valid(2) [OF shift_month_valid [OF v] y])
  have yr: "datetime_add_year t n = Some t' \<and> datetime_sub_year t (- n) = Some t'" if n: "val = 12 * n" for n
  proof -
    have "1970 \<le> f_year f + n" "f_year f + n \<le> 2261" using y by (simp_all add: n shift_year [OF v])
    then have "datetime_add_year t n = Some t'"
      unfolding t'_def n by (rule datetime_add_year_eq [OF assms(1,2,3)])
    moreover have "- 1000 < n" "n < 1000" using vb n by simp_all
    ultimately show ?thesis by (simp add: datetime_sub_year_def in64_def fits64_def)
  qed
  show ?thesis using add sub dec yr by (auto simp: sh)
qed

theorem datetime_add_month_shifts_witness:
  "\<exists>t t'. makedatetime 2024 2 29 5 6 7 8 = Some t \<and> datetime_add_month t (-12) = Some t' \<and> datetime_add_year t (-1) = Some t' \<and>
     day_from_datetime t' = Some 28 \<and> year_from_datetime t' = Some 2023"
proof -
  define f where "f = \<lparr>f_year = 2024, f_month = 2, f_day = 29, f_hour = 5, f_minute = 6, f_second = 7, f_nanosecond = 8\<rparr>"
  have t: "makedatetime 2024 2 29 5 6 7 8 = Some 1709183167000000008" by code_simp
  moreover have f: "datetime_to_ymdHMSns 1709183167000000008 = Some f" unfolding f_def by code_simp
  obtain t' where t': "datetime_add_month 1709183167000000008 (-12) = Some t'" "datetime_add_year 1709183167000000008 (-1) = Some t'"
    "datetime_to_ymdHMSns t' = Some (f\<lparr>f_year := 2023, f_month := 2, f_day := 28\<rparr>)"
    using datetime_add_month_shifts [OF _ _ f, of 24277 "-12"]
    by (auto simp: fits64_def f_def days_in_month_def leap_def)
  then show ?thesis using t accessors [OF t'(3)] by auto
qed

subsection \<open>Truncation\<close>

lemma epoch_year:
  assumes "valid_date (y, m, d)" "epoch_day \<le> days (y, m, d)"
  shows "1970 \<le> y"
proof (rule ccontr)
  assume "\<not> 1970 \<le> y"
  then have y: "y \<le> 1969" by simp
  note b = day_of_march_year_bounds [OF assms(1)]
  have m: "m \<le> 12" using assms(1) by (simp add: valid_date_def)
  show False
  proof (cases "m < 3")
    case True
    have "march_year y \<le> march_year 1969" using y by (rule march_year_mono)
    then show False using True b assms(2) by (simp add: days_year to_march_def epoch_day_def march_year_def)
  next
    case False
    have "march_year y \<le> march_year 1969" using y by (rule march_year_mono)
    moreover have "march_month (m + 1) \<le> march_month 13" using m by (intro march_month_mono) simp
    moreover have "march_month m + d \<le> march_month (m + 1)"
      using march_month_gap(1) [OF assms(1)] False m by (simp add: to_march_def)
    ultimately show False using False assms(2) by (simp add: days_def to_march_def epoch_day_def march_year_def march_month_def)
  qed
qed

text \<open>A truncation to the first day of a period, given by its month.\<close>

lemma truncate_date:
  assumes v: "valid_fields f" and e: "epoch_day \<le> days (f_date f)" and y: "f_year f \<le> 2261" and m: "1 \<le> m'" "m' \<le> f_month f"
  defines "g \<equiv> f\<lparr>f_month := m', f_day := 1, f_hour := 0, f_minute := 0, f_second := 0, f_nanosecond := 0\<rparr>"
  shows "makedatetime (f_year f) m' 1 0 0 0 0 = Some (nanos g)" "datetime_to_ymdHMSns (nanos g) = Some g"
proof -
  have "1970 \<le> f_year f" using epoch_year [of "f_year f" "f_month f" "f_day f"] v e by (simp add: valid_fields_def f_date_def)
  moreover have "m' \<le> 12" using v m by (simp add: valid_fields_def valid_date_def f_date_def)
  then have "valid_fields g"
    using m by (simp add: g_def valid_fields_def valid_date_def f_date_def small_time_def nonneg_time_def days_in_month_def)
  ultimately have "make_fields g = Some (nanos g)" "datetime_to_ymdHMSns (nanos g) = Some g"
    using make_valid [of g] y by (simp_all add: g_def)
  then show "makedatetime (f_year f) m' 1 0 0 0 0 = Some (nanos g)" "datetime_to_ymdHMSns (nanos g) = Some g"
    by (simp_all add: make_fields_def g_def)
qed

text \<open>
  The truncations of a datetime from 1970 on: to a second, minute, hour or day the remainder of the
  unit is cut off; to a month, quarter or year the result is midnight of the first day of the period.
\<close>
theorem datetime_truncations:
  assumes "fits64 t" "0 \<le> t" "datetime_to_ymdHMSns t = Some f" "f_year f \<le> 2261"
  shows "datetime_truncate_second t = Some (t - t mod 1000000000) \<and>
    datetime_truncate_minute t = Some (t - t mod (60 * 1000000000)) \<and>
    datetime_truncate_hour t = Some (t - t mod (3600 * 1000000000)) \<and>
    datetime_truncate_day t = Some (t - t mod (86400 * 1000000000)) \<and>
    (let midnight = f\<lparr>f_day := 1, f_hour := 0, f_minute := 0, f_second := 0, f_nanosecond := 0\<rparr> in
      datetime_truncate_month t \<bind> datetime_to_ymdHMSns = Some midnight \<and>
      datetime_truncate_quarter t \<bind> datetime_to_ymdHMSns = Some (midnight\<lparr>f_month := (f_month f - 1) div 3 * 3 + 1\<rparr>) \<and>
      datetime_truncate_year t \<bind> datetime_to_ymdHMSns = Some (midnight\<lparr>f_month := 1\<rparr>))"
proof -
  obtain f' where f': "datetime_to_ymdHMSns t = Some f'" "valid_fields f'" "count_range (f_date f')" "t = nanos f'"
    "epoch_day \<le> days (f_date f')" "1600 < f_year f'" "f_year f' < 2500"
    by (rule decode_valid [OF assms(1,2)])
  then have v: "valid_fields f" and e: "epoch_day \<le> days (f_date f)" using assms(3) by simp_all
  have mb: "1 \<le> f_month f" "f_month f \<le> 12" using v by (simp_all add: valid_fields_def valid_date_def f_date_def)
  have q: "1 \<le> (f_month f - 1) div 3 * 3 + 1" "(f_month f - 1) div 3 * 3 + 1 \<le> f_month f"
    using mb div_mult_mod_eq [of "f_month f - 1" 3] by (simp_all add: pos_imp_zdiv_nonneg_iff)
  note td = truncate_date [OF v e assms(4)]
  have month: "datetime_truncate_month t \<bind> datetime_to_ymdHMSns
    = Some (f\<lparr>f_day := 1, f_hour := 0, f_minute := 0, f_second := 0, f_nanosecond := 0\<rparr>)"
    using td [OF mb(1) order_refl] by (simp add: datetime_truncate_month_def assms(3))
  have quarter: "datetime_truncate_quarter t \<bind> datetime_to_ymdHMSns
    = Some (f\<lparr>f_day := 1, f_hour := 0, f_minute := 0, f_second := 0, f_nanosecond := 0, f_month := (f_month f - 1) div 3 * 3 + 1\<rparr>)"
    using td [OF q] mb by (simp add: datetime_truncate_quarter_def assms(3) sdiv_nonneg)
  have year: "datetime_truncate_year t \<bind> datetime_to_ymdHMSns
    = Some (f\<lparr>f_day := 1, f_hour := 0, f_minute := 0, f_second := 0, f_nanosecond := 0, f_month := 1\<rparr>)"
    using td [OF order_refl mb(1)] by (simp add: datetime_truncate_year_def assms(3))
  show ?thesis using truncate_eqs [OF assms(1,2)] month quarter year by (simp add: Let_def)
qed

theorem datetime_truncations_witness:
  "datetime_truncate_hour 1709183167000000008 = Some 1709182800000000000 \<and>
   datetime_truncate_quarter 1709183167000000008 \<bind> month_from_datetime = Some 1"
proof -
  define f where "f = \<lparr>f_year = 2024, f_month = 2, f_day = 29, f_hour = 5, f_minute = 6, f_second = 7, f_nanosecond = 8\<rparr>"
  have f: "datetime_to_ymdHMSns 1709183167000000008 = Some f" unfolding f_def by code_simp
  then show ?thesis using datetime_truncations [OF _ _ f]
    by (auto simp: fits64_def f_def Let_def month_from_datetime_def bind_eq_Some_conv)
qed


subsection \<open>Weeks\<close>

lemma midnight_eq:
  assumes t: "fits64 t" "0 \<le> t" and f: "datetime_to_ymdHMSns t = Some f"
  shows "makedatetime (f_year f) (f_month f) (f_day f) 0 0 0 0 = Some (t div 86400000000000 * 86400000000000)"
  using truncate_eqs(4) [OF t] by (simp add: datetime_truncate_day_def f minus_mod_eq_div_mult)

lemma weekday_of_fields:
  assumes t: "fits64 t" "0 \<le> t" and f: "datetime_to_ymdHMSns t = Some f"
  shows "ymd_to_dayofweek (f_year f) (f_month f) (f_day f) = Some ((t div 86400000000000 + 4) mod 7 + 1)"
  using dayofweek_eq [OF t] by (simp add: dayofweek_from_datetime_def f)

lemma shift_days:
  assumes "0 \<le> D" "D * 86400000000000 < 9223372036854775808" "\<bar>k\<bar> \<le> 7" "fits64 (D * 86400000000000 + k * 86400000000000)"
  shows "datetime_add_day (D * 86400000000000) k = Some ((D + k) * 86400000000000)"
    "fits64 (D * 86400000000000 - k * 86400000000000) \<Longrightarrow>
      datetime_sub_day (D * 86400000000000) k = Some ((D - k) * 86400000000000)"
proof -
  have k: "- 7 \<le> k" "k \<le> 7" using assms(3) by linarith+
  then show "datetime_add_day (D * 86400000000000) k = Some ((D + k) * 86400000000000)"
    using assms(4) by (simp add: datetime_add_day_def in64_def fits64_def algebra_simps)
  show "datetime_sub_day (D * 86400000000000) k = Some ((D - k) * 86400000000000)"
    if "fits64 (D * 86400000000000 - k * 86400000000000)"
    using that k by (simp add: datetime_sub_day_def in64_def fits64_def algebra_simps)
qed

text \<open>
  datetime_next_day returns midnight of the first later day with the requested day of the week (1 for
  Sunday), at most seven days on; and datetime_truncate_weekofyear midnight of the Monday of the week.
\<close>
theorem datetime_next_day_weekday:
  assumes "0 \<le> t" "t < 9222000000000000000" "1 \<le> w" "w \<le> 7"
  shows "\<exists>k. 1 \<le> k \<and> k \<le> 7 \<and>
    datetime_next_day t w = Some ((t div 86400000000000 + k) * 86400000000000) \<and>
    dayofweek_from_datetime ((t div 86400000000000 + k) * 86400000000000) = Some w \<and>
    (\<exists>j. 0 \<le> j \<and> j \<le> 6 \<and> datetime_truncate_weekofyear t = Some ((t div 86400000000000 - j) * 86400000000000) \<and>
      (t div 86400000000000 - j + 4) mod 7 + 1 = 2)"
proof -
  have t: "fits64 t" using assms by (simp add: fits64_def)
  obtain f where f: "datetime_to_ymdHMSns t = Some f" "valid_fields f" "count_range (f_date f)" "t = nanos f"
    "epoch_day \<le> days (f_date f)" "1600 < f_year f" "f_year f < 2500"
    by (rule decode_valid [OF t assms(1)])
  define D where "D = t div 86400000000000"
  define d where "d = (D + 4) mod 7 + 1"
  have d: "1 \<le> d" "d \<le> 7" unfolding d_def using pos_mod_bound [of 7 "D + 4"] pos_mod_sign [of 7 "D + 4"] by linarith+
  have D: "0 \<le> D" "D * 86400000000000 < 9222000000000000000"
    using assms minus_mod_eq_div_mult [of t 86400000000000, symmetric] pos_mod_sign [of 86400000000000 t]
    by (simp_all add: D_def pos_imp_zdiv_nonneg_iff)
  note mid = midnight_eq [OF t assms(1) f(1), folded D_def] and wd = weekday_of_fields [OF t assms(1) f(1), folded D_def d_def]
  define k where "k = (if w > d then w - d else 7 + w - d)"
  have k: "1 \<le> k" "k \<le> 7" using d assms(3,4) by (auto simp: k_def)
  have fk: "fits64 (D * 86400000000000 + k * 86400000000000)" using D k by (simp add: fits64_def)
  have add: "datetime_add_day (D * 86400000000000) k = Some ((D + k) * 86400000000000)"
    using D k fk by (intro shift_days(1)) simp_all
  have "in32 [7 + w, w - d, 7 + w - d] = Some ()" using assms(3,4) d by (simp add: in32_def fits32_def)
  then have nxt: "datetime_next_day t w = Some ((D + k) * 86400000000000)"
    using add by (cases "d < w") (simp_all only: datetime_next_day_def f(1) wd mid k_def Option.bind.bind_lunit if_True if_False)
  have "(D + 4) mod 7 + k = (w - 1) \<or> (D + 4) mod 7 + k = (w - 1) + 7" by (auto simp: k_def d_def)
  moreover have "(w - 1) mod 7 = w - 1" using assms(3,4) by simp
  ultimately have "((D + 4) mod 7 + k) mod 7 = w - 1" by (elim disjE) (simp_all only: mod_add_self2)
  then have "(D + 4 + k) mod 7 = w - 1" by (simp only: mod_add_left_eq)
  then have "(D + k + 4) mod 7 = w - 1" by (simp only: add.assoc add.commute [of k 4])
  moreover have "fits64 ((D + k) * 86400000000000)" "0 \<le> (D + k) * 86400000000000"
    using fk D k by (simp_all add: algebra_simps)
  ultimately have wk: "dayofweek_from_datetime ((D + k) * 86400000000000) = Some w"
    using dayofweek_eq [of "(D + k) * 86400000000000"] by simp
  define j where "j = (if d > 1 then d - 2 else 6)"
  have j: "0 \<le> j" "j \<le> 6" using d by (auto simp: j_def)
  have fj: "fits64 (D * 86400000000000 + j * 86400000000000)" "fits64 (D * 86400000000000 - j * 86400000000000)"
    using D j by (simp_all add: fits64_def)
  have "datetime_sub_day (D * 86400000000000) j = Some ((D - j) * 86400000000000)"
    using D j fj by (intro shift_days(2)) simp_all
  then have trunc: "datetime_truncate_weekofyear t = Some ((D - j) * 86400000000000)"
    by (cases "1 < d") (simp_all only: datetime_truncate_weekofyear_def f(1) wd mid j_def Option.bind.bind_lunit if_True if_False)
  have "(D + 4) mod 7 - j = 1 \<or> (D + 4) mod 7 - j = 1 - 7" using d by (auto simp: j_def d_def)
  then have "((D + 4) mod 7 - j) mod 7 = 1" by (elim disjE) simp_all
  then have "(D - j + 4) mod 7 = 1" by (simp only: mod_diff_left_eq) (simp add: algebra_simps)
  then show ?thesis
    using k j nxt wk trunc unfolding D_def by (intro exI [of _ k] conjI exI [of _ j]) simp_all
qed

theorem datetime_next_day_weekday_witness:
  "\<exists>k. 1 \<le> k \<and> k \<le> 7 \<and> datetime_next_day 1709183167000000008 2 = Some ((19782 + k) * 86400000000000)"
  using datetime_next_day_weekday [of 1709183167000000008 2] by auto

text \<open>
  weekofyear_from_datetime, for a datetime from 1970 on: with \<open>n\<close> days passed in the year and \<open>first\<close>
  days from 1 January to the Sunday of its week, weeks are counted from the first Monday after 1
  January; the rounding of the division towards zero makes the days of the first week, save a Monday
  1 January, count as the second one when that week has more than three days, so that 2 January 2018
  is in week 2 although 1 January 2018 (a Monday) is in week 1.
\<close>
theorem weekofyear_formula:
  assumes "fits64 t" "0 \<le> t" "datetime_to_ymdHMSns t = Some f"
    and "dayofyear_from_datetime t = Some (n + 1)" "ymd_to_dayofweek (f_year f) 1 1 = Some w"
    and "first = 7 - (w + 5) mod 7"
  shows "weekofyear_from_datetime t = Some (
    if first \<le> n then (n - first) div 7 + 1 + (if first > 3 then 1 else 0)
    else if n = 0 \<and> first = 7 then 1
    else 1 + (if first > 3 then 1 else 0))"
proof -
  obtain f' where f': "datetime_to_ymdHMSns t = Some f'" "valid_fields f'" "count_range (f_date f')" "t = nanos f'"
    "epoch_day \<le> days (f_date f')" "1600 < f_year f'" "f_year f' < 2500"
    by (rule decode_valid [OF assms(1,2)])
  then have f: "valid_fields f" "count_range (f_date f)" "1600 < f_year f" "f_year f < 2500" using assms(3) by simp_all
  define N F where "N = days (f_date f)" and "F = days (f_year f, 1, 1)"
  have vj: "valid_date (f_year f, 1, 1)" "count_range (f_year f, 1, 1)"
    using f by (simp_all add: valid_date_def days_in_month_def count_range_def)
  have N: "ymd_to_numdays (f_year f) (f_month f) (f_day f) = Some N" "0 \<le> N" "N < 400000000"
    using ymd_to_numdays_eq [of "f_year f" "f_month f" "f_day f"] f by (simp_all add: N_def f_date_def valid_fields_def)
  have F: "ymd_to_numdays (f_year f) 1 1 = Some F" "0 \<le> F" "F < 400000000"
    using ymd_to_numdays_eq [OF vj] by (simp_all add: F_def)
  have c: "in32 [N - F, N - F + 1] = Some ()" using N F by (simp add: in32_def fits32_def)
  have n: "n = N - F" using assms(4) by (simp add: dayofyear_from_datetime_def assms(3) N(1) F(1) c)
  have md: "1 \<le> f_month f" "1 \<le> f_day f" using f(1) by (simp_all add: valid_fields_def valid_date_def f_date_def)
  have "F \<le> N"
  proof (cases "f_month f < 3")
    case True
    have "march_month 13 \<le> march_month (f_month f + 12)" using md by (intro march_month_mono) simp
    then show ?thesis using True md by (simp add: F_def N_def f_date_def days_def to_march_def march_month_def)
  next
    case False
    have "march_month 3 \<le> march_month (f_month f)" using False by (intro march_month_mono) simp
    then show ?thesis using False md march_year_step [of "f_year f - 1"]
      by (simp add: F_def N_def f_date_def days_def to_march_def march_month_def split: if_splits)
  qed
  then have n0: "0 \<le> n" by (simp add: n)
  have "w = (F + 3) mod 7 + 1" using assms(5) dayofweek_of [OF vj] by (simp add: F_def)
  then have "(w + 5) mod 7 = ((F + 3) mod 7 + 6) mod 7" by (simp add: add.commute)
  also have "\<dots> = (F + 3 + 6) mod 7" by (rule mod_add_left_eq)
  also have "(F + 3 + 6) mod 7 = (F + 2 + 7) mod 7" by simp
  also have "\<dots> = (F + 2) mod 7" by (rule mod_add_self2)
  finally have first: "first = 7 - (F + 2) mod 7" by (simp add: assms(6))
  have fb: "1 \<le> first" "first \<le> 7" using pos_mod_bound [of 7 "F + 2"] pos_mod_sign [of 7 "F + 2"] by (simp_all add: first)
  have jan1: "(F + 2) smod 7 = (F + 2) mod 7" using F by (simp add: smod_nonneg)
  have c2: "in32 [F + 2, N - F, N - F - first] = Some ()" using N F fb by (simp add: in32_def fits32_def)
  have week: "weekofyear_from_datetime t = Some ((n - first) sdiv 7 + 1 + of_bool (first > 3))"
    by (simp only: weekofyear_from_datetime_def assms(3) N(1) F(1) Let_def jan1 first [symmetric] c2 n
      Option.bind.bind_lunit)
  show ?thesis
  proof (cases "first \<le> n")
    case True
    then show ?thesis by (simp add: week sdiv_nonneg)
  next
    case False
    show ?thesis
    proof (cases "n = 0 \<and> first = 7")
      case True
      then show ?thesis by (simp add: week signed_divide_int_def)
    next
      case short: False
      then have "\<bar>n - first\<bar> < 7" using False fb n0 by auto
      then have "(n - first) sdiv 7 = 0" by (simp add: signed_divide_int_def)
      then show ?thesis using False short by (simp add: week)
    qed
  qed
qed

theorem weekofyear_formula_witness:
  "makedatetime 2018 1 1 0 0 0 0 \<bind> weekofyear_from_datetime = Some 1 \<and>
   makedatetime 2018 1 2 0 0 0 0 = Some 1514851200000000000 \<and> weekofyear_from_datetime 1514851200000000000 = Some 2"
proof (intro conjI)
  define f where "f = \<lparr>f_year = 2018, f_month = 1, f_day = 2, f_hour = 0, f_minute = 0, f_second = 0, f_nanosecond = 0\<rparr>"
  show "makedatetime 2018 1 1 0 0 0 0 \<bind> weekofyear_from_datetime = Some 1" by code_simp
  show "makedatetime 2018 1 2 0 0 0 0 = Some 1514851200000000000" by code_simp
  have f: "datetime_to_ymdHMSns 1514851200000000000 = Some f" unfolding f_def by code_simp
  have "dayofyear_from_datetime 1514851200000000000 = Some (1 + 1)" by code_simp
  moreover have "ymd_to_dayofweek (f_year f) 1 1 = Some 2" unfolding f_def by code_simp
  ultimately show "weekofyear_from_datetime 1514851200000000000 = Some 2"
    using weekofyear_formula [OF _ _ f, of 1 2 7] by (simp add: fits64_def)
qed

end
