(* ===== verification/IntWords.thy ===== *)
theory IntWords
  imports Bounds PrefixSum Calendar
begin

text \<open>
  text/int_to_words.hpp, text/int_to_words.cc and text/parseint.hpp: columns of integers printed to a
  column of words, and parsed back.  A column of words (text/words.hpp) is one array of characters with
  the start and the length of every word.  Both directions work on blocks of words in lockstep: round
  by round every word of the block emits, or consumes, one digit.

  An integer type is its width and signedness; a signed overflow, which is undefined, is \<open>None\<close>,
  and unsigned results are reduced modulo the width.
\<close>

subsection \<open>Words and integer types\<close>

record words =
  w_chars :: "int list"
  w_starts :: "nat list"
  w_lens :: "nat list"

definition words_of :: "words \<Rightarrow> int list list" where
  "words_of w = map2 (\<lambda>s l. take l (drop s (w_chars w))) (w_starts w) (w_lens w)"

record int_type =
  it_signed :: bool
  it_bits :: nat

definition it_val :: "int_type \<Rightarrow> int \<Rightarrow> int option" where
  "it_val ty x =
     (if it_signed ty then (if - (2 ^ (it_bits ty - 1)) \<le> x \<and> x < 2 ^ (it_bits ty - 1) then Some x else None)
      else Some (x mod 2 ^ it_bits ty))"

text \<open>\<open>U\<close>: the unsigned type of the width of \<open>T\<close>.\<close>

definition it_unsigned :: "int_type \<Rightarrow> int_type" where
  "it_unsigned ty = \<lparr>it_signed = False, it_bits = (if it_bits ty = 32 then 32 else 64)\<rparr>"

record words_cfg =
  wc_vlen :: nat
  wc_bound_vlen :: nat
  wc_prefix_sum :: "nat list \<Rightarrow> nat list \<Rightarrow> nat \<Rightarrow> nat list option"

definition words_cfg_ve :: words_cfg where
  "words_cfg_ve = \<lparr>wc_vlen = 256, wc_bound_vlen = bound_vlen_ve, wc_prefix_sum = prefix_sum_ve prefix_vlen prefix_vlen_min\<rparr>"

definition words_cfg_x86 :: words_cfg where
  "words_cfg_x86 = \<lparr>wc_vlen = 4, wc_bound_vlen = bound_vlen_x86, wc_prefix_sum = prefix_sum_x86\<rparr>"

subsection \<open>Printing\<close>

definition get_digits_10 :: "int_type \<Rightarrow> int list" where
  "get_digits_10 ty = map (\<lambda>i. 10 ^ i) [0..<if it_bits ty = 32 then 10 else if it_signed ty then 19 else 20]"

text \<open>The table of the powers, padded so that two of them are never on one cache line.\<close>

definition digits_tbl :: "int_type \<Rightarrow> nat \<Rightarrow> int list option" where
  "digits_tbl ty tbl_pad = (let digits = get_digits_10 ty in
     for_each (\<lambda>i tbl. do { d \<leftarrow> rd digits i; wr tbl (i * tbl_pad) d }) [0..<length digits]
       (replicate (length digits * tbl_pad) 0))"

definition write_digit ::
  "int_type \<Rightarrow> int list \<Rightarrow> nat \<Rightarrow> nat \<Rightarrow> int list \<times> nat list \<times> nat list \<times> int list \<Rightarrow>
   (int list \<times> nat list \<times> nat list \<times> int list) option" where
  "write_digit ty tbl tbl_pad i = (\<lambda>(chars, out, lens, src). do {
     l \<leftarrow> rd lens i;
     if l > 0 then do {
       todiv \<leftarrow> rd tbl ((l - 1) * tbl_pad);
       s \<leftarrow> rd src i;
       let crnt_digit = to_int (s div todiv);
       p \<leftarrow> rd out i;
       chars \<leftarrow> wr chars p (crnt_digit + 48);
       out \<leftarrow> wr out i (p + 1);
       lens \<leftarrow> wr lens i (l - 1);
       s' \<leftarrow> it_val ty (s - crnt_digit * todiv);
       src \<leftarrow> wr src i s';
       Some (chars, out, lens, src) }
     else Some (chars, out, lens, src) })"

text \<open>
  One block of \<open>n\<close> words from word \<open>off\<close> on.  The C++ also writes the remainders back to the source
  array, which here is always a local copy that is not read again (only float_to_words reads it).
\<close>

definition write_block ::
  "int_type \<Rightarrow> int list \<Rightarrow> nat \<Rightarrow> nat list \<Rightarrow> nat list \<Rightarrow> int list \<Rightarrow> nat \<Rightarrow> nat \<Rightarrow> int list \<Rightarrow> int list option" where
  "write_block ty tbl tbl_pad starts lens src off n chars = do {
     out \<leftarrow> rd_block starts off n;
     ln \<leftarrow> rd_block lens off n;
     sr \<leftarrow> rd_block src off n;
     let mx = fold max ln 0;
     (chars, _, _, _) \<leftarrow> for_each (\<lambda>m. for_each (write_digit ty tbl tbl_pad) [0..<n]) [0..<mx] (chars, out, ln, sr);
     Some chars }"

definition int_to_words_write_digits ::
  "nat \<Rightarrow> int_type \<Rightarrow> int list \<Rightarrow> nat list \<Rightarrow> int list \<Rightarrow> nat list \<Rightarrow> int list option" where
  "int_to_words_write_digits VLEN ty chars starts src lens = do {
     let src_size = length src;
     let tbl_pad = 128 div (it_bits ty div 8);
     tbl \<leftarrow> digits_tbl ty tbl_pad;
     let block = src_size div VLEN;
     let rest = src_size - block * VLEN;
     chars \<leftarrow> for_each (\<lambda>b. write_block ty tbl tbl_pad starts lens src (b * VLEN) VLEN) [0..<block] chars;
     write_block ty tbl tbl_pad starts lens src (block * VLEN) rest chars }"

text \<open>The starts of words that follow each other: \<open>starts\<close> is created with zeros.\<close>

definition consecutive_starts :: "words_cfg \<Rightarrow> nat list \<Rightarrow> nat list option" where
  "consecutive_starts c lens = do {
     let starts = replicate (length lens) 0;
     s0 \<leftarrow> rd starts 0;
     valp \<leftarrow> rd_block lens 0 (length lens - 1);
     outp \<leftarrow> wc_prefix_sum c valp (drop 1 starts) (length lens - 1);
     Some (s0 # outp) }"

definition int_to_words_signed_helper :: "words_cfg \<Rightarrow> int_type \<Rightarrow> int list \<Rightarrow> words option" where
  "int_to_words_signed_helper c ty src =
     (if length src = 0 then Some \<lparr>w_chars = [], w_starts = [], w_lens = []\<rparr>
      else do {
        let n = length src;
        let U = it_unsigned ty;
        let is_minus = map (\<lambda>v. v < 0) src;
        new_src \<leftarrow> omap (\<lambda>v. do { v' \<leftarrow> (if v < 0 then it_val ty (- v) else Some v); it_val U v' }) src;
        lens \<leftarrow> upper_bound (wc_bound_vlen c) (get_digits_10 U) new_src (replicate n 0);
        let lens = map (\<lambda>l. if l = 0 then 1 else l) lens;
        let lens = map2 (\<lambda>b l. if b then l + 1 else l) is_minus lens;
        let total = fold (\<lambda>l t. t + l) lens 0;
        starts \<leftarrow> consecutive_starts c lens;
        chars \<leftarrow> for_each (\<lambda>i chars. do {
            b \<leftarrow> rd is_minus i;
            p \<leftarrow> rd starts i;
            if b then wr chars p 45 else Some chars }) [0..<n] (replicate total 0);
        let new_starts = map2 (\<lambda>b s. if b then s + 1 else s) is_minus starts;
        let new_lens = map2 (\<lambda>b l. if b then l - 1 else l) is_minus lens;
        chars \<leftarrow> int_to_words_write_digits (wc_vlen c) U chars new_starts new_src new_lens;
        Some \<lparr>w_chars = chars, w_starts = starts, w_lens = lens\<rparr> })"

definition int_to_words_unsigned_helper :: "words_cfg \<Rightarrow> int_type \<Rightarrow> int list \<Rightarrow> words option" where
  "int_to_words_unsigned_helper c ty src =
     (if length src = 0 then Some \<lparr>w_chars = [], w_starts = [], w_lens = []\<rparr>
      else do {
        let n = length src;
        lens \<leftarrow> upper_bound (wc_bound_vlen c) (get_digits_10 ty) src (replicate n 0);
        let lens = map (\<lambda>l. if l = 0 then 1 else l) lens;
        let total = fold (\<lambda>l t. t + l) lens 0;
        starts \<leftarrow> consecutive_starts c lens;
        chars \<leftarrow> int_to_words_write_digits (wc_vlen c) ty (replicate total 0) starts src lens;
        Some \<lparr>w_chars = chars, w_starts = starts, w_lens = lens\<rparr> })"

definition int_to_words :: "words_cfg \<Rightarrow> int_type \<Rightarrow> int list \<Rightarrow> words option" where
  "int_to_words c ty src =
     (if it_signed ty then int_to_words_signed_helper c ty src else int_to_words_unsigned_helper c ty src)"

subsection \<open>Parsing\<close>

text \<open>The sign of a word: its first character is skipped when it is \<open>+\<close> or \<open>-\<close>.\<close>

definition parse_sign ::
  "int_type \<Rightarrow> int list \<Rightarrow> nat list \<Rightarrow> nat \<Rightarrow> nat list \<times> int list \<Rightarrow> (nat list \<times> int list) option" where
  "parse_sign ty chars lens i = (\<lambda>(starts_buf, sign_buf). do {
     l \<leftarrow> rd lens i;
     if l > 0 then do {
       s \<leftarrow> rd starts_buf i;
       ch \<leftarrow> rd chars s;
       if ch = 43 then do { starts_buf \<leftarrow> wr starts_buf i (s + 1); Some (starts_buf, sign_buf) }
       else if ch = 45 then do {
         starts_buf \<leftarrow> wr starts_buf i (s + 1);
         m \<leftarrow> it_val ty (-1);
         sign_buf \<leftarrow> wr sign_buf i m;
         Some (starts_buf, sign_buf) }
       else Some (starts_buf, sign_buf) }
     else Some (starts_buf, sign_buf) })"

definition parse_digit ::
  "int_type \<Rightarrow> int list \<Rightarrow> nat list \<Rightarrow> nat \<Rightarrow> nat list \<times> int list \<Rightarrow> (nat list \<times> int list) option" where
  "parse_digit ty chars stops i = (\<lambda>(starts_buf, res_buf). do {
     s \<leftarrow> rd starts_buf i;
     e \<leftarrow> rd stops i;
     if s \<noteq> e then do {
       r \<leftarrow> rd res_buf i;
       ch \<leftarrow> rd chars s;
       a \<leftarrow> it_val ty (r * 10);
       a \<leftarrow> it_val ty (a + ch);
       a \<leftarrow> it_val ty (a - 48);
       starts_buf \<leftarrow> wr starts_buf i (s + 1);
       res_buf \<leftarrow> wr res_buf i a;
       Some (starts_buf, res_buf) }
     else Some (starts_buf, res_buf) })"

definition parse_block :: "int_type \<Rightarrow> int list \<Rightarrow> nat \<Rightarrow> nat list \<Rightarrow> nat list \<Rightarrow> int list option" where
  "parse_block ty chars all_max starts lens = do {
     let n = length starts;
     let stops = map2 (+) starts lens;
     (starts_buf, sign_buf) \<leftarrow> for_each (parse_sign ty chars lens) [0..<n] (starts, replicate n 1);
     (starts_buf, res_buf) \<leftarrow> for_each (\<lambda>it. for_each (parse_digit ty chars stops) [0..<n]) [0..<all_max]
       (starts_buf, replicate n 0);
     omap (\<lambda>i. do { r \<leftarrow> rd res_buf i; s \<leftarrow> rd sign_buf i; it_val ty (r * s) }) [0..<n] }"

definition parseint :: "nat \<Rightarrow> int_type \<Rightarrow> int list \<Rightarrow> nat list \<Rightarrow> nat list \<Rightarrow> int list option" where
  "parseint VLEN ty chars starts lens = do {
     let num_words = length starts;
     let block = num_words div VLEN;
     let rest = num_words - block * VLEN;
     let all_max = fold (\<lambda>l mx. if l > mx then l else mx) lens 0;
     full \<leftarrow> omap (\<lambda>b. do {
         st \<leftarrow> rd_block starts (b * VLEN) VLEN;
         ln \<leftarrow> rd_block lens (b * VLEN) VLEN;
         parse_block ty chars all_max st ln }) [0..<block];
     st \<leftarrow> rd_block starts (block * VLEN) rest;
     ln \<leftarrow> rd_block lens (block * VLEN) rest;
     last_part \<leftarrow> parse_block ty chars all_max st ln;
     Some (concat full @ last_part) }"

text \<open>The exception for types that are not integers cannot occur: an \<open>int_type\<close> is one.\<close>

definition parseint_words :: "words_cfg \<Rightarrow> int_type \<Rightarrow> words \<Rightarrow> int list option" where
  "parseint_words c ty w = parseint (wc_vlen c) ty (w_chars w) (w_starts w) (w_lens w)"

end
