(* ===== verification/IntDigits.thy ===== *)
theory IntDigits
  imports IntWords
begin

text \<open>
  Printing: what the lockstep loops of int_to_words_write_digits leave in the array of characters.
\<close>

subsection \<open>Decimal digits\<close>

definition dig :: "int \<Rightarrow> nat \<Rightarrow> nat \<Rightarrow> int" where
  "dig v l k = v div 10 ^ (l - 1 - k) mod 10"

definition decimal :: "int \<Rightarrow> nat \<Rightarrow> int list" where
  "decimal v l = map (\<lambda>k. 48 + dig v l k) [0..<l]"

lemma length_decimal [simp]: "length (decimal v l) = l"
  by (simp add: decimal_def)

lemma pow_split: "k < l \<Longrightarrow> (10 :: int) ^ (l - k) = 10 * 10 ^ (l - 1 - k)"
proof -
  assume "k < l"
  then have "l - k = Suc (l - 1 - k)" by simp
  then show ?thesis by simp
qed

lemma digit_step:
  assumes "k < l"
  shows "v mod 10 ^ (l - k) div 10 ^ (l - 1 - k) = dig v l k"
    "v mod 10 ^ (l - k) - dig v l k * 10 ^ (l - 1 - k) = v mod 10 ^ (l - Suc k)"
proof -
  define b :: int where "b = 10 ^ (l - 1 - k)"
  have b: "0 < b" by (simp add: b_def)
  have m: "v mod 10 ^ (l - k) = b * (v div b mod 10) + v mod b"
    using zmod_zmult2_eq [of 10 v b] by (simp add: pow_split [OF assms] b_def mult.commute)
  have "(b * (v div b mod 10) + v mod b) div b = v div b mod 10" using b by simp
  then show "v mod 10 ^ (l - k) div 10 ^ (l - 1 - k) = dig v l k"
    unfolding m dig_def b_def [symmetric] by simp
  show "v mod 10 ^ (l - k) - dig v l k * 10 ^ (l - 1 - k) = v mod 10 ^ (l - Suc k)"
    unfolding m dig_def b_def [symmetric] by (simp add: mult.commute) (simp add: b_def)
qed

lemma dig_range: "0 \<le> dig v l k" "dig v l k < 10"
  by (simp_all add: dig_def)

lemma to_int_dig: "to_int (dig v l k) = dig v l k"
  using dig_range [of v l k] by (intro to_int_id) (simp add: fits32_def)

subsection \<open>The table of powers\<close>

definition max_digits :: "int_type \<Rightarrow> nat" where
  "max_digits ty = length (get_digits_10 ty)"

lemma digits_nth: "l < max_digits ty \<Longrightarrow> get_digits_10 ty ! l = 10 ^ l"
  by (simp add: max_digits_def get_digits_10_def)

lemma digits_tbl_ok:
  assumes "0 < pad"
  shows "ok (digits_tbl ty pad) (\<lambda>tbl. \<forall>l<max_digits ty. rd tbl (l * pad) = Some (10 ^ l))"
proof -
  define n where "n = max_digits ty"
  define I where "I = (\<lambda>i (tbl :: int list). length tbl = n * pad \<and> (\<forall>l<i. tbl ! (l * pad) = 10 ^ l))"
  have cell: "l * pad < n * pad" if "l < n" for l using that assms by simp
  have "ok (digits_tbl ty pad) (I n)"
    unfolding digits_tbl_def Let_def max_digits_def [symmetric] n_def [symmetric]
  proof (rule ok_for_range)
    show "I 0 (replicate (n * pad) 0)" by (simp add: I_def)
  next
    fix i tbl assume i: "i < n" and I: "I i tbl"
    have "rd (get_digits_10 ty) i = Some (10 ^ i)" using i digits_nth [of i ty] by (simp add: n_def max_digits_def)
    then show "ok (do { d \<leftarrow> rd (get_digits_10 ty) i; wr tbl (i * pad) d }) (I (Suc i))"
      using I i cell [OF i] assms by (auto simp: ok_simps I_def nth_list_update less_Suc_eq)
  qed simp
  then show ?thesis
    by (rule ok_mono) (use cell in \<open>auto simp: I_def n_def rd_def\<close>)
qed

subsection \<open>Words to be written\<close>

text \<open>Word \<open>j\<close> has the cells from \<open>S j\<close> on, \<open>L j\<close> of them, and the value \<open>V j\<close>; words do not overlap.\<close>

definition regions :: "int_type \<Rightarrow> (nat \<Rightarrow> nat) \<Rightarrow> (nat \<Rightarrow> nat) \<Rightarrow> (nat \<Rightarrow> int) \<Rightarrow> nat \<Rightarrow> nat \<Rightarrow> bool" where
  "regions ty S L V n sz \<longleftrightarrow> (\<forall>j<n. S j + L j \<le> sz \<and> 0 \<le> V j \<and> V j < 10 ^ L j \<and> V j < 2 ^ it_bits ty \<and> L j \<le> max_digits ty) \<and>
    (\<forall>i j. i < j \<longrightarrow> j < n \<longrightarrow> S i + L i \<le> S j)"

lemma regions_disjoint:
  assumes "regions ty S L V n sz" "i < n" "j < n" "k < L i" "k' < L j" "S i + k = S j + k'"
  shows "i = j \<and> k = k'"
proof (cases i j rule: linorder_cases)
  case less
  then have "S i + L i \<le> S j" using assms by (simp add: regions_def)
  then show ?thesis using assms by simp
next
  case greater
  then have "S j + L j \<le> S i" using assms by (simp add: regions_def)
  then show ?thesis using assms by simp
qed (use assms in simp)

definition outside :: "(nat \<Rightarrow> nat) \<Rightarrow> (nat \<Rightarrow> nat) \<Rightarrow> nat \<Rightarrow> nat \<Rightarrow> bool" where
  "outside S L n p \<longleftrightarrow> (\<forall>j<n. \<not> (S j \<le> p \<and> p < S j + L j))"

text \<open>What the array holds when \<open>D j\<close> digits of word \<open>j\<close> have been written.\<close>

definition written ::
  "(nat \<Rightarrow> nat) \<Rightarrow> (nat \<Rightarrow> nat) \<Rightarrow> (nat \<Rightarrow> int) \<Rightarrow> nat \<Rightarrow> int list \<Rightarrow> (nat \<Rightarrow> nat) \<Rightarrow> int list \<Rightarrow> bool" where
  "written S L V n chars0 D chars \<longleftrightarrow> length chars = length chars0 \<and>
    (\<forall>j<n. \<forall>k<L j. k < D j \<longrightarrow> chars ! (S j + k) = 48 + dig (V j) (L j) k) \<and>
    (\<forall>p<length chars0. outside S L n p \<longrightarrow> chars ! p = chars0 ! p)"

lemma written_step:
  assumes r: "regions ty S L V n (length chars0)" and w: "written S L V n chars0 D chars"
    and j: "j < n" "D j < L j"
  shows "written S L V n chars0 (D(j := Suc (D j))) (chars[S j + D j := 48 + dig (V j) (L j) (D j)])"
  unfolding written_def
proof (intro conjI allI impI)
  show "length (chars[S j + D j := 48 + dig (V j) (L j) (D j)]) = length chars0" using w by (simp add: written_def)
  have inside: "S j + D j < length chars" using r w j by (fastforce simp: regions_def written_def)
  fix i k assume i: "i < n" "k < L i" "k < (D(j := Suc (D j))) i"
  show "chars[S j + D j := 48 + dig (V j) (L j) (D j)] ! (S i + k) = 48 + dig (V i) (L i) k"
  proof (cases "i = j \<and> k = D j")
    case True
    then show ?thesis using inside by simp
  next
    case False
    then have "S i + k \<noteq> S j + D j" using regions_disjoint [OF r i(1) j(1) i(2) j(2)] by auto
    moreover have "k < D i" using False i(3) by (auto split: if_splits)
    ultimately show ?thesis using w i by (simp add: written_def)
  qed
next
  fix p assume p: "p < length chars0" "outside S L n p"
  then have "p \<noteq> S j + D j" using j by (auto simp: outside_def)
  then show "chars[S j + D j := 48 + dig (V j) (L j) (D j)] ! p = chars0 ! p" using w p by (simp add: written_def)
qed

subsection \<open>One block\<close>

text \<open>The registers of a block of \<open>n\<close> words from word \<open>off\<close> on, after \<open>D j\<close> rounds of word \<open>j\<close>.\<close>

definition block_regs ::
  "(nat \<Rightarrow> nat) \<Rightarrow> (nat \<Rightarrow> nat) \<Rightarrow> (nat \<Rightarrow> int) \<Rightarrow> nat \<Rightarrow> nat \<Rightarrow> (nat \<Rightarrow> nat) \<Rightarrow> nat list \<times> nat list \<times> int list \<Rightarrow> bool" where
  "block_regs S L V off n D = (\<lambda>(out, lens, src).
    out = map (\<lambda>i. S (off + i) + min (L (off + i)) (D (off + i))) [0..<n] \<and>
    lens = map (\<lambda>i. L (off + i) - D (off + i)) [0..<n] \<and>
    src = map (\<lambda>i. V (off + i) mod 10 ^ (L (off + i) - D (off + i))) [0..<n])"

lemma block_regs_step:
  assumes "block_regs S L V off n D (out, lens, src)" "i < n" "D (off + i) < L (off + i)"
  shows "block_regs S L V off n (D(off + i := Suc (D (off + i))))
    (out[i := out ! i + 1], lens[i := lens ! i - 1],
     src[i := V (off + i) mod 10 ^ (L (off + i) - Suc (D (off + i)))])"
  using assms by (auto simp: block_regs_def nth_list_update intro!: nth_equalityI)

lemma block_regs_idle:
  assumes "block_regs S L V off n D regs" "L (off + i) \<le> D (off + i)"
  shows "block_regs S L V off n (D(off + i := Suc (D (off + i)))) regs"
  using assms by (auto simp: block_regs_def intro!: map_cong)

lemma written_idle:
  assumes "written S L V n chars0 D chars" "L j \<le> D j"
  shows "written S L V n chars0 (D(j := Suc (D j))) chars"
  using assms by (auto simp: written_def split: if_splits)

lemma write_digit_ok:
  assumes r: "regions ty S L V N (length chars0)" and un: "\<not> it_signed ty"
    and tbl: "\<forall>l<max_digits ty. rd tbl (l * pad) = Some (10 ^ l)"
    and w: "written S L V N chars0 D chars" and b: "block_regs S L V off n D (out, lens, src)"
    and i: "i < n" "off + i < N"
  shows "ok (write_digit ty tbl pad i (chars, out, lens, src)) (\<lambda>(chars, regs).
    written S L V N chars0 (D(off + i := Suc (D (off + i)))) chars \<and>
    block_regs S L V off n (D(off + i := Suc (D (off + i)))) regs)"
proof (cases "L (off + i) \<le> D (off + i)")
  case True
  have "rd lens i = Some 0" using b i True by (simp add: block_regs_def rd_def)
  then show ?thesis
    using written_idle [OF w True] block_regs_idle [OF b True] by (simp add: write_digit_def)
next
  case False
  define j l k v where "j = off + i" and "l = L (off + i)" and "k = D (off + i)" and "v = V (off + i)"
  have kl: "k < l" using False by (simp add: k_def l_def)
  have v: "0 \<le> v" "v < 2 ^ it_bits ty" and len: "l \<le> max_digits ty" and fit: "S j + l \<le> length chars"
    using r w i by (auto simp: regions_def written_def j_def l_def v_def)
  have regs: "rd lens i = Some (l - k)" "rd src i = Some (v mod 10 ^ (l - k))" "rd out i = Some (S j + k)"
    using b i kl by (simp_all add: block_regs_def rd_def l_def k_def v_def j_def)
  have lens: "i < length lens" "i < length src" "i < length out" "lens ! i = l - k" "out ! i = S j + k"
    using b i kl by (simp_all add: block_regs_def l_def k_def v_def j_def)
  have t: "rd tbl ((l - Suc k) * pad) = Some (10 ^ (l - 1 - k))"
    using tbl len kl by (simp add: diff_commute)
  have d: "v mod 10 ^ (l - k) div 10 ^ (l - 1 - k) = dig v l k"
    "v mod 10 ^ (l - k) - dig v l k * 10 ^ (l - 1 - k) = v mod 10 ^ (l - Suc k)"
    using digit_step [OF kl] by simp_all
  have "v mod 10 ^ (l - Suc k) \<le> v" using v(1) by (simp add: zmod_le_nonneg_dividend)
  then have it: "it_val ty (v mod 10 ^ (l - Suc k)) = Some (v mod 10 ^ (l - Suc k))"
    using un v by (simp add: it_val_def)
  have wr: "wr chars (S j + k) (dig v l k + 48) = Some (chars[S j + k := 48 + dig v l k])"
    using fit kl by (simp add: wr_def add.commute)
  have "write_digit ty tbl pad i (chars, out, lens, src) = Some (chars[S j + k := 48 + dig v l k],
      out[i := out ! i + 1], lens[i := lens ! i - 1], src[i := v mod 10 ^ (l - Suc k)])"
    using kl lens by (simp add: write_digit_def regs t d [simplified] to_int_dig it [simplified] wr Let_def)
  then show ?thesis
    using written_step [OF r w i(2)] block_regs_step [OF b i(1)] False
    by (simp add: j_def l_def k_def v_def)
qed


lemma fold_max_le: "m \<in> set ms \<or> m \<le> a \<Longrightarrow> m \<le> fold max ms (a :: nat)"
proof (induction ms arbitrary: a)
  case (Cons x ms)
  from Cons.prems have "m \<in> set ms \<or> m \<le> max x a" by (simp add: le_max_iff_disj) blast
  then show ?case using Cons.IH by simp
qed simp

lemma slice_map: "off + n \<le> N \<Longrightarrow> take n (drop off (map f [0..<N])) = map (\<lambda>i. f (off + i)) [0..<n]"
  by (intro nth_equalityI) auto

text \<open>How many rounds word \<open>j\<close> has had when \<open>m\<close> rounds and \<open>i\<close> words of the next are done.\<close>

definition rounds :: "(nat \<Rightarrow> nat) \<Rightarrow> nat \<Rightarrow> nat \<Rightarrow> nat \<Rightarrow> nat \<Rightarrow> nat \<Rightarrow> nat" where
  "rounds L off n m i = (\<lambda>j. if j < off then L j else if j < off + i then Suc m else if j < off + n then m else 0)"

lemma rounds_step: "i < n \<Longrightarrow> (rounds L off n m i)(off + i := Suc (rounds L off n m i (off + i))) = rounds L off n m (Suc i)"
proof (rule ext)
  fix j assume i: "i < n"
  show "((rounds L off n m i)(off + i := Suc (rounds L off n m i (off + i)))) j = rounds L off n m (Suc i) j"
    using i by (cases j "off + i" rule: linorder_cases) (simp_all add: rounds_def)
qed

lemma rounds_next: "rounds L off n m n = rounds L off n (Suc m) 0"
  by (rule ext) (simp add: rounds_def)

lemma rounds_start: "rounds L off n 0 0 = (\<lambda>j. if j < off then L j else 0)"
  by (rule ext) (simp add: rounds_def)

lemma write_block_ok:
  assumes r: "regions ty S L V N (length chars0)" and un: "\<not> it_signed ty"
    and tbl: "\<forall>l<max_digits ty. rd tbl (l * pad) = Some (10 ^ l)"
    and lists: "starts = map S [0..<N]" "lens = map L [0..<N]" "src = map V [0..<N]"
    and n: "off + n \<le> N"
    and w: "written S L V N chars0 (\<lambda>j. if j < off then L j else 0) chars"
  shows "ok (write_block ty tbl pad starts lens src off n chars)
    (written S L V N chars0 (\<lambda>j. if j < off + n then L j else 0))"
proof -
  have reads: "rd_block starts off n = Some (map (\<lambda>i. S (off + i)) [0..<n])"
    "rd_block lens off n = Some (map (\<lambda>i. L (off + i)) [0..<n])"
    "rd_block src off n = Some (map (\<lambda>i. V (off + i)) [0..<n])"
    using n by (simp_all add: lists slice_map)
  define ln where "ln = map (\<lambda>i. L (off + i)) [0..<n]"
  define mx where "mx = fold max ln 0"
  have mx: "L (off + i) \<le> mx" if "i < n" for i
    unfolding mx_def by (rule fold_max_le) (use that in \<open>simp add: ln_def\<close>)
  define D where "D = rounds L off n"
  define I where "I m i = (\<lambda>(chars, regs). written S L V N chars0 (D m i) chars \<and> block_regs S L V off n (D m i) regs)" for m i
  note D_step = rounds_step [of _ n L off, folded D_def]
  have step: "ok (write_digit ty tbl pad i st) (I m (Suc i))" if i: "i < n" and I: "I m i st" for m i st
  proof -
    obtain ch out le sr where st: "st = (ch, out, le, sr)" by (cases st)
    have "ok (write_digit ty tbl pad i (ch, out, le, sr)) (\<lambda>(chars, regs).
      written S L V N chars0 ((D m i)(off + i := Suc (D m i (off + i)))) chars \<and>
      block_regs S L V off n ((D m i)(off + i := Suc (D m i (off + i)))) regs)"
    proof (rule write_digit_ok [OF r un tbl])
      show "written S L V N chars0 (D m i) ch" "block_regs S L V off n (D m i) (out, le, sr)"
        using I by (simp_all only: I_def st prod.case)
    qed (use i n in simp_all)
    then show ?thesis unfolding D_step [OF i] I_def st .
  qed
  note D_round = rounds_next [of L off n, folded D_def]
  have start: "I 0 0 (chars, map (\<lambda>i. S (off + i)) [0..<n], ln, map (\<lambda>i. V (off + i)) [0..<n])"
  proof -
    have "D 0 0 = (\<lambda>j. if j < off then L j else 0)" by (simp add: D_def rounds_start)
    moreover have "V (off + i) mod 10 ^ L (off + i) = V (off + i)" if "i < n" for i
      using r n that by (simp add: regions_def)
    ultimately show ?thesis using w by (simp add: I_def block_regs_def ln_def)
  qed
  have "ok (for_each (\<lambda>m. for_each (write_digit ty tbl pad) [0..<n]) [0..<mx]
      (chars, map (\<lambda>i. S (off + i)) [0..<n], ln, map (\<lambda>i. V (off + i)) [0..<n])) (I mx 0)"
  proof (rule ok_for_range [where I = "\<lambda>m. I m 0"])
    fix m st assume "I m 0 st"
    then have "ok (for_each (write_digit ty tbl pad) [0..<n] st) (I m n)"
      by (intro ok_for_range [where I = "I m"] step) simp_all
    then show "ok (for_each (write_digit ty tbl pad) [0..<n] st) (I (Suc m) 0)"
      by (simp add: I_def D_round)
  qed (use start in simp_all)
  then obtain st where run: "for_each (\<lambda>m. for_each (write_digit ty tbl pad) [0..<n]) [0..<mx]
      (chars, map (\<lambda>i. S (off + i)) [0..<n], ln, map (\<lambda>i. V (off + i)) [0..<n]) = Some st" and "I mx 0 st"
    unfolding ok_iff_ex by blast
  moreover obtain ch out le sr where st: "st = (ch, out, le, sr)" by (cases st)
  ultimately have "I mx 0 (ch, out, le, sr)" by simp
  then have wD: "written S L V N chars0 (D mx 0) ch" by (simp add: I_def)
  have "written S L V N chars0 (\<lambda>j. if j < off + n then L j else 0) ch"
    unfolding written_def
  proof (intro conjI allI impI)
    fix j k assume j: "j < N" "k < L j" "k < (if j < off + n then L j else 0)"
    have "k < D mx 0 j"
    proof (cases "j < off")
      case False
      then have "k < L (off + (j - off))" "j - off < n" using j by (auto split: if_splits)
      then show ?thesis using False mx [of "j - off"] j(3) by (auto simp: D_def rounds_def split: if_splits)
    qed (use j in \<open>simp add: D_def rounds_def\<close>)
    then show "ch ! (S j + k) = 48 + dig (V j) (L j) k" using wD j by (simp add: written_def)
  qed (use wD in \<open>simp_all add: written_def\<close>)
  then show ?thesis
    unfolding write_block_def Let_def reads Option.bind.bind_lunit ln_def [symmetric] mx_def [symmetric] run st
    by simp
qed

lemma write_digits_ok:
  assumes r: "regions ty S L V N (length chars)" and un: "\<not> it_signed ty" and bits: "it_bits ty \<in> {32, 64}" and VLEN: "0 < VLEN"
    and lists: "starts = map S [0..<N]" "lens = map L [0..<N]" "src = map V [0..<N]"
  shows "ok (int_to_words_write_digits VLEN ty chars starts src lens) (written S L V N chars L)"
proof -
  define pad where "pad = 128 div (it_bits ty div 8)"
  have pad: "0 < pad" using bits by (auto simp: pad_def)
  define W where "W J = written S L V N chars (\<lambda>j. if j < J then L j else 0)" for J
  define B where "B = N div VLEN"
  have BN: "B * VLEN \<le> N" by (simp add: B_def)
  have "ok (do { chars \<leftarrow> for_each (\<lambda>b. write_block ty tbl pad starts lens src (b * VLEN) VLEN) [0..<B] chars;
      write_block ty tbl pad starts lens src (B * VLEN) (N - B * VLEN) chars }) (written S L V N chars L)"
    if tbl: "\<forall>l<max_digits ty. rd tbl (l * pad) = Some (10 ^ l)" for tbl
  proof -
    have "ok (for_each (\<lambda>b. write_block ty tbl pad starts lens src (b * VLEN) VLEN) [0..<B] chars) (W (B * VLEN))"
    proof (rule ok_for_range [where I = "\<lambda>b. W (b * VLEN)"])
      show "W (0 * VLEN) chars" by (simp add: W_def written_def)
      fix b ch assume b: "b < B" and "W (b * VLEN) ch"
      moreover have "b * VLEN + VLEN \<le> N" using mult_le_mono1 [of "Suc b" B VLEN] b BN by simp
      ultimately show "ok (write_block ty tbl pad starts lens src (b * VLEN) VLEN ch) (W (Suc b * VLEN))"
        using write_block_ok [OF r un tbl lists, of "b * VLEN" VLEN ch] by (simp add: W_def add.commute)
    qed simp
    moreover have "ok (write_block ty tbl pad starts lens src (B * VLEN) (N - B * VLEN) ch) (written S L V N chars L)"
      if "W (B * VLEN) ch" for ch
    proof -
      have "ok (write_block ty tbl pad starts lens src (B * VLEN) (N - B * VLEN) ch) (W N)"
        using write_block_ok [OF r un tbl lists, of "B * VLEN" "N - B * VLEN" ch] that BN by (simp add: W_def)
      then show ?thesis by (rule ok_mono) (auto simp: W_def written_def)
    qed
    ultimately show ?thesis by (auto simp: ok_bind elim!: ok_mono)
  qed
  then show ?thesis
    using digits_tbl_ok [OF pad, of ty]
    by (auto simp: int_to_words_write_digits_def Let_def pad_def [symmetric] B_def lists(3) ok_bind elim!: ok_mono)
qed

end
