(* ===== verification/IntPrint.thy ===== *)
theory IntPrint
  imports IntDigits
begin

text \<open>
  int_to_words: the words are the decimal representations, one after the other.
\<close>

subsection \<open>The decimal representation\<close>

fun show_nat :: "nat \<Rightarrow> int list" where
  "show_nat n = (if n < 10 then [48 + int n] else show_nat (n div 10) @ [48 + int (n mod 10)])"

declare show_nat.simps [simp del]

definition show_int :: "int \<Rightarrow> int list" where
  "show_int v = (if v < 0 then 45 # show_nat (nat (- v)) else show_nat (nat v))"

lemma dig_Suc: "k < l \<Longrightarrow> dig v (Suc l) k = dig (v div 10) l k"
proof -
  assume k: "k < l"
  have "(10 :: int) ^ (l - k) = 10 * 10 ^ (l - 1 - k)" by (rule pow_split [OF k])
  then have "v div 10 ^ (l - k) = v div 10 div 10 ^ (l - 1 - k)" by (simp add: zdiv_zmult2_eq)
  then show ?thesis by (simp add: dig_def)
qed

lemma decimal_Suc: "decimal v (Suc l) = decimal (v div 10) l @ [48 + v mod 10]"
proof -
  have "dig v (Suc l) l = v mod 10" by (simp add: dig_def)
  then show ?thesis by (simp add: decimal_def dig_Suc)
qed

lemma decimal_show:
  assumes "0 \<le> v" "v < 10 ^ l" "0 < l" "1 < l \<longrightarrow> 10 ^ (l - 1) \<le> v"
  shows "decimal v l = show_nat (nat v)"
  using assms
proof (induction l arbitrary: v)
  case (Suc l)
  show ?case
  proof (cases "l = 0")
    case True
    then have "v < 10" using Suc.prems by simp
    then show ?thesis using Suc.prems(1) True by (simp add: decimal_def dig_def show_nat.simps)
  next
    case False
    then have lo: "10 ^ l \<le> v" using Suc.prems by simp
    have p: "(10 :: int) ^ l = 10 * 10 ^ (l - 1)" using False by (cases l) simp_all
    have "10 * 10 ^ (l - 1) div 10 \<le> v div 10" using lo p by (intro zdiv_mono1) simp_all
    moreover have "v div 10 * 10 \<le> v" using pos_mod_sign [of 10 v] div_mult_mod_eq [of v 10] by linarith
    ultimately have q: "0 \<le> v div 10" "v div 10 < 10 ^ l" "10 ^ (l - 1) \<le> v div 10"
      using Suc.prems(1,2) by (simp_all add: pos_imp_zdiv_nonneg_iff)
    have "10 \<le> v" using lo p one_le_power [of "10 :: int" "l - 1"] by linarith
    then have "\<not> nat v < 10" by simp
    then have "show_nat (nat v) = show_nat (nat (v div 10)) @ [48 + v mod 10]" using \<open>10 \<le> v\<close>
      by (subst show_nat.simps) (simp add: nat_div_distrib zmod_int)
    then show ?thesis using Suc.IH [OF q(1,2)] q(3) False by (simp add: decimal_Suc)
  qed
qed simp

subsection \<open>The number of digits\<close>

definition powers_upto :: "nat \<Rightarrow> int \<Rightarrow> nat" where
  "powers_upto K v = length (filter (\<lambda>x. x \<le> v) (map (\<lambda>i. 10 ^ i) [0..<K]))"

lemma powers_upto_Suc:
  "powers_upto (Suc K) v = (if 10 ^ K \<le> v then Suc K else powers_upto K v)"
proof (cases "10 ^ K \<le> v")
  case True
  have "10 ^ i \<le> v" if "i < K" for i
  proof -
    have "(10 :: int) ^ i \<le> 10 ^ K" using that by (intro power_increasing) simp_all
    then show ?thesis using True by linarith
  qed
  then have "filter (\<lambda>x. x \<le> v) (map (\<lambda>i. 10 ^ i) [0..<K]) = map (\<lambda>i. 10 ^ i) [0..<K]"
    by (intro filter_True) auto
  then show ?thesis using True by (simp add: powers_upto_def)
qed (simp add: powers_upto_def)

lemma powers_upto_bounds:
  assumes "0 \<le> v" "v < 10 ^ K"
  shows "v < 10 ^ powers_upto K v \<and> powers_upto K v \<le> K \<and> (0 < powers_upto K v \<longrightarrow> 10 ^ (powers_upto K v - 1) \<le> v)"
  using assms
proof (induction K)
  case 0
  then show ?case by (simp add: powers_upto_def)
next
  case (Suc K)
  then show ?case by (cases "10 ^ K \<le> v") (auto simp: powers_upto_Suc)
qed

definition num_len :: "nat \<Rightarrow> int \<Rightarrow> nat" where
  "num_len K v = (if powers_upto K v = 0 then 1 else powers_upto K v)"

lemma num_len_ok:
  assumes "0 \<le> v" "v < 10 ^ K" "0 < K"
  shows "v < 10 ^ num_len K v" "num_len K v \<le> K" "0 < num_len K v" "decimal v (num_len K v) = show_nat (nat v)"
proof -
  note b = powers_upto_bounds [OF assms(1,2)]
  show *: "v < 10 ^ num_len K v" "num_len K v \<le> K" "0 < num_len K v" using b assms(3) by (auto simp: num_len_def)
  show "decimal v (num_len K v) = show_nat (nat v)"
    by (rule decimal_show [OF assms(1) *(1,3)]) (use b in \<open>auto simp: num_len_def\<close>)
qed

subsection \<open>Builds\<close>

locale words_build =
  fixes c :: words_cfg
  assumes vlen: "0 < wc_vlen c" "0 < wc_bound_vlen c"
    and prefix_sum: "\<And>xs out. length out = length xs \<Longrightarrow> wc_prefix_sum c xs out (length xs) = Some (prefix_sums xs)"
begin

lemma digit_counts:
  "upper_bound (wc_bound_vlen c) (get_digits_10 ty) vs (replicate (length vs) 0)
    = Some (map (powers_upto (max_digits ty)) vs)"
proof -
  have s: "sorted (get_digits_10 ty)" by (simp add: get_digits_10_def sorted_iff_nth_mono)
  have "takeWhile (\<lambda>x. x \<le> v) (get_digits_10 ty) = filter (\<lambda>x. x \<le> v) (get_digits_10 ty)" for v
    using s by (rule sorted_takeWhile_filter) auto
  then show ?thesis
    using ub.search_takeWhile [of "wc_bound_vlen c" "replicate (length vs) 0" vs "get_digits_10 ty"] s vlen
    by (simp add: upper_bound_def powers_upto_def max_digits_def get_digits_10_def)
qed

lemma starts_eq:
  assumes "lens \<noteq> []"
  shows "consecutive_starts c lens = Some (map (\<lambda>j. sum_list (take j lens)) [0..<length lens])"
proof -
  have "length (drop 1 (replicate (length lens) (0 :: nat))) = length (take (length lens - 1) lens)" by simp
  then have p: "wc_prefix_sum c (take (length lens - 1) lens) (replicate (length lens - 1) 0) (length lens - 1)
      = Some (prefix_sums (take (length lens - 1) lens))"
    using prefix_sum [of "replicate (length lens - 1) 0" "take (length lens - 1) lens"] by simp
  have "0 # prefix_sums (take (length lens - 1) lens) = map (\<lambda>j. sum_list (take j lens)) [0..<length lens]"
  proof (rule nth_equalityI)
    show "length (0 # prefix_sums (take (length lens - 1) lens)) = length (map (\<lambda>j. sum_list (take j lens)) [0..<length lens])"
      using assms by (simp add: prefix_sums_def)
    fix j assume "j < length (0 # prefix_sums (take (length lens - 1) lens))"
    moreover obtain m where "length lens = Suc m" using assms by (cases lens) simp_all
    ultimately show "(0 # prefix_sums (take (length lens - 1) lens)) ! j = map (\<lambda>j. sum_list (take j lens)) [0..<length lens] ! j"
      by (cases j) (simp_all add: prefix_sums_def run_sum_nat min_def del: upt_Suc)
  qed
  then show ?thesis using assms p by (simp add: consecutive_starts_def)
qed

end

interpretation w_ve: words_build words_cfg_ve
  by unfold_locales (simp_all add: words_cfg_ve_def bound_vlen_ve_def prefix_sum_ve_eq prefix_vlen_def prefix_vlen_min_def)

interpretation w_x86: words_build words_cfg_x86
  by unfold_locales (simp_all add: words_cfg_x86_def bound_vlen_x86_def prefix_sum_x86_def prefix_scalar_eq)


subsection \<open>Words one after the other\<close>

definition offsets :: "nat list \<Rightarrow> nat \<Rightarrow> nat" where
  "offsets lens j = sum_list (take j lens)"

lemma offsets_Suc: "j < length lens \<Longrightarrow> offsets lens (Suc j) = offsets lens j + lens ! j"
  by (simp add: offsets_def take_Suc_conv_app_nth)

lemma offsets_mono: "i \<le> j \<Longrightarrow> offsets lens i \<le> offsets lens j"
proof -
  assume "i \<le> j"
  then have "take j lens = take i lens @ take (j - i) (drop i lens)" by (metis le_add_diff_inverse take_add)
  then show ?thesis by (simp add: offsets_def)
qed

lemma offsets_before: "i < j \<Longrightarrow> j < length lens \<Longrightarrow> offsets lens i + lens ! i \<le> offsets lens j"
  using offsets_mono [of "Suc i" j lens] by (simp add: offsets_Suc)

lemma offsets_total: "j < length lens \<Longrightarrow> offsets lens j + lens ! j \<le> sum_list lens"
  using offsets_mono [of "Suc j" "length lens" lens] by (simp add: offsets_Suc) (simp add: offsets_def)

lemma fold_plus_sum: "fold (\<lambda>l t. t + l) lens a = a + sum_list (lens :: nat list)"
  by (induction lens arbitrary: a) simp_all

text \<open>The lengths and digits of the words of \<open>src\<close>; \<open>neg v\<close> is the space for the sign.\<close>

definition neg :: "int \<Rightarrow> nat" where "neg v = (if v < 0 then 1 else 0)"

lemma regions_words:
  assumes un: "\<not> it_signed ty" and v: "\<forall>v\<in>set src. \<bar>v\<bar> < 2 ^ it_bits ty \<and> \<bar>v\<bar> < 10 ^ max_digits ty" and K: "0 < max_digits ty"
    and lens: "lens = map (\<lambda>v. num_len (max_digits ty) \<bar>v\<bar> + neg v) src"
  shows "regions ty (\<lambda>j. offsets lens j + neg (src ! j)) (\<lambda>j. num_len (max_digits ty) \<bar>src ! j\<bar>) (\<lambda>j. \<bar>src ! j\<bar>)
    (length src) (sum_list lens)"
  unfolding regions_def
proof (intro conjI allI impI)
  fix j assume j: "j < length src"
  then have l: "lens ! j = num_len (max_digits ty) \<bar>src ! j\<bar> + neg (src ! j)" by (simp add: lens)
  have s: "src ! j \<in> set src" using j by simp
  note n = num_len_ok [OF abs_ge_zero [of "src ! j"] _ K]
  show "offsets lens j + neg (src ! j) + num_len (max_digits ty) \<bar>src ! j\<bar> \<le> sum_list lens"
    using offsets_total [of j lens] j l by (simp add: lens)
  show "0 \<le> \<bar>src ! j\<bar>" by simp
  show "\<bar>src ! j\<bar> < 10 ^ num_len (max_digits ty) \<bar>src ! j\<bar>" "num_len (max_digits ty) \<bar>src ! j\<bar> \<le> max_digits ty"
    using n v s by auto
  show "\<bar>src ! j\<bar> < 2 ^ it_bits ty" using v s by auto
next
  fix i j assume ij: "i < j" "j < length src"
  then have "lens ! i = num_len (max_digits ty) \<bar>src ! i\<bar> + neg (src ! i)" by (simp add: lens)
  then show "offsets lens i + neg (src ! i) + num_len (max_digits ty) \<bar>src ! i\<bar> \<le> offsets lens j + neg (src ! j)"
    using offsets_before [of i j lens] ij by (simp add: lens)
qed

text \<open>What the column holds in the end.\<close>

lemma words_written:
  assumes un: "\<not> it_signed ty" and v: "\<forall>v\<in>set src. \<bar>v\<bar> < 2 ^ it_bits ty \<and> \<bar>v\<bar> < 10 ^ max_digits ty" and K: "0 < max_digits ty"
    and lens: "lens = map (\<lambda>v. num_len (max_digits ty) \<bar>v\<bar> + neg v) src"
    and sign: "length chars0 = sum_list lens" "\<forall>j<length src. src ! j < 0 \<longrightarrow> chars0 ! offsets lens j = 45"
    and w: "written (\<lambda>j. offsets lens j + neg (src ! j)) (\<lambda>j. num_len (max_digits ty) \<bar>src ! j\<bar>) (\<lambda>j. \<bar>src ! j\<bar>)
      (length src) chars0 (\<lambda>j. num_len (max_digits ty) \<bar>src ! j\<bar>) chars"
    and j: "j < length src"
  shows "take (lens ! j) (drop (offsets lens j) chars) = show_int (src ! j)"
proof -
  define l where "l = num_len (max_digits ty) \<bar>src ! j\<bar>"
  have lj: "lens ! j = l + neg (src ! j)" using j by (simp add: lens l_def)
  have total: "offsets lens j + (l + neg (src ! j)) \<le> sum_list lens" using offsets_total [of j lens] j lj by (simp add: lens)
  have s: "src ! j \<in> set src" using j by simp
  have len: "length chars = sum_list lens" using w sign by (simp add: written_def)
  have digits: "take l (drop (offsets lens j + neg (src ! j)) chars) = decimal \<bar>src ! j\<bar> l"
  proof (rule nth_equalityI)
    show "length (take l (drop (offsets lens j + neg (src ! j)) chars)) = length (decimal \<bar>src ! j\<bar> l)" using total len by simp
    fix k assume "k < length (take l (drop (offsets lens j + neg (src ! j)) chars))"
    then have k: "k < l" by simp
    have "chars ! (offsets lens j + neg (src ! j) + k) = 48 + dig \<bar>src ! j\<bar> l k"
      using w j k unfolding written_def l_def by blast
    then show "take l (drop (offsets lens j + neg (src ! j)) chars) ! k = decimal \<bar>src ! j\<bar> l ! k"
      using k total len by (simp add: decimal_def)
  qed
  also have "decimal \<bar>src ! j\<bar> l = show_nat (nat \<bar>src ! j\<bar>)"
    unfolding l_def using v s K by (intro num_len_ok(4)) auto
  finally have digits: "take l (drop (offsets lens j + neg (src ! j)) chars) = show_nat (nat \<bar>src ! j\<bar>)" .
  show ?thesis
  proof (cases "src ! j < 0")
    case False
    then show ?thesis using digits lj by (simp add: show_int_def neg_def)
  next
    case True
    have out: "outside (\<lambda>j. offsets lens j + neg (src ! j)) (\<lambda>j. num_len (max_digits ty) \<bar>src ! j\<bar>) (length src) (offsets lens j)"
      unfolding outside_def
    proof (intro allI impI)
      fix i assume i: "i < length src"
      have li: "lens ! i = num_len (max_digits ty) \<bar>src ! i\<bar> + neg (src ! i)" using i by (simp add: lens)
      show "\<not> (offsets lens i + neg (src ! i) \<le> offsets lens j \<and> offsets lens j < offsets lens i + neg (src ! i) + num_len (max_digits ty) \<bar>src ! i\<bar>)"
      proof (cases i j rule: linorder_cases)
        case less
        then show ?thesis using offsets_before [of i j lens] j li by (simp add: lens)
      next
        case equal
        then show ?thesis using True by (simp add: neg_def)
      next
        case greater
        then show ?thesis using offsets_before [of j i lens] i lj num_len_ok(3) [of "\<bar>src ! j\<bar>" "max_digits ty"] v s K
          by (simp add: lens l_def)
      qed
    qed
    have "offsets lens j < length chars0" using total True sign(1) by (simp add: neg_def)
    then have "chars ! offsets lens j = chars0 ! offsets lens j" using w out unfolding written_def by blast
    then have "chars ! offsets lens j = 45" using sign(2) j True by simp
    then have "drop (offsets lens j) chars = 45 # drop (offsets lens j + 1) chars"
      using total True len by (simp add: neg_def Cons_nth_drop_Suc [symmetric])
    then show ?thesis using digits lj True by (simp add: show_int_def neg_def)
  qed
qed


lemma concat_word_parts: "j \<le> length lens \<Longrightarrow> concat (map (\<lambda>i. take (lens ! i) (drop (offsets lens i) chars)) [0..<j]) = take (offsets lens j) chars"
proof (induction j)
  case 0
  then show ?case by (simp add: offsets_def)
next
  case (Suc j)
  then show ?case by (simp add: offsets_Suc take_add)
qed

definition printed :: "int list \<Rightarrow> words \<Rightarrow> bool" where
  "printed src w \<longleftrightarrow> words_of w = map show_int src \<and> w_chars w = concat (map show_int src) \<and>
    w_lens w = map (\<lambda>v. length (show_int v)) src \<and> w_starts w = map (offsets (w_lens w)) [0..<length src]"

lemma printedI:
  assumes un: "\<not> it_signed ty" and v: "\<forall>v\<in>set src. \<bar>v\<bar> < 2 ^ it_bits ty \<and> \<bar>v\<bar> < 10 ^ max_digits ty" and K: "0 < max_digits ty"
    and lens: "lens = map (\<lambda>v. num_len (max_digits ty) \<bar>v\<bar> + neg v) src"
    and sign: "length chars0 = sum_list lens" "\<forall>j<length src. src ! j < 0 \<longrightarrow> chars0 ! offsets lens j = 45"
    and w: "written (\<lambda>j. offsets lens j + neg (src ! j)) (\<lambda>j. num_len (max_digits ty) \<bar>src ! j\<bar>) (\<lambda>j. \<bar>src ! j\<bar>)
      (length src) chars0 (\<lambda>j. num_len (max_digits ty) \<bar>src ! j\<bar>) chars"
  shows "printed src \<lparr>w_chars = chars, w_starts = map (offsets lens) [0..<length src], w_lens = lens\<rparr>"
proof -
  have seg: "take (lens ! j) (drop (offsets lens j) chars) = show_int (src ! j)" if "j < length src" for j
    by (rule words_written [OF un v K lens sign w that])
  have ll: "length lens = length src" by (simp add: lens)
  have len: "length chars = sum_list lens" using w sign by (simp add: written_def)
  have "map (\<lambda>i. take (lens ! i) (drop (offsets lens i) chars)) [0..<length src] = map show_int src"
    by (rule nth_equalityI) (simp_all add: seg)
  moreover have "map2 (\<lambda>s l. take l (drop s chars)) (map (offsets lens) [0..<length src]) lens
      = map (\<lambda>i. take (lens ! i) (drop (offsets lens i) chars)) [0..<length src]"
    by (rule nth_equalityI) (simp_all add: ll)
  moreover have "concat (map (\<lambda>i. take (lens ! i) (drop (offsets lens i) chars)) [0..<length src]) = chars"
    using concat_word_parts [of "length src" lens chars] ll len by (simp add: offsets_def)
  moreover have "lens = map (\<lambda>v. length (show_int v)) src"
  proof (rule nth_equalityI)
    fix j assume "j < length lens"
    then have j: "j < length src" by (simp add: ll)
    have "offsets lens j + lens ! j \<le> length chars" using offsets_total [of j lens] j ll len by simp
    then show "lens ! j = map (\<lambda>v. length (show_int v)) src ! j" using arg_cong [OF seg [OF j], of length] j by simp
  qed (simp add: ll)
  ultimately show ?thesis by (simp add: printed_def words_of_def)
qed

context words_build
begin

lemma unsigned_ok:
  assumes un: "\<not> it_signed ty" and bits: "it_bits ty \<in> {32, 64}" and v: "\<forall>v\<in>set src. 0 \<le> v \<and> v < 2 ^ it_bits ty"
  shows "ok (int_to_words_unsigned_helper c ty src) (printed src)"
proof (cases "src = []")
  case True
  then show ?thesis by (simp add: int_to_words_unsigned_helper_def printed_def words_of_def)
next
  case False
  define lens where "lens = map (num_len (max_digits ty)) src"
  have K: "0 < max_digits ty" and big: "(2 :: int) ^ it_bits ty \<le> 10 ^ max_digits ty"
    using bits un by (auto simp: max_digits_def get_digits_10_def)
  have abs: "\<bar>x\<bar> = x" "neg x = 0" if "x \<in> set src" for x using v that by (auto simp: neg_def)
  have absj: "\<bar>src ! j\<bar> = src ! j" "neg (src ! j) = 0" if "j < length src" for j using abs that by simp_all
  have v': "\<forall>v\<in>set src. \<bar>v\<bar> < 2 ^ it_bits ty \<and> \<bar>v\<bar> < 10 ^ max_digits ty" using v big abs by auto
  have lens': "lens = map (\<lambda>v. num_len (max_digits ty) \<bar>v\<bar> + neg v) src" using abs by (simp add: lens_def)
  have total: "fold (\<lambda>l t. t + l) lens 0 = sum_list lens" by (simp add: fold_plus_sum)
  have starts: "consecutive_starts c lens = Some (map (offsets lens) [0..<length src])"
    using starts_eq [of lens] False by (simp add: lens_def offsets_def)
  have "ok (int_to_words_write_digits (wc_vlen c) ty (replicate (sum_list lens) 0) (map (offsets lens) [0..<length src]) src lens)
    (written (\<lambda>j. offsets lens j + neg (src ! j)) (\<lambda>j. num_len (max_digits ty) \<bar>src ! j\<bar>) (\<lambda>j. \<bar>src ! j\<bar>)
      (length src) (replicate (sum_list lens) 0) (\<lambda>j. num_len (max_digits ty) \<bar>src ! j\<bar>))"
  proof (rule write_digits_ok [OF _ un bits vlen(1)])
    show "regions ty (\<lambda>j. offsets lens j + neg (src ! j)) (\<lambda>j. num_len (max_digits ty) \<bar>src ! j\<bar>) (\<lambda>j. \<bar>src ! j\<bar>)
      (length src) (length (replicate (sum_list lens) (0 :: int)))"
      using regions_words [OF un v' K lens'] by simp
    show "map (offsets lens) [0..<length src] = map (\<lambda>j. offsets lens j + neg (src ! j)) [0..<length src]"
      using absj by simp
    show "lens = map (\<lambda>j. num_len (max_digits ty) \<bar>src ! j\<bar>) [0..<length src]"
      by (rule nth_equalityI) (simp_all add: lens_def absj)
    show "src = map (\<lambda>j. \<bar>src ! j\<bar>) [0..<length src]" by (rule nth_equalityI) (simp_all add: absj)
  qed
  then obtain chars where wr: "int_to_words_write_digits (wc_vlen c) ty (replicate (sum_list lens) 0) (map (offsets lens) [0..<length src]) src lens = Some chars"
    and w: "written (\<lambda>j. offsets lens j + neg (src ! j)) (\<lambda>j. num_len (max_digits ty) \<bar>src ! j\<bar>) (\<lambda>j. \<bar>src ! j\<bar>)
      (length src) (replicate (sum_list lens) 0) (\<lambda>j. num_len (max_digits ty) \<bar>src ! j\<bar>) chars"
    by (rule okE)
  have "map (\<lambda>l. if l = 0 then 1 else l) (map (powers_upto (max_digits ty)) src) = lens"
    by (simp add: lens_def num_len_def)
  then have "int_to_words_unsigned_helper c ty src = Some \<lparr>w_chars = chars, w_starts = map (offsets lens) [0..<length src], w_lens = lens\<rparr>"
    using False by (simp add: int_to_words_unsigned_helper_def Let_def digit_counts total starts wr del: map_map)
  moreover have "printed src \<lparr>w_chars = chars, w_starts = map (offsets lens) [0..<length src], w_lens = lens\<rparr>"
    by (rule printedI [OF un v' K lens' _ _ w]) (use v in \<open>auto simp: set_conv_nth\<close>)
  ultimately show ?thesis by simp
qed

end


text \<open>The minus signs.\<close>

lemma signs_ok:
  assumes "\<forall>j<length src. src ! j < 0 \<longrightarrow> offsets lens j < tot"
  shows "ok (for_each (\<lambda>i chars. do {
            b \<leftarrow> rd (map (\<lambda>v. v < 0) src) i;
            p \<leftarrow> rd (map (offsets lens) [0..<length src]) i;
            if b then wr chars p 45 else Some chars }) [0..<length src] (replicate tot (0 :: int)))
    (\<lambda>chars. length chars = tot \<and> (\<forall>j<length src. src ! j < 0 \<longrightarrow> chars ! offsets lens j = 45))"
proof -
  define I where "I i chars \<longleftrightarrow> length chars = tot \<and> (\<forall>j<i. src ! j < 0 \<longrightarrow> chars ! offsets lens j = 45)"
    for i and chars :: "int list"
  have "ok (for_each (\<lambda>i chars. do {
            b \<leftarrow> rd (map (\<lambda>v. v < 0) src) i;
            p \<leftarrow> rd (map (offsets lens) [0..<length src]) i;
            if b then wr chars p 45 else Some chars }) [0..<length src] (replicate tot (0 :: int))) (I (length src))"
  proof (rule ok_for_range)
    show "I 0 (replicate tot 0)" by (simp add: I_def)
  next
    fix i chars assume i: "i < length src" and I: "I i chars"
    show "ok (do { b \<leftarrow> rd (map (\<lambda>v. v < 0) src) i; p \<leftarrow> rd (map (offsets lens) [0..<length src]) i;
        if b then wr chars p 45 else Some chars }) (I (Suc i))"
    proof (cases "src ! i < 0")
      case True
      then have "offsets lens i < length chars" using assms I i by (simp add: I_def)
      then show ?thesis using i I True by (auto simp: I_def nth_list_update less_Suc_eq)
    qed (use i I in \<open>auto simp: I_def less_Suc_eq\<close>)
  qed simp
  then show ?thesis by (rule ok_mono) (simp add: I_def)
qed

context words_build
begin

lemma signed_ok:
  assumes sg: "it_signed ty" and bits: "it_bits ty \<in> {32, 64}" and v: "\<forall>v\<in>set src. \<bar>v\<bar> < 2 ^ (it_bits ty - 1)"
  shows "ok (int_to_words_signed_helper c ty src) (printed src)"
proof (cases "src = []")
  case True
  then show ?thesis by (simp add: int_to_words_signed_helper_def printed_def words_of_def)
next
  case False
  define U where "U = it_unsigned ty"
  have U: "\<not> it_signed U" "it_bits U = it_bits ty" "it_bits U \<in> {32, 64}" using bits by (auto simp: U_def it_unsigned_def)
  have K: "0 < max_digits U" and big: "(2 :: int) ^ it_bits U \<le> 10 ^ max_digits U"
    using U by (auto simp: max_digits_def get_digits_10_def)
  have "(2 :: int) ^ (it_bits ty - 1) \<le> 2 ^ it_bits U" using U(2) by simp
  then have "\<bar>x\<bar> < 2 ^ it_bits U" if "x \<in> set src" for x using v that by (blast intro: less_le_trans)
  then have v': "\<forall>v\<in>set src. \<bar>v\<bar> < 2 ^ it_bits U \<and> \<bar>v\<bar> < 10 ^ max_digits U" using big by (blast intro: less_le_trans)
  define lens where "lens = map (\<lambda>v. num_len (max_digits U) \<bar>v\<bar> + neg v) src"
  have ll: "length lens = length src" by (simp add: lens_def)
  have new_src: "omap (\<lambda>v. do { v' \<leftarrow> (if v < 0 then it_val ty (- v) else Some v); it_val U v' }) src = Some (map abs src)"
  proof (rule omap_Some)
    fix x assume x: "x \<in> set src"
    then have b: "\<bar>x\<bar> < 2 ^ (it_bits ty - 1)" "\<bar>x\<bar> < 2 ^ it_bits U" using v v' by auto
    have "- (2 ^ (it_bits ty - 1)) \<le> \<bar>x\<bar>" by (rule order_trans [of _ 0]) simp_all
    then show "do { v' \<leftarrow> (if x < 0 then it_val ty (- x) else Some x); it_val U v' } = Some \<bar>x\<bar>"
      using b U(1) sg by (cases "x < 0") (simp_all add: it_val_def)
  qed
  have total: "fold (\<lambda>l t. t + l) lens 0 = sum_list lens" by (simp add: fold_plus_sum)
  have starts: "consecutive_starts c lens = Some (map (offsets lens) [0..<length src])"
    using starts_eq [of lens] False by (simp add: lens_def offsets_def)
  have "\<forall>j<length src. src ! j < 0 \<longrightarrow> offsets lens j < sum_list lens"
  proof (intro allI impI)
    fix j assume j: "j < length src" "src ! j < 0"
    then have "0 < lens ! j" by (simp add: lens_def neg_def)
    then show "offsets lens j < sum_list lens" using offsets_total [of j lens] j ll by simp
  qed
  then obtain chars0 where signs: "for_each (\<lambda>i chars. do {
            b \<leftarrow> rd (map (\<lambda>v. v < 0) src) i;
            p \<leftarrow> rd (map (offsets lens) [0..<length src]) i;
            if b then wr chars p (45 :: int) else Some chars }) [0..<length src] (replicate (sum_list lens) 0) = Some chars0"
    and c: "length chars0 = sum_list lens \<and> (\<forall>j<length src. src ! j < 0 \<longrightarrow> chars0 ! offsets lens j = 45)"
    by (rule okE [OF signs_ok])
  note c0 = c [THEN conjunct1] c [THEN conjunct2]
  define starts' where "starts' = map (\<lambda>j. offsets lens j + neg (src ! j)) [0..<length src]"
  define lens' where "lens' = map (\<lambda>j. num_len (max_digits U) \<bar>src ! j\<bar>) [0..<length src]"
  have "ok (int_to_words_write_digits (wc_vlen c) U chars0 starts' (map abs src) lens')
    (written (\<lambda>j. offsets lens j + neg (src ! j)) (\<lambda>j. num_len (max_digits U) \<bar>src ! j\<bar>) (\<lambda>j. \<bar>src ! j\<bar>)
      (length src) chars0 (\<lambda>j. num_len (max_digits U) \<bar>src ! j\<bar>))"
  proof (rule write_digits_ok [OF _ U(1,3) vlen(1)])
    show "regions U (\<lambda>j. offsets lens j + neg (src ! j)) (\<lambda>j. num_len (max_digits U) \<bar>src ! j\<bar>) (\<lambda>j. \<bar>src ! j\<bar>)
      (length src) (length chars0)"
      using regions_words [OF U(1) v' K lens_def] c0 by simp
    show "map abs src = map (\<lambda>j. \<bar>src ! j\<bar>) [0..<length src]" by (rule nth_equalityI) simp_all
  qed (simp_all add: starts'_def lens'_def)
  then obtain chars where wr: "int_to_words_write_digits (wc_vlen c) U chars0 starts' (map abs src) lens' = Some chars"
    and w: "written (\<lambda>j. offsets lens j + neg (src ! j)) (\<lambda>j. num_len (max_digits U) \<bar>src ! j\<bar>) (\<lambda>j. \<bar>src ! j\<bar>)
      (length src) chars0 (\<lambda>j. num_len (max_digits U) \<bar>src ! j\<bar>) chars"
    by (rule okE)
  have l1: "map2 (\<lambda>b l. if b then l + 1 else l) (map (\<lambda>v. v < 0) src)
      (map (\<lambda>l. if l = 0 then 1 else l) (map (powers_upto (max_digits U)) (map abs src))) = lens"
    by (rule nth_equalityI) (simp_all add: lens_def num_len_def neg_def)
  have s1: "map2 (\<lambda>b s. if b then s + 1 else s) (map (\<lambda>v. v < 0) src) (map (offsets lens) [0..<length src]) = starts'"
    by (rule nth_equalityI) (simp_all add: starts'_def neg_def)
  have l2: "map2 (\<lambda>b l. if b then l - 1 else l) (map (\<lambda>v. v < 0) src) lens = lens'"
    by (rule nth_equalityI) (simp_all add: lens'_def lens_def neg_def)
  have counts: "upper_bound (wc_bound_vlen c) (get_digits_10 U) (map abs src) (replicate (length src) 0)
      = Some (map (powers_upto (max_digits U)) (map abs src))"
    using digit_counts [of U "map abs src"] by simp
  have "int_to_words_signed_helper c ty src = Some \<lparr>w_chars = chars, w_starts = map (offsets lens) [0..<length src], w_lens = lens\<rparr>"
    using False
    by (simp only: int_to_words_signed_helper_def Let_def U_def [symmetric] new_src counts l1 total starts signs s1 l2 wr
      Option.bind.bind_lunit length_0_conv if_False)
  moreover have "printed src \<lparr>w_chars = chars, w_starts = map (offsets lens) [0..<length src], w_lens = lens\<rparr>"
    by (rule printedI [OF U(1) v' K lens_def c0 w])
  ultimately show ?thesis by simp
qed

end

end
