(* ===== verification/IntParse.thy ===== *)
theory IntParse
  imports IntPrint
begin

text \<open>
  parseint: the lockstep loops parse every word on its own; and the round trip with int_to_words.
\<close>

subsection \<open>One word\<close>

fun parse_digits :: "int_type \<Rightarrow> int \<Rightarrow> int list \<Rightarrow> int option" where
  "parse_digits ty r [] = Some r"
| "parse_digits ty r (ch # cs) = do {
     a \<leftarrow> it_val ty (r * 10);
     a \<leftarrow> it_val ty (a + ch);
     a \<leftarrow> it_val ty (a - 48);
     parse_digits ty a cs }"

text \<open>The number of characters of the sign, and whether it is a minus.\<close>

fun sign_of :: "int list \<Rightarrow> nat \<times> bool" where
  "sign_of [] = (0, False)"
| "sign_of (ch # cs) = (if ch = 43 then (1, False) else if ch = 45 then (1, True) else (0, False))"

definition minus_one :: "int_type \<Rightarrow> int" where
  "minus_one ty = (if it_signed ty then -1 else 2 ^ it_bits ty - 1)"

definition sign_val :: "int_type \<Rightarrow> int list \<Rightarrow> int" where
  "sign_val ty w = (if snd (sign_of w) then minus_one ty else 1)"

definition parse_word :: "int_type \<Rightarrow> int list \<Rightarrow> int option" where
  "parse_word ty w = do {
     r \<leftarrow> parse_digits ty 0 (drop (fst (sign_of w)) w);
     it_val ty (r * sign_val ty w) }"

lemma minus_one: "0 < it_bits ty \<Longrightarrow> it_val ty (-1) = Some (minus_one ty)"
proof -
  assume b: "0 < it_bits ty"
  have "(1 :: int) \<le> 2 ^ (it_bits ty - 1)" "(1 :: int) < 2 ^ it_bits ty" using b by simp_all
  moreover have "(-1) mod (2 :: int) ^ it_bits ty = 2 ^ it_bits ty - 1" using b by (simp add: zmod_minus1)
  moreover have "(-1 :: int) < 2 ^ (it_bits ty - 1)" by (rule less_trans [of _ 0]) simp_all
  ultimately show ?thesis by (simp add: it_val_def minus_one_def)
qed

lemma parse_digits_append: "parse_digits ty r (xs @ ys) = do { a \<leftarrow> parse_digits ty r xs; parse_digits ty a ys }"
  by (induction ty r xs rule: parse_digits.induct) (auto split: Option.bind_splits)

lemma parse_digits_prefix:
  assumes "parse_digits ty 0 cs = Some r" "d < length cs"
  obtains p q where "parse_digits ty 0 (take d cs) = Some p" "parse_digits ty 0 (take (Suc d) cs) = Some q"
    "do { a \<leftarrow> it_val ty (p * 10); a \<leftarrow> it_val ty (a + cs ! d); it_val ty (a - 48) } = Some q"
proof -
  have "cs = take (Suc d) cs @ drop (Suc d) cs" by simp
  then obtain q where q: "parse_digits ty 0 (take (Suc d) cs) = Some q"
    using assms(1) parse_digits_append [of ty 0 "take (Suc d) cs" "drop (Suc d) cs"]
    by (cases "parse_digits ty 0 (take (Suc d) cs)") simp_all
  moreover have "take (Suc d) cs = take d cs @ [cs ! d]" using assms(2) by (rule take_Suc_conv_app_nth)
  ultimately obtain p where "parse_digits ty 0 (take d cs) = Some p" "parse_digits ty p [cs ! d] = Some q"
    using parse_digits_append [of ty 0 "take d cs" "[cs ! d]"] by (auto simp: bind_eq_Some_conv)
  then show ?thesis using that q by (auto simp: bind_eq_Some_conv)
qed

subsection \<open>A block of words\<close>

lemma parse_signs_ok:
  assumes bits: "0 < it_bits ty" and n: "length lens = length starts"
    and W: "\<And>j. j < length starts \<Longrightarrow> W j = take (lens ! j) (drop (starts ! j) chars) \<and> starts ! j + lens ! j \<le> length chars"
  shows "for_each (parse_sign ty chars lens) [0..<length starts] (starts, replicate (length starts) 1)
    = Some (map (\<lambda>j. starts ! j + fst (sign_of (W j))) [0..<length starts], map (\<lambda>j. sign_val ty (W j)) [0..<length starts])"
proof -
  define n where "n = length starts"
  define I where "I i = (\<lambda>(st, sg). st = map (\<lambda>j. starts ! j + (if j < i then fst (sign_of (W j)) else 0)) [0..<n] \<and>
    sg = map (\<lambda>j. if j < i then sign_val ty (W j) else 1) [0..<n])" for i
  have "ok (for_each (parse_sign ty chars lens) [0..<n] (starts, replicate n 1)) (I n)"
  proof (rule ok_for_range)
    show "I 0 (starts, replicate n 1)" by (auto simp: I_def n_def intro!: nth_equalityI)
  next
    fix i st assume i: "i < n" and I: "I i st"
    obtain a b where st: "st = (a, b)" by (cases st)
    have ab: "length a = n" "length b = n" "a ! i = starts ! i" using I i by (simp_all add: I_def st)
    have li: "rd lens i = Some (lens ! i)" using i assms(2) by (simp add: n_def)
    note Wi = W [of i, unfolded n_def [symmetric], OF i]
    have upd: "I (Suc i) (a[i := starts ! i + fst (sign_of (W i))], b[i := sign_val ty (W i)])"
      using I i by (auto simp: I_def st nth_list_update less_Suc_eq intro!: nth_equalityI)
    have same: "a[i := starts ! i] = a" "b[i := 1] = b" using I i by (auto simp: I_def st list_update_same_conv)
    show "ok (parse_sign ty chars lens i st) (I (Suc i))"
    proof (cases "lens ! i = 0")
      case True
      then have "W i = []" using Wi by simp
      then have "I (Suc i) (a, b)" using upd same by (simp add: sign_val_def)
      then show ?thesis using True li by (simp add: parse_sign_def st)
    next
      case False
      then have s: "starts ! i < length chars" using Wi by simp
      then have "drop (starts ! i) chars = chars ! (starts ! i) # drop (Suc (starts ! i)) chars" by (simp add: Cons_nth_drop_Suc)
      then have Wc: "W i = chars ! (starts ! i) # take (lens ! i - 1) (drop (Suc (starts ! i)) chars)"
        using False Wi by (cases "lens ! i") simp_all
      show ?thesis
        using False li s upd same ab i minus_one [OF bits]
        by (auto simp: parse_sign_def st Wc sign_val_def split: if_splits)
    qed
  qed simp
  then have "ok (for_each (parse_sign ty chars lens) [0..<n] (starts, replicate n 1))
    (\<lambda>x. x = (map (\<lambda>j. starts ! j + fst (sign_of (W j))) [0..<n], map (\<lambda>j. sign_val ty (W j)) [0..<n]))"
    by (rule ok_mono) (auto simp: I_def)
  then show ?thesis by (simp only: ok_eq n_def)
qed

text \<open>The digits: \<open>C j\<close> are the characters of word \<open>j\<close> behind its sign, from cell \<open>S j\<close> on.\<close>

definition parse_state ::
  "int_type \<Rightarrow> (nat \<Rightarrow> nat) \<Rightarrow> (nat \<Rightarrow> int list) \<Rightarrow> nat \<Rightarrow> nat \<Rightarrow> nat \<Rightarrow> nat list \<times> int list \<Rightarrow> bool" where
  "parse_state ty S C n m i = (\<lambda>(st, res). length st = n \<and> length res = n \<and>
    (\<forall>j<n. let d = min (length (C j)) (if j < i then Suc m else m) in
      st ! j = S j + d \<and> parse_digits ty 0 (take d (C j)) = Some (res ! j)))"

lemma parse_digit_ok:
  assumes C: "C i = take (length (C i)) (drop (S i) chars)" "S i + length (C i) \<le> length chars"
    and stops: "i < length stops" "stops ! i = S i + length (C i)"
    and whole: "parse_digits ty 0 (C i) = Some r" and i: "i < n" and st: "parse_state ty S C n m i st"
  shows "ok (parse_digit ty chars stops i st) (parse_state ty S C n m (Suc i))"
proof -
  obtain a b where ab: "st = (a, b)" by (cases st)
  define d where "d = min (length (C i)) m"
  have len: "length a = n" "length b = n" using st by (simp_all add: parse_state_def ab)
  have here: "a ! i = S i + d" "parse_digits ty 0 (take d (C i)) = Some (b ! i)"
    using st i by (auto simp: parse_state_def ab d_def Let_def)
  have others: "parse_state ty S C n m (Suc i) (a[i := x], b[i := y])"
    if "x = S i + min (length (C i)) (Suc m)" "parse_digits ty 0 (take (min (length (C i)) (Suc m)) (C i)) = Some y" for x y
    unfolding parse_state_def prod.case Let_def
  proof (intro conjI allI impI)
    fix j assume j: "j < n"
    have rest: "a ! j = S j + min (length (C j)) (if j < i then Suc m else m)"
      "parse_digits ty 0 (take (min (length (C j)) (if j < i then Suc m else m)) (C j)) = Some (b ! j)"
      using st j by (simp_all add: parse_state_def ab Let_def)
    show "a[i := x] ! j = S j + min (length (C j)) (if j < Suc i then Suc m else m)"
      using that(1) rest(1) j len by (cases "j = i") (auto simp: nth_list_update)
    show "parse_digits ty 0 (take (min (length (C j)) (if j < Suc i then Suc m else m)) (C j)) = Some (b[i := y] ! j)"
      using that(2) rest(2) j len by (cases "j = i") (auto simp: nth_list_update)
  qed (use len in simp_all)
  show ?thesis
  proof (cases "m < length (C i)")
    case False
    then have "d = length (C i)" "min (length (C i)) (Suc m) = d" by (simp_all add: d_def)
    then have "a ! i = S i + min (length (C i)) (Suc m)" "parse_digits ty 0 (take (min (length (C i)) (Suc m)) (C i)) = Some (b ! i)"
      using here by simp_all
    then have "parse_state ty S C n m (Suc i) (a[i := a ! i], b[i := b ! i])" by (rule others)
    then have "parse_state ty S C n m (Suc i) st" by (simp only: list_update_id ab)
    then show ?thesis using \<open>d = length (C i)\<close> here len i stops by (simp add: parse_digit_def ab)
  next
    case True
    then have d: "d = m" "min (length (C i)) (Suc m) = Suc m" by (simp_all add: d_def)
    obtain p q where pq: "parse_digits ty 0 (take m (C i)) = Some p" "parse_digits ty 0 (take (Suc m) (C i)) = Some q"
      "do { a \<leftarrow> it_val ty (p * 10); a \<leftarrow> it_val ty (a + C i ! m); it_val ty (a - 48) } = Some q"
      by (rule parse_digits_prefix [OF whole True])
    have p: "p = b ! i" using pq(1) here d by simp
    have ch: "rd chars (S i + m) = Some (C i ! m)"
    proof -
      have "take (length (C i)) (drop (S i) chars) ! m = chars ! (S i + m)" using C(2) True by simp
      then have "C i ! m = chars ! (S i + m)" using arg_cong [OF C(1), of "\<lambda>xs. xs ! m"] by simp
      then show ?thesis using C(2) True by (simp add: rd_def)
    qed
    have "parse_digit ty chars stops i st = Some (a[i := S i + m + 1], b[i := q])"
      using pq(3) here len i stops True ch d by (auto simp: parse_digit_def ab p bind_eq_Some_conv)
    then show ?thesis using others [of "S i + m + 1" q] pq(2) d by simp
  qed
qed


lemma parse_block_eq:
  assumes bits: "0 < it_bits ty" and n: "length lens = length starts"
    and W: "\<And>j. j < length starts \<Longrightarrow> W j = take (lens ! j) (drop (starts ! j) chars) \<and> starts ! j + lens ! j \<le> length chars
      \<and> lens ! j \<le> all_max \<and> parse_word ty (W j) = Some (V j)"
  shows "parse_block ty chars all_max starts lens = Some (map V [0..<length starts])"
proof -
  define N where "N = length starts"
  define S where "S j = starts ! j + fst (sign_of (W j))" for j
  define C where "C j = drop (fst (sign_of (W j))) (W j)" for j
  have signs: "for_each (parse_sign ty chars lens) [0..<N] (starts, replicate N 1)
    = Some (map S [0..<N], map (\<lambda>j. sign_val ty (W j)) [0..<N])"
    unfolding N_def S_def by (rule parse_signs_ok [OF bits n]) (use W in blast)
  have C: "C j = take (length (C j)) (drop (S j) chars)" "S j + length (C j) = starts ! j + lens ! j"
    "length (C j) \<le> all_max" if "j < N" for j
  proof -
    note Wj = W [OF that [unfolded N_def]]
    have "lens ! j \<le> length chars - starts ! j" using Wj by linarith
    then have lw: "length (W j) = lens ! j" using Wj by (simp add: min_def)
    have k: "fst (sign_of (W j)) \<le> length (W j)" by (cases "W j") simp_all
    show "S j + length (C j) = starts ! j + lens ! j" using k lw by (simp add: S_def C_def)
    have "length (C j) \<le> length (W j)" by (simp add: C_def)
    then show "length (C j) \<le> all_max" using lw Wj by linarith
    have "length (C j) = lens ! j - fst (sign_of (W j))" by (simp add: C_def lw)
    moreover have "C j = drop (fst (sign_of (W j))) (take (lens ! j) (drop (starts ! j) chars))"
      unfolding C_def by (rule arg_cong [OF Wj [THEN conjunct1]])
    ultimately show "C j = take (length (C j)) (drop (S j) chars)"
      by (simp only: S_def drop_take drop_drop add.commute)
  qed
  have whole: "\<exists>r. parse_digits ty 0 (C j) = Some r \<and> it_val ty (r * sign_val ty (W j)) = Some (V j)" if "j < N" for j
    using W [OF that [unfolded N_def]] by (auto simp: parse_word_def C_def bind_eq_Some_conv)
  have stops: "map2 (+) starts lens ! j = S j + length (C j)" "j < length (map2 (+) starts lens)" if "j < N" for j
    using C(2) [OF that] that n by (simp_all add: N_def)
  have round: "parse_state ty S C N m N = parse_state ty S C N (Suc m) 0" for m
    by (rule ext) (auto simp: parse_state_def Let_def)
  have "ok (for_each (\<lambda>it. for_each (parse_digit ty chars (map2 (+) starts lens)) [0..<N]) [0..<all_max] (map S [0..<N], replicate N 0))
    (parse_state ty S C N all_max 0)"
  proof (rule ok_for_range [where I = "\<lambda>m. parse_state ty S C N m 0"])
    show "parse_state ty S C N 0 0 (map S [0..<N], replicate N 0)" by (simp add: parse_state_def)
    fix m st assume st: "parse_state ty S C N m 0 st"
    have "ok (for_each (parse_digit ty chars (map2 (+) starts lens)) [0..<N] st) (parse_state ty S C N m N)"
    proof (rule ok_for_range [where I = "parse_state ty S C N m"])
      fix i st assume i: "i < N" and st: "parse_state ty S C N m i st"
      obtain r where "parse_digits ty 0 (C i) = Some r" using whole [OF i] by blast
      then show "ok (parse_digit ty chars (map2 (+) starts lens) i st) (parse_state ty S C N m (Suc i))"
        using C(1,2) [OF i] stops [OF i] W [OF i [unfolded N_def]] i st
        by (intro parse_digit_ok) simp_all
    qed (use st in simp_all)
    then show "ok (for_each (parse_digit ty chars (map2 (+) starts lens)) [0..<N] st) (parse_state ty S C N (Suc m) 0)"
      by (simp only: round)
  qed simp
  then obtain st where run: "for_each (\<lambda>it. for_each (parse_digit ty chars (map2 (+) starts lens)) [0..<N]) [0..<all_max]
      (map S [0..<N], replicate N 0) = Some st" and st: "parse_state ty S C N all_max 0 st"
    by (rule okE)
  obtain a b where ab: "st = (a, b)" by (cases st)
  have res: "do { r \<leftarrow> rd b j; s \<leftarrow> rd (map (\<lambda>j. sign_val ty (W j)) [0..<N]) j; it_val ty (r * s) } = Some (V j)" if "j \<in> set [0..<N]" for j
  proof -
    have j: "j < N" using that by simp
    have "length b = N" "parse_digits ty 0 (take (min (length (C j)) all_max) (C j)) = Some (b ! j)"
      using st j by (simp_all add: parse_state_def ab Let_def)
    then have "length b = N" "parse_digits ty 0 (C j) = Some (b ! j)"
      using C(3) [OF j] by (simp_all add: min_absorb1)
    then show ?thesis using whole [OF j] j by auto
  qed
  have "omap (\<lambda>j. do { r \<leftarrow> rd b j; s \<leftarrow> rd (map (\<lambda>j. sign_val ty (W j)) [0..<N]) j; it_val ty (r * s) }) [0..<N] = Some (map V [0..<N])"
    by (rule omap_Some) (rule res)
  then show ?thesis
    by (simp only: parse_block_def Let_def N_def [symmetric] signs run ab Option.bind.bind_lunit prod.case)
qed

lemma fold_gt_max: "l \<in> set ls \<or> l \<le> a \<Longrightarrow> l \<le> fold (\<lambda>l mx. if l > mx then l else mx) ls (a :: nat)"
proof (induction ls arbitrary: a)
  case (Cons x ls)
  from Cons.prems have "l \<in> set ls \<or> l \<le> (if a < x then x else a)" by (cases "a < x") auto
  then show ?case using Cons.IH by simp
qed simp

text \<open>All the words.\<close>

lemma parseint_eq:
  assumes bits: "0 < it_bits ty" and VLEN: "0 < VLEN" and n: "length lens = length starts"
    and W: "\<And>j. j < length starts \<Longrightarrow> starts ! j + lens ! j \<le> length chars \<and>
      parse_word ty (take (lens ! j) (drop (starts ! j) chars)) = Some (V j)"
  shows "parseint VLEN ty chars starts lens = Some (map V [0..<length starts])"
proof -
  define N B where "N = length starts" and "B = N div VLEN"
  define mx where "mx = fold (\<lambda>l mx. if l > mx then l else mx) lens 0"
  have mx: "lens ! j \<le> mx" if "j < N" for j
    unfolding mx_def by (rule fold_gt_max) (use that n in \<open>simp add: N_def\<close>)
  have BN: "B * VLEN \<le> N" by (simp add: B_def)
  have block: "parse_block ty chars mx (take k (drop off starts)) (take k (drop off lens)) = Some (map (\<lambda>i. V (off + i)) [0..<k])"
    if "off + k \<le> N" for off k
    using parse_block_eq [OF bits, of "take k (drop off lens)" "take k (drop off starts)"
        "\<lambda>i. take (lens ! (off + i)) (drop (starts ! (off + i)) chars)" chars mx "\<lambda>i. V (off + i)"] W mx that n
    by (simp add: N_def)
  have parts: "b * VLEN + VLEN \<le> N" if "b < B" for b
    using mult_le_mono1 [of "Suc b" B VLEN] that BN by simp
  have full: "omap (\<lambda>b. do { st \<leftarrow> rd_block starts (b * VLEN) VLEN; ln \<leftarrow> rd_block lens (b * VLEN) VLEN;
      parse_block ty chars mx st ln }) [0..<B] = Some (map (\<lambda>b. map (\<lambda>i. V (b * VLEN + i)) [0..<VLEN]) [0..<B])"
    by (rule omap_Some) (use parts block n in \<open>simp add: N_def\<close>)
  have "concat (map (\<lambda>b. map (\<lambda>i. V (b * VLEN + i)) [0..<VLEN]) [0..<k]) = map V [0..<k * VLEN]" for k
  proof (induction k)
    case (Suc k)
    have "[0..<Suc k * VLEN] = [0..<k * VLEN] @ [k * VLEN..<k * VLEN + VLEN]"
      using upt_add_eq_append [of 0 "k * VLEN" VLEN] by (simp add: add.commute)
    moreover have "map (\<lambda>i. V (k * VLEN + i)) [0..<VLEN] = map V [k * VLEN..<k * VLEN + VLEN]"
      by (rule nth_equalityI) simp_all
    ultimately show ?case using Suc by simp
  qed simp
  moreover have "map V [0..<B * VLEN] @ map (\<lambda>i. V (B * VLEN + i)) [0..<N - B * VLEN] = map V [0..<N]"
    using BN by (intro nth_equalityI) (auto simp: nth_append)
  moreover have "parse_block ty chars mx (take (N - B * VLEN) (drop (B * VLEN) starts)) (take (N - B * VLEN) (drop (B * VLEN) lens))
      = Some (map (\<lambda>i. V (B * VLEN + i)) [0..<N - B * VLEN])"
    using block [of "B * VLEN" "N - B * VLEN"] BN by simp
  ultimately show ?thesis
    using BN n by (simp add: parseint_def Let_def N_def [symmetric] B_def [symmetric] mx_def [symmetric] full)
qed

subsection \<open>A printed number is parsed back\<close>

lemma it_val_step:
  assumes b: "0 < it_bits ty" and r: "0 \<le> r" "0 \<le> c" "r * 10 + c = n + 48" "0 \<le> n"
    and n: "if it_signed ty then n + 48 < 2 ^ (it_bits ty - 1) else n < 2 ^ it_bits ty"
  shows "do { a \<leftarrow> it_val ty (r * 10); a \<leftarrow> it_val ty (a + c); it_val ty (a - 48) } = Some n"
proof (cases "it_signed ty")
  case True
  define M :: int where "M = 2 ^ (it_bits ty - 1)"
  have "0 \<le> M" "n + 48 < M" using n True by (simp_all add: M_def)
  then have "it_val ty (r * 10) = Some (r * 10)" "it_val ty (r * 10 + c) = Some (r * 10 + c)" "it_val ty (r * 10 + c - 48) = Some n"
    using True r by (simp_all add: it_val_def M_def [symmetric] del: One_nat_def)
  then show ?thesis by simp
next
  case False
  define M :: int where "M = 2 ^ it_bits ty"
  have n: "0 \<le> n" "n < M" using n r False by (simp_all add: M_def)
  have "((r * 10 mod M + c) mod M - 48) mod M = (r * 10 + c - 48) mod M"
    by (simp add: mod_add_left_eq mod_diff_left_eq)
  also have "\<dots> = n mod M" using r(3) by simp
  also have "\<dots> = n" using n by simp
  finally show ?thesis using False by (simp add: it_val_def M_def [symmetric])
qed

lemma parse_digits_show:
  assumes "0 < it_bits ty" "if it_signed ty then int n + 48 < 2 ^ (it_bits ty - 1) else int n < 2 ^ it_bits ty"
  shows "parse_digits ty 0 (show_nat n) = Some (int n)"
  using assms(2)
proof (induction n rule: show_nat.induct)
  case (1 n)
  show ?case
  proof (cases "n < 10")
    case True
    have "do { a \<leftarrow> it_val ty (0 * 10); a \<leftarrow> it_val ty (a + (48 + int n)); it_val ty (a - 48) } = Some (int n)"
      using 1 by (intro it_val_step [OF assms(1)]) simp_all
    then show ?thesis using True by (subst show_nat.simps) (simp add: bind_assoc [symmetric] del: bind_assoc)
  next
    case False
    have "int (n div 10) \<le> int n" by simp
    then have small: "if it_signed ty then int (n div 10) + 48 < 2 ^ (it_bits ty - 1) else int (n div 10) < 2 ^ it_bits ty"
      using 1(2) by (auto split: if_splits simp del: of_nat_le_iff)
    have "int (n div 10) * 10 + (48 + int (n mod 10)) = int n + 48" by presburger
    then have "do { a \<leftarrow> it_val ty (int (n div 10) * 10); a \<leftarrow> it_val ty (a + (48 + int (n mod 10))); it_val ty (a - 48) } = Some (int n)"
      using 1(2) by (intro it_val_step [OF assms(1)]) simp_all
    then show ?thesis using False 1(1) [OF False small] by (subst show_nat.simps) (simp add: parse_digits_append)
  qed
qed

lemma show_nat_hd: "\<exists>d ds. show_nat n = d # ds \<and> 48 \<le> d"
proof (induction n rule: show_nat.induct)
  case (1 n)
  then show ?case by (cases "n < 10") (auto simp: show_nat.simps [of n])
qed

lemma sign_of_show_nat [simp]: "sign_of (show_nat n) = (0, False)"
  using show_nat_hd [of n] by auto

text \<open>The integers the round trip covers: \<open>parseint\<close> adds the character before it subtracts its code.\<close>

definition parse_safe :: "int_type \<Rightarrow> int \<Rightarrow> bool" where
  "parse_safe ty v = (if it_signed ty then \<bar>v\<bar> + 48 < 2 ^ (it_bits ty - 1) else 0 \<le> v \<and> v < 2 ^ it_bits ty)"

lemma parse_word_show:
  assumes b: "0 < it_bits ty" and v: "parse_safe ty v"
  shows "parse_word ty (show_int v) = Some v"
proof (cases "v < 0")
  case False
  then have "parse_digits ty 0 (show_nat (nat v)) = Some v"
    using parse_digits_show [OF b, of "nat v"] v by (simp add: parse_safe_def split: if_splits)
  moreover have "it_val ty v = Some v"
    using v False by (auto simp: it_val_def parse_safe_def split: if_splits)
  ultimately show ?thesis using False by (simp add: parse_word_def show_int_def sign_val_def)
next
  case True
  then have s: "it_signed ty" using v by (simp add: parse_safe_def split: if_splits)
  have "parse_digits ty 0 (show_nat (nat (- v))) = Some (- v)"
    using parse_digits_show [OF b, of "nat (- v)"] v True s by (simp add: parse_safe_def)
  moreover have "it_val ty v = Some v"
    using v s by (simp add: it_val_def parse_safe_def abs_if split: if_splits)
  ultimately show ?thesis using True s by (simp add: parse_word_def show_int_def sign_val_def minus_one_def)
qed

lemma parseint_printed:
  assumes w: "printed src w" and VLEN: "0 < VLEN" and b: "0 < it_bits ty" and v: "\<forall>v\<in>set src. parse_safe ty v"
  shows "parseint VLEN ty (w_chars w) (w_starts w) (w_lens w) = Some src"
proof -
  have ll: "length (w_lens w) = length src" "length (w_starts w) = length src" using w by (simp_all add: printed_def)
  have total: "sum_list (w_lens w) = length (w_chars w)" using w by (simp add: printed_def length_concat o_def)
  have "parseint VLEN ty (w_chars w) (w_starts w) (w_lens w) = Some (map (\<lambda>j. src ! j) [0..<length (w_starts w)])"
  proof (rule parseint_eq [OF b VLEN])
    fix j assume "j < length (w_starts w)"
    then have j: "j < length src" by (simp add: ll)
    have s: "w_starts w ! j = offsets (w_lens w) j" using w j by (simp add: printed_def)
    have "words_of w ! j = show_int (src ! j)" using w j by (simp add: printed_def)
    moreover have "words_of w ! j = take (w_lens w ! j) (drop (w_starts w ! j) (w_chars w))"
      using ll j by (simp add: words_of_def)
    ultimately show "w_starts w ! j + w_lens w ! j \<le> length (w_chars w) \<and>
        parse_word ty (take (w_lens w ! j) (drop (w_starts w ! j) (w_chars w))) = Some (src ! j)"
      using parse_word_show [OF b, of "src ! j"] v j offsets_total [of j "w_lens w"] ll total s by simp
  qed (simp add: ll)
  then show ?thesis by (simp add: ll map_nth)
qed

subsection \<open>Overflow at the limits\<close>

text \<open>
  The smallest signed value is negated in its own type, and the largest ones overflow between the
  addition of the character and the subtraction of the code of 0: both are undefined.
\<close>

lemma int_to_words_smallest:
  "int_to_words words_cfg_x86 \<lparr>it_signed = True, it_bits = 32\<rparr> [-2147483648] = None"
  by (simp add: int_to_words_def int_to_words_signed_helper_def it_val_def)

lemma parseint_largest:
  "parseint_words words_cfg_x86 \<lparr>it_signed = True, it_bits = 32\<rparr>
     \<lparr>w_chars = [50, 49, 52, 55, 52, 56, 51, 54, 52, 55], w_starts = [0], w_lens = [10]\<rparr> = None"
  by code_simp

subsection \<open>Properties\<close>

text \<open>The values the printing covers: all but the smallest of a signed type, whose negation overflows.\<close>

definition printable :: "int_type \<Rightarrow> int \<Rightarrow> bool" where
  "printable ty v = (if it_signed ty then \<bar>v\<bar> < 2 ^ (it_bits ty - 1) else 0 \<le> v \<and> v < 2 ^ it_bits ty)"

lemma int_to_words_ok:
  assumes c: "c = words_cfg_ve \<or> c = words_cfg_x86" and bits: "it_bits ty \<in> {32, 64}" and v: "\<forall>v\<in>set src. printable ty v"
  shows "ok (int_to_words c ty src) (printed src)"
proof -
  have sg: "it_signed ty \<Longrightarrow> \<forall>v\<in>set src. \<bar>v\<bar> < 2 ^ (it_bits ty - 1)"
    and un: "\<not> it_signed ty \<Longrightarrow> \<forall>v\<in>set src. 0 \<le> v \<and> v < 2 ^ it_bits ty" using v by (simp_all add: printable_def)
  have "ok (int_to_words words_cfg_ve ty src) (printed src)" "ok (int_to_words words_cfg_x86 ty src) (printed src)"
    using w_ve.signed_ok [OF _ bits sg] w_ve.unsigned_ok [OF _ bits un]
      w_x86.signed_ok [OF _ bits sg] w_x86.unsigned_ok [OF _ bits un]
    by (simp_all add: int_to_words_def)
  then show ?thesis using c by blast
qed

text \<open>
  C31. int_to_words prints every integer of a 32-bit or 64-bit type, signed or not, in decimal: on both
  builds it succeeds on every column without the smallest signed value, the words of the result are the
  decimal representations in order (a minus sign, then the digits without leading zeros), and the words
  fill the character array without gaps or overlaps.
\<close>

theorem int_to_words_prints:
  assumes "c = words_cfg_ve \<or> c = words_cfg_x86" "it_bits ty \<in> {32, 64}" "\<forall>v\<in>set src. printable ty v"
  shows "\<exists>w. int_to_words c ty src = Some w \<and> words_of w = map show_int src \<and>
    w_chars w = concat (map show_int src) \<and> w_lens w = map (\<lambda>v. length (show_int v)) src \<and>
    w_starts w = map (\<lambda>j. sum_list (take j (w_lens w))) [0..<length src]"
proof -
  obtain w where "int_to_words c ty src = Some w" "printed src w"
    by (rule okE [OF int_to_words_ok [OF assms]])
  then show ?thesis by (auto simp: printed_def offsets_def [abs_def])
qed

theorem int_to_words_prints_witness:
  "(\<exists>w. int_to_words words_cfg_x86 \<lparr>it_signed = True, it_bits = 32\<rparr> [0, -70, 2147483647, 15, -9] = Some w \<and>
    words_of w = map show_int [0, -70, 2147483647, 15, -9] \<and> w_chars w = concat (map show_int [0, -70, 2147483647, 15, -9]) \<and>
    w_lens w = map (\<lambda>v. length (show_int v)) [0, -70, 2147483647, 15, -9] \<and>
    w_starts w = map (\<lambda>j. sum_list (take j (w_lens w))) [0..<length [0, -70, 2147483647, 15, -9 :: int]])
   \<and> show_int (-70) = [45, 55, 48]"
proof (rule conjI)
  show "\<exists>w. int_to_words words_cfg_x86 \<lparr>it_signed = True, it_bits = 32\<rparr> [0, -70, 2147483647, 15, -9] = Some w \<and>
    words_of w = map show_int [0, -70, 2147483647, 15, -9] \<and> w_chars w = concat (map show_int [0, -70, 2147483647, 15, -9]) \<and>
    w_lens w = map (\<lambda>v. length (show_int v)) [0, -70, 2147483647, 15, -9] \<and>
    w_starts w = map (\<lambda>j. sum_list (take j (w_lens w))) [0..<length [0, -70, 2147483647, 15, -9 :: int]]"
    by (rule int_to_words_prints) (simp_all add: printable_def)
  show "show_int (-70) = [45, 55, 48]" by (simp add: show_int_def show_nat.simps)
qed

text \<open>
  C27. Printing and parsing are inverse: what int_to_words makes of a column of integers, parseint reads
  back as the same column, whichever of the two builds printed and whichever parses.  For a signed type
  the absolute values stay 48 below the limit, because parseint adds the code of a digit before it
  subtracts the code of 0.
\<close>

theorem parseint_int_to_words:
  assumes "c = words_cfg_ve \<or> c = words_cfg_x86" "c' = words_cfg_ve \<or> c' = words_cfg_x86"
    and "it_bits ty \<in> {32, 64}" "\<forall>v\<in>set src. parse_safe ty v"
  shows "\<exists>w. int_to_words c ty src = Some w \<and> parseint_words c' ty w = Some src"
proof -
  have "printable ty v" if "parse_safe ty v" for v using that by (simp add: parse_safe_def printable_def split: if_splits)
  then have "\<forall>v\<in>set src. printable ty v" using assms(4) by blast
  then obtain w where w: "int_to_words c ty src = Some w" "printed src w"
    by (rule okE [OF int_to_words_ok [OF assms(1,3)]])
  have "0 < wc_vlen c'" "0 < it_bits ty" using assms(2,3) w_ve.vlen w_x86.vlen by auto
  then have "parseint_words c' ty w = Some src"
    unfolding parseint_words_def by (rule parseint_printed [OF w(2) _ _ assms(4)])
  then show ?thesis using w(1) by blast
qed

theorem parseint_int_to_words_witness:
  "\<exists>w. int_to_words words_cfg_ve \<lparr>it_signed = True, it_bits = 64\<rparr> [0, -70, 9223372036854775759, 15, -9] = Some w \<and>
    parseint_words words_cfg_x86 \<lparr>it_signed = True, it_bits = 64\<rparr> w = Some [0, -70, 9223372036854775759, 15, -9]"
  by (rule parseint_int_to_words) (simp_all add: parse_safe_def)

end
