(* ===== verification/Words.thy ===== *)
theory Words
  imports IntPrint FindCondition SetOps
begin

text \<open>
  text/words.hpp and text/words.cc: columns of words, that is an array of characters with the start
  and the length of every word (the record \<open>words\<close> of \<open>IntWords\<close>).  This theory has the operations that
  handle every word, or every character, on its own: substrings, the merge of columns, case, reversal
  and the first characters.

  Starts and lengths are \<open>size_t\<close> values, held as natural numbers.  Where the code mixes \<open>size_t\<close> with
  signed numbers, the result is reduced explicitly: \<open>u64\<close> is the conversion to \<open>size_t\<close>, which also
  decides comparisons of a signed with an unsigned number.  Values below 2 to the power 63 are read as
  \<open>ssize_t\<close> unchanged.
\<close>

definition u64 :: "int \<Rightarrow> nat" where
  "u64 x = nat (x mod 2 ^ 64)"

subsection \<open>Substrings\<close>

text \<open>One word, position not negative, in \<open>size_t\<close>.\<close>

definition substr_front :: "int \<Rightarrow> int \<Rightarrow> nat \<Rightarrow> nat \<Rightarrow> nat \<times> nat" where
  "substr_front pos num start len =
     (let newstarts = u64 (int start + pos);
          newend = u64 (int newstarts + num);
          end' = u64 (int start + int len);
          newstarts = (if newstarts > end' then end' else newstarts);
          newend = (if newend > end' then end' else newend)
      in (newstarts, u64 (int newend - int newstarts)))"

text \<open>The same in \<open>ssize_t\<close>; the comparisons with \<open>end\<close> are unsigned.\<close>

definition substr_front_signed :: "int \<Rightarrow> int \<Rightarrow> nat \<Rightarrow> nat \<Rightarrow> nat \<times> nat" where
  "substr_front_signed pos num start len =
     (let end' = u64 (int start + int len);
          newstarts = int start + pos;
          newend = newstarts + num;
          newstarts = (if u64 newstarts > end' then int end' else newstarts);
          newend = (if u64 newend > end' then int end' else newend)
      in (u64 newstarts, u64 (newend - newstarts)))"

text \<open>One word, position counted from the end; the comparisons of \<open>newend\<close> are unsigned.\<close>

definition substr_back :: "int \<Rightarrow> int \<Rightarrow> nat \<Rightarrow> nat \<Rightarrow> nat \<times> nat" where
  "substr_back pos num start len =
     (let end' = u64 (int start + int len);
          newstarts = int end' + pos;
          newend = newstarts + num;
          newstarts = (if newstarts < int start then int start else newstarts);
          newend = (if u64 newend < start then int start
                    else if u64 newend > end' then int end' else newend)
      in (u64 newstarts, u64 (newend - newstarts)))"

definition update_word ::
  "(nat \<Rightarrow> nat \<Rightarrow> nat \<times> nat) \<Rightarrow> nat \<Rightarrow> nat list \<times> nat list \<Rightarrow> (nat list \<times> nat list) option" where
  "update_word f i = (\<lambda>(starts, lens). do {
     s \<leftarrow> rd starts i;
     l \<leftarrow> rd lens i;
     let (s', l') = f s l;
     starts \<leftarrow> wr starts i s';
     lens \<leftarrow> wr lens i l';
     Some (starts, lens) })"

definition clear_lens :: "nat list \<Rightarrow> nat list \<Rightarrow> nat list option" where
  "clear_lens idx lens = for_each (\<lambda>i lens. wr lens i 0) idx lens"

definition substr_num ::
  "nat list \<Rightarrow> nat list \<Rightarrow> int \<Rightarrow> int \<Rightarrow> (nat list \<times> nat list) option" where
  "substr_num starts lens pos num =
     (let num_words = length starts in
      if num < 0 then do { lens \<leftarrow> clear_lens [0..<num_words] lens; Some (starts, lens) }
      else if pos \<ge> 0 then for_each (update_word (substr_front pos num)) [0..<num_words] (starts, lens)
      else for_each (update_word (substr_back pos num)) [0..<num_words] (starts, lens))"

definition substr_poss_num ::
  "nat list \<Rightarrow> nat list \<Rightarrow> int list \<Rightarrow> int \<Rightarrow> (string + nat list \<times> nat list) option" where
  "substr_poss_num starts lens pos num =
     (if length starts \<noteq> length pos then Some (Inl ''substr: size error'')
      else let num_words = length starts in
      if num < 0 then do { lens \<leftarrow> clear_lens [0..<num_words] lens; Some (Inr (starts, lens)) }
      else do {
        r \<leftarrow> for_each (\<lambda>i st. do {
            p \<leftarrow> rd pos i;
            update_word (if p \<ge> 0 then substr_front_signed p num else substr_back p num) i st })
          [0..<num_words] (starts, lens);
        Some (Inr r) })"

definition substr_pos_nums ::
  "find_cfg \<Rightarrow> nat list \<Rightarrow> nat list \<Rightarrow> int \<Rightarrow> int list \<Rightarrow> (string + nat list \<times> nat list) option" where
  "substr_pos_nums c starts lens pos num =
     (if length starts \<noteq> length num then Some (Inl ''substr: size error'')
      else do {
        let num_words = length starts;
        failnum \<leftarrow> find_condition c 4 (is_lt 0) num;
        (starts, lens) \<leftarrow> for_each (\<lambda>i st. do {
            n \<leftarrow> rd num i;
            update_word (if pos \<ge> 0 then substr_front pos n else substr_back pos n) i st })
          [0..<num_words] (starts, lens);
        lens \<leftarrow> clear_lens failnum lens;
        Some (Inr (starts, lens)) })"

definition substr_poss_nums ::
  "find_cfg \<Rightarrow> nat list \<Rightarrow> nat list \<Rightarrow> int list \<Rightarrow> int list \<Rightarrow> (string + nat list \<times> nat list) option" where
  "substr_poss_nums c starts lens pos num =
     (if length starts \<noteq> length pos \<or> length starts \<noteq> length num then Some (Inl ''substr: size error'')
      else do {
        let num_words = length starts;
        fail \<leftarrow> find_condition c 4 (is_lt 0) num;
        (starts, lens) \<leftarrow> for_each (\<lambda>i st. do {
            p \<leftarrow> rd pos i;
            n \<leftarrow> rd num i;
            update_word (if p \<ge> 0 then substr_front_signed p n else substr_back p n) i st })
          [0..<num_words] (starts, lens);
        lens \<leftarrow> clear_lens fail lens;
        Some (Inr (starts, lens)) })"

text \<open>Without a number: the rest of the word.\<close>

definition suffix_front :: "int \<Rightarrow> nat \<Rightarrow> nat \<Rightarrow> nat \<times> nat" where
  "suffix_front pos start len =
     (let newstarts = u64 (int start + pos);
          end' = u64 (int start + int len);
          newstarts = (if newstarts > end' then end' else newstarts)
      in (newstarts, u64 (int end' - int newstarts)))"

text \<open>The same in \<open>ssize_t\<close>, where the comparison is signed.\<close>

definition suffix_front_signed :: "int \<Rightarrow> nat \<Rightarrow> nat \<Rightarrow> nat \<times> nat" where
  "suffix_front_signed pos start len =
     (let newstarts = int start + pos;
          end' = int (u64 (int start + int len));
          newstarts = (if newstarts > end' then end' else newstarts)
      in (u64 newstarts, u64 (end' - newstarts)))"

definition suffix_back :: "int \<Rightarrow> nat \<Rightarrow> nat \<Rightarrow> nat \<times> nat" where
  "suffix_back pos start len =
     (let end' = u64 (int start + int len);
          newstarts = int end' + pos;
          newstarts = (if newstarts < int start then int start else newstarts)
      in (u64 newstarts, u64 (int end' - newstarts)))"

definition substr_pos :: "nat list \<Rightarrow> nat list \<Rightarrow> int \<Rightarrow> (nat list \<times> nat list) option" where
  "substr_pos starts lens pos =
     for_each (update_word (if pos \<ge> 0 then suffix_front pos else suffix_back pos)) [0..<length starts] (starts, lens)"

definition substr_poss ::
  "nat list \<Rightarrow> nat list \<Rightarrow> int list \<Rightarrow> (string + nat list \<times> nat list) option" where
  "substr_poss starts lens pos =
     (if length starts \<noteq> length pos then Some (Inl ''substr: size error'')
      else do {
        r \<leftarrow> for_each (\<lambda>i st. do {
            p \<leftarrow> rd pos i;
            update_word (if p \<ge> 0 then suffix_front_signed p else suffix_back p) i st })
          [0..<length starts] (starts, lens);
        Some (Inr r) })"

subsection \<open>Dropping empty words\<close>

text \<open>
  \<open>remove_null\<close>: a raked scan that emits the start and the length of every word that is not empty (the
  two buffers of the source are one list of pairs), copied back over the original arrays.
\<close>

definition words_each :: "nat \<Rightarrow> nat \<Rightarrow> nat" where
  "words_each V n = (let each = n div V in if each mod 2 = 0 \<and> each > 1 then each - 1 else each)"

definition null_commit ::
  "nat list \<Rightarrow> nat list \<Rightarrow> nat \<Rightarrow> unit \<Rightarrow> unit \<Rightarrow> (unit \<times> (nat \<times> nat) option) option" where
  "null_commit starts lens i flag s = do {
     l \<leftarrow> rd lens i;
     if l \<noteq> 0 then do { st \<leftarrow> rd starts i; Some ((), Some (st, l)) } else Some ((), None) }"

definition remove_null_spans ::
  "nat \<Rightarrow> nat list \<Rightarrow> nat list \<Rightarrow> nat \<Rightarrow> ((nat \<times> nat) list \<times> nat) option" where
  "remove_null_spans V starts lens size' =
     (if size' = 0 then Some (zip starts lens, 0)
      else let each = words_each V size' in
      if each = 0 then do {
        (current, buf) \<leftarrow> for_each (\<lambda>i (current, buf). do {
            (_, out) \<leftarrow> null_commit starts lens i () ();
            case out of None \<Rightarrow> Some (current, buf)
            | Some v \<Rightarrow> do { buf \<leftarrow> wr buf current v; Some (current + 1, buf) } })
          [0..<size'] (0, replicate size' (0, 0));
        spans \<leftarrow> copy_cells buf 0 (zip starts lens) 0 current;
        Some (spans, current) }
      else do {
        (_, total, ret) \<leftarrow> rake_compact V [0..<V] find_probe (null_commit starts lens) each (size' - each * V)
                             () (replicate size' (0, 0)) (\<lambda>_. zip starts lens);
        Some (ret, total) })"

definition remove_null :: "nat \<Rightarrow> nat list \<Rightarrow> nat list \<Rightarrow> (string + nat list \<times> nat list) option" where
  "remove_null V starts lens =
     (if length starts \<noteq> length lens then Some (Inl ''size of starts and lens are diffent'')
      else do {
        (spans, num_words) \<leftarrow> remove_null_spans V starts lens (length starts);
        ret_starts \<leftarrow> copy_cells (map fst spans) 0 (replicate num_words 0) 0 num_words;
        ret_lens \<leftarrow> copy_cells (map snd spans) 0 (replicate num_words 0) 0 num_words;
        Some (Inr (ret_starts, ret_lens)) })"

subsection \<open>Merging columns\<close>

definition merge_words :: "words \<Rightarrow> words \<Rightarrow> words option" where
  "merge_words a b = do {
     let na = length (w_chars a);
     let nb = length (w_chars b);
     let ka = length (w_starts a);
     let kb = length (w_starts b);
     chars \<leftarrow> copy_cells (w_chars a) 0 (replicate (na + nb) 0) 0 na;
     chars \<leftarrow> copy_cells (w_chars b) 0 chars na nb;
     starts \<leftarrow> copy_cells (w_starts a) 0 (replicate (ka + kb) 0) 0 ka;
     starts \<leftarrow> for_each (\<lambda>i starts. do { s \<leftarrow> rd (w_starts b) i; wr starts (ka + i) (s + na) }) [0..<kb] starts;
     lens \<leftarrow> copy_cells (w_lens a) 0 (replicate (ka + kb) 0) 0 ka;
     lens \<leftarrow> copy_cells (w_lens b) 0 lens ka kb;
     Some \<lparr>w_chars = chars, w_starts = starts, w_lens = lens\<rparr> }"

definition merge_multi_words :: "words list \<Rightarrow> words option" where
  "merge_multi_words vecwords = do {
     let n = length vecwords;
     (total_chars, total_starts) \<leftarrow> for_each (\<lambda>i (c, k). do {
         w \<leftarrow> rd vecwords i;
         Some (c + length (w_chars w), k + length (w_starts w)) }) [0..<n] (0, 0);
     (_, chars) \<leftarrow> for_each (\<lambda>i (p, chars). do {
         w \<leftarrow> rd vecwords i;
         chars \<leftarrow> copy_cells (w_chars w) 0 chars p (length (w_chars w));
         Some (p + length (w_chars w), chars) }) [0..<n] (0, replicate total_chars 0);
     (_, _, starts) \<leftarrow> for_each (\<lambda>i (p, shift, starts). do {
         w \<leftarrow> rd vecwords i;
         starts \<leftarrow> for_each (\<lambda>j starts. do { s \<leftarrow> rd (w_starts w) j; wr starts (p + j) (s + shift) })
           [0..<length (w_starts w)] starts;
         Some (p + length (w_starts w), shift + length (w_chars w), starts) }) [0..<n] (0, 0, replicate total_starts 0);
     (_, lens) \<leftarrow> for_each (\<lambda>i (p, lens). do {
         w \<leftarrow> rd vecwords i;
         lens \<leftarrow> copy_cells (w_lens w) 0 lens p (length (w_lens w));
         Some (p + length (w_lens w), lens) }) [0..<n] (0, replicate total_starts 0);
     Some \<lparr>w_chars = chars, w_starts = starts, w_lens = lens\<rparr> }"

subsection \<open>Characters\<close>

definition tolower_char :: "int \<Rightarrow> int" where
  "tolower_char ch = (if ch \<ge> 65 \<and> ch \<le> 90 then ch + (97 - 65) else ch)"

definition toupper_char :: "int \<Rightarrow> int" where
  "toupper_char ch = (if ch \<ge> 97 \<and> ch \<le> 122 then ch - (97 - 65) else ch)"

definition map_chars :: "(int \<Rightarrow> int) \<Rightarrow> int list \<Rightarrow> int list option" where
  "map_chars f chars = for_each (\<lambda>i ret. do { ch \<leftarrow> rd chars i; wr ret i (f ch) })
     [0..<length chars] (replicate (length chars) 0)"

definition tolower_words :: "words \<Rightarrow> words option" where
  "tolower_words w = do {
     chars \<leftarrow> map_chars tolower_char (w_chars w);
     Some \<lparr>w_chars = chars, w_starts = w_starts w, w_lens = w_lens w\<rparr> }"

definition toupper_words :: "words \<Rightarrow> words option" where
  "toupper_words w = do {
     chars \<leftarrow> map_chars toupper_char (w_chars w);
     Some \<lparr>w_chars = chars, w_starts = w_starts w, w_lens = w_lens w\<rparr> }"

definition ascii :: "words \<Rightarrow> int list option" where
  "ascii w = omap (\<lambda>i. do {
     l \<leftarrow> rd (w_lens w) i;
     if l \<noteq> 0 then do { s \<leftarrow> rd (w_starts w) i; rd (w_chars w) s } else Some 0 }) [0..<length (w_lens w)]"

text \<open>The capital letters of \<open>initcap\<close>: behind every space of the array, and at the start of every word.\<close>

definition capital_at :: "nat \<Rightarrow> int list \<Rightarrow> int list option" where
  "capital_at p chars = do {
     ch \<leftarrow> rd chars p;
     if ch \<ge> 97 \<and> ch \<le> 122 then wr chars p (ch - (97 - 65)) else Some chars }"

definition initcap :: "find_cfg \<Rightarrow> words \<Rightarrow> words option" where
  "initcap c w = do {
     chars \<leftarrow> map_chars tolower_char (w_chars w);
     chars \<leftarrow> for_each (\<lambda>i chars. do {
         l \<leftarrow> rd (w_lens w) i;
         if l \<noteq> 0 then do { s \<leftarrow> rd (w_starts w) i; capital_at s chars } else Some chars })
       [0..<length (w_lens w)] chars;
     pos \<leftarrow> vector_find_eq c 4 (w_chars w) 32;
     let pos_size = length pos;
     chars \<leftarrow> (if pos_size = 0 then Some chars
       else do {
         p \<leftarrow> rd pos (pos_size - 1);
         let tsize = (if p = length (w_chars w) - 1 then pos_size - 1 else pos_size);
         for_each (\<lambda>i chars. do { p \<leftarrow> rd pos i; capital_at (p + 1) chars }) [0..<tsize] chars });
     Some \<lparr>w_chars = chars, w_starts = w_starts w, w_lens = w_lens w\<rparr> }"

definition reverse_words :: "words \<Rightarrow> words option" where
  "reverse_words w = do {
     let n = length (w_chars w);
     chars \<leftarrow> for_each (\<lambda>i ret. do { ch \<leftarrow> rd (w_chars w) (n - 1 - i); wr ret i ch }) [0..<n] (replicate n 0);
     starts \<leftarrow> omap (\<lambda>i. do {
         s \<leftarrow> rd (w_starts w) i;
         l \<leftarrow> rd (w_lens w) i;
         Some (u64 (int n - int s - int l)) }) [0..<length (w_starts w)];
     Some \<lparr>w_chars = chars, w_starts = starts, w_lens = w_lens w\<rparr> }"

end
