(* ===== verification/WordsSubstr.thy ===== *)
theory WordsSubstr
  imports Words
begin

text \<open>
  The substrings of text/words.cc: every overload computes, word by word, the part of the word that
  \<open>substr_spec\<close> describes, for ranges that do not end before the start of the array of characters
  (\<open>ends_inside\<close>); \<open>substr_result\<close> also covers the others, where the code returns the whole word.
\<close>

lemma u64_id: "0 \<le> x \<Longrightarrow> x < 2 ^ 64 \<Longrightarrow> u64 x = nat x"
  by (simp add: u64_def)

lemma u64_neg: "x < 0 \<Longrightarrow> - (2 ^ 63) \<le> x \<Longrightarrow> u64 x = nat (x + 2 ^ 64)"
proof -
  assume "x < 0" "- (2 ^ 63) \<le> x"
  then have "x mod 2 ^ 64 = x + 2 ^ 64" by (intro int_mod_pos_eq [of _ _ "-1"]) simp_all
  then show ?thesis by (simp add: u64_def)
qed

definition int32 :: "int \<Rightarrow> bool" where
  "int32 x \<longleftrightarrow> - (2 ^ 31) \<le> x \<and> x < 2 ^ 31"

definition substr_spec :: "int \<Rightarrow> int \<Rightarrow> 'a list \<Rightarrow> 'a list" where
  "substr_spec pos num w =
     (let a = (if pos \<ge> 0 then pos else int (length w) + pos)
      in take (nat (a + num) - nat a) (drop (nat a) w))"

lemma substr_front_eq:
  assumes "0 \<le> pos" "int32 pos" "0 \<le> num" "int32 num" "s + l < 2 ^ 62"
  shows "substr_front pos num s l = (s + min (nat pos) l, min (nat num) (l - nat pos))"
proof -
  have u: "u64 (int s + pos) = nat (int s + pos)" "u64 (int s + int l) = s + l"
    "u64 (int (nat (int s + pos)) + num) = nat (int s + pos + num)"
    using assms by (auto simp: u64_id int32_def)
  have d: "u64 (int b - int a) = b - a" if "a \<le> b" "b \<le> s + l" for a b
    using that assms by (subst u64_id) auto
  show ?thesis unfolding substr_front_def u Let_def
    using assms by (auto simp: d int32_def min_def nat_add_distrib)
qed

lemma substr_front_signed_eq:
  assumes "0 \<le> pos" "int32 pos" "0 \<le> num" "int32 num" "s + l < 2 ^ 62"
  shows "substr_front_signed pos num s l = (s + min (nat pos) l, min (nat num) (l - nat pos))"
proof -
  have u: "u64 (int s + pos) = nat (int s + pos)" "u64 (int s + int l) = s + l"
    "u64 (int s + pos + num) = nat (int s + pos + num)"
    using assms by (auto simp: u64_id int32_def)
  have d: "u64 x = nat x" if "0 \<le> x" "x \<le> int s + pos + num + int l" for x
    using that assms by (subst u64_id) (auto simp: int32_def)
  show ?thesis unfolding substr_front_signed_def u Let_def
    using assms by (auto simp: d int32_def min_def nat_add_distrib nat_diff_distrib)
qed

text \<open>
  From the end: the start is clipped to the word, but an end before the start of the whole array of
  characters is negative, hence huge as a \<open>size_t\<close>, and clips to the end of the word.
\<close>

lemma substr_back_eq:
  assumes "pos < 0" "int32 pos" "0 \<le> num" "int32 num" "s + l < 2 ^ 62"
  shows "substr_back pos num s l =
    (if int s + int l + pos + num < 0 then (s, l)
     else (s + nat (int l + pos), min l (nat (int l + pos + num)) - nat (int l + pos)))"
proof -
  have e: "u64 (int s + int l) = s + l" using assms by (simp add: u64_id)
  show ?thesis
  proof (cases "int s + int l + pos + num < 0")
    case True
    then have "u64 (int (s + l) + pos + num) = nat (int (s + l) + pos + num + 2 ^ 64)"
      using assms by (intro u64_neg) (auto simp: int32_def)
    moreover have "u64 (int s) = s" "u64 (int l) = l" using assms by (auto simp: u64_id)
    ultimately show ?thesis using True assms unfolding substr_back_def e Let_def by (auto simp: int32_def)
  next
    case False
    have d: "u64 x = nat x" if "0 \<le> x" "x \<le> int s + int l + num" for x
      using that assms by (subst u64_id) (auto simp: int32_def)
    have n: "u64 (int (s + l) + pos + num) = nat (int (s + l) + pos + num)" using False assms by (intro d) simp_all
    show ?thesis using False assms unfolding substr_back_def e Let_def n
      by (auto simp: d int32_def min_def nat_add_distrib nat_diff_distrib)
  qed
qed

lemma suffix_front_eq:
  assumes "0 \<le> pos" "int32 pos" "s + l < 2 ^ 62"
  shows "suffix_front pos s l = (s + min (nat pos) l, l - nat pos)"
proof -
  have u: "u64 (int s + pos) = nat (int s + pos)" "u64 (int s + int l) = s + l"
    using assms by (auto simp: u64_id int32_def)
  have d: "u64 x = nat x" if "0 \<le> x" "x \<le> int l" for x
    using that assms by (subst u64_id) (auto simp: int32_def)
  show ?thesis unfolding suffix_front_def u Let_def
    using assms by (auto simp: d int32_def min_def nat_add_distrib nat_diff_distrib)
qed

lemma suffix_front_signed_eq:
  assumes "0 \<le> pos" "int32 pos" "s + l < 2 ^ 62"
  shows "suffix_front_signed pos s l = (s + min (nat pos) l, l - nat pos)"
proof -
  have e: "u64 (int s + int l) = s + l" using assms by (simp add: u64_id)
  have d: "u64 x = nat x" if "0 \<le> x" "x \<le> int s + int l" for x
    using that assms by (subst u64_id) (auto simp: int32_def)
  show ?thesis unfolding suffix_front_signed_def e Let_def using assms
    by (auto simp: d min_def nat_add_distrib nat_diff_distrib)
qed

lemma suffix_back_eq:
  assumes "pos < 0" "int32 pos" "s + l < 2 ^ 62"
  shows "suffix_back pos s l = (s + nat (int l + pos), l - nat (int l + pos))"
proof -
  have e: "u64 (int s + int l) = s + l" using assms by (simp add: u64_id)
  have d: "u64 x = nat x" if "0 \<le> x" "x \<le> int s + int l" for x
    using that assms by (subst u64_id) (auto simp: int32_def)
  show ?thesis unfolding suffix_back_def e Let_def using assms
    by (auto simp: d int32_def min_def nat_add_distrib nat_diff_distrib)
qed

text \<open>The result word in the array of characters.\<close>

definition word_at :: "'a list \<Rightarrow> nat \<times> nat \<Rightarrow> 'a list" where
  "word_at chars sl = take (snd sl) (drop (fst sl) chars)"

lemma words_of_word_at: "words_of w = map (word_at (w_chars w)) (zip (w_starts w) (w_lens w))"
  by (simp add: words_of_def word_at_def case_prod_beta')

lemma word_at_part:
  assumes "a \<le> l" "a + k \<le> l"
  shows "word_at chars (s + a, k) = take k (drop a (word_at chars (s, l)))"
  using assms by (simp add: word_at_def drop_take min_def add.commute)

lemma length_word_at: "s + l \<le> length chars \<Longrightarrow> length (word_at chars (s, l)) = l"
  by (simp add: word_at_def)

text \<open>What \<open>substr\<close> makes of the word at \<open>start\<close>.\<close>

definition substr_result :: "int \<Rightarrow> int \<Rightarrow> nat \<Rightarrow> 'a list \<Rightarrow> 'a list" where
  "substr_result pos num start w =
     (if pos < 0 \<and> 0 \<le> num \<and> int start + int (length w) + pos + num < 0 then w
      else substr_spec pos num w)"

lemma substr_front_word:
  assumes "0 \<le> pos" "int32 pos" "0 \<le> num" "int32 num" "s + l \<le> length chars" "length chars < 2 ^ 62"
  shows "word_at chars (substr_front pos num s l) = substr_spec pos num (word_at chars (s, l))"
    "word_at chars (substr_front_signed pos num s l) = substr_spec pos num (word_at chars (s, l))"
proof -
  have eq: "substr_front pos num s l = (s + min (nat pos) l, min (nat num) (l - nat pos))"
     "substr_front_signed pos num s l = (s + min (nat pos) l, min (nat num) (l - nat pos))"
    using assms by (simp_all add: substr_front_eq substr_front_signed_eq)
  have "word_at chars (s + min (nat pos) l, min (nat num) (l - nat pos)) =
      take (min (nat num) (l - nat pos)) (drop (min (nat pos) l) (word_at chars (s, l)))"
    by (rule word_at_part) auto
  also have "\<dots> = take (nat num) (drop (nat pos) (word_at chars (s, l)))"
    using assms length_word_at [OF assms(5)] by (cases "nat pos \<le> l") (auto simp: min_def)
  also have "\<dots> = substr_spec pos num (word_at chars (s, l))"
    using assms by (simp add: substr_spec_def nat_add_distrib)
  finally show "word_at chars (substr_front pos num s l) = substr_spec pos num (word_at chars (s, l))"
    "word_at chars (substr_front_signed pos num s l) = substr_spec pos num (word_at chars (s, l))"
    by (simp_all add: eq)
qed

lemma substr_back_word:
  assumes "pos < 0" "int32 pos" "0 \<le> num" "int32 num" "s + l \<le> length chars" "length chars < 2 ^ 62"
  shows "word_at chars (substr_back pos num s l) = substr_result pos num s (word_at chars (s, l))"
proof (cases "int s + int l + pos + num < 0")
  case True
  then show ?thesis using assms by (simp add: substr_back_eq substr_result_def length_word_at)
next
  case False
  let ?a = "nat (int l + pos)" and ?e = "nat (int l + pos + num)"
  have "word_at chars (substr_back pos num s l) = word_at chars (s + ?a, min l ?e - ?a)"
    using False assms by (simp add: substr_back_eq)
  also have "\<dots> = take (min l ?e - ?a) (drop ?a (word_at chars (s, l)))"
    by (rule word_at_part) (use assms in auto)
  also have "\<dots> = take (?e - ?a) (drop ?a (word_at chars (s, l)))"
    using assms length_word_at [OF assms(5)] by (cases "l \<le> ?e") (auto simp: min_def)
  finally show ?thesis using assms False by (simp add: substr_result_def substr_spec_def length_word_at Let_def)
qed

lemma suffix_word:
  assumes "int32 pos" "s + l \<le> length chars" "length chars < 2 ^ 62"
  shows "word_at chars ((if pos \<ge> 0 then suffix_front pos else suffix_back pos) s l)
    = drop (nat (if pos \<ge> 0 then pos else int l + pos)) (word_at chars (s, l))"
proof (cases "pos \<ge> 0")
  case True
  then have "word_at chars (suffix_front pos s l) = word_at chars (s + min (nat pos) l, l - nat pos)"
    using assms by (simp add: suffix_front_eq)
  also have "\<dots> = take (l - nat pos) (drop (min (nat pos) l) (word_at chars (s, l)))"
    by (rule word_at_part) auto
  finally show ?thesis using True length_word_at [OF assms(2)] by (cases "nat pos \<le> l") (auto simp: min_def)
next
  case False
  then have "word_at chars (suffix_back pos s l) = word_at chars (s + nat (int l + pos), l - nat (int l + pos))"
    using assms by (simp add: suffix_back_eq)
  also have "\<dots> = take (l - nat (int l + pos)) (drop (nat (int l + pos)) (word_at chars (s, l)))"
    by (rule word_at_part) (use False in auto)
  finally show ?thesis using False length_word_at [OF assms(2)] by simp
qed

subsection \<open>Loops over the words\<close>

text \<open>A well-formed column: every word lies inside the array of characters.\<close>

definition words_ok :: "words \<Rightarrow> bool" where
  "words_ok w \<longleftrightarrow> length (w_lens w) = length (w_starts w) \<and>
     (\<forall>i<length (w_starts w). w_starts w ! i + w_lens w ! i \<le> length (w_chars w))"

lemma update_words_eq:
  assumes "length starts = n" "length lens = n"
    "\<And>i st. i < n \<Longrightarrow> g i st = update_word (f i) i st"
  shows "for_each g [0..<n] (starts, lens) =
    Some (map (\<lambda>i. fst (f i (starts ! i) (lens ! i))) [0..<n], map (\<lambda>i. snd (f i (starts ! i) (lens ! i))) [0..<n])"
proof -
  let ?I = "\<lambda>k (s, l). s = map (\<lambda>i. fst (f i (starts ! i) (lens ! i))) [0..<k] @ drop k starts \<and>
    l = map (\<lambda>i. snd (f i (starts ! i) (lens ! i))) [0..<k] @ drop k lens"
  have "ok (for_each g [0..<n] (starts, lens)) (?I n)"
  proof (rule ok_for_range [where I = ?I])
    fix k st assume k: "0 \<le> k" "k < n" and st: "?I k st"
    have d: "drop k starts = starts ! k # drop (Suc k) starts" "drop k lens = lens ! k # drop (Suc k) lens"
      using k assms by (simp_all add: Cons_nth_drop_Suc)
    show "ok (g k st) (?I (Suc k))"
      using st k assms by (auto simp: update_word_def ok_simps d nth_append list_update_append split: prod.splits)
  qed simp_all
  then show ?thesis using assms by (simp add: ok_iff_ex)
qed

lemma clear_lens_eq:
  assumes "\<forall>i\<in>set idx. i < length lens"
  shows "clear_lens idx lens = Some (map (\<lambda>i. if i \<in> set idx then 0 else lens ! i) [0..<length lens])"
  using assms
proof (induction idx arbitrary: lens)
  case Nil
  then show ?case by (simp add: clear_lens_def map_nth)
next
  case (Cons i idx)
  have "clear_lens (i # idx) lens = clear_lens idx (lens[i := 0])" using Cons.prems by (simp add: clear_lens_def)
  also have "\<dots> = Some (map (\<lambda>j. if j \<in> set idx then 0 else lens[i := 0] ! j) [0..<length lens])"
    using Cons.IH [of "lens[i := 0]"] Cons.prems by simp
  also have "map (\<lambda>j. if j \<in> set idx then 0 else lens[i := 0] ! j) [0..<length lens] =
      map (\<lambda>j. if j \<in> set (i # idx) then 0 else lens ! j) [0..<length lens]"
    by (rule map_cong) (auto simp: nth_list_update)
  finally show ?case .
qed

lemma words_of_map:
  "words_of (w\<lparr>w_starts := map f [0..<n], w_lens := map g [0..<n]\<rparr>) = map (\<lambda>i. word_at (w_chars w) (f i, g i)) [0..<n]"
  by (simp add: words_of_word_at zip_map_map zip_same_conv_map comp_def)

lemma nth_words_of:
  "i < length (w_starts w) \<Longrightarrow> i < length (w_lens w) \<Longrightarrow> words_of w ! i = word_at (w_chars w) (w_starts w ! i, w_lens w ! i)"
  by (simp add: words_of_word_at)

lemma length_words_of [simp]: "words_ok w \<Longrightarrow> length (words_of w) = length (w_starts w)"
  by (simp add: words_of_def words_ok_def)

lemma length_nth_words_of: "words_ok w \<Longrightarrow> i < length (w_starts w) \<Longrightarrow> length (words_of w ! i) = w_lens w ! i"
  by (simp add: nth_words_of words_ok_def length_word_at)

text \<open>One word through every variant of the code.\<close>

definition substr_word :: "bool \<Rightarrow> int \<Rightarrow> int \<Rightarrow> nat \<Rightarrow> nat \<Rightarrow> nat \<times> nat" where
  "substr_word signed pos num =
     (if pos \<ge> 0 then if signed then substr_front_signed pos num else substr_front pos num else substr_back pos num)"

lemma substr_word_result:
  assumes "words_ok w" "length (w_chars w) < 2 ^ 62" "i < length (w_starts w)" "int32 pos" "int32 num" "0 \<le> num"
  shows "word_at (w_chars w) (substr_word signed pos num (w_starts w ! i) (w_lens w ! i)) =
    substr_result pos num (w_starts w ! i) (words_of w ! i)"
  using assms substr_front_word [of pos num "w_starts w ! i" "w_lens w ! i" "w_chars w"]
    substr_back_word [of pos num "w_starts w ! i" "w_lens w ! i" "w_chars w"]
  by (auto simp: substr_word_def words_ok_def nth_words_of substr_result_def)

lemma substr_result_neg: "num < 0 \<Longrightarrow> substr_result pos num start w = []"
  by (simp add: substr_result_def substr_spec_def Let_def)

definition with_spans :: "words \<Rightarrow> nat list \<times> nat list \<Rightarrow> words" where
  "with_spans w sl = w\<lparr>w_starts := fst sl, w_lens := snd sl\<rparr>"

text \<open>The new starts and lengths are those of a well-formed column with the words \<open>R\<close>.\<close>

definition respanned :: "words \<Rightarrow> (nat \<Rightarrow> int list) \<Rightarrow> nat list \<times> nat list \<Rightarrow> bool" where
  "respanned w R sl \<longleftrightarrow> words_ok (with_spans w sl) \<and>
     words_of (with_spans w sl) = map R [0..<length (w_starts w)]"

lemma respannedI:
  assumes "\<And>i. i < length (w_starts w) \<Longrightarrow> f i + g i \<le> length (w_chars w)"
    "\<And>i. i < length (w_starts w) \<Longrightarrow> word_at (w_chars w) (f i, g i) = R i"
  shows "respanned w R (map f [0..<length (w_starts w)], map g [0..<length (w_starts w)])"
  using assms by (simp add: respanned_def with_spans_def words_of_map words_ok_def)

lemma substr_word_inside:
  assumes "int32 pos" "s + l \<le> m" "m < 2 ^ 62"
  shows "fst (substr_word signed pos num s l) \<le> m"
    and "0 \<le> num \<Longrightarrow> int32 num \<Longrightarrow> fst (substr_word signed pos num s l) + snd (substr_word signed pos num s l) \<le> m"
proof -
  have e: "u64 (int s + int l) = s + l" using assms by (simp add: u64_id)
  have p: "u64 (int s + pos) = nat (int s + pos)" if "0 \<le> pos" using that assms by (auto simp: u64_id int32_def)
  have n: "u64 x = nat x" if "0 \<le> x" "x \<le> int s + int l" for x
    using that assms by (subst u64_id) auto
  show "fst (substr_word signed pos num s l) \<le> m"
  proof (cases "0 \<le> pos")
    case True
    then show ?thesis using assms e p [OF True]
      by (auto simp: substr_word_def substr_front_def substr_front_signed_def Let_def n)
  next
    case False
    then have "fst (substr_word signed pos num s l) = nat (max (int s) (int (s + l) + pos))"
      using e n [of "int (s + l) + pos"] n [of "int s"] by (simp add: substr_word_def substr_back_def Let_def max_def)
    then show ?thesis using False assms by simp
  qed
  show "fst (substr_word signed pos num s l) + snd (substr_word signed pos num s l) \<le> m" if "0 \<le> num" "int32 num"
    using assms that by (cases "0 \<le> pos") (auto simp: substr_word_def substr_front_eq substr_front_signed_eq substr_back_eq)
qed

text \<open>All variants with a number reduce to this loop and the clearing of the failed words.\<close>

lemma substr_loop:
  assumes w: "words_ok w" "length (w_chars w) < 2 ^ 62" and n: "n = length (w_starts w)"
    and P: "\<And>i. i < n \<Longrightarrow> int32 (P i) \<and> int32 (N i)"
    and g: "\<And>i st. i < n \<Longrightarrow> g i st = update_word (substr_word (b i) (P i) (N i)) i st"
    and idx: "set idx = {i. i < n \<and> N i < 0}"
  shows "ok (do { (starts, lens) \<leftarrow> for_each g [0..<n] (w_starts w, w_lens w);
                  lens \<leftarrow> clear_lens idx lens; Some (starts, lens) })
    (\<lambda>st. respanned w (\<lambda>i. substr_result (P i) (N i) (w_starts w ! i) (words_of w ! i)) st)"
proof -
  let ?f = "\<lambda>i. substr_word (b i) (P i) (N i) (w_starts w ! i) (w_lens w ! i)"
  let ?lens = "map (\<lambda>i. if i \<in> set idx then 0 else snd (?f i)) [0..<n]"
  have loop: "for_each g [0..<n] (w_starts w, w_lens w) = Some (map (\<lambda>i. fst (?f i)) [0..<n], map (\<lambda>i. snd (?f i)) [0..<n])"
    using update_words_eq [of "w_starts w" n "w_lens w" g "\<lambda>i. substr_word (b i) (P i) (N i)"] w n g by (simp add: words_ok_def)
  have "clear_lens idx (map (\<lambda>i. snd (?f i)) [0..<n]) = Some (map (\<lambda>i. if i \<in> set idx then 0 else map (\<lambda>i. snd (?f i)) [0..<n] ! i) [0..<n])"
    using clear_lens_eq [of idx "map (\<lambda>i. snd (?f i)) [0..<n]"] idx by simp
  also have "map (\<lambda>i. if i \<in> set idx then 0 else map (\<lambda>i. snd (?f i)) [0..<n] ! i) [0..<n] = ?lens"
    by (rule map_cong) simp_all
  finally have clear: "clear_lens idx (map (\<lambda>i. snd (?f i)) [0..<n]) = Some ?lens" .
  have "respanned w (\<lambda>i. substr_result (P i) (N i) (w_starts w ! i) (words_of w ! i)) (map (\<lambda>i. fst (?f i)) [0..<n], ?lens)"
    unfolding n
  proof (rule respannedI)
    fix i assume "i < length (w_starts w)"
    then have i: "i < n" "w_starts w ! i + w_lens w ! i \<le> length (w_chars w)" "int32 (P i)" "int32 (N i)"
      using n w P by (auto simp: words_ok_def)
    show "fst (?f i) + (if i \<in> set idx then 0 else snd (?f i)) \<le> length (w_chars w)"
      using substr_word_inside [OF i(3,2) w(2)] i idx by auto
    show "word_at (w_chars w) (fst (?f i), if i \<in> set idx then 0 else snd (?f i)) =
        substr_result (P i) (N i) (w_starts w ! i) (words_of w ! i)"
    proof (cases "N i < 0")
      case True
      then show ?thesis using idx i by (simp add: word_at_def substr_result_neg)
    next
      case False
      then show ?thesis using substr_word_result [OF w, of i "P i" "N i" "b i"] i n idx by auto
    qed
  qed
  then show ?thesis using loop clear by (simp add: ok_bind)
qed

lemma substr_poss_nums_ok:
  assumes w: "words_ok w" "length (w_chars w) < 2 ^ 62" and c: "wf_cfg c"
    and pos: "length pos = length (w_starts w)" "list_all int32 pos"
    and num: "length num = length (w_starts w)" "list_all int32 num"
  shows "ok (substr_poss_nums c (w_starts w) (w_lens w) pos num) (\<lambda>r. \<exists>st. r = Inr st \<and>
     respanned w (\<lambda>i. substr_result (pos ! i) (num ! i) (w_starts w ! i) (words_of w ! i)) st)"
proof -
  let ?n = "length (w_starts w)"
  let ?g = "\<lambda>i st. do { p \<leftarrow> rd pos i; n \<leftarrow> rd num i;
      update_word (if p \<ge> 0 then substr_front_signed p n else substr_back p n) i st }"
  let ?idx = "filter (\<lambda>i. is_lt 0 (num ! i)) [0..<length num]"
  have "ok (do { (starts, lens) \<leftarrow> for_each ?g [0..<?n] (w_starts w, w_lens w);
                  lens \<leftarrow> clear_lens ?idx lens; Some (starts, lens) })
    (\<lambda>st. respanned w (\<lambda>i. substr_result (pos ! i) (num ! i) (w_starts w ! i) (words_of w ! i)) st)"
    by (rule substr_loop [OF w refl, of _ _ _ "\<lambda>_. True"])
      (use pos num in \<open>auto simp: list_all_length substr_word_def is_lt_def\<close>)
  then show ?thesis
    using pos num by (auto simp: substr_poss_nums_def find_condition_eq [OF c] ok_iff_ex split: Option.bind_splits)
qed

lemma substr_pos_nums_ok:
  assumes w: "words_ok w" "length (w_chars w) < 2 ^ 62" and c: "wf_cfg c"
    and pos: "int32 pos" and num: "length num = length (w_starts w)" "list_all int32 num"
  shows "ok (substr_pos_nums c (w_starts w) (w_lens w) pos num) (\<lambda>r. \<exists>st. r = Inr st \<and>
     respanned w (\<lambda>i. substr_result pos (num ! i) (w_starts w ! i) (words_of w ! i)) st)"
proof -
  let ?n = "length (w_starts w)"
  let ?g = "\<lambda>i st. do { n \<leftarrow> rd num i; update_word (if pos \<ge> 0 then substr_front pos n else substr_back pos n) i st }"
  let ?idx = "filter (\<lambda>i. is_lt 0 (num ! i)) [0..<length num]"
  have "ok (do { (starts, lens) \<leftarrow> for_each ?g [0..<?n] (w_starts w, w_lens w);
                  lens \<leftarrow> clear_lens ?idx lens; Some (starts, lens) })
    (\<lambda>st. respanned w (\<lambda>i. substr_result pos (num ! i) (w_starts w ! i) (words_of w ! i)) st)"
    by (rule substr_loop [OF w refl, of _ _ _ "\<lambda>_. False"])
      (use pos num in \<open>auto simp: list_all_length substr_word_def is_lt_def\<close>)
  then show ?thesis
    using num by (auto simp: substr_pos_nums_def find_condition_eq [OF c] ok_iff_ex split: Option.bind_splits)
qed

lemma clear_all:
  assumes w: "words_ok w" and neg: "num < 0"
  shows "\<exists>lens. clear_lens [0..<length (w_starts w)] (w_lens w) = Some lens \<and>
    respanned w (\<lambda>i. substr_result (P i) num (w_starts w ! i) (words_of w ! i)) (w_starts w, lens)"
proof -
  let ?n = "length (w_starts w)"
  let ?lens = "map (\<lambda>i. if i \<in> set [0..<?n] then 0 else w_lens w ! i) [0..<?n]"
  have c: "clear_lens [0..<?n] (w_lens w) = Some ?lens"
    using clear_lens_eq [of "[0..<?n]" "w_lens w"] w by (simp add: words_ok_def)
  have "respanned w (\<lambda>i. substr_result (P i) num (w_starts w ! i) (words_of w ! i)) (map (\<lambda>i. w_starts w ! i) [0..<?n], ?lens)"
    by (rule respannedI) (use w in \<open>auto simp: word_at_def substr_result_neg [OF neg] words_ok_def\<close>)
  then show ?thesis using c by (simp add: map_nth)
qed

lemma substr_spans:
  assumes w: "words_ok w" "length (w_chars w) < 2 ^ 62" and n: "n = length (w_starts w)" "0 \<le> num" "int32 num"
    and P: "\<And>i. i < n \<Longrightarrow> int32 (P i)"
    and g: "\<And>i st. i < n \<Longrightarrow> g i st = update_word (substr_word (b i) (P i) num) i st"
  shows "ok (for_each g [0..<n] (w_starts w, w_lens w))
    (\<lambda>st. respanned w (\<lambda>i. substr_result (P i) num (w_starts w ! i) (words_of w ! i)) st)"
  using substr_loop [OF w n(1), of P "\<lambda>_. num" g b "[]"] P g n(2,3)
  by (auto simp: ok_iff_ex clear_lens_def split: Option.bind_splits)

lemma substr_poss_num_ok:
  assumes w: "words_ok w" "length (w_chars w) < 2 ^ 62"
    and pos: "length pos = length (w_starts w)" "list_all int32 pos" and num: "int32 num"
  shows "ok (substr_poss_num (w_starts w) (w_lens w) pos num) (\<lambda>r. \<exists>st. r = Inr st \<and>
     respanned w (\<lambda>i. substr_result (pos ! i) num (w_starts w ! i) (words_of w ! i)) st)"
proof (cases "num < 0")
  case True
  then show ?thesis using clear_all [OF w(1) True, of "\<lambda>i. pos ! i"] pos by (auto simp: substr_poss_num_def)
next
  case False
  have "ok (for_each (\<lambda>i st. do { p \<leftarrow> rd pos i; update_word (if p \<ge> 0 then substr_front_signed p num else substr_back p num) i st })
          [0..<length (w_starts w)] (w_starts w, w_lens w))
    (\<lambda>st. respanned w (\<lambda>i. substr_result (pos ! i) num (w_starts w ! i) (words_of w ! i)) st)"
    by (rule substr_spans [OF w refl, of _ _ _ "\<lambda>_. True"])
      (use pos num False in \<open>auto simp: list_all_length substr_word_def\<close>)
  then show ?thesis using pos False by (auto simp: substr_poss_num_def ok_iff_ex)
qed

lemma substr_num_ok:
  assumes w: "words_ok w" "length (w_chars w) < 2 ^ 62" and pos: "int32 pos" and num: "int32 num"
  shows "ok (substr_num (w_starts w) (w_lens w) pos num) (\<lambda>st.
     respanned w (\<lambda>i. substr_result pos num (w_starts w ! i) (words_of w ! i)) st)"
proof (cases "num < 0")
  case True
  then show ?thesis using clear_all [OF w(1) True, of "\<lambda>i. pos"] by (auto simp: substr_num_def)
next
  case False
  have "ok (for_each (update_word (if pos \<ge> 0 then substr_front pos num else substr_back pos num)) [0..<length (w_starts w)] (w_starts w, w_lens w))
    (\<lambda>st. respanned w (\<lambda>i. substr_result pos num (w_starts w ! i) (words_of w ! i)) st)"
    by (rule substr_spans [OF w refl, of _ _ _ "\<lambda>_. False"])
      (use pos num False in \<open>auto simp: substr_word_def\<close>)
  then show ?thesis using False by (simp add: substr_num_def Let_def split: if_splits)
qed

definition suffix_spec :: "int \<Rightarrow> 'a list \<Rightarrow> 'a list" where
  "suffix_spec pos w = drop (nat (if pos \<ge> 0 then pos else int (length w) + pos)) w"

lemma suffix_spans:
  assumes w: "words_ok w" "length (w_chars w) < 2 ^ 62" and n: "n = length (w_starts w)"
    and P: "\<And>i. i < n \<Longrightarrow> int32 (P i)"
    and front: "front = suffix_front \<or> front = suffix_front_signed"
    and g: "\<And>i st. i < n \<Longrightarrow> g i st = update_word (if P i \<ge> 0 then front (P i) else suffix_back (P i)) i st"
  shows "ok (for_each g [0..<n] (w_starts w, w_lens w))
    (\<lambda>st. respanned w (\<lambda>i. suffix_spec (P i) (words_of w ! i)) st)"
proof -
  let ?f = "\<lambda>i. if P i \<ge> 0 then front (P i) else suffix_back (P i)"
  have same: "?f i s l = (if P i \<ge> 0 then suffix_front (P i) else suffix_back (P i)) s l" if "i < n" "s + l < 2 ^ 62" for i s l
    using front P [OF that(1)] that(2) by (auto simp: suffix_front_eq suffix_front_signed_eq)
  have "for_each g [0..<n] (w_starts w, w_lens w) =
      Some (map (\<lambda>i. fst (?f i (w_starts w ! i) (w_lens w ! i))) [0..<n], map (\<lambda>i. snd (?f i (w_starts w ! i) (w_lens w ! i))) [0..<n])"
    by (rule update_words_eq) (use w n g in \<open>simp_all add: words_ok_def\<close>)
  moreover have "respanned w (\<lambda>i. suffix_spec (P i) (words_of w ! i))
      (map (\<lambda>i. fst (?f i (w_starts w ! i) (w_lens w ! i))) [0..<n], map (\<lambda>i. snd (?f i (w_starts w ! i) (w_lens w ! i))) [0..<n])"
    unfolding n
  proof (rule respannedI)
    fix i assume "i < length (w_starts w)"
    then have i: "i < length (w_starts w)" "i < length (w_lens w)" "int32 (P i)"
      "w_starts w ! i + w_lens w ! i \<le> length (w_chars w)" "i < n" using w n P by (auto simp: words_ok_def)
    have small: "w_starts w ! i + w_lens w ! i < 2 ^ 62" using i(4) w(2) by linarith
    show "word_at (w_chars w) (fst (?f i (w_starts w ! i) (w_lens w ! i)), snd (?f i (w_starts w ! i) (w_lens w ! i)))
        = suffix_spec (P i) (words_of w ! i)"
      using suffix_word [OF i(3,4) w(2)] length_nth_words_of [OF w(1) i(1)] i
      unfolding same [OF i(5) small] by (simp only: prod.collapse nth_words_of suffix_spec_def)
    show "fst (?f i (w_starts w ! i) (w_lens w ! i)) + snd (?f i (w_starts w ! i) (w_lens w ! i)) \<le> length (w_chars w)"
      unfolding same [OF i(5) small] using i w(2) by (auto simp: suffix_front_eq suffix_back_eq min_def)
  qed
  ultimately show ?thesis by simp
qed

lemma substr_poss_ok:
  assumes w: "words_ok w" "length (w_chars w) < 2 ^ 62"
    and pos: "length pos = length (w_starts w)" "list_all int32 pos"
  shows "ok (substr_poss (w_starts w) (w_lens w) pos) (\<lambda>r. \<exists>st. r = Inr st \<and>
     respanned w (\<lambda>i. suffix_spec (pos ! i) (words_of w ! i)) st)"
proof -
  have "ok (for_each (\<lambda>i st. do { p \<leftarrow> rd pos i; update_word (if p \<ge> 0 then suffix_front_signed p else suffix_back p) i st })
          [0..<length (w_starts w)] (w_starts w, w_lens w))
    (\<lambda>st. respanned w (\<lambda>i. suffix_spec (pos ! i) (words_of w ! i)) st)"
    by (rule suffix_spans [OF w refl _ disjI2 [OF refl]]) (use pos in \<open>auto simp: list_all_length\<close>)
  then show ?thesis using pos by (auto simp: substr_poss_def ok_iff_ex)
qed

lemma substr_pos_ok:
  assumes w: "words_ok w" "length (w_chars w) < 2 ^ 62" and pos: "int32 pos"
  shows "ok (substr_pos (w_starts w) (w_lens w) pos) (\<lambda>st.
     respanned w (\<lambda>i. suffix_spec pos (words_of w ! i)) st)"
  unfolding substr_pos_def by (rule suffix_spans [OF w refl _ disjI1 [OF refl]]) (use pos in simp_all)

text \<open>
  The ranges \<open>(P i, N i)\<close> that do not end before the first character of the array; within them
  \<open>substr_result\<close> is \<open>substr_spec\<close>.
\<close>

definition ends_inside :: "words \<Rightarrow> (nat \<Rightarrow> int) \<Rightarrow> (nat \<Rightarrow> int) \<Rightarrow> bool" where
  "ends_inside w P N \<longleftrightarrow> list_all (\<lambda>i. 0 \<le> P i \<or> N i < 0 \<or>
     0 \<le> int (w_starts w ! i) + int (w_lens w ! i) + P i + N i) [0..<length (w_starts w)]"

lemma respanned_inside:
  assumes "words_ok w" "ends_inside w P N" "respanned w (\<lambda>i. substr_result (P i) (N i) (w_starts w ! i) (words_of w ! i)) st"
  shows "respanned w (\<lambda>i. substr_spec (P i) (N i) (words_of w ! i)) st"
proof -
  have "substr_result (P i) (N i) (w_starts w ! i) (words_of w ! i) = substr_spec (P i) (N i) (words_of w ! i)"
    if "i < length (w_starts w)" for i
  proof -
    have "0 \<le> P i \<or> N i < 0 \<or> 0 \<le> int (w_starts w ! i) + int (w_lens w ! i) + P i + N i"
      using assms(2) that by (simp add: ends_inside_def list_all_iff)
    then show ?thesis using length_nth_words_of [OF assms(1) that] unfolding substr_result_def by (intro if_not_P) linarith
  qed
  then have "map (\<lambda>i. substr_result (P i) (N i) (w_starts w ! i) (words_of w ! i)) [0..<length (w_starts w)] =
      map (\<lambda>i. substr_spec (P i) (N i) (words_of w ! i)) [0..<length (w_starts w)]" by simp
  then show ?thesis using assms(3) unfolding respanned_def by simp
qed

text \<open>
  The others: the word \<open>ab\<close> at the start of an array, no character from the third last on.  The whole word
  comes back; the same range of the word behind it is empty, as it should be.
\<close>

lemma substr_before_array: "substr_num [0, 2] [2, 2] (-3) 0 = Some ([0, 2], [2, 0])"
proof -
  have b: "substr_back (-3) 0 0 2 = (0, 2)" "substr_back (-3) 0 2 2 = (2, 0)"
    unfolding substr_back_def Let_def u64_def by simp_all
  have u: "[0..<length [0, 2 :: nat]] = [0, 1]" by (simp add: upt_rec)
  show ?thesis
    unfolding substr_num_def Let_def u for_each.simps update_word_def prod.case rd_def wr_def
    by (simp add: b)
qed

end
