(* ===== verification/WordsBasic.thy ===== *)
theory WordsBasic
  imports WordsSubstr
begin

text \<open>
  What merging, the conversions of characters and the reversal of text/words.cc compute, on the list
  of words of a column.
\<close>

subsection \<open>Filling an array\<close>

lemma copy_mapped:
  "for_each (\<lambda>i d. do { x \<leftarrow> rd src i; wr d (b + i) (f x) }) [0..<n] dst = copy_cells (map f src) 0 dst b n"
  unfolding copy_cells_def by (rule for_each_cong) (simp add: rd_def)

lemma fill_mapped:
  assumes "length dst = length src"
  shows "for_each (\<lambda>i d. do { x \<leftarrow> rd src i; wr d i (f x) }) [0..<length src] dst = Some (map f src)"
  using copy_mapped [of src 0 f "length src" dst] copy_cells_eq [of 0 "length src" "map f src" 0 dst] assms by simp

lemma fill_indexed:
  assumes "length dst = n" "\<And>i d. i < n \<Longrightarrow> g i d = wr d i (f i)"
  shows "for_each g [0..<n] dst = Some (map f [0..<n])"
proof -
  have "for_each g [0..<n] dst = for_each (\<lambda>i d. do { x \<leftarrow> rd [0..<n] i; wr d i (f x) }) [0..<length [0..<n]] dst"
    using assms(2) by (auto intro!: for_each_cong)
  then show ?thesis using fill_mapped [of dst "[0..<n]" f] assms(1) by simp
qed

subsection \<open>Merging columns\<close>

definition join_words :: "words \<Rightarrow> words \<Rightarrow> words" where
  "join_words a b = \<lparr>w_chars = w_chars a @ w_chars b,
     w_starts = w_starts a @ map (\<lambda>s. s + length (w_chars a)) (w_starts b), w_lens = w_lens a @ w_lens b\<rparr>"

lemma words_ok_alt:
  "words_ok w \<longleftrightarrow> length (w_lens w) = length (w_starts w) \<and>
     (\<forall>(s, l)\<in>set (zip (w_starts w) (w_lens w)). s + l \<le> length (w_chars w))"
  unfolding words_ok_def all_set_conv_all_nth by (auto simp: min_def)

lemma word_at_append:
  "s + l \<le> length xs \<Longrightarrow> word_at (xs @ ys) (s, l) = word_at xs (s, l)"
  "word_at (xs @ ys) (s + length xs, l) = word_at ys (s, l)"
  by (simp_all add: word_at_def)

lemma zip_join:
  "words_ok a \<Longrightarrow> zip (w_starts (join_words a b)) (w_lens (join_words a b)) =
    zip (w_starts a) (w_lens a) @ map (\<lambda>(s, l). (s + length (w_chars a), l)) (zip (w_starts b) (w_lens b))"
  by (simp add: join_words_def words_ok_alt zip_map1)

lemma words_ok_join: "words_ok a \<Longrightarrow> words_ok b \<Longrightarrow> words_ok (join_words a b)"
  unfolding words_ok_alt [of "join_words a b"] by (subst zip_join) (auto simp: words_ok_alt join_words_def)

lemma words_of_join:
  assumes "words_ok a" "words_ok b"
  shows "words_of (join_words a b) = words_of a @ words_of b"
proof -
  have "words_of (join_words a b) = map (word_at (w_chars a @ w_chars b)) (zip (w_starts a) (w_lens a)) @
      map (\<lambda>(s, l). word_at (w_chars a @ w_chars b) (s + length (w_chars a), l)) (zip (w_starts b) (w_lens b))"
    unfolding words_of_word_at zip_join [OF assms(1)] by (simp add: join_words_def comp_def case_prod_beta')
  also have "map (word_at (w_chars a @ w_chars b)) (zip (w_starts a) (w_lens a)) = words_of a"
    unfolding words_of_word_at using assms(1) by (auto simp: words_ok_alt word_at_append)
  also have "map (\<lambda>(s, l). word_at (w_chars a @ w_chars b) (s + length (w_chars a), l)) (zip (w_starts b) (w_lens b)) = words_of b"
    unfolding words_of_word_at by (simp add: word_at_append case_prod_beta')
  finally show ?thesis .
qed

lemma merge_words_eq:
  assumes "words_ok a" "words_ok b"
  shows "merge_words a b = Some (join_words a b)"
  using assms by (simp add: merge_words_def copy_mapped copy_cells_eq words_ok_def join_words_def)

definition no_words :: words where
  "no_words = \<lparr>w_chars = [], w_starts = [], w_lens = []\<rparr>"

lemma words_ok_join_all: "\<forall>w\<in>set ws. words_ok w \<Longrightarrow> words_ok (foldr join_words ws no_words)"
  by (induction ws) (simp_all add: words_ok_join, simp add: words_ok_def no_words_def)

lemma words_of_join_all: "\<forall>w\<in>set ws. words_ok w \<Longrightarrow> words_of (foldr join_words ws no_words) = concat (map words_of ws)"
  by (induction ws) (simp_all add: words_of_join words_ok_join_all, simp add: words_of_def no_words_def)

lemma join_words_no_words [simp]: "join_words w no_words = w" "join_words no_words w = w"
  by (simp_all add: join_words_def no_words_def)

lemma join_words_assoc: "join_words (join_words a b) c = join_words a (join_words b c)"
  by (simp add: join_words_def add.assoc add.commute)

lemma join_all_snoc: "foldr join_words (ws @ [w]) no_words = join_words (foldr join_words ws no_words) w"
  by (induction ws) (simp_all add: join_words_assoc)

text \<open>Blocks copied one behind the other.\<close>

lemma append_blocks_step:
  assumes "k < length ws" "d = concat (map f (take k ws)) @ replicate (sum_list (map (length \<circ> f) (drop k ws))) z"
  shows "copy_cells (f (ws ! k)) 0 d (length (concat (map f (take k ws)))) (length (f (ws ! k))) =
    Some (concat (map f (take (Suc k) ws)) @ replicate (sum_list (map (length \<circ> f) (drop (Suc k) ws))) z)"
proof -
  have d: "drop k ws = ws ! k # drop (Suc k) ws" using assms(1) by (simp add: Cons_nth_drop_Suc)
  show ?thesis using assms by (simp add: copy_cells_eq d take_Suc_conv_app_nth)
qed

lemma join_all_eq:
  "w_chars (foldr join_words ws no_words) = concat (map w_chars ws)"
  "w_lens (foldr join_words ws no_words) = concat (map w_lens ws)"
  "length (w_starts (foldr join_words ws no_words)) = sum_list (map (length \<circ> w_starts) ws)"
  by (induction ws) (simp_all add: join_words_def no_words_def)

lemma chars_blocks:
  "for_each (\<lambda>i (p, d). do { w \<leftarrow> rd ws i; d \<leftarrow> copy_cells (f w) 0 d p (length (f w)); Some (p + length (f w), d) })
     [0..<length ws] (0, replicate (sum_list (map (length \<circ> f) ws)) z)
    = Some (length (concat (map f ws)), concat (map f ws))"
proof -
  let ?I = "\<lambda>k (p, d). p = length (concat (map f (take k ws))) \<and>
    d = concat (map f (take k ws)) @ replicate (sum_list (map (length \<circ> f) (drop k ws))) z"
  have "ok (for_each (\<lambda>i (p, d). do { w \<leftarrow> rd ws i; d \<leftarrow> copy_cells (f w) 0 d p (length (f w)); Some (p + length (f w), d) })
     [0..<length ws] (0, replicate (sum_list (map (length \<circ> f) ws)) z)) (?I (length ws))"
  proof (rule ok_for_range [where I = ?I])
    fix k st assume "0 \<le> k" "k < length ws" "?I k st"
    then show "ok ((\<lambda>(p, d). do { w \<leftarrow> rd ws k; d \<leftarrow> copy_cells (f w) 0 d p (length (f w)); Some (p + length (f w), d) }) st) (?I (Suc k))"
      using append_blocks_step [of k ws _ f z] by (auto simp: take_Suc_conv_app_nth)
  qed simp_all
  then show ?thesis by (auto simp: ok_iff_ex)
qed

lemma join_all_take_Suc:
  "k < length ws \<Longrightarrow> foldr join_words (take (Suc k) ws) no_words = join_words (foldr join_words (take k ws) no_words) (ws ! k)"
  by (simp add: take_Suc_conv_app_nth join_all_snoc del: foldr_append)

lemma starts_blocks:
  "for_each (\<lambda>i (p, shift, starts). do {
         w \<leftarrow> rd ws i;
         starts \<leftarrow> for_each (\<lambda>j starts. do { s \<leftarrow> rd (w_starts w) j; wr starts (p + j) (s + shift) })
           [0..<length (w_starts w)] starts;
         Some (p + length (w_starts w), shift + length (w_chars w), starts) })
     [0..<length ws] (0, 0, replicate (sum_list (map (length \<circ> w_starts) ws)) 0)
    = Some (sum_list (map (length \<circ> w_starts) ws), length (concat (map w_chars ws)), w_starts (foldr join_words ws no_words))"
    (is "for_each ?body _ _ = _")
proof -
  let ?J = "\<lambda>k. foldr join_words (take k ws) no_words"
  let ?I = "\<lambda>k (p, shift, d). p = length (w_starts (?J k)) \<and> shift = length (w_chars (?J k)) \<and>
    d = w_starts (?J k) @ replicate (sum_list (map (length \<circ> w_starts) (drop k ws))) 0"
  have "ok (for_each ?body [0..<length ws] (0, 0, replicate (sum_list (map (length \<circ> w_starts) ws)) 0)) (?I (length ws))"
  proof (rule ok_for_range [where I = ?I])
    show "?I 0 (0, 0, replicate (sum_list (map (length \<circ> w_starts) ws)) 0)" by (simp add: no_words_def)
    fix k st assume k: "0 \<le> k" "k < length ws" and st: "?I k st"
    have d: "drop k ws = ws ! k # drop (Suc k) ws" using k by (simp add: Cons_nth_drop_Suc)
    show "ok (?body k st) (?I (Suc k))"
      using st k unfolding join_all_take_Suc [OF k(2)] by (auto simp: copy_mapped copy_cells_eq d join_words_def)
  qed simp_all
  then show ?thesis by (auto simp: ok_iff_ex join_all_eq)
qed

lemma merge_multi_words_eq:
  assumes "\<forall>w\<in>set ws. words_ok w"
  shows "merge_multi_words ws = Some (foldr join_words ws no_words)"
proof -
  have totals: "for_each (\<lambda>i (c, k). do { w \<leftarrow> rd ws i; Some (c + length (w_chars w), k + length (w_starts w)) })
      [0..<length ws] (0, 0) = Some (sum_list (map (length \<circ> w_chars) ws), sum_list (map (length \<circ> w_starts) ws))"
    (is "for_each ?body _ _ = _")
  proof -
    let ?I = "\<lambda>k st. st = (sum_list (map (length \<circ> w_chars) (take k ws)), sum_list (map (length \<circ> w_starts) (take k ws)))"
    have "ok (for_each ?body [0..<length ws] (0, 0)) (?I (length ws))"
      by (rule ok_for_range [where I = ?I]) (simp_all add: take_Suc_conv_app_nth)
    then show ?thesis by (simp add: ok_eq)
  qed
  have "map (length \<circ> w_lens) ws = map (length \<circ> w_starts) ws" using assms by (simp add: words_ok_def)
  note lens = chars_blocks [of ws w_lens 0, unfolded this]
  have "merge_multi_words ws = Some \<lparr>w_chars = concat (map w_chars ws),
      w_starts = w_starts (foldr join_words ws no_words), w_lens = concat (map w_lens ws)\<rparr>"
    by (simp add: merge_multi_words_def totals chars_blocks starts_blocks lens)
  then show ?thesis by (simp add: join_all_eq [symmetric])
qed

subsection \<open>Characters\<close>

lemma map_chars_eq: "map_chars f chars = Some (map f chars)"
  unfolding map_chars_def by (rule fill_mapped) simp

definition with_chars :: "words \<Rightarrow> int list \<Rightarrow> words" where
  "with_chars w chars = \<lparr>w_chars = chars, w_starts = w_starts w, w_lens = w_lens w\<rparr>"

lemma words_ok_with_chars: "words_ok w \<Longrightarrow> length chars = length (w_chars w) \<Longrightarrow> words_ok (with_chars w chars)"
  by (simp add: words_ok_def with_chars_def)

lemma words_of_mapped: "words_of (with_chars w (map f (w_chars w))) = map (map f) (words_of w)"
  by (simp add: words_of_word_at with_chars_def word_at_def take_map drop_map)

lemma tolower_words_eq: "tolower_words w = Some (with_chars w (map tolower_char (w_chars w)))"
  by (simp add: tolower_words_def map_chars_eq with_chars_def)

lemma toupper_words_eq: "toupper_words w = Some (with_chars w (map toupper_char (w_chars w)))"
  by (simp add: toupper_words_def map_chars_eq with_chars_def)

lemma map_words_of: "words_ok w \<Longrightarrow> map f (words_of w) = map (\<lambda>i. f (words_of w ! i)) [0..<length (w_starts w)]"
  by (rule nth_equalityI) simp_all

lemma ascii_eq:
  assumes "words_ok w"
  shows "ascii w = Some (map (\<lambda>u. if u = [] then 0 else hd u) (words_of w))"
  unfolding ascii_def map_words_of [OF assms]
  by (subst omap_Some [where g = "\<lambda>i. if words_of w ! i = [] then 0 else hd (words_of w ! i)"])
    (use assms in \<open>auto simp: words_ok_def nth_words_of word_at_def hd_drop_conv_nth\<close>)

lemma word_at_rev:
  assumes "s + l \<le> length xs"
  shows "word_at (rev xs) (length xs - s - l, l) = rev (word_at xs (s, l))"
proof -
  have "drop (length xs - (s + l)) (rev xs) = rev (take (s + l) xs)" using assms by (simp add: rev_take)
  moreover have "take l (rev (take (s + l) xs)) = rev (drop s (take (s + l) xs))"
    using assms by (simp add: take_rev)
  ultimately show ?thesis by (simp add: word_at_def drop_take)
qed

definition reversed :: "words \<Rightarrow> words" where
  "reversed w = \<lparr>w_chars = rev (w_chars w),
     w_starts = map (\<lambda>i. length (w_chars w) - w_starts w ! i - w_lens w ! i) [0..<length (w_starts w)], w_lens = w_lens w\<rparr>"

lemma reverse_words_eq:
  assumes "words_ok w" "length (w_chars w) < 2 ^ 62"
  shows "reverse_words w = Some (reversed w)"
proof -
  have "for_each (\<lambda>i ret. do { ch \<leftarrow> rd (w_chars w) (length (w_chars w) - 1 - i); wr ret i ch })
      [0..<length (w_chars w)] (replicate (length (w_chars w)) 0)
      = Some (map (\<lambda>i. w_chars w ! (length (w_chars w) - 1 - i)) [0..<length (w_chars w)])"
    by (rule fill_indexed) auto
  also have "map (\<lambda>i. w_chars w ! (length (w_chars w) - 1 - i)) [0..<length (w_chars w)] = rev (w_chars w)"
    by (rule nth_equalityI) (simp_all add: rev_nth)
  finally have chars: "for_each (\<lambda>i ret. do { ch \<leftarrow> rd (w_chars w) (length (w_chars w) - 1 - i); wr ret i ch })
      [0..<length (w_chars w)] (replicate (length (w_chars w)) 0) = Some (rev (w_chars w))" .
  have u: "u64 (int (length (w_chars w)) - int (w_starts w ! i) - int (w_lens w ! i)) =
      length (w_chars w) - w_starts w ! i - w_lens w ! i" if "i < length (w_starts w)" for i
  proof -
    have "w_starts w ! i + w_lens w ! i \<le> length (w_chars w)" using assms that by (simp add: words_ok_def)
    then show ?thesis using assms(2) by (subst u64_id) auto
  qed
  have "omap (\<lambda>i. do { s \<leftarrow> rd (w_starts w) i; l \<leftarrow> rd (w_lens w) i;
      Some (u64 (int (length (w_chars w)) - int s - int l)) }) [0..<length (w_starts w)] =
    Some (map (\<lambda>i. length (w_chars w) - w_starts w ! i - w_lens w ! i) [0..<length (w_starts w)])"
    by (rule omap_Some) (use assms u in \<open>auto simp: words_ok_def\<close>)
  then show ?thesis using chars by (simp add: reverse_words_def reversed_def)
qed

lemma words_reversed:
  assumes "words_ok w"
  shows "words_ok (reversed w) \<and> words_of (reversed w) = map rev (words_of w)"
proof
  show ok: "words_ok (reversed w)" using assms by (auto simp: words_ok_def reversed_def)
  show "words_of (reversed w) = map rev (words_of w)"
  proof (rule nth_equalityI)
    show "length (words_of (reversed w)) = length (map rev (words_of w))"
      using assms ok by (simp add: reversed_def)
    fix i assume "i < length (words_of (reversed w))"
    then have i: "i < length (w_starts w)" "i < length (w_lens w)" "w_starts w ! i + w_lens w ! i \<le> length (w_chars w)"
      using assms ok by (auto simp: reversed_def words_ok_def)
    then have "words_of (reversed w) ! i =
        word_at (rev (w_chars w)) (length (w_chars w) - w_starts w ! i - w_lens w ! i, w_lens w ! i)"
      by (subst nth_words_of) (simp_all add: reversed_def)
    then show "words_of (reversed w) ! i = map rev (words_of w) ! i"
      using i assms word_at_rev [OF i(3)] by (simp add: nth_words_of)
  qed
qed

subsection \<open>Capital letters\<close>

fun capitalised :: "bool \<Rightarrow> int list \<Rightarrow> int list" where
  "capitalised up [] = []"
| "capitalised up (ch # chs) = (if up then toupper_char ch else tolower_char ch) # capitalised (ch = 32) chs"

definition capped :: "nat set \<Rightarrow> int list \<Rightarrow> int list" where
  "capped D chars = map (\<lambda>p. if p \<in> D then toupper_char (chars ! p) else tolower_char (chars ! p)) [0..<length chars]"

lemma length_capped [simp]: "length (capped D chars) = length chars"
  by (simp add: capped_def)

lemma nth_capped:
  "p < length chars \<Longrightarrow> capped D chars ! p = (if p \<in> D then toupper_char (chars ! p) else tolower_char (chars ! p))"
  by (simp add: capped_def)

lemma capital_at_capped:
  assumes "p < length chars"
  shows "capital_at p (capped D chars) = Some (capped (insert p D) chars)"
proof -
  let ?c = "capped D chars ! p"
  let ?v = "if ?c \<ge> 97 \<and> ?c \<le> 122 then ?c - (97 - 65) else ?c"
  have v: "?v = toupper_char (chars ! p)"
    using assms by (auto simp: nth_capped toupper_char_def tolower_char_def)
  have "(capped D chars)[p := ?v] = capped (insert p D) chars"
  proof (rule nth_equalityI)
    fix i assume "i < length ((capped D chars)[p := ?v])"
    then show "(capped D chars)[p := ?v] ! i = capped (insert p D) chars ! i"
      using v assms by (cases "i = p") (simp_all add: nth_capped)
  qed simp
  then show ?thesis using assms by (auto simp: capital_at_def)
qed

lemma capital_loop:
  assumes "\<And>i. i < n \<Longrightarrow> f i < length chars"
  shows "for_each (\<lambda>i c. capital_at (f i) c) [0..<n] (capped D chars) = Some (capped (D \<union> f ` {0..<n}) chars)"
proof -
  have "ok (for_each (\<lambda>i c. capital_at (f i) c) [0..<n] (capped D chars)) (\<lambda>c. c = capped (D \<union> f ` {0..<n}) chars)"
    by (rule ok_for_range [where I = "\<lambda>k c. c = capped (D \<union> f ` {0..<k}) chars"])
      (simp_all add: capital_at_capped assms atLeast0_lessThan_Suc)
  then show ?thesis by (simp add: ok_eq)
qed

definition capital_positions :: "words \<Rightarrow> nat set" where
  "capital_positions w =
     {w_starts w ! i |i. i < length (w_starts w) \<and> w_lens w ! i \<noteq> 0} \<union>
     {p. 0 < p \<and> p < length (w_chars w) \<and> w_chars w ! (p - 1) = 32}"

text \<open>The positions behind a space, as the code cuts them: without a space at the very end.\<close>

lemma behind_spaces:
  assumes pos: "pos = filter (\<lambda>i. P i) [0..<n]" "pos \<noteq> []"
    and t: "t = (if pos ! (length pos - 1) = n - 1 then length pos - 1 else length pos)"
  shows "(\<lambda>i. pos ! i + 1) ` {0..<t} = {p. 0 < p \<and> p < n \<and> P (p - 1)}"
proof
  have d: "distinct pos" "sorted pos" "set pos = {i. i < n \<and> P i}" using pos(1) by (auto simp: sorted_wrt_filter)
  have len: "0 < length pos" using pos(2) by simp
  show "(\<lambda>i. pos ! i + 1) ` {0..<t} \<subseteq> {p. 0 < p \<and> p < n \<and> P (p - 1)}"
  proof
    fix p assume "p \<in> (\<lambda>i. pos ! i + 1) ` {0..<t}"
    then obtain i where i: "i < t" "p = pos ! i + 1" by auto
    have il: "i < length pos" using i(1) t by (auto split: if_splits)
    then have in_pos: "pos ! i < n" "P (pos ! i)" using d(3) nth_mem by blast+
    have "pos ! i \<noteq> n - 1"
    proof
      assume last: "pos ! i = n - 1"
      have "pos ! (length pos - 1) < n" using d(3) len nth_mem [of "length pos - 1" pos] by auto
      moreover have "pos ! i \<le> pos ! (length pos - 1)" using sorted_nth_mono [OF d(2)] il by simp
      ultimately have eq: "pos ! (length pos - 1) = n - 1" using last by simp
      have "pos ! i = pos ! (length pos - 1)" by (rule trans [OF last eq [symmetric]])
      moreover have "length pos - 1 < length pos" using len by simp
      ultimately have "i = length pos - 1" using nth_eq_iff_index_eq [OF d(1) il, of "length pos - 1"] by (simp only:)
      then show False using i(1) t eq by simp
    qed
    then show "p \<in> {p. 0 < p \<and> p < n \<and> P (p - 1)}" using in_pos i(2) by auto
  qed
  show "{p. 0 < p \<and> p < n \<and> P (p - 1)} \<subseteq> (\<lambda>i. pos ! i + 1) ` {0..<t}"
  proof
    fix p assume p: "p \<in> {p. 0 < p \<and> p < n \<and> P (p - 1)}"
    then have p': "p < n" "P (p - 1)" by simp_all
    then have "p - 1 < n" by linarith
    with p'(2) have "p - 1 \<in> set pos" unfolding d(3) by blast
    then obtain i where i: "i < length pos" "pos ! i = p - 1" by (metis in_set_conv_nth)
    have "i < t"
    proof (rule ccontr)
      assume "\<not> i < t"
      then have "pos ! (length pos - 1) = n - 1 \<and> i = length pos - 1" using i(1) t by (auto split: if_splits)
      then show False using i(2) p by auto
    qed
    then show "p \<in> (\<lambda>i. pos ! i + 1) ` {0..<t}" using i p by (intro image_eqI [of _ _ i]) auto
  qed
qed

lemma initcap_eq:
  assumes "words_ok w" "wf_cfg c"
  shows "initcap c w = Some (with_chars w (capped (capital_positions w) (w_chars w)))"
proof -
  let ?chars = "w_chars w" and ?n = "length (w_starts w)"
  let ?D = "\<lambda>k. {w_starts w ! i |i. i < k \<and> w_lens w ! i \<noteq> 0}"
  let ?pos = "filter (\<lambda>i. is_eq 32 (?chars ! i)) [0..<length ?chars]"
  let ?t = "if ?pos ! (length ?pos - 1) = length ?chars - 1 then length ?pos - 1 else length ?pos"
  have low: "map_chars tolower_char ?chars = Some (capped (?D 0) ?chars)"
    unfolding map_chars_eq by (auto intro: nth_equalityI simp: nth_capped)
  have "ok (for_each (\<lambda>i chars. do { l \<leftarrow> rd (w_lens w) i; if l \<noteq> 0 then do { s \<leftarrow> rd (w_starts w) i; capital_at s chars } else Some chars })
       [0..<length (w_lens w)] (capped (?D 0) ?chars)) (\<lambda>c. c = capped (?D (length (w_lens w))) ?chars)"
  proof (rule ok_for_range [where I = "\<lambda>k c. c = capped (?D k) ?chars"])
    fix k c assume k: "k < length (w_lens w)" and c: "c = capped (?D k) ?chars"
    have D: "?D (Suc k) = (if w_lens w ! k = 0 then ?D k else insert (w_starts w ! k) (?D k))"
      by (auto simp: less_Suc_eq)
    have in_range: "w_starts w ! k < length ?chars" if "w_lens w ! k \<noteq> 0"
    proof -
      have "w_starts w ! k + w_lens w ! k \<le> length ?chars" using assms(1) k by (simp add: words_ok_def)
      then show ?thesis using that by linarith
    qed
    have k': "k < length (w_starts w)" using assms(1) k by (simp add: words_ok_def)
    show "ok (do { l \<leftarrow> rd (w_lens w) k; if l \<noteq> 0 then do { s \<leftarrow> rd (w_starts w) k; capital_at s c } else Some c }) (\<lambda>c. c = capped (?D (Suc k)) ?chars)"
      using k k' c in_range by (simp add: D capital_at_capped del: neq0_conv)
  qed simp_all
  then have caps: "for_each (\<lambda>i chars. do { l \<leftarrow> rd (w_lens w) i; if l \<noteq> 0 then do { s \<leftarrow> rd (w_starts w) i; capital_at s chars } else Some chars })
       [0..<length (w_lens w)] (capped (?D 0) ?chars) = Some (capped (?D ?n) ?chars)"
    using assms(1) by (simp add: ok_eq words_ok_def)
  have found: "vector_find_eq c 4 ?chars 32 = Some ?pos"
    unfolding vector_find_eq_def by (rule vector_find_or_empty [OF assms(2)])
  have spaces: "(if length ?pos = 0 then Some (capped (?D ?n) ?chars) else do {
         p \<leftarrow> rd ?pos (length ?pos - 1);
         let tsize = (if p = length ?chars - 1 then length ?pos - 1 else length ?pos);
         for_each (\<lambda>i chars. do { p \<leftarrow> rd ?pos i; capital_at (p + 1) chars }) [0..<tsize] (capped (?D ?n) ?chars) })
    = Some (capped (capital_positions w) ?chars)"
  proof (cases "?pos = []")
    case True
    then have "\<forall>p<length ?chars. ?chars ! p \<noteq> 32" by (auto simp: filter_empty_conv is_eq_def)
    then have none: "\<not> (0 < p \<and> p < length ?chars \<and> ?chars ! (p - 1) = 32)" for p
      by (metis less_imp_diff_less)
    have "capital_positions w = ?D ?n" unfolding capital_positions_def using none by blast
    then show ?thesis using True by simp
  next
    case False
    note b = behind_spaces [OF refl False refl]
    have tl: "?t \<le> length ?pos" by simp
    have "for_each (\<lambda>i chars. do { p \<leftarrow> rd ?pos i; capital_at (p + 1) chars }) [0..<?t] (capped (?D ?n) ?chars) =
        for_each (\<lambda>i chars. capital_at (?pos ! i + 1) chars) [0..<?t] (capped (?D ?n) ?chars)"
      using tl by (intro for_each_cong) (auto split: if_splits)
    also have "\<dots> = Some (capped (?D ?n \<union> (\<lambda>i. ?pos ! i + 1) ` {0..<?t}) ?chars)"
    proof (rule capital_loop)
      fix i assume "i < ?t"
      then have "?pos ! i + 1 \<in> (\<lambda>i. ?pos ! i + 1) ` {0..<?t}" by simp
      then show "?pos ! i + 1 < length ?chars" unfolding b by simp
    qed
    also have "?D ?n \<union> (\<lambda>i. ?pos ! i + 1) ` {0..<?t} = capital_positions w"
      unfolding b capital_positions_def by (simp add: is_eq_def)
    finally show ?thesis using False by (simp add: Let_def)
  qed
  show ?thesis unfolding initcap_def low
    by (simp only: bind.bind_lunit caps found spaces [unfolded Let_def] Let_def with_chars_def)
qed

text \<open>Words that do not share characters (an empty word shares none).\<close>

definition disjoint_words :: "words \<Rightarrow> bool" where
  "disjoint_words w \<longleftrightarrow> (\<forall>i<length (w_starts w). \<forall>j<length (w_starts w). i \<noteq> j \<longrightarrow>
     w_lens w ! i = 0 \<or> w_lens w ! j = 0 \<or>
     w_starts w ! i + w_lens w ! i \<le> w_starts w ! j \<or> w_starts w ! j + w_lens w ! j \<le> w_starts w ! i)"

lemma length_capitalised [simp]: "length (capitalised up u) = length u"
  by (induction u arbitrary: up) simp_all

lemma nth_capitalised:
  "k < length u \<Longrightarrow> capitalised up u ! k =
    (if (k = 0 \<and> up) \<or> (0 < k \<and> u ! (k - 1) = 32) then toupper_char (u ! k) else tolower_char (u ! k))"
proof (induction u arbitrary: k up)
  case (Cons ch u)
  then show ?case by (cases k; cases "k - 1") (auto simp: nth_Cons')
qed simp

lemma capital_inside:
  assumes "disjoint_words w" "i < length (w_starts w)" "k < w_lens w ! i" "w_starts w ! i + w_lens w ! i \<le> length (w_chars w)"
  shows "w_starts w ! i + k \<in> capital_positions w \<longleftrightarrow> k = 0 \<or> w_chars w ! (w_starts w ! i + k - 1) = 32"
proof (cases "k = 0")
  case True
  have "w_starts w ! i + 0 \<in> capital_positions w" using assms(2,3) by (auto simp: capital_positions_def)
  then show ?thesis using True by simp
next
  case False
  have "j = i" if "j < length (w_starts w)" "w_lens w ! j \<noteq> 0" "w_starts w ! i + k = w_starts w ! j" for j
  proof (rule ccontr)
    assume "j \<noteq> i"
    then have "w_lens w ! i = 0 \<or> w_lens w ! j = 0 \<or>
       w_starts w ! i + w_lens w ! i \<le> w_starts w ! j \<or> w_starts w ! j + w_lens w ! j \<le> w_starts w ! i"
      using assms(1,2) that(1) by (auto simp: disjoint_words_def)
    then show False using that assms(3) False by linarith
  qed
  then have "w_starts w ! i + k \<noteq> w_starts w ! j" if "j < length (w_starts w)" "w_lens w ! j \<noteq> 0" for j
    using that False by fastforce
  then have "w_starts w ! i + k \<notin> {w_starts w ! i |i. i < length (w_starts w) \<and> w_lens w ! i \<noteq> 0}" by blast
  then show ?thesis using False assms(3,4) by (auto simp: capital_positions_def)
qed

lemma words_of_capped:
  assumes "words_ok w" "disjoint_words w"
  shows "words_of (with_chars w (capped (capital_positions w) (w_chars w))) = map (capitalised True) (words_of w)"
proof (rule nth_equalityI)
  have ok: "words_ok (with_chars w (capped (capital_positions w) (w_chars w)))"
    using assms(1) by (simp add: words_ok_with_chars)
  show len: "length (words_of (with_chars w (capped (capital_positions w) (w_chars w)))) = length (map (capitalised True) (words_of w))"
    using assms(1) ok by (simp add: with_chars_def)
  fix i assume i': "i < length (words_of (with_chars w (capped (capital_positions w) (w_chars w))))"
  then have i: "i < length (w_starts w)" "i < length (w_lens w)" "w_starts w ! i + w_lens w ! i \<le> length (w_chars w)"
    using assms(1) ok by (auto simp: with_chars_def words_ok_def)
  let ?u = "words_of w ! i"
  have u: "length ?u = w_lens w ! i" "\<And>k. k < w_lens w ! i \<Longrightarrow> ?u ! k = w_chars w ! (w_starts w ! i + k)"
    using i by (simp_all add: nth_words_of word_at_def)
  have "word_at (capped (capital_positions w) (w_chars w)) (w_starts w ! i, w_lens w ! i) = capitalised True ?u"
  proof (rule nth_equalityI)
    show "length (word_at (capped (capital_positions w) (w_chars w)) (w_starts w ! i, w_lens w ! i)) = length (capitalised True ?u)"
      using i u by (simp add: word_at_def)
    fix k assume "k < length (word_at (capped (capital_positions w) (w_chars w)) (w_starts w ! i, w_lens w ! i))"
    then have k: "k < w_lens w ! i" using i by (simp add: word_at_def)
    then show "word_at (capped (capital_positions w) (w_chars w)) (w_starts w ! i, w_lens w ! i) ! k = capitalised True ?u ! k"
      using i u capital_inside [OF assms(2) i(1) k i(3)]
      by (cases k) (auto simp: word_at_def nth_capped nth_capitalised)
  qed
  then show "words_of (with_chars w (capped (capital_positions w) (w_chars w))) ! i = map (capitalised True) (words_of w) ! i"
    using i i' len by (simp add: nth_words_of with_chars_def)
qed

subsection \<open>Dropping empty words\<close>

lemma words_each_le: "words_each V n * V \<le> n"
proof -
  have "words_each V n \<le> n div V" by (simp add: words_each_def Let_def)
  then have "words_each V n * V \<le> n div V * V" by (rule mult_le_mono1)
  also have "\<dots> \<le> n" by simp
  finally show ?thesis .
qed

text \<open>The sequential scan: hits are pushed one behind the other.\<close>

lemma push_hits:
  assumes "\<And>i. i < n \<Longrightarrow> visit i = Some ((), emit i)" "n \<le> length room"
  shows "\<exists>buf. for_each (\<lambda>i (current, buf). do {
            (_, out) \<leftarrow> visit i;
            case out of None \<Rightarrow> Some (current, buf)
            | Some v \<Rightarrow> do { buf \<leftarrow> wr buf current v; Some (current + 1, buf) } }) [0..<n] (0, room)
      = Some (length (hits emit [0..<n]), buf) \<and> take (length (hits emit [0..<n])) buf = hits emit [0..<n] \<and> length buf = length room"
    (is "\<exists>buf. for_each ?body _ _ = _ \<and> _")
proof -
  let ?h = "\<lambda>k. hits emit [0..<k]"
  let ?I = "\<lambda>k (current, buf). current = length (?h k) \<and> length buf = length room \<and> take current buf = ?h k"
  have "ok (for_each ?body [0..<n] (0, room)) (?I n)"
  proof (rule ok_for_range [where I = ?I])
    fix k st assume k: "0 \<le> k" "k < n" and st: "?I k st"
    have "length (?h k) \<le> k" using length_hits [of emit "[0..<k]"] by simp
    then show "ok (?body k st) (?I (Suc k))"
      using st k assms(1) [of k] assms(2) by (auto simp: ok_simps take_Suc_conv_app_nth split: option.splits)
  qed simp_all
  then obtain st where "for_each ?body [0..<n] (0, room) = Some st" "?I n st" by (rule okE)
  then show ?thesis by (intro exI [of _ "snd st"]) (cases st, simp)
qed

lemma null_commit_eq:
  "length lens = length starts \<Longrightarrow> i < length starts \<Longrightarrow> null_commit starts lens i flag s =
    Some ((), if snd (zip starts lens ! i) \<noteq> 0 then Some (zip starts lens ! i) else None)"
  by (simp add: null_commit_def)

lemma hits_nth: "hits (\<lambda>i. if P (xs ! i) then Some (xs ! i) else None) [0..<length xs] = filter P xs"
proof -
  have "filter P (map ((!) xs) [0..<length xs]) = map ((!) xs) (filter (\<lambda>i. P (xs ! i)) [0..<length xs])"
    by (simp add: filter_map comp_def)
  then show ?thesis by (simp add: hits_filter map_nth)
qed

interpretation null_scan: rake_visit "min (length starts) (length lens)" find_probe "null_commit starts lens" "\<lambda>_. ()"
    "\<lambda>i. if snd (zip starts lens ! i) \<noteq> 0 then Some (zip starts lens ! i) else None" "\<lambda>_ _. True"
  for starts lens :: "nat list"
  by unfold_locales (auto simp: find_probe_def null_commit_def)

lemma remove_null_spans_eq:
  assumes "length lens = length starts" "0 < V"
  shows "ok (remove_null_spans V starts lens (length starts)) (\<lambda>(spans, num).
    num = length (filter (\<lambda>x. snd x \<noteq> 0) (zip starts lens)) \<and> num \<le> length spans \<and>
    take num spans = filter (\<lambda>x. snd x \<noteq> 0) (zip starts lens))"
proof -
  let ?n = "length starts" and ?z = "zip starts lens"
  let ?emit = "\<lambda>i. if snd (?z ! i) \<noteq> 0 then Some (?z ! i) else None"
  let ?h = "filter (\<lambda>x. snd x \<noteq> 0) ?z" and ?each = "words_each V (length starts)"
  have h: "hits ?emit [0..<?n] = ?h" using hits_nth [of "\<lambda>x. snd x \<noteq> 0" ?z] assms(1) by simp
  have hn: "length ?h \<le> ?n" using length_filter_le [of "\<lambda>x. snd x \<noteq> 0" ?z] assms(1) by simp
  have lanes: "ok (rake_compact V [0..<V] find_probe (null_commit starts lens) ?each (?n - ?each * V) () (replicate ?n (0, 0)) (\<lambda>_. ?z))
     (\<lambda>(s, total, ret). total = length ?h \<and> ret = ?h @ drop total ?z)"
    using null_scan.compact_ok [where starts = starts and lens = lens and V = V and each = ?each and rest = "?n - ?each * V"
        and s = "()" and buf = "replicate ?n (0, 0)" and lanes = "[0..<V]" and mk = "\<lambda>_. ?z"]
      assms words_each_le [of V ?n] h by (simp add: atLeast0LessThan)
  obtain buf where seq: "for_each (\<lambda>i (current, buf). do {
            (_, out) \<leftarrow> null_commit starts lens i () ();
            case out of None \<Rightarrow> Some (current, buf)
            | Some v \<Rightarrow> do { buf \<leftarrow> wr buf current v; Some (current + 1, buf) } })
          [0..<?n] (0, replicate ?n (0, 0)) = Some (length ?h, buf)" "take (length ?h) buf = ?h" "length buf = ?n"
    using push_hits [of ?n "\<lambda>i. null_commit starts lens i () ()" ?emit "replicate ?n (0, 0)", OF null_commit_eq [OF assms(1)]]
    unfolding h by fastforce
  have copy: "copy_cells buf 0 ?z 0 (length ?h) = Some (?h @ drop (length ?h) ?z)"
    using copy_cells_run [of ?h 0 buf 0 ?z] seq(2) hn assms(1) by simp
  show ?thesis
  proof (cases "?n = 0 \<or> ?each \<noteq> 0")
    case True
    then show ?thesis using lanes hn assms(1) by (auto simp: remove_null_spans_def Let_def ok_iff_ex)
  next
    case False
    then have n: "?n \<noteq> 0" and e: "?each = 0" by simp_all
    have "remove_null_spans V starts lens ?n = Some (?h @ drop (length ?h) ?z, length ?h)"
      unfolding remove_null_spans_def Let_def if_not_P [OF n] if_P [OF e] seq(1)
      by (simp only: bind.bind_lunit prod.case copy)
    then show ?thesis using hn assms(1) by simp
  qed
qed

lemma remove_null_eq:
  assumes "words_ok w" "0 < V"
  shows "remove_null V (w_starts w) (w_lens w) =
    Some (Inr (let spans = filter (\<lambda>x. snd x \<noteq> 0) (zip (w_starts w) (w_lens w)) in (map fst spans, map snd spans)))"
proof -
  let ?h = "filter (\<lambda>x. snd x \<noteq> 0) (zip (w_starts w) (w_lens w))"
  obtain spans where s: "remove_null_spans V (w_starts w) (w_lens w) (length (w_starts w)) = Some (spans, length ?h)"
    "length ?h \<le> length spans" "take (length ?h) spans = ?h"
    using remove_null_spans_eq [of "w_lens w" "w_starts w" V] assms by (auto simp: ok_iff_ex words_ok_def)
  have "copy_cells (map f spans) 0 (replicate (length ?h) 0) 0 (length ?h) = Some (map f ?h)" for f :: "nat \<times> nat \<Rightarrow> nat"
    using s(2,3) by (simp add: copy_cells_eq take_map)
  then show ?thesis using assms s(1) by (simp add: remove_null_def words_ok_def Let_def)
qed

lemma words_of_remove_null:
  assumes "words_ok w" "spans = filter (\<lambda>x. snd x \<noteq> 0) (zip (w_starts w) (w_lens w))"
  shows "words_ok (with_spans w (map fst spans, map snd spans)) \<and>
    words_of (with_spans w (map fst spans, map snd spans)) = filter (\<lambda>u. u \<noteq> []) (words_of w)"
proof
  have z: "zip (map fst spans) (map snd spans) = spans" by (simp add: zip_map_fst_snd)
  show "words_ok (with_spans w (map fst spans, map snd spans))"
    using assms unfolding words_ok_alt by (auto simp: with_spans_def z)
  have "word_at (w_chars w) x \<noteq> [] \<longleftrightarrow> snd x \<noteq> 0" if "x \<in> set (zip (w_starts w) (w_lens w))" for x
    using assms(1) that by (auto simp: words_ok_alt word_at_def)
  then have "filter (\<lambda>u. u \<noteq> []) (words_of w) = map (word_at (w_chars w)) (filter (\<lambda>x. snd x \<noteq> 0) (zip (w_starts w) (w_lens w)))"
    unfolding words_of_word_at filter_map comp_def by (simp cong: filter_cong)
  then show "words_of (with_spans w (map fst spans, map snd spans)) = filter (\<lambda>u. u \<noteq> []) (words_of w)"
    by (simp add: words_of_word_at with_spans_def z assms(2))
qed
end
