(* ===== verification/WordsConcat.thy ===== *)
theory WordsConcat
  imports WordsBasic
begin

text \<open>
  text/words.cc, the operations that write a new array of characters from whole words: \<open>concat_words\<close>,
  the prefixes and suffixes built on it, the concatenation of columns, and \<open>concat_docs\<close>.

  A \<open>std::string\<close> is the list of its bytes as the source stores them in columns (\<open>unsigned char\<close>
  values).  Both starts and lengths of a column have one entry per word, and every vector of new
  starts is empty when it is passed.
\<close>

subsection \<open>The code\<close>

text \<open>
  One block of \<open>n\<close> words from word \<open>off\<close> on: round \<open>j\<close> copies character \<open>j\<close> of every word that has one.
\<close>

definition concat_block ::
  "int list \<Rightarrow> nat list \<Rightarrow> nat list \<Rightarrow> nat list \<Rightarrow> nat \<Rightarrow> nat \<Rightarrow> int list \<Rightarrow> int list option" where
  "concat_block v starts lens new_starts off n ret = do {
     starts_vreg \<leftarrow> rd_block starts off n;
     lens_vreg \<leftarrow> rd_block lens off n;
     new_starts_vreg \<leftarrow> rd_block new_starts off n;
     let mx = fold (\<lambda>l mx. if mx < l then l else mx) lens_vreg 0;
     for_each (\<lambda>j. for_each (\<lambda>k ret. do {
         l \<leftarrow> rd lens_vreg k;
         if l > j then do {
           s \<leftarrow> rd starts_vreg k;
           ch \<leftarrow> rd v (s + j);
           p \<leftarrow> rd new_starts_vreg k;
           wr ret (p + j) ch }
         else Some ret }) [0..<n]) [0..<mx] ret }"

definition concat_words ::
  "words_cfg \<Rightarrow> int list \<Rightarrow> nat list \<Rightarrow> nat list \<Rightarrow> int list \<Rightarrow> (int list \<times> nat list) option" where
  "concat_words c v starts lens delim =
     (let starts_size = length starts; delim_size = length delim in
      if starts_size = 0 then Some ([], [])
      else do {
        total \<leftarrow> for_each (\<lambda>i t. do { l \<leftarrow> rd lens i; Some (t + l) }) [0..<starts_size] 0;
        let total = total + starts_size * delim_size;
        new_starts \<leftarrow> consecutive_starts c (map (\<lambda>l. l + delim_size) lens);
        let each = starts_size div wc_vlen c;
        let rest = starts_size - each * wc_vlen c;
        ret \<leftarrow> for_each (\<lambda>i. concat_block v starts lens new_starts (i * wc_vlen c) (wc_vlen c)) [0..<each] (replicate total 0);
        ret \<leftarrow> concat_block v starts lens new_starts (each * wc_vlen c) rest ret;
        ret \<leftarrow> for_each (\<lambda>d ret. do {
            crnt_delim \<leftarrow> rd delim d;
            ret \<leftarrow> for_each (\<lambda>i ret. do { p \<leftarrow> rd new_starts i; wr ret (p - delim_size + d) crnt_delim }) [1..<starts_size] ret;
            wr ret (total - delim_size + d) crnt_delim }) [0..<delim_size] ret;
        Some (ret, new_starts) })"

text \<open>
  \<open>prepend\<close> rotates the delimiter of the last word to the front.  The number of cells to move is a
  \<open>size_t\<close> difference.
\<close>

definition prepend :: "words_cfg \<Rightarrow> words \<Rightarrow> int list \<Rightarrow> words option" where
  "prepend c w to_prepend = do {
     let n = length to_prepend;
     (new_chars, ret_starts) \<leftarrow> concat_words c (w_chars w) (w_starts w) (w_lens w) to_prepend;
     let new_chars_size = length new_chars;
     let moved = u64 (int new_chars_size - int n);
     ret_chars \<leftarrow> copy_cells new_chars 0 (replicate new_chars_size 0) n moved;
     ret_chars \<leftarrow> copy_cells new_chars moved ret_chars 0 n;
     Some \<lparr>w_chars = ret_chars, w_starts = ret_starts, w_lens = map (\<lambda>l. l + n) (w_lens w)\<rparr> }"

definition append_words :: "words_cfg \<Rightarrow> words \<Rightarrow> int list \<Rightarrow> words option" where
  "append_words c w to_append = do {
     (ret_chars, ret_starts) \<leftarrow> concat_words c (w_chars w) (w_starts w) (w_lens w) to_append;
     Some \<lparr>w_chars = ret_chars, w_starts = ret_starts, w_lens = map (\<lambda>l. l + length to_append) (w_lens w)\<rparr> }"

text \<open>Columns of the same number of words, glued word by word.\<close>

definition horizontal_concat_words :: "words_cfg \<Rightarrow> words list \<Rightarrow> (string + words) option" where
  "horizontal_concat_words c vec_words =
     (if length vec_words = 0 then Some (Inr \<lparr>w_chars = [], w_starts = [], w_lens = []\<rparr>)
      else do {
        let k = length vec_words;
        w0 \<leftarrow> rd vec_words 0;
        let num_words = length (w_starts w0);
        if list_ex (\<lambda>w. length (w_starts w) \<noteq> num_words) (drop 1 vec_words)
        then Some (Inl ''horizontal_concat_words: different number of words'')
        else do {
          let each_chars_size = map (length \<circ> w_chars) vec_words;
          let pfx = replicate (k + 1) 0;
          p0 \<leftarrow> rd pfx 0;
          outp \<leftarrow> wc_prefix_sum c each_chars_size (drop 1 pfx) k;
          let pfx = p0 # outp;
          total \<leftarrow> rd pfx k;
          concat_chars \<leftarrow> for_each (\<lambda>i chars. do {
              w \<leftarrow> rd vec_words i;
              p \<leftarrow> rd pfx i;
              copy_cells (w_chars w) 0 chars p (length (w_chars w)) }) [0..<k] (replicate total 0);
          (tmp_starts, tmp_lens) \<leftarrow> for_each (\<lambda>i st. do {
              w \<leftarrow> rd vec_words i;
              starts_shift \<leftarrow> rd pfx i;
              for_each (\<lambda>j (starts, lens). do {
                  s \<leftarrow> rd (w_starts w) j;
                  starts \<leftarrow> wr starts (k * j + i) (s + starts_shift);
                  l \<leftarrow> rd (w_lens w) j;
                  lens \<leftarrow> wr lens (k * j + i) l;
                  Some (starts, lens) }) [0..<num_words] st })
            [0..<k] (replicate (num_words * k) 0, replicate (num_words * k) 0);
          (chars, new_starts) \<leftarrow> concat_words c concat_chars tmp_starts tmp_lens [];
          starts \<leftarrow> omap (\<lambda>i. rd new_starts (i * k)) [0..<num_words];
          lens \<leftarrow> for_each (\<lambda>i lens. do {
              w \<leftarrow> rd vec_words i;
              for_each (\<lambda>j lens. do { x \<leftarrow> rd lens j; l \<leftarrow> rd (w_lens w) j; wr lens j (x + l) }) [0..<num_words] lens })
            [0..<k] (replicate num_words 0);
          Some (Inr \<lparr>w_chars = chars, w_starts = starts, w_lens = lens\<rparr>) } })"

text \<open>Documents: the same result as \<open>concat_words\<close> with one delimiter, copied one after the other.\<close>

definition concat_docs ::
  "int list \<Rightarrow> nat list \<Rightarrow> nat list \<Rightarrow> int \<Rightarrow> (int list \<times> nat list) option" where
  "concat_docs v sep len del = do {
     let sep_size = length sep;
     total \<leftarrow> for_each (\<lambda>i t. do { l \<leftarrow> rd len i; Some (t + l) }) [0..<sep_size] 0;
     let total = total + sep_size;
     (ret, doc_start, _) \<leftarrow> for_each (\<lambda>i (ret, doc_start, crnt_pos). do {
         doc_start \<leftarrow> wr doc_start i crnt_pos;
         s \<leftarrow> rd sep i;
         l \<leftarrow> rd len i;
         ret \<leftarrow> copy_cells v s ret crnt_pos l;
         ret \<leftarrow> wr ret (crnt_pos + l) del;
         Some (ret, doc_start, crnt_pos + (l + 1)) }) [0..<sep_size] (replicate total 0, replicate sep_size 0, 0);
     Some (ret, doc_start) }"

subsection \<open>Filling an array towards a target\<close>

text \<open>Every write stores what the target has at that cell, so the order of the writes is irrelevant.\<close>

definition agrees :: "'a list \<Rightarrow> nat set \<Rightarrow> 'a list \<Rightarrow> bool" where
  "agrees T D ret \<longleftrightarrow> length ret = length T \<and> (\<forall>p\<in>D. p < length T \<longrightarrow> ret ! p = T ! p)"

lemma agrees_write: "agrees T D ret \<Longrightarrow> p < length T \<Longrightarrow> x = T ! p \<Longrightarrow> ok (wr ret p x) (agrees T (insert p D))"
  by (auto simp: agrees_def ok_simps nth_list_update)

lemma agrees_start: "length ret = length T \<Longrightarrow> agrees T {} ret"
  by (simp add: agrees_def)

lemma agrees_all: "agrees T D ret \<Longrightarrow> {0..<length T} \<subseteq> D \<Longrightarrow> ret = T"
  by (rule nth_equalityI) (auto simp: agrees_def subset_iff)

lemma agrees_mono: "agrees T D ret \<Longrightarrow> D' \<subseteq> D \<Longrightarrow> agrees T D' ret"
  by (auto simp: agrees_def)

lemma ok_agrees_mono: "ok m (agrees T D) \<Longrightarrow> D' \<subseteq> D \<Longrightarrow> ok m (agrees T D')"
  by (erule ok_mono) (rule agrees_mono)

text \<open>A loop whose iteration \<open>x\<close> covers \<open>W x\<close>; \<open>A D\<close> says of the state that \<open>D\<close> is covered.\<close>

lemma cover_for_each:
  assumes "\<And>x D st. x \<in> set xs \<Longrightarrow> A D st \<Longrightarrow> ok (f x st) (A (D \<union> W x))"
    and "A D st"
  shows "ok (for_each f xs st) (A (D \<union> (\<Union>x\<in>set xs. W x)))"
  using assms
proof (induction xs arbitrary: D st)
  case (Cons x xs)
  have "ok (f x st) (A (D \<union> W x))" using Cons.prems by simp
  then obtain r where r: "f x st = Some r" "A (D \<union> W x) r" by (rule okE)
  have "ok (for_each f xs r) (A ((D \<union> W x) \<union> (\<Union>x\<in>set xs. W x)))"
    by (rule Cons.IH [OF _ r(2)]) (use Cons.prems in simp)
  then show ?case using r(1) by (simp add: Un_assoc)
qed simp

lemmas agrees_for_each = cover_for_each [where A = "agrees T" for T]

text \<open>Blocks one behind the other.\<close>

lemma take_map_sum: "sum_list (take j (map f xs)) = sum_list (map f (take j xs))"
  by (simp add: take_map)

lemma block_at:
  assumes "j < length bs"
  shows "word_at (concat bs) (sum_list (map length (take j bs)), length (bs ! j)) = bs ! j"
proof -
  have "concat bs = concat (take j bs) @ bs ! j @ concat (drop (Suc j) bs)"
    using id_take_nth_drop [OF assms] by (metis concat.simps(2) concat_append)
  moreover have "sum_list (map length (take j bs)) = length (concat (take j bs))" by (simp add: length_concat)
  ultimately show ?thesis by (simp add: word_at_def)
qed

lemma block_end:
  assumes "j < length bs"
  shows "sum_list (map length (take j bs)) + length (bs ! j) \<le> length (concat bs)"
proof -
  have "sum_list (map length (take j bs)) + length (bs ! j) = length (concat (take (Suc j) bs))"
    using assms by (simp add: take_Suc_conv_app_nth length_concat)
  also have "\<dots> \<le> length (concat (take (Suc j) bs) @ concat (drop (Suc j) bs))" by simp
  also have "\<dots> = length (concat bs)" by (metis append_take_drop_id concat_append)
  finally show ?thesis .
qed

lemma nth_block:
  assumes "j < length bs" "k < length (bs ! j)"
  shows "concat bs ! (sum_list (map length (take j bs)) + k) = bs ! j ! k"
proof -
  have "word_at (concat bs) (sum_list (map length (take j bs)), length (bs ! j)) ! k = bs ! j ! k"
    using block_at [OF assms(1)] by simp
  then show ?thesis using assms block_end [OF assms(1)] by (simp add: word_at_def)
qed

lemma block_of_position:
  assumes "p < length (concat bs)"
  shows "\<exists>j<length bs. \<exists>k<length (bs ! j). p = sum_list (map length (take j bs)) + k"
  using assms
proof (induction bs arbitrary: p)
  case (Cons b bs)
  show ?case
  proof (cases "p < length b")
    case True
    then show ?thesis by (intro exI [of _ 0]) simp
  next
    case False
    then have "p - length b < length (concat bs)" using Cons.prems by simp
    then obtain j k where "j < length bs" "k < length (bs ! j)" "p - length b = sum_list (map length (take j bs)) + k"
      using Cons.IH [of "p - length b"] by blast
    then show ?thesis using False by (intro exI [of _ "Suc j"]) auto
  qed
qed simp

lemma prefix_positions: "0 # prefix_sums xs = map (\<lambda>j. sum_list (take j (xs :: nat list))) [0..<Suc (length xs)]"
proof (rule nth_equalityI)
  fix j assume "j < length (0 # prefix_sums xs)"
  then show "(0 # prefix_sums xs) ! j = map (\<lambda>j. sum_list (take j xs)) [0..<Suc (length xs)] ! j"
    by (cases j) (simp_all add: prefix_sums_def run_sum_nat del: upt_Suc)
qed (simp add: prefix_sums_def)

lemma blocks_of_range:
  assumes "k < length bs"
  shows "word_at (concat bs) (sum_list (map length (take k bs)) + s, l) =
    (if s + l \<le> length (bs ! k) then word_at (bs ! k) (s, l) else word_at (concat bs) (sum_list (map length (take k bs)) + s, l))"
proof -
  have "concat bs = concat (take k bs) @ bs ! k @ concat (drop (Suc k) bs)"
    using id_take_nth_drop [OF assms] by (metis concat.simps(2) concat_append)
  moreover have "sum_list (map length (take k bs)) = length (concat (take k bs))" by (simp add: length_concat)
  ultimately show ?thesis by (simp add: word_at_def)
qed

text \<open>Consecutive blocks read as one word.\<close>

lemma word_of_blocks:
  assumes "a + n \<le> length bs"
  shows "word_at (concat bs) (sum_list (map length (take a bs)), sum_list (map length (take n (drop a bs)))) = concat (take n (drop a bs))"
proof -
  have bs: "bs = take a bs @ take n (drop a bs) @ drop n (drop a bs)" by (metis append_take_drop_id)
  have "concat bs = concat (take a bs) @ concat (take n (drop a bs)) @ concat (drop n (drop a bs))"
    by (subst bs) (simp only: concat_append)
  then show ?thesis by (simp add: word_at_def length_concat [symmetric])
qed

subsection \<open>The words with their delimiters\<close>

text \<open>Where block \<open>i\<close> of the result starts, and the result.\<close>

definition block_start :: "int list \<Rightarrow> words \<Rightarrow> nat \<Rightarrow> nat" where
  "block_start delim w i = sum_list (map (\<lambda>u. length u + length delim) (take i (words_of w)))"

definition delimited :: "int list \<Rightarrow> words \<Rightarrow> int list" where
  "delimited delim w = concat (map (\<lambda>u. u @ delim) (words_of w))"

lemma lens_words_of: "words_ok w \<Longrightarrow> map length (words_of w) = w_lens w"
  by (rule nth_equalityI) (simp_all add: length_nth_words_of, simp add: words_ok_def)

lemma block_start_lens:
  assumes "words_ok w"
  shows "block_start delim w i = sum_list (take i (map (\<lambda>l. l + length delim) (w_lens w)))"
  by (simp add: block_start_def lens_words_of [OF assms, symmetric] take_map comp_def)

lemma block_start_blocks: "block_start delim w i = sum_list (map length (take i (map (\<lambda>u. u @ delim) (words_of w))))"
  by (simp add: block_start_def take_map comp_def)

lemma length_delimited: "words_ok w \<Longrightarrow> length (delimited delim w) = sum_list (w_lens w) + length (w_starts w) * length delim"
proof -
  assume w: "words_ok w"
  have "length (delimited delim w) = sum_list (map length (words_of w)) + length (words_of w) * length delim"
    by (simp add: delimited_def length_concat comp_def sum_list_addf sum_list_triv)
  then show ?thesis using w by (simp add: lens_words_of)
qed

lemma delimited_char:
  assumes "words_ok w" "i < length (w_starts w)" "j < w_lens w ! i"
  shows "delimited delim w ! (block_start delim w i + j) = w_chars w ! (w_starts w ! i + j)"
    and "block_start delim w i + j < length (delimited delim w)"
proof -
  let ?bs = "map (\<lambda>u. u @ delim) (words_of w)"
  have i: "i < length ?bs" "i < length (w_lens w)" using assms by (simp_all add: words_ok_def words_of_def)
  have u: "?bs ! i = word_at (w_chars w) (w_starts w ! i, w_lens w ! i) @ delim" using i assms(2) by (simp add: nth_words_of)
  have l: "w_starts w ! i + w_lens w ! i \<le> length (w_chars w)" using assms by (simp add: words_ok_def)
  have j: "j < length (?bs ! i)" using u l assms(3) by (simp add: word_at_def)
  have "delimited delim w ! (block_start delim w i + j) = ?bs ! i ! j"
    unfolding delimited_def block_start_blocks by (rule nth_block [OF i(1) j])
  then show "delimited delim w ! (block_start delim w i + j) = w_chars w ! (w_starts w ! i + j)"
    using u l assms(3) by (simp add: nth_append word_at_def)
  show "block_start delim w i + j < length (delimited delim w)"
    using block_end [OF i(1)] j unfolding delimited_def block_start_blocks by linarith
qed

lemma delimited_delim:
  assumes "words_ok w" "i < length (w_starts w)" "d < length delim"
  shows "delimited delim w ! (block_start delim w i + w_lens w ! i + d) = delim ! d"
    and "block_start delim w i + w_lens w ! i + d < length (delimited delim w)"
proof -
  let ?bs = "map (\<lambda>u. u @ delim) (words_of w)"
  have i: "i < length ?bs" "i < length (w_lens w)" using assms by (simp_all add: words_ok_def words_of_def)
  have u: "?bs ! i = word_at (w_chars w) (w_starts w ! i, w_lens w ! i) @ delim" using i assms(2) by (simp add: nth_words_of)
  have l: "length (word_at (w_chars w) (w_starts w ! i, w_lens w ! i)) = w_lens w ! i"
    using assms by (intro length_word_at) (simp add: words_ok_def)
  have j: "w_lens w ! i + d < length (?bs ! i)" using u l assms(3) by simp
  have "delimited delim w ! (block_start delim w i + (w_lens w ! i + d)) = ?bs ! i ! (w_lens w ! i + d)"
    unfolding delimited_def block_start_blocks by (rule nth_block [OF i(1) j])
  then show "delimited delim w ! (block_start delim w i + w_lens w ! i + d) = delim ! d"
    unfolding u using l by (simp add: nth_append add.assoc)
  show "block_start delim w i + w_lens w ! i + d < length (delimited delim w)"
    using block_end [OF i(1)] j unfolding delimited_def block_start_blocks by linarith
qed

lemma block_start_Suc:
  assumes "words_ok w" "i < length (w_starts w)"
  shows "block_start delim w (Suc i) = block_start delim w i + w_lens w ! i + length delim"
  using assms by (simp add: block_start_lens words_ok_def take_Suc_conv_app_nth)

lemma delimited_position:
  assumes "words_ok w" "p < length (delimited delim w)"
  shows "\<exists>i<length (w_starts w). (\<exists>j<w_lens w ! i. p = block_start delim w i + j) \<or>
    (\<exists>d<length delim. p = block_start delim w i + w_lens w ! i + d)"
proof -
  let ?bs = "map (\<lambda>u. u @ delim) (words_of w)"
  obtain i k where ik: "i < length ?bs" "k < length (?bs ! i)" "p = block_start delim w i + k"
    using block_of_position [of p ?bs] assms(2) unfolding delimited_def block_start_blocks by blast
  have i: "i < length (w_starts w)" using ik(1) assms(1) by simp
  have "length (?bs ! i) = w_lens w ! i + length delim" using i assms(1) by (simp add: length_nth_words_of)
  then have k: "k < w_lens w ! i + length delim" using ik(2) by simp
  show ?thesis
  proof (cases "k < w_lens w ! i")
    case True
    then show ?thesis using i ik(3) by blast
  next
    case False
    then have "p = block_start delim w i + w_lens w ! i + (k - w_lens w ! i)" "k - w_lens w ! i < length delim"
      using k ik(3) by simp_all
    then show ?thesis using i by blast
  qed
qed

lemma fold_max_bound: "l \<in> set ls \<Longrightarrow> l \<le> fold (\<lambda>l mx. if mx < l then l else mx) ls (m :: nat)"
proof (induction ls arbitrary: m)
  case (Cons x ls)
  have mono: "m \<le> fold (\<lambda>l mx. if mx < l then l else mx) ls m" for m
  proof (induction ls arbitrary: m)
    case (Cons y ls)
    show ?case using Cons [of "if m < y then y else m"] by auto
  qed simp
  show ?case using Cons.prems Cons.IH mono [of "if m < x then x else m"] by auto
qed simp

lemma concat_block_agrees:
  assumes w: "words_ok w" and n: "off + n \<le> length (w_starts w)"
    and ns: "new_starts = map (block_start delim w) [0..<length (w_starts w)]"
    and ret: "agrees (delimited delim w) D ret"
  shows "ok (concat_block (w_chars w) (w_starts w) (w_lens w) new_starts off n ret)
    (agrees (delimited delim w) (D \<union> {block_start delim w i + j |i j. off \<le> i \<and> i < off + n \<and> j < w_lens w ! i}))"
proof -
  let ?T = "delimited delim w" and ?ln = "take n (drop off (w_lens w))"
  let ?mx = "fold (\<lambda>l mx. if mx < l then l else mx) ?ln 0"
  let ?body = "\<lambda>j k ret. do {
         l \<leftarrow> rd ?ln k;
         if l > j then do {
           s \<leftarrow> rd (take n (drop off (w_starts w))) k;
           ch \<leftarrow> rd (w_chars w) (s + j);
           p \<leftarrow> rd (take n (drop off new_starts)) k;
           wr ret (p + j) ch }
         else Some ret }"
  let ?W = "\<lambda>j k. if j < w_lens w ! (off + k) then {block_start delim w (off + k) + j} else {}"
  have ll: "length (w_lens w) = length (w_starts w)" using w by (simp add: words_ok_def)
  have cell: "ok (?body j k r) (agrees ?T (E \<union> ?W j k))" if "k \<in> set [0..<n]" "agrees ?T E r" for j k r E
  proof (cases "j < w_lens w ! (off + k)")
    case False
    then show ?thesis using that n ll by simp
  next
    case True
    have i: "off + k < length (w_starts w)" using that(1) n by simp
    have "w_starts w ! (off + k) + w_lens w ! (off + k) \<le> length (w_chars w)" using w i by (simp add: words_ok_def)
    then have r: "w_starts w ! (off + k) + j < length (w_chars w)" using True by linarith
    have "ok (wr r (block_start delim w (off + k) + j) (w_chars w ! (w_starts w ! (off + k) + j)))
        (agrees ?T (insert (block_start delim w (off + k) + j) E))"
      using delimited_char [OF w i True] that(2) by (intro agrees_write) simp_all
    then show ?thesis using True r that(1) n ll i ns by (simp add: add.commute)
  qed
  have "ok (for_each (\<lambda>j. for_each (?body j) [0..<n]) [0..<?mx] ret) (agrees ?T (D \<union> (\<Union>j\<in>set [0..<?mx]. \<Union>k\<in>set [0..<n]. ?W j k)))"
    by (rule agrees_for_each [OF agrees_for_each [OF cell] ret])
  moreover have "{block_start delim w i + j |i j. off \<le> i \<and> i < off + n \<and> j < w_lens w ! i} \<subseteq> (\<Union>j\<in>set [0..<?mx]. \<Union>k\<in>set [0..<n]. ?W j k)"
  proof
    fix p assume "p \<in> {block_start delim w i + j |i j. off \<le> i \<and> i < off + n \<and> j < w_lens w ! i}"
    then obtain i j where ij: "p = block_start delim w i + j" "off \<le> i" "i < off + n" "j < w_lens w ! i" by blast
    have "?ln ! (i - off) = w_lens w ! i" "i - off < length ?ln" using ij n ll by auto
    then have "w_lens w ! i \<in> set ?ln" by (metis nth_mem)
    then have "j < ?mx" using fold_max_bound [of "w_lens w ! i" ?ln 0] ij(4) by simp
    show "p \<in> (\<Union>j\<in>set [0..<?mx]. \<Union>k\<in>set [0..<n]. ?W j k)"
    proof (intro UN_I)
      show "j \<in> set [0..<?mx]" "i - off \<in> set [0..<n]" using \<open>j < ?mx\<close> ij by auto
      show "p \<in> ?W j (i - off)" using ij by simp
    qed
  qed
  ultimately have "ok (for_each (\<lambda>j. for_each (?body j) [0..<n]) [0..<?mx] ret)
      (agrees ?T (D \<union> {block_start delim w i + j |i j. off \<le> i \<and> i < off + n \<and> j < w_lens w ! i}))"
    by (elim ok_agrees_mono) blast
  moreover have "length new_starts = length (w_starts w)" using ns by simp
  ultimately show ?thesis using n ll by (simp add: concat_block_def)
qed

lemma sum_loop:
  assumes "length xs = n"
  shows "for_each (\<lambda>i t. do { x \<leftarrow> rd xs i; Some (t + x) }) [0..<n] 0 = Some (sum_list (xs :: nat list))"
proof -
  have "ok (for_each (\<lambda>i t. do { x \<leftarrow> rd xs i; Some (t + x) }) [0..<n] 0) (\<lambda>t. t = sum_list (take n xs))"
    by (rule ok_for_range [where I = "\<lambda>k t. t = sum_list (take k xs)"])
      (use assms in \<open>simp_all add: take_Suc_conv_app_nth\<close>)
  then show ?thesis using assms by (simp add: ok_eq)
qed

lemma delims_agree:
  assumes w: "words_ok w" "w_starts w \<noteq> []"
    and ns: "new_starts = map (block_start delim w) [0..<length (w_starts w)]"
    and tot: "tot = length (delimited delim w)"
    and ret: "agrees (delimited delim w) D ret"
  shows "ok (for_each (\<lambda>d ret. do {
            crnt_delim \<leftarrow> rd delim d;
            ret \<leftarrow> for_each (\<lambda>i ret. do { p \<leftarrow> rd new_starts i; wr ret (p - length delim + d) crnt_delim }) [1..<length (w_starts w)] ret;
            wr ret (tot - length delim + d) crnt_delim }) [0..<length delim] ret)
    (agrees (delimited delim w) (D \<union> {block_start delim w i + w_lens w ! i + d |i d. i < length (w_starts w) \<and> d < length delim}))"
proof -
  let ?T = "delimited delim w" and ?k = "length (w_starts w)"
  let ?p = "\<lambda>i d. block_start delim w i + w_lens w ! i + d"
  have last: "tot = block_start delim w (?k - 1) + w_lens w ! (?k - 1) + length delim"
  proof -
    have "0 < ?k" using w(2) by simp
    then have "block_start delim w ?k = block_start delim w (?k - 1) + w_lens w ! (?k - 1) + length delim"
      using block_start_Suc [OF w(1), of "?k - 1" delim] by simp
    moreover have "block_start delim w ?k = tot"
      using w tot unfolding length_delimited [OF w(1)] block_start_lens [OF w(1)]
      by (simp add: words_ok_def sum_list_addf sum_list_triv)
    ultimately show ?thesis by simp
  qed
  have inner: "ok (for_each (\<lambda>i ret. do { p \<leftarrow> rd new_starts i; wr ret (p - length delim + d) (delim ! d) }) [1..<?k] r)
      (agrees ?T (E \<union> (\<Union>i\<in>set [1..<?k]. {?p (i - 1) d})))" if "d < length delim" "agrees ?T E r" for d E r
  proof (rule agrees_for_each [OF _ that(2)])
    fix i E r assume i: "i \<in> set [1..<?k]" and r: "agrees ?T E r"
    then have i': "i - 1 < ?k" "i < ?k" "Suc (i - 1) = i" by auto
    have "block_start delim w i = block_start delim w (i - 1) + w_lens w ! (i - 1) + length delim"
      using block_start_Suc [OF w(1) i'(1), of delim] i'(3) by simp
    then show "ok (do { p \<leftarrow> rd new_starts i; wr r (p - length delim + d) (delim ! d) }) (agrees ?T (E \<union> {?p (i - 1) d}))"
      using delimited_delim [OF w(1) i'(1) that(1)] agrees_write [OF r, of "?p (i - 1) d" "delim ! d"] i' ns by simp
  qed
  have step: "ok (do {
            crnt_delim \<leftarrow> rd delim d;
            ret \<leftarrow> for_each (\<lambda>i ret. do { p \<leftarrow> rd new_starts i; wr ret (p - length delim + d) crnt_delim }) [1..<?k] r;
            wr ret (tot - length delim + d) crnt_delim })
      (agrees ?T (E \<union> (\<Union>i\<in>set [0..<?k]. {?p i d})))" if d: "d \<in> set [0..<length delim]" and E: "agrees ?T E r" for d E r
  proof -
    have dl: "d < length delim" using d by simp
    obtain r' where r': "for_each (\<lambda>i ret. do { p \<leftarrow> rd new_starts i; wr ret (p - length delim + d) (delim ! d) }) [1..<?k] r = Some r'"
      "agrees ?T (E \<union> (\<Union>i\<in>set [1..<?k]. {?p (i - 1) d})) r'"
      using inner [OF dl E] by (rule okE)
    have k: "?k - 1 < ?k" using w(2) by simp
    have "ok (wr r' (?p (?k - 1) d) (delim ! d)) (agrees ?T (insert (?p (?k - 1) d) (E \<union> (\<Union>i\<in>set [1..<?k]. {?p (i - 1) d}))))"
      using delimited_delim [OF w(1) k dl] r'(2) by (intro agrees_write) simp_all
    then have "ok (wr r' (?p (?k - 1) d) (delim ! d)) (agrees ?T (E \<union> (\<Union>i\<in>set [0..<?k]. {?p i d})))"
    proof (rule ok_agrees_mono)
      show "E \<union> (\<Union>i\<in>set [0..<?k]. {?p i d}) \<subseteq> insert (?p (?k - 1) d) (E \<union> (\<Union>i\<in>set [1..<?k]. {?p (i - 1) d}))"
      proof
        fix x assume "x \<in> E \<union> (\<Union>i\<in>set [0..<?k]. {?p i d})"
        then consider "x \<in> E" | i where "i < ?k" "x = ?p i d" by auto
        then show "x \<in> insert (?p (?k - 1) d) (E \<union> (\<Union>i\<in>set [1..<?k]. {?p (i - 1) d}))"
        proof cases
          case 2
          show ?thesis
          proof (cases "i = ?k - 1")
            case False
            then have "Suc i \<in> set [1..<?k]" "x = ?p (Suc i - 1) d" using 2 by auto
            then show ?thesis by blast
          qed (use 2 in simp)
        qed simp
      qed
    qed
    then show ?thesis using dl r'(1) last by (simp add: add.assoc)
  qed
  have "ok (for_each (\<lambda>d ret. do {
            crnt_delim \<leftarrow> rd delim d;
            ret \<leftarrow> for_each (\<lambda>i ret. do { p \<leftarrow> rd new_starts i; wr ret (p - length delim + d) crnt_delim }) [1..<?k] ret;
            wr ret (tot - length delim + d) crnt_delim }) [0..<length delim] ret)
    (agrees ?T (D \<union> (\<Union>d\<in>set [0..<length delim]. \<Union>i\<in>set [0..<?k]. {?p i d})))"
    by (rule agrees_for_each [OF step ret])
  moreover have "{?p i d |i d. i < ?k \<and> d < length delim} \<subseteq> (\<Union>d\<in>set [0..<length delim]. \<Union>i\<in>set [0..<?k]. {?p i d})"
    by fastforce
  ultimately show ?thesis by (elim ok_agrees_mono) blast
qed

context words_build begin

lemma blocks_agree:
  assumes w: "words_ok w"
    and ns: "new_starts = map (block_start delim w) [0..<length (w_starts w)]"
    and ret: "agrees (delimited delim w) {} ret"
    and each: "each = length (w_starts w) div wc_vlen c" and rest: "rest = length (w_starts w) - each * wc_vlen c"
  shows "ok (do {
        ret \<leftarrow> for_each (\<lambda>i. concat_block (w_chars w) (w_starts w) (w_lens w) new_starts (i * wc_vlen c) (wc_vlen c)) [0..<each] ret;
        concat_block (w_chars w) (w_starts w) (w_lens w) new_starts (each * wc_vlen c) rest ret })
    (agrees (delimited delim w) {block_start delim w i + j |i j. i < length (w_starts w) \<and> j < w_lens w ! i})"
proof -
  let ?T = "delimited delim w" and ?V = "wc_vlen c" and ?k = "length (w_starts w)"
  let ?W = "\<lambda>off n. {block_start delim w i + j |i j. off \<le> i \<and> i < off + n \<and> j < w_lens w ! i}"
  have V: "0 < ?V" and ev: "each * ?V \<le> ?k" using vlen each by simp_all
  have "ok (for_each (\<lambda>i. concat_block (w_chars w) (w_starts w) (w_lens w) new_starts (i * ?V) ?V) [0..<each] ret)
      (agrees ?T ({} \<union> (\<Union>i\<in>set [0..<each]. ?W (i * ?V) ?V)))"
  proof (rule agrees_for_each [OF _ ret])
    fix b D r assume b: "b \<in> set [0..<each]" and r: "agrees ?T D r"
    have "Suc b * ?V \<le> each * ?V" using b by (intro mult_le_mono1) simp
    then have "b * ?V + ?V \<le> ?k" using ev by simp
    then show "ok (concat_block (w_chars w) (w_starts w) (w_lens w) new_starts (b * ?V) ?V r) (agrees ?T (D \<union> ?W (b * ?V) ?V))"
      by (rule concat_block_agrees [OF w _ ns r])
  qed
  then obtain r where r: "for_each (\<lambda>i. concat_block (w_chars w) (w_starts w) (w_lens w) new_starts (i * ?V) ?V) [0..<each] ret = Some r"
    "agrees ?T ({} \<union> (\<Union>i\<in>set [0..<each]. ?W (i * ?V) ?V)) r" by (rule okE)
  have "ok (concat_block (w_chars w) (w_starts w) (w_lens w) new_starts (each * ?V) rest r)
      (agrees ?T (({} \<union> (\<Union>i\<in>set [0..<each]. ?W (i * ?V) ?V)) \<union> ?W (each * ?V) rest))"
    by (rule concat_block_agrees [OF w _ ns r(2)]) (use ev rest in simp)
  moreover have "{block_start delim w i + j |i j. i < ?k \<and> j < w_lens w ! i} \<subseteq>
      (({} \<union> (\<Union>i\<in>set [0..<each]. ?W (i * ?V) ?V)) \<union> ?W (each * ?V) rest)"
  proof
    fix x assume "x \<in> {block_start delim w i + j |i j. i < ?k \<and> j < w_lens w ! i}"
    then obtain i j where ij: "x = block_start delim w i + j" "i < ?k" "j < w_lens w ! i" by blast
    show "x \<in> (({} \<union> (\<Union>i\<in>set [0..<each]. ?W (i * ?V) ?V)) \<union> ?W (each * ?V) rest)"
    proof (cases "i < each * ?V")
      case True
      have "i div ?V < each" using True V by (simp add: less_mult_imp_div_less)
      moreover have "i div ?V * ?V \<le> i" "i < i div ?V * ?V + ?V"
        using V by (simp_all add: dividend_less_div_times add.commute)
      then have "x \<in> ?W (i div ?V * ?V) ?V" using ij by blast
      ultimately show ?thesis by auto
    next
      case False
      then have "x \<in> ?W (each * ?V) rest" using ij rest by force
      then show ?thesis by blast
    qed
  qed
  ultimately show ?thesis using r(1) by (auto simp: ok_bind elim: ok_agrees_mono)
qed

lemma concat_words_eq:
  assumes w: "words_ok w"
  shows "concat_words c (w_chars w) (w_starts w) (w_lens w) delim =
    Some (delimited delim w, map (block_start delim w) [0..<length (w_starts w)])"
proof (cases "w_starts w = []")
  case True
  then show ?thesis by (simp add: concat_words_def delimited_def words_of_def)
next
  case False
  let ?k = "length (w_starts w)" and ?T = "delimited delim w" and ?ds = "length delim"
  let ?ns = "map (block_start delim w) [0..<?k]" and ?V = "wc_vlen c"
  define each where "each = ?k div ?V"
  define rest where "rest = ?k - each * ?V"
  have ll: "length (w_lens w) = ?k" using w by (simp add: words_ok_def)
  have tot: "for_each (\<lambda>i t. do { l \<leftarrow> rd (w_lens w) i; Some (t + l) }) [0..<?k] 0 = Some (sum_list (w_lens w))"
    by (rule sum_loop [OF ll])
  have len: "sum_list (w_lens w) + ?k * ?ds = length ?T" using length_delimited [OF w] by simp
  have "map (\<lambda>l. l + ?ds) (w_lens w) \<noteq> []" using False ll by auto
  then have ns: "consecutive_starts c (map (\<lambda>l. l + ?ds) (w_lens w)) = Some ?ns"
    using starts_eq ll by (simp add: block_start_lens [OF w])
  have "agrees ?T {} (replicate (length ?T) 0)" by (rule agrees_start) simp
  note blocks = blocks_agree [OF w refl this each_def rest_def]
  obtain r1 r where r: "for_each (\<lambda>i. concat_block (w_chars w) (w_starts w) (w_lens w) ?ns (i * ?V) ?V) [0..<each] (replicate (length ?T) 0) = Some r1"
      "concat_block (w_chars w) (w_starts w) (w_lens w) ?ns (each * ?V) rest r1 = Some r"
      "agrees ?T {block_start delim w i + j |i j. i < ?k \<and> j < w_lens w ! i} r"
    using blocks unfolding ok_bind by (elim okE)
  obtain r' where r': "for_each (\<lambda>d ret. do {
            crnt_delim \<leftarrow> rd delim d;
            ret \<leftarrow> for_each (\<lambda>i ret. do { p \<leftarrow> rd ?ns i; wr ret (p - ?ds + d) crnt_delim }) [1..<?k] ret;
            wr ret (length ?T - ?ds + d) crnt_delim }) [0..<?ds] r = Some r'"
      "agrees ?T ({block_start delim w i + j |i j. i < ?k \<and> j < w_lens w ! i} \<union>
         {block_start delim w i + w_lens w ! i + d |i d. i < ?k \<and> d < ?ds}) r'"
    using delims_agree [OF w False refl refl r(3)] by (rule okE)
  have "r' = ?T"
  proof (rule agrees_all [OF r'(2)], rule subsetI)
    fix p assume "p \<in> {0..<length ?T}"
    then show "p \<in> {block_start delim w i + j |i j. i < ?k \<and> j < w_lens w ! i} \<union>
         {block_start delim w i + w_lens w ! i + d |i d. i < ?k \<and> d < ?ds}"
      using delimited_position [OF w, of p delim] by auto
  qed
  then show ?thesis
    unfolding concat_words_def Let_def tot using False
    by (simp only: bind.bind_lunit len ns each_def [symmetric] rest_def [symmetric] r(1,2) r'(1) length_0_conv if_False)
qed

end

subsection \<open>Columns of consecutive words\<close>

definition column :: "int list list \<Rightarrow> words" where
  "column bs = \<lparr>w_chars = concat bs, w_starts = map (\<lambda>i. sum_list (map length (take i bs))) [0..<length bs],
     w_lens = map length bs\<rparr>"

lemma words_of_column: "words_of (column bs) = bs"
  by (rule nth_equalityI) (simp_all add: words_of_word_at column_def block_at)

lemma words_ok_column: "words_ok (column bs)"
  by (simp add: words_ok_def column_def block_end)

lemma concat_rotate: "delim @ concat (map (\<lambda>u. u @ delim) us) = concat (map (\<lambda>u. delim @ u) us) @ delim"
  by (induction us) simp_all

context words_build begin

lemma append_words_eq:
  assumes "words_ok w"
  shows "append_words c w delim = Some (column (map (\<lambda>u. u @ delim) (words_of w)))"
proof -
  have "map length (map (\<lambda>u. u @ delim) (words_of w)) = map (\<lambda>l. l + length delim) (w_lens w)"
    by (simp add: lens_words_of [OF assms, symmetric])
  moreover have "block_start delim w = (\<lambda>i. sum_list (map length (take i (map (\<lambda>u. u @ delim) (words_of w)))))"
    by (rule ext) (rule block_start_blocks)
  ultimately show ?thesis using assms
    by (simp add: append_words_def concat_words_eq column_def delimited_def)
qed

lemma prepend_eq:
  assumes w: "words_ok w" "w_starts w \<noteq> []"
    and small: "sum_list (w_lens w) + length (w_starts w) * length delim < 2 ^ 62"
  shows "prepend c w delim = Some (column (map (\<lambda>u. delim @ u) (words_of w)))"
proof -
  let ?T = "delimited delim w" and ?R = "concat (map (\<lambda>u. delim @ u) (words_of w))" and ?n = "length delim"
  have rot: "delim @ ?T = ?R @ delim" unfolding delimited_def by (rule concat_rotate)
  have lT: "length ?T = length ?R" using arg_cong [OF rot, of length] by simp
  have nT: "?n \<le> length ?T" and T64: "length ?T < 2 ^ 62"
    using w small length_delimited [OF w(1), of delim] by (cases "w_starts w"; simp)+
  have moved: "u64 (int (length ?T) - int ?n) = length ?T - ?n" using nT T64 by (subst u64_id) auto
  have tail: "drop (length ?T - ?n) ?T = delim"
  proof -
    have "drop (length ?R) (delim @ ?T) = delim" unfolding rot by simp
    then show ?thesis using lT nT by simp
  qed
  have head: "delim @ take (length ?T - ?n) ?T = ?R"
  proof -
    have "take (length ?R) (delim @ ?T) = ?R" unfolding rot by simp
    then show ?thesis using lT nT by simp
  qed
  have c1: "copy_cells ?T 0 (replicate (length ?T) 0) ?n (length ?T - ?n) = Some (replicate ?n 0 @ take (length ?T - ?n) ?T)"
    using nT by (simp add: copy_cells_eq)
  have c2: "copy_cells ?T (length ?T - ?n) (replicate ?n 0 @ take (length ?T - ?n) ?T) 0 ?n = Some ?R"
    using nT tail head by (simp add: copy_cells_eq)
  have l: "map length (map (\<lambda>u. delim @ u) (words_of w)) = map (\<lambda>l. l + ?n) (w_lens w)"
    by (simp add: lens_words_of [OF w(1), symmetric] add.commute)
  have s: "block_start delim w = (\<lambda>i. sum_list (map length (take i (map (\<lambda>u. delim @ u) (words_of w)))))"
    by (rule ext) (simp add: block_start_def take_map comp_def add.commute)
  show ?thesis
    unfolding prepend_def concat_words_eq [OF w(1)] Let_def bind.bind_lunit prod.case moved c1 c2 column_def l [symmetric]
    using w(1) by (simp add: s)
qed

text \<open>Without words nothing can be rotated: the number of cells to move wraps.\<close>

lemma prepend_no_words:
  assumes "w_starts w = []" "delim \<noteq> []" "length delim < 2 ^ 62"
  shows "prepend c w delim = None"
proof -
  have "u64 (0 - int (length delim)) = nat (2 ^ 64 - int (length delim))"
    using assms by (subst u64_neg) auto
  then obtain m where "u64 (- int (length delim)) = Suc m" using assms(3) by (cases "nat (2 ^ 64 - int (length delim))") auto
  then have "copy_cells ([] :: int list) 0 [] (length delim) (u64 (- int (length delim))) = None"
    by (simp add: copy_cells_def upt_conv_Cons rd_def del: upt_Suc)
  then show ?thesis using assms(1) by (simp add: prepend_def concat_words_def Let_def)
qed

end

text \<open>Documents.\<close>

lemma concat_docs_eq:
  assumes w: "words_ok w"
  shows "concat_docs (w_chars w) (w_starts w) (w_lens w) del =
    Some (delimited [del] w, map (block_start [del] w) [0..<length (w_starts w)])"
proof -
  let ?k = "length (w_starts w)"
  let ?X = "\<lambda>i. concat (map (\<lambda>u. u @ [del]) (take i (words_of w)))"
  have ll: "length (w_lens w) = ?k" using w by (simp add: words_ok_def)
  have wl: "length (words_of w) = ?k" using w by simp
  have N: "length (delimited [del] w) = sum_list (w_lens w) + ?k" using length_delimited [OF w, of "[del]"] by simp
  let ?body = "\<lambda>i (ret, doc_start, crnt_pos). do {
         doc_start \<leftarrow> wr doc_start i crnt_pos;
         s \<leftarrow> rd (w_starts w) i;
         l \<leftarrow> rd (w_lens w) i;
         ret \<leftarrow> copy_cells (w_chars w) s ret crnt_pos l;
         ret \<leftarrow> wr ret (crnt_pos + l) del;
         Some (ret, doc_start, crnt_pos + (l + 1)) }"
  let ?I = "\<lambda>i (ret, ds, pos). pos = length (?X i) \<and> length ret = length (delimited [del] w) \<and> take pos ret = ?X i \<and>
    ds = map (block_start [del] w) [0..<i] @ replicate (?k - i) 0"
  have bs: "block_start [del] w i = length (?X i)" for i
    by (simp add: block_start_def length_concat comp_def)
  have "ok (for_each ?body [0..<?k] (replicate (length (delimited [del] w)) 0, replicate ?k 0, 0)) (?I ?k)"
  proof (rule ok_for_range [where I = ?I])
    fix i st assume i: "0 \<le> i" "i < ?k" and st: "?I i st"
    obtain ret ds pos where st': "st = (ret, ds, pos)" by (cases st)
    let ?s = "w_starts w ! i" and ?l = "w_lens w ! i" and ?u = "words_of w ! i"
    have u: "?u = take ?l (drop ?s (w_chars w))" "length ?u = ?l" "?s + ?l \<le> length (w_chars w)"
      using w i length_nth_words_of [OF w i(2)] by (auto simp: nth_words_of word_at_def words_ok_def)
    define X where "X = ?X i"
    have st2: "pos = length X" "length ret = length (delimited [del] w)" "take pos ret = X"
      "ds = map (block_start [del] w) [0..<i] @ replicate (?k - i) 0"
      using st unfolding st' prod.case X_def by blast+
    have X: "?X (Suc i) = X @ ?u @ [del]" using i wl by (simp add: take_Suc_conv_app_nth X_def)
    have "length (?X (Suc i)) \<le> length (?X (Suc i) @ concat (map (\<lambda>u. u @ [del]) (drop (Suc i) (words_of w))))" by simp
    also have "?X (Suc i) @ concat (map (\<lambda>u. u @ [del]) (drop (Suc i) (words_of w))) = delimited [del] w"
      unfolding delimited_def by (metis append_take_drop_id concat_append map_append)
    finally have room: "pos + ?l < length ret" unfolding X st2(1,2) using u(2) by simp
    have "copy_cells (w_chars w) ?s ret pos ?l = Some (X @ ?u @ drop (pos + ?l) ret)"
      using u(3) room by (simp add: copy_cells_eq st2(3) u(1) [symmetric])
    moreover have "drop (pos + ?l) ret = ret ! (pos + ?l) # drop (Suc (pos + ?l)) ret" using room by (simp add: Cons_nth_drop_Suc)
    then have "(X @ ?u @ drop (pos + ?l) ret)[pos + ?l := del] = X @ ?u @ del # drop (Suc (pos + ?l)) ret"
      using u(2) st2(1) by (simp add: list_update_append)
    moreover have "ds[i := pos] = map (block_start [del] w) [0..<Suc i] @ replicate (?k - Suc i) 0"
      using st2(1,4) i bs [of i] by (cases "?k - i") (auto simp: list_update_append X_def)
    moreover have "i < length ds" using st2(4) i by simp
    moreover have "pos + ?l < length (X @ ?u @ drop (pos + ?l) ret)" using u(2) st2(1) room by simp
    ultimately have "?body i st = Some (X @ ?u @ del # drop (Suc (pos + ?l)) ret,
        map (block_start [del] w) [0..<Suc i] @ replicate (?k - Suc i) 0, pos + (?l + 1))"
      using i ll unfolding st' prod.case by (simp add: wr_def rd_def)
    moreover have "pos + (?l + 1) = length (?X (Suc i))" "length (X @ ?u @ del # drop (Suc (pos + ?l)) ret) = length (delimited [del] w)"
      "take (pos + (?l + 1)) (X @ ?u @ del # drop (Suc (pos + ?l)) ret) = ?X (Suc i)"
      unfolding X using u(2) st2(1,2) room by simp_all
    ultimately show "ok (?body i st) (?I (Suc i))" by simp
  qed simp_all
  then obtain st where r0: "for_each ?body [0..<?k] (replicate (length (delimited [del] w)) 0, replicate ?k 0, 0) = Some st"
    "?I ?k st" by (rule okE)
  obtain ret ds pos where st: "st = (ret, ds, pos)" by (cases st)
  note r = r0 [unfolded st prod.case]
  have X: "?X ?k = delimited [del] w" using wl by (simp add: delimited_def)
  have "ret = delimited [del] w \<and> ds = map (block_start [del] w) [0..<?k]" using r(2) unfolding X by auto
  then show ?thesis
    using r(1) unfolding concat_docs_def Let_def sum_loop [OF ll] bind.bind_lunit N by simp
qed

end
