(* ===== verification/WordsHcat.thy ===== *)
theory WordsHcat
  imports WordsConcat
begin

text \<open>
  \<open>horizontal_concat_words\<close> of text/words.cc: word \<open>j\<close> of the result is the concatenation of the words
  \<open>j\<close> of all columns.
\<close>

text \<open>The intermediate column: the words of all columns, interleaved.\<close>

definition shift_of :: "words list \<Rightarrow> nat \<Rightarrow> nat" where
  "shift_of ws i = sum_list (map length (take i (map w_chars ws)))"

definition interleaved :: "words list \<Rightarrow> nat \<Rightarrow> words" where
  "interleaved ws m = \<lparr>w_chars = concat (map w_chars ws),
     w_starts = map (\<lambda>p. w_starts (ws ! (p mod length ws)) ! (p div length ws) + shift_of ws (p mod length ws)) [0..<m * length ws],
     w_lens = map (\<lambda>p. w_lens (ws ! (p mod length ws)) ! (p div length ws)) [0..<m * length ws]\<rparr>"

lemma interleaved_words:
  assumes ws: "\<forall>w\<in>set ws. words_ok w \<and> length (w_starts w) = m" "ws \<noteq> []"
  shows "words_ok (interleaved ws m) \<and>
    words_of (interleaved ws m) = map (\<lambda>p. words_of (ws ! (p mod length ws)) ! (p div length ws)) [0..<m * length ws]"
proof -
  let ?k = "length ws" and ?cs = "map w_chars ws"
  have word: "w_starts (ws ! (p mod ?k)) ! (p div ?k) + w_lens (ws ! (p mod ?k)) ! (p div ?k) \<le> length (w_chars (ws ! (p mod ?k)))"
      "p mod ?k < ?k" "p div ?k < m" "p div ?k < length (w_lens (ws ! (p mod ?k)))" "p div ?k < length (w_starts (ws ! (p mod ?k)))"
    if "p < m * ?k" for p
  proof -
    show i: "p mod ?k < ?k" using ws(2) by simp
    show j: "p div ?k < m" using that by (simp add: less_mult_imp_div_less)
    have "words_ok (ws ! (p mod ?k))" "length (w_starts (ws ! (p mod ?k))) = m" using ws(1) nth_mem [OF i] by blast+
    then show "w_starts (ws ! (p mod ?k)) ! (p div ?k) + w_lens (ws ! (p mod ?k)) ! (p div ?k) \<le> length (w_chars (ws ! (p mod ?k)))"
      "p div ?k < length (w_lens (ws ! (p mod ?k)))" "p div ?k < length (w_starts (ws ! (p mod ?k)))"
      using j by (simp_all add: words_ok_def)
  qed
  have inside: "shift_of ws i + length (w_chars (ws ! i)) \<le> length (concat ?cs)" if "i < ?k" for i
    using block_end [of i ?cs] that by (simp add: shift_of_def)
  have ok: "words_ok (interleaved ws m)"
    unfolding words_ok_def
  proof (intro conjI allI impI)
    fix p assume "p < length (w_starts (interleaved ws m))"
    then have p: "p < m * ?k" by (simp add: interleaved_def)
    show "w_starts (interleaved ws m) ! p + w_lens (interleaved ws m) ! p \<le> length (w_chars (interleaved ws m))"
      using word [OF p] inside [of "p mod ?k"] p by (simp add: interleaved_def)
  qed (simp add: interleaved_def)
  moreover have "words_of (interleaved ws m) = map (\<lambda>p. words_of (ws ! (p mod ?k)) ! (p div ?k)) [0..<m * ?k]"
  proof (rule nth_equalityI)
    show "length (words_of (interleaved ws m)) = length (map (\<lambda>p. words_of (ws ! (p mod ?k)) ! (p div ?k)) [0..<m * ?k])"
      using ok by (simp add: interleaved_def)
    fix p assume "p < length (words_of (interleaved ws m))"
    then have p: "p < m * ?k" using ok by (simp add: interleaved_def)
    note w = word [OF p]
    have "word_at (concat ?cs) (shift_of ws (p mod ?k) + w_starts (ws ! (p mod ?k)) ! (p div ?k), w_lens (ws ! (p mod ?k)) ! (p div ?k)) =
        word_at (w_chars (ws ! (p mod ?k))) (w_starts (ws ! (p mod ?k)) ! (p div ?k), w_lens (ws ! (p mod ?k)) ! (p div ?k))"
      using blocks_of_range [of "p mod ?k" ?cs "w_starts (ws ! (p mod ?k)) ! (p div ?k)" "w_lens (ws ! (p mod ?k)) ! (p div ?k)"] w
      by (simp add: shift_of_def)
    then show "words_of (interleaved ws m) ! p = map (\<lambda>p. words_of (ws ! (p mod ?k)) ! (p div ?k)) [0..<m * ?k] ! p"
      using p w by (simp add: nth_words_of interleaved_def add.commute)
  qed
  ultimately show ?thesis by blast
qed

lemma interleave_loop:
  assumes ws: "\<forall>w\<in>set ws. words_ok w \<and> length (w_starts w) = m" "ws \<noteq> []"
    and pfx: "length pfx = Suc (length ws)" "\<And>i. i < length ws \<Longrightarrow> pfx ! i = shift_of ws i"
  shows "for_each (\<lambda>i st. do {
              w \<leftarrow> rd ws i;
              starts_shift \<leftarrow> rd pfx i;
              for_each (\<lambda>j (starts, lens). do {
                  s \<leftarrow> rd (w_starts w) j;
                  starts \<leftarrow> wr starts (length ws * j + i) (s + starts_shift);
                  l \<leftarrow> rd (w_lens w) j;
                  lens \<leftarrow> wr lens (length ws * j + i) l;
                  Some (starts, lens) }) [0..<m] st })
            [0..<length ws] (replicate (m * length ws) 0, replicate (m * length ws) 0)
    = Some (w_starts (interleaved ws m), w_lens (interleaved ws m))"
proof -
  let ?k = "length ws" and ?S = "w_starts (interleaved ws m)" and ?L = "w_lens (interleaved ws m)"
  let ?A = "\<lambda>D st. agrees ?S D (fst st) \<and> agrees ?L D (snd st)"
  let ?cell = "\<lambda>i w sh j (starts, lens). do {
                  s \<leftarrow> rd (w_starts w) j;
                  starts \<leftarrow> wr starts (?k * j + i) (s + sh);
                  l \<leftarrow> rd (w_lens w) j;
                  lens \<leftarrow> wr lens (?k * j + i) l;
                  Some (starts, lens) }"
  have SL: "length ?S = m * ?k" "length ?L = m * ?k" by (simp_all add: interleaved_def)
  have cell: "ok (?cell i (ws ! i) (shift_of ws i) j st) (?A (D \<union> {?k * j + i}))"
    if i: "i < ?k" and j: "j \<in> set [0..<m]" and st: "?A D st" for i j st D
  proof -
    have w: "words_ok (ws ! i)" "length (w_starts (ws ! i)) = m" using ws(1) nth_mem [OF i] by blast+
    have "?k * j + i < ?k * Suc j" using i by simp
    also have "?k * Suc j \<le> ?k * m" using j by (intro mult_le_mono2) simp
    finally have p: "?k * j + i < m * ?k" by (simp add: mult.commute)
    have m: "(?k * j + i) mod ?k = i" "(?k * j + i) div ?k = j" using i ws(2) by simp_all
    have v: "?S ! (?k * j + i) = w_starts (ws ! i) ! j + shift_of ws i" "?L ! (?k * j + i) = w_lens (ws ! i) ! j"
      using p m by (simp_all add: interleaved_def)
    have "ok (wr (fst st) (?k * j + i) (w_starts (ws ! i) ! j + shift_of ws i)) (agrees ?S (insert (?k * j + i) D))"
      "ok (wr (snd st) (?k * j + i) (w_lens (ws ! i) ! j)) (agrees ?L (insert (?k * j + i) D))"
      using st p v SL by (auto intro!: agrees_write)
    then show ?thesis using w j by (cases st) (auto simp: ok_bind words_ok_def ok_iff_ex)
  qed
  have row: "ok (do { w \<leftarrow> rd ws i; sh \<leftarrow> rd pfx i; for_each (?cell i w sh) [0..<m] st })
      (?A (D \<union> (\<Union>j\<in>set [0..<m]. {?k * j + i})))" if i: "i \<in> set [0..<?k]" and st: "?A D st" for i D st
  proof -
    have i': "i < ?k" using i by simp
    have "ok (for_each (?cell i (ws ! i) (shift_of ws i)) [0..<m] st) (?A (D \<union> (\<Union>j\<in>set [0..<m]. {?k * j + i})))"
      by (rule cover_for_each [where A = ?A]) (use cell [OF i'] st in auto)
    then show ?thesis using i' pfx by simp
  qed
  have "ok (for_each (\<lambda>i st. do { w \<leftarrow> rd ws i; sh \<leftarrow> rd pfx i; for_each (?cell i w sh) [0..<m] st }) [0..<?k]
      (replicate (m * ?k) 0, replicate (m * ?k) 0)) (?A ({} \<union> (\<Union>i\<in>set [0..<?k]. \<Union>j\<in>set [0..<m]. {?k * j + i})))"
    by (rule cover_for_each [where A = ?A]) (use row SL in \<open>auto simp: agrees_start\<close>)
  then obtain st where st: "for_each (\<lambda>i st. do { w \<leftarrow> rd ws i; sh \<leftarrow> rd pfx i; for_each (?cell i w sh) [0..<m] st }) [0..<?k]
      (replicate (m * ?k) 0, replicate (m * ?k) 0) = Some st"
    "?A ({} \<union> (\<Union>i\<in>set [0..<?k]. \<Union>j\<in>set [0..<m]. {?k * j + i})) st" by (rule okE)
  have all: "{0..<m * ?k} \<subseteq> {} \<union> (\<Union>i\<in>set [0..<?k]. \<Union>j\<in>set [0..<m]. {?k * j + i})"
  proof
    fix p assume "p \<in> {0..<m * ?k}"
    then have p: "p div ?k < m" "p mod ?k < ?k" using ws(2) by (simp_all add: less_mult_imp_div_less)
    have "p = ?k * (p div ?k) + p mod ?k" by simp
    then have "p \<in> {?k * (p div ?k) + p mod ?k}" by simp
    then have "p \<in> (\<Union>j\<in>set [0..<m]. {?k * j + p mod ?k})" by (rule UN_I [of "p div ?k", rotated]) (use p(1) in simp)
    then have "p \<in> (\<Union>i\<in>set [0..<?k]. \<Union>j\<in>set [0..<m]. {?k * j + i})" by (rule UN_I [of "p mod ?k", rotated]) (use p(2) in simp)
    then show "p \<in> {} \<union> (\<Union>i\<in>set [0..<?k]. \<Union>j\<in>set [0..<m]. {?k * j + i})" by simp
  qed
  have "fst st = ?S" "snd st = ?L"
    using agrees_all [of ?S _ "fst st"] agrees_all [of ?L _ "snd st"] st(2) all SL by auto
  then show ?thesis using st(1) by (metis prod.collapse)
qed

lemma hcat_lens_loop:
  assumes "\<forall>w\<in>set ws. length (w_lens w) = m"
  shows "for_each (\<lambda>i lens. do {
              w \<leftarrow> rd ws i;
              for_each (\<lambda>j lens. do { x \<leftarrow> rd lens j; l \<leftarrow> rd (w_lens w) j; wr lens j (x + l) }) [0..<m] lens })
            [0..<length ws] (replicate m 0)
    = Some (map (\<lambda>j. sum_list (map (\<lambda>w. w_lens w ! j) ws)) [0..<m])"
proof -
  let ?col = "\<lambda>w j lens. do { x \<leftarrow> rd lens j; l \<leftarrow> rd (w_lens w) j; wr lens j (x + l) }"
  have col: "for_each (?col w) [0..<m] (map f [0..<m]) = Some (map (\<lambda>j. f j + w_lens w ! j) [0..<m])"
    if "length (w_lens w) = m" for w f
  proof -
    let ?I = "\<lambda>k lens. lens = map (\<lambda>j. if j < k then f j + w_lens w ! j else f j) [0..<m]"
    have "ok (for_each (?col w) [0..<m] (map f [0..<m])) (?I m)"
    proof (rule ok_for_range [where I = ?I])
      fix k lens assume "0 \<le> k" "k < m" "?I k lens"
      then show "ok (?col w k lens) (?I (Suc k))"
        using that by (auto simp: ok_simps intro!: nth_equalityI simp: nth_list_update)
    qed simp_all
    then show ?thesis by (simp add: ok_eq)
  qed
  have "ok (for_each (\<lambda>i lens. do { w \<leftarrow> rd ws i; for_each (?col w) [0..<m] lens }) [0..<length ws] (replicate m 0))
    (\<lambda>lens. lens = map (\<lambda>j. sum_list (map (\<lambda>w. w_lens w ! j) (take (length ws) ws))) [0..<m])"
  proof (rule ok_for_range [where I = "\<lambda>i lens. lens = map (\<lambda>j. sum_list (map (\<lambda>w. w_lens w ! j) (take i ws))) [0..<m]"])
    show "replicate m 0 = map (\<lambda>j. sum_list (map (\<lambda>w. w_lens w ! j) (take 0 ws))) [0..<m]"
      by (simp add: map_replicate_const)
    fix i lens assume i: "i < length ws"
      and lens: "lens = map (\<lambda>j. sum_list (map (\<lambda>w. w_lens w ! j) (take i ws))) [0..<m]"
    then show "ok (do { w \<leftarrow> rd ws i; for_each (?col w) [0..<m] lens })
        (\<lambda>lens. lens = map (\<lambda>j. sum_list (map (\<lambda>w. w_lens w ! j) (take (Suc i) ws))) [0..<m])"
      using assms by (simp add: col take_Suc_conv_app_nth)
  qed simp_all
  then show ?thesis by (simp add: ok_eq)
qed

lemma hcat_chars_loop:
  assumes pfx: "length pfx = Suc (length ws)" "\<And>i. i < length ws \<Longrightarrow> pfx ! i = shift_of ws i"
  shows "for_each (\<lambda>i chars. do { w \<leftarrow> rd ws i; p \<leftarrow> rd pfx i; copy_cells (w_chars w) 0 chars p (length (w_chars w)) })
    [0..<length ws] (replicate (length (concat (map w_chars ws))) 0) = Some (concat (map w_chars ws))"
proof -
  let ?I = "\<lambda>k d. d = concat (map w_chars (take k ws)) @ replicate (sum_list (map (length \<circ> w_chars) (drop k ws))) 0"
  have "ok (for_each (\<lambda>i chars. do { w \<leftarrow> rd ws i; p \<leftarrow> rd pfx i; copy_cells (w_chars w) 0 chars p (length (w_chars w)) })
    [0..<length ws] (replicate (length (concat (map w_chars ws))) 0)) (?I (length ws))"
  proof (rule ok_for_range [where I = ?I])
    show "?I 0 (replicate (length (concat (map w_chars ws))) 0)" by (simp add: length_concat comp_def)
    fix k d assume k: "0 \<le> k" "k < length ws" and d: "?I k d"
    have "pfx ! k = length (concat (map w_chars (take k ws)))"
      using pfx k by (simp add: shift_of_def take_map length_concat comp_def)
    then show "ok (do { w \<leftarrow> rd ws k; p \<leftarrow> rd pfx k; copy_cells (w_chars w) 0 d p (length (w_chars w)) }) (?I (Suc k))"
      using append_blocks_step [OF k(2) d] k pfx by simp
  qed simp
  then show ?thesis by (simp add: ok_eq)
qed

text \<open>Word \<open>j\<close> of the result.\<close>

definition glued :: "words list \<Rightarrow> nat \<Rightarrow> int list list" where
  "glued ws m = map (\<lambda>j. concat (map (\<lambda>w. words_of w ! j) ws)) [0..<m]"

lemma take_drop_rows:
  assumes "j < m" "0 < (k :: nat)"
  shows "take k (drop (j * k) (map f [0..<m * k])) = map (\<lambda>i. f (j * k + i)) [0..<k]"
proof (rule nth_equalityI)
  have "Suc j * k \<le> m * k" using assms by (intro mult_le_mono1) simp
  then have r: "j * k + k \<le> m * k" by simp
  then show "length (take k (drop (j * k) (map f [0..<m * k]))) = length (map (\<lambda>i. f (j * k + i)) [0..<k])" by simp
  fix i assume "i < length (take k (drop (j * k) (map f [0..<m * k])))"
  then have i: "i < k" "j * k + i < m * k" using r by simp_all
  have "drop (j * k) (map f [0..<m * k]) ! i = map f [0..<m * k] ! (j * k + i)" by (rule nth_drop) (use assms in simp)
  then show "take k (drop (j * k) (map f [0..<m * k])) ! i = map (\<lambda>i. f (j * k + i)) [0..<k] ! i"
    using i by simp
qed

context words_build begin

lemma horizontal_concat_words_eq:
  assumes ws: "\<forall>w\<in>set ws. words_ok w \<and> length (w_starts w) = m" "ws \<noteq> []"
  shows "\<exists>r. horizontal_concat_words c ws = Some (Inr r) \<and> words_ok r \<and> words_of r = glued ws m"
proof -
  let ?k = "length ws" and ?T = "interleaved ws m" and ?xs = "map (length \<circ> w_chars) ws"
  have k: "0 < ?k" using ws(2) by simp
  have m0: "length (w_starts (ws ! 0)) = m" using ws by (metis nth_mem k)
  have same: "\<not> list_ex (\<lambda>w. length (w_starts w) \<noteq> m) (drop 1 ws)"
    using ws(1) by (auto simp: list_ex_iff dest: in_set_dropD)
  define pfx where "pfx = 0 # prefix_sums ?xs"
  have ps: "wc_prefix_sum c ?xs (drop 1 (replicate (?k + 1) 0)) ?k = Some (prefix_sums ?xs)"
    using prefix_sum [of "replicate ?k 0" ?xs] by simp
  have pfx: "length pfx = Suc ?k" "\<And>i. i \<le> ?k \<Longrightarrow> pfx ! i = shift_of ws i"
    unfolding pfx_def prefix_positions by (simp_all add: shift_of_def take_map comp_def del: upt_Suc)
  have tot: "pfx ! ?k = length (concat (map w_chars ws))"
    using pfx(2) [of ?k] by (simp add: shift_of_def length_concat comp_def)
  note T = interleaved_words [OF ws]
  have T1: "words_ok ?T" and T2: "words_of ?T = map (\<lambda>p. words_of (ws ! (p mod ?k)) ! (p div ?k)) [0..<m * ?k]"
    using T by blast+
  have Tlen: "length (w_starts ?T) = m * ?k" "w_chars ?T = concat (map w_chars ws)" by (simp_all add: interleaved_def)
  have cat: "concat_words c (concat (map w_chars ws)) (w_starts ?T) (w_lens ?T) [] =
      Some (delimited [] ?T, map (block_start [] ?T) [0..<m * ?k])"
    using concat_words_eq [OF T1, of "[]"] Tlen by simp
  have starts: "omap (\<lambda>i. rd (map (block_start [] ?T) [0..<m * ?k]) (i * ?k)) [0..<m] = Some (map (\<lambda>j. block_start [] ?T (j * ?k)) [0..<m])"
    by (rule omap_Some) (use k in simp)
  have lens: "\<forall>w\<in>set ws. length (w_lens w) = m" using ws(1) by (simp add: words_ok_def)
  let ?r = "\<lparr>w_chars = delimited [] ?T, w_starts = map (\<lambda>j. block_start [] ?T (j * ?k)) [0..<m],
     w_lens = map (\<lambda>j. sum_list (map (\<lambda>w. w_lens w ! j) ws)) [0..<m]\<rparr>"
  have run: "horizontal_concat_words c ws = Some (Inr ?r)"
    unfolding horizontal_concat_words_def Let_def
    using ws(2) k m0 same ps tot pfx interleave_loop [OF ws pfx(1) pfx(2)] hcat_chars_loop [OF pfx(1) pfx(2)] hcat_lens_loop [OF lens] cat starts
    by (simp add: pfx_def [symmetric])
  have row: "word_at (delimited [] ?T) (block_start [] ?T (j * ?k), sum_list (map (\<lambda>w. w_lens w ! j) ws)) = glued ws m ! j"
     "block_start [] ?T (j * ?k) + sum_list (map (\<lambda>w. w_lens w ! j) ws) \<le> length (delimited [] ?T)" if j: "j < m" for j
  proof -
    let ?us = "words_of ?T"
    have "Suc j * ?k \<le> m * ?k" using j by (intro mult_le_mono1) simp
    then have r: "j * ?k + ?k \<le> length ?us" by (simp add: T2)
    have row: "take ?k (drop (j * ?k) ?us) = map (\<lambda>w. words_of w ! j) ws"
    proof -
      have "take ?k (drop (j * ?k) ?us) = map (\<lambda>i. words_of (ws ! i) ! j) [0..<?k]"
        unfolding T2 take_drop_rows [OF j k] by (rule map_cong) (use k in simp_all)
      also have "\<dots> = map (\<lambda>w. words_of w ! j) (map ((!) ws) [0..<?k])" by (simp add: comp_def)
      finally show ?thesis by (simp add: map_nth)
    qed
    have l: "map length (map (\<lambda>w. words_of w ! j) ws) = map (\<lambda>w. w_lens w ! j) ws"
      using ws(1) j by (auto simp: length_nth_words_of)
    have bs: "block_start [] ?T (j * ?k) = sum_list (map length (take (j * ?k) ?us))" by (simp add: block_start_def)
    have d: "delimited [] ?T = concat ?us" by (simp add: delimited_def)
    show "word_at (delimited [] ?T) (block_start [] ?T (j * ?k), sum_list (map (\<lambda>w. w_lens w ! j) ws)) = glued ws m ! j"
      using word_of_blocks [OF r] j unfolding row l bs d by (simp add: glued_def)
    have us: "?us = take (j * ?k) ?us @ take ?k (drop (j * ?k) ?us) @ drop ?k (drop (j * ?k) ?us)" by (metis append_take_drop_id)
    have "sum_list (map length (take (j * ?k) ?us)) + sum_list (map length (take ?k (drop (j * ?k) ?us))) \<le> sum_list (map length ?us)"
      by (subst (3) us) simp
    then show "block_start [] ?T (j * ?k) + sum_list (map (\<lambda>w. w_lens w ! j) ws) \<le> length (delimited [] ?T)"
      unfolding row l bs d by (simp add: length_concat)
  qed
  have ok: "words_ok ?r" using row(2) by (simp add: words_ok_def)
  moreover have "words_of ?r = glued ws m"
  proof (rule nth_equalityI)
    show "length (words_of ?r) = length (glued ws m)" using ok by (simp add: glued_def)
    fix j assume "j < length (words_of ?r)"
    then have j: "j < m" using ok by simp
    then show "words_of ?r ! j = glued ws m ! j" using row(1) [OF j] by (simp add: nth_words_of)
  qed
  ultimately show ?thesis using run by blast
qed

end

end
