(* ===== verification/WordsTrim.thy ===== *)
theory WordsTrim
  imports WordsConcat
begin

text \<open>
  text/words.cc, trimming: \<open>trim_head\<close> and \<open>trim_tail\<close> remove the characters of a set from one end of
  every word, \<open>trim_noalpha_head\<close> and \<open>trim_noalpha_tail\<close> everything that is not a letter.  Every pass
  is a raked scan over the words that lost a character in the pass before; a word that loses
  another one is kept for the next pass, until no word is left.

  Locale \<open>span_trim\<close> is the contract of one end of a word; the four routines are instances.
\<close>

subsection \<open>The code\<close>

text \<open>
  One pass.  The words still to be looked at are the first \<open>size\<close> entries of \<open>crnt\<close>; \<open>work\<close> is written
  before it is read in every pass, so it is created anew here.
\<close>

definition trim_pass ::
  "nat \<Rightarrow> (nat list \<Rightarrow> nat \<Rightarrow> nat list \<times> nat list \<Rightarrow> 'f option) \<Rightarrow>
   (nat list \<Rightarrow> nat \<Rightarrow> 'f \<Rightarrow> nat list \<times> nat list \<Rightarrow> ((nat list \<times> nat list) \<times> nat option) option) \<Rightarrow>
   nat \<times> nat list \<times> nat list \<times> nat list \<Rightarrow> (nat \<times> nat list \<times> nat list \<times> nat list) option" where
  "trim_pass V probe commit = (\<lambda>(size', crnt, starts, lens). do {
     let each = words_each V size';
     let rest = size' - each * V;
     ((starts, lens), tot, crnt) \<leftarrow> rake_compact V [0..<V] (probe crnt) (commit crnt) each rest (starts, lens)
                                     (replicate (length crnt) 0) (\<lambda>_. crnt);
     Some (tot, crnt, starts, lens) })"

definition trim_loop ::
  "nat \<Rightarrow> (nat list \<Rightarrow> nat \<Rightarrow> nat list \<times> nat list \<Rightarrow> 'f option) \<Rightarrow>
   (nat list \<Rightarrow> nat \<Rightarrow> 'f \<Rightarrow> nat list \<times> nat list \<Rightarrow> ((nat list \<times> nat list) \<times> nat option) option) \<Rightarrow>
   nat list \<Rightarrow> nat list \<Rightarrow> nat \<Rightarrow> (nat list \<times> nat list) option" where
  "trim_loop V probe commit starts lens num_words = do {
     (_, _, starts, lens) \<leftarrow> cwhile (\<lambda>(size', _). size' > 0) (trim_pass V probe commit) (num_words, [0..<num_words], starts, lens);
     Some (starts, lens) }"

text \<open>Trimming a set of characters: the flag of a lane is set when its first (last) character is one of them.\<close>

definition trim_flag :: "int list \<Rightarrow> int list \<Rightarrow> nat list \<Rightarrow> nat list \<Rightarrow> (nat \<Rightarrow> nat \<Rightarrow> nat) \<Rightarrow> nat \<Rightarrow> bool option" where
  "trim_flag vp to_trim starts lens place pos =
     for_each (\<lambda>k flag. do {
         l \<leftarrow> rd lens pos;
         if l > 0 then do {
           s \<leftarrow> rd starts pos;
           ch \<leftarrow> rd vp (place s l);
           t \<leftarrow> rd to_trim k;
           Some (if ch = t then True else flag) }
         else Some flag }) [0..<length to_trim] False"

definition trim_head_probe :: "int list \<Rightarrow> int list \<Rightarrow> nat list \<Rightarrow> nat \<Rightarrow> nat list \<times> nat list \<Rightarrow> (nat \<times> bool) option" where
  "trim_head_probe vp to_trim crnt i = (\<lambda>(starts, lens). do {
     pos \<leftarrow> rd crnt i;
     flag \<leftarrow> trim_flag vp to_trim starts lens (\<lambda>s l. s) pos;
     Some (pos, flag) })"

definition trim_head_commit ::
  "nat list \<Rightarrow> nat \<Rightarrow> nat \<times> bool \<Rightarrow> nat list \<times> nat list \<Rightarrow> ((nat list \<times> nat list) \<times> nat option) option" where
  "trim_head_commit crnt i = (\<lambda>(pos, flag) (starts, lens).
     if flag then do {
       s \<leftarrow> rd starts pos;
       starts \<leftarrow> wr starts pos (s + 1);
       l \<leftarrow> rd lens pos;
       lens \<leftarrow> wr lens pos (l - 1);
       Some ((starts, lens), Some pos) }
     else Some ((starts, lens), None))"

definition trim_tail_probe :: "int list \<Rightarrow> int list \<Rightarrow> nat list \<Rightarrow> nat \<Rightarrow> nat list \<times> nat list \<Rightarrow> (nat \<times> bool) option" where
  "trim_tail_probe vp to_trim crnt i = (\<lambda>(starts, lens). do {
     pos \<leftarrow> rd crnt i;
     flag \<leftarrow> trim_flag vp to_trim starts lens (\<lambda>s l. s + l - 1) pos;
     Some (pos, flag) })"

definition trim_tail_commit ::
  "nat list \<Rightarrow> nat \<Rightarrow> nat \<times> bool \<Rightarrow> nat list \<times> nat list \<Rightarrow> ((nat list \<times> nat list) \<times> nat option) option" where
  "trim_tail_commit crnt i = (\<lambda>(pos, flag) (starts, lens).
     if flag then do {
       l \<leftarrow> rd lens pos;
       lens \<leftarrow> wr lens pos (l - 1);
       Some ((starts, lens), Some pos) }
     else Some ((starts, lens), None))"

definition trim_head :: "nat \<Rightarrow> int list \<Rightarrow> nat list \<Rightarrow> nat list \<Rightarrow> int list \<Rightarrow> (string + nat list \<times> nat list) option" where
  "trim_head V vp starts lens to_trim =
     (if length starts \<noteq> length lens then Some (Inl ''size of starts and lens are diffent'')
      else do { r \<leftarrow> trim_loop V (trim_head_probe vp to_trim) trim_head_commit starts lens (length starts); Some (Inr r) })"

definition trim_tail :: "nat \<Rightarrow> int list \<Rightarrow> nat list \<Rightarrow> nat list \<Rightarrow> int list \<Rightarrow> (string + nat list \<times> nat list) option" where
  "trim_tail V vp starts lens to_trim =
     (if length starts \<noteq> length lens then Some (Inl ''size of starts and lens are diffent'')
      else do { r \<leftarrow> trim_loop V (trim_tail_probe vp to_trim) trim_tail_commit starts lens (length starts); Some (Inr r) })"

definition trim :: "nat \<Rightarrow> int list \<Rightarrow> nat list \<Rightarrow> nat list \<Rightarrow> int list \<Rightarrow> (string + nat list \<times> nat list) option" where
  "trim V vp starts lens to_trim =
     (if length starts \<noteq> length lens then Some (Inl ''size of starts and lens are diffent'')
      else do {
        (starts, lens) \<leftarrow> trim_loop V (trim_head_probe vp to_trim) trim_head_commit starts lens (length starts);
        r \<leftarrow> trim_loop V (trim_tail_probe vp to_trim) trim_tail_commit starts lens (length starts);
        Some (Inr r) })"

text \<open>Trimming what is not a letter: the character is loaded before the length is tested.\<close>

definition is_noalpha :: "int \<Rightarrow> bool" where
  "is_noalpha ch \<longleftrightarrow> ch < 65 \<or> ch > 122 \<or> (ch < 97 \<and> ch > 90)"

definition noalpha_probe :: "nat list \<Rightarrow> nat \<Rightarrow> nat list \<times> nat list \<Rightarrow> unit option" where
  "noalpha_probe crnt i st = Some ()"

definition noalpha_head_commit ::
  "int list \<Rightarrow> nat list \<Rightarrow> nat \<Rightarrow> unit \<Rightarrow> nat list \<times> nat list \<Rightarrow> ((nat list \<times> nat list) \<times> nat option) option" where
  "noalpha_head_commit vp crnt i flag = (\<lambda>(starts, lens). do {
     pos \<leftarrow> rd crnt i;
     s \<leftarrow> rd starts pos;
     loaded \<leftarrow> rd vp s;
     l \<leftarrow> rd lens pos;
     if l > 0 \<and> is_noalpha loaded then do {
       starts \<leftarrow> wr starts pos (s + 1);
       lens \<leftarrow> wr lens pos (l - 1);
       Some ((starts, lens), Some pos) }
     else Some ((starts, lens), None) })"

definition noalpha_tail_commit ::
  "int list \<Rightarrow> nat list \<Rightarrow> nat \<Rightarrow> unit \<Rightarrow> nat list \<times> nat list \<Rightarrow> ((nat list \<times> nat list) \<times> nat option) option" where
  "noalpha_tail_commit vp crnt i flag = (\<lambda>(starts, lens). do {
     pos \<leftarrow> rd crnt i;
     s \<leftarrow> rd starts pos;
     l \<leftarrow> rd lens pos;
     loaded \<leftarrow> rd vp (u64 (int s + int l - 1));
     if l > 0 \<and> is_noalpha loaded then do {
       lens \<leftarrow> wr lens pos (l - 1);
       Some ((starts, lens), Some pos) }
     else Some ((starts, lens), None) })"

definition trim_noalpha_head :: "nat \<Rightarrow> int list \<Rightarrow> nat list \<Rightarrow> nat list \<Rightarrow> (string + nat list \<times> nat list) option" where
  "trim_noalpha_head V vp starts lens =
     (if length starts \<noteq> length lens then Some (Inl ''size of starts and lens are diffent'')
      else do { r \<leftarrow> trim_loop V noalpha_probe (noalpha_head_commit vp) starts lens (length starts); Some (Inr r) })"

definition trim_noalpha_tail :: "nat \<Rightarrow> int list \<Rightarrow> nat list \<Rightarrow> nat list \<Rightarrow> (string + nat list \<times> nat list) option" where
  "trim_noalpha_tail V vp starts lens =
     (if length starts \<noteq> length lens then Some (Inl ''size of starts and lens are diffent'')
      else do { r \<leftarrow> trim_loop V noalpha_probe (noalpha_tail_commit vp) starts lens (length starts); Some (Inr r) })"

definition trim_noalpha :: "nat \<Rightarrow> int list \<Rightarrow> nat list \<Rightarrow> nat list \<Rightarrow> (string + nat list \<times> nat list) option" where
  "trim_noalpha V vp starts lens =
     (if length starts \<noteq> length lens then Some (Inl ''size of starts and lens are diffent'')
      else do {
        (starts, lens) \<leftarrow> trim_loop V noalpha_probe (noalpha_head_commit vp) starts lens (length starts);
        r \<leftarrow> trim_loop V noalpha_probe (noalpha_tail_commit vp) starts lens (length starts);
        Some (Inr r) })"

subsection \<open>The contract of one end\<close>

definition span_at :: "nat list \<times> nat list \<Rightarrow> nat \<Rightarrow> nat \<times> nat" where
  "span_at st p = (fst st ! p, snd st ! p)"

definition put_span :: "nat list \<times> nat list \<Rightarrow> nat \<Rightarrow> nat \<times> nat \<Rightarrow> nat list \<times> nat list" where
  "put_span st p sp = ((fst st)[p := fst sp], (snd st)[p := snd sp])"

definition spans_len :: "nat \<Rightarrow> nat list \<times> nat list \<Rightarrow> bool" where
  "spans_len N st \<longleftrightarrow> length (fst st) = N \<and> length (snd st) = N"

text \<open>
  \<open>step\<close> removes one character of a span, if it has to be removed; \<open>result\<close> is the span in the end; only
  \<open>good\<close> spans may be looked at.
\<close>

locale span_trim =
  fixes probe :: "nat list \<Rightarrow> nat \<Rightarrow> nat list \<times> nat list \<Rightarrow> 'f option"
    and commit :: "nat list \<Rightarrow> nat \<Rightarrow> 'f \<Rightarrow> nat list \<times> nat list \<Rightarrow> ((nat list \<times> nat list) \<times> nat option) option"
    and F :: "nat \<Rightarrow> nat \<times> nat \<Rightarrow> 'f"
    and step :: "nat \<times> nat \<Rightarrow> (nat \<times> nat) option"
    and result :: "nat \<times> nat \<Rightarrow> nat \<times> nat"
    and good :: "nat \<times> nat \<Rightarrow> bool"
  assumes probe_eq: "i < length crnt \<Longrightarrow> crnt ! i < N \<Longrightarrow> spans_len N st \<Longrightarrow> good (span_at st (crnt ! i)) \<Longrightarrow>
      probe crnt i st = Some (F (crnt ! i) (span_at st (crnt ! i)))"
    and commit_eq: "i < length crnt \<Longrightarrow> crnt ! i < N \<Longrightarrow> spans_len N st \<Longrightarrow> good (span_at st (crnt ! i)) \<Longrightarrow>
      commit crnt i (F (crnt ! i) (span_at st (crnt ! i))) st = Some (case step (span_at st (crnt ! i)) of
        None \<Rightarrow> (st, None) | Some sp \<Rightarrow> (put_span st (crnt ! i) sp, Some (crnt ! i)))"
    and step_smaller: "step sp = Some sp' \<Longrightarrow> snd sp' < snd sp"
    and step_good: "good sp \<Longrightarrow> step sp = Some sp' \<Longrightarrow> good sp'"
    and result_step: "good sp \<Longrightarrow> step sp = Some sp' \<Longrightarrow> result sp = result sp'"
    and result_end: "good sp \<Longrightarrow> step sp = None \<Longrightarrow> result sp = sp"
begin

definition stepped :: "nat \<times> nat \<Rightarrow> nat \<times> nat" where
  "stepped sp = (case step sp of None \<Rightarrow> sp | Some sp' \<Rightarrow> sp')"

definition moving :: "nat list \<times> nat list \<Rightarrow> nat \<Rightarrow> bool" where
  "moving st p \<longleftrightarrow> step (span_at st p) \<noteq> None"

text \<open>The state of a pass that has handled the entries \<open>D\<close> of \<open>crnt\<close>.\<close>

definition pass_inv :: "nat \<Rightarrow> nat list \<Rightarrow> nat list \<times> nat list \<Rightarrow> nat set \<Rightarrow> nat list \<times> nat list \<Rightarrow> bool" where
  "pass_inv N crnt st0 D st \<longleftrightarrow> spans_len N st \<and>
     (\<forall>p<N. span_at st p = (if p \<in> (!) crnt ` D then stepped (span_at st0 p) else span_at st0 p))"

lemma pass_visit:
  assumes crnt: "n \<le> length crnt" "distinct (take n crnt)" "\<forall>p\<in>set (take n crnt). p < N \<and> good (span_at st0 p)"
  shows "rake_visit n (probe crnt) (commit crnt) (\<lambda>i. F (crnt ! i) (span_at st0 (crnt ! i)))
    (\<lambda>i. if moving st0 (crnt ! i) then Some (crnt ! i) else None) (\<lambda>D st. D \<subseteq> {0..<n} \<and> pass_inv N crnt st0 D st)"
proof
  fix D st i
  assume inv: "D \<subseteq> {0..<n} \<and> pass_inv N crnt st0 D st" and i: "i < n" "i \<notin> D"
  have il: "i < length crnt" using i crnt by simp
  have "crnt ! i \<in> set (take n crnt)" using crnt(1) i(1) by (metis in_set_conv_nth length_take min.absorb2 nth_take)
  then have p: "crnt ! i < N" "good (span_at st0 (crnt ! i))" using crnt(3) by blast+
  have "crnt ! i \<noteq> crnt ! j" if "j \<in> D" for j
  proof -
    have "j < n" "j \<noteq> i" using that inv i by auto
    then show ?thesis using crnt(1,2) i(1) by (auto simp: distinct_conv_nth)
  qed
  then have fresh: "crnt ! i \<notin> (!) crnt ` D" by auto
  then have same: "span_at st (crnt ! i) = span_at st0 (crnt ! i)" using inv p by (simp add: pass_inv_def)
  have len: "spans_len N st" using inv by (simp add: pass_inv_def)
  show "probe crnt i st = Some (F (crnt ! i) (span_at st0 (crnt ! i)))"
    using probe_eq [OF il p(1) len] p(2) same by simp
  have c: "commit crnt i (F (crnt ! i) (span_at st0 (crnt ! i))) st = Some (case step (span_at st0 (crnt ! i)) of
        None \<Rightarrow> (st, None) | Some sp \<Rightarrow> (put_span st (crnt ! i) sp, Some (crnt ! i)))"
    using commit_eq [OF il p(1) len] p(2) same by simp
  have next_inv: "pass_inv N crnt st0 (insert i D) (put_span st (crnt ! i) (stepped (span_at st0 (crnt ! i))))"
    using inv len p(1) unfolding pass_inv_def
    by (auto simp: put_span_def span_at_def spans_len_def nth_list_update)
  have put_same: "put_span st (crnt ! i) (span_at st0 (crnt ! i)) = st" unfolding same [symmetric]
    by (simp add: put_span_def span_at_def)
  show "ok (commit crnt i (F (crnt ! i) (span_at st0 (crnt ! i))) st)
      (\<lambda>(s', out). out = (if moving st0 (crnt ! i) then Some (crnt ! i) else None) \<and> insert i D \<subseteq> {0..<n} \<and> pass_inv N crnt st0 (insert i D) s')"
    using c next_inv put_same inv i(1) by (auto simp: moving_def stepped_def split: option.splits)
qed

text \<open>
  Between two passes: what is not in \<open>crnt\<close> any more is finished, and no span has changed its result.
\<close>

definition loop_inv :: "nat \<Rightarrow> nat list \<times> nat list \<Rightarrow> nat \<times> nat list \<times> nat list \<times> nat list \<Rightarrow> bool" where
  "loop_inv N st0 = (\<lambda>(n, crnt, st). length crnt = N \<and> n \<le> N \<and> distinct (take n crnt) \<and> set (take n crnt) \<subseteq> {0..<N} \<and>
     spans_len N st \<and> (\<forall>p<N. good (span_at st p) \<and> result (span_at st p) = result (span_at st0 p) \<and>
       (p \<notin> set (take n crnt) \<longrightarrow> step (span_at st p) = None)))"

definition loop_measure :: "nat \<Rightarrow> nat \<times> nat list \<times> nat list \<times> nat list \<Rightarrow> nat" where
  "loop_measure N = (\<lambda>(n, crnt, st). n + (\<Sum>p<N. snd (span_at st p)))"

lemma stepped_facts:
  assumes "good sp"
  shows "good (stepped sp)" "result (stepped sp) = result sp" "snd (stepped sp) \<le> snd sp"
    and "step sp \<noteq> None \<Longrightarrow> snd (stepped sp) < snd sp"
  using assms step_smaller [of sp] step_good [of sp] result_step [of sp] less_imp_le [of "snd (stepped sp)" "snd sp"]
  by (cases "step sp"; simp add: stepped_def)+

lemma pass_hits:
  assumes "n \<le> length crnt"
  shows "hits (\<lambda>i. if moving st (crnt ! i) then Some (crnt ! i) else None) [0..<n] = filter (moving st) (take n crnt)"
proof -
  have "map ((!) crnt) [0..<n] = take n crnt" by (rule nth_equalityI) (use assms in simp_all)
  moreover have "filter (moving st) (map ((!) crnt) [0..<n]) = map ((!) crnt) (filter (\<lambda>i. moving st (crnt ! i)) [0..<n])"
    by (simp add: filter_map comp_def)
  ultimately show ?thesis by (simp add: hits_filter)
qed

lemma pass_spans:
  assumes "n \<le> length crnt" "pass_inv N crnt st {0..<n} st'" "p < N"
  shows "span_at st' p = (if p \<in> set (take n crnt) then stepped (span_at st p) else span_at st p)"
proof -
  have "map ((!) crnt) [0..<n] = take n crnt" by (rule nth_equalityI) (use assms(1) in simp_all)
  from arg_cong [OF this, of set] have "(!) crnt ` {0..<n} = set (take n crnt)" by simp
  then show ?thesis using assms by (simp add: pass_inv_def)
qed

lemma pass_ok:
  assumes inv: "loop_inv N st0 (n, crnt, st)" and n: "0 < n" and V: "0 < V"
  shows "ok (trim_pass V probe commit (n, crnt, st)) (\<lambda>x. loop_inv N st0 x \<and> loop_measure N x < loop_measure N (n, crnt, st))"
proof -
  let ?H = "filter (moving st) (take n crnt)"
  have i: "length crnt = N" "n \<le> N" "n \<le> length crnt" "distinct (take n crnt)" "set (take n crnt) \<subseteq> {0..<N}" "spans_len N st"
    and g: "\<And>p. p < N \<Longrightarrow> good (span_at st p)" "\<And>p. p < N \<Longrightarrow> result (span_at st p) = result (span_at st0 p)"
      "\<And>p. p < N \<Longrightarrow> p \<notin> set (take n crnt) \<Longrightarrow> step (span_at st p) = None"
    using inv by (auto simp: loop_inv_def)
  have cg: "\<forall>p\<in>set (take n crnt). p < N \<and> good (span_at st p)" using i(5) g(1) by auto
  have start: "{} \<subseteq> {0..<n} \<and> pass_inv N crnt st {} st" using i(6) by (simp add: pass_inv_def)
  have hn: "length ?H \<le> n" using length_filter_le [of "moving st" "take n crnt"] i(3) by simp
  note visit = rake_visit.compact_ok [OF pass_visit [OF i(3,4) cg], where s = st and V = V and each = "words_each V n" and
      rest = "n - words_each V n * V" and buf = "replicate (length crnt) 0" and lanes = "[0..<V]" and mk = "\<lambda>_. crnt"]
  have "ok (rake_compact V [0..<V] (probe crnt) (commit crnt) (words_each V n) (n - words_each V n * V) st (replicate (length crnt) 0) (\<lambda>_. crnt))
     (\<lambda>(s', tot, ret). pass_inv N crnt st {0..<n} s' \<and> tot = length ?H \<and> ret = ?H @ drop (length ?H) crnt)"
    by (rule ok_mono [OF visit]) (use start i words_each_le [of V n] in \<open>auto simp: pass_hits\<close>)
  then obtain st' where r: "rake_compact V [0..<V] (probe crnt) (commit crnt) (words_each V n) (n - words_each V n * V) st
       (replicate (length crnt) 0) (\<lambda>_. crnt) = Some (st', length ?H, ?H @ drop (length ?H) crnt)" "pass_inv N crnt st {0..<n} st'"
    by (auto simp: ok_iff_ex)
  have run: "trim_pass V probe commit (n, crnt, st) = Some (length ?H, ?H @ drop (length ?H) crnt, st')"
    using r(1) by (cases st; cases st') (simp add: trim_pass_def Let_def)
  note sp = pass_spans [OF i(3) r(2)]
  have loop: "loop_inv N st0 (length ?H, ?H @ drop (length ?H) crnt, st')"
    unfolding loop_inv_def prod.case
  proof (intro conjI allI impI)
    show "length (?H @ drop (length ?H) crnt) = N" "length ?H \<le> N" using hn i by simp_all
    show "distinct (take (length ?H) (?H @ drop (length ?H) crnt))" using i(4) by simp
    show "set (take (length ?H) (?H @ drop (length ?H) crnt)) \<subseteq> {0..<N}" using i(5) by auto
    show "spans_len N st'" using r(2) by (simp add: pass_inv_def)
    fix p assume p: "p < N"
    show "good (span_at st' p)" "result (span_at st' p) = result (span_at st0 p)"
      using sp [OF p] stepped_facts(1,2) [OF g(1) [OF p]] g(1,2) [OF p] by auto
    assume "p \<notin> set (take (length ?H) (?H @ drop (length ?H) crnt))"
    then have "p \<notin> set ?H" by simp
    then consider "p \<notin> set (take n crnt)" | "p \<in> set (take n crnt)" "\<not> moving st p" by auto
    then show "step (span_at st' p) = None"
      by cases (use sp [OF p] g(3) [OF p] in \<open>simp_all add: moving_def stepped_def del: not_None_eq\<close>)
  qed
  have le: "snd (span_at st' p) \<le> snd (span_at st p)" if "p \<in> {..<N}" for p
    using sp [of p] stepped_facts(3) [OF g(1) [of p]] that by auto
  have less: "loop_measure N (length ?H, ?H @ drop (length ?H) crnt, st') < loop_measure N (n, crnt, st)"
  proof (cases "length ?H = n")
    case False
    have "(\<Sum>p<N. snd (span_at st' p)) \<le> (\<Sum>p<N. snd (span_at st p))" by (rule sum_mono) (rule le)
    then show ?thesis using hn False by (simp add: loop_measure_def)
  next
    case True
    then have "moving st p" if "p \<in> set (take n crnt)" for p
      using length_filter_less [of p "take n crnt" "moving st"] that i(3) by fastforce
    moreover have hd: "crnt ! 0 \<in> set (take n crnt)" using n i(3) by (metis in_set_conv_nth length_take min.absorb2 nth_take)
    ultimately have "moving st (crnt ! 0)" by blast
    then have "snd (span_at st' (crnt ! 0)) < snd (span_at st (crnt ! 0))"
      using sp [of "crnt ! 0"] hd i(5) stepped_facts(4) [OF g(1)] by (auto simp: moving_def)
    moreover have "crnt ! 0 \<in> {..<N}" using hd i(5) by auto
    ultimately have "(\<Sum>p<N. snd (span_at st' p)) < (\<Sum>p<N. snd (span_at st p))"
      by (intro sum_strict_mono_ex1) (use le in blast)+
    then show ?thesis using True by (simp add: loop_measure_def)
  qed
  show ?thesis unfolding run using loop less by simp
qed

lemma trim_loop_ok:
  assumes st: "spans_len N st" "\<And>p. p < N \<Longrightarrow> good (span_at st p)" and V: "0 < V"
  shows "ok (trim_loop V probe commit (fst st) (snd st) N) (\<lambda>st'. spans_len N st' \<and> (\<forall>p<N. span_at st' p = result (span_at st p)))"
proof -
  have "ok (cwhile (\<lambda>(size', _). size' > 0) (trim_pass V probe commit) (N, [0..<N], st))
      (\<lambda>(n, crnt, st'). spans_len N st' \<and> (\<forall>p<N. span_at st' p = result (span_at st p)))"
  proof (rule ok_while [where I = "loop_inv N st" and m = "loop_measure N"])
    show "loop_inv N st (N, [0..<N], st)" using st by (auto simp: loop_inv_def)
    fix x assume x: "loop_inv N st x" "(\<lambda>(size', _). size' > 0) x"
    then show "ok (trim_pass V probe commit x) (\<lambda>x'. loop_inv N st x' \<and> loop_measure N x' < loop_measure N x)"
      using pass_ok [OF _ _ V] by (cases x) auto
  next
    fix x assume x: "loop_inv N st x" "\<not> (\<lambda>(size', _). size' > 0) x"
    then show "(\<lambda>(n, crnt, st'). spans_len N st' \<and> (\<forall>p<N. span_at st' p = result (span_at st p))) x"
      by (cases x) (auto simp: loop_inv_def result_end)
  qed
  then show ?thesis by (cases st) (auto simp: trim_loop_def ok_iff_ex)
qed

end

subsection \<open>Both ends\<close>

definition head_step :: "(int \<Rightarrow> bool) \<Rightarrow> int list \<Rightarrow> nat \<times> nat \<Rightarrow> (nat \<times> nat) option" where
  "head_step P vp sp = (if snd sp > 0 \<and> P (vp ! fst sp) then Some (fst sp + 1, snd sp - 1) else None)"

definition tail_step :: "(int \<Rightarrow> bool) \<Rightarrow> int list \<Rightarrow> nat \<times> nat \<Rightarrow> (nat \<times> nat) option" where
  "tail_step P vp sp = (if snd sp > 0 \<and> P (vp ! (fst sp + snd sp - 1)) then Some (fst sp, snd sp - 1) else None)"

definition head_result :: "(int \<Rightarrow> bool) \<Rightarrow> int list \<Rightarrow> nat \<times> nat \<Rightarrow> nat \<times> nat" where
  "head_result P vp sp = (let n = length (takeWhile P (word_at vp sp)) in (fst sp + n, snd sp - n))"

definition tail_result :: "(int \<Rightarrow> bool) \<Rightarrow> int list \<Rightarrow> nat \<times> nat \<Rightarrow> nat \<times> nat" where
  "tail_result P vp sp = (fst sp, snd sp - length (takeWhile P (rev (word_at vp sp))))"

definition inside :: "int list \<Rightarrow> nat \<times> nat \<Rightarrow> bool" where
  "inside vp sp \<longleftrightarrow> fst sp + snd sp \<le> length vp"

text \<open>Some character of the span is kept.\<close>

definition anchored :: "(int \<Rightarrow> bool) \<Rightarrow> int list \<Rightarrow> nat \<times> nat \<Rightarrow> bool" where
  "anchored P vp sp \<longleftrightarrow> inside vp sp \<and> length vp < 2 ^ 62 \<and> (\<exists>ch\<in>set (word_at vp sp). \<not> P ch)"

lemma word_first:
  assumes "inside vp (s, l)" "0 < l"
  shows "word_at vp (s, l) = vp ! s # word_at vp (s + 1, l - 1)"
  using assms by (cases l) (simp_all add: inside_def word_at_def Cons_nth_drop_Suc [symmetric])

lemma word_last:
  assumes "inside vp (s, l)" "0 < l"
  shows "word_at vp (s, l) = word_at vp (s, l - 1) @ [vp ! (s + l - 1)]"
  using assms by (cases l) (simp_all add: inside_def word_at_def take_Suc_conv_app_nth)

lemma word_empty [simp]: "word_at vp (s, 0) = []"
  by (simp add: word_at_def)

lemma length_word_inside: "inside vp sp \<Longrightarrow> length (word_at vp sp) = snd sp"
  by (cases sp) (simp add: inside_def length_word_at)

lemma head_stepD:
  assumes "inside vp sp" "head_step P vp sp = Some sp'"
  shows "sp' = (fst sp + 1, snd sp - 1)" "0 < snd sp" "P (vp ! fst sp)" "word_at vp sp = vp ! fst sp # word_at vp sp'" "inside vp sp'"
proof -
  show *: "sp' = (fst sp + 1, snd sp - 1)" "0 < snd sp" "P (vp ! fst sp)"
    using assms(2) by (auto simp: head_step_def split: if_splits)
  show "inside vp sp'" using assms(1) *(1,2) by (simp add: inside_def)
  show "word_at vp sp = vp ! fst sp # word_at vp sp'"
    using word_first [of vp "fst sp" "snd sp"] assms(1) *(1,2) by simp
qed

lemma tail_stepD:
  assumes "inside vp sp" "tail_step P vp sp = Some sp'"
  shows "sp' = (fst sp, snd sp - 1)" "0 < snd sp" "P (vp ! (fst sp + snd sp - 1))"
    "word_at vp sp = word_at vp sp' @ [vp ! (fst sp + snd sp - 1)]" "inside vp sp'"
proof -
  show *: "sp' = (fst sp, snd sp - 1)" "0 < snd sp" "P (vp ! (fst sp + snd sp - 1))"
    using assms(2) by (auto simp: tail_step_def split: if_splits)
  show "inside vp sp'" using assms(1) *(1,2) by (simp add: inside_def)
  show "word_at vp sp = word_at vp sp' @ [vp ! (fst sp + snd sp - 1)]"
    using word_last [of vp "fst sp" "snd sp"] assms(1) *(1,2) by simp
qed

lemma head_step_result:
  assumes "inside vp sp"
  shows "head_step P vp sp = Some sp' \<Longrightarrow> head_result P vp sp = head_result P vp sp'"
    and "head_step P vp sp = None \<Longrightarrow> head_result P vp sp = sp"
proof -
  show "head_result P vp sp = head_result P vp sp'" if "head_step P vp sp = Some sp'"
    using head_stepD [OF assms that] by (simp add: head_result_def Let_def)
  assume "head_step P vp sp = None"
  then have "snd sp = 0 \<or> \<not> P (vp ! fst sp)" by (auto simp: head_step_def split: if_splits)
  then have "takeWhile P (word_at vp sp) = []"
  proof
    assume "snd sp = 0"
    then show ?thesis using length_word_inside [OF assms] by simp
  next
    assume no: "\<not> P (vp ! fst sp)"
    show ?thesis
    proof (cases "snd sp = 0")
      case True
      then show ?thesis using length_word_inside [OF assms] by simp
    next
      case False
      then have "word_at vp (fst sp, snd sp) = vp ! fst sp # word_at vp (fst sp + 1, snd sp - 1)"
        using assms by (intro word_first) simp_all
      then show ?thesis using no by simp
    qed
  qed
  then show "head_result P vp sp = sp" by (simp add: head_result_def)
qed

lemma tail_step_result:
  assumes "inside vp sp"
  shows "tail_step P vp sp = Some sp' \<Longrightarrow> tail_result P vp sp = tail_result P vp sp'"
    and "tail_step P vp sp = None \<Longrightarrow> tail_result P vp sp = sp"
proof -
  show "tail_result P vp sp = tail_result P vp sp'" if "tail_step P vp sp = Some sp'"
    using tail_stepD [OF assms that] by (simp add: tail_result_def)
  assume none: "tail_step P vp sp = None"
  have "takeWhile P (rev (word_at vp sp)) = []"
  proof (cases "snd sp = 0")
    case True
    then show ?thesis using length_word_inside [OF assms] by simp
  next
    case False
    then have no: "\<not> P (vp ! (fst sp + snd sp - 1))" using none by (auto simp: tail_step_def split: if_splits)
    have "word_at vp (fst sp, snd sp) = word_at vp (fst sp, snd sp - 1) @ [vp ! (fst sp + snd sp - 1)]"
      using False assms by (intro word_last) simp_all
    then show ?thesis using no by simp
  qed
  then show "tail_result P vp sp = sp" by (simp add: tail_result_def)
qed

lemma step_inside:
  "inside vp sp \<Longrightarrow> head_step P vp sp = Some sp' \<Longrightarrow> inside vp sp'"
  "inside vp sp \<Longrightarrow> tail_step P vp sp = Some sp' \<Longrightarrow> inside vp sp'"
  by (rule head_stepD(5) tail_stepD(5); assumption)+

lemma step_smaller_len:
  "head_step P vp sp = Some sp' \<Longrightarrow> snd sp' < snd sp"
  "tail_step P vp sp = Some sp' \<Longrightarrow> snd sp' < snd sp"
  by (auto simp: head_step_def tail_step_def split: if_splits)

lemma step_anchored:
  assumes "anchored P vp sp"
  shows "head_step P vp sp = Some sp' \<Longrightarrow> anchored P vp sp'" "tail_step P vp sp = Some sp' \<Longrightarrow> anchored P vp sp'"
  using head_stepD [of vp sp P sp'] tail_stepD [of vp sp P sp'] assms by (auto simp: anchored_def)

lemma result_words:
  assumes "inside vp sp"
  shows "inside vp (head_result P vp sp)" "word_at vp (head_result P vp sp) = dropWhile P (word_at vp sp)"
    and "inside vp (tail_result P vp sp)" "word_at vp (tail_result P vp sp) = rev (dropWhile P (rev (word_at vp sp)))"
proof -
  let ?w = "word_at vp sp"
  have l: "length ?w = snd sp" using length_word_inside [OF assms] .
  have n: "length (takeWhile P ?w) \<le> snd sp" "length (takeWhile P (rev ?w)) \<le> snd sp"
    using length_takeWhile_le [of P ?w] length_takeWhile_le [of P "rev ?w"] l by simp_all
  show "inside vp (head_result P vp sp)" "inside vp (tail_result P vp sp)"
    using assms n by (auto simp: inside_def head_result_def tail_result_def Let_def)
  have "word_at vp (head_result P vp sp) = take (snd sp - length (takeWhile P ?w)) (drop (length (takeWhile P ?w)) ?w)"
    using word_at_part [of "length (takeWhile P ?w)" "snd sp" "snd sp - length (takeWhile P ?w)" vp "fst sp"] n
    by (simp add: head_result_def Let_def)
  also have "\<dots> = drop (length (takeWhile P ?w)) ?w" using l by simp
  finally show "word_at vp (head_result P vp sp) = dropWhile P ?w" by (simp add: dropWhile_eq_drop)
  have "word_at vp (tail_result P vp sp) = take (snd sp - length (takeWhile P (rev ?w))) ?w"
    using word_at_part [of 0 "snd sp" "snd sp - length (takeWhile P (rev ?w))" vp "fst sp"]
    by (simp add: tail_result_def)
  also have "\<dots> = rev (drop (length (takeWhile P (rev ?w))) (rev ?w))" using l by (simp add: rev_drop)
  finally show "word_at vp (tail_result P vp sp) = rev (dropWhile P (rev ?w))" by (simp add: dropWhile_eq_drop)
qed

lemma trim_flag_eq:
  assumes "pos < length starts" "pos < length lens" "0 < lens ! pos \<Longrightarrow> place (starts ! pos) (lens ! pos) < length vp"
  shows "trim_flag vp to_trim starts lens place pos =
    Some (0 < lens ! pos \<and> vp ! place (starts ! pos) (lens ! pos) \<in> set to_trim)"
proof -
  let ?ch = "vp ! place (starts ! pos) (lens ! pos)"
  let ?body = "\<lambda>k flag. do {
         l \<leftarrow> rd lens pos;
         if l > 0 then do { s \<leftarrow> rd starts pos; ch \<leftarrow> rd vp (place s l); t \<leftarrow> rd to_trim k; Some (if ch = t then True else flag) }
         else Some flag }"
  have "ok (for_each ?body [0..<length to_trim] False) (\<lambda>flag. flag = (0 < lens ! pos \<and> ?ch \<in> set (take (length to_trim) to_trim)))"
  proof (rule ok_for_range [where I = "\<lambda>k flag. flag = (0 < lens ! pos \<and> ?ch \<in> set (take k to_trim))"])
    fix k flag assume "k < length to_trim" "flag = (0 < lens ! pos \<and> ?ch \<in> set (take k to_trim))"
    then show "ok (?body k flag) (\<lambda>flag. flag = (0 < lens ! pos \<and> ?ch \<in> set (take (Suc k) to_trim)))"
      using assms by (auto simp: take_Suc_conv_app_nth)
  qed simp_all
  then show ?thesis by (simp add: trim_flag_def ok_eq)
qed

interpretation head_trim: span_trim "trim_head_probe vp to_trim" trim_head_commit
    "\<lambda>p sp. (p, 0 < snd sp \<and> vp ! fst sp \<in> set to_trim)" "head_step (\<lambda>ch. ch \<in> set to_trim) vp"
    "head_result (\<lambda>ch. ch \<in> set to_trim) vp" "inside vp"
  for vp to_trim :: "int list"
proof
  fix i N and crnt :: "nat list" and st :: "nat list \<times> nat list"
  assume a: "i < length crnt" "crnt ! i < N" "spans_len N st" "inside vp (span_at st (crnt ! i))"
  have "trim_flag vp to_trim (fst st) (snd st) (\<lambda>s l. s) (crnt ! i) = Some (0 < snd st ! (crnt ! i) \<and> vp ! (fst st ! (crnt ! i)) \<in> set to_trim)"
    by (rule trim_flag_eq) (use a in \<open>auto simp: spans_len_def inside_def span_at_def\<close>)
  then show "trim_head_probe vp to_trim crnt i st =
      Some (crnt ! i, 0 < snd (span_at st (crnt ! i)) \<and> vp ! fst (span_at st (crnt ! i)) \<in> set to_trim)"
    using a by (simp add: trim_head_probe_def span_at_def case_prod_beta')
  show "trim_head_commit crnt i (crnt ! i, 0 < snd (span_at st (crnt ! i)) \<and> vp ! fst (span_at st (crnt ! i)) \<in> set to_trim) st =
      Some (case head_step (\<lambda>ch. ch \<in> set to_trim) vp (span_at st (crnt ! i)) of None \<Rightarrow> (st, None)
        | Some sp \<Rightarrow> (put_span st (crnt ! i) sp, Some (crnt ! i)))"
    using a by (cases st) (auto simp: trim_head_commit_def head_step_def span_at_def put_span_def spans_len_def)
qed (simp_all only: step_smaller_len, (rule step_inside head_step_result; assumption)+)

interpretation tail_trim: span_trim "trim_tail_probe vp to_trim" trim_tail_commit
    "\<lambda>p sp. (p, 0 < snd sp \<and> vp ! (fst sp + snd sp - 1) \<in> set to_trim)" "tail_step (\<lambda>ch. ch \<in> set to_trim) vp"
    "tail_result (\<lambda>ch. ch \<in> set to_trim) vp" "inside vp"
  for vp to_trim :: "int list"
proof
  fix i N and crnt :: "nat list" and st :: "nat list \<times> nat list"
  assume a: "i < length crnt" "crnt ! i < N" "spans_len N st" "inside vp (span_at st (crnt ! i))"
  have "trim_flag vp to_trim (fst st) (snd st) (\<lambda>s l. s + l - 1) (crnt ! i) =
      Some (0 < snd st ! (crnt ! i) \<and> vp ! (fst st ! (crnt ! i) + snd st ! (crnt ! i) - 1) \<in> set to_trim)"
    by (rule trim_flag_eq) (use a in \<open>auto simp: spans_len_def inside_def span_at_def\<close>)
  then show "trim_tail_probe vp to_trim crnt i st =
      Some (crnt ! i, 0 < snd (span_at st (crnt ! i)) \<and> vp ! (fst (span_at st (crnt ! i)) + snd (span_at st (crnt ! i)) - 1) \<in> set to_trim)"
    using a by (simp add: trim_tail_probe_def span_at_def case_prod_beta')
  show "trim_tail_commit crnt i (crnt ! i, 0 < snd (span_at st (crnt ! i)) \<and>
        vp ! (fst (span_at st (crnt ! i)) + snd (span_at st (crnt ! i)) - 1) \<in> set to_trim) st =
      Some (case tail_step (\<lambda>ch. ch \<in> set to_trim) vp (span_at st (crnt ! i)) of None \<Rightarrow> (st, None)
        | Some sp \<Rightarrow> (put_span st (crnt ! i) sp, Some (crnt ! i)))"
    using a by (cases st) (auto simp: trim_tail_commit_def tail_step_def span_at_def put_span_def spans_len_def)
qed (simp_all only: step_smaller_len, (rule step_inside tail_step_result; assumption)+)

interpretation head_noalpha: span_trim noalpha_probe "noalpha_head_commit vp" "\<lambda>_ _. ()" "head_step is_noalpha vp"
    "head_result is_noalpha vp" "anchored is_noalpha vp"
  for vp :: "int list"
proof
  fix i N and crnt :: "nat list" and st :: "nat list \<times> nat list"
  assume a: "i < length crnt" "crnt ! i < N" "spans_len N st" "anchored is_noalpha vp (span_at st (crnt ! i))"
  have "word_at vp (span_at st (crnt ! i)) \<noteq> []" using a(4) by (auto simp: anchored_def)
  then have "fst (span_at st (crnt ! i)) < length vp" by (auto simp: word_at_def)
  then show "noalpha_head_commit vp crnt i () st =
      Some (case head_step is_noalpha vp (span_at st (crnt ! i)) of None \<Rightarrow> (st, None)
        | Some sp \<Rightarrow> (put_span st (crnt ! i) sp, Some (crnt ! i)))"
    using a by (cases st) (auto simp: noalpha_head_commit_def head_step_def span_at_def put_span_def spans_len_def)
next
  fix i N and crnt :: "nat list" and st :: "nat list \<times> nat list"
  show "noalpha_probe crnt i st = Some ()" by (simp add: noalpha_probe_def)
next
  fix sp sp'
  assume a: "anchored is_noalpha vp sp"
  then have "inside vp sp" by (simp add: anchored_def)
  note r = head_step_result [OF this]
  show "head_step is_noalpha vp sp = Some sp' \<Longrightarrow> head_result is_noalpha vp sp = head_result is_noalpha vp sp'" by (rule r)
  show "head_step is_noalpha vp sp = None \<Longrightarrow> head_result is_noalpha vp sp = sp" by (rule r)
  show "head_step is_noalpha vp sp = Some sp' \<Longrightarrow> anchored is_noalpha vp sp'" using a by (rule step_anchored)
qed (rule step_smaller_len)

interpretation tail_noalpha: span_trim noalpha_probe "noalpha_tail_commit vp" "\<lambda>_ _. ()" "tail_step is_noalpha vp"
    "tail_result is_noalpha vp" "anchored is_noalpha vp"
  for vp :: "int list"
proof
  fix i N and crnt :: "nat list" and st :: "nat list \<times> nat list"
  let ?s = "fst st ! (crnt ! i)" and ?l = "snd st ! (crnt ! i)"
  assume a: "i < length crnt" "crnt ! i < N" "spans_len N st" "anchored is_noalpha vp (span_at st (crnt ! i))"
  have "word_at vp (span_at st (crnt ! i)) \<noteq> []" using a(4) by (auto simp: anchored_def)
  then have l: "0 < ?l" by (cases ?l) (auto simp: span_at_def)
  have e: "?s + ?l \<le> length vp" "length vp < 2 ^ 62" using a(4) by (simp_all add: anchored_def inside_def span_at_def)
  have "u64 (int ?s + int ?l - 1) = ?s + ?l - 1" using l e by (subst u64_id) auto
  then show "noalpha_tail_commit vp crnt i () st =
      Some (case tail_step is_noalpha vp (span_at st (crnt ! i)) of None \<Rightarrow> (st, None)
        | Some sp \<Rightarrow> (put_span st (crnt ! i) sp, Some (crnt ! i)))"
    using a l e by (cases st) (auto simp: noalpha_tail_commit_def tail_step_def span_at_def put_span_def spans_len_def)
next
  fix i N and crnt :: "nat list" and st :: "nat list \<times> nat list"
  show "noalpha_probe crnt i st = Some ()" by (simp add: noalpha_probe_def)
next
  fix sp sp'
  assume a: "anchored is_noalpha vp sp"
  then have "inside vp sp" by (simp add: anchored_def)
  note r = tail_step_result [OF this]
  show "tail_step is_noalpha vp sp = Some sp' \<Longrightarrow> tail_result is_noalpha vp sp = tail_result is_noalpha vp sp'" by (rule r)
  show "tail_step is_noalpha vp sp = None \<Longrightarrow> tail_result is_noalpha vp sp = sp" by (rule r)
  show "tail_step is_noalpha vp sp = Some sp' \<Longrightarrow> anchored is_noalpha vp sp'" using a by (rule step_anchored)
qed (rule step_smaller_len)

subsection \<open>The words\<close>

definition trimmed_head :: "(int \<Rightarrow> bool) \<Rightarrow> int list \<Rightarrow> int list" where
  "trimmed_head P u = dropWhile P u"

definition trimmed_tail :: "(int \<Rightarrow> bool) \<Rightarrow> int list \<Rightarrow> int list" where
  "trimmed_tail P u = rev (dropWhile P (rev u))"

lemma word_inside:
  assumes "words_ok w" "p < length (w_starts w)"
  shows "inside (w_chars w) (span_at (w_starts w, w_lens w) p)"
    and "words_of w ! p = word_at (w_chars w) (span_at (w_starts w, w_lens w) p)"
  using assms by (auto simp: words_ok_def inside_def span_at_def nth_words_of)

text \<open>A loop that moves every span by \<open>g\<close> changes the words accordingly.\<close>

lemma spans_words:
  assumes w: "words_ok w" and st: "spans_len (length (w_starts w)) st"
    and g: "\<And>p. p < length (w_starts w) \<Longrightarrow> span_at st p = g (span_at (w_starts w, w_lens w) p)"
    and R: "\<And>sp. inside (w_chars w) sp \<Longrightarrow> inside (w_chars w) (g sp) \<and> word_at (w_chars w) (g sp) = R (word_at (w_chars w) sp)"
  shows "words_ok (with_spans w st) \<and> words_of (with_spans w st) = map R (words_of w)"
proof
  have inside: "inside (w_chars w) (span_at st p)" "word_at (w_chars w) (span_at st p) = R (words_of w ! p)"
    if "p < length (w_starts w)" for p
    using R [OF word_inside(1) [OF w that]] g [OF that] word_inside(2) [OF w that] by simp_all
  show ok: "words_ok (with_spans w st)"
    using st inside(1) by (auto simp: words_ok_def with_spans_def spans_len_def inside_def span_at_def)
  have wl: "length (words_of w) = length (w_starts w)" using w by simp
  show "words_of (with_spans w st) = map R (words_of w)"
  proof (rule nth_equalityI)
    show len: "length (words_of (with_spans w st)) = length (map R (words_of w))"
      using length_words_of [OF ok] st wl by (simp add: with_spans_def spans_len_def)
    fix p assume "p < length (words_of (with_spans w st))"
    then have p: "p < length (w_starts w)" using len wl by simp
    then show "words_of (with_spans w st) ! p = map R (words_of w) ! p"
      using inside(2) [OF p] st wl by (simp add: nth_words_of with_spans_def spans_len_def span_at_def)
  qed
qed

lemma start_spans: "words_ok w \<Longrightarrow> spans_len (length (w_starts w)) (w_starts w, w_lens w)"
  by (simp add: spans_len_def words_ok_def)

lemma loop_words:
  assumes w: "words_ok w"
    and loop: "ok m (\<lambda>st. spans_len (length (w_starts w)) st \<and>
      (\<forall>p<length (w_starts w). span_at st p = g (span_at (w_starts w, w_lens w) p)))"
    and R: "\<And>sp. inside (w_chars w) sp \<Longrightarrow> inside (w_chars w) (g sp) \<and> word_at (w_chars w) (g sp) = R (word_at (w_chars w) sp)"
  shows "ok m (\<lambda>st. words_ok (with_spans w st) \<and> words_of (with_spans w st) = map R (words_of w))"
  by (rule ok_mono [OF loop], rule spans_words [OF w, where g = g and R = R]) (auto simp: R)

lemma head_loop:
  assumes "words_ok w" "0 < V"
  shows "ok (trim_loop V (trim_head_probe (w_chars w) to_trim) trim_head_commit (w_starts w) (w_lens w) (length (w_starts w)))
    (\<lambda>st. words_ok (with_spans w st) \<and> words_of (with_spans w st) = map (trimmed_head (\<lambda>ch. ch \<in> set to_trim)) (words_of w))"
  by (rule loop_words [OF assms(1) head_trim.trim_loop_ok [OF start_spans [OF assms(1)] _ assms(2), unfolded fst_conv snd_conv]])
    (simp_all add: word_inside [OF assms(1)] result_words trimmed_head_def)

lemma tail_loop:
  assumes "words_ok w" "0 < V"
  shows "ok (trim_loop V (trim_tail_probe (w_chars w) to_trim) trim_tail_commit (w_starts w) (w_lens w) (length (w_starts w)))
    (\<lambda>st. words_ok (with_spans w st) \<and> words_of (with_spans w st) = map (trimmed_tail (\<lambda>ch. ch \<in> set to_trim)) (words_of w))"
  by (rule loop_words [OF assms(1) tail_trim.trim_loop_ok [OF start_spans [OF assms(1)] _ assms(2), unfolded fst_conv snd_conv]])
    (simp_all add: word_inside [OF assms(1)] result_words trimmed_tail_def)

text \<open>Every word has a letter: then nothing behind a word is looked at.\<close>

definition lettered :: "words \<Rightarrow> bool" where
  "lettered w \<longleftrightarrow> words_ok w \<and> length (w_chars w) < 2 ^ 62 \<and> (\<forall>u\<in>set (words_of w). \<exists>ch\<in>set u. \<not> is_noalpha ch)"

lemma lettered_anchored:
  assumes "lettered w" "p < length (w_starts w)"
  shows "anchored is_noalpha (w_chars w) (span_at (w_starts w, w_lens w) p)"
proof -
  have w: "words_ok w" using assms(1) by (simp add: lettered_def)
  have "words_of w ! p \<in> set (words_of w)" using w assms(2) by simp
  then show ?thesis using assms word_inside [OF w assms(2)] by (auto simp: lettered_def anchored_def)
qed

lemma head_noalpha_loop:
  assumes "lettered w" "0 < V"
  shows "ok (trim_loop V noalpha_probe (noalpha_head_commit (w_chars w)) (w_starts w) (w_lens w) (length (w_starts w)))
    (\<lambda>st. words_ok (with_spans w st) \<and> words_of (with_spans w st) = map (trimmed_head is_noalpha) (words_of w))"
proof -
  have w: "words_ok w" using assms(1) by (simp add: lettered_def)
  show ?thesis
    by (rule loop_words [OF w head_noalpha.trim_loop_ok [OF start_spans [OF w] _ assms(2), unfolded fst_conv snd_conv]])
      (simp_all add: lettered_anchored [OF assms(1)] result_words trimmed_head_def)
qed

lemma tail_noalpha_loop:
  assumes "lettered w" "0 < V"
  shows "ok (trim_loop V noalpha_probe (noalpha_tail_commit (w_chars w)) (w_starts w) (w_lens w) (length (w_starts w)))
    (\<lambda>st. words_ok (with_spans w st) \<and> words_of (with_spans w st) = map (trimmed_tail is_noalpha) (words_of w))"
proof -
  have w: "words_ok w" using assms(1) by (simp add: lettered_def)
  show ?thesis
    by (rule loop_words [OF w tail_noalpha.trim_loop_ok [OF start_spans [OF w] _ assms(2), unfolded fst_conv snd_conv]])
      (simp_all add: lettered_anchored [OF assms(1)] result_words trimmed_tail_def)
qed

lemma with_spans_twice [simp]: "with_spans (with_spans w st) st' = with_spans w st'"
  by (simp add: with_spans_def)

lemma with_spans_fields [simp]:
  "w_chars (with_spans w st) = w_chars w" "w_starts (with_spans w st) = fst st" "w_lens (with_spans w st) = snd st"
  by (simp_all add: with_spans_def)

lemma trimmed_head_lettered:
  assumes "\<exists>ch\<in>set u. \<not> P ch"
  shows "\<exists>ch\<in>set (trimmed_head P u). \<not> P ch"
  using assms by (induction u) (auto simp: trimmed_head_def)

lemma trim_eq:
  assumes "words_ok w" "0 < V"
  shows "ok (trim V (w_chars w) (w_starts w) (w_lens w) to_trim) (\<lambda>r. \<exists>st. r = Inr st \<and> words_ok (with_spans w st) \<and>
    words_of (with_spans w st) = map (trimmed_tail (\<lambda>ch. ch \<in> set to_trim) \<circ> trimmed_head (\<lambda>ch. ch \<in> set to_trim)) (words_of w))"
proof -
  obtain st where st: "trim_loop V (trim_head_probe (w_chars w) to_trim) trim_head_commit (w_starts w) (w_lens w) (length (w_starts w)) = Some st"
    "words_ok (with_spans w st)" "words_of (with_spans w st) = map (trimmed_head (\<lambda>ch. ch \<in> set to_trim)) (words_of w)"
    using head_loop [OF assms, of to_trim] by (elim okE) blast
  have l: "length (w_starts w) = length (w_lens w)" using assms(1) by (simp add: words_ok_def)
  show ?thesis
    using tail_loop [OF st(2) assms(2), of to_trim] st l by (cases st) (auto simp: trim_def ok_iff_ex)
qed

lemma trim_noalpha_eq:
  assumes "lettered w" "0 < V"
  shows "ok (trim_noalpha V (w_chars w) (w_starts w) (w_lens w)) (\<lambda>r. \<exists>st. r = Inr st \<and> words_ok (with_spans w st) \<and>
    words_of (with_spans w st) = map (trimmed_tail is_noalpha \<circ> trimmed_head is_noalpha) (words_of w))"
proof -
  obtain st where st: "trim_loop V noalpha_probe (noalpha_head_commit (w_chars w)) (w_starts w) (w_lens w) (length (w_starts w)) = Some st"
    "words_ok (with_spans w st)" "words_of (with_spans w st) = map (trimmed_head is_noalpha) (words_of w)"
    using head_noalpha_loop [OF assms] by (elim okE) blast
  have "lettered (with_spans w st)"
    using st assms(1) trimmed_head_lettered by (auto simp: lettered_def)
  moreover have "length (w_starts w) = length (w_lens w)" using assms(1) by (simp add: lettered_def words_ok_def)
  ultimately show ?thesis
    using tail_noalpha_loop [of "with_spans w st", OF _ assms(2)] st by (cases st) (auto simp: trim_noalpha_def ok_iff_ex)
qed

text \<open>Without a letter the scan runs over the end of the array.\<close>

lemma trim_noalpha_reads_past: "trim_noalpha 4 [49] [0] [1] = None"
  by code_simp

end
