(* ===== verification/WordsUtf.thy ===== *)
theory WordsUtf
  imports WordsConcat
begin

unbundle bit_operations_syntax

text \<open>
  text/words.cc, the conversions between UTF-8 and UTF-32: a search for the characters of every
  length, a prefix sum that places the results, and one loop per length.
\<close>

subsection \<open>The code\<close>

definition is_one_byte_utf8 :: "int \<Rightarrow> bool" where
  "is_one_byte_utf8 ch \<longleftrightarrow> ch < 0x80"

definition is_two_byte_utf8 :: "int \<Rightarrow> bool" where
  "is_two_byte_utf8 ch \<longleftrightarrow> ch \<ge> 0xC2 \<and> ch < 0xE0"

definition is_three_byte_utf8 :: "int \<Rightarrow> bool" where
  "is_three_byte_utf8 ch \<longleftrightarrow> ch \<ge> 0xE0 \<and> ch < 0xF0"

definition is_four_byte_utf8 :: "int \<Rightarrow> bool" where
  "is_four_byte_utf8 ch \<longleftrightarrow> ch \<ge> 0xF0 \<and> ch < 0xF8"

definition is_one_byte_utf32 :: "int \<Rightarrow> bool" where
  "is_one_byte_utf32 ch \<longleftrightarrow> ch < 0x80"

definition is_two_byte_utf32 :: "int \<Rightarrow> bool" where
  "is_two_byte_utf32 ch \<longleftrightarrow> ch \<ge> 0x80 \<and> ch < 0x800"

definition is_three_byte_utf32 :: "int \<Rightarrow> bool" where
  "is_three_byte_utf32 ch \<longleftrightarrow> ch \<ge> 0x800 \<and> ch < 0x10000"

definition is_four_byte_utf32 :: "int \<Rightarrow> bool" where
  "is_four_byte_utf32 ch \<longleftrightarrow> ch \<ge> 0x10000"

text \<open>\<open>for(i) a[idx[i]] = v;\<close>\<close>

definition mark :: "'a \<Rightarrow> nat list \<Rightarrow> 'a list \<Rightarrow> 'a list option" where
  "mark v idx a = for_each (\<lambda>p a. wr a p v) idx a"

text \<open>\<open>start_index\<close>: where the result of every character goes; and the words that follow from it.\<close>

definition start_positions :: "words_cfg \<Rightarrow> nat list \<Rightarrow> nat list option" where
  "start_positions c nums = do {
     let start_index = replicate (length nums + 1) 0;
     s0 \<leftarrow> rd start_index 0;
     outp \<leftarrow> wc_prefix_sum c nums (drop 1 start_index) (length nums);
     Some (s0 # outp) }"

definition move_spans :: "nat list \<Rightarrow> nat list \<Rightarrow> nat list \<Rightarrow> (nat list \<times> nat list) option" where
  "move_spans start_index starts lens = do {
     ret_starts \<leftarrow> omap (\<lambda>i. do { s \<leftarrow> rd starts i; rd start_index s }) [0..<length lens];
     ret_lens \<leftarrow> omap (\<lambda>i. do {
         s \<leftarrow> rd starts i;
         l \<leftarrow> rd lens i;
         a \<leftarrow> rd start_index s;
         b \<leftarrow> rd start_index (s + l);
         Some (u64 (int b - int a)) }) [0..<length lens];
     Some (ret_starts, ret_lens) }"

definition utf8_to_utf32 :: "words_cfg \<Rightarrow> find_cfg \<Rightarrow> words \<Rightarrow> words option" where
  "utf8_to_utf32 c fc w = do {
     let chars = w_chars w;
     let chars_size = length chars;
     one_byte_start \<leftarrow> find_condition fc 4 is_one_byte_utf8 chars;
     if length one_byte_start = chars_size then Some w
     else do {
       two_byte_start \<leftarrow> find_condition fc 4 is_two_byte_utf8 chars;
       three_byte_start \<leftarrow> find_condition fc 4 is_three_byte_utf8 chars;
       four_byte_start \<leftarrow> find_condition fc 4 is_four_byte_utf8 chars;
       is_start \<leftarrow> mark 1 one_byte_start (replicate chars_size 0);
       is_start \<leftarrow> mark 1 two_byte_start is_start;
       is_start \<leftarrow> mark 1 three_byte_start is_start;
       is_start \<leftarrow> mark 1 four_byte_start is_start;
       start_index \<leftarrow> start_positions c is_start;
       ret_chars_size \<leftarrow> rd start_index chars_size;
       ret \<leftarrow> for_each (\<lambda>pos ret. do {
           o' \<leftarrow> rd start_index pos;
           a \<leftarrow> rd chars pos;
           wr ret o' a }) one_byte_start (replicate ret_chars_size 0);
       ret \<leftarrow> for_each (\<lambda>pos ret. do {
           o' \<leftarrow> rd start_index pos;
           a \<leftarrow> rd chars pos;
           b \<leftarrow> rd chars (pos + 1);
           wr ret o' (push_bit 6 (a AND 0x1F) OR (b AND 0x3F)) }) two_byte_start ret;
       ret \<leftarrow> for_each (\<lambda>pos ret. do {
           o' \<leftarrow> rd start_index pos;
           a \<leftarrow> rd chars pos;
           b \<leftarrow> rd chars (pos + 1);
           d \<leftarrow> rd chars (pos + 2);
           wr ret o' (push_bit 12 (a AND 0xF) OR push_bit 6 (b AND 0x3F) OR (d AND 0x3F)) }) three_byte_start ret;
       ret \<leftarrow> for_each (\<lambda>pos ret. do {
           o' \<leftarrow> rd start_index pos;
           a \<leftarrow> rd chars pos;
           b \<leftarrow> rd chars (pos + 1);
           d \<leftarrow> rd chars (pos + 2);
           e \<leftarrow> rd chars (pos + 3);
           wr ret o' (push_bit 18 (a AND 0x7) OR push_bit 12 (b AND 0x3F) OR push_bit 6 (d AND 0x3F) OR (e AND 0x3F)) })
         four_byte_start ret;
       (ret_starts, ret_lens) \<leftarrow> move_spans start_index (w_starts w) (w_lens w);
       Some \<lparr>w_chars = ret, w_starts = ret_starts, w_lens = ret_lens\<rparr> } }"

definition utf32_to_utf8 :: "words_cfg \<Rightarrow> find_cfg \<Rightarrow> words \<Rightarrow> words option" where
  "utf32_to_utf8 c fc w = do {
     let chars = w_chars w;
     let chars_size = length chars;
     one_byte \<leftarrow> find_condition fc 4 is_one_byte_utf32 chars;
     if length one_byte = chars_size then Some w
     else do {
       two_byte \<leftarrow> find_condition fc 4 is_two_byte_utf32 chars;
       three_byte \<leftarrow> find_condition fc 4 is_three_byte_utf32 chars;
       four_byte \<leftarrow> find_condition fc 4 is_four_byte_utf32 chars;
       num_bytes \<leftarrow> mark 1 one_byte (replicate chars_size 0);
       num_bytes \<leftarrow> mark 2 two_byte num_bytes;
       num_bytes \<leftarrow> mark 3 three_byte num_bytes;
       num_bytes \<leftarrow> mark 4 four_byte num_bytes;
       start_index \<leftarrow> start_positions c num_bytes;
       ret_chars_size \<leftarrow> rd start_index chars_size;
       ret \<leftarrow> for_each (\<lambda>pos ret. do {
           o' \<leftarrow> rd start_index pos;
           ch \<leftarrow> rd chars pos;
           wr ret o' ch }) one_byte (replicate ret_chars_size 0);
       ret \<leftarrow> for_each (\<lambda>pos ret. do {
           o' \<leftarrow> rd start_index pos;
           ch \<leftarrow> rd chars pos;
           ret \<leftarrow> wr ret o' (0xC0 OR drop_bit 6 ch);
           wr ret (o' + 1) (0x80 OR (ch AND 0x3F)) }) two_byte ret;
       ret \<leftarrow> for_each (\<lambda>pos ret. do {
           o' \<leftarrow> rd start_index pos;
           ch \<leftarrow> rd chars pos;
           ret \<leftarrow> wr ret o' (0xE0 OR drop_bit 12 ch);
           ret \<leftarrow> wr ret (o' + 1) (0x80 OR (drop_bit 6 ch AND 0x3F));
           wr ret (o' + 2) (0x80 OR (ch AND 0x3F)) }) three_byte ret;
       ret \<leftarrow> for_each (\<lambda>pos ret. do {
           o' \<leftarrow> rd start_index pos;
           ch \<leftarrow> rd chars pos;
           ret \<leftarrow> wr ret o' (0xF0 OR drop_bit 18 ch);
           ret \<leftarrow> wr ret (o' + 1) (0x80 OR (drop_bit 12 ch AND 0x3F));
           ret \<leftarrow> wr ret (o' + 2) (0x80 OR (drop_bit 6 ch AND 0x3F));
           wr ret (o' + 3) (0x80 OR (ch AND 0x3F)) }) four_byte ret;
       (ret_starts, ret_lens) \<leftarrow> move_spans start_index (w_starts w) (w_lens w);
       Some \<lparr>w_chars = ret, w_starts = ret_starts, w_lens = ret_lens\<rparr> } }"

subsection \<open>The encoding of one character\<close>

definition encode :: "int \<Rightarrow> int list" where
  "encode ch =
     (if ch < 0x80 then [ch]
      else if ch < 0x800 then [0xC0 OR drop_bit 6 ch, 0x80 OR (ch AND 0x3F)]
      else if ch < 0x10000 then [0xE0 OR drop_bit 12 ch, 0x80 OR (drop_bit 6 ch AND 0x3F), 0x80 OR (ch AND 0x3F)]
      else [0xF0 OR drop_bit 18 ch, 0x80 OR (drop_bit 12 ch AND 0x3F), 0x80 OR (drop_bit 6 ch AND 0x3F), 0x80 OR (ch AND 0x3F)])"

lemma or_plus:
  assumes "0 \<le> x" "x < 2 ^ k"
  shows "(a * 2 ^ k) OR x = a * 2 ^ k + (x :: int)"
proof -
  have x: "take_bit k x = x" using assms by (simp add: take_bit_int_eq_self)
  have "push_bit k a AND take_bit k x = 0" by (rule bit_eqI) (auto simp: bit_simps)
  then show ?thesis using disjunctive_add_eq_or [of "push_bit k a" x] x by (simp add: push_bit_eq_mult)
qed

lemma low_bits: "x AND 0x3F = x mod 64" "x AND 0x1F = x mod 32" "x AND 0xF = x mod 16" "x AND 0x7 = x mod (8 :: int)"
  using take_bit_eq_mask [of 6 x] take_bit_eq_mask [of 5 x] take_bit_eq_mask [of 4 x] take_bit_eq_mask [of 3 x]
  by (simp_all add: take_bit_eq_mod mask_eq_exp_minus_1)

lemma lead_bytes:
  "0 \<le> x \<Longrightarrow> x < 64 \<Longrightarrow> 0x80 OR x = 128 + (x :: int)"
  "0 \<le> x \<Longrightarrow> x < 32 \<Longrightarrow> 0xC0 OR x = 192 + x"
  "0 \<le> x \<Longrightarrow> x < 16 \<Longrightarrow> 0xE0 OR x = 224 + x"
  "0 \<le> x \<Longrightarrow> x < 8 \<Longrightarrow> 0xF0 OR x = 240 + x"
  using or_plus [of x 6 2] or_plus [of x 5 6] or_plus [of x 4 14] or_plus [of x 3 30] by simp_all

lemma div_bounds:
  assumes "0 < q"
  shows "q * a \<le> x \<Longrightarrow> a \<le> x div (q :: int)" "x < q * b \<Longrightarrow> x div q < b"
proof -
  show "a \<le> x div q" if "q * a \<le> x" using zdiv_mono1 [OF that assms] assms by simp
  show "x div q < b" if "x < q * b"
  proof (rule ccontr)
    assume "\<not> x div q < b"
    then have "q * b \<le> q * (x div q)" using assms by simp
    also have "\<dots> \<le> x" using assms mult_div_mod_eq [of q x] pos_mod_sign [of q x] by linarith
    finally show False using that by simp
  qed
qed

text \<open>The digits of a number to the base 64.\<close>

lemma digits64:
  "x div 64 * 64 + x mod 64 = (x :: int)"
  "x div 4096 * 4096 + (x div 64 mod 64 * 64 + x mod 64) = x"
  "x div 262144 * 262144 + (x div 4096 mod 64 * 4096 + (x div 64 mod 64 * 64 + x mod 64)) = x"
proof -
  have "x div 64 div 64 = x div 4096" "x div 4096 div 64 = x div 262144"
    using zdiv_zmult2_eq [of 64 x 64] zdiv_zmult2_eq [of 64 x 4096] by simp_all
  then have e: "x div 64 * 64 + x mod 64 = x" "x div 4096 * 64 + x div 64 mod 64 = x div 64"
    "x div 262144 * 64 + x div 4096 mod 64 = x div 4096"
    using div_mult_mod_eq [of x 64] div_mult_mod_eq [of "x div 64" 64] div_mult_mod_eq [of "x div 4096" 64] by simp_all
  then show "x div 64 * 64 + x mod 64 = x" by simp
  show "x div 4096 * 4096 + (x div 64 mod 64 * 64 + x mod 64) = x" using e(1,2) by linarith
  show "x div 262144 * 262144 + (x div 4096 mod 64 * 4096 + (x div 64 mod 64 * 64 + x mod 64)) = x" using e by linarith
qed

lemma add_mod_multiple: "0 \<le> y \<Longrightarrow> y < q \<Longrightarrow> (q * a + y) mod q = (y :: int)"
  by simp

text \<open>Code points fit 21 bits.\<close>

definition code_point :: "int \<Rightarrow> bool" where
  "code_point ch \<longleftrightarrow> 0 \<le> ch \<and> ch < 2 ^ 21"

lemma encode_eq:
  assumes "code_point ch"
  shows "encode ch =
     (if ch < 0x80 then [ch]
      else if ch < 0x800 then [192 + ch div 64, 128 + ch mod 64]
      else if ch < 0x10000 then [224 + ch div 4096, 128 + ch div 64 mod 64, 128 + ch mod 64]
      else [240 + ch div 262144, 128 + ch div 4096 mod 64, 128 + ch div 64 mod 64, 128 + ch mod 64])"
proof -
  have ch: "0 \<le> ch" "ch < 2097152" using assms by (simp_all add: code_point_def)
  have "ch div 64 < 32" if "ch < 0x800" using that by (intro div_bounds) simp_all
  moreover have "ch div 4096 < 16" if "ch < 0x10000" using that by (intro div_bounds) simp_all
  moreover have "ch div 262144 < 8" using ch by (intro div_bounds) simp_all
  moreover have "0 \<le> ch div 64" "0 \<le> ch div 4096" "0 \<le> ch div 262144" using ch by (simp_all add: pos_imp_zdiv_nonneg_iff)
  ultimately show ?thesis
    by (simp add: encode_def low_bits drop_bit_eq_div lead_bytes)
qed

definition byte_count :: "int \<Rightarrow> nat" where
  "byte_count ch = (if ch < 0x80 then 1 else if ch < 0x800 then 2 else if ch < 0x10000 then 3 else 4)"

lemma length_encode [simp]: "length (encode ch) = byte_count ch"
  by (simp add: encode_def byte_count_def)

text \<open>The first byte tells the length, the others are none of the four kinds.\<close>

lemma first_byte:
  assumes "code_point ch"
  shows "is_one_byte_utf8 (encode ch ! 0) \<longleftrightarrow> byte_count ch = 1" "is_two_byte_utf8 (encode ch ! 0) \<longleftrightarrow> byte_count ch = 2"
    "is_three_byte_utf8 (encode ch ! 0) \<longleftrightarrow> byte_count ch = 3" "is_four_byte_utf8 (encode ch ! 0) \<longleftrightarrow> byte_count ch = 4"
proof -
  have ch: "0 \<le> ch" "ch < 2097152" using assms by (simp_all add: code_point_def)
  consider "ch < 0x80" | "0x80 \<le> ch" "ch < 0x800" | "0x800 \<le> ch" "ch < 0x10000" | "0x10000 \<le> ch" by linarith
  then have "is_one_byte_utf8 (encode ch ! 0) = (byte_count ch = 1) \<and> is_two_byte_utf8 (encode ch ! 0) = (byte_count ch = 2) \<and>
    is_three_byte_utf8 (encode ch ! 0) = (byte_count ch = 3) \<and> is_four_byte_utf8 (encode ch ! 0) = (byte_count ch = 4)"
  proof cases
    case 2
    then have "2 \<le> ch div 64" "ch div 64 < 32" by (auto intro: div_bounds)
    then show ?thesis using 2 assms
      by (simp add: encode_eq byte_count_def is_one_byte_utf8_def is_two_byte_utf8_def is_three_byte_utf8_def is_four_byte_utf8_def)
  next
    case 3
    then have "0 \<le> ch div 4096" "ch div 4096 < 16" by (auto intro: div_bounds)
    then show ?thesis using 3 assms
      by (simp add: encode_eq byte_count_def is_one_byte_utf8_def is_two_byte_utf8_def is_three_byte_utf8_def is_four_byte_utf8_def)
  next
    case 4
    then have "0 \<le> ch div 262144" "ch div 262144 < 8" using ch by (auto intro: div_bounds)
    then show ?thesis using 4 assms
      by (simp add: encode_eq byte_count_def is_one_byte_utf8_def is_two_byte_utf8_def is_three_byte_utf8_def is_four_byte_utf8_def)
  qed (use assms in \<open>simp add: encode_eq byte_count_def is_one_byte_utf8_def is_two_byte_utf8_def is_three_byte_utf8_def is_four_byte_utf8_def\<close>)
  then show "is_one_byte_utf8 (encode ch ! 0) \<longleftrightarrow> byte_count ch = 1" "is_two_byte_utf8 (encode ch ! 0) \<longleftrightarrow> byte_count ch = 2"
    "is_three_byte_utf8 (encode ch ! 0) \<longleftrightarrow> byte_count ch = 3" "is_four_byte_utf8 (encode ch ! 0) \<longleftrightarrow> byte_count ch = 4" by blast+
qed

lemma next_byte:
  assumes "code_point ch" "0 < k" "k < byte_count ch"
  shows "128 \<le> encode ch ! k" "encode ch ! k < 192"
proof -
  have m: "0 \<le> x mod 64" "x mod 64 < 64" for x :: int by simp_all
  have "k = 1 \<or> k = 2 \<or> k = 3" using assms by (auto simp: byte_count_def split: if_splits)
  then have "128 \<le> encode ch ! k \<and> encode ch ! k < 192"
    using assms m [of ch] m [of "ch div 64"] m [of "ch div 4096"]
    by (elim disjE) (auto simp: encode_eq byte_count_def split: if_splits)
  then show "128 \<le> encode ch ! k" "encode ch ! k < 192" by blast+
qed

lemma decode_bytes:
  assumes "code_point ch"
  shows "byte_count ch = 1 \<Longrightarrow> encode ch ! 0 = ch"
    "byte_count ch = 2 \<Longrightarrow> push_bit 6 (encode ch ! 0 AND 0x1F) OR (encode ch ! 1 AND 0x3F) = ch"
    "byte_count ch = 3 \<Longrightarrow> push_bit 12 (encode ch ! 0 AND 0xF) OR push_bit 6 (encode ch ! 1 AND 0x3F) OR (encode ch ! 2 AND 0x3F) = ch"
    "byte_count ch = 4 \<Longrightarrow> push_bit 18 (encode ch ! 0 AND 0x7) OR push_bit 12 (encode ch ! 1 AND 0x3F) OR
       push_bit 6 (encode ch ! 2 AND 0x3F) OR (encode ch ! 3 AND 0x3F) = ch"
proof -
  have ch: "0 \<le> ch" "ch < 2097152" using assms by (simp_all add: code_point_def)
  have join: "(a * 64) OR (b mod 64) = a * 64 + b mod 64" "(a * 4096) OR (b mod 64 * 64 + d mod 64) = a * 4096 + (b mod 64 * 64 + d mod 64)"
    "(a * 262144) OR (b mod 64 * 4096 + (d mod 64 * 64 + e mod 64)) = a * 262144 + (b mod 64 * 4096 + (d mod 64 * 64 + e mod 64))" for a b d e :: int
  proof -
    have "0 \<le> b mod 64" "b mod 64 < 64" "0 \<le> d mod 64" "d mod 64 < 64" "0 \<le> e mod 64" "e mod 64 < 64" by simp_all
    then show "(a * 64) OR (b mod 64) = a * 64 + b mod 64" "(a * 4096) OR (b mod 64 * 64 + d mod 64) = a * 4096 + (b mod 64 * 64 + d mod 64)"
      "(a * 262144) OR (b mod 64 * 4096 + (d mod 64 * 64 + e mod 64)) = a * 262144 + (b mod 64 * 4096 + (d mod 64 * 64 + e mod 64))"
      using or_plus [of "b mod 64" 6 a] or_plus [of "b mod 64 * 64 + d mod 64" 12 a]
        or_plus [of "b mod 64 * 4096 + (d mod 64 * 64 + e mod 64)" 18 a] by simp_all
  qed
  have r: "(128 + x) mod 64 = x mod 64" for x :: int using mod_mult_self4 [of 64 2 x] by simp
  show "byte_count ch = 1 \<Longrightarrow> encode ch ! 0 = ch" by (simp add: encode_def byte_count_def split: if_splits)
  show "push_bit 6 (encode ch ! 0 AND 0x1F) OR (encode ch ! 1 AND 0x3F) = ch" if "byte_count ch = 2"
  proof -
    have b: "\<not> ch < 0x80" "ch < 0x800" using that by (auto simp: byte_count_def split: if_splits)
    then have "0 \<le> ch div 64" "ch div 64 < 32" by (auto intro: div_bounds)
    then have "(192 + ch div 64) mod 32 = ch div 64" using add_mod_multiple [of "ch div 64" 32 6] by simp
    then show ?thesis using b by (simp add: encode_eq [OF assms] low_bits push_bit_eq_mult r join digits64)
  qed
  show "push_bit 12 (encode ch ! 0 AND 0xF) OR push_bit 6 (encode ch ! 1 AND 0x3F) OR (encode ch ! 2 AND 0x3F) = ch" if "byte_count ch = 3"
  proof -
    have b: "\<not> ch < 0x80" "\<not> ch < 0x800" "ch < 0x10000" using that by (auto simp: byte_count_def split: if_splits)
    then have "0 \<le> ch div 4096" "ch div 4096 < 16" by (auto intro: div_bounds)
    then have "(224 + ch div 4096) mod 16 = ch div 4096" using add_mod_multiple [of "ch div 4096" 16 14] by simp
    then show ?thesis using b by (simp add: encode_eq [OF assms] low_bits push_bit_eq_mult r join digits64)
  qed
  show "push_bit 18 (encode ch ! 0 AND 0x7) OR push_bit 12 (encode ch ! 1 AND 0x3F) OR
       push_bit 6 (encode ch ! 2 AND 0x3F) OR (encode ch ! 3 AND 0x3F) = ch" if "byte_count ch = 4"
  proof -
    have b: "\<not> ch < 0x80" "\<not> ch < 0x800" "\<not> ch < 0x10000" using that by (auto simp: byte_count_def split: if_splits)
    have "0 \<le> ch div 262144" "ch div 262144 < 8" using ch by (auto intro: div_bounds)
    then have "(240 + ch div 262144) mod 8 = ch div 262144" using add_mod_multiple [of "ch div 262144" 8 30] by simp
    moreover have "encode ch ! 3 = 128 + ch mod 64" using b by (simp add: encode_eq [OF assms] eval_nat_numeral)
    moreover have "encode ch ! 2 = 128 + ch div 64 mod 64" using b by (simp add: encode_eq [OF assms] eval_nat_numeral)
    ultimately show ?thesis using b by (simp add: encode_eq [OF assms] low_bits push_bit_eq_mult r join digits64)
  qed
qed

subsection \<open>Positions\<close>

lemma mark_agrees:
  assumes "\<And>p. p \<in> set idx \<Longrightarrow> p < length T \<and> T ! p = v" "agrees T D a"
  shows "ok (mark v idx a) (agrees T (D \<union> set idx))"
proof -
  have "ok (for_each (\<lambda>p a. wr a p v) idx a) (agrees T (D \<union> (\<Union>p\<in>set idx. {p})))"
    by (rule agrees_for_each [OF _ assms(2)]) (use assms(1) in \<open>auto intro!: agrees_write\<close>)
  then show ?thesis by (simp add: mark_def)
qed

lemma mark_done:
  assumes "\<And>p. p \<in> set idx \<Longrightarrow> p < length T \<and> T ! p = v" "agrees T D a"
  obtains a' where "mark v idx a = Some a'" "agrees T (D \<union> set idx) a'"
  using mark_agrees [OF assms] by (rule okE)

definition sums_before :: "nat list \<Rightarrow> nat \<Rightarrow> nat" where
  "sums_before nums j = sum_list (take j nums)"

lemma sums_before_mono: "i \<le> j \<Longrightarrow> sums_before nums i \<le> sums_before nums j"
proof -
  assume "i \<le> j"
  then have "take j nums = take i nums @ take (j - i) (drop i nums)" by (metis le_add_diff_inverse take_add)
  then show ?thesis by (simp add: sums_before_def)
qed

context words_build begin

lemma start_positions_eq: "start_positions c nums = Some (map (sums_before nums) [0..<Suc (length nums)])"
proof -
  have "wc_prefix_sum c nums (drop 1 (replicate (length nums + 1) 0)) (length nums) = Some (prefix_sums nums)"
    using prefix_sum [of "replicate (length nums) 0" nums] by simp
  then show ?thesis
    by (simp add: start_positions_def prefix_positions sums_before_def [abs_def, symmetric] del: upt_Suc)
      (simp add: sums_before_def del: upt_Suc)
qed

end

lemma move_spans_eq:
  assumes w: "words_ok w" and f: "\<And>i j. i \<le> j \<Longrightarrow> f i \<le> f j" and top: "f (length (w_chars w)) < 2 ^ 62"
  shows "move_spans (map f [0..<Suc (length (w_chars w))]) (w_starts w) (w_lens w) =
    Some (map (\<lambda>i. f (w_starts w ! i)) [0..<length (w_starts w)],
          map (\<lambda>i. f (w_starts w ! i + w_lens w ! i) - f (w_starts w ! i)) [0..<length (w_starts w)])"
proof -
  let ?N = "length (w_chars w)" and ?k = "length (w_starts w)"
  have ll: "length (w_lens w) = ?k" using w by (simp add: words_ok_def)
  have in_range: "w_starts w ! i + w_lens w ! i \<le> ?N" if "i < ?k" for i using w that by (simp add: words_ok_def)
  have at: "rd (map f [0..<Suc ?N]) p = Some (f p)" if "p \<le> ?N" for p
  proof -
    have "p < length (map f [0..<Suc ?N])" using that by simp
    then show ?thesis using that by (simp add: rd_def nth_append del: upt_Suc)
  qed
  have d: "u64 (int (f b) - int (f a)) = f b - f a" if "a \<le> b" "b \<le> ?N" for a b
    using f [OF that(1)] f [OF that(2)] top by (subst u64_id) auto
  have "omap (\<lambda>i. do { s \<leftarrow> rd (w_starts w) i; rd (map f [0..<Suc ?N]) s }) [0..<length (w_lens w)] =
      Some (map (\<lambda>i. f (w_starts w ! i)) [0..<length (w_lens w)])"
  proof (rule omap_Some)
    fix i assume "i \<in> set [0..<length (w_lens w)]"
    then have i: "i < ?k" using ll by simp
    then have "w_starts w ! i \<le> ?N" using in_range [OF i] by simp
    then show "do { s \<leftarrow> rd (w_starts w) i; rd (map f [0..<Suc ?N]) s } = Some (f (w_starts w ! i))"
      using at i by (simp del: upt_Suc)
  qed
  moreover have "omap (\<lambda>i. do { s \<leftarrow> rd (w_starts w) i; l \<leftarrow> rd (w_lens w) i; a \<leftarrow> rd (map f [0..<Suc ?N]) s;
         b \<leftarrow> rd (map f [0..<Suc ?N]) (s + l); Some (u64 (int b - int a)) }) [0..<length (w_lens w)] =
      Some (map (\<lambda>i. f (w_starts w ! i + w_lens w ! i) - f (w_starts w ! i)) [0..<length (w_lens w)])"
  proof (rule omap_Some)
    fix i assume "i \<in> set [0..<length (w_lens w)]"
    then have i: "i < ?k" "i < length (w_lens w)" using ll by auto
    have "w_starts w ! i \<le> ?N" using in_range [OF i(1)] by simp
    then show "do { s \<leftarrow> rd (w_starts w) i; l \<leftarrow> rd (w_lens w) i; a \<leftarrow> rd (map f [0..<Suc ?N]) s;
         b \<leftarrow> rd (map f [0..<Suc ?N]) (s + l); Some (u64 (int b - int a)) } =
      Some (f (w_starts w ! i + w_lens w ! i) - f (w_starts w ! i))"
      using at in_range [OF i(1)] i by (simp add: d del: upt_Suc)
  qed
  ultimately show ?thesis by (simp add: move_spans_def ll del: upt_Suc)
qed

subsection \<open>Encoding\<close>

definition encoded :: "words \<Rightarrow> words" where
  "encoded w = (let P = sums_before (map byte_count (w_chars w)) in
     \<lparr>w_chars = concat (map encode (w_chars w)),
      w_starts = map (\<lambda>i. P (w_starts w ! i)) [0..<length (w_starts w)],
      w_lens = map (\<lambda>i. P (w_starts w ! i + w_lens w ! i) - P (w_starts w ! i)) [0..<length (w_starts w)]\<rparr>)"

lemma sums_before_encode: "sums_before (map byte_count cps) j = sum_list (map length (take j (map encode cps)))"
  by (simp add: sums_before_def take_map comp_def)

lemma sums_before_all: "sums_before (map byte_count cps) (length cps) = length (concat (map encode cps))"
  by (simp add: sums_before_encode length_concat)

lemma sums_before_encode_le: "length (concat (map encode cps)) \<le> 4 * length cps"
  by (induction cps) (auto simp: byte_count_def)

lemma byte_count_kinds:
  "is_one_byte_utf32 ch \<longleftrightarrow> byte_count ch = 1" "is_two_byte_utf32 ch \<longleftrightarrow> byte_count ch = 2"
  "is_three_byte_utf32 ch \<longleftrightarrow> byte_count ch = 3" "is_four_byte_utf32 ch \<longleftrightarrow> byte_count ch = 4"
  by (auto simp: byte_count_def is_one_byte_utf32_def is_two_byte_utf32_def is_three_byte_utf32_def is_four_byte_utf32_def)

lemma byte_count_cases: "byte_count ch = 1 \<or> byte_count ch = 2 \<or> byte_count ch = 3 \<or> byte_count ch = 4"
  by (simp add: byte_count_def)

text \<open>The positions of one kind, and the cells their bytes fill.\<close>

definition kind_at :: "int list \<Rightarrow> nat \<Rightarrow> nat list" where
  "kind_at cps k = filter (\<lambda>i. byte_count (cps ! i) = k) [0..<length cps]"

definition kind_cells :: "int list \<Rightarrow> nat \<Rightarrow> nat set" where
  "kind_cells cps k = {sums_before (map byte_count cps) i + j |i j. i \<in> set (kind_at cps k) \<and> j < k}"

lemma encoded_cell:
  assumes "i \<in> set (kind_at cps k)" "j < k"
  shows "sums_before (map byte_count cps) i + j < length (concat (map encode cps))"
    and "concat (map encode cps) ! (sums_before (map byte_count cps) i + j) = encode (cps ! i) ! j"
proof -
  have i: "i < length cps" "byte_count (cps ! i) = k" using assms(1) by (auto simp: kind_at_def)
  then show "sums_before (map byte_count cps) i + j < length (concat (map encode cps))"
    using block_end [of i "map encode cps"] assms(2) by (simp add: sums_before_encode)
  show "concat (map encode cps) ! (sums_before (map byte_count cps) i + j) = encode (cps ! i) ! j"
    using nth_block [of i "map encode cps" j] i assms(2) by (simp add: sums_before_encode)
qed

lemma encoded_cells_all: "{0..<length (concat (map encode cps))} \<subseteq> kind_cells cps 1 \<union> kind_cells cps 2 \<union> kind_cells cps 3 \<union> kind_cells cps 4"
proof
  fix p assume "p \<in> {0..<length (concat (map encode cps))}"
  then obtain i j where ij: "i < length cps" "j < byte_count (cps ! i)" "p = sums_before (map byte_count cps) i + j"
    using block_of_position [of p "map encode cps"] by (auto simp: sums_before_encode)
  then have "p \<in> kind_cells cps (byte_count (cps ! i))" by (auto simp: kind_cells_def kind_at_def)
  then show "p \<in> kind_cells cps 1 \<union> kind_cells cps 2 \<union> kind_cells cps 3 \<union> kind_cells cps 4"
    using byte_count_cases [of "cps ! i"] by auto
qed

text \<open>One loop of the encoder: \<open>body\<close> writes the bytes of the character at \<open>pos\<close>.\<close>

lemma encode_loop:
  assumes body: "\<And>pos ret D. pos \<in> set (kind_at cps k) \<Longrightarrow> agrees (concat (map encode cps)) D ret \<Longrightarrow>
      ok (body pos ret) (agrees (concat (map encode cps)) (D \<union> {sums_before (map byte_count cps) pos + j |j. j < k}))"
    and ret: "agrees (concat (map encode cps)) D ret"
  obtains ret' where "for_each body (kind_at cps k) ret = Some ret'" "agrees (concat (map encode cps)) (D \<union> kind_cells cps k) ret'"
proof -
  have "ok (for_each body (kind_at cps k) ret) (agrees (concat (map encode cps))
      (D \<union> (\<Union>pos\<in>set (kind_at cps k). {sums_before (map byte_count cps) pos + j |j. j < k})))"
    by (rule agrees_for_each [OF body ret])
  moreover have "(\<Union>pos\<in>set (kind_at cps k). {sums_before (map byte_count cps) pos + j |j. j < k}) = kind_cells cps k"
    by (auto simp: kind_cells_def)
  ultimately show ?thesis using that by (auto elim: okE)
qed

lemma agrees_cells:
  assumes "agrees T D ret" "p < length T" "x = T ! p"
  shows "wr ret p x = Some (ret[p := x])" "agrees T (insert p D) (ret[p := x])"
  using assms agrees_write [OF assms] by (auto simp: agrees_def ok_iff_ex)

lemma encode_bodies:
  assumes si: "\<And>i. i < length cps \<Longrightarrow> rd si i = Some (sums_before (map byte_count cps) i)"
    and pos: "pos \<in> set (kind_at cps k)" and ret: "agrees (concat (map encode cps)) D ret"
  shows "k = 1 \<Longrightarrow> ok (do { o' \<leftarrow> rd si pos; ch \<leftarrow> rd cps pos; wr ret o' ch })
      (agrees (concat (map encode cps)) (D \<union> {sums_before (map byte_count cps) pos + j |j. j < k}))"
    and "k = 2 \<Longrightarrow> ok (do { o' \<leftarrow> rd si pos; ch \<leftarrow> rd cps pos;
           ret \<leftarrow> wr ret o' (0xC0 OR drop_bit 6 ch); wr ret (o' + 1) (0x80 OR (ch AND 0x3F)) })
      (agrees (concat (map encode cps)) (D \<union> {sums_before (map byte_count cps) pos + j |j. j < k}))"
    and "k = 3 \<Longrightarrow> ok (do { o' \<leftarrow> rd si pos; ch \<leftarrow> rd cps pos;
           ret \<leftarrow> wr ret o' (0xE0 OR drop_bit 12 ch);
           ret \<leftarrow> wr ret (o' + 1) (0x80 OR (drop_bit 6 ch AND 0x3F));
           wr ret (o' + 2) (0x80 OR (ch AND 0x3F)) })
      (agrees (concat (map encode cps)) (D \<union> {sums_before (map byte_count cps) pos + j |j. j < k}))"
    and "k = 4 \<Longrightarrow> ok (do { o' \<leftarrow> rd si pos; ch \<leftarrow> rd cps pos;
           ret \<leftarrow> wr ret o' (0xF0 OR drop_bit 18 ch);
           ret \<leftarrow> wr ret (o' + 1) (0x80 OR (drop_bit 12 ch AND 0x3F));
           ret \<leftarrow> wr ret (o' + 2) (0x80 OR (drop_bit 6 ch AND 0x3F));
           wr ret (o' + 3) (0x80 OR (ch AND 0x3F)) })
      (agrees (concat (map encode cps)) (D \<union> {sums_before (map byte_count cps) pos + j |j. j < k}))"
proof -
  let ?T = "concat (map encode cps)" and ?P = "sums_before (map byte_count cps) pos" and ?ch = "cps ! pos"
  have p: "pos < length cps" "byte_count ?ch = k" using pos by (auto simp: kind_at_def)
  have cell: "?P + j < length ?T" "?T ! (?P + j) = encode ?ch ! j" if "j < k" for j
    using encoded_cell [OF pos that] by simp_all
  have set1: "{?P + j |j. j < (1 :: nat)} = {?P}" "{?P + j |j. j < (2 :: nat)} = {?P, ?P + 1}"
    "{?P + j |j. j < (3 :: nat)} = {?P, ?P + 1, ?P + 2}" "{?P + j |j. j < (4 :: nat)} = {?P, ?P + 1, ?P + 2, ?P + 3}"
    by (auto simp: eval_nat_numeral less_Suc_eq)
  have e: "encode ?ch = (if k = 1 then [?ch]
      else if k = 2 then [0xC0 OR drop_bit 6 ?ch, 0x80 OR (?ch AND 0x3F)]
      else if k = 3 then [0xE0 OR drop_bit 12 ?ch, 0x80 OR (drop_bit 6 ?ch AND 0x3F), 0x80 OR (?ch AND 0x3F)]
      else [0xF0 OR drop_bit 18 ?ch, 0x80 OR (drop_bit 12 ?ch AND 0x3F), 0x80 OR (drop_bit 6 ?ch AND 0x3F), 0x80 OR (?ch AND 0x3F)])"
    unfolding p(2) [symmetric] by (simp add: encode_def byte_count_def)
  have put: "\<exists>ret'. wr ret (?P + j) x = Some ret' \<and> agrees ?T (insert (?P + j) D) ret'"
    if "agrees ?T D ret" "j < k" "x = encode ?ch ! j" for ret D j x
    using agrees_cells [OF that(1) cell(1) [OF that(2)], of x] cell(2) [OF that(2)] that(3) by simp
  show "ok (do { o' \<leftarrow> rd si pos; ch \<leftarrow> rd cps pos; wr ret o' ch }) (agrees ?T (D \<union> {?P + j |j. j < k}))" if k: "k = 1"
    using put [OF ret, of 0 ?ch] p si k by (auto simp: e set1)
  show "ok (do { o' \<leftarrow> rd si pos; ch \<leftarrow> rd cps pos; ret \<leftarrow> wr ret o' (0xC0 OR drop_bit 6 ch); wr ret (o' + 1) (0x80 OR (ch AND 0x3F)) })
      (agrees ?T (D \<union> {?P + j |j. j < k}))" if k: "k = 2"
  proof -
    obtain r1 where r1: "wr ret ?P (0xC0 OR drop_bit 6 ?ch) = Some r1" "agrees ?T (insert ?P D) r1"
      using put [OF ret, of 0 "0xC0 OR drop_bit 6 ?ch"] k by (auto simp: e)
    obtain r2 where "wr r1 (?P + 1) (0x80 OR (?ch AND 0x3F)) = Some r2" "agrees ?T (insert (?P + 1) (insert ?P D)) r2"
      using put [OF r1(2), of 1 "0x80 OR (?ch AND 0x3F)"] k by (auto simp: e)
    then show ?thesis using r1 p si k by (simp add: set1 insert_commute)
  qed
  show "ok (do { o' \<leftarrow> rd si pos; ch \<leftarrow> rd cps pos; ret \<leftarrow> wr ret o' (0xE0 OR drop_bit 12 ch);
           ret \<leftarrow> wr ret (o' + 1) (0x80 OR (drop_bit 6 ch AND 0x3F)); wr ret (o' + 2) (0x80 OR (ch AND 0x3F)) })
      (agrees ?T (D \<union> {?P + j |j. j < k}))" if k: "k = 3"
  proof -
    obtain r1 where r1: "wr ret ?P (0xE0 OR drop_bit 12 ?ch) = Some r1" "agrees ?T (insert ?P D) r1"
      using put [OF ret, of 0 "0xE0 OR drop_bit 12 ?ch"] k by (auto simp: e)
    obtain r2 where r2: "wr r1 (?P + 1) (0x80 OR (drop_bit 6 ?ch AND 0x3F)) = Some r2" "agrees ?T (insert (?P + 1) (insert ?P D)) r2"
      using put [OF r1(2), of 1 "0x80 OR (drop_bit 6 ?ch AND 0x3F)"] k by (auto simp: e)
    obtain r3 where "wr r2 (?P + 2) (0x80 OR (?ch AND 0x3F)) = Some r3" "agrees ?T (insert (?P + 2) (insert (?P + 1) (insert ?P D))) r3"
      using put [OF r2(2), of 2 "0x80 OR (?ch AND 0x3F)"] k by (auto simp: e)
    then show ?thesis using r1 r2 p si k by (simp add: set1 insert_commute)
  qed
  show "ok (do { o' \<leftarrow> rd si pos; ch \<leftarrow> rd cps pos; ret \<leftarrow> wr ret o' (0xF0 OR drop_bit 18 ch);
           ret \<leftarrow> wr ret (o' + 1) (0x80 OR (drop_bit 12 ch AND 0x3F)); ret \<leftarrow> wr ret (o' + 2) (0x80 OR (drop_bit 6 ch AND 0x3F));
           wr ret (o' + 3) (0x80 OR (ch AND 0x3F)) })
      (agrees ?T (D \<union> {?P + j |j. j < k}))" if k: "k = 4"
  proof -
    obtain r1 where r1: "wr ret ?P (0xF0 OR drop_bit 18 ?ch) = Some r1" "agrees ?T (insert ?P D) r1"
      using put [OF ret, of 0 "0xF0 OR drop_bit 18 ?ch"] k by (auto simp: e)
    obtain r2 where r2: "wr r1 (?P + 1) (0x80 OR (drop_bit 12 ?ch AND 0x3F)) = Some r2" "agrees ?T (insert (?P + 1) (insert ?P D)) r2"
      using put [OF r1(2), of 1 "0x80 OR (drop_bit 12 ?ch AND 0x3F)"] k by (auto simp: e)
    obtain r3 where r3: "wr r2 (?P + 2) (0x80 OR (drop_bit 6 ?ch AND 0x3F)) = Some r3" "agrees ?T (insert (?P + 2) (insert (?P + 1) (insert ?P D))) r3"
      using put [OF r2(2), of 2 "0x80 OR (drop_bit 6 ?ch AND 0x3F)"] k by (auto simp: e)
    obtain r4 where "wr r3 (?P + 3) (0x80 OR (?ch AND 0x3F)) = Some r4"
        "agrees ?T (insert (?P + 3) (insert (?P + 2) (insert (?P + 1) (insert ?P D)))) r4"
      using put [OF r3(2), of 3 "0x80 OR (?ch AND 0x3F)"] k by (auto simp: e eval_nat_numeral)
    then show ?thesis using r1 r2 r3 p si k by (simp add: set1 insert_commute)
  qed
qed

lemma kinds_found:
  assumes "wf_cfg fc"
  shows "find_condition fc 4 is_one_byte_utf32 cps = Some (kind_at cps 1)" "find_condition fc 4 is_two_byte_utf32 cps = Some (kind_at cps 2)"
    "find_condition fc 4 is_three_byte_utf32 cps = Some (kind_at cps 3)" "find_condition fc 4 is_four_byte_utf32 cps = Some (kind_at cps 4)"
  by (simp_all add: find_condition_eq [OF assms] kind_at_def byte_count_kinds)

lemma kind_marks: "p \<in> set (kind_at cps k) \<Longrightarrow> p < length (map byte_count cps) \<and> map byte_count cps ! p = k"
  by (auto simp: kind_at_def)

lemma kind_mark_done:
  assumes "agrees (map byte_count cps) D a"
  obtains a' where "mark k (kind_at cps k) a = Some a'" "agrees (map byte_count cps) (D \<union> set (kind_at cps k)) a'"
  by (rule mark_done [OF _ assms, of "kind_at cps k" k]) (use kind_marks that in blast)+

lemma kinds_all: "{0..<length cps} \<subseteq> {} \<union> set (kind_at cps 1) \<union> set (kind_at cps 2) \<union> set (kind_at cps 3) \<union> set (kind_at cps 4)"
  using byte_count_cases by (auto simp: kind_at_def)

lemma encoded_one_byte:
  assumes "words_ok w" "length (kind_at (w_chars w) 1) = length (w_chars w)"
  shows "encoded w = w"
proof -
  let ?cps = "w_chars w"
  have "\<forall>i\<in>set [0..<length ?cps]. byte_count (?cps ! i) = 1"
  proof (rule ccontr)
    assume "\<not> ?thesis"
    then obtain i where "i \<in> set [0..<length ?cps]" "\<not> byte_count (?cps ! i) = 1" by blast
    then have "length (kind_at ?cps 1) < length [0..<length ?cps]"
      unfolding kind_at_def by (rule length_filter_less)
    then show False using assms(2) by simp
  qed
  then have one: "byte_count ch = 1" "ch < 128" if "ch \<in> set ?cps" for ch
    using that byte_count_kinds(1) [of ch] by (auto simp: in_set_conv_nth is_one_byte_utf32_def)
  have "concat (map encode ?cps) = concat (map (\<lambda>ch. [ch]) ?cps)"
    by (intro arg_cong [of _ _ concat] map_cong) (use one(2) in \<open>simp_all add: encode_def\<close>)
  moreover have "map byte_count ?cps = replicate (length ?cps) 1" using one(1) by (intro nth_equalityI) auto
  then have "sums_before (map byte_count ?cps) j = j" if "j \<le> length ?cps" for j
    using that by (simp add: sums_before_def sum_list_replicate)
  then have "sums_before (map byte_count ?cps) (w_starts w ! i) = w_starts w ! i"
     "sums_before (map byte_count ?cps) (w_starts w ! i + w_lens w ! i) = w_starts w ! i + w_lens w ! i" if "i < length (w_starts w)" for i
    using assms(1) that by (auto simp: words_ok_def dest: add_leD1)
  moreover have "length (w_lens w) = length (w_starts w)" using assms(1) by (simp add: words_ok_def)
  ultimately show ?thesis
    by (cases w) (auto simp: encoded_def Let_def intro!: nth_equalityI)
qed

context words_build begin

lemma utf32_to_utf8_eq:
  assumes w: "words_ok w" and fc: "wf_cfg fc" and small: "length (w_chars w) < 2 ^ 60"
  shows "utf32_to_utf8 c fc w = Some (encoded w)"
proof (cases "length (kind_at (w_chars w) 1) = length (w_chars w)")
  case True
  then show ?thesis using encoded_one_byte [OF w True] by (simp add: utf32_to_utf8_def Let_def kinds_found [OF fc])
next
  case False
  let ?cps = "w_chars w" and ?N = "length (w_chars w)" and ?nums = "map byte_count (w_chars w)"
  let ?T = "concat (map encode ?cps)" and ?si = "map (sums_before ?nums) [0..<Suc (length (w_chars w))]"
  have "agrees ?nums {} (replicate ?N 0)" by (rule agrees_start) simp
  then obtain a1 where a1: "mark 1 (kind_at ?cps 1) (replicate ?N 0) = Some a1" "agrees ?nums ({} \<union> set (kind_at ?cps 1)) a1"
    by (rule kind_mark_done)
  obtain a2 where a2: "mark 2 (kind_at ?cps 2) a1 = Some a2" "agrees ?nums ({} \<union> set (kind_at ?cps 1) \<union> set (kind_at ?cps 2)) a2"
    by (rule kind_mark_done [OF a1(2)])
  obtain a3 where a3: "mark 3 (kind_at ?cps 3) a2 = Some a3"
      "agrees ?nums ({} \<union> set (kind_at ?cps 1) \<union> set (kind_at ?cps 2) \<union> set (kind_at ?cps 3)) a3"
    by (rule kind_mark_done [OF a2(2)])
  obtain a4 where a4: "mark 4 (kind_at ?cps 4) a3 = Some a4"
      "agrees ?nums ({} \<union> set (kind_at ?cps 1) \<union> set (kind_at ?cps 2) \<union> set (kind_at ?cps 3) \<union> set (kind_at ?cps 4)) a4"
    by (rule kind_mark_done [OF a3(2)])
  have nums: "a4 = ?nums" by (rule agrees_all [OF a4(2)]) (use kinds_all [of ?cps] in simp)
  have si: "start_positions c ?nums = Some ?si" using start_positions_eq [of ?nums] by simp
  have rd_si: "rd ?si i = Some (sums_before ?nums i)" if "i < Suc ?N" for i
    using that by (simp add: rd_def nth_append del: upt_Suc)
  have rd_si': "rd ?si i = Some (sums_before ?nums i)" if "i < length ?cps" for i using rd_si [of i] that by simp
  have tot: "rd ?si ?N = Some (length ?T)" using rd_si [of ?N] by (simp add: sums_before_all del: upt_Suc)
  have "agrees ?T {} (replicate (length ?T) 0)" by (rule agrees_start) simp
  note r0 = this
  obtain r1 where r1: "for_each (\<lambda>pos ret. do { o' \<leftarrow> rd ?si pos; ch \<leftarrow> rd ?cps pos; wr ret o' ch }) (kind_at ?cps 1) (replicate (length ?T) 0) = Some r1"
      "agrees ?T ({} \<union> kind_cells ?cps 1) r1"
    by (rule encode_loop [OF _ r0], rule encode_bodies(1) [OF rd_si' _ _ refl], assumption+)
  obtain r2 where r2: "for_each (\<lambda>pos ret. do { o' \<leftarrow> rd ?si pos; ch \<leftarrow> rd ?cps pos;
           ret \<leftarrow> wr ret o' (0xC0 OR drop_bit 6 ch); wr ret (o' + 1) (0x80 OR (ch AND 0x3F)) }) (kind_at ?cps 2) r1 = Some r2"
      "agrees ?T ({} \<union> kind_cells ?cps 1 \<union> kind_cells ?cps 2) r2"
    by (rule encode_loop [OF _ r1(2)], rule encode_bodies(2) [OF rd_si' _ _ refl], assumption+)
  obtain r3 where r3: "for_each (\<lambda>pos ret. do { o' \<leftarrow> rd ?si pos; ch \<leftarrow> rd ?cps pos;
           ret \<leftarrow> wr ret o' (0xE0 OR drop_bit 12 ch);
           ret \<leftarrow> wr ret (o' + 1) (0x80 OR (drop_bit 6 ch AND 0x3F));
           wr ret (o' + 2) (0x80 OR (ch AND 0x3F)) }) (kind_at ?cps 3) r2 = Some r3"
      "agrees ?T ({} \<union> kind_cells ?cps 1 \<union> kind_cells ?cps 2 \<union> kind_cells ?cps 3) r3"
    by (rule encode_loop [OF _ r2(2)], rule encode_bodies(3) [OF rd_si' _ _ refl], assumption+)
  obtain r4 where r4: "for_each (\<lambda>pos ret. do { o' \<leftarrow> rd ?si pos; ch \<leftarrow> rd ?cps pos;
           ret \<leftarrow> wr ret o' (0xF0 OR drop_bit 18 ch);
           ret \<leftarrow> wr ret (o' + 1) (0x80 OR (drop_bit 12 ch AND 0x3F));
           ret \<leftarrow> wr ret (o' + 2) (0x80 OR (drop_bit 6 ch AND 0x3F));
           wr ret (o' + 3) (0x80 OR (ch AND 0x3F)) }) (kind_at ?cps 4) r3 = Some r4"
      "agrees ?T ({} \<union> kind_cells ?cps 1 \<union> kind_cells ?cps 2 \<union> kind_cells ?cps 3 \<union> kind_cells ?cps 4) r4"
    by (rule encode_loop [OF _ r3(2)], rule encode_bodies(4) [OF rd_si' _ _ refl], assumption+)
  have T: "r4 = ?T" by (rule agrees_all [OF r4(2)]) (use encoded_cells_all [of ?cps] in simp)
  have "sums_before ?nums ?N < 2 ^ 62" using sums_before_encode_le [of ?cps] small by (simp add: sums_before_all)
  from move_spans_eq [where f = "sums_before ?nums", OF w _ this] sums_before_mono
  have moved: "move_spans ?si (w_starts w) (w_lens w) = Some (map (\<lambda>i. sums_before ?nums (w_starts w ! i)) [0..<length (w_starts w)],
      map (\<lambda>i. sums_before ?nums (w_starts w ! i + w_lens w ! i) - sums_before ?nums (w_starts w ! i)) [0..<length (w_starts w)])" by blast
  show ?thesis
    unfolding utf32_to_utf8_def Let_def kinds_found [OF fc] bind.bind_lunit if_not_P [OF False] a1(1) a2(1) a3(1) a4(1) nums si tot
      r1(1) r2(1) r3(1) r4(1) T moved prod.case
    by (simp add: encoded_def Let_def)
qed

end

end
