(* ===== verification/WordsUtf8.thy ===== *)
theory WordsUtf8
  imports WordsUtf
begin

unbundle bit_operations_syntax

text \<open>
  Decoding UTF-8: \<open>utf8_to_utf32\<close> of text/words.cc inverts \<open>utf32_to_utf8\<close>, and both act word by word.
\<close>

subsection \<open>The words of an encoded column\<close>

lemma encoded_word:
  assumes "s + l \<le> length cps"
  shows "word_at (concat (map encode cps)) (sums_before (map byte_count cps) s,
      sums_before (map byte_count cps) (s + l) - sums_before (map byte_count cps) s) = concat (map encode (word_at cps (s, l)))"
    and "sums_before (map byte_count cps) s + (sums_before (map byte_count cps) (s + l) - sums_before (map byte_count cps) s)
      \<le> length (concat (map encode cps))"
proof -
  have sl: "sums_before (map byte_count cps) (s + l) - sums_before (map byte_count cps) s =
      sum_list (map length (take l (drop s (map encode cps))))"
    by (simp add: sums_before_encode take_add)
  have l: "s + l \<le> length (map encode cps)" using assms by simp
  have "word_at (concat (map encode cps)) (sums_before (map byte_count cps) s,
      sums_before (map byte_count cps) (s + l) - sums_before (map byte_count cps) s) = concat (take l (drop s (map encode cps)))"
    unfolding sl unfolding sums_before_encode by (rule word_of_blocks [OF l])
  then show "word_at (concat (map encode cps)) (sums_before (map byte_count cps) s,
      sums_before (map byte_count cps) (s + l) - sums_before (map byte_count cps) s) = concat (map encode (word_at cps (s, l)))"
    by (simp add: word_at_def take_map drop_map)
  have "sums_before (map byte_count cps) s \<le> sums_before (map byte_count cps) (s + l)" by (rule sums_before_mono) simp
  then show "sums_before (map byte_count cps) s + (sums_before (map byte_count cps) (s + l) - sums_before (map byte_count cps) s)
      \<le> length (concat (map encode cps))"
    using sums_before_mono [OF assms, of "map byte_count cps"] by (simp add: sums_before_all)
qed

lemma encoded_words:
  assumes w: "words_ok w"
  shows "words_ok (encoded w) \<and> words_of (encoded w) = map (\<lambda>u. concat (map encode u)) (words_of w)"
proof
  have in_range: "w_starts w ! i + w_lens w ! i \<le> length (w_chars w)" "i < length (w_lens w)" if "i < length (w_starts w)" for i
    using w that by (simp_all add: words_ok_def)
  show ok: "words_ok (encoded w)"
    unfolding words_ok_def using encoded_word(2) [OF in_range(1)] by (simp add: encoded_def Let_def)
  have wl: "length (words_of w) = length (w_starts w)" using w by simp
  show "words_of (encoded w) = map (\<lambda>u. concat (map encode u)) (words_of w)"
  proof (rule nth_equalityI)
    show len: "length (words_of (encoded w)) = length (map (\<lambda>u. concat (map encode u)) (words_of w))"
      using length_words_of [OF ok] wl by (simp add: encoded_def Let_def)
    fix i assume "i < length (words_of (encoded w))"
    then have i: "i < length (w_starts w)" using len wl by simp
    then show "words_of (encoded w) ! i = map (\<lambda>u. concat (map encode u)) (words_of w) ! i"
      using encoded_word(1) [OF in_range(1) [OF i]] in_range(2) [OF i] wl by (simp add: nth_words_of encoded_def Let_def)
  qed
qed

subsection \<open>Decoding\<close>

definition lead_byte :: "int \<Rightarrow> bool" where
  "lead_byte b \<longleftrightarrow> is_one_byte_utf8 b \<or> is_two_byte_utf8 b \<or> is_three_byte_utf8 b \<or> is_four_byte_utf8 b"

definition lead_marks :: "int list \<Rightarrow> nat list" where
  "lead_marks bytes = map (\<lambda>b. if lead_byte b then 1 else 0) bytes"

lemma not_lead: "128 \<le> b \<Longrightarrow> b < 192 \<Longrightarrow> \<not> lead_byte b"
  by (simp add: lead_byte_def is_one_byte_utf8_def is_two_byte_utf8_def is_three_byte_utf8_def is_four_byte_utf8_def)

lemma first_is_lead: "code_point ch \<Longrightarrow> lead_byte (encode ch ! 0)"
  using byte_count_cases [of ch] by (auto simp: lead_byte_def first_byte)

lemma byte_count_pos: "0 < byte_count ch"
  by (simp add: byte_count_def)

lemma lead_marks_encode:
  assumes "code_point ch"
  shows "lead_marks (encode ch) = 1 # replicate (byte_count ch - 1) 0"
proof (rule nth_equalityI)
  show "length (lead_marks (encode ch)) = length (1 # replicate (byte_count ch - 1) 0)"
    using byte_count_pos [of ch] by (simp add: lead_marks_def)
  fix k assume "k < length (lead_marks (encode ch))"
  then have k: "k < byte_count ch" by (simp add: lead_marks_def)
  then show "lead_marks (encode ch) ! k = (1 # replicate (byte_count ch - 1) 0) ! k"
    using first_is_lead [OF assms] not_lead [OF next_byte [OF assms _ k]] by (cases k) (auto simp: lead_marks_def)
qed

lemma lead_marks_append: "lead_marks (xs @ ys) = lead_marks xs @ lead_marks ys"
  by (simp add: lead_marks_def)

lemma count_leads: "\<forall>ch\<in>set cps. code_point ch \<Longrightarrow> sum_list (lead_marks (concat (map encode cps))) = length cps"
proof (induction cps)
  case Nil
  then show ?case by (simp add: lead_marks_def)
next
  case (Cons ch cps)
  then show ?case by (simp add: lead_marks_append lead_marks_encode sum_list_replicate)
qed

text \<open>The prefix sums of the marks at the first byte of character \<open>i\<close>.\<close>

lemma leads_before:
  assumes "\<forall>ch\<in>set cps. code_point ch" "i \<le> length cps"
  shows "sums_before (lead_marks (concat (map encode cps))) (sums_before (map byte_count cps) i) = i"
proof -
  have split: "concat (map encode cps) = concat (map encode (take i cps)) @ concat (map encode (drop i cps))"
    by (metis append_take_drop_id concat_append map_append)
  have "sums_before (map byte_count cps) i = length (concat (map encode (take i cps)))"
    by (simp add: sums_before_encode length_concat take_map)
  then have "take (sums_before (map byte_count cps) i) (lead_marks (concat (map encode cps))) = lead_marks (concat (map encode (take i cps)))"
    by (simp add: lead_marks_def split)
  then show ?thesis using count_leads [of "take i cps"] assms by (auto simp: sums_before_def dest: in_set_takeD)
qed

text \<open>The positions of one kind of first byte.\<close>

definition lead_kind :: "nat \<Rightarrow> int \<Rightarrow> bool" where
  "lead_kind k = (if k = 1 then is_one_byte_utf8 else if k = 2 then is_two_byte_utf8 else if k = 3 then is_three_byte_utf8
     else is_four_byte_utf8)"

definition leads_at :: "int list \<Rightarrow> nat \<Rightarrow> nat list" where
  "leads_at bytes k = filter (\<lambda>p. lead_kind k (bytes ! p)) [0..<length bytes]"

lemma lead_kind_first: "code_point ch \<Longrightarrow> k \<in> {1, 2, 3, 4} \<Longrightarrow> lead_kind k (encode ch ! 0) \<longleftrightarrow> byte_count ch = k"
  by (auto simp: lead_kind_def first_byte)

lemma lead_kind_lead: "lead_kind k b \<Longrightarrow> lead_byte b"
  by (auto simp: lead_kind_def lead_byte_def split: if_splits)

lemma leads_at_char:
  assumes cps: "\<forall>ch\<in>set cps. code_point ch" and k: "k \<in> {1, 2, 3, 4}" and p: "p \<in> set (leads_at (concat (map encode cps)) k)"
  obtains i where "i \<in> set (kind_at cps k)" "p = sums_before (map byte_count cps) i"
proof -
  have p': "p < length (concat (map encode cps))" "lead_kind k (concat (map encode cps) ! p)"
    using p by (auto simp: leads_at_def)
  then obtain i j where ij: "i < length cps" "j < byte_count (cps ! i)" "p = sums_before (map byte_count cps) i + j"
    using block_of_position [of p "map encode cps"] by (auto simp: sums_before_encode)
  have ch: "code_point (cps ! i)" using cps ij(1) by simp
  have b: "concat (map encode cps) ! p = encode (cps ! i) ! j"
    using nth_block [of i "map encode cps" j] ij by (simp add: sums_before_encode)
  have "j = 0"
  proof (rule ccontr)
    assume "j \<noteq> 0"
    then have "\<not> lead_byte (encode (cps ! i) ! j)" using next_byte [OF ch _ ij(2)] not_lead by simp
    then show False using p'(2) b lead_kind_lead by metis
  qed
  moreover have "i \<in> set (kind_at cps k)"
    using p'(2) b lead_kind_first [OF ch k] ij \<open>j = 0\<close> by (simp add: kind_at_def)
  ultimately show ?thesis using ij(3) that by simp
qed

lemma char_leads_at:
  assumes cps: "\<forall>ch\<in>set cps. code_point ch" and k: "k \<in> {1, 2, 3, 4}" and i: "i \<in> set (kind_at cps k)"
  shows "sums_before (map byte_count cps) i \<in> set (leads_at (concat (map encode cps)) k)"
proof -
  have i': "i < length cps" "byte_count (cps ! i) = k" using i by (auto simp: kind_at_def)
  have "0 < k" using k by auto
  then have "sums_before (map byte_count cps) i < length (concat (map encode cps))"
     "concat (map encode cps) ! sums_before (map byte_count cps) i = encode (cps ! i) ! 0"
    using encoded_cell [OF i, of 0] by simp_all
  moreover have "code_point (cps ! i)" using cps i'(1) by simp
  ultimately show ?thesis using lead_kind_first [OF _ k] i'(2) by (simp add: leads_at_def)
qed

text \<open>One loop of the decoder writes the characters of one kind.\<close>

lemma decode_loop:
  assumes cps: "\<forall>ch\<in>set cps. code_point ch" and k: "k \<in> {1, 2, 3, 4}"
    and body: "\<And>i ret. i \<in> set (kind_at cps k) \<Longrightarrow> body (sums_before (map byte_count cps) i) ret = wr ret i (cps ! i)"
    and ret: "agrees cps D ret"
  obtains ret' where "for_each body (leads_at (concat (map encode cps)) k) ret = Some ret'" "agrees cps (D \<union> set (kind_at cps k)) ret'"
proof -
  let ?P = "sums_before (map byte_count cps)"
  have "ok (for_each body (leads_at (concat (map encode cps)) k) ret)
      (agrees cps (D \<union> (\<Union>p\<in>set (leads_at (concat (map encode cps)) k). {i. i \<in> set (kind_at cps k) \<and> p = ?P i})))"
  proof (rule agrees_for_each [OF _ ret])
    fix p D' r assume p: "p \<in> set (leads_at (concat (map encode cps)) k)" and r: "agrees cps D' r"
    obtain i where i: "i \<in> set (kind_at cps k)" "p = ?P i" by (rule leads_at_char [OF cps k p])
    have le: "j \<le> length cps" if "j \<in> set (kind_at cps k)" for j using that by (simp add: kind_at_def)
    have same: "j = i" if "j \<in> set (kind_at cps k)" "?P i = ?P j" for j
      using leads_before [OF cps le [OF i(1)]] leads_before [OF cps le [OF that(1)]] unfolding that(2) by (rule trans [OF sym, rotated])
    have "i < length cps" using i(1) by (simp add: kind_at_def)
    then have "ok (body p r) (agrees cps (insert i D'))"
      unfolding i(2) body [OF i(1)] by (intro agrees_write [OF r]) simp_all
    moreover have "D' \<union> {i. i \<in> set (kind_at cps k) \<and> p = ?P i} \<subseteq> insert i D'"
    proof
      fix j assume "j \<in> D' \<union> {i. i \<in> set (kind_at cps k) \<and> p = ?P i}"
      then consider "j \<in> D'" | "j \<in> set (kind_at cps k)" "?P i = ?P j" unfolding i(2) by blast
      then show "j \<in> insert i D'" by cases (use same in simp_all)
    qed
    ultimately show "ok (body p r) (agrees cps (D' \<union> {i. i \<in> set (kind_at cps k) \<and> p = ?P i}))" by (rule ok_agrees_mono)
  qed
  moreover have "D \<union> set (kind_at cps k) \<subseteq> D \<union> (\<Union>p\<in>set (leads_at (concat (map encode cps)) k). {i. i \<in> set (kind_at cps k) \<and> p = ?P i})"
    using char_leads_at [OF cps k] by blast
  ultimately have "ok (for_each body (leads_at (concat (map encode cps)) k) ret) (agrees cps (D \<union> set (kind_at cps k)))"
    by (rule ok_agrees_mono)
  then show ?thesis using that by (auto elim: okE)
qed

lemma leads_found:
  assumes "wf_cfg fc"
  shows "find_condition fc 4 is_one_byte_utf8 bytes = Some (leads_at bytes 1)" "find_condition fc 4 is_two_byte_utf8 bytes = Some (leads_at bytes 2)"
    "find_condition fc 4 is_three_byte_utf8 bytes = Some (leads_at bytes 3)" "find_condition fc 4 is_four_byte_utf8 bytes = Some (leads_at bytes 4)"
  by (simp_all add: find_condition_eq [OF assms] leads_at_def lead_kind_def)

lemma lead_mark_done:
  assumes "agrees (lead_marks bytes) D a"
  obtains a' where "mark 1 (leads_at bytes k) a = Some a'" "agrees (lead_marks bytes) (D \<union> set (leads_at bytes k)) a'"
proof (rule mark_done [OF _ assms, of "leads_at bytes k" 1])
  fix p assume "p \<in> set (leads_at bytes k)"
  then show "p < length (lead_marks bytes) \<and> lead_marks bytes ! p = 1"
    using lead_kind_lead by (auto simp: leads_at_def lead_marks_def)
qed (rule that)

lemma leads_all:
  "{0..<length (lead_marks bytes)} \<subseteq> {p. p < length bytes \<and> lead_marks bytes ! p = 0} \<union> set (leads_at bytes 1) \<union>
     set (leads_at bytes 2) \<union> set (leads_at bytes 3) \<union> set (leads_at bytes 4)"
  by (auto simp: lead_marks_def leads_at_def lead_kind_def lead_byte_def)

lemma decode_bodies:
  assumes cps: "\<forall>ch\<in>set cps. code_point ch" and i: "i \<in> set (kind_at cps k)"
    and si: "rd si (sums_before (map byte_count cps) i) = Some i"
  shows "k = 1 \<Longrightarrow> do { o' \<leftarrow> rd si (sums_before (map byte_count cps) i); a \<leftarrow> rd (concat (map encode cps)) (sums_before (map byte_count cps) i);
      wr ret o' a } = wr ret i (cps ! i)"
    and "k = 2 \<Longrightarrow> do { o' \<leftarrow> rd si (sums_before (map byte_count cps) i); a \<leftarrow> rd (concat (map encode cps)) (sums_before (map byte_count cps) i);
      b \<leftarrow> rd (concat (map encode cps)) (sums_before (map byte_count cps) i + 1);
      wr ret o' (push_bit 6 (a AND 0x1F) OR (b AND 0x3F)) } = wr ret i (cps ! i)"
    and "k = 3 \<Longrightarrow> do { o' \<leftarrow> rd si (sums_before (map byte_count cps) i); a \<leftarrow> rd (concat (map encode cps)) (sums_before (map byte_count cps) i);
      b \<leftarrow> rd (concat (map encode cps)) (sums_before (map byte_count cps) i + 1);
      d \<leftarrow> rd (concat (map encode cps)) (sums_before (map byte_count cps) i + 2);
      wr ret o' (push_bit 12 (a AND 0xF) OR push_bit 6 (b AND 0x3F) OR (d AND 0x3F)) } = wr ret i (cps ! i)"
    and "k = 4 \<Longrightarrow> do { o' \<leftarrow> rd si (sums_before (map byte_count cps) i); a \<leftarrow> rd (concat (map encode cps)) (sums_before (map byte_count cps) i);
      b \<leftarrow> rd (concat (map encode cps)) (sums_before (map byte_count cps) i + 1);
      d \<leftarrow> rd (concat (map encode cps)) (sums_before (map byte_count cps) i + 2);
      e \<leftarrow> rd (concat (map encode cps)) (sums_before (map byte_count cps) i + 3);
      wr ret o' (push_bit 18 (a AND 0x7) OR push_bit 12 (b AND 0x3F) OR push_bit 6 (d AND 0x3F) OR (e AND 0x3F)) } = wr ret i (cps ! i)"
proof -
  let ?P = "sums_before (map byte_count cps) i" and ?T = "concat (map encode cps)"
  have "i < length cps" "byte_count (cps ! i) = k" using i by (auto simp: kind_at_def)
  then have ch: "code_point (cps ! i)" "byte_count (cps ! i) = k" using cps by simp_all
  have cell: "rd ?T (?P + j) = Some (encode (cps ! i) ! j)" if "j < k" for j
    using encoded_cell [OF i that] by (simp add: rd_def)
  have cell0: "rd ?T ?P = Some (encode (cps ! i) ! 0)" if "0 < k" using cell [OF that] by simp
  show "do { o' \<leftarrow> rd si ?P; a \<leftarrow> rd ?T ?P; wr ret o' a } = wr ret i (cps ! i)" if k: "k = 1"
    unfolding si bind.bind_lunit using cell0 decode_bytes(1) [OF ch(1)] ch(2) k by simp
  show "do { o' \<leftarrow> rd si ?P; a \<leftarrow> rd ?T ?P; b \<leftarrow> rd ?T (?P + 1);
      wr ret o' (push_bit 6 (a AND 0x1F) OR (b AND 0x3F)) } = wr ret i (cps ! i)" if k: "k = 2"
    unfolding si bind.bind_lunit using cell0 cell [of 1] decode_bytes(2) [OF ch(1)] ch(2) k by simp
  show "do { o' \<leftarrow> rd si ?P; a \<leftarrow> rd ?T ?P; b \<leftarrow> rd ?T (?P + 1); d \<leftarrow> rd ?T (?P + 2);
      wr ret o' (push_bit 12 (a AND 0xF) OR push_bit 6 (b AND 0x3F) OR (d AND 0x3F)) } = wr ret i (cps ! i)" if k: "k = 3"
    unfolding si bind.bind_lunit using cell0 cell [of 1] cell [of 2] decode_bytes(3) [OF ch(1)] ch(2) k by simp
  show "do { o' \<leftarrow> rd si ?P; a \<leftarrow> rd ?T ?P; b \<leftarrow> rd ?T (?P + 1); d \<leftarrow> rd ?T (?P + 2); e \<leftarrow> rd ?T (?P + 3);
      wr ret o' (push_bit 18 (a AND 0x7) OR push_bit 12 (b AND 0x3F) OR push_bit 6 (d AND 0x3F) OR (e AND 0x3F)) } = wr ret i (cps ! i)"
    if k: "k = 4"
    unfolding si bind.bind_lunit using cell0 cell [of 1] cell [of 2] cell [of 3] decode_bytes(4) [OF ch(1)] ch(2) k by simp
qed

text \<open>When every byte is a character of its own, there is nothing to decode.\<close>

lemma encode_all_single:
  assumes cps: "\<forall>ch\<in>set cps. code_point ch" and all: "length (leads_at (concat (map encode cps)) 1) = length (concat (map encode cps))"
  shows "length (kind_at cps 1) = length cps"
proof -
  let ?T = "concat (map encode cps)"
  have one: "is_one_byte_utf8 (?T ! p)" if "p < length ?T" for p
  proof (rule ccontr)
    assume "\<not> is_one_byte_utf8 (?T ! p)"
    then have "length (leads_at ?T 1) < length [0..<length ?T]"
      unfolding leads_at_def using that by (intro length_filter_less [of p]) (simp_all add: lead_kind_def)
    then show False using all by simp
  qed
  have "byte_count (cps ! i) = 1" if i: "i < length cps" for i
  proof -
    let ?k = "byte_count (cps ! i)"
    have k: "i \<in> set (kind_at cps ?k)" using i by (simp add: kind_at_def)
    have "is_one_byte_utf8 (encode (cps ! i) ! 0)"
      using one [OF encoded_cell(1) [OF k byte_count_pos]] unfolding encoded_cell(2) [OF k byte_count_pos] .
    then show ?thesis using first_byte(1) cps i by simp
  qed
  then have "kind_at cps 1 = [0..<length cps]" unfolding kind_at_def by (intro filter_True) simp
  then show ?thesis by simp
qed

context words_build begin

lemma utf8_to_utf32_encoded:
  assumes w: "words_ok w" and fc: "wf_cfg fc" and cps: "\<forall>ch\<in>set (w_chars w). code_point ch" and small: "length (w_chars w) < 2 ^ 60"
  shows "utf8_to_utf32 c fc (encoded w) = Some w"
proof (cases "length (leads_at (w_chars (encoded w)) 1) = length (w_chars (encoded w))")
  case True
  then have "encoded w = w"
    by (intro encoded_one_byte [OF w] encode_all_single [OF cps]) (simp add: encoded_def Let_def)
  then show ?thesis using True by (simp add: utf8_to_utf32_def Let_def leads_found [OF fc])
next
  case False
  let ?cps = "w_chars w" and ?T = "concat (map encode (w_chars w))" and ?k = "length (w_starts w)"
  let ?N = "length ?T" and ?L = "lead_marks ?T" and ?P = "sums_before (map byte_count ?cps)"
  let ?S = "sums_before ?L" let ?si = "map ?S [0..<Suc ?N]"
  have T: "w_chars (encoded w) = ?T" by (simp add: encoded_def Let_def)
  note no = False [unfolded T]
  have lL: "length ?L = ?N" by (simp add: lead_marks_def)
  have a0: "agrees ?L {p. p < ?N \<and> ?L ! p = 0} (replicate ?N 0)" by (auto simp: agrees_def lL)
  obtain a1 where a1: "mark 1 (leads_at ?T 1) (replicate ?N 0) = Some a1" "agrees ?L ({p. p < ?N \<and> ?L ! p = 0} \<union> set (leads_at ?T 1)) a1"
    by (rule lead_mark_done [OF a0])
  obtain a2 where a2: "mark 1 (leads_at ?T 2) a1 = Some a2"
      "agrees ?L ({p. p < ?N \<and> ?L ! p = 0} \<union> set (leads_at ?T 1) \<union> set (leads_at ?T 2)) a2"
    by (rule lead_mark_done [OF a1(2)])
  obtain a3 where a3: "mark 1 (leads_at ?T 3) a2 = Some a3"
      "agrees ?L ({p. p < ?N \<and> ?L ! p = 0} \<union> set (leads_at ?T 1) \<union> set (leads_at ?T 2) \<union> set (leads_at ?T 3)) a3"
    by (rule lead_mark_done [OF a2(2)])
  obtain a4 where a4: "mark 1 (leads_at ?T 4) a3 = Some a4"
      "agrees ?L ({p. p < ?N \<and> ?L ! p = 0} \<union> set (leads_at ?T 1) \<union> set (leads_at ?T 2) \<union> set (leads_at ?T 3) \<union> set (leads_at ?T 4)) a4"
    by (rule lead_mark_done [OF a3(2)])
  have marks: "a4 = ?L" by (rule agrees_all [OF a4(2) leads_all])
  have si: "start_positions c ?L = Some ?si" using start_positions_eq [of ?L] by (simp only: lL)
  have rd_si: "rd ?si p = Some (?S p)" if "p < Suc ?N" for p
    using that by (simp add: rd_def nth_append del: upt_Suc)
  have below: "?P i \<le> ?N" if "i \<le> length ?cps" for i
    using sums_before_mono [OF that, of "map byte_count ?cps"] unfolding sums_before_all .
  have back_to: "?S (?P i) = i" if "i \<le> length ?cps" for i by (rule leads_before [OF cps that])
  have at_char: "rd ?si (?P i) = Some i" if "i \<le> length ?cps" for i
    unfolding rd_si [OF le_imp_less_Suc [OF below [OF that]]] back_to [OF that] ..
  have tot: "rd ?si ?N = Some (length ?cps)" using at_char [OF le_refl] unfolding sums_before_all .
  have at_char': "rd ?si (?P i) = Some i" if "i \<in> set (kind_at ?cps k)" for i k
    by (rule at_char) (use that in \<open>simp add: kind_at_def\<close>)
  have r0: "agrees ?cps {} (replicate (length ?cps) 0)" by (rule agrees_start) simp
  obtain r1 where r1: "for_each (\<lambda>pos ret. do { o' \<leftarrow> rd ?si pos; a \<leftarrow> rd ?T pos; wr ret o' a }) (leads_at ?T 1) (replicate (length ?cps) 0) = Some r1"
      "agrees ?cps ({} \<union> set (kind_at ?cps 1)) r1"
    by (rule decode_loop [OF cps _ decode_bodies(1) [OF cps _ at_char' refl] r0]) auto
  obtain r2 where r2: "for_each (\<lambda>pos ret. do { o' \<leftarrow> rd ?si pos; a \<leftarrow> rd ?T pos; b \<leftarrow> rd ?T (pos + 1);
           wr ret o' (push_bit 6 (a AND 0x1F) OR (b AND 0x3F)) }) (leads_at ?T 2) r1 = Some r2"
      "agrees ?cps ({} \<union> set (kind_at ?cps 1) \<union> set (kind_at ?cps 2)) r2"
    by (rule decode_loop [OF cps _ decode_bodies(2) [OF cps _ at_char' refl] r1(2)]) auto
  obtain r3 where r3: "for_each (\<lambda>pos ret. do { o' \<leftarrow> rd ?si pos; a \<leftarrow> rd ?T pos; b \<leftarrow> rd ?T (pos + 1); d \<leftarrow> rd ?T (pos + 2);
           wr ret o' (push_bit 12 (a AND 0xF) OR push_bit 6 (b AND 0x3F) OR (d AND 0x3F)) }) (leads_at ?T 3) r2 = Some r3"
      "agrees ?cps ({} \<union> set (kind_at ?cps 1) \<union> set (kind_at ?cps 2) \<union> set (kind_at ?cps 3)) r3"
    by (rule decode_loop [OF cps _ decode_bodies(3) [OF cps _ at_char' refl] r2(2)]) auto
  obtain r4 where r4: "for_each (\<lambda>pos ret. do { o' \<leftarrow> rd ?si pos; a \<leftarrow> rd ?T pos; b \<leftarrow> rd ?T (pos + 1); d \<leftarrow> rd ?T (pos + 2);
           e \<leftarrow> rd ?T (pos + 3);
           wr ret o' (push_bit 18 (a AND 0x7) OR push_bit 12 (b AND 0x3F) OR push_bit 6 (d AND 0x3F) OR (e AND 0x3F)) }) (leads_at ?T 4) r3 = Some r4"
      "agrees ?cps ({} \<union> set (kind_at ?cps 1) \<union> set (kind_at ?cps 2) \<union> set (kind_at ?cps 3) \<union> set (kind_at ?cps 4)) r4"
    by (rule decode_loop [OF cps _ decode_bodies(4) [OF cps _ at_char' refl] r3(2)]) auto
  have ret: "r4 = ?cps" by (rule agrees_all [OF r4(2) kinds_all])
  have in_range: "w_starts w ! i + w_lens w ! i \<le> length ?cps" if "i < ?k" for i using w that by (simp add: words_ok_def)
  have in_range': "w_starts w ! i \<le> length ?cps" if "i < ?k" for i using in_range [OF that] by simp
  have ok: "words_ok (encoded w)" using encoded_words [OF w] by blast
  have "?S ?N \<le> length ?cps" using back_to [OF le_refl] unfolding sums_before_all by simp
  then have "?S (length (w_chars (encoded w))) < 2 ^ 62" unfolding T by (rule order.strict_trans1 [OF _ order.strict_trans [OF small]]) simp
  from move_spans_eq [where f = ?S, OF ok sums_before_mono this]
  have "move_spans ?si (w_starts (encoded w)) (w_lens (encoded w)) =
     Some (map (\<lambda>i. ?S (w_starts (encoded w) ! i)) [0..<?k],
           map (\<lambda>i. ?S (w_starts (encoded w) ! i + w_lens (encoded w) ! i) - ?S (w_starts (encoded w) ! i)) [0..<?k])"
    unfolding T by (simp add: encoded_def Let_def)
  also have "map (\<lambda>i. ?S (w_starts (encoded w) ! i)) [0..<?k] = w_starts w"
    by (rule nth_equalityI) (simp_all add: encoded_def Let_def back_to in_range')
  also have "map (\<lambda>i. ?S (w_starts (encoded w) ! i + w_lens (encoded w) ! i) - ?S (w_starts (encoded w) ! i)) [0..<?k] = w_lens w"
  proof (rule nth_equalityI)
    show "length (map (\<lambda>i. ?S (w_starts (encoded w) ! i + w_lens (encoded w) ! i) - ?S (w_starts (encoded w) ! i)) [0..<?k]) = length (w_lens w)"
      using w by (simp add: words_ok_def)
    fix i assume "i < length (map (\<lambda>i. ?S (w_starts (encoded w) ! i + w_lens (encoded w) ! i) - ?S (w_starts (encoded w) ! i)) [0..<?k])"
    then have i: "i < ?k" by simp
    have "?P (w_starts w ! i) \<le> ?P (w_starts w ! i + w_lens w ! i)" by (rule sums_before_mono) simp
    then show "map (\<lambda>i. ?S (w_starts (encoded w) ! i + w_lens (encoded w) ! i) - ?S (w_starts (encoded w) ! i)) [0..<?k] ! i = w_lens w ! i"
      using i by (simp add: encoded_def Let_def back_to in_range in_range')
  qed
  finally have moved: "move_spans ?si (w_starts (encoded w)) (w_lens (encoded w)) = Some (w_starts w, w_lens w)" .
  show ?thesis
    unfolding utf8_to_utf32_def Let_def T leads_found [OF fc] bind.bind_lunit if_not_P [OF no] a1(1) a2(1) a3(1) a4(1) marks si tot
      r1(1) r2(1) r3(1) r4(1) ret moved prod.case
    by simp
qed

end

end
