(* ===== verification/Find.thy ===== *)
theory Find
  imports WordsConcat
begin

text \<open>
  text/find.hpp and text/find.cc: all positions of a string in an array of characters.  The first
  character is searched in the whole array, and every further one filters the candidates that are left;
  both are raked scans.  Long arrays are searched block by block.

  A pointer into the array is the array and an offset \<open>base\<close>.  The work buffer is written before it is
  read in every pass, so it is created anew in the model.
\<close>

subsection \<open>The code\<close>

definition find_text_cfg_ve :: find_cfg where
  "find_text_cfg_ve = \<lparr>vlen = 1024, vlen_each = 256, thr = 1, align_size = 128\<rparr>"

definition find_text_cfg_x86 :: find_cfg where
  "find_text_cfg_x86 = \<lparr>vlen = 4, vlen_each = 1, thr = 1, align_size = 1\<rparr>"

text \<open>What the two helpers have in common: \<open>visit i\<close> says which candidate item \<open>i\<close> contributes, if any.\<close>

definition find_pass ::
  "find_cfg \<Rightarrow> (nat \<Rightarrow> nat option option) \<Rightarrow> nat \<Rightarrow> nat list \<Rightarrow> (nat list \<times> nat) option" where
  "find_pass c visit size' idx =
     (if size' = 0 then Some (idx, 0)
      else let each = find_each c 4 size'; rest = size' - each * vlen c; buf = replicate (length idx) 0 in
      if each = 0 then do {
        (current, buf) \<leftarrow> for_each (\<lambda>i (current, buf). do {
            out \<leftarrow> visit i;
            case out of None \<Rightarrow> Some (current, buf)
            | Some p \<Rightarrow> do { buf \<leftarrow> wr buf current p; Some (current + 1, buf) } }) [0..<size'] (0, buf);
        idx \<leftarrow> copy_cells buf 0 idx 0 current;
        Some (idx, current) }
      else do {
        (_, tot, idx) \<leftarrow> rake_compact (vlen c) (lanes4 (vlen_each c)) find_probe
                           (\<lambda>i flag s. do { out \<leftarrow> visit i; Some ((), out) }) each rest () buf (\<lambda>_. idx);
        Some (idx, tot) })"

definition find_one_helper ::
  "find_cfg \<Rightarrow> int list \<Rightarrow> nat \<Rightarrow> nat list \<Rightarrow> nat \<Rightarrow> int \<Rightarrow> (nat list \<times> nat) option" where
  "find_one_helper c vp base retidx size' to_find =
     find_pass c (\<lambda>i. do { x \<leftarrow> rd vp (base + i); Some (if x = to_find then Some i else None) }) size' retidx"

definition find_helper ::
  "find_cfg \<Rightarrow> int list \<Rightarrow> nat \<Rightarrow> nat list \<Rightarrow> nat \<Rightarrow> int \<Rightarrow> nat \<Rightarrow> (nat list \<times> nat) option" where
  "find_helper c vp base crntidx size' to_find off =
     find_pass c (\<lambda>i. do {
       p \<leftarrow> rd crntidx i;
       x \<leftarrow> rd vp (base + p + off);
       Some (if x = to_find then Some p else None) }) size' crntidx"

definition find_impl :: "find_cfg \<Rightarrow> int list \<Rightarrow> nat \<Rightarrow> nat \<Rightarrow> int list \<Rightarrow> nat list option" where
  "find_impl c vp base size' to_find =
     (let to_find_size = length to_find in
      if to_find_size = 0 \<or> size' = 0 \<or> size' < to_find_size then Some []
      else do {
        let idxsize = size' - (to_find_size - 1);
        ch \<leftarrow> rd to_find 0;
        (crntidx, retsize) \<leftarrow> find_one_helper c vp base (replicate idxsize 0) idxsize ch;
        (crntidx, retsize) \<leftarrow> for_each (\<lambda>i (crntidx, crntsize). do {
            ch \<leftarrow> rd to_find i;
            find_helper c vp base crntidx crntsize ch i }) [1..<to_find_size] (crntidx, retsize);
        copy_cells crntidx 0 (replicate retsize 0) 0 retsize })"

text \<open>\<open>to_find_size - 1\<close> is a \<open>size_t\<close> difference, as is every start of a block.\<close>

definition find_blocks :: "find_cfg \<Rightarrow> int list \<Rightarrow> nat \<Rightarrow> nat \<Rightarrow> int list \<Rightarrow> nat \<Rightarrow> nat \<Rightarrow> nat list list option" where
  "find_blocks c vp base size' to_find block_size num_block = do {
     let overlap = int (length to_find) - 1;
     blocks \<leftarrow> omap (\<lambda>i.
         if i = 0 then find_impl c vp base block_size to_find
         else do {
           let start_pos = u64 (int block_size * int i - overlap);
           let find_size = u64 (int block_size + overlap);
           r \<leftarrow> find_impl c vp (base + start_pos) find_size to_find;
           Some (map (\<lambda>p. p + start_pos) r) }) [0..<num_block];
     let start_pos = u64 (int block_size * int num_block - overlap);
     let find_size = u64 (int (size' - num_block * block_size) + overlap);
     r \<leftarrow> find_impl c vp (base + start_pos) find_size to_find;
     Some (blocks @ [map (\<lambda>p. p + start_pos) r]) }"

text \<open>The number of blocks is a quotient: a block of size 0 is a division by zero.\<close>

definition find_in_blocks :: "find_cfg \<Rightarrow> int list \<Rightarrow> nat \<Rightarrow> nat \<Rightarrow> int list \<Rightarrow> nat \<Rightarrow> (string + nat list) option" where
  "find_in_blocks c vp base size' to_find block_size =
     (if block_size < length to_find then Some (Inl ''to_find size is larger than block_size'')
      else if block_size = 0 then None
      else let num_block = size' div block_size in
      if num_block = 0 then do { r \<leftarrow> find_impl c vp base size' to_find; Some (Inr r) }
      else do {
        retvec \<leftarrow> find_blocks c vp base size' to_find block_size num_block;
        let tot = sum_list (map length retvec);
        (_, ret) \<leftarrow> for_each (\<lambda>i (p, ret). do {
            w \<leftarrow> rd retvec i;
            ret \<leftarrow> copy_cells w 0 ret p (length w);
            Some (p + length w, ret) }) [0..<length retvec] (0, replicate tot 0);
        Some (Inr ret) })"

text \<open>The size of a block is computed in \<open>size_t\<close> from the argument in megabytes, and wraps.\<close>

definition find_block_size :: "nat \<Rightarrow> nat" where
  "find_block_size block_size_mb = block_size_mb * 1024 * 1024 mod 2 ^ 64 div 4"

lemma find_block_size_10: "find_block_size 10 = 2621440"
  by (simp add: find_block_size_def)

definition find_text :: "find_cfg \<Rightarrow> int list \<Rightarrow> nat \<Rightarrow> nat \<Rightarrow> int list \<Rightarrow> nat \<Rightarrow> (string + nat list) option" where
  "find_text c vp base size' to_find block_size_mb =
     (if block_size_mb = 0 then Some (Inl ''block_size is 0'')
      else find_in_blocks c vp base size' to_find (find_block_size block_size_mb))"

subsection \<open>One pass\<close>

locale find_visit =
  fixes size' :: nat and visit :: "nat \<Rightarrow> nat option option" and emit :: "nat \<Rightarrow> nat option"
  assumes visit_ok: "i < size' \<Longrightarrow> visit i = Some (emit i)"
begin

sublocale rake_visit size' find_probe "\<lambda>i flag s. do { out \<leftarrow> visit i; Some ((), out) }" "\<lambda>_. ()" emit "\<lambda>_ _. True"
  by unfold_locales (auto simp: find_probe_def visit_ok)

lemma find_pass_ok:
  assumes c: "wf_cfg c" and n: "size' \<le> length idx"
  shows "ok (find_pass c visit size' idx) (\<lambda>(idx', k). k = length (hits emit [0..<size']) \<and> idx' = hits emit [0..<size'] @ drop k idx)"
proof -
  let ?each = "find_each c 4 size'" and ?h = "hits emit [0..<size']"
  have hn: "length ?h \<le> length idx" using length_hits [of emit "[0..<size']"] n by simp
  have lanes: "ok (rake_compact (vlen c) (lanes4 (vlen_each c)) find_probe (\<lambda>i flag s. do { out \<leftarrow> visit i; Some ((), out) })
       ?each (size' - ?each * vlen c) () (replicate (length idx) 0) (\<lambda>_. idx))
     (\<lambda>(s, tot, ret). True \<and> tot = length ?h \<and> ret = ?h @ drop tot idx)"
    using c find_each_le [of c 4 size'] n
    by (intro compact_ok) (simp_all add: distinct_lanes4 set_lanes4 wf_cfg_def)
  obtain buf where seq: "for_each (\<lambda>i (current, buf). do {
            (_, out) \<leftarrow> (do { out \<leftarrow> visit i; Some ((), out) });
            case out of None \<Rightarrow> Some (current, buf)
            | Some p \<Rightarrow> do { buf \<leftarrow> wr buf current p; Some (current + 1, buf) } }) [0..<size'] (0, replicate (length idx) 0) =
      Some (length ?h, buf)" "take (length ?h) buf = ?h" "length buf = length idx"
    using push_hits [of size' "\<lambda>i. do { out \<leftarrow> visit i; Some ((), out) }" emit "replicate (length idx) 0"] n visit_ok by fastforce
  have copy: "copy_cells buf 0 idx 0 (length ?h) = Some (?h @ drop (length ?h) idx)"
    using copy_cells_run [of ?h 0 buf 0 idx] seq(2) hn by simp
  have seq': "for_each (\<lambda>i (current, buf). do {
            out \<leftarrow> visit i;
            case out of None \<Rightarrow> Some (current, buf)
            | Some p \<Rightarrow> do { buf \<leftarrow> wr buf current p; Some (current + 1, buf) } }) [0..<size'] (0, replicate (length idx) 0) =
      Some (length ?h, buf)"
    using seq(1) by (simp cong: option.case_cong)
  show ?thesis
  proof (cases "size' = 0 \<or> ?each \<noteq> 0")
    case True
    then show ?thesis using lanes by (auto simp: find_pass_def Let_def ok_iff_ex)
  next
    case False
    then have n: "size' \<noteq> 0" and e: "?each = 0" by simp_all
    have "find_pass c visit size' idx = Some (?h @ drop (length ?h) idx, length ?h)"
      unfolding find_pass_def Let_def if_not_P [OF n] if_P [OF e] seq' by (simp only: bind.bind_lunit prod.case copy)
    then show ?thesis by simp
  qed
qed

lemma shorter: "n \<le> size' \<Longrightarrow> find_visit n visit emit"
  by unfold_locales (simp add: visit_ok)

end

text \<open>The first pass visits the characters from \<open>base\<close> on.\<close>

interpretation find_first: find_visit "length vp - base"
    "\<lambda>i. do { x \<leftarrow> rd vp (base + i); Some (if x = to_find then Some i else None) }"
    "\<lambda>i. if vp ! (base + i) = to_find then Some i else None"
  for vp :: "int list" and base :: nat and to_find :: int
  by unfold_locales simp

subsection \<open>Occurrences\<close>

definition occurs_at :: "'a list \<Rightarrow> 'a list \<Rightarrow> nat \<Rightarrow> bool" where
  "occurs_at s u p \<longleftrightarrow> p + length s \<le> length u \<and> take (length s) (drop p u) = s"

definition occurrences :: "'a list \<Rightarrow> 'a list \<Rightarrow> nat list" where
  "occurrences s u = (if s = [] then [] else filter (occurs_at s u) [0..<length u])"

lemma occurs_at_nth:
  "occurs_at s u p \<longleftrightarrow> p + length s \<le> length u \<and> (\<forall>j<length s. u ! (p + j) = s ! j)"
proof -
  have "take (length s) (drop p u) = s \<longleftrightarrow> (\<forall>j<length s. u ! (p + j) = s ! j)" if "p + length s \<le> length u"
    using that unfolding list_eq_iff_nth_eq [of "take (length s) (drop p u)"] by simp
  then show ?thesis by (auto simp: occurs_at_def)
qed

lemma occurrences_candidates:
  assumes "s \<noteq> []"
  shows "occurrences s u = filter (\<lambda>p. \<forall>j<length s. u ! (p + j) = s ! j) [0..<length u + 1 - length s]"
proof -
  have "0 < length s" using assms by simp
  then have "length u + 1 - length s \<le> length u" by linarith
  then have split: "[0..<length u] = [0..<length u + 1 - length s] @ [length u + 1 - length s..<length u]"
    by (metis le_add_diff_inverse upt_add_eq_append zero_le)
  have "filter (occurs_at s u) [length u + 1 - length s..<length u] = []"
    using \<open>0 < length s\<close> by (auto simp: filter_empty_conv occurs_at_nth)
  moreover have "filter (occurs_at s u) [0..<length u + 1 - length s] =
      filter (\<lambda>p. \<forall>j<length s. u ! (p + j) = s ! j) [0..<length u + 1 - length s]"
    by (rule filter_cong [OF refl]) (auto simp: occurs_at_nth)
  ultimately show ?thesis using assms unfolding occurrences_def split by simp
qed

subsection \<open>One block\<close>

text \<open>After \<open>k\<close> characters the candidates are the positions where the first \<open>k\<close> characters match.\<close>

definition candidates :: "int list \<Rightarrow> nat \<Rightarrow> int list \<Rightarrow> nat \<Rightarrow> nat \<Rightarrow> nat list" where
  "candidates vp base s n k = filter (\<lambda>p. \<forall>j<k. vp ! (base + p + j) = s ! j) [0..<n]"

lemma candidates_Suc: "candidates vp base s n (Suc k) = filter (\<lambda>p. vp ! (base + p + k) = s ! k) (candidates vp base s n k)"
  unfolding candidates_def filter_filter by (rule filter_cong) (auto simp: less_Suc_eq)

lemma candidates_le: "length (candidates vp base s n k) \<le> n"
  unfolding candidates_def by (rule order_trans [OF length_filter_le]) simp

lemma find_step:
  assumes c: "wf_cfg c" and fit: "base + n + k \<le> length vp" "length crnt = n" "0 < k"
    and crnt: "m = length (candidates vp base s n k)" "take m crnt = candidates vp base s n k"
  shows "ok (find_helper c vp base crnt m (s ! k) k)
    (\<lambda>(crnt', m'). length crnt' = n \<and> m' = length (candidates vp base s n (Suc k)) \<and> take m' crnt' = candidates vp base s n (Suc k))"
proof -
  let ?C = "candidates vp base s n k"
  have mn: "m \<le> n" unfolding crnt(1) by (rule candidates_le)
  have at: "crnt ! i = ?C ! i" if "i < m" for i using that crnt(2) by (metis nth_take)
  have below: "?C ! i < n" if "i < m" for i
  proof -
    have "?C ! i \<in> set ?C" using that crnt(1) by simp
    then show ?thesis by (simp add: candidates_def)
  qed
  let ?visit = "\<lambda>i. do { p \<leftarrow> rd crnt i; x \<leftarrow> rd vp (base + p + k); Some (if x = s ! k then Some p else None) }"
  let ?emit = "\<lambda>i. if vp ! (base + ?C ! i + k) = s ! k then Some (?C ! i) else None"
  have v: "find_visit m ?visit ?emit"
  proof
    fix i assume i: "i < m"
    have "base + ?C ! i + k < length vp" "i < length crnt" using below [OF i] i mn fit by simp_all
    then show "?visit i = Some (?emit i)" by (simp add: at [OF i])
  qed
  have h: "hits ?emit [0..<m] = candidates vp base s n (Suc k)"
    using hits_nth [of "\<lambda>p. vp ! (base + p + k) = s ! k" ?C] by (simp add: candidates_Suc crnt(1))
  have le: "length (candidates vp base s n (Suc k)) \<le> n"
    by (rule candidates_le)
  show ?thesis
    unfolding find_helper_def
    by (rule ok_mono [OF find_visit.find_pass_ok [OF v c]]) (use h le mn fit in auto)
qed

lemma find_one_step:
  assumes c: "wf_cfg c" and fit: "base + n \<le> length vp" "length idx = n"
  shows "ok (find_one_helper c vp base idx n (s ! 0))
    (\<lambda>(crnt', m'). length crnt' = n \<and> m' = length (candidates vp base s n 1) \<and> take m' crnt' = candidates vp base s n 1)"
proof -
  let ?emit = "\<lambda>i. if vp ! (base + i) = s ! 0 then Some i else None"
  have n: "n \<le> length vp - base" using fit by simp
  have h: "hits ?emit [0..<n] = candidates vp base s n 1"
    unfolding hits_filter [of "\<lambda>i. vp ! (base + i) = s ! 0" "\<lambda>i. i"] by (simp add: candidates_def)
  have le: "length (candidates vp base s n 1) \<le> n"
    by (rule candidates_le)
  show ?thesis
    unfolding find_one_helper_def
    by (rule ok_mono [OF find_visit.find_pass_ok [OF find_first.shorter [OF n] c]]) (use h le fit in auto)
qed

lemma candidates_occurrences:
  assumes "s \<noteq> []" "length s \<le> size'" "base + size' \<le> length vp"
  shows "candidates vp base s (size' - (length s - 1)) (length s) = occurrences s (take size' (drop base vp))"
proof -
  have l: "length (take size' (drop base vp)) = size'" "0 < length s" using assms by auto
  have n: "size' + 1 - length s = size' - (length s - 1)" using l(2) assms(2) by linarith
  show ?thesis
    unfolding occurrences_candidates [OF assms(1)] l(1) n candidates_def
  proof (rule filter_cong [OF refl])
    fix p assume "p \<in> set [0..<size' - (length s - 1)]"
    then have "p + length s \<le> size'" using l(2) assms(2) by simp
    then show "(\<forall>j<length s. vp ! (base + p + j) = s ! j) = (\<forall>j<length s. take size' (drop base vp) ! (p + j) = s ! j)"
      using assms(3) by (simp add: add.assoc)
  qed
qed

lemma find_impl_eq:
  assumes c: "wf_cfg c" and fit: "base + size' \<le> length vp"
  shows "find_impl c vp base size' s = Some (occurrences s (take size' (drop base vp)))"
proof (cases "s = [] \<or> size' = 0 \<or> size' < length s")
  case True
  have "occurrences s (take size' (drop base vp)) = []"
    using True fit by (auto simp: occurrences_def occurs_at_def filter_empty_conv)
  then show ?thesis using True by (auto simp: find_impl_def)
next
  case False
  let ?n = "size' - (length s - 1)" and ?L = "length s"
  let ?I = "\<lambda>k (crnt, m). length crnt = ?n \<and> m = length (candidates vp base s ?n k) \<and> take m crnt = candidates vp base s ?n k"
  have L: "0 < ?L" "?L \<le> size'" "1 \<le> ?L" using False by (auto simp: Suc_le_eq)
  have rest: "ok (for_each (\<lambda>i (crntidx, crntsize). do { ch \<leftarrow> rd s i; find_helper c vp base crntidx crntsize ch i }) [1..<?L] st) (?I ?L)"
    if "?I 1 st" for st
  proof (rule ok_for_range [where I = ?I])
    fix k st assume k: "1 \<le> k" "k < ?L" and st: "?I k st"
    obtain crnt m where st': "st = (crnt, m)" by (cases st)
    have "base + ?n + k \<le> length vp" using k L fit by linarith
    then have "ok (find_helper c vp base crnt m (s ! k) k) (?I (Suc k))"
      by (intro find_step [OF c]) (use st st' k in auto)
    then show "ok ((\<lambda>(crntidx, crntsize). do { ch \<leftarrow> rd s k; find_helper c vp base crntidx crntsize ch k }) st) (?I (Suc k))"
      using k by (simp add: st')
  next
    show "?I 1 st" by (rule that)
    show "1 \<le> ?L" by (rule L(3))
  qed
  have first: "ok (find_one_helper c vp base (replicate ?n 0) ?n (s ! 0)) (?I 1)"
    by (rule find_one_step [OF c]) (use fit L in simp_all)
  obtain st1 where st1: "find_one_helper c vp base (replicate ?n 0) ?n (s ! 0) = Some st1" "?I 1 st1" by (rule okE [OF first])
  obtain st2 where st2: "for_each (\<lambda>i (crntidx, crntsize). do { ch \<leftarrow> rd s i; find_helper c vp base crntidx crntsize ch i }) [1..<?L] st1 = Some st2"
      "?I ?L st2"
    by (rule okE [OF rest [OF st1(2)]])
  obtain crnt m where st': "st2 = (crnt, m)" by (cases st2)
  have "copy_cells crnt 0 (replicate m 0) 0 m = Some (candidates vp base s ?n ?L)"
    using copy_cells_run [of "candidates vp base s ?n ?L" 0 crnt 0 "replicate m 0"] st2(2) unfolding st' by auto
  then show ?thesis
    using False L st1(1) st2(1) candidates_occurrences [of s size' base vp] fit
    by (cases st1) (simp add: find_impl_def Let_def st')
qed

subsection \<open>Blocks\<close>

text \<open>The occurrences that start in a range.\<close>

lemma occurrences_range:
  assumes s: "s \<noteq> []" and r: "a + n \<le> length u"
  shows "map (\<lambda>p. p + a) (occurrences s (take n (drop a u))) = filter (occurs_at s u) [a..<a + (n + 1 - length s)]"
proof -
  have "map (\<lambda>p. p + a) (occurrences s (take n (drop a u))) =
      filter (occurs_at s u) (map (\<lambda>p. p + a) [0..<n + 1 - length s])"
  proof -
    have l: "length (take n (drop a u)) = n" using r by simp
    have "filter (\<lambda>p. \<forall>j<length s. take n (drop a u) ! (p + j) = s ! j) [0..<n + 1 - length s] =
        filter (\<lambda>p. occurs_at s u (p + a)) [0..<n + 1 - length s]"
      by (rule filter_cong [OF refl]) (use r in \<open>auto simp: occurs_at_nth ac_simps\<close>)
    then show ?thesis unfolding occurrences_candidates [OF s] l by (simp add: filter_map comp_def)
  qed
  also have "map (\<lambda>p. p + a) [0..<n + 1 - length s] = [a..<a + (n + 1 - length s)]"
    by (simp add: map_add_upt add.commute)
  finally show ?thesis .
qed

lemma find_blocks_eq:
  assumes c: "wf_cfg c" and fit: "base + size' \<le> length vp" "length vp < 2 ^ 62" and s: "s \<noteq> []" "length s \<le> B" and B: "B \<le> size'"
  shows "\<exists>rs. find_blocks c vp base size' s B (size' div B) = Some rs \<and> concat rs = occurrences s (take size' (drop base vp))"
proof -
  let ?u = "take size' (drop base vp)" and ?L = "length s" and ?k = "size' div B"
  let ?f = "filter (occurs_at s ?u)"
  have L: "0 < ?L" "0 < B" using s by (auto intro: less_le_trans [of 0 "?L"])
  have k: "0 < ?k" "?k * B \<le> size'" using B L by (simp_all add: div_greater_zero_iff)
  have lu: "length ?u = size'" using fit by simp
  let ?lo = "\<lambda>i. if i = 0 then 0 else B * i - (?L - 1)"
  let ?b = "\<lambda>i. ?f [?lo i..<?lo (Suc i)]"
  have piece: "find_impl c vp (base + a) n s = Some (occurrences s (take n (drop a ?u)))" if "a + n \<le> size'" for a n
    using find_impl_eq [OF c, of "base + a" n vp s] that fit
    by (simp add: drop_take min_def add.commute)
  have ov: "int ?L - 1 = int (?L - 1)" using L(1) by linarith
  have start: "u64 (int B * int i - int (?L - 1)) = B * i - (?L - 1)" if i: "0 < i" "i \<le> ?k" for i
  proof -
    have "B * 1 \<le> B * i" using i(1) by (intro mult_le_mono2) simp
    then have "?L - 1 \<le> B * i" using s(2) unfolding mult_1_right by linarith
    moreover have "B * i \<le> size'" using mult_le_mono2 [OF i(2), of B] k(2) unfolding mult.commute [of ?k] by linarith
    then have "B * i < 2 ^ 62" using fit by linarith
    ultimately show ?thesis
      by (subst u64_id) (auto simp: of_nat_diff simp flip: of_nat_mult)
  qed
  have width: "u64 (int n + int (?L - 1)) = n + (?L - 1)" if "n \<le> size'" for n
    using that s(2) B fit by (subst u64_id) auto
  have first: "find_impl c vp base B s = Some (?b 0)"
  proof -
    have r: "0 + B \<le> size'" using B by simp
    have e: "0 + (B + 1 - ?L) = B * Suc 0 - (?L - 1)" using L s(2) unfolding mult_Suc_right mult_0_right by linarith
    show ?thesis using piece [OF r] occurrences_range [OF s(1), of _ _ ?u, unfolded lu, OF r] unfolding e by simp
  qed
  have block: "do { r \<leftarrow> find_impl c vp (base + (B * i - (?L - 1))) (B + (?L - 1)) s; Some (map (\<lambda>p. p + (B * i - (?L - 1))) r) } = Some (?b i)"
    if i: "0 < i" "i < ?k" for i
  proof -
    have "B * 1 \<le> B * i" using i(1) by (intro mult_le_mono2) simp
    moreover have "B * Suc i \<le> B * ?k" using i(2) by (intro mult_le_mono2) simp
    ultimately have a: "?L - 1 \<le> B * i" "B * i + B \<le> size'" using s(2) k(2) unfolding mult_1_right mult_Suc_right mult.commute [of ?k] by linarith+
    then have r: "(B * i - (?L - 1)) + (B + (?L - 1)) \<le> size'" by simp
    have e: "(B * i - (?L - 1)) + (B + (?L - 1) + 1 - ?L) = B * Suc i - (?L - 1)" using a(1) L s(2) unfolding mult_Suc_right by linarith
    show ?thesis
      using piece [OF r] occurrences_range [OF s(1), of _ _ ?u, unfolded lu, OF r] i(1) unfolding e by simp
  qed
  have last: "do { r \<leftarrow> find_impl c vp (base + (B * ?k - (?L - 1))) (size' - ?k * B + (?L - 1)) s; Some (map (\<lambda>p. p + (B * ?k - (?L - 1))) r) } =
      Some (?f [?lo ?k..<size' + 1 - ?L])"
  proof -
    have "B * 1 \<le> B * ?k" using k(1) by (intro mult_le_mono2) simp
    then have a: "?L - 1 \<le> B * ?k" "B * ?k \<le> size'" using s(2) k(2) unfolding mult_1_right mult.commute [of ?k] by linarith+
    then have r: "(B * ?k - (?L - 1)) + (size' - ?k * B + (?L - 1)) \<le> size'"
      unfolding mult.commute [of ?k] by linarith
    have e: "(B * ?k - (?L - 1)) + (size' - ?k * B + (?L - 1) + 1 - ?L) = size' + 1 - ?L"
      using a L unfolding mult.commute [of ?k] by linarith
    show ?thesis
      using piece [OF r] occurrences_range [OF s(1), of _ _ ?u, unfolded lu, OF r] k(1) unfolding e by simp
  qed
  have blocks: "omap (\<lambda>i. if i = 0 then find_impl c vp base B s
         else do { r \<leftarrow> find_impl c vp (base + u64 (int B * int i - int (?L - 1))) (u64 (int B + int (?L - 1))) s;
           Some (map (\<lambda>p. p + u64 (int B * int i - int (?L - 1))) r) }) [0..<?k] = Some (map ?b [0..<?k])"
  proof (rule omap_Some)
    fix i assume "i \<in> set [0..<?k]"
    then have i: "i < ?k" by simp
    show "(if i = 0 then find_impl c vp base B s
         else do { r \<leftarrow> find_impl c vp (base + u64 (int B * int i - int (?L - 1))) (u64 (int B + int (?L - 1))) s;
           Some (map (\<lambda>p. p + u64 (int B * int i - int (?L - 1))) r) }) = Some (?b i)"
    proof (cases "i = 0")
      case True
      then show ?thesis using first by simp
    next
      case False
      then have i0: "0 < i" by simp
      show ?thesis
        unfolding if_not_P [OF False] start [OF i0 less_imp_le [OF i]] width [OF B] using block [OF i0 i] False by simp
    qed
  qed
  have "concat (map ?b [0..<i]) = ?f [0..<?lo i]" if "i \<le> ?k" for i
    using that
  proof (induction i)
    case (Suc i)
    have "?lo i \<le> ?lo (Suc i)" by (auto intro: diff_le_mono)
    then have "[0..<?lo (Suc i)] = [0..<?lo i] @ [?lo i..<?lo (Suc i)]" by (metis le_add_diff_inverse upt_add_eq_append zero_le)
    then show ?case using Suc by simp
  qed simp
  then have parts: "concat (map ?b [0..<?k]) = ?f [0..<?lo ?k]" by simp
  have "B * ?k - (?L - 1) \<le> size' + 1 - ?L" using k(2) L unfolding mult.commute [of ?k] by linarith
  then have "?lo ?k \<le> size' + 1 - ?L" using k(1) by simp
  then have "[0..<size' + 1 - ?L] = [0..<?lo ?k] @ [?lo ?k..<size' + 1 - ?L]"
    by (metis le_add_diff_inverse upt_add_eq_append zero_le)
  then have "?f [0..<?lo ?k] @ ?f [?lo ?k..<size' + 1 - ?L] = ?f [0..<size' + 1 - ?L]" by simp
  also have "\<dots> = occurrences s ?u"
    using occurrences_range [OF s(1), of 0 size' ?u] lu by simp
  finally have all: "concat (map ?b [0..<?k] @ [?f [?lo ?k..<size' + 1 - ?L]]) = occurrences s ?u" using parts by simp
  have "find_blocks c vp base size' s B ?k = Some (map ?b [0..<?k] @ [?f [?lo ?k..<size' + 1 - ?L]])"
    unfolding find_blocks_def Let_def ov blocks bind.bind_lunit start [OF k(1) le_refl] width [OF diff_le_self]
    using last by (auto simp: bind_eq_Some_conv)
  then show ?thesis using all by blast
qed

lemma find_blocks_none:
  assumes "wf_cfg c"
  shows "\<exists>rs. find_blocks c vp base size' [] B k = Some rs \<and> concat rs = []"
proof -
  have f: "find_impl c vp b n [] = Some []" for b n by (simp add: find_impl_def)
  show ?thesis unfolding find_blocks_def Let_def f
    by (subst omap_Some [where g = "\<lambda>i. []"]) simp_all
qed

lemma find_in_blocks_eq:
  assumes c: "wf_cfg c" and fit: "base + size' \<le> length vp" "length vp < 2 ^ 62" and B: "length s \<le> B" "0 < B"
  shows "find_in_blocks c vp base size' s B = Some (Inr (occurrences s (take size' (drop base vp))))"
proof (cases "size' div B = 0")
  case True
  then show ?thesis using B find_impl_eq [OF c fit(1)] by (simp add: find_in_blocks_def Let_def)
next
  case False
  then have "B \<le> size'" using B(2) by (simp add: div_eq_0_iff)
  then obtain rs where rs: "find_blocks c vp base size' s B (size' div B) = Some rs" "concat rs = occurrences s (take size' (drop base vp))"
    using find_blocks_eq [OF c fit, of s B] find_blocks_none [OF c, of vp base size' B "size' div B"] B by (cases "s = []") (auto simp: occurrences_def)
  have "for_each (\<lambda>i (p, ret). do { w \<leftarrow> rd rs i; ret \<leftarrow> copy_cells w 0 ret p (length w); Some (p + length w, ret) })
      [0..<length rs] (0, replicate (sum_list (map length rs)) 0) = Some (length (concat rs), concat rs)"
    using chars_blocks [of rs "\<lambda>w. w" 0] by (simp add: comp_def)
  then show ?thesis using B rs False by (simp add: find_in_blocks_def Let_def)
qed

lemma find_text_eq:
  assumes "wf_cfg c" "base + size' \<le> length vp" "length vp < 2 ^ 62" "length s \<le> find_block_size mb" "0 < find_block_size mb"
  shows "find_text c vp base size' s mb = Some (Inr (occurrences s (take size' (drop base vp))))"
proof -
  have "mb \<noteq> 0" using assms(5) by (auto simp: find_block_size_def)
  then show ?thesis using find_in_blocks_eq [OF assms] by (simp add: find_text_def)
qed

end
