(* ===== verification/WordsSplit.thy ===== *)
theory WordsSplit
  imports Find
begin

text \<open>
  text/words.cc: \<open>split_to_words\<close> cuts an array of characters at every delimiter, and
  \<open>remove_doc_heading\<close> cuts everything up to the first occurrence of a string from every document.

  \<open>merge2\<close> is the build's \<open>set_merge\<close>.  A delimiter is a \<open>char\<close>, which is signed on both targets, while the
  characters of columns are the unsigned values.
\<close>

subsection \<open>The code\<close>

definition signed_char :: "int \<Rightarrow> int" where
  "signed_char b = (if b < 128 then b else b - 256)"

text \<open>The lengths that follow from the starts.\<close>

definition split_lens :: "nat \<Rightarrow> nat \<Rightarrow> bool \<Rightarrow> nat list \<Rightarrow> nat list option" where
  "split_lens size' offset lastdelim starts = do {
     let num_words = length starts;
     lens \<leftarrow> for_each (\<lambda>i lens. do {
         a \<leftarrow> rd starts i;
         b \<leftarrow> rd starts (i + 1);
         wr lens i (u64 (int b - int a - 1)) }) [0..<num_words - 1] (replicate num_words 0);
     s \<leftarrow> rd starts (num_words - 1);
     wr lens (num_words - 1)
       (if lastdelim then u64 (int size' + int offset - int s - 1) else u64 (int size' + int offset - int s)) }"

definition split_many ::
  "find_cfg \<Rightarrow> (nat list \<Rightarrow> nat list \<Rightarrow> nat list option) \<Rightarrow> int list \<Rightarrow> nat \<Rightarrow> nat \<Rightarrow> nat \<Rightarrow> int list \<Rightarrow>
   (string + nat list \<times> nat list) option" where
  "split_many c merge2 vp base size' offset delims = do {
     found \<leftarrow> omap (\<lambda>i. do { d \<leftarrow> rd delims i; find_text c vp base size' [d] 10 }) [0..<length delims];
     (case those (map (case_sum (\<lambda>e. None) Some) found) of
        None \<Rightarrow> Some (Inl ''to_find size is larger than block_size'')
      | Some seps \<Rightarrow> do {
          merged \<leftarrow> set_multimerge merge2 seps;
          let starts = 0 # merged;
          lastchar \<leftarrow> rd vp (base + (size' - 1));
          let lastdelim = list_ex (\<lambda>d. lastchar = signed_char d) delims;
          let starts = (if lastdelim then butlast starts else starts);
          let num_words = length starts;
          starts \<leftarrow> wr starts 0 offset;
          starts \<leftarrow> for_each (\<lambda>i starts. do { s \<leftarrow> rd starts (i + 1); wr starts (i + 1) (s + (1 + offset)) })
                      [0..<num_words - 1] starts;
          lens \<leftarrow> split_lens size' offset lastdelim starts;
          Some (Inr (starts, lens)) }) }"

definition split_one ::
  "find_cfg \<Rightarrow> int list \<Rightarrow> nat \<Rightarrow> nat \<Rightarrow> nat \<Rightarrow> int list \<Rightarrow> (string + nat list \<times> nat list) option" where
  "split_one c vp base size' offset delims = do {
     found \<leftarrow> find_text c vp base size' delims 10;
     (case found of
        Inl e \<Rightarrow> Some (Inl e)
      | Inr sep \<Rightarrow> do {
          lastchar \<leftarrow> rd vp (base + (size' - 1));
          d \<leftarrow> rd delims 0;
          let lastdelim = (lastchar = signed_char d);
          let num_words = (if lastdelim then length sep else length sep + 1);
          starts \<leftarrow> wr (replicate num_words 0) 0 offset;
          starts \<leftarrow> for_each (\<lambda>i starts. do { p \<leftarrow> rd sep i; wr starts (i + 1) (p + 1 + offset) }) [0..<num_words - 1] starts;
          lens \<leftarrow> split_lens size' offset lastdelim starts;
          Some (Inr (starts, lens)) }) }"

definition split_to_words ::
  "find_cfg \<Rightarrow> (nat list \<Rightarrow> nat list \<Rightarrow> nat list option) \<Rightarrow> int list \<Rightarrow> nat \<Rightarrow> nat \<Rightarrow> nat \<Rightarrow> int list \<Rightarrow>
   (string + nat list \<times> nat list) option" where
  "split_to_words c merge2 vp base size' offset delims =
     (if size' = 0 then Some (Inr ([], []))
      else if length delims > 1 then split_many c merge2 vp base size' offset delims
      else if length delims = 1 then split_one c vp base size' offset delims
      else Some (Inr ([], [])))"

definition split_vector ::
  "find_cfg \<Rightarrow> (nat list \<Rightarrow> nat list \<Rightarrow> nat list option) \<Rightarrow> int list \<Rightarrow> int list \<Rightarrow> (string + words) option" where
  "split_vector c merge2 v delims = do {
     r \<leftarrow> split_to_words c merge2 v 0 (length v) 0 delims;
     Some (case r of Inl e \<Rightarrow> Inl e | Inr (starts, lens) \<Rightarrow> Inr \<lparr>w_chars = v, w_starts = starts, w_lens = lens\<rparr>) }"

definition remove_doc_heading ::
  "find_cfg \<Rightarrow> int list \<Rightarrow> nat list \<Rightarrow> nat list \<Rightarrow> int list \<Rightarrow> (string + nat list \<times> nat list) option" where
  "remove_doc_heading c v sep len del =
     for_each (\<lambda>i r. case r of
         Inl e \<Rightarrow> Some (Inl e)
       | Inr (sep, len) \<Rightarrow> do {
           s \<leftarrow> rd sep i;
           l \<leftarrow> rd len i;
           found \<leftarrow> find_text c v s l del 10;
           (case found of
              Inl e \<Rightarrow> Some (Inl e)
            | Inr head_end \<Rightarrow> do {
                doc_start_offset \<leftarrow> (if head_end \<noteq> [] then do { p \<leftarrow> rd head_end 0; Some (p + length del) } else Some 0);
                sep \<leftarrow> wr sep i (s + doc_start_offset);
                len \<leftarrow> wr len i (u64 (int l - int doc_start_offset));
                Some (Inr (sep, len)) }) })
       [0..<length sep] (Inr (sep, len))"

subsection \<open>The fields between delimiters\<close>

fun fields :: "int set \<Rightarrow> int list \<Rightarrow> int list list" where
  "fields D [] = [[]]"
| "fields D (x # xs) = (if x \<in> D then [] # fields D xs else (x # hd (fields D xs)) # tl (fields D xs))"

definition split_words :: "int set \<Rightarrow> int list \<Rightarrow> int list list" where
  "split_words D u = (if u = [] then [] else if last u \<in> D then butlast (fields D u) else fields D u)"

definition delim_positions :: "int set \<Rightarrow> int list \<Rightarrow> nat list" where
  "delim_positions D u = filter (\<lambda>p. u ! p \<in> D) [0..<length u]"

lemma delim_positions_Cons: "delim_positions D (x # u) = (if x \<in> D then [0] else []) @ map Suc (delim_positions D u)"
  by (simp add: delim_positions_def upt_conv_Cons filter_map comp_def map_Suc_upt [symmetric] del: upt_Suc)

lemma fields_not_Nil [simp]: "fields D u \<noteq> []"
  by (cases u) simp_all

lemma fields_spans:
  "fields D u = map2 (\<lambda>s e. take (e - s) (drop s u)) (0 # map Suc (delim_positions D u)) (delim_positions D u @ [length u])"
proof (induction u)
  case Nil
  then show ?case by (simp add: delim_positions_def)
next
  case (Cons x u)
  let ?p = "delim_positions D u"
  have shift: "map2 (\<lambda>s e. take (e - s) (drop s (x # u))) (map Suc ss) (map Suc es) = map2 (\<lambda>s e. take (e - s) (drop s u)) ss es" for ss es
    by (simp add: zip_map_map comp_def case_prod_beta')
  show ?case
  proof (cases "x \<in> D")
    case True
    have "map2 (\<lambda>s e. take (e - s) (drop s (x # u))) (0 # map Suc (0 # map Suc ?p)) (0 # map Suc (?p @ [length u])) = [] # fields D u"
      unfolding Cons.IH by (simp only: list.map zip_Cons_Cons shift [symmetric]) simp
    then show ?thesis using True by (simp add: delim_positions_Cons)
  next
    case False
    obtain e es where e: "?p @ [length u] = e # es" by (cases "?p @ [length u]") simp_all
    have "fields D u = take e u # map2 (\<lambda>s e. take (e - s) (drop s u)) (map Suc ?p) es"
      unfolding Cons.IH e by simp
    moreover have "map2 (\<lambda>s e. take (e - s) (drop s (x # u))) (0 # map Suc (map Suc ?p)) (map Suc (e # es)) =
        (x # take e u) # map2 (\<lambda>s e. take (e - s) (drop s u)) (map Suc ?p) es"
      by (simp only: list.map zip_Cons_Cons shift) simp
    moreover have "map Suc ?p @ [Suc (length u)] = map Suc (e # es)" using e by (metis list.simps(8,9) map_append)
    ultimately show ?thesis using False by (simp add: delim_positions_Cons)
  qed
qed

lemma length_fields: "length (fields D u) = Suc (length (delim_positions D u))"
  by (subst fields_spans) simp

lemma last_delim: "u \<noteq> [] \<Longrightarrow> last u \<in> D \<Longrightarrow> \<exists>ps. delim_positions D u = ps @ [length u - 1]"
proof -
  assume u: "u \<noteq> []" "last u \<in> D"
  have "[0..<length u] = [0..<length u - 1] @ [length u - 1]" using u(1) by (cases "length u") simp_all
  then show ?thesis using u by (auto simp: delim_positions_def last_conv_nth)
qed

text \<open>The starts and the ends of the words.\<close>

definition split_starts :: "int set \<Rightarrow> int list \<Rightarrow> nat list" where
  "split_starts D u = (let ps = delim_positions D u in if last u \<in> D then butlast (0 # map Suc ps) else 0 # map Suc ps)"

definition split_ends :: "int set \<Rightarrow> int list \<Rightarrow> nat list" where
  "split_ends D u = (let ps = delim_positions D u in if last u \<in> D then ps else ps @ [length u])"

lemma butlast_map2: "length xs = length ys \<Longrightarrow> butlast (map2 f xs ys) = map2 f (butlast xs) (butlast ys)"
  by (simp add: butlast_conv_take take_map take_zip)

lemma split_words_spans:
  assumes "u \<noteq> []"
  shows "split_words D u = map2 (\<lambda>s e. take (e - s) (drop s u)) (split_starts D u) (split_ends D u)"
    and "length (split_starts D u) = length (split_ends D u)" "split_starts D u \<noteq> []"
proof -
  let ?p = "delim_positions D u" and ?g = "\<lambda>s e. take (e - s) (drop s u)"
  show "split_words D u = map2 ?g (split_starts D u) (split_ends D u)"
  proof (cases "last u \<in> D")
    case True
    have "butlast (fields D u) = map2 ?g (butlast (0 # map Suc ?p)) (butlast (?p @ [length u]))"
      by (subst fields_spans, rule butlast_map2) simp
    then show ?thesis using assms True by (simp add: split_words_def split_starts_def split_ends_def)
  next
    case False
    then show ?thesis using assms by (simp add: split_words_def split_starts_def split_ends_def fields_spans [symmetric])
  qed
  show "length (split_starts D u) = length (split_ends D u)" by (simp add: split_starts_def split_ends_def Let_def)
  show "split_starts D u \<noteq> []" using last_delim [OF assms, of D] by (auto simp: split_starts_def Let_def)
qed

lemma split_spans_facts:
  fixes u :: "int list"
  assumes u: "u \<noteq> []"
  shows "Suc i < length (split_starts D u) \<Longrightarrow> split_starts D u ! Suc i = Suc (split_ends D u ! i)"
    and "split_ends D u ! (length (split_starts D u) - 1) = (if last u \<in> D then length u - 1 else length u)"
    and "i < length (split_starts D u) \<Longrightarrow> split_starts D u ! i \<le> split_ends D u ! i"
    and "i < length (split_starts D u) \<Longrightarrow> split_ends D u ! i \<le> length u"
proof -
  let ?p = "delim_positions D u" and ?s = "split_starts D u" and ?e = "split_ends D u"
  have srt: "sorted_wrt (<) ?p" by (simp add: delim_positions_def sorted_wrt_filter)
  have below: "?p ! i < length u" if "i < length ?p" for i
    using nth_mem [OF that] by (auto simp: delim_positions_def)
  show nxt: "?s ! Suc i = Suc (?e ! i)" if "Suc i < length ?s" for i
    using that by (auto simp: split_starts_def split_ends_def Let_def nth_append nth_butlast split: if_splits)
  have last: "?p \<noteq> [] \<and> ?p ! (length ?p - 1) = length u - 1" if "last u \<in> D"
    using last_delim [OF u that] by (auto simp: nth_append)
  show "?e ! (length ?s - 1) = (if last u \<in> D then length u - 1 else length u)"
    using last by (auto simp: split_starts_def split_ends_def Let_def nth_append)
  show le: "?e ! i \<le> length u" if "i < length ?s" for i
    using that below [of i] by (auto simp: split_starts_def split_ends_def Let_def nth_append less_imp_le split: if_splits)
  show "?s ! i \<le> ?e ! i" if i: "i < length ?s" for i
  proof (cases i)
    case 0
    then have "?s ! i = 0" using i by (auto simp: split_starts_def Let_def nth_butlast split: if_splits)
    then show ?thesis by simp
  next
    case (Suc j)
    have j: "j < length ?p" using i Suc by (auto simp: split_starts_def Let_def split: if_splits)
    have "?e ! j = ?p ! j" using j by (simp add: split_ends_def Let_def nth_append)
    moreover have "?p ! j < ?e ! i"
      using i Suc j below [OF j] sorted_wrt_nth_less [OF srt, of j i]
      by (auto simp: split_starts_def split_ends_def Let_def nth_append split: if_splits)
    ultimately show ?thesis using nxt [of j] i Suc by simp
  qed
qed

subsection \<open>The code computes the fields\<close>

lemma split_lens_eq:
  assumes k: "length s = length e" "s \<noteq> []" and small: "n + offset < 2 ^ 62" "0 < n"
    and nxt: "\<And>i. Suc i < length s \<Longrightarrow> s ! Suc i = Suc (e ! i)"
    and last: "e ! (length s - 1) = (if lastdelim then n - 1 else n)"
    and le: "\<And>i. i < length s \<Longrightarrow> s ! i \<le> e ! i \<and> e ! i \<le> n"
  shows "split_lens n offset lastdelim (map (\<lambda>x. x + offset) s) = Some (map2 (\<lambda>s e. e - s) s e)"
proof -
  let ?S = "map (\<lambda>x. x + offset) s" and ?m = "length s - 1" and ?R = "map2 (\<lambda>s e. e - s) s e"
  have m: "?m < length s" "Suc ?m = length s" using k(2) by (cases s; simp)+
  have u: "u64 (int b - int a) = b - a" if "a \<le> b" "b < 2 ^ 62" for a b
    using that by (subst u64_id) auto
  have step: "u64 (int (?S ! Suc i) - int (?S ! i) - 1) = ?R ! i" if i: "Suc i < length s" for i
  proof -
    have "s ! i \<le> e ! i" "e ! i + offset < 2 ^ 62" using le [of i] i small by auto
    then have d: "u64 (int (e ! i + offset) - int (s ! i + offset)) = ?R ! i" using i k(1) by (subst u) simp_all
    have "int (?S ! Suc i) - int (?S ! i) - 1 = int (e ! i + offset) - int (s ! i + offset)"
      using nxt [OF i] i by simp
    then show ?thesis using d by (simp only:)
  qed
  have final: "(if lastdelim then u64 (int n + int offset - int (?S ! ?m) - 1) else u64 (int n + int offset - int (?S ! ?m))) = ?R ! ?m"
  proof -
    have "s ! ?m \<le> e ! ?m" "e ! ?m + offset < 2 ^ 62" using le [OF m(1)] small by auto
    then have d: "u64 (int (e ! ?m + offset) - int (s ! ?m + offset)) = ?R ! ?m" using m(1) k(1) by (subst u) simp_all
    have "(if lastdelim then int n + int offset - int (?S ! ?m) - 1 else int n + int offset - int (?S ! ?m)) =
        int (e ! ?m + offset) - int (s ! ?m + offset)"
      using last m(1) small(2) by (auto simp: of_nat_diff)
    then show ?thesis using d by (cases lastdelim) simp_all
  qed
  let ?body = "\<lambda>i lens. do { a \<leftarrow> rd ?S i; b \<leftarrow> rd ?S (i + 1); wr lens i (u64 (int b - int a - 1)) }"
  let ?I = "\<lambda>i lens. lens = take i ?R @ replicate (length s - i) 0"
  have "ok (for_each ?body [0..<?m] (replicate (length s) 0)) (?I ?m)"
  proof (rule ok_for_range [where I = ?I])
    fix i lens assume i: "0 \<le> i" "i < ?m" and lens: "?I i lens"
    have i': "Suc i < length s" using i by linarith
    have r: "replicate (length s - i) 0 = 0 # replicate (length s - Suc i) (0 :: nat)"
      using i' by (simp add: Suc_diff_Suc [symmetric] replicate_Suc [symmetric] del: replicate_Suc)
    have "lens[i := ?R ! i] = take (Suc i) ?R @ replicate (length s - Suc i) 0"
      unfolding lens r using i' k(1) by (simp add: list_update_append take_Suc_conv_app_nth)
    then show "ok (?body i lens) (?I (Suc i))" using i' lens k(1) step [OF i'] by (simp add: ok_simps)
  qed simp_all
  then have loop: "for_each ?body [0..<?m] (replicate (length s) 0) = Some (take ?m ?R @ [0])"
    using m by (simp add: ok_eq)
  have whole: "(take ?m ?R @ [0])[?m := ?R ! ?m] = ?R"
  proof -
    have "?R = take ?m ?R @ [?R ! ?m]" using m k(1) take_Suc_conv_app_nth [of ?m ?R] by simp
    moreover have "length (take ?m ?R) = ?m" using m k(1) by simp
    then have "(take ?m ?R @ [0])[?m := ?R ! ?m] = take ?m ?R @ [?R ! ?m]" by (metis list_update_length)
    ultimately show ?thesis by (simp only:)
  qed
  have r: "rd ?S ?m = Some (?S ! ?m)" using m(1) by simp
  have w: "wr (take ?m ?R @ [0]) ?m v = Some ((take ?m ?R @ [0])[?m := v])" for v using m k(1) by (intro wr_Some) simp
  show ?thesis unfolding split_lens_def Let_def length_map loop bind.bind_lunit r final w whole ..
qed

lemma starts_loop:
  assumes f: "\<And>i starts. i < length qs \<Longrightarrow> Suc i < length starts \<Longrightarrow> Suc i + length (drop (Suc i) qs) < length starts \<Longrightarrow>
      starts ! Suc i = ini ! i \<Longrightarrow> f i starts = Some (starts[Suc i := g (qs ! i)])" and ini: "length ini = length qs"
  shows "for_each f [0..<length qs] (a # ini) = Some (a # map g qs)"
proof -
  let ?I = "\<lambda>i st. st = a # map g (take i qs) @ drop i ini"
  have "ok (for_each f [0..<length qs] (a # ini)) (?I (length qs))"
  proof (rule ok_for_range [where I = ?I])
    fix i st assume i: "0 \<le> i" "i < length qs" and st: "?I i st"
    have d: "drop i ini = ini ! i # drop (Suc i) ini" using i ini by (simp add: Cons_nth_drop_Suc)
    have "f i st = Some (st[Suc i := g (qs ! i)])"
      by (rule f) (use i ini st in \<open>simp_all add: nth_append\<close>)
    moreover have "st[Suc i := g (qs ! i)] = a # map g (take (Suc i) qs) @ drop (Suc i) ini"
      unfolding st d using i by (simp add: list_update_append take_Suc_conv_app_nth)
    ultimately show "ok (f i st) (?I (Suc i))" by simp
  qed (simp_all add: ini)
  then show ?thesis by (simp add: ok_eq ini)
qed

text \<open>The positions of several characters, merged.\<close>

lemma merged_positions:
  assumes "distinct ds" "sorted m" "mset m = (\<Sum>d\<leftarrow>ds. mset (filter (\<lambda>p. u ! p = d) xs))" "sorted xs"
  shows "m = filter (\<lambda>p. u ! p \<in> set ds) xs"
proof -
  have "(\<Sum>d\<leftarrow>ds. mset (filter (\<lambda>p. u ! p = d) xs)) = mset (filter (\<lambda>p. u ! p \<in> set ds) xs)"
    using assms(1)
  proof (induction ds)
    case (Cons d ds)
    have "filter_mset (\<lambda>p. u ! p = d \<or> u ! p \<in> set ds) (mset xs) =
        filter_mset (\<lambda>p. u ! p = d) (mset xs) + filter_mset (\<lambda>p. u ! p \<in> set ds) (mset xs)"
      using Cons.prems by (intro multiset_eqI) auto
    then show ?case using Cons by (simp add: mset_filter)
  qed simp
  then have "mset m = mset (filter (\<lambda>p. u ! p \<in> set ds) xs)" using assms(3) by simp
  then show ?thesis using assms(2,4) by (metis properties_for_sort sorted_filter [of "\<lambda>x. x", simplified] sorted_sort_id)
qed

lemma occurrences_char: "occurrences [d] u = delim_positions {d} u"
proof -
  have "occurs_at [d] u p \<longleftrightarrow> u ! p = d" if "p < length u" for p
    using that by (auto simp: occurs_at_nth)
  then show ?thesis by (auto simp: occurrences_def delim_positions_def intro!: filter_cong)
qed

definition delims_ok :: "int list \<Rightarrow> bool" where
  "delims_ok ds \<longleftrightarrow> distinct ds \<and> (\<forall>d\<in>set ds. d < 128)"

lemma signed_delims: "delims_ok ds \<Longrightarrow> list_ex (\<lambda>d. x = signed_char d) ds \<longleftrightarrow> x \<in> set ds"
  by (auto simp: delims_ok_def list_ex_iff signed_char_def)

lemma pointer_last:
  assumes "base + n \<le> length vp" "0 < n"
  shows "rd vp (base + (n - 1)) = Some (last (take n (drop base vp)))"
proof -
  have "take n (drop base vp) \<noteq> []" "length (take n (drop base vp)) = n" using assms by auto
  then have "last (take n (drop base vp)) = take n (drop base vp) ! (n - 1)" by (simp add: last_conv_nth)
  then show ?thesis using assms by (simp add: rd_def)
qed

lemma split_starts_front:
  assumes "u \<noteq> []"
  shows "split_starts D u = 0 # map Suc (if last u \<in> D then butlast (delim_positions D u) else delim_positions D u)"
  using last_delim [OF assms, of D] by (auto simp: split_starts_def Let_def map_butlast)

definition split_result :: "int set \<Rightarrow> nat \<Rightarrow> int list \<Rightarrow> nat list \<times> nat list" where
  "split_result D offset u = (if u = [] then ([], [])
     else (map (\<lambda>x. x + offset) (split_starts D u), map2 (\<lambda>s e. e - s) (split_starts D u) (split_ends D u)))"

lemma split_lens_result:
  assumes u: "u \<noteq> []" and small: "length u + offset < 2 ^ 62"
  shows "split_lens (length u) offset (last u \<in> D) (map (\<lambda>x. x + offset) (split_starts D u)) =
    Some (map2 (\<lambda>s e. e - s) (split_starts D u) (split_ends D u))"
  by (rule split_lens_eq [OF split_words_spans(2,3) [OF u] small]) (use split_spans_facts [OF u] u in auto)

lemma split_one_eq:
  assumes c: "wf_cfg c" and fit: "base + n \<le> length vp" "length vp < 2 ^ 62" "n + offset < 2 ^ 62" "0 < n"
    and delims: "delims_ok delims" and one: "length delims = 1"
  shows "split_one c vp base n offset delims = Some (Inr (split_result (set delims) offset (take n (drop base vp))))"
proof -
  let ?u = "take n (drop base vp)" and ?D = "set delims"
  let ?ps = "delim_positions ?D ?u"
  let ?qs = "if last ?u \<in> ?D then butlast ?ps else ?ps"
  obtain d where d: "delims = [d]" using one by (cases delims) auto
  have u: "?u \<noteq> []" "length ?u = n" using fit by auto
  have found: "find_text c vp base n delims 10 = Some (Inr ?ps)"
    using find_text_eq [OF c fit(1,2), of delims 10] by (simp add: d occurrences_char find_block_size_10)
  have last: "last ?u = signed_char d \<longleftrightarrow> last ?u \<in> ?D" using signed_delims [OF delims, of "last ?u"] by (simp add: d)
  have nw: "(if last ?u \<in> ?D then length ?ps else length ?ps + 1) = Suc (length ?qs)"
    using last_delim [OF u(1), of ?D] by auto
  have qs: "?qs ! i = ?ps ! i" "i < length ?ps" if "i < length ?qs" for i
    using that by (auto simp: nth_butlast split: if_splits)
  have "for_each (\<lambda>i starts. do { p \<leftarrow> rd ?ps i; wr starts (i + 1) (p + 1 + offset) }) [0..<length ?qs] (offset # replicate (length ?qs) 0) =
      Some (offset # map (\<lambda>p. p + 1 + offset) ?qs)"
    by (rule starts_loop) (use qs in simp_all)
  moreover have "offset # map (\<lambda>p. p + 1 + offset) ?qs = map (\<lambda>x. x + offset) (split_starts ?D ?u)"
    unfolding split_starts_front [OF u(1)] by simp
  ultimately have loop: "for_each (\<lambda>i starts. do { p \<leftarrow> rd ?ps i; wr starts (i + 1) (p + 1 + offset) }) [0..<length ?qs] (offset # replicate (length ?qs) 0) =
      Some (map (\<lambda>x. x + offset) (split_starts ?D ?u))" by (simp only:)
  have w: "wr (replicate (Suc (length ?qs)) 0) 0 offset = Some (offset # replicate (length ?qs) 0)" by simp
  have "split_one c vp base n offset delims = (do {
      lens \<leftarrow> split_lens n offset (last ?u \<in> ?D) (map (\<lambda>x. x + offset) (split_starts ?D ?u));
      Some (Inr (map (\<lambda>x. x + offset) (split_starts ?D ?u), lens)) })"
  proof -
    have d0: "rd delims 0 = Some d" by (simp add: d)
    show ?thesis
      unfolding split_one_def found Let_def bind.bind_lunit sum.case pointer_last [OF fit(1,4)] d0 last nw w diff_Suc_1 loop ..
  qed
  then show ?thesis using split_lens_result [OF u(1), of offset ?D] fit(3) u by (simp add: split_result_def)
qed

lemma split_many_eq:
  assumes c: "wf_cfg c" and fit: "base + n \<le> length vp" "length vp < 2 ^ 62" "n + offset < 2 ^ 62" "0 < n"
    and delims: "delims_ok delims" and m: "two_way_merge merge2 sorted" and many: "delims \<noteq> []"
  shows "split_many c merge2 vp base n offset delims = Some (Inr (split_result (set delims) offset (take n (drop base vp))))"
proof -
  let ?u = "take n (drop base vp)" and ?D = "set delims"
  let ?ps = "delim_positions ?D ?u"
  let ?qs = "if last ?u \<in> ?D then butlast ?ps else ?ps"
  let ?seps = "map (\<lambda>d. delim_positions {d} ?u) delims"
  have u: "?u \<noteq> []" "length ?u = n" using fit by auto
  have "omap (\<lambda>i. do { d \<leftarrow> rd delims i; find_text c vp base n [d] 10 }) [0..<length delims] =
      Some (map (\<lambda>i. Inr (delim_positions {delims ! i} ?u)) [0..<length delims])"
    by (rule omap_Some) (simp add: find_text_eq [OF c fit(1,2)] occurrences_char find_block_size_10)
  also have "map (\<lambda>i. Inr (delim_positions {delims ! i} ?u)) [0..<length delims] = map (\<lambda>d. Inr (delim_positions {d} ?u)) delims"
    by (rule nth_equalityI) simp_all
  finally have found: "omap (\<lambda>i. do { d \<leftarrow> rd delims i; find_text c vp base n [d] 10 }) [0..<length delims] =
      Some (map (\<lambda>d. Inr (delim_positions {d} ?u)) delims)" .
  have seps: "those (map (case_sum (\<lambda>e. None) Some) (map (\<lambda>d. Inr (delim_positions {d} ?u) :: string + nat list) ds)) =
      Some (map (\<lambda>d. delim_positions {d} ?u) ds)" for ds
    by (induction ds) simp_all
  have srt: "\<forall>k\<in>set ?seps. sorted k" by (auto simp: delim_positions_def sorted_filter [of "\<lambda>x. x", simplified])
  have "?seps \<noteq> []" using many by simp
  from two_way_merge.multimerge_ok [OF m this srt] obtain merged where
    merged: "set_multimerge merge2 ?seps = Some merged" "sorted merged" "mset merged = (\<Sum>k\<leftarrow>?seps. mset k)" by (auto elim: okE)
  have "merged = ?ps"
    using merged_positions [of delims merged ?u "[0..<length ?u]"] merged delims by (simp add: delims_ok_def delim_positions_def comp_def)
  note merged = merged(1) [unfolded this]
  have trunc: "(if last ?u \<in> ?D then butlast (0 # ?ps) else 0 # ?ps) = 0 # ?qs" using last_delim [OF u(1), of ?D] by auto
  have "for_each (\<lambda>i starts. do { s \<leftarrow> rd starts (i + 1); wr starts (i + 1) (s + (1 + offset)) }) [0..<length ?qs] (offset # ?qs) =
      Some (offset # map (\<lambda>p. p + (1 + offset)) ?qs)"
    by (rule starts_loop) simp_all
  moreover have "offset # map (\<lambda>p. p + (1 + offset)) ?qs = map (\<lambda>x. x + offset) (split_starts ?D ?u)"
    unfolding split_starts_front [OF u(1)] by simp
  ultimately have loop: "for_each (\<lambda>i starts. do { s \<leftarrow> rd starts (i + 1); wr starts (i + 1) (s + (1 + offset)) }) [0..<length ?qs] (offset # ?qs) =
      Some (map (\<lambda>x. x + offset) (split_starts ?D ?u))" by (simp only:)
  have w: "wr (0 # ?qs) 0 offset = Some (offset # ?qs)" by simp
  have nw: "length (0 # ?qs) - 1 = length ?qs" by simp
  have "split_many c merge2 vp base n offset delims = (do {
      lens \<leftarrow> split_lens n offset (last ?u \<in> ?D) (map (\<lambda>x. x + offset) (split_starts ?D ?u));
      Some (Inr (map (\<lambda>x. x + offset) (split_starts ?D ?u), lens)) })"
    unfolding split_many_def found Let_def bind.bind_lunit seps option.case merged pointer_last [OF fit(1,4)] signed_delims [OF delims] trunc w
      nw loop ..
  then show ?thesis using split_lens_result [OF u(1), of offset ?D] fit(3) u by (simp add: split_result_def)
qed

lemma split_to_words_eq:
  assumes "wf_cfg c" "base + n \<le> length vp" "length vp < 2 ^ 62" "n + offset < 2 ^ 62" "delims_ok delims" "delims \<noteq> []"
    and "two_way_merge merge2 sorted"
  shows "split_to_words c merge2 vp base n offset delims = Some (Inr (split_result (set delims) offset (take n (drop base vp))))"
proof (cases "n = 0")
  case False
  then have n: "0 < n" by simp
  consider "length delims = 1" | "length delims > 1" using assms(6) by (cases delims) (auto simp: Suc_lessI)
  then show ?thesis
  proof cases
    case 1
    then show ?thesis using split_one_eq [OF assms(1-4) n assms(5) 1] n by (simp add: split_to_words_def)
  next
    case 2
    then show ?thesis using split_many_eq [OF assms(1-4) n assms(5,7,6)] n by (simp add: split_to_words_def)
  qed
qed (simp add: split_to_words_def split_result_def)

text \<open>The words, in the array the pointer points into.\<close>

lemma split_result_words:
  assumes fit: "base + n \<le> length vp" and w: "(starts, lens) = split_result D base (take n (drop base vp))"
  shows "words_ok \<lparr>w_chars = vp, w_starts = starts, w_lens = lens\<rparr> \<and>
    words_of \<lparr>w_chars = vp, w_starts = starts, w_lens = lens\<rparr> = split_words D (take n (drop base vp))"
proof (cases "take n (drop base vp) = []")
  case True
  then show ?thesis using w by (simp add: split_result_def words_ok_def words_of_def split_words_def)
next
  case False
  let ?u = "take n (drop base vp)"
  let ?s = "split_starts D ?u" and ?e = "split_ends D ?u"
  have st: "starts = map (\<lambda>x. x + base) ?s" "lens = map2 (\<lambda>s e. e - s) ?s ?e" using w False by (simp_all add: split_result_def)
  have len: "length ?s = length ?e" "length ?u = n" using split_words_spans(2) [OF False] fit by auto
  have le: "?s ! i \<le> ?e ! i" "?e ! i \<le> n" if "i < length ?s" for i using split_spans_facts(3,4) [OF False that] len(2) by simp_all
  have ok: "words_ok \<lparr>w_chars = vp, w_starts = starts, w_lens = lens\<rparr>"
  proof -
    have "?s ! i + base + (?e ! i - ?s ! i) \<le> length vp" if "i < length ?s" for i using le [OF that] fit by linarith
    then show ?thesis using len(1) by (simp add: words_ok_def st)
  qed
  have "words_of \<lparr>w_chars = vp, w_starts = starts, w_lens = lens\<rparr> = map2 (\<lambda>s e. take (e - s) (drop s ?u)) ?s ?e"
  proof (rule nth_equalityI)
    show "length (words_of \<lparr>w_chars = vp, w_starts = starts, w_lens = lens\<rparr>) = length (map2 (\<lambda>s e. take (e - s) (drop s ?u)) ?s ?e)"
      using ok len(1) by (simp add: st)
    fix i assume "i < length (words_of \<lparr>w_chars = vp, w_starts = starts, w_lens = lens\<rparr>)"
    then have i: "i < length ?s" using ok by (simp add: st)
    have "take (?e ! i - ?s ! i) (drop (?s ! i) ?u) = take (?e ! i - ?s ! i) (drop (?s ! i + base) vp)"
      using le [OF i] by (simp add: drop_take min_def add.commute)
    then show "words_of \<lparr>w_chars = vp, w_starts = starts, w_lens = lens\<rparr> ! i = map2 (\<lambda>s e. take (e - s) (drop s ?u)) ?s ?e ! i"
      using i len(1) ok by (simp add: nth_words_of word_at_def st)
  qed
  then show ?thesis using ok split_words_spans(1) [OF False, of D] by simp
qed

text \<open>A delimiter given twice makes a word of negative length, one above 127 a word too many.\<close>

lemma find_cfg_text_wf: "wf_cfg find_text_cfg_ve" "wf_cfg find_text_cfg_x86"
  by (simp_all add: wf_cfg_def find_text_cfg_ve_def find_text_cfg_x86_def)

lemma split_duplicate_delims:
  "split_to_words find_text_cfg_x86 (\<lambda>a b. Some (set_merge_x86 a b)) [65, 44, 66] 0 3 0 [44, 44] =
     Some (Inr ([0, 2, 2], [1, 18446744073709551615, 1]))"
proof -
  have f: "find_text find_text_cfg_x86 [65, 44, 66] 0 3 [44] 10 = Some (Inr [1])"
    using find_text_eq [OF find_cfg_text_wf(2), of 0 3 "[65, 44, 66]" "[44]" 10]
    by (simp add: occurrences_char delim_positions_def upt_rec find_block_size_10)
  have m: "set_multimerge (\<lambda>a b. Some (set_merge_x86 a b)) [[1], [1 :: nat]] = Some [1, 1]" by code_simp
  show ?thesis
    by (simp add: split_to_words_def split_many_def f m [simplified] Let_def signed_char_def split_lens_def u64_def upt_rec)
qed

lemma split_high_delim:
  "split_to_words find_text_cfg_x86 (\<lambda>a b. Some (set_merge_x86 a b)) [65, 200] 0 2 0 [200] = Some (Inr ([0, 2], [1, 0]))"
proof -
  have f: "find_text find_text_cfg_x86 [65, 200] 0 2 [200] 10 = Some (Inr [1])"
    using find_text_eq [OF find_cfg_text_wf(2), of 0 2 "[65, 200]" "[200]" 10]
    by (simp add: occurrences_char delim_positions_def upt_rec find_block_size_10)
  show ?thesis
    by (simp add: split_to_words_def split_one_def f Let_def signed_char_def split_lens_def u64_def upt_rec)
qed

subsection \<open>Headings\<close>

definition without_heading :: "int list \<Rightarrow> int list \<Rightarrow> int list" where
  "without_heading del u = (case occurrences del u of [] \<Rightarrow> u | p # ps \<Rightarrow> drop (p + length del) u)"

definition heading_length :: "int list \<Rightarrow> int list \<Rightarrow> nat" where
  "heading_length del u = (case occurrences del u of [] \<Rightarrow> 0 | p # ps \<Rightarrow> p + length del)"

lemma heading_length_le: "heading_length del u \<le> length u"
proof (cases "occurrences del u")
  case (Cons p ps)
  then have "p \<in> set (occurrences del u)" by simp
  then have "p + length del \<le> length u" by (auto simp: occurrences_def occurs_at_def split: if_splits)
  then show ?thesis using Cons by (simp add: heading_length_def)
qed (simp add: heading_length_def)

lemma remove_doc_heading_eq:
  assumes w: "words_ok w" "length (w_chars w) < 2 ^ 62" and c: "wf_cfg c" and del: "length del \<le> 2621440"
  shows "ok (remove_doc_heading c (w_chars w) (w_starts w) (w_lens w) del)
    (\<lambda>r. \<exists>st. r = Inr st \<and> respanned w (\<lambda>i. without_heading del (words_of w ! i)) st)"
proof -
  let ?k = "length (w_starts w)" and ?h = "\<lambda>i. heading_length del (words_of w ! i)"
  let ?S = "map (\<lambda>i. w_starts w ! i + ?h i) [0..<?k]" and ?L = "map (\<lambda>i. w_lens w ! i - ?h i) [0..<?k]"
  have ll: "length (w_lens w) = ?k" using w by (simp add: words_ok_def)
  have word: "words_of w ! i = take (w_lens w ! i) (drop (w_starts w ! i) (w_chars w))" "w_starts w ! i + w_lens w ! i \<le> length (w_chars w)"
    "?h i \<le> w_lens w ! i" if "i < ?k" for i
    using that w ll heading_length_le [of del "words_of w ! i"] by (simp_all add: nth_words_of word_at_def words_ok_def length_nth_words_of)
  let ?body = "\<lambda>i r. case r of
         Inl e \<Rightarrow> Some (Inl e)
       | Inr (sep, len) \<Rightarrow> do {
           s \<leftarrow> rd sep i;
           l \<leftarrow> rd len i;
           found \<leftarrow> find_text c (w_chars w) s l del 10;
           (case found of
              Inl e \<Rightarrow> Some (Inl e)
            | Inr head_end \<Rightarrow> do {
                doc_start_offset \<leftarrow> (if head_end \<noteq> [] then do { p \<leftarrow> rd head_end 0; Some (p + length del) } else Some 0);
                sep \<leftarrow> wr sep i (s + doc_start_offset);
                len \<leftarrow> wr len i (u64 (int l - int doc_start_offset));
                Some (Inr (sep, len)) }) }"
  let ?I = "\<lambda>i r. r = (Inr (take i ?S @ drop i (w_starts w), take i ?L @ drop i (w_lens w)) :: string + nat list \<times> nat list)"
  have "ok (for_each ?body [0..<?k] (Inr (w_starts w, w_lens w))) (?I ?k)"
  proof (rule ok_for_range [where I = ?I])
    fix i r assume i: "0 \<le> i" "i < ?k" and r: "?I i r"
    let ?sep = "take i ?S @ drop i (w_starts w)" and ?len = "take i ?L @ drop i (w_lens w)"
    have d: "drop i (w_starts w) = w_starts w ! i # drop (Suc i) (w_starts w)" "drop i (w_lens w) = w_lens w ! i # drop (Suc i) (w_lens w)"
      using i ll by (simp_all add: Cons_nth_drop_Suc)
    have at: "rd ?sep i = Some (w_starts w ! i)" "rd ?len i = Some (w_lens w ! i)" using i ll by (simp_all add: nth_append)
    have found: "find_text c (w_chars w) (w_starts w ! i) (w_lens w ! i) del 10 = Some (Inr (occurrences del (words_of w ! i)))"
      using find_text_eq [OF c word(2) [OF i(2)] w(2), of del 10] del unfolding word(1) [OF i(2)] find_block_size_10 by simp
    have off: "(if occurrences del (words_of w ! i) \<noteq> [] then do { p \<leftarrow> rd (occurrences del (words_of w ! i)) 0; Some (p + length del) } else Some 0) =
        Some (?h i)"
      by (cases "occurrences del (words_of w ! i)") (simp_all add: heading_length_def)
    have l: "u64 (int (w_lens w ! i) - int (?h i)) = w_lens w ! i - ?h i"
      using word(2,3) [OF i(2)] w(2) by (subst u64_id) auto
    have wr: "wr ?sep i (w_starts w ! i + ?h i) = Some (take (Suc i) ?S @ drop (Suc i) (w_starts w))"
      "wr ?len i (w_lens w ! i - ?h i) = Some (take (Suc i) ?L @ drop (Suc i) (w_lens w))"
      using i ll unfolding d by (simp_all add: wr_def list_update_append take_Suc_conv_app_nth)
    have "?body i r = Some (Inr (take (Suc i) ?S @ drop (Suc i) (w_starts w), take (Suc i) ?L @ drop (Suc i) (w_lens w)))"
      unfolding r sum.case prod.case at bind.bind_lunit found off l wr ..
    then show "ok (?body i r) (?I (Suc i))" by simp
  qed simp_all
  then have "remove_doc_heading c (w_chars w) (w_starts w) (w_lens w) del = Some (Inr (?S, ?L))"
    using ll by (simp add: ok_eq remove_doc_heading_def)
  moreover have "respanned w (\<lambda>i. without_heading del (words_of w ! i)) (?S, ?L)"
  proof (rule respannedI)
    fix i assume i: "i < ?k"
    show "w_starts w ! i + ?h i + (w_lens w ! i - ?h i) \<le> length (w_chars w)" using word(2,3) [OF i] by linarith
    have "word_at (w_chars w) (w_starts w ! i + ?h i, w_lens w ! i - ?h i) = drop (?h i) (words_of w ! i)"
      using word(3) [OF i] by (simp add: word(1) [OF i] word_at_def drop_take add.commute)
    also have "\<dots> = without_heading del (words_of w ! i)" by (simp add: without_heading_def heading_length_def split: list.split)
    finally show "word_at (w_chars w) (w_starts w ! i + ?h i, w_lens w ! i - ?h i) = without_heading del (words_of w ! i)" .
  qed
  ultimately show ?thesis by simp
qed

end
