(* ===== verification/WordsSearch.thy ===== *)
theory WordsSearch
  imports Find
begin

text \<open>
  text/words.cc: \<open>search\<close>, all positions of a string in the words of a column, and \<open>like\<close>, the words
  that match a pattern with wild cards and escapes.  Both advance a set of candidates, held in three
  vectors: the current position in the array, the number of characters left in the word, the index
  of the word.

  \<open>merge2\<close> is the build's \<open>set_merge_pair\<close> on whole vectors and \<open>uniq\<close> its \<open>set_unique\<close>.
\<close>

subsection \<open>The code\<close>

type_synonym cands = "nat list \<times> nat list \<times> nat list"

definition gather :: "'a list \<Rightarrow> nat list \<Rightarrow> 'a list option" where
  "gather xs idx = omap (\<lambda>i. rd xs i) idx"

text \<open>Candidates at the end of their word are dropped; the numbers of both vectors decide whether there are any.\<close>

definition drop_ended :: "nat list \<Rightarrow> cands \<Rightarrow> cands option" where
  "drop_ended non_zero = (\<lambda>(crnt_pos, crnt_lens, crnt_idx).
     if length non_zero \<noteq> length crnt_pos then do {
       next_pos \<leftarrow> gather crnt_pos non_zero;
       next_lens \<leftarrow> gather crnt_lens non_zero;
       next_idx \<leftarrow> gather crnt_idx non_zero;
       Some (next_pos, next_lens, next_idx) }
     else Some (crnt_pos, crnt_lens, crnt_idx))"

definition is_not_zero_like :: "nat \<Rightarrow> bool" where
  "is_not_zero_like a \<longleftrightarrow> \<not> a = 0"

definition is_zero_like :: "nat \<Rightarrow> bool" where
  "is_zero_like a \<longleftrightarrow> a = 0"

definition is_char_like :: "int \<Rightarrow> int \<Rightarrow> bool" where
  "is_char_like to_comp a \<longleftrightarrow> a = to_comp"

definition advance_char_like :: "find_cfg \<Rightarrow> int list \<Rightarrow> int \<Rightarrow> cands \<Rightarrow> cands option" where
  "advance_char_like fc chars crnt_char cands = do {
     let (crnt_pos, crnt_lens, crnt_idx) = cands;
     non_zero \<leftarrow> find_condition fc 8 is_not_zero_like crnt_lens;
     (crnt_pos, crnt_lens, crnt_idx) \<leftarrow> drop_ended non_zero cands;
     char_found \<leftarrow> find_condition_index fc 4 (is_char_like crnt_char) chars crnt_pos;
     next_pos \<leftarrow> omap (\<lambda>i. do { p \<leftarrow> rd crnt_pos i; Some (p + 1) }) char_found;
     next_lens \<leftarrow> omap (\<lambda>i. do { l \<leftarrow> rd crnt_lens i; Some (u64 (int l - 1)) }) char_found;
     next_idx \<leftarrow> gather crnt_idx char_found;
     Some (next_pos, next_lens, next_idx) }"

text \<open>The loop of \<open>advance_until_char_like\<close>; its first component says that it has been left.\<close>

definition until_round ::
  "find_cfg \<Rightarrow> int list \<Rightarrow> int \<Rightarrow> bool \<times> (nat list \<times> nat list) list \<times> cands \<Rightarrow>
   (bool \<times> (nat list \<times> nat list) list \<times> cands) option" where
  "until_round fc chars crnt_char = (\<lambda>(left, hits, cands). do {
     let (crnt_pos, crnt_lens, crnt_idx) = cands;
     non_zero \<leftarrow> find_condition fc 8 is_not_zero_like crnt_lens;
     if length non_zero = 0 then Some (True, hits, cands)
     else do {
       (crnt_pos, crnt_lens, crnt_idx) \<leftarrow> drop_ended non_zero cands;
       hit \<leftarrow> find_condition_index fc 4 (is_char_like crnt_char) chars crnt_pos;
       hits \<leftarrow> (if length hit > 0 then do {
           hit_pos \<leftarrow> gather crnt_pos hit;
           hit_idx \<leftarrow> gather crnt_idx hit;
           Some (hits @ [(hit_idx, hit_pos)]) }
         else Some hits);
       Some (False, hits, map (\<lambda>p. p + 1) crnt_pos, map (\<lambda>l. u64 (int l - 1)) crnt_lens, crnt_idx) } })"

definition advance_until_char_like ::
  "find_cfg \<Rightarrow> (nat list \<Rightarrow> nat list \<Rightarrow> nat list \<Rightarrow> nat list \<Rightarrow> (nat list \<times> nat list) option) \<Rightarrow>
   int list \<Rightarrow> nat list \<Rightarrow> nat list \<Rightarrow> int \<Rightarrow> cands \<Rightarrow> cands option" where
  "advance_until_char_like fc merge2 chars starts lens crnt_char cands = do {
     (_, hits, cands) \<leftarrow> cwhile (\<lambda>(left, hits, cands). \<not> left) (until_round fc chars crnt_char) (False, [], cands);
     (crnt_idx, crnt_pos) \<leftarrow> set_multimerge_pair merge2 hits;
     let crnt_pos = map (\<lambda>p. p + 1) crnt_pos;
     crnt_lens \<leftarrow> omap (\<lambda>i. do {
         ix \<leftarrow> rd crnt_idx i;
         l \<leftarrow> rd lens ix;
         p \<leftarrow> rd crnt_pos i;
         s \<leftarrow> rd starts ix;
         Some (u64 (int l - (int p - int s))) }) [0..<length crnt_idx];
     Some (crnt_pos, crnt_lens, crnt_idx) }"

definition search ::
  "find_cfg \<Rightarrow> (nat list \<Rightarrow> nat list \<Rightarrow> nat list \<Rightarrow> nat list \<Rightarrow> (nat list \<times> nat list) option) \<Rightarrow>
   words \<Rightarrow> int list \<Rightarrow> (nat list \<times> nat list) option" where
  "search fc merge2 w to_search = (let starts = w_starts w in
     if length to_search = 0 then Some ([], [])
     else do {
       crnt_char \<leftarrow> rd to_search 0;
       crnt_lens \<leftarrow> omap (\<lambda>i. rd (w_lens w) i) [0..<length starts];
       cands \<leftarrow> advance_until_char_like fc merge2 (w_chars w) starts (w_lens w) crnt_char
                  (starts, crnt_lens, [0..<length starts]);
       (crnt_pos, crnt_lens, crnt_idx) \<leftarrow> for_each (\<lambda>i cands. do {
           crnt_char \<leftarrow> rd to_search i;
           advance_char_like fc (w_chars w) crnt_char cands }) [1..<length to_search] cands;
       pos \<leftarrow> omap (\<lambda>i. do {
           p \<leftarrow> rd crnt_pos i;
           ix \<leftarrow> rd crnt_idx i;
           s \<leftarrow> rd starts ix;
           Some (u64 (int p - (int (length to_search) + int s))) }) [0..<length crnt_pos];
       Some (crnt_idx, pos) })"

text \<open>
  The state machine of \<open>like\<close>.  Pattern characters are \<open>unsigned char\<close> values, but the test of the last one
  reads it as a \<open>char\<close>.
\<close>

definition like_step ::
  "find_cfg \<Rightarrow> (nat list \<Rightarrow> nat list \<Rightarrow> nat list \<Rightarrow> nat list \<Rightarrow> (nat list \<times> nat list) option) \<Rightarrow>
   words \<Rightarrow> int \<Rightarrow> int \<Rightarrow> int \<Rightarrow> bool \<times> bool \<times> cands \<Rightarrow> (bool \<times> bool \<times> cands) option" where
  "like_step fc merge2 w wild_card escape crnt_char = (\<lambda>(is_in_wildcard, is_in_escape, cands).
     if is_in_escape \<and> is_in_wildcard then do {
       cands \<leftarrow> advance_until_char_like fc merge2 (w_chars w) (w_starts w) (w_lens w) crnt_char cands;
       Some (False, False, cands) }
     else if is_in_escape \<and> \<not> is_in_wildcard then do {
       cands \<leftarrow> advance_char_like fc (w_chars w) crnt_char cands;
       Some (is_in_wildcard, False, cands) }
     else if \<not> is_in_escape \<and> is_in_wildcard then
       (if crnt_char = escape then Some (is_in_wildcard, True, cands)
        else if crnt_char = wild_card then Some (is_in_wildcard, is_in_escape, cands)
        else do {
          cands \<leftarrow> advance_until_char_like fc merge2 (w_chars w) (w_starts w) (w_lens w) crnt_char cands;
          Some (False, is_in_escape, cands) })
     else
       (if crnt_char = escape then Some (is_in_wildcard, True, cands)
        else if crnt_char = wild_card then Some (True, is_in_escape, cands)
        else do {
          cands \<leftarrow> advance_char_like fc (w_chars w) crnt_char cands;
          Some (is_in_wildcard, is_in_escape, cands) }))"

definition like ::
  "find_cfg \<Rightarrow> (nat list \<Rightarrow> nat list \<Rightarrow> nat list \<Rightarrow> nat list \<Rightarrow> (nat list \<times> nat list) option) \<Rightarrow>
   (nat list \<Rightarrow> nat list option) \<Rightarrow> words \<Rightarrow> int list \<Rightarrow> int \<Rightarrow> int \<Rightarrow> (string + nat list) option" where
  "like fc merge2 uniq w to_search wild_card escape = (let to_search_size = length to_search in
     if to_search_size = 0 then do { r \<leftarrow> find_condition fc 8 is_zero_like (w_lens w); Some (Inr r) }
     else do {
       last_char \<leftarrow> rd to_search (to_search_size - 1);
       if (if last_char < 128 then last_char else last_char - 256) = escape
       then Some (Inl ''like: format error. last char is escape'')
       else do {
         crnt_lens \<leftarrow> omap (\<lambda>i. rd (w_lens w) i) [0..<length (w_starts w)];
         (is_in_wildcard, is_in_escape, crnt_pos, crnt_lens, crnt_idx) \<leftarrow>
           for_each (like_step fc merge2 w wild_card escape) to_search
             (False, False, w_starts w, crnt_lens, [0..<length (w_starts w)]);
         if is_in_wildcard then do { r \<leftarrow> uniq crnt_idx; Some (Inr r) }
         else do {
           r \<leftarrow> find_condition fc 8 is_zero_like crnt_lens;
           ret_idx \<leftarrow> gather crnt_idx r;
           r \<leftarrow> uniq ret_idx;
           Some (Inr r) } } })"

subsection \<open>Candidates\<close>

text \<open>A candidate is a word and a number of characters of it.\<close>

definition cand_vectors :: "words \<Rightarrow> (nat \<times> nat) list \<Rightarrow> cands" where
  "cand_vectors w L = (map (\<lambda>(i, p). w_starts w ! i + p) L, map (\<lambda>(i, p). w_lens w ! i - p) L, map fst L)"

definition cands_ok :: "words \<Rightarrow> (nat \<times> nat) list \<Rightarrow> bool" where
  "cands_ok w L \<longleftrightarrow> (\<forall>(i, p)\<in>set L. i < length (w_starts w) \<and> p \<le> w_lens w ! i)"

definition ahead :: "words \<Rightarrow> nat \<times> nat \<Rightarrow> bool" where
  "ahead w = (\<lambda>(i, p). p < w_lens w ! i)"

definition on_char :: "words \<Rightarrow> int \<Rightarrow> nat \<times> nat \<Rightarrow> bool" where
  "on_char w ch = (\<lambda>(i, p). p < w_lens w ! i \<and> words_of w ! i ! p = ch)"

lemma gather_filter:
  "omap (\<lambda>i. do { x \<leftarrow> rd (map f xs) i; Some (g x) }) (filter (\<lambda>i. P (xs ! i)) [0..<length xs]) = Some (map (\<lambda>x. g (f x)) (filter P xs))"
proof -
  have "omap (\<lambda>i. do { x \<leftarrow> rd (map f xs) i; Some (g x) }) (filter (\<lambda>i. P (xs ! i)) [0..<length xs]) =
      Some (map (\<lambda>i. g (f (xs ! i))) (filter (\<lambda>i. P (xs ! i)) [0..<length xs]))"
    by (rule omap_Some) simp
  also have "map (\<lambda>i. g (f (xs ! i))) (filter (\<lambda>i. P (xs ! i)) [0..<length xs]) = map (\<lambda>x. g (f x)) (map ((!) xs) (filter (\<lambda>i. P (xs ! i)) [0..<length xs]))"
    by (simp add: comp_def)
  also have "map ((!) xs) (filter (\<lambda>i. P (xs ! i)) [0..<length xs]) = filter P xs"
    using filter_map [of P "(!) xs" "[0..<length xs]"] by (simp add: map_nth comp_def)
  finally show ?thesis .
qed

lemma gather_filter_id: "gather (map f xs) (filter (\<lambda>i. P (xs ! i)) [0..<length xs]) = Some (map f (filter P xs))"
  using gather_filter [of f xs "\<lambda>x. x" P] by (simp add: gather_def)

lemma cand_in_word:
  assumes w: "words_ok w" and x: "i < length (w_starts w)" "p < w_lens w ! i"
  shows "w_starts w ! i + p < length (w_chars w)" "w_chars w ! (w_starts w ! i + p) = words_of w ! i ! p"
proof -
  have r: "w_starts w ! i + w_lens w ! i \<le> length (w_chars w)" "i < length (w_lens w)" using w x(1) by (simp_all add: words_ok_def)
  then show "w_starts w ! i + p < length (w_chars w)" using x(2) by linarith
  show "w_chars w ! (w_starts w ! i + p) = words_of w ! i ! p" using r x by (simp add: nth_words_of word_at_def)
qed

lemma non_zero_eq:
  assumes "wf_cfg fc" "cand_vectors w L = (crnt_pos, crnt_lens, crnt_idx)"
  shows "find_condition fc 8 is_not_zero_like crnt_lens = Some (filter (\<lambda>i. ahead w (L ! i)) [0..<length L])"
proof -
  have "crnt_lens = map (\<lambda>(i, p). w_lens w ! i - p) L" using assms(2) by (simp add: cand_vectors_def)
  then show ?thesis
    by (simp add: find_condition_eq [OF assms(1)]) (auto simp: is_not_zero_like_def ahead_def case_prod_beta' intro!: filter_cong)
qed

lemma drop_ended_eq: "drop_ended (filter (\<lambda>i. ahead w (L ! i)) [0..<length L]) (cand_vectors w L) = Some (cand_vectors w (filter (ahead w) L))"
proof (cases "length (filter (\<lambda>i. ahead w (L ! i)) [0..<length L]) = length L")
  case True
  have "length (filter (ahead w) L) = length (filter (\<lambda>i. ahead w (L ! i)) [0..<length L])"
    using gather_filter_id [of id L "ahead w"] by (auto simp: gather_def dest!: omap_length)
  then have "filter (ahead w) L = L" using True by (metis length_filter_less nat_neq_iff filter_id_conv)
  then show ?thesis using True by (simp add: drop_ended_def cand_vectors_def)
next
  case False
  then show ?thesis by (simp add: drop_ended_def cand_vectors_def gather_filter_id)
qed

lemma on_char_found:
  assumes fc: "wf_cfg fc" and w: "words_ok w" and L: "cands_ok w L"
    and c: "cand_vectors w (filter (ahead w) L) = (crnt_pos, crnt_lens, crnt_idx)"
  shows "find_condition_index fc 4 (is_char_like ch) (w_chars w) crnt_pos =
    Some (filter (\<lambda>i. on_char w ch (filter (ahead w) L ! i)) [0..<length (filter (ahead w) L)])"
proof -
  let ?F = "filter (ahead w) L"
  have p: "crnt_pos = map (\<lambda>(i, p). w_starts w ! i + p) ?F" using c by (simp add: cand_vectors_def)
  have inside: "fst x < length (w_starts w)" "snd x < w_lens w ! fst x" if "x \<in> set ?F" for x
    using that L by (auto simp: cands_ok_def ahead_def)
  have "\<forall>k\<in>set crnt_pos. k < length (w_chars w)"
    using inside cand_in_word(1) [OF w] by (fastforce simp: p)
  then have "find_condition_index fc 4 (is_char_like ch) (w_chars w) crnt_pos =
      Some (filter (\<lambda>i. is_char_like ch (w_chars w ! (crnt_pos ! i))) [0..<length crnt_pos])"
    by (rule find_condition_index_eq [OF fc])
  also have "filter (\<lambda>i. is_char_like ch (w_chars w ! (crnt_pos ! i))) [0..<length crnt_pos] =
      filter (\<lambda>i. on_char w ch (?F ! i)) [0..<length ?F]"
  proof (rule filter_cong)
    show "[0..<length crnt_pos] = [0..<length ?F]" by (simp add: p)
    fix i assume "i \<in> set [0..<length ?F]"
    then have i: "i < length ?F" by simp
    then have x: "?F ! i \<in> set ?F" by (rule nth_mem)
    show "is_char_like ch (w_chars w ! (crnt_pos ! i)) = on_char w ch (?F ! i)"
      using inside [OF x] cand_in_word(2) [OF w inside [OF x]] i
      by (simp add: p is_char_like_def on_char_def case_prod_beta')
  qed
  finally show ?thesis .
qed

lemma advance_char_eq:
  assumes fc: "wf_cfg fc" and w: "words_ok w" "length (w_chars w) < 2 ^ 62" and L: "cands_ok w L"
  shows "advance_char_like fc (w_chars w) ch (cand_vectors w L) =
      Some (cand_vectors w (map (\<lambda>(i, p). (i, Suc p)) (filter (on_char w ch) L)))"
    and "cands_ok w (map (\<lambda>(i, p). (i, Suc p)) (filter (on_char w ch) L))"
proof -
  let ?F = "filter (ahead w) L" and ?G = "filter (on_char w ch) (filter (ahead w) L)"
  have G: "?G = filter (on_char w ch) L" by (auto simp: filter_filter on_char_def ahead_def intro!: filter_cong)
  show "cands_ok w (map (\<lambda>(i, p). (i, Suc p)) (filter (on_char w ch) L))"
    using L by (auto simp: cands_ok_def on_char_def)
  obtain pos lens idx where c: "cand_vectors w L = (pos, lens, idx)" by (metis prod_cases3)
  obtain pos' lens' idx' where c': "cand_vectors w ?F = (pos', lens', idx')" by (metis prod_cases3)
  have v: "pos' = map (\<lambda>(i, p). w_starts w ! i + p) ?F" "lens' = map (\<lambda>(i, p). w_lens w ! i - p) ?F" "idx' = map fst ?F"
    using c' by (simp_all add: cand_vectors_def)
  have small: "w_lens w ! i < 2 ^ 62" if "i < length (w_starts w)" for i
  proof -
    have "w_starts w ! i + w_lens w ! i \<le> length (w_chars w)" using w(1) that by (simp add: words_ok_def)
    then show ?thesis using w(2) by linarith
  qed
  have nl: "u64 (int (w_lens w ! i - p) - 1) = w_lens w ! i - Suc p" if "(i, p) \<in> set L" "on_char w ch (i, p)" for i p
  proof -
    have x: "i < length (w_starts w)" "p < w_lens w ! i" using that L by (auto simp: cands_ok_def on_char_def)
    then have d: "int (w_lens w ! i - p) - 1 = int (w_lens w ! i - Suc p)" by linarith
    show ?thesis unfolding d using small [OF x(1)] by (subst u64_id) auto
  qed
  show "advance_char_like fc (w_chars w) ch (cand_vectors w L) =
      Some (cand_vectors w (map (\<lambda>(i, p). (i, Suc p)) (filter (on_char w ch) L)))"
    unfolding advance_char_like_def c Let_def prod.case non_zero_eq [OF fc c] bind.bind_lunit drop_ended_eq [of w L, unfolded c] c'
      on_char_found [OF fc w(1) L c']
    unfolding v gather_filter [of _ _ "\<lambda>p. p + 1" "on_char w ch"] gather_filter [of _ _ "\<lambda>l. u64 (int l - 1)" "on_char w ch"]
      gather_filter_id [of _ _ "on_char w ch"] bind.bind_lunit prod.case G
    by (auto simp: cand_vectors_def comp_def case_prod_beta' nl)
qed

subsection \<open>Advancing to every later occurrence\<close>

definition hit_vectors :: "words \<Rightarrow> (nat \<times> nat) list \<Rightarrow> nat list \<times> nat list" where
  "hit_vectors w X = (map fst X, map (\<lambda>(i, p). w_starts w ! i + p) X)"

lemma minus_one_lens:
  assumes w: "words_ok w" "length (w_chars w) < 2 ^ 62" and L: "cands_ok w L"
  shows "map (\<lambda>l. u64 (int l - 1)) (map (\<lambda>(i, p). w_lens w ! i - p) (filter (ahead w) L)) =
    map (\<lambda>(i, p). w_lens w ! i - Suc p) (filter (ahead w) L)"
  unfolding map_map comp_def
proof (rule map_cong [OF refl])
  fix x assume "x \<in> set (filter (ahead w) L)"
  then have x: "fst x < length (w_starts w)" "snd x < w_lens w ! fst x" using L by (auto simp: cands_ok_def ahead_def)
  have "w_starts w ! fst x + w_lens w ! fst x \<le> length (w_chars w)" using w(1) x(1) by (simp add: words_ok_def)
  then have u: "u64 (int (w_lens w ! fst x - Suc (snd x))) = w_lens w ! fst x - Suc (snd x)"
    using w(2) by (subst u64_id) auto
  have d: "int (w_lens w ! fst x - snd x) - 1 = int (w_lens w ! fst x - Suc (snd x))" using x by linarith
  show "u64 (int ((\<lambda>(i, p). w_lens w ! i - p) x) - 1) = (\<lambda>(i, p). w_lens w ! i - Suc p) x"
    unfolding case_prod_beta' d u ..
qed

lemma until_round_eq:
  assumes fc: "wf_cfg fc" and w: "words_ok w" "length (w_chars w) < 2 ^ 62" and L: "cands_ok w L"
  shows "until_round fc (w_chars w) ch (False, hs, cand_vectors w L) =
    (if filter (ahead w) L = [] then Some (True, hs, cand_vectors w L)
     else Some (False, hs @ (if filter (on_char w ch) L = [] then [] else [hit_vectors w (filter (on_char w ch) L)]),
                cand_vectors w (map (\<lambda>(i, p). (i, Suc p)) (filter (ahead w) L))))"
proof -
  let ?F = "filter (ahead w) L" and ?G = "filter (on_char w ch) (filter (ahead w) L)"
  have G: "?G = filter (on_char w ch) L" by (auto simp: filter_filter on_char_def ahead_def intro!: filter_cong)
  obtain pos lens idx where c: "cand_vectors w L = (pos, lens, idx)" by (metis prod_cases3)
  obtain pos' lens' idx' where c': "cand_vectors w ?F = (pos', lens', idx')" by (metis prod_cases3)
  have v: "pos' = map (\<lambda>(i, p). w_starts w ! i + p) ?F" "lens' = map (\<lambda>(i, p). w_lens w ! i - p) ?F" "idx' = map fst ?F"
    using c' by (simp_all add: cand_vectors_def)
  have n: "length (filter (\<lambda>i. P (xs ! i)) [0..<length xs]) = length (filter P xs)" for P and xs :: "(nat \<times> nat) list"
    using gather_filter_id [of id xs P] by (auto simp: gather_def dest!: omap_length)
  show ?thesis
  proof (cases "?F = []")
    case True
    then show ?thesis
      unfolding until_round_def prod.case c Let_def non_zero_eq [OF fc c] bind.bind_lunit n [of "ahead w" L] by simp
  next
    case False
    then have ne: "\<not> length ?F = 0" by simp
    have "until_round fc (w_chars w) ch (False, hs, cand_vectors w L) = do {
       hs \<leftarrow> (if length ?G > 0 then Some (hs @ [(map fst ?G, map (\<lambda>(i, p). w_starts w ! i + p) ?G)]) else Some hs);
       Some (False, hs, map (\<lambda>p. p + 1) pos', map (\<lambda>l. u64 (int l - 1)) lens', idx') }"
      unfolding until_round_def prod.case c Let_def non_zero_eq [OF fc c] bind.bind_lunit n [of "ahead w" L] if_not_P [OF ne]
        drop_ended_eq [of w L, unfolded c] c' on_char_found [OF fc w(1) L c'] n [of "on_char w ch"]
      unfolding v gather_filter_id bind.bind_lunit ..
    then show ?thesis
      using False unfolding G v minus_one_lens [OF w L]
      by (simp add: hit_vectors_def cand_vectors_def comp_def case_prod_beta')
  qed
qed

text \<open>The candidates and the hits after \<open>r\<close> rounds.\<close>

definition after_rounds :: "words \<Rightarrow> (nat \<times> nat) list \<Rightarrow> nat \<Rightarrow> (nat \<times> nat) list" where
  "after_rounds w L r = map (\<lambda>(i, p). (i, p + r)) (filter (\<lambda>(i, p). p + r \<le> w_lens w ! i) L)"

definition round_hits :: "words \<Rightarrow> int \<Rightarrow> (nat \<times> nat) list \<Rightarrow> nat \<Rightarrow> (nat \<times> nat) list" where
  "round_hits w ch L r = map (\<lambda>(i, p). (i, p + r)) (filter (\<lambda>(i, p). on_char w ch (i, p + r)) L)"

lemma after_rounds_0: "cands_ok w L \<Longrightarrow> after_rounds w L 0 = L"
  by (auto simp: after_rounds_def cands_ok_def case_prod_beta' intro!: filter_True)

lemma after_rounds_ok: "cands_ok w L \<Longrightarrow> cands_ok w (after_rounds w L r)"
  by (auto simp: after_rounds_def cands_ok_def)

lemma after_rounds_Suc: "map (\<lambda>(i, p). (i, Suc p)) (filter (ahead w) (after_rounds w L r)) = after_rounds w L (Suc r)"
  unfolding after_rounds_def filter_map comp_def filter_filter map_map
  by (auto simp: ahead_def case_prod_beta' intro!: arg_cong [of _ _ "map _"] filter_cong)

lemma after_rounds_hits: "filter (on_char w ch) (after_rounds w L r) = round_hits w ch L r"
  unfolding after_rounds_def round_hits_def filter_map comp_def filter_filter
  by (auto simp: on_char_def case_prod_beta' intro!: arg_cong [of _ _ "map _"] filter_cong)

definition until_inv ::
  "words \<Rightarrow> int \<Rightarrow> (nat \<times> nat) list \<Rightarrow> bool \<times> (nat list \<times> nat list) list \<times> cands \<Rightarrow> bool" where
  "until_inv w ch L = (\<lambda>(left, hs, cands). \<exists>r. cands = cand_vectors w (after_rounds w L r) \<and>
     hs = map (hit_vectors w) (filter (\<lambda>X. X \<noteq> []) (map (round_hits w ch L) [0..<r])) \<and>
     (left \<longrightarrow> filter (ahead w) (after_rounds w L r) = []))"

lemma until_loop:
  assumes fc: "wf_cfg fc" and w: "words_ok w" "length (w_chars w) < 2 ^ 62" and L: "cands_ok w L"
  shows "ok (cwhile (\<lambda>(left, hs, cands). \<not> left) (until_round fc (w_chars w) ch) (False, [], cand_vectors w L))
    (\<lambda>st. until_inv w ch L st \<and> fst st)"
proof (rule ok_while [where I = "until_inv w ch L" and m = "\<lambda>(left, hs, pos, lens, idx). if left then 0 else Suc (sum_list lens)"])
  show "until_inv w ch L (False, [], cand_vectors w L)"
    using after_rounds_0 [OF L] unfolding until_inv_def by (auto intro!: exI [of _ 0])
  fix st assume st: "until_inv w ch L st" and c: "case st of (left, hs, cands) \<Rightarrow> \<not> left"
  obtain left hs cands where st': "st = (left, hs, cands)" by (metis prod_cases3)
  obtain r where r: "cands = cand_vectors w (after_rounds w L r)"
      "hs = map (hit_vectors w) (filter (\<lambda>X. X \<noteq> []) (map (round_hits w ch L) [0..<r]))" "left = False"
    using st c by (auto simp: until_inv_def st')
  let ?X = "after_rounds w L r"
  let ?m = "\<lambda>(left, hs, pos, lens, idx). if left then 0 else Suc (sum_list lens)"
  have round: "until_round fc (w_chars w) ch st = (if filter (ahead w) ?X = [] then Some (True, hs, cands)
     else Some (False, hs @ (if round_hits w ch L r = [] then [] else [hit_vectors w (round_hits w ch L r)]), cand_vectors w (after_rounds w L (Suc r))))"
    unfolding st' r(1,3) until_round_eq [OF fc w after_rounds_ok [OF L]] after_rounds_hits after_rounds_Suc ..
  show "ok (until_round fc (w_chars w) ch st) (\<lambda>st'. until_inv w ch L st' \<and> ?m st' < ?m st)"
  proof (cases "filter (ahead w) ?X = []")
    case True
    have "until_inv w ch L (True, hs, cands)" using r True unfolding until_inv_def by blast
    then show ?thesis using True unfolding round by (simp add: st' r(3) split: prod.split)
  next
    case False
    have inv: "until_inv w ch L (False, hs @ (if round_hits w ch L r = [] then [] else [hit_vectors w (round_hits w ch L r)]),
        cand_vectors w (after_rounds w L (Suc r)))"
      unfolding until_inv_def prod.case by (rule exI [of _ "Suc r"]) (simp add: r(2))
    have "sum_list (map (\<lambda>(i, p). w_lens w ! i - p) (after_rounds w L (Suc r))) < sum_list (map (\<lambda>(i, p). w_lens w ! i - p) ?X)"
    proof -
      have dec: "sum_list (map (\<lambda>(i, p). w_lens w ! i - p) (map (\<lambda>(i, p). (i, Suc p)) (filter (ahead w) Y))) + length (filter (ahead w) Y) =
          sum_list (map (\<lambda>(i, p). w_lens w ! i - p) Y)" for Y
        by (induction Y) (auto simp: ahead_def case_prod_beta')
      show ?thesis using dec [of ?X] False unfolding after_rounds_Suc by (simp add: neq_Nil_conv) (auto simp: neq_Nil_conv)
    qed
    then show ?thesis using inv False unfolding round by (simp add: st' r(1,3) cand_vectors_def)
  qed
qed (auto simp: until_inv_def)

text \<open>
  What remains of the hits: sorted by word, and for one word the positions behind the hits of round 0, 1, ...
  until every candidate has come to its end.
\<close>

definition until_result :: "words \<Rightarrow> int \<Rightarrow> (nat \<times> nat) list \<Rightarrow> (nat \<times> nat) list \<Rightarrow> bool" where
  "until_result w ch L L' \<longleftrightarrow> cands_ok w L' \<and> sorted (map fst L') \<and> (\<exists>R. (\<forall>(i, p)\<in>set L. w_lens w ! i \<le> p + R) \<and>
     (\<forall>k. filter (\<lambda>x. fst x = k) L' =
        concat (map (\<lambda>r. map (\<lambda>(i, p). (i, Suc p)) (filter (\<lambda>x. fst x = k) (round_hits w ch L r))) [0..<R])))"

lemma sorted_round_hits: "sorted (map fst L) \<Longrightarrow> sorted (map fst (round_hits w ch L r))"
  using sorted_filter [of fst L] by (simp add: round_hits_def comp_def case_prod_beta')

lemma round_hits_ok: "cands_ok w L \<Longrightarrow> x \<in> set (round_hits w ch L r) \<Longrightarrow> fst x < length (w_starts w) \<and> snd x < w_lens w ! fst x"
  by (auto simp: round_hits_def cands_ok_def on_char_def)

lemma concat_nonempty: "(\<And>X. X = [] \<Longrightarrow> f X = []) \<Longrightarrow> concat (map f (filter (\<lambda>X. X \<noteq> []) Xs)) = concat (map f Xs)"
  by (induction Xs) auto

lemma advance_until_eq:
  assumes fc: "wf_cfg fc" and w: "words_ok w" "length (w_chars w) < 2 ^ 62" and L: "cands_ok w L" "sorted (map fst L)"
    and m: "pair_merge merge2 (\<le>)"
  shows "\<exists>L'. advance_until_char_like fc merge2 (w_chars w) (w_starts w) (w_lens w) ch (cand_vectors w L) = Some (cand_vectors w L') \<and>
    until_result w ch L L'"
proof -
  obtain st where st: "cwhile (\<lambda>(left, hs, cands). \<not> left) (until_round fc (w_chars w) ch) (False, [], cand_vectors w L) = Some st"
      "until_inv w ch L st \<and> fst st"
    by (rule okE [OF until_loop [OF fc w L(1)]])
  obtain hs cands where st': "st = (True, hs, cands)" using st(2) by (cases st) auto
  obtain R where R: "hs = map (hit_vectors w) (filter (\<lambda>X. X \<noteq> []) (map (round_hits w ch L) [0..<R]))"
      "filter (ahead w) (after_rounds w L R) = []"
    using st(2) by (auto simp: until_inv_def st')
  let ?H = "round_hits w ch L" and ?A = "\<lambda>(i, p). (i, w_starts w ! i + p)"
  have stop: "\<forall>(i, p)\<in>set L. w_lens w ! i \<le> p + R"
  proof (intro ballI, unfold case_prod_beta')
    fix x assume x: "x \<in> set L"
    show "w_lens w ! fst x \<le> snd x + R"
    proof (rule ccontr)
      assume "\<not> ?thesis"
      then have "(fst x, snd x + R) \<in> set (filter (ahead w) (after_rounds w L R))"
        using x by (force simp: after_rounds_def ahead_def)
      then show False using R(2) by simp
    qed
  qed
  have pairs: "zip (fst (hit_vectors w X)) (snd (hit_vectors w X)) = map ?A X" for X
    by (induction X) (auto simp: hit_vectors_def)
  have "\<forall>p\<in>set hs. part_ok (\<le>) p"
    using sorted_round_hits [OF L(2), of w ch] by (auto simp: R(1) part_ok_def hit_vectors_def)
  from pair_merge.multimerge_pair_ok [OF m this] obtain mi mp where merged:
    "set_multimerge_pair merge2 hs = Some (mi, mp)" "pair_merge.merged (\<le>) hs (mi, mp)" by (auto elim!: okE)
  have len: "length mi = length mp" "sorted mi"
    and stable: "\<And>k. filter (\<lambda>x. fst x = k) (zip mi mp) = concat (map (\<lambda>p. filter (\<lambda>x. fst x = k) (zip (fst p) (snd p))) hs)"
    using merged(2) by (simp_all add: pair_merge.merged_def [OF m] part_ok_def)
  have by_key: "filter (\<lambda>x. fst x = k) (zip mi mp) = concat (map (\<lambda>r. map ?A (filter (\<lambda>x. fst x = k) (?H r))) [0..<R])" for k
  proof -
    have "filter (\<lambda>x. fst x = k) (zip mi mp) = concat (map (\<lambda>X. map ?A (filter (\<lambda>x. fst x = k) X)) (filter (\<lambda>X. X \<noteq> []) (map ?H [0..<R])))"
      unfolding stable R(1) map_map comp_def pairs filter_map by (simp add: case_prod_beta')
    also have "\<dots> = concat (map (\<lambda>X. map ?A (filter (\<lambda>x. fst x = k) X)) (map ?H [0..<R]))" by (rule concat_nonempty) simp
    finally show ?thesis by (simp add: comp_def)
  qed
  let ?B = "\<lambda>(i, q). (i, Suc (q - w_starts w ! i))"
  let ?L' = "map ?B (zip mi mp)"
  have inside: "\<exists>p. x = (fst x, w_starts w ! fst x + p) \<and> fst x < length (w_starts w) \<and> p < w_lens w ! fst x" if "x \<in> set (zip mi mp)" for x
  proof -
    have "x \<in> set (filter (\<lambda>y. fst y = fst x) (zip mi mp))" using that by simp
    then obtain r y where y: "y \<in> set (?H r)" "x = ?A y" unfolding by_key by auto
    have "fst y < length (w_starts w) \<and> snd y < w_lens w ! fst y" by (rule round_hits_ok [OF L(1) y(1)])
    then show ?thesis using y(2) by (intro exI [of _ "snd y"]) (simp add: case_prod_beta')
  qed
  have ok': "cands_ok w ?L'"
    unfolding cands_ok_def
  proof (rule ballI)
    fix y assume "y \<in> set ?L'"
    then obtain x where x: "x \<in> set (zip mi mp)" "y = ?B x" by auto
    obtain p where "x = (fst x, w_starts w ! fst x + p)" "fst x < length (w_starts w)" "p < w_lens w ! fst x" using inside [OF x(1)] by blast
    then show "case y of (i, p) \<Rightarrow> i < length (w_starts w) \<and> p \<le> w_lens w ! i" using x(2) by (cases x) auto
  qed
  have key': "filter (\<lambda>x. fst x = k) ?L' = concat (map (\<lambda>r. map (\<lambda>(i, p). (i, Suc p)) (filter (\<lambda>x. fst x = k) (?H r))) [0..<R])" for k
  proof -
    have "filter (\<lambda>x. fst x = k) ?L' = map ?B (filter (\<lambda>x. fst x = k) (zip mi mp))"
      by (simp add: filter_map comp_def case_prod_beta')
    also have "\<dots> = concat (map (\<lambda>r. map (\<lambda>(i, p). (i, Suc p)) (filter (\<lambda>x. fst x = k) (?H r))) [0..<R])"
      unfolding by_key map_concat map_map comp_def by (simp add: case_prod_beta')
    finally show ?thesis .
  qed
  have "map fst ?L' = mi" using len(1) by (simp add: comp_def case_prod_beta' map_fst_zip)
  then have result: "until_result w ch L ?L'" using ok' len(2) stop key' unfolding until_result_def by auto
  have vec: "cand_vectors w ?L' = (map (\<lambda>p. p + 1) mp, map (\<lambda>(i, p). w_lens w ! i - p) ?L', mi)"
  proof -
    have "map (\<lambda>(i, p). w_starts w ! i + p) ?L' = map (\<lambda>x. snd x + 1) (zip mi mp)"
      unfolding map_map
    proof (rule map_cong [OF refl])
      fix x assume "x \<in> set (zip mi mp)"
      then obtain p where "x = (fst x, w_starts w ! fst x + p)" using inside by blast
      then show "((\<lambda>(i, p). w_starts w ! i + p) \<circ> ?B) x = snd x + 1" by (cases x) auto
    qed
    also have "\<dots> = map (\<lambda>p. p + 1) (map snd (zip mi mp))" by simp
    finally show ?thesis using \<open>map fst ?L' = mi\<close> len(1) by (simp add: cand_vectors_def)
  qed
  have lens: "omap (\<lambda>i. do { ix \<leftarrow> rd mi i; l \<leftarrow> rd (w_lens w) ix; p \<leftarrow> rd (map (\<lambda>p. p + 1) mp) i; s \<leftarrow> rd (w_starts w) ix;
         Some (u64 (int l - (int p - int s))) }) [0..<length mi] = Some (map (\<lambda>(i, p). w_lens w ! i - p) ?L')"
  proof -
    have "omap (\<lambda>i. do { ix \<leftarrow> rd mi i; l \<leftarrow> rd (w_lens w) ix; p \<leftarrow> rd (map (\<lambda>p. p + 1) mp) i; s \<leftarrow> rd (w_starts w) ix;
         Some (u64 (int l - (int p - int s))) }) [0..<length mi] = Some (map (\<lambda>i. (\<lambda>(i, p). w_lens w ! i - p) (?L' ! i)) [0..<length mi])"
    proof (rule omap_Some)
      fix i assume "i \<in> set [0..<length mi]"
      then have i: "i < length mi" "i < length mp" using len(1) by simp_all
      have "(mi ! i, mp ! i) \<in> set (zip mi mp)" using i by (metis nth_mem nth_zip length_zip min_less_iff_conj)
      then obtain p where p: "mp ! i = w_starts w ! (mi ! i) + p" "mi ! i < length (w_starts w)" "p < w_lens w ! (mi ! i)"
        using inside by fastforce
      have ll: "mi ! i < length (w_lens w)" using p(2) w(1) by (simp add: words_ok_def)
      have "w_starts w ! (mi ! i) + w_lens w ! (mi ! i) \<le> length (w_chars w)" using w(1) p(2) by (simp add: words_ok_def)
      then have u: "u64 (int (w_lens w ! (mi ! i) - Suc p)) = w_lens w ! (mi ! i) - Suc p" using w(2) by (subst u64_id) auto
      have d: "int (w_lens w ! (mi ! i)) - (int (mp ! i + 1) - int (w_starts w ! (mi ! i))) = int (w_lens w ! (mi ! i) - Suc p)"
        using p by linarith
      have at: "rd mi i = Some (mi ! i)" "rd (w_lens w) (mi ! i) = Some (w_lens w ! (mi ! i))"
        "rd (map (\<lambda>p. p + 1) mp) i = Some (mp ! i + 1)" "rd (w_starts w) (mi ! i) = Some (w_starts w ! (mi ! i))"
        using i ll p(2) by simp_all
      show "do { ix \<leftarrow> rd mi i; l \<leftarrow> rd (w_lens w) ix; p \<leftarrow> rd (map (\<lambda>p. p + 1) mp) i; s \<leftarrow> rd (w_starts w) ix;
         Some (u64 (int l - (int p - int s))) } = Some ((\<lambda>(i, p). w_lens w ! i - p) (?L' ! i))"
        unfolding at bind.bind_lunit d u using i p(1) by simp
    qed
    also have "map (\<lambda>i. (\<lambda>(i, p). w_lens w ! i - p) (?L' ! i)) [0..<length mi] = map (\<lambda>(i, p). w_lens w ! i - p) ?L'"
      by (rule nth_equalityI) (use len(1) in simp_all)
    finally show ?thesis .
  qed
  have "advance_until_char_like fc merge2 (w_chars w) (w_starts w) (w_lens w) ch (cand_vectors w L) = Some (cand_vectors w ?L')"
    unfolding advance_until_char_like_def st(1) st' prod.case bind.bind_lunit merged(1) Let_def lens vec ..
  then show ?thesis using result by blast
qed

subsection \<open>Search\<close>

lemma filter_key: "filter (\<lambda>i. P i \<and> i = k) [0..<n] = (if k < n \<and> P k then [k] else [])"
  by (induction n) (auto simp: less_Suc_eq)

lemma filter_less_Suc:
  "sorted (map fst L) \<Longrightarrow> filter (\<lambda>x. fst x < n) L @ filter (\<lambda>x. fst x = n) L = filter (\<lambda>x. fst x < Suc n) (L :: (nat \<times> 'a) list)"
proof (induction L)
  case (Cons x L)
  have "filter (\<lambda>y. fst y < n) L = []" if "n \<le> fst x" using Cons.prems that by (auto simp: filter_empty_conv)
  then show ?case using Cons by (auto simp: less_Suc_eq)
qed simp

lemma by_keys:
  assumes "sorted (map fst L)" "\<forall>x\<in>set L. fst x < n"
  shows "L = concat (map (\<lambda>k. filter (\<lambda>x. fst x = k) L) [0..<n])"
proof -
  have "concat (map (\<lambda>k. filter (\<lambda>x. fst x = k) L) [0..<m]) = filter (\<lambda>x. fst x < m) L" for m
    by (induction m) (simp_all add: filter_less_Suc [OF assms(1)])
  then show ?thesis using assms(2) by (simp add: filter_True)
qed

text \<open>The candidates when \<open>j\<close> characters have been found: for every word, its positions in order.\<close>

definition found_upto :: "words \<Rightarrow> int list \<Rightarrow> nat \<Rightarrow> (nat \<times> nat) list" where
  "found_upto w s j = concat (map (\<lambda>i. map (\<lambda>q. (i, q + j)) (filter (\<lambda>q. \<forall>t<j. on_char w (s ! t) (i, q + t)) [0..<w_lens w ! i]))
     [0..<length (w_starts w)])"

lemma found_upto_Suc: "map (\<lambda>(i, p). (i, Suc p)) (filter (on_char w (s ! j)) (found_upto w s j)) = found_upto w s (Suc j)"
proof -
  have f: "filter (\<lambda>q. (\<forall>t<j. on_char w (s ! t) (i, q + t)) \<and> on_char w (s ! j) (i, q + j)) xs =
      filter (\<lambda>q. \<forall>t<Suc j. on_char w (s ! t) (i, q + t)) xs" for i xs
    by (rule filter_cong) (auto simp: less_Suc_eq)
  show ?thesis
    unfolding found_upto_def filter_concat map_concat map_map comp_def filter_map filter_filter f by simp
qed

lemma found_first:
  assumes "until_result w (s ! 0) (map (\<lambda>i. (i, 0)) [0..<length (w_starts w)]) L"
  shows "L = found_upto w s 1"
proof -
  let ?n = "length (w_starts w)" and ?L0 = "map (\<lambda>i. (i, 0 :: nat)) [0..<length (w_starts w)]"
  obtain R where R: "\<forall>(i, p)\<in>set ?L0. w_lens w ! i \<le> p + R"
    "\<And>k. filter (\<lambda>x. fst x = k) L = concat (map (\<lambda>r. map (\<lambda>(i, p). (i, Suc p)) (filter (\<lambda>x. fst x = k) (round_hits w (s ! 0) ?L0 r))) [0..<R])"
    and L: "cands_ok w L" "sorted (map fst L)"
    using assms unfolding until_result_def by blast
  have h: "filter (\<lambda>x. fst x = k) (round_hits w (s ! 0) ?L0 r) = (if k < ?n \<and> on_char w (s ! 0) (k, r) then [(k, r)] else [])" for k r
    unfolding round_hits_def filter_map comp_def filter_filter map_map prod.case fst_conv filter_key by simp
  have key: "filter (\<lambda>x. fst x = k) L = map (\<lambda>q. (k, q + 1)) (filter (\<lambda>q. \<forall>t<1. on_char w (s ! t) (k, q + t)) [0..<w_lens w ! k])"
    if k: "k < ?n" for k
  proof -
    have le: "w_lens w ! k \<le> R" using R(1) k by auto
    have "filter (\<lambda>x. fst x = k) L = concat (map (\<lambda>r. if on_char w (s ! 0) (k, r) then [(k, Suc r)] else []) [0..<R])"
      unfolding R(2) h using k by (auto intro!: arg_cong [of _ _ concat] map_cong)
    also have "\<dots> = map (\<lambda>q. (k, Suc q)) (filter (\<lambda>q. on_char w (s ! 0) (k, q)) [0..<R])"
      by (induction R) auto
    also have "filter (\<lambda>q. on_char w (s ! 0) (k, q)) [0..<R] = filter (\<lambda>q. on_char w (s ! 0) (k, q)) [0..<w_lens w ! k]"
    proof -
      have "[0..<R] = [0..<w_lens w ! k] @ [w_lens w ! k..<R]" using le by (metis le_add_diff_inverse upt_add_eq_append zero_le)
      moreover have "filter (\<lambda>q. on_char w (s ! 0) (k, q)) [w_lens w ! k..<R] = []" by (auto simp: filter_empty_conv on_char_def)
      ultimately show ?thesis by simp
    qed
    finally show ?thesis by simp
  qed
  have "\<forall>x\<in>set L. fst x < ?n" using L(1) by (auto simp: cands_ok_def)
  note split = by_keys [OF L(2) this]
  have "map (\<lambda>k. filter (\<lambda>x. fst x = k) L) [0..<?n] =
      map (\<lambda>k. map (\<lambda>q. (k, q + 1)) (filter (\<lambda>q. \<forall>t<1. on_char w (s ! t) (k, q + t)) [0..<w_lens w ! k])) [0..<?n]"
    by (rule map_cong [OF refl]) (rule key, simp)
  from split [unfolded this] show ?thesis by (simp only: found_upto_def)
qed

lemma start_vectors:
  "words_ok w \<Longrightarrow> (w_starts w, w_lens w, [0..<length (w_starts w)]) = cand_vectors w (map (\<lambda>i. (i, 0)) [0..<length (w_starts w)])"
  by (auto simp: cand_vectors_def comp_def words_ok_def intro!: nth_equalityI)

lemma start_lens: "words_ok w \<Longrightarrow> omap (\<lambda>i. rd (w_lens w) i) [0..<length (w_starts w)] = Some (w_lens w)"
  by (subst omap_Some [where g = "\<lambda>i. w_lens w ! i"]) (auto simp: words_ok_def intro!: nth_equalityI)

lemma start_ok: "cands_ok w (map (\<lambda>i. (i, 0)) [0..<length (w_starts w)])" "sorted (map fst (map (\<lambda>i. (i, 0 :: nat)) [0..<n]))"
  by (auto simp: cands_ok_def comp_def)

definition all_occurrences :: "int list \<Rightarrow> int list list \<Rightarrow> (nat \<times> nat) list" where
  "all_occurrences s us = concat (map (\<lambda>i. map (\<lambda>q. (i, q)) (occurrences s (us ! i))) [0..<length us])"

lemma found_all:
  assumes w: "words_ok w" and s: "s \<noteq> []"
  shows "found_upto w s (length s) = map (\<lambda>(i, q). (i, q + length s)) (all_occurrences s (words_of w))"
proof -
  have "filter (\<lambda>q. \<forall>t<length s. on_char w (s ! t) (i, q + t)) [0..<w_lens w ! i] = occurrences s (words_of w ! i)"
    if i: "i < length (w_starts w)" for i
  proof -
    have l: "length (words_of w ! i) = w_lens w ! i" by (rule length_nth_words_of [OF w i])
    have "(\<forall>t<length s. on_char w (s ! t) (i, q + t)) \<longleftrightarrow> occurs_at s (words_of w ! i) q" for q
    proof -
      have "(\<forall>t<length s. q + t < w_lens w ! i) \<longleftrightarrow> q + length s \<le> w_lens w ! i"
        using s by (cases "length s") (auto simp: less_Suc_eq_le Suc_le_eq)
      then show ?thesis unfolding occurs_at_nth l by (auto simp: on_char_def)
    qed
    then show ?thesis using s by (simp add: occurrences_def l)
  qed
  then have eq: "map (\<lambda>i. map (\<lambda>q. (i, q + length s)) (filter (\<lambda>q. \<forall>t<length s. on_char w (s ! t) (i, q + t)) [0..<w_lens w ! i]))
       [0..<length (w_starts w)] = map (\<lambda>i. map (\<lambda>q. (i, q + length s)) (occurrences s (words_of w ! i))) [0..<length (w_starts w)]"
    by (intro map_cong [OF refl] arg_cong [of _ _ "map _"]) simp
  show ?thesis
    unfolding found_upto_def eq all_occurrences_def using w by (simp add: map_concat comp_def)
qed

lemma search_eq:
  assumes fc: "wf_cfg fc" and w: "words_ok w" "length (w_chars w) < 2 ^ 62" and m: "pair_merge merge2 (\<le>)"
  shows "search fc merge2 w s = Some (map fst (all_occurrences s (words_of w)), map snd (all_occurrences s (words_of w)))"
proof (cases "s = []")
  case True
  have "all_occurrences [] us = []" for us by (simp add: all_occurrences_def occurrences_def)
  then show ?thesis using True by (simp add: search_def)
next
  case False
  let ?n = "length (w_starts w)" and ?m = "length s" and ?A = "all_occurrences s (words_of w)"
  have m0: "\<not> ?m = 0" "1 \<le> ?m" using False by (simp_all add: Suc_le_eq)
  obtain L where L: "advance_until_char_like fc merge2 (w_chars w) (w_starts w) (w_lens w) (s ! 0) (cand_vectors w (map (\<lambda>i. (i, 0)) [0..<?n])) =
      Some (cand_vectors w L)" "until_result w (s ! 0) (map (\<lambda>i. (i, 0)) [0..<?n]) L"
    using advance_until_eq [OF fc w start_ok m] by blast
  note first = L(1) [unfolded found_first [OF L(2)]]
  have ok1: "cands_ok w (found_upto w s 1)" using L(2) unfolding until_result_def found_first [OF L(2), symmetric] by blast
  let ?body = "\<lambda>i cands. do { crnt_char \<leftarrow> rd s i; advance_char_like fc (w_chars w) crnt_char cands }"
  have "ok (for_each ?body [1..<?m] (cand_vectors w (found_upto w s 1)))
     (\<lambda>c. c = cand_vectors w (found_upto w s ?m) \<and> cands_ok w (found_upto w s ?m))"
  proof (rule ok_for_range [where I = "\<lambda>j c. c = cand_vectors w (found_upto w s j) \<and> cands_ok w (found_upto w s j)"])
    fix j c assume j: "1 \<le> j" "j < ?m" and c: "c = cand_vectors w (found_upto w s j) \<and> cands_ok w (found_upto w s j)"
    then show "ok (?body j c) (\<lambda>c. c = cand_vectors w (found_upto w s (Suc j)) \<and> cands_ok w (found_upto w s (Suc j)))"
      using advance_char_eq [OF fc w, of "found_upto w s j" "s ! j"] by (simp add: found_upto_Suc)
  qed (use ok1 m0 in simp_all)
  then have loop: "for_each ?body [1..<?m] (cand_vectors w (found_upto w s 1)) = Some (cand_vectors w (found_upto w s ?m))"
    and ok2: "cands_ok w (found_upto w s ?m)" by (auto elim!: okE)
  let ?F = "map (\<lambda>(i, q). (i, q + ?m)) ?A"
  have F: "found_upto w s ?m = ?F" by (rule found_all [OF w(1) False])
  have inside: "fst x < ?n \<and> snd x + ?m \<le> w_lens w ! fst x" if "x \<in> set ?A" for x
    using ok2 that unfolding F by (cases x) (auto simp: cands_ok_def)
  let ?P = "map (\<lambda>(i, p). w_starts w ! i + p) ?F" and ?I = "map fst ?F"
  have "omap (\<lambda>i. do { p \<leftarrow> rd ?P i; ix \<leftarrow> rd ?I i; s' \<leftarrow> rd (w_starts w) ix; Some (u64 (int p - (int ?m + int s'))) }) [0..<length ?P] =
      Some (map (\<lambda>i. snd (?A ! i)) [0..<length ?P])"
  proof (rule omap_Some)
    fix i assume "i \<in> set [0..<length ?P]"
    then have i: "i < length ?A" by simp
    then have x: "fst (?A ! i) < ?n" "snd (?A ! i) + ?m \<le> w_lens w ! fst (?A ! i)" using inside by simp_all
    have "w_starts w ! fst (?A ! i) + w_lens w ! fst (?A ! i) \<le> length (w_chars w)" using w(1) x(1) by (simp add: words_ok_def)
    then have u: "u64 (int (snd (?A ! i))) = snd (?A ! i)" using x(2) w(2) by (subst u64_id) auto
    have at: "rd ?P i = Some (w_starts w ! fst (?A ! i) + (snd (?A ! i) + ?m))" "rd ?I i = Some (fst (?A ! i))"
      using i by (simp_all add: case_prod_beta')
    have st: "rd (w_starts w) (fst (?A ! i)) = Some (w_starts w ! fst (?A ! i))" using x(1) by simp
    have d: "int (w_starts w ! fst (?A ! i) + (snd (?A ! i) + ?m)) - (int ?m + int (w_starts w ! fst (?A ! i))) = int (snd (?A ! i))" by simp
    show "do { p \<leftarrow> rd ?P i; ix \<leftarrow> rd ?I i; s' \<leftarrow> rd (w_starts w) ix; Some (u64 (int p - (int ?m + int s'))) } = Some (snd (?A ! i))"
      unfolding at bind.bind_lunit st d u ..
  qed
  also have "map (\<lambda>i. snd (?A ! i)) [0..<length ?P] = map snd ?A" by (rule nth_equalityI) simp_all
  finally have pos: "omap (\<lambda>i. do { p \<leftarrow> rd ?P i; ix \<leftarrow> rd ?I i; s' \<leftarrow> rd (w_starts w) ix; Some (u64 (int p - (int ?m + int s'))) }) [0..<length ?P] =
      Some (map snd ?A)" .
  have s0: "rd s 0 = Some (s ! 0)" using False by simp
  have vec: "cand_vectors w ?F = (?P, map (\<lambda>(i, p). w_lens w ! i - p) ?F, ?I)" by (simp only: cand_vectors_def)
  have "search fc merge2 w s = Some (?I, map snd ?A)"
    unfolding search_def Let_def if_not_P [OF m0(1)] s0 bind.bind_lunit start_lens [OF w(1)] start_vectors [OF w(1)] first loop F
    unfolding vec prod.case pos bind.bind_lunit ..
  then show ?thesis by (simp add: comp_def case_prod_beta')
qed

end
