(* ===== verification/WordsLike.thy ===== *)
theory WordsLike
  imports WordsSearch
begin

text \<open>
  What the pattern search of src/core/words.cc selects: a pattern is a list of
  literal characters and of wild cards, and the function like returns the
  words that match it.
\<close>

subsection \<open>Patterns\<close>

datatype like_item = Lit int | Any

text \<open>The pattern; the flag says that the next character is taken literally.\<close>

fun like_items :: "int \<Rightarrow> int \<Rightarrow> bool \<Rightarrow> int list \<Rightarrow> like_item list" where
  "like_items wild_card escape lit [] = []"
| "like_items wild_card escape lit (c # cs) =
    (if lit then Lit c # like_items wild_card escape False cs
     else if c = escape then like_items wild_card escape True cs
     else if c = wild_card then Any # like_items wild_card escape False cs
     else Lit c # like_items wild_card escape False cs)"

fun like_match :: "like_item list \<Rightarrow> int list \<Rightarrow> bool" where
  "like_match [] u \<longleftrightarrow> u = []"
| "like_match (Lit c # its) u \<longleftrightarrow> u \<noteq> [] \<and> hd u = c \<and> like_match its (tl u)"
| "like_match (Any # its) u \<longleftrightarrow> (\<exists>k\<in>{0..length u}. like_match its (drop k u))"

lemma like_match_append: "like_match (its @ jts) u \<longleftrightarrow> (\<exists>k\<le>length u. like_match its (take k u) \<and> like_match jts (drop k u))"
proof (induction its arbitrary: u)
  case Nil
  then show ?case by auto
next
  case (Cons x its)
  show ?case
  proof (cases x)
    case (Lit c)
    show ?thesis
    proof
      assume "like_match ((x # its) @ jts) u"
      then have "u \<noteq> []" "hd u = c" "like_match (its @ jts) (tl u)" by (simp_all add: Lit)
      then obtain k where k: "k \<le> length (tl u)" "like_match its (take k (tl u))" "like_match jts (drop k (tl u))"
        using Cons.IH by blast
      then show "\<exists>k\<le>length u. like_match (x # its) (take k u) \<and> like_match jts (drop k u)"
        using \<open>u \<noteq> []\<close> \<open>hd u = c\<close> by (intro exI [of _ "Suc k"]) (cases u; simp add: Lit)
    next
      assume "\<exists>k\<le>length u. like_match (x # its) (take k u) \<and> like_match jts (drop k u)"
      then obtain k where k: "k \<le> length u" "like_match (x # its) (take k u)" "like_match jts (drop k u)" by blast
      then obtain j v vs where "k = Suc j" "u = v # vs" by (cases k; cases u) (auto simp: Lit)
      then show "like_match ((x # its) @ jts) u" using k Cons.IH [of vs] by (auto simp: Lit)
    qed
  next
    case Any
    show ?thesis
    proof
      assume "like_match ((x # its) @ jts) u"
      then obtain a where a: "a \<le> length u" "like_match (its @ jts) (drop a u)" by (auto simp: Any)
      then obtain k where k: "k \<le> length u - a" "like_match its (take k (drop a u))" "like_match jts (drop k (drop a u))"
        using Cons.IH [of "drop a u"] by auto
      have "like_match (x # its) (take (a + k) u)"
        using a(1) k(1,2) by (auto simp: Any drop_take intro!: bexI [of _ a])
      then show "\<exists>k\<le>length u. like_match (x # its) (take k u) \<and> like_match jts (drop k u)"
        using a(1) k(1,3) by (intro exI [of _ "a + k"]) (simp add: add.commute)
    next
      assume "\<exists>k\<le>length u. like_match (x # its) (take k u) \<and> like_match jts (drop k u)"
      then obtain k a where k: "k \<le> length u" "like_match jts (drop k u)" and a: "a \<le> k" "like_match its (drop a (take k u))"
        by (auto simp: Any)
      have "like_match (its @ jts) (drop a u)"
        unfolding Cons.IH using k a by (intro exI [of _ "k - a"]) (simp add: drop_take)
      then show "like_match ((x # its) @ jts) u" using k(1) a(1) by (auto simp: Any intro!: bexI [of _ a])
    qed
  qed
qed

text \<open>How far the words match the pattern.\<close>

definition reach :: "words \<Rightarrow> like_item list \<Rightarrow> (nat \<times> nat) set" where
  "reach w its = {(i, p). i < length (w_starts w) \<and> p \<le> w_lens w ! i \<and> like_match its (take p (words_of w ! i))}"

definition beyond :: "words \<Rightarrow> (nat \<times> nat) set \<Rightarrow> (nat \<times> nat) set" where
  "beyond w S = {(i, q). \<exists>p. (i, p) \<in> S \<and> p \<le> q \<and> q \<le> w_lens w ! i}"

lemma beyond_beyond: "beyond w (beyond w S) = beyond w S"
  by (auto simp: beyond_def intro: order_trans)

lemma reach_Any:
  assumes w: "words_ok w"
  shows "reach w (its @ [Any]) = beyond w (reach w its)"
proof -
  have any: "like_match [Any] u \<longleftrightarrow> True" for u by (auto intro!: bexI [of _ "length u"])
  have m: "like_match (its @ [Any]) (take q u) \<longleftrightarrow> (\<exists>p\<le>q. like_match its (take p u))" if "q \<le> length u" for q and u :: "int list"
    unfolding like_match_append any using that by (auto simp: min_def)
  have "x \<in> reach w (its @ [Any]) \<longleftrightarrow> x \<in> beyond w (reach w its)" for x
    using length_nth_words_of [OF w, of "fst x"] m [of "snd x" "words_of w ! fst x"]
    by (cases x) (auto simp: reach_def beyond_def, meson le_trans)
  then show ?thesis by blast
qed

lemma reach_Lit:
  assumes w: "words_ok w"
  shows "reach w (its @ [Lit c]) = {(i, Suc q) |i q. (i, q) \<in> reach w its \<and> on_char w c (i, q)}"
proof -
  have lit: "like_match [Lit c] u \<longleftrightarrow> u = [c]" for u by (cases u) auto
  have m: "like_match (its @ [Lit c]) (take p u) \<longleftrightarrow> (\<exists>q. p = Suc q \<and> like_match its (take q u) \<and> u ! q = c)"
    if p: "p \<le> length u" for p and u :: "int list"
  proof
    assume "like_match (its @ [Lit c]) (take p u)"
    then obtain k where k: "k \<le> p" "like_match its (take k (take p u))" "drop k (take p u) = [c]"
      using p unfolding like_match_append lit by auto
    have "p = Suc k" using arg_cong [OF k(3), of length] p k(1) by simp
    moreover have "u ! k = c" using arg_cong [OF k(3), of hd] p \<open>p = Suc k\<close> by (simp add: hd_drop_conv_nth)
    ultimately show "\<exists>q. p = Suc q \<and> like_match its (take q u) \<and> u ! q = c" using k(1,2) by (auto simp: min_def)
  next
    assume "\<exists>q. p = Suc q \<and> like_match its (take q u) \<and> u ! q = c"
    then obtain q where q: "p = Suc q" "like_match its (take q u)" "u ! q = c" by blast
    have "drop q (take p u) = [c]" using p q by (simp add: take_Suc_conv_app_nth)
    then show "like_match (its @ [Lit c]) (take p u)"
      using p q unfolding like_match_append lit by (intro exI [of _ q]) (simp add: min_def)
  qed
  have "x \<in> reach w (its @ [Lit c]) \<longleftrightarrow> (\<exists>i q. x = (i, Suc q) \<and> (i, q) \<in> reach w its \<and> on_char w c (i, q))" for x
    using length_nth_words_of [OF w, of "fst x"] m [of "snd x" "words_of w ! fst x"]
    by (cases x) (auto simp: reach_def on_char_def)
  then show ?thesis by blast
qed

lemma until_set:
  assumes L: "cands_ok w L" and r: "until_result w ch L L'"
  shows "set L' = {(i, Suc q) |i q. (i, q) \<in> beyond w (set L) \<and> on_char w ch (i, q)}"
proof -
  obtain R where R: "\<forall>(i, p)\<in>set L. w_lens w ! i \<le> p + R"
    "\<And>k. filter (\<lambda>x. fst x = k) L' = concat (map (\<lambda>r. map (\<lambda>(i, p). (i, Suc p)) (filter (\<lambda>x. fst x = k) (round_hits w ch L r))) [0..<R])"
    using r unfolding until_result_def by blast
  have "x \<in> set L' \<longleftrightarrow> (\<exists>i q. x = (i, Suc q) \<and> (i, q) \<in> beyond w (set L) \<and> on_char w ch (i, q))" for x
  proof -
    have "x \<in> set L' \<longleftrightarrow> x \<in> set (filter (\<lambda>y. fst y = fst x) L')" by simp
    also have "\<dots> \<longleftrightarrow> (\<exists>r<R. \<exists>p. (fst x, p) \<in> set L \<and> on_char w ch (fst x, p + r) \<and> x = (fst x, Suc (p + r)))"
      unfolding R(2) by (auto simp: round_hits_def) force
    also have "\<dots> \<longleftrightarrow> (\<exists>i q. x = (i, Suc q) \<and> (i, q) \<in> beyond w (set L) \<and> on_char w ch (i, q))"
    proof
      assume "\<exists>r<R. \<exists>p. (fst x, p) \<in> set L \<and> on_char w ch (fst x, p + r) \<and> x = (fst x, Suc (p + r))"
      then obtain r p where "(fst x, p) \<in> set L" "on_char w ch (fst x, p + r)" "x = (fst x, Suc (p + r))" by blast
      then show "\<exists>i q. x = (i, Suc q) \<and> (i, q) \<in> beyond w (set L) \<and> on_char w ch (i, q)"
        by (intro exI [of _ "fst x"] exI [of _ "p + r"]) (auto simp: beyond_def on_char_def)
    next
      assume "\<exists>i q. x = (i, Suc q) \<and> (i, q) \<in> beyond w (set L) \<and> on_char w ch (i, q)"
      then obtain i q p where x: "x = (i, Suc q)" "(i, p) \<in> set L" "p \<le> q" and c: "on_char w ch (i, q)"
        by (auto simp: beyond_def)
      have "q - p < R" using R(1) x(2,3) c by (auto simp: on_char_def)
      then show "\<exists>r<R. \<exists>p. (fst x, p) \<in> set L \<and> on_char w ch (fst x, p + r) \<and> x = (fst x, Suc (p + r))"
        using x c by (intro exI [of _ "q - p"]) auto
    qed
    finally show ?thesis .
  qed
  then show ?thesis by blast
qed

lemma advance_set:
  assumes "cands_ok w L"
  shows "set (map (\<lambda>(i, p). (i, Suc p)) (filter (on_char w ch) L)) = {(i, Suc q) |i q. (i, q) \<in> set L \<and> on_char w ch (i, q)}"
  by force

text \<open>
  The candidates of a state of the machine are where the words have matched the pattern so far; behind a wild card
  they stand for every later position as well.
\<close>

definition at_items :: "words \<Rightarrow> like_item list \<Rightarrow> bool \<Rightarrow> (nat \<times> nat) list \<Rightarrow> bool" where
  "at_items w its wild L \<longleftrightarrow> cands_ok w L \<and> sorted (map fst L) \<and> (if wild then beyond w (set L) else set L) = reach w its"

lemma at_items_wild: "words_ok w \<Longrightarrow> at_items w its wild L \<Longrightarrow> at_items w (its @ [Any]) True L"
  using beyond_beyond [of w "set L"] by (cases wild) (simp_all add: at_items_def reach_Any)

lemma at_items_until:
  assumes fc: "wf_cfg fc" and w: "words_ok w" "length (w_chars w) < 2 ^ 62" and m: "pair_merge merge2 (\<le>)" and a: "at_items w its True L"
  shows "\<exists>L'. advance_until_char_like fc merge2 (w_chars w) (w_starts w) (w_lens w) c (cand_vectors w L) = Some (cand_vectors w L') \<and>
    at_items w (its @ [Lit c]) False L'"
proof -
  have L: "cands_ok w L" "sorted (map fst L)" "beyond w (set L) = reach w its" using a by (simp_all add: at_items_def)
  obtain L' where L': "advance_until_char_like fc merge2 (w_chars w) (w_starts w) (w_lens w) c (cand_vectors w L) = Some (cand_vectors w L')"
      "until_result w c L L'" using advance_until_eq [OF fc w L(1,2) m] by blast
  have "cands_ok w L'" "sorted (map fst L')" using L'(2) unfolding until_result_def by blast+
  then have "at_items w (its @ [Lit c]) False L'"
    unfolding at_items_def until_set [OF L(1) L'(2)] L(3) reach_Lit [OF w(1)] by simp
  then show ?thesis using L'(1) by blast
qed

lemma at_items_char:
  assumes fc: "wf_cfg fc" and w: "words_ok w" "length (w_chars w) < 2 ^ 62" and a: "at_items w its False L"
  shows "\<exists>L'. advance_char_like fc (w_chars w) c (cand_vectors w L) = Some (cand_vectors w L') \<and> at_items w (its @ [Lit c]) False L'"
proof -
  have L: "cands_ok w L" "sorted (map fst L)" "set L = reach w its" using a by (simp_all add: at_items_def)
  let ?L = "map (\<lambda>(i, p). (i, Suc p)) (filter (on_char w c) L)"
  have "sorted (map fst ?L)" using sorted_filter [OF L(2)] by (simp add: comp_def case_prod_beta')
  then have "at_items w (its @ [Lit c]) False ?L"
    using advance_char_eq(2) [OF fc w L(1), of c] unfolding at_items_def advance_set [OF L(1)] L(3) reach_Lit [OF w(1)] by simp
  then show ?thesis using advance_char_eq(1) [OF fc w L(1), of c] by blast
qed

lemma like_loop:
  assumes fc: "wf_cfg fc" and w: "words_ok w" "length (w_chars w) < 2 ^ 62" and m: "pair_merge merge2 (\<le>)" and a: "at_items w its wild L"
  shows "\<exists>wild' lit' L'. for_each (like_step fc merge2 w wild_card escape) cs (wild, lit, cand_vectors w L) = Some (wild', lit', cand_vectors w L') \<and>
    at_items w (its @ like_items wild_card escape lit cs) wild' L'"
  using a
proof (induction cs arbitrary: its wild lit L)
  case Nil
  then show ?case by (intro exI [of _ wild] exI [of _ lit] exI [of _ L]) simp
next
  case (Cons c cs)
  let ?f = "like_step fc merge2 w wild_card escape"
  consider (lit) "lit \<or> c \<noteq> escape \<and> c \<noteq> wild_card" | (escape) "\<not> lit" "c = escape" | (wild) "\<not> lit" "c \<noteq> escape" "c = wild_card" by blast
  then show ?case
  proof cases
    case lit
    then have i: "like_items wild_card escape lit (c # cs) = [Lit c] @ like_items wild_card escape False cs" by auto
    have "\<exists>L'. ?f c (wild, lit, cand_vectors w L) = Some (False, False, cand_vectors w L') \<and> at_items w (its @ [Lit c]) False L'"
    proof (cases wild)
      case True
      then show ?thesis using at_items_until [OF fc w m, of its L c] Cons.prems lit by (auto simp: like_step_def)
    next
      case False
      then show ?thesis using at_items_char [OF fc w, of its L c] Cons.prems lit by (auto simp: like_step_def)
    qed
    then obtain L' where L': "?f c (wild, lit, cand_vectors w L) = Some (False, False, cand_vectors w L')" "at_items w (its @ [Lit c]) False L'"
      by blast
    show ?thesis using Cons.IH [OF L'(2), of False] unfolding i append_assoc for_each.simps L'(1) bind.bind_lunit .
  next
    case escape
    then have i: "like_items wild_card escape lit (c # cs) = like_items wild_card escape True cs" by simp
    have f: "?f c (wild, lit, cand_vectors w L) = Some (wild, True, cand_vectors w L)" using escape by (simp add: like_step_def)
    show ?thesis using Cons.IH [OF Cons.prems, of True] unfolding i for_each.simps f bind.bind_lunit .
  next
    case wild
    then have i: "like_items wild_card escape lit (c # cs) = [Any] @ like_items wild_card escape False cs" by simp
    have f: "?f c (wild, lit, cand_vectors w L) = Some (True, False, cand_vectors w L)" using wild by (auto simp: like_step_def)
    show ?thesis using Cons.IH [OF at_items_wild [OF w(1) Cons.prems], of False] unfolding i append_assoc for_each.simps f bind.bind_lunit .
  qed
qed

text \<open>The words that match a pattern, in order.\<close>

definition likes :: "like_item list \<Rightarrow> int list list \<Rightarrow> nat list" where
  "likes its us = filter (\<lambda>i. like_match its (us ! i)) [0..<length us]"

lemma sorted_remdups_adj_distinct:
  fixes xs :: "nat list"
  shows "sorted xs \<Longrightarrow> distinct (remdups_adj xs)"
  by (induction xs rule: remdups_adj.induct) auto

lemma sorted_remdups_adj_set:
  fixes xs :: "nat list"
  assumes "sorted xs" "set xs = set (filter P [0..<n])"
  shows "remdups_adj xs = filter P [0..<n]"
proof (rule sorted_distinct_set_unique)
  show "sorted (remdups_adj xs)" using assms(1) by (rule sorted_remdups_adj)
  show "distinct (remdups_adj xs)" using assms(1) by (rule sorted_remdups_adj_distinct)
  show "sorted (filter P [0..<n])" by (rule sorted_wrt_filter) simp
  show "distinct (filter P [0..<n])" by simp
  show "set (remdups_adj xs) = set (filter P [0..<n])" unfolding remdups_adj_set by (rule assms(2))
qed

lemma reach_end:
  assumes w: "words_ok w"
  shows "{i. (i, w_lens w ! i) \<in> reach w its} = set (likes its (words_of w))"
proof -
  have "length (words_of w) = length (w_starts w)" using w by simp
  moreover have "take (w_lens w ! i) (words_of w ! i) = words_of w ! i" if "i < length (w_starts w)" for i
    using length_nth_words_of [OF w that] by simp
  ultimately show ?thesis by (auto simp: reach_def likes_def)
qed

lemma beyond_words: "\<forall>(i, p)\<in>S. p \<le> w_lens w ! i \<Longrightarrow> {i. (i, w_lens w ! i) \<in> beyond w S} = fst ` S"
  by (force simp: beyond_def)

lemma find_zero_lens:
  "wf_cfg fc \<Longrightarrow> find_condition fc 8 is_zero_like ls = Some (filter (\<lambda>i. ls ! i = 0) [0..<length ls])"
  by (simp add: find_condition_eq is_zero_like_def)

lemma like_eq:
  assumes fc: "wf_cfg fc" and w: "words_ok w" "length (w_chars w) < 2 ^ 62" and m: "pair_merge merge2 (\<le>)"
    and uniq: "\<And>ks. uniq ks = Some (remdups_adj ks)"
    and s: "\<forall>c\<in>set s. 0 \<le> c \<and> c < 256" "0 \<le> escape" "escape < 128"
  shows "like fc merge2 uniq w s wild_card escape =
    (if s \<noteq> [] \<and> last s = escape then Some (Inl ''like: format error. last char is escape'')
     else Some (Inr (likes (like_items wild_card escape False s) (words_of w))))"
proof (cases "s = []")
  case True
  have "words_of w ! i = [] \<longleftrightarrow> w_lens w ! i = 0" if "i < length (w_starts w)" for i
    using length_nth_words_of [OF w(1) that] by auto
  then show ?thesis
    using True w(1) by (auto simp: like_def find_zero_lens [OF fc] likes_def words_ok_def intro!: filter_cong)
next
  case False
  then have m0: "\<not> length s = 0" by simp
  have lst: "rd s (length s - 1) = Some (last s)" using False by (simp add: last_conv_nth)
  have "last s \<in> set s" using False by simp
  then have sc: "(if last s < 128 then last s else last s - 256) = escape \<longleftrightarrow> last s = escape" using s by auto
  show ?thesis
  proof (cases "last s = escape")
    case True
    then show ?thesis unfolding like_def Let_def if_not_P [OF m0] lst bind.bind_lunit sc using False by simp
  next
    case no_error: False
    let ?n = "length (w_starts w)" and ?its = "like_items wild_card escape False s"
    let ?L0 = "map (\<lambda>i. (i, 0 :: nat)) [0..<?n]"
    have nil: "take p (words_of w ! i) = [] \<longleftrightarrow> p = 0" if "i < ?n" "p \<le> w_lens w ! i" for i p
      using length_nth_words_of [OF w(1) that(1)] that(2) by (cases p) auto
    have "x \<in> reach w [] \<longleftrightarrow> x \<in> set ?L0" for x
      unfolding reach_def like_match.simps(1) using nil [of "fst x" "snd x"] by (cases x) (auto simp del: take_eq_Nil)
    then have "set ?L0 = reach w []" by blast
    then have "at_items w [] False ?L0" using start_ok(1) [of w] start_ok(2) [of ?n] by (simp add: at_items_def)
    then obtain wild lit L where loop: "for_each (like_step fc merge2 w wild_card escape) s (False, False, cand_vectors w ?L0) = Some (wild, lit, cand_vectors w L)"
        and at: "at_items w ?its wild L" using like_loop [OF fc w m, of "[]" False ?L0] by fastforce
    have L: "cands_ok w L" "sorted (map fst L)" and r: "(if wild then beyond w (set L) else set L) = reach w ?its"
      using at by (simp_all add: at_items_def)
    have res: "uniq ks = Some (likes ?its (words_of w))" if "sorted ks" "set ks = {i. (i, w_lens w ! i) \<in> reach w ?its}" for ks
      using that unfolding uniq reach_end [OF w(1)] likes_def by (simp add: sorted_remdups_adj_set)
    have vec: "cand_vectors w L = (map (\<lambda>(i, p). w_starts w ! i + p) L, map (\<lambda>(i, p). w_lens w ! i - p) L, map fst L)"
      by (simp only: cand_vectors_def)
    have "like fc merge2 uniq w s wild_card escape = Some (Inr (likes ?its (words_of w)))"
    proof (cases wild)
      case True
      have "set (map fst L) = {i. (i, w_lens w ! i) \<in> reach w ?its}"
      proof -
        have "\<forall>(i, p)\<in>set L. p \<le> w_lens w ! i" using L(1) by (auto simp: cands_ok_def)
        note b = beyond_words [OF this]
        have "beyond w (set L) = reach w ?its" using r True by simp
        then show ?thesis using b by simp
      qed
      note res [OF L(2) this]
      then show ?thesis
        unfolding like_def Let_def if_not_P [OF m0] lst bind.bind_lunit sc if_not_P [OF no_error]
          start_lens [OF w(1)] start_vectors [OF w(1)] loop unfolding vec prod.case if_P [OF True] by simp
    next
      case no_wild: False
      let ?ls = "map (\<lambda>(i, p). w_lens w ! i - p) L"
      let ?K = "filter (\<lambda>(i, p). w_lens w ! i - p = 0) L"
      have "filter (\<lambda>i. ?ls ! i = 0) [0..<length ?ls] = filter (\<lambda>i. (\<lambda>(i, p). w_lens w ! i - p = 0) (L ! i)) [0..<length L]"
        by (auto intro!: filter_cong simp: case_prod_beta')
      then have fz: "find_condition fc 8 is_zero_like ?ls = Some (filter (\<lambda>i. (\<lambda>(i, p). w_lens w ! i - p = 0) (L ! i)) [0..<length L])"
        unfolding find_zero_lens [OF fc] by simp
      have g: "gather (map fst L) (filter (\<lambda>i. (\<lambda>(i, p). w_lens w ! i - p = 0) (L ! i)) [0..<length L]) = Some (map fst ?K)"
        by (rule gather_filter_id)
      have "set L = reach w ?its" using r no_wild by simp
      then have "set (map fst ?K) = {i. (i, w_lens w ! i) \<in> reach w ?its}"
        using L(1) by (force simp: cands_ok_def)
      moreover have "sorted (map fst ?K)" by (rule sorted_filter [OF L(2)])
      ultimately have u: "uniq (map fst ?K) = Some (likes ?its (words_of w))" by (intro res)
      show ?thesis
        unfolding like_def Let_def if_not_P [OF m0] lst bind.bind_lunit sc if_not_P [OF no_error]
          start_lens [OF w(1)] start_vectors [OF w(1)] loop unfolding vec prod.case if_not_P [OF no_wild] fz bind.bind_lunit g u ..
    qed
    then show ?thesis using no_error by simp
  qed
qed

end
