(* ===== verification/WordsFacts.thy ===== *)
theory WordsFacts
  imports WordsSubstr WordsHcat WordsTrim WordsUtf8 WordsSplit WordsLike
begin

text \<open>
  The properties of text/words.cc: what every operation makes of the words of a column, on every
  column whose words lie inside its array of characters, in every build.
\<close>

subsection \<open>A column\<close>

text \<open>Overlapping, unordered and empty words are allowed: \<open>ab\<close>, \<open>b cD\<close>, no character, \<open>cD\<close>.\<close>

definition sample_words :: words where
  "sample_words = \<lparr>w_chars = [97, 98, 32, 99, 68], w_starts = [0, 1, 5, 3], w_lens = [2, 4, 0, 2]\<rparr>"

lemma sample_words_ok: "words_ok sample_words"
  by (simp add: words_ok_alt sample_words_def)

lemma sample_words_of: "words_of sample_words = [[97, 98], [98, 32, 99, 68], [], [99, 68]]"
  by (simp add: words_of_def sample_words_def)

lemma find_cfgs_wf: "wf_cfg find_condition_cfg_ve" "wf_cfg find_condition_cfg_x86"
  by (simp_all add: wf_cfg_def find_condition_cfg_ve_def find_condition_cfg_x86_def)

subsection \<open>Substrings\<close>

text \<open>
  C28. substr (text/words.cc), all six overloads: on a column whose words lie inside its array, with 32-bit
  positions and numbers (one for the column, or one per word), the new starts and lengths lie inside the
  array and word i becomes the valid part of the requested range of the old word, as substr_spec describes
  it: num characters from position pos, counted from the end of the word when pos is negative, cut at both
  ends of the word, nothing when num is negative.  Without a number the rest of the word remains.  The
  hypotheses ends_inside exclude the ranges that end before the first character of the whole array (a
  negative pos, in the first words of a column only): there the code does not return the valid part but the
  whole word, which the lemma substr_before_array of WordsSubstr computes on an example.
\<close>

theorem substr_overloads:
  assumes w: "words_ok w" "length (w_chars w) < 2 ^ 62" and fc: "wf_cfg fc" and one: "int32 pos" "int32 num"
    and ps: "length ps = length (w_starts w)" "list_all int32 ps"
    and nums: "length nums = length (w_starts w)" "list_all int32 nums"
    and inside: "ends_inside w (\<lambda>i. pos) (\<lambda>i. num)" "ends_inside w (\<lambda>i. ps ! i) (\<lambda>i. num)"
      "ends_inside w (\<lambda>i. pos) (\<lambda>i. nums ! i)" "ends_inside w (\<lambda>i. ps ! i) (\<lambda>i. nums ! i)"
  shows "(\<exists>st. substr_num (w_starts w) (w_lens w) pos num = Some st \<and>
      respanned w (\<lambda>i. substr_spec pos num (words_of w ! i)) st) \<and>
    (\<exists>st. substr_poss_num (w_starts w) (w_lens w) ps num = Some (Inr st) \<and>
      respanned w (\<lambda>i. substr_spec (ps ! i) num (words_of w ! i)) st) \<and>
    (\<exists>st. substr_pos_nums fc (w_starts w) (w_lens w) pos nums = Some (Inr st) \<and>
      respanned w (\<lambda>i. substr_spec pos (nums ! i) (words_of w ! i)) st) \<and>
    (\<exists>st. substr_poss_nums fc (w_starts w) (w_lens w) ps nums = Some (Inr st) \<and>
      respanned w (\<lambda>i. substr_spec (ps ! i) (nums ! i) (words_of w ! i)) st) \<and>
    (\<exists>st. substr_pos (w_starts w) (w_lens w) pos = Some st \<and> respanned w (\<lambda>i. suffix_spec pos (words_of w ! i)) st) \<and>
    (\<exists>st. substr_poss (w_starts w) (w_lens w) ps = Some (Inr st) \<and> respanned w (\<lambda>i. suffix_spec (ps ! i) (words_of w ! i)) st)"
  using substr_num_ok [OF w one] substr_poss_num_ok [OF w ps one(2)] substr_pos_nums_ok [OF w fc one(1) nums]
    substr_poss_nums_ok [OF w fc ps nums] substr_pos_ok [OF w one(1)] substr_poss_ok [OF w ps]
    respanned_inside [OF w(1) inside(1)] respanned_inside [OF w(1) inside(2)]
    respanned_inside [OF w(1) inside(3)] respanned_inside [OF w(1) inside(4)]
  unfolding ok_iff_ex by (intro conjI) blast+

theorem substr_overloads_witness:
  "(\<exists>st. substr_num (w_starts sample_words) (w_lens sample_words) (-3) 2 = Some st \<and>
     respanned sample_words (\<lambda>i. substr_spec (-3) 2 (words_of sample_words ! i)) st) \<and>
   map (substr_spec (-3) 2) (words_of sample_words) = [[97], [32, 99], [], [99]]"
proof (intro conjI)
  show "\<exists>st. substr_num (w_starts sample_words) (w_lens sample_words) (-3) 2 = Some st \<and>
     respanned sample_words (\<lambda>i. substr_spec (-3) 2 (words_of sample_words ! i)) st"
    by (rule substr_overloads [where ps = "[0, 1, 2, 3]" and nums = "[1, 1, 2, 3]", THEN conjunct1,
          OF sample_words_ok _ find_cfgs_wf(1)]) (simp_all add: sample_words_def int32_def ends_inside_def upt_rec)
  show "map (substr_spec (-3) 2) (words_of sample_words) = [[97], [32, 99], [], [99]]"
    by (simp add: sample_words_of substr_spec_def)
qed

text \<open>
  C32. The arguments that text/words.cc rejects: an overload of substr with one argument per word raises
  exactly when the number of arguments is not the number of words, horizontal_concat_words raises exactly
  when its columns do not all have as many words as the first, and trim and remove_null raise when starts
  and lengths differ in number.
\<close>

theorem words_size_errors:
  assumes w: "words_ok w" "length (w_chars w) < 2 ^ 62" and fc: "wf_cfg fc" and one: "int32 pos" "int32 num"
    and ps: "list_all int32 ps" and nums: "list_all int32 nums" and ws: "\<forall>u\<in>set ws. words_ok u" and c: "c = words_cfg_ve \<or> c = words_cfg_x86"
  shows "(substr_poss_num (w_starts w) (w_lens w) ps num = Some (Inl ''substr: size error'') \<longleftrightarrow> length ps \<noteq> length (w_starts w)) \<and>
    (substr_pos_nums fc (w_starts w) (w_lens w) pos nums = Some (Inl ''substr: size error'') \<longleftrightarrow> length nums \<noteq> length (w_starts w)) \<and>
    (substr_poss_nums fc (w_starts w) (w_lens w) ps nums = Some (Inl ''substr: size error'') \<longleftrightarrow>
      length ps \<noteq> length (w_starts w) \<or> length nums \<noteq> length (w_starts w)) \<and>
    (substr_poss (w_starts w) (w_lens w) ps = Some (Inl ''substr: size error'') \<longleftrightarrow> length ps \<noteq> length (w_starts w)) \<and>
    (horizontal_concat_words c ws = Some (Inl ''horizontal_concat_words: different number of words'') \<longleftrightarrow>
      (\<exists>u\<in>set ws. length (w_starts u) \<noteq> length (w_starts (hd ws)))) \<and>
    (length starts \<noteq> length lens \<longrightarrow> remove_null V starts lens = Some (Inl ''size of starts and lens are diffent'') \<and>
      trim V chars starts lens cs = Some (Inl ''size of starts and lens are diffent''))"
proof (intro conjI impI)
  show "substr_poss_num (w_starts w) (w_lens w) ps num = Some (Inl ''substr: size error'') \<longleftrightarrow> length ps \<noteq> length (w_starts w)"
    using substr_poss_num_ok [OF w _ ps one(2)] by (cases "length ps = length (w_starts w)") (auto simp: ok_iff_ex substr_poss_num_def)
  show "substr_pos_nums fc (w_starts w) (w_lens w) pos nums = Some (Inl ''substr: size error'') \<longleftrightarrow> length nums \<noteq> length (w_starts w)"
    using substr_pos_nums_ok [OF w fc one(1) _ nums] by (cases "length nums = length (w_starts w)") (auto simp: ok_iff_ex substr_pos_nums_def)
  show "substr_poss_nums fc (w_starts w) (w_lens w) ps nums = Some (Inl ''substr: size error'') \<longleftrightarrow>
      length ps \<noteq> length (w_starts w) \<or> length nums \<noteq> length (w_starts w)"
    using substr_poss_nums_ok [OF w fc _ ps _ nums]
    by (cases "length ps = length (w_starts w) \<and> length nums = length (w_starts w)") (auto simp: ok_iff_ex substr_poss_nums_def)
  show "substr_poss (w_starts w) (w_lens w) ps = Some (Inl ''substr: size error'') \<longleftrightarrow> length ps \<noteq> length (w_starts w)"
    using substr_poss_ok [OF w _ ps] by (cases "length ps = length (w_starts w)") (auto simp: ok_iff_ex substr_poss_def)
  show "horizontal_concat_words c ws = Some (Inl ''horizontal_concat_words: different number of words'') \<longleftrightarrow>
      (\<exists>u\<in>set ws. length (w_starts u) \<noteq> length (w_starts (hd ws)))"
  proof (cases "\<exists>u\<in>set ws. length (w_starts u) \<noteq> length (w_starts (hd ws))")
    case True
    then obtain v vs where ws: "ws = v # vs" "list_ex (\<lambda>u. length (w_starts u) \<noteq> length (w_starts v)) vs"
      by (cases ws) (auto simp: list_ex_iff)
    then show ?thesis using True by (simp add: horizontal_concat_words_def Let_def rd_def)
  next
    case False
    then have same: "\<forall>u\<in>set ws. words_ok u \<and> length (w_starts u) = length (w_starts (hd ws))" using ws by blast
    show ?thesis
    proof (cases "ws = []")
      case False
      then have "\<exists>r. horizontal_concat_words c ws = Some (Inr r)"
        using c w_ve.horizontal_concat_words_eq [OF same] w_x86.horizontal_concat_words_eq [OF same] by blast
      then show ?thesis using same by auto
    qed (simp add: horizontal_concat_words_def)
  qed
  show "remove_null V starts lens = Some (Inl ''size of starts and lens are diffent'')"
    "trim V chars starts lens cs = Some (Inl ''size of starts and lens are diffent'')" if "length starts \<noteq> length lens"
    using that by (simp_all add: remove_null_def trim_def)
qed

theorem words_size_errors_witness:
  "substr_poss (w_starts sample_words) (w_lens sample_words) [0, 0, 0] = Some (Inl ''substr: size error'') \<and>
   horizontal_concat_words words_cfg_ve [sample_words, no_words] = Some (Inl ''horizontal_concat_words: different number of words'')"
proof (rule conjI)
  note e = words_size_errors [where w = sample_words and ps = "[0, 0, 0]" and nums = "[]" and ws = "[sample_words, no_words]" and
      c = words_cfg_ve and fc = find_condition_cfg_ve and pos = 0 and num = 0, OF sample_words_ok _ find_cfgs_wf(1)]
  have small: "length (w_chars sample_words) < 2 ^ 62" by (simp add: sample_words_def)
  have ok: "\<forall>u\<in>set [sample_words, no_words]. words_ok u" using sample_words_ok by (simp add: words_ok_def no_words_def)
  note e = e [OF small _ _ _ _ ok]
  show "substr_poss (w_starts sample_words) (w_lens sample_words) [0, 0, 0] = Some (Inl ''substr: size error'')"
    using e by (simp add: int32_def sample_words_def)
  show "horizontal_concat_words words_cfg_ve [sample_words, no_words] = Some (Inl ''horizontal_concat_words: different number of words'')"
    using e by (simp add: int32_def sample_words_def no_words_def)
qed

subsection \<open>Trimming\<close>

text \<open>
  C17. trim and trim_noalpha (text/words.cc) remove from both ends of every word the longest runs of the
  given characters, or of characters that are no letters, and leave the words inside the array, for every
  block size: the passes over the words still to be shortened end, none is lost by compacting them in lanes,
  and a word that empties is dropped from the work.  trim_noalpha is right when every word has a letter; it
  loads a character before it tests the length, so on a column whose last word has none it reads behind
  the array.
\<close>

theorem trim_words:
  assumes "words_ok w" "length (w_chars w) < 2 ^ 62" "0 < V"
  shows "(\<exists>st. trim V (w_chars w) (w_starts w) (w_lens w) cs = Some (Inr st) \<and> words_ok (with_spans w st) \<and>
      words_of (with_spans w st) =
        map (\<lambda>u. rev (dropWhile (\<lambda>ch. ch \<in> set cs) (rev (dropWhile (\<lambda>ch. ch \<in> set cs) u)))) (words_of w)) \<and>
    ((\<forall>u\<in>set (words_of w). \<exists>ch\<in>set u. \<not> is_noalpha ch) \<longrightarrow>
      (\<exists>st. trim_noalpha V (w_chars w) (w_starts w) (w_lens w) = Some (Inr st) \<and> words_ok (with_spans w st) \<and>
        words_of (with_spans w st) = map (\<lambda>u. rev (dropWhile is_noalpha (rev (dropWhile is_noalpha u)))) (words_of w))) \<and>
    trim_noalpha 4 [49] [0] [1] = None"
proof (intro conjI impI)
  show "\<exists>st. trim V (w_chars w) (w_starts w) (w_lens w) cs = Some (Inr st) \<and> words_ok (with_spans w st) \<and>
      words_of (with_spans w st) =
        map (\<lambda>u. rev (dropWhile (\<lambda>ch. ch \<in> set cs) (rev (dropWhile (\<lambda>ch. ch \<in> set cs) u)))) (words_of w)"
    using trim_eq [OF assms(1,3), of cs] by (auto simp: ok_iff_ex trimmed_head_def trimmed_tail_def comp_def)
  show "\<exists>st. trim_noalpha V (w_chars w) (w_starts w) (w_lens w) = Some (Inr st) \<and> words_ok (with_spans w st) \<and>
        words_of (with_spans w st) = map (\<lambda>u. rev (dropWhile is_noalpha (rev (dropWhile is_noalpha u)))) (words_of w)"
    if "\<forall>u\<in>set (words_of w). \<exists>ch\<in>set u. \<not> is_noalpha ch"
    using trim_noalpha_eq [of w V] assms that by (auto simp: ok_iff_ex lettered_def trimmed_head_def trimmed_tail_def comp_def)
  show "trim_noalpha 4 [49] [0] [1] = None" by (rule trim_noalpha_reads_past)
qed

theorem trim_words_witness:
  "\<exists>st. trim 256 (w_chars sample_words) (w_starts sample_words) (w_lens sample_words) [97, 99, 32] = Some (Inr st) \<and>
    words_ok (with_spans sample_words st) \<and> words_of (with_spans sample_words st) = [[98], [98, 32, 99, 68], [], [68]]"
  using conjunct1 [OF trim_words [OF sample_words_ok, of 256 "[97, 99, 32]"]] by (simp add: sample_words_of) (simp add: sample_words_def)

subsection \<open>Concatenation\<close>

text \<open>
  C22. concat_words and concat_docs (text/words.cc) are equivalent: the vectorised routine, which copies
  blocks of words character position by character position and writes the delimiters afterwards, and the one
  that copies word after word give the same array and the same starts, in both builds, on every column whose
  words lie inside its array: all the words in order, each followed by the delimiter.
\<close>

theorem concat_words_docs_agree:
  assumes "words_ok w" "c = words_cfg_ve \<or> c = words_cfg_x86"
  shows "concat_words c (w_chars w) (w_starts w) (w_lens w) [del] = concat_docs (w_chars w) (w_starts w) (w_lens w) del \<and>
    concat_words c (w_chars w) (w_starts w) (w_lens w) delim =
      Some (concat (map (\<lambda>u. u @ delim) (words_of w)),
            map (\<lambda>i. length (concat (map (\<lambda>u. u @ delim) (take i (words_of w))))) [0..<length (words_of w)])"
proof -
  have "block_start d w i = length (concat (map (\<lambda>u. u @ d) (take i (words_of w))))" for d i
    by (simp add: block_start_def length_concat comp_def)
  then show ?thesis using assms w_ve.concat_words_eq [OF assms(1)] w_x86.concat_words_eq [OF assms(1)]
    by (auto simp: concat_docs_eq delimited_def)
qed

theorem concat_words_docs_agree_witness:
  "concat_words words_cfg_ve (w_chars sample_words) (w_starts sample_words) (w_lens sample_words) [44, 32] =
     Some ([97, 98, 44, 32, 98, 32, 99, 68, 44, 32, 44, 32, 99, 68, 44, 32], [0, 4, 10, 12])"
  using conjunct2 [OF concat_words_docs_agree [OF sample_words_ok, of words_cfg_ve 0 "[44, 32]"]]
  by (simp add: sample_words_of upt_rec)

text \<open>
  append, prepend (text/words.cc) put a string behind, or in front of, every word, in both builds;
  the result has the words one after the other.  prepend moves the last delimiter to the front, so on a
  column without words the number of cells to move wraps below 0 and it leaves its arrays.
\<close>

theorem append_prepend_words:
  assumes w: "words_ok w" and c: "c = words_cfg_ve \<or> c = words_cfg_x86"
    and small: "sum_list (w_lens w) + length (w_starts w) * length s < 2 ^ 62" "length s < 2 ^ 62"
  shows "append_words c w s = Some (column (map (\<lambda>u. u @ s) (words_of w))) \<and>
    (w_starts w \<noteq> [] \<longrightarrow> prepend c w s = Some (column (map (\<lambda>u. s @ u) (words_of w)))) \<and>
    (w_starts w = [] \<longrightarrow> s \<noteq> [] \<longrightarrow> prepend c w s = None) \<and>
    words_ok (column bs) \<and> words_of (column bs) = bs"
  using c
proof
  assume "c = words_cfg_ve"
  then show ?thesis
    using w_ve.append_words_eq [OF w] w_ve.prepend_eq [OF w _ small(1)] w_ve.prepend_no_words [OF _ _ small(2), of w]
    by (simp add: words_ok_column words_of_column)
next
  assume "c = words_cfg_x86"
  then show ?thesis
    using w_x86.append_words_eq [OF w] w_x86.prepend_eq [OF w _ small(1)] w_x86.prepend_no_words [OF _ _ small(2), of w]
    by (simp add: words_ok_column words_of_column)
qed

theorem append_prepend_words_witness:
  "prepend words_cfg_ve sample_words [43] = Some (column [[43, 97, 98], [43, 98, 32, 99, 68], [43], [43, 99, 68]]) \<and>
   append_words words_cfg_ve sample_words [43] = Some (column [[97, 98, 43], [98, 32, 99, 68, 43], [43], [99, 68, 43]])"
  using append_prepend_words [OF sample_words_ok, of words_cfg_ve "[43]"] by (simp add: sample_words_of) (simp add: sample_words_def)

text \<open>
  C29. Columns put together (text/words.cc): merge_words and merge_multi_words give the words of all the
  columns one after the other, two columns with the same result, and horizontal_concat_words
  glues the words of equal position together, in both builds.
\<close>

theorem columns_joined:
  assumes a: "words_ok a" and b: "words_ok b" and ws: "\<forall>u\<in>set ws. words_ok u" and c: "c = words_cfg_ve \<or> c = words_cfg_x86"
  shows "(\<exists>r. merge_words a b = Some r \<and> merge_multi_words [a, b] = Some r \<and> words_ok r \<and> words_of r = words_of a @ words_of b) \<and>
    (\<exists>r. merge_multi_words ws = Some r \<and> words_ok r \<and> words_of r = concat (map words_of ws)) \<and>
    (ws \<noteq> [] \<longrightarrow> (\<forall>u\<in>set ws. length (w_starts u) = m) \<longrightarrow>
      (\<exists>r. horizontal_concat_words c ws = Some (Inr r) \<and> words_ok r \<and>
        words_of r = map (\<lambda>j. concat (map (\<lambda>u. words_of u ! j) ws)) [0..<m]))"
proof (intro conjI impI)
  show "\<exists>r. merge_words a b = Some r \<and> merge_multi_words [a, b] = Some r \<and> words_ok r \<and> words_of r = words_of a @ words_of b"
    using merge_multi_words_eq [of "[a, b]"] a b by (simp add: merge_words_eq words_ok_join words_of_join)
  show "\<exists>r. merge_multi_words ws = Some r \<and> words_ok r \<and> words_of r = concat (map words_of ws)"
    using merge_multi_words_eq [OF ws] words_ok_join_all [OF ws] words_of_join_all [OF ws] by simp
  show "\<exists>r. horizontal_concat_words c ws = Some (Inr r) \<and> words_ok r \<and> words_of r = map (\<lambda>j. concat (map (\<lambda>u. words_of u ! j) ws)) [0..<m]"
    if "ws \<noteq> []" "\<forall>u\<in>set ws. length (w_starts u) = m"
    using that ws c w_ve.horizontal_concat_words_eq [of ws m] w_x86.horizontal_concat_words_eq [of ws m] unfolding glued_def by blast
qed

theorem columns_joined_witness:
  "\<exists>r. horizontal_concat_words words_cfg_ve [sample_words, sample_words] = Some (Inr r) \<and> words_ok r \<and>
     words_of r = [[97, 98, 97, 98], [98, 32, 99, 68, 98, 32, 99, 68], [], [99, 68, 99, 68]]"
  using columns_joined [OF sample_words_ok sample_words_ok, of "[sample_words, sample_words]" words_cfg_ve 4] sample_words_ok
  by (simp add: sample_words_of upt_rec) (simp add: sample_words_def)

subsection \<open>Characters\<close>

text \<open>
  C30. Case, order and emptiness (text/words.cc): tolower and toupper map the characters of every word, initcap
  makes the first character of a word and every character behind a space a capital and the others small
  (on columns whose words do not overlap), reverse turns every word round, ascii gives the first character
  or 0, and remove_null keeps the words that are not empty, in order.
\<close>

theorem words_characters:
  assumes w: "words_ok w" "length (w_chars w) < 2 ^ 62" and fc: "wf_cfg fc" and V: "0 < V"
  shows "(\<exists>r. tolower_words w = Some r \<and> words_ok r \<and> words_of r = map (map tolower_char) (words_of w)) \<and>
    (\<exists>r. toupper_words w = Some r \<and> words_ok r \<and> words_of r = map (map toupper_char) (words_of w)) \<and>
    (disjoint_words w \<longrightarrow> (\<exists>r. initcap fc w = Some r \<and> words_ok r \<and> words_of r = map (capitalised True) (words_of w))) \<and>
    (\<exists>r. reverse_words w = Some r \<and> words_ok r \<and> words_of r = map rev (words_of w)) \<and>
    ascii w = Some (map (\<lambda>u. if u = [] then 0 else hd u) (words_of w)) \<and>
    (\<exists>st. remove_null V (w_starts w) (w_lens w) = Some (Inr st) \<and> words_ok (with_spans w st) \<and>
      words_of (with_spans w st) = filter (\<lambda>u. u \<noteq> []) (words_of w))"
  using w V words_of_capped [OF w(1)] words_of_remove_null [OF w(1) refl]
  by (auto simp: tolower_words_eq toupper_words_eq words_of_mapped words_ok_with_chars initcap_eq [OF w(1) fc] reverse_words_eq words_reversed
      ascii_eq remove_null_eq Let_def)

theorem words_characters_witness:
  "(\<exists>r. initcap find_condition_cfg_x86 \<lparr>w_chars = [97, 98, 32, 99, 68], w_starts = [0, 2], w_lens = [2, 3]\<rparr> = Some r \<and> words_ok r \<and>
     words_of r = [[65, 98], [32, 67, 100]]) \<and>
   (\<exists>st. remove_null 4 (w_starts sample_words) (w_lens sample_words) = Some (Inr st) \<and> words_ok (with_spans sample_words st) \<and>
     words_of (with_spans sample_words st) = [[97, 98], [98, 32, 99, 68], [99, 68]])"
proof (rule conjI)
  let ?w = "\<lparr>w_chars = [97, 98, 32, 99, 68], w_starts = [0, 2], w_lens = [2, 3]\<rparr> :: words"
  have "disjoint_words ?w" by (auto simp: disjoint_words_def less_Suc_eq numeral_2_eq_2)
  moreover have "words_of ?w = [[97, 98], [32, 99, 68]]" by (simp add: words_of_def)
  ultimately show "\<exists>r. initcap find_condition_cfg_x86 ?w = Some r \<and> words_ok r \<and> words_of r = [[65, 98], [32, 67, 100]]"
    using words_characters [of ?w, OF _ _ find_cfgs_wf(2), of 1] by (simp add: words_ok_alt toupper_char_def tolower_char_def)
  show "\<exists>st. remove_null 4 (w_starts sample_words) (w_lens sample_words) = Some (Inr st) \<and> words_ok (with_spans sample_words st) \<and>
     words_of (with_spans sample_words st) = [[97, 98], [98, 32, 99, 68], [99, 68]]"
    using words_characters [OF sample_words_ok _ find_cfgs_wf(1), of 4] by (simp add: sample_words_of) (simp add: sample_words_def)
qed

subsection \<open>UTF-8 and UTF-32\<close>

text \<open>
  C21. utf32_to_utf8 and utf8_to_utf32 (text/words.cc) are inverse: on every column of code points below
  2 to the power 21 the first returns a well-formed column with every word encoded, one to four bytes a
  character, and the second maps that column back to the original, starts and lengths included, in every
  combination of the two builds.
\<close>

theorem utf8_utf32_roundtrip:
  assumes w: "words_ok w" "length (w_chars w) < 2 ^ 60" and fc: "wf_cfg fc" "wf_cfg fc'"
    and cps: "\<forall>ch\<in>set (w_chars w). 0 \<le> ch \<and> ch < 2 ^ 21"
    and c: "c = words_cfg_ve \<or> c = words_cfg_x86" "c' = words_cfg_ve \<or> c' = words_cfg_x86"
  shows "\<exists>e. utf32_to_utf8 c fc w = Some e \<and> words_ok e \<and> words_of e = map (\<lambda>u. concat (map encode u)) (words_of w) \<and>
    utf8_to_utf32 c' fc' e = Some w"
proof -
  have cp: "\<forall>ch\<in>set (w_chars w). code_point ch" using cps by (simp add: code_point_def)
  have "utf32_to_utf8 c fc w = Some (encoded w)"
    using c(1) w_ve.utf32_to_utf8_eq [OF w(1) fc(1) w(2)] w_x86.utf32_to_utf8_eq [OF w(1) fc(1) w(2)] by blast
  moreover have "utf8_to_utf32 c' fc' (encoded w) = Some w"
    using c(2) w_ve.utf8_to_utf32_encoded [OF w(1) fc(2) cp w(2)] w_x86.utf8_to_utf32_encoded [OF w(1) fc(2) cp w(2)] by blast
  ultimately show ?thesis using encoded_words [OF w(1)] by blast
qed

theorem utf8_utf32_roundtrip_witness:
  "(\<exists>e. utf32_to_utf8 words_cfg_ve find_condition_cfg_ve \<lparr>w_chars = [97, 233, 12354, 128512], w_starts = [2, 0], w_lens = [2, 2]\<rparr> = Some e \<and>
     words_ok e \<and> words_of e = [encode 12354 @ encode 128512, encode 97 @ encode 233] \<and>
     utf8_to_utf32 words_cfg_x86 find_condition_cfg_x86 e = Some \<lparr>w_chars = [97, 233, 12354, 128512], w_starts = [2, 0], w_lens = [2, 2]\<rparr>)
   \<and> encode 233 = [195, 169]"
proof (rule conjI)
  let ?w = "\<lparr>w_chars = [97, 233, 12354, 128512], w_starts = [2, 0], w_lens = [2, 2]\<rparr> :: words"
  have "words_of ?w = [[12354, 128512], [97, 233]]" by (simp add: words_of_def)
  then show "\<exists>e. utf32_to_utf8 words_cfg_ve find_condition_cfg_ve ?w = Some e \<and>
     words_ok e \<and> words_of e = [encode 12354 @ encode 128512, encode 97 @ encode 233] \<and>
     utf8_to_utf32 words_cfg_x86 find_condition_cfg_x86 e = Some ?w"
    using utf8_utf32_roundtrip [of ?w, OF _ _ find_cfgs_wf, of words_cfg_ve words_cfg_x86] by (simp add: words_ok_alt)
  show "encode 233 = [195, 169]" by (simp add: encode_eq code_point_def)
qed

end
