(* ===== verification/TextFacts.thy ===== *)
theory TextFacts
  imports WordsFacts SetRuns
begin

text \<open>
  The properties of the searches in text: text/find.cc, and from text/words.cc the splitting into words,
  the headings of documents, the search for a string and the patterns of \<open>like\<close>, for both builds.
\<close>

subsection \<open>The two builds\<close>

text \<open>
  The set operations that the text functions call.  The vector build reads one cell behind the left input of
  a merge, whose value is arbitrary.
\<close>

definition build_merge :: "bool \<Rightarrow> nat \<Rightarrow> nat list \<Rightarrow> nat list \<Rightarrow> nat list option" where
  "build_merge ve behind a b =
     (if ve then set_merge_sx set_vlen (a @ [behind]) (length a) b else Some (set_merge_x86 a b))"

definition build_merge_pair ::
  "bool \<Rightarrow> nat \<Rightarrow> nat list \<Rightarrow> nat list \<Rightarrow> nat list \<Rightarrow> nat list \<Rightarrow> (nat list \<times> nat list) option" where
  "build_merge_pair ve behind lk lv rk rv =
     (if ve then set_merge_pair_sx set_vlen (lk @ [behind]) lv (length lk) rk rv (replicate (length lk + length rk) (0, 0))
      else set_merge_pair_x86 lk lv (length lk) rk rv (length rk))"

definition build_unique :: "bool \<Rightarrow> nat list \<Rightarrow> nat list option" where
  "build_unique ve ks = (if ve then set_unique_sx set_vlen ks (length ks) else set_unique_x86 ks (length ks))"

lemma set_vlen_pos: "0 < set_vlen"
  by (simp add: set_vlen_def)

interpretation build: two_way_merge "build_merge ve behind" sorted for ve :: bool and behind :: nat
proof unfold_locales
  fix a b :: "nat list"
  assume "sorted a" "sorted b"
  then have "set_merge_sx set_vlen (a @ [behind]) (length a) b = Some (set_merge_x86 a b)"
    using set_merge_sx_eq [OF set_vlen_pos, of "length a" "a @ [behind]" b] by (simp add: set_merge_x86_def)
  then show "ok (build_merge ve behind a b) (\<lambda>m. sorted m \<and> mset m = mset a + mset b)"
    using x86_merge.merge2 [OF \<open>sorted a\<close> \<open>sorted b\<close>] by (simp add: build_merge_def)
qed

interpretation build_pair: pair_merge "build_merge_pair ve behind" "(\<le>)" for ve :: bool and behind :: nat
proof unfold_locales
  fix p q :: "nat list \<times> nat list"
  assume p: "part_ok (\<le>) p" and q: "part_ok (\<le>) q"
  have "set_merge_pair_sx set_vlen (fst p @ [behind]) (snd p) (length (fst p)) (fst q) (snd q) (replicate (length (fst p) + length (fst q)) (0, 0)) =
      set_merge_pair_x86 (fst p) (snd p) (length (fst p)) (fst q) (snd q) (length (fst q))"
    using set_merge_pair_sx_eq [OF set_vlen_pos, of "length (fst p)" "fst p @ [behind]" "snd p" "fst q" "snd q"] p q
    by (simp add: set_merge_pair_x86_eq part_ok_def)
  then show "ok (build_merge_pair ve behind (fst p) (snd p) (fst q) (snd q))
    (\<lambda>m. part_ok (\<le>) m \<and> mset (pairs m) = mset (pairs p) + mset (pairs q) \<and>
      (\<forall>k. filter (\<lambda>x. fst x = k) (pairs m) = filter (\<lambda>x. fst x = k) (pairs p) @ filter (\<lambda>x. fst x = k) (pairs q)))"
    using x86_pair.merge2 [OF p q] by (simp add: build_merge_pair_def)
qed

lemma build_unique_eq: "build_unique ve ks = Some (remdups_adj ks)"
  by (simp add: build_unique_def set_unique_sx_eq [OF set_vlen_pos] set_unique_x86_eq)

subsection \<open>Strings\<close>

text \<open>
  C20. find (text/find.cc) returns all positions of the string in the part of the array it is given, in
  order and overlapping ones included, for both builds and every size of the blocks it works in: the blocks
  overlap by the length of the string less one, so an occurrence across a border is found, and found once.
  The size of a block is the argument in megabytes, in cells of four bytes, computed modulo 2 to the power 64:
  the function raises when the argument is 0 or a block is smaller than the string, and when the size wraps
  to 0 and the string is empty it divides by zero (None).
\<close>

theorem find_text_occurrences:
  assumes c: "wf_cfg c" and fit: "base + size' \<le> length vp" "length vp < 2 ^ 62"
  shows "find_text c vp base size' s mb =
    (let block_size = mb * 2 ^ 20 mod 2 ^ 64 div 4 in
     if mb = 0 then Some (Inl ''block_size is 0'')
     else if block_size < length s then Some (Inl ''to_find size is larger than block_size'')
     else if block_size = 0 then None
     else Some (Inr (occurrences s (take size' (drop base vp)))))"
proof -
  have B: "mb * 2 ^ 20 mod 2 ^ 64 div 4 = find_block_size mb"
    by (simp add: find_block_size_def mult.assoc)
  show ?thesis
  proof (cases "mb = 0 \<or> find_block_size mb < length s \<or> find_block_size mb = 0")
    case True
    then show ?thesis unfolding B Let_def by (auto simp: find_text_def find_in_blocks_def)
  next
    case False
    then show ?thesis using find_text_eq [OF c fit, of s mb] unfolding B Let_def by simp
  qed
qed

theorem find_text_occurrences_witness:
  "find_text find_text_cfg_ve [97, 98, 97, 98, 97, 120] 1 4 [97, 98, 97] 10 = Some (Inr [1]) \<and>
   find_text find_text_cfg_x86 [97, 98, 97, 98, 97, 120] 0 6 [97, 98, 97] 10 = Some (Inr [0, 2]) \<and>
   find_text find_text_cfg_x86 [97, 98] 0 2 [97] 17592186044416 = Some (Inl ''to_find size is larger than block_size'') \<and>
   find_text find_text_cfg_x86 [97, 98] 0 2 [] 17592186044416 = None"
  using find_text_occurrences [OF find_cfg_text_wf(1), of 1 4 "[97, 98, 97, 98, 97, 120]" "[97, 98, 97]" 10]
    find_text_occurrences [OF find_cfg_text_wf(2), of 0 6 "[97, 98, 97, 98, 97, 120]" "[97, 98, 97]" 10]
    find_text_occurrences [OF find_cfg_text_wf(2), of 0 2 "[97, 98]" "[97]" 17592186044416]
    find_text_occurrences [OF find_cfg_text_wf(2), of 0 2 "[97, 98]" "[]" 17592186044416]
  by (simp add: occurrences_def occurs_at_def upt_rec Let_def)

text \<open>
  C33. split_to_words (text/words.cc), for one delimiter and for several, in both builds: the starts and
  lengths lie inside the array and the words are the fields between the delimiters, empty ones included; a
  delimiter at the very end closes the last word and does not open another, and an empty text has no words.
  The delimiters are distinct and below 128: split_duplicate_delims and split_high_delim in WordsSplit
  compute what becomes of others.
\<close>

theorem split_to_words_fields:
  assumes c: "wf_cfg c" and fit: "base + n \<le> length vp" "length vp < 2 ^ 62" and delims: "delims_ok delims" "delims \<noteq> []"
  shows "\<exists>starts lens. split_to_words c (build_merge ve behind) vp base n base delims = Some (Inr (starts, lens)) \<and>
    words_ok \<lparr>w_chars = vp, w_starts = starts, w_lens = lens\<rparr> \<and>
    words_of \<lparr>w_chars = vp, w_starts = starts, w_lens = lens\<rparr> = split_words (set delims) (take n (drop base vp))"
proof -
  obtain starts lens where r: "(starts, lens) = split_result (set delims) base (take n (drop base vp))"
    by (metis surj_pair)
  have "n + base < 2 ^ 62" using fit by linarith
  note eq = split_to_words_eq [OF c fit this delims build.two_way_merge_axioms]
  show ?thesis using split_result_words [OF fit(1) r] eq [folded r] by blast
qed

theorem split_to_words_fields_witness:
  "\<exists>starts lens. split_to_words find_text_cfg_ve (build_merge True 7) [44, 97, 98, 44, 59, 99, 59] 1 6 1 [44, 59] = Some (Inr (starts, lens)) \<and>
    words_of \<lparr>w_chars = [44, 97, 98, 44, 59, 99, 59], w_starts = starts, w_lens = lens\<rparr> = [[97, 98], [], [99]]"
proof -
  have "split_words (set [44, 59]) (take 6 (drop 1 [44, 97, 98, 44, 59, 99, 59])) = [[97, 98], [], [99 :: int]]"
    by (simp add: split_words_def)
  then show ?thesis
    using split_to_words_fields [OF find_cfg_text_wf(1), of 1 6 "[44, 97, 98, 44, 59, 99, 59]" "[44, 59]" True 7]
    by (auto simp: delims_ok_def)
qed

text \<open>
  C34. remove_doc_heading (text/words.cc): every document loses everything up to the end of the first
  occurrence of the string that ends the heading; a document without it stays as it is.  Starts and lengths
  still lie inside the array.
\<close>

theorem remove_doc_heading_cuts:
  assumes "words_ok w" "length (w_chars w) < 2 ^ 62" "wf_cfg c" "length del \<le> 2621440"
  shows "\<exists>st. remove_doc_heading c (w_chars w) (w_starts w) (w_lens w) del = Some (Inr st) \<and>
    respanned w (\<lambda>i. without_heading del (words_of w ! i)) st"
  using remove_doc_heading_eq [OF assms] by (auto simp: ok_iff_ex)

theorem remove_doc_heading_cuts_witness:
  "(\<exists>st. remove_doc_heading find_text_cfg_ve (w_chars sample_words) (w_starts sample_words) (w_lens sample_words) [32] = Some (Inr st) \<and>
     respanned sample_words (\<lambda>i. without_heading [32] (words_of sample_words ! i)) st) \<and>
   map (without_heading [32]) (words_of sample_words) = [[97, 98], [99, 68], [], [99, 68]]"
proof (rule conjI)
  show "\<exists>st. remove_doc_heading find_text_cfg_ve (w_chars sample_words) (w_starts sample_words) (w_lens sample_words) [32] = Some (Inr st) \<and>
     respanned sample_words (\<lambda>i. without_heading [32] (words_of sample_words ! i)) st"
    by (rule remove_doc_heading_cuts [OF sample_words_ok _ find_cfg_text_wf(1)]) (simp_all add: sample_words_def)
  show "map (without_heading [32]) (words_of sample_words) = [[97, 98], [99, 68], [], [99, 68]]"
    unfolding sample_words_of by code_simp
qed

subsection \<open>Words\<close>

text \<open>
  C19. search (text/words.cc): for a column whose words lie inside its array, in both builds, the two result
  vectors list every occurrence of the string in every word, by word and then by position, each with the
  index of its word and its position in that word; overlapping occurrences are all listed, and nothing is
  found across the border of two words or when the string is empty.
\<close>

theorem search_all_occurrences:
  assumes "wf_cfg fc" "words_ok w" "length (w_chars w) < 2 ^ 62"
  shows "search fc (build_merge_pair ve behind) w s =
    Some (map fst (all_occurrences s (words_of w)), map snd (all_occurrences s (words_of w)))"
  by (rule search_eq [OF assms build_pair.pair_merge_axioms])

theorem search_all_occurrences_witness:
  "search find_condition_cfg_ve (build_merge_pair True 7) sample_words [98] = Some ([0, 1], [1, 0]) \<and>
   search find_condition_cfg_x86 (build_merge_pair False 7) sample_words [99, 68] = Some ([1, 3], [2, 0])"
proof -
  have "all_occurrences [98] [[97, 98], [98, 32, 99, 68], [], [99, 68]] = [(0, 1), (1, 0)]"
    "all_occurrences [99, 68] [[97, 98], [98, 32, 99, 68], [], [99, 68]] = [(1, 2), (3, 0)]" by code_simp+
  moreover have "length (w_chars sample_words) < 2 ^ 62" by (simp add: sample_words_def)
  ultimately show ?thesis
    using search_all_occurrences [OF find_cfgs_wf(1) sample_words_ok, of True 7 "[98]"]
      search_all_occurrences [OF find_cfgs_wf(2) sample_words_ok, of False 7 "[99, 68]"]
    unfolding sample_words_of by simp
qed

text \<open>
  C18. like (text/words.cc), in both builds: for a pattern of bytes and an escape character below 128 the
  function raises exactly when the last character of the pattern is the escape character, and otherwise
  returns the indices of the words that match the pattern as a whole, in order and each once.  Escape makes
  the next character literal, the wild card stands for any number of characters, everything else for itself.
\<close>

theorem like_selects_matches:
  assumes "wf_cfg fc" "words_ok w" "length (w_chars w) < 2 ^ 62" "\<forall>c\<in>set s. 0 \<le> c \<and> c < 256" "0 \<le> escape" "escape < 128"
  shows "like fc (build_merge_pair ve behind) (build_unique ve) w s wild_card escape =
    (if s \<noteq> [] \<and> last s = escape then Some (Inl ''like: format error. last char is escape'')
     else Some (Inr (likes (like_items wild_card escape False s) (words_of w))))"
  by (rule like_eq [OF assms(1-3) build_pair.pair_merge_axioms build_unique_eq assms(4-6)])

theorem like_selects_matches_witness:
  "like find_condition_cfg_ve (build_merge_pair True 7) (build_unique True) sample_words [37, 99, 37] 37 92 = Some (Inr [1, 3]) \<and>
   like find_condition_cfg_x86 (build_merge_pair False 7) (build_unique False) sample_words [97, 92, 92] 37 92 =
     Some (Inl ''like: format error. last char is escape'')"
proof -
  have small: "length (w_chars sample_words) < 2 ^ 62" by (simp add: sample_words_def)
  have match: "like_match (like_items 37 92 False [37, 99, 37]) u \<longleftrightarrow> 99 \<in> set u" for u :: "int list"
  proof -
    have any: "like_match [Any] v \<longleftrightarrow> True" for v by (auto intro!: bexI [of _ "length v"])
    have "like_match [Any, Lit 99, Any] u \<longleftrightarrow> (\<exists>k\<in>{0..length u}. drop k u \<noteq> [] \<and> hd (drop k u) = 99)"
      unfolding like_match.simps(2) like_match.simps(3) [of "[Lit 99, Any]"] any by simp
    also have "\<dots> \<longleftrightarrow> (\<exists>k<length u. u ! k = 99)"
    proof -
      have "drop k u \<noteq> [] \<and> hd (drop k u) = 99 \<longleftrightarrow> k < length u \<and> u ! k = 99" for k
        by (cases "k < length u") (simp_all add: hd_drop_conv_nth)
      then show ?thesis unfolding Bex_def atLeastAtMost_iff by (meson le0 less_imp_le)
    qed
    finally show ?thesis by (simp add: in_set_conv_nth)
  qed
  have "likes (like_items 37 92 False [37, 99, 37]) [[97, 98], [98, 32, 99, 68], [], [99, 68]] = [1, 3]"
    unfolding likes_def match by code_simp
  then show ?thesis
    using like_selects_matches [OF find_cfgs_wf(1) sample_words_ok small, of "[37, 99, 37]" 92 True 7 37]
      like_selects_matches [OF find_cfgs_wf(2) sample_words_ok small, of "[97, 92, 92]" 92 False 7 37]
    unfolding sample_words_of by simp
qed

end
