(* ===== verification/Spec2Isabelle.thy ===== *)
theory Spec2Isabelle
  imports JoinTheorems CrsFacts FindCondition MultiBounds PrefixSum SetOps SetRuns MultiRadix RadixFloat DatetimeFacts IntParse TextFacts
begin

text \<open>
  Verification library for the algorithmic core of frovedis (src/src/frovedis), a C++ framework of
  vectorised data processing for the NEC SX-Aurora vector engine, with a scalar x86 build of the
  same interfaces.  The framework's distributed layers (MPI runtime, dataframes, matrices, machine
  learning, language bindings) are built on a few dozen sequential kernels, which exist in a
  vectorised form.  Those kernels are where the difficult index arithmetic is; they, and the local
  structures directly above them (columns of words, hash tables, joins, sparse matrices), are what is
  modelled here.

  \<^bold>\<open>How the code is represented.\<close>  A C++ routine that reads or writes arrays is a function into
  \<open>option\<close>: \<open>None\<close> is undefined behaviour (an access out of bounds, a missing cell) or a loop that
  does not end, so that a theorem of the form \<open>f x = Some y\<close> includes memory safety and termination.
  An exception is a value: \<open>Some (Inl message)\<close>.  Array cells are read and written by \<open>rd\<close> and \<open>wr\<close>,
  loops over a range are \<open>for_each\<close>, copying loops are \<open>copy_cells\<close>, loops with a condition are \<open>cwhile\<close>
  (a partial function: \<open>None\<close> where it does not end).  No fuel is used anywhere.  \<open>size_t\<close> values are
  natural numbers; sizes, offsets and products of them are taken to stay below 2 to the power 64,
  which a vector in memory implies.  Build constants (numbers of lanes, thresholds) are arguments or
  a record with the values of the two builds, and the theorems hold for all of them.  The vector
  registers of a quantity, which the code splits over two to four arrays, are one list in the order
  in which the lanes are visited; a vector statement is the loop over its lanes.

  \<^bold>\<open>Theories and code.\<close>
  \<^item> \<open>Prelude\<close>: array access, loops, and the predicate \<open>ok m P\<close> (\<open>m\<close> returns, and its value satisfies
    \<open>P\<close>) with one rule per construct; the bundle \<open>ok_simps\<close> and these rules carry the proofs about loops.
  \<^item> \<open>Rake\<close>: the raked scan: lane \<open>i\<close> reads positions \<open>each * i\<close> onwards, all lanes in step, writes what it
    finds to its own part of a buffer, and the parts are compacted.  Locale \<open>rake_visit\<close>.
  \<^item> \<open>FindCondition\<close>: core/find_condition.hpp and core/conditions_for_find.hpp.
  \<^item> \<open>Bounds\<close>: core/lower_bound.hpp and core/upper_bound.hpp, blocks of binary searches that run a fixed
    number of rounds.  Locale \<open>bisect\<close>, shared with \<open>MultiBounds\<close>.
  \<^item> \<open>MultiBounds\<close>: core/multivalue_lower_bound.hpp and core/multivalue_upper_bound.hpp, the same on rows.
  \<^item> \<open>PrefixSum\<close>: core/prefix_sum.hpp.
  \<^item> \<open>SetSeq\<close>: core/set_operations.hpp, the scalar build over the algorithms of the C++ library, and the
    multiway merges.  Locales \<open>two_way_merge\<close> and \<open>pair_merge\<close> are what the multiway merges need.
  \<^item> \<open>SetLanes\<close>, \<open>SetBuild\<close>, \<open>SetOps\<close>: the vector build of the same operations: cuts of both arrays that
    are moved to key boundaries, lane-parallel two-way loops, compaction.  Locale \<open>lane_kernel\<close> is the
    contract of one lane's step, \<open>split_kernel\<close> that of an operation that may be computed on slices,
    \<open>cut_order\<close> that of the cutting searches; \<open>merge_like\<close> adds that nothing is dropped.
  \<^item> \<open>SetRuns\<close>: set_separate, set_unique and set_is_unique of the vector build.
  \<^item> \<open>StableSort\<close>: sorting by several digits, ranks of a stable sort, scattering by rank.
  \<^item> \<open>RadixSort\<close>: core/radix_sort.hpp and core/radix_sort.incl: insertion sort, the lane-wise counting
    passes over bytes, the flip of the top bit.  \<open>RadixPass\<close> proves one pass (locale \<open>radix_build\<close>: the
    constants and the prefix sum of a build), \<open>RadixStable\<close> the passes and the insertion sort,
    \<open>RadixKeys\<close> the front ends (locale \<open>radix_elem\<close>: elements with a key that can be changed), and
    \<open>RadixFloat\<close> the overloads for float and double keys on their bit patterns.
  \<^item> \<open>MultiRadix\<close>: core/multivalue_radix_sort.hpp and core/multivalue_utility.hpp, the sort of rows
    column by column.  Locale \<open>column_sorter\<close> is what it needs of the sort of one column.
  \<^item> \<open>Calendar\<close>, \<open>Datetime\<close>, \<open>DatetimeFacts\<close>: text/datetime_utility.hpp and datetime_utility.cc: dates
    as day numbers, datetimes as 64-bit counts of nanoseconds, their fields, truncations and shifts.  A
    signed overflow is \<open>None\<close>, so the ranges in which nothing overflows are part of the theorems.
  \<^item> \<open>IntWords\<close>, \<open>IntDigits\<close>, \<open>IntPrint\<close>, \<open>IntParse\<close>: text/int_to_words.hpp, int_to_words.cc and
    parseint.hpp: columns of integers printed and parsed in lockstep over blocks of words.  Locale
    \<open>words_build\<close>: the block sizes and the prefix sum of a build.
  \<^item> \<open>Words\<close>, \<open>WordsSubstr\<close>, \<open>WordsBasic\<close>, \<open>WordsTrim\<close>, \<open>WordsConcat\<close>, \<open>WordsHcat\<close>, \<open>WordsUtf\<close>, \<open>WordsUtf8\<close>,
    \<open>WordsFacts\<close>: text/words.cc: columns of words (an array of characters, starts and lengths).  \<open>words_ok\<close> is
    their invariant, \<open>words_of\<close> reads the words, and every operation is proved on that list.  Locale
    \<open>span_trim\<close> is the contract of one end of the trimming loop, over the raked scan.
  \<^item> \<open>Find\<close>: text/find.cc, the positions of a string in an array, in overlapping blocks; locale \<open>find_visit\<close>
    extends the raked scan.  \<open>WordsSplit\<close>: split_to_words and remove_doc_heading of text/words.cc on top of it.
    \<open>WordsSearch\<close>, \<open>WordsLike\<close>: search and like, which advance a list of candidate positions character by
    character; what they find is specified on the list of words.  \<open>TextFacts\<close> has the properties, for both builds.
  \<^item> \<open>Hashtable\<close>, \<open>HashScan\<close>, \<open>HashBuild\<close>, \<open>HashMap\<close>, \<open>HashLookup\<close>, \<open>HashFacts\<close>: dataframe/hashtable.hpp.
    A table is a record of cells and of a sorted array of conflicts; \<open>HashMap\<close> gives its invariant and the
    map it stands for.  It calls the radix sort, \<open>set_is_unique\<close> and \<open>lower_bound\<close>.  Locales \<open>miss_visit\<close>
    and \<open>miss2_visit\<close> extend the raked scan, \<open>hash_build\<close> is what a build provides.
  \<^item> \<open>Join\<close>, \<open>JoinLanes\<close>, \<open>JoinMerge\<close>, \<open>JoinPairs\<close>, \<open>JoinFacts\<close>, \<open>JoinTheorems\<close>: dataframe/join.hpp and join.cc:
    equi, outer, star and inequality joins over sort, hash table and binary search.  Locale
    \<open>lane_rounds\<close> is the contract of a lane of the merge join.
  \<^item> \<open>Scatter\<close>: loops that update an array at computed positions.  Locale \<open>order_free\<close>.
  \<^item> \<open>Crs\<close>, \<open>CrsArith\<close>, \<open>CrsParts\<close>: matrix/crs_matrix.hpp, local sparse matrices: rows, transposition,
    dense form, products, sums, scaling, cutting and joining, construction from triplets.  \<open>CrsRows\<close>
    states the invariant \<open>crs_ok\<close> and reads a matrix as a list of rows; \<open>CrsConv\<close>, \<open>CrsOps\<close>, \<open>CrsProducts\<close>
    and \<open>CrsTranspose\<close> (locale \<open>crs_build\<close>) prove each operation on that list; \<open>CrsFacts\<close> has the properties.

  \<^bold>\<open>What the theorems show.\<close>  The searches return the positions at which the condition holds, in order,
  whatever path is taken; the bounds count the smaller (or not larger) elements, for which the fixed
  number of rounds is proved sufficient; the vector build of prefix_sum, of the set operations and of
  the compactions returns what the scalar build returns, and the scalar build the operation on
  multisets; the multiway merges return the stable sorted merge.  The radix sorts return the stable sort by the
  key, signed or unsigned, of 4 or 8 bytes, in either build and direction, and the sort of rows the stable
  lexicographic one; float keys are sorted by value unless one is NaN or -0.  Where the vector build deviates,
  that is a theorem too: -0.0 among positive float keys, the intersection of arrays with duplicates, the read behind the array in
  advance_to_split_vreg, and the duplicate that set_is_unique misses.

  Dates and day numbers are in bijection, every 64-bit datetime decodes and encodes without overflow,
  and months are added by clipping the day; integers are printed in decimal and parsed back.
  The operations on columns of words do the same to every word, whether it is cut, trimmed, extended,
  glued, recoded or turned round, and the UTF conversions are inverse.  Searches in text return every
  occurrence, like the words that match the pattern, split_to_words the fields between delimiters.  A hash
  table stands for the map of its pairs, and lookups report exactly the missing keys.  The joins of
  both builds return the pairs of rows whose keys are related and the outer joins the left rows without
  partner.  The operations on sparse matrices keep the invariant, stay inside their arrays, and are the
  operations of linear algebra on the rows; cutting, joining and the dense form lose nothing.  Further
  deviations with a theorem or a test: the last row of get_row, the 32-bit counters of the sums of long rows,
  positions of missing keys in a vector of the key type, the sentinel of the merge join; substrings that end
  before the start of the array, prepend on a column without words, the read of trim_noalpha outside the array,
  splitting at a repeated delimiter or at one above 127, and a size of the blocks of a search that wraps to 0.

  \<^bold>\<open>Bounds.\<close>  Where a loop of the code runs a fixed number of rounds (binary searches, digits of an
  integer, passes over key bytes) the number is the code's own and proved sufficient.  32-bit counters
  and signed arithmetic are modelled at their width, and the hypotheses under which they do not
  overflow are written in the theorems.

  \<^bold>\<open>Not modelled.\<close>  Floating-point arithmetic (so the searches for NaN and infinities, and additions that
  are not associative; float keys of the radix sort are bit patterns with the IEEE order, and values of
  matrices come from a semiring); the forwarding overloads that only unpack a vector; the MPI
  runtime (core/dvector.hpp, core/node_local.hpp, core/mpi_rpc.cc), whose behaviour is that of
  a message-passing library without source here, and with it the distributed columns and tables of
  dataframe/ and the distributed matrices; the learning algorithms of ml/, which are numerical
  and have no exact contract; file input; the bindings of foreign_if/.
\<close>

end
